(* ===== verification/Prelude.thy ===== *)
theory Prelude
  imports Main
begin

text \<open>
  Shared vocabulary of the development: the C integer types the code counts with, written
  out with their wrap-around, the failures an operation can end in, and the generic facts
  on lists that several components need.

  An unsigned 64-bit value is a \<open>nat\<close> below \<open>U64\<close>; \<open>add64\<close>, \<open>sub64\<close> and \<open>mul64\<close> are C's
  operators on it. The types of 32 and 16 bits are treated the same way.
\<close>

named_theorems u64_simps \<open>arithmetic of the unsigned C types below their bound\<close>

section \<open>Unsigned machine arithmetic\<close>

definition U64 :: nat where
  "U64 = 18446744073709551616"

definition U32 :: nat where
  "U32 = 4294967296"

definition U16 :: nat where
  "U16 = 65536"

definition add64 :: "nat \<Rightarrow> nat \<Rightarrow> nat" where
  "add64 a b = (a + b) mod U64"

definition sub64 :: "nat \<Rightarrow> nat \<Rightarrow> nat" where
  "sub64 a b = (a + (U64 - b mod U64)) mod U64"

definition mul64 :: "nat \<Rightarrow> nat \<Rightarrow> nat" where
  "mul64 a b = (a * b) mod U64"

definition add32 :: "nat \<Rightarrow> nat \<Rightarrow> nat" where
  "add32 a b = (a + b) mod U32"

text \<open>The same operators at any size \<open>m\<close> of the type.\<close>

definition addm :: "nat \<Rightarrow> nat \<Rightarrow> nat \<Rightarrow> nat" where
  "addm m a b = (a + b) mod m"

definition subm :: "nat \<Rightarrow> nat \<Rightarrow> nat \<Rightarrow> nat" where
  "subm m a b = (a + (m - b mod m)) mod m"

lemma U64_pos [simp]: "0 < U64"
  by (simp add: U64_def)

lemma U32_pos [simp]: "0 < U32"
  by (simp add: U32_def)

lemma U16_pos [simp]: "0 < U16"
  by (simp add: U16_def)

lemma add64_eq [u64_simps]: "a + b < U64 \<Longrightarrow> add64 a b = a + b"
  by (simp add: add64_def)

lemma add64_less [simp]: "add64 a b < U64"
  by (simp add: add64_def)

lemma mul64_eq [u64_simps]: "a * b < U64 \<Longrightarrow> mul64 a b = a * b"
  by (simp add: mul64_def)

lemma sub64_eq [u64_simps]: "b \<le> a \<Longrightarrow> a < U64 \<Longrightarrow> sub64 a b = a - b"
proof -
  assume le: "b \<le> a" and lt: "a < U64"
  then have "b mod U64 = b" by simp
  then have "sub64 a b = ((a - b) + U64) mod U64"
    using le lt by (simp add: sub64_def)
  then show ?thesis using lt by simp
qed

lemma sub64_less [simp]: "sub64 a b < U64"
  by (simp add: sub64_def)

lemma addm_U64: "addm U64 a b = add64 a b"
  by (simp add: addm_def add64_def)

lemma subm_U64: "subm U64 a b = sub64 a b"
  by (simp add: subm_def sub64_def)

lemma addm_eq: "a + b < m \<Longrightarrow> addm m a b = a + b"
  by (simp add: addm_def)

lemma subm_eq: "b \<le> a \<Longrightarrow> a < m \<Longrightarrow> subm m a b = a - b"
proof -
  assume le: "b \<le> a" and lt: "a < m"
  then have "subm m a b = ((a - b) + m) mod m"
    by (simp add: subm_def)
  then show ?thesis using lt by simp
qed

lemma sub64_zero_iff: "a < U64 \<Longrightarrow> b < U64 \<Longrightarrow> sub64 a b = 0 \<longleftrightarrow> a = b"
proof -
  assume a: "a < U64" and b: "b < U64"
  show ?thesis
  proof (cases "b \<le> a")
    case True
    then show ?thesis using a by (auto simp: sub64_eq)
  next
    case False
    then have "sub64 a b = a + (U64 - b)"
      using a b by (simp add: sub64_def)
    then show ?thesis using False b by simp
  qed
qed

section \<open>Failures\<close>

text \<open>
  How an operation can end other than by returning: a null or dangling pointer, a failed
  \<open>assert\<close>, an allocator with no memory left, an arithmetic fault (a division by zero), a call of \<open>exit\<close>, and
  \<open>No_fuel\<close>, which is not a behaviour of the code but the bound on the number of loop
  iterations a model run is given.
\<close>

datatype failure = Bad_pointer | Assert_failed | Out_of_memory | Div_by_zero | Exit_program | No_fuel

section \<open>Lists\<close>

lemma nth_append_last [simp]: "(xs @ [x]) ! length xs = x"
  by simp

lemma nth_eq_distinct_iff:
  "distinct xs \<Longrightarrow> i < length xs \<Longrightarrow> j < length xs \<Longrightarrow> xs ! i = xs ! j \<longleftrightarrow> i = j"
  by (rule nth_eq_iff_index_eq)

lemma list_update_nth_cases:
  "i < length xs \<Longrightarrow> xs[i := x] ! j = (if i = j then x else xs ! j)"
  by simp

lemma sum_list_update_nat:
  fixes xs :: "nat list"
  shows "i < length xs \<Longrightarrow> sum_list (xs[i := x]) + xs ! i = sum_list xs + x"
  by (induction xs arbitrary: i) (auto split: nat.splits)

lemma sum_list_le_bound:
  fixes xs :: "nat list"
  shows "(\<And>x. x \<in> set xs \<Longrightarrow> x \<le> b) \<Longrightarrow> sum_list xs \<le> length xs * b"
  by (induction xs) (auto intro: add_mono)

lemma sum_list_ge_bound:
  fixes xs :: "nat list"
  shows "(\<And>x. x \<in> set xs \<Longrightarrow> b \<le> x) \<Longrightarrow> length xs * b \<le> sum_list xs"
  by (induction xs) (auto intro: add_mono)

end
