(* ===== verification/Conc.thy ===== *)
theory Conc
  imports Prelude
begin

text \<open>
  Programs over shared memory. An operation of the code is a tree of atomic actions on the
  shared state, as its source text orders them: \<open>Act f\<close> performs one atomic access \<open>f\<close> and
  goes on with the program \<open>f\<close> chooses, \<open>Ret a\<close> returns, \<open>Stop e\<close> ends in the failure \<open>e\<close>.
  Thread-local variables of the code are arguments and results of the HOL functions that
  build the tree.

  The theory holds the atomic primitives of \<open>include/atomic_ops_if.h\<close>, two semantics of
  programs (\<open>run\<close>, one thread alone, and \<open>reach\<close>, any interleaving of a list of threads),
  and the rely/guarantee logic in which the invariants of the concurrent structures are
  proved. Memory is sequentially consistent.
\<close>

section \<open>Programs\<close>

datatype (dead 's, 'a) prog =
    Ret 'a
  | Act "'s \<Rightarrow> 's \<times> ('s, 'a) prog"
  | Stop failure

text \<open>Induction over the actions still to come, whatever state they find.\<close>

lemma prog_induct [case_names Ret Act Stop]:
  assumes "\<And>a. P (Ret a)" "\<And>f. (\<And>s. P (snd (f s))) \<Longrightarrow> P (Act f)" "\<And>e. P (Stop e)"
  shows "P p"
proof (induction p)
  case (Act f)
  have "P (snd (f s))" for s
  proof (rule Act.IH)
    show "f s \<in> range f" by simp
    show "snd (f s) \<in> Basic_BNFs.snds (f s)" by (cases "f s") simp
  qed
  then show ?case by (rule assms)
qed (auto intro: assms)

primrec bind :: "('s, 'a) prog \<Rightarrow> ('a \<Rightarrow> ('s, 'b) prog) \<Rightarrow> ('s, 'b) prog" where
  "bind (Ret a) k = k a"
| "bind (Act f) k = Act (\<lambda>s. map_prod id (\<lambda>p. bind p k) (f s))"
| "bind (Stop e) k = Stop e"

subsection \<open>Atomic primitives\<close>

text \<open>A plain (volatile) load and store.\<close>

definition load :: "('s \<Rightarrow> 'x) \<Rightarrow> ('x \<Rightarrow> ('s, 'a) prog) \<Rightarrow> ('s, 'a) prog" where
  "load f k = Act (\<lambda>s. (s, k (f s)))"

definition store :: "('s \<Rightarrow> 's) \<Rightarrow> ('s, 'a) prog \<Rightarrow> ('s, 'a) prog" where
  "store f k = Act (\<lambda>s. (f s, k))"

text \<open>
  \<open>CAE(a, b, c)\<close>: compare the location with \<open>*b\<close>; when equal store \<open>*c\<close> and yield true,
  otherwise load the location into \<open>*b\<close> and yield false. The continuation gets the flag
  and the value \<open>*b\<close> has afterwards.
\<close>

definition cae :: "('s \<Rightarrow> 'x) \<Rightarrow> ('x \<Rightarrow> 's \<Rightarrow> 's) \<Rightarrow> 'x \<Rightarrow> 'x \<Rightarrow>
    (bool \<Rightarrow> 'x \<Rightarrow> ('s, 'a) prog) \<Rightarrow> ('s, 'a) prog" where
  "cae get put expected new k =
     Act (\<lambda>s. if get s = expected then (put new s, k True expected) else (s, k False (get s)))"

text \<open>\<open>CAS(a, b, c)\<close>: the same comparison and exchange, yielding only the flag.\<close>

definition cas :: "('s \<Rightarrow> 'x) \<Rightarrow> ('x \<Rightarrow> 's \<Rightarrow> 's) \<Rightarrow> 'x \<Rightarrow> 'x \<Rightarrow>
    (bool \<Rightarrow> ('s, 'a) prog) \<Rightarrow> ('s, 'a) prog" where
  "cas get put old new k =
     Act (\<lambda>s. if get s = old then (put new s, k True) else (s, k False))"

text \<open>\<open>CAS_PTR\<close>, \<open>CAS_U64\<close>: the exchange that yields the value found in the location.\<close>

definition cas_val :: "('s \<Rightarrow> 'x) \<Rightarrow> ('x \<Rightarrow> 's \<Rightarrow> 's) \<Rightarrow> 'x \<Rightarrow> 'x \<Rightarrow>
    ('x \<Rightarrow> ('s, 'a) prog) \<Rightarrow> ('s, 'a) prog" where
  "cas_val get put old new k =
     Act (\<lambda>s. if get s = old then (put new s, k old) else (s, k (get s)))"

text \<open>Read-modify-write: the continuation gets the old value (\<open>FAI_U64\<close>, \<open>SWP\<close>, ...).\<close>

definition fetch_op :: "('s \<Rightarrow> 'x) \<Rightarrow> ('x \<Rightarrow> 's \<Rightarrow> 's) \<Rightarrow> ('x \<Rightarrow> 'x) \<Rightarrow>
    ('x \<Rightarrow> ('s, 'a) prog) \<Rightarrow> ('s, 'a) prog" where
  "fetch_op get put f k = Act (\<lambda>s. (put (f (get s)) s, k (get s)))"

definition fai_u64 :: "('s \<Rightarrow> nat) \<Rightarrow> (nat \<Rightarrow> 's \<Rightarrow> 's) \<Rightarrow> (nat \<Rightarrow> ('s, 'a) prog) \<Rightarrow> ('s, 'a) prog" where
  "fai_u64 get put k = fetch_op get put (\<lambda>x. add64 x 1) k"

definition swp :: "('s \<Rightarrow> 'x) \<Rightarrow> ('x \<Rightarrow> 's \<Rightarrow> 's) \<Rightarrow> 'x \<Rightarrow> ('x \<Rightarrow> ('s, 'a) prog) \<Rightarrow> ('s, 'a) prog" where
  "swp get put new k = fetch_op get put (\<lambda>_. new) k"

text \<open>
  A 16-byte descriptor is two machine words. A compare-and-exchange acts on both at once; a
  plain struct copy loads them one after the other, so the two halves of the copy may come
  from different moments.
\<close>

datatype ('a, 'b) dword = DW (lo: 'a) (hi: 'b)

definition load2 :: "('s \<Rightarrow> ('x, 'y) dword) \<Rightarrow> (('x, 'y) dword \<Rightarrow> ('s, 'a) prog) \<Rightarrow> ('s, 'a) prog" where
  "load2 f k = load (\<lambda>s. lo (f s)) (\<lambda>a. load (\<lambda>s. hi (f s)) (\<lambda>b. k (DW a b)))"

text \<open>
  \<open>checked c p\<close>: the first action of \<open>p\<close> dereferences a pointer or indexes an array, which is
  valid only in the states with \<open>c\<close>.
\<close>

definition checked :: "('s \<Rightarrow> bool) \<Rightarrow> ('s, 'a) prog \<Rightarrow> ('s, 'a) prog" where
  "checked c p = (case p of
     Act f \<Rightarrow> Act (\<lambda>s. if c s then f s else (s, Stop Bad_pointer))
   | Ret a \<Rightarrow> Ret a
   | Stop e \<Rightarrow> Stop e)"

text \<open>
  A weak compare-and-exchange may also fail spuriously; whether it does is the argument
  \<open>spurious\<close>, which the hardware chooses.
\<close>

definition cae_weak :: "bool \<Rightarrow> ('s \<Rightarrow> 'x) \<Rightarrow> ('x \<Rightarrow> 's \<Rightarrow> 's) \<Rightarrow> 'x \<Rightarrow> 'x \<Rightarrow>
    (bool \<Rightarrow> 'x \<Rightarrow> ('s, 'a) prog) \<Rightarrow> ('s, 'a) prog" where
  "cae_weak spurious get put expected new k =
     (if spurious then load get (\<lambda>v. k False v) else cae get put expected new k)"

text \<open>The operations a thread performs one after the other, its results collected.\<close>

primrec seq_ops :: "('o \<Rightarrow> 'l \<Rightarrow> ('s, 'r \<times> 'l) prog) \<Rightarrow> 'o list \<Rightarrow> 'l \<Rightarrow> ('s, 'r list \<times> 'l) prog" where
  "seq_ops f [] l = Ret ([], l)"
| "seq_ops f (op # ops) l =
     bind (f op l) (\<lambda>(r, l1). bind (seq_ops f ops l1) (\<lambda>(rs, l2). Ret (r # rs, l2)))"

section \<open>One thread alone\<close>

datatype ('s, 'a) outcome = Done 'a 's | Failed failure 's

primrec run :: "('s, 'a) prog \<Rightarrow> 's \<Rightarrow> ('s, 'a) outcome" where
  "run (Ret a) s = Done a s"
| "run (Act f) s = (case map_prod id run (f s) of (s', r) \<Rightarrow> r s')"
| "run (Stop e) s = Failed e s"

lemma run_Act [simp]: "run (Act f) s = run (snd (f s)) (fst (f s))"
  by (simp add: case_prod_beta)

declare run.simps(2) [simp del]

lemma run_bind: "run (bind p k) s = (case run p s of Done a t \<Rightarrow> run (k a) t | Failed e t \<Rightarrow> Failed e t)"
by (induction p arbitrary: s rule: prog_induct) simp_all

lemma run_load [simp]: "run (load f k) s = run (k (f s)) s"
  by (simp add: load_def)

lemma run_store [simp]: "run (store f k) s = run k (f s)"
  by (simp add: store_def)

lemma run_cae [simp]:
  "run (cae get put e n k) s =
     (if get s = e then run (k True e) (put n s) else run (k False (get s)) s)"
  by (simp add: cae_def)

lemma run_cas [simp]:
  "run (cas get put e n k) s = (if get s = e then run (k True) (put n s) else run (k False) s)"
  by (simp add: cas_def)

lemma run_cas_val [simp]:
  "run (cas_val get put e n k) s =
     (if get s = e then run (k e) (put n s) else run (k (get s)) s)"
  by (simp add: cas_val_def)

lemma run_fetch_op [simp]: "run (fetch_op get put f k) s = run (k (get s)) (put (f (get s)) s)"
  by (simp add: fetch_op_def)

lemma run_fai_u64 [simp]:
  "run (fai_u64 get put k) s = run (k (get s)) (put (add64 (get s) 1) s)"
  by (simp add: fai_u64_def)

lemma run_swp [simp]: "run (swp get put n k) s = run (k (get s)) (put n s)"
  by (simp add: swp_def)

lemma run_load2 [simp]: "run (load2 f k) s = run (k (f s)) s"
  by (simp add: load2_def)

lemma run_checked_Act:
  "run (checked c (Act f)) s = (if c s then run (Act f) s else Failed Bad_pointer s)"
  by (simp add: checked_def)

lemma run_checked [simp]:
  "run (checked c (load f k)) s = (if c s then run (load f k) s else Failed Bad_pointer s)"
  "run (checked c (store g p)) s = (if c s then run (store g p) s else Failed Bad_pointer s)"
  "run (checked c (cae get put e n k')) s = (if c s then run (cae get put e n k') s else Failed Bad_pointer s)"
  "run (checked c (cas get put e n k2)) s = (if c s then run (cas get put e n k2) s else Failed Bad_pointer s)"
  "run (checked c (fetch_op get put h k)) s = (if c s then run (fetch_op get put h k) s else Failed Bad_pointer s)"
  unfolding load_def store_def cae_def cas_def fetch_op_def by (simp_all only: run_checked_Act)

lemma run_checked_load2 [simp]:
  "run (checked c (load2 f k)) s = (if c s then run (load2 f k) s else Failed Bad_pointer s)"
  unfolding load2_def by (simp only: run_checked)

section \<open>Interleavings\<close>

text \<open>
  A configuration is the shared state and one program per thread. A step is one atomic
  action of one thread. \<open>reach A c d\<close>: from \<open>c\<close> some interleaving leads to \<open>d\<close>, where every
  state from which a step is taken satisfies \<open>A\<close> (used to bound counters away from the
  wrap-around of their C type).
\<close>

inductive step :: "'s \<times> ('s, 'a) prog list \<Rightarrow> 's \<times> ('s, 'a) prog list \<Rightarrow> bool" where
  act: "i < length ps \<Longrightarrow> ps ! i = Act f \<Longrightarrow> f s = (s', p) \<Longrightarrow> step (s, ps) (s', ps[i := p])"

inductive_cases stepE: "step (s, ps) d"

inductive reach :: "('s \<Rightarrow> bool) \<Rightarrow> 's \<times> ('s, 'a) prog list \<Rightarrow> 's \<times> ('s, 'a) prog list \<Rightarrow> bool"
  for A :: "'s \<Rightarrow> bool" and c :: "'s \<times> ('s, 'a) prog list" where
  start: "reach A c c"
| step: "reach A c d \<Longrightarrow> A (fst d) \<Longrightarrow> step d e \<Longrightarrow> reach A c e"

lemma reach_trans: "reach A d e \<Longrightarrow> reach A c d \<Longrightarrow> reach A c e"
  by (induction rule: reach.induct) (auto intro: reach.step)

text \<open>A scheduler that names the thread of each step: an executable way to build runs.\<close>

definition thread_step :: "nat \<Rightarrow> 's \<times> ('s, 'a) prog list \<Rightarrow> 's \<times> ('s, 'a) prog list" where
  "thread_step i c = (case c of (s, ps) \<Rightarrow>
     if i < length ps then
       (case ps ! i of Act f \<Rightarrow> (case f s of (s', p) \<Rightarrow> (s', ps[i := p])) | _ \<Rightarrow> c)
     else c)"

primrec schedule :: "nat list \<Rightarrow> 's \<times> ('s, 'a) prog list \<Rightarrow> 's \<times> ('s, 'a) prog list" where
  "schedule [] c = c"
| "schedule (i # is) c = schedule is (thread_step i c)"

lemma thread_step_cases: "thread_step i c = c \<or> step c (thread_step i c)"
proof (cases c)
  case (Pair s ps)
  show ?thesis
  proof (cases "i < length ps")
    case True
    show ?thesis
    proof (cases "ps ! i")
      case (Act f)
      obtain s' p where f: "f s = (s', p)" by (cases "f s")
      have "step (s, ps) (s', ps[i := p])" by (rule step.act [OF True Act f])
      then show ?thesis
        using True Act f Pair by (simp add: thread_step_def)
    qed (simp_all add: thread_step_def Pair)
  qed (simp add: thread_step_def Pair)
qed

lemma thread_step_reach: "reach (\<lambda>_. True) c (thread_step i c)"
  using thread_step_cases [of i c] by (metis reach.start reach.step)

lemma schedule_reach: "reach (\<lambda>_. True) c (schedule is c)"
proof (induction "is" arbitrary: c)
  case Nil
  show ?case by (simp add: reach.start)
next
  case (Cons i "is")
  show ?case
    using reach_trans [OF Cons.IH [of "thread_step i c"] thread_step_reach] by simp
qed

lemma schedule_reach_if:
  "(\<And>k. k < length is \<Longrightarrow> A (fst (schedule (take k is) c))) \<Longrightarrow> reach A c (schedule is c)"
proof (induction "is" arbitrary: c)
  case Nil
  show ?case by (simp add: reach.start)
next
  case (Cons i "is")
  have "A (fst (schedule (take k is) (thread_step i c)))" if "k < length is" for k
    using Cons.prems [of "Suc k"] that by simp
  then have r: "reach A (thread_step i c) (schedule is (thread_step i c))" by (rule Cons.IH)
  have A: "A (fst c)" using Cons.prems [of 0] by simp
  have "reach A c (thread_step i c)"
    using thread_step_cases [of i c] A by (metis reach.start reach.step)
  then show ?case using reach_trans [OF r] by simp
qed

text \<open>The run of one thread alone is one of its interleavings.\<close>

lemma run_reach:
  "run p s = Done a t \<Longrightarrow> reach (\<lambda>_. True) (s, [p]) (t, [Ret a])"
proof (induction p arbitrary: s rule: prog_induct)
  case (Act f)
  have r: "reach (\<lambda>_. True) (fst (f s), [snd (f s)]) (t, [Ret a])"
    using Act by simp
  have "step (s, [Act f]) (fst (f s), [Act f][0 := snd (f s)])"
    by (rule step.act [where f = f]) simp_all
  then have "reach (\<lambda>_. True) (s, [Act f]) (fst (f s), [snd (f s)])"
    by (auto intro: reach.intros)
  then show ?case using reach_trans r by blast
qed (auto intro: reach.start)

end
