(* ===== verification/Rely.thy ===== *)
theory Rely
  imports Conc "HOL-Library.Sublist"
begin

text \<open>
  The rely/guarantee logic in which the invariants of the concurrent structures are proved,
  and what linearizability means for a model program.

  \<open>safe A T R G Q p (s, g)\<close> judges the program \<open>p\<close> of one thread from the shared state \<open>s\<close> and
  the ghost state \<open>g\<close>: before each of its actions the other threads may change both as \<open>R\<close>
  allows, each of its own actions can be accompanied by a change of the ghost state so that
  the pair moves as \<open>G\<close> allows, and what it returns satisfies \<open>Q\<close>. \<open>A\<close> may be assumed of every
  state an action is taken in, and \<open>T\<close> says which failures are tolerated: with
  \<open>T = (\<lambda>e. e = No_fuel)\<close> a safe program never follows a bad pointer, never fails an assertion
  and never divides by zero, and with \<open>T = (\<lambda>_. False)\<close> it does not run out of its loop
  bound either, whatever the other threads do.

  The locale \<open>rely_system\<close> holds the contract between the threads (what one guarantees, the
  others rely on) and proves once that safe threads stay safe under every interleaving. Each
  concurrent component interprets it on its own relations.
\<close>

section \<open>Safe programs\<close>

primrec safe :: "('s \<Rightarrow> bool) \<Rightarrow> (failure \<Rightarrow> bool) \<Rightarrow> ('s \<times> 'g \<Rightarrow> 's \<times> 'g \<Rightarrow> bool) \<Rightarrow> ('s \<times> 'g \<Rightarrow> 's \<times> 'g \<Rightarrow> bool) \<Rightarrow>
    ('a \<Rightarrow> 's \<times> 'g \<Rightarrow> bool) \<Rightarrow> ('s, 'a) prog \<Rightarrow> 's \<times> 'g \<Rightarrow> bool" where
  "safe A T R G Q (Ret a) = (\<lambda>s. \<forall>s'. R s s' \<longrightarrow> Q a s')"
| "safe A T R G Q (Act f) = (\<lambda>s. \<forall>t g. R s (t, g) \<longrightarrow> A t \<longrightarrow>
     (case map_prod id (safe A T R G Q) (f t) of (t', P) \<Rightarrow> \<exists>g'. G (t, g) (t', g') \<and> P (t', g')))"
| "safe A T R G Q (Stop e) = (\<lambda>s. T e)"

lemma safe_Act [simp]:
  "safe A T R G Q (Act f) s \<longleftrightarrow> (\<forall>t g. R s (t, g) \<longrightarrow> A t \<longrightarrow>
     (\<exists>g'. G (t, g) (fst (f t), g') \<and> safe A T R G Q (snd (f t)) (fst (f t), g')))"
  by (simp add: case_prod_beta)

declare safe.simps(2) [simp del]

text \<open>One rule per primitive: the state \<open>t\<close> is the one the action finds.\<close>

lemma safe_load:
  assumes "\<And>t g. R s (t, g) \<Longrightarrow> A t \<Longrightarrow> G (t, g) (t, g) \<and> safe A T R G Q (k (f t)) (t, g)"
  shows "safe A T R G Q (load f k) s"
  using assms by (auto simp: load_def)

lemma safe_load_ghost:
  assumes "\<And>t g. R s (t, g) \<Longrightarrow> A t \<Longrightarrow> \<exists>g'. G (t, g) (t, g') \<and> safe A T R G Q (k (f t)) (t, g')"
  shows "safe A T R G Q (load f k) s"
  using assms by (auto simp: load_def)

lemma safe_store:
  assumes "\<And>t g. R s (t, g) \<Longrightarrow> A t \<Longrightarrow> \<exists>g'. G (t, g) (f t, g') \<and> safe A T R G Q k (f t, g')"
  shows "safe A T R G Q (store f k) s"
  using assms by (auto simp: store_def)

lemma safe_cae:
  assumes "\<And>t g. R s (t, g) \<Longrightarrow> A t \<Longrightarrow> get t = e \<Longrightarrow>
             \<exists>g'. G (t, g) (put n t, g') \<and> safe A T R G Q (k True e) (put n t, g')"
    and "\<And>t g. R s (t, g) \<Longrightarrow> A t \<Longrightarrow> get t \<noteq> e \<Longrightarrow>
             G (t, g) (t, g) \<and> safe A T R G Q (k False (get t)) (t, g)"
  shows "safe A T R G Q (cae get put e n k) s"
  using assms unfolding cae_def by fastforce

lemma safe_cas:
  assumes "\<And>t g. R s (t, g) \<Longrightarrow> A t \<Longrightarrow> get t = e \<Longrightarrow>
             \<exists>g'. G (t, g) (put n t, g') \<and> safe A T R G Q (k True) (put n t, g')"
    and "\<And>t g. R s (t, g) \<Longrightarrow> A t \<Longrightarrow> get t \<noteq> e \<Longrightarrow>
             G (t, g) (t, g) \<and> safe A T R G Q (k False) (t, g)"
  shows "safe A T R G Q (cas get put e n k) s"
  using assms unfolding cas_def by fastforce

lemma safe_cas_val:
  assumes "\<And>t g. R s (t, g) \<Longrightarrow> A t \<Longrightarrow> get t = e \<Longrightarrow>
             \<exists>g'. G (t, g) (put n t, g') \<and> safe A T R G Q (k e) (put n t, g')"
    and "\<And>t g. R s (t, g) \<Longrightarrow> A t \<Longrightarrow> get t \<noteq> e \<Longrightarrow>
             G (t, g) (t, g) \<and> safe A T R G Q (k (get t)) (t, g)"
  shows "safe A T R G Q (cas_val get put e n k) s"
  using assms unfolding cas_val_def by fastforce

lemma safe_fetch_op:
  assumes "\<And>t g. R s (t, g) \<Longrightarrow> A t \<Longrightarrow>
             \<exists>g'. G (t, g) (put (f (get t)) t, g') \<and> safe A T R G Q (k (get t)) (put (f (get t)) t, g')"
  shows "safe A T R G Q (fetch_op get put f k) s"
  using assms by (auto simp: fetch_op_def)

lemma safe_checked:
  assumes "safe A T R G Q p s" and "\<And>t g. R s (t, g) \<Longrightarrow> A t \<Longrightarrow> c t"
  shows "safe A T R G Q (checked c p) s"
proof (cases p)
  case (Act f)
  then show ?thesis using assms by (auto simp: checked_def)
qed (use assms in \<open>simp_all add: checked_def\<close>)

lemmas safe_rules = safe_load safe_store safe_cae safe_cas safe_cas_val safe_fetch_op

lemma safe_ActI:
  "(\<And>t g. R s (t, g) \<Longrightarrow> A t \<Longrightarrow>
     \<exists>g'. G (t, g) (fst (f t), g') \<and> safe A T R G Q (snd (f t)) (fst (f t), g')) \<Longrightarrow>
   safe A T R G Q (Act f) s"
  by simp

lemma safe_ActE:
  assumes "safe A T R G Q (Act f) s" "R s (t, g)" "A t"
  obtains g' where "G (t, g) (fst (f t), g')" "safe A T R G Q (snd (f t)) (fst (f t), g')"
  using assms by auto

lemma safe_bind:
  "safe A T R G (\<lambda>a. safe A T R G Q (k a)) p s \<Longrightarrow> (\<And>s. R s s) \<Longrightarrow> safe A T R G Q (bind p k) s"
proof (induction p arbitrary: s rule: prog_induct)
  case (Act f)
  have "safe A T R G Q (Act (\<lambda>s. map_prod id (\<lambda>p. bind p k) (f s))) s"
  proof (rule safe_ActI)
    fix t g assume "R s (t, g)" "A t"
    then obtain g' where "G (t, g) (fst (f t), g')"
      "safe A T R G (\<lambda>a. safe A T R G Q (k a)) (snd (f t)) (fst (f t), g')"
      using Act.prems(1) by (auto elim: safe_ActE)
    then show "\<exists>g'. G (t, g) (fst (map_prod id (\<lambda>p. bind p k) (f t)), g') \<and>
        safe A T R G Q (snd (map_prod id (\<lambda>p. bind p k) (f t))) (fst (map_prod id (\<lambda>p. bind p k) (f t)), g')"
      using Act.IH Act.prems(2) by auto
  qed
  then show ?case by simp
qed auto

lemma safe_weaken:
  "safe A T R G Q p s \<Longrightarrow> (\<And>a s. Q a s \<Longrightarrow> Q' a s) \<Longrightarrow> safe A T R G Q' p s"
by (induction p arbitrary: s rule: prog_induct) (simp_all, fast+)

lemma safe_failures:
  "safe A T R G Q p s \<Longrightarrow> (\<And>e. T e \<Longrightarrow> T' e) \<Longrightarrow> safe A T' R G Q p s"
by (induction p arbitrary: s rule: prog_induct) (simp_all, fast+)

lemma safe_assume: "safe A T R G Q p s \<Longrightarrow> (\<And>s. A' s \<Longrightarrow> A s) \<Longrightarrow> safe A' T R G Q p s"
proof (induction p arbitrary: s rule: prog_induct)
  case (Act f)
  show ?case
  proof (rule safe_ActI)
    fix t g assume t: "R s (t, g)" "A' t"
    obtain g' where "G (t, g) (fst (f t), g')" "safe A T R G Q (snd (f t)) (fst (f t), g')"
      by (rule safe_ActE [OF Act.prems(1) t(1) Act.prems(2) [OF t(2)]])
    then show "\<exists>g'. G (t, g) (fst (f t), g') \<and> safe A' T R G Q (snd (f t)) (fst (f t), g')"
      using Act.IH Act.prems(2) by blast
  qed
qed simp_all

text \<open>An order that every step of the thread and of the others follows holds of the whole run.\<close>

lemma safe_along:
  assumes "safe A T R G Q p s" and R: "\<And>x y. R x y \<Longrightarrow> le x y" and G: "\<And>x y. G x y \<Longrightarrow> le x y"
    and trans: "\<And>x y z. le x y \<Longrightarrow> le y z \<Longrightarrow> le x z" and s0: "le s0 s"
  shows "safe A T R G (\<lambda>a y. Q a y \<and> le s0 y) p s"
  using assms(1) s0
proof (induction p arbitrary: s rule: prog_induct)
  case (Ret a)
  then show ?case using R trans by auto
next
  case (Act f)
  show ?case
  proof (rule safe_ActI)
    fix t g assume t: "R s (t, g)" "A t"
    obtain g' where g': "G (t, g) (fst (f t), g')" "safe A T R G Q (snd (f t)) (fst (f t), g')"
      by (rule safe_ActE [OF Act.prems(1) t])
    have "le s0 (fst (f t), g')" using trans [OF trans [OF Act.prems(2) R [OF t(1)]] G [OF g'(1)]] .
    then have "safe A T R G (\<lambda>a y. Q a y \<and> le s0 y) (snd (f t)) (fst (f t), g')" by (rule Act.IH [OF g'(2)])
    then show "\<exists>g'. G (t, g) (fst (f t), g') \<and> safe A T R G (\<lambda>a y. Q a y \<and> le s0 y) (snd (f t)) (fst (f t), g')"
      using g'(1) by blast
  qed
qed simp

lemma safe_stable:
  assumes p: "safe A T R G Q p s" and s': "R s s'"
    and R: "\<And>x y z. R x y \<Longrightarrow> R y z \<Longrightarrow> R x z"
  shows "safe A T R G Q p s'"
proof (cases p)
  case (Act f)
  show ?thesis
    unfolding Act
  proof (rule safe_ActI)
    fix t g assume "R s' (t, g)" "A t"
    with R [OF s'] have "R s (t, g)" by blast
    then show "\<exists>g'. G (t, g) (fst (f t), g') \<and> safe A T R G Q (snd (f t)) (fst (f t), g')"
      using p \<open>A t\<close> unfolding Act by (auto elim: safe_ActE)
  qed
qed (use p R s' in auto)

text \<open>
  A sequence of operations, each of which re-establishes \<open>P\<close> of the results so far; it
  knows that it is the next one of the thread's whole program \<open>all\<close>.
\<close>

lemma safe_seq_ops:
  assumes R: "\<And>s. R s s"
    and op: "\<And>op l rs s. P l rs s \<Longrightarrow> prefix (map fst rs @ [op]) all \<Longrightarrow>
               safe A T R G (\<lambda>(r, l') s'. P l' (rs @ [(op, r)]) s') (f op l) s"
    and stable: "\<And>l rs s s'. P l rs s \<Longrightarrow> R s s' \<Longrightarrow> P l rs s'"
    and P: "P l rs s" and all: "prefix (map fst rs @ ops) all"
  shows "safe A T R G (\<lambda>(xs, l') s'. P l' (rs @ zip ops xs) s' \<and> length xs = length ops)
           (seq_ops f ops l) s"
  using P all
proof (induction ops arbitrary: l rs s)
  case Nil
  then show ?case using stable by auto
next
  case (Cons op ops)
  have "prefix (map fst rs @ [op]) (map fst rs @ op # ops)" by simp
  then have next_op: "prefix (map fst rs @ [op]) all"
    using Cons.prems(2) by (rule prefix_order.trans)
  let ?Q = "\<lambda>ops rs (xs, l') s'. P l' (rs @ zip ops xs) s' \<and> length xs = length ops"
  show ?case
    unfolding seq_ops.simps
  proof (rule safe_bind [OF _ R], rule safe_weaken [OF op [OF Cons.prems(1) next_op]])
    fix x s' assume x: "(case x of (r, l') \<Rightarrow> \<lambda>s'. P l' (rs @ [(op, r)]) s') s'"
    obtain r l' where [simp]: "x = (r, l')" by (cases x)
    have "safe A T R G (?Q ops (rs @ [(op, r)])) (seq_ops f ops l') s'"
      using x Cons.prems(2) by (intro Cons.IH) auto
    then have "safe A T R G (\<lambda>y. safe A T R G (?Q (op # ops) rs) (case y of (zs, l2) \<Rightarrow> Ret (r # zs, l2)))
        (seq_ops f ops l') s'"
      by (rule safe_weaken) (use stable in auto)
    then show "safe A T R G (?Q (op # ops) rs)
        (case x of (r, l1) \<Rightarrow> bind (seq_ops f ops l1) (\<lambda>(zs, l2). Ret (r # zs, l2))) s'"
      by (simp add: safe_bind [OF _ R])
  qed
qed

section \<open>Executions and the soundness of the logic\<close>

text \<open>
  \<open>f 0, ..., f n\<close> is an execution: each configuration is the one before it or one step
  further. \<open>A\<close> holds wherever a step is taken.
\<close>

definition execution :: "('s \<Rightarrow> bool) \<Rightarrow> (nat \<Rightarrow> 's \<times> ('s, 'a) prog list) \<Rightarrow> nat \<Rightarrow> bool" where
  "execution A f n \<longleftrightarrow> (\<forall>k<n. f (Suc k) = f k \<or> A (fst (f k)) \<and> step (f k) (f (Suc k)))"

lemma reach_execution:
  "reach A c d \<Longrightarrow> \<exists>f n. execution A f n \<and> f 0 = c \<and> f n = d"
proof (induction rule: reach.induct)
  case start
  show ?case by (rule exI [of _ "\<lambda>_. c"], rule exI [of _ 0]) (simp add: execution_def)
next
  case (step d e)
  then obtain f n where f: "execution A f n" "f 0 = c" "f n = d" by blast
  let ?f = "\<lambda>k. if k \<le> n then f k else e"
  have "execution A ?f (Suc n)"
    using f step by (auto simp: execution_def less_Suc_eq)
  then show ?case using f by (intro exI [of _ ?f] exI [of _ "Suc n"]) simp
qed

locale rely_system =
  fixes A :: "'s \<Rightarrow> bool"
    and T :: "failure \<Rightarrow> bool"
    and R G :: "nat \<Rightarrow> 's \<times> 'g \<Rightarrow> 's \<times> 'g \<Rightarrow> bool"
    and I :: "'s \<times> 'g \<Rightarrow> bool"
  assumes R_refl: "R i s s"
    and R_trans: "R i s t \<Longrightarrow> R i t u \<Longrightarrow> R i s u"
    and G_R: "i \<noteq> j \<Longrightarrow> G i s t \<Longrightarrow> R j s t"
    and G_I: "I s \<Longrightarrow> G i s t \<Longrightarrow> I t"
begin

definition all_safe :: "(nat \<Rightarrow> 'a \<Rightarrow> 's \<times> 'g \<Rightarrow> bool) \<Rightarrow> ('s, 'a) prog list \<Rightarrow> 's \<times> 'g \<Rightarrow> bool" where
  "all_safe Q ps s \<longleftrightarrow> I s \<and> (\<forall>i<length ps. safe A T (R i) (G i) (Q i) (ps ! i) s)"

lemma all_safe_step:
  assumes step: "step (s, ps) (t, qs)" and A: "A s" and safe: "all_safe Q ps (s, g)"
  obtains g' i where "i < length ps" "G i (s, g) (t, g')" "all_safe Q qs (t, g')"
    "length qs = length ps"
proof -
  obtain i f p where i: "i < length ps" "ps ! i = Act f" "f s = (t, p)" and qs: "qs = ps[i := p]"
    using step by (auto elim: stepE)
  have act: "safe A T (R i) (G i) (Q i) (Act f) (s, g)"
    using safe i by (auto simp: all_safe_def)
  obtain g' where g': "G i (s, g) (t, g')" "safe A T (R i) (G i) (Q i) p (t, g')"
    by (rule safe_ActE [OF act R_refl A]) (simp add: i(3))
  have "safe A T (R j) (G j) (Q j) (qs ! j) (t, g')" if j: "j < length qs" for j
  proof (cases "j = i")
    case True
    then show ?thesis using g' i qs by simp
  next
    case False
    then have rely: "R j (s, g) (t, g')" using g'(1) by (intro G_R) auto
    have "safe A T (R j) (G j) (Q j) (ps ! j) (s, g)"
      using safe j qs by (simp add: all_safe_def)
    then have "safe A T (R j) (G j) (Q j) (ps ! j) (t, g')"
      using rely by (rule safe_stable) (rule R_trans)
    then show ?thesis using False qs by simp
  qed
  moreover have "I (t, g')" using G_I [OF _ g'(1)] safe by (simp add: all_safe_def)
  ultimately show ?thesis using that i g' qs by (simp add: all_safe_def)
qed

lemma safe_execution:
  assumes "execution A f n" and "f 0 = (s, ps)" and "all_safe Q ps (s, g)"
  shows "\<exists>gh. gh 0 = g \<and>
    (\<forall>k\<le>n. length (snd (f k)) = length ps \<and> all_safe Q (snd (f k)) (fst (f k), gh k)) \<and>
    (\<forall>k<n. f (Suc k) = f k \<and> gh (Suc k) = gh k \<or>
       (\<exists>i<length ps. G i (fst (f k), gh k) (fst (f (Suc k)), gh (Suc k))))"
  using assms(1)
proof (induction n)
  case 0
  show ?case by (rule exI [of _ "\<lambda>_. g"]) (use assms in simp)
next
  case (Suc n)
  then have "execution A f n" by (simp add: execution_def)
  with Suc.IH obtain gh where gh: "gh 0 = g"
    "\<And>k. k \<le> n \<Longrightarrow> length (snd (f k)) = length ps \<and> all_safe Q (snd (f k)) (fst (f k), gh k)"
    "\<And>k. k < n \<Longrightarrow> f (Suc k) = f k \<and> gh (Suc k) = gh k \<or>
       (\<exists>i<length ps. G i (fst (f k), gh k) (fst (f (Suc k)), gh (Suc k)))"
    by blast
  have "\<exists>g'. length (snd (f (Suc n))) = length ps \<and> all_safe Q (snd (f (Suc n))) (fst (f (Suc n)), g') \<and>
     (f (Suc n) = f n \<and> g' = gh n \<or> (\<exists>i<length ps. G i (fst (f n), gh n) (fst (f (Suc n)), g')))"
  proof (cases "f (Suc n) = f n")
    case True
    then show ?thesis using gh(2) [of n] by auto
  next
    case False
    then have "step (fst (f n), snd (f n)) (fst (f (Suc n)), snd (f (Suc n)))" "A (fst (f n))"
      using Suc.prems by (auto simp: execution_def)
    moreover have safe: "all_safe Q (snd (f n)) (fst (f n), gh n)" and len: "length (snd (f n)) = length ps"
      using gh(2) [of n] by auto
    note safe
    ultimately obtain g' i where "i < length (snd (f n))" "G i (fst (f n), gh n) (fst (f (Suc n)), g')"
      "all_safe Q (snd (f (Suc n))) (fst (f (Suc n)), g')" "length (snd (f (Suc n))) = length (snd (f n))"
      using all_safe_step by blast
    then show ?thesis using len by auto
  qed
  then obtain g' where g': "length (snd (f (Suc n))) = length ps"
    "all_safe Q (snd (f (Suc n))) (fst (f (Suc n)), g')"
    "f (Suc n) = f n \<and> g' = gh n \<or> (\<exists>i<length ps. G i (fst (f n), gh n) (fst (f (Suc n)), g'))"
    by blast
  let ?gh = "gh(Suc n := g')"
  show ?case
    by (rule exI [of _ ?gh]) (use gh g' in \<open>auto simp: le_Suc_eq less_Suc_eq\<close>)
qed

lemma safe_reach:
  assumes "reach A (s, ps) (t, qs)" and "all_safe Q ps (s, g)"
  shows "\<exists>g'. length qs = length ps \<and> all_safe Q qs (t, g')"
proof -
  obtain f n where f: "execution A f n" "f 0 = (s, ps)" "f n = (t, qs)"
    using reach_execution [OF assms(1)] by blast
  obtain gh where "length (snd (f n)) = length ps" "all_safe Q (snd (f n)) (fst (f n), gh n)"
    using safe_execution [OF f(1,2) assms(2)] by auto
  then show ?thesis using f by auto
qed

text \<open>What an observer learns: the invariant, the results, and that no thread went wrong.\<close>

lemma all_safe_D:
  assumes "all_safe Q ps s"
  shows all_safe_inv: "I s"
    and all_safe_Ret: "i < length ps \<Longrightarrow> ps ! i = Ret a \<Longrightarrow> Q i a s"
    and all_safe_Stop: "i < length ps \<Longrightarrow> ps ! i = Stop e \<Longrightarrow> T e"
proof -
  show "I s" using assms by (simp add: all_safe_def)
  { assume i: "i < length ps" "ps ! i = Ret a"
    then have "safe A T (R i) (G i) (Q i) (Ret a) s" using assms by (auto simp: all_safe_def)
    then have "\<forall>s'. R i s s' \<longrightarrow> Q i a s'" by (simp only: safe.simps)
    then show "Q i a s" using R_refl by blast }
  { assume i: "i < length ps" "ps ! i = Stop e"
    then have "safe A T (R i) (G i) (Q i) (Stop e) s" using assms by (auto simp: all_safe_def)
    then show "T e" by simp }
qed

end

end
