(* ===== verification/Linear.thy ===== *)
theory Linear
  imports Rely
begin

text \<open>
  Linearizability. A sequential specification says, for an abstract state, which operation
  may return which result and what the state is afterwards. A concurrent object is
  linearizable when along every execution there is a growing history of (thread, operation,
  result) entries that is a legal run of the specification, that explains the shared state,
  and in which every thread finds exactly the operations it performed, in its program order,
  with the results it got. The history of an earlier configuration is a prefix of the history
  of a later one, so an operation that returned before another began precedes it.

  The locale \<open>lin_object\<close> is the contract of an object whose operations each append their
  own entry by one atomic step: an invariant \<open>J\<close> of state and history, an order \<open>ord i\<close> of
  what thread \<open>i\<close> may rely on besides \<open>J\<close>, and what thread \<open>i\<close> guarantees, \<open>grd i\<close>.
\<close>

type_synonym ('o, 'r) history = "(nat \<times> 'o \<times> 'r) list"

type_synonym ('q, 'o, 'r) spec = "'q \<Rightarrow> 'o \<Rightarrow> 'r \<Rightarrow> 'q option"

definition proj :: "nat \<Rightarrow> ('o, 'r) history \<Rightarrow> ('o \<times> 'r) list" where
  "proj i H = map snd (filter (\<lambda>e. fst e = i) H)"

primrec replay :: "('q, 'o, 'r) spec \<Rightarrow> 'q \<Rightarrow> ('o, 'r) history \<Rightarrow> 'q option" where
  "replay spec q [] = Some q"
| "replay spec q (e # H) =
     (case spec q (fst (snd e)) (snd (snd e)) of None \<Rightarrow> None | Some q' \<Rightarrow> replay spec q' H)"

lemma proj_Nil [simp]: "proj i [] = []"
  by (simp add: proj_def)

lemma proj_append [simp]: "proj i (H @ H') = proj i H @ proj i H'"
  by (simp add: proj_def)

lemma proj_single [simp]: "proj i [(j, x)] = (if i = j then [x] else [])"
  by (simp add: proj_def)

lemma replay_append [simp]:
  "replay spec q (H @ H') = (case replay spec q H of None \<Rightarrow> None | Some q' \<Rightarrow> replay spec q' H')"
  by (induction H arbitrary: q) (auto split: option.splits)

text \<open>The history \<open>H\<close> explains the configuration \<open>c\<close> of threads that perform \<open>opss\<close>.\<close>

definition linearized :: "(failure \<Rightarrow> bool) \<Rightarrow> ('q, 'o, 'r) spec \<Rightarrow> 'q \<Rightarrow> ('s \<Rightarrow> 'q \<Rightarrow> bool) \<Rightarrow> 'o list list \<Rightarrow>
    ('o, 'r) history \<Rightarrow> 's \<times> ('s, 'r list \<times> 'l) prog list \<Rightarrow> bool" where
  "linearized T spec q0 rep opss H c \<longleftrightarrow>
     (\<exists>q. replay spec q0 H = Some q \<and> rep (fst c) q) \<and>
     (\<forall>(i, x) \<in> set H. i < length opss) \<and>
     (\<forall>i<length opss. prefix (map fst (proj i H)) (opss ! i)) \<and>
     (\<forall>i<length opss. \<forall>rs l. snd c ! i = Ret (rs, l) \<longrightarrow>
        length rs = length (opss ! i) \<and> proj i H = zip (opss ! i) rs) \<and>
     (\<forall>i<length opss. \<forall>e. snd c ! i = Stop e \<longrightarrow> T e)"

definition linearizable :: "('s \<Rightarrow> bool) \<Rightarrow> (failure \<Rightarrow> bool) \<Rightarrow> ('q, 'o, 'r) spec \<Rightarrow> 'q \<Rightarrow> ('s \<Rightarrow> 'q \<Rightarrow> bool) \<Rightarrow>
    'o list list \<Rightarrow> 's \<times> ('s, 'r list \<times> 'l) prog list \<Rightarrow> bool" where
  "linearizable A T spec q0 rep opss c \<longleftrightarrow>
     length (snd c) = length opss \<and>
     (\<forall>f n. execution A f n \<and> f 0 = c \<longrightarrow>
        (\<exists>H. (\<forall>k<n. prefix (H k) (H (Suc k))) \<and>
             (\<forall>k\<le>n. linearized T spec q0 rep opss (H k) (f k))))"

text \<open>The same with histories that all satisfy \<open>Z\<close>.\<close>

definition linearizable_with :: "(('o, 'r) history \<Rightarrow> bool) \<Rightarrow> ('s \<Rightarrow> bool) \<Rightarrow> (failure \<Rightarrow> bool) \<Rightarrow> ('q, 'o, 'r) spec \<Rightarrow> 'q \<Rightarrow>
    ('s \<Rightarrow> 'q \<Rightarrow> bool) \<Rightarrow> 'o list list \<Rightarrow> 's \<times> ('s, 'r list \<times> 'l) prog list \<Rightarrow> bool" where
  "linearizable_with Z A T spec q0 rep opss c \<longleftrightarrow>
     length (snd c) = length opss \<and>
     (\<forall>f n. execution A f n \<and> f 0 = c \<longrightarrow>
        (\<exists>H. (\<forall>k<n. prefix (H k) (H (Suc k))) \<and>
             (\<forall>k\<le>n. linearized T spec q0 rep opss (H k) (f k) \<and> Z (H k))))"

lemma linearizable_withD: "linearizable_with Z A T spec q0 rep opss c \<Longrightarrow> linearizable A T spec q0 rep opss c"
  unfolding linearizable_def linearizable_with_def by blast

lemma linearizable_reach:
  assumes "linearizable A T spec q0 rep opss c" and "reach A c d"
  shows "\<exists>H. linearized T spec q0 rep opss H d"
proof -
  obtain f n where f: "execution A f n" "f 0 = c" "f n = d"
    using reach_execution [OF assms(2)] by blast
  have "execution A f n \<and> f 0 = c \<longrightarrow>
      (\<exists>H. (\<forall>k<n. prefix (H k) (H (Suc k))) \<and> (\<forall>k\<le>n. linearized T spec q0 rep opss (H k) (f k)))"
    using assms(1) unfolding linearizable_def by blast
  then obtain H where "\<forall>k\<le>n. linearized T spec q0 rep opss (H k) (f k)" using f by blast
  then have "linearized T spec q0 rep opss (H n) (f n)" by blast
  then show ?thesis unfolding f(3) by blast
qed

text \<open>The threads of a configuration: the operations of each and its locals at the start.\<close>

definition threads :: "('o \<Rightarrow> 'l \<Rightarrow> ('s, 'r \<times> 'l) prog) \<Rightarrow> ('o list \<times> 'l) list \<Rightarrow> ('s, 'r list \<times> 'l) prog list" where
  "threads f ths = map (\<lambda>(ops, l). seq_ops f ops l) ths"

text \<open>What thread \<open>i\<close>, whose whole program is \<open>opss ! i\<close>, may add to the history.\<close>

definition hist_step :: "'o list list \<Rightarrow> nat \<Rightarrow> ('o, 'r) history \<Rightarrow> ('o, 'r) history \<Rightarrow> bool" where
  "hist_step opss i H H' \<longleftrightarrow> H' = H \<or>
     i < length opss \<and> (\<exists>op r. H' = H @ [(i, op, r)] \<and> prefix (map fst (proj i H) @ [op]) (opss ! i))"

definition hist_rely :: "nat \<Rightarrow> ('o, 'r) history \<Rightarrow> ('o, 'r) history \<Rightarrow> bool" where
  "hist_rely i H H' \<longleftrightarrow> (\<exists>X. H' = H @ X \<and> proj i X = [])"

lemma hist_rely_refl [simp]: "hist_rely i H H"
  by (simp add: hist_rely_def)

lemma hist_rely_trans: "hist_rely i H H' \<Longrightarrow> hist_rely i H' H'' \<Longrightarrow> hist_rely i H H''"
  by (auto simp: hist_rely_def)

lemma hist_rely_proj [dest]: "hist_rely i H H' \<Longrightarrow> proj i H' = proj i H"
  by (auto simp: hist_rely_def)

lemma hist_step_refl [simp]: "hist_step opss i H H"
  by (simp add: hist_step_def)

lemma hist_step_rely: "i \<noteq> j \<Longrightarrow> hist_step opss i H H' \<Longrightarrow> hist_rely j H H'"
  unfolding hist_step_def hist_rely_def by (elim disjE) (simp, fastforce)

lemma hist_step_prefix: "hist_step opss i H H' \<Longrightarrow> prefix H H'"
  by (auto simp: hist_step_def)

definition hist_ok :: "'o list list \<Rightarrow> ('o, 'r) history \<Rightarrow> bool" where
  "hist_ok opss H \<longleftrightarrow> (\<forall>(i, x) \<in> set H. i < length opss) \<and>
     (\<forall>i<length opss. prefix (map fst (proj i H)) (opss ! i))"

lemma hist_ok_Nil [simp]: "hist_ok opss []"
  by (simp add: hist_ok_def)

lemma hist_step_ok: "hist_ok opss H \<Longrightarrow> hist_step opss i H H' \<Longrightarrow> hist_ok opss H'"
  by (auto simp: hist_ok_def hist_step_def)

lemma hist_ok_entry:
  "hist_ok opss H \<Longrightarrow> i < length opss \<Longrightarrow> prefix (map fst (proj i H) @ [op]) (opss ! i) \<Longrightarrow>
     hist_ok opss (H @ [(i, op, r)])"
  by (rule hist_step_ok [of opss H i]) (auto simp: hist_step_def)

text \<open>
  A history has at most as many entries as the threads have operations: the bound behind the
  lock-freedom theorems, where a failed attempt is charged to an entry of another thread.
\<close>

definition total_ops :: "'o list list \<Rightarrow> nat" where
  "total_ops opss = sum_list (map length opss)"

lemma length_proj_sum:
  "(\<And>i x. (i, x) \<in> set H \<Longrightarrow> i < n) \<Longrightarrow> length H = (\<Sum>i<n. length (proj i H))"
proof (induction H)
  case (Cons e H)
  obtain j x where e: "e = (j, x)" by (cases e)
  have j: "j < n" using Cons.prems [of j x] e by simp
  have "length (proj i (e # H)) = (if i = j then 1 else 0) + length (proj i H)" for i
    by (simp add: proj_def e)
  then have "(\<Sum>i<n. length (proj i (e # H))) = (\<Sum>i<n. if i = j then 1 else 0) + (\<Sum>i<n. length (proj i H))"
    by (simp add: sum.distrib)
  also have "(\<Sum>i<n. if i = j then 1 else 0) = (1 :: nat)" using j by simp
  finally show ?case using Cons.IH Cons.prems by (metis Suc_eq_plus1_left length_Cons list.set_intros(2))
qed simp

lemma hist_ok_length: "hist_ok opss H \<Longrightarrow> length H \<le> total_ops opss"
proof -
  assume ok: "hist_ok opss H"
  then have "length H = (\<Sum>i<length opss. length (proj i H))"
    by (intro length_proj_sum) (auto simp: hist_ok_def)
  also have "\<dots> \<le> (\<Sum>i<length opss. length (opss ! i))"
  proof (rule sum_mono)
    fix i assume "i \<in> {..<length opss}"
    then have "prefix (map fst (proj i H)) (opss ! i)" using ok by (simp add: hist_ok_def)
    then show "length (proj i H) \<le> length (opss ! i)" using prefix_length_le by fastforce
  qed
  also have "\<dots> = total_ops opss"
    by (simp add: total_ops_def sum_list_sum_nth atLeast0LessThan)
  finally show ?thesis .
qed

lemma hist_rely_length: "hist_rely i H H' \<Longrightarrow> H' \<noteq> H \<Longrightarrow> length H < length H'"
  by (auto simp: hist_rely_def)

lemma hist_rely_le: "hist_rely i H H' \<Longrightarrow> length H \<le> length H'"
  by (auto simp: hist_rely_def)

text \<open>
  \<open>enough T opss n H\<close>: a loop with bound \<open>n\<close>, started after the history \<open>H\<close>, cannot run out of
  it (or may, when that is tolerated).
\<close>

definition enough :: "(failure \<Rightarrow> bool) \<Rightarrow> 'o list list \<Rightarrow> nat \<Rightarrow> ('o, 'r) history \<Rightarrow> bool" where
  "enough T opss n H \<longleftrightarrow> T No_fuel \<or> total_ops opss < n + length H"

lemma enough_0: "enough T opss 0 H \<Longrightarrow> hist_ok opss H \<Longrightarrow> T No_fuel"
  by (auto simp: enough_def dest: hist_ok_length)

lemma enough_Suc:
  "enough T opss (Suc n) H \<Longrightarrow> hist_rely i H H' \<Longrightarrow> hist_rely i H' H'' \<Longrightarrow> H'' \<noteq> H' \<Longrightarrow> enough T opss n H''"
  unfolding enough_def using hist_rely_le [of i H H'] hist_rely_length [of i H' H''] by linarith

text \<open>
  \<open>out_of_fuel n opss\<close>: the only tolerated failure is to run out of a loop bound that does not
  exceed the number of operations all threads perform together. A theorem with it says that a
  larger bound is never exhausted: the operations are lock-free.
\<close>

definition out_of_fuel :: "nat \<Rightarrow> 'o list list \<Rightarrow> failure \<Rightarrow> bool" where
  "out_of_fuel n opss e \<longleftrightarrow> e = No_fuel \<and> n \<le> total_ops opss"

lemma enough_out_of_fuel [simp]: "enough (out_of_fuel n opss) opss n H"
  by (auto simp: enough_def out_of_fuel_def)

text \<open>The only tolerated failure is to run out of a loop bound, however large.\<close>

definition no_fuel :: "failure \<Rightarrow> bool" where
  "no_fuel e \<longleftrightarrow> e = No_fuel"

definition lin_rely :: "('s \<times> ('o, 'r) history \<Rightarrow> bool) \<Rightarrow> (nat \<Rightarrow> 's \<Rightarrow> 's \<Rightarrow> bool) \<Rightarrow> nat \<Rightarrow>
    's \<times> ('o, 'r) history \<Rightarrow> 's \<times> ('o, 'r) history \<Rightarrow> bool" where
  "lin_rely J ord i s t \<longleftrightarrow> (J s \<longrightarrow> J t) \<and> ord i (fst s) (fst t) \<and> hist_rely i (snd s) (snd t)"

definition lin_guar :: "('s \<times> ('o, 'r) history \<Rightarrow> bool) \<Rightarrow> (nat \<Rightarrow> 's \<Rightarrow> 's \<Rightarrow> bool) \<Rightarrow> 'o list list \<Rightarrow> nat \<Rightarrow>
    's \<times> ('o, 'r) history \<Rightarrow> 's \<times> ('o, 'r) history \<Rightarrow> bool" where
  "lin_guar J grd opss i s t \<longleftrightarrow> (J s \<longrightarrow> J t) \<and> grd i (fst s) (fst t) \<and> hist_step opss i (snd s) (snd t)"

text \<open>
  \<open>op_ok\<close>: an operation, started where the thread's part of the history is its operations so
  far, appends its own entry. \<open>L\<close> is what the thread knows of the state and its locals between
  operations.
\<close>

definition op_ok_hist :: "('s \<Rightarrow> bool) \<Rightarrow> (failure \<Rightarrow> bool) \<Rightarrow> ('s \<times> ('o, 'r) history \<Rightarrow> bool) \<Rightarrow> (nat \<Rightarrow> 's \<Rightarrow> 's \<Rightarrow> bool) \<Rightarrow>
    (nat \<Rightarrow> 's \<Rightarrow> 's \<Rightarrow> bool) \<Rightarrow> (nat \<Rightarrow> 'l \<Rightarrow> ('o \<times> 'r) list \<Rightarrow> 's \<Rightarrow> bool) \<Rightarrow> 'o list list \<Rightarrow> nat \<Rightarrow> 'o \<Rightarrow>
    ('o \<Rightarrow> 'l \<Rightarrow> ('s, 'r \<times> 'l) prog) \<Rightarrow> bool" where
  "op_ok_hist A T J ord grd L opss i op f \<longleftrightarrow> (\<forall>l s H. J (s, H) \<longrightarrow> L i l (proj i H) s \<longrightarrow>
     prefix (map fst (proj i H) @ [op]) (opss ! i) \<longrightarrow>
     safe A T (lin_rely J ord i) (lin_guar J grd opss i)
       (\<lambda>(r, l') (s', H'). J (s', H') \<and> L i l' (proj i H @ [(op, r)]) s' \<and> proj i H' = proj i H @ [(op, r)])
       (f op l) (s, H))"

text \<open>The common case: what a thread knows does not depend on its part of the history.\<close>

definition op_ok :: "('s \<Rightarrow> bool) \<Rightarrow> (failure \<Rightarrow> bool) \<Rightarrow> ('s \<times> ('o, 'r) history \<Rightarrow> bool) \<Rightarrow> (nat \<Rightarrow> 's \<Rightarrow> 's \<Rightarrow> bool) \<Rightarrow>
    (nat \<Rightarrow> 's \<Rightarrow> 's \<Rightarrow> bool) \<Rightarrow> (nat \<Rightarrow> 'l \<Rightarrow> 's \<Rightarrow> bool) \<Rightarrow> 'o list list \<Rightarrow> nat \<Rightarrow> 'o \<Rightarrow>
    ('o \<Rightarrow> 'l \<Rightarrow> ('s, 'r \<times> 'l) prog) \<Rightarrow> bool" where
  "op_ok A T J ord grd L opss i op f \<longleftrightarrow> (\<forall>l s H. J (s, H) \<longrightarrow> L i l s \<longrightarrow>
     prefix (map fst (proj i H) @ [op]) (opss ! i) \<longrightarrow>
     safe A T (lin_rely J ord i) (lin_guar J grd opss i)
       (\<lambda>(r, l') (s', H'). J (s', H') \<and> L i l' s' \<and> proj i H' = proj i H @ [(op, r)]) (f op l) (s, H))"

text \<open>
  The general contract: the ghost state of a system of threads contains the history, read off
  by \<open>hist\<close>, and \<open>P i l rs\<close> is what thread \<open>i\<close> knows between its operations, with the locals \<open>l\<close>,
  when it has performed \<open>rs\<close>.
\<close>

locale history_object = rely_system A T R G I
  for A :: "'s \<Rightarrow> bool" and T :: "failure \<Rightarrow> bool"
    and R G :: "nat \<Rightarrow> 's \<times> 'g \<Rightarrow> 's \<times> 'g \<Rightarrow> bool" and I :: "'s \<times> 'g \<Rightarrow> bool" +
  fixes hist :: "'g \<Rightarrow> ('o, 'r) history"
    and P :: "nat \<Rightarrow> 'l \<Rightarrow> ('o \<times> 'r) list \<Rightarrow> 's \<times> 'g \<Rightarrow> bool"
    and spec :: "('q, 'o, 'r) spec"
    and q0 :: 'q
    and rep :: "'s \<Rightarrow> 'q \<Rightarrow> bool"
    and f :: "'o \<Rightarrow> 'l \<Rightarrow> ('s, 'r \<times> 'l) prog"
    and opss :: "'o list list"
  assumes G_hist: "G i a b \<Longrightarrow> hist_step opss i (hist (snd a)) (hist (snd b))"
    and I_hist: "I (t, x) \<Longrightarrow> hist_ok opss (hist x)"
    and I_rep: "I (t, x) \<Longrightarrow> \<exists>q. replay spec q0 (hist x) = Some q \<and> rep t q"
    and P_proj: "P i l rs s \<Longrightarrow> proj i (hist (snd s)) = rs"
    and P_stable: "P i l rs s \<Longrightarrow> R i s s' \<Longrightarrow> P i l rs s'"
    and op_safe: "i < length opss \<Longrightarrow> op \<in> set (opss ! i) \<Longrightarrow> P i l rs s \<Longrightarrow>
      prefix (map fst rs @ [op]) (opss ! i) \<Longrightarrow>
      safe A T (R i) (G i) (\<lambda>(r, l') s'. P i l' (rs @ [(op, r)]) s') (f op l) s"
begin

lemma thread_safe:
  assumes i: "i < length opss" and P: "P i l [] s"
  shows "safe A T (R i) (G i)
    (\<lambda>(rs, l') s'. length rs = length (opss ! i) \<and> proj i (hist (snd s')) = zip (opss ! i) rs)
    (seq_ops f (opss ! i) l) s"
proof -
  have "safe A T (R i) (G i)
    (\<lambda>(xs, l') s'. P i l' ([] @ zip (opss ! i) xs) s' \<and> length xs = length (opss ! i))
    (seq_ops f (opss ! i) l) s"
  proof (rule safe_seq_ops [where all = "opss ! i"])
    show "R i s s" for s by (rule R_refl)
    show "P i l rs t" if "P i l rs s" "R i s t" for l rs s t by (rule P_stable [OF that])
    show "P i l [] s" by (rule P)
    fix op l rs s
    assume p: "P i l rs s" and pre: "prefix (map fst rs @ [op]) (opss ! i)"
    then have "op \<in> set (opss ! i)" by (auto dest: set_mono_prefix)
    then show "safe A T (R i) (G i) (\<lambda>(r, l') s'. P i l' (rs @ [(op, r)]) s') (f op l) s"
      by (rule op_safe [OF i _ p pre])
  qed simp
  then show ?thesis
    by (rule safe_weaken) (auto dest: P_proj)
qed

text \<open>Threads that run operations of the object, from a state that satisfies the invariant.\<close>

lemma linearizable_ghost:
  assumes I: "I (s, x)" "hist x = []" and len: "length ls = length opss"
    and P: "\<And>i. i < length opss \<Longrightarrow> P i (ls ! i) [] (s, x)" and Z: "\<And>s x. I (s, x) \<Longrightarrow> Z (hist x)"
  shows "linearizable_with Z A T spec q0 rep opss (s, map (\<lambda>(ops, l). seq_ops f ops l) (zip opss ls))"
proof -
  let ?ps = "map (\<lambda>(ops, l). seq_ops f ops l) (zip opss ls)"
  let ?Q = "\<lambda>i (rs, l' :: 'l) s'. length rs = length (opss ! i) \<and> proj i (hist (snd s')) = zip (opss ! i) rs"
  have "\<exists>H. (\<forall>k<n. prefix (H k) (H (Suc k))) \<and> (\<forall>k\<le>n. linearized T spec q0 rep opss (H k) (e k) \<and> Z (H k))"
    if e: "execution A e n" "e 0 = (s, ?ps)" for e n
  proof -
    have "safe A T (R i) (G i) (?Q i) (?ps ! i) (s, x)" if "i < length opss" for i
      using thread_safe [OF that P [OF that]] that len by simp
    then have "all_safe ?Q ?ps (s, x)"
      using I len by (auto simp: all_safe_def)
    from safe_execution [OF e this] obtain X where X: "X 0 = x"
      "\<forall>k\<le>n. length (snd (e k)) = length ?ps \<and> all_safe ?Q (snd (e k)) (fst (e k), X k)"
      "\<forall>k<n. e (Suc k) = e k \<and> X (Suc k) = X k \<or>
         (\<exists>i<length ?ps. G i (fst (e k), X k) (fst (e (Suc k)), X (Suc k)))"
      by (elim exE conjE)
    have "prefix (hist (X k)) (hist (X (Suc k)))" if "k < n" for k
      using X(3) that by (auto dest!: G_hist hist_step_prefix)
    moreover have "linearized T spec q0 rep opss (hist (X k)) (e k) \<and> Z (hist (X k))" if k: "k \<le> n" for k
    proof -
      have safe: "all_safe ?Q (snd (e k)) (fst (e k), X k)" and l: "length (snd (e k)) = length opss"
        using X(2) k len by auto
      note inv = all_safe_inv [OF safe]
      have "linearized T spec q0 rep opss (hist (X k)) (e k)"
        using I_hist [OF inv] I_rep [OF inv] all_safe_Ret [OF safe] all_safe_Stop [OF safe] l
        by (fastforce simp: linearized_def hist_ok_def)
      then show ?thesis using Z [OF inv] by simp
    qed
    ultimately show ?thesis by (intro exI [of _ "\<lambda>k. hist (X k)"]) simp
  qed
  then show ?thesis using len by (simp add: linearizable_with_def)
qed

lemma linearizable_ghost_threads:
  assumes "I (s, x)" "hist x = []" and "opss = map fst ths" and "\<And>i. i < length ths \<Longrightarrow> P i (snd (ths ! i)) [] (s, x)"
    and "\<And>s x. I (s, x) \<Longrightarrow> Z (hist x)"
  shows "linearizable_with Z A T spec q0 rep opss (s, threads f ths)"
proof -
  have "map (\<lambda>(ops, l). seq_ops f ops l) (zip opss (map snd ths)) = threads f ths"
    unfolding threads_def by (rule nth_equalityI) (use assms(3) in \<open>auto split: prod.splits\<close>)
  then show ?thesis
    using linearizable_ghost [of s x "map snd ths" Z] assms by simp
qed

end

text \<open>The common case, where the history is all of the ghost state.\<close>

locale lin_object_hist =
  fixes A :: "'s \<Rightarrow> bool"
    and T :: "failure \<Rightarrow> bool"
    and J :: "'s \<times> ('o, 'r) history \<Rightarrow> bool"
    and ord grd :: "nat \<Rightarrow> 's \<Rightarrow> 's \<Rightarrow> bool"
    and L :: "nat \<Rightarrow> 'l \<Rightarrow> ('o \<times> 'r) list \<Rightarrow> 's \<Rightarrow> bool"
    and spec :: "('q, 'o, 'r) spec"
    and q0 :: 'q
    and rep :: "'s \<Rightarrow> 'q \<Rightarrow> bool"
    and f :: "'o \<Rightarrow> 'l \<Rightarrow> ('s, 'r \<times> 'l) prog"
    and opss :: "'o list list"
  assumes ord_refl: "ord i s s"
    and ord_trans: "ord i s t \<Longrightarrow> ord i t u \<Longrightarrow> ord i s u"
    and grd_ord: "i \<noteq> j \<Longrightarrow> grd i s t \<Longrightarrow> ord j s t"
    and J_rep: "J (s, H) \<Longrightarrow> \<exists>q. replay spec q0 H = Some q \<and> rep s q"
    and L_stable: "L i l rs s \<Longrightarrow> ord i s t \<Longrightarrow> L i l rs t"
    and op: "i < length opss \<Longrightarrow> op \<in> set (opss ! i) \<Longrightarrow> op_ok_hist A T J ord grd L opss i op f"
begin

sublocale history_object A T "lin_rely J ord" "lin_guar J grd opss" "\<lambda>s. J s \<and> hist_ok opss (snd s)" "\<lambda>H. H"
  "\<lambda>i l rs s. J s \<and> L i l rs (fst s) \<and> proj i (snd s) = rs" spec q0 rep f opss
proof
  fix i op l rs s
  assume i: "i < length opss" "op \<in> set (opss ! i)" and P: "J s \<and> L i l rs (fst s) \<and> proj i (snd s) = rs"
    "prefix (map fst rs @ [op]) (opss ! i)"
  have "safe A T (lin_rely J ord i) (lin_guar J grd opss i)
      (\<lambda>(r, l') (s', H'). J (s', H') \<and> L i l' (proj i (snd s) @ [(op, r)]) s' \<and> proj i H' = proj i (snd s) @ [(op, r)]) (f op l) s"
    using op [OF i] P unfolding op_ok_hist_def by (cases s) auto
  then show "safe A T (lin_rely J ord i) (lin_guar J grd opss i)
      (\<lambda>(r, l') s'. J s' \<and> L i l' (rs @ [(op, r)]) (fst s') \<and> proj i (snd s') = rs @ [(op, r)]) (f op l) s"
    by (rule safe_weaken) (use P in auto)
qed (auto simp: lin_rely_def lin_guar_def ord_refl grd_ord hist_step_rely J_rep
  intro: ord_trans hist_rely_trans hist_step_ok L_stable)

lemma linearizable_with_threads:
  assumes "J (s, [])" and "opss = map fst ths" and "\<And>i. i < length ths \<Longrightarrow> L i (snd (ths ! i)) [] s"
    and "\<And>s H. J (s, H) \<Longrightarrow> Z H"
  shows "linearizable_with Z A T spec q0 rep opss (s, threads f ths)"
  by (rule linearizable_ghost_threads) (use assms in auto)

lemma linearizable_threads:
  assumes "J (s, [])" and "opss = map fst ths" and "\<And>i. i < length ths \<Longrightarrow> L i (snd (ths ! i)) [] s"
  shows "linearizable A T spec q0 rep opss (s, threads f ths)"
  by (rule linearizable_withD [where Z = "\<lambda>_. True"], rule linearizable_with_threads) (use assms in simp_all)

end

locale lin_object =
  fixes A :: "'s \<Rightarrow> bool"
    and T :: "failure \<Rightarrow> bool"
    and J :: "'s \<times> ('o, 'r) history \<Rightarrow> bool"
    and ord grd :: "nat \<Rightarrow> 's \<Rightarrow> 's \<Rightarrow> bool"
    and L :: "nat \<Rightarrow> 'l \<Rightarrow> 's \<Rightarrow> bool"
    and spec :: "('q, 'o, 'r) spec"
    and q0 :: 'q
    and rep :: "'s \<Rightarrow> 'q \<Rightarrow> bool"
    and f :: "'o \<Rightarrow> 'l \<Rightarrow> ('s, 'r \<times> 'l) prog"
    and opss :: "'o list list"
  assumes ord_refl: "ord i s s"
    and ord_trans: "ord i s t \<Longrightarrow> ord i t u \<Longrightarrow> ord i s u"
    and grd_ord: "i \<noteq> j \<Longrightarrow> grd i s t \<Longrightarrow> ord j s t"
    and J_rep: "J (s, H) \<Longrightarrow> \<exists>q. replay spec q0 H = Some q \<and> rep s q"
    and L_stable: "L i l s \<Longrightarrow> ord i s t \<Longrightarrow> L i l t"
    and op: "i < length opss \<Longrightarrow> op \<in> set (opss ! i) \<Longrightarrow> op_ok A T J ord grd L opss i op f"

sublocale lin_object \<subseteq> hist?: lin_object_hist A T J ord grd "\<lambda>i l rs s. L i l s" spec q0 rep f opss
proof
  show "\<exists>q. replay spec q0 H = Some q \<and> rep s q" if "J (s, H)" for s H using that by (rule J_rep)
  show "op_ok_hist A T J ord grd (\<lambda>i l rs. L i l) opss i op f" if "i < length opss" "op \<in> set (opss ! i)" for i op
    using op [OF that] by (simp add: op_ok_def op_ok_hist_def)
qed (auto intro: ord_refl ord_trans grd_ord L_stable)

section \<open>Proof rules for the operations of an object\<close>

text \<open>
  One rule per primitive. In each, \<open>t\<close> and \<open>H'\<close> are the state and history the action finds;
  \<open>X\<close> is what the action appends to the history: nothing, or the entry of the operation.
\<close>

lemma lin_ret:
  assumes "J (s, H)"
    and "\<And>t H'. J (t, H') \<Longrightarrow> ord i s t \<Longrightarrow> hist_rely i H H' \<Longrightarrow> proj i H' = proj i H \<Longrightarrow> Q a (t, H')"
  shows "safe A T (lin_rely J ord i) G Q (Ret a) (s, H)"
  using assms by (auto simp: lin_rely_def)

lemma lin_load:
  assumes "J (s, H)" and "\<And>t. grd i t t"
    and "\<And>t H'. J (t, H') \<Longrightarrow> ord i s t \<Longrightarrow> hist_rely i H H' \<Longrightarrow> proj i H' = proj i H \<Longrightarrow> A t \<Longrightarrow>
           safe A T (lin_rely J ord i) (lin_guar J grd opss i) Q (k (f t)) (t, H')"
  shows "safe A T (lin_rely J ord i) (lin_guar J grd opss i) Q (load f k) (s, H)"
  by (rule safe_load) (use assms in \<open>auto simp: lin_rely_def lin_guar_def\<close>)

lemma lin_checked:
  assumes "J (s, H)" and "\<And>t H'. J (t, H') \<Longrightarrow> ord i s t \<Longrightarrow> A t \<Longrightarrow> c t"
    and "safe A T (lin_rely J ord i) G Q p (s, H)"
  shows "safe A T (lin_rely J ord i) G Q (checked c p) (s, H)"
  by (rule safe_checked) (use assms in \<open>auto simp: lin_rely_def\<close>)

lemma lin_load_point:
  assumes "J (s, H)"
    and "\<And>t H'. J (t, H') \<Longrightarrow> ord i s t \<Longrightarrow> hist_rely i H H' \<Longrightarrow> proj i H' = proj i H \<Longrightarrow> A t \<Longrightarrow>
           \<exists>X. hist_step opss i H' (H' @ X) \<and> J (t, H' @ X) \<and> grd i t t \<and>
             safe A T (lin_rely J ord i) (lin_guar J grd opss i) Q (k (f t)) (t, H' @ X)"
  shows "safe A T (lin_rely J ord i) (lin_guar J grd opss i) Q (load f k) (s, H)"
proof (rule safe_load_ghost)
  fix t g assume "lin_rely J ord i (s, H) (t, g)" "A t"
  then obtain X where "hist_step opss i g (g @ X)" "J (t, g @ X)" "grd i t t"
    "safe A T (lin_rely J ord i) (lin_guar J grd opss i) Q (k (f t)) (t, g @ X)"
    using assms(1) assms(2) [of t g] by (auto simp: lin_rely_def)
  then show "\<exists>g'. lin_guar J grd opss i (t, g) (t, g') \<and>
      safe A T (lin_rely J ord i) (lin_guar J grd opss i) Q (k (f t)) (t, g')"
    by (auto simp: lin_guar_def)
qed

lemma lin_store:
  assumes "J (s, H)"
    and "\<And>t H'. J (t, H') \<Longrightarrow> ord i s t \<Longrightarrow> hist_rely i H H' \<Longrightarrow> proj i H' = proj i H \<Longrightarrow> A t \<Longrightarrow>
           \<exists>X. hist_step opss i H' (H' @ X) \<and> J (f t, H' @ X) \<and> grd i t (f t) \<and>
             safe A T (lin_rely J ord i) (lin_guar J grd opss i) Q k (f t, H' @ X)"
  shows "safe A T (lin_rely J ord i) (lin_guar J grd opss i) Q (store f k) (s, H)"
proof (rule safe_store)
  fix t g assume "lin_rely J ord i (s, H) (t, g)" "A t"
  then obtain X where "hist_step opss i g (g @ X)" "J (f t, g @ X)" "grd i t (f t)"
    "safe A T (lin_rely J ord i) (lin_guar J grd opss i) Q k (f t, g @ X)"
    using assms(1) assms(2) [of t g] by (auto simp: lin_rely_def)
  then show "\<exists>g'. lin_guar J grd opss i (t, g) (f t, g') \<and>
      safe A T (lin_rely J ord i) (lin_guar J grd opss i) Q k (f t, g')"
    by (auto simp: lin_guar_def)
qed

lemma lin_fetch_op:
  assumes "J (s, H)"
    and "\<And>t H'. J (t, H') \<Longrightarrow> ord i s t \<Longrightarrow> hist_rely i H H' \<Longrightarrow> proj i H' = proj i H \<Longrightarrow> A t \<Longrightarrow>
           \<exists>X. hist_step opss i H' (H' @ X) \<and> J (put (f (get t)) t, H' @ X) \<and> grd i t (put (f (get t)) t) \<and>
             safe A T (lin_rely J ord i) (lin_guar J grd opss i) Q (k (get t)) (put (f (get t)) t, H' @ X)"
  shows "safe A T (lin_rely J ord i) (lin_guar J grd opss i) Q (fetch_op get put f k) (s, H)"
proof (rule safe_fetch_op)
  fix t g assume "lin_rely J ord i (s, H) (t, g)" "A t"
  then obtain X where "hist_step opss i g (g @ X)" "J (put (f (get t)) t, g @ X)" "grd i t (put (f (get t)) t)"
    "safe A T (lin_rely J ord i) (lin_guar J grd opss i) Q (k (get t)) (put (f (get t)) t, g @ X)"
    using assms(1) assms(2) [of t g] by (auto simp: lin_rely_def)
  then show "\<exists>g'. lin_guar J grd opss i (t, g) (put (f (get t)) t, g') \<and>
      safe A T (lin_rely J ord i) (lin_guar J grd opss i) Q (k (get t)) (put (f (get t)) t, g')"
    by (auto simp: lin_guar_def)
qed

lemma lin_cae:
  assumes "J (s, H)" and refl: "\<And>t. grd i t t"
    and succ: "\<And>t H'. J (t, H') \<Longrightarrow> ord i s t \<Longrightarrow> hist_rely i H H' \<Longrightarrow> proj i H' = proj i H \<Longrightarrow> A t \<Longrightarrow> get t = e \<Longrightarrow>
           \<exists>X. hist_step opss i H' (H' @ X) \<and> J (put n t, H' @ X) \<and> grd i t (put n t) \<and>
             safe A T (lin_rely J ord i) (lin_guar J grd opss i) Q (k True e) (put n t, H' @ X)"
    and fail: "\<And>t H'. J (t, H') \<Longrightarrow> ord i s t \<Longrightarrow> hist_rely i H H' \<Longrightarrow> proj i H' = proj i H \<Longrightarrow> A t \<Longrightarrow> get t \<noteq> e \<Longrightarrow>
           safe A T (lin_rely J ord i) (lin_guar J grd opss i) Q (k False (get t)) (t, H')"
  shows "safe A T (lin_rely J ord i) (lin_guar J grd opss i) Q (cae get put e n k) (s, H)"
proof (rule safe_cae)
  fix t g assume R: "lin_rely J ord i (s, H) (t, g)" "A t"
  { assume "get t = e"
    then obtain X where "hist_step opss i g (g @ X)" "J (put n t, g @ X)" "grd i t (put n t)"
      "safe A T (lin_rely J ord i) (lin_guar J grd opss i) Q (k True e) (put n t, g @ X)"
      using R assms(1) succ [of t g] by (auto simp: lin_rely_def)
    then show "\<exists>g'. lin_guar J grd opss i (t, g) (put n t, g') \<and>
        safe A T (lin_rely J ord i) (lin_guar J grd opss i) Q (k True e) (put n t, g')"
      by (auto simp: lin_guar_def) }
  { assume "get t \<noteq> e"
    then show "lin_guar J grd opss i (t, g) (t, g) \<and>
        safe A T (lin_rely J ord i) (lin_guar J grd opss i) Q (k False (get t)) (t, g)"
      using R assms(1) refl fail [of t g] by (auto simp: lin_rely_def lin_guar_def) }
qed

lemma cas_cae: "cas get put e n k = cae get put e n (\<lambda>b v. k b)"
  by (simp add: cas_def cae_def)

lemma cas_val_cae: "cas_val get put e n k = cae get put e n (\<lambda>b v. k v)"
  by (simp add: cas_val_def cae_def)

lemmas lin_cas = lin_cae [where k = "\<lambda>b v. k b" for k, folded cas_cae]
lemmas lin_cas_val = lin_cae [where k = "\<lambda>b v. k v" for k, folded cas_val_cae]

text \<open>The entry of the operation in progress is one the thread may append.\<close>

lemma hist_step_entry [intro]:
  "i < length opss \<Longrightarrow> prefix (map fst (proj i H) @ [op]) (opss ! i) \<Longrightarrow> hist_step opss i H (H @ [(i, op, r)])"
  by (auto simp: hist_step_def)

lemma hist_step_none [intro]: "hist_step opss i H (H @ [])"
  by simp

text \<open>
  The common case: the action that takes effect appends the entry \<open>(i, op, r)\<close>, and what is
  left of the operation is to return.
\<close>

lemma lin_commit_ret:
  assumes "J (t, H' @ [(i, op, r)])" and "proj i H' = proj i H"
    and "\<And>t' H''. J (t', H'') \<Longrightarrow> ord i t t' \<Longrightarrow> proj i H'' = proj i H @ [(op, r)] \<Longrightarrow> Q a (t', H'')"
  shows "safe A T (lin_rely J ord i) G Q (Ret a) (t, H' @ [(i, op, r)])"
  by (rule lin_ret) (use assms in auto)

lemma lin_cae_commit:
  assumes J: "J (s, H)" and refl: "\<And>t. grd i t t" and k: "k True e = Ret a"
    and step: "i < length opss" "prefix (map fst (proj i H) @ [op]) (opss ! i)"
    and succ: "\<And>t H'. J (t, H') \<Longrightarrow> ord i s t \<Longrightarrow> hist_rely i H H' \<Longrightarrow> proj i H' = proj i H \<Longrightarrow> A t \<Longrightarrow> get t = e \<Longrightarrow>
           J (put n t, H' @ [(i, op, r)]) \<and> grd i t (put n t)"
    and Q: "\<And>t t' H'. J (t', H') \<Longrightarrow> ord i s t \<Longrightarrow> ord i (put n t) t' \<Longrightarrow>
           proj i H' = proj i H @ [(op, r)] \<Longrightarrow> Q a (t', H')"
    and fail: "\<And>t H'. J (t, H') \<Longrightarrow> ord i s t \<Longrightarrow> hist_rely i H H' \<Longrightarrow> proj i H' = proj i H \<Longrightarrow> A t \<Longrightarrow> get t \<noteq> e \<Longrightarrow>
           safe A T (lin_rely J ord i) (lin_guar J grd opss i) Q (k False (get t)) (t, H')"
  shows "safe A T (lin_rely J ord i) (lin_guar J grd opss i) Q (cae get put e n k) (s, H)"
proof (rule lin_cae [of J s H grd i ord A, OF J refl])
  show "safe A T (lin_rely J ord i) (lin_guar J grd opss i) Q (k False (get t)) (t, H')"
    if "J (t, H')" "ord i s t" "hist_rely i H H'" "proj i H' = proj i H" "A t" "get t \<noteq> e" for t H'
    using that by (rule fail)
  fix t H' assume t: "J (t, H')" "ord i s t" "hist_rely i H H'" "proj i H' = proj i H" "A t" "get t = e"
  let ?X = "[(i, op, r)]"
  have "hist_step opss i H' (H' @ ?X)" using step t(3,4) by (intro hist_step_entry) simp_all
  moreover have "J (put n t, H' @ ?X)" "grd i t (put n t)" using succ [OF t] by simp_all
  moreover have "safe A T (lin_rely J ord i) (lin_guar J grd opss i) Q (k True e) (put n t, H' @ ?X)"
    unfolding k by (rule lin_commit_ret [where H = H]) (use calculation t Q in auto)
  ultimately show "\<exists>X. hist_step opss i H' (H' @ X) \<and> J (put n t, H' @ X) \<and> grd i t (put n t) \<and>
      safe A T (lin_rely J ord i) (lin_guar J grd opss i) Q (k True e) (put n t, H' @ X)" by blast
qed

lemmas lin_cas_commit = lin_cae_commit [where k = "\<lambda>b v. k b" for k, folded cas_cae]
lemmas lin_cas_val_commit = lin_cae_commit [where k = "\<lambda>b v. k v" for k, folded cas_val_cae]

lemma lin_load_commit:
  assumes J: "J (s, H)" and refl: "\<And>t. grd i t t"
    and step: "i < length opss" "prefix (map fst (proj i H) @ [op]) (opss ! i)"
    and point: "\<And>t H'. J (t, H') \<Longrightarrow> ord i s t \<Longrightarrow> hist_rely i H H' \<Longrightarrow> proj i H' = proj i H \<Longrightarrow> A t \<Longrightarrow>
           (\<exists>a r. k (f t) = Ret a \<and> J (t, H' @ [(i, op, r)]) \<and>
             (\<forall>t' H''. J (t', H'') \<longrightarrow> ord i t t' \<longrightarrow> proj i H'' = proj i H @ [(op, r)] \<longrightarrow> Q a (t', H''))) \<or>
           safe A T (lin_rely J ord i) (lin_guar J grd opss i) Q (k (f t)) (t, H')"
  shows "safe A T (lin_rely J ord i) (lin_guar J grd opss i) Q (load f k) (s, H)"
proof (rule lin_load_point [of J s H ord i A opss grd, OF J])
  fix t H' assume t: "J (t, H')" "ord i s t" "hist_rely i H H'" "proj i H' = proj i H" "A t"
  show "\<exists>X. hist_step opss i H' (H' @ X) \<and> J (t, H' @ X) \<and> grd i t t \<and>
      safe A T (lin_rely J ord i) (lin_guar J grd opss i) Q (k (f t)) (t, H' @ X)"
    using point [OF t]
  proof (elim disjE exE conjE)
    fix a r assume a: "k (f t) = Ret a" "J (t, H' @ [(i, op, r)])"
      "\<forall>t' H''. J (t', H'') \<longrightarrow> ord i t t' \<longrightarrow> proj i H'' = proj i H @ [(op, r)] \<longrightarrow> Q a (t', H'')"
    have "hist_step opss i H' (H' @ [(i, op, r)])" using step t(3,4) by (intro hist_step_entry) simp_all
    moreover have "safe A T (lin_rely J ord i) (lin_guar J grd opss i) Q (k (f t)) (t, H' @ [(i, op, r)])"
      unfolding a(1) by (rule lin_commit_ret [where H = H]) (use a t in auto)
    ultimately show ?thesis using a refl by blast
  qed (use t refl in \<open>auto intro: exI [of _ "[]"]\<close>)
qed

text \<open>A load after which the operation always returns: \<open>a v\<close> on reading \<open>v\<close>, recorded as \<open>r v\<close>.\<close>

lemma lin_load_return:
  assumes "J (s, H)" and "\<And>t. grd i t t"
    and "i < length opss" and "prefix (map fst (proj i H) @ [op]) (opss ! i)"
    and "\<And>t H'. J (t, H') \<Longrightarrow> ord i s t \<Longrightarrow> hist_rely i H H' \<Longrightarrow> proj i H' = proj i H \<Longrightarrow> A t \<Longrightarrow>
           J (t, H' @ [(i, op, r (f t))])"
    and "\<And>t t' H'. J (t', H') \<Longrightarrow> ord i s t \<Longrightarrow> ord i t t' \<Longrightarrow>
           proj i H' = proj i H @ [(op, r (f t))] \<Longrightarrow> Q (a (f t)) (t', H')"
  shows "safe A T (lin_rely J ord i) (lin_guar J grd opss i) Q (load f (\<lambda>v. Ret (a v))) (s, H)"
  by (rule lin_load_commit [where op = op]) (use assms in blast)+

lemma lin_fetch_op_commit:
  assumes J: "J (s, H)"
    and step: "i < length opss" "prefix (map fst (proj i H) @ [op]) (opss ! i)"
    and point: "\<And>t H'. J (t, H') \<Longrightarrow> ord i s t \<Longrightarrow> hist_rely i H H' \<Longrightarrow> proj i H' = proj i H \<Longrightarrow> A t \<Longrightarrow>
           \<exists>a r. k (get t) = Ret a \<and> J (put (f (get t)) t, H' @ [(i, op, r)]) \<and> grd i t (put (f (get t)) t) \<and>
             (\<forall>t' H''. J (t', H'') \<longrightarrow> ord i (put (f (get t)) t) t' \<longrightarrow>
                proj i H'' = proj i H @ [(op, r)] \<longrightarrow> Q a (t', H''))"
  shows "safe A T (lin_rely J ord i) (lin_guar J grd opss i) Q (fetch_op get put f k) (s, H)"
proof (rule lin_fetch_op [of J s H ord i A opss put f get grd, OF J])
  fix t H' assume t: "J (t, H')" "ord i s t" "hist_rely i H H'" "proj i H' = proj i H" "A t"
  let ?t = "put (f (get t)) t"
  obtain a r where a: "k (get t) = Ret a" "J (?t, H' @ [(i, op, r)])" "grd i t ?t"
    "\<forall>t' H''. J (t', H'') \<longrightarrow> ord i ?t t' \<longrightarrow> proj i H'' = proj i H @ [(op, r)] \<longrightarrow> Q a (t', H'')"
    using point [OF t] by blast
  have "hist_step opss i H' (H' @ [(i, op, r)])" using step t(3,4) by (intro hist_step_entry) simp_all
  moreover have "safe A T (lin_rely J ord i) (lin_guar J grd opss i) Q (k (get t)) (?t, H' @ [(i, op, r)])"
    unfolding a(1) by (rule lin_commit_ret [where H = H]) (use a t in auto)
  ultimately show "\<exists>X. hist_step opss i H' (H' @ X) \<and> J (?t, H' @ X) \<and> grd i t ?t \<and>
      safe A T (lin_rely J ord i) (lin_guar J grd opss i) Q (k (get t)) (?t, H' @ X)"
    using a by blast
qed

lemma lin_fetch_op_return:
  assumes "J (s, H)"
    and "i < length opss" and "prefix (map fst (proj i H) @ [op]) (opss ! i)"
    and "\<And>t H'. J (t, H') \<Longrightarrow> ord i s t \<Longrightarrow> hist_rely i H H' \<Longrightarrow> proj i H' = proj i H \<Longrightarrow> A t \<Longrightarrow>
           J (put (f (get t)) t, H' @ [(i, op, r (get t))]) \<and> grd i t (put (f (get t)) t)"
    and "\<And>t t' H'. J (t', H') \<Longrightarrow> ord i s t \<Longrightarrow> ord i (put (f (get t)) t) t' \<Longrightarrow>
           proj i H' = proj i H @ [(op, r (get t))] \<Longrightarrow> Q (a (get t)) (t', H')"
  shows "safe A T (lin_rely J ord i) (lin_guar J grd opss i) Q (fetch_op get put f (\<lambda>v. Ret (a v))) (s, H)"
  by (rule lin_fetch_op_commit [where op = op]) (use assms in blast)+

text \<open>The trivial order, for objects whose threads rely on nothing but the invariant.\<close>

definition any_order :: "nat \<Rightarrow> 's \<Rightarrow> 's \<Rightarrow> bool" where
  "any_order i s t \<longleftrightarrow> True"

lemma any_order [intro!]: "any_order i s t"
  by (simp add: any_order_def)

definition no_local :: "nat \<Rightarrow> 'l \<Rightarrow> 's \<Rightarrow> bool" where
  "no_local i l s \<longleftrightarrow> True"

lemma no_local [intro!]: "no_local i l s"
  by (simp add: no_local_def)

lemma op_okI:
  assumes "\<And>l s H P. J (s, H) \<Longrightarrow> L i l s \<Longrightarrow> proj i H = P \<Longrightarrow> prefix (map fst P @ [op]) (opss ! i) \<Longrightarrow>
      safe A T (lin_rely J ord i) (lin_guar J grd opss i)
        (\<lambda>(r, l') (s', H'). J (s', H') \<and> L i l' s' \<and> proj i H' = P @ [(op, r)]) (f op l) (s, H)"
  shows "op_ok A T J ord grd L opss i op f"
  using assms by (simp add: op_ok_def)

text \<open>An operation without thread-local state, run by a thread that has none.\<close>

lemma op_ok_stateless:
  assumes f: "\<And>l. f op l = bind p (\<lambda>r. Ret (r, l))" and ord: "\<And>s. ord i s s"
    and safe: "\<And>s H P. J (s, H) \<Longrightarrow> proj i H = P \<Longrightarrow> prefix (map fst P @ [op]) (opss ! i) \<Longrightarrow>
      safe A T (lin_rely J ord i) (lin_guar J grd opss i)
        (\<lambda>r (s', H'). J (s', H') \<and> proj i H' = P @ [(op, r)]) p (s, H)"
  shows "op_ok A T J ord grd no_local opss i op f"
  unfolding op_ok_def f
proof (intro allI impI)
  fix l s H assume J: "J (s, H)" and pre: "prefix (map fst (proj i H) @ [op]) (opss ! i)"
  show "safe A T (lin_rely J ord i) (lin_guar J grd opss i)
      (\<lambda>(r, l') (s', H'). J (s', H') \<and> no_local i l' s' \<and> proj i H' = proj i H @ [(op, r)])
      (bind p (\<lambda>r. Ret (r, l))) (s, H)"
    by (rule safe_bind [OF safe_weaken [OF safe [OF J refl pre]]])
      (auto simp: lin_rely_def ord)
qed

end
