(* ===== verification/Mutex.thy ===== *)
theory Mutex
  imports Linear
begin

text \<open>
  Locks and what they are for. \<open>lock_if.h\<close> names the operations of a lock \<open>LOCK\<close>, \<open>UNLOCK\<close> and,
  for most locks, \<open>TRYLOCK\<close>; the locale \<open>mutex\<close> is the contract of an implementation: at every
  moment at most one thread, the \<open>owner\<close>, is between the end of a \<open>LOCK\<close> and the end of its
  \<open>UNLOCK\<close>. From the contract alone the theory proves what the users of a lock rely on: a
  sequence of accesses to the protected data, put between \<open>LOCK\<close> and \<open>UNLOCK\<close>, takes effect as
  one atomic operation (\<open>critical_linearizable\<close>), and never two threads are inside it.

  The protected data, the lock and the set of threads inside are the shared state of a user.
\<close>

section \<open>Critical sections\<close>

record ('m, 'd) guarded =
  the_lock :: 'm
  inside :: "nat list"
  data :: 'd

text \<open>An operation of the lock, and one of the data, as a program on the whole state.\<close>

primrec on_lock :: "('m, 'a) prog \<Rightarrow> (('m, 'd) guarded, 'a) prog" where
  "on_lock (Ret a) = Ret a"
| "on_lock (Act f) = Act (\<lambda>s. case map_prod id on_lock (f (the_lock s)) of (m, p) \<Rightarrow> (s\<lparr>the_lock := m\<rparr>, p))"
| "on_lock (Stop e) = Stop e"

primrec on_data :: "('d, 'a) prog \<Rightarrow> (('m, 'd) guarded, 'a) prog" where
  "on_data (Ret a) = Ret a"
| "on_data (Act f) = Act (\<lambda>s. case map_prod id on_data (f (data s)) of (d, p) \<Rightarrow> (s\<lparr>data := d\<rparr>, p))"
| "on_data (Stop e) = Stop e"

lemma on_lock_Act: "on_lock (Act f) = Act (\<lambda>s. (s\<lparr>the_lock := fst (f (the_lock s))\<rparr>, on_lock (snd (f (the_lock s)))))"
  by (simp add: case_prod_beta)

lemma on_data_Act: "on_data (Act f) = Act (\<lambda>s. (s\<lparr>data := fst (f (data s))\<rparr>, on_data (snd (f (data s)))))"
  by (simp add: case_prod_beta)

declare on_lock.simps(2) [simp del] on_data.simps(2) [simp del]

text \<open>The user of a lock: thread \<open>i\<close> performs \<open>body op\<close> on the data in a critical section.\<close>

definition enter :: "nat \<Rightarrow> ('m, 'd) guarded \<Rightarrow> ('m, 'd) guarded" where
  "enter i s = s\<lparr>inside := i # inside s\<rparr>"

definition leave :: "nat \<Rightarrow> ('m, 'd) guarded \<Rightarrow> ('m, 'd) guarded" where
  "leave i s = s\<lparr>inside := remove1 i (inside s)\<rparr>"

lemma enter_simps [simp]: "the_lock (enter i s) = the_lock s" "inside (enter i s) = i # inside s" "data (enter i s) = data s"
  by (simp_all add: enter_def)

lemma leave_simps [simp]: "the_lock (leave i s) = the_lock s" "inside (leave i s) = remove1 i (inside s)" "data (leave i s) = data s"
  by (simp_all add: leave_def)

definition critical :: "(nat \<Rightarrow> 'l \<Rightarrow> ('m, 'l) prog) \<Rightarrow> (nat \<Rightarrow> 'l \<Rightarrow> ('m, 'l) prog) \<Rightarrow> ('o \<Rightarrow> ('d, 'r) prog) \<Rightarrow>
    'o \<Rightarrow> nat \<times> 'l \<Rightarrow> (('m, 'd) guarded, 'r \<times> (nat \<times> 'l)) prog" where
  "critical acquire release body op il = (case il of (i, l) \<Rightarrow>
     bind (on_lock (acquire i l)) (\<lambda>l1.
     store (enter i) (
     bind (on_data (body op)) (\<lambda>r.
     store (leave i) (
     bind (on_lock (release i l1)) (\<lambda>l2. Ret (r, (i, l2))))))))"

text \<open>The threads of a user: the operations of each, its number and its local state of the lock.\<close>

definition users :: "'o list list \<Rightarrow> (nat \<Rightarrow> 'l) \<Rightarrow> ('o list \<times> nat \<times> 'l) list" where
  "users opss ls = map (\<lambda>i. (opss ! i, i, ls i)) [0..<length opss]"

lemma users_simps [simp]: "length (users opss ls) = length opss" "map fst (users opss ls) = opss"
  "i < length opss \<Longrightarrow> snd (users opss ls ! i) = (i, ls i)"
  by (simp_all add: users_def comp_def map_nth)

text \<open>The operation as a step of the data, and what holds when no thread is inside.\<close>

definition body_spec :: "('o \<Rightarrow> ('d, 'r) prog) \<Rightarrow> ('d, 'o, 'r) spec" where
  "body_spec body d op r = (case run (body op) d of
     Done r' d' \<Rightarrow> if r = r' then Some d' else None
   | Failed e d' \<Rightarrow> None)"

definition body_total :: "(failure \<Rightarrow> bool) \<Rightarrow> ('o \<Rightarrow> ('d, 'r) prog) \<Rightarrow> bool" where
  "body_total T body \<longleftrightarrow> (\<forall>op d e d'. run (body op) d = Failed e d' \<longrightarrow> T e)"

text \<open>The same for the data that critical sections on \<open>d0\<close> can produce.\<close>

definition body_safe :: "(failure \<Rightarrow> bool) \<Rightarrow> 'd \<Rightarrow> ('o \<Rightarrow> ('d, 'r) prog) \<Rightarrow> bool" where
  "body_safe T d0 body \<longleftrightarrow> (\<forall>H op d e d'. replay (body_spec body) d0 H = Some d \<longrightarrow> run (body op) d = Failed e d' \<longrightarrow> T e)"

lemma body_safeD:
  "body_safe T d0 body \<Longrightarrow> replay (body_spec body) d0 H = Some d \<Longrightarrow> run (body op) d = Failed e d' \<Longrightarrow> T e"
  unfolding body_safe_def by blast

lemma body_total_safe: "body_total T body \<Longrightarrow> body_safe T d0 body"
  unfolding body_total_def body_safe_def by blast

definition quiet :: "('m, 'd) guarded \<Rightarrow> 'd \<Rightarrow> bool" where
  "quiet s d \<longleftrightarrow> length (inside s) \<le> 1 \<and> (inside s = [] \<longrightarrow> data s = d)"

text \<open>A sample of a body: an increment in two accesses, which without a lock is not atomic.\<close>

definition bump :: "nat \<Rightarrow> (nat, nat) prog" where
  "bump op = load (\<lambda>d. d) (\<lambda>d. store (\<lambda>_. d + op) (Ret d))"

lemma bump_total: "body_total T bump"
  by (simp add: body_total_def bump_def)

section \<open>The contract of a lock\<close>

text \<open>
  \<open>linv\<close> is the invariant of the memory of the lock and its ghost state, \<open>owner\<close> the thread in
  possession, \<open>ord i\<close> what thread \<open>i\<close> relies on besides \<open>linv\<close> and \<open>grd i\<close> what it guarantees;
  \<open>ready i l\<close> and \<open>held i l\<close> are what it knows outside and inside the critical section.
\<close>

definition lock_rely :: "('m \<times> 'g \<Rightarrow> bool) \<Rightarrow> (nat \<Rightarrow> 'm \<times> 'g \<Rightarrow> 'm \<times> 'g \<Rightarrow> bool) \<Rightarrow> nat \<Rightarrow>
    'm \<times> 'g \<Rightarrow> 'm \<times> 'g \<Rightarrow> bool" where
  "lock_rely linv ord i a b \<longleftrightarrow> (linv a \<longrightarrow> linv b \<and> ord i a b)"

locale mutex =
  fixes T :: "failure \<Rightarrow> bool" and n :: nat
    and acquire release :: "nat \<Rightarrow> 'l \<Rightarrow> ('m, 'l) prog"
    and linv :: "'m \<times> 'g \<Rightarrow> bool"
    and owner :: "'g \<Rightarrow> nat option"
    and ord grd :: "nat \<Rightarrow> 'm \<times> 'g \<Rightarrow> 'm \<times> 'g \<Rightarrow> bool"
    and ready held :: "nat \<Rightarrow> 'l \<Rightarrow> 'm \<times> 'g \<Rightarrow> bool"
  assumes ord_refl: "ord i a a"
    and ord_trans: "ord i a b \<Longrightarrow> ord i b c \<Longrightarrow> ord i a c"
    and grd_ord: "i \<noteq> j \<Longrightarrow> linv a \<Longrightarrow> linv b \<Longrightarrow> grd i a b \<Longrightarrow> ord j a b"
    and ord_owner: "ord i a b \<Longrightarrow> owner (snd b) = Some i \<longleftrightarrow> owner (snd a) = Some i"
    and grd_owner: "grd i a b \<Longrightarrow> owner (snd b) = owner (snd a) \<or>
        owner (snd a) = None \<and> owner (snd b) = Some i \<or> owner (snd a) = Some i \<and> owner (snd b) = None"
    and grd_refl: "grd i a a"
    and ready_stable: "linv a \<Longrightarrow> linv b \<Longrightarrow> ready i l a \<Longrightarrow> ord i a b \<Longrightarrow> ready i l b"
    and ready_owner: "linv a \<Longrightarrow> ready i l a \<Longrightarrow> owner (snd a) \<noteq> Some i"
    and held_stable: "linv a \<Longrightarrow> linv b \<Longrightarrow> held i l a \<Longrightarrow> ord i a b \<Longrightarrow> held i l b"
    and held_owner: "linv a \<Longrightarrow> held i l a \<Longrightarrow> owner (snd a) = Some i"
    and acquire_safe: "i < n \<Longrightarrow> linv a \<Longrightarrow> ready i l a \<Longrightarrow>
        safe (\<lambda>_. True) T (lock_rely linv ord i) (lock_rely linv grd i) (\<lambda>l' b. linv b \<and> held i l' b) (acquire i l) a"
    and release_safe: "i < n \<Longrightarrow> linv a \<Longrightarrow> held i l a \<Longrightarrow>
        safe (\<lambda>_. True) T (lock_rely linv ord i) (lock_rely linv grd i) (\<lambda>l' b. linv b \<and> ready i l' b) (release i l) a"
begin

text \<open>The invariant of a user and what its threads rely on and guarantee.\<close>

definition user_inv :: "('d, 'o, 'r) spec \<Rightarrow> 'd \<Rightarrow> 'o list list \<Rightarrow> ('m, 'd) guarded \<times> 'g \<times> ('o, 'r) history \<Rightarrow> bool" where
  "user_inv spec d0 opss s \<longleftrightarrow> (case s of (s, g, H) \<Rightarrow> linv (the_lock s, g) \<and> hist_ok opss H \<and>
     (\<exists>d. replay spec d0 H = Some d \<and> (inside s = [] \<longrightarrow> data s = d)) \<and>
     (inside s = [] \<or> (\<exists>i. owner g = Some i \<and> inside s = [i])))"

definition user_rely :: "('d, 'o, 'r) spec \<Rightarrow> 'd \<Rightarrow> 'o list list \<Rightarrow> nat \<Rightarrow>
    ('m, 'd) guarded \<times> 'g \<times> ('o, 'r) history \<Rightarrow> ('m, 'd) guarded \<times> 'g \<times> ('o, 'r) history \<Rightarrow> bool" where
  "user_rely spec d0 opss i s t \<longleftrightarrow> (case (s, t) of ((s, g, H), (t, g', H')) \<Rightarrow> hist_rely i H H' \<and>
     (user_inv spec d0 opss (s, g, H) \<longrightarrow> user_inv spec d0 opss (t, g', H') \<and> ord i (the_lock s, g) (the_lock t, g') \<and>
        (owner g = Some i \<longrightarrow> data t = data s \<and> inside t = inside s \<and> H' = H)))"

definition user_guar :: "('d, 'o, 'r) spec \<Rightarrow> 'd \<Rightarrow> 'o list list \<Rightarrow> nat \<Rightarrow>
    ('m, 'd) guarded \<times> 'g \<times> ('o, 'r) history \<Rightarrow> ('m, 'd) guarded \<times> 'g \<times> ('o, 'r) history \<Rightarrow> bool" where
  "user_guar spec d0 opss i s t \<longleftrightarrow> (case (s, t) of ((s, g, H), (t, g', H')) \<Rightarrow> hist_step opss i H H' \<and>
     (user_inv spec d0 opss (s, g, H) \<longrightarrow> user_inv spec d0 opss (t, g', H') \<and> grd i (the_lock s, g) (the_lock t, g') \<and>
        (owner g \<noteq> Some i \<longrightarrow> data t = data s \<and> inside t = inside s \<and> H' = H)))"

lemma user_invD:
  "user_inv spec d0 opss (s, g, H) \<Longrightarrow> linv (the_lock s, g)"
  "user_inv spec d0 opss (s, g, H) \<Longrightarrow> owner g \<noteq> Some i \<Longrightarrow> i \<notin> set (inside s)"
  by (auto simp: user_inv_def)

lemma user_rely_trans:
  assumes st: "user_rely spec d0 opss i s t" and tu: "user_rely spec d0 opss i t u"
  shows "user_rely spec d0 opss i s u"
proof -
  obtain s1 g1 H1 s2 g2 H2 s3 g3 H3 where eq: "s = (s1, g1, H1)" "t = (s2, g2, H2)" "u = (s3, g3, H3)"
    by (metis prod.collapse)
  have H: "hist_rely i H1 H3" using st tu unfolding eq user_rely_def by (auto intro: hist_rely_trans)
  show ?thesis
  proof (cases "user_inv spec d0 opss s")
    case True
    then have 1: "user_inv spec d0 opss t" "ord i (the_lock s1, g1) (the_lock s2, g2)"
      "owner g1 = Some i \<Longrightarrow> data s2 = data s1 \<and> inside s2 = inside s1 \<and> H2 = H1"
      using st unfolding eq by (auto simp: user_rely_def)
    then have 2: "user_inv spec d0 opss u" "ord i (the_lock s2, g2) (the_lock s3, g3)"
      "owner g2 = Some i \<Longrightarrow> data s3 = data s2 \<and> inside s3 = inside s2 \<and> H3 = H2"
      using tu unfolding eq by (auto simp: user_rely_def)
    have "owner g2 = Some i" if "owner g1 = Some i" using ord_owner [OF 1(2)] that by simp
    then show ?thesis using H 1 2 ord_trans [OF 1(2) 2(2)] unfolding eq by (simp add: user_rely_def)
  next
    case False
    then show ?thesis using H by (simp add: user_rely_def eq)
  qed
qed

lemma user_system: "rely_system (user_rely spec d0 opss) (user_guar spec d0 opss) (user_inv spec d0 opss)"
proof
  fix i s t u
  show "user_rely spec d0 opss i s s"
    using ord_refl by (auto simp: user_rely_def split: prod.splits)
  show "user_rely spec d0 opss i s u" if "user_rely spec d0 opss i s t" "user_rely spec d0 opss i t u"
    using that by (rule user_rely_trans)
  show "user_inv spec d0 opss t" if "user_inv spec d0 opss s" "user_guar spec d0 opss i s t"
    using that by (auto simp: user_guar_def split: prod.splits)
next
  fix i j s t
  assume ij: "i \<noteq> j" and G: "user_guar spec d0 opss i s t"
  obtain s1 g1 H1 s2 g2 H2 where eq: "s = (s1, g1, H1)" "t = (s2, g2, H2)" by (metis prod.collapse)
  have H: "hist_rely j H1 H2" using G unfolding eq by (auto simp: user_guar_def intro: hist_step_rely [OF ij])
  show "user_rely spec d0 opss j s t"
  proof (cases "user_inv spec d0 opss s")
    case True
    then have 1: "user_inv spec d0 opss t" "grd i (the_lock s1, g1) (the_lock s2, g2)"
      "owner g1 \<noteq> Some i \<Longrightarrow> data s2 = data s1 \<and> inside s2 = inside s1 \<and> H2 = H1"
      using G unfolding eq by (auto simp: user_guar_def)
    have "ord j (the_lock s1, g1) (the_lock s2, g2)"
      by (rule grd_ord [OF ij _ _ 1(2)]) (use True 1(1) in \<open>auto simp: eq dest: user_invD(1)\<close>)
    then show ?thesis using H 1 ij unfolding eq by (auto simp: user_rely_def)
  next
    case False
    then show ?thesis using H by (simp add: user_rely_def eq)
  qed
qed

text \<open>Lock operations and body, seen from the state of the user.\<close>

lemma safe_on_lock:
  assumes "safe (\<lambda>_. True) T (lock_rely linv ord i) (lock_rely linv grd i) Q p (the_lock s, g)"
    and "user_inv spec d0 opss (s, g, H)" and "owner g = Some i \<Longrightarrow> inside s = []"
  shows "safe (\<lambda>_. True) T (user_rely spec d0 opss i) (user_guar spec d0 opss i)
    (\<lambda>a (s', g', H'). Q a (the_lock s', g') \<and> user_inv spec d0 opss (s', g', H') \<and> proj i H' = proj i H \<and>
       (owner g' = Some i \<longrightarrow> inside s' = [])) (on_lock p) (s, g, H)"
  using assms
proof (induction p arbitrary: s g H rule: prog_induct)
  case (Ret a)
  then show ?case
    using ord_owner [of i] by (fastforce simp: user_rely_def lock_rely_def user_invD(1))
next
  case (Act f)
  show ?case
    unfolding on_lock_Act
  proof (rule safe_ActI, simp only: fst_conv snd_conv split_paired_all)
    fix t g1 H1
    assume R: "user_rely spec d0 opss i (s, g, H) (t, g1, H1)"
    let ?t = "t\<lparr>the_lock := fst (f (the_lock t))\<rparr>"
    have t: "user_inv spec d0 opss (t, g1, H1)" "hist_rely i H H1" "ord i (the_lock s, g) (the_lock t, g1)"
      "owner g1 = Some i \<Longrightarrow> inside t = []"
      using R Act.prems ord_owner [of i "(the_lock s, g)" "(the_lock t, g1)"] by (auto simp: user_rely_def)
    have "lock_rely linv ord i (the_lock s, g) (the_lock t, g1)" using t by (auto simp: lock_rely_def user_invD(1))
    then obtain g2 where g2: "lock_rely linv grd i (the_lock t, g1) (fst (f (the_lock t)), g2)"
      "safe (\<lambda>_. True) T (lock_rely linv ord i) (lock_rely linv grd i) Q (snd (f (the_lock t))) (fst (f (the_lock t)), g2)"
      using safe_ActE [OF Act.prems(1)] by blast
    have grd: "linv (fst (f (the_lock t)), g2)" "grd i (the_lock t, g1) (fst (f (the_lock t)), g2)"
      using g2(1) user_invD(1) [OF t(1)] by (auto simp: lock_rely_def)
    have inside: "inside t = [] \<or> owner g1 \<noteq> Some i \<and> owner g2 = owner g1"
      using t(1,4) grd_owner [OF grd(2)] by (auto simp: user_inv_def)
    have linv: "user_inv spec d0 opss (?t, g2, H1)"
      using t(1) inside grd(1) by (auto simp: user_inv_def)
    have "safe (\<lambda>_. True) T (user_rely spec d0 opss i) (user_guar spec d0 opss i)
      (\<lambda>a (s', g', H'). Q a (the_lock s', g') \<and> user_inv spec d0 opss (s', g', H') \<and> proj i H' = proj i H1 \<and>
         (owner g' = Some i \<longrightarrow> inside s' = [])) (on_lock (snd (f (the_lock t)))) (?t, g2, H1)"
    proof (rule Act.IH)
      show "inside ?t = []" if "owner g2 = Some i" using inside that by auto
    qed (use g2(2) linv in simp_all)
    moreover have "user_guar spec d0 opss i (t, g1, H1) (?t, g2, H1)"
      using linv grd by (simp add: user_guar_def)
    ultimately show "\<exists>g'. user_guar spec d0 opss i (t, g1, H1) (?t, g') \<and>
        safe (\<lambda>_. True) T (user_rely spec d0 opss i) (user_guar spec d0 opss i)
          (\<lambda>a (s', g', H'). Q a (the_lock s', g') \<and> user_inv spec d0 opss (s', g', H') \<and> proj i H' = proj i H \<and>
            (owner g' = Some i \<longrightarrow> inside s' = [])) (on_lock (snd (f (the_lock t)))) (?t, g')"
      using hist_rely_proj [OF t(2)] by (intro exI [of _ "(g2, H1)"]) simp
  qed
next
  case (Stop e)
  then show ?case by simp
qed

text \<open>While thread \<open>i\<close> is inside, the data is its own: the body computes what it does alone.\<close>

lemma safe_on_data:
  assumes "\<And>e d'. run p (data s) = Failed e d' \<Longrightarrow> T e"
    and "user_inv spec d0 opss (s, g, H)" and "held i l (the_lock s, g)" and "inside s = [i]"
  shows "safe (\<lambda>_. True) T (user_rely spec d0 opss i) (user_guar spec d0 opss i)
    (\<lambda>r (s', g', H'). user_inv spec d0 opss (s', g', H') \<and> held i l (the_lock s', g') \<and> inside s' = [i] \<and>
       run p (data s) = Done r (data s') \<and> H' = H) (on_data p) (s, g, H)"
  using assms
proof (induction p arbitrary: s g H rule: prog_induct)
  case (Ret a)
  have o: "owner g = Some i" using held_owner [OF user_invD(1) [OF Ret.prems(2)] Ret.prems(3)] by simp
  show ?case
    using Ret.prems o held_stable [OF user_invD(1) user_invD(1)] by (auto simp: user_rely_def)
next
  case (Act f)
  have o: "owner g = Some i" using held_owner [OF user_invD(1) [OF Act.prems(2)] Act.prems(3)] by simp
  show ?case
    unfolding on_data_Act
  proof (rule safe_ActI, simp only: fst_conv snd_conv split_paired_all)
    fix t g1 H1
    assume R: "user_rely spec d0 opss i (s, g, H) (t, g1, H1)"
    let ?t = "t\<lparr>data := fst (f (data t))\<rparr>"
    have t: "user_inv spec d0 opss (t, g1, H1)" "H1 = H" "ord i (the_lock s, g) (the_lock t, g1)"
      "data t = data s" "inside t = [i]"
      using R Act.prems o by (auto simp: user_rely_def)
    have held: "held i l (the_lock t, g1)"
      by (rule held_stable [OF user_invD(1) user_invD(1)]) (use Act.prems t in auto)
    then have o1: "owner g1 = Some i" using held_owner [OF user_invD(1) [OF t(1)]] by simp
    have inv: "user_inv spec d0 opss (?t, g1, H1)" using t o1 by (simp add: user_inv_def)
    have "safe (\<lambda>_. True) T (user_rely spec d0 opss i) (user_guar spec d0 opss i)
      (\<lambda>r (s', g', H'). user_inv spec d0 opss (s', g', H') \<and> held i l (the_lock s', g') \<and> inside s' = [i] \<and>
         run (snd (f (data t))) (data ?t) = Done r (data s') \<and> H' = H1) (on_data (snd (f (data t)))) (?t, g1, H1)"
    proof (rule Act.IH)
      show "T e" if "run (snd (f (data t))) (data ?t) = Failed e d'" for e d'
        using Act.prems(1) [of e d'] that t(4) by simp
    qed (use inv held t in simp_all)
    moreover have "user_guar spec d0 opss i (t, g1, H1) (?t, g1, H1)"
      using inv o1 grd_refl by (simp add: user_guar_def)
    ultimately show "\<exists>g'. user_guar spec d0 opss i (t, g1, H1) (?t, g') \<and>
        safe (\<lambda>_. True) T (user_rely spec d0 opss i) (user_guar spec d0 opss i)
          (\<lambda>r (s', g', H'). user_inv spec d0 opss (s', g', H') \<and> held i l (the_lock s', g') \<and> inside s' = [i] \<and>
             run (Act f) (data s) = Done r (data s') \<and> H' = H) (on_data (snd (f (data t)))) (?t, g')"
      using t by (intro exI [of _ "(g1, H1)"]) simp
  qed
next
  case (Stop e)
  then show ?case by simp
qed

text \<open>A critical section is one step of the specification, taken when the thread leaves it.\<close>

definition user_local :: "('d, 'o, 'r) spec \<Rightarrow> 'd \<Rightarrow> 'o list list \<Rightarrow> nat \<Rightarrow> nat \<times> 'l \<Rightarrow> ('o \<times> 'r) list \<Rightarrow>
    ('m, 'd) guarded \<times> 'g \<times> ('o, 'r) history \<Rightarrow> bool" where
  "user_local spec d0 opss i jl rs s \<longleftrightarrow> (case (jl, s) of ((j, l), (s, g, H)) \<Rightarrow>
     j = i \<and> user_inv spec d0 opss (s, g, H) \<and> ready i l (the_lock s, g) \<and> proj i H = rs)"

lemma user_inv_enter:
  "user_inv spec d0 opss (s, g, H) \<Longrightarrow> owner g = Some i \<Longrightarrow> inside s = [] \<Longrightarrow> user_inv spec d0 opss (enter i s, g, H)"
  by (simp add: user_inv_def)

lemma user_inv_leave:
  assumes inv: "user_inv spec d0 opss (s, g, H)" and d: "replay spec d0 H = Some d" "spec d op r = Some (data s)"
    and "inside s = [i]" and "i < length opss" and "prefix (map fst (proj i H) @ [op]) (opss ! i)"
  shows "user_inv spec d0 opss (leave i s, g, H @ [(i, op, r)])"
proof -
  have "hist_ok opss (H @ [(i, op, r)])" using assms by (intro hist_ok_entry) (simp_all add: user_inv_def)
  then show ?thesis using assms by (simp add: user_inv_def)
qed

lemma critical_safe:
  assumes i: "i < n" "i < length opss" and body: "body_safe T d0 body"
    and P: "user_local (body_spec body) d0 opss i jl rs s" and pre: "prefix (map fst rs @ [op]) (opss ! i)"
  defines "R \<equiv> user_rely (body_spec body) d0 opss i" and "G \<equiv> user_guar (body_spec body) d0 opss i"
  shows "safe (\<lambda>_. True) T R G (\<lambda>(r, jl') s'. user_local (body_spec body) d0 opss i jl' (rs @ [(op, r)]) s')
    (critical acquire release body op jl) s"
proof -
  let ?S = "body_spec body" let ?I = "user_inv ?S d0 opss"
  let ?Q = "\<lambda>(r, jl') s'. user_local ?S d0 opss i jl' (rs @ [(op, r)]) s'"
  have refl: "R s s" for s unfolding R_def using ord_refl by (auto simp: user_rely_def split: prod.splits)
  obtain l m g H where [simp]: "jl = (i, l)" "s = (m, g, H)" using P by (auto simp: user_local_def split: prod.splits)
  have I: "?I (m, g, H)" and ready: "ready i l (the_lock m, g)" and rs: "proj i H = rs"
    using P by (simp_all add: user_local_def)
  note linv = user_invD(1) [OF I]
  have acq: "safe (\<lambda>_. True) T R G (\<lambda>a (s', g', H'). (linv (the_lock s', g') \<and> held i a (the_lock s', g')) \<and>
      ?I (s', g', H') \<and> proj i H' = rs \<and> (owner g' = Some i \<longrightarrow> inside s' = [])) (on_lock (acquire i l)) s"
    unfolding R_def G_def rs [symmetric] \<open>s = _\<close>
    by (rule safe_on_lock [OF acquire_safe [OF i(1) linv ready] I]) (use ready_owner [OF linv ready] in simp)
  have rel: "safe (\<lambda>_. True) T R G ?Q (bind (on_lock (release i l1)) (\<lambda>l2. Ret (r, (i, l2)))) (s', g', H')"
    if "?I (s', g', H')" "held i l1 (the_lock s', g')" "inside s' = []" "proj i H' = rs @ [(op, r)]" for l1 r s' g' H'
  proof (rule safe_bind [OF _ refl])
    have "safe (\<lambda>_. True) T R G (\<lambda>a (s', g', H''). (linv (the_lock s', g') \<and> ready i a (the_lock s', g')) \<and>
        ?I (s', g', H'') \<and> proj i H'' = proj i H' \<and> (owner g' = Some i \<longrightarrow> inside s' = []))
        (on_lock (release i l1)) (s', g', H')"
      unfolding R_def G_def
      by (rule safe_on_lock [OF release_safe [OF i(1) user_invD(1) [OF that(1)] that(2)] that(1)]) (use that in simp)
    then show "safe (\<lambda>_. True) T R G (\<lambda>l2. safe (\<lambda>_. True) T R G ?Q (Ret (r, i, l2))) (on_lock (release i l1)) (s', g', H')"
    proof (rule safe_weaken)
      fix l2 x assume x: "(case x of (s', g', H'') \<Rightarrow> (linv (the_lock s', g') \<and> ready i l2 (the_lock s', g')) \<and>
        ?I (s', g', H'') \<and> proj i H'' = proj i H' \<and> (owner g' = Some i \<longrightarrow> inside s' = []))"
      show "safe (\<lambda>_. True) T R G ?Q (Ret (r, i, l2)) x"
        using x that(4) ready_stable [OF user_invD(1) user_invD(1)]
        by (auto simp: R_def user_rely_def user_local_def split: prod.splits)
    qed
  qed
  have out: "safe (\<lambda>_. True) T R G ?Q (store (leave i) (bind (on_lock (release i l1)) (\<lambda>l2. Ret (r, (i, l2))))) (s', g', H')"
    if s': "?I (s', g', H')" "held i l1 (the_lock s', g')" "inside s' = [i]" "replay ?S d0 H' = Some d" "?S d op r = Some (data s')"
      "proj i H' = rs" for l1 r s' g' H' d
  proof (rule safe_store, simp only: split_paired_all)
    fix t g1 H1 assume "R (s', g', H') (t, g1, H1)"
    moreover have "owner g' = Some i" using held_owner [OF user_invD(1) [OF s'(1)] s'(2)] by simp
    ultimately have t: "?I (t, g1, H1)" "H1 = H'" "ord i (the_lock s', g') (the_lock t, g1)" "data t = data s'" "inside t = [i]"
      using s' by (auto simp: R_def user_rely_def)
    have held: "held i l1 (the_lock t, g1)"
      by (rule held_stable [OF user_invD(1) user_invD(1)]) (use s' t in auto)
    then have o1: "owner g1 = Some i" using held_owner [OF user_invD(1) [OF t(1)]] by simp
    let ?H = "H1 @ [(i, op, r)]"
    have inv: "?I (leave i t, g1, ?H)" by (rule user_inv_leave [OF t(1)]) (use s' t i pre in auto)
    have "G (t, g1, H1) (leave i t, g1, ?H)"
      using inv o1 grd_refl i pre t(2) s'(6) by (auto simp: G_def user_guar_def)
    moreover have "safe (\<lambda>_. True) T R G ?Q (bind (on_lock (release i l1)) (\<lambda>l2. Ret (r, (i, l2)))) (leave i t, g1, ?H)"
      by (rule rel) (use inv held t s' in simp_all)
    ultimately show "\<exists>g'. G (t, g1, H1) (leave i t, g') \<and>
        safe (\<lambda>_. True) T R G ?Q (bind (on_lock (release i l1)) (\<lambda>l2. Ret (r, (i, l2)))) (leave i t, g')" by blast
  qed
  show ?thesis
    unfolding critical_def \<open>jl = _\<close> prod.case
  proof (rule safe_bind [OF _ refl], rule safe_weaken [OF acq])
    fix l1 x assume "(case x of (s', g', H') \<Rightarrow> (linv (the_lock s', g') \<and> held i l1 (the_lock s', g')) \<and>
      ?I (s', g', H') \<and> proj i H' = rs \<and> (owner g' = Some i \<longrightarrow> inside s' = []))"
    moreover obtain s' g' H' where [simp]: "x = (s', g', H')" by (cases x)
    ultimately have x: "held i l1 (the_lock s', g')" "?I (s', g', H')" "proj i H' = rs" "owner g' = Some i \<longrightarrow> inside s' = []"
      by simp_all
    then have o: "owner g' = Some i" "inside s' = []" using held_owner [OF user_invD(1) [OF x(2)] x(1)] by simp_all
    let ?rest = "\<lambda>r. store (leave i) (bind (on_lock (release i l1)) (\<lambda>l2. Ret (r, (i, l2))))"
    have "safe (\<lambda>_. True) T R G ?Q (store (enter i) (bind (on_data (body op)) ?rest)) (s', g', H')"
    proof (rule safe_store, simp only: split_paired_all)
      fix t g1 H1 assume R: "R (s', g', H') (t, g1, H1)"
      have held: "held i l1 (the_lock t, g1)"
        by (rule held_stable [OF user_invD(1) user_invD(1)]) (use R x in \<open>auto simp: R_def user_rely_def\<close>)
      have t: "?I (t, g1, H1)" "proj i H1 = rs" "inside t = []" using R x o by (auto simp: R_def user_rely_def)
      have o1: "owner g1 = Some i" using held_owner [OF user_invD(1) [OF t(1)] held] by simp
      show "\<exists>g'. G (t, g1, H1) (enter i t, g') \<and> safe (\<lambda>_. True) T R G ?Q (bind (on_data (body op)) ?rest) (enter i t, g')"
      proof (intro exI conjI)
        have I1: "?I (enter i t, g1, H1)" by (rule user_inv_enter [OF t(1) o1 t(3)])
        then show "G (t, g1, H1) (enter i t, g1, H1)" using o1 grd_refl by (simp add: G_def user_guar_def)
        obtain d where d: "replay ?S d0 H1 = Some d" "data t = d" using t(1,3) by (auto simp: user_inv_def)
        have "safe (\<lambda>_. True) T R G (\<lambda>r (s', g', H'). ?I (s', g', H') \<and> held i l1 (the_lock s', g') \<and> inside s' = [i] \<and>
            run (body op) (data (enter i t)) = Done r (data s') \<and> H' = H1) (on_data (body op)) (enter i t, g1, H1)"
          unfolding R_def G_def
          by (rule safe_on_data) (use body_safeD [OF body d(1)] I1 held t(3) d(2) in auto)
        then show "safe (\<lambda>_. True) T R G ?Q (bind (on_data (body op)) ?rest) (enter i t, g1, H1)"
        proof (intro safe_bind [OF _ refl], elim safe_weaken)
          fix r y assume y: "case y of (s', g', H') \<Rightarrow> ?I (s', g', H') \<and> held i l1 (the_lock s', g') \<and> inside s' = [i] \<and>
            run (body op) (data (enter i t)) = Done r (data s') \<and> H' = H1"
          obtain s2 g2 H2 where [simp]: "y = (s2, g2, H2)" by (cases y)
          have r: "?S d op r = Some (data s2)" using y d by (simp add: body_spec_def)
          show "safe (\<lambda>_. True) T R G ?Q (?rest r) y"
            unfolding \<open>y = _\<close> by (rule out [OF _ _ _ _ r]) (use y d t(2) in auto)
        qed
      qed
    qed
    then show "safe (\<lambda>_. True) T R G ?Q (store (enter i) (bind (on_data (body op)) ?rest)) x" by simp
  qed
qed

lemma user_object:
  assumes "length opss \<le> n" and "body_safe T d0 body"
  shows "history_object (\<lambda>_. True) T (user_rely (body_spec body) d0 opss) (user_guar (body_spec body) d0 opss)
    (user_inv (body_spec body) d0 opss) snd (user_local (body_spec body) d0 opss) (body_spec body) d0 quiet
    (critical acquire release body) opss"
proof (intro history_object.intro user_system, unfold_locales)
  let ?S = "body_spec body"
  show "hist_step opss i (snd (snd a)) (snd (snd b))" if "user_guar ?S d0 opss i a b" for i a b
    using that by (auto simp: user_guar_def split: prod.splits)
  show "hist_ok opss (snd x)" if "user_inv ?S d0 opss (t, x)" for t x
    using that by (auto simp: user_inv_def split: prod.splits)
  show "\<exists>q. replay ?S d0 (snd x) = Some q \<and> quiet t q" if "user_inv ?S d0 opss (t, x)" for t x
    using that by (auto simp: user_inv_def quiet_def split: prod.splits)
  show "proj i (snd (snd s)) = rs" if "user_local ?S d0 opss i l rs s" for i l rs s
    using that by (auto simp: user_local_def split: prod.splits)
  show "user_local ?S d0 opss i l rs t" if "user_local ?S d0 opss i l rs s" "user_rely ?S d0 opss i s t" for i l rs s t
    using that ready_stable [OF user_invD(1) user_invD(1)] unfolding user_local_def user_rely_def
    by (auto split: prod.splits)
  show "safe (\<lambda>_. True) T (user_rely ?S d0 opss i) (user_guar ?S d0 opss i)
      (\<lambda>(r, l') s'. user_local ?S d0 opss i l' (rs @ [(op, r)]) s') (critical acquire release body op l) s"
    if "i < length opss" "user_local ?S d0 opss i l rs s" "prefix (map fst rs @ [op]) (opss ! i)" for i op l rs s
    using critical_safe [OF _ that(1) assms(2) that(2,3)] that(1) assms(1) by simp
qed

text \<open>Threads whose operations on the data are critical sections.\<close>

lemma critical_linearizable_safe:
  assumes "length opss \<le> n" and "body_safe T d body" and "linv (m, g)"
    and "\<And>i. i < length opss \<Longrightarrow> ready i (ls i) (m, g)"
  shows "linearizable (\<lambda>_. True) T (body_spec body) d quiet opss
    (\<lparr>the_lock = m, inside = [], data = d\<rparr>, threads (critical acquire release body) (users opss ls))"
proof (rule linearizable_withD [where Z = "\<lambda>_. True"], rule history_object.linearizable_ghost_threads)
  show "history_object (\<lambda>_. True) T (user_rely (body_spec body) d opss) (user_guar (body_spec body) d opss)
    (user_inv (body_spec body) d opss) snd (user_local (body_spec body) d opss) (body_spec body) d quiet
    (critical acquire release body) opss"
    by (rule user_object) (use assms in simp_all)
  let ?s = "\<lparr>the_lock = m, inside = [], data = d\<rparr>"
  show I: "user_inv (body_spec body) d opss (?s, (g, []))" using assms(3) by (simp add: user_inv_def)
  show "user_local (body_spec body) d opss i (snd (users opss ls ! i)) [] (?s, (g, []))" if "i < length (users opss ls)" for i
    using assms(4) I that by (simp add: user_local_def)
qed simp_all

lemma critical_linearizable:
  assumes "length opss \<le> n" and "body_total T body" and "linv (m, g)"
    and "\<And>i. i < length opss \<Longrightarrow> ready i (ls i) (m, g)"
  shows "linearizable (\<lambda>_. True) T (body_spec body) d quiet opss
    (\<lparr>the_lock = m, inside = [], data = d\<rparr>, threads (critical acquire release body) (users opss ls))"
  using assms(1) body_total_safe [OF assms(2)] assms(3,4) by (rule critical_linearizable_safe)

text \<open>A lock that may fail in fewer ways may fail in more.\<close>

lemma weaken: "(\<And>e. T e \<Longrightarrow> T' e) \<Longrightarrow> mutex T' n acquire release linv owner ord grd ready held"
proof (unfold_locales, goal_cases)
  case 1 show ?case by (rule ord_refl)
next case 2 then show ?case by (blast intro: ord_trans)
next case 3 then show ?case by (blast intro: grd_ord)
next case 4 then show ?case by (blast dest: ord_owner)
next case 5 then show ?case by (blast dest: grd_owner)
next case 6 show ?case by (rule grd_refl)
next case 7 then show ?case by (blast intro: ready_stable)
next case 8 then show ?case using ready_owner by blast
next case 9 then show ?case by (blast intro: held_stable)
next case 10 then show ?case by (blast intro: held_owner)
next case 11 then show ?case by (blast intro: safe_failures acquire_safe)
next case 12 then show ?case by (blast intro: safe_failures release_safe)
qed

end

section \<open>Trying a lock\<close>

text \<open>
  \<open>attempt i l\<close> attempts to take the lock and tells whether it did; repeating it until it does is a
  way to take the lock.
\<close>

primrec spin_on :: "nat \<Rightarrow> (nat \<Rightarrow> 'l \<Rightarrow> ('m, bool \<times> 'l) prog) \<Rightarrow> nat \<Rightarrow> 'l \<Rightarrow> ('m, 'l) prog" where
  "spin_on 0 attempt i l = Stop No_fuel"
| "spin_on (Suc k) attempt i l = bind (attempt i l) (\<lambda>(ok, l). if ok then Ret l else spin_on k attempt i l)"

locale mutex_try = mutex T n acquire release linv owner ord grd ready held
  for T :: "failure \<Rightarrow> bool" and n :: nat
    and acquire release :: "nat \<Rightarrow> 'l \<Rightarrow> ('m, 'l) prog"
    and linv :: "'m \<times> 'g \<Rightarrow> bool"
    and owner :: "'g \<Rightarrow> nat option"
    and ord grd :: "nat \<Rightarrow> 'm \<times> 'g \<Rightarrow> 'm \<times> 'g \<Rightarrow> bool"
    and ready held :: "nat \<Rightarrow> 'l \<Rightarrow> 'm \<times> 'g \<Rightarrow> bool" +
  fixes attempt :: "nat \<Rightarrow> 'l \<Rightarrow> ('m, bool \<times> 'l) prog"
    and k :: nat
  assumes tolerant: "T No_fuel"
    and try_safe: "i < n \<Longrightarrow> linv a \<Longrightarrow> ready i l a \<Longrightarrow>
        safe (\<lambda>_. True) T (lock_rely linv ord i) (lock_rely linv grd i)
          (\<lambda>(ok, l') b. linv b \<and> (if ok then held i l' b else ready i l' b)) (attempt i l) a"
begin

lemma spin_safe:
  assumes "i < n" and "linv a" and "ready i l a"
  shows "safe (\<lambda>_. True) T (lock_rely linv ord i) (lock_rely linv grd i)
    (\<lambda>l' b. linv b \<and> held i l' b) (spin_on m attempt i l) a"
  using assms(2,3)
proof (induction m arbitrary: l a)
  case 0
  then show ?case using tolerant by simp
next
  case (Suc m)
  have refl: "lock_rely linv ord i b b" for b by (simp add: lock_rely_def ord_refl)
  show ?case
    unfolding spin_on.simps
  proof (rule safe_bind [OF safe_weaken [OF try_safe [OF assms(1) Suc.prems]] refl])
    fix x b assume x: "(case x of (ok, l') \<Rightarrow> \<lambda>b. linv b \<and> (if ok then held i l' b else ready i l' b)) b"
    obtain ok l' where [simp]: "x = (ok, l')" by (cases x)
    show "safe (\<lambda>_. True) T (lock_rely linv ord i) (lock_rely linv grd i) (\<lambda>l' b. linv b \<and> held i l' b)
        (case x of (ok, l) \<Rightarrow> if ok then Ret l else spin_on m attempt i l) b"
    proof (cases ok)
      case True
      have "linv c \<and> held i l' c" if "lock_rely linv ord i b c" for c
        using that x True held_stable [of b c] by (auto simp: lock_rely_def)
      then show ?thesis using True by simp
    next
      case False
      then show ?thesis using x Suc.IH by simp
    qed
  qed
qed

end

sublocale mutex_try \<subseteq> spin: mutex T n "spin_on k attempt" release linv owner ord grd ready held
proof
  fix i l a
  show "safe (\<lambda>_. True) T (lock_rely linv ord i) (lock_rely linv grd i) (\<lambda>l' b. linv b \<and> held i l' b)
      (spin_on k attempt i l) a" if "i < n" "linv a" "ready i l a"
    using that by (rule spin_safe)
qed (fact ord_refl ord_trans grd_ord ord_owner grd_owner grd_refl ready_stable ready_owner held_stable held_owner release_safe)+

end
