(* ===== verification/Locks.thy ===== *)
theory Locks
  imports Mutex
begin

text \<open>
  The spin locks of \<open>include/lock_if.h\<close>: test-and-set, test-and-test-and-set and the ticket
  lock. Each is an instance of the contract \<open>mutex_try\<close>. The statistics of a build with
  \<open>RETRY_STATS\<close> are left out, the ticket lock such a build has in place of test-and-set is
  not.
\<close>

section \<open>Test-and-set\<close>

definition TAS_FREE :: nat where "TAS_FREE = 0"
definition TAS_LCKD :: nat where "TAS_LCKD = 1"

definition tas_init :: nat where
  "tas_init = TAS_FREE"

primrec tas_lock :: "nat \<Rightarrow> (nat, nat) prog" where
  "tas_lock 0 = Stop No_fuel"
| "tas_lock (Suc k) = cas_val (\<lambda>l. l) (\<lambda>v l. v) TAS_FREE TAS_LCKD (\<lambda>v.
     if v = TAS_LCKD then tas_lock k else Ret 0)"

definition tas_trylock :: "(nat, nat) prog" where
  "tas_trylock = cas_val (\<lambda>l. l) (\<lambda>v l. v) TAS_FREE TAS_LCKD (\<lambda>v. Ret (if v = TAS_FREE then 1 else 0))"

definition tas_unlock :: "(nat, nat) prog" where
  "tas_unlock = store (\<lambda>l. TAS_FREE) (Ret 0)"

text \<open>The lock reads \<open>l\<close> until it is free before it attempts the exchange.\<close>

definition TTAS_FREE :: nat where "TTAS_FREE = 0"
definition TTAS_LCKD :: nat where "TTAS_LCKD = 1"

definition ttas_init :: nat where
  "ttas_init = TTAS_FREE"

primrec ttas_lock :: "nat \<Rightarrow> (nat, nat) prog" where
  "ttas_lock 0 = Stop No_fuel"
| "ttas_lock (Suc k) = load (\<lambda>l. l) (\<lambda>v.
     if v = TTAS_LCKD then ttas_lock k
     else cas_val (\<lambda>l. l) (\<lambda>v l. v) TTAS_FREE TTAS_LCKD (\<lambda>v. if v = TTAS_FREE then Ret 0 else ttas_lock k))"

definition ttas_trylock :: "(nat, nat) prog" where
  "ttas_trylock = cas_val (\<lambda>l. l) (\<lambda>v l. v) TTAS_FREE TTAS_LCKD (\<lambda>v. Ret (if v = TTAS_FREE then 1 else 0))"

definition ttas_unlock :: "(nat, nat) prog" where
  "ttas_unlock = store (\<lambda>l. TTAS_FREE) (Ret 0)"

text \<open>
  Both as locks of the contract, without thread-local state: what \<open>LOCK\<close> and \<open>UNLOCK\<close> return
  is not used, \<open>TRYLOCK\<close> succeeds when it returns 1.
\<close>

definition lock_op :: "('m, nat) prog \<Rightarrow> nat \<Rightarrow> 'l \<Rightarrow> ('m, 'l) prog" where
  "lock_op p i l = bind p (\<lambda>_. Ret l)"

definition trylock_op :: "('m, nat) prog \<Rightarrow> nat \<Rightarrow> 'l \<Rightarrow> ('m, bool \<times> 'l) prog" where
  "trylock_op p i l = bind p (\<lambda>r. Ret (r = 1, l))"

text \<open>The ghost state is the owner; the word is locked exactly when there is one.\<close>

definition word_inv :: "nat \<times> nat option \<Rightarrow> bool" where
  "word_inv a \<longleftrightarrow> fst a = (if snd a = None then 0 else 1)"

definition own_ord :: "nat \<Rightarrow> 'm \<times> nat option \<Rightarrow> 'm \<times> nat option \<Rightarrow> bool" where
  "own_ord i a b \<longleftrightarrow> (snd b = Some i \<longleftrightarrow> snd a = Some i)"

definition own_grd :: "nat \<Rightarrow> 'm \<times> nat option \<Rightarrow> 'm \<times> nat option \<Rightarrow> bool" where
  "own_grd i a b \<longleftrightarrow> snd b = snd a \<or> snd a = None \<and> snd b = Some i \<or> snd a = Some i \<and> snd b = None"

definition not_mine :: "nat \<Rightarrow> 'l \<Rightarrow> 'm \<times> nat option \<Rightarrow> bool" where
  "not_mine i l a \<longleftrightarrow> snd a \<noteq> Some i"

definition mine :: "nat \<Rightarrow> 'l \<Rightarrow> 'm \<times> nat option \<Rightarrow> bool" where
  "mine i l a \<longleftrightarrow> snd a = Some i"

lemmas own_defs = word_inv_def own_ord_def own_grd_def not_mine_def mine_def lock_rely_def

lemma lock_op_safe:
  assumes "safe A T R G (\<lambda>_ b. \<forall>c. R b c \<longrightarrow> Q l c) p a" and "\<And>s. R s s"
  shows "safe A T R G Q (lock_op p i l) a"
  unfolding lock_op_def by (rule safe_bind [OF safe_weaken [OF assms(1)] assms(2)]) simp

lemma trylock_op_safe:
  assumes "safe A T R G (\<lambda>r b. \<forall>c. R b c \<longrightarrow> Q (r = 1, l) c) p a" and "\<And>s. R s s"
  shows "safe A T R G Q (trylock_op p i l) a"
  unfolding trylock_op_def by (rule safe_bind [OF safe_weaken [OF assms(1)] assms(2)]) simp

lemma own_rely_refl: "lock_rely word_inv own_ord i s s"
  by (simp add: own_defs)

lemma own_grd_refl: "lock_rely word_inv own_grd i s s"
  by (simp add: own_defs)

text \<open>The exchange that takes the lock, with what follows it in each case.\<close>

lemma word_cas_safe:
  assumes "word_inv a" and "not_mine i l a"
    and "\<And>b. word_inv b \<Longrightarrow> mine i l b \<Longrightarrow> safe (\<lambda>_. True) T (lock_rely word_inv own_ord i) (lock_rely word_inv own_grd i) Q (k 0) b"
    and "\<And>b. word_inv b \<Longrightarrow> not_mine i l b \<Longrightarrow> safe (\<lambda>_. True) T (lock_rely word_inv own_ord i) (lock_rely word_inv own_grd i) Q (k 1) b"
  shows "safe (\<lambda>_. True) T (lock_rely word_inv own_ord i) (lock_rely word_inv own_grd i) Q
    (cas_val (\<lambda>l. l) (\<lambda>v l. v) 0 1 k) a"
proof (rule safe_cas_val)
  fix t g assume R: "lock_rely word_inv own_ord i a (t, g)"
  { assume "t = 0"
    then have "g = None" using R assms(1) by (auto simp: own_defs split: if_splits)
    then show "\<exists>g'. lock_rely word_inv own_grd i (t, g) (1, g') \<and>
        safe (\<lambda>_. True) T (lock_rely word_inv own_ord i) (lock_rely word_inv own_grd i) Q (k 0) (1, g')"
      using assms(3) by (intro exI [of _ "Some i"]) (auto simp: own_defs) }
  { assume "t \<noteq> 0"
    then have "t = 1" "word_inv (t, g)" "not_mine i l (t, g)" using R assms(1,2) by (auto simp: own_defs split: if_splits)
    then show "lock_rely word_inv own_grd i (t, g) (t, g) \<and>
        safe (\<lambda>_. True) T (lock_rely word_inv own_ord i) (lock_rely word_inv own_grd i) Q (k t) (t, g)"
      using assms(4) [of "(t, g)"] by (auto simp: own_defs) }
qed

lemma word_stable:
  "lock_rely word_inv own_ord i b c \<Longrightarrow> word_inv b \<Longrightarrow> word_inv c"
  "lock_rely word_inv own_ord i b c \<Longrightarrow> word_inv b \<Longrightarrow> mine i l b \<Longrightarrow> mine i l c"
  "lock_rely word_inv own_ord i b c \<Longrightarrow> word_inv b \<Longrightarrow> not_mine i l b \<Longrightarrow> not_mine i l c"
  by (auto simp: own_defs)

lemma tas_lock_safe:
  assumes "word_inv a" and "not_mine i l a" and "T No_fuel"
  shows "safe (\<lambda>_. True) T (lock_rely word_inv own_ord i) (lock_rely word_inv own_grd i)
    (\<lambda>_ b. word_inv b \<and> mine i l b) (tas_lock k) a"
  using assms(1,2)
proof (induction k arbitrary: a)
  case (Suc k)
  show ?case
    unfolding tas_lock.simps TAS_FREE_def TAS_LCKD_def
    by (rule word_cas_safe [OF Suc.prems]) (use Suc.IH in \<open>auto dest: word_stable\<close>)
qed (use assms(3) in simp)

lemma ttas_lock_safe:
  assumes "word_inv a" and "not_mine i l a" and "T No_fuel"
  shows "safe (\<lambda>_. True) T (lock_rely word_inv own_ord i) (lock_rely word_inv own_grd i)
    (\<lambda>_ b. word_inv b \<and> mine i l b) (ttas_lock k) a"
  using assms(1,2)
proof (induction k arbitrary: a)
  case (Suc k)
  show ?case
    unfolding ttas_lock.simps TTAS_FREE_def TTAS_LCKD_def
  proof (rule safe_load)
    fix t g assume "lock_rely word_inv own_ord i a (t, g)"
    then have t: "word_inv (t, g)" "not_mine i l (t, g)" using Suc.prems by (auto simp: own_defs)
    have "safe (\<lambda>_. True) T (lock_rely word_inv own_ord i) (lock_rely word_inv own_grd i) (\<lambda>_ b. word_inv b \<and> mine i l b)
        (cas_val (\<lambda>l. l) (\<lambda>v l. v) 0 1 (\<lambda>v. if v = 0 then Ret 0 else ttas_lock k)) (t, g)"
      by (rule word_cas_safe [OF t]) (use Suc.IH in \<open>auto dest: word_stable\<close>)
    then show "lock_rely word_inv own_grd i (t, g) (t, g) \<and>
        safe (\<lambda>_. True) T (lock_rely word_inv own_ord i) (lock_rely word_inv own_grd i) (\<lambda>_ b. word_inv b \<and> mine i l b)
        (if t = 1 then ttas_lock k else cas_val (\<lambda>l. l) (\<lambda>v l. v) 0 1 (\<lambda>v. if v = 0 then Ret 0 else ttas_lock k)) (t, g)"
      using Suc.IH [OF t] own_grd_refl by (cases "t = 1") simp_all
  qed
qed (use assms(3) in simp)

lemma word_try_safe:
  assumes "word_inv a" and "not_mine i l a"
  shows "safe (\<lambda>_. True) T (lock_rely word_inv own_ord i) (lock_rely word_inv own_grd i)
    (\<lambda>r b. word_inv b \<and> (if r = 1 then mine i l b else not_mine i l b))
    (cas_val (\<lambda>l. l) (\<lambda>v l. v) 0 1 (\<lambda>v. Ret (if v = 0 then 1 else (0 :: nat)))) a"
  by (rule word_cas_safe [OF assms]) (auto dest: word_stable)

lemma word_unlock_safe:
  assumes "word_inv a" and "mine i l a"
  shows "safe (\<lambda>_. True) T (lock_rely word_inv own_ord i) (lock_rely word_inv own_grd i)
    (\<lambda>_ b. word_inv b \<and> not_mine i l b) (store (\<lambda>l. 0) (Ret (0 :: nat))) a"
proof (rule safe_store)
  fix t g assume "lock_rely word_inv own_ord i a (t, g)"
  then have "g = Some i" using assms by (auto simp: own_defs)
  then show "\<exists>g'. lock_rely word_inv own_grd i (t, g) (0, g') \<and>
      safe (\<lambda>_. True) T (lock_rely word_inv own_ord i) (lock_rely word_inv own_grd i) (\<lambda>_ b. word_inv b \<and> not_mine i l b) (Ret 0) (0, g')"
    by (intro exI [of _ None]) (auto simp: own_defs)
qed

lemma word_lock:
  assumes "\<And>a i (l :: unit). word_inv a \<Longrightarrow> not_mine i l a \<Longrightarrow>
      safe (\<lambda>_. True) no_fuel (lock_rely word_inv own_ord i) (lock_rely word_inv own_grd i) (\<lambda>_ b. word_inv b \<and> mine i l b) p a"
  shows "mutex_try no_fuel n (lock_op p) (lock_op (store (\<lambda>l. 0) (Ret 0)) :: nat \<Rightarrow> unit \<Rightarrow> _)
    word_inv (\<lambda>g. g) own_ord own_grd not_mine mine
    (trylock_op (cas_val (\<lambda>l. l) (\<lambda>v l. v) 0 1 (\<lambda>v. Ret (if v = 0 then 1 else 0))))"
proof
  fix i a and l :: unit
  assume a: "word_inv a"
  show "safe (\<lambda>_. True) no_fuel (lock_rely word_inv own_ord i) (lock_rely word_inv own_grd i)
      (\<lambda>l' b. word_inv b \<and> mine i l' b) (lock_op p i l) a" if "not_mine i l a"
    by (rule lock_op_safe [OF safe_weaken [OF assms [OF a that]] own_rely_refl]) (auto dest: word_stable)
  show "safe (\<lambda>_. True) no_fuel (lock_rely word_inv own_ord i) (lock_rely word_inv own_grd i)
      (\<lambda>l' b. word_inv b \<and> not_mine i l' b) (lock_op (store (\<lambda>l. 0) (Ret 0)) i l) a" if "mine i l a"
    by (rule lock_op_safe [OF safe_weaken [OF word_unlock_safe [OF a that]] own_rely_refl]) (auto dest: word_stable)
  show "safe (\<lambda>_. True) no_fuel (lock_rely word_inv own_ord i) (lock_rely word_inv own_grd i)
      (\<lambda>(ok, l') b. word_inv b \<and> (if ok then mine i l' b else not_mine i l' b))
      (trylock_op (cas_val (\<lambda>l. l) (\<lambda>v l. v) 0 1 (\<lambda>v. Ret (if v = 0 then 1 else 0))) i l) a" if "not_mine i l a"
    by (rule trylock_op_safe [OF safe_weaken [OF word_try_safe [OF a that]] own_rely_refl]) (auto split: if_splits dest: word_stable)
qed (auto simp: own_defs no_fuel_def)

lemmas tas_defs = tas_unlock_def tas_trylock_def ttas_unlock_def ttas_trylock_def
  TAS_FREE_def TAS_LCKD_def TTAS_FREE_def TTAS_LCKD_def

interpretation tas: mutex_try no_fuel n "lock_op (tas_lock k)" "lock_op tas_unlock :: nat \<Rightarrow> unit \<Rightarrow> _"
    word_inv "\<lambda>g. g" own_ord own_grd not_mine mine "trylock_op tas_trylock" k for n k
  unfolding tas_defs by (rule word_lock, rule tas_lock_safe) (auto simp: no_fuel_def)

interpretation ttas: mutex_try no_fuel n "lock_op (ttas_lock k)" "lock_op ttas_unlock :: nat \<Rightarrow> unit \<Rightarrow> _"
    word_inv "\<lambda>g. g" own_ord own_grd not_mine mine "trylock_op ttas_trylock" k for n k
  unfolding tas_defs by (rule word_lock, rule ttas_lock_safe) (auto simp: no_fuel_def)

section \<open>The ticket lock\<close>

text \<open>
  Two counters that wrap around at \<open>M\<close>: \<open>2^32\<close> in the ticket lock, \<open>2^16\<close> in the lock that
  stands for test-and-set in a build with statistics.
\<close>

record ticket_st =
  ticket :: nat
  curr :: nat

definition ticket_init :: ticket_st where
  "ticket_init = \<lparr>ticket = 0, curr = 0\<rparr>"

primrec ticket_wait :: "nat \<Rightarrow> nat \<Rightarrow> (ticket_st, nat) prog" where
  "ticket_wait 0 t = Stop No_fuel"
| "ticket_wait (Suc k) t = load curr (\<lambda>c. if t \<noteq> c then ticket_wait k t else Ret 0)"

definition ticket_lock_mod :: "nat \<Rightarrow> nat \<Rightarrow> (ticket_st, nat) prog" where
  "ticket_lock_mod M k = fetch_op ticket (\<lambda>v l. l\<lparr>ticket := v\<rparr>) (\<lambda>v. addm M v 1) (\<lambda>t. ticket_wait k t)"

definition ticket_trylock_mod :: "nat \<Rightarrow> (ticket_st, nat) prog" where
  "ticket_trylock_mod M = load (\<lambda>l. l) (\<lambda>tc.
     if curr tc = ticket tc
     then cas_val (\<lambda>l. l) (\<lambda>v l. v) tc (tc\<lparr>ticket := addm M (ticket tc) 1\<rparr>) (\<lambda>v. Ret (if v = tc then 1 else 0))
     else Ret 0)"

definition ticket_unlock_mod :: "nat \<Rightarrow> (ticket_st, nat) prog" where
  "ticket_unlock_mod M = load curr (\<lambda>c. store (\<lambda>l. l\<lparr>curr := addm M c 1\<rparr>) (Ret 0))"

definition ticket_lock :: "nat \<Rightarrow> (ticket_st, nat) prog" where
  "ticket_lock k = ticket_lock_mod U32 k"

definition ticket_trylock :: "(ticket_st, nat) prog" where
  "ticket_trylock = ticket_trylock_mod U32"

definition ticket_unlock :: "(ticket_st, nat) prog" where
  "ticket_unlock = ticket_unlock_mod U32"

definition tas_lock_stats :: "nat \<Rightarrow> (ticket_st, nat) prog" where
  "tas_lock_stats k = ticket_lock_mod U16 k"

definition tas_trylock_stats :: "(ticket_st, nat) prog" where
  "tas_trylock_stats = ticket_trylock_mod U16"

definition tas_unlock_stats :: "(ticket_st, nat) prog" where
  "tas_unlock_stats = ticket_unlock_mod U16"

text \<open>
  The ghost state: the owner, the number each thread has drawn, and the two counters as they
  would be without wrap-around. The numbers drawn and not yet served are held by different
  threads, so with at most \<open>M\<close> threads equal counters modulo \<open>M\<close> are equal.
\<close>

record ticket_ghost =
  tg_own :: "nat option"
  tg_held :: "nat \<Rightarrow> nat option"
  tg_next :: nat
  tg_serv :: nat

definition ticket_inv :: "nat \<Rightarrow> nat \<Rightarrow> ticket_st \<times> ticket_ghost \<Rightarrow> bool" where
  "ticket_inv M n a \<longleftrightarrow> (case a of (s, g) \<Rightarrow>
     ticket s = tg_next g mod M \<and> curr s = tg_serv g mod M \<and> tg_serv g \<le> tg_next g \<and>
     (\<forall>i k. tg_held g i = Some k \<longrightarrow> tg_serv g \<le> k \<and> k < tg_next g \<and> i < n) \<and>
     (\<forall>k. tg_serv g \<le> k \<longrightarrow> k < tg_next g \<longrightarrow> (\<exists>i. tg_held g i = Some k)) \<and>
     (\<forall>i j k. tg_held g i = Some k \<longrightarrow> tg_held g j = Some k \<longrightarrow> i = j) \<and>
     (\<forall>i. tg_own g = Some i \<longrightarrow> tg_held g i = Some (tg_serv g)))"

definition ticket_ord :: "nat \<Rightarrow> ticket_st \<times> ticket_ghost \<Rightarrow> ticket_st \<times> ticket_ghost \<Rightarrow> bool" where
  "ticket_ord i a b \<longleftrightarrow> (tg_own (snd b) = Some i \<longleftrightarrow> tg_own (snd a) = Some i) \<and> tg_held (snd b) i = tg_held (snd a) i"

definition ticket_grd :: "nat \<Rightarrow> ticket_st \<times> ticket_ghost \<Rightarrow> ticket_st \<times> ticket_ghost \<Rightarrow> bool" where
  "ticket_grd i a b \<longleftrightarrow> (\<forall>j. j \<noteq> i \<longrightarrow> tg_held (snd b) j = tg_held (snd a) j) \<and>
     (tg_own (snd b) = tg_own (snd a) \<or> tg_own (snd a) = None \<and> tg_own (snd b) = Some i \<or>
      tg_own (snd a) = Some i \<and> tg_own (snd b) = None)"

definition ticket_ready :: "nat \<Rightarrow> unit \<Rightarrow> ticket_st \<times> ticket_ghost \<Rightarrow> bool" where
  "ticket_ready i l a \<longleftrightarrow> tg_held (snd a) i = None"

definition ticket_held :: "nat \<Rightarrow> unit \<Rightarrow> ticket_st \<times> ticket_ghost \<Rightarrow> bool" where
  "ticket_held i l a \<longleftrightarrow> tg_own (snd a) = Some i"

lemma ticket_invD:
  assumes "ticket_inv M n (s, g)"
  shows "ticket s = tg_next g mod M" "curr s = tg_serv g mod M" "tg_serv g \<le> tg_next g"
    "tg_held g i = Some k \<Longrightarrow> tg_serv g \<le> k \<and> k < tg_next g \<and> i < n"
    "tg_serv g \<le> k \<Longrightarrow> k < tg_next g \<Longrightarrow> \<exists>i. tg_held g i = Some k"
    "tg_held g i = Some k \<Longrightarrow> tg_held g j = Some k \<Longrightarrow> i = j"
    "tg_own g = Some i \<Longrightarrow> tg_held g i = Some (tg_serv g)"
  using assms unfolding ticket_inv_def prod.case by blast+

lemma ticket_invI:
  assumes "ticket s = tg_next g mod M" "curr s = tg_serv g mod M" "tg_serv g \<le> tg_next g"
    and "\<And>i k. tg_held g i = Some k \<Longrightarrow> tg_serv g \<le> k \<and> k < tg_next g \<and> i < n"
    and "\<And>k. tg_serv g \<le> k \<Longrightarrow> k < tg_next g \<Longrightarrow> \<exists>i. tg_held g i = Some k"
    and "\<And>i j k. tg_held g i = Some k \<Longrightarrow> tg_held g j = Some k \<Longrightarrow> i = j"
    and "\<And>i. tg_own g = Some i \<Longrightarrow> tg_held g i = Some (tg_serv g)"
  shows "ticket_inv M n (s, g)"
  unfolding ticket_inv_def prod.case using assms by blast

lemma ticket_span:
  assumes "ticket_inv M n (s, g)"
  shows "tg_next g - tg_serv g \<le> card {i. i < n \<and> tg_held g i \<noteq> None}"
proof -
  have "{tg_serv g..<tg_next g} \<subseteq> (the \<circ> tg_held g) ` {i. i < n \<and> tg_held g i \<noteq> None}"
  proof
    fix k assume "k \<in> {tg_serv g..<tg_next g}"
    then obtain i where "tg_held g i = Some k" using ticket_invD(5) [OF assms, of k] by auto
    then show "k \<in> (the \<circ> tg_held g) ` {i. i < n \<and> tg_held g i \<noteq> None}"
      using ticket_invD(4) [OF assms] by force
  qed
  then have "card {tg_serv g..<tg_next g} \<le> card {i. i < n \<and> tg_held g i \<noteq> None}"
    by (rule surj_card_le [rotated]) simp
  then show ?thesis by simp
qed

lemma ticket_span_n: "ticket_inv M n (s, g) \<Longrightarrow> tg_next g \<le> tg_serv g + n"
proof -
  assume inv: "ticket_inv M n (s, g)"
  have "card {i. i < n \<and> tg_held g i \<noteq> None} \<le> card {..<n}" by (rule card_mono) auto
  then show ?thesis using ticket_span [OF inv] by simp
qed

lemma ticket_span_less:
  assumes "ticket_inv M n (s, g)" and "i < n" and "tg_held g i = None"
  shows "tg_next g < tg_serv g + n"
proof -
  have "{j. j < n \<and> tg_held g j \<noteq> None} \<subset> {..<n}" using assms(2,3) by blast
  from psubset_card_mono [OF finite_lessThan this] have "card {j. j < n \<and> tg_held g j \<noteq> None} < n" by simp
  then show ?thesis using ticket_span [OF assms(1)] by simp
qed

lemma mod_window:
  fixes a b :: nat
  assumes "a mod M = b mod M" and "a \<le> b" and "b < a + M"
  shows "a = b"
proof -
  have "M dvd b - a" using assms(1,2) by (metis mod_eq_dvd_iff_nat)
  moreover have "b - a < M" using assms(2,3) by arith
  ultimately have "b - a = 0" using nat_dvd_not_less by blast
  then show ?thesis using assms(2) by simp
qed

lemma ticket_rely_refl: "lock_rely (ticket_inv M n) ticket_ord i s s" "lock_rely (ticket_inv M n) ticket_grd i s s"
  by (simp_all add: lock_rely_def ticket_ord_def ticket_grd_def)

lemma ticket_own: "ticket_inv M n (s, g) \<Longrightarrow> tg_held g i = Some (tg_serv g) \<Longrightarrow> ticket_inv M n (s, g\<lparr>tg_own := Some i\<rparr>)"
  unfolding ticket_inv_def prod.case by simp

text \<open>Drawing a number, finding it served, passing the lock on.\<close>

lemma ticket_draw:
  assumes "ticket_inv M n (s, g)" and "i < n" and "tg_held g i = None"
  shows "ticket_inv M n (s\<lparr>ticket := addm M (ticket s) 1\<rparr>, g\<lparr>tg_held := (tg_held g)(i := Some (tg_next g)), tg_next := tg_next g + 1\<rparr>)"
proof -
  note d = ticket_invD [OF assms(1)]
  have "addm M (ticket s) 1 = (tg_next g + 1) mod M" using d(1) by (simp add: addm_def mod_simps)
  moreover have "\<exists>j. ((tg_held g)(i := Some (tg_next g))) j = Some k" if k: "tg_serv g \<le> k" "k < tg_next g + 1" for k
  proof (cases "k = tg_next g")
    case False
    then have "k < tg_next g" using k(2) by simp
    then obtain j where "tg_held g j = Some k" using d(5) [OF k(1)] by blast
    then show ?thesis using assms(3) by (intro exI [of _ j]) auto
  qed auto
  moreover have "tg_own g \<noteq> Some i" using d(7) assms(3) by auto
  moreover have "k < tg_next g" if "tg_held g j = Some k" for j k using d(4) [OF that] by simp
  ultimately show ?thesis
    by (intro ticket_invI) (use d(2,3,7) assms(2) in \<open>auto split: if_splits dest: d(4) d(6)\<close>)
qed

lemma ticket_served:
  assumes inv: "ticket_inv M n (s, g)" and n: "n \<le> M" and k: "tg_held g i = Some k" and c: "curr s = k mod M"
    and o: "tg_own g \<noteq> Some i"
  shows "ticket_inv M n (s, g\<lparr>tg_own := Some i\<rparr>)" "tg_own g = None"
proof -
  note d = ticket_invD [OF inv]
  have "tg_serv g = k"
    by (rule mod_window [of _ M]) (use d(2,3) d(4) [OF k] c ticket_span_n [OF inv] n in auto)
  then show "ticket_inv M n (s, g\<lparr>tg_own := Some i\<rparr>)" using inv k by (simp add: ticket_inv_def)
  show "tg_own g = None" using d(7) d(6) [OF k] o \<open>tg_serv g = k\<close> by (cases "tg_own g") auto
qed

lemma ticket_pass:
  assumes "ticket_inv M n (s, g)" and own: "tg_own g = Some i"
  shows "ticket_inv M n (s\<lparr>curr := addm M (curr s) 1\<rparr>,
    g\<lparr>tg_own := None, tg_held := (tg_held g)(i := None), tg_serv := tg_serv g + 1\<rparr>)"
proof -
  note d = ticket_invD [OF assms(1)]
  have i: "tg_held g i = Some (tg_serv g)" by (rule d(7) [OF own])
  have "addm M (curr s) 1 = (tg_serv g + 1) mod M" using d(2) by (simp add: addm_def mod_simps)
  moreover have "tg_serv g + 1 \<le> tg_next g" using d(4) [OF i] by simp
  moreover have "tg_serv g + 1 \<le> k" if "tg_held g j = Some k" "j \<noteq> i" for j k
    using d(4) [OF that(1)] d(6) [OF i] that by (metis Suc_eq_plus1 Suc_leI le_neq_implies_less)
  moreover have "\<exists>j. ((tg_held g)(i := None)) j = Some k" if k: "tg_serv g + 1 \<le> k" "k < tg_next g" for k
  proof -
    obtain j where "tg_held g j = Some k" using d(5) [of k] k by auto
    then show ?thesis using i k by (intro exI [of _ j]) auto
  qed
  ultimately show ?thesis
    by (intro ticket_invI) (use d(1) in \<open>auto split: if_splits dest: d(4) d(6)\<close>)
qed

lemma ticket_wait_safe:
  assumes n: "n \<le> M" and t: "t = k mod M"
    and "ticket_inv M n a" and "tg_held (snd a) i = Some k" and "tg_own (snd a) \<noteq> Some i"
  shows "safe (\<lambda>_. True) no_fuel (lock_rely (ticket_inv M n) ticket_ord i) (lock_rely (ticket_inv M n) ticket_grd i)
    (\<lambda>_ b. ticket_inv M n b \<and> ticket_held i l b) (ticket_wait m t) a"
  using assms(3-5)
proof (induction m arbitrary: a)
  case 0
  then show ?case by (simp add: no_fuel_def)
next
  case (Suc m)
  show ?case
    unfolding ticket_wait.simps
  proof (rule safe_load_ghost)
    fix s g assume "lock_rely (ticket_inv M n) ticket_ord i a (s, g)"
    then have s: "ticket_inv M n (s, g)" "tg_held g i = Some k" "tg_own g \<noteq> Some i"
      using Suc.prems by (auto simp: lock_rely_def ticket_ord_def)
    show "\<exists>g'. lock_rely (ticket_inv M n) ticket_grd i (s, g) (s, g') \<and>
        safe (\<lambda>_. True) no_fuel (lock_rely (ticket_inv M n) ticket_ord i) (lock_rely (ticket_inv M n) ticket_grd i)
          (\<lambda>_ b. ticket_inv M n b \<and> ticket_held i l b) (if t \<noteq> curr s then ticket_wait m t else Ret 0) (s, g')"
    proof (cases "t = curr s")
      case True
      note own = ticket_served [OF s(1) n s(2) _ s(3)]
      have c: "curr s = k mod M" using True t by simp
      show ?thesis
        by (rule exI [of _ "g\<lparr>tg_own := Some i\<rparr>"])
          (use own [OF c] True in \<open>auto simp: lock_rely_def ticket_grd_def ticket_ord_def ticket_held_def\<close>)
    next
      case False
      then show ?thesis using Suc.IH [of "(s, g)"] s ticket_rely_refl by (intro exI [of _ g]) auto
    qed
  qed
qed

lemma ticket_lock_safe:
  assumes "i < n" and "n \<le> M" and "ticket_inv M n a" and "ticket_ready i l a"
  shows "safe (\<lambda>_. True) no_fuel (lock_rely (ticket_inv M n) ticket_ord i) (lock_rely (ticket_inv M n) ticket_grd i)
    (\<lambda>_ b. ticket_inv M n b \<and> ticket_held i l b) (ticket_lock_mod M m) a"
  unfolding ticket_lock_mod_def
proof (rule safe_fetch_op)
  fix s g assume "lock_rely (ticket_inv M n) ticket_ord i a (s, g)"
  then have s: "ticket_inv M n (s, g)" "tg_held g i = None"
    using assms(3,4) by (auto simp: lock_rely_def ticket_ord_def ticket_ready_def)
  let ?s = "s\<lparr>ticket := addm M (ticket s) 1\<rparr>"
    and ?g = "g\<lparr>tg_held := (tg_held g)(i := Some (tg_next g)), tg_next := tg_next g + 1\<rparr>"
  have inv: "ticket_inv M n (?s, ?g)" by (rule ticket_draw [OF s(1) assms(1) s(2)])
  have o: "tg_own g \<noteq> Some i" using ticket_invD(7) [OF s(1)] s(2) by auto
  have "safe (\<lambda>_. True) no_fuel (lock_rely (ticket_inv M n) ticket_ord i) (lock_rely (ticket_inv M n) ticket_grd i)
      (\<lambda>_ b. ticket_inv M n b \<and> ticket_held i l b) (ticket_wait m (ticket s)) (?s, ?g)"
    by (rule ticket_wait_safe [OF assms(2), where k = "tg_next g"]) (use inv o ticket_invD(1) [OF s(1)] in auto)
  then show "\<exists>g'. lock_rely (ticket_inv M n) ticket_grd i (s, g) (?s, g') \<and>
      safe (\<lambda>_. True) no_fuel (lock_rely (ticket_inv M n) ticket_ord i) (lock_rely (ticket_inv M n) ticket_grd i)
        (\<lambda>_ b. ticket_inv M n b \<and> ticket_held i l b) (ticket_wait m (ticket s)) (?s, g')"
    using inv by (intro exI [of _ ?g]) (simp add: lock_rely_def ticket_grd_def)
qed

lemma ticket_trylock_safe:
  assumes "i < n" and "n \<le> M" and "ticket_inv M n a" and "ticket_ready i l a"
  shows "safe (\<lambda>_. True) no_fuel (lock_rely (ticket_inv M n) ticket_ord i) (lock_rely (ticket_inv M n) ticket_grd i)
    (\<lambda>r b. ticket_inv M n b \<and> (if r = 1 then ticket_held i l b else ticket_ready i l b)) (ticket_trylock_mod M) a"
proof -
  let ?safe = "safe (\<lambda>_. True) no_fuel (lock_rely (ticket_inv M n) ticket_ord i) (lock_rely (ticket_inv M n) ticket_grd i)
    (\<lambda>(r :: nat) b. ticket_inv M n b \<and> (if r = 1 then ticket_held i l b else ticket_ready i l b))"
  have know: "ticket_inv M n (s, g) \<and> tg_held g i = None" if "lock_rely (ticket_inv M n) ticket_ord i b (s, g)"
    "ticket_inv M n b" "tg_held (snd b) i = None" for b s g
    using that by (auto simp: lock_rely_def ticket_ord_def)
  have fail: "?safe (Ret (0 :: nat)) b" if "ticket_inv M n b" "tg_held (snd b) i = None" for b
    using that by (auto simp: lock_rely_def ticket_ord_def ticket_ready_def)
  have take: "?safe (cas_val (\<lambda>l. l) (\<lambda>v l. v) tc (tc\<lparr>ticket := addm M (ticket tc) 1\<rparr>) (\<lambda>v. Ret (if v = tc then 1 else 0))) b"
    if b: "ticket_inv M n b" "tg_held (snd b) i = None" and tc: "curr tc = ticket tc" for tc b
  proof (rule safe_cas_val)
    fix s g assume "lock_rely (ticket_inv M n) ticket_ord i b (s, g)"
    then have s: "ticket_inv M n (s, g)" "tg_held g i = None" using know b by blast+
    { assume "s = tc"
      let ?s = "tc\<lparr>ticket := addm M (ticket tc) 1\<rparr>"
        and ?g = "g\<lparr>tg_held := (tg_held g)(i := Some (tg_next g)), tg_next := tg_next g + 1\<rparr>"
      note d = ticket_invD [OF s(1)]
      have eq: "tg_serv g = tg_next g"
        by (rule mod_window [of _ M]) (use d(1-3) tc \<open>s = tc\<close> ticket_span_less [OF s(1) assms(1) s(2)] assms(2) in auto)
      have free: "tg_own g = None"
      proof (rule ccontr)
        assume "tg_own g \<noteq> None"
        then obtain j where "tg_own g = Some j" by blast
        from d(4) [OF d(7) [OF this]] show False using eq by simp
      qed
      have inv: "ticket_inv M n (?s, ?g)" using ticket_draw [OF s(1) assms(1) s(2)] \<open>s = tc\<close> by simp
      have inv': "ticket_inv M n (?s, ?g\<lparr>tg_own := Some i\<rparr>)" by (rule ticket_own [OF inv]) (use eq in simp)
      show "\<exists>g'. lock_rely (ticket_inv M n) ticket_grd i (s, g) (?s, g') \<and>
          ?safe (Ret (if tc = tc then 1 else 0)) (?s, g')"
        by (rule exI [of _ "?g\<lparr>tg_own := Some i\<rparr>"])
          (use inv' free in \<open>auto simp: lock_rely_def ticket_grd_def ticket_ord_def ticket_held_def\<close>) }
    { assume "s \<noteq> tc"
      then show "lock_rely (ticket_inv M n) ticket_grd i (s, g) (s, g) \<and> ?safe (Ret (if s = tc then 1 else 0)) (s, g)"
        using fail [of "(s, g)"] s ticket_rely_refl by simp }
  qed
  show ?thesis
    unfolding ticket_trylock_mod_def
  proof (rule safe_load)
    fix s g assume R: "lock_rely (ticket_inv M n) ticket_ord i a (s, g)"
    have s: "ticket_inv M n (s, g)" "tg_held g i = None" using know [OF R] assms(3,4) by (auto simp: ticket_ready_def)
    then show "lock_rely (ticket_inv M n) ticket_grd i (s, g) (s, g) \<and>
        ?safe (if curr s = ticket s
          then cas_val (\<lambda>l. l) (\<lambda>v l. v) s (s\<lparr>ticket := addm M (ticket s) 1\<rparr>) (\<lambda>v. Ret (if v = s then 1 else 0)) else Ret 0) (s, g)"
      using take [of "(s, g)" s] fail [of "(s, g)"] ticket_rely_refl by (cases "curr s = ticket s") simp_all
  qed
qed

lemma ticket_unlock_safe:
  assumes "ticket_inv M n a" and "ticket_held i l a"
  shows "safe (\<lambda>_. True) no_fuel (lock_rely (ticket_inv M n) ticket_ord i) (lock_rely (ticket_inv M n) ticket_grd i)
    (\<lambda>_ b. ticket_inv M n b \<and> ticket_ready i l b) (ticket_unlock_mod M) a"
proof -
  have own: "ticket_inv M n (s, g) \<and> tg_own g = Some i \<and> tg_serv g = the (tg_held g i) \<and> tg_held g i = tg_held (snd b) i"
    if "lock_rely (ticket_inv M n) ticket_ord i b (s, g)" "ticket_inv M n b" "tg_own (snd b) = Some i" for b s g
  proof -
    have x: "ticket_inv M n (s, g)" "tg_own g = Some i" "tg_held g i = tg_held (snd b) i"
      using that by (auto simp: lock_rely_def ticket_ord_def)
    then show ?thesis using ticket_invD(7) [OF x(1,2)] by (metis option.sel)
  qed
  show ?thesis
    unfolding ticket_unlock_mod_def
  proof (rule safe_load, rule conjI)
    fix s g assume R: "lock_rely (ticket_inv M n) ticket_ord i a (s, g)"
    show "lock_rely (ticket_inv M n) ticket_grd i (s, g) (s, g)" by (rule ticket_rely_refl)
    have s: "ticket_inv M n (s, g)" "tg_own g = Some i" "tg_serv g = the (tg_held g i)"
      using own [OF R] assms by (auto simp: ticket_held_def)
    show "safe (\<lambda>_. True) no_fuel (lock_rely (ticket_inv M n) ticket_ord i) (lock_rely (ticket_inv M n) ticket_grd i)
        (\<lambda>_ b. ticket_inv M n b \<and> ticket_ready i l b) (store (\<lambda>l. l\<lparr>curr := addm M (curr s) 1\<rparr>) (Ret 0)) (s, g)"
    proof (rule safe_store)
      fix t h assume R2: "lock_rely (ticket_inv M n) ticket_ord i (s, g) (t, h)"
      have t: "ticket_inv M n (t, h)" "tg_own h = Some i" "tg_serv h = tg_serv g"
        using own [OF R2] s by auto
      have "curr t = curr s" using ticket_invD(2) [OF t(1)] ticket_invD(2) [OF s(1)] t(3) by simp
      then have inv: "ticket_inv M n (t\<lparr>curr := addm M (curr s) 1\<rparr>,
          h\<lparr>tg_own := None, tg_held := (tg_held h)(i := None), tg_serv := tg_serv h + 1\<rparr>)"
        using ticket_pass [OF t(1,2)] by simp
      show "\<exists>g'. lock_rely (ticket_inv M n) ticket_grd i (t, h) (t\<lparr>curr := addm M (curr s) 1\<rparr>, g') \<and>
          safe (\<lambda>_. True) no_fuel (lock_rely (ticket_inv M n) ticket_ord i) (lock_rely (ticket_inv M n) ticket_grd i)
            (\<lambda>_ b. ticket_inv M n b \<and> ticket_ready i l b) (Ret 0) (t\<lparr>curr := addm M (curr s) 1\<rparr>, g')"
        by (rule exI [of _ "h\<lparr>tg_own := None, tg_held := (tg_held h)(i := None), tg_serv := tg_serv h + 1\<rparr>"])
          (use inv t(2) in \<open>auto simp: lock_rely_def ticket_grd_def ticket_ord_def ticket_ready_def\<close>)
    qed
  qed
qed

lemma ticket_mutex:
  assumes "n \<le> M"
  shows "mutex_try no_fuel n (lock_op (ticket_lock_mod M k)) (lock_op (ticket_unlock_mod M))
    (ticket_inv M n) tg_own ticket_ord ticket_grd ticket_ready ticket_held (trylock_op (ticket_trylock_mod M))"
proof
  fix i a and l :: unit
  let ?R = "lock_rely (ticket_inv M n) ticket_ord i" and ?G = "lock_rely (ticket_inv M n) ticket_grd i"
  assume a: "ticket_inv M n a"
  have stable: "?R b c \<Longrightarrow> ticket_inv M n b \<Longrightarrow> ticket_inv M n c"
    "?R b c \<Longrightarrow> ticket_inv M n b \<Longrightarrow> ticket_held i l b \<Longrightarrow> ticket_held i l c"
    "?R b c \<Longrightarrow> ticket_inv M n b \<Longrightarrow> ticket_ready i l b \<Longrightarrow> ticket_ready i l c" for b c
    by (auto simp: lock_rely_def ticket_ord_def ticket_held_def ticket_ready_def)
  show "safe (\<lambda>_. True) no_fuel ?R ?G (\<lambda>l' b. ticket_inv M n b \<and> ticket_held i l' b) (lock_op (ticket_lock_mod M k) i l) a"
    if "i < n" "ticket_ready i l a"
    by (rule lock_op_safe [OF safe_weaken [OF ticket_lock_safe [OF that(1) assms a that(2)]] ticket_rely_refl(1)])
      (auto dest: stable)
  show "safe (\<lambda>_. True) no_fuel ?R ?G (\<lambda>l' b. ticket_inv M n b \<and> ticket_ready i l' b) (lock_op (ticket_unlock_mod M) i l) a"
    if "ticket_held i l a"
    by (rule lock_op_safe [OF safe_weaken [OF ticket_unlock_safe [OF a that]] ticket_rely_refl(1)])
      (auto dest: stable)
  show "safe (\<lambda>_. True) no_fuel ?R ?G
      (\<lambda>(ok, l') b. ticket_inv M n b \<and> (if ok then ticket_held i l' b else ticket_ready i l' b))
      (trylock_op (ticket_trylock_mod M) i l) a" if "i < n" "ticket_ready i l a"
    by (rule trylock_op_safe [OF safe_weaken [OF ticket_trylock_safe [OF that(1) assms a that(2)]] ticket_rely_refl(1)])
      (auto split: if_splits dest: stable)
qed (auto simp: ticket_ord_def ticket_grd_def ticket_ready_def ticket_held_def no_fuel_def dest: ticket_invD(7))

interpretation ticket: mutex_try no_fuel "min n U32" "lock_op (ticket_lock k)" "lock_op ticket_unlock"
    "ticket_inv U32 (min n U32)" tg_own ticket_ord ticket_grd ticket_ready ticket_held "trylock_op ticket_trylock" k for n k
  unfolding ticket_lock_def ticket_unlock_def ticket_trylock_def by (rule ticket_mutex) simp

interpretation tas_stats: mutex_try no_fuel "min n U16" "lock_op (tas_lock_stats k)" "lock_op tas_unlock_stats"
    "ticket_inv U16 (min n U16)" tg_own ticket_ord ticket_grd ticket_ready ticket_held "trylock_op tas_trylock_stats" k for n k
  unfolding tas_lock_stats_def tas_unlock_stats_def tas_trylock_stats_def by (rule ticket_mutex) simp

section \<open>What the users of these locks get\<close>

text \<open>
  C28: test-and-set and test-and-test-and-set locks, taken with \<open>LOCK\<close> or by repeating \<open>TRYLOCK\<close>,
  exclude: under every interleaving of any number of threads, at most one thread is inside a
  critical section, and the critical sections, whatever sequence of accesses to the data they
  are, take effect one after the other, each with the result it has when run alone. The only
  failure besides those of the bodies is that a thread spins longer than the bound \<open>k\<close>.
\<close>

theorem test_and_set_exclude:
  assumes "body_total no_fuel body"
  shows "linearizable (\<lambda>_. True) no_fuel (body_spec body) d quiet opss
      (\<lparr>the_lock = tas_init, inside = [], data = d\<rparr>,
       threads (critical (lock_op (tas_lock k)) (lock_op tas_unlock) body) (users opss (\<lambda>_. ()))) \<and>
    linearizable (\<lambda>_. True) no_fuel (body_spec body) d quiet opss
      (\<lparr>the_lock = tas_init, inside = [], data = d\<rparr>,
       threads (critical (spin_on k (trylock_op tas_trylock)) (lock_op tas_unlock) body) (users opss (\<lambda>_. ()))) \<and>
    linearizable (\<lambda>_. True) no_fuel (body_spec body) d quiet opss
      (\<lparr>the_lock = ttas_init, inside = [], data = d\<rparr>,
       threads (critical (lock_op (ttas_lock k)) (lock_op ttas_unlock) body) (users opss (\<lambda>_. ()))) \<and>
    linearizable (\<lambda>_. True) no_fuel (body_spec body) d quiet opss
      (\<lparr>the_lock = ttas_init, inside = [], data = d\<rparr>,
       threads (critical (spin_on k (trylock_op ttas_trylock)) (lock_op ttas_unlock) body) (users opss (\<lambda>_. ())))"
proof (intro conjI)
  note start = word_inv_def not_mine_def tas_init_def TAS_FREE_def ttas_init_def TTAS_FREE_def
  show "linearizable (\<lambda>_. True) no_fuel (body_spec body) d quiet opss
      (\<lparr>the_lock = tas_init, inside = [], data = d\<rparr>,
       threads (critical (lock_op (tas_lock k)) (lock_op tas_unlock) body) (users opss (\<lambda>_. ())))"
    by (rule tas.critical_linearizable [where n = "length opss" and g = None]) (use assms in \<open>simp_all add: start\<close>)
  show "linearizable (\<lambda>_. True) no_fuel (body_spec body) d quiet opss
      (\<lparr>the_lock = tas_init, inside = [], data = d\<rparr>,
       threads (critical (spin_on k (trylock_op tas_trylock)) (lock_op tas_unlock) body) (users opss (\<lambda>_. ())))"
    by (rule tas.spin.critical_linearizable [where n = "length opss" and g = None]) (use assms in \<open>simp_all add: start\<close>)
  show "linearizable (\<lambda>_. True) no_fuel (body_spec body) d quiet opss
      (\<lparr>the_lock = ttas_init, inside = [], data = d\<rparr>,
       threads (critical (lock_op (ttas_lock k)) (lock_op ttas_unlock) body) (users opss (\<lambda>_. ())))"
    by (rule ttas.critical_linearizable [where n = "length opss" and g = None]) (use assms in \<open>simp_all add: start\<close>)
  show "linearizable (\<lambda>_. True) no_fuel (body_spec body) d quiet opss
      (\<lparr>the_lock = ttas_init, inside = [], data = d\<rparr>,
       threads (critical (spin_on k (trylock_op ttas_trylock)) (lock_op ttas_unlock) body) (users opss (\<lambda>_. ())))"
    by (rule ttas.spin.critical_linearizable [where n = "length opss" and g = None]) (use assms in \<open>simp_all add: start\<close>)
qed

lemma test_and_set_exclude_witness:
  "linearizable (\<lambda>_. True) no_fuel (body_spec bump) 5 quiet [[1], [2]]
    (\<lparr>the_lock = tas_init, inside = [], data = 5\<rparr>,
     threads (critical (lock_op (tas_lock 9)) (lock_op tas_unlock) bump) (users [[1], [2]] (\<lambda>_. ())))"
  using test_and_set_exclude [OF bump_total, of 5 "[[1], [2]]" 9] by simp

lemma ticket_start: "ticket_inv M n (ticket_init, \<lparr>tg_own = None, tg_held = \<lambda>_. None, tg_next = 0, tg_serv = 0\<rparr>)"
  by (simp add: ticket_inv_def ticket_init_def)

text \<open>
  C27: the ticket lock excludes in the same sense as long as no more threads use it than its
  counters have values, \<open>2^32\<close>, and the 16-bit one of a build with statistics as long as there are
  no more than \<open>2^16\<close>; the wrap-around of the counters is part of the model.
\<close>

theorem ticket_lock_excludes:
  assumes "body_total no_fuel body" and "length opss \<le> U32"
  shows "linearizable (\<lambda>_. True) no_fuel (body_spec body) d quiet opss
      (\<lparr>the_lock = ticket_init, inside = [], data = d\<rparr>,
       threads (critical (lock_op (ticket_lock k)) (lock_op ticket_unlock) body) (users opss (\<lambda>_. ()))) \<and>
    linearizable (\<lambda>_. True) no_fuel (body_spec body) d quiet opss
      (\<lparr>the_lock = ticket_init, inside = [], data = d\<rparr>,
       threads (critical (spin_on k (trylock_op ticket_trylock)) (lock_op ticket_unlock) body) (users opss (\<lambda>_. ()))) \<and>
    (length opss \<le> U16 \<longrightarrow> linearizable (\<lambda>_. True) no_fuel (body_spec body) d quiet opss
      (\<lparr>the_lock = ticket_init, inside = [], data = d\<rparr>,
       threads (critical (lock_op (tas_lock_stats k)) (lock_op tas_unlock_stats) body) (users opss (\<lambda>_. ()))))"
proof (intro conjI impI)
  show "linearizable (\<lambda>_. True) no_fuel (body_spec body) d quiet opss
      (\<lparr>the_lock = ticket_init, inside = [], data = d\<rparr>,
       threads (critical (lock_op (ticket_lock k)) (lock_op ticket_unlock) body) (users opss (\<lambda>_. ())))"
    by (rule ticket.critical_linearizable [where n = "length opss", OF _ assms(1) ticket_start])
      (use assms(2) in \<open>simp_all add: ticket_ready_def\<close>)
  show "linearizable (\<lambda>_. True) no_fuel (body_spec body) d quiet opss
      (\<lparr>the_lock = ticket_init, inside = [], data = d\<rparr>,
       threads (critical (spin_on k (trylock_op ticket_trylock)) (lock_op ticket_unlock) body) (users opss (\<lambda>_. ())))"
    by (rule ticket.spin.critical_linearizable [where n = "length opss", OF _ assms(1) ticket_start])
      (use assms(2) in \<open>simp_all add: ticket_ready_def\<close>)
  show "linearizable (\<lambda>_. True) no_fuel (body_spec body) d quiet opss
      (\<lparr>the_lock = ticket_init, inside = [], data = d\<rparr>,
       threads (critical (lock_op (tas_lock_stats k)) (lock_op tas_unlock_stats) body) (users opss (\<lambda>_. ())))"
    if "length opss \<le> U16"
    by (rule tas_stats.critical_linearizable [where n = "length opss", OF _ assms(1) ticket_start])
      (use that in \<open>simp_all add: ticket_ready_def\<close>)
qed

lemma ticket_lock_excludes_witness:
  "linearizable (\<lambda>_. True) no_fuel (body_spec bump) 5 quiet [[1], [2, 3]]
    (\<lparr>the_lock = ticket_init, inside = [], data = 5\<rparr>,
     threads (critical (lock_op (ticket_lock 9)) (lock_op ticket_unlock) bump) (users [[1], [2, 3]] (\<lambda>_. ())))"
  using ticket_lock_excludes [OF bump_total, of "[[1], [2, 3]]" 5 9] by (simp add: U32_def)

end
