(* ===== verification/Lock_Clh.thy ===== *)
theory Lock_Clh
  imports Mutex
begin

text \<open>
  The CLH queue lock of \<open>src/clh.c\<close>. A thread that wants the lock puts its node behind the
  last one with a swap and spins on the node of its predecessor; when it leaves, it clears its
  own node, which its successor spins on, and takes over the node of its predecessor.
  A node is an address, the null pointer is \<open>None\<close>.
\<close>

section \<open>State and operations\<close>

record clh_mem =
  clh_tail :: "nat option"
  clh_locked :: "nat \<Rightarrow> nat"

record clh_local =
  my_qnode :: "nat option"
  my_pred :: "nat option"

definition set_locked :: "nat \<Rightarrow> nat \<Rightarrow> clh_mem \<Rightarrow> clh_mem" where
  "set_locked a v s = s\<lparr>clh_locked := (clh_locked s)(a := v)\<rparr>"

primrec clh_spin :: "nat \<Rightarrow> nat \<Rightarrow> (clh_mem, nat option) prog" where
  "clh_spin 0 pred = Stop No_fuel"
| "clh_spin (Suc k) pred = load (\<lambda>s. clh_locked s pred) (\<lambda>v. if v \<noteq> 0 then clh_spin k pred else Ret (Some pred))"

definition clh_acquire :: "nat \<Rightarrow> nat option \<Rightarrow> (clh_mem, nat option) prog" where
  "clh_acquire k I = (case I of None \<Rightarrow> Stop Bad_pointer | Some a \<Rightarrow>
     store (set_locked a 1) (
     swp clh_tail (\<lambda>v s. s\<lparr>clh_tail := v\<rparr>) (Some a) (\<lambda>pred.
     case pred of None \<Rightarrow> Ret None | Some p \<Rightarrow> clh_spin k p)))"

definition clh_release :: "nat option \<Rightarrow> nat option \<Rightarrow> (clh_mem, nat option) prog" where
  "clh_release qnode pred = (case qnode of None \<Rightarrow> Stop Bad_pointer | Some a \<Rightarrow>
     store (set_locked a 0) (Ret pred))"

text \<open>\<open>LOCK\<close> and \<open>UNLOCK\<close> of \<open>lock_if.h\<close> keep the two pointers in the thread-local \<open>clh_local_p\<close>.\<close>

definition clh_LOCK :: "nat \<Rightarrow> nat \<Rightarrow> clh_local \<Rightarrow> (clh_mem, clh_local) prog" where
  "clh_LOCK k i l = bind (clh_acquire k (my_qnode l)) (\<lambda>p. Ret (l\<lparr>my_pred := p\<rparr>))"

definition clh_UNLOCK :: "nat \<Rightarrow> clh_local \<Rightarrow> (clh_mem, clh_local) prog" where
  "clh_UNLOCK i l = bind (clh_release (my_qnode l) (my_pred l)) (\<lambda>q. Ret (l\<lparr>my_qnode := q\<rparr>))"

text \<open>The node \<open>a\<close> is fresh: allocated for the lock, and for each thread.\<close>

definition init_alloc_clh :: "nat \<Rightarrow> clh_mem \<Rightarrow> clh_mem" where
  "init_alloc_clh a s = (set_locked a 0 s)\<lparr>clh_tail := Some a\<rparr>"

definition init_clh_thread :: "nat \<Rightarrow> clh_mem \<Rightarrow> clh_mem \<times> clh_local" where
  "init_clh_thread a s = (set_locked a 0 s, \<lparr>my_qnode = Some a, my_pred = None\<rparr>)"

section \<open>The invariant\<close>

text \<open>
  The ghost state: the owner, the node that is clear (\<open>cg_free\<close>), the node of each thread, and
  the threads in the queue, the first of them next to own the lock. Behind the clear node the
  list of the lock is the nodes of the threads in the queue.
\<close>

record clh_ghost =
  cg_own :: "nat option"
  cg_free :: nat
  cg_node :: "nat \<Rightarrow> nat"
  cg_who :: "nat list"

definition clh_inv :: "nat \<Rightarrow> clh_mem \<times> clh_ghost \<Rightarrow> bool" where
  "clh_inv n a \<longleftrightarrow> (case a of (s, g) \<Rightarrow>
     clh_tail s = Some (last (cg_free g # map (cg_node g) (cg_who g))) \<and>
     clh_locked s (cg_free g) = 0 \<and> (\<forall>i\<in>set (cg_who g). clh_locked s (cg_node g i) \<noteq> 0) \<and>
     distinct (cg_who g) \<and> set (cg_who g) \<subseteq> {..<n} \<and>
     (\<forall>i<n. cg_node g i \<noteq> cg_free g) \<and> inj_on (cg_node g) {..<n} \<and>
     (\<forall>i. cg_own g = Some i \<longrightarrow> cg_who g \<noteq> [] \<and> hd (cg_who g) = i))"

definition pred_of :: "clh_ghost \<Rightarrow> nat \<Rightarrow> nat" where
  "pred_of g i = last (cg_free g # map (cg_node g) (takeWhile (\<lambda>j. j \<noteq> i) (cg_who g)))"

definition clh_ord :: "nat \<Rightarrow> nat \<Rightarrow> clh_mem \<times> clh_ghost \<Rightarrow> clh_mem \<times> clh_ghost \<Rightarrow> bool" where
  "clh_ord n i a b \<longleftrightarrow> (case (a, b) of ((s, g), (t, h)) \<Rightarrow>
     (cg_own h = Some i \<longleftrightarrow> cg_own g = Some i) \<and>
     (i < n \<longrightarrow> cg_node h i = cg_node g i \<and> (i \<in> set (cg_who h) \<longleftrightarrow> i \<in> set (cg_who g)) \<and>
        (if i \<in> set (cg_who g) then pred_of h i = pred_of g i
         else clh_locked t (cg_node g i) = clh_locked s (cg_node g i))))"

definition clh_grd :: "nat \<Rightarrow> nat \<Rightarrow> clh_mem \<times> clh_ghost \<Rightarrow> clh_mem \<times> clh_ghost \<Rightarrow> bool" where
  "clh_grd n i a b \<longleftrightarrow> (\<forall>j. j \<noteq> i \<longrightarrow> clh_ord n j a b) \<and>
     (cg_own (snd b) = cg_own (snd a) \<or> cg_own (snd a) = None \<and> cg_own (snd b) = Some i \<or>
      cg_own (snd a) = Some i \<and> cg_own (snd b) = None)"

definition clh_ready :: "nat \<Rightarrow> clh_local \<Rightarrow> clh_mem \<times> clh_ghost \<Rightarrow> bool" where
  "clh_ready i l a \<longleftrightarrow> i \<notin> set (cg_who (snd a)) \<and> my_qnode l = Some (cg_node (snd a) i)"

definition clh_held :: "nat \<Rightarrow> nat \<Rightarrow> clh_local \<Rightarrow> clh_mem \<times> clh_ghost \<Rightarrow> bool" where
  "clh_held n i l a \<longleftrightarrow> i < n \<and> cg_own (snd a) = Some i \<and> my_qnode l = Some (cg_node (snd a) i) \<and>
     my_pred l = Some (pred_of (snd a) i)"

lemma clh_invD:
  assumes "clh_inv n (s, g)"
  shows "clh_tail s = Some (last (cg_free g # map (cg_node g) (cg_who g)))" "clh_locked s (cg_free g) = 0"
    "i \<in> set (cg_who g) \<Longrightarrow> clh_locked s (cg_node g i) \<noteq> 0" "distinct (cg_who g)"
    "i \<in> set (cg_who g) \<Longrightarrow> i < n" "i < n \<Longrightarrow> cg_node g i \<noteq> cg_free g"
    "i < n \<Longrightarrow> j < n \<Longrightarrow> cg_node g i = cg_node g j \<longleftrightarrow> i = j"
    "cg_own g = Some i \<Longrightarrow> \<exists>ws. cg_who g = i # ws"
proof -
  show "\<exists>ws. cg_who g = i # ws" if "cg_own g = Some i"
    using assms that by (cases "cg_who g") (auto simp: clh_inv_def)
  show "cg_node g i = cg_node g j \<longleftrightarrow> i = j" if "i < n" "j < n"
    using assms that by (auto simp: clh_inv_def inj_on_def)
qed (use assms in \<open>auto simp: clh_inv_def\<close>)

lemma clh_ord_refl: "clh_ord n i a a"
  by (cases a) (simp add: clh_ord_def)

lemma clh_ord_trans: "clh_ord n i a b \<Longrightarrow> clh_ord n i b c \<Longrightarrow> clh_ord n i a c"
  by (cases a; cases b; cases c) (simp add: clh_ord_def split: if_splits)

lemma clh_grd_refl: "clh_grd n i a a"
  by (simp add: clh_grd_def clh_ord_refl)

lemma clh_rely: "lock_rely (clh_inv n) (clh_ord n) i a b \<Longrightarrow> clh_inv n a \<Longrightarrow> clh_inv n b \<and> clh_ord n i a b"
  by (simp add: lock_rely_def)

text \<open>A thread sets the flag of its node, enters the queue, finds its predecessor done, leaves.\<close>

lemma clh_set:
  assumes inv: "clh_inv n (s, g)" and i: "i < n" "i \<notin> set (cg_who g)"
  shows "clh_inv n (set_locked (cg_node g i) v s, g)" "clh_grd n i (s, g) (set_locked (cg_node g i) v s, g)"
proof -
  note d = clh_invD [OF inv]
  have "cg_node g j \<noteq> cg_node g i" if "j \<in> set (cg_who g)" for j using d(5,7) i that by metis
  then show "clh_inv n (set_locked (cg_node g i) v s, g)"
    using inv d(6) [OF i(1)] by (auto simp: clh_inv_def set_locked_def)
  show "clh_grd n i (s, g) (set_locked (cg_node g i) v s, g)"
    using d(7) i by (auto simp: clh_grd_def clh_ord_def set_locked_def)
qed

lemma clh_enter:
  assumes inv: "clh_inv n (s, g)" and i: "i < n" "i \<notin> set (cg_who g)" and l: "clh_locked s (cg_node g i) \<noteq> 0"
  defines "h \<equiv> g\<lparr>cg_who := cg_who g @ [i]\<rparr>"
  shows "clh_inv n (s\<lparr>clh_tail := Some (cg_node g i)\<rparr>, h)" "clh_grd n i (s, g) (s\<lparr>clh_tail := Some (cg_node g i)\<rparr>, h)"
    "clh_tail s = Some (pred_of h i)"
proof -
  show "clh_inv n (s\<lparr>clh_tail := Some (cg_node g i)\<rparr>, h)"
    using inv i l by (auto simp: clh_inv_def h_def hd_append)
  show "clh_grd n i (s, g) (s\<lparr>clh_tail := Some (cg_node g i)\<rparr>, h)"
    by (auto simp: clh_grd_def clh_ord_def h_def pred_of_def takeWhile_append1)
  have "takeWhile (\<lambda>j. j \<noteq> i) (cg_who g @ [i]) = cg_who g" using i(2) by (subst takeWhile_append2) auto
  then show "clh_tail s = Some (pred_of h i)" using clh_invD(1) [OF inv] by (simp add: pred_of_def h_def)
qed

lemma clh_found:
  assumes inv: "clh_inv n (s, g)" and i: "i \<in> set (cg_who g)" and l: "clh_locked s (pred_of g i) = 0" and o: "cg_own g \<noteq> Some i"
  defines "h \<equiv> g\<lparr>cg_own := Some i\<rparr>"
  shows "clh_inv n (s, h)" "clh_grd n i (s, g) (s, h)" "pred_of h i = pred_of g i"
proof -
  note d = clh_invD [OF inv]
  have first: "takeWhile (\<lambda>j. j \<noteq> i) (cg_who g) = []"
  proof (rule ccontr)
    let ?as = "takeWhile (\<lambda>j. j \<noteq> i) (cg_who g)"
    assume "?as \<noteq> []"
    then have "pred_of g i = cg_node g (last ?as)" "last ?as \<in> set (cg_who g)"
      by (simp_all add: pred_of_def last_map set_takeWhileD [OF last_in_set, THEN conjunct1])
    then show False using d(3) [of "last ?as"] l by simp
  qed
  then have hd: "cg_who g \<noteq> [] \<and> hd (cg_who g) = i" using i by (cases "cg_who g") (auto split: if_splits)
  then show "clh_inv n (s, h)" using inv by (simp add: clh_inv_def h_def)
  have "cg_own g = None" using d(8) hd o by (cases "cg_own g") fastforce+
  then show "clh_grd n i (s, g) (s, h)" by (auto simp: clh_grd_def clh_ord_def h_def pred_of_def)
  show "pred_of h i = pred_of g i" by (simp add: pred_of_def h_def)
qed

lemma clh_leave:
  assumes inv: "clh_inv n (s, g)" and own: "cg_own g = Some i"
  defines "h \<equiv> g\<lparr>cg_own := None, cg_free := cg_node g i, cg_node := (cg_node g)(i := cg_free g), cg_who := tl (cg_who g)\<rparr>"
    and "t \<equiv> set_locked (cg_node g i) 0 s"
  shows "clh_inv n (t, h)" "clh_grd n i (s, g) (t, h)" "i \<notin> set (cg_who h)" "cg_node h i = pred_of g i"
proof -
  note d = clh_invD [OF inv]
  obtain ws where ws: "cg_who g = i # ws" using d(8) [OF own] by blast
  have i: "i < n" "i \<notin> set ws" using d(4,5) ws by auto
  have map: "map ((cg_node g)(i := cg_free g)) us = map (cg_node g) us" if "set us \<subseteq> set ws" for us
    using that i(2) by (auto simp: map_eq_conv)
  have ne: "cg_node g j \<noteq> cg_node g i" if "j \<in> set ws" for j using d(5,7) ws i that by (metis list.set_intros(2))
  have "clh_locked t (cg_node h j) \<noteq> 0" if "j \<in> set ws" for j
    using d(3) [of j] that ws ne [OF that] i(2) by (auto simp: t_def h_def set_locked_def)
  moreover have "inj_on (cg_node h) {..<n}"
    using d(6,7) i(1) by (auto simp: h_def inj_on_def) metis+
  moreover have "cg_node h j \<noteq> cg_node g i" if "j < n" for j
    by (cases "j = i") (use d(6) [OF i(1)] d(7) [OF that i(1)] in \<open>auto simp: h_def\<close>)
  moreover have "clh_tail t = Some (last (cg_node g i # map (cg_node h) ws))"
    using d(1) ws map [OF order_refl] by (simp add: t_def h_def set_locked_def del: map_eq_conv)
  ultimately show "clh_inv n (t, h)"
    using d(4,5) ws by (auto simp: clh_inv_def h_def t_def set_locked_def)
  have "clh_ord n j (s, g) (t, h)" if j: "j \<noteq> i" for j
  proof -
    have "pred_of h j = pred_of g j" if "j \<in> set ws"
    proof -
      let ?us = "takeWhile (\<lambda>k. k \<noteq> j) ws"
      have "set ?us \<subseteq> set ws" using set_takeWhileD by fastforce
      then show ?thesis using j map [of ?us] by (simp add: pred_of_def h_def ws del: map_eq_conv)
    qed
    moreover have "clh_locked t (cg_node g j) = clh_locked s (cg_node g j)" if "j < n"
      using d(7) [OF that i(1)] j by (simp add: t_def set_locked_def)
    ultimately show ?thesis using own j ws by (auto simp: clh_ord_def h_def)
  qed
  then show "clh_grd n i (s, g) (t, h)" using own by (simp add: clh_grd_def h_def)
  show "i \<notin> set (cg_who h)" using i ws by (simp add: h_def)
  show "cg_node h i = pred_of g i" using ws by (simp add: h_def pred_of_def)
qed

section \<open>The operations\<close>

lemma clh_spin_safe:
  assumes "i < n" and "clh_inv n a" and "i \<in> set (cg_who (snd a))" and "cg_own (snd a) \<noteq> Some i"
    and "p = pred_of (snd a) i" and "q = cg_node (snd a) i"
  shows "safe (\<lambda>_. True) no_fuel (lock_rely (clh_inv n) (clh_ord n) i) (lock_rely (clh_inv n) (clh_grd n) i)
    (\<lambda>r b. clh_inv n b \<and> clh_held n i \<lparr>my_qnode = Some q, my_pred = r\<rparr> b) (clh_spin k p) a"
  using assms(2-6)
proof (induction k arbitrary: a)
  case 0
  then show ?case by (simp add: no_fuel_def)
next
  case (Suc k)
  let ?S = "safe (\<lambda>_. True) no_fuel (lock_rely (clh_inv n) (clh_ord n) i) (lock_rely (clh_inv n) (clh_grd n) i)
    (\<lambda>r b. clh_inv n b \<and> clh_held n i \<lparr>my_qnode = Some q, my_pred = r\<rparr> b)"
  show ?case
    unfolding clh_spin.simps
  proof (rule safe_load_ghost)
    fix s g assume R: "lock_rely (clh_inv n) (clh_ord n) i a (s, g)"
    have s: "clh_inv n (s, g)" "i \<in> set (cg_who g)" "cg_own g \<noteq> Some i" "p = pred_of g i" "q = cg_node g i"
      using clh_rely [OF R] Suc.prems assms(1) by (cases a, auto simp: clh_ord_def split: if_splits)+
    show "\<exists>g'. lock_rely (clh_inv n) (clh_grd n) i (s, g) (s, g') \<and>
        ?S (if clh_locked s p \<noteq> 0 then clh_spin k p else Ret (Some p)) (s, g')"
    proof (cases "clh_locked s p = 0")
      case True
      let ?h = "g\<lparr>cg_own := Some i\<rparr>"
      have f: "clh_inv n (s, ?h)" "clh_grd n i (s, g) (s, ?h)" "pred_of ?h i = pred_of g i"
        using clh_found [OF s(1,2) _ s(3)] True s(4) by simp_all
      have "?S (Ret (Some p)) (s, ?h)"
        using f(1,3) s(2,4,5) assms(1) by (auto simp: lock_rely_def clh_held_def clh_ord_def split: if_splits)
      then show ?thesis using True f(1,2) by (intro exI [of _ ?h]) (simp add: lock_rely_def)
    next
      case False
      have "?S (clh_spin k p) (s, g)" by (rule Suc.IH) (use s in simp_all)
      then show ?thesis using False by (intro exI [of _ g]) (simp add: lock_rely_def clh_grd_refl)
    qed
  qed
qed

lemma clh_LOCK_safe:
  assumes "i < n" and "clh_inv n a" and "clh_ready i l a"
  shows "safe (\<lambda>_. True) no_fuel (lock_rely (clh_inv n) (clh_ord n) i) (lock_rely (clh_inv n) (clh_grd n) i)
    (\<lambda>l' b. clh_inv n b \<and> clh_held n i l' b) (clh_LOCK k i l) a"
proof -
  let ?R = "lock_rely (clh_inv n) (clh_ord n) i" and ?G = "lock_rely (clh_inv n) (clh_grd n) i"
  obtain q where q: "my_qnode l = Some q" "q = cg_node (snd a) i" using assms(3) by (simp add: clh_ready_def)
  let ?S = "safe (\<lambda>_. True) no_fuel ?R ?G (\<lambda>r b. clh_inv n b \<and> clh_held n i \<lparr>my_qnode = Some q, my_pred = r\<rparr> b)"
  let ?swap = "swp clh_tail (\<lambda>v s. s\<lparr>clh_tail := v\<rparr>) (Some q)
      (\<lambda>pred. case pred of None \<Rightarrow> Ret None | Some p \<Rightarrow> clh_spin k p)"
  have swap: "?S ?swap b" if b: "clh_inv n b" "i \<notin> set (cg_who (snd b))" "q = cg_node (snd b) i" "clh_locked (fst b) q \<noteq> 0" for b
    unfolding swp_def
  proof (rule safe_fetch_op)
    fix s g assume R: "?R b (s, g)"
    have s: "clh_inv n (s, g)" "i \<notin> set (cg_who g)" "q = cg_node g i" "clh_locked s q \<noteq> 0"
      using clh_rely [OF R b(1)] b assms(1) by (cases b, auto simp: clh_ord_def split: if_splits)+
    let ?h = "g\<lparr>cg_who := cg_who g @ [i]\<rparr>" and ?s = "s\<lparr>clh_tail := Some q\<rparr>"
    note e = clh_enter [OF s(1) assms(1) s(2) s(4) [unfolded s(3)], folded s(3)]
    have own: "cg_own g \<noteq> Some i" using clh_invD(8) [OF s(1), of i] s(2) by auto
    have "?S (clh_spin k (pred_of ?h i)) (?s, ?h)"
      by (rule clh_spin_safe [OF assms(1)]) (use e(1) own s(3) in simp_all)
    then have "?S (case clh_tail s of None \<Rightarrow> Ret None | Some p \<Rightarrow> clh_spin k p) (?s, ?h)" using e(3) by simp
    then show "\<exists>g'. ?G (s, g) (?s, g') \<and> ?S (case clh_tail s of None \<Rightarrow> Ret None | Some p \<Rightarrow> clh_spin k p) (?s, g')"
      using e(1,2) by (intro exI [of _ ?h]) (simp add: lock_rely_def)
  qed
  have "?S (clh_acquire k (my_qnode l)) a"
    unfolding clh_acquire_def q(1) option.case
  proof (rule safe_store)
    fix s g assume R: "?R a (s, g)"
    have s: "clh_inv n (s, g)" "i \<notin> set (cg_who g)" "q = cg_node g i"
      using clh_rely [OF R assms(2)] q assms(1,3) by (cases a, auto simp: clh_ord_def clh_ready_def)+
    note e = clh_set [OF s(1) assms(1) s(2), of 1, folded s(3)]
    have "?S ?swap (set_locked q 1 s, g)" by (rule swap) (use e(1) s in \<open>simp_all add: set_locked_def\<close>)
    then show "\<exists>g'. ?G (s, g) (set_locked q 1 s, g') \<and> ?S ?swap (set_locked q 1 s, g')"
      using e by (intro exI [of _ g]) (simp add: lock_rely_def)
  qed
  then show ?thesis
    unfolding clh_LOCK_def
  proof (rule safe_bind [OF safe_weaken])
    fix p b assume "clh_inv n b \<and> clh_held n i \<lparr>my_qnode = Some q, my_pred = p\<rparr> b"
    then show "safe (\<lambda>_. True) no_fuel ?R ?G (\<lambda>l' b. clh_inv n b \<and> clh_held n i l' b) (Ret (l\<lparr>my_pred := p\<rparr>)) b"
      using q(1) clh_invD(8) [of n _ _ i] by (auto simp: lock_rely_def clh_ord_def clh_held_def split: prod.splits if_splits) (metis list.set_intros(1))+
  qed (simp add: lock_rely_def clh_ord_refl)
qed

lemma clh_held_stable:
  assumes "clh_inv n a" and "clh_inv n b" and "clh_held n i l a" and "clh_ord n i a b"
  shows "clh_held n i l b"
proof -
  have "i \<in> set (cg_who (snd a))" using clh_invD(8) [of n "fst a" "snd a" i] assms(1,3) by (auto simp: clh_held_def)
  then show ?thesis using assms(3,4) by (cases a; cases b) (auto simp: clh_held_def clh_ord_def)
qed

lemma clh_UNLOCK_safe:
  assumes "i < n" and "clh_inv n a" and "clh_held n i l a"
  shows "safe (\<lambda>_. True) no_fuel (lock_rely (clh_inv n) (clh_ord n) i) (lock_rely (clh_inv n) (clh_grd n) i)
    (\<lambda>l' b. clh_inv n b \<and> clh_ready i l' b) (clh_UNLOCK i l) a"
proof -
  let ?R = "lock_rely (clh_inv n) (clh_ord n) i" and ?G = "lock_rely (clh_inv n) (clh_grd n) i"
  obtain q p where l: "my_qnode l = Some q" "my_pred l = Some p" using assms(3) by (auto simp: clh_held_def)
  have "safe (\<lambda>_. True) no_fuel ?R ?G (\<lambda>r b. clh_inv n b \<and> clh_ready i (l\<lparr>my_qnode := r\<rparr>) b)
      (clh_release (my_qnode l) (my_pred l)) a"
    unfolding clh_release_def l option.case
  proof (rule safe_store)
    fix s g assume R: "?R a (s, g)"
    have s: "clh_inv n (s, g)" "clh_held n i l (s, g)"
      using clh_rely [OF R assms(2)] clh_held_stable [OF assms(2) _ assms(3)] by auto
    then have own: "cg_own g = Some i" and eq: "q = cg_node g i" "p = pred_of g i"
      using l by (auto simp: clh_held_def)
    let ?h = "g\<lparr>cg_own := None, cg_free := cg_node g i, cg_node := (cg_node g)(i := cg_free g), cg_who := tl (cg_who g)\<rparr>"
    note f = clh_leave [OF s(1) own, folded eq]
    show "\<exists>g'. ?G (s, g) (set_locked q 0 s, g') \<and>
        safe (\<lambda>_. True) no_fuel ?R ?G (\<lambda>r b. clh_inv n b \<and> clh_ready i (l\<lparr>my_qnode := r\<rparr>) b) (Ret (Some p)) (set_locked q 0 s, g')"
      by (rule exI [of _ ?h])
        (use f assms(1) eq in \<open>auto simp: lock_rely_def clh_ready_def clh_ord_def split: if_splits\<close>)
  qed
  then show ?thesis
    unfolding clh_UNLOCK_def
  proof (rule safe_bind [OF safe_weaken])
    fix r b assume "clh_inv n b \<and> clh_ready i (l\<lparr>my_qnode := r\<rparr>) b"
    then show "safe (\<lambda>_. True) no_fuel ?R ?G (\<lambda>l' b. clh_inv n b \<and> clh_ready i l' b) (Ret (l\<lparr>my_qnode := r\<rparr>)) b"
      using assms(1) by (cases b) (auto simp: lock_rely_def clh_ord_def clh_ready_def split: if_splits)
  qed (simp add: lock_rely_def clh_ord_refl)
qed

interpretation clh: mutex no_fuel n "clh_LOCK k" clh_UNLOCK "clh_inv n" cg_own "clh_ord n" "clh_grd n"
    "\<lambda>i l a. i < n \<and> clh_ready i l a" "clh_held n" for n k
proof
  fix i l a b
  assume a: "clh_inv n a"
  show "cg_own (snd a) \<noteq> Some i" if "i < n \<and> clh_ready i l a"
    using clh_invD(8) [of n "fst a" "snd a" i] a that by (auto simp: clh_ready_def)
  show "cg_own (snd a) = Some i" if "clh_held n i l a" using that by (simp add: clh_held_def)
  show "i < n \<and> clh_ready i l b" if "i < n \<and> clh_ready i l a" "clh_ord n i a b"
    using that by (cases a; cases b) (auto simp: clh_ready_def clh_ord_def)
  show "clh_held n i l b" if "clh_inv n b" "clh_held n i l a" "clh_ord n i a b"
    using clh_held_stable [OF a] that by blast
  show "safe (\<lambda>_. True) no_fuel (lock_rely (clh_inv n) (clh_ord n) i) (lock_rely (clh_inv n) (clh_grd n) i)
      (\<lambda>l' b. clh_inv n b \<and> clh_held n i l' b) (clh_LOCK k i l) a" if "i < n" "i < n \<and> clh_ready i l a"
    using clh_LOCK_safe [OF that(1) a] that(2) by blast
  show "safe (\<lambda>_. True) no_fuel (lock_rely (clh_inv n) (clh_ord n) i) (lock_rely (clh_inv n) (clh_grd n) i)
      (\<lambda>l' b. clh_inv n b \<and> (i < n \<and> clh_ready i l' b)) (clh_UNLOCK i l) a" if "i < n" "clh_held n i l a"
    by (rule safe_weaken [OF clh_UNLOCK_safe [OF that(1) a that(2)]]) (use that(1) in simp)
qed (auto simp: clh_ord_refl clh_grd_refl clh_grd_def clh_ord_def split: prod.splits intro: clh_ord_trans)

text \<open>The lock with node 0, and node \<open>Suc i\<close> for thread \<open>i\<close>.\<close>

fun clh_threads :: "nat \<Rightarrow> clh_mem \<Rightarrow> clh_mem \<times> clh_local list" where
  "clh_threads 0 s = (s, [])"
| "clh_threads (Suc i) s = (case clh_threads i s of (s1, ls) \<Rightarrow>
     (case init_clh_thread (Suc i) s1 of (s2, l) \<Rightarrow> (s2, ls @ [l])))"

definition clh_start :: "nat \<Rightarrow> clh_mem \<Rightarrow> clh_mem \<times> clh_local list" where
  "clh_start n s = clh_threads n (init_alloc_clh 0 s)"

lemma clh_threads_simps:
  "length (snd (clh_threads n s)) = n" "clh_tail (fst (clh_threads n s)) = clh_tail s"
  "clh_locked (fst (clh_threads n s)) 0 = clh_locked s 0"
  "i < n \<Longrightarrow> snd (clh_threads n s) ! i = \<lparr>my_qnode = Some (Suc i), my_pred = None\<rparr>"
  by (induction n) (auto simp: init_clh_thread_def set_locked_def nth_append less_Suc_eq split: prod.splits)

lemma clh_start_inv:
  "clh_inv n (fst (clh_start n s), \<lparr>cg_own = None, cg_free = 0, cg_node = Suc, cg_who = []\<rparr>)"
  by (simp add: clh_inv_def clh_start_def clh_threads_simps init_alloc_clh_def set_locked_def)

text \<open>
  C26: the CLH lock excludes: whatever memory it is set up in, under every interleaving of any
  number of threads at most one is inside a critical section and the critical sections take
  effect one after the other; no thread ever follows a null pointer, although each takes over
  the node of its predecessor.
\<close>

theorem clh_lock_excludes:
  assumes "body_total no_fuel body"
  shows "case clh_start (length opss) s of (s1, ls) \<Rightarrow>
    linearizable (\<lambda>_. True) no_fuel (body_spec body) d quiet opss
      (\<lparr>the_lock = s1, inside = [], data = d\<rparr>,
       threads (critical (clh_LOCK k) clh_UNLOCK body) (users opss (\<lambda>i. ls ! i)))"
proof -
  have "linearizable (\<lambda>_. True) no_fuel (body_spec body) d quiet opss
      (\<lparr>the_lock = fst (clh_start (length opss) s), inside = [], data = d\<rparr>,
       threads (critical (clh_LOCK k) clh_UNLOCK body) (users opss (\<lambda>i. snd (clh_start (length opss) s) ! i)))"
    by (rule clh.critical_linearizable [OF order_refl assms clh_start_inv])
      (simp add: clh_ready_def clh_start_def clh_threads_simps)
  then show ?thesis by (simp add: case_prod_beta)
qed

lemma clh_lock_excludes_witness:
  "case clh_start 2 \<lparr>clh_tail = None, clh_locked = \<lambda>_. 7\<rparr> of (s1, ls) \<Rightarrow>
    linearizable (\<lambda>_. True) no_fuel (body_spec bump) 5 quiet [[1], [2, 3]]
      (\<lparr>the_lock = s1, inside = [], data = 5\<rparr>,
       threads (critical (clh_LOCK 9) clh_UNLOCK bump) (users [[1], [2, 3]] (\<lambda>i. ls ! i)))"
  using clh_lock_excludes [OF bump_total, where opss = "[[1], [2, 3]]" and s = "\<lparr>clh_tail = None, clh_locked = \<lambda>_. 7\<rparr>"
    and d = 5 and k = 9]
  by (simp add: numeral_2_eq_2)

end
