(* ===== verification/Lock_Mcs.thy ===== *)
theory Lock_Mcs
  imports Locks
begin

text \<open>
  The MCS queue lock of \<open>include/mcs.h\<close>. Each thread has one node, its thread-local
  \<open>__mcs_local\<close>, so a node is named by its thread; the \<open>next\<close> of the lock itself points to the
  last node of the queue. A thread that finds a predecessor links itself behind it and spins
  on its own node, and a thread that leaves passes the lock to its successor, for which it may
  have to wait until the successor has linked itself.
\<close>

section \<open>State and operations\<close>

record mcs_mem =
  mcs_next :: "nat option"
  local_waiting :: "nat \<Rightarrow> nat"
  local_next :: "nat \<Rightarrow> nat option"

definition set_next :: "nat \<Rightarrow> nat option \<Rightarrow> mcs_mem \<Rightarrow> mcs_mem" where
  "set_next i v s = s\<lparr>local_next := (local_next s)(i := v)\<rparr>"

definition set_waiting :: "nat \<Rightarrow> nat \<Rightarrow> mcs_mem \<Rightarrow> mcs_mem" where
  "set_waiting i v s = s\<lparr>local_waiting := (local_waiting s)(i := v)\<rparr>"

definition put_mcs_next :: "nat option \<Rightarrow> mcs_mem \<Rightarrow> mcs_mem" where
  "put_mcs_next v s = s\<lparr>mcs_next := v\<rparr>"

definition mcs_lock_trylock :: "nat \<Rightarrow> (mcs_mem, nat) prog" where
  "mcs_lock_trylock i = load mcs_next (\<lambda>v.
     if v \<noteq> None then Ret 1
     else store (set_next i None) (
       cas_val mcs_next put_mcs_next None (Some i) (\<lambda>v. Ret (if v \<noteq> None then 1 else 0))))"

primrec mcs_spin :: "nat \<Rightarrow> nat \<Rightarrow> (mcs_mem, nat) prog" where
  "mcs_spin 0 i = Stop No_fuel"
| "mcs_spin (Suc k) i = load (\<lambda>s. local_waiting s i) (\<lambda>v. if v \<noteq> 0 then mcs_spin k i else Ret 0)"

definition mcs_lock_lock :: "nat \<Rightarrow> nat \<Rightarrow> (mcs_mem, nat) prog" where
  "mcs_lock_lock k i = store (set_next i None) (
     swp mcs_next put_mcs_next (Some i) (\<lambda>pred.
     case pred of None \<Rightarrow> Ret 0
     | Some p \<Rightarrow> store (set_waiting i 1) (store (set_next p (Some i)) (mcs_spin k i))))"

primrec mcs_await_succ :: "nat \<Rightarrow> nat \<Rightarrow> (mcs_mem, nat) prog" where
  "mcs_await_succ 0 i = Stop No_fuel"
| "mcs_await_succ (Suc k) i = load (\<lambda>s. local_next s i) (\<lambda>succ.
     case succ of None \<Rightarrow> mcs_await_succ k i | Some p \<Rightarrow> store (set_waiting p 0) (Ret 0))"

definition mcs_lock_unlock :: "nat \<Rightarrow> nat \<Rightarrow> (mcs_mem, nat) prog" where
  "mcs_lock_unlock k i = load (\<lambda>s. local_next s i) (\<lambda>succ.
     case succ of
       None \<Rightarrow> cas_val mcs_next put_mcs_next (Some i) None (\<lambda>v. if v = Some i then Ret 0 else mcs_await_succ k i)
     | Some p \<Rightarrow> store (set_waiting p 0) (Ret 0))"

definition mcs_lock_init :: "mcs_mem \<Rightarrow> mcs_mem" where
  "mcs_lock_init s = put_mcs_next None s"

lemma mcs_simps [simp]:
  "mcs_next (set_next i v s) = mcs_next s" "mcs_next (set_waiting i w s) = mcs_next s" "mcs_next (put_mcs_next v s) = v"
  "local_next (set_next i v s) = (local_next s)(i := v)" "local_next (set_waiting i w s) = local_next s"
  "local_next (put_mcs_next v s) = local_next s" "local_waiting (set_next i v s) = local_waiting s"
  "local_waiting (set_waiting i w s) = (local_waiting s)(i := w)" "local_waiting (put_mcs_next v s) = local_waiting s"
  by (simp_all add: set_next_def set_waiting_def put_mcs_next_def)

section \<open>The queue of threads\<close>

text \<open>\<open>before i xs\<close> is the element in front of \<open>i\<close>.\<close>

fun before :: "'a \<Rightarrow> 'a list \<Rightarrow> 'a option" where
  "before i (x # y # xs) = (if y = i then Some x else before i (y # xs))"
| "before i _ = None"

lemma before_mem: "before i xs = Some p \<Longrightarrow> p \<in> set xs \<and> i \<in> set (tl xs)"
  by (induction i xs rule: before.induct) (auto split: if_splits)

lemma before_None [simp]: "i \<notin> set xs \<Longrightarrow> before i (x # xs) = None"
  using before_mem [of i "x # xs"] by (cases "before i (x # xs)") auto

lemma before_Cons: "distinct (x # xs) \<Longrightarrow> i \<in> set xs \<Longrightarrow> before i (x # xs) = (if hd xs = i then Some x else before i xs)"
  by (cases xs) auto

lemma before_append: "i \<in> set xs \<Longrightarrow> distinct (xs @ ys) \<Longrightarrow> before i (xs @ ys) = before i xs"
proof (induction xs)
  case (Cons x xs)
  then show ?case
  proof (cases "i = x")
    case False
    then have i: "i \<in> set xs" using Cons.prems by simp
    then have "hd (xs @ ys) = hd xs" by (cases xs) simp_all
    then show ?thesis using Cons i by (simp add: before_Cons)
  qed simp
qed simp

lemma before_new: "i \<notin> set xs \<Longrightarrow> before i (xs @ [i]) = (if xs = [] then None else Some (last xs))"
proof (induction xs)
  case (Cons x xs)
  then show ?case by (cases xs) auto
qed simp

lemma before_hd: "distinct xs \<Longrightarrow> i \<in> set xs \<Longrightarrow> before i xs = None \<longleftrightarrow> hd xs = i"
proof (induction xs)
  case (Cons x xs)
  then show ?case by (cases "i = x") (auto simp: before_Cons)
qed simp

lemma before_inj: "distinct xs \<Longrightarrow> before i xs = Some p \<Longrightarrow> before j xs = Some p \<Longrightarrow> i = j"
proof (induction xs)
  case (Cons x xs)
  have ij: "i \<in> set xs" "j \<in> set xs" using before_mem [OF Cons.prems(2)] before_mem [OF Cons.prems(3)] by simp_all
  show ?case
    using Cons ij before_mem [of i xs x] before_mem [of j xs x] by (auto simp: before_Cons split: if_splits)
qed simp

lemma before_last: "distinct xs \<Longrightarrow> before i xs = Some p \<Longrightarrow> p \<noteq> last xs"
proof (induction xs)
  case (Cons x xs)
  have i: "i \<in> set xs" using before_mem [OF Cons.prems(2)] by simp
  then have "xs \<noteq> []" by auto
  then have "last (x # xs) = last xs" "last xs \<in> set xs" by simp_all
  then show ?case using Cons i by (auto simp: before_Cons split: if_splits)
qed simp

lemma before_ex: "distinct xs \<Longrightarrow> p \<in> set xs \<Longrightarrow> p \<noteq> last xs \<Longrightarrow> \<exists>i \<in> set xs. before i xs = Some p"
proof (induction xs)
  case (Cons x xs)
  then have ne: "xs \<noteq> []" by auto
  show ?case
  proof (cases "p = x")
    case True
    then have "before (hd xs) (x # xs) = Some p" using Cons.prems(1) ne by (simp add: before_Cons)
    then show ?thesis using ne by auto
  next
    case False
    then obtain i where i: "i \<in> set xs" "before i xs = Some p" using Cons ne by auto
    then have "hd xs \<noteq> i" using before_hd [of xs i] Cons.prems(1) by auto
    then show ?thesis using i Cons.prems(1) by (intro bexI [of _ i]) (simp_all add: before_Cons)
  qed
qed simp

section \<open>The invariant\<close>

text \<open>
  The ghost state: the owner, and the threads in the queue. The node of a thread that is not
  the last points to the thread behind it once that thread has linked itself, which it does
  only after it has set its \<open>waiting\<close>.
\<close>

record mcs_ghost =
  mg_own :: "nat option"
  mg_who :: "nat list"

definition mcs_inv :: "nat \<Rightarrow> mcs_mem \<times> mcs_ghost \<Rightarrow> bool" where
  "mcs_inv n a \<longleftrightarrow> (case a of (s, g) \<Rightarrow>
     mcs_next s = (if mg_who g = [] then None else Some (last (mg_who g))) \<and>
     distinct (mg_who g) \<and> set (mg_who g) \<subseteq> {..<n} \<and>
     (\<forall>i p. before i (mg_who g) = Some p \<longrightarrow>
        local_next s p = None \<or> local_next s p = Some i \<and> local_waiting s i \<noteq> 0) \<and>
     (mg_who g \<noteq> [] \<longrightarrow> local_next s (last (mg_who g)) = None) \<and>
     (\<forall>i. mg_own g = Some i \<longrightarrow> mg_who g \<noteq> [] \<and> hd (mg_who g) = i))"

text \<open>
  What the others leave alone of what thread \<open>i\<close> sees: its node while it is outside; its place
  behind a predecessor that it is not linked to yet; and once it is linked, its place until it
  is first.
\<close>

definition queue_ord :: "nat \<Rightarrow> mcs_mem \<times> mcs_ghost \<Rightarrow> mcs_mem \<times> mcs_ghost \<Rightarrow> bool" where
  "queue_ord i a b \<longleftrightarrow> (case (a, b) of ((s, g), (t, h)) \<Rightarrow>
     i \<in> set (mg_who h) \<and> (local_next s i \<noteq> None \<longrightarrow> local_next t i = local_next s i) \<and>
     (case before i (mg_who g) of
        None \<Rightarrow> before i (mg_who h) = None
      | Some p \<Rightarrow>
          if local_next s p = None then before i (mg_who h) = Some p \<and> local_next t p = None \<and> local_waiting t i = local_waiting s i
          else before i (mg_who h) = None \<or> before i (mg_who h) = Some p \<and> local_next t p = local_next s p))"

definition mcs_ord :: "nat \<Rightarrow> nat \<Rightarrow> mcs_mem \<times> mcs_ghost \<Rightarrow> mcs_mem \<times> mcs_ghost \<Rightarrow> bool" where
  "mcs_ord n i a b \<longleftrightarrow> (mg_own (snd b) = Some i \<longleftrightarrow> mg_own (snd a) = Some i) \<and>
     (i < n \<longrightarrow> (if i \<in> set (mg_who (snd a)) then queue_ord i a b
        else i \<notin> set (mg_who (snd b)) \<and> local_next (fst b) i = local_next (fst a) i))"

definition mcs_grd :: "nat \<Rightarrow> nat \<Rightarrow> mcs_mem \<times> mcs_ghost \<Rightarrow> mcs_mem \<times> mcs_ghost \<Rightarrow> bool" where
  "mcs_grd n i a b \<longleftrightarrow> (\<forall>j. j \<noteq> i \<longrightarrow> mcs_ord n j a b) \<and>
     (mg_own (snd b) = mg_own (snd a) \<or> mg_own (snd a) = None \<and> mg_own (snd b) = Some i \<or>
      mg_own (snd a) = Some i \<and> mg_own (snd b) = None)"

definition mcs_ready :: "nat \<Rightarrow> nat \<Rightarrow> unit \<Rightarrow> mcs_mem \<times> mcs_ghost \<Rightarrow> bool" where
  "mcs_ready n i l a \<longleftrightarrow> i < n \<and> i \<notin> set (mg_who (snd a))"

definition mcs_held :: "nat \<Rightarrow> nat \<Rightarrow> unit \<Rightarrow> mcs_mem \<times> mcs_ghost \<Rightarrow> bool" where
  "mcs_held n i l a \<longleftrightarrow> i < n \<and> mg_own (snd a) = Some i"

lemma queue_ord_trans:
  assumes "queue_ord i a b" and "queue_ord i b c"
  shows "queue_ord i a c"
proof -
  obtain s g t h u k where eq: "a = (s, g)" "b = (t, h)" "c = (u, k)" by (metis prod.collapse)
  show ?thesis
  proof (cases "before i (mg_who g)")
    case None
    then show ?thesis using assms unfolding eq queue_ord_def by simp
  next
    case (Some p)
    show ?thesis
    proof (cases "local_next s p")
      case None
      then show ?thesis using assms Some unfolding eq queue_ord_def by simp
    next
      case (Some q)
      then show ?thesis
        using assms \<open>before i (mg_who g) = Some p\<close> unfolding eq queue_ord_def by (auto split: option.splits if_splits)
    qed
  qed
qed

lemma mcs_ord_refl: "mcs_ord n i a a"
  by (cases a) (simp add: mcs_ord_def queue_ord_def split: option.splits)

lemma mcs_ord_trans: "mcs_ord n i a b \<Longrightarrow> mcs_ord n i b c \<Longrightarrow> mcs_ord n i a c"
proof (cases "i \<in> set (mg_who (snd a))")
  assume ab: "mcs_ord n i a b" and bc: "mcs_ord n i b c"
  { case True
    have "queue_ord i a c \<and> i \<in> set (mg_who (snd b))" if "i < n"
    proof -
      have 1: "queue_ord i a b" using ab True that by (simp add: mcs_ord_def)
      then have b: "i \<in> set (mg_who (snd b))" by (auto simp: queue_ord_def split: prod.splits)
      then have "queue_ord i b c" using bc that by (simp add: mcs_ord_def)
      then show ?thesis using queue_ord_trans [OF 1] b by blast
    qed
    then show ?thesis using ab bc True by (simp add: mcs_ord_def) }
  { case False
    then show ?thesis using ab bc by (auto simp: mcs_ord_def) }
qed

lemma mcs_grd_refl: "mcs_grd n i a a"
  by (simp add: mcs_grd_def mcs_ord_refl)

lemma mcs_rely_refl: "lock_rely (mcs_inv n) (mcs_ord n) i a a" "lock_rely (mcs_inv n) (mcs_grd n) i a a"
  by (simp_all add: lock_rely_def mcs_ord_refl mcs_grd_refl)

lemma mcs_invD:
  assumes "mcs_inv n (s, g)"
  shows "mcs_next s = (if mg_who g = [] then None else Some (last (mg_who g)))"
    "distinct (mg_who g)" "j \<in> set (mg_who g) \<Longrightarrow> j < n"
    "before j (mg_who g) = Some p \<Longrightarrow> local_next s p = None \<or> local_next s p = Some j \<and> local_waiting s j \<noteq> 0"
    "mg_who g \<noteq> [] \<Longrightarrow> local_next s (last (mg_who g)) = None"
    "mg_own g = Some j \<Longrightarrow> \<exists>ws. mg_who g = j # ws"
proof -
  show "\<exists>ws. mg_who g = j # ws" if "mg_own g = Some j"
    using assms that by (cases "mg_who g") (auto simp: mcs_inv_def)
qed (use assms in \<open>auto simp: mcs_inv_def\<close>)

lemma mcs_grdI:
  assumes "mg_own h = mg_own g \<or> mg_own g = None \<and> mg_own h = Some i \<or> mg_own g = Some i \<and> mg_own h = None"
    and "\<And>j. j < n \<Longrightarrow> j \<noteq> i \<Longrightarrow> j \<in> set (mg_who g) \<Longrightarrow> queue_ord j (s, g) (t, h)"
    and "\<And>j. j < n \<Longrightarrow> j \<noteq> i \<Longrightarrow> j \<notin> set (mg_who g) \<Longrightarrow> j \<notin> set (mg_who h) \<and> local_next t j = local_next s j"
  shows "mcs_grd n i (s, g) (t, h)"
  using assms by (auto simp: mcs_grd_def mcs_ord_def)

text \<open>A thread clears its node, enters the queue, links itself, finds the lock, leaves.\<close>

lemma mcs_clear:
  assumes inv: "mcs_inv n (s, g)" and i: "i \<notin> set (mg_who g)"
  shows "mcs_inv n (set_next i v s, g)" "mcs_grd n i (s, g) (set_next i v s, g)"
proof -
  have ne: "p \<noteq> i" if "before j (mg_who g) = Some p" for j p using before_mem [OF that] i by auto
  show "mcs_inv n (set_next i v s, g)"
    using mcs_invD [OF inv] ne i last_in_set [of "mg_who g"] unfolding mcs_inv_def by fastforce
  show "mcs_grd n i (s, g) (set_next i v s, g)"
    by (rule mcs_grdI) (auto simp: queue_ord_def ne split: option.splits)
qed

lemma mcs_enter:
  assumes inv: "mcs_inv n (s, g)" and i: "i < n" "i \<notin> set (mg_who g)" and nxt: "local_next s i = None"
  defines "h \<equiv> (if mg_who g = [] then g\<lparr>mg_own := Some i, mg_who := [i]\<rparr> else g\<lparr>mg_who := mg_who g @ [i]\<rparr>)"
  shows "mcs_inv n (put_mcs_next (Some i) s, h)" "mcs_grd n i (s, g) (put_mcs_next (Some i) s, h)"
    "mcs_next s = before i (mg_who h)" "mcs_next s = Some p \<Longrightarrow> local_next s p = None"
    "i \<in> set (mg_who h)" "mg_own h = Some i \<longleftrightarrow> mg_who g = []"
proof -
  note d = mcs_invD [OF inv]
  have who: "mg_who h = mg_who g @ [i]" by (simp add: h_def)
  have old: "before j (mg_who h) = before j (mg_who g)" if "j \<in> set (mg_who g)" for j
    unfolding who using that i(2) d(2) by (intro before_append) auto
  have new: "before i (mg_who h) = (if mg_who g = [] then None else Some (last (mg_who g)))"
    unfolding who by (rule before_new [OF i(2)])
  have own: "mg_own g \<noteq> Some j" if "mg_who g = []" for j using d(6) that by auto
  show "mcs_next s = before i (mg_who h)" using new d(1) by simp
  show "mcs_next s = Some p \<Longrightarrow> local_next s p = None" using d(1,5) by (auto split: if_splits)
  have "local_next s p = None \<or> local_next s p = Some j \<and> local_waiting s j \<noteq> 0" if "before j (mg_who h) = Some p" for j p
  proof (cases "j = i")
    case True
    then show ?thesis using that new d(5) by (auto split: if_splits)
  next
    case False
    then have "j \<in> set (mg_who g)" using before_mem [OF that] who by (cases "mg_who g") auto
    then show ?thesis using d(4) that old by metis
  qed
  moreover have "mg_own h = Some j \<Longrightarrow> hd (mg_who h) = j" for j
    using d(6) by (auto simp: h_def split: if_splits)
  ultimately show "mcs_inv n (put_mcs_next (Some i) s, h)"
    using d(2,3) i nxt who by (auto simp: mcs_inv_def)
  show "mcs_grd n i (s, g) (put_mcs_next (Some i) s, h)"
  proof (rule mcs_grdI)
    show "mg_own h = mg_own g \<or> mg_own g = None \<and> mg_own h = Some i \<or> mg_own g = Some i \<and> mg_own h = None"
      using own by (cases "mg_own g") (auto simp: h_def)
    show "queue_ord j (s, g) (put_mcs_next (Some i) s, h)" if "j \<in> set (mg_who g)" for j
      using old [OF that] that by (auto simp: queue_ord_def who split: option.splits)
  qed (auto simp: who)
  show "i \<in> set (mg_who h)" by (simp add: who)
  show "mg_own h = Some i \<longleftrightarrow> mg_who g = []" using own d(6) i(2) by (auto simp: h_def)
qed

lemma mcs_waiting:
  assumes inv: "mcs_inv n (s, g)" and i: "before i (mg_who g) = Some p" "local_next s p = None"
  shows "mcs_inv n (set_waiting i v s, g)" "mcs_grd n i (s, g) (set_waiting i v s, g)"
proof -
  show "mcs_inv n (set_waiting i v s, g)"
    using mcs_invD [OF inv] i unfolding mcs_inv_def by auto
  show "mcs_grd n i (s, g) (set_waiting i v s, g)"
    by (rule mcs_grdI) (auto simp: queue_ord_def split: option.splits)
qed

lemma mcs_link:
  assumes inv: "mcs_inv n (s, g)" and i: "before i (mg_who g) = Some p" "local_next s p = None" "local_waiting s i \<noteq> 0"
  shows "mcs_inv n (set_next p (Some i) s, g)" "mcs_grd n i (s, g) (set_next p (Some i) s, g)"
proof -
  note d = mcs_invD [OF inv]
  have only: "j = i" if "before j (mg_who g) = Some p" for j using before_inj [OF d(2) that i(1)] .
  have p: "p \<noteq> last (mg_who g)" "p \<in> set (mg_who g)" using before_last [OF d(2) i(1)] before_mem [OF i(1)] by auto
  then show "mcs_inv n (set_next p (Some i) s, g)"
    using d only i(3) unfolding mcs_inv_def by auto
  show "mcs_grd n i (s, g) (set_next p (Some i) s, g)"
    by (rule mcs_grdI) (use only p i(2) in \<open>auto simp: queue_ord_def split: option.splits\<close>)
qed

lemma mcs_found:
  assumes inv: "mcs_inv n (s, g)" and i: "i \<in> set (mg_who g)" "before i (mg_who g) = None" and o: "mg_own g \<noteq> Some i"
  shows "mcs_inv n (s, g\<lparr>mg_own := Some i\<rparr>)" "mcs_grd n i (s, g) (s, g\<lparr>mg_own := Some i\<rparr>)"
proof -
  note d = mcs_invD [OF inv]
  have hd: "mg_who g \<noteq> [] \<and> hd (mg_who g) = i" using before_hd [OF d(2) i(1)] i by auto
  then show "mcs_inv n (s, g\<lparr>mg_own := Some i\<rparr>)" using inv by (simp add: mcs_inv_def)
  have "mg_own g = None" using d(6) hd o by (cases "mg_own g") fastforce+
  then show "mcs_grd n i (s, g) (s, g\<lparr>mg_own := Some i\<rparr>)"
    by (intro mcs_grdI) (auto simp: queue_ord_def split: option.splits)
qed

lemma mcs_empty:
  assumes inv: "mcs_inv n (s, g)" and own: "mg_own g = Some i" and tail: "mcs_next s = Some i"
  defines "h \<equiv> g\<lparr>mg_own := None, mg_who := []\<rparr>"
  shows "mcs_inv n (put_mcs_next None s, h)" "mcs_grd n i (s, g) (put_mcs_next None s, h)"
proof -
  note d = mcs_invD [OF inv]
  obtain ws where ws: "mg_who g = i # ws" using d(6) [OF own] by blast
  then have "ws = []" using tail d(1,2) last_in_set [of ws] by (auto split: if_splits)
  then have who: "mg_who g = [i]" using ws by simp
  show "mcs_inv n (put_mcs_next None s, h)" by (simp add: mcs_inv_def h_def)
  show "mcs_grd n i (s, g) (put_mcs_next None s, h)"
    by (rule mcs_grdI) (use own who in \<open>auto simp: h_def\<close>)
qed

lemma mcs_pass:
  assumes inv: "mcs_inv n (s, g)" and own: "mg_own g = Some i" and p: "local_next s i = Some p"
  defines "h \<equiv> g\<lparr>mg_own := None, mg_who := tl (mg_who g)\<rparr>"
  shows "mcs_inv n (set_waiting p 0 s, h)" "mcs_grd n i (s, g) (set_waiting p 0 s, h)" "i \<notin> set (mg_who h)"
proof -
  note d = mcs_invD [OF inv]
  obtain ws where ws: "mg_who g = i # ws" using d(6) [OF own] by blast
  have ne: "ws \<noteq> []" using d(5) ws p by auto
  have dist: "distinct (i # ws)" using d(2) ws by simp
  have "before (hd ws) (i # ws) = Some i" using before_Cons [OF dist] ne by simp
  then have hd: "hd ws = p" using d(4) [of "hd ws" i] ws p by auto
  have other: "before j (i # ws) = before j ws" if "j \<in> set ws" "j \<noteq> p" for j
    using before_Cons [OF dist that(1)] hd that(2) by simp
  have first: "before p ws = None" using before_hd [of ws p] dist ne hd by auto
  have "local_next s q = None \<or> local_next s q = Some j \<and> local_waiting (set_waiting p 0 s) j \<noteq> 0"
    if q: "before j ws = Some q" for j q
  proof -
    have j: "j \<in> set ws" "j \<noteq> p" using before_mem [OF q] first q by (auto intro: list.set_sel(2) simp: ne)
    then show ?thesis using d(4) [of j q] other [OF j] q ws by simp
  qed
  then show "mcs_inv n (set_waiting p 0 s, h)"
    using d(1,2,3,5) ws ne by (auto simp: mcs_inv_def h_def)
  show "mcs_grd n i (s, g) (set_waiting p 0 s, h)"
  proof (rule mcs_grdI)
    show "queue_ord j (s, g) (set_waiting p 0 s, h)" if j: "j \<noteq> i" "j \<in> set (mg_who g)" for j
    proof (cases "j = p")
      case True
      then show ?thesis using first j ws p before_Cons [OF dist, of p] hd
        by (auto simp: queue_ord_def h_def split: option.splits)
    next
      case False
      then show ?thesis using other [of j] j ws by (auto simp: queue_ord_def h_def split: option.splits)
    qed
  qed (use own ws in \<open>auto simp: h_def\<close>)
  show "i \<notin> set (mg_who h)" using dist ws by (simp add: h_def)
qed

section \<open>The operations\<close>

lemma mcs_rely:
  "lock_rely (mcs_inv n) (mcs_ord n) i a (t, h) \<Longrightarrow> mcs_inv n a \<Longrightarrow> mcs_inv n (t, h) \<and> mcs_ord n i a (t, h)"
  by (simp add: lock_rely_def)

lemma mcs_rely_out:
  assumes "lock_rely (mcs_inv n) (mcs_ord n) i (s, g) (t, h)" and "mcs_inv n (s, g)" and "i < n" and "i \<notin> set (mg_who g)"
  shows "mcs_inv n (t, h)" "i \<notin> set (mg_who h)" "local_next t i = local_next s i"
  using mcs_rely [OF assms(1,2)] assms(3,4) by (auto simp: mcs_ord_def)

lemma mcs_rely_in:
  assumes "lock_rely (mcs_inv n) (mcs_ord n) i (s, g) (t, h)" and "mcs_inv n (s, g)" and "i < n" and "i \<in> set (mg_who g)"
  shows "mcs_inv n (t, h)" "queue_ord i (s, g) (t, h)" "i \<in> set (mg_who h)" "mg_own h = Some i \<longleftrightarrow> mg_own g = Some i"
  using mcs_rely [OF assms(1,2)] assms(3,4) by (auto simp: mcs_ord_def queue_ord_def)

lemma mcs_own_in: "mcs_inv n (s, g) \<Longrightarrow> mg_own g = Some i \<Longrightarrow> i \<in> set (mg_who g)"
  using mcs_invD(6) by fastforce

lemma mcs_ret:
  assumes "mcs_inv n b"
  shows "mcs_held n i l b \<Longrightarrow> (\<And>c. mcs_inv n c \<Longrightarrow> mcs_held n i l c \<Longrightarrow> Q r c) \<Longrightarrow>
      safe (\<lambda>_. True) no_fuel (lock_rely (mcs_inv n) (mcs_ord n) i) G Q (Ret r) b"
    "mcs_ready n i l b \<Longrightarrow> (\<And>c. mcs_inv n c \<Longrightarrow> mcs_ready n i l c \<Longrightarrow> Q r c) \<Longrightarrow>
      safe (\<lambda>_. True) no_fuel (lock_rely (mcs_inv n) (mcs_ord n) i) G Q (Ret r) b"
  using assms by (auto simp: lock_rely_def mcs_held_def mcs_ready_def mcs_ord_def)

abbreviation mcs_safe :: "nat \<Rightarrow> nat \<Rightarrow> ('a \<Rightarrow> mcs_mem \<times> mcs_ghost \<Rightarrow> bool) \<Rightarrow> (mcs_mem, 'a) prog \<Rightarrow>
    mcs_mem \<times> mcs_ghost \<Rightarrow> bool" where
  "mcs_safe n i \<equiv> safe (\<lambda>_. True) no_fuel (lock_rely (mcs_inv n) (mcs_ord n) i) (lock_rely (mcs_inv n) (mcs_grd n) i)"

lemma mcs_spin_safe:
  assumes "i < n" and "mcs_inv n a" and "i \<in> set (mg_who (snd a))" and "mg_own (snd a) \<noteq> Some i"
    and "\<And>p. before i (mg_who (snd a)) = Some p \<Longrightarrow> local_next (fst a) p = Some i"
  shows "mcs_safe n i (\<lambda>_ b. mcs_inv n b \<and> mcs_held n i l b) (mcs_spin k i) a"
  using assms(2-5)
proof (induction k arbitrary: a)
  case 0
  then show ?case by (simp add: no_fuel_def)
next
  case (Suc k)
  obtain s0 g0 where [simp]: "a = (s0, g0)" by (cases a)
  show ?case
    unfolding mcs_spin.simps
  proof (rule safe_load_ghost)
    fix s g assume R: "lock_rely (mcs_inv n) (mcs_ord n) i a (s, g)"
    have "mcs_inv n (s0, g0)" "i \<in> set (mg_who g0)" using Suc.prems by simp_all
    note s = mcs_rely_in [OF R [simplified] this(1) assms(1) this(2)]
    have o: "mg_own g \<noteq> Some i" using s(4) Suc.prems(3) by simp
    have lnk: "local_next s p = Some i" if "before i (mg_who g) = Some p" for p
      using s(2) that Suc.prems(4) by (auto simp: queue_ord_def split: option.splits if_splits)
    show "\<exists>g'. lock_rely (mcs_inv n) (mcs_grd n) i (s, g) (s, g') \<and>
        mcs_safe n i (\<lambda>_ b. mcs_inv n b \<and> mcs_held n i l b) (if local_waiting s i \<noteq> 0 then mcs_spin k i else Ret 0) (s, g')"
    proof (cases "local_waiting s i = 0")
      case True
      have "before i (mg_who g) = None" using mcs_invD(4) [OF s(1)] lnk True by (cases "before i (mg_who g)") fastforce+
      note f = mcs_found [OF s(1,3) this o]
      have "mcs_safe n i (\<lambda>_ b. mcs_inv n b \<and> mcs_held n i l b) (Ret 0) (s, g\<lparr>mg_own := Some i\<rparr>)"
        by (rule mcs_ret(1) [OF f(1)]) (use assms(1) in \<open>auto simp: mcs_held_def\<close>)
      then show ?thesis using True f by (intro exI [of _ "g\<lparr>mg_own := Some i\<rparr>"]) (simp add: lock_rely_def)
    next
      case False
      have "mcs_safe n i (\<lambda>_ b. mcs_inv n b \<and> mcs_held n i l b) (mcs_spin k i) (s, g)"
        by (rule Suc.IH) (use s o lnk in auto)
      then show ?thesis using False mcs_rely_refl by (intro exI [of _ g]) simp
    qed
  qed
qed

lemma mcs_queue_safe:
  assumes "i < n" and inv: "mcs_inv n (s, g)" and "before i (mg_who g) = Some p" and "local_next s p = None"
    and "i \<in> set (mg_who g)" and "mg_own g \<noteq> Some i"
  shows "mcs_safe n i (\<lambda>_ b. mcs_inv n b \<and> mcs_held n i l b)
    (store (set_waiting i 1) (store (set_next p (Some i)) (mcs_spin k i))) (s, g)"
proof (rule safe_store)
  have place: "mcs_inv n (t, h) \<and> before i (mg_who h) = Some p \<and> local_next t p = None \<and> i \<in> set (mg_who h) \<and> mg_own h \<noteq> Some i"
    if R: "lock_rely (mcs_inv n) (mcs_ord n) i (s, g) (t, h)" and s: "mcs_inv n (s, g)" "before i (mg_who g) = Some p"
      "local_next s p = None" "i \<in> set (mg_who g)" "mg_own g \<noteq> Some i" for s g t h
    using mcs_rely_in [OF R s(1) assms(1) s(4)] s by (auto simp: queue_ord_def)
  fix t h assume R: "lock_rely (mcs_inv n) (mcs_ord n) i (s, g) (t, h)"
  note t = place [OF R assms(2-6)]
  then have t': "mcs_inv n (t, h)" "before i (mg_who h) = Some p" "local_next t p = None" by simp_all
  note w = mcs_waiting [OF t', of 1]
  have "mcs_safe n i (\<lambda>_ b. mcs_inv n b \<and> mcs_held n i l b) (store (set_next p (Some i)) (mcs_spin k i)) (set_waiting i 1 t, h)"
  proof (rule safe_store)
    fix u m assume R2: "lock_rely (mcs_inv n) (mcs_ord n) i (set_waiting i 1 t, h) (u, m)"
    have u: "mcs_inv n (u, m)" "before i (mg_who m) = Some p" "local_next u p = None" "i \<in> set (mg_who m)" "mg_own m \<noteq> Some i"
      using place [OF R2 w(1)] t by auto
    show "\<exists>g'. lock_rely (mcs_inv n) (mcs_grd n) i (u, m) (set_next p (Some i) u, g') \<and>
        mcs_safe n i (\<lambda>_ b. mcs_inv n b \<and> mcs_held n i l b) (mcs_spin k i) (set_next p (Some i) u, g')"
    proof -
      have "local_waiting u i \<noteq> 0"
        using mcs_rely_in [OF R2 w(1) assms(1)] t by (auto simp: queue_ord_def)
      note f = mcs_link [OF u(1-3) this]
      have "mcs_safe n i (\<lambda>_ b. mcs_inv n b \<and> mcs_held n i l b) (mcs_spin k i) (set_next p (Some i) u, m)"
        by (rule mcs_spin_safe [OF assms(1) f(1)]) (use u in auto)
      then show ?thesis using f by (intro exI [of _ m]) (simp add: lock_rely_def)
    qed
  qed
  then show "\<exists>g'. lock_rely (mcs_inv n) (mcs_grd n) i (t, h) (set_waiting i 1 t, g') \<and>
      mcs_safe n i (\<lambda>_ b. mcs_inv n b \<and> mcs_held n i l b) (store (set_next p (Some i)) (mcs_spin k i)) (set_waiting i 1 t, g')"
    using w by (intro exI [of _ h]) (simp add: lock_rely_def)
qed

lemma mcs_lock_safe:
  assumes "i < n" and "mcs_inv n a" and "i \<notin> set (mg_who (snd a))"
  shows "mcs_safe n i (\<lambda>_ b. mcs_inv n b \<and> mcs_held n i l b) (mcs_lock_lock k i) a"
proof -
  obtain s0 g0 where [simp]: "a = (s0, g0)" by (cases a)
  let ?rest = "\<lambda>pred. case pred of None \<Rightarrow> Ret 0
     | Some p \<Rightarrow> store (set_waiting i 1) (store (set_next p (Some i)) (mcs_spin k i))"
  have swap: "mcs_safe n i (\<lambda>_ b. mcs_inv n b \<and> mcs_held n i l b) (swp mcs_next put_mcs_next (Some i) ?rest) (s, g)"
    if s: "mcs_inv n (s, g)" "i \<notin> set (mg_who g)" "local_next s i = None" for s g
    unfolding swp_def
  proof (rule safe_fetch_op)
    fix t h assume R: "lock_rely (mcs_inv n) (mcs_ord n) i (s, g) (t, h)"
    have t: "mcs_inv n (t, h)" "i \<notin> set (mg_who h)" "local_next t i = None"
      using mcs_rely_out [OF R s(1) assms(1) s(2)] s(3) by auto
    let ?h = "if mg_who h = [] then h\<lparr>mg_own := Some i, mg_who := [i]\<rparr> else h\<lparr>mg_who := mg_who h @ [i]\<rparr>"
    note e = mcs_enter [OF t(1) assms(1) t(2,3)]
    have "mcs_safe n i (\<lambda>_ b. mcs_inv n b \<and> mcs_held n i l b) (?rest (mcs_next t)) (put_mcs_next (Some i) t, ?h)"
    proof (cases "mcs_next t")
      case None
      then have "mg_own ?h = Some i" using mcs_invD(1) [OF t(1)] by (simp split: if_splits)
      then show ?thesis unfolding None option.case
        by (intro mcs_ret(1) [OF e(1)]) (use assms(1) in \<open>auto simp: mcs_held_def\<close>)
    next
      case (Some p)
      then have "mg_who h \<noteq> []" using mcs_invD(1) [OF t(1)] by (simp split: if_splits)
      then have "mg_own ?h \<noteq> Some i" using e(6) by blast
      then show ?thesis
        unfolding Some option.case
        by (intro mcs_queue_safe [OF assms(1) e(1)]) (use e(3,4,5) Some in simp_all)
    qed
    then show "\<exists>g'. lock_rely (mcs_inv n) (mcs_grd n) i (t, h) (put_mcs_next (Some i) t, g') \<and>
        mcs_safe n i (\<lambda>_ b. mcs_inv n b \<and> mcs_held n i l b) (?rest (mcs_next t)) (put_mcs_next (Some i) t, g')"
      using e(1,2) by (intro exI [of _ ?h] conjI) (simp add: lock_rely_def)
  qed
  show ?thesis
    unfolding mcs_lock_lock_def
  proof (rule safe_store)
    fix s g assume R: "lock_rely (mcs_inv n) (mcs_ord n) i a (s, g)"
    have s: "mcs_inv n (s, g)" "i \<notin> set (mg_who g)"
      using mcs_rely_out [of n i s0 g0 s g] R assms by auto
    note c = mcs_clear [OF s, of None]
    have "mcs_safe n i (\<lambda>_ b. mcs_inv n b \<and> mcs_held n i l b) (swp mcs_next put_mcs_next (Some i) ?rest) (set_next i None s, g)"
      by (rule swap) (use c s in simp_all)
    then show "\<exists>g'. lock_rely (mcs_inv n) (mcs_grd n) i (s, g) (set_next i None s, g') \<and>
        mcs_safe n i (\<lambda>_ b. mcs_inv n b \<and> mcs_held n i l b) (swp mcs_next put_mcs_next (Some i) ?rest) (set_next i None s, g')"
      using c by (intro exI [of _ g]) (simp add: lock_rely_def)
  qed
qed

text \<open>\<open>mcs_lock_trylock\<close> succeeds when it returns 0.\<close>

lemma mcs_trylock_safe:
  assumes "i < n" and "mcs_inv n a" and "i \<notin> set (mg_who (snd a))"
  shows "mcs_safe n i (\<lambda>r b. mcs_inv n b \<and> (if r = 0 then mcs_held n i l b else mcs_ready n i l b)) (mcs_lock_trylock i) a"
proof -
  obtain s0 g0 where [simp]: "a = (s0, g0)" by (cases a)
  let ?S = "mcs_safe n i (\<lambda>(r :: nat) b. mcs_inv n b \<and> (if r = 0 then mcs_held n i l b else mcs_ready n i l b))"
  let ?cas = "cas_val mcs_next put_mcs_next None (Some i) (\<lambda>v. Ret (if v \<noteq> None then 1 else 0))"
  have fail: "?S (Ret 1) (s, g)" if "mcs_inv n (s, g)" "i \<notin> set (mg_who g)" for s g
    by (rule mcs_ret(2) [OF that(1)]) (use that assms(1) in \<open>auto simp: mcs_ready_def\<close>)
  have cas: "?S ?cas (s, g)" if s: "mcs_inv n (s, g)" "i \<notin> set (mg_who g)" "local_next s i = None" for s g
  proof (rule safe_cas_val)
    fix t h assume R: "lock_rely (mcs_inv n) (mcs_ord n) i (s, g) (t, h)"
    have t: "mcs_inv n (t, h)" "i \<notin> set (mg_who h)" "local_next t i = None"
      using mcs_rely_out [OF R s(1) assms(1) s(2)] s(3) by auto
    let ?h = "if mg_who h = [] then h\<lparr>mg_own := Some i, mg_who := [i]\<rparr> else h\<lparr>mg_who := mg_who h @ [i]\<rparr>"
    note e = mcs_enter [OF t(1) assms(1) t(2,3)]
    { assume "mcs_next t = None"
      then have "mg_own ?h = Some i" using mcs_invD(1) [OF t(1)] by (simp split: if_splits)
      then have "?S (Ret (if None \<noteq> (None :: nat option) then 1 else 0)) (put_mcs_next (Some i) t, ?h)"
        unfolding simp_thms if_False
        by (intro mcs_ret(1) [OF e(1)]) (use assms(1) in \<open>auto simp: mcs_held_def\<close>)
      then show "\<exists>g'. lock_rely (mcs_inv n) (mcs_grd n) i (t, h) (put_mcs_next (Some i) t, g') \<and>
          ?S (Ret (if None \<noteq> (None :: nat option) then 1 else 0)) (put_mcs_next (Some i) t, g')"
        using e(1,2) by (intro exI [of _ ?h] conjI) (simp add: lock_rely_def) }
    { assume "mcs_next t \<noteq> None"
      then show "lock_rely (mcs_inv n) (mcs_grd n) i (t, h) (t, h) \<and> ?S (Ret (if mcs_next t \<noteq> None then 1 else 0)) (t, h)"
        using fail [OF t(1,2)] mcs_rely_refl by simp }
  qed
  show ?thesis
    unfolding mcs_lock_trylock_def
  proof (rule safe_load, rule conjI)
    fix s g assume R: "lock_rely (mcs_inv n) (mcs_ord n) i a (s, g)"
    have s: "mcs_inv n (s, g)" "i \<notin> set (mg_who g)" using mcs_rely_out [of n i s0 g0 s g] R assms by auto
    show "lock_rely (mcs_inv n) (mcs_grd n) i (s, g) (s, g)" by (rule mcs_rely_refl)
    have "?S (store (set_next i None) ?cas) (s, g)"
    proof (rule safe_store)
      fix t h assume R: "lock_rely (mcs_inv n) (mcs_ord n) i (s, g) (t, h)"
      note t = mcs_rely_out [OF R s(1) assms(1) s(2)]
      note c = mcs_clear [OF t(1,2), of None]
      have "?S ?cas (set_next i None t, h)" by (rule cas) (use c t in simp_all)
      then show "\<exists>g'. lock_rely (mcs_inv n) (mcs_grd n) i (t, h) (set_next i None t, g') \<and> ?S ?cas (set_next i None t, g')"
        using c by (intro exI [of _ h]) (simp add: lock_rely_def)
    qed
    then show "?S (if mcs_next s \<noteq> None then Ret 1 else store (set_next i None) ?cas) (s, g)"
      using fail [OF s] by (cases "mcs_next s") simp_all
  qed
qed

lemma mcs_rely_own:
  assumes "lock_rely (mcs_inv n) (mcs_ord n) i (s, g) (t, h)" and "mcs_inv n (s, g)" and "i < n" and "mg_own g = Some i"
  shows "mcs_inv n (t, h)" "mg_own h = Some i" "local_next s i = Some p \<Longrightarrow> local_next t i = Some p"
  using mcs_rely_in [OF assms(1-3) mcs_own_in [OF assms(2,4)]] assms(4) by (auto simp: queue_ord_def)

lemma mcs_pass_safe:
  assumes "i < n" and "mcs_inv n (s, g)" and "mg_own g = Some i" and "local_next s i = Some p"
  shows "mcs_safe n i (\<lambda>_ b. mcs_inv n b \<and> mcs_ready n i l b) (store (set_waiting p 0) (Ret (0 :: nat))) (s, g)"
proof (rule safe_store)
  fix t h assume R: "lock_rely (mcs_inv n) (mcs_ord n) i (s, g) (t, h)"
  note t = mcs_rely_own [OF R assms(2,1,3)]
  let ?h = "h\<lparr>mg_own := None, mg_who := tl (mg_who h)\<rparr>"
  note f = mcs_pass [OF t(1,2) t(3) [OF assms(4)]]
  have "mcs_safe n i (\<lambda>_ b. mcs_inv n b \<and> mcs_ready n i l b) (Ret (0 :: nat)) (set_waiting p 0 t, ?h)"
    by (rule mcs_ret(2) [OF f(1)]) (use f(3) assms(1) in \<open>auto simp: mcs_ready_def\<close>)
  then show "\<exists>g'. lock_rely (mcs_inv n) (mcs_grd n) i (t, h) (set_waiting p 0 t, g') \<and>
      mcs_safe n i (\<lambda>_ b. mcs_inv n b \<and> mcs_ready n i l b) (Ret (0 :: nat)) (set_waiting p 0 t, g')"
    using f by (intro exI [of _ ?h]) (simp add: lock_rely_def)
qed

lemma mcs_await_safe:
  assumes "i < n" and "mcs_inv n (s, g)" and "mg_own g = Some i"
  shows "mcs_safe n i (\<lambda>_ b. mcs_inv n b \<and> mcs_ready n i l b) (mcs_await_succ k i) (s, g)"
  using assms(2,3)
proof (induction k arbitrary: s g)
  case 0
  then show ?case by (simp add: no_fuel_def)
next
  case (Suc k)
  show ?case
    unfolding mcs_await_succ.simps
  proof (rule safe_load, rule conjI)
    fix t h assume R: "lock_rely (mcs_inv n) (mcs_ord n) i (s, g) (t, h)"
    note t = mcs_rely_own [OF R Suc.prems(1) assms(1) Suc.prems(2)]
    show "lock_rely (mcs_inv n) (mcs_grd n) i (t, h) (t, h)" by (rule mcs_rely_refl)
    show "mcs_safe n i (\<lambda>_ b. mcs_inv n b \<and> mcs_ready n i l b)
        (case local_next t i of None \<Rightarrow> mcs_await_succ k i | Some p \<Rightarrow> store (set_waiting p 0) (Ret 0)) (t, h)"
      using Suc.IH [OF t(1,2)] mcs_pass_safe [OF assms(1) t(1,2)] by (cases "local_next t i") auto
  qed
qed

lemma mcs_unlock_safe:
  assumes "i < n" and "mcs_inv n a" and "mg_own (snd a) = Some i"
  shows "mcs_safe n i (\<lambda>_ b. mcs_inv n b \<and> mcs_ready n i l b) (mcs_lock_unlock k i) a"
proof -
  obtain s0 g0 where [simp]: "a = (s0, g0)" by (cases a)
  let ?S = "mcs_safe n i (\<lambda>(_ :: nat) b. mcs_inv n b \<and> mcs_ready n i l b)"
  let ?cas = "cas_val mcs_next put_mcs_next (Some i) None (\<lambda>v. if v = Some i then Ret 0 else mcs_await_succ k i)"
  have cas: "?S ?cas (s, g)" if s: "mcs_inv n (s, g)" "mg_own g = Some i" for s g
  proof (rule safe_cas_val)
    fix t h assume R: "lock_rely (mcs_inv n) (mcs_ord n) i (s, g) (t, h)"
    note t = mcs_rely_own [OF R s(1) assms(1) s(2)]
    { assume "mcs_next t = Some i"
      note f = mcs_empty [OF t(1,2) this]
      have "?S (Ret 0) (put_mcs_next None t, h\<lparr>mg_own := None, mg_who := []\<rparr>)"
        by (rule mcs_ret(2) [OF f(1)]) (use assms(1) in \<open>auto simp: mcs_ready_def\<close>)
      then show "\<exists>g'. lock_rely (mcs_inv n) (mcs_grd n) i (t, h) (put_mcs_next None t, g') \<and>
          ?S (if Some i = Some i then Ret 0 else mcs_await_succ k i) (put_mcs_next None t, g')"
        using f by (intro exI [of _ "h\<lparr>mg_own := None, mg_who := []\<rparr>"]) (simp add: lock_rely_def) }
    { assume "mcs_next t \<noteq> Some i"
      then show "lock_rely (mcs_inv n) (mcs_grd n) i (t, h) (t, h) \<and>
          ?S (if mcs_next t = Some i then Ret 0 else mcs_await_succ k i) (t, h)"
        using mcs_await_safe [OF assms(1) t(1,2)] mcs_rely_refl by simp }
  qed
  show ?thesis
    unfolding mcs_lock_unlock_def
  proof (rule safe_load, rule conjI)
    fix s g assume R: "lock_rely (mcs_inv n) (mcs_ord n) i a (s, g)"
    have s: "mcs_inv n (s, g)" "mg_own g = Some i" using mcs_rely_own [of n i s0 g0 s g] R assms by auto
    show "lock_rely (mcs_inv n) (mcs_grd n) i (s, g) (s, g)" by (rule mcs_rely_refl)
    show "?S (case local_next s i of None \<Rightarrow> ?cas | Some p \<Rightarrow> store (set_waiting p 0) (Ret 0)) (s, g)"
      using cas [OF s] mcs_pass_safe [OF assms(1) s] by (cases "local_next s i") auto
  qed
qed

section \<open>The contract\<close>

definition mcs_LOCK :: "nat \<Rightarrow> nat \<Rightarrow> unit \<Rightarrow> (mcs_mem, unit) prog" where
  "mcs_LOCK k i = lock_op (mcs_lock_lock k i) i"

definition mcs_UNLOCK :: "nat \<Rightarrow> nat \<Rightarrow> unit \<Rightarrow> (mcs_mem, unit) prog" where
  "mcs_UNLOCK k i = lock_op (mcs_lock_unlock k i) i"

definition mcs_TRYLOCK :: "nat \<Rightarrow> unit \<Rightarrow> (mcs_mem, bool \<times> unit) prog" where
  "mcs_TRYLOCK i l = bind (mcs_lock_trylock i) (\<lambda>r. Ret (r = 0, l))"

lemma mcs_stable:
  assumes "lock_rely (mcs_inv n) (mcs_ord n) i b c" and "mcs_inv n b"
  shows "mcs_inv n c" "mcs_held n i l b \<Longrightarrow> mcs_held n i l c" "mcs_ready n i l b \<Longrightarrow> mcs_ready n i l c"
  using assms by (auto simp: lock_rely_def mcs_held_def mcs_ready_def mcs_ord_def)

interpretation mcs: mutex_try no_fuel n "mcs_LOCK k" "mcs_UNLOCK k" "mcs_inv n" mg_own "mcs_ord n" "mcs_grd n"
    "mcs_ready n" "mcs_held n" mcs_TRYLOCK k for n k
proof
  fix i a b and l :: unit
  assume a: "mcs_inv n a"
  show "mg_own (snd a) \<noteq> Some i" if "mcs_ready n i l a"
    using mcs_own_in [of n "fst a" "snd a" i] a that by (auto simp: mcs_ready_def)
  show "mcs_ready n i l b" if "mcs_ready n i l a" "mcs_ord n i a b" using that by (auto simp: mcs_ready_def mcs_ord_def)
  show "mcs_held n i l b" if "mcs_held n i l a" "mcs_ord n i a b" using that by (auto simp: mcs_held_def mcs_ord_def)
  show "mcs_safe n i (\<lambda>l' b. mcs_inv n b \<and> mcs_held n i l' b) (mcs_LOCK k i l) a" if "i < n" "mcs_ready n i l a"
    unfolding mcs_LOCK_def
    by (rule lock_op_safe [OF safe_weaken [OF mcs_lock_safe [OF that(1) a]] mcs_rely_refl(1)])
      (use that(2) in \<open>auto simp: mcs_ready_def dest: mcs_stable\<close>)
  show "mcs_safe n i (\<lambda>l' b. mcs_inv n b \<and> mcs_ready n i l' b) (mcs_UNLOCK k i l) a" if "i < n" "mcs_held n i l a"
    unfolding mcs_UNLOCK_def
    by (rule lock_op_safe [OF safe_weaken [OF mcs_unlock_safe [OF that(1) a]] mcs_rely_refl(1)])
      (use that(2) in \<open>auto simp: mcs_held_def dest: mcs_stable\<close>)
  show "mcs_safe n i (\<lambda>(ok, l') b. mcs_inv n b \<and> (if ok then mcs_held n i l' b else mcs_ready n i l' b)) (mcs_TRYLOCK i l) a"
    if "i < n" "mcs_ready n i l a"
    unfolding mcs_TRYLOCK_def
    by (rule safe_bind [OF safe_weaken [OF mcs_trylock_safe [OF that(1) a]] mcs_rely_refl(1)])
      (use that(2) in \<open>auto simp: mcs_ready_def split: if_splits dest: mcs_stable\<close>)
qed (auto simp: mcs_ord_refl mcs_grd_refl mcs_held_def mcs_grd_def no_fuel_def intro: mcs_ord_trans, auto simp: mcs_ord_def)

text \<open>
  C25: the MCS lock excludes, taken with \<open>LOCK\<close> or by repeating \<open>TRYLOCK\<close>: under every
  interleaving of any number of threads at most one is inside a critical section, and the
  critical sections take effect one after the other. The nodes of the threads may hold anything
  at the start.
\<close>

theorem mcs_lock_excludes:
  assumes "body_total no_fuel body"
  shows "linearizable (\<lambda>_. True) no_fuel (body_spec body) d quiet opss
      (\<lparr>the_lock = mcs_lock_init s, inside = [], data = d\<rparr>,
       threads (critical (mcs_LOCK k) (mcs_UNLOCK k) body) (users opss (\<lambda>_. ()))) \<and>
    linearizable (\<lambda>_. True) no_fuel (body_spec body) d quiet opss
      (\<lparr>the_lock = mcs_lock_init s, inside = [], data = d\<rparr>,
       threads (critical (spin_on k mcs_TRYLOCK) (mcs_UNLOCK k) body) (users opss (\<lambda>_. ())))"
proof -
  have start: "mcs_inv n (mcs_lock_init s, \<lparr>mg_own = None, mg_who = []\<rparr>)" for n
    by (simp add: mcs_inv_def mcs_lock_init_def)
  show ?thesis
    by (intro conjI mcs.critical_linearizable [OF order_refl assms start] mcs.spin.critical_linearizable [OF order_refl assms start])
      (simp_all add: mcs_ready_def)
qed

lemma mcs_lock_excludes_witness:
  "linearizable (\<lambda>_. True) no_fuel (body_spec bump) 5 quiet [[1], [2, 3]]
    (\<lparr>the_lock = mcs_lock_init \<lparr>mcs_next = Some 8, local_waiting = \<lambda>_. 3, local_next = \<lambda>_. Some 1\<rparr>, inside = [], data = 5\<rparr>,
     threads (critical (mcs_LOCK 9) (mcs_UNLOCK 9) bump) (users [[1], [2, 3]] (\<lambda>_. ())))"
  using mcs_lock_excludes [OF bump_total] by blast

end
