(* ===== verification/Counter_Cas.thy ===== *)
theory Counter_Cas
  imports Linear "HOL-Library.Word"
begin

text \<open>
  The reference counter of \<open>src/counter-cas\<close>: compare-and-exchange loops on an unsigned word,
  which never goes below zero. It is linearizable to a sequential counter of 64-bit words,
  wrap-around included, and its loops are lock-free.
\<close>

section \<open>counter-cas\<close>

record counter_t =
  count :: "64 word"

definition create_counter :: "counter_t" where
  "create_counter = \<lparr>count = 0\<rparr>"

fun increment_cas :: "nat \<Rightarrow> (counter_t, 64 word) prog" where
  "increment_cas 0 = Stop No_fuel"
| "increment_cas (Suc n) = load count (\<lambda>c.
     let new = c + 1 in
     cae count (\<lambda>v s. s\<lparr>count := v\<rparr>) c new (\<lambda>ok _.
       if ok then Ret new else increment_cas n))"

fun decrement_cas :: "bool \<Rightarrow> nat \<Rightarrow> (counter_t, 64 word) prog" where
  "decrement_cas validatesize 0 = Stop No_fuel"
| "decrement_cas validatesize (Suc n) = load count (\<lambda>c.
     if c = 0 then Ret 0
     else let new = c - 1 in
       cae count (\<lambda>v s. s\<lparr>count := v\<rparr>) c new (\<lambda>ok _.
         if ok then Ret (if validatesize then 1 else new) else decrement_cas validatesize n))"

definition counter_size_cas :: "(counter_t, 64 word) prog" where
  "counter_size_cas = load count Ret"

datatype counter_op = Inc | Dec | Size

text \<open>A thread's call of the interface, with the loop bound \<open>n\<close> and no thread-local state.\<close>

definition counter_cas_op :: "bool \<Rightarrow> nat \<Rightarrow> counter_op \<Rightarrow> unit \<Rightarrow> (counter_t, 64 word \<times> unit) prog" where
  "counter_cas_op validatesize n op l = bind (case op of
       Inc \<Rightarrow> increment_cas n | Dec \<Rightarrow> decrement_cas validatesize n | Size \<Rightarrow> counter_size_cas)
     (\<lambda>r. Ret (r, l))"

text \<open>The sequential counter: what each operation returns and leaves.\<close>

fun counter_spec :: "bool \<Rightarrow> (64 word, counter_op, 64 word) spec" where
  "counter_spec validatesize q Inc r = (if r = q + 1 then Some (q + 1) else None)"
| "counter_spec validatesize q Dec r =
     (if q = 0 then (if r = 0 then Some 0 else None)
      else if r = (if validatesize then 1 else q - 1) then Some (q - 1) else None)"
| "counter_spec validatesize q Size r = (if r = q then Some q else None)"

definition ccas_inv :: "bool \<Rightarrow> counter_op list list \<Rightarrow> counter_t \<times> (counter_op, 64 word) history \<Rightarrow> bool" where
  "ccas_inv v opss s \<longleftrightarrow>
     replay (counter_spec v) 0 (snd s) = Some (count (fst s)) \<and> hist_ok opss (snd s)"

lemma ccas_inv_Inc:
  "ccas_inv v opss (s, H) \<Longrightarrow> count s = c \<Longrightarrow> i < length opss \<Longrightarrow>
     prefix (map fst (proj i H) @ [Inc]) (opss ! i) \<Longrightarrow>
     ccas_inv v opss (s\<lparr>count := c + 1\<rparr>, H @ [(i, Inc, c + 1)])"
  by (simp add: ccas_inv_def hist_ok_entry)

lemma ccas_inv_Dec:
  "ccas_inv v opss (s, H) \<Longrightarrow> count s = c \<Longrightarrow> c \<noteq> 0 \<Longrightarrow> r = (if v then 1 else c - 1) \<Longrightarrow>
     i < length opss \<Longrightarrow> prefix (map fst (proj i H) @ [Dec]) (opss ! i) \<Longrightarrow>
     ccas_inv v opss (s\<lparr>count := c - 1\<rparr>, H @ [(i, Dec, r)])"
  by (simp add: ccas_inv_def hist_ok_entry)

lemma ccas_inv_Dec_zero:
  "ccas_inv v opss (s, H) \<Longrightarrow> count s = 0 \<Longrightarrow> i < length opss \<Longrightarrow>
     prefix (map fst (proj i H) @ [Dec]) (opss ! i) \<Longrightarrow> ccas_inv v opss (s, H @ [(i, Dec, 0)])"
  by (simp add: ccas_inv_def hist_ok_entry)

lemma ccas_inv_Size:
  "ccas_inv v opss (s, H) \<Longrightarrow> i < length opss \<Longrightarrow>
     prefix (map fst (proj i H) @ [Size]) (opss ! i) \<Longrightarrow> ccas_inv v opss (s, H @ [(i, Size, count s)])"
  by (simp add: ccas_inv_def hist_ok_entry)

text \<open>A compare-and-exchange fails only because another thread's operation took effect.\<close>

lemma ccas_retry:
  "enough T opss (Suc n) H \<Longrightarrow> hist_rely i H H' \<Longrightarrow> hist_rely i H' H'' \<Longrightarrow>
     ccas_inv v opss (s, H') \<Longrightarrow> ccas_inv v opss (t, H'') \<Longrightarrow> count t \<noteq> count s \<Longrightarrow> enough T opss n H''"
  by (rule enough_Suc) (auto simp: ccas_inv_def)

lemma ccas_inv_0: "enough T opss 0 H \<Longrightarrow> ccas_inv v opss (s, H) \<Longrightarrow> T No_fuel"
  by (auto simp: ccas_inv_def dest: enough_0)

lemma increment_cas_safe:
  assumes "ccas_inv v opss (s, H)" and "proj i H = P" and "prefix (map fst P @ [Inc]) (opss ! i)"
    and "i < length opss" and "enough T opss n H"
  shows "safe A T (lin_rely (ccas_inv v opss) any_order i) (lin_guar (ccas_inv v opss) any_order opss i)
    (\<lambda>r (s', H'). ccas_inv v opss (s', H') \<and> proj i H' = P @ [(Inc, r)]) (increment_cas n) (s, H)"
  using assms
proof (induction n arbitrary: s H)
  case (Suc n)
  show ?case
    unfolding increment_cas.simps Let_def
    apply (rule lin_load, rule Suc.prems(1), blast)
    subgoal for t H'
      using Suc.prems Suc.IH
      by (intro lin_cae_commit [where op = Inc and r = "count t + 1"])
        (auto intro: ccas_inv_Inc ccas_retry)
    done
qed (simp add: ccas_inv_0)

lemma decrement_cas_safe:
  assumes "ccas_inv v opss (s, H)" and "proj i H = P" and "prefix (map fst P @ [Dec]) (opss ! i)"
    and "i < length opss" and "enough T opss n H"
  shows "safe A T (lin_rely (ccas_inv v opss) any_order i) (lin_guar (ccas_inv v opss) any_order opss i)
    (\<lambda>r (s', H'). ccas_inv v opss (s', H') \<and> proj i H' = P @ [(Dec, r)]) (decrement_cas v n) (s, H)"
  using assms
proof (induction n arbitrary: s H)
  case (Suc n)
  show ?case
    unfolding decrement_cas.simps Let_def
    apply (rule lin_load_commit [where op = Dec], rule Suc.prems(1), blast, rule Suc.prems(4), simp add: Suc.prems)
    subgoal for t H'
      using Suc.prems Suc.IH
      by (cases "count t = 0", force intro: ccas_inv_Dec_zero,
          intro disjI2, simp only: if_False,
          intro lin_cae_commit [where op = Dec and r = "if v then 1 else count t - 1"])
        (auto intro: ccas_inv_Dec ccas_retry)
    done
qed (simp add: ccas_inv_0)

lemma counter_size_cas_safe:
  assumes "ccas_inv v opss (s, H)" and "proj i H = P" and "prefix (map fst P @ [Size]) (opss ! i)"
    and "i < length opss"
  shows "safe A T (lin_rely (ccas_inv v opss) any_order i) (lin_guar (ccas_inv v opss) any_order opss i)
    (\<lambda>r (s', H'). ccas_inv v opss (s', H') \<and> proj i H' = P @ [(Size, r)]) counter_size_cas (s, H)"
  unfolding counter_size_cas_def
  by (rule lin_load_commit [where op = Size], rule assms(1), blast, rule assms(4), simp add: assms)
    (use assms in \<open>auto intro: ccas_inv_Size\<close>)

interpretation ccas: lin_object A "out_of_fuel n opss" "ccas_inv v opss" any_order any_order no_local
  "counter_spec v" 0 "\<lambda>s q. q = count s" "counter_cas_op v n" opss for A v n opss
proof unfold_locales
  show "op_ok A (out_of_fuel n opss) (ccas_inv v opss) any_order any_order no_local opss i op
      (counter_cas_op v n)"
    if "i < length opss" for i op
    using that
    by (intro op_ok_stateless, simp add: counter_cas_op_def, blast)
      (cases op, auto intro: increment_cas_safe decrement_cas_safe counter_size_cas_safe)
qed (auto simp: ccas_inv_def)

text \<open>
  C7: counter-cas is linearizable: under every interleaving of any number of threads, the
  results of increments, decrements and reads are those of a sequential 64-bit counter that
  stops at zero, and the shared word is that counter's value. The loops are lock-free: a
  bound larger than the number of operations performed is never exhausted.
\<close>

theorem counter_cas_linearizable:
  "linearizable (\<lambda>_. True) (out_of_fuel n (map fst ths)) (counter_spec validatesize) 0 (\<lambda>s q. q = count s)
     (map fst ths) (create_counter, threads (counter_cas_op validatesize n) ths)"
  by (rule ccas.linearizable_threads) (auto simp: ccas_inv_def create_counter_def)

end
