(* ===== verification/Random_Gen.thy ===== *)
theory Random_Gen
  imports Prelude "HOL-Library.Word"
begin

unbundle bit_operations_syntax

text \<open>
  The random numbers of \<open>include/random.h\<close>: Marsaglia's \<open>xorshf96\<close> on three 64-bit seeds, the
  ranges drawn from it, and the \<open>random_index\<close> of the relaxed structures. The seeds are
  thread-local, so the generator is a pure function of them.

  The lemmas show that one step of the generator is a permutation of its state space (so no
  two seed states ever merge, and a thread whose seeds are not all zero never reaches the
  stuck state) and that every index it is used for is in range.
\<close>

type_synonym seeds = "64 word \<times> 64 word \<times> 64 word"

definition seed_rand :: "nat \<Rightarrow> nat \<Rightarrow> nat \<Rightarrow> seeds" where
  "seed_rand t0 t1 t2 =
     (word_of_nat (t0 mod 123456789), word_of_nat (t1 mod 362436069), word_of_nat (t2 mod 521288629))"

definition fast_rand :: "64 word \<Rightarrow> 32 word" where
  "fast_rand ticks = ucast (drop_bit 4 (ticks AND 4294967295))"

definition xorshf96 :: "seeds \<Rightarrow> 64 word \<times> seeds" where
  "xorshf96 s = (case s of (x, y, z) \<Rightarrow>
     let x = x XOR push_bit 16 x;
         x = x XOR drop_bit 5 x;
         x = x XOR push_bit 1 x;
         t = x;
         x = y;
         y = z;
         z = (t XOR x) XOR y
     in (z, (x, y, z)))"

text \<open>
  \<open>rand_range(r)\<close> and its re-entrant copy, which reads the same thread-local seeds: the
  remainder is taken in the unsigned type, the result is signed.
\<close>

definition rand_range :: "64 word \<Rightarrow> seeds \<Rightarrow> (failure + 64 word) \<times> seeds" where
  "rand_range r s = (case xorshf96 s of (n, s') \<Rightarrow>
     if r = 0 then (Inl Div_by_zero, s') else (Inr (n mod r + 1), s'))"

definition rand_range_re :: "32 word \<Rightarrow> 64 word \<Rightarrow> seeds \<Rightarrow> (failure + 64 word) \<times> seeds" where
  "rand_range_re seed r s = (case xorshf96 s of (n, s') \<Rightarrow>
     if r = 0 then (Inl Div_by_zero, s') else (Inr (n mod r + 1), s'))"

text \<open>The generator as the structures use it: the next number, as a \<open>nat\<close>.\<close>

definition my_random :: "seeds \<Rightarrow> nat \<times> seeds" where
  "my_random s = (case xorshf96 s of (n, s') \<Rightarrow> (unat n, s'))"

section \<open>The generator is a permutation\<close>

text \<open>The shifts by 16, 5 and 1 each lose no information when xored with their argument.\<close>

lemma xor_push_bit_eq_zero:
  fixes x :: "64 word"
  assumes "x XOR push_bit k x = 0" and "0 < k"
  shows "x = 0"
proof (rule bit_word_eqI)
  fix n assume "n < LENGTH(64)"
  then show "bit x n = bit 0 n"
  proof (induction n rule: less_induct)
    case (less n)
    have "bit (x XOR push_bit k x) n = bit (0 :: 64 word) n"
      using assms by simp
    then have "bit x n = (k \<le> n \<and> bit x (n - k))"
      using less.prems by (auto simp: bit_xor_iff bit_push_bit_iff)
    then show ?case using less assms(2) by fastforce
  qed
qed

lemma xor_drop_bit_eq_zero:
  fixes x :: "64 word"
  assumes "x XOR drop_bit k x = 0" and "0 < k"
  shows "x = 0"
proof (rule bit_word_eqI)
  fix n assume "n < LENGTH(64)"
  then show "bit x n = bit 0 n"
  proof (induction "64 - n" arbitrary: n rule: less_induct)
    case less
    have "bit (x XOR drop_bit k x) n = bit (0 :: 64 word) n"
      using assms by simp
    then have eq: "bit x n = bit x (k + n)"
      by (auto simp: bit_xor_iff bit_drop_bit_eq)
    show ?case
    proof (cases "k + n < 64")
      case True
      then show ?thesis using less.hyps [of "k + n"] assms(2) eq by simp
    next
      case False
      then have "\<not> bit x (k + n)" by (auto dest: bit_imp_le_length)
      then show ?thesis using eq by simp
    qed
  qed
qed

lemma xor_zero_eq:
  fixes x y :: "64 word"
  assumes "x XOR y = 0"
  shows "x = y"
proof (rule bit_word_eqI)
  fix n assume "n < LENGTH(64)"
  have "bit (x XOR y) n = bit (0 :: 64 word) n" using assms by simp
  then show "bit x n = bit y n" by (simp add: bit_xor_iff)
qed

lemma inj_xor_push_bit:
  fixes x :: "64 word"
  assumes "x XOR push_bit k x = y XOR push_bit k y" and "0 < k"
  shows "x = y"
proof -
  have "(x XOR y) XOR push_bit k (x XOR y) = (x XOR push_bit k x) XOR (y XOR push_bit k y)"
    by (rule bit_word_eqI) (auto simp: bit_xor_iff bit_push_bit_iff)
  then have "(x XOR y) XOR push_bit k (x XOR y) = 0" using assms(1) by simp
  then have "x XOR y = 0" using assms(2) by (rule xor_push_bit_eq_zero)
  then show ?thesis by (rule xor_zero_eq)
qed

lemma inj_xor_drop_bit:
  fixes x :: "64 word"
  assumes "x XOR drop_bit k x = y XOR drop_bit k y" and "0 < k"
  shows "x = y"
proof -
  have "(x XOR y) XOR drop_bit k (x XOR y) = (x XOR drop_bit k x) XOR (y XOR drop_bit k y)"
    by (rule bit_word_eqI) (auto simp: bit_xor_iff bit_drop_bit_eq)
  then have "(x XOR y) XOR drop_bit k (x XOR y) = 0" using assms(1) by simp
  then have "x XOR y = 0" using assms(2) by (rule xor_drop_bit_eq_zero)
  then show ?thesis by (rule xor_zero_eq)
qed

definition xorshift_word :: "64 word \<Rightarrow> 64 word" where
  "xorshift_word x = (let x = x XOR push_bit 16 x; x = x XOR drop_bit 5 x in x XOR push_bit 1 x)"

lemma inj_xorshift_word: "xorshift_word x = xorshift_word y \<Longrightarrow> x = y"
  unfolding xorshift_word_def Let_def
  by (rule inj_xor_push_bit [of _ 16], rule inj_xor_drop_bit [of _ 5], rule inj_xor_push_bit [of _ 1]) simp_all

lemma xorshf96_eq:
  "xorshf96 (x, y, z) = ((xorshift_word x XOR y) XOR z, (y, z, (xorshift_word x XOR y) XOR z))"
  by (simp add: xorshf96_def xorshift_word_def Let_def)

lemma xor_right_cancel: "(a XOR c) = (b XOR c) \<Longrightarrow> a = (b :: 64 word)"
proof (rule bit_word_eqI)
  fix n assume eq: "a XOR c = b XOR c"
  have "bit (a XOR c) n = bit (b XOR c) n" by (simp only: eq)
  then show "bit a n = bit b n" by (auto simp: bit_xor_iff)
qed

lemma inj_xorshf96_state: "inj (\<lambda>s. snd (xorshf96 s))"
proof (rule injI)
  fix s t :: seeds assume eq: "snd (xorshf96 s) = snd (xorshf96 t)"
  obtain x y z x' y' z' where [simp]: "s = (x, y, z)" "t = (x', y', z')"
    by (cases s, cases t)
  have yz: "y = y'" "z = z'"
    using eq by (auto simp: xorshf96_eq)
  have last: "(xorshift_word x XOR y) XOR z = (xorshift_word x' XOR y') XOR z'"
    using eq unfolding xorshf96_eq \<open>s = (x, y, z)\<close> \<open>t = (x', y', z')\<close> snd_conv prod.inject by blast
  have "xorshift_word x = xorshift_word x'"
    using last unfolding yz by (blast dest: xor_right_cancel)
  then show "s = t" using yz by (auto dest: inj_xorshift_word)
qed

lemma xorshf96_zero: "snd (xorshf96 (0, 0, 0)) = (0, 0, 0)"
  by (simp add: xorshf96_def)

section \<open>Ranges\<close>

lemma my_random_less: "fst (my_random s) < U64"
proof -
  have "unat w < U64" for w :: "64 word"
    using unsigned_less [of w, where ?'a = nat] by (simp add: U64_def)
  then show ?thesis by (simp add: my_random_def split: prod.splits)
qed

text \<open>
  C12: one step of the generator is a permutation of its seeds, with the all-zero seeds as a
  fixed point. So no two threads' seed states ever merge, and seeds that are not all zero never
  become so: the generator never gets stuck on a constant index.
\<close>

theorem xorshf96_permutation:
  "bij (\<lambda>s. snd (xorshf96 s)) \<and> (snd (xorshf96 s) = (0, 0, 0) \<longleftrightarrow> s = (0, 0, 0))"
proof -
  have "bij (\<lambda>s. snd (xorshf96 s))"
    using inj_xorshf96_state by (simp add: bij_def finite_UNIV_inj_surj)
  moreover have "snd (xorshf96 s) = (0, 0, 0) \<longleftrightarrow> s = (0, 0, 0)"
    using injD [OF inj_xorshf96_state, of s "(0, 0, 0)"] xorshf96_zero by auto
  ultimately show ?thesis by blast
qed

text \<open>
  C13: \<open>rand_range\<close> and \<open>rand_range_re\<close> of a range that is not zero yield a number from 1 to
  the range, and of zero they divide by zero.
\<close>

theorem rand_range_bounds:
  assumes "r \<noteq> 0"
  shows "(\<exists>v s'. rand_range r s = (Inr v, s') \<and> 1 \<le> unat v \<and> unat v \<le> unat r) \<and>
    rand_range_re seed r s = rand_range r s \<and> fst (rand_range 0 s) = Inl Div_by_zero"
proof -
  obtain n s' where x: "xorshf96 s = (n, s')" by (cases "xorshf96 s")
  have pos: "0 < unat r" using assms by (simp add: unat_gt_0)
  have "unat (n mod r) < unat r" using pos by (simp add: unat_mod)
  moreover have "unat (n mod r + 1) = unat (n mod r) + 1"
    using calculation unsigned_less [of r, where ?'a = nat] by (simp add: unat_word_ariths)
  ultimately show ?thesis
    using assms x by (cases s') (auto simp: rand_range_def rand_range_re_def)
qed

lemma rand_range_bounds_witness:
  "\<exists>v s'. rand_range 6 (1, 2, 3) = (Inr v, s') \<and> 1 \<le> unat v \<and> unat v \<le> 6"
  using rand_range_bounds [of 6 "(1, 2, 3)" 0] by simp

end
