(* ===== verification/Thread.thy ===== *)
theory Thread
  imports Random_Gen Conc
begin

text \<open>
  The thread-local variables every structure declares (\<open>seeds\<close>, \<open>thread_index\<close> and the
  \<open>my_*\<close> statistics) as a record that the operations take and return. The statistics are
  unsigned longs. \<open>random_index\<close> draws an index below the width of a structure, and a width of
  zero is a division by zero.
\<close>

record thread =
  seeds :: seeds
  thread_index :: nat
  my_put_cas_fail_count :: nat
  my_get_cas_fail_count :: nat
  my_null_count :: nat
  my_hop_count :: nat
  my_slide_count :: nat

definition count_put_fail :: "'z thread_scheme \<Rightarrow> 'z thread_scheme" where
  "count_put_fail l = l\<lparr>my_put_cas_fail_count := add64 (my_put_cas_fail_count l) 1\<rparr>"

definition count_get_fail :: "'z thread_scheme \<Rightarrow> 'z thread_scheme" where
  "count_get_fail l = l\<lparr>my_get_cas_fail_count := add64 (my_get_cas_fail_count l) 1\<rparr>"

definition count_null :: "'z thread_scheme \<Rightarrow> 'z thread_scheme" where
  "count_null l = l\<lparr>my_null_count := add64 (my_null_count l) 1\<rparr>"

definition count_hop :: "'z thread_scheme \<Rightarrow> 'z thread_scheme" where
  "count_hop l = l\<lparr>my_hop_count := add64 (my_hop_count l) 1\<rparr>"

definition count_slide :: "'z thread_scheme \<Rightarrow> 'z thread_scheme" where
  "count_slide l = l\<lparr>my_slide_count := add64 (my_slide_count l) 1\<rparr>"

lemma count_simps [simp]:
  "seeds (count_put_fail l) = seeds l" "thread_index (count_put_fail l) = thread_index l"
  "seeds (count_get_fail l) = seeds l" "thread_index (count_get_fail l) = thread_index l"
  "seeds (count_null l) = seeds l" "thread_index (count_null l) = thread_index l"
  "seeds (count_hop l) = seeds l" "thread_index (count_hop l) = thread_index l"
  "seeds (count_slide l) = seeds l" "thread_index (count_slide l) = thread_index l"
  by (simp_all add: count_put_fail_def count_get_fail_def count_null_def count_hop_def count_slide_def)

lemma count_more_simps [simp]:
  "thread.more (count_put_fail l) = thread.more l" "thread.more (count_get_fail l) = thread.more l"
  "thread.more (count_null l) = thread.more l" "thread.more (count_hop l) = thread.more l"
  "thread.more (count_slide l) = thread.more l"
  by (simp_all add: count_put_fail_def count_get_fail_def count_null_def count_hop_def count_slide_def)

definition new_thread :: "seeds \<Rightarrow> thread" where
  "new_thread s = \<lparr>seeds = s, thread_index = 0, my_put_cas_fail_count = 0,
     my_get_cas_fail_count = 0, my_null_count = 0, my_hop_count = 0, my_slide_count = 0\<rparr>"

text \<open>
  \<open>my_random(...) % width\<close> with the seeds it leaves behind, the index continued with.
\<close>

definition draw :: "nat \<Rightarrow> 'z thread_scheme \<Rightarrow> (nat \<Rightarrow> 'z thread_scheme \<Rightarrow> ('s, 'a) prog) \<Rightarrow> ('s, 'a) prog" where
  "draw width l k = (case my_random (seeds l) of (n, s') \<Rightarrow>
     if width = 0 then Stop Div_by_zero else k (n mod width) (l\<lparr>seeds := s'\<rparr>))"

text \<open>The index drawn is in range, whatever the seeds are.\<close>

lemma draw_cases:
  assumes "0 < width"
    and "\<And>j s'. j < width \<Longrightarrow> P (k j (l\<lparr>seeds := s'\<rparr>))"
  shows "P (draw width l k)"
  using assms by (auto simp: draw_def split: prod.splits)

end
