(* ===== verification/Counter_Single.thy ===== *)
theory Counter_Single
  imports Linear Thread
begin

text \<open>
  The two counters on one signed 64-bit atomic: \<open>src/single-cas\<close>, whose operations retry a
  weak compare-and-exchange, and \<open>src/single-faa\<close>, whose operations are one fetch-and-add.
  The shared state is the word itself, read as a two's complement number. Decrement goes
  below zero, and it returns the new value in the first and the old value in the second.
\<close>

section \<open>single-cas\<close>

text \<open>\<open>create\<close>: with no memory, the code still stores through the null pointer.\<close>

definition create_single :: "bool \<Rightarrow> failure + 64 word" where
  "create_single malloc_ok = (if malloc_ok then Inr 0 else Inl Bad_pointer)"

definition cax :: "bool \<Rightarrow> 64 word \<Rightarrow> 64 word \<Rightarrow> (bool \<Rightarrow> 64 word \<Rightarrow> (64 word, 'a) prog) \<Rightarrow> (64 word, 'a) prog" where
  "cax spurious old new k = cae_weak spurious (\<lambda>s. s) (\<lambda>v s. v) old new k"

text \<open>\<open>sp m\<close>: the attempt made with \<open>m\<close> iterations left fails spuriously.\<close>

fun inc_cas_loop :: "(nat \<Rightarrow> bool) \<Rightarrow> nat \<Rightarrow> 64 word \<Rightarrow> thread \<Rightarrow> (64 word, 64 word \<times> thread) prog" where
  "inc_cas_loop sp 0 oldValue l = Stop No_fuel"
| "inc_cas_loop sp (Suc n) oldValue l = cax (sp n) oldValue (oldValue + 1) (\<lambda>ok v.
     if ok then Ret (oldValue, l) else inc_cas_loop sp n v (count_put_fail l))"

definition inc_cas :: "(nat \<Rightarrow> bool) \<Rightarrow> nat \<Rightarrow> thread \<Rightarrow> (64 word, 64 word \<times> thread) prog" where
  "inc_cas sp n l = load (\<lambda>s. s) (\<lambda>oldValue. inc_cas_loop sp n oldValue l)"

fun dec_cas_loop :: "(nat \<Rightarrow> bool) \<Rightarrow> nat \<Rightarrow> 64 word \<Rightarrow> thread \<Rightarrow> (64 word, 64 word \<times> thread) prog" where
  "dec_cas_loop sp 0 oldValue l = Stop No_fuel"
| "dec_cas_loop sp (Suc n) oldValue l = cax (sp n) oldValue (oldValue - 1) (\<lambda>ok v.
     if ok then Ret (oldValue - 1, l) else dec_cas_loop sp n v (count_get_fail l))"

definition dec_cas :: "(nat \<Rightarrow> bool) \<Rightarrow> nat \<Rightarrow> thread \<Rightarrow> (64 word, 64 word \<times> thread) prog" where
  "dec_cas sp n l = load (\<lambda>s. s) (\<lambda>oldValue. dec_cas_loop sp n oldValue l)"

definition read_cas :: "bool \<Rightarrow> thread \<Rightarrow> (64 word, 64 word \<times> thread) prog" where
  "read_cas ptr_null l = (if \<not> ptr_null then load (\<lambda>s. s) (\<lambda>v. Ret (v, l)) else Ret (0, l))"

datatype single_op = Increment | Decrement | Read

fun single_cas_op :: "(nat \<Rightarrow> bool) \<Rightarrow> nat \<Rightarrow> single_op \<Rightarrow> thread \<Rightarrow> (64 word, 64 word \<times> thread) prog" where
  "single_cas_op sp n Increment l = inc_cas sp n l"
| "single_cas_op sp n Decrement l = dec_cas sp n l"
| "single_cas_op sp n Read l = read_cas False l"

fun single_cas_spec :: "(64 word, single_op, 64 word) spec" where
  "single_cas_spec q Increment r = (if r = q then Some (q + 1) else None)"
| "single_cas_spec q Decrement r = (if r = q - 1 then Some (q - 1) else None)"
| "single_cas_spec q Read r = (if r = q then Some q else None)"

section \<open>single-faa\<close>

definition inc_faa :: "thread \<Rightarrow> (64 word, 64 word \<times> thread) prog" where
  "inc_faa l = fetch_op (\<lambda>s. s) (\<lambda>v s. v) (\<lambda>v. v + 1) (\<lambda>old. Ret (old, l))"

definition dec_faa :: "thread \<Rightarrow> (64 word, 64 word \<times> thread) prog" where
  "dec_faa l = fetch_op (\<lambda>s. s) (\<lambda>v s. v) (\<lambda>v. v + (- 1)) (\<lambda>old. Ret (old, l))"

definition read_faa :: "bool \<Rightarrow> thread \<Rightarrow> (64 word, 64 word \<times> thread) prog" where
  "read_faa ptr_null l = (if \<not> ptr_null then load (\<lambda>s. s) (\<lambda>v. Ret (v, l)) else Ret (0, l))"

fun single_faa_op :: "single_op \<Rightarrow> thread \<Rightarrow> (64 word, 64 word \<times> thread) prog" where
  "single_faa_op Increment l = inc_faa l"
| "single_faa_op Decrement l = dec_faa l"
| "single_faa_op Read l = read_faa False l"

fun single_faa_spec :: "(64 word, single_op, 64 word) spec" where
  "single_faa_spec q Increment r = (if r = q then Some (q + 1) else None)"
| "single_faa_spec q Decrement r = (if r = q then Some (q - 1) else None)"
| "single_faa_spec q Read r = (if r = q then Some q else None)"

section \<open>Linearizability\<close>

definition single_inv :: "(64 word, single_op, 64 word) spec \<Rightarrow> single_op list list \<Rightarrow>
    64 word \<times> (single_op, 64 word) history \<Rightarrow> bool" where
  "single_inv spec opss s \<longleftrightarrow> replay spec 0 (snd s) = Some (fst s) \<and> hist_ok opss (snd s)"

lemma single_inv_entry:
  "single_inv spec opss (s, H) \<Longrightarrow> spec s op r = Some s' \<Longrightarrow> i < length opss \<Longrightarrow>
     prefix (map fst (proj i H) @ [op]) (opss ! i) \<Longrightarrow> single_inv spec opss (s', H @ [(i, op, r)])"
  by (simp add: single_inv_def hist_ok_entry)

text \<open>The tolerated failure: a loop bound too small, or one spent on spurious failures.\<close>

definition weak_fuel :: "(nat \<Rightarrow> bool) \<Rightarrow> nat \<Rightarrow> single_op list list \<Rightarrow> failure \<Rightarrow> bool" where
  "weak_fuel sp n opss e \<longleftrightarrow> e = No_fuel \<and> (n \<le> total_ops opss \<or> (\<exists>m. sp m))"

lemma enough_weak_fuel [simp]: "enough (weak_fuel sp n opss) opss n H"
  by (auto simp: enough_def weak_fuel_def)

lemma single_retry:
  "enough T opss (Suc n) K \<Longrightarrow> hist_rely i K H \<Longrightarrow> hist_rely i H H' \<Longrightarrow> single_inv spec opss (old, K) \<Longrightarrow>
     single_inv spec opss (t, H') \<Longrightarrow> t \<noteq> old \<Longrightarrow> enough T opss n H'"
  by (rule enough_Suc [OF _ hist_rely_refl hist_rely_trans]) (auto simp: single_inv_def)

text \<open>
  The loops: \<open>old\<close> was read when the history was \<open>K\<close>, so an exchange that does not fail
  spuriously fails only if the history has grown since.
\<close>

lemma inc_cas_loop_safe:
  assumes "single_inv single_cas_spec opss (s, H)" and "single_inv single_cas_spec opss (old, K)"
    and "hist_rely i K H" and "proj i H = P" and "prefix (map fst P @ [Increment]) (opss ! i)"
    and "i < length opss" and "enough T opss n K" and "\<exists>m. sp m \<Longrightarrow> T No_fuel"
  shows "safe A T (lin_rely (single_inv single_cas_spec opss) any_order i)
    (lin_guar (single_inv single_cas_spec opss) any_order opss i)
    (\<lambda>(r, l') (s', H'). single_inv single_cas_spec opss (s', H') \<and> no_local i l' s' \<and>
       proj i H' = P @ [(Increment, r)]) (inc_cas_loop sp n old l) (s, H)"
  using assms
proof (induction n arbitrary: s H K old l)
  case (Suc n)
  show ?case
  proof (cases "sp n")
    case True
    then have "T No_fuel" using Suc.prems by blast
    then show ?thesis
      unfolding inc_cas_loop.simps cax_def cae_weak_def if_P [OF True]
      by (intro lin_load, blast intro: Suc.prems) (use Suc.prems Suc.IH in \<open>auto simp: enough_def\<close>)
  next
    case False
    show ?thesis
      unfolding inc_cas_loop.simps cax_def cae_weak_def if_not_P [OF False]
      apply (rule lin_cae_commit [where op = Increment and r = "old"])
             prefer 8
      subgoal for t H'
        using Suc.prems by simp (rule Suc.IH [of t H' t H'], auto intro: single_retry)
      using Suc.prems by (auto intro: single_inv_entry)
  qed
qed (auto simp: single_inv_def dest: enough_0)

lemma dec_cas_loop_safe:
  assumes "single_inv single_cas_spec opss (s, H)" and "single_inv single_cas_spec opss (old, K)"
    and "hist_rely i K H" and "proj i H = P" and "prefix (map fst P @ [Decrement]) (opss ! i)"
    and "i < length opss" and "enough T opss n K" and "\<exists>m. sp m \<Longrightarrow> T No_fuel"
  shows "safe A T (lin_rely (single_inv single_cas_spec opss) any_order i)
    (lin_guar (single_inv single_cas_spec opss) any_order opss i)
    (\<lambda>(r, l') (s', H'). single_inv single_cas_spec opss (s', H') \<and> no_local i l' s' \<and>
       proj i H' = P @ [(Decrement, r)]) (dec_cas_loop sp n old l) (s, H)"
  using assms
proof (induction n arbitrary: s H K old l)
  case (Suc n)
  show ?case
  proof (cases "sp n")
    case True
    then have "T No_fuel" using Suc.prems by blast
    then show ?thesis
      unfolding dec_cas_loop.simps cax_def cae_weak_def if_P [OF True]
      by (intro lin_load, blast intro: Suc.prems) (use Suc.prems Suc.IH in \<open>auto simp: enough_def\<close>)
  next
    case False
    show ?thesis
      unfolding dec_cas_loop.simps cax_def cae_weak_def if_not_P [OF False]
      apply (rule lin_cae_commit [where op = Decrement and r = "old - 1"])
             prefer 8
      subgoal for t H'
        using Suc.prems by simp (rule Suc.IH [of t H' t H'], auto intro: single_retry)
      using Suc.prems by (auto intro: single_inv_entry)
  qed
qed (auto simp: single_inv_def dest: enough_0)

lemma single_cas_op_ok:
  assumes "i < length opss" and "enough T opss n []" and "\<exists>m. sp m \<Longrightarrow> T No_fuel"
  shows "op_ok A T (single_inv single_cas_spec opss) any_order any_order no_local opss i op (single_cas_op sp n)"
proof (rule op_okI)
  fix l s H P
  assume J: "single_inv single_cas_spec opss (s, H)" "proj i H = P" "prefix (map fst P @ [op]) (opss ! i)"
  have fuel: "enough T opss n H'" for H' :: "(single_op, 64 word) history"
    using assms(2) by (auto simp: enough_def)
  show "safe A T (lin_rely (single_inv single_cas_spec opss) any_order i)
      (lin_guar (single_inv single_cas_spec opss) any_order opss i)
      (\<lambda>(r, l') (s', H'). single_inv single_cas_spec opss (s', H') \<and> no_local i l' s' \<and>
         proj i H' = P @ [(op, r)]) (single_cas_op sp n op l) (s, H)"
  proof (cases op)
    case Increment
    show ?thesis
      unfolding Increment single_cas_op.simps inc_cas_def
      apply (rule lin_load, rule J, blast)
      subgoal for t H'
        by (rule inc_cas_loop_safe [where K = H']) (use J Increment assms fuel in auto)
      done
  next
    case Decrement
    show ?thesis
      unfolding Decrement single_cas_op.simps dec_cas_def
      apply (rule lin_load, rule J, blast)
      subgoal for t H'
        by (rule dec_cas_loop_safe [where K = H']) (use J Decrement assms fuel in auto)
      done
  next
    case Read
    show ?thesis
      unfolding Read single_cas_op.simps read_cas_def
      by (simp, rule lin_load_return [where op = Read and r = "\<lambda>v. v"], rule J, blast, rule assms)
        (use J Read assms in \<open>auto intro: single_inv_entry\<close>)
  qed
qed

lemma single_faa_op_ok:
  assumes "i < length opss"
  shows "op_ok A T (single_inv single_faa_spec opss) any_order any_order no_local opss i op single_faa_op"
proof (rule op_okI)
  fix l s H P
  assume J: "single_inv single_faa_spec opss (s, H)" "proj i H = P" "prefix (map fst P @ [op]) (opss ! i)"
  show "safe A T (lin_rely (single_inv single_faa_spec opss) any_order i)
      (lin_guar (single_inv single_faa_spec opss) any_order opss i)
      (\<lambda>(r, l') (s', H'). single_inv single_faa_spec opss (s', H') \<and> no_local i l' s' \<and>
         proj i H' = P @ [(op, r)]) (single_faa_op op l) (s, H)"
  proof (cases op)
    case Increment
    show ?thesis
      unfolding Increment single_faa_op.simps inc_faa_def
      by (rule lin_fetch_op_return [where op = Increment and r = "\<lambda>v. v"], rule J)
        (use J Increment assms in \<open>auto intro: single_inv_entry\<close>)
  next
    case Decrement
    show ?thesis
      unfolding Decrement single_faa_op.simps dec_faa_def
      by (rule lin_fetch_op_return [where op = Decrement and r = "\<lambda>v. v"], rule J)
        (use J Decrement assms in \<open>auto intro: single_inv_entry\<close>)
  next
    case Read
    show ?thesis
      unfolding Read single_faa_op.simps read_faa_def
      by (simp, rule lin_load_return [where op = Read and r = "\<lambda>v. v"], rule J, blast, rule assms)
        (use J Read assms in \<open>auto intro: single_inv_entry\<close>)
  qed
qed

interpretation scas: lin_object A "weak_fuel sp n opss" "single_inv single_cas_spec opss" any_order any_order
  no_local single_cas_spec 0 "\<lambda>s q. q = s" "single_cas_op sp n" opss for A sp n opss
proof unfold_locales
  show "op_ok A (weak_fuel sp n opss) (single_inv single_cas_spec opss) any_order any_order no_local opss i op
      (single_cas_op sp n)" if "i < length opss" for i op
    by (rule single_cas_op_ok [OF that]) (auto simp: weak_fuel_def)
qed (auto simp: single_inv_def)

interpretation sfaa: lin_object A "\<lambda>_. False" "single_inv single_faa_spec opss" any_order any_order
  no_local single_faa_spec 0 "\<lambda>s q. q = s" single_faa_op opss for A opss
  by unfold_locales (auto simp: single_inv_def intro: single_faa_op_ok)


text \<open>
  C9: single-faa is linearizable to a signed 64-bit counter that wraps around, where both
  operations return the value before them, and no operation ever fails or loops.
\<close>

theorem single_faa_linearizable:
  "linearizable (\<lambda>_. True) (\<lambda>_. False) single_faa_spec 0 (\<lambda>s q. q = s) (map fst ths)
     (0, threads single_faa_op ths)"
  by (rule sfaa.linearizable_threads) (auto simp: single_inv_def)

end
