(* ===== verification/Counter_Multi.thy ===== *)
theory Counter_Multi
  imports Linear Thread
begin

text \<open>
  The counters spread over an array of sub-counters, from \<open>src/multi-counter-faa_random-relaxed\<close>
  (a fetch-and-add on a random sub-counter) and \<open>src/multi-counter_random-relaxed\<close> (a
  compare-and-exchange on the least, or for a decrement the greatest, of \<open>NUM_CHOICES\<close> random
  ones; without \<open>NUM_CHOICES\<close> a compare-and-swap on one random sub-counter).

  The shared state is the array; its width never changes and is an argument. The response of
  an operation is what it returns together with the \<open>thread_index\<close> it leaves, so that the
  sequential specification can say which sub-counter was changed.
\<close>

record index_t =
  count :: "64 word"
  version :: "64 word"

definition create_counter_multi :: "nat \<Rightarrow> index_t list" where
  "create_counter_multi width = replicate width \<lparr>count = 0, version = 0\<rparr>"

definition random_index_mc :: "nat \<Rightarrow> thread \<Rightarrow> (nat \<Rightarrow> thread \<Rightarrow> ('s, 'a) prog) \<Rightarrow> ('s, 'a) prog" where
  "random_index_mc width l k = draw width l k"

definition get_count :: "nat \<Rightarrow> index_t list \<Rightarrow> 64 word" where
  "get_count j s = count (s ! j)"

definition set_count :: "nat \<Rightarrow> 64 word \<Rightarrow> index_t list \<Rightarrow> index_t list" where
  "set_count j v s = s[j := (s ! j)\<lparr>count := v\<rparr>]"

definition in_array :: "nat \<Rightarrow> index_t list \<Rightarrow> bool" where
  "in_array j s \<longleftrightarrow> j < length s"

text \<open>\<open>counter_size\<close>: a loop over the array, one load at a time.\<close>

fun counter_size_loop :: "nat \<Rightarrow> nat \<Rightarrow> 64 word \<Rightarrow> (index_t list, 64 word) prog" where
  "counter_size_loop 0 i sz = Ret sz"
| "counter_size_loop (Suc r) i sz =
     checked (in_array i) (load (get_count i) (\<lambda>c. counter_size_loop r (i + 1) (sz + c)))"

definition counter_size_multi :: "nat \<Rightarrow> (index_t list, 64 word) prog" where
  "counter_size_multi width = counter_size_loop width 0 0"

section \<open>multi-counter-faa\<close>

definition increment_mfaa :: "nat \<Rightarrow> thread \<Rightarrow> (index_t list, 64 word \<times> thread) prog" where
  "increment_mfaa width l = random_index_mc width l (\<lambda>j l.
     let l = l\<lparr>thread_index := j\<rparr> in
     checked (in_array j) (fetch_op (get_count j) (set_count j) (\<lambda>c. c + 1) (\<lambda>_. Ret (1, l))))"

definition decrement_mfaa :: "nat \<Rightarrow> thread \<Rightarrow> (index_t list, 64 word \<times> thread) prog" where
  "decrement_mfaa width l = random_index_mc width l (\<lambda>j l.
     let l = l\<lparr>thread_index := j\<rparr> in
     checked (in_array j) (fetch_op (get_count j) (set_count j) (\<lambda>c. c - 1) (\<lambda>_. Ret (1, l))))"

section \<open>multi-counter_random-relaxed\<close>

definition load_descriptor :: "nat \<Rightarrow> (index_t \<Rightarrow> (index_t list, 'a) prog) \<Rightarrow> (index_t list, 'a) prog" where
  "load_descriptor j k =
     checked (in_array j) (load (\<lambda>s. version (s ! j)) (\<lambda>v.
     checked (in_array j) (load (get_count j) (\<lambda>c. k \<lparr>count = c, version = v\<rparr>))))"

fun increment_choices :: "nat \<Rightarrow> nat \<Rightarrow> index_t \<Rightarrow> thread \<Rightarrow>
    (index_t \<Rightarrow> thread \<Rightarrow> (index_t list, 'a) prog) \<Rightarrow> (index_t list, 'a) prog" where
  "increment_choices width 0 descriptor l k = k descriptor l"
| "increment_choices width (Suc m) descriptor l k =
     random_index_mc width l (\<lambda>index2 l. load_descriptor index2 (\<lambda>descriptor2.
       if count descriptor2 <s count descriptor
       then increment_choices width m descriptor2 (l\<lparr>thread_index := index2\<rparr>) k
       else increment_choices width m descriptor l k))"

text \<open>The first descriptor's count is loaded twice, as in the source.\<close>

definition get_increment_index :: "nat \<Rightarrow> nat \<Rightarrow> thread \<Rightarrow>
    (index_t \<Rightarrow> thread \<Rightarrow> (index_t list, 'a) prog) \<Rightarrow> (index_t list, 'a) prog" where
  "get_increment_index width num_choices l k = random_index_mc width l (\<lambda>j l.
     let l = l\<lparr>thread_index := j\<rparr> in
     load_descriptor j (\<lambda>d. checked (in_array j) (load (get_count j) (\<lambda>c.
       increment_choices width (num_choices - 1) (d\<lparr>count := c\<rparr>) l k))))"

fun decrement_choices :: "nat \<Rightarrow> nat \<Rightarrow> index_t \<Rightarrow> thread \<Rightarrow>
    (index_t \<Rightarrow> thread \<Rightarrow> (index_t list, 'a) prog) \<Rightarrow> (index_t list, 'a) prog" where
  "decrement_choices width 0 descriptor l k = k descriptor l"
| "decrement_choices width (Suc m) descriptor l k =
     random_index_mc width l (\<lambda>index2 l. load_descriptor index2 (\<lambda>descriptor2.
       if count descriptor <s count descriptor2
       then decrement_choices width m descriptor2 (l\<lparr>thread_index := index2\<rparr>) k
       else decrement_choices width m descriptor l k))"

definition get_decrement_index :: "nat \<Rightarrow> nat \<Rightarrow> thread \<Rightarrow>
    (index_t \<Rightarrow> thread \<Rightarrow> (index_t list, 'a) prog) \<Rightarrow> (index_t list, 'a) prog" where
  "get_decrement_index width num_choices l k = random_index_mc width l (\<lambda>j l.
     let l = l\<lparr>thread_index := j\<rparr> in
     load_descriptor j (\<lambda>d. decrement_choices width (num_choices - 1) d l k))"

fun increment_mc :: "nat \<Rightarrow> nat option \<Rightarrow> nat \<Rightarrow> thread \<Rightarrow> (index_t list, 64 word \<times> thread) prog" where
  "increment_mc width choices 0 l = Stop No_fuel"
| "increment_mc width (Some num_choices) (Suc n) l =
     get_increment_index width num_choices l (\<lambda>d l.
       let j = thread_index l; new = \<lparr>count = count d + 1, version = version d + 1\<rparr> in
       checked (in_array j) (cae (\<lambda>s. s ! j) (\<lambda>v s. s[j := v]) d new (\<lambda>ok _.
         if ok then Ret (count new * word_of_nat width, l)
         else increment_mc width (Some num_choices) n (count_put_fail l))))"
| "increment_mc width None (Suc n) l =
     random_index_mc width l (\<lambda>j l.
       let l = l\<lparr>thread_index := j\<rparr> in
       checked (in_array j) (load (get_count j) (\<lambda>c.
       checked (in_array j) (cas (get_count j) (set_count j) c (c + 1) (\<lambda>ok.
         if ok then Ret ((c + 1) * word_of_nat width, l)
         else increment_mc width None n (count_put_fail l))))))"

fun decrement_mc :: "bool \<Rightarrow> nat \<Rightarrow> nat option \<Rightarrow> nat \<Rightarrow> thread \<Rightarrow> (index_t list, 64 word \<times> thread) prog" where
  "decrement_mc validatesize width choices 0 l = Stop No_fuel"
| "decrement_mc validatesize width (Some num_choices) (Suc n) l =
     get_decrement_index width num_choices l (\<lambda>d l.
       if count d = 0 then Ret (0, count_null l)
       else let j = thread_index l; new = \<lparr>count = count d - 1, version = version d + 1\<rparr> in
         checked (in_array j) (cae (\<lambda>s. s ! j) (\<lambda>v s. s[j := v]) d new (\<lambda>ok _.
           if ok then Ret (if validatesize then 1 else count new * word_of_nat width, l)
           else decrement_mc validatesize width (Some num_choices) n (count_get_fail l))))"
| "decrement_mc validatesize width None (Suc n) l =
     random_index_mc width l (\<lambda>j l.
       let l = l\<lparr>thread_index := j\<rparr> in
       checked (in_array j) (load (get_count j) (\<lambda>c.
       if c \<noteq> 0 then
         checked (in_array j) (cas (get_count j) (set_count j) c (c - 1) (\<lambda>ok.
           if ok then Ret (if validatesize then 1 else (c - 1) * word_of_nat width, l)
           else decrement_mc validatesize width None n (count_get_fail l)))
       else Ret (0, count_null l))))"

section \<open>Specifications\<close>

datatype multi_op = MInc | MDec

text \<open>The operations with the index they used in their response.\<close>

definition with_index :: "('s, 64 word \<times> thread) prog \<Rightarrow> ('s, (64 word \<times> nat) \<times> thread) prog" where
  "with_index p = bind p (\<lambda>(r, l). Ret ((r, thread_index l), l))"

fun mfaa_op :: "nat \<Rightarrow> multi_op \<Rightarrow> thread \<Rightarrow> (index_t list, (64 word \<times> nat) \<times> thread) prog" where
  "mfaa_op width MInc l = with_index (increment_mfaa width l)"
| "mfaa_op width MDec l = with_index (decrement_mfaa width l)"

fun mfaa_spec :: "(index_t list, multi_op, 64 word \<times> nat) spec" where
  "mfaa_spec q MInc (r, j) =
     (if r = 1 \<and> j < length q then Some (set_count j (get_count j q + 1) q) else None)"
| "mfaa_spec q MDec (r, j) =
     (if r = 1 \<and> j < length q then Some (set_count j (get_count j q - 1) q) else None)"

fun mc_op :: "bool \<Rightarrow> nat \<Rightarrow> nat option \<Rightarrow> nat \<Rightarrow> multi_op \<Rightarrow> thread \<Rightarrow>
    (index_t list, (64 word \<times> nat) \<times> thread) prog" where
  "mc_op validatesize width choices n MInc l = with_index (increment_mc width choices n l)"
| "mc_op validatesize width choices n MDec l = with_index (decrement_mc validatesize width choices n l)"

text \<open>What an exchange writes: the version counts the changes, but only with \<open>NUM_CHOICES\<close>.\<close>

definition bump :: "nat option \<Rightarrow> 64 word \<Rightarrow> nat \<Rightarrow> index_t list \<Rightarrow> index_t list" where
  "bump choices c j q = (case choices of
     None \<Rightarrow> set_count j c q
   | Some _ \<Rightarrow> q[j := \<lparr>count = c, version = version (q ! j) + 1\<rparr>])"

fun mc_spec :: "nat \<Rightarrow> nat option \<Rightarrow> (index_t list, multi_op, 64 word \<times> nat) spec" where
  "mc_spec width choices q MInc (r, j) =
     (if j < length q \<and> r = (get_count j q + 1) * word_of_nat width
      then Some (bump choices (get_count j q + 1) j q) else None)"
| "mc_spec width choices q MDec (r, j) =
     (if r = 0 then (if 0 \<in> count ` set q then Some q else None)
      else if r = 1 \<and> j < length q \<and> get_count j q \<noteq> 0
      then Some (bump choices (get_count j q - 1) j q) else None)"

text \<open>The total over the array, and how many entries of a history changed it.\<close>

definition total_count :: "index_t list \<Rightarrow> 64 word" where
  "total_count s = sum_list (map count s)"

definition net_change :: "(multi_op, 64 word \<times> nat) history \<Rightarrow> 64 word" where
  "net_change H = sum_list (map (\<lambda>(i, op, r, j).
     case op of MInc \<Rightarrow> 1 | MDec \<Rightarrow> if r = 0 then 0 else - 1) H)"

lemma sum_list_update_word:
  fixes xs :: "'a :: len word list"
  shows "j < length xs \<Longrightarrow> sum_list (xs[j := x]) = sum_list xs + (x - xs ! j)"
  by (induction xs arbitrary: j) (auto split: nat.splits)

lemma total_count_update:
  "j < length s \<Longrightarrow> count x = count (s ! j) + d \<Longrightarrow> total_count (s[j := x]) = total_count s + d"
  by (simp add: total_count_def map_update sum_list_update_word)

lemma mfaa_spec_total:
  "mfaa_spec q op r = Some q' \<Longrightarrow> total_count q' = total_count q + net_change [(i, op, r)]"
  by (cases op; cases r)
    (auto simp: net_change_def set_count_def get_count_def total_count_update split: if_splits)

lemma mc_spec_total:
  "mc_spec width choices q op r = Some q' \<Longrightarrow> total_count q' = total_count q + net_change [(i, op, r)]"
  by (cases op; cases r; cases choices)
    (auto simp: net_change_def bump_def set_count_def get_count_def total_count_update split: if_splits)

lemma net_change_Nil [simp]: "net_change [] = 0"
  by (simp add: net_change_def)

lemma net_change_append [simp]: "net_change (H @ H') = net_change H + net_change H'"
  by (simp add: net_change_def)

lemma replay_total:
  assumes "\<And>q op r q' i. spec q op r = Some q' \<Longrightarrow> total_count q' = total_count q + net_change [(i, op, r)]"
  shows "replay spec q H = Some q' \<Longrightarrow> total_count q' = total_count q + net_change H"
proof (induction H arbitrary: q)
  case (Cons e H)
  obtain i op r where e: "e = (i, op, r)" by (cases e)
  obtain q1 where q1: "spec q op r = Some q1" "replay spec q1 H = Some q'"
    using Cons.prems e by (auto split: option.splits)
  have "net_change (e # H) = net_change [(i, op, r)] + net_change H"
    using net_change_append [of "[e]" H] by (simp add: e)
  then show ?case using Cons.IH [OF q1(2)] assms [OF q1(1), of i] by simp
qed simp

lemma mfaa_spec_length: "mfaa_spec q op r = Some q' \<Longrightarrow> length q' = length q"
  by (cases op; cases r) (auto simp: set_count_def split: if_splits)

lemma mc_spec_length: "mc_spec width choices q op r = Some q' \<Longrightarrow> length q' = length q"
  by (cases op; cases r; cases choices) (auto simp: set_count_def bump_def split: if_splits)

lemma replay_length:
  assumes "\<And>q op r q'. spec q op r = Some q' \<Longrightarrow> length q' = length q"
  shows "replay spec q H = Some q' \<Longrightarrow> length q' = length q"
  by (induction H arbitrary: q) (auto split: option.splits dest: assms)

section \<open>multi-counter-faa is linearizable\<close>

definition multi_inv :: "(index_t list, multi_op, 64 word \<times> nat) spec \<Rightarrow> nat \<Rightarrow> multi_op list list \<Rightarrow>
    index_t list \<times> (multi_op, 64 word \<times> nat) history \<Rightarrow> bool" where
  "multi_inv spec width opss s \<longleftrightarrow> length (fst s) = width \<and>
     replay spec (create_counter_multi width) (snd s) = Some (fst s) \<and> hist_ok opss (snd s)"

lemma multi_inv_entry:
  "multi_inv spec width opss (s, H) \<Longrightarrow> spec s op r = Some s' \<Longrightarrow> length s' = length s \<Longrightarrow> i < length opss \<Longrightarrow>
     prefix (map fst (proj i H) @ [op]) (opss ! i) \<Longrightarrow> multi_inv spec width opss (s', H @ [(i, op, r)])"
  by (simp add: multi_inv_def hist_ok_entry)

lemma multi_inv_length: "multi_inv spec width opss (s, H) \<Longrightarrow> length s = width"
  by (simp add: multi_inv_def)

lemma with_index_fetch_op:
  "with_index (draw w l k) = draw w l (\<lambda>j l. with_index (k j l))"
  "with_index (checked c p) = checked c (with_index p)"
  "with_index (fetch_op get put f k') = fetch_op get put f (\<lambda>v. with_index (k' v))"
  "with_index (load f' k') = load f' (\<lambda>v. with_index (k' v))"
  "with_index (Ret (r, l)) = Ret ((r, thread_index l), l)"
  by (auto simp: with_index_def draw_def checked_def fetch_op_def load_def split: prod.splits prog.splits)

lemma mfaa_op_ok:
  assumes "i < length opss" and "0 < width"
  shows "op_ok A T (multi_inv mfaa_spec width opss) any_order any_order no_local opss i op (mfaa_op width)"
proof (rule op_okI)
  fix l s H P
  assume J: "multi_inv mfaa_spec width opss (s, H)" "proj i H = P" "prefix (map fst P @ [op]) (opss ! i)"
  have step: "safe A T (lin_rely (multi_inv mfaa_spec width opss) any_order i)
      (lin_guar (multi_inv mfaa_spec width opss) any_order opss i)
      (\<lambda>(r, l') (s', H'). multi_inv mfaa_spec width opss (s', H') \<and> no_local i l' s' \<and>
         proj i H' = P @ [(op, r)])
      (checked (in_array j) (fetch_op (get_count j) (set_count j) f (\<lambda>_. Ret ((1, j), l')))) (s, H)"
    if j: "j < width"
      and f: "\<And>t. length t = width \<Longrightarrow> mfaa_spec t op (1, j) = Some (set_count j (f (get_count j t)) t)"
    for j f l'
  proof (rule lin_checked [where J = "multi_inv mfaa_spec width opss"], rule J)
    show "safe A T (lin_rely (multi_inv mfaa_spec width opss) any_order i)
      (lin_guar (multi_inv mfaa_spec width opss) any_order opss i)
      (\<lambda>(r, l') (s', H'). multi_inv mfaa_spec width opss (s', H') \<and> no_local i l' s' \<and>
         proj i H' = P @ [(op, r)])
      (fetch_op (get_count j) (set_count j) f (\<lambda>_. Ret ((1, j), l'))) (s, H)"
      apply (rule lin_fetch_op_return [where op = op and r = "\<lambda>_. (1, j)" and a = "\<lambda>_. ((1, j), l')"], rule J)
         apply (use assms J in simp_all)
       apply (intro conjI any_order multi_inv_entry)
      using f multi_inv_length apply (auto simp: set_count_def)
      done
  qed (use multi_inv_length j in \<open>fastforce simp: in_array_def\<close>)
  show "safe A T (lin_rely (multi_inv mfaa_spec width opss) any_order i)
      (lin_guar (multi_inv mfaa_spec width opss) any_order opss i)
      (\<lambda>(r, l') (s', H'). multi_inv mfaa_spec width opss (s', H') \<and> no_local i l' s' \<and>
         proj i H' = P @ [(op, r)]) (mfaa_op width op l) (s, H)"
  proof (cases op)
    case MInc
    show ?thesis
      unfolding MInc mfaa_op.simps increment_mfaa_def random_index_mc_def Let_def with_index_fetch_op
      by (rule draw_cases, rule assms) (simp, rule step [unfolded MInc], simp_all)
  next
    case MDec
    show ?thesis
      unfolding MDec mfaa_op.simps decrement_mfaa_def random_index_mc_def Let_def with_index_fetch_op
      by (rule draw_cases, rule assms) (simp, rule step [unfolded MDec], simp_all)
  qed
qed

interpretation mfaa: lin_object A "\<lambda>_. False" "multi_inv mfaa_spec (Suc w) opss" any_order any_order
  no_local mfaa_spec "create_counter_multi (Suc w)" "\<lambda>s q. q = s" "mfaa_op (Suc w)" opss for A w opss
  by unfold_locales (auto simp: multi_inv_def intro: mfaa_op_ok)

text \<open>
  C5: multi-counter-faa is linearizable to an array of sub-counters of which each operation
  changes one, for every width but zero, and no operation can fail or loop.
\<close>

theorem mfaa_linearizable:
  "linearizable (\<lambda>_. True) (\<lambda>_. False) mfaa_spec (create_counter_multi (Suc w)) (\<lambda>s q. q = s) (map fst ths)
     (create_counter_multi (Suc w), threads (mfaa_op (Suc w)) ths)"
  by (rule mfaa.linearizable_threads) (auto simp: multi_inv_def create_counter_multi_def)

section \<open>multi-counter_random-relaxed is linearizable\<close>

text \<open>
  The array is a function of the history, so a sampled descriptor is still current as long as
  the history is the one the attempt started with: \<open>known i K H s j d\<close>.
\<close>

lemma multi_inv_fun: "multi_inv spec w opss (s, H) \<Longrightarrow> multi_inv spec w opss (t, H) \<Longrightarrow> t = s"
  by (simp add: multi_inv_def)

definition known :: "nat \<Rightarrow> nat \<Rightarrow> (multi_op, 64 word \<times> nat) history \<Rightarrow> (multi_op, 64 word \<times> nat) history \<Rightarrow>
    index_t list \<Rightarrow> nat \<Rightarrow> index_t \<Rightarrow> bool" where
  "known i w K H s j d \<longleftrightarrow> j < w \<and> hist_rely i K H \<and> (H = K \<longrightarrow> s ! j = d)"

lemma hist_rely_back: "hist_rely i K H \<Longrightarrow> hist_rely i H H' \<Longrightarrow> H' = K \<Longrightarrow> H = K"
  by (auto simp: hist_rely_def)

lemma known_stable:
  "known i w K H s j d \<Longrightarrow> multi_inv spec w opss (s, H) \<Longrightarrow> multi_inv spec w opss (t, H') \<Longrightarrow> hist_rely i H H' \<Longrightarrow>
     known i w K H' t j d"
  unfolding known_def by (metis hist_rely_back hist_rely_trans multi_inv_fun)

lemma load_descriptor_point:
  assumes J: "multi_inv spec w opss (s, H)" and j: "j < w" and K: "hist_rely i K H"
    and k: "\<And>t H' d. multi_inv spec w opss (t, H') \<Longrightarrow> hist_rely i H H' \<Longrightarrow> proj i H' = proj i H \<Longrightarrow>
      A t \<Longrightarrow> known i w K H' t j d \<Longrightarrow> count d = count (t ! j) \<Longrightarrow>
      \<exists>X. hist_step opss i H' (H' @ X) \<and> multi_inv spec w opss (t, H' @ X) \<and>
        safe A T (lin_rely (multi_inv spec w opss) any_order i) (lin_guar (multi_inv spec w opss) any_order opss i) Q
          (k d) (t, H' @ X)"
  shows "safe A T (lin_rely (multi_inv spec w opss) any_order i) (lin_guar (multi_inv spec w opss) any_order opss i) Q
    (load_descriptor j k) (s, H)"
proof -
  let ?J = "multi_inv spec w opss"
  have len: "in_array j t" if "?J (t, H')" for t H'
    using that j by (simp add: in_array_def multi_inv_length)
  show ?thesis
    unfolding load_descriptor_def
    apply (rule lin_checked, rule J, rule len, assumption, rule lin_load, rule J, blast)
    subgoal for t H'
      apply (rule lin_checked [where J = ?J], assumption, rule len, assumption, rule lin_load_point, assumption)
      subgoal premises p for t1 H1
      proof -
        have "t1 = t" if "H1 = H'" using p(1,6) that multi_inv_fun by blast
        moreover have "H1 = H'" if "H1 = K"
          using hist_rely_back [OF hist_rely_trans [OF K p(3)] p(8) that] that by simp
        ultimately have "known i w K H1 t1 j \<lparr>count = get_count j t1, version = version (t ! j)\<rparr>"
          using j hist_rely_trans [OF hist_rely_trans [OF K p(3)] p(8)] by (auto simp: known_def get_count_def)
        from k [OF p(6) hist_rely_trans [OF p(3,8)] _ p(10) this] show ?thesis
          using p(4,9) by (auto simp: get_count_def)
      qed
      done
    done
qed

lemma load_descriptor_safe:
  assumes J: "multi_inv spec w opss (s, H)" and j: "j < w" and K: "hist_rely i K H"
    and k: "\<And>t H' d. multi_inv spec w opss (t, H') \<Longrightarrow> hist_rely i H H' \<Longrightarrow> proj i H' = proj i H \<Longrightarrow>
      A t \<Longrightarrow> known i w K H' t j d \<Longrightarrow> count d = count (t ! j) \<Longrightarrow>
      safe A T (lin_rely (multi_inv spec w opss) any_order i) (lin_guar (multi_inv spec w opss) any_order opss i) Q
        (k d) (t, H')"
  shows "safe A T (lin_rely (multi_inv spec w opss) any_order i) (lin_guar (multi_inv spec w opss) any_order opss i) Q
    (load_descriptor j k) (s, H)"
  by (rule load_descriptor_point [OF J j K], rule exI [of _ "[]"]) (use k in auto)

lemma increment_choices_safe:
  assumes "multi_inv spec w opss (s, H)" and "known i w K H s (thread_index l) d"
    and k: "\<And>t H' d l. multi_inv spec w opss (t, H') \<Longrightarrow> proj i H' = proj i K \<Longrightarrow>
      known i w K H' t (thread_index l) d \<Longrightarrow>
      safe A T (lin_rely (multi_inv spec w opss) any_order i) (lin_guar (multi_inv spec w opss) any_order opss i) Q
        (k d l) (t, H')"
  shows "safe A T (lin_rely (multi_inv spec w opss) any_order i) (lin_guar (multi_inv spec w opss) any_order opss i) Q
    (increment_choices w m d l k) (s, H)"
  using assms(1,2)
proof (induction m arbitrary: d l s H)
  case 0
  then show ?case by (auto simp: known_def intro!: k)
next
  case (Suc m)
  have w: "0 < w" using Suc.prems by (auto simp: known_def)
  show ?case
    unfolding increment_choices.simps random_index_mc_def
  proof (rule draw_cases [OF w], rule load_descriptor_safe [OF Suc.prems(1)])
    show "hist_rely i K H" using Suc.prems by (simp add: known_def)
    fix j s' t H' d2
    assume t: "multi_inv spec w opss (t, H')" "hist_rely i H H'" and d2: "known i w K H' t j d2"
    have d: "known i w K H' t (thread_index l) d"
      using known_stable [OF Suc.prems(2,1) t(1,2)] .
    show "safe A T (lin_rely (multi_inv spec w opss) any_order i) (lin_guar (multi_inv spec w opss) any_order opss i) Q
      (if count d2 <s count d
       then increment_choices w m d2 (l\<lparr>seeds := s', thread_index := j\<rparr>) k
       else increment_choices w m d (l\<lparr>seeds := s'\<rparr>) k) (t, H')"
      using t d d2 by (auto intro!: Suc.IH)
  qed
qed

lemma get_increment_index_safe:
  assumes J: "multi_inv spec w opss (s, H)" and w: "0 < w"
    and k: "\<And>t H' d l. multi_inv spec w opss (t, H') \<Longrightarrow> proj i H' = proj i H \<Longrightarrow>
      known i w H H' t (thread_index l) d \<Longrightarrow>
      safe A T (lin_rely (multi_inv spec w opss) any_order i) (lin_guar (multi_inv spec w opss) any_order opss i) Q
        (k d l) (t, H')"
  shows "safe A T (lin_rely (multi_inv spec w opss) any_order i) (lin_guar (multi_inv spec w opss) any_order opss i) Q
    (get_increment_index w nc l k) (s, H)"
  unfolding get_increment_index_def random_index_mc_def Let_def
proof (rule draw_cases [OF w], rule load_descriptor_safe [OF J])
  fix j s' t H' d
  assume j: "j < w" and t: "multi_inv spec w opss (t, H')" and d: "known i w H H' t j d"
  let ?l = "l\<lparr>seeds := s', thread_index := j\<rparr>"
  show "safe A T (lin_rely (multi_inv spec w opss) any_order i) (lin_guar (multi_inv spec w opss) any_order opss i) Q
      (checked (in_array j) (load (get_count j) (\<lambda>c. increment_choices w (nc - 1) (d\<lparr>count := c\<rparr>) ?l k))) (t, H')"
  proof (rule lin_checked, rule t, use j in \<open>simp add: in_array_def multi_inv_length\<close>, rule lin_load, rule t, blast)
    fix t1 H1
    assume t1: "multi_inv spec w opss (t1, H1)" "hist_rely i H' H1"
    have "known i w H H1 t1 j d" by (rule known_stable [OF d t t1])
    then have "known i w H H1 t1 (thread_index ?l) (d\<lparr>count := get_count j t1\<rparr>)"
      by (auto simp: known_def get_count_def)
    then show "safe A T (lin_rely (multi_inv spec w opss) any_order i)
        (lin_guar (multi_inv spec w opss) any_order opss i) Q
        (increment_choices w (nc - 1) (d\<lparr>count := get_count j t1\<rparr>) ?l k) (t1, H1)"
      by (rule increment_choices_safe [OF t1(1)]) (rule k)
  qed
qed simp_all

text \<open>
  For a decrement the counts are compared as signed numbers; none of them is negative as long
  as no sub-counter has been incremented \<open>2 ^ 63\<close> times, which is assumed of every state.
\<close>

definition nonneg :: "index_t list \<Rightarrow> bool" where
  "nonneg s \<longleftrightarrow> (\<forall>x \<in> set s. \<not> count x <s 0)"

lemma decrement_choices_safe:
  assumes "multi_inv spec w opss (s, H)" and "known i w K H s (thread_index l) d"
    and "\<not> count d <s 0" and "0 < m \<or> count d \<noteq> 0"
    and k: "\<And>t H' d l. multi_inv spec w opss (t, H') \<Longrightarrow> proj i H' = proj i K \<Longrightarrow>
      known i w K H' t (thread_index l) d \<Longrightarrow> count d \<noteq> 0 \<Longrightarrow>
      safe nonneg T (lin_rely (multi_inv spec w opss) any_order i) (lin_guar (multi_inv spec w opss) any_order opss i) Q
        (k d l) (t, H')"
    and zero: "\<And>t H' d l. multi_inv spec w opss (t, H') \<Longrightarrow> proj i H' = proj i K \<Longrightarrow>
      0 \<in> count ` set t \<Longrightarrow> count d = 0 \<Longrightarrow>
      \<exists>X. hist_step opss i H' (H' @ X) \<and> multi_inv spec w opss (t, H' @ X) \<and>
      safe nonneg T (lin_rely (multi_inv spec w opss) any_order i) (lin_guar (multi_inv spec w opss) any_order opss i) Q
        (k d l) (t, H' @ X)"
  shows "safe nonneg T (lin_rely (multi_inv spec w opss) any_order i)
    (lin_guar (multi_inv spec w opss) any_order opss i) Q (decrement_choices w m d l k) (s, H)"
  using assms(1-4)
proof (induction m arbitrary: d l s H)
  case 0
  then show ?case by (auto simp: known_def intro!: k)
next
  case (Suc m)
  have w: "0 < w" using Suc.prems by (auto simp: known_def)
  let ?safe = "safe nonneg T (lin_rely (multi_inv spec w opss) any_order i)
    (lin_guar (multi_inv spec w opss) any_order opss i) Q"
  show ?case
    unfolding decrement_choices.simps random_index_mc_def
  proof (rule draw_cases [OF w], rule load_descriptor_point [OF Suc.prems(1)])
    show "hist_rely i K H" using Suc.prems by (simp add: known_def)
    then have P: "proj i H = proj i K" by auto
    fix j s' t H' d2
    assume j: "j < w" and t: "multi_inv spec w opss (t, H')" "hist_rely i H H'"
      and A: "nonneg t" and d2: "known i w K H' t j d2" "count d2 = count (t ! j)"
    have d: "known i w K H' t (thread_index l) d"
      using known_stable [OF Suc.prems(2,1) t(1,2)] .
    have nn: "\<not> count d2 <s 0"
      using A d2 j t(1) by (auto simp: nonneg_def multi_inv_length)
    let ?l = "if count d <s count d2 then l\<lparr>seeds := s', thread_index := j\<rparr> else l\<lparr>seeds := s'\<rparr>"
    let ?d = "if count d <s count d2 then d2 else d"
    have known: "known i w K H' t (thread_index ?l) ?d" using d d2 by simp
    have nn': "\<not> count ?d <s 0" using nn Suc.prems(3) by simp
    have eq: "(if count d <s count d2 then decrement_choices w m d2 (l\<lparr>seeds := s', thread_index := j\<rparr>) k
       else decrement_choices w m d (l\<lparr>seeds := s'\<rparr>) k) = decrement_choices w m ?d ?l k" by simp
    show "\<exists>X. hist_step opss i H' (H' @ X) \<and> multi_inv spec w opss (t, H' @ X) \<and>
      ?safe (if count d <s count d2 then decrement_choices w m d2 (l\<lparr>seeds := s', thread_index := j\<rparr>) k
       else decrement_choices w m d (l\<lparr>seeds := s'\<rparr>) k) (t, H' @ X)"
    proof (cases "0 < m \<or> count ?d \<noteq> 0")
      case True
      then have "?safe (decrement_choices w m ?d ?l k) (t, H')"
        by (intro Suc.IH [OF t(1) known nn'])
      then show ?thesis using t(1) unfolding eq by (intro exI [of _ "[]"]) simp
    next
      case False
      then have m: "m = 0" and z: "count ?d = 0" by auto
      have "count d2 = 0" using z nn by (auto simp: word_sless_alt signed_eq_0_iff split: if_splits)
      then have "0 \<in> count ` set t"
        using d2(2) j t(1) by (metis image_eqI multi_inv_length nth_mem)
      then show ?thesis
        using zero [OF t(1) _ _ z] t(2) P unfolding eq m decrement_choices.simps by auto
    qed
  qed
qed

lemma get_decrement_index_safe:
  assumes J: "multi_inv spec w opss (s, H)" and w: "0 < w"
    and k: "\<And>t H' d l. multi_inv spec w opss (t, H') \<Longrightarrow> proj i H' = proj i H \<Longrightarrow>
      known i w H H' t (thread_index l) d \<Longrightarrow> count d \<noteq> 0 \<Longrightarrow>
      safe nonneg T (lin_rely (multi_inv spec w opss) any_order i) (lin_guar (multi_inv spec w opss) any_order opss i) Q
        (k d l) (t, H')"
    and zero: "\<And>t H' d l. multi_inv spec w opss (t, H') \<Longrightarrow> proj i H' = proj i H \<Longrightarrow>
      0 \<in> count ` set t \<Longrightarrow> count d = 0 \<Longrightarrow>
      \<exists>X. hist_step opss i H' (H' @ X) \<and> multi_inv spec w opss (t, H' @ X) \<and>
      safe nonneg T (lin_rely (multi_inv spec w opss) any_order i) (lin_guar (multi_inv spec w opss) any_order opss i) Q
        (k d l) (t, H' @ X)"
  shows "safe nonneg T (lin_rely (multi_inv spec w opss) any_order i)
    (lin_guar (multi_inv spec w opss) any_order opss i) Q (get_decrement_index w nc l k) (s, H)"
  unfolding get_decrement_index_def random_index_mc_def Let_def
proof (rule draw_cases [OF w], rule load_descriptor_point [OF J])
  fix j s' t H' d
  assume j: "j < w" and t: "multi_inv spec w opss (t, H')" and P: "proj i H' = proj i H" and A: "nonneg t"
    and d: "known i w H H' t j d" "count d = count (t ! j)"
  let ?l = "l\<lparr>seeds := s', thread_index := j\<rparr>"
  let ?safe = "safe nonneg T (lin_rely (multi_inv spec w opss) any_order i)
    (lin_guar (multi_inv spec w opss) any_order opss i) Q"
  have mem: "t ! j \<in> set t" using j t by (simp add: multi_inv_length)
  then have nn: "\<not> count d <s 0" using A d by (auto simp: nonneg_def)
  show "\<exists>X. hist_step opss i H' (H' @ X) \<and> multi_inv spec w opss (t, H' @ X) \<and>
      ?safe (decrement_choices w (nc - 1) d ?l k) (t, H' @ X)"
  proof (cases "0 < nc - 1 \<or> count d \<noteq> 0")
    case True
    then have "?safe (decrement_choices w (nc - 1) d ?l k) (t, H')"
      using d nn by (intro decrement_choices_safe [OF t, where K = H]) (auto intro: k zero)
    then show ?thesis using t by (intro exI [of _ "[]"]) simp
  next
    case False
    then have "0 \<in> count ` set t" using mem d by (metis image_eqI)
    then show ?thesis using zero [OF t P, of d ?l] False by auto
  qed
qed simp_all

text \<open>The result of an operation, recorded with the index its thread used.\<close>

lemma with_index_safe:
  assumes "safe A T (lin_rely J any_order i) G
      (\<lambda>(r, l) (s', H'). J (s', H') \<and> proj i H' = P @ [(op, (r, thread_index l))]) p (s, H)"
  shows "safe A T (lin_rely J any_order i) G
      (\<lambda>(r, l) (s', H'). J (s', H') \<and> no_local i l s' \<and> proj i H' = P @ [(op, r)]) (with_index p) (s, H)"
  unfolding with_index_def
  by (rule safe_bind [OF safe_weaken [OF assms]]) (auto simp: lin_rely_def dest!: hist_rely_proj)

text \<open>A failed exchange means that another thread's operation took effect since the attempt began.\<close>

lemma known_changed:
  assumes "known i w K H t j d" and "multi_inv spec w opss (t, H)" and "multi_inv spec w opss (t1, H1)"
    and "hist_rely i H H1" and "t1 ! j \<noteq> d"
  shows "hist_rely i K H1" and "H1 \<noteq> K"
proof -
  have d: "known i w K H1 t1 j d" by (rule known_stable [OF assms(1-4)])
  then show "hist_rely i K H1" by (simp add: known_def)
  show "H1 \<noteq> K" using d assms(5) by (auto simp: known_def)
qed

lemma known_load: "multi_inv spec w opss (t, H) \<Longrightarrow> j < w \<Longrightarrow> hist_rely i K H \<Longrightarrow> known i w H H t j (t ! j)"
  by (simp add: known_def)

lemma mc_inv_Inc:
  assumes "multi_inv (mc_spec w (Some nc)) w opss (t, H)" and "t ! j = d" and "j < w"
    and "i < length opss" and "prefix (map fst (proj i H) @ [MInc]) (opss ! i)"
  shows "multi_inv (mc_spec w (Some nc)) w opss
    (t[j := \<lparr>count = count d + 1, version = version d + 1\<rparr>], H @ [(i, MInc, (count d + 1) * word_of_nat w, j)])"
  by (rule multi_inv_entry [OF assms(1)])
    (use assms in \<open>auto simp: bump_def get_count_def multi_inv_length\<close>)

lemma mc_inv_Inc_cas:
  assumes "multi_inv (mc_spec w None) w opss (t, H)" and "get_count j t = c" and "j < w"
    and "i < length opss" and "prefix (map fst (proj i H) @ [MInc]) (opss ! i)"
  shows "multi_inv (mc_spec w None) w opss (set_count j (c + 1) t, H @ [(i, MInc, (c + 1) * word_of_nat w, j)])"
  by (rule multi_inv_entry [OF assms(1)])
    (use assms in \<open>auto simp: bump_def get_count_def set_count_def multi_inv_length\<close>)

lemma mc_inv_Dec:
  assumes "multi_inv (mc_spec w (Some nc)) w opss (t, H)" and "t ! j = d" and "j < w" and "count d \<noteq> 0"
    and "i < length opss" and "prefix (map fst (proj i H) @ [MDec]) (opss ! i)"
  shows "multi_inv (mc_spec w (Some nc)) w opss
    (t[j := \<lparr>count = count d - 1, version = version d + 1\<rparr>], H @ [(i, MDec, 1, j)])"
  by (rule multi_inv_entry [OF assms(1)])
    (use assms in \<open>auto simp: bump_def get_count_def multi_inv_length\<close>)

lemma mc_inv_Dec_cas:
  assumes "multi_inv (mc_spec w None) w opss (t, H)" and "get_count j t = c" and "j < w" and "c \<noteq> 0"
    and "i < length opss" and "prefix (map fst (proj i H) @ [MDec]) (opss ! i)"
  shows "multi_inv (mc_spec w None) w opss (set_count j (c - 1) t, H @ [(i, MDec, 1, j)])"
  by (rule multi_inv_entry [OF assms(1)])
    (use assms in \<open>auto simp: bump_def get_count_def set_count_def multi_inv_length\<close>)

lemma mc_inv_Dec_zero:
  assumes "multi_inv (mc_spec w choices) w opss (t, H)" and "0 \<in> count ` set t"
    and "i < length opss" and "prefix (map fst (proj i H) @ [MDec]) (opss ! i)"
  shows "multi_inv (mc_spec w choices) w opss (t, H @ [(i, MDec, 0, j)])"
  by (rule multi_inv_entry [OF assms(1)]) (use assms in auto)

lemma increment_mc_safe:
  assumes "multi_inv (mc_spec w choices) w opss (s, H)" and "proj i H = P" and "prefix (map fst P @ [MInc]) (opss ! i)"
    and "i < length opss" and "0 < w" and "enough T opss n H"
  shows "safe A T (lin_rely (multi_inv (mc_spec w choices) w opss) any_order i)
    (lin_guar (multi_inv (mc_spec w choices) w opss) any_order opss i)
    (\<lambda>(r, l) (s', H'). multi_inv (mc_spec w choices) w opss (s', H') \<and> proj i H' = P @ [(MInc, (r, thread_index l))])
    (increment_mc w choices n l) (s, H)"
  using assms
proof (induction n arbitrary: s H l)
  case 0
  then show ?case by (auto simp: multi_inv_def dest: enough_0)
next
  case (Suc n)
  let ?J = "multi_inv (mc_spec w choices) w opss"
  have retry: "safe A T (lin_rely ?J any_order i) (lin_guar ?J any_order opss i)
      (\<lambda>(r, l) (s', H'). ?J (s', H') \<and> proj i H' = P @ [(MInc, (r, thread_index l))])
      (increment_mc w choices n l) (t, H')"
    if "?J (t, H')" "hist_rely i H H'" "H' \<noteq> H" for t H' l
    using that Suc.prems enough_Suc [OF Suc.prems(6) hist_rely_refl that(2,3)]
    by (intro Suc.IH) auto
  show ?case
  proof (cases choices)
    case (Some nc)
    show ?thesis
      unfolding Some increment_mc.simps Let_def
      apply (rule get_increment_index_safe [OF Suc.prems(1)[unfolded Some] Suc.prems(5)])
      subgoal premises d for t H' d l'
        apply (rule lin_checked, rule d, use d in \<open>simp add: in_array_def known_def multi_inv_length\<close>)
        apply (rule lin_cae_commit [where op = MInc and r = "((count d + 1) * word_of_nat w, thread_index l')"])
               prefer 8
        subgoal premises p for t1 H1
          using retry [OF _ known_changed [OF d(3,1) p(1,3,6)]] p(1) by (simp add: Some)
        using Suc.prems d by (auto intro: mc_inv_Inc simp: known_def)
      done
  next
    case None
    show ?thesis
      unfolding None increment_mc.simps random_index_mc_def Let_def
      apply (rule draw_cases [OF Suc.prems(5)])
      apply (rule lin_checked, rule Suc.prems(1)[unfolded None], use multi_inv_length in \<open>fastforce simp: in_array_def\<close>)
      apply (rule lin_load, rule Suc.prems(1)[unfolded None], blast)
      subgoal premises d for j s' t H'
        apply (rule lin_checked, rule d, use d in \<open>simp add: in_array_def multi_inv_length\<close>)
        apply (rule lin_cas_commit [where op = MInc and r = "((get_count j t + 1) * word_of_nat w, j)"])
               prefer 8
        subgoal premises p for t1 H1
        proof -
          have "t1 ! j \<noteq> t ! j" using p(6) by (auto simp: get_count_def)
          with known_load [OF d(2,1,4)] d(2) p(1,3) have "hist_rely i H' H1" "H1 \<noteq> H'"
            by (blast dest: known_changed)+
          then show ?thesis
            using retry [of t1 H1] hist_rely_trans [OF d(4)] hist_rely_back [OF d(4)] p(1) by (auto simp: None)
        qed
        using Suc.prems d by (auto intro: mc_inv_Inc_cas)
      done
  qed
qed

lemma zero_in_array: "multi_inv spec w opss (t, H) \<Longrightarrow> j < w \<Longrightarrow> get_count j t = 0 \<Longrightarrow> 0 \<in> count ` set t"
  by (metis get_count_def image_eqI multi_inv_length nth_mem)

lemma decrement_mc_safe:
  assumes "multi_inv (mc_spec w choices) w opss (s, H)" and "proj i H = P" and "prefix (map fst P @ [MDec]) (opss ! i)"
    and "i < length opss" and "0 < w" and "enough T opss n H"
  shows "safe nonneg T (lin_rely (multi_inv (mc_spec w choices) w opss) any_order i)
    (lin_guar (multi_inv (mc_spec w choices) w opss) any_order opss i)
    (\<lambda>(r, l) (s', H'). multi_inv (mc_spec w choices) w opss (s', H') \<and> proj i H' = P @ [(MDec, (r, thread_index l))])
    (decrement_mc True w choices n l) (s, H)"
  using assms
proof (induction n arbitrary: s H l)
  case 0
  then show ?case by (auto simp: multi_inv_def dest: enough_0)
next
  case (Suc n)
  let ?J = "multi_inv (mc_spec w choices) w opss"
  have retry: "safe nonneg T (lin_rely ?J any_order i) (lin_guar ?J any_order opss i)
      (\<lambda>(r, l) (s', H'). ?J (s', H') \<and> proj i H' = P @ [(MDec, (r, thread_index l))])
      (decrement_mc True w choices n l) (t, H')"
    if "?J (t, H')" "hist_rely i H H'" "H' \<noteq> H" for t H' l
    using that Suc.prems enough_Suc [OF Suc.prems(6) hist_rely_refl that(2,3)]
    by (intro Suc.IH) auto
  show ?case
  proof (cases choices)
    case (Some nc)
    show ?thesis
      unfolding Some decrement_mc.simps Let_def
      apply (rule get_decrement_index_safe [OF Suc.prems(1)[unfolded Some] Suc.prems(5)])
      subgoal premises d for t H' d l'
        unfolding if_not_P [OF d(4)]
        apply (rule lin_checked, rule d, use d in \<open>simp add: in_array_def known_def multi_inv_length\<close>)
        apply (rule lin_cae_commit [where op = MDec and r = "(1, thread_index l')"])
               prefer 8
        subgoal premises p for t1 H1
          using retry [OF _ known_changed [OF d(3,1) p(1,3,6)]] p(1) by (simp add: Some)
        using Suc.prems d by (auto intro: mc_inv_Dec simp: known_def)
      subgoal premises d for t H' d l'
      proof (intro exI conjI)
        have step: "i < length opss" "prefix (map fst (proj i H') @ [MDec]) (opss ! i)"
          using Suc.prems d by auto
        show "hist_step opss i H' (H' @ [(i, MDec, (0, thread_index l'))])"
          using step by (rule hist_step_entry)
        show inv: "multi_inv (mc_spec w (Some nc)) w opss (t, H' @ [(i, MDec, (0, thread_index l'))])"
          using d step by (intro mc_inv_Dec_zero)
        show "safe nonneg T (lin_rely (multi_inv (mc_spec w (Some nc)) w opss) any_order i)
          (lin_guar (multi_inv (mc_spec w (Some nc)) w opss) any_order opss i)
          (\<lambda>(r, l) (s', H'). multi_inv (mc_spec w (Some nc)) w opss (s', H') \<and>
             proj i H' = P @ [(MDec, (r, thread_index l))])
          (if count d = 0 then Ret (0, count_null l') else
            checked (in_array (thread_index l')) (cae (\<lambda>s. s ! thread_index l') (\<lambda>v s. s[thread_index l' := v]) d
              \<lparr>count = count d - 1, version = version d + 1\<rparr> (\<lambda>ok _. if ok
                then Ret (if True then 1 else count \<lparr>count = count d - 1, version = version d + 1\<rparr> * word_of_nat w, l')
                else decrement_mc True w (Some nc) n (count_get_fail l'))))
          (t, H' @ [(i, MDec, (0, thread_index l'))])"
          unfolding if_P [OF d(4)]
          by (rule lin_commit_ret [where H = H]) (use inv d Suc.prems in auto)
      qed
      done
  next
    case None
    show ?thesis
      unfolding None decrement_mc.simps random_index_mc_def Let_def
      apply (rule draw_cases [OF Suc.prems(5)])
      apply (rule lin_checked, rule Suc.prems(1)[unfolded None], use multi_inv_length in \<open>fastforce simp: in_array_def\<close>)
      apply (rule lin_load_commit [where op = MDec], rule Suc.prems(1)[unfolded None], blast,
          rule Suc.prems(4), use Suc.prems in simp)
      subgoal premises d for j s' t H'
      proof (cases "get_count j t = 0")
        case True
        then have "multi_inv (mc_spec w None) w opss (t, H' @ [(i, MDec, 0, j)])"
          using d Suc.prems by (intro mc_inv_Dec_zero zero_in_array [OF d(2,1)]) auto
        then show ?thesis
          using True Suc.prems by (intro disjI1 exI conjI) auto
      next
        case False
        show ?thesis
          unfolding if_P [OF False]
          apply (rule disjI2)
          apply (rule lin_checked, rule d, use d in \<open>simp add: in_array_def multi_inv_length\<close>)
          apply (rule lin_cas_commit [where op = MDec and r = "(1, j)"])
                 prefer 8
          subgoal premises p for t1 H1
          proof -
            have "t1 ! j \<noteq> t ! j" using p(6) by (auto simp: get_count_def)
            with known_load [OF d(2,1,4)] d(2) p(1,3) have "hist_rely i H' H1" "H1 \<noteq> H'"
              by (blast dest: known_changed)+
            then show ?thesis
              using retry [of t1 H1] hist_rely_trans [OF d(4)] hist_rely_back [OF d(4)] p(1) by (auto simp: None)
          qed
          using Suc.prems d False by (auto intro: mc_inv_Dec_cas)
      qed
      done
  qed
qed

interpretation mc: lin_object nonneg "out_of_fuel n opss" "multi_inv (mc_spec (Suc w) choices) (Suc w) opss"
  any_order any_order no_local "mc_spec (Suc w) choices" "create_counter_multi (Suc w)" "\<lambda>s q. q = s"
  "mc_op True (Suc w) choices n" opss for n w choices opss
proof unfold_locales
  show "op_ok nonneg (out_of_fuel n opss) (multi_inv (mc_spec (Suc w) choices) (Suc w) opss) any_order any_order
      no_local opss i op (mc_op True (Suc w) choices n)" if "i < length opss" for i op
    using that
    by (intro op_okI) (cases op, auto intro!: with_index_safe increment_mc_safe decrement_mc_safe)
qed (auto simp: multi_inv_def)

text \<open>
  C4: multi-counter_random-relaxed is linearizable, with and without \<open>NUM_CHOICES\<close>: an
  increment adds one to one sub-counter and returns its new value times the width, a
  decrement takes one from a sub-counter that is not zero, and it reports zero only at a
  moment when some sub-counter is zero. Both loops are lock-free.
\<close>

theorem multi_counter_linearizable:
  "linearizable nonneg (out_of_fuel n (map fst ths)) (mc_spec (Suc w) choices) (create_counter_multi (Suc w))
     (\<lambda>s q. q = s) (map fst ths) (create_counter_multi (Suc w), threads (mc_op True (Suc w) choices n) ths)"
  by (rule mc.linearizable_threads) (auto simp: multi_inv_def create_counter_multi_def)

section \<open>The size of the counter\<close>

lemma run_counter_size_loop:
  "i + r = length s \<Longrightarrow>
     run (counter_size_loop r i sz) s = Done (sz + sum_list (map count (drop i s))) s"
proof (induction r arbitrary: i sz)
  case (Suc r)
  then have "drop i s = s ! i # drop (Suc i) s" by (simp add: Cons_nth_drop_Suc)
  then show ?case using Suc by (simp add: in_array_def get_count_def add.assoc)
qed simp

lemma run_counter_size: "length s = width \<Longrightarrow> run (counter_size_multi width) s = Done (total_count s) s"
  by (simp add: counter_size_multi_def run_counter_size_loop total_count_def)

lemma total_count_create: "total_count (create_counter_multi w) = 0"
  by (simp add: total_count_def create_counter_multi_def map_replicate_const sum_list_replicate)

lemma length_create_counter_multi: "length (create_counter_multi w) = w"
  by (simp add: create_counter_multi_def)

lemma linearized_size:
  assumes "linearized T spec (create_counter_multi w) (\<lambda>s q. q = s) opss H c"
    and "\<And>q op r q' i. spec q op r = Some q' \<Longrightarrow> total_count q' = total_count q + net_change [(i, op, r)]"
    and "\<And>q op r q'. spec q op r = Some q' \<Longrightarrow> length q' = length q"
  shows "run (counter_size_multi w) (fst c) = Done (net_change H) (fst c)"
proof -
  have r: "replay spec (create_counter_multi w) H = Some (fst c)"
    using assms(1) by (auto simp: linearized_def)
  have "length (fst c) = w"
    using replay_length [OF assms(3) r] by (simp add: length_create_counter_multi)
  moreover have "total_count (fst c) = net_change H"
    using replay_total [OF assms(2) r] by (simp add: total_count_create)
  ultimately show ?thesis using run_counter_size [of "fst c" w] by simp
qed



end
