(* ===== verification/Window_2Dd.thy ===== *)
theory Window_2Dd
  imports Linear Thread
begin

text \<open>
  The two-dimensional window of \<open>include/2Dd-window.c\<close>, which the 2Dd counter, stack and queue
  include as a template. A structure is an array of sub-structures, each with a descriptor of
  two machine words that holds its counts of puts and gets; two shared words, the window
  maxima, bound how far the counts of one sub-structure may run ahead. \<open>put_window\<close> and
  \<open>get_window\<close> look for a sub-structure a thread may work on and slide the window when there is
  none.

  The shared state of every structure extends the record \<open>window\<close>; what the template takes
  from the structure (\<open>DS_TYPE\<close>, \<open>descriptor_t\<close>) is the record \<open>dset\<close>: the constants of
  \<open>set\<close> and how to find the descriptors and read their counts.

  The locales \<open>put_window_client\<close> and \<open>get_window_client\<close> are the contracts between the
  template and a structure: which facts the structure keeps, and what the window then
  guarantees of the descriptor it hands out.
\<close>

section \<open>State\<close>

record window =
  global_PWindow :: nat
  global_GWindow :: nat

record thread_2d = thread +
  thread_PWindow :: nat
  thread_GWindow :: nat

record ('s, 'x, 'y) dset =
  width :: nat
  depth :: nat
  random_hops :: nat
  get_array :: "'s \<Rightarrow> ('x, 'y) dword list"
  put_array :: "'s \<Rightarrow> ('x, 'y) dword list"
  put_count :: "('x, 'y) dword \<Rightarrow> nat"
  get_count :: "('x, 'y) dword \<Rightarrow> nat"

definition initialize_global_window :: "nat \<Rightarrow> 'z window_scheme \<Rightarrow> 'z window_scheme" where
  "initialize_global_window d s = s\<lparr>global_PWindow := d, global_GWindow := d\<rparr>"

text \<open>\<open>random_index\<close> takes the width as a \<open>uint32_t\<close>.\<close>

definition random_index_2d :: "nat \<Rightarrow> 'z thread_scheme \<Rightarrow> (nat \<Rightarrow> 'z thread_scheme \<Rightarrow> ('s, 'a) prog) \<Rightarrow> ('s, 'a) prog" where
  "random_index_2d w l k = draw (w mod U32) l k"

text \<open>The state of the search: \<open>hops\<close> and \<open>random\<close> count the sequential and the random hops.\<close>

definition hop :: "('s, 'x, 'y) dset \<Rightarrow> 'z thread_2d_scheme \<Rightarrow> nat \<Rightarrow> nat \<Rightarrow>
    ('z thread_2d_scheme \<Rightarrow> nat \<Rightarrow> nat \<Rightarrow> ('s, 'a) prog) \<Rightarrow> ('s, 'a) prog" where
  "hop D l random hops k = (let l = count_hop l in
     if random < random_hops D then
       random_index_2d (width D) l (\<lambda>j l. k (l\<lparr>thread_index := j\<rparr>) (random + 1) hops)
     else
       let index = add64 (thread_index l) 1;
           index = (if width D \<le> index then 0 else index)
       in k (l\<lparr>thread_index := index\<rparr>) random (add64 hops 1))"

lemma count_more_2d_simps [simp]:
  "thread_2d.more (count_hop l) = thread_2d.more l" "thread_2d.more (count_slide l) = thread_2d.more l"
  "thread_2d.more (count_put_fail l) = thread_2d.more l" "thread_2d.more (count_get_fail l) = thread_2d.more l"
  "thread_2d.more (count_null l) = thread_2d.more l"
  by (simp_all add: count_hop_def count_slide_def count_put_fail_def count_get_fail_def count_null_def)

section \<open>put\_window\<close>

fun put_window_loop :: "('z window_scheme, 'x, 'y) dset \<Rightarrow> nat \<Rightarrow> nat \<Rightarrow> nat \<Rightarrow> 'l thread_2d_scheme \<Rightarrow>
    (('x, 'y) dword \<Rightarrow> 'l thread_2d_scheme \<Rightarrow> ('z window_scheme, 'a) prog) \<Rightarrow> ('z window_scheme, 'a) prog" where
  "put_window_loop D 0 hops random l k = Stop No_fuel"
| "put_window_loop D (Suc n) hops random l k =
    (if \<not> thread_index l < width D then Stop Assert_failed else
     checked (\<lambda>s. thread_index l < length (put_array D s))
     (load2 (\<lambda>s. put_array D s ! thread_index l) (\<lambda>descriptor.
      load global_PWindow (\<lambda>read_max.
      if read_max \<noteq> thread_PWindow l then
        put_window_loop D n 0 random (l\<lparr>thread_PWindow := read_max\<rparr>) k
      else if put_count D descriptor < read_max then k descriptor l
      else if hops \<noteq> width D then
        hop D l random hops (\<lambda>l random hops. put_window_loop D n hops random l k)
      else
        let finish = (\<lambda>l. load global_PWindow (\<lambda>g.
              put_window_loop D n 0 random (l\<lparr>thread_PWindow := g\<rparr>) k)) in
        load global_PWindow (\<lambda>g.
        if thread_PWindow l = g then
          cae global_PWindow (\<lambda>v s. s\<lparr>global_PWindow := v\<rparr>) (thread_PWindow l)
            (add64 (thread_PWindow l) (depth D)) (\<lambda>ok v.
            if ok then finish (count_slide l) else finish (l\<lparr>thread_PWindow := v\<rparr>))
        else finish l)))))"

definition put_window :: "('z window_scheme, 'x, 'y) dset \<Rightarrow> nat \<Rightarrow> bool \<Rightarrow> 'l thread_2d_scheme \<Rightarrow>
    (('x, 'y) dword \<Rightarrow> 'l thread_2d_scheme \<Rightarrow> ('z window_scheme, 'a) prog) \<Rightarrow> ('z window_scheme, 'a) prog" where
  "put_window D n contention l k =
    (let sync = (\<lambda>l. load global_PWindow (\<lambda>g.
           if thread_PWindow l \<noteq> g then
             load global_PWindow (\<lambda>g. put_window_loop D n 0 0 (l\<lparr>thread_PWindow := g\<rparr>) k)
           else put_window_loop D n 0 0 l k)) in
     if contention then random_index_2d (width D) l (\<lambda>j l. sync (l\<lparr>thread_index := j\<rparr>)) else sync l)"

section \<open>get\_window\<close>

fun get_window_loop :: "('z window_scheme, 'x, 'y) dset \<Rightarrow> nat \<Rightarrow> nat \<Rightarrow> nat \<Rightarrow> bool \<Rightarrow> 'l thread_2d_scheme \<Rightarrow>
    (('x, 'y) dword \<Rightarrow> 'l thread_2d_scheme \<Rightarrow> ('z window_scheme, 'a) prog) \<Rightarrow> ('z window_scheme, 'a) prog" where
  "get_window_loop D 0 hops random notempty l k = Stop No_fuel"
| "get_window_loop D (Suc n) hops random notempty l k =
     checked (\<lambda>s. thread_index l < length (get_array D s))
     (load2 (\<lambda>s. get_array D s ! thread_index l) (\<lambda>descriptor.
      checked (\<lambda>s. thread_index l < length (put_array D s))
      (load (\<lambda>s. put_count D (put_array D s ! thread_index l)) (\<lambda>pcount.
      load global_GWindow (\<lambda>read_max.
      if read_max \<noteq> thread_GWindow l then
        get_window_loop D n 0 random False (l\<lparr>thread_GWindow := read_max\<rparr>) k
      else if get_count D descriptor < read_max \<and> pcount \<noteq> get_count D descriptor then k descriptor l
      else if hops \<noteq> width D then
        let notempty = (notempty \<or> pcount \<noteq> get_count D descriptor) in
        hop D l random hops (\<lambda>l random hops. get_window_loop D n hops random notempty l k)
      else if notempty then
        let finish = (\<lambda>l. load global_GWindow (\<lambda>g.
              get_window_loop D n 0 random False (l\<lparr>thread_GWindow := g\<rparr>) k)) in
        load global_GWindow (\<lambda>g.
        if thread_GWindow l = g then
          cae global_GWindow (\<lambda>v s. s\<lparr>global_GWindow := v\<rparr>) (thread_GWindow l)
            (add64 (thread_GWindow l) (depth D)) (\<lambda>ok v.
            if ok then finish (count_slide l) else finish (l\<lparr>thread_GWindow := v\<rparr>))
        else finish l)
      else k descriptor l)))))"

definition get_window :: "('z window_scheme, 'x, 'y) dset \<Rightarrow> nat \<Rightarrow> bool \<Rightarrow> 'l thread_2d_scheme \<Rightarrow>
    (('x, 'y) dword \<Rightarrow> 'l thread_2d_scheme \<Rightarrow> ('z window_scheme, 'a) prog) \<Rightarrow> ('z window_scheme, 'a) prog" where
  "get_window D n contention l k =
    load global_GWindow (\<lambda>g.
    let l = l\<lparr>thread_GWindow := g\<rparr>;
        sync = (\<lambda>l. load global_GWindow (\<lambda>g.
           if thread_GWindow l \<noteq> g then
             load global_GWindow (\<lambda>g. get_window_loop D n 0 0 False (l\<lparr>thread_GWindow := g\<rparr>) k)
           else get_window_loop D n 0 0 False l k)) in
     if contention then random_index_2d (width D) l (\<lambda>j l. sync (l\<lparr>thread_index := j\<rparr>)) else sync l)"

section \<open>What the search has cleared\<close>

text \<open>
  \<open>cleared w ti hops P\<close>: the \<open>hops\<close> indices before \<open>ti\<close>, counted cyclically, all satisfy \<open>P\<close>.
  Sequential hops extend the range; after \<open>w\<close> of them it is the whole array.
\<close>

definition cleared :: "nat \<Rightarrow> nat \<Rightarrow> nat \<Rightarrow> (nat \<Rightarrow> bool) \<Rightarrow> bool" where
  "cleared w ti hops P \<longleftrightarrow> (\<forall>k. 1 \<le> k \<and> k \<le> hops \<longrightarrow> P ((ti + w - k) mod w))"

lemma cleared_0 [simp]: "cleared w ti 0 P"
  by (simp add: cleared_def)

lemma cleared_mono: "cleared w ti hops P \<Longrightarrow> (\<And>j. j < w \<Longrightarrow> P j \<Longrightarrow> Q j) \<Longrightarrow> 0 < w \<Longrightarrow> cleared w ti hops Q"
  by (simp add: cleared_def)

lemma cleared_Suc:
  assumes c: "cleared w ti hops P" and P: "P ti" and ti: "ti < w" and hops: "hops < w"
  shows "cleared w (if w \<le> ti + 1 then 0 else ti + 1) (Suc hops) P"
  unfolding cleared_def
proof (intro allI impI, elim conjE)
  fix k assume k: "1 \<le> k" "k \<le> Suc hops"
  let ?n = "if w \<le> ti + 1 then 0 else ti + 1"
  have n: "(?n + w - k) mod w = (ti + w - (k - 1)) mod w"
  proof (cases "w \<le> ti + 1")
    case True
    then have "ti + w - (k - 1) = (w - k) + w" using k hops ti by linarith
    then show ?thesis using True by simp
  next
    case False
    have "ti + w - (k - 1) = ti + 1 + w - k" using k by linarith
    then show ?thesis using False by simp
  qed
  show "P ((?n + w - k) mod w)"
  proof (cases "k = 1")
    case True
    then show ?thesis using n P ti by simp
  next
    case False
    then have "1 \<le> k - 1" "k - 1 \<le> hops" using k by auto
    then show ?thesis using c unfolding n cleared_def by blast
  qed
qed

lemma cleared_all:
  assumes c: "cleared w ti w P" and ti: "ti < w" and j: "j < w"
  shows "P j"
proof -
  let ?k = "if j < ti then ti - j else ti + w - j"
  have "1 \<le> ?k" "?k \<le> w" using ti j by auto
  moreover have "(ti + w - ?k) mod w = j"
  proof (cases "j < ti")
    case True
    then have "ti + w - ?k = j + w" using ti by simp
    then show ?thesis using j by simp
  next
    case False
    then have "ti + w - ?k = j" using j by simp
    then show ?thesis using j by simp
  qed
  ultimately show ?thesis using c unfolding cleared_def by metis
qed

section \<open>The contract of put\_window\<close>

locale put_window_client =
  fixes A :: "'z window_scheme \<Rightarrow> bool"
    and T :: "failure \<Rightarrow> bool"
    and J :: "'z window_scheme \<times> ('o, 'r) history \<Rightarrow> bool"
    and ord grd :: "nat \<Rightarrow> 'z window_scheme \<Rightarrow> 'z window_scheme \<Rightarrow> bool"
    and opss :: "'o list list"
    and D :: "('z window_scheme, 'x, 'y) dset"
    and seen :: "nat \<Rightarrow> ('x, 'y) dword \<Rightarrow> 'z window_scheme \<Rightarrow> bool"
  assumes fuel: "T No_fuel"
    and width_ok: "J (s, H) \<Longrightarrow> 0 < width D \<and> width D < U32"
    and put_length: "J (s, H) \<Longrightarrow> length (put_array D s) = width D"
    and ord_refl: "ord i s s"
    and ord_trans: "ord i s t \<Longrightarrow> ord i t u \<Longrightarrow> ord i s u"
    and grd_refl: "grd i s s"
    and ord_PWindow: "ord i s t \<Longrightarrow> global_PWindow s \<le> global_PWindow t"
    and ord_put_count: "ord i s t \<Longrightarrow> J (s, H) \<Longrightarrow> J (t, H') \<Longrightarrow> j < width D \<Longrightarrow>
      put_count D (put_array D s ! j) \<le> put_count D (put_array D t ! j)"
    and put_count_hi: "put_count D (DW a b) = put_count D (DW a' b)"
    and seen_load: "J (s, H) \<Longrightarrow> J (t, H') \<Longrightarrow> ord i s t \<Longrightarrow> j < width D \<Longrightarrow>
      seen j (DW (lo (put_array D s ! j)) (hi (put_array D t ! j))) t"
    and seen_stable: "seen j d s \<Longrightarrow> J (s, H) \<Longrightarrow> J (t, H') \<Longrightarrow> ord i s t \<Longrightarrow> seen j d t"
    and no_wrap: "A s \<Longrightarrow> global_PWindow s + depth D < U64"
    and shift: "J (s, H) \<Longrightarrow> A s \<Longrightarrow> (\<And>j. j < width D \<Longrightarrow> global_PWindow s \<le> put_count D (put_array D s ! j)) \<Longrightarrow>
      J (s\<lparr>global_PWindow := global_PWindow s + depth D\<rparr>, H) \<and>
      grd i s (s\<lparr>global_PWindow := global_PWindow s + depth D\<rparr>) \<and>
      ord i s (s\<lparr>global_PWindow := global_PWindow s + depth D\<rparr>)"
begin

text \<open>What a thread in the loop knows: its position, and which indices it has found full.\<close>

definition full_for :: "nat \<Rightarrow> 'z window_scheme \<Rightarrow> nat \<Rightarrow> bool" where
  "full_for m s j \<longleftrightarrow> m \<le> put_count D (put_array D s ! j)"

definition put_local :: "'l \<Rightarrow> nat \<Rightarrow> nat \<Rightarrow> 'l thread_2d_scheme \<Rightarrow> 'z window_scheme \<Rightarrow> bool" where
  "put_local M hops random l s \<longleftrightarrow> thread_2d.more l = M \<and> thread_index l < width D \<and> hops \<le> width D \<and>
     (0 < hops \<longrightarrow> random_hops D \<le> random) \<and> thread_PWindow l \<le> global_PWindow s \<and>
     cleared (width D) (thread_index l) hops (full_for (thread_PWindow l) s)"

lemma put_local_stable:
  "put_local M hops random l s \<Longrightarrow> J (s, H) \<Longrightarrow> J (t, H') \<Longrightarrow> ord i s t \<Longrightarrow> put_local M hops random l t"
proof -
  assume l: "put_local M hops random l s" and J: "J (s, H)" "J (t, H')" and o: "ord i s t"
  have "cleared (width D) (thread_index l) hops (full_for (thread_PWindow l) t)"
  proof (rule cleared_mono)
    show "full_for (thread_PWindow l) t j" if "j < width D" "full_for (thread_PWindow l) s j" for j
      using that ord_put_count [OF o J that(1)] by (simp add: full_for_def)
  qed (use l width_ok [OF J(1)] in \<open>auto simp: put_local_def\<close>)
  then show "put_local M hops random l t"
    using l ord_PWindow [OF o] by (auto simp: put_local_def)
qed

lemma put_count_read: "hi d = hi (put_array D s ! j) \<Longrightarrow> put_count D d = put_count D (put_array D s ! j)"
  using put_count_hi [of "lo d" "hi d" "lo (put_array D s ! j)"] by (metis dword.collapse)

lemma put_hop_safe:
  assumes J: "J (s, H)" and "put_local M hops random l s" and "full_for (thread_PWindow l) s (thread_index l)"
    and "hops \<noteq> width D"
    and k: "\<And>l' random' hops'. put_local M hops' random' l' s \<Longrightarrow>
      safe A T R G Q (k l' random' hops') (s, H)"
  shows "safe A T R G Q (hop D l random hops k) (s, H)"
proof -
  have width: "0 < width D" "width D < U32" using width_ok [OF J] by simp_all
  show ?thesis
  proof (cases "random < random_hops D")
  case True
  then have h: "hops = 0" using assms(2) by (auto simp: put_local_def)
  have w: "width D mod U32 = width D" using width by simp
  show ?thesis
    unfolding hop_def Let_def if_P [OF True] random_index_2d_def w
    by (rule draw_cases [OF width(1)], rule k)
      (use assms(2) h in \<open>auto simp: put_local_def count_hop_def\<close>)
next
  case False
  have lt: "hops < width D" "thread_index l < width D"
    using assms by (auto simp: put_local_def)
  then have idx: "add64 (thread_index l) 1 = thread_index l + 1" "add64 hops 1 = Suc hops"
    using width by (auto simp: add64_def U32_def U64_def)
  have "cleared (width D) (if width D \<le> thread_index l + 1 then 0 else thread_index l + 1) (Suc hops)
      (full_for (thread_PWindow l) s)"
    by (rule cleared_Suc) (use assms lt in \<open>auto simp: put_local_def\<close>)
  then show ?thesis
    unfolding hop_def Let_def if_not_P [OF False] count_simps idx
    by (intro k) (use assms lt False in \<open>auto simp: put_local_def count_hop_def\<close>)
  qed
qed

lemma put_slide_safe:
  assumes J: "J (t, H)" and l: "put_local M (width D) random l t"
    and F: "\<And>u H' l1. J (u, H') \<Longrightarrow> ord i t u \<Longrightarrow> hist_rely i H H' \<Longrightarrow> thread_index l1 = thread_index l \<Longrightarrow> thread_2d.more l1 = thread_2d.more l \<Longrightarrow>
      safe A T (lin_rely J ord i) (lin_guar J grd opss i) Q (F l1) (u, H')"
  shows "safe A T (lin_rely J ord i) (lin_guar J grd opss i) Q
    (load global_PWindow (\<lambda>g. if thread_PWindow l = g then
       cae global_PWindow (\<lambda>v s. s\<lparr>global_PWindow := v\<rparr>) (thread_PWindow l)
         (add64 (thread_PWindow l) (depth D)) (\<lambda>ok v.
         if ok then F (count_slide l) else F (l\<lparr>thread_PWindow := v\<rparr>))
       else F l)) (t, H)"
proof (rule lin_load, rule J, rule grd_refl)
  fix u H' assume u: "J (u, H')" "ord i t u" "hist_rely i H H'"
  let ?safe = "safe A T (lin_rely J ord i) (lin_guar J grd opss i) Q"
  let ?cae = "cae global_PWindow (\<lambda>v s. s\<lparr>global_PWindow := v\<rparr>) (thread_PWindow l)
         (add64 (thread_PWindow l) (depth D)) (\<lambda>ok v.
         if ok then F (count_slide l) else F (l\<lparr>thread_PWindow := v\<rparr>))"
  have "?safe ?cae (u, H')"
  proof (rule lin_cae, rule u, rule grd_refl)
    fix v K assume v: "J (v, K)" "ord i u v" "hist_rely i H' K" and A: "A v"
    have o: "ord i t v" "hist_rely i H K"
      using ord_trans [OF u(2) v(2)] hist_rely_trans [OF u(3) v(3)] by auto
    { assume eq: "global_PWindow v = thread_PWindow l"
      have "put_local M (width D) random l v" by (rule put_local_stable [OF l J v(1) o(1)])
      then have all: "global_PWindow v \<le> put_count D (put_array D v ! j)" if "j < width D" for j
        using cleared_all [OF _ _ that] unfolding put_local_def full_for_def eq by blast
      have new: "add64 (thread_PWindow l) (depth D) = global_PWindow v + depth D"
        using no_wrap [OF A] eq by (simp add: add64_eq)
      let ?v = "v\<lparr>global_PWindow := global_PWindow v + depth D\<rparr>"
      have s: "J (?v, K)" "grd i v ?v" "ord i v ?v" using shift [OF v(1) A all] by auto
      have "?safe (F (count_slide l)) (?v, K)"
        by (rule F [OF s(1) ord_trans [OF o(1) s(3)] o(2)]) simp_all
      then show "\<exists>X. hist_step opss i K (K @ X) \<and>
          J (v\<lparr>global_PWindow := add64 (thread_PWindow l) (depth D)\<rparr>, K @ X) \<and>
          grd i v (v\<lparr>global_PWindow := add64 (thread_PWindow l) (depth D)\<rparr>) \<and>
          ?safe (if True then F (count_slide l) else F (l\<lparr>thread_PWindow := thread_PWindow l\<rparr>))
            (v\<lparr>global_PWindow := add64 (thread_PWindow l) (depth D)\<rparr>, K @ X)"
        using s unfolding new by (intro exI [of _ "[]"]) simp }
    show "?safe (if False then F (count_slide l) else F (l\<lparr>thread_PWindow := global_PWindow v\<rparr>)) (v, K)"
      using F [OF v(1) o, of "l\<lparr>thread_PWindow := global_PWindow v\<rparr>"] by simp
  qed
  moreover have "?safe (F l) (u, H')" by (rule F [OF u]) simp_all
  ultimately show "?safe (if thread_PWindow l = global_PWindow u then ?cae else F l) (u, H')"
    by (simp only: split: if_split) blast
qed

lemma put_window_loop_safe:
  assumes "J (s, H)" and "put_local M hops random l s"
    and k: "\<And>t H' d l'. J (t, H') \<Longrightarrow> ord i s0 t \<Longrightarrow> hist_rely i H0 H' \<Longrightarrow> A t \<Longrightarrow>
      thread_index l' < width D \<Longrightarrow> thread_2d.more l' = M \<Longrightarrow> seen (thread_index l') d t \<Longrightarrow> put_count D d < thread_PWindow l' \<Longrightarrow>
      thread_PWindow l' \<le> global_PWindow t \<Longrightarrow>
      safe A T (lin_rely J ord i) (lin_guar J grd opss i) Q (k d l') (t, H')"
    and "ord i s0 s" and "hist_rely i H0 H"
  shows "safe A T (lin_rely J ord i) (lin_guar J grd opss i) Q (put_window_loop D n hops random l k) (s, H)"
  using assms(1,2,4,5)
proof (induction n arbitrary: s H hops random l)
  case 0
  then show ?case using fuel by simp
next
  case (Suc n)
  let ?safe = "safe A T (lin_rely J ord i) (lin_guar J grd opss i) Q"
  have idx: "thread_index l < width D" and M: "thread_2d.more l = M" using Suc.prems by (simp_all add: put_local_def)
  have later: "ord i s0 t" "hist_rely i H0 H'" if "ord i s t" "hist_rely i H H'" for t H'
    using ord_trans [OF Suc.prems(3) that(1)] hist_rely_trans [OF Suc.prems(4) that(2)] by auto
  have restart: "?safe (put_window_loop D n 0 random (l1\<lparr>thread_PWindow := g\<rparr>) k) (u, H')"
    if "J (u, H')" "ord i s u" "hist_rely i H H'" "thread_index l1 = thread_index l" "thread_2d.more l1 = thread_2d.more l" "g = global_PWindow u" for l1 u H' g
    by (rule Suc.IH [OF that(1) _ later [OF that(2,3)]]) (use that idx M in \<open>simp add: put_local_def\<close>)
  have finish: "?safe (load global_PWindow (\<lambda>g. put_window_loop D n 0 random (l1\<lparr>thread_PWindow := g\<rparr>) k)) (t, H')"
    if t: "J (t, H')" "ord i s t" "hist_rely i H H'" "thread_index l1 = thread_index l" "thread_2d.more l1 = thread_2d.more l" for l1 t H'
  proof (rule lin_load, rule t, rule grd_refl)
    fix u H2 assume u: "J (u, H2)" "ord i t u" "hist_rely i H' H2"
    show "?safe (put_window_loop D n 0 random (l1\<lparr>thread_PWindow := global_PWindow u\<rparr>) k) (u, H2)"
      using restart [OF u(1) ord_trans [OF t(2) u(2)] hist_rely_trans [OF t(3) u(3)] t(4,5)] by simp
  qed
  have arr: "thread_index l < length (put_array D t)" if "J (t, H')" for t H'
    using put_length [OF that] idx by simp
  note J = Suc.prems(1) and local = Suc.prems(2)
  show ?case
    unfolding put_window_loop.simps load2_def Let_def
    apply (subst if_not_P, use idx in simp)
    apply (rule lin_checked, rule J, rule arr, assumption)
    apply (rule lin_load, rule J, rule grd_refl)
    subgoal premises p1 for t1 H1
      apply (rule lin_load, rule p1, rule grd_refl)
      subgoal premises p2 for t2 H2
        apply (rule lin_load, rule p2, rule grd_refl)
        subgoal premises p3 for t3 H3
        proof -
          let ?d = "DW (lo (put_array D t1 ! thread_index l)) (hi (put_array D t2 ! thread_index l))"
          have o2: "ord i s t2" "hist_rely i H H2"
            using ord_trans [OF p1(2) p2(2)] hist_rely_trans [OF p1(3) p2(3)] by auto
          have o: "ord i s t3" "hist_rely i H H3"
            using ord_trans [OF o2(1) p3(2)] hist_rely_trans [OF o2(2) p3(3)] by auto
          have here: "put_local M hops random l t3"
            using put_local_stable [OF local J p3(1) o(1)] .
          have seen: "seen (thread_index l) ?d t3"
            using seen_stable [OF seen_load [OF p1(1) p2(1,2) idx] p2(1) p3(1,2)] .
          have cnt: "put_count D ?d \<le> put_count D (put_array D t3 ! thread_index l)"
            using ord_put_count [OF p3(2) p2(1) p3(1) idx] put_count_read [of ?d t2 "thread_index l"] by simp
          consider (sync) "global_PWindow t3 \<noteq> thread_PWindow l"
            | (valid) "global_PWindow t3 = thread_PWindow l" "put_count D ?d < global_PWindow t3"
            | (hop) "global_PWindow t3 = thread_PWindow l" "\<not> put_count D ?d < global_PWindow t3" "hops \<noteq> width D"
            | (slide) "global_PWindow t3 = thread_PWindow l" "\<not> put_count D ?d < global_PWindow t3" "hops = width D"
            by blast
          then show ?thesis
          proof cases
            case sync
            then show ?thesis using restart [OF p3(1) o] by simp
          next
            case valid
            have "?safe (k ?d l) (t3, H3)"
              by (rule k) (use p3 later [OF o] idx M seen valid in simp_all)
            then show ?thesis using valid by simp
          next
            case hop
            have "full_for (thread_PWindow l) t3 (thread_index l)"
              using hop cnt by (simp add: full_for_def)
            then have "?safe (HOP) (t3, H3)" if "HOP = hop D l random hops (\<lambda>l random hops. put_window_loop D n hops random l k)" for HOP
              unfolding that using here hop(3)
              by (intro put_hop_safe p3(1)) (auto intro!: Suc.IH p3(1) later [OF o])
            then show ?thesis using hop by simp
          next
            case slide
            have l: "put_local M (width D) random l t3" using here slide(3) by simp
            have fin: "?safe (load global_PWindow (\<lambda>g. put_window_loop D n 0 random (l1\<lparr>thread_PWindow := g\<rparr>) k)) (u, H')"
              if "J (u, H')" "ord i t3 u" "hist_rely i H3 H'" "thread_index l1 = thread_index l" "thread_2d.more l1 = thread_2d.more l" for u H' l1
              using finish [OF that(1) ord_trans [OF o(1) that(2)] hist_rely_trans [OF o(2) that(3)] that(4,5)] .
            show ?thesis
              using put_slide_safe [OF p3(1) l fin] slide by simp
          qed
        qed
        done
      done
    done
qed

lemma put_window_safe:
  assumes J: "J (s, H)" and l: "thread_index l < width D" and M: "thread_2d.more l = M"
    and k: "\<And>t H' d l'. J (t, H') \<Longrightarrow> ord i s t \<Longrightarrow> hist_rely i H H' \<Longrightarrow> A t \<Longrightarrow>
      thread_index l' < width D \<Longrightarrow> thread_2d.more l' = M \<Longrightarrow> seen (thread_index l') d t \<Longrightarrow> put_count D d < thread_PWindow l' \<Longrightarrow>
      thread_PWindow l' \<le> global_PWindow t \<Longrightarrow>
      safe A T (lin_rely J ord i) (lin_guar J grd opss i) Q (k d l') (t, H')"
  shows "safe A T (lin_rely J ord i) (lin_guar J grd opss i) Q (put_window D n contention l k) (s, H)"
proof -
  let ?safe = "safe A T (lin_rely J ord i) (lin_guar J grd opss i) Q"
  have loop: "?safe (put_window_loop D n 0 0 l1 k) (t, H')"
    if "J (t, H')" "ord i s t" "hist_rely i H H'" "thread_index l1 < width D" "thread_2d.more l1 = M" "thread_PWindow l1 \<le> global_PWindow t"
    for t H' l1
    by (rule put_window_loop_safe [where ?s0.0 = s and ?H0.0 = H]) (use that in \<open>auto simp: put_local_def intro: k\<close>)
  have sync: "?safe (load global_PWindow (\<lambda>g.
           if thread_PWindow l1 \<noteq> g then
             load global_PWindow (\<lambda>g. put_window_loop D n 0 0 (l1\<lparr>thread_PWindow := g\<rparr>) k)
           else put_window_loop D n 0 0 l1 k)) (s, H)"
    if l1: "thread_index l1 < width D" "thread_2d.more l1 = M" for l1
  proof (rule lin_load, rule J, rule grd_refl)
    fix t H' assume t: "J (t, H')" "ord i s t" "hist_rely i H H'"
    show "?safe (if thread_PWindow l1 \<noteq> global_PWindow t then
             load global_PWindow (\<lambda>g. put_window_loop D n 0 0 (l1\<lparr>thread_PWindow := g\<rparr>) k)
           else put_window_loop D n 0 0 l1 k) (t, H')"
    proof (cases "thread_PWindow l1 = global_PWindow t")
      case True
      then show ?thesis using loop [OF t l1] by simp
    next
      case False
      have "?safe (load global_PWindow (\<lambda>g. put_window_loop D n 0 0 (l1\<lparr>thread_PWindow := g\<rparr>) k)) (t, H')"
      proof (rule lin_load, rule t, rule grd_refl)
        fix u K assume u: "J (u, K)" "ord i t u" "hist_rely i H' K"
        show "?safe (put_window_loop D n 0 0 (l1\<lparr>thread_PWindow := global_PWindow u\<rparr>) k) (u, K)"
          using l1 by (intro loop u(1) ord_trans [OF t(2) u(2)] hist_rely_trans [OF t(3) u(3)]) simp_all
      qed
      then show ?thesis using False by simp
    qed
  qed
  have width: "0 < width D" "width D < U32" using width_ok [OF J] by simp_all
  have w: "width D mod U32 = width D" using width by simp
  show ?thesis
  proof (cases contention)
    case True
    show ?thesis
      unfolding put_window_def Let_def random_index_2d_def w if_P [OF True]
      by (rule draw_cases [OF width(1)], rule sync) (use M in simp_all)
  next
    case False
    show ?thesis
      unfolding put_window_def Let_def if_not_P [OF False] by (rule sync [OF l M])
  qed
qed

end

section \<open>The contract of get\_window\<close>

text \<open>
  \<open>low j m s\<close> is what a visit to sub-structure \<open>j\<close> establishes when the get window stands at
  \<open>m\<close> and the sub-structure has nothing valid to offer, \<open>more m s\<close> what it establishes when
  there is something beyond the window. The window slides only when every sub-structure has
  been found low and there is more.
\<close>

locale get_window_client =
  fixes A :: "'z window_scheme \<Rightarrow> bool"
    and T :: "failure \<Rightarrow> bool"
    and J :: "'z window_scheme \<times> ('o, 'r) history \<Rightarrow> bool"
    and ord grd :: "nat \<Rightarrow> 'z window_scheme \<Rightarrow> 'z window_scheme \<Rightarrow> bool"
    and opss :: "'o list list"
    and D :: "('z window_scheme, 'x, 'y) dset"
    and got :: "nat \<Rightarrow> ('x, 'y) dword \<Rightarrow> 'z window_scheme \<Rightarrow> bool"
    and low :: "nat \<Rightarrow> nat \<Rightarrow> 'z window_scheme \<Rightarrow> bool"
    and more :: "nat \<Rightarrow> 'z window_scheme \<Rightarrow> bool"
  assumes fuel: "T No_fuel"
    and width_ok: "J (s, H) \<Longrightarrow> 0 < width D \<and> width D < U32"
    and put_length: "J (s, H) \<Longrightarrow> length (put_array D s) = width D"
    and get_length: "J (s, H) \<Longrightarrow> length (get_array D s) = width D"
    and ord_refl: "ord i s s"
    and ord_trans: "ord i s t \<Longrightarrow> ord i t u \<Longrightarrow> ord i s u"
    and grd_refl: "grd i s s"
    and ord_GWindow: "ord i s t \<Longrightarrow> global_GWindow s \<le> global_GWindow t"
    and got_load: "J (s, H) \<Longrightarrow> J (t, H') \<Longrightarrow> ord i s t \<Longrightarrow> j < width D \<Longrightarrow>
      got j (DW (lo (get_array D s ! j)) (hi (get_array D t ! j))) t"
    and got_stable: "got j d s \<Longrightarrow> J (s, H) \<Longrightarrow> J (t, H') \<Longrightarrow> ord i s t \<Longrightarrow> j < width D \<Longrightarrow> got j d t"
    and low_stable: "low j m s \<Longrightarrow> J (s, H) \<Longrightarrow> J (t, H') \<Longrightarrow> ord i s t \<Longrightarrow> j < width D \<Longrightarrow> low j m t"
    and more_stable: "more m s \<Longrightarrow> J (s, H) \<Longrightarrow> J (t, H') \<Longrightarrow> ord i s t \<Longrightarrow> more m t"
    and visit_low: "got j d s \<Longrightarrow> J (s, H) \<Longrightarrow> J (t, H') \<Longrightarrow> ord i s t \<Longrightarrow> j < width D \<Longrightarrow>
      global_GWindow s = global_GWindow t \<Longrightarrow>
      \<not> (get_count D d < global_GWindow t \<and> put_count D (put_array D s ! j) \<noteq> get_count D d) \<Longrightarrow>
      low j (global_GWindow t) t"
    and visit_more: "got j d s \<Longrightarrow> J (s, H) \<Longrightarrow> J (t, H') \<Longrightarrow> ord i s t \<Longrightarrow> j < width D \<Longrightarrow>
      global_GWindow s = global_GWindow t \<Longrightarrow> global_GWindow t \<le> get_count D d \<Longrightarrow> put_count D (put_array D s ! j) \<noteq> get_count D d \<Longrightarrow>
      more (global_GWindow t) t"
    and no_wrap: "A s \<Longrightarrow> global_GWindow s + depth D < U64"
    and shift: "J (s, H) \<Longrightarrow> A s \<Longrightarrow> (\<And>j. j < width D \<Longrightarrow> low j (global_GWindow s) s) \<Longrightarrow>
      more (global_GWindow s) s \<Longrightarrow>
      J (s\<lparr>global_GWindow := global_GWindow s + depth D\<rparr>, H) \<and>
      grd i s (s\<lparr>global_GWindow := global_GWindow s + depth D\<rparr>) \<and>
      ord i s (s\<lparr>global_GWindow := global_GWindow s + depth D\<rparr>)"
begin

definition get_local :: "'l \<Rightarrow> nat \<Rightarrow> nat \<Rightarrow> bool \<Rightarrow> 'l thread_2d_scheme \<Rightarrow> 'z window_scheme \<Rightarrow> bool" where
  "get_local M hops random notempty l s \<longleftrightarrow> thread_2d.more l = M \<and> thread_index l < width D \<and> hops \<le> width D \<and>
     thread_GWindow l \<le> global_GWindow s \<and>
     (0 < hops \<longrightarrow> random_hops D \<le> random) \<and> (notempty \<longrightarrow> more (thread_GWindow l) s) \<and>
     cleared (width D) (thread_index l) hops (\<lambda>j. low j (thread_GWindow l) s)"

lemma get_local_stable:
  assumes l: "get_local M hops random ne l s" and J: "J (s, H)" "J (t, H')" and o: "ord i s t"
  shows "get_local M hops random ne l t"
proof -
  have "cleared (width D) (thread_index l) hops (\<lambda>j. low j (thread_GWindow l) t)"
    by (rule cleared_mono [where P = "\<lambda>j. low j (thread_GWindow l) s"])
      (use l width_ok [OF J(1)] low_stable [OF _ J o] in \<open>auto simp: get_local_def\<close>)
  then show ?thesis using l more_stable [OF _ J o] ord_GWindow [OF o] by (auto simp: get_local_def)
qed

lemma get_hop_safe:
  assumes J: "J (s, H)" and "get_local M hops random ne l s" and "low (thread_index l) (thread_GWindow l) s"
    and "ne' \<Longrightarrow> more (thread_GWindow l) s" and "hops \<noteq> width D"
    and k: "\<And>l' random' hops'. get_local M hops' random' ne' l' s \<Longrightarrow>
      safe A T R G Q (k l' random' hops') (s, H)"
  shows "safe A T R G Q (hop D l random hops k) (s, H)"
proof -
  have width: "0 < width D" "width D < U32" using width_ok [OF J] by simp_all
  show ?thesis
  proof (cases "random < random_hops D")
  case True
  then have h: "hops = 0" using assms(2) by (auto simp: get_local_def)
  have w: "width D mod U32 = width D" using width by simp
  show ?thesis
    unfolding hop_def Let_def if_P [OF True] random_index_2d_def w
    by (rule draw_cases [OF width(1)], rule k)
      (use assms(2,4) h in \<open>auto simp: get_local_def count_hop_def\<close>)
next
  case False
  have lt: "hops < width D" "thread_index l < width D"
    using assms by (auto simp: get_local_def)
  then have idx: "add64 (thread_index l) 1 = thread_index l + 1" "add64 hops 1 = Suc hops"
    using width by (auto simp: add64_def U32_def U64_def)
  have "cleared (width D) (if width D \<le> thread_index l + 1 then 0 else thread_index l + 1) (Suc hops)
      (\<lambda>j. low j (thread_GWindow l) s)"
    by (rule cleared_Suc) (use assms lt in \<open>auto simp: get_local_def\<close>)
  then show ?thesis
    unfolding hop_def Let_def if_not_P [OF False] count_simps idx
    by (intro k) (use assms lt False in \<open>auto simp: get_local_def count_hop_def\<close>)
  qed
qed

lemma get_slide_safe:
  assumes J: "J (t, H)" and l: "get_local M (width D) random True l t"
    and F: "\<And>u H' l1. J (u, H') \<Longrightarrow> ord i t u \<Longrightarrow> hist_rely i H H' \<Longrightarrow> thread_index l1 = thread_index l \<Longrightarrow> thread_2d.more l1 = thread_2d.more l \<Longrightarrow>
      safe A T (lin_rely J ord i) (lin_guar J grd opss i) Q (F l1) (u, H')"
  shows "safe A T (lin_rely J ord i) (lin_guar J grd opss i) Q
    (load global_GWindow (\<lambda>g. if thread_GWindow l = g then
       cae global_GWindow (\<lambda>v s. s\<lparr>global_GWindow := v\<rparr>) (thread_GWindow l)
         (add64 (thread_GWindow l) (depth D)) (\<lambda>ok v.
         if ok then F (count_slide l) else F (l\<lparr>thread_GWindow := v\<rparr>))
       else F l)) (t, H)"
proof (rule lin_load, rule J, rule grd_refl)
  fix u H' assume u: "J (u, H')" "ord i t u" "hist_rely i H H'"
  let ?safe = "safe A T (lin_rely J ord i) (lin_guar J grd opss i) Q"
  let ?cae = "cae global_GWindow (\<lambda>v s. s\<lparr>global_GWindow := v\<rparr>) (thread_GWindow l)
         (add64 (thread_GWindow l) (depth D)) (\<lambda>ok v.
         if ok then F (count_slide l) else F (l\<lparr>thread_GWindow := v\<rparr>))"
  have "?safe ?cae (u, H')"
  proof (rule lin_cae, rule u, rule grd_refl)
    fix v K assume v: "J (v, K)" "ord i u v" "hist_rely i H' K" and A: "A v"
    have o: "ord i t v" "hist_rely i H K"
      using ord_trans [OF u(2) v(2)] hist_rely_trans [OF u(3) v(3)] by auto
    { assume eq: "global_GWindow v = thread_GWindow l"
      have here: "get_local M (width D) random True l v" by (rule get_local_stable [OF l J v(1) o(1)])
      then have all: "low j (global_GWindow v) v" if "j < width D" for j
        using cleared_all [OF _ _ that, of "thread_index l" "\<lambda>j. low j (thread_GWindow l) v"]
        unfolding get_local_def eq by blast
      have more: "more (global_GWindow v) v" using here by (simp add: get_local_def eq)
      have new: "add64 (thread_GWindow l) (depth D) = global_GWindow v + depth D"
        using no_wrap [OF A] eq by (simp add: add64_eq)
      let ?v = "v\<lparr>global_GWindow := global_GWindow v + depth D\<rparr>"
      have s: "J (?v, K)" "grd i v ?v" "ord i v ?v" using shift [OF v(1) A all more] by auto
      have "?safe (F (count_slide l)) (?v, K)"
        by (rule F [OF s(1) ord_trans [OF o(1) s(3)] o(2)]) simp_all
      then show "\<exists>X. hist_step opss i K (K @ X) \<and>
          J (v\<lparr>global_GWindow := add64 (thread_GWindow l) (depth D)\<rparr>, K @ X) \<and>
          grd i v (v\<lparr>global_GWindow := add64 (thread_GWindow l) (depth D)\<rparr>) \<and>
          ?safe (if True then F (count_slide l) else F (l\<lparr>thread_GWindow := thread_GWindow l\<rparr>))
            (v\<lparr>global_GWindow := add64 (thread_GWindow l) (depth D)\<rparr>, K @ X)"
        using s unfolding new by (intro exI [of _ "[]"]) simp }
    show "?safe (if False then F (count_slide l) else F (l\<lparr>thread_GWindow := global_GWindow v\<rparr>)) (v, K)"
      using F [OF v(1) o, of "l\<lparr>thread_GWindow := global_GWindow v\<rparr>"] by simp
  qed
  moreover have "?safe (F l) (u, H')" by (rule F [OF u]) simp_all
  ultimately show "?safe (if thread_GWindow l = global_GWindow u then ?cae else F l) (u, H')"
    by (simp only: split: if_split) blast
qed

lemma get_window_loop_safe:
  assumes "J (s, H)" and "get_local M hops random ne l s"
    and k: "\<And>t H' d l'. J (t, H') \<Longrightarrow> ord i s0 t \<Longrightarrow> hist_rely i H0 H' \<Longrightarrow> A t \<Longrightarrow>
      thread_index l' < width D \<Longrightarrow> thread_2d.more l' = M \<Longrightarrow> got (thread_index l') d t \<Longrightarrow>
      \<exists>X. hist_step opss i H' (H' @ X) \<and> J (t, H' @ X) \<and>
        safe A T (lin_rely J ord i) (lin_guar J grd opss i) Q (k d l') (t, H' @ X)"
    and "ord i s0 s" and "hist_rely i H0 H"
  shows "safe A T (lin_rely J ord i) (lin_guar J grd opss i) Q (get_window_loop D n hops random ne l k) (s, H)"
  using assms(1,2,4,5)
proof (induction n arbitrary: s H hops random ne l)
  case 0
  then show ?case using fuel by simp
next
  case (Suc n)
  let ?safe = "safe A T (lin_rely J ord i) (lin_guar J grd opss i) Q"
  note J = Suc.prems(1) and local = Suc.prems(2)
  have idx: "thread_index l < width D" and M: "thread_2d.more l = M" using local by (simp_all add: get_local_def)
  have later: "ord i s0 t" "hist_rely i H0 H'" if "ord i s t" "hist_rely i H H'" for t H'
    using ord_trans [OF Suc.prems(3) that(1)] hist_rely_trans [OF Suc.prems(4) that(2)] by auto
  have restart: "?safe (get_window_loop D n 0 random False (l1\<lparr>thread_GWindow := g\<rparr>) k) (u, H')"
    if "J (u, H')" "ord i s u" "hist_rely i H H'" "thread_index l1 = thread_index l" "thread_2d.more l1 = thread_2d.more l" "g = global_GWindow u" for l1 u H' g
    by (rule Suc.IH [OF that(1) _ later [OF that(2,3)]]) (use that idx M in \<open>simp add: get_local_def\<close>)
  have finish: "?safe (load global_GWindow (\<lambda>g. get_window_loop D n 0 random False (l1\<lparr>thread_GWindow := g\<rparr>) k)) (t, H')"
    if t: "J (t, H')" "ord i s t" "hist_rely i H H'" "thread_index l1 = thread_index l" "thread_2d.more l1 = thread_2d.more l" for l1 t H'
  proof (rule lin_load, rule t, rule grd_refl)
    fix u H2 assume u: "J (u, H2)" "ord i t u" "hist_rely i H' H2"
    show "?safe (get_window_loop D n 0 random False (l1\<lparr>thread_GWindow := global_GWindow u\<rparr>) k) (u, H2)"
      by (rule restart [OF u(1) ord_trans [OF t(2) u(2)] hist_rely_trans [OF t(3) u(3)] t(4,5) refl])
  qed
  have arr: "thread_index l < length (put_array D t)" "thread_index l < length (get_array D t)" if "J (t, H')" for t H'
    using put_length [OF that] get_length [OF that] idx by simp_all
  show ?case
    unfolding get_window_loop.simps load2_def Let_def
    apply (rule lin_checked, rule J, rule arr(2), assumption)
    apply (rule lin_load, rule J, rule grd_refl)
    subgoal premises p1 for t1 H1
      apply (rule lin_load, rule p1, rule grd_refl)
      subgoal premises p2 for t2 H2
        apply (rule lin_checked, rule p2, rule arr(1), assumption)
        apply (rule lin_load, rule p2, rule grd_refl)
        subgoal premises p3 for t3 H3
          apply (rule lin_load_point, rule p3)
          subgoal premises p4 for t4 H4
          proof -
            have stay: "\<exists>X. hist_step opss i H4 (H4 @ X) \<and> J (t4, H4 @ X) \<and> grd i t4 t4 \<and> ?safe p (t4, H4 @ X)"
              if "?safe p (t4, H4)" for p
              using that p4(1) grd_refl by (intro exI [of _ "[]"]) simp
            let ?d = "DW (lo (get_array D t1 ! thread_index l)) (hi (get_array D t2 ! thread_index l))"
            let ?p = "put_count D (put_array D t3 ! thread_index l)"
            have o2: "ord i s t2" "hist_rely i H H2"
              using ord_trans [OF p1(2) p2(2)] hist_rely_trans [OF p1(3) p2(3)] by auto
            have o3: "ord i s t3" "hist_rely i H H3"
              using ord_trans [OF o2(1) p3(2)] hist_rely_trans [OF o2(2) p3(3)] by auto
            have o: "ord i s t4" "hist_rely i H H4"
              using ord_trans [OF o3(1) p4(2)] hist_rely_trans [OF o3(2) p4(3)] by auto
            have here: "get_local M hops random ne l t4"
              using get_local_stable [OF local J p4(1) o(1)] .
            have got3: "got (thread_index l) ?d t3"
              using got_stable [OF got_load [OF p1(1) p2(1,2) idx] p2(1) p3(1,2) idx] .
            have got: "got (thread_index l) ?d t4"
              using got_stable [OF got3 p3(1) p4(1,2) idx] .
            have "thread_GWindow l \<le> global_GWindow t3"
              using get_local_stable [OF local J p3(1) o3(1)] by (simp add: get_local_def)
            then have gw: "global_GWindow t3 = global_GWindow t4" if "global_GWindow t4 = thread_GWindow l"
              using that ord_GWindow [OF p4(2)] by simp
            note visit = visit_low [OF got3 p3(1) p4(1,2) idx gw] visit_more [OF got3 p3(1) p4(1,2) idx gw]
            have k: "\<exists>X. hist_step opss i H4 (H4 @ X) \<and> J (t4, H4 @ X) \<and> grd i t4 t4 \<and> ?safe (k ?d l) (t4, H4 @ X)"
              using k [OF p4(1) later [OF o] p4(5) idx M got] grd_refl by blast
            consider (sync) "global_GWindow t4 \<noteq> thread_GWindow l"
              | (valid) "global_GWindow t4 = thread_GWindow l" "get_count D ?d < global_GWindow t4 \<and> ?p \<noteq> get_count D ?d"
              | (hop) "global_GWindow t4 = thread_GWindow l" "\<not> (get_count D ?d < global_GWindow t4 \<and> ?p \<noteq> get_count D ?d)"
                  "hops \<noteq> width D"
              | (slide) "global_GWindow t4 = thread_GWindow l" "\<not> (get_count D ?d < global_GWindow t4 \<and> ?p \<noteq> get_count D ?d)"
                  "hops = width D"
              by blast
            then show ?thesis
            proof cases
              case sync
              then show ?thesis using stay [OF restart [OF p4(1) o]] by simp
            next
              case valid
              then show ?thesis using k by simp
            next
              case hop
              have lowj: "low (thread_index l) (thread_GWindow l) t4" using visit(1) hop by simp
              have more: "more (thread_GWindow l) t4" if "ne \<or> ?p \<noteq> get_count D ?d"
                using that visit(2) hop here by (auto simp: get_local_def not_less)
              have "?safe HOP (t4, H4)" if "HOP = hop D l random hops (\<lambda>l random hops.
                  get_window_loop D n hops random (ne \<or> ?p \<noteq> get_count D ?d) l k)" for HOP
                unfolding that
                by (rule get_hop_safe [OF p4(1) here lowj more hop(3)])
                  (auto intro!: Suc.IH p4(1) later [OF o])
              from stay [OF this [OF refl]] show ?thesis using hop by auto
            next
              case slide
              have fin: "?safe (load global_GWindow (\<lambda>g. get_window_loop D n 0 random False (l1\<lparr>thread_GWindow := g\<rparr>) k)) (u, H')"
                if "J (u, H')" "ord i t4 u" "hist_rely i H4 H'" "thread_index l1 = thread_index l" "thread_2d.more l1 = thread_2d.more l" for u H' l1
                using finish [OF that(1) ord_trans [OF o(1) that(2)] hist_rely_trans [OF o(2) that(3)] that(4,5)] .
              show ?thesis
              proof (cases ne)
                case True
                then have "get_local M (width D) random True l t4" using here slide(3) by simp
                from stay [OF get_slide_safe [OF p4(1) this fin]] show ?thesis using slide True by auto
              next
                case False
                then show ?thesis using slide k by auto
              qed
            qed
          qed
          done
        done
      done
    done
qed

lemma get_window_safe:
  assumes J: "J (s, H)" and l: "thread_index l < width D" and M: "thread_2d.more l = M"
    and k: "\<And>t H' d l'. J (t, H') \<Longrightarrow> ord i s t \<Longrightarrow> hist_rely i H H' \<Longrightarrow> A t \<Longrightarrow>
      thread_index l' < width D \<Longrightarrow> thread_2d.more l' = M \<Longrightarrow> got (thread_index l') d t \<Longrightarrow>
      \<exists>X. hist_step opss i H' (H' @ X) \<and> J (t, H' @ X) \<and>
        safe A T (lin_rely J ord i) (lin_guar J grd opss i) Q (k d l') (t, H' @ X)"
  shows "safe A T (lin_rely J ord i) (lin_guar J grd opss i) Q (get_window D n contention l k) (s, H)"
proof -
  let ?safe = "safe A T (lin_rely J ord i) (lin_guar J grd opss i) Q"
  have loop: "?safe (get_window_loop D n 0 0 False l1 k) (t, H')"
    if "J (t, H')" "ord i s t" "hist_rely i H H'" "thread_index l1 < width D" "thread_2d.more l1 = M" "thread_GWindow l1 \<le> global_GWindow t"
    for t H' l1
    by (rule get_window_loop_safe [where ?s0.0 = s and ?H0.0 = H]) (use that in \<open>auto simp: get_local_def intro: k\<close>)
  have sync: "?safe (load global_GWindow (\<lambda>g.
           if thread_GWindow l1 \<noteq> g then
             load global_GWindow (\<lambda>g. get_window_loop D n 0 0 False (l1\<lparr>thread_GWindow := g\<rparr>) k)
           else get_window_loop D n 0 0 False l1 k)) (s1, H1)"
    if l1: "thread_index l1 < width D" "thread_2d.more l1 = M" and s1: "J (s1, H1)" "ord i s s1" "hist_rely i H H1" for l1 s1 H1
  proof (rule lin_load, rule s1, rule grd_refl)
    fix t H' assume t': "J (t, H')" "ord i s1 t" "hist_rely i H1 H'"
    have t: "J (t, H')" "ord i s t" "hist_rely i H H'"
      using t' ord_trans [OF s1(2) t'(2)] hist_rely_trans [OF s1(3) t'(3)] by auto
    show "?safe (if thread_GWindow l1 \<noteq> global_GWindow t then
             load global_GWindow (\<lambda>g. get_window_loop D n 0 0 False (l1\<lparr>thread_GWindow := g\<rparr>) k)
           else get_window_loop D n 0 0 False l1 k) (t, H')"
    proof (cases "thread_GWindow l1 = global_GWindow t")
      case True
      then show ?thesis using loop [OF t l1] by simp
    next
      case False
      have "?safe (load global_GWindow (\<lambda>g. get_window_loop D n 0 0 False (l1\<lparr>thread_GWindow := g\<rparr>) k)) (t, H')"
      proof (rule lin_load, rule t, rule grd_refl)
        fix u K assume u: "J (u, K)" "ord i t u" "hist_rely i H' K"
        show "?safe (get_window_loop D n 0 0 False (l1\<lparr>thread_GWindow := global_GWindow u\<rparr>) k) (u, K)"
          using l1 by (intro loop u(1) ord_trans [OF t(2) u(2)] hist_rely_trans [OF t(3) u(3)]) simp_all
      qed
      then show ?thesis using False by simp
    qed
  qed
  have width: "0 < width D" "width D < U32" using width_ok [OF J] by simp_all
  have w: "width D mod U32 = width D" using width by simp
  show ?thesis
    unfolding get_window_def Let_def random_index_2d_def w
  proof (rule lin_load, rule J, rule grd_refl)
    fix t H' assume t: "J (t, H')" "ord i s t" "hist_rely i H H'"
    have now: "?safe (load global_GWindow (\<lambda>g.
           if thread_GWindow l1 \<noteq> g then
             load global_GWindow (\<lambda>g. get_window_loop D n 0 0 False (l1\<lparr>thread_GWindow := g\<rparr>) k)
           else get_window_loop D n 0 0 False l1 k)) (t, H')" if "thread_index l1 < width D" "thread_2d.more l1 = M" for l1
      by (rule sync [OF that t])
    show "?safe (if contention then draw (width D) (l\<lparr>thread_GWindow := global_GWindow t\<rparr>) (\<lambda>j l. load global_GWindow (\<lambda>g.
           if thread_GWindow (l\<lparr>thread_index := j\<rparr>) \<noteq> g then
             load global_GWindow (\<lambda>g. get_window_loop D n 0 0 False (l\<lparr>thread_index := j, thread_GWindow := g\<rparr>) k)
           else get_window_loop D n 0 0 False (l\<lparr>thread_index := j\<rparr>) k))
         else load global_GWindow (\<lambda>g.
           if thread_GWindow (l\<lparr>thread_GWindow := global_GWindow t\<rparr>) \<noteq> g then
             load global_GWindow (\<lambda>g. get_window_loop D n 0 0 False (l\<lparr>thread_GWindow := global_GWindow t, thread_GWindow := g\<rparr>) k)
           else get_window_loop D n 0 0 False (l\<lparr>thread_GWindow := global_GWindow t\<rparr>) k)) (t, H')"
    proof (cases contention)
      case True
      show ?thesis
        unfolding if_P [OF True] by (rule draw_cases [OF width(1)], rule now) (use M in simp_all)
    next
      case False
      show ?thesis
        unfolding if_not_P [OF False] by (rule now) (simp_all add: l M)
    qed
  qed
qed

end

end
