(* ===== verification/Counter_2Dd.thy ===== *)
theory Counter_2Dd
  imports Window_2Dd Dimensions
begin

text \<open>
  The 2Dd counter, \<open>src/2Dd-counter/2Dd-counter.c\<close>: an array of pairs of a get and a put count,
  each operation adding one to a count inside the window that \<open>put_window\<close> or \<open>get_window\<close>
  found. The get and the put array are the same. The window maxima start at zero: unlike the
  queue, this structure does not call \<open>initialize_global_window\<close>.

  It is shown to be linearizable to a counter of sub-counters in which an increment is allowed
  only on a sub-counter that is less than \<open>depth\<close> ahead of every other one; the window
  invariant bounds the deviation of what an operation returns from the true count.
\<close>

record counter_2dd = window +
  counters :: "(nat, nat) dword list"

definition set_2dd :: "nat \<Rightarrow> nat \<Rightarrow> (counter_2dd, nat, nat) dset" where
  "set_2dd w d = \<lparr>width = w, depth = d, random_hops = 2, get_array = counters, put_array = counters,
     put_count = hi, get_count = lo\<rparr>"

lemma set_2dd_simps [simp]:
  "width (set_2dd w d) = w" "depth (set_2dd w d) = d" "random_hops (set_2dd w d) = 2"
  "get_array (set_2dd w d) = counters" "put_array (set_2dd w d) = counters"
  "put_count (set_2dd w d) = hi" "get_count (set_2dd w d) = lo"
  by (simp_all add: set_2dd_def)

text \<open>
  The initial state: the globals are zero, and \<open>create_counter\<close> sets the descriptors to zero
  one by one. It yields the constants of the set, the relaxation bound it stores and the
  state; \<open>alloc_ok\<close> is whether \<open>ssalloc_aligned\<close> returned memory for the set.
\<close>

definition init_counter_2dd :: "nat \<Rightarrow> counter_2dd" where
  "init_counter_2dd w = \<lparr>global_PWindow = 0, global_GWindow = 0, counters = replicate w (DW 0 0)\<rparr>"

definition create_counter_2dd :: "bool \<Rightarrow> nat \<Rightarrow> nat \<Rightarrow> nat \<Rightarrow> nat \<Rightarrow> nat \<Rightarrow>
    failure + ((counter_2dd, nat, nat) dset \<times> nat \<times> counter_2dd)" where
  "create_counter_2dd alloc_ok num_threads w d k_mode k = (case dimensions U64 2 num_threads w d k_mode k of
     Inl e \<Rightarrow> Inl e
   | Inr (w, d, k) \<Rightarrow> if \<not> alloc_ok then Inl Exit_program else Inr (set_2dd w d, k, init_counter_2dd w))"

definition counter_cae :: "nat \<Rightarrow> (nat, nat) dword \<Rightarrow> (nat, nat) dword \<Rightarrow> (bool \<Rightarrow> (counter_2dd, 'a) prog) \<Rightarrow>
    (counter_2dd, 'a) prog" where
  "counter_cae j desc_read desc_new k = checked (\<lambda>s. j < length (counters s))
     (cae (\<lambda>s. counters s ! j) (\<lambda>v s. s\<lparr>counters := (counters s)[j := v]\<rparr>) desc_read desc_new (\<lambda>ok _. k ok))"

definition counter_value :: "bool \<Rightarrow> nat \<Rightarrow> (nat, nat) dword \<Rightarrow> nat" where
  "counter_value validatesize w new = (if validatesize then 1 else mul64 (sub64 (hi new) (lo new)) w)"

fun increment_2dd :: "bool \<Rightarrow> (counter_2dd, nat, nat) dset \<Rightarrow> nat \<Rightarrow> nat \<Rightarrow> bool \<Rightarrow> thread_2d \<Rightarrow>
    (counter_2dd, nat \<times> thread_2d) prog" where
  "increment_2dd validatesize D N 0 contention l = Stop No_fuel"
| "increment_2dd validatesize D N (Suc n) contention l =
     put_window D N contention l (\<lambda>descriptor l.
       let new = DW (lo descriptor) (add64 (hi descriptor) 1) in
       counter_cae (thread_index l) descriptor new (\<lambda>ok.
         if ok then Ret (counter_value validatesize (width D) new, l)
         else increment_2dd validatesize D N n True (count_put_fail l)))"

fun decrement_2dd :: "bool \<Rightarrow> (counter_2dd, nat, nat) dset \<Rightarrow> nat \<Rightarrow> nat \<Rightarrow> bool \<Rightarrow> thread_2d \<Rightarrow>
    (counter_2dd, nat \<times> thread_2d) prog" where
  "decrement_2dd validatesize D N 0 contention l = Stop No_fuel"
| "decrement_2dd validatesize D N (Suc n) contention l =
     get_window D N contention l (\<lambda>descriptor l.
       if 0 < sub64 (hi descriptor) (lo descriptor) then
         let new = DW (add64 (lo descriptor) 1) (hi descriptor) in
         counter_cae (thread_index l) descriptor new (\<lambda>ok.
           if ok then Ret (counter_value validatesize (width D) new, l)
           else decrement_2dd validatesize D N n True (count_get_fail l))
       else Ret (0, count_null l))"

fun counter_size_2dd_loop :: "nat \<Rightarrow> nat \<Rightarrow> nat \<Rightarrow> (counter_2dd, nat) prog" where
  "counter_size_2dd_loop 0 i sz = Ret sz"
| "counter_size_2dd_loop (Suc r) i sz = checked (\<lambda>s. i < length (counters s))
     (load2 (\<lambda>s. counters s ! i) (\<lambda>d. counter_size_2dd_loop r (i + 1) (add64 sz (sub64 (hi d) (lo d)))))"

definition counter_size_2dd :: "(counter_2dd, nat, nat) dset \<Rightarrow> (counter_2dd, nat) prog" where
  "counter_size_2dd D = counter_size_2dd_loop (width D) 0 0"

section \<open>Specification\<close>

datatype op_2dd = Inc2 | Dec2

text \<open>The response of an operation is its result and the sub-counter it used.\<close>

fun counter_2dd_op :: "bool \<Rightarrow> (counter_2dd, nat, nat) dset \<Rightarrow> nat \<Rightarrow> nat \<Rightarrow> op_2dd \<Rightarrow> thread_2d \<Rightarrow>
    (counter_2dd, (nat \<times> nat) \<times> thread_2d) prog" where
  "counter_2dd_op v D N n Inc2 l = bind (increment_2dd v D N n False l) (\<lambda>(r, l). Ret ((r, thread_index l), l))"
| "counter_2dd_op v D N n Dec2 l = bind (decrement_2dd v D N n False l) (\<lambda>(r, l). Ret ((r, thread_index l), l))"

text \<open>
  The relaxed sequential counter: an increment may use sub-counter \<open>j\<close> only if no other one has
  fallen \<open>depth\<close> behind; a decrement takes from a sub-counter that is not empty, or returns zero.
\<close>

fun spec_2dd :: "nat \<Rightarrow> ((nat, nat) dword list, op_2dd, nat \<times> nat) spec" where
  "spec_2dd dp q Inc2 (r, j) =
     (if r = 1 \<and> j < length q \<and> (\<forall>x \<in> set q. hi (q ! j) + 1 \<le> hi x + dp)
      then Some (q[j := DW (lo (q ! j)) (hi (q ! j) + 1)]) else None)"
| "spec_2dd dp q Dec2 (r, j) =
     (if r = 0 then Some q
      else if r = 1 \<and> j < length q \<and> lo (q ! j) < hi (q ! j)
      then Some (q[j := DW (lo (q ! j) + 1) (hi (q ! j))]) else None)"

section \<open>Invariant\<close>

definition window_2dd_ok :: "nat \<Rightarrow> nat \<Rightarrow> counter_2dd \<Rightarrow> bool" where
  "window_2dd_ok w d s \<longleftrightarrow> 0 < w \<and> w < U32 \<and> length (counters s) = w \<and>
     (\<forall>x \<in> set (counters s). lo x \<le> hi x \<and> hi x \<le> global_PWindow s \<and> global_PWindow s \<le> hi x + d \<and>
        global_GWindow s \<le> lo x + 2 * d) \<and>
     global_GWindow s \<le> global_PWindow s \<and> d dvd global_PWindow s \<and> d dvd global_GWindow s"

definition inv_2dd :: "nat \<Rightarrow> nat \<Rightarrow> op_2dd list list \<Rightarrow> counter_2dd \<times> (op_2dd, nat \<times> nat) history \<Rightarrow> bool" where
  "inv_2dd w d opss s \<longleftrightarrow> window_2dd_ok w d (fst s) \<and>
     replay (spec_2dd d) (replicate w (DW 0 0)) (snd s) = Some (counters (fst s)) \<and> hist_ok opss (snd s)"

text \<open>What may happen between two steps of a thread: counts and windows only grow.\<close>

definition grows_2dd :: "nat \<Rightarrow> counter_2dd \<Rightarrow> counter_2dd \<Rightarrow> bool" where
  "grows_2dd i s t \<longleftrightarrow> global_PWindow s \<le> global_PWindow t \<and> global_GWindow s \<le> global_GWindow t \<and>
     length (counters t) = length (counters s) \<and>
     (\<forall>j < length (counters s). lo (counters s ! j) \<le> lo (counters t ! j) \<and> hi (counters s ! j) \<le> hi (counters t ! j))"

lemma grows_2dd_refl: "grows_2dd i s s"
  by (simp add: grows_2dd_def)

lemma grows_2dd_trans: "grows_2dd i s t \<Longrightarrow> grows_2dd i t u \<Longrightarrow> grows_2dd i s u"
  unfolding grows_2dd_def by (simp, meson order_trans)

lemma grows_2dd_any: "grows_2dd i s t \<Longrightarrow> grows_2dd j s t"
  by (simp add: grows_2dd_def)

definition no_wrap_2dd :: "nat \<Rightarrow> counter_2dd \<Rightarrow> bool" where
  "no_wrap_2dd d s \<longleftrightarrow> global_PWindow s + d < U64 \<and> global_GWindow s + d < U64"

section \<open>The window contracts hold\<close>

definition got_2dd :: "nat \<Rightarrow> nat \<Rightarrow> (nat, nat) dword \<Rightarrow> counter_2dd \<Rightarrow> bool" where
  "got_2dd w j d s \<longleftrightarrow> lo d \<le> lo (counters s ! j) \<and> lo d \<le> hi d \<and> hi d \<le> hi (counters s ! j)"

definition low_2dd :: "nat \<Rightarrow> nat \<Rightarrow> nat \<Rightarrow> counter_2dd \<Rightarrow> bool" where
  "low_2dd d j m s \<longleftrightarrow> m \<le> lo (counters s ! j) + d"

definition more_2dd :: "nat \<Rightarrow> counter_2dd \<Rightarrow> bool" where
  "more_2dd m s \<longleftrightarrow> m < global_PWindow s"

lemma window_2dd_nth:
  "window_2dd_ok w d s \<Longrightarrow> j < w \<Longrightarrow> lo (counters s ! j) \<le> hi (counters s ! j) \<and>
     hi (counters s ! j) \<le> global_PWindow s \<and> global_PWindow s \<le> hi (counters s ! j) + d \<and>
     global_GWindow s \<le> lo (counters s ! j) + 2 * d"
  by (auto simp: window_2dd_ok_def)

lemma inv_2dd_length: "inv_2dd w d opss (s, H) \<Longrightarrow> length (counters s) = w"
  by (simp add: inv_2dd_def window_2dd_ok_def)

lemma inv_2dd_width: "inv_2dd w d opss (s, H) \<Longrightarrow> length (counters s) = w \<and> 0 < w \<and> w < U32"
  by (simp add: inv_2dd_def window_2dd_ok_def)

lemma inv_2dd_window: "inv_2dd w d opss (s, H) \<Longrightarrow> window_2dd_ok w d s"
  by (simp add: inv_2dd_def)

lemma inv_2dd_Put_shift:
  assumes "inv_2dd w d opss (s, H)" and "\<And>j. j < w \<Longrightarrow> global_PWindow s \<le> hi (counters s ! j)"
  shows "inv_2dd w d opss (s\<lparr>global_PWindow := global_PWindow s + d\<rparr>, H)"
  using assms by (auto simp: inv_2dd_def window_2dd_ok_def in_set_conv_nth intro: le_trans)

lemma inv_2dd_Get_shift:
  assumes J: "inv_2dd w d opss (s, H)" and low: "\<And>j. j < w \<Longrightarrow> low_2dd d j (global_GWindow s) s"
    and more: "more_2dd (global_GWindow s) s"
  shows "inv_2dd w d opss (s\<lparr>global_GWindow := global_GWindow s + d\<rparr>, H)"
proof -
  have ok: "window_2dd_ok w d s" using J by (rule inv_2dd_window)
  obtain a b where ab: "global_PWindow s = d * a" "global_GWindow s = d * b"
    using ok by (auto simp: window_2dd_ok_def dvd_def)
  have "b < a" using more ab by (auto simp: more_2dd_def)
  then have "d * Suc b \<le> d * a" by (intro mult_le_mono2) simp
  then have "global_GWindow s + d \<le> global_PWindow s" using ab by simp
  moreover have "global_GWindow s + d \<le> lo x + 2 * d" if "x \<in> set (counters s)" for x
    using low that ok unfolding window_2dd_ok_def low_2dd_def in_set_conv_nth
    by (metis add.assoc add_le_mono1 mult_2)
  ultimately show ?thesis
    using J by (auto simp: inv_2dd_def window_2dd_ok_def)
qed

interpretation put_2dd: put_window_client "no_wrap_2dd d" no_fuel "inv_2dd w d opss" grows_2dd grows_2dd opss
  "set_2dd w d" "\<lambda>_ _ _. True" for w d opss
proof
  show "grows_2dd i s u" if "grows_2dd i s t" "grows_2dd i t u" for i s t u
    using that by (rule grows_2dd_trans)
  fix i s H assume "inv_2dd w d opss (s, H)"
    "\<And>j. j < width (set_2dd w d) \<Longrightarrow> global_PWindow s \<le> put_count (set_2dd w d) (put_array (set_2dd w d) s ! j)"
  then show "inv_2dd w d opss (s\<lparr>global_PWindow := global_PWindow s + depth (set_2dd w d)\<rparr>, H) \<and>
      grows_2dd i s (s\<lparr>global_PWindow := global_PWindow s + depth (set_2dd w d)\<rparr>) \<and>
      grows_2dd i s (s\<lparr>global_PWindow := global_PWindow s + depth (set_2dd w d)\<rparr>)"
    by (auto intro!: inv_2dd_Put_shift simp: grows_2dd_def)
qed (auto simp: grows_2dd_refl no_wrap_2dd_def grows_2dd_def no_fuel_def dest: inv_2dd_width)

interpretation get_2dd: get_window_client "no_wrap_2dd d" no_fuel "inv_2dd w d opss" grows_2dd grows_2dd opss
  "set_2dd w d" "got_2dd w" "low_2dd d" more_2dd for w d opss
proof
  show "grows_2dd i s u" if "grows_2dd i s t" "grows_2dd i t u" for i s t u
    using that by (rule grows_2dd_trans)
  fix s H i t H' j e
  assume J: "inv_2dd w d opss (s, H)" "inv_2dd w d opss (t, H')" and o: "grows_2dd i s t"
  have len: "length (counters s) = w" "length (counters t) = w" using J by (simp_all add: inv_2dd_length)
  { assume j: "j < width (set_2dd w d)"
    show "got_2dd w j (DW (lo (get_array (set_2dd w d) s ! j)) (hi (get_array (set_2dd w d) t ! j))) t"
      using window_2dd_nth [OF inv_2dd_window [OF J(1)], of j] j o len
      by (auto simp: got_2dd_def grows_2dd_def intro: le_trans) }
  { fix e :: "(nat, nat) dword" assume "got_2dd w j e s" "j < width (set_2dd w d)"
    then show "got_2dd w j e t" using o len by (auto simp: got_2dd_def grows_2dd_def intro: le_trans) }
  { fix m assume "low_2dd d j m s" "j < width (set_2dd w d)"
    then show "low_2dd d j m t" using o len by (auto simp: low_2dd_def grows_2dd_def intro: le_trans) }
  { fix m assume "more_2dd m s"
    then show "more_2dd m t" using o by (auto simp: more_2dd_def grows_2dd_def) }
  assume g: "got_2dd w j e s" and j: "j < width (set_2dd w d)" and gw: "global_GWindow s = global_GWindow t"
  note s = window_2dd_nth [OF inv_2dd_window [OF J(1)], of j]
  have mono: "lo (counters s ! j) \<le> lo (counters t ! j)" using j o len by (simp add: grows_2dd_def)
  { assume "\<not> (get_count (set_2dd w d) e < global_GWindow t \<and>
        put_count (set_2dd w d) (put_array (set_2dd w d) s ! j) \<noteq> get_count (set_2dd w d) e)"
    then consider "global_GWindow t \<le> lo e" | "hi (counters s ! j) = lo e" by auto
    then show "low_2dd d j (global_GWindow t) t"
    proof cases
      case 1
      then show ?thesis using g mono by (auto simp: low_2dd_def got_2dd_def)
    next
      case 2
      then show ?thesis
        using g mono s j gw J(1) by (auto simp: low_2dd_def got_2dd_def inv_2dd_def window_2dd_ok_def)
    qed }
  { assume "global_GWindow t \<le> get_count (set_2dd w d) e"
      "put_count (set_2dd w d) (put_array (set_2dd w d) s ! j) \<noteq> get_count (set_2dd w d) e"
    then show "more_2dd (global_GWindow t) t"
      using g s j o by (auto simp: more_2dd_def got_2dd_def grows_2dd_def) }
next
  fix s H i assume "inv_2dd w d opss (s, H)"
    "\<And>j. j < width (set_2dd w d) \<Longrightarrow> low_2dd d j (global_GWindow s) s" "more_2dd (global_GWindow s) s"
  then show "inv_2dd w d opss (s\<lparr>global_GWindow := global_GWindow s + depth (set_2dd w d)\<rparr>, H) \<and>
      grows_2dd i s (s\<lparr>global_GWindow := global_GWindow s + depth (set_2dd w d)\<rparr>) \<and>
      grows_2dd i s (s\<lparr>global_GWindow := global_GWindow s + depth (set_2dd w d)\<rparr>)"
    by (auto intro!: inv_2dd_Get_shift simp: grows_2dd_def)
qed (auto simp: grows_2dd_refl no_wrap_2dd_def grows_2dd_def no_fuel_def dest: inv_2dd_width)

section \<open>The operations\<close>

lemma set_nth_update:
  "window_2dd_ok w d s \<Longrightarrow> j < w \<Longrightarrow> lo x \<le> hi x \<Longrightarrow> hi x \<le> global_PWindow s \<Longrightarrow>
     hi (counters s ! j) \<le> hi x \<Longrightarrow> lo (counters s ! j) \<le> lo x \<Longrightarrow>
     window_2dd_ok w d (s\<lparr>counters := (counters s)[j := x]\<rparr>)"
proof -
  assume ok: "window_2dd_ok w d s" and j: "j < w" and x: "lo x \<le> hi x" "hi x \<le> global_PWindow s"
    "hi (counters s ! j) \<le> hi x" "lo (counters s ! j) \<le> lo x"
  have "global_PWindow s \<le> hi x + d" "global_GWindow s \<le> lo x + 2 * d"
    using window_2dd_nth [OF ok j] x by linarith+
  then show ?thesis
    using ok j x by (auto simp: window_2dd_ok_def dest!: set_update_subset_insert [THEN subsetD])
qed

lemma grows_2dd_update:
  "j < length (counters s) \<Longrightarrow> hi (counters s ! j) \<le> hi x \<Longrightarrow> lo (counters s ! j) \<le> lo x \<Longrightarrow>
     grows_2dd i s (s\<lparr>counters := (counters s)[j := x]\<rparr>)"
  by (auto simp: grows_2dd_def nth_list_update)

lemma inv_2dd_Inc:
  assumes J: "inv_2dd w d opss (s, H)" and j: "j < w" and e: "counters s ! j = e" "hi e < global_PWindow s"
    and step: "i < length opss" "prefix (map fst (proj i H) @ [Inc2]) (opss ! i)"
  shows "inv_2dd w d opss (s\<lparr>counters := (counters s)[j := DW (lo e) (hi e + 1)]\<rparr>, H @ [(i, Inc2, 1, j)])"
proof -
  have ok: "window_2dd_ok w d s" using J by (rule inv_2dd_window)
  have "hi (counters s ! j) + 1 \<le> hi x + d" if "x \<in> set (counters s)" for x
    using ok that e by (auto simp: window_2dd_ok_def)
  then have "spec_2dd d (counters s) Inc2 (1, j) = Some ((counters s)[j := DW (lo e) (hi e + 1)])"
    using e j ok by (simp add: window_2dd_ok_def)
  moreover have "window_2dd_ok w d (s\<lparr>counters := (counters s)[j := DW (lo e) (hi e + 1)]\<rparr>)"
    by (rule set_nth_update [OF ok j]) (use e window_2dd_nth [OF ok j] in auto)
  ultimately show ?thesis
    using J step by (simp add: inv_2dd_def hist_ok_entry del: spec_2dd.simps)
qed

lemma inv_2dd_Dec:
  assumes J: "inv_2dd w d opss (s, H)" and j: "j < w" and e: "counters s ! j = e" "lo e < hi e"
    and step: "i < length opss" "prefix (map fst (proj i H) @ [Dec2]) (opss ! i)"
  shows "inv_2dd w d opss (s\<lparr>counters := (counters s)[j := DW (lo e + 1) (hi e)]\<rparr>, H @ [(i, Dec2, 1, j)])"
proof -
  have ok: "window_2dd_ok w d s" using J by (rule inv_2dd_window)
  have "spec_2dd d (counters s) Dec2 (1, j) = Some ((counters s)[j := DW (lo e + 1) (hi e)])"
    using e j ok by (simp add: window_2dd_ok_def)
  moreover have "window_2dd_ok w d (s\<lparr>counters := (counters s)[j := DW (lo e + 1) (hi e)]\<rparr>)"
    by (rule set_nth_update [OF ok j]) (use e window_2dd_nth [OF ok j] in auto)
  ultimately show ?thesis
    using J step by (simp add: inv_2dd_def hist_ok_entry del: spec_2dd.simps)
qed

lemma inv_2dd_Dec_zero:
  assumes "inv_2dd w d opss (s, H)" "i < length opss" "prefix (map fst (proj i H) @ [Dec2]) (opss ! i)"
  shows "inv_2dd w d opss (s, H @ [(i, Dec2, 0, j)])"
  using assms by (simp add: inv_2dd_def hist_ok_entry)

lemma increment_2dd_safe:
  assumes "inv_2dd w d opss (s, H)" and "proj i H = P" and "prefix (map fst P @ [Inc2]) (opss ! i)"
    and "i < length opss" and "thread_index l < w"
  shows "safe (no_wrap_2dd d) no_fuel (lin_rely (inv_2dd w d opss) grows_2dd i)
    (lin_guar (inv_2dd w d opss) grows_2dd opss i)
    (\<lambda>(r, l) (s', H'). inv_2dd w d opss (s', H') \<and> thread_index l < w \<and> proj i H' = P @ [(Inc2, (r, thread_index l))])
    (increment_2dd True (set_2dd w d) N n c l) (s, H)"
  using assms
proof (induction n arbitrary: s H l c)
  case 0
  then show ?case by (simp add: no_fuel_def)
next
  case (Suc n)
  have mod: "add64 (hi e) 1 = hi e + 1" if "hi e < thread_PWindow l'" "thread_PWindow l' \<le> global_PWindow t" "no_wrap_2dd d t"
    for e :: "(nat, nat) dword" and l' :: thread_2d and t
    using that by (intro add64_eq) (simp add: no_wrap_2dd_def)
  show ?case
    unfolding increment_2dd.simps Let_def counter_cae_def
    apply (rule put_2dd.put_window_safe, rule Suc.prems(1), (use Suc.prems in simp)[1], rule refl)
    subgoal premises p for t H' e l'
    proof -
      have j: "thread_index l' < w" and P: "proj i H' = P" using p Suc.prems by auto
      have new: "add64 (hi e) 1 = hi e + 1" using mod [of e l' t] p by simp
      show ?thesis
        unfolding new
        apply (rule lin_checked, rule p, (use j in \<open>auto dest: inv_2dd_width\<close>)[1])
        apply (rule lin_cae_commit [where op = Inc2 and r = "(1, thread_index l')"
              and a = "(counter_value True w (DW (lo e) (hi e + 1)), l')"])
        subgoal by (rule p)
        subgoal by (rule grows_2dd_refl)
        subgoal by simp
        subgoal by (rule Suc.prems)
        subgoal using Suc.prems P by simp
        subgoal premises q for t1 H1
          using q p j Suc.prems P inv_2dd_width [OF q(1)]
          by (intro conjI inv_2dd_Inc grows_2dd_update) (auto simp: grows_2dd_def)
        subgoal using j P by (auto simp: counter_value_def)
        subgoal premises q for t1 H1
          by (simp, rule Suc.IH) (use q p Suc.prems in auto)
        done
    qed
    done
qed

lemma decrement_2dd_safe:
  assumes "inv_2dd w d opss (s, H)" and "proj i H = P" and "prefix (map fst P @ [Dec2]) (opss ! i)"
    and "i < length opss" and "thread_index l < w"
  shows "safe (no_wrap_2dd d) no_fuel (lin_rely (inv_2dd w d opss) grows_2dd i)
    (lin_guar (inv_2dd w d opss) grows_2dd opss i)
    (\<lambda>(r, l) (s', H'). inv_2dd w d opss (s', H') \<and> thread_index l < w \<and> proj i H' = P @ [(Dec2, (r, thread_index l))])
    (decrement_2dd True (set_2dd w d) N n c l) (s, H)"
  using assms
proof (induction n arbitrary: s H l c)
  case 0
  then show ?case by (simp add: no_fuel_def)
next
  case (Suc n)
  show ?case
    unfolding decrement_2dd.simps Let_def counter_cae_def
    apply (rule get_2dd.get_window_safe, rule Suc.prems(1), (use Suc.prems in simp)[1], rule refl)
    subgoal premises p for t H' e l'
    proof -
      have j: "thread_index l' < w" and P: "proj i H' = P" using p Suc.prems by auto
      have e: "lo e \<le> hi e" "hi e \<le> global_PWindow t"
        using p(7) window_2dd_nth [OF inv_2dd_window [OF p(1)] j] by (auto simp: got_2dd_def)
      then have lt: "hi e < U64" using p(4) by (simp add: no_wrap_2dd_def)
      let ?safe = "safe (no_wrap_2dd d) no_fuel (lin_rely (inv_2dd w d opss) grows_2dd i)
        (lin_guar (inv_2dd w d opss) grows_2dd opss i)
        (\<lambda>(r, l) (s', H'). inv_2dd w d opss (s', H') \<and> thread_index l < w \<and> proj i H' = P @ [(Dec2, (r, thread_index l))])"
      show ?thesis
      proof (cases "0 < sub64 (hi e) (lo e)")
        case True
        then have e': "lo e < hi e" using e lt by (simp add: sub64_eq)
        then have new: "add64 (lo e) 1 = lo e + 1" using lt by (intro add64_eq) simp
        have "?safe (checked (\<lambda>s. thread_index l' < length (counters s))
          (cae (\<lambda>s. counters s ! thread_index l') (\<lambda>v s. s\<lparr>counters := (counters s)[thread_index l' := v]\<rparr>) e
            (DW (lo e + 1) (hi e)) (\<lambda>ok _. if ok then Ret (counter_value True (width (set_2dd w d)) (DW (lo e + 1) (hi e)), l')
              else decrement_2dd True (set_2dd w d) N n True (count_get_fail l')))) (t, H')"
          apply (rule lin_checked, rule p, (use j in \<open>auto dest: inv_2dd_width\<close>)[1])
          apply (rule lin_cae_commit [where op = Dec2 and r = "(1, thread_index l')"
                and a = "(counter_value True w (DW (lo e + 1) (hi e)), l')"])
          subgoal by (rule p)
          subgoal by (rule grows_2dd_refl)
          subgoal by simp
          subgoal by (rule Suc.prems)
          subgoal using Suc.prems P by simp
          subgoal premises q for t1 H1
            using q p j Suc.prems P e' inv_2dd_width [OF q(1)]
            by (intro conjI inv_2dd_Dec grows_2dd_update) auto
          subgoal using j P by (auto simp: counter_value_def)
          subgoal premises q for t1 H1
            by (simp, rule Suc.IH) (use q p Suc.prems in auto)
          done
        then show ?thesis
          unfolding new if_P [OF True] using p(1) by (intro exI [of _ "[]"]) simp
      next
        case False
        let ?X = "[(i, Dec2, (0, thread_index l'))]"
        have step: "i < length opss" "prefix (map fst (proj i H') @ [Dec2]) (opss ! i)"
          using Suc.prems P by auto
        have inv: "inv_2dd w d opss (t, H' @ ?X)" using inv_2dd_Dec_zero [OF p(1) step] .
        have "?safe (Ret (0, count_null l')) (t, H' @ ?X)"
          by (rule lin_commit_ret [where H = H'], rule inv) (use j P in auto)
        then show ?thesis
          unfolding if_not_P [OF False] using inv step by blast
      qed
    qed
    done
qed

interpretation lin_2dd: lin_object "no_wrap_2dd d" no_fuel "inv_2dd w d opss" grows_2dd grows_2dd
  "\<lambda>i l s. thread_index l < w" "spec_2dd d" "replicate w (DW 0 0)" "\<lambda>s q. q = counters s \<and> window_2dd_ok w d s"
  "counter_2dd_op True (set_2dd w d) N n" opss for w d N n opss
proof unfold_locales
  show "op_ok (no_wrap_2dd d) no_fuel (inv_2dd w d opss) grows_2dd grows_2dd (\<lambda>i l s. thread_index l < w) opss i op
      (counter_2dd_op True (set_2dd w d) N n)" if "i < length opss" for i op
  proof (rule op_okI)
    fix l :: thread_2d and s H P
    assume J: "inv_2dd w d opss (s, H)" "thread_index l < w" "proj i H = P" "prefix (map fst P @ [op]) (opss ! i)"
    show "safe (no_wrap_2dd d) no_fuel (lin_rely (inv_2dd w d opss) grows_2dd i)
        (lin_guar (inv_2dd w d opss) grows_2dd opss i)
        (\<lambda>(r, l) (s', H'). inv_2dd w d opss (s', H') \<and> thread_index l < w \<and> proj i H' = P @ [(op, r)])
        (counter_2dd_op True (set_2dd w d) N n op l) (s, H)"
      using J that
      by (cases op)
        (auto intro!: safe_bind [OF safe_weaken [OF increment_2dd_safe]] safe_bind [OF safe_weaken [OF decrement_2dd_safe]]
          simp: lin_rely_def grows_2dd_refl dest!: hist_rely_proj)
  qed
qed (auto simp: inv_2dd_def grows_2dd_refl intro: grows_2dd_any elim: grows_2dd_trans)

lemma inv_2dd_create:
  "0 < w \<Longrightarrow> w < U32 \<Longrightarrow> inv_2dd w d opss (init_counter_2dd w, [])"
  by (auto simp: inv_2dd_def window_2dd_ok_def init_counter_2dd_def)

lemma counter_2dd_threads:
  assumes "0 < w" and "w < U32" and "list_all (\<lambda>x. thread_index (snd x) < w) ths"
  shows "linearizable (no_wrap_2dd d) no_fuel (spec_2dd d) (replicate w (DW 0 0))
     (\<lambda>s q. q = counters s \<and> window_2dd_ok w d s) (map fst ths)
     (init_counter_2dd w, threads (counter_2dd_op True (set_2dd w d) N n) ths)"
  by (rule lin_2dd.linearizable_threads)
    (use assms inv_2dd_create in \<open>auto simp: list_all_length\<close>)

text \<open>
  C1: the 2Dd counter is linearizable to the relaxed counter of its sub-counters: under every
  interleaving an increment takes effect on a sub-counter that is less than \<open>depth\<close> ahead of
  all others, a decrement that reports success takes from a sub-counter that is not empty, and
  in every state reached the counts and the two windows satisfy the window invariant. The
  assertion in \<open>put_window\<close> never fails and no index is out of bounds. It is assumed that the
  window maxima stay below \<open>2 ^ 64\<close>.
\<close>

theorem counter_2dd_linearizable:
  assumes "0 < w" and "w < U32" and "list_all (\<lambda>x. thread_index (snd x) < w) ths"
  shows "linearizable (no_wrap_2dd d) no_fuel (spec_2dd d) (replicate w (DW 0 0))
     (\<lambda>s q. q = counters s \<and> window_2dd_ok w d s) (map fst ths)
     (init_counter_2dd w, threads (counter_2dd_op True (set_2dd w d) N n) ths)"
  using assms by (rule counter_2dd_threads)

definition new_thread_2d :: "seeds \<Rightarrow> thread_2d" where
  "new_thread_2d sd = \<lparr>seeds = sd, thread_index = 0, my_put_cas_fail_count = 0, my_get_cas_fail_count = 0,
     my_null_count = 0, my_hop_count = 0, my_slide_count = 0, thread_PWindow = 0, thread_GWindow = 0\<rparr>"

lemma new_thread_2d_index [simp]: "thread_index (new_thread_2d sd) = 0"
  by (simp add: new_thread_2d_def)

lemma counter_2dd_linearizable_witness:
  "linearizable (no_wrap_2dd 1) no_fuel (spec_2dd 1) (replicate 2 (DW 0 0))
     (\<lambda>s q. q = counters s \<and> window_2dd_ok 2 1 s) [[Inc2], [Dec2]]
     (init_counter_2dd 2, threads (counter_2dd_op True (set_2dd 2 1) 20 3)
       [([Inc2], new_thread_2d (1, 2, 3)), ([Dec2], new_thread_2d (4, 5, 6))])"
  using counter_2dd_linearizable [of 2 "[([Inc2], new_thread_2d (1, 2, 3)), ([Dec2], new_thread_2d (4, 5, 6))]" 1 20 3]
  by (simp add: U32_def)

section \<open>Deviation\<close>

lemma sum_list_deviation:
  fixes xs :: "nat list"
  assumes "\<And>y. y \<in> set xs \<Longrightarrow> x \<le> y + d \<and> y \<le> x + d"
  shows "length xs * x \<le> sum_list xs + length xs * d \<and> sum_list xs \<le> length xs * x + length xs * d"
  using assms
proof (induction xs)
  case (Cons z xs)
  have "length xs * x \<le> sum_list xs + length xs * d \<and> sum_list xs \<le> length xs * x + length xs * d"
    using Cons by simp
  moreover have "x \<le> z + d" "z \<le> x + d" using Cons.prems [of z] by auto
  ultimately show ?case by simp
qed simp

lemma sum_list_deviation_nth:
  fixes xs :: "nat list"
  assumes "j < length xs" and "\<And>y. y \<in> set xs \<Longrightarrow> xs ! j \<le> y + d \<and> y \<le> xs ! j + d"
  shows "length xs * xs ! j \<le> sum_list xs + (length xs - 1) * d"
    and "sum_list xs \<le> length xs * xs ! j + (length xs - 1) * d"
proof -
  let ?r = "take j xs @ drop (Suc j) xs"
  have xs: "xs = take j xs @ xs ! j # drop (Suc j) xs"
    using assms(1) by (simp add: id_take_nth_drop)
  have sum: "sum_list xs = xs ! j + sum_list ?r"
    using arg_cong [OF xs, of sum_list] by (simp only: sum_list_append sum_list.Cons) 
  have len: "length xs = Suc (length ?r)" using assms(1) by simp
  have "set ?r \<subseteq> set xs" by (auto dest: in_set_takeD in_set_dropD)
  then have dev: "length ?r * xs ! j \<le> sum_list ?r + length ?r * d \<and> sum_list ?r \<le> length ?r * xs ! j + length ?r * d"
    using assms(2) by (intro sum_list_deviation) auto
  define n x r where "n = length ?r" and "x = xs ! j" and "r = sum_list ?r"
  have "Suc n * x \<le> (x + r) + n * d" "x + r \<le> Suc n * x + n * d"
    using dev unfolding n_def [symmetric] x_def [symmetric] r_def [symmetric] by simp_all
  then show "length xs * xs ! j \<le> sum_list xs + (length xs - 1) * d"
    "sum_list xs \<le> length xs * xs ! j + (length xs - 1) * d"
    unfolding sum len n_def x_def r_def by simp_all
qed



end
