(* ===== verification/Window_2Dd_Counts.thy ===== *)
theory Window_2Dd_Counts
  imports Window_2Dd
begin

text \<open>
  The window contracts for structures whose sub-structures count their puts and gets, both
  only ever growing: \<open>puts s j\<close> and \<open>gets s j\<close>. The locale \<open>window_counts\<close> derives the
  contracts of \<open>put_window\<close> and \<open>get_window\<close> from what a structure has to show: its
  invariant keeps the counts inside the window (\<open>counts_ok\<close>), sliding a window keeps the
  invariant, and the counts a descriptor read in two halves shows are ones the sub-structure
  has had.
\<close>

definition counts_ok :: "nat \<Rightarrow> nat \<Rightarrow> (nat \<Rightarrow> nat) \<Rightarrow> (nat \<Rightarrow> nat) \<Rightarrow> 'z window_scheme \<Rightarrow> bool" where
  "counts_ok w d p g s \<longleftrightarrow>
     (\<forall>j<w. g j \<le> p j \<and> p j \<le> global_PWindow s \<and> global_PWindow s \<le> p j + d \<and> global_GWindow s \<le> g j + 2 * d) \<and>
     global_GWindow s \<le> global_PWindow s \<and> d dvd global_PWindow s \<and> d dvd global_GWindow s"

lemma counts_ok_nth:
  "counts_ok w d p g s \<Longrightarrow> j < w \<Longrightarrow> g j \<le> p j \<and> p j \<le> global_PWindow s \<and>
     global_PWindow s \<le> p j + d \<and> global_GWindow s \<le> g j + 2 * d"
  by (simp add: counts_ok_def)

lemma counts_ok_le: "counts_ok w d p g s \<Longrightarrow> global_GWindow s \<le> global_PWindow s"
  by (simp add: counts_ok_def)

text \<open>The three ways the counts and windows move.\<close>

lemma counts_ok_Put_shift:
  assumes "counts_ok w d p g s" and "\<And>j. j < w \<Longrightarrow> global_PWindow s \<le> p j"
  shows "counts_ok w d p g (s\<lparr>global_PWindow := global_PWindow s + d\<rparr>)"
  using assms by (auto simp: counts_ok_def intro: le_trans)

lemma counts_ok_Get_shift:
  assumes ok: "counts_ok w d p g s" and low: "\<And>j. j < w \<Longrightarrow> global_GWindow s \<le> g j + d"
    and more: "global_GWindow s < global_PWindow s"
  shows "counts_ok w d p g (s\<lparr>global_GWindow := global_GWindow s + d\<rparr>)"
proof -
  obtain a b where ab: "global_PWindow s = d * a" "global_GWindow s = d * b"
    using ok by (auto simp: counts_ok_def dvd_def)
  have "b < a" using more ab by auto
  then have "d * Suc b \<le> d * a" by (intro mult_le_mono2) simp
  then have le: "global_GWindow s + d \<le> global_PWindow s" using ab by simp
  have "global_GWindow s + d \<le> g j + 2 * d" if "j < w" for j
    using low [OF that] by simp
  then show ?thesis using ok le by (simp add: counts_ok_def)
qed

lemma counts_ok_advance:
  assumes "counts_ok w d p g s" and "\<And>j. j < w \<Longrightarrow> p j \<le> p' j \<and> g j \<le> g' j \<and> g' j \<le> p' j \<and> p' j \<le> global_PWindow s"
    and "global_PWindow t = global_PWindow s" "global_GWindow t = global_GWindow s"
  shows "counts_ok w d p' g' t"
  unfolding counts_ok_def assms(3,4)
proof (intro conjI allI impI)
  fix j assume j: "j < w"
  show "g' j \<le> p' j" "p' j \<le> global_PWindow s" using assms(2) [OF j] by simp_all
  show "global_PWindow s \<le> p' j + d" "global_GWindow s \<le> g' j + 2 * d"
    using assms(2) [OF j] counts_ok_nth [OF assms(1) j] by linarith+
qed (use assms(1) in \<open>simp_all add: counts_ok_def\<close>)

text \<open>How far one sub-structure can be ahead of another.\<close>

lemma counts_ok_deviation:
  "counts_ok w d p g s \<Longrightarrow> i < w \<Longrightarrow> j < w \<Longrightarrow> p i \<le> p j + d"
  using counts_ok_nth [of w d p g s i] counts_ok_nth [of w d p g s j] by linarith

locale window_counts =
  fixes A :: "'z window_scheme \<Rightarrow> bool"
    and T :: "failure \<Rightarrow> bool"
    and J :: "'z window_scheme \<times> ('o, 'r) history \<Rightarrow> bool"
    and ord grd :: "nat \<Rightarrow> 'z window_scheme \<Rightarrow> 'z window_scheme \<Rightarrow> bool"
    and opss :: "'o list list"
    and D :: "('z window_scheme, 'x, 'y) dset"
    and puts gets :: "'z window_scheme \<Rightarrow> nat \<Rightarrow> nat"
    and known :: "nat \<Rightarrow> ('x, 'y) dword \<Rightarrow> 'z window_scheme \<Rightarrow> bool"
    and kept :: "nat \<Rightarrow> ('x, 'y) dword \<Rightarrow> 'z window_scheme \<Rightarrow> bool"
  assumes fuel: "T No_fuel"
    and width_ok: "J (s, H) \<Longrightarrow> 0 < width D \<and> width D < U32"
    and put_length: "J (s, H) \<Longrightarrow> length (put_array D s) = width D"
    and get_length: "J (s, H) \<Longrightarrow> length (get_array D s) = width D"
    and counts: "J (s, H) \<Longrightarrow> counts_ok (width D) (depth D) (puts s) (gets s) s"
    and ord_refl: "ord i s s"
    and ord_trans: "ord i s t \<Longrightarrow> ord i t u \<Longrightarrow> ord i s u"
    and grd_refl: "grd i s s"
    and ord_PWindow: "ord i s t \<Longrightarrow> global_PWindow s \<le> global_PWindow t"
    and ord_GWindow: "ord i s t \<Longrightarrow> global_GWindow s \<le> global_GWindow t"
    and ord_puts: "ord i s t \<Longrightarrow> J (s, H) \<Longrightarrow> J (t, H') \<Longrightarrow> j < width D \<Longrightarrow> puts s j \<le> puts t j"
    and ord_gets: "ord i s t \<Longrightarrow> J (s, H) \<Longrightarrow> J (t, H') \<Longrightarrow> j < width D \<Longrightarrow> gets s j \<le> gets t j"
    and put_count_puts: "J (s, H) \<Longrightarrow> j < width D \<Longrightarrow> put_count D (put_array D s ! j) = puts s j"
    and put_count_hi: "put_count D (DW a b) = put_count D (DW a' b)"
    and get_count_gets: "J (s, H) \<Longrightarrow> J (t, H') \<Longrightarrow> ord i s t \<Longrightarrow> j < width D \<Longrightarrow>
      get_count D (DW (lo (get_array D s ! j)) (hi (get_array D t ! j))) \<le> gets t j"
    and known_load: "J (s, H) \<Longrightarrow> J (t, H') \<Longrightarrow> ord i s t \<Longrightarrow> j < width D \<Longrightarrow>
      known j (DW (lo (get_array D s ! j)) (hi (get_array D t ! j))) t"
    and known_stable: "known j e s \<Longrightarrow> J (s, H) \<Longrightarrow> J (t, H') \<Longrightarrow> ord i s t \<Longrightarrow> j < width D \<Longrightarrow> known j e t"
    and kept_load: "J (s, H) \<Longrightarrow> J (t, H') \<Longrightarrow> ord i s t \<Longrightarrow> j < width D \<Longrightarrow>
      kept j (DW (lo (put_array D s ! j)) (hi (put_array D t ! j))) t"
    and kept_stable: "kept j e s \<Longrightarrow> J (s, H) \<Longrightarrow> J (t, H') \<Longrightarrow> ord i s t \<Longrightarrow> kept j e t"
    and no_wrap: "A s \<Longrightarrow> global_PWindow s + depth D < U64 \<and> global_GWindow s + depth D < U64"
    and put_shift: "J (s, H) \<Longrightarrow> A s \<Longrightarrow>
      counts_ok (width D) (depth D) (puts s) (gets s) (s\<lparr>global_PWindow := global_PWindow s + depth D\<rparr>) \<Longrightarrow>
      J (s\<lparr>global_PWindow := global_PWindow s + depth D\<rparr>, H) \<and>
      grd i s (s\<lparr>global_PWindow := global_PWindow s + depth D\<rparr>) \<and>
      ord i s (s\<lparr>global_PWindow := global_PWindow s + depth D\<rparr>)"
    and get_shift: "J (s, H) \<Longrightarrow> A s \<Longrightarrow>
      counts_ok (width D) (depth D) (puts s) (gets s) (s\<lparr>global_GWindow := global_GWindow s + depth D\<rparr>) \<Longrightarrow>
      J (s\<lparr>global_GWindow := global_GWindow s + depth D\<rparr>, H) \<and>
      grd i s (s\<lparr>global_GWindow := global_GWindow s + depth D\<rparr>) \<and>
      ord i s (s\<lparr>global_GWindow := global_GWindow s + depth D\<rparr>)"
begin

definition got_counts :: "nat \<Rightarrow> ('x, 'y) dword \<Rightarrow> 'z window_scheme \<Rightarrow> bool" where
  "got_counts j e s \<longleftrightarrow> get_count D e \<le> gets s j \<and> known j e s"

definition low_counts :: "nat \<Rightarrow> nat \<Rightarrow> 'z window_scheme \<Rightarrow> bool" where
  "low_counts j m s \<longleftrightarrow> m \<le> gets s j + depth D"

definition more_counts :: "nat \<Rightarrow> 'z window_scheme \<Rightarrow> bool" where
  "more_counts m s \<longleftrightarrow> m < global_PWindow s"

sublocale put: put_window_client A T J ord grd opss D kept
proof
  show "kept j e t" if "kept j e s" "J (s, H)" "J (t, H')" "ord i s t" for j e s t H H' i
    using that by (rule kept_stable)
  show "kept j (DW (lo (put_array D s ! j)) (hi (put_array D t ! j))) t"
    if "J (s, H)" "J (t, H')" "ord i s t" "j < width D" for s H t H' i j
    using that by (rule kept_load)
  show "put_count D (put_array D s ! j) \<le> put_count D (put_array D t ! j)"
    if "ord i s t" "J (s, H)" "J (t, H')" "j < width D" for i s t H H' j
    using ord_puts [OF that] put_count_puts that by simp
  show "put_count D (DW a b) = put_count D (DW a' b)" for a b a' by (rule put_count_hi)
  fix s H i assume J: "J (s, H)" and A: "A s"
    and full: "\<And>j. j < width D \<Longrightarrow> global_PWindow s \<le> put_count D (put_array D s ! j)"
  have "counts_ok (width D) (depth D) (puts s) (gets s) (s\<lparr>global_PWindow := global_PWindow s + depth D\<rparr>)"
    using counts_ok_Put_shift [OF counts [OF J]] full put_count_puts [OF J] by simp
  then show "J (s\<lparr>global_PWindow := global_PWindow s + depth D\<rparr>, H) \<and>
      grd i s (s\<lparr>global_PWindow := global_PWindow s + depth D\<rparr>) \<and>
      ord i s (s\<lparr>global_PWindow := global_PWindow s + depth D\<rparr>)"
    by (rule put_shift [OF J A])
qed (use fuel width_ok put_length ord_refl ord_trans grd_refl ord_PWindow no_wrap in blast)+

sublocale get: get_window_client A T J ord grd opss D got_counts low_counts more_counts
proof
  fix s H i t H' j e assume J: "J (s, H)" "J (t, H')" and o: "ord i s t"
  { assume j: "j < width D"
    then show "got_counts j (DW (lo (get_array D s ! j)) (hi (get_array D t ! j))) t"
      using get_count_gets [OF J o] known_load [OF J o] by (simp add: got_counts_def) }
  { assume "got_counts j e s" "j < width D"
    then show "got_counts j e t"
      using ord_gets [OF o J] known_stable [OF _ J o] by (auto simp: got_counts_def intro: le_trans) }
  { fix m assume "low_counts j m s" "j < width D"
    then show "low_counts j m t"
      using ord_gets [OF o J, of j] by (simp add: low_counts_def) }
  { fix m assume "more_counts m s"
    then show "more_counts m t" using ord_PWindow [OF o] by (simp add: more_counts_def) }
  assume g: "got_counts j e s" and j: "j < width D" and gw: "global_GWindow s = global_GWindow t"
  note s = counts_ok_nth [OF counts [OF J(1)] j] and p = put_count_puts [OF J(1) j]
  have le: "get_count D e \<le> gets t j" "gets s j \<le> gets t j"
    using g ord_gets [OF o J j] by (auto simp: got_counts_def intro: le_trans)
  { assume "\<not> (get_count D e < global_GWindow t \<and> put_count D (put_array D s ! j) \<noteq> get_count D e)"
    then consider "global_GWindow t \<le> get_count D e" | "puts s j = get_count D e" using p by auto
    then show "low_counts j (global_GWindow t) t"
    proof cases
      case 1
      then show ?thesis using le by (simp add: low_counts_def)
    next
      case 2
      then show ?thesis using le s gw counts_ok_le [OF counts [OF J(1)]] by (simp add: low_counts_def)
    qed }
  { assume "global_GWindow t \<le> get_count D e" "put_count D (put_array D s ! j) \<noteq> get_count D e"
    moreover have "get_count D e \<le> puts s j" using g s by (simp add: got_counts_def)
    ultimately show "more_counts (global_GWindow t) t"
      using s p ord_PWindow [OF o] by (simp add: more_counts_def) }
next
  fix s H i assume J: "J (s, H)" and A: "A s"
    and low: "\<And>j. j < width D \<Longrightarrow> low_counts j (global_GWindow s) s" and more: "more_counts (global_GWindow s) s"
  have "counts_ok (width D) (depth D) (puts s) (gets s) (s\<lparr>global_GWindow := global_GWindow s + depth D\<rparr>)"
    using counts_ok_Get_shift [OF counts [OF J]] low more by (simp add: low_counts_def more_counts_def)
  then show "J (s\<lparr>global_GWindow := global_GWindow s + depth D\<rparr>, H) \<and>
      grd i s (s\<lparr>global_GWindow := global_GWindow s + depth D\<rparr>) \<and>
      ord i s (s\<lparr>global_GWindow := global_GWindow s + depth D\<rparr>)"
    by (rule get_shift [OF J A])
qed (use fuel width_ok put_length get_length ord_refl ord_trans grd_refl ord_GWindow no_wrap in blast)+

end

end
