(* ===== verification/Stack_2Dd.thy ===== *)
theory Stack_2Dd
  imports Window_2Dd_Counts Dimensions
begin

text \<open>
  The 2Dd stack, \<open>src/2Dd-stack/2Dd-stack.c\<close>: an array of Treiber stacks, each with a
  descriptor that holds the top node and, in the second machine word, the 32-bit counts of
  pushes and pops. The get and the put array are the same.

  Nodes are allocated by \<open>ssalloc\<close>, whose memory is private to the allocating thread and never
  handed out twice: an address is the thread and a running number. The build modelled is the
  plain one, without garbage collection and without the relaxation analysis.

  Shown: the stack is linearizable to an array of sequential stacks in which a push is allowed
  only on a stack that is less than \<open>depth\<close> ahead in its count of pushes.
\<close>

section \<open>State\<close>

datatype addr = Addr (owner: nat) (offset: nat)

record stack_node =
  node_key :: int
  node_val :: int
  node_next :: "addr option"

type_synonym stack_desc = "(addr option, nat \<times> nat) dword"

record stack_2dd = window +
  stacks :: "stack_desc list"
  snodes :: "addr \<Rightarrow> stack_node option"

record thread_stack = thread_2d +
  thread_id :: nat
  alloc_next :: nat

definition set_stack :: "nat \<Rightarrow> nat \<Rightarrow> (stack_2dd, addr option, nat \<times> nat) dset" where
  "set_stack w d = \<lparr>width = w, depth = d, random_hops = 2, get_array = stacks, put_array = stacks,
     put_count = (\<lambda>d. fst (hi d)), get_count = (\<lambda>d. snd (hi d))\<rparr>"

lemma set_stack_simps [simp]:
  "width (set_stack w d) = w" "depth (set_stack w d) = d" "random_hops (set_stack w d) = 2"
  "get_array (set_stack w d) = stacks" "put_array (set_stack w d) = stacks"
  "put_count (set_stack w d) = (\<lambda>d. fst (hi d))" "get_count (set_stack w d) = (\<lambda>d. snd (hi d))"
  by (simp_all add: set_stack_def)

definition init_stack_2dd :: "nat \<Rightarrow> stack_2dd" where
  "init_stack_2dd w = \<lparr>global_PWindow = 0, global_GWindow = 0, stacks = replicate w (DW None (0, 0)),
     snodes = \<lambda>_. None\<rparr>"

definition create_stack_2dd :: "bool \<Rightarrow> nat \<Rightarrow> nat \<Rightarrow> nat \<Rightarrow> nat \<Rightarrow> nat \<Rightarrow>
    failure + ((stack_2dd, addr option, nat \<times> nat) dset \<times> nat \<times> stack_2dd)" where
  "create_stack_2dd alloc_ok num_threads w d k_mode k = (case dimensions U64 3 num_threads w d k_mode k of
     Inl e \<Rightarrow> Inl e
   | Inr (w, d, k) \<Rightarrow> if \<not> alloc_ok then Inl Exit_program else Inr (set_stack w d, k, init_stack_2dd w))"

section \<open>Operations\<close>

definition create_node_2dd :: "int \<Rightarrow> int \<Rightarrow> addr option \<Rightarrow> thread_stack \<Rightarrow>
    (addr \<Rightarrow> thread_stack \<Rightarrow> (stack_2dd, 'a) prog) \<Rightarrow> (stack_2dd, 'a) prog" where
  "create_node_2dd key v p l k = (let a = Addr (thread_id l) (alloc_next l) in
     store (\<lambda>s. s\<lparr>snodes := (snodes s)(a \<mapsto> \<lparr>node_key = key, node_val = v, node_next = p\<rparr>)\<rparr>)
       (k a (l\<lparr>alloc_next := alloc_next l + 1\<rparr>)))"

definition do_cae_2dd :: "nat \<Rightarrow> stack_desc \<Rightarrow> stack_desc \<Rightarrow> (bool \<Rightarrow> (stack_2dd, 'a) prog) \<Rightarrow> (stack_2dd, 'a) prog" where
  "do_cae_2dd j read_des new_des k = checked (\<lambda>s. j < length (stacks s))
     (cae (\<lambda>s. stacks s ! j) (\<lambda>v s. s\<lparr>stacks := (stacks s)[j := v]\<rparr>) read_des new_des (\<lambda>ok _. k ok))"

definition store_next :: "addr \<Rightarrow> addr option \<Rightarrow> (stack_2dd, 'a) prog \<Rightarrow> (stack_2dd, 'a) prog" where
  "store_next a p k = checked (\<lambda>s. snodes s a \<noteq> None)
     (store (\<lambda>s. s\<lparr>snodes := (snodes s)(a \<mapsto> (the (snodes s a))\<lparr>node_next := p\<rparr>)\<rparr>) k)"

definition load_node :: "(stack_node \<Rightarrow> 'x) \<Rightarrow> addr \<Rightarrow> ('x \<Rightarrow> (stack_2dd, 'a) prog) \<Rightarrow> (stack_2dd, 'a) prog" where
  "load_node f a k = checked (\<lambda>s. snodes s a \<noteq> None) (load (\<lambda>s. f (the (snodes s a))) k)"

fun push_2dd_loop :: "(stack_2dd, addr option, nat \<times> nat) dset \<Rightarrow> nat \<Rightarrow> nat \<Rightarrow> addr \<Rightarrow> bool \<Rightarrow> thread_stack \<Rightarrow>
    (stack_2dd, int \<times> thread_stack) prog" where
  "push_2dd_loop D N 0 new contention l = Stop No_fuel"
| "push_2dd_loop D N (Suc n) new contention l =
     put_window D N contention l (\<lambda>descriptor l.
     store_next new (lo descriptor)
     (do_cae_2dd (thread_index l) descriptor (DW (Some new) (add32 (fst (hi descriptor)) 1, snd (hi descriptor))) (\<lambda>ok.
        if ok then Ret (1, l) else push_2dd_loop D N n new True (count_put_fail l))))"

definition push_2dd :: "(stack_2dd, addr option, nat \<times> nat) dset \<Rightarrow> nat \<Rightarrow> nat \<Rightarrow> int \<Rightarrow> int \<Rightarrow> thread_stack \<Rightarrow>
    (stack_2dd, int \<times> thread_stack) prog" where
  "push_2dd D N n key v l = create_node_2dd key v None l (\<lambda>new l. push_2dd_loop D N n new False l)"

fun pop_2dd :: "(stack_2dd, addr option, nat \<times> nat) dset \<Rightarrow> nat \<Rightarrow> nat \<Rightarrow> bool \<Rightarrow> thread_stack \<Rightarrow>
    (stack_2dd, int \<times> thread_stack) prog" where
  "pop_2dd D N 0 contention l = Stop No_fuel"
| "pop_2dd D N (Suc n) contention l =
     get_window D N contention l (\<lambda>descriptor l. case lo descriptor of
       None \<Rightarrow> Ret (0, count_null l)
     | Some a \<Rightarrow> load_node node_next a (\<lambda>p.
         do_cae_2dd (thread_index l) descriptor (DW p (fst (hi descriptor), add32 (snd (hi descriptor)) 1)) (\<lambda>ok.
           if ok then load_node node_val a (\<lambda>v. Ret (v, l))
           else pop_2dd D N n True (count_get_fail l))))"

text \<open>\<open>stack_size\<close>: \<open>r\<close> sub-stacks from \<open>i\<close> on are still to be counted, from the node \<open>p\<close>.\<close>

fun stack_size_node :: "nat \<Rightarrow> addr option \<Rightarrow> nat \<Rightarrow> (nat \<Rightarrow> (stack_2dd, 'a) prog) \<Rightarrow> (stack_2dd, 'a) prog" where
  "stack_size_node n None sz k = k sz"
| "stack_size_node 0 (Some a) sz k = Stop No_fuel"
| "stack_size_node (Suc n) (Some a) sz k = load_node node_next a (\<lambda>p. stack_size_node n p (add64 sz 1) k)"

fun stack_size_loop :: "nat \<Rightarrow> nat \<Rightarrow> nat \<Rightarrow> nat \<Rightarrow> (stack_2dd, nat) prog" where
  "stack_size_loop N 0 i sz = Ret sz"
| "stack_size_loop N (Suc r) i sz = checked (\<lambda>s. i < length (stacks s))
     (load (\<lambda>s. lo (stacks s ! i)) (\<lambda>p. stack_size_node N p sz (\<lambda>sz. stack_size_loop N r (i + 1) sz)))"

definition stack_size_2dd :: "(stack_2dd, addr option, nat \<times> nat) dset \<Rightarrow> nat \<Rightarrow> (stack_2dd, nat) prog" where
  "stack_size_2dd D N = stack_size_loop N (width D) 0 0"

section \<open>Specification\<close>

datatype stack_op = Push int int | Pop

text \<open>The response of an operation is its result and the sub-stack it used.\<close>

fun stack_2dd_op :: "(stack_2dd, addr option, nat \<times> nat) dset \<Rightarrow> nat \<Rightarrow> nat \<Rightarrow> stack_op \<Rightarrow> thread_stack \<Rightarrow>
    (stack_2dd, (int \<times> nat) \<times> thread_stack) prog" where
  "stack_2dd_op D N n (Push key v) l = bind (push_2dd D N n key v l) (\<lambda>(r, l). Ret ((r, thread_index l), l))"
| "stack_2dd_op D N n Pop l = bind (pop_2dd D N n False l) (\<lambda>(r, l). Ret ((r, thread_index l), l))"

text \<open>A sub-stack of the specification: its values from the top, and its counts.\<close>

type_synonym sub_stack = "int list \<times> nat \<times> nat"

fun spec_stack :: "nat \<Rightarrow> (sub_stack list, stack_op, int \<times> nat) spec" where
  "spec_stack dp q (Push key v) (r, j) =
     (if r = 1 \<and> j < length q \<and> (\<forall>x \<in> set q. fst (snd (q ! j)) + 1 \<le> fst (snd x) + dp)
      then (case q ! j of (vs, p, g) \<Rightarrow> Some (q[j := (v # vs, p + 1, g)])) else None)"
| "spec_stack dp q Pop (r, j) =
     (if r = 0 then Some q
      else if j < length q then
        (case q ! j of (v # vs, p, g) \<Rightarrow> if v = r then Some (q[j := (vs, p, g + 1)]) else None | _ \<Rightarrow> None)
      else None)"

section \<open>Linked stacks\<close>

text \<open>The nodes from \<open>p\<close> on hold the values \<open>vs\<close>; the nodes that can be reached from \<open>p\<close>.\<close>

fun holds :: "(addr \<Rightarrow> stack_node option) \<Rightarrow> addr option \<Rightarrow> int list \<Rightarrow> bool" where
  "holds h p [] \<longleftrightarrow> p = None"
| "holds h p (v # vs) \<longleftrightarrow> (\<exists>a n. p = Some a \<and> h a = Some n \<and> node_val n = v \<and> holds h (node_next n) vs)"

inductive linked :: "(addr \<Rightarrow> stack_node option) \<Rightarrow> addr option \<Rightarrow> addr \<Rightarrow> bool" for h where
  here: "h a = Some n \<Longrightarrow> linked h (Some a) a"
| there: "h b = Some n \<Longrightarrow> linked h (node_next n) a \<Longrightarrow> linked h (Some b) a"

inductive_cases linked_SomeE: "linked h (Some b) a"
inductive_cases linked_NoneE: "linked h None a"

lemma linked_alloc: "linked h p a \<Longrightarrow> h a \<noteq> None"
  by (induction rule: linked.induct) auto

lemma linked_None [simp]: "\<not> linked h None a"
  by (auto elim: linked_NoneE)

lemma linked_Some: "linked h (Some b) a \<longleftrightarrow> (\<exists>n. h b = Some n \<and> (a = b \<or> linked h (node_next n) a))"
  by (auto elim: linked_SomeE intro: linked.intros)

text \<open>A write to a node that is not part of a stack does not change the stack.\<close>

lemma holds_frame:
  "holds h p vs \<Longrightarrow> \<not> linked h p a \<Longrightarrow> holds (h(a \<mapsto> n)) p vs \<and> (\<forall>b. linked (h(a \<mapsto> n)) p b \<longleftrightarrow> linked h p b)"
proof (induction vs arbitrary: p)
  case (Cons v vs)
  then obtain b m where b: "p = Some b" "h b = Some m" "node_val m = v" "holds h (node_next m) vs" by auto
  then have "a \<noteq> b" "\<not> linked h (node_next m) a" using Cons.prems(2) by (auto simp: linked_Some)
  then show ?case using Cons.IH [OF b(4)] b by (auto simp: linked_Some)
qed auto

lemma holds_Some: "holds h (Some a) vs \<Longrightarrow> \<exists>n us. h a = Some n \<and> vs = node_val n # us \<and> holds h (node_next n) us"
  by (cases vs) auto

section \<open>Invariant\<close>

definition pub :: "stack_2dd \<Rightarrow> addr \<Rightarrow> bool" where
  "pub s a \<longleftrightarrow> (\<exists>j<length (stacks s). linked (snodes s) (lo (stacks s ! j)) a)"

definition rep_stack :: "stack_2dd \<Rightarrow> sub_stack list \<Rightarrow> bool" where
  "rep_stack s q \<longleftrightarrow> length q = length (stacks s) \<and>
     (\<forall>j<length q. holds (snodes s) (lo (stacks s ! j)) (fst (q ! j)) \<and> snd (q ! j) = hi (stacks s ! j) \<and>
        fst (hi (stacks s ! j)) = snd (hi (stacks s ! j)) + length (fst (q ! j)) \<and> 0 \<notin> set (fst (q ! j)))"

definition puts_stack :: "stack_2dd \<Rightarrow> nat \<Rightarrow> nat" where
  "puts_stack s j = fst (hi (stacks s ! j))"

definition gets_stack :: "stack_2dd \<Rightarrow> nat \<Rightarrow> nat" where
  "gets_stack s j = snd (hi (stacks s ! j))"

text \<open>Zero is what \<open>pop\<close> returns for an empty stack, so it is not pushed.\<close>

definition nonzero_ops :: "stack_op list list \<Rightarrow> bool" where
  "nonzero_ops opss \<longleftrightarrow> (\<forall>ops \<in> set opss. \<forall>key v. Push key v \<in> set ops \<longrightarrow> v \<noteq> 0)"

definition stack_ok :: "nat \<Rightarrow> nat \<Rightarrow> stack_2dd \<Rightarrow> bool" where
  "stack_ok w d s \<longleftrightarrow> 0 < w \<and> w < U32 \<and> length (stacks s) = w \<and> counts_ok w d (puts_stack s) (gets_stack s) s"

definition inv_stack :: "nat \<Rightarrow> nat \<Rightarrow> stack_op list list \<Rightarrow> stack_2dd \<times> (stack_op, int \<times> nat) history \<Rightarrow> bool" where
  "inv_stack w d opss s \<longleftrightarrow> stack_ok w d (fst s) \<and>
     (\<exists>q. replay (spec_stack d) (replicate w ([], 0, 0)) (snd s) = Some q \<and> rep_stack (fst s) q) \<and>
     hist_ok opss (snd s) \<and> nonzero_ops opss"

text \<open>
  What may happen between two steps of a thread. The counts grow, and as long as they are the
  same the descriptor and its top node are; the value of a node never changes; and the nodes of
  thread \<open>i\<close> that are not part of a stack are left alone by the others.
\<close>

definition core_stack :: "stack_2dd \<Rightarrow> stack_2dd \<Rightarrow> bool" where
  "core_stack s t \<longleftrightarrow> global_PWindow s \<le> global_PWindow t \<and> global_GWindow s \<le> global_GWindow t \<and>
     length (stacks t) = length (stacks s) \<and>
     (\<forall>j<length (stacks s). puts_stack s j \<le> puts_stack t j \<and> gets_stack s j \<le> gets_stack t j \<and>
        (puts_stack s j = puts_stack t j \<longrightarrow> gets_stack s j = gets_stack t j \<longrightarrow> stacks t ! j = stacks s ! j \<and>
           (\<forall>a. lo (stacks s ! j) = Some a \<longrightarrow> snodes t a = snodes s a))) \<and>
     (\<forall>a n. snodes s a = Some n \<longrightarrow> (\<exists>n'. snodes t a = Some n' \<and> node_val n' = node_val n))"

definition own_stack :: "nat \<Rightarrow> stack_2dd \<Rightarrow> stack_2dd \<Rightarrow> bool" where
  "own_stack i s t \<longleftrightarrow> (\<forall>k. \<not> pub s (Addr i k) \<longrightarrow> \<not> pub t (Addr i k) \<and> snodes t (Addr i k) = snodes s (Addr i k))"

definition ord_stack :: "nat \<Rightarrow> stack_2dd \<Rightarrow> stack_2dd \<Rightarrow> bool" where
  "ord_stack i s t \<longleftrightarrow> core_stack s t \<and> own_stack i s t"

definition grd_stack :: "nat \<Rightarrow> stack_2dd \<Rightarrow> stack_2dd \<Rightarrow> bool" where
  "grd_stack i s t \<longleftrightarrow> core_stack s t \<and> (\<forall>j. j \<noteq> i \<longrightarrow> own_stack j s t)"

lemma core_stack_refl [simp]: "core_stack s s"
  by (simp add: core_stack_def)

lemma own_stack_refl [simp]: "own_stack i s s"
  by (simp add: own_stack_def)

lemma ord_stack_refl: "ord_stack i s s"
  by (simp add: ord_stack_def)

lemma grd_stack_refl: "grd_stack i s s"
  by (simp add: grd_stack_def)

lemma grd_ord_stack: "i \<noteq> j \<Longrightarrow> grd_stack i s t \<Longrightarrow> ord_stack j s t"
  by (simp add: grd_stack_def ord_stack_def)

lemma core_stack_nth:
  assumes "core_stack s t" "j < length (stacks s)"
  shows "puts_stack s j \<le> puts_stack t j" "gets_stack s j \<le> gets_stack t j"
    "puts_stack s j = puts_stack t j \<Longrightarrow> gets_stack s j = gets_stack t j \<Longrightarrow> stacks t ! j = stacks s ! j"
    "puts_stack s j = puts_stack t j \<Longrightarrow> gets_stack s j = gets_stack t j \<Longrightarrow> lo (stacks s ! j) = Some a \<Longrightarrow> snodes t a = snodes s a"
  using assms unfolding core_stack_def by blast+

lemma core_stack_simps:
  assumes "core_stack s t"
  shows "global_PWindow s \<le> global_PWindow t" "global_GWindow s \<le> global_GWindow t" "length (stacks t) = length (stacks s)"
    "snodes s a = Some n \<Longrightarrow> \<exists>n'. snodes t a = Some n' \<and> node_val n' = node_val n"
  using assms unfolding core_stack_def by blast+

lemma core_stack_trans:
  assumes a: "core_stack s t" and b: "core_stack t u"
  shows "core_stack s u"
  unfolding core_stack_def
proof (intro conjI allI impI)
  show "global_PWindow s \<le> global_PWindow u" "global_GWindow s \<le> global_GWindow u" "length (stacks u) = length (stacks s)"
    using core_stack_simps [OF a] core_stack_simps [OF b] by auto
  show "\<exists>n'. snodes u x = Some n' \<and> node_val n' = node_val n" if "snodes s x = Some n" for x n
    using core_stack_simps(4) [OF a that] core_stack_simps(4) [OF b] by metis
  fix j assume j: "j < length (stacks s)"
  then have j': "j < length (stacks t)" using core_stack_simps(3) [OF a] by simp
  note st = core_stack_nth [OF a j] and tu = core_stack_nth [OF b j']
  show "puts_stack s j \<le> puts_stack u j" "gets_stack s j \<le> gets_stack u j" using st(1,2) tu(1,2) by auto
  assume e: "puts_stack s j = puts_stack u j" "gets_stack s j = gets_stack u j"
  have eq: "puts_stack s j = puts_stack t j" "gets_stack s j = gets_stack t j" "puts_stack t j = puts_stack u j" "gets_stack t j = gets_stack u j"
    using st(1,2) tu(1,2) e by auto
  show "stacks u ! j = stacks s ! j" using st(3) tu(3) eq by simp
  show "snodes u x = snodes s x" if "lo (stacks s ! j) = Some x" for x
    using st(3) [OF eq(1,2)] st(4) [OF eq(1,2) that] tu(4) [OF eq(3,4), of x] that by simp
qed

lemma ord_stack_trans: "ord_stack i s t \<Longrightarrow> ord_stack i t u \<Longrightarrow> ord_stack i s u"
  using core_stack_trans unfolding ord_stack_def own_stack_def by metis

lemma inv_stack_ok: "inv_stack w d opss (s, H) \<Longrightarrow> stack_ok w d s"
  by (simp add: inv_stack_def)

lemma inv_stack_width: "inv_stack w d opss (s, H) \<Longrightarrow> 0 < w \<and> w < U32 \<and> length (stacks s) = w"
  by (simp add: inv_stack_def stack_ok_def)

lemma inv_stack_index: "inv_stack w d opss (s, H) \<Longrightarrow> j < w \<Longrightarrow> j < length (stacks s)"
  by (simp add: inv_stack_def stack_ok_def)

lemma inv_stack_counts: "inv_stack w d opss (s, H) \<Longrightarrow> counts_ok w d (puts_stack s) (gets_stack s) s"
  by (simp add: inv_stack_def stack_ok_def)

lemma inv_stack_rep:
  assumes "inv_stack w d opss (s, H)"
  obtains q where "replay (spec_stack d) (replicate w ([], 0, 0)) H = Some q" "rep_stack s q"
  using assms unfolding inv_stack_def by auto

lemma rep_stack_pub:
  assumes "rep_stack s q" and "j < length (stacks s)" and "lo (stacks s ! j) = Some a"
  shows "pub s a" and "\<exists>n. snodes s a = Some n"
proof -
  have "holds (snodes s) (Some a) (fst (q ! j))" using assms by (auto simp: rep_stack_def)
  then show n: "\<exists>n. snodes s a = Some n" using holds_Some by blast
  then show "pub s a" using assms(2,3) unfolding pub_def by (metis linked.here)
qed

lemma inv_stack_top:
  assumes "inv_stack w d opss (s, H)" and "j < w" and "lo (stacks s ! j) = Some a"
  shows "pub s a" and "\<exists>n. snodes s a = Some n"
  using rep_stack_pub [of s _ j a] inv_stack_rep [OF assms(1)] inv_stack_width [OF assms(1)] assms(2,3) by metis+

lemma inv_stack_nonempty:
  assumes J: "inv_stack w d opss (s, H)" and j: "j < w" and a: "lo (stacks s ! j) = Some a"
  shows "gets_stack s j < puts_stack s j"
proof -
  obtain q where q: "rep_stack s q" by (rule inv_stack_rep [OF J])
  have "j < length q" using q inv_stack_index [OF J j] by (simp add: rep_stack_def)
  then have "holds (snodes s) (Some a) (fst (q ! j))" "puts_stack s j = gets_stack s j + length (fst (q ! j))"
    using q a by (auto simp: rep_stack_def puts_stack_def gets_stack_def)
  then show ?thesis using holds_Some [of "snodes s" a] by fastforce
qed

section \<open>Writing a node of one's own\<close>

lemma rep_stack_private:
  assumes rep: "rep_stack s q" and a: "\<not> pub s a"
  shows "rep_stack (s\<lparr>snodes := (snodes s)(a \<mapsto> n)\<rparr>) q"
    and "pub (s\<lparr>snodes := (snodes s)(a \<mapsto> n)\<rparr>) b \<longleftrightarrow> pub s b"
proof -
  have f: "holds ((snodes s)(a \<mapsto> n)) (lo (stacks s ! j)) (fst (q ! j)) \<and>
      (\<forall>b. linked ((snodes s)(a \<mapsto> n)) (lo (stacks s ! j)) b \<longleftrightarrow> linked (snodes s) (lo (stacks s ! j)) b)"
    if "j < length (stacks s)" for j
    by (rule holds_frame) (use rep a that in \<open>auto simp: rep_stack_def pub_def\<close>)
  show "rep_stack (s\<lparr>snodes := (snodes s)(a \<mapsto> n)\<rparr>) q" using rep f by (simp add: rep_stack_def)
  show "pub (s\<lparr>snodes := (snodes s)(a \<mapsto> n)\<rparr>) b \<longleftrightarrow> pub s b" using f by (auto simp: pub_def)
qed

lemma private_write:
  assumes J: "inv_stack w d opss (s, H)" and a: "\<not> pub s (Addr i k)"
    and v: "\<forall>m. snodes s (Addr i k) = Some m \<longrightarrow> node_val m = node_val n"
  defines "t \<equiv> s\<lparr>snodes := (snodes s)(Addr i k \<mapsto> n)\<rparr>"
  shows "inv_stack w d opss (t, H)" and "grd_stack i s t" and "core_stack s t" and "pub t b \<longleftrightarrow> pub s b"
proof -
  obtain q where q: "replay (spec_stack d) (replicate w ([], 0, 0)) H = Some q" "rep_stack s q"
    by (rule inv_stack_rep [OF J])
  have cnt: "puts_stack t = puts_stack s" "gets_stack t = gets_stack s"
    by (auto simp: t_def puts_stack_def gets_stack_def)
  have rep: "rep_stack t q" and pub: "pub t b \<longleftrightarrow> pub s b" for b
    using rep_stack_private [OF q(2) a] by (simp_all add: t_def)
  have "counts_ok w d (puts_stack s) (gets_stack s) t"
    using inv_stack_counts [OF J] by (simp add: counts_ok_def t_def)
  then have "stack_ok w d t" using inv_stack_ok [OF J] cnt by (simp add: stack_ok_def t_def)
  then show "inv_stack w d opss (t, H)"
    using J q(1) rep unfolding inv_stack_def by auto
  have top: "lo (stacks s ! j) \<noteq> Some (Addr i k)" if "j < length (stacks s)" for j
    using rep_stack_pub [OF q(2) that] a by blast
  show "core_stack s t"
    unfolding core_stack_def cnt using v top by (auto simp: t_def)
  then show "grd_stack i s t"
    using pub unfolding grd_stack_def own_stack_def by (auto simp: t_def)
  show "pub t b \<longleftrightarrow> pub s b" by (rule pub)
qed

section \<open>Exchanging a descriptor\<close>

text \<open>What both exchanges share: only stack \<open>j\<close> changes, and one of its counts grows.\<close>

lemma exchange_core:
  assumes J: "inv_stack w d opss (s, H)" and j: "j < w"
    and hi: "fst (hi (stacks s ! j)) \<le> fst (hi x)" "snd (hi (stacks s ! j)) \<le> snd (hi x)" "hi x \<noteq> hi (stacks s ! j)"
  shows "core_stack s (s\<lparr>stacks := (stacks s)[j := x]\<rparr>)"
proof -
  have len: "j < length (stacks s)" using inv_stack_width [OF J] j by simp
  then show ?thesis
    using hi by (auto simp: core_stack_def puts_stack_def gets_stack_def nth_list_update prod_eq_iff)
qed

lemma exchange_own:
  assumes "\<And>b. linked (snodes s) (lo x) b \<Longrightarrow> pub s b \<or> owner b = i" and "i' \<noteq> i"
  shows "own_stack i' s (s\<lparr>stacks := (stacks s)[j := x]\<rparr>)"
proof -
  have "pub s (Addr i' k)" if p: "pub (s\<lparr>stacks := (stacks s)[j := x]\<rparr>) (Addr i' k)" for k
  proof -
    obtain m where m: "m < length (stacks s)" "linked (snodes s) (lo ((stacks s)[j := x] ! m)) (Addr i' k)"
      using p by (auto simp: pub_def)
    show ?thesis
    proof (cases "m = j")
      case True
      then have "linked (snodes s) (lo x) (Addr i' k)" using m by simp
      then show ?thesis using assms(1) [of "Addr i' k"] assms(2) by simp
    next
      case False
      then show ?thesis using m by (auto simp: pub_def)
    qed
  qed
  then show ?thesis unfolding own_stack_def by auto
qed

lemma exchange_counts:
  assumes J: "inv_stack w d opss (s, H)" and j: "j < w"
    and hi: "fst (hi (stacks s ! j)) \<le> fst (hi x)" "snd (hi (stacks s ! j)) \<le> snd (hi x)" "snd (hi x) \<le> fst (hi x)"
      "fst (hi x) \<le> global_PWindow s"
  shows "stack_ok w d (s\<lparr>stacks := (stacks s)[j := x]\<rparr>)"
proof -
  have len: "length (stacks s) = w" using inv_stack_width [OF J] by simp
  have "counts_ok w d (puts_stack (s\<lparr>stacks := (stacks s)[j := x]\<rparr>)) (gets_stack (s\<lparr>stacks := (stacks s)[j := x]\<rparr>))
      (s\<lparr>stacks := (stacks s)[j := x]\<rparr>)"
  proof (rule counts_ok_advance [OF inv_stack_counts [OF J]])
    fix m assume m: "m < w"
    note c = counts_ok_nth [OF inv_stack_counts [OF J] m]
    show "puts_stack s m \<le> puts_stack (s\<lparr>stacks := (stacks s)[j := x]\<rparr>) m \<and>
        gets_stack s m \<le> gets_stack (s\<lparr>stacks := (stacks s)[j := x]\<rparr>) m \<and>
        gets_stack (s\<lparr>stacks := (stacks s)[j := x]\<rparr>) m \<le> puts_stack (s\<lparr>stacks := (stacks s)[j := x]\<rparr>) m \<and>
        puts_stack (s\<lparr>stacks := (stacks s)[j := x]\<rparr>) m \<le> global_PWindow s"
      using c hi m len by (cases "m = j") (auto simp: puts_stack_def gets_stack_def)
  qed simp_all
  then show ?thesis using inv_stack_ok [OF J] by (simp add: stack_ok_def)
qed

lemma rep_stack_update:
  assumes "rep_stack s q" and "holds (snodes s) (lo x) vs" and "0 \<notin> set vs"
    and "fst (hi x) = snd (hi x) + length vs"
  shows "rep_stack (s\<lparr>stacks := (stacks s)[j := x]\<rparr>) (q[j := (vs, hi x)])"
  unfolding rep_stack_def
proof (intro conjI allI impI)
  fix m assume m: "m < length (q[j := (vs, hi x)])"
  then show "holds (snodes (s\<lparr>stacks := (stacks s)[j := x]\<rparr>)) (lo (stacks (s\<lparr>stacks := (stacks s)[j := x]\<rparr>) ! m))
      (fst (q[j := (vs, hi x)] ! m))"
    "snd (q[j := (vs, hi x)] ! m) = hi (stacks (s\<lparr>stacks := (stacks s)[j := x]\<rparr>) ! m)"
    "fst (hi (stacks (s\<lparr>stacks := (stacks s)[j := x]\<rparr>) ! m)) =
      snd (hi (stacks (s\<lparr>stacks := (stacks s)[j := x]\<rparr>) ! m)) + length (fst (q[j := (vs, hi x)] ! m))"
    "0 \<notin> set (fst (q[j := (vs, hi x)] ! m))"
    using assms by (cases "m = j"; simp add: rep_stack_def)+
qed (use assms in \<open>simp add: rep_stack_def\<close>)

lemma push_commit:
  assumes J: "inv_stack w d opss (s, H)" and j: "j < w" and e: "stacks s ! j = e" "fst (hi e) < global_PWindow s"
    and a: "snodes s a = Some n" "node_next n = lo e" "node_val n = v" "\<not> pub s a" "owner a = i"
    and step: "i < length opss" "prefix (map fst (proj i H) @ [Push key v]) (opss ! i)"
  defines "t \<equiv> s\<lparr>stacks := (stacks s)[j := DW (Some a) (fst (hi e) + 1, snd (hi e))]\<rparr>"
  shows "inv_stack w d opss (t, H @ [(i, Push key v, 1, j)]) \<and> grd_stack i s t"
proof -
  let ?x = "DW (Some a) (fst (hi e) + 1, snd (hi e))"
  obtain q where q: "replay (spec_stack d) (replicate w ([], 0, 0)) H = Some q" "rep_stack s q"
    by (rule inv_stack_rep [OF J])
  have len: "length (stacks s) = w" "length q = w" using inv_stack_width [OF J] q(2) by (simp_all add: rep_stack_def)
  have qj: "holds (snodes s) (lo e) (fst (q ! j))" "snd (q ! j) = hi e" "0 \<notin> set (fst (q ! j))"
      "fst (hi e) = snd (hi e) + length (fst (q ! j))"
    using q(2) j len e(1) by (auto simp: rep_stack_def)
  note c = counts_ok_nth [OF inv_stack_counts [OF J] j]
  have "fst (hi e) + 1 \<le> fst (snd x) + d" if "x \<in> set q" for x
  proof -
    obtain m where m: "m < w" "x = q ! m" using \<open>x \<in> set q\<close> len by (auto simp: in_set_conv_nth)
    then have "fst (snd x) = puts_stack s m" using q(2) len by (auto simp: rep_stack_def puts_stack_def)
    then show ?thesis using counts_ok_nth [OF inv_stack_counts [OF J] m(1)] e by linarith
  qed
  then have spec: "spec_stack d q (Push key v) (1, j) = Some (q[j := (v # fst (q ! j), hi ?x)])"
    using qj(2) j len by (simp split: prod.split) (metis fst_conv snd_conv)
  have "Push key v \<in> set (opss ! i)" using step(2) by (auto dest: set_mono_prefix)
  then have v: "v \<noteq> 0" using J step(1) unfolding inv_stack_def nonzero_ops_def by (metis nth_mem)
  have rep: "rep_stack t (q[j := (v # fst (q ! j), hi ?x)])"
    unfolding t_def by (rule rep_stack_update [OF q(2)]) (use a qj v in auto)
  have ok: "stack_ok w d t"
    unfolding t_def by (rule exchange_counts [OF J j]) (use c e in \<open>auto simp: puts_stack_def gets_stack_def\<close>)
  have "core_stack s t"
    unfolding t_def by (rule exchange_core [OF J j]) (use e in \<open>auto simp: prod_eq_iff\<close>)
  moreover have "own_stack i' s t" if "i' \<noteq> i" for i'
    unfolding t_def
  proof (rule exchange_own [OF _ that])
    fix b assume "linked (snodes s) (lo ?x) b"
    then have "b = a \<or> linked (snodes s) (lo e) b" using a by (auto simp: linked_Some)
    then show "pub s b \<or> owner b = i" using a(5) j len e(1) by (auto simp: pub_def)
  qed
  ultimately have "grd_stack i s t" by (simp add: grd_stack_def)
  then show ?thesis
    using J ok q(1) spec rep step by (auto simp: inv_stack_def hist_ok_entry simp del: spec_stack.simps)
qed

lemma pop_commit:
  assumes J: "inv_stack w d opss (s, H)" and j: "j < w" and e: "stacks s ! j = e" "lo e = Some a"
    and a: "snodes s a = Some n"
    and step: "i < length opss" "prefix (map fst (proj i H) @ [Pop]) (opss ! i)"
  defines "t \<equiv> s\<lparr>stacks := (stacks s)[j := DW (node_next n) (fst (hi e), snd (hi e) + 1)]\<rparr>"
  shows "inv_stack w d opss (t, H @ [(i, Pop, node_val n, j)]) \<and> grd_stack i s t"
proof -
  let ?x = "DW (node_next n) (fst (hi e), snd (hi e) + 1)"
  obtain q where q: "replay (spec_stack d) (replicate w ([], 0, 0)) H = Some q" "rep_stack s q"
    by (rule inv_stack_rep [OF J])
  have len: "length (stacks s) = w" "length q = w" using inv_stack_width [OF J] q(2) by (simp_all add: rep_stack_def)
  have qj: "holds (snodes s) (lo e) (fst (q ! j))" "snd (q ! j) = hi e" "0 \<notin> set (fst (q ! j))"
      "fst (hi e) = snd (hi e) + length (fst (q ! j))"
    using q(2) j len e(1) by (auto simp: rep_stack_def)
  obtain vs where vs: "fst (q ! j) = node_val n # vs" "holds (snodes s) (node_next n) vs"
    using holds_Some [of "snodes s" a "fst (q ! j)"] qj(1) e(2) a by auto
  have le: "snd (hi e) < fst (hi e)" using qj(4) vs(1) by simp
  note c = counts_ok_nth [OF inv_stack_counts [OF J] j]
  have "node_val n \<noteq> 0" using qj(3) vs(1) by auto
  then have spec: "spec_stack d q Pop (node_val n, j) = Some (q[j := (vs, hi ?x)])"
    using qj(2) vs(1) j len by (cases "q ! j") (auto split: prod.split)
  have rep: "rep_stack t (q[j := (vs, hi ?x)])"
    unfolding t_def by (rule rep_stack_update [OF q(2)]) (use qj(3,4) vs in auto)
  have ok: "stack_ok w d t"
    unfolding t_def by (rule exchange_counts [OF J j]) (use c e le in \<open>auto simp: puts_stack_def gets_stack_def\<close>)
  have "core_stack s t"
    unfolding t_def by (rule exchange_core [OF J j]) (use e in \<open>auto simp: prod_eq_iff\<close>)
  moreover have "own_stack i' s t" if "i' \<noteq> i" for i'
    unfolding t_def
  proof (rule exchange_own [OF _ that])
    fix b assume "linked (snodes s) (lo ?x) b"
    then have "linked (snodes s) (lo e) b" using a e(2) by (auto simp: linked_Some)
    then show "pub s b \<or> owner b = i" using j len e(1) by (auto simp: pub_def)
  qed
  ultimately have "grd_stack i s t" by (simp add: grd_stack_def)
  then show ?thesis
    using J ok q(1) spec rep step by (auto simp: inv_stack_def hist_ok_entry simp del: spec_stack.simps)
qed

lemma pop_empty_commit:
  assumes J: "inv_stack w d opss (s, H)" and "i < length opss" "prefix (map fst (proj i H) @ [Pop]) (opss ! i)"
  shows "inv_stack w d opss (s, H @ [(i, Pop, 0, j)])"
proof -
  obtain q where q: "replay (spec_stack d) (replicate w ([], 0, 0)) H = Some q" "rep_stack s q"
    by (rule inv_stack_rep [OF J])
  then show ?thesis using assms by (simp add: inv_stack_def hist_ok_entry)
qed

section \<open>The window contracts hold\<close>

definition no_wrap_stack :: "nat \<Rightarrow> stack_2dd \<Rightarrow> bool" where
  "no_wrap_stack d s \<longleftrightarrow> global_PWindow s + d < U32 \<and> global_GWindow s + d < U32"

definition known_stack :: "nat \<Rightarrow> stack_desc \<Rightarrow> stack_2dd \<Rightarrow> bool" where
  "known_stack j e s \<longleftrightarrow> (\<forall>a. lo e = Some a \<longrightarrow> snodes s a \<noteq> None) \<and>
     fst (hi e) \<le> puts_stack s j \<and> snd (hi e) \<le> gets_stack s j"

lemma window_moves_stack:
  assumes "inv_stack w d opss (s, H)" and "stacks t = stacks s" and "snodes t = snodes s"
    and "global_PWindow s \<le> global_PWindow t" and "global_GWindow s \<le> global_GWindow t"
    and "counts_ok w d (puts_stack s) (gets_stack s) t"
  shows "inv_stack w d opss (t, H) \<and> grd_stack i s t \<and> ord_stack i s t"
proof -
  have c: "puts_stack t = puts_stack s" "gets_stack t = gets_stack s"
    using assms(2) by (auto simp: puts_stack_def gets_stack_def)
  have p: "pub t = pub s" using assms(2,3) by (auto simp: pub_def)
  have "rep_stack t q" if "rep_stack s q" for q using that assms(2,3) by (simp add: rep_stack_def)
  then have "inv_stack w d opss (t, H)"
    using assms c unfolding inv_stack_def stack_ok_def by auto
  then show ?thesis
    using assms c p by (auto simp: grd_stack_def ord_stack_def core_stack_def own_stack_def)
qed

interpretation window_stack: window_counts "no_wrap_stack d" no_fuel "inv_stack w d opss" ord_stack grd_stack opss
  "set_stack w d" puts_stack gets_stack known_stack "\<lambda>_ _ _. True" for w d opss
proof
  fix s t :: stack_2dd and H H' i j e
  { assume "inv_stack w d opss (s, H)"
    then show "counts_ok (width (set_stack w d)) (depth (set_stack w d)) (puts_stack s) (gets_stack s) s"
      by (simp add: inv_stack_counts) }
  { assume "no_wrap_stack d s"
    then show "global_PWindow s + depth (set_stack w d) < U64 \<and> global_GWindow s + depth (set_stack w d) < U64"
      by (auto simp: no_wrap_stack_def U32_def U64_def) }
  { assume J: "inv_stack w d opss (s, H)" and c: "counts_ok (width (set_stack w d)) (depth (set_stack w d)) (puts_stack s) (gets_stack s)
      (s\<lparr>global_PWindow := global_PWindow s + depth (set_stack w d)\<rparr>)"
    show "inv_stack w d opss (s\<lparr>global_PWindow := global_PWindow s + depth (set_stack w d)\<rparr>, H) \<and>
      grd_stack i s (s\<lparr>global_PWindow := global_PWindow s + depth (set_stack w d)\<rparr>) \<and>
      ord_stack i s (s\<lparr>global_PWindow := global_PWindow s + depth (set_stack w d)\<rparr>)"
      by (rule window_moves_stack [OF J]) (use c in auto) }
  { assume J: "inv_stack w d opss (s, H)" and c: "counts_ok (width (set_stack w d)) (depth (set_stack w d)) (puts_stack s) (gets_stack s)
      (s\<lparr>global_GWindow := global_GWindow s + depth (set_stack w d)\<rparr>)"
    show "inv_stack w d opss (s\<lparr>global_GWindow := global_GWindow s + depth (set_stack w d)\<rparr>, H) \<and>
      grd_stack i s (s\<lparr>global_GWindow := global_GWindow s + depth (set_stack w d)\<rparr>) \<and>
      ord_stack i s (s\<lparr>global_GWindow := global_GWindow s + depth (set_stack w d)\<rparr>)"
      by (rule window_moves_stack [OF J]) (use c in auto) }
  assume o: "ord_stack i s t"
  then have core: "core_stack s t" by (simp add: ord_stack_def)
  show "global_PWindow s \<le> global_PWindow t" "global_GWindow s \<le> global_GWindow t"
    using core_stack_simps [OF core] by simp_all
  show "ord_stack i s u" if "ord_stack i t u" for u using o that by (rule ord_stack_trans)
  assume J: "inv_stack w d opss (s, H)" and J': "inv_stack w d opss (t, H')" and j: "j < width (set_stack w d)"
  have len: "j < length (stacks s)" using inv_stack_width [OF J] j by simp
  note c = core_stack_nth [OF core len] core_stack_simps(4) [OF core]
  show "puts_stack s j \<le> puts_stack t j" "gets_stack s j \<le> gets_stack t j" by (rule c)+
  show "get_count (set_stack w d) (DW (lo (get_array (set_stack w d) s ! j)) (hi (get_array (set_stack w d) t ! j))) \<le> gets_stack t j"
    by (simp add: gets_stack_def)
  show "known_stack j (DW (lo (get_array (set_stack w d) s ! j)) (hi (get_array (set_stack w d) t ! j))) t"
    using inv_stack_top(2) [OF J, of j] j c(5) by (fastforce simp: known_stack_def puts_stack_def gets_stack_def)
  show "known_stack j e t" if "known_stack j e s"
    using that c(1,2,5) by (fastforce simp: known_stack_def)
qed (auto simp: no_fuel_def ord_stack_refl grd_stack_refl puts_stack_def dest: inv_stack_width)

section \<open>The operations\<close>

text \<open>What a thread knows between its operations: its index, its name and where its memory ends.\<close>

definition stack_local :: "nat \<Rightarrow> nat \<Rightarrow> thread_stack \<Rightarrow> stack_2dd \<Rightarrow> bool" where
  "stack_local w i l s \<longleftrightarrow> thread_index l < w \<and> thread_id l = i \<and> (\<forall>k\<ge>alloc_next l. snodes s (Addr i k) = None)"

lemma not_pub_unallocated: "snodes s a = None \<Longrightarrow> \<not> pub s a"
  unfolding pub_def using linked_alloc by blast

lemma own_stack_keeps:
  "ord_stack i s t \<Longrightarrow> \<not> pub s (Addr i k) \<Longrightarrow> \<not> pub t (Addr i k) \<and> snodes t (Addr i k) = snodes s (Addr i k)"
  by (simp add: ord_stack_def own_stack_def)

lemma stack_local_stable: "stack_local w i l s \<Longrightarrow> ord_stack i s t \<Longrightarrow> stack_local w i l t"
  using own_stack_keeps [of i s t] not_pub_unallocated [of s] by (simp add: stack_local_def)

lemma stack_local_simps [simp]:
  "stack_local w i l (s\<lparr>stacks := x\<rparr>) = stack_local w i l s"
  "stack_local w i (count_put_fail l) s = stack_local w i l s"
  "stack_local w i (count_get_fail l) s = stack_local w i l s"
  "stack_local w i (count_null l) s = stack_local w i l s"
  by (simp_all add: stack_local_def count_put_fail_def count_get_fail_def count_null_def)

text \<open>The template keeps \<open>thread_id\<close> and \<open>alloc_next\<close>.\<close>

lemma stack_local_more:
  "stack_local w i l s \<Longrightarrow> thread_index l' < w \<Longrightarrow> thread_2d.more l' = thread_2d.more l \<Longrightarrow> stack_local w i l' s"
proof -
  assume l: "stack_local w i l s" and l': "thread_index l' < w" and m: "thread_2d.more l' = thread_2d.more l"
  have "thread_id l' = thread_id l" "alloc_next l' = alloc_next l"
    using m by (cases l; cases l'; simp)+
  then show ?thesis using l l' by (simp add: stack_local_def)
qed

text \<open>A node of thread \<open>i\<close> that is not yet part of a stack, and holds \<open>v\<close>.\<close>

definition private_node :: "nat \<Rightarrow> addr \<Rightarrow> int \<Rightarrow> stack_2dd \<Rightarrow> bool" where
  "private_node i a v s \<longleftrightarrow> owner a = i \<and> \<not> pub s a \<and> (\<exists>n. snodes s a = Some n \<and> node_val n = v)"

lemma private_node_stable: "private_node i a v s \<Longrightarrow> ord_stack i s t \<Longrightarrow> private_node i a v t"
  using own_stack_keeps [of i s t "offset a"] by (cases a) (auto simp: private_node_def)

lemma push_2dd_loop_safe:
  assumes "inv_stack w d opss (s, H)" and "proj i H = P" and "prefix (map fst P @ [Push key v]) (opss ! i)"
    and "i < length opss" and "stack_local w i l s" and "private_node i a v s"
  shows "safe (no_wrap_stack d) no_fuel (lin_rely (inv_stack w d opss) ord_stack i)
    (lin_guar (inv_stack w d opss) grd_stack opss i)
    (\<lambda>(r, l) (s', H'). inv_stack w d opss (s', H') \<and> stack_local w i l s' \<and> proj i H' = P @ [(Push key v, (r, thread_index l))])
    (push_2dd_loop (set_stack w d) N n a c l) (s, H)"
  using assms
proof (induction n arbitrary: s H l c)
  case 0
  then show ?case by (simp add: no_fuel_def)
next
  case (Suc n)
  obtain k where a: "a = Addr i k" using Suc.prems(6) by (cases a) (auto simp: private_node_def)
  show ?case
    unfolding push_2dd_loop.simps store_next_def do_cae_2dd_def
    apply (rule window_stack.put.put_window_safe, rule Suc.prems(1), (use Suc.prems in \<open>simp add: stack_local_def\<close>)[1], rule refl)
    subgoal premises p for t H' e l'
    proof -
      have j: "thread_index l' < w" and P: "proj i H' = P" using p Suc.prems by auto
      have l': "stack_local w i l' t"
        by (rule stack_local_more [OF stack_local_stable [OF Suc.prems(5) p(2)]]) (use j p in simp_all)
      note priv = private_node_stable [OF Suc.prems(6) p(2)]
      have new: "add32 (fst (hi e)) 1 = fst (hi e) + 1"
        using p(4,8,9) by (simp add: no_wrap_stack_def add32_def)
      show ?thesis
        unfolding new
        apply (rule lin_checked, rule p)
        subgoal premises c for t1 using private_node_stable [OF priv c(2)] by (auto simp: private_node_def)
        apply (rule lin_store, rule p)
        subgoal premises q for t1 H1
        proof -
          have p1: "private_node i a v t1" by (rule private_node_stable [OF priv q(2)])
          have l1: "stack_local w i l' t1" by (rule stack_local_stable [OF l' q(2)])
          let ?n = "(the (snodes t1 a))\<lparr>node_next := lo e\<rparr>"
          let ?t = "t1\<lparr>snodes := (snodes t1)(a \<mapsto> ?n)\<rparr>"
          have np: "\<not> pub t1 (Addr i k)" "\<forall>m. snodes t1 (Addr i k) = Some m \<longrightarrow> node_val m = node_val ?n"
            using p1 by (auto simp: private_node_def a)
          note w = private_write [OF q(1) np, folded a]
          have P1: "proj i H1 = P" using q P by simp
          have p2: "private_node i a v ?t" using p1 w(4) by (auto simp: private_node_def)
          have l2: "stack_local w i l' ?t"
            using l1 p1 by (auto simp: stack_local_def private_node_def)
          let ?safe = "safe (no_wrap_stack d) no_fuel (lin_rely (inv_stack w d opss) ord_stack i)
            (lin_guar (inv_stack w d opss) grd_stack opss i)
            (\<lambda>(r, l) (s', H'). inv_stack w d opss (s', H') \<and> stack_local w i l s' \<and> proj i H' = P @ [(Push key v, (r, thread_index l))])"
          let ?cae = "checked (\<lambda>s. thread_index l' < length (stacks s)) (cae (\<lambda>s. stacks s ! thread_index l')
              (\<lambda>v s. s\<lparr>stacks := (stacks s)[thread_index l' := v]\<rparr>) e (DW (Some a) (fst (hi e) + 1, snd (hi e)))
              (\<lambda>ok _. if ok then Ret (1, l') else push_2dd_loop (set_stack w d) N n a True (count_put_fail l')))"
          have "?safe ?cae (?t, H1)"
            apply (rule lin_checked, rule w(1), erule inv_stack_index, rule j)
            apply (rule lin_cae_commit [where op = "Push key v" and r = "(1, thread_index l')" and a = "(1, l')"])
            subgoal by (rule w(1))
            subgoal by (rule grd_stack_refl)
            subgoal by simp
            subgoal by (rule Suc.prems)
            subgoal using Suc.prems P1 by simp
            subgoal premises r for t2 H2
            proof -
              have here: "private_node i a v t2" by (rule private_node_stable [OF p2 r(2)])
              have at: "snodes t2 a = Some ?n"
                using own_stack_keeps [OF r(2), of k] p2 by (auto simp: private_node_def a)
              have PW: "fst (hi e) < global_PWindow t2"
              proof -
                have "global_PWindow t1 \<le> global_PWindow t2"
                  using r(2) core_stack_simps(1) [of ?t t2] by (simp add: ord_stack_def)
                moreover have "global_PWindow t \<le> global_PWindow t1"
                  using q(2) core_stack_simps(1) [of t t1] by (simp add: ord_stack_def)
                ultimately show ?thesis using p(8,9) by simp
              qed
              show ?thesis
                by (rule push_commit [OF r(1) j r(6) PW at])
                  (use here Suc.prems P1 r at in \<open>auto simp: private_node_def\<close>)
            qed
            subgoal premises r for t2 t3 H2
              using stack_local_stable [of w i l' "t2\<lparr>stacks := (stacks t2)[thread_index l' := DW (Some a) (fst (hi e) + 1, snd (hi e))]\<rparr>" t3]
                stack_local_stable [OF l2 r(2)] r P1 by simp
            subgoal premises r for t2 H2
              using r P1 Suc.prems stack_local_stable [OF l2 r(2)] private_node_stable [OF p2 r(2)]
              by (simp, intro Suc.IH) (auto simp: stack_local_def count_put_fail_def)
            done
          then show ?thesis
            using w(1,2) by (intro exI [of _ "[]"]) simp
        qed
        done
    qed
    done
qed

lemma push_2dd_safe:
  assumes J: "inv_stack w d opss (s, H)" and "proj i H = P" and "prefix (map fst P @ [Push key v]) (opss ! i)"
    and "i < length opss" and l: "stack_local w i l s"
  shows "safe (no_wrap_stack d) no_fuel (lin_rely (inv_stack w d opss) ord_stack i)
    (lin_guar (inv_stack w d opss) grd_stack opss i)
    (\<lambda>(r, l) (s', H'). inv_stack w d opss (s', H') \<and> stack_local w i l s' \<and> proj i H' = P @ [(Push key v, (r, thread_index l))])
    (push_2dd (set_stack w d) N n key v l) (s, H)"
  unfolding push_2dd_def create_node_2dd_def Let_def
  apply (rule lin_store, rule J)
  subgoal premises q for t H'
  proof -
    let ?a = "Addr (thread_id l) (alloc_next l)" and ?n = "\<lparr>node_key = key, node_val = v, node_next = None\<rparr>"
    let ?t = "t\<lparr>snodes := (snodes t)(?a \<mapsto> ?n)\<rparr>" and ?l = "l\<lparr>alloc_next := alloc_next l + 1\<rparr>"
    have lt: "stack_local w i l t" by (rule stack_local_stable [OF l q(2)])
    have a: "snodes t ?a = None" and i: "thread_id l = i" using lt by (auto simp: stack_local_def)
    have np: "\<not> pub t (Addr i (alloc_next l))"
      "\<forall>m. snodes t (Addr i (alloc_next l)) = Some m \<longrightarrow> node_val m = node_val ?n"
      using not_pub_unallocated [OF a] a by (simp_all add: i)
    note w = private_write [OF q(1) np, folded i]
    have "stack_local w i ?l ?t" using lt by (auto simp: stack_local_def)
    moreover have "private_node i ?a v ?t" using np(1) w(4) i by (simp add: private_node_def)
    ultimately have "safe (no_wrap_stack d) no_fuel (lin_rely (inv_stack w d opss) ord_stack i)
        (lin_guar (inv_stack w d opss) grd_stack opss i)
        (\<lambda>(r, l) (s', H'). inv_stack w d opss (s', H') \<and> stack_local w i l s' \<and> proj i H' = P @ [(Push key v, (r, thread_index l))])
        (push_2dd_loop (set_stack w d) N n ?a False ?l) (?t, H')"
      using q assms by (intro push_2dd_loop_safe w(1)) auto
    then show ?thesis using w(1,2) i by (intro exI [of _ "[]"]) simp
  qed
  done

lemma pop_2dd_safe:
  assumes "inv_stack w d opss (s, H)" and "proj i H = P" and "prefix (map fst P @ [Pop]) (opss ! i)"
    and "i < length opss" and "stack_local w i l s"
  shows "safe (no_wrap_stack d) no_fuel (lin_rely (inv_stack w d opss) ord_stack i)
    (lin_guar (inv_stack w d opss) grd_stack opss i)
    (\<lambda>(r, l) (s', H'). inv_stack w d opss (s', H') \<and> stack_local w i l s' \<and> proj i H' = P @ [(Pop, (r, thread_index l))])
    (pop_2dd (set_stack w d) N n c l) (s, H)"
  using assms
proof (induction n arbitrary: s H l c)
  case 0
  then show ?case by (simp add: no_fuel_def)
next
  case (Suc n)
  let ?safe = "safe (no_wrap_stack d) no_fuel (lin_rely (inv_stack w d opss) ord_stack i)
    (lin_guar (inv_stack w d opss) grd_stack opss i)
    (\<lambda>(r, l) (s', H'). inv_stack w d opss (s', H') \<and> stack_local w i l s' \<and> proj i H' = P @ [(Pop, (r, thread_index l))])"
  show ?case
    unfolding pop_2dd.simps do_cae_2dd_def load_node_def
    apply (rule window_stack.get.get_window_safe, rule Suc.prems(1), (use Suc.prems in \<open>simp add: stack_local_def\<close>)[1], rule refl)
    subgoal premises p for t H' e l'
    proof -
      have j: "thread_index l' < w" and P: "proj i H' = P" using p Suc.prems by auto
      have step: "i < length opss" "prefix (map fst (proj i H') @ [Pop]) (opss ! i)" using Suc.prems P by auto
      have l': "stack_local w i l' t"
        by (rule stack_local_more [OF stack_local_stable [OF Suc.prems(5) p(2)]]) (use j p in simp_all)
      have known: "known_stack (thread_index l') e t" using p(7) by (simp add: window_stack.got_counts_def)
      show ?thesis
      proof (cases "lo e")
        case None
        note inv = pop_empty_commit [OF p(1) step, of "thread_index l'"]
        have "?safe (Ret (0, count_null l')) (t, H' @ [(i, Pop, 0, thread_index l')])"
          by (rule lin_commit_ret [where H = H'], rule inv) (use l' P stack_local_stable in auto)
        then show ?thesis using inv step None by (auto intro!: exI [of _ "[(i, Pop, 0, thread_index l')]"] simp: grd_stack_refl)
      next
        case (Some a)
        have "?safe (checked (\<lambda>s. snodes s a \<noteq> None) (load (\<lambda>s. node_next (the (snodes s a))) (\<lambda>p.
            checked (\<lambda>s. thread_index l' < length (stacks s)) (cae (\<lambda>s. stacks s ! thread_index l')
              (\<lambda>v s. s\<lparr>stacks := (stacks s)[thread_index l' := v]\<rparr>) e (DW p (fst (hi e), add32 (snd (hi e)) 1))
              (\<lambda>ok _. if ok then checked (\<lambda>s. snodes s a \<noteq> None) (load (\<lambda>s. node_val (the (snodes s a))) (\<lambda>v. Ret (v, l')))
                 else pop_2dd (set_stack w d) N n True (count_get_fail l')))))) (t, H')"
          apply (rule lin_checked, rule p)
          subgoal premises c for t1 using c(2) known Some core_stack_simps(4) [of t t1 a] by (auto simp: known_stack_def ord_stack_def)
          apply (rule lin_load, rule p, rule grd_stack_refl)
          subgoal premises q for t1 H1
            apply (rule lin_checked, rule q, erule inv_stack_index, rule j)
            apply (rule lin_cae, rule q, rule grd_stack_refl)
            subgoal premises r for t2 H2
            proof -
              have core: "core_stack t t1" "core_stack t1 t2" using q(2) r(2) by (simp_all add: ord_stack_def)
              have len: "thread_index l' < length (stacks t)" "thread_index l' < length (stacks t1)"
                using inv_stack_index [OF p(1) j] inv_stack_index [OF q(1) j] .
              have same: "puts_stack t1 (thread_index l') = puts_stack t2 (thread_index l')"
                "gets_stack t1 (thread_index l') = gets_stack t2 (thread_index l')"
                using core_stack_nth(1,2) [OF core(1) len(1)] core_stack_nth(1,2) [OF core(2) len(2)] known r(6)
                by (auto simp: known_stack_def puts_stack_def gets_stack_def)
              have e1: "stacks t1 ! thread_index l' = e" using core_stack_nth(3) [OF core(2) len(2) same] r(6) by simp
              have at: "snodes t2 a = snodes t1 a"
                using core_stack_nth(4) [OF core(2) len(2) same, of a] e1 Some by simp
              obtain m where m: "snodes t2 a = Some m" using inv_stack_top(2) [OF r(1) j] r(6) Some by auto
              let ?new = "DW (node_next m) (fst (hi e), snd (hi e) + 1)"
              have lt: "snd (hi e) < global_PWindow t2"
                using counts_ok_nth [OF inv_stack_counts [OF r(1)] j] inv_stack_nonempty [OF r(1) j, of a] r(6) Some
                by (simp add: puts_stack_def gets_stack_def)
              have new: "DW (node_next (the (snodes t1 a))) (fst (hi e), add32 (snd (hi e)) 1) = ?new"
                using arg_cong [OF m, of the] lt r(5) unfolding at by (simp add: no_wrap_stack_def add32_def)
              have P2: "proj i H2 = P" using r q P by auto
              have step2: "i < length opss" "prefix (map fst (proj i H2) @ [Pop]) (opss ! i)" using Suc.prems P2 by auto
              note commit = pop_commit [OF r(1) j r(6) Some m step2]
              let ?t = "t2\<lparr>stacks := (stacks t2)[thread_index l' := ?new]\<rparr>"
              have lt2: "stack_local w i l' ?t"
                using stack_local_stable [OF stack_local_stable [OF l' q(2)] r(2)] by simp
              have "?safe (checked (\<lambda>s. snodes s a \<noteq> None) (load (\<lambda>s. node_val (the (snodes s a))) (\<lambda>v. Ret (v, l'))))
                  (?t, H2 @ [(i, Pop, node_val m, thread_index l')])"
              proof (rule lin_checked)
                show "inv_stack w d opss (?t, H2 @ [(i, Pop, node_val m, thread_index l')])" using commit by blast
                have kept: "\<exists>m'. snodes u a = Some m' \<and> node_val m' = node_val m" if "ord_stack i ?t u" for u
                  using that core_stack_simps(4) [of ?t u a m] m by (simp add: ord_stack_def)
                show "snodes u a \<noteq> None" if "ord_stack i ?t u" for u using kept [OF that] by auto
                show "?safe (load (\<lambda>s. node_val (the (snodes s a))) (\<lambda>v. Ret (v, l'))) (?t, H2 @ [(i, Pop, node_val m, thread_index l')])"
                proof (rule lin_load)
                  show "inv_stack w d opss (?t, H2 @ [(i, Pop, node_val m, thread_index l')])" using commit by blast
                  fix u K assume u: "inv_stack w d opss (u, K)" "ord_stack i ?t u"
                    "proj i K = proj i (H2 @ [(i, Pop, node_val m, thread_index l')])"
                  obtain m' where "snodes u a = Some m'" "node_val m' = node_val m" using kept [OF u(2)] by blast
                  then have v: "node_val (the (snodes u a)) = node_val m" by simp
                  show "?safe (Ret (node_val (the (snodes u a)), l')) (u, K)"
                    unfolding v by (rule lin_ret, rule u(1))
                      (use u P2 stack_local_stable [OF lt2] stack_local_stable ord_stack_trans [OF u(2)] in auto)
                qed (rule grd_stack_refl)
              qed
              then show ?thesis
                unfolding new using commit step2 by (intro exI [of _ "[(i, Pop, node_val m, thread_index l')]"]) auto
            qed
            subgoal premises r for t2 H2
              using r q P Suc.prems stack_local_stable [OF stack_local_stable [OF l' q(2)] r(2)]
              by (simp, intro Suc.IH) auto
            done
          done
        then show ?thesis using Some p(1) by (intro exI [of _ "[]"]) (simp add: grd_stack_refl)
      qed
    qed
    done
qed

interpretation lin_stack: lin_object "no_wrap_stack d" no_fuel "inv_stack w d opss" ord_stack grd_stack
  "stack_local w" "spec_stack d" "replicate w ([], 0, 0)" "\<lambda>s q. rep_stack s q \<and> stack_ok w d s"
  "stack_2dd_op (set_stack w d) N n" opss for w d N n opss
proof unfold_locales
  show "op_ok (no_wrap_stack d) no_fuel (inv_stack w d opss) ord_stack grd_stack (stack_local w) opss i op
      (stack_2dd_op (set_stack w d) N n)" if "i < length opss" for i op
  proof (rule op_okI)
    fix l :: thread_stack and s H P
    assume J: "inv_stack w d opss (s, H)" "stack_local w i l s" "proj i H = P" "prefix (map fst P @ [op]) (opss ! i)"
    show "safe (no_wrap_stack d) no_fuel (lin_rely (inv_stack w d opss) ord_stack i)
        (lin_guar (inv_stack w d opss) grd_stack opss i)
        (\<lambda>(r, l) (s', H'). inv_stack w d opss (s', H') \<and> stack_local w i l s' \<and> proj i H' = P @ [(op, r)])
        (stack_2dd_op (set_stack w d) N n op l) (s, H)"
      using J that
      by (cases op)
        (auto intro!: safe_bind [OF safe_weaken [OF push_2dd_safe]] safe_bind [OF safe_weaken [OF pop_2dd_safe]]
          simp: lin_rely_def ord_stack_refl stack_local_stable dest!: hist_rely_proj)
  qed
  show "\<exists>q. replay (spec_stack d) (replicate w ([], 0, 0)) H = Some q \<and> rep_stack s q \<and> stack_ok w d s"
    if "inv_stack w d opss (s, H)" for s H
    using that inv_stack_ok [OF that] unfolding inv_stack_def by auto
qed (auto simp: ord_stack_refl intro: grd_ord_stack stack_local_stable elim: ord_stack_trans)

lemma inv_stack_init:
  "0 < w \<Longrightarrow> w < U32 \<Longrightarrow> nonzero_ops opss \<Longrightarrow> inv_stack w d opss (init_stack_2dd w, [])"
  by (auto simp: inv_stack_def stack_ok_def counts_ok_def rep_stack_def init_stack_2dd_def puts_stack_def gets_stack_def)

definition new_thread_stack :: "nat \<Rightarrow> seeds \<Rightarrow> thread_stack" where
  "new_thread_stack i sd = \<lparr>seeds = sd, thread_index = 0, my_put_cas_fail_count = 0, my_get_cas_fail_count = 0,
     my_null_count = 0, my_hop_count = 0, my_slide_count = 0, thread_PWindow = 0, thread_GWindow = 0,
     thread_id = i, alloc_next = 0\<rparr>"

text \<open>Threads numbered in order, each about to perform its operations.\<close>

definition stack_threads :: "(stack_op list \<times> seeds) list \<Rightarrow> (stack_op list \<times> thread_stack) list" where
  "stack_threads ths = map (\<lambda>i. (fst (ths ! i), new_thread_stack i (snd (ths ! i)))) [0..<length ths]"



end
