(* ===== verification/Chain.thy ===== *)
theory Chain
  imports Linear
begin

text \<open>
  The linked lists of the Michael-Scott queues, shared by the 2Dd queue, the queues of
  \<open>src/ms\<close>, \<open>src/dcbo-ms\<close> and \<open>src/queue-dra\<close>: the type of a node and of a node address, the
  node a queue has at a position, what linking, allocating and reading nodes do to the lists,
  and the operations of a queue.

  Nodes are allocated by \<open>ssalloc\<close>, whose memory is private to the allocating thread and never
  handed out twice: \<open>Node i k\<close> is the \<open>k\<close>-th node of thread \<open>i\<close>, \<open>Dummy j\<close> the node the creating
  thread allocates for sub-queue \<open>j\<close>.
\<close>

section \<open>Nodes\<close>

datatype qaddr = Dummy nat | Node (node_owner: nat) nat

record queue_node =
  qn_key :: int
  qn_val :: int
  qn_next :: "qaddr option"

type_synonym queue_desc = "(qaddr option, nat) dword"

type_synonym 'z queue_heap = "qaddr \<Rightarrow> 'z queue_node_scheme option"

datatype queue_op = Enqueue int int | Dequeue

section \<open>The chain of a sub-queue\<close>

text \<open>
  \<open>walk h j k\<close> is the \<open>k\<close>-th node ever linked into sub-queue \<open>j\<close>, its dummy the first. Since
  nodes are linked once and never unlinked, this name of a node does not change.
\<close>

fun walk :: "'z queue_heap \<Rightarrow> nat \<Rightarrow> nat \<Rightarrow> qaddr option" where
  "walk h j 0 = Some (Dummy j)"
| "walk h j (Suc k) = (case walk h j k of None \<Rightarrow> None
     | Some a \<Rightarrow> (case h a of None \<Rightarrow> None | Some n \<Rightarrow> qn_next n))"

definition written_once :: "'z queue_heap \<Rightarrow> 'z queue_heap \<Rightarrow> bool" where
  "written_once h h' \<longleftrightarrow> (\<forall>a n. h a = Some n \<longrightarrow> (\<exists>n'. h' a = Some n' \<and> qn_val n' = qn_val n \<and>
     (\<forall>b. qn_next n = Some b \<longrightarrow> qn_next n' = Some b)))"

lemma written_once_refl [simp]: "written_once h h"
  by (simp add: written_once_def)

lemma written_once_trans: "written_once h h' \<Longrightarrow> written_once h' h'' \<Longrightarrow> written_once h h''"
  unfolding written_once_def by metis

lemma written_onceD:
  assumes "written_once h h'" and "h a = Some n"
  obtains n' where "h' a = Some n'" "qn_val n' = qn_val n" "\<And>b. qn_next n = Some b \<Longrightarrow> qn_next n' = Some b"
  using assms unfolding written_once_def by metis

lemma walk_stable: "written_once h h' \<Longrightarrow> walk h j k = Some a \<Longrightarrow> walk h' j k = Some a"
proof (induction k arbitrary: a)
  case (Suc k)
  then obtain b n where b: "walk h j k = Some b" "h b = Some n" "qn_next n = Some a"
    by (auto split: option.splits)
  obtain n' where "h' b = Some n'" "qn_next n' = Some a"
    using written_onceD [OF Suc.prems(1) b(2)] b(3) by metis
  then show ?case using Suc.IH [OF Suc.prems(1) b(1)] by simp
qed simp

lemma walk_None: "walk h j k = None \<Longrightarrow> k \<le> m \<Longrightarrow> walk h j m = None"
  by (induction m) (auto simp: le_Suc_eq)

lemma walk_next: "walk h j k = Some a \<Longrightarrow> h a = Some n \<Longrightarrow> walk h j (Suc k) = qn_next n"
  by simp

declare walk.simps(2) [simp del]

text \<open>Writing a node that is in no chain, and linking one behind the last node of a chain.\<close>

lemma walk_private:
  assumes "\<And>k. walk h j k \<noteq> Some a" shows "walk (h(a \<mapsto> n)) j k = walk h j k"
proof (induction k)
  case (Suc k)
  have "walk h j k \<noteq> Some a" by (rule assms)
  then show ?case unfolding walk.simps(2) Suc by (auto split: option.splits)
qed simp

lemma walk_link_other:
  assumes "\<And>k. walk h j k \<noteq> Some t" shows "walk (h(t \<mapsto> n)) j k = walk h j k"
  using assms by (rule walk_private)

lemma walk_link:
  assumes last: "walk h j p = Some t" "h t = Some n" "qn_next n = None"
    and only: "\<And>k. walk h j k = Some t \<Longrightarrow> k = p" and new: "h a = Some m" "qn_next m = None" "a \<noteq> t"
  defines "h' \<equiv> h(t \<mapsto> n\<lparr>qn_next := Some a\<rparr>)"
  shows "k \<le> p \<Longrightarrow> walk h' j k = walk h j k" and "walk h' j (Suc p) = Some a" and "walk h' j (Suc (Suc p)) = None"
proof -
  have le: "k \<le> p \<Longrightarrow> walk h' j k = walk h j k" for k
  proof (induction k)
    case (Suc k)
    then have ne: "walk h j k \<noteq> Some t" and IH: "walk h' j k = walk h j k" using only [of k] by auto
    show ?case unfolding walk.simps(2) IH using ne by (auto simp: h'_def split: option.splits)
  qed simp
  then show "k \<le> p \<Longrightarrow> walk h' j k = walk h j k" .
  show s: "walk h' j (Suc p) = Some a" using le [of p] last by (simp add: walk.simps h'_def)
  show "walk h' j (Suc (Suc p)) = None" using s new unfolding walk.simps(2) [of _ _ "Suc p"] by (simp add: h'_def)
qed

section \<open>Arrays of lists\<close>

text \<open>
  \<open>chain_rep h j g p es\<close>: the list of sub-queue \<open>j\<close> has held the values \<open>es\<close> in all, its head is
  the node at position \<open>g\<close> and its tail the node at position \<open>p\<close>, which lags at most one node
  behind. What the sub-queue holds is \<open>drop g es\<close>.
\<close>

definition chain_rep :: "'z queue_heap \<Rightarrow> nat \<Rightarrow> nat \<Rightarrow> nat \<Rightarrow> int list \<Rightarrow> bool" where
  "chain_rep h j g p es \<longleftrightarrow> h (Dummy j) \<noteq> None \<and> walk h j (Suc (length es)) = None \<and>
     (\<forall>k<length es. \<exists>a n. walk h j (Suc k) = Some a \<and> h a = Some n \<and> qn_val n = es ! k) \<and>
     g \<le> p \<and> p \<le> length es \<and> length es \<le> p + 1"

definition apart :: "nat \<Rightarrow> 'z queue_heap \<Rightarrow> bool" where
  "apart w h \<longleftrightarrow> (\<forall>j<w. \<forall>j'<w. \<forall>k k' a. walk h j k = Some a \<longrightarrow> walk h j' k' = Some a \<longrightarrow> j = j' \<and> k = k')"

definition chains :: "nat \<Rightarrow> 'z queue_heap \<Rightarrow> (nat \<Rightarrow> nat) \<Rightarrow> (nat \<Rightarrow> nat) \<Rightarrow> (nat \<Rightarrow> int list) \<Rightarrow> bool" where
  "chains w h G P E \<longleftrightarrow> apart w h \<and> (\<forall>j<w. chain_rep h j (G j) (P j) (E j))"

definition linked :: "nat \<Rightarrow> 'z queue_heap \<Rightarrow> qaddr \<Rightarrow> bool" where
  "linked w h a \<longleftrightarrow> (\<exists>j<w. \<exists>k. walk h j k = Some a)"

text \<open>What the sub-queues hold.\<close>

definition contents :: "nat \<Rightarrow> (nat \<Rightarrow> nat) \<Rightarrow> (nat \<Rightarrow> int list) \<Rightarrow> int list list" where
  "contents w G E = map (\<lambda>j. drop (G j) (E j)) [0..<w]"

lemma contents_simps [simp]: "length (contents w G E) = w" "j < w \<Longrightarrow> contents w G E ! j = drop (G j) (E j)"
  by (simp_all add: contents_def)

lemma contents_put: "j < w \<Longrightarrow> G j \<le> length (E j) \<Longrightarrow>
    contents w G (E(j := E j @ [v])) = (contents w G E)[j := drop (G j) (E j) @ [v]]"
  by (rule nth_equalityI) (auto simp: nth_list_update)

lemma contents_get: "j < w \<Longrightarrow>
    contents w (G(j := g)) E = (contents w G E)[j := drop g (E j)]"
  by (rule nth_equalityI) (auto simp: nth_list_update)

lemma apartD:
  "apart w h \<Longrightarrow> j < w \<Longrightarrow> j' < w \<Longrightarrow> walk h j k = Some a \<Longrightarrow> walk h j' k' = Some a \<Longrightarrow> j = j' \<and> k = k'"
  unfolding apart_def by blast

lemma chain_repD:
  assumes "chain_rep h j g p es"
  shows "h (Dummy j) \<noteq> None" "walk h j (Suc (length es)) = None" "g \<le> p" "p \<le> length es" "length es \<le> p + 1"
    "k < length es \<Longrightarrow> \<exists>a n. walk h j (Suc k) = Some a \<and> h a = Some n \<and> qn_val n = es ! k"
  using assms unfolding chain_rep_def by blast+

lemma chainsD:
  "chains w h G P E \<Longrightarrow> apart w h" "chains w h G P E \<Longrightarrow> j < w \<Longrightarrow> chain_rep h j (G j) (P j) (E j)"
  by (simp_all add: chains_def)

lemma chain_walk:
  assumes "chain_rep h j g p es" and "k \<le> length es"
  obtains a n where "walk h j k = Some a" "h a = Some n"
proof (cases k)
  case 0
  then show ?thesis using that chain_repD(1) [OF assms(1)] by auto
next
  case (Suc m)
  then show ?thesis using that chain_repD(6) [OF assms(1), of m] assms(2) by auto
qed

lemma chain_walk_iff: "chain_rep h j g p es \<Longrightarrow> walk h j k \<noteq> None \<longleftrightarrow> k \<le> length es"
  using chain_walk [of h j g p es k] walk_None [OF chain_repD(2), of h j g p es k]
  by (metis not_less_eq_eq option.distinct(1))

lemma chain_alloc: "chain_rep h j g p es \<Longrightarrow> walk h j k = Some a \<Longrightarrow> \<exists>n. h a = Some n"
  using chain_walk [of h j g p es k] chain_walk_iff [of h j g p es k] by (metis option.distinct(1) option.inject)

lemma chain_last:
  assumes "chain_rep h j g p es" and "walk h j k = Some a" and "h a = Some n"
  shows "qn_next n = None \<longleftrightarrow> k = length es"
proof -
  have "k \<le> length es" using chain_walk_iff [OF assms(1), of k] assms(2) by simp
  moreover have "qn_next n = None \<longleftrightarrow> \<not> Suc k \<le> length es"
    using walk_next [OF assms(2,3)] chain_walk_iff [OF assms(1), of "Suc k"] by metis
  ultimately show ?thesis by linarith
qed

lemma chains_alloc:
  "chains w h G P E \<Longrightarrow> j < w \<Longrightarrow> walk h j k = Some a \<Longrightarrow> \<exists>n. h a = Some n"
  using chain_alloc chainsD(2) by metis

lemma chains_unlinked: "chains w h G P E \<Longrightarrow> h a = None \<Longrightarrow> \<not> linked w h a"
  unfolding linked_def using chains_alloc by fastforce

text \<open>A change of the heap that keeps the lists and the values in them.\<close>

lemma chains_same:
  assumes c: "chains w h G P E" and w: "\<And>j k. j < w \<Longrightarrow> walk h' j k = walk h j k"
    and v: "\<And>j k a n. j < w \<Longrightarrow> walk h j k = Some a \<Longrightarrow> h a = Some n \<Longrightarrow> \<exists>n'. h' a = Some n' \<and> qn_val n' = qn_val n"
  shows "chains w h' G P E"
proof -
  have "chain_rep h' j (G j) (P j) (E j)" if j: "j < w" for j
  proof -
    note x = chainsD(2) [OF c j]
    have "h' (Dummy j) \<noteq> None" using chain_repD(1) [OF x] v [OF j, of 0 "Dummy j"] by auto
    moreover have "\<exists>a n. walk h' j (Suc k) = Some a \<and> h' a = Some n \<and> qn_val n = E j ! k" if k: "k < length (E j)" for k
    proof -
      obtain a n where "walk h j (Suc k) = Some a" "h a = Some n" "qn_val n = E j ! k"
        using chain_repD(6) [OF x k] by blast
      then show ?thesis using v [OF j, of "Suc k" a n] w [OF j, of "Suc k"] by auto
    qed
    ultimately show ?thesis using x w [OF j] by (simp add: chain_rep_def)
  qed
  moreover have "apart w h'" using chainsD(1) [OF c] w by (simp add: apart_def)
  ultimately show ?thesis by (simp add: chains_def)
qed

lemma unlinked_walk: "\<not> linked w h a \<Longrightarrow> j < w \<Longrightarrow> walk (h(a \<mapsto> n)) j k = walk h j k"
  by (rule walk_private) (auto simp: linked_def)

lemma unlinked_linked: "\<not> linked w h a \<Longrightarrow> linked w (h(a \<mapsto> n)) b \<longleftrightarrow> linked w h b"
  using unlinked_walk [of w h a] unfolding linked_def by metis

lemma chains_private:
  assumes "chains w h G P E" and "\<not> linked w h a"
  shows "chains w (h(a \<mapsto> n)) G P E"
proof (rule chains_same [OF assms(1)])
  show "walk (h(a \<mapsto> n)) j k = walk h j k" if "j < w" for j k by (rule unlinked_walk [OF assms(2) that])
  show "\<exists>n'. (h(a \<mapsto> n)) b = Some n' \<and> qn_val n' = qn_val m" if "j < w" "walk h j k = Some b" "h b = Some m" for j k b m
    using assms(2) that by (auto simp: linked_def)
qed

lemma written_once_unlinked: "h a = None \<Longrightarrow> written_once h (h(a \<mapsto> n))"
  by (auto simp: written_once_def)

text \<open>Linking node \<open>a\<close> behind the last node of sub-queue \<open>j\<close>.\<close>

lemma chains_link:
  assumes c: "chains w h G P E" and j: "j < w"
    and last: "walk h j k = Some t" "h t = Some n" "qn_next n = None" and le: "k \<le> P j"
    and a: "\<not> linked w h a" "h a = Some m" "qn_next m = None"
  defines "h' \<equiv> h(t \<mapsto> n\<lparr>qn_next := Some a\<rparr>)"
  shows "k = length (E j)" "chains w h' G P (E(j := E j @ [qn_val m]))" "written_once h h'"
    "linked w h' b \<Longrightarrow> b = a \<or> linked w h b" "walk h' j (Suc k) = Some a"
proof -
  note x = chainsD(2) [OF c j]
  show k: "k = length (E j)" using chain_last [OF x last(1,2)] last(3) by simp
  have at: "a \<noteq> t" using a(1) last(1) j by (auto simp: linked_def)
  have only: "j' = j \<and> k' = k" if "j' < w" "walk h j' k' = Some t" for j' k'
    using apartD [OF chainsD(1) [OF c] that(1) j that(2) last(1)] .
  have other: "walk h' j' k' = walk h j' k'" if "j' < w" "j' \<noteq> j" for j' k'
    unfolding h'_def using walk_link_other [of h j' t] only that by blast
  have lk: "k' \<le> k \<Longrightarrow> walk h' j k' = walk h j k'" "walk h' j (Suc k) = Some a" "walk h' j (Suc (Suc k)) = None" for k'
    unfolding h'_def using walk_link [OF last _ a(2,3) at] only [OF j] by blast+
  then show "walk h' j (Suc k) = Some a" by simp
  have walk: "walk h' j k' = (if k' \<le> k then walk h j k' else if k' = Suc k then Some a else None)" for k'
    using lk walk_None [OF lk(3), of k'] by (auto simp: not_le Suc_le_eq le_Suc_eq)
  have val: "\<exists>n'. h' b = Some n' \<and> qn_val n' = qn_val m'" if "h b = Some m'" for b m'
    using that last(2) by (cases "b = t") (auto simp: h'_def)
  have "chain_rep h' j (G j) (P j) (E j @ [qn_val m])"
  proof -
    have "\<exists>b m'. walk h' j (Suc i) = Some b \<and> h' b = Some m' \<and> qn_val m' = (E j @ [qn_val m]) ! i"
      if "i < Suc (length (E j))" for i
    proof (cases "i = length (E j)")
      case True
      then show ?thesis using lk(2) k val [OF a(2)] by auto
    next
      case False
      then have i: "i < length (E j)" using that by simp
      then obtain b m' where "walk h j (Suc i) = Some b" "h b = Some m'" "qn_val m' = E j ! i"
        using chain_repD(6) [OF x] by blast
      then show ?thesis using lk(1) [of "Suc i"] val [of b m'] i k by (auto simp: nth_append)
    qed
    moreover have "h' (Dummy j) \<noteq> None" using chain_repD(1) [OF x] by (auto simp: h'_def)
    ultimately show ?thesis
      using chain_repD(3-5) [OF x] lk(3) k le unfolding chain_rep_def by simp
  qed
  moreover have "chain_rep h' j' (G j') (P j') (E j')" if "j' < w" "j' \<noteq> j" for j'
  proof -
    note y = chainsD(2) [OF c that(1)]
    have "h' (Dummy j') \<noteq> None" using chain_repD(1) [OF y] by (auto simp: h'_def)
    moreover have "\<exists>b m'. walk h' j' (Suc i) = Some b \<and> h' b = Some m' \<and> qn_val m' = E j' ! i"
      if "i < length (E j')" for i
      using chain_repD(6) [OF y that] val other [OF \<open>j' < w\<close> \<open>j' \<noteq> j\<close>] by metis
    ultimately show ?thesis using y other [OF that] by (simp add: chain_rep_def)
  qed
  moreover have old: "walk h j1 k1 = Some b \<or> j1 = j \<and> k1 = Suc k \<and> b = a" if "j1 < w" "walk h' j1 k1 = Some b" for j1 k1 b
    using that walk other [of j1 k1] by (cases "j1 = j") (auto split: if_splits)
  have "apart w h'"
    unfolding apart_def
  proof (intro allI impI)
    fix j1 j2 k1 k2 b assume b: "j1 < w" "j2 < w" "walk h' j1 k1 = Some b" "walk h' j2 k2 = Some b"
    have "walk h j1 k1 \<noteq> Some a" if "j1 < w" for j1 k1 using a(1) that by (auto simp: linked_def)
    then show "j1 = j2 \<and> k1 = k2"
      using old [OF b(1,3)] old [OF b(2,4)] b(1,2) apartD [OF chainsD(1) [OF c] b(1,2)] by blast
  qed
  ultimately show "chains w h' G P (E(j := E j @ [qn_val m]))" by (simp add: chains_def)
  show "written_once h h'" using last by (auto simp: written_once_def h'_def)
  show "linked w h' b \<Longrightarrow> b = a \<or> linked w h b" using old unfolding linked_def by blast
qed

text \<open>Moving the tail and the head.\<close>

lemma chains_tail:
  assumes c: "chains w h G P E" and b: "walk h j (Suc (P j)) \<noteq> None" and j: "j < w"
  shows "chains w h G (P(j := Suc (P j))) E"
proof -
  have "Suc (P j) \<le> length (E j)" using chain_walk_iff [OF chainsD(2) [OF c j], of "Suc (P j)"] b by simp
  then show ?thesis using c by (auto simp: chains_def chain_rep_def)
qed

lemma chains_head:
  assumes c: "chains w h G P E" and j: "j < w" and lt: "G j < P j" and b: "walk h j (Suc (G j)) = Some b" "h b = Some n"
  shows "chains w h (G(j := Suc (G j))) P E" "drop (G j) (E j) = qn_val n # drop (Suc (G j)) (E j)"
proof -
  note x = chainsD(2) [OF c j]
  have g: "G j < length (E j)" using lt chain_repD(4) [OF x] by simp
  show "chains w h (G(j := Suc (G j))) P E" using c lt by (auto simp: chains_def chain_rep_def)
  have "E j ! G j = qn_val n" using chain_repD(6) [OF x g] b by auto
  then show "drop (G j) (E j) = qn_val n # drop (Suc (G j)) (E j)" using Cons_nth_drop_Suc [OF g] by simp
qed

lemma chains_empty:
  assumes "chains w h G P E" and "j < w" and "walk h j (Suc (G j)) = None"
  shows "drop (G j) (E j) = []"
  using chain_walk_iff [OF chainsD(2) [OF assms(1,2)], of "Suc (G j)"] assms(3) by simp

text \<open>The lists the creating thread sets up: a dummy node for each.\<close>

lemma walk_dummy: "h (Dummy j) = Some n \<Longrightarrow> qn_next n = None \<Longrightarrow> walk h j k = (if k = 0 then Some (Dummy j) else None)"
  using walk_None [of h j 1 k] by (cases k) (simp_all add: walk.simps)

lemma chains_init:
  assumes "\<And>j. j < w \<Longrightarrow> \<exists>n. h (Dummy j) = Some n \<and> qn_next n = None"
  shows "chains w h (\<lambda>_. 0) (\<lambda>_. 0) (\<lambda>_. [])" "linked w h a \<longleftrightarrow> (\<exists>j<w. a = Dummy j)"
proof -
  have walk: "walk h j k = (if k = 0 then Some (Dummy j) else None)" if "j < w" for j k
    using assms [OF that] walk_dummy by blast
  then have "apart w h" by (auto simp: apart_def split: if_splits)
  moreover have "chain_rep h j 0 0 []" if "j < w" for j
    using assms [OF that] walk [OF that] by (auto simp: chain_rep_def)
  ultimately show "chains w h (\<lambda>_. 0) (\<lambda>_. 0) (\<lambda>_. [])" by (simp add: chains_def)
  show "linked w h a \<longleftrightarrow> (\<exists>j<w. a = Dummy j)"
  proof
    assume "linked w h a"
    then obtain j k where "j < w" "walk h j k = Some a" by (auto simp: linked_def)
    then show "\<exists>j<w. a = Dummy j" using walk [of j k] by (auto split: if_splits)
  next
    assume "\<exists>j<w. a = Dummy j"
    then obtain j where "j < w" "walk h j 0 = Some a" by auto
    then show "linked w h a" unfolding linked_def by blast
  qed
qed

section \<open>How far the queues have come\<close>

text \<open>
  Dequeues, tail moves and links of all queues together. It never decreases, and it is bounded by
  three times what has been enqueued: the measure of the rounds that the loops of the queues can
  fail.
\<close>

definition chain_len :: "'z queue_heap \<Rightarrow> nat \<Rightarrow> nat" where
  "chain_len h j = (LEAST k. walk h j (Suc k) = None)"

definition lane_work :: "nat \<Rightarrow> 'z queue_heap \<Rightarrow> (nat \<Rightarrow> nat) \<Rightarrow> (nat \<Rightarrow> nat) \<Rightarrow> nat" where
  "lane_work w h G P = (\<Sum>j<w. G j + P j + chain_len h j)"

lemma chain_len_eq: "chain_rep h j g p es \<Longrightarrow> chain_len h j = length es"
  unfolding chain_len_def
  by (rule Least_equality, erule chain_repD(2)) (metis chain_walk_iff not_less_eq_eq)

lemma chains_last:
  assumes "chains w h G P E" and "j < w" and "walk h j k = Some a" and "h a = Some n"
  shows "qn_next n = None \<longleftrightarrow> k = chain_len h j" and "k \<le> chain_len h j"
proof -
  note x = chainsD(2) [OF assms(1,2)]
  show "qn_next n = None \<longleftrightarrow> k = chain_len h j" "k \<le> chain_len h j"
    using chain_last [OF x assms(3,4)] chain_len_eq [OF x] chain_walk_iff [OF x, of k] assms(3) by simp_all
qed

lemma chains_len_mono:
  assumes c: "chains w h G P E" "chains w h' G' P' E'" and o: "written_once h h'" and j: "j < w"
  shows "chain_len h j \<le> chain_len h' j"
proof -
  note x = chainsD(2) [OF c(1) j] and y = chainsD(2) [OF c(2) j]
  obtain a where "walk h j (length (E j)) = Some a" using chain_walk [OF x order_refl] by blast
  then have "walk h' j (length (E j)) \<noteq> None" using walk_stable [OF o] by simp
  then show ?thesis using chain_walk_iff [OF y] chain_len_eq [OF x] chain_len_eq [OF y] by simp
qed

lemma lane_work_mono:
  assumes "chains w h G P E" and "chains w h' G' P' E'" and "written_once h h'" and "\<And>j. j < w \<Longrightarrow> G j \<le> G' j \<and> P j \<le> P' j"
  shows "lane_work w h G P \<le> lane_work w h' G' P'"
  unfolding lane_work_def
  by (rule sum_mono) (use assms(4) chains_len_mono [OF assms(1-3)] in \<open>simp add: add_mono\<close>)

lemma lane_work_less:
  assumes "chains w h G P E" and "chains w h' G' P' E'" and "written_once h h'" and "\<And>j. j < w \<Longrightarrow> G j \<le> G' j \<and> P j \<le> P' j"
    and "j < w" and "G j < G' j \<or> P j < P' j \<or> chain_len h j < chain_len h' j"
  shows "lane_work w h G P < lane_work w h' G' P'"
  unfolding lane_work_def
proof (rule sum_strict_mono_ex1)
  show "\<forall>x\<in>{..<w}. G x + P x + chain_len h x \<le> G' x + P' x + chain_len h' x"
    using assms(4) chains_len_mono [OF assms(1-3)] by (simp add: add_mono)
  have "G j + P j + chain_len h j < G' j + P' j + chain_len h' j"
    using assms(4) [OF assms(5)] chains_len_mono [OF assms(1-3,5)] assms(6) by linarith
  then show "\<exists>x\<in>{..<w}. G x + P x + chain_len h x < G' x + P' x + chain_len h' x" using assms(5) by blast
qed simp

lemma lane_work_bound: "chains w h G P E \<Longrightarrow> lane_work w h G P \<le> 3 * (\<Sum>j<w. length (E j))"
proof -
  assume c: "chains w h G P E"
  have "lane_work w h G P \<le> (\<Sum>j<w. 3 * length (E j))"
    unfolding lane_work_def
  proof (rule sum_mono)
    fix j assume "j \<in> {..<w}"
    then have x: "chain_rep h j (G j) (P j) (E j)" using chainsD(2) [OF c] by simp
    show "G j + P j + chain_len h j \<le> 3 * length (E j)"
      using chain_repD(3,4) [OF x] chain_len_eq [OF x] by linarith
  qed
  then show ?thesis by (simp add: sum_distrib_left)
qed

end
