(* ===== verification/Queue_2Dd.thy ===== *)
theory Queue_2Dd
  imports Window_2Dd_Counts Dimensions Chain
begin

text \<open>
  The 2Dd queue, \<open>src/2Dd-queue/2Dd-queue.c\<close>: an array of Michael-Scott queues. The get array
  holds for each the dummy node at the head and the count of dequeues, the put array the tail
  and the count of enqueues; the tail may lag one node behind. An enqueue takes effect when it
  links its node behind the last one, which it may do only after it has read the put count a
  second time, because the descriptor it works on is read in two halves.

  Nodes are allocated by \<open>ssalloc\<close>, whose memory is private to the allocating thread and never
  handed out twice: \<open>Node i k\<close> is the \<open>k\<close>-th node of thread \<open>i\<close>, \<open>Dummy j\<close> the node the creating
  thread allocates for sub-queue \<open>j\<close>. The build modelled is the plain one, without garbage
  collection and without the relaxation analysis.

  Shown: the queue is linearizable to an array of sequential queues in which an enqueue is
  allowed only on a queue that is less than \<open>depth\<close> ahead, and a dequeue reports empty only for
  a sub-queue that is empty.
\<close>

section \<open>State\<close>

record queue_2dd = window +
  get_desc :: "queue_desc list"
  put_desc :: "queue_desc list"
  qnodes :: "qaddr \<Rightarrow> queue_node option"

record thread_queue = thread_2d +
  thread_id :: nat
  alloc_next :: nat

definition set_queue :: "nat \<Rightarrow> nat \<Rightarrow> (queue_2dd, qaddr option, nat) dset" where
  "set_queue w d = \<lparr>width = w, depth = d, random_hops = 2, get_array = get_desc, put_array = put_desc,
     put_count = hi, get_count = hi\<rparr>"

lemma set_queue_simps [simp]:
  "width (set_queue w d) = w" "depth (set_queue w d) = d" "random_hops (set_queue w d) = 2"
  "get_array (set_queue w d) = get_desc" "put_array (set_queue w d) = put_desc"
  "put_count (set_queue w d) = hi" "get_count (set_queue w d) = hi"
  by (simp_all add: set_queue_def)

text \<open>The loop of \<open>create_queue\<close> gives every sub-queue its dummy node.\<close>

definition init_queue_2dd :: "nat \<Rightarrow> nat \<Rightarrow> queue_2dd" where
  "init_queue_2dd w d = initialize_global_window d
     \<lparr>global_PWindow = 0, global_GWindow = 0,
      get_desc = map (\<lambda>j. DW (Some (Dummy j)) 0) [0..<w], put_desc = map (\<lambda>j. DW (Some (Dummy j)) 0) [0..<w],
      qnodes = (\<lambda>a. case a of Dummy j \<Rightarrow> if j < w then Some \<lparr>qn_key = 0, qn_val = 0, qn_next = None\<rparr> else None
        | Node _ _ \<Rightarrow> None)\<rparr>"

definition create_queue_2dd :: "bool \<Rightarrow> nat \<Rightarrow> nat \<Rightarrow> nat \<Rightarrow> nat \<Rightarrow> nat \<Rightarrow>
    failure + ((queue_2dd, qaddr option, nat) dset \<times> nat \<times> queue_2dd)" where
  "create_queue_2dd alloc_ok num_threads w d k_mode k = (case dimensions U32 1 num_threads w d k_mode k of
     Inl e \<Rightarrow> Inl e
   | Inr (w, d, k) \<Rightarrow> if \<not> alloc_ok then Inl Exit_program else Inr (set_queue w d, k, init_queue_2dd w d))"

section \<open>Operations\<close>

definition create_node_queue :: "int \<Rightarrow> int \<Rightarrow> qaddr option \<Rightarrow> 'z thread_queue_scheme \<Rightarrow>
    (qaddr \<Rightarrow> 'z thread_queue_scheme \<Rightarrow> (queue_2dd, 'a) prog) \<Rightarrow> (queue_2dd, 'a) prog" where
  "create_node_queue key v p l k = (let a = Node (thread_id l) (alloc_next l) in
     store (\<lambda>s. s\<lparr>qnodes := (qnodes s)(a \<mapsto> \<lparr>qn_key = key, qn_val = v, qn_next = p\<rparr>)\<rparr>)
       (k a (l\<lparr>alloc_next := alloc_next l + 1\<rparr>)))"

text \<open>Reading a field through a pointer, which must not be null.\<close>

definition node_at :: "qaddr option \<Rightarrow> queue_2dd \<Rightarrow> queue_node" where
  "node_at p s = the (qnodes s (the p))"

definition load_field :: "(queue_node \<Rightarrow> 'x) \<Rightarrow> qaddr option \<Rightarrow> ('x \<Rightarrow> (queue_2dd, 'a) prog) \<Rightarrow> (queue_2dd, 'a) prog" where
  "load_field f p k = checked (\<lambda>s. p \<noteq> None \<and> qnodes s (the p) \<noteq> None) (load (\<lambda>s. f (node_at p s)) k)"

definition put_next :: "qaddr option \<Rightarrow> qaddr option \<Rightarrow> queue_2dd \<Rightarrow> queue_2dd" where
  "put_next p q s = s\<lparr>qnodes := (qnodes s)(the p \<mapsto> (node_at p s)\<lparr>qn_next := q\<rparr>)\<rparr>"

definition enq_cas_2dd :: "qaddr option \<Rightarrow> qaddr \<Rightarrow> (bool \<Rightarrow> (queue_2dd, 'a) prog) \<Rightarrow> (queue_2dd, 'a) prog" where
  "enq_cas_2dd tail new k = checked (\<lambda>s. tail \<noteq> None \<and> qnodes s (the tail) \<noteq> None)
     (cas (\<lambda>s. qn_next (node_at tail s)) (put_next tail) None (Some new) k)"

definition put_cae :: "nat \<Rightarrow> queue_desc \<Rightarrow> queue_desc \<Rightarrow> (bool \<Rightarrow> (queue_2dd, 'a) prog) \<Rightarrow> (queue_2dd, 'a) prog" where
  "put_cae j read_des new_des k = checked (\<lambda>s. j < length (put_desc s))
     (cae (\<lambda>s. put_desc s ! j) (\<lambda>v s. s\<lparr>put_desc := (put_desc s)[j := v]\<rparr>) read_des new_des (\<lambda>ok _. k ok))"

definition deq_cae_2dd :: "nat \<Rightarrow> queue_desc \<Rightarrow> queue_desc \<Rightarrow> (bool \<Rightarrow> (queue_2dd, 'a) prog) \<Rightarrow> (queue_2dd, 'a) prog" where
  "deq_cae_2dd j read_des new_des k = checked (\<lambda>s. j < length (get_desc s))
     (cae (\<lambda>s. get_desc s ! j) (\<lambda>v s. s\<lparr>get_desc := (get_desc s)[j := v]\<rparr>) read_des new_des (\<lambda>ok _. k ok))"

fun enqueue_2dd_loop :: "(queue_2dd, qaddr option, nat) dset \<Rightarrow> nat \<Rightarrow> nat \<Rightarrow> qaddr \<Rightarrow> bool \<Rightarrow> thread_queue \<Rightarrow>
    (queue_2dd, int \<times> thread_queue) prog" where
  "enqueue_2dd_loop D N 0 new contention l = Stop No_fuel"
| "enqueue_2dd_loop D N (Suc n) new contention l =
     put_window D N contention l (\<lambda>descriptor l.
     let tail = lo descriptor; count = add64 (hi descriptor) 1 in
     load_field qn_next tail (\<lambda>nx.
     if nx = None then
       checked (\<lambda>s. thread_index l < length (put_desc s)) (load (\<lambda>s. hi (put_desc s ! thread_index l)) (\<lambda>put_count.
       if thread_PWindow l \<le> put_count then enqueue_2dd_loop D N n new contention l
       else enq_cas_2dd tail new (\<lambda>ok.
         if ok then put_cae (thread_index l) descriptor (DW (Some new) count) (\<lambda>_. Ret (1, l))
         else enqueue_2dd_loop D N n new True (count_put_fail l))))
     else
       load_field qn_next tail (\<lambda>nx.
       put_cae (thread_index l) descriptor (DW nx count) (\<lambda>ok.
         enqueue_2dd_loop D N n new (contention \<or> \<not> ok) (count_put_fail l)))))"

definition enqueue_2dd :: "(queue_2dd, qaddr option, nat) dset \<Rightarrow> nat \<Rightarrow> nat \<Rightarrow> int \<Rightarrow> int \<Rightarrow> thread_queue \<Rightarrow>
    (queue_2dd, int \<times> thread_queue) prog" where
  "enqueue_2dd D N n key v l = create_node_queue key v None l (\<lambda>new l. enqueue_2dd_loop D N n new False l)"

fun dequeue_2dd :: "(queue_2dd, qaddr option, nat) dset \<Rightarrow> nat \<Rightarrow> nat \<Rightarrow> bool \<Rightarrow> thread_queue \<Rightarrow>
    (queue_2dd, int \<times> thread_queue) prog" where
  "dequeue_2dd D N 0 contention l = Stop No_fuel"
| "dequeue_2dd D N (Suc n) contention l =
     get_window D N contention l (\<lambda>deq_descriptor l.
     let head = lo deq_descriptor in
     checked (\<lambda>s. thread_index l < length (put_desc s)) (load2 (\<lambda>s. put_desc s ! thread_index l) (\<lambda>enq_descriptor.
     let tail = lo enq_descriptor in
     if head = tail then
       load_field qn_next head (\<lambda>nx.
       if nx = None then Ret (0, count_null l)
       else
         load_field qn_next tail (\<lambda>nx.
         put_cae (thread_index l) enq_descriptor (DW nx (add64 (hi enq_descriptor) 1)) (\<lambda>ok.
           dequeue_2dd D N n (contention \<or> \<not> ok) (count_get_fail l))))
     else
       load_field qn_next head (\<lambda>nx.
       deq_cae_2dd (thread_index l) deq_descriptor (DW nx (add64 (hi deq_descriptor) 1)) (\<lambda>ok.
         if ok then load_field qn_next head (\<lambda>nx. load_field qn_val nx (\<lambda>v. Ret (v, l)))
         else dequeue_2dd D N n True (count_get_fail l))))))"

text \<open>\<open>queue_size\<close>: \<open>r\<close> sub-queues from \<open>q\<close> on are still to be counted.\<close>

fun queue_size_nodes :: "nat \<Rightarrow> qaddr option \<Rightarrow> qaddr option \<Rightarrow> nat \<Rightarrow> (nat \<Rightarrow> (queue_2dd, 'a) prog) \<Rightarrow> (queue_2dd, 'a) prog" where
  "queue_size_nodes 0 head tail sz k = (if head = tail then k sz else Stop No_fuel)"
| "queue_size_nodes (Suc n) head tail sz k =
     (if head = tail then k sz else load_field qn_next head (\<lambda>nx. queue_size_nodes n nx tail (add64 sz 1) k))"

fun queue_size_loop :: "nat \<Rightarrow> nat \<Rightarrow> nat \<Rightarrow> nat \<Rightarrow> (queue_2dd, nat) prog" where
  "queue_size_loop N 0 q sz = Ret sz"
| "queue_size_loop N (Suc r) q sz =
     checked (\<lambda>s. q < length (get_desc s)) (load (\<lambda>s. lo (get_desc s ! q)) (\<lambda>head.
     checked (\<lambda>s. q < length (put_desc s)) (load (\<lambda>s. lo (put_desc s ! q)) (\<lambda>tail.
     queue_size_nodes N head tail sz (\<lambda>sz. queue_size_loop N r (q + 1) sz)))))"

definition queue_size_2dd :: "(queue_2dd, qaddr option, nat) dset \<Rightarrow> nat \<Rightarrow> (queue_2dd, nat) prog" where
  "queue_size_2dd D N = queue_size_loop N (width D) 0 0"

section \<open>Specification\<close>

text \<open>The response of an operation is its result and the sub-queue it used.\<close>

fun queue_2dd_op :: "(queue_2dd, qaddr option, nat) dset \<Rightarrow> nat \<Rightarrow> nat \<Rightarrow> queue_op \<Rightarrow> thread_queue \<Rightarrow>
    (queue_2dd, (int \<times> nat) \<times> thread_queue) prog" where
  "queue_2dd_op D N n (Enqueue key v) l = bind (enqueue_2dd D N n key v l) (\<lambda>(r, l). Ret ((r, thread_index l), l))"
| "queue_2dd_op D N n Dequeue l = bind (dequeue_2dd D N n False l) (\<lambda>(r, l). Ret ((r, thread_index l), l))"

text \<open>A sub-queue of the specification: its values from the front, and how many were enqueued in all.\<close>

type_synonym sub_queue = "int list \<times> nat"

fun spec_queue :: "nat \<Rightarrow> (sub_queue list, queue_op, int \<times> nat) spec" where
  "spec_queue dp q (Enqueue key v) (r, j) =
     (if r = 1 \<and> j < length q \<and> (\<forall>x \<in> set q. snd (q ! j) + 1 \<le> snd x + dp)
      then Some (q[j := (fst (q ! j) @ [v], snd (q ! j) + 1)]) else None)"
| "spec_queue dp q Dequeue (r, j) =
     (if j < length q then
        (case fst (q ! j) of
           [] \<Rightarrow> if r = 0 then Some q else None
         | v # vs \<Rightarrow> if r = v then Some (q[j := (vs, snd (q ! j))]) else None)
      else None)"

section \<open>Invariant\<close>

definition puts_queue :: "queue_2dd \<Rightarrow> nat \<Rightarrow> nat" where
  "puts_queue s j = hi (put_desc s ! j)"

definition gets_queue :: "queue_2dd \<Rightarrow> nat \<Rightarrow> nat" where
  "gets_queue s j = hi (get_desc s ! j)"

text \<open>
  Sub-queue \<open>j\<close> holds \<open>vs\<close> and has seen \<open>p\<close> enqueues: \<open>p\<close> nodes are linked behind the dummy,
  the descriptors point at the nodes their counts name, and the tail lags at most one behind.
\<close>

definition rep_sub :: "queue_2dd \<Rightarrow> nat \<Rightarrow> sub_queue \<Rightarrow> bool" where
  "rep_sub s j x \<longleftrightarrow> (\<exists>es. length es = snd x \<and> fst x = drop (gets_queue s j) es \<and>
     (\<forall>k < snd x. \<exists>a n. walk (qnodes s) j (Suc k) = Some a \<and> qnodes s a = Some n \<and> qn_val n = es ! k)) \<and>
     qnodes s (Dummy j) \<noteq> None \<and> walk (qnodes s) j (Suc (snd x)) = None \<and>
     puts_queue s j \<le> snd x \<and> snd x \<le> puts_queue s j + 1 \<and> snd x \<le> global_PWindow s \<and>
     lo (put_desc s ! j) = walk (qnodes s) j (puts_queue s j) \<and> lo (get_desc s ! j) = walk (qnodes s) j (gets_queue s j)"

definition rep_queue :: "queue_2dd \<Rightarrow> sub_queue list \<Rightarrow> bool" where
  "rep_queue s q \<longleftrightarrow> length q = length (put_desc s) \<and> (\<forall>j<length q. rep_sub s j (q ! j))"

definition chains_apart :: "nat \<Rightarrow> queue_2dd \<Rightarrow> bool" where
  "chains_apart w s \<longleftrightarrow> (\<forall>j<w. \<forall>j'<w. \<forall>k k' a. walk (qnodes s) j k = Some a \<longrightarrow> walk (qnodes s) j' k' = Some a \<longrightarrow>
     j = j' \<and> k = k')"

definition queue_ok :: "nat \<Rightarrow> nat \<Rightarrow> queue_2dd \<Rightarrow> bool" where
  "queue_ok w d s \<longleftrightarrow> 0 < w \<and> w < U32 \<and> length (put_desc s) = w \<and> length (get_desc s) = w \<and>
     counts_ok w d (puts_queue s) (gets_queue s) s"

definition inv_queue :: "nat \<Rightarrow> nat \<Rightarrow> queue_op list list \<Rightarrow> queue_2dd \<times> (queue_op, int \<times> nat) history \<Rightarrow> bool" where
  "inv_queue w d opss s \<longleftrightarrow> queue_ok w d (fst s) \<and> chains_apart w (fst s) \<and>
     (\<exists>q. replay (spec_queue d) (replicate w ([], 0)) (snd s) = Some q \<and> rep_queue (fst s) q) \<and> hist_ok opss (snd s)"

definition linked_node :: "nat \<Rightarrow> queue_2dd \<Rightarrow> qaddr \<Rightarrow> bool" where
  "linked_node w s a \<longleftrightarrow> (\<exists>j<w. \<exists>k. walk (qnodes s) j k = Some a)"

definition core_queue :: "queue_2dd \<Rightarrow> queue_2dd \<Rightarrow> bool" where
  "core_queue s t \<longleftrightarrow> global_PWindow s \<le> global_PWindow t \<and> global_GWindow s \<le> global_GWindow t \<and>
     length (put_desc t) = length (put_desc s) \<and> length (get_desc t) = length (get_desc s) \<and>
     (\<forall>j. puts_queue s j \<le> puts_queue t j \<and> gets_queue s j \<le> gets_queue t j) \<and> written_once (qnodes s) (qnodes t)"

definition own_queue :: "nat \<Rightarrow> nat \<Rightarrow> queue_2dd \<Rightarrow> queue_2dd \<Rightarrow> bool" where
  "own_queue w i s t \<longleftrightarrow> (\<forall>k. \<not> linked_node w s (Node i k) \<longrightarrow>
     \<not> linked_node w t (Node i k) \<and> qnodes t (Node i k) = qnodes s (Node i k))"

definition ord_queue :: "nat \<Rightarrow> nat \<Rightarrow> queue_2dd \<Rightarrow> queue_2dd \<Rightarrow> bool" where
  "ord_queue w i s t \<longleftrightarrow> core_queue s t \<and> own_queue w i s t"

definition grd_queue :: "nat \<Rightarrow> nat \<Rightarrow> queue_2dd \<Rightarrow> queue_2dd \<Rightarrow> bool" where
  "grd_queue w i s t \<longleftrightarrow> core_queue s t \<and> (\<forall>j. j \<noteq> i \<longrightarrow> own_queue w j s t)"

lemma core_queue_refl [simp]: "core_queue s s"
  by (simp add: core_queue_def)

lemma own_queue_refl [simp]: "own_queue w i s s"
  by (simp add: own_queue_def)

lemma ord_queue_refl: "ord_queue w i s s"
  by (simp add: ord_queue_def)

lemma grd_queue_refl: "grd_queue w i s s"
  by (simp add: grd_queue_def)

lemma grd_ord_queue: "i \<noteq> j \<Longrightarrow> grd_queue w i s t \<Longrightarrow> ord_queue w j s t"
  by (simp add: grd_queue_def ord_queue_def)

lemma core_queue_simps:
  assumes "core_queue s t"
  shows "global_PWindow s \<le> global_PWindow t" "global_GWindow s \<le> global_GWindow t"
    "length (put_desc t) = length (put_desc s)" "length (get_desc t) = length (get_desc s)"
    "puts_queue s j \<le> puts_queue t j" "gets_queue s j \<le> gets_queue t j" "written_once (qnodes s) (qnodes t)"
  using assms unfolding core_queue_def by blast+

lemma core_queue_trans:
  assumes "core_queue s t" and "core_queue t u"
  shows "core_queue s u"
proof -
  note a = core_queue_simps [OF assms(1)] and b = core_queue_simps [OF assms(2)]
  show ?thesis
    unfolding core_queue_def
  proof (intro conjI allI)
    show "length (put_desc u) = length (put_desc s)" "length (get_desc u) = length (get_desc s)" using a(3,4) b(3,4) by simp_all
  qed (rule le_trans [OF a(1) b(1)] le_trans [OF a(2) b(2)] le_trans [OF a(5) b(5)] le_trans [OF a(6) b(6)]
      written_once_trans [OF a(7) b(7)])+
qed

lemma ord_queue_trans: "ord_queue w i s t \<Longrightarrow> ord_queue w i t u \<Longrightarrow> ord_queue w i s u"
  using core_queue_trans [of s t u] by (simp add: ord_queue_def own_queue_def)

lemma ord_core: "ord_queue w i s t \<Longrightarrow> core_queue s t"
  by (simp add: ord_queue_def)

lemma ord_walk: "ord_queue w i s t \<Longrightarrow> walk (qnodes s) j k = Some a \<Longrightarrow> walk (qnodes t) j k = Some a"
  using core_queue_simps(7) [OF ord_core] walk_stable by blast

lemma inv_queue_rep:
  assumes "inv_queue w d opss (s, H)"
  obtains q where "replay (spec_queue d) (replicate w ([], 0)) H = Some q" "rep_queue s q" "length q = w"
proof -
  obtain q where q: "replay (spec_queue d) (replicate w ([], 0)) H = Some q" "rep_queue s q"
    using assms unfolding inv_queue_def by auto
  moreover have "length q = w" using q(2) assms by (simp add: rep_queue_def inv_queue_def queue_ok_def)
  ultimately show ?thesis using that by blast
qed

lemma inv_queue_ok:
  assumes "inv_queue w d opss (s, H)"
  shows "queue_ok w d s" "0 < w" "w < U32" "length (put_desc s) = w" "length (get_desc s) = w"
    "counts_ok w d (puts_queue s) (gets_queue s) s" "chains_apart w s"
  using assms by (simp_all add: inv_queue_def queue_ok_def)

lemma inv_queue_index:
  "inv_queue w d opss (s, H) \<Longrightarrow> j < w \<Longrightarrow> j < length (put_desc s)"
  "inv_queue w d opss (s, H) \<Longrightarrow> j < w \<Longrightarrow> j < length (get_desc s)"
  by (simp_all add: inv_queue_def queue_ok_def)

lemma inv_queue_sub:
  assumes "inv_queue w d opss (s, H)" and "j < w"
  obtains x where "rep_sub s j x"
proof -
  obtain q where "rep_queue s q" "length q = w" by (rule inv_queue_rep [OF assms(1)])
  then show ?thesis using that assms(2) unfolding rep_queue_def by blast
qed

section \<open>Facts about a state that satisfies the invariant\<close>

lemma rep_subD:
  assumes "rep_sub s j x"
  shows "walk (qnodes s) j (Suc (snd x)) = None" "puts_queue s j \<le> snd x" "snd x \<le> puts_queue s j + 1"
    "snd x \<le> global_PWindow s" "lo (put_desc s ! j) = walk (qnodes s) j (puts_queue s j)"
    "lo (get_desc s ! j) = walk (qnodes s) j (gets_queue s j)" "qnodes s (Dummy j) \<noteq> None"
  using assms unfolding rep_sub_def by blast+

lemma rep_sub_walk:
  assumes "rep_sub s j x" and "k \<le> snd x"
  obtains a n where "walk (qnodes s) j k = Some a" "qnodes s a = Some n"
proof (cases k)
  case 0
  then show ?thesis using that rep_subD(7) [OF assms(1)] by auto
next
  case (Suc m)
  then show ?thesis using that assms unfolding rep_sub_def by (metis Suc_le_lessD)
qed

lemma rep_sub_walk_iff: "rep_sub s j x \<Longrightarrow> walk (qnodes s) j k \<noteq> None \<longleftrightarrow> k \<le> snd x"
  using rep_sub_walk [of s j x k] walk_None [OF rep_subD(1), of s j x k] by (metis not_less_eq_eq option.distinct(1))

lemma rep_sub_alloc: "rep_sub s j x \<Longrightarrow> walk (qnodes s) j k = Some a \<Longrightarrow> \<exists>n. qnodes s a = Some n"
  using rep_sub_walk [of s j x k] rep_sub_walk_iff [of s j x k] by (metis option.distinct(1) option.inject)

lemma inv_queue_alloc:
  assumes "inv_queue w d opss (s, H)" and "j < w" and "walk (qnodes s) j k = Some a"
  shows "\<exists>n. qnodes s a = Some n"
  using inv_queue_sub [OF assms(1,2)] rep_sub_alloc assms(3) by metis

lemma inv_queue_unlinked: "inv_queue w d opss (s, H) \<Longrightarrow> qnodes s a = None \<Longrightarrow> \<not> linked_node w s a"
  unfolding linked_node_def using inv_queue_alloc by fastforce

lemma inv_queue_tail:
  assumes J: "inv_queue w d opss (s, H)" and j: "j < w"
  obtains a n where "lo (put_desc s ! j) = Some a" "walk (qnodes s) j (puts_queue s j) = Some a" "qnodes s a = Some n"
proof -
  obtain x where x: "rep_sub s j x" by (rule inv_queue_sub [OF J j])
  show ?thesis
    by (rule rep_sub_walk [OF x rep_subD(2) [OF x]]) (use that rep_subD(5) [OF x] in simp)
qed

lemma inv_queue_head:
  assumes J: "inv_queue w d opss (s, H)" and j: "j < w"
  obtains a n where "lo (get_desc s ! j) = Some a" "walk (qnodes s) j (gets_queue s j) = Some a" "qnodes s a = Some n"
proof -
  obtain x where x: "rep_sub s j x" by (rule inv_queue_sub [OF J j])
  have "gets_queue s j \<le> snd x"
    using counts_ok_nth [OF inv_queue_ok(6) [OF J] j] rep_subD(2) [OF x] by linarith
  then show ?thesis
    by (rule rep_sub_walk [OF x]) (use that rep_subD(6) [OF x] in simp)
qed

lemma chains_apartD:
  "chains_apart w s \<Longrightarrow> j < w \<Longrightarrow> j' < w \<Longrightarrow> walk (qnodes s) j k = Some a \<Longrightarrow> walk (qnodes s) j' k' = Some a \<Longrightarrow>
     j = j' \<and> k = k'"
  unfolding chains_apart_def by blast

section \<open>Allocating a node\<close>

lemma written_once_fresh: "h a = None \<Longrightarrow> written_once h (h(a \<mapsto> n))"
  by (auto simp: written_once_def)

lemma rep_sub_heap:
  assumes x: "rep_sub s j x" and w: "\<And>k. walk h j k = walk (qnodes s) j k"
    and h: "\<And>k a. walk (qnodes s) j k = Some a \<Longrightarrow> h a = qnodes s a"
    and D: "put_desc t = put_desc s" "get_desc t = get_desc s" "global_PWindow t = global_PWindow s" "qnodes t = h"
  shows "rep_sub t j x"
proof -
  have c: "puts_queue t = puts_queue s" "gets_queue t = gets_queue s"
    using D by (auto simp: puts_queue_def gets_queue_def)
  have "h (Dummy j) = qnodes s (Dummy j)" by (rule h [of 0]) simp
  moreover have "\<exists>a n. walk (qnodes s) j (Suc k) = Some a \<and> h a = Some n \<and> qn_val n = es ! k"
    if "\<exists>a n. walk (qnodes s) j (Suc k) = Some a \<and> qnodes s a = Some n \<and> qn_val n = es ! k" for k es
    using that h by metis
  ultimately show ?thesis
    using x unfolding rep_sub_def c D w by (simp del: ex_simps) blast
qed

lemma alloc_queue:
  fixes n :: queue_node
  assumes J: "inv_queue w d opss (s, H)" and a: "qnodes s (Node i k) = None"
  defines "t \<equiv> s\<lparr>qnodes := (qnodes s)(Node i k \<mapsto> n)\<rparr>"
  shows "inv_queue w d opss (t, H) \<and> grd_queue w i s t \<and> (\<forall>b. linked_node w t b \<longleftrightarrow> linked_node w s b)"
proof -
  have un: "walk (qnodes s) j m \<noteq> Some (Node i k)" if "j < w" for j m
    using inv_queue_alloc [OF J that] a by fastforce
  have walk: "walk (qnodes t) j m = walk (qnodes s) j m" if "j < w" for j m
    unfolding t_def using walk_private [of "qnodes s" j "Node i k" n m] un [OF that] by simp
  have link: "linked_node w t b \<longleftrightarrow> linked_node w s b" for b
    unfolding linked_node_def using walk by metis
  obtain q where q: "replay (spec_queue d) (replicate w ([], 0)) H = Some q" "rep_queue s q" "length q = w"
    by (rule inv_queue_rep [OF J])
  have "rep_sub t j (q ! j)" if j: "j < w" for j
  proof (rule rep_sub_heap)
    show "rep_sub s j (q ! j)" using q j by (simp add: rep_queue_def)
    show "walk (qnodes t) j m = walk (qnodes s) j m" for m by (rule walk [OF j])
    show "qnodes t b = qnodes s b" if "walk (qnodes s) j m = Some b" for m b
      using un [OF j, of m] that by (auto simp: t_def)
  qed (simp_all add: t_def)
  then have "rep_queue t q" using q by (simp add: rep_queue_def t_def)
  moreover have "chains_apart w t" using inv_queue_ok(7) [OF J] walk by (simp add: chains_apart_def)
  moreover have c: "puts_queue t = puts_queue s" "gets_queue t = gets_queue s"
    by (auto simp: t_def puts_queue_def gets_queue_def)
  moreover have "queue_ok w d t"
    using inv_queue_ok(1) [OF J] c by (simp add: queue_ok_def counts_ok_def t_def)
  ultimately have "inv_queue w d opss (t, H)" using J q(1) unfolding inv_queue_def by auto
  moreover have "core_queue s t"
    using c written_once_fresh [of "qnodes s" "Node i k" n] a by (simp add: core_queue_def t_def)
  moreover have "own_queue w j s t" if "j \<noteq> i" for j
    using link that by (simp add: own_queue_def t_def)
  ultimately show ?thesis using link by (simp add: grd_queue_def)
qed

section \<open>Linking a node\<close>

lemma link_queue:
  assumes J: "inv_queue w d opss (s, H)" and j: "j < w"
    and tail: "walk (qnodes s) j p = Some t0" "qn_next (node_at (Some t0) s) = None"
    and a: "a = Node i k" "\<not> linked_node w s a" "qnodes s a = Some m" "qn_next m = None" "qn_val m = v"
    and PW: "p < global_PWindow s" "p \<le> puts_queue s j"
    and step: "i < length opss" "prefix (map fst (proj i H) @ [Enqueue key v]) (opss ! i)"
  defines "t \<equiv> put_next (Some t0) (Some a) s"
  shows "inv_queue w d opss (t, H @ [(i, Enqueue key v, 1, j)]) \<and> grd_queue w i s t"
proof -
  obtain q where q: "replay (spec_queue d) (replicate w ([], 0)) H = Some q" "rep_queue s q" "length q = w"
    by (rule inv_queue_rep [OF J])
  have rep: "rep_sub s j' (q ! j')" if "j' < w" for j' using q that by (simp add: rep_queue_def)
  note x = rep [OF j]
  obtain n0 where n0: "qnodes s t0 = Some n0" using rep_sub_alloc [OF x tail(1)] by blast
  have nx: "qn_next n0 = None" using tail(2) n0 by (simp add: node_at_def)
  have p: "p = snd (q ! j)"
  proof -
    have "p \<le> snd (q ! j)" using rep_sub_walk_iff [OF x, of p] tail(1) by simp
    moreover have "walk (qnodes s) j (Suc p) = None" using walk_next [OF tail(1) n0] nx by simp
    then have "\<not> Suc p \<le> snd (q ! j)" using rep_sub_walk_iff [OF x, of "Suc p"] by simp
    ultimately show ?thesis by simp
  qed
  let ?h = "(qnodes s)(t0 \<mapsto> n0\<lparr>qn_next := Some a\<rparr>)"
  have t: "t = s\<lparr>qnodes := ?h\<rparr>" using n0 by (simp add: t_def put_next_def node_at_def)
  have at0: "a \<noteq> t0" using a(2) tail(1) j by (auto simp: linked_node_def)
  have apart: "j' = j \<and> k' = p" if "j' < w" "walk (qnodes s) j' k' = Some t0" for j' k'
    using chains_apartD [OF inv_queue_ok(7) [OF J] that(1) j that(2) tail(1)] .
  have other: "walk ?h j' k' = walk (qnodes s) j' k'" if "j' < w" "j' \<noteq> j" for j' k'
    using walk_link_other [of "qnodes s" j' t0] apart that by blast
  have lk: "k' \<le> p \<Longrightarrow> walk ?h j k' = walk (qnodes s) j k'" "walk ?h j (Suc p) = Some a" "walk ?h j (Suc (Suc p)) = None" for k'
    using walk_link [OF tail(1) n0 nx _ a(3,4) at0] apart [OF j] by blast+
  have walk: "walk ?h j k' = (if k' \<le> p then walk (qnodes s) j k' else if k' = Suc p then Some a else None)" for k'
    using lk walk_None [OF lk(3), of k'] by (auto simp: not_le Suc_le_eq le_Suc_eq)
  have c: "puts_queue t = puts_queue s" "gets_queue t = gets_queue s"
    by (auto simp: t puts_queue_def gets_queue_def)
  have desc: "put_desc t = put_desc s" "get_desc t = get_desc s" "global_PWindow t = global_PWindow s"
      "global_GWindow t = global_GWindow s" "qnodes t = ?h" by (simp_all add: t)
  have g: "gets_queue s j \<le> puts_queue s j" "puts_queue s j \<le> p"
    using counts_ok_nth [OF inv_queue_ok(6) [OF J] j] rep_subD(2) [OF x] p by simp_all
  have sub: "rep_sub t j (fst (q ! j) @ [v], p + 1)"
  proof -
    obtain es where es: "length es = p" "fst (q ! j) = drop (gets_queue s j) es"
      "\<And>k. k < p \<Longrightarrow> \<exists>a n. walk (qnodes s) j (Suc k) = Some a \<and> qnodes s a = Some n \<and> qn_val n = es ! k"
      using x unfolding rep_sub_def p by blast
    have vals: "\<exists>b n. walk ?h j (Suc k') = Some b \<and> ?h b = Some n \<and> qn_val n = (es @ [v]) ! k'" if "k' < p + 1" for k'
    proof (cases "k' = p")
      case True
      then show ?thesis using walk a at0 es(1) by (simp add: nth_append)
    next
      case False
      then have k': "k' < p" using that by simp
      obtain b n where b: "walk (qnodes s) j (Suc k') = Some b" "qnodes s b = Some n" "qn_val n = es ! k'"
        using es(3) [OF k'] by blast
      have "\<exists>n'. ?h b = Some n' \<and> qn_val n' = qn_val n" using b(2) n0 by (cases "b = t0") auto
      then show ?thesis using b k' walk es(1) by (auto simp: nth_append)
    qed
    have "\<exists>es'. length es' = p + 1 \<and> fst (q ! j) @ [v] = drop (gets_queue s j) es' \<and>
        (\<forall>k'<p + 1. \<exists>b n. walk ?h j (Suc k') = Some b \<and> ?h b = Some n \<and> qn_val n = es' ! k')"
      by (rule exI [of _ "es @ [v]"]) (use es vals g in simp)
    moreover have "?h (Dummy j) \<noteq> None" using rep_subD(7) [OF x] by simp
    moreover have "lo (put_desc s ! j) = walk ?h j (puts_queue s j)" "lo (get_desc s ! j) = walk ?h j (gets_queue s j)"
      using rep_subD(5,6) [OF x] walk g by simp_all
    ultimately show ?thesis
      using walk g PW rep_subD(3) [OF x] p unfolding rep_sub_def c desc fst_conv snd_conv by simp
  qed
  have others: "rep_sub t j' (q ! j')" if "j' < w" "j' \<noteq> j" for j'
  proof (rule rep_sub_heap [OF rep [OF that(1)]])
    show "walk ?h j' k' = walk (qnodes s) j' k'" for k' by (rule other [OF that])
    show "?h b = qnodes s b" if "walk (qnodes s) j' k' = Some b" for k' b
      using apart [of j' k'] \<open>j' < w\<close> \<open>j' \<noteq> j\<close> that by auto
  qed (simp_all add: desc)
  have "rep_queue t (q[j := (fst (q ! j) @ [v], p + 1)])"
    using q j inv_queue_ok(4) [OF J] sub others by (auto simp: rep_queue_def desc nth_list_update)
  moreover have "spec_queue d q (Enqueue key v) (1, j) = Some (q[j := (fst (q ! j) @ [v], p + 1)])"
  proof -
    have "p + 1 \<le> snd y + d" if "y \<in> set q" for y
    proof -
      obtain j' where j': "j' < w" "y = q ! j'" using \<open>y \<in> set q\<close> q(3) by (auto simp: in_set_conv_nth)
      have "puts_queue s j' \<le> snd y" using rep_subD(2) [OF rep [OF j'(1)]] j' by simp
      then show ?thesis using counts_ok_nth [OF inv_queue_ok(6) [OF J] j'(1)] PW by linarith
    qed
    then show ?thesis using j q(3) p by simp
  qed
  moreover have "chains_apart w t"
    unfolding chains_apart_def desc
  proof (intro allI impI)
    fix j1 j2 k1 k2 b assume b: "j1 < w" "j2 < w" "walk ?h j1 k1 = Some b" "walk ?h j2 k2 = Some b"
    have old: "walk (qnodes s) j1 k1 = Some b \<or> j1 = j \<and> k1 = Suc p \<and> b = a" if "j1 < w" "walk ?h j1 k1 = Some b" for j1 k1
      using that walk other [of j1 k1] by (cases "j1 = j") (auto split: if_splits)
    have new: "walk (qnodes s) j1 k1 \<noteq> Some a" if "j1 < w" for j1 k1
      using a(2) that by (auto simp: linked_node_def)
    show "j1 = j2 \<and> k1 = k2"
      using old [OF b(1,3)] old [OF b(2,4)] new b chains_apartD [OF inv_queue_ok(7) [OF J] b(1,2)] by blast
  qed
  moreover have "queue_ok w d t"
    using inv_queue_ok(1) [OF J] c by (simp add: queue_ok_def counts_ok_def desc)
  ultimately have "inv_queue w d opss (t, H @ [(i, Enqueue key v, 1, j)])"
    using J q(1) step by (auto simp: inv_queue_def hist_ok_entry simp del: spec_queue.simps)
  moreover have "core_queue s t"
  proof -
    have "written_once (qnodes s) ?h" using n0 nx by (auto simp: written_once_def)
    then show ?thesis using c by (simp add: core_queue_def desc)
  qed
  moreover have "own_queue w i' s t" if "i' \<noteq> i" for i'
  proof -
    have "\<not> linked_node w t (Node i' k')" if n: "\<not> linked_node w s (Node i' k')" for k'
    proof
      assume "linked_node w t (Node i' k')"
      then obtain j1 k1 where b: "j1 < w" "walk ?h j1 k1 = Some (Node i' k')" by (auto simp: linked_node_def desc)
      show False
        using b n walk other [of j1 k1] a(1) \<open>i' \<noteq> i\<close> by (cases "j1 = j") (auto simp: linked_node_def split: if_splits)
    qed
    moreover have "t0 \<noteq> Node i' k'" if "\<not> linked_node w s (Node i' k')" for k'
      using that tail(1) j by (auto simp: linked_node_def)
    ultimately show ?thesis by (auto simp: own_queue_def desc)
  qed
  ultimately show ?thesis by (simp add: grd_queue_def)
qed

section \<open>Moving the tail and the head\<close>

lemma own_queue_same: "qnodes t = qnodes s \<Longrightarrow> own_queue w i s t"
  by (simp add: own_queue_def linked_node_def)

lemma chains_apart_same: "qnodes t = qnodes s \<Longrightarrow> chains_apart w t = chains_apart w s"
  by (simp add: chains_apart_def)

lemma tail_queue:
  assumes J: "inv_queue w d opss (s, H)" and j: "j < w" and e: "put_desc s ! j = e"
    and b: "walk (qnodes s) j (Suc (hi e)) = Some b"
  defines "t \<equiv> s\<lparr>put_desc := (put_desc s)[j := DW (Some b) (hi e + 1)]\<rparr>"
  shows "inv_queue w d opss (t, H) \<and> grd_queue w i s t"
proof -
  obtain q where q: "replay (spec_queue d) (replicate w ([], 0)) H = Some q" "rep_queue s q" "length q = w"
    by (rule inv_queue_rep [OF J])
  have rep: "rep_sub s j' (q ! j')" if "j' < w" for j' using q that by (simp add: rep_queue_def)
  have len: "j < length (put_desc s)" using inv_queue_ok(4) [OF J] j by simp
  have p: "puts_queue s j = hi e" using e by (simp add: puts_queue_def)
  have c: "puts_queue t j' = (if j' = j then hi e + 1 else puts_queue s j')" "gets_queue t j' = gets_queue s j'" for j'
    using len by (simp_all add: t_def puts_queue_def gets_queue_def)
  have le: "Suc (hi e) \<le> snd (q ! j)" using rep_sub_walk_iff [OF rep [OF j], of "Suc (hi e)"] b by simp
  have "rep_sub t j' (q ! j')" if "j' < w" for j'
    using rep [OF that] le b p len c unfolding rep_sub_def by (cases "j' = j") (auto simp: t_def)
  then have "rep_queue t q" using q by (simp add: rep_queue_def t_def)
  moreover have "counts_ok w d (puts_queue t) (gets_queue t) t"
  proof (rule counts_ok_advance [OF inv_queue_ok(6) [OF J]])
    fix j' assume j': "j' < w"
    show "puts_queue s j' \<le> puts_queue t j' \<and> gets_queue s j' \<le> gets_queue t j' \<and>
        gets_queue t j' \<le> puts_queue t j' \<and> puts_queue t j' \<le> global_PWindow s"
      using counts_ok_nth [OF inv_queue_ok(6) [OF J] j'] c p le rep_subD(4) [OF rep [OF j]] by auto
  qed (simp_all add: t_def)
  then have "queue_ok w d t" using inv_queue_ok(1) [OF J] by (simp add: queue_ok_def t_def)
  ultimately have "inv_queue w d opss (t, H)"
    using J q(1) chains_apart_same [of t s w] unfolding inv_queue_def by (auto simp: t_def)
  moreover have "core_queue s t" using c p by (simp add: core_queue_def t_def)
  ultimately show ?thesis using own_queue_same [of t s] by (simp add: grd_queue_def t_def)
qed

lemma head_queue:
  assumes J: "inv_queue w d opss (s, H)" and j: "j < w" and e: "get_desc s ! j = e"
    and b: "walk (qnodes s) j (Suc (hi e)) = Some b" "qnodes s b = Some n"
    and lt: "hi e < puts_queue s j"
    and step: "i < length opss" "prefix (map fst (proj i H) @ [Dequeue]) (opss ! i)"
  defines "t \<equiv> s\<lparr>get_desc := (get_desc s)[j := DW (Some b) (hi e + 1)]\<rparr>"
  shows "inv_queue w d opss (t, H @ [(i, Dequeue, qn_val n, j)]) \<and> grd_queue w i s t"
proof -
  obtain q where q: "replay (spec_queue d) (replicate w ([], 0)) H = Some q" "rep_queue s q" "length q = w"
    by (rule inv_queue_rep [OF J])
  have rep: "rep_sub s j' (q ! j')" if "j' < w" for j' using q that by (simp add: rep_queue_def)
  note x = rep [OF j]
  have len: "j < length (get_desc s)" using inv_queue_ok(5) [OF J] j by simp
  have g: "gets_queue s j = hi e" using e by (simp add: gets_queue_def)
  have c: "gets_queue t j' = (if j' = j then hi e + 1 else gets_queue s j')" "puts_queue t j' = puts_queue s j'" for j'
    using len by (simp_all add: t_def puts_queue_def gets_queue_def)
  have le: "hi e < snd (q ! j)" using rep_subD(2) [OF x] lt by simp
  obtain es where es: "length es = snd (q ! j)" "fst (q ! j) = drop (hi e) es"
    "\<And>k. k < snd (q ! j) \<Longrightarrow> \<exists>a n. walk (qnodes s) j (Suc k) = Some a \<and> qnodes s a = Some n \<and> qn_val n = es ! k"
    using x g unfolding rep_sub_def by auto
  have v: "es ! hi e = qn_val n" using es(3) [OF le] b by auto
  have q0: "fst (q ! j) = qn_val n # drop (hi e + 1) es" using es(1,2) le v Cons_nth_drop_Suc [of "hi e" es] by simp
  let ?x = "(drop (hi e + 1) es, snd (q ! j))"
  have "rep_sub t j ?x"
  proof -
    have "\<exists>es'. length es' = snd (q ! j) \<and> drop (hi e + 1) es = drop (hi e + 1) es' \<and>
      (\<forall>k < snd (q ! j). \<exists>a n. walk (qnodes s) j (Suc k) = Some a \<and> qnodes s a = Some n \<and> qn_val n = es' ! k)"
      by (rule exI [of _ es]) (use es in simp)
    then show ?thesis
      using x b(1) len c unfolding rep_sub_def fst_conv snd_conv by (auto simp: t_def)
  qed
  moreover have "rep_sub t j' (q ! j')" if "j' < w" "j' \<noteq> j" for j'
    using rep [OF that(1)] c that unfolding rep_sub_def by (auto simp: t_def)
  ultimately have "rep_queue t (q[j := ?x])" using q j by (auto simp: rep_queue_def t_def nth_list_update)
  moreover have "spec_queue d q Dequeue (qn_val n, j) = Some (q[j := ?x])" using q0 j q(3) by simp
  moreover have "counts_ok w d (puts_queue t) (gets_queue t) t"
  proof (rule counts_ok_advance [OF inv_queue_ok(6) [OF J]])
    fix j' assume j': "j' < w"
    show "puts_queue s j' \<le> puts_queue t j' \<and> gets_queue s j' \<le> gets_queue t j' \<and>
        gets_queue t j' \<le> puts_queue t j' \<and> puts_queue t j' \<le> global_PWindow s"
      using counts_ok_nth [OF inv_queue_ok(6) [OF J] j'] c g lt by auto
  qed (simp_all add: t_def)
  then have "queue_ok w d t" using inv_queue_ok(1) [OF J] by (simp add: queue_ok_def t_def)
  ultimately have "inv_queue w d opss (t, H @ [(i, Dequeue, qn_val n, j)])"
    using J q(1) step chains_apart_same [of t s w]
    by (auto simp: inv_queue_def hist_ok_entry t_def simp del: spec_queue.simps)
  moreover have "core_queue s t" using c g by (simp add: core_queue_def t_def)
  ultimately show ?thesis using own_queue_same [of t s] by (simp add: grd_queue_def t_def)
qed

lemma empty_queue:
  assumes J: "inv_queue w d opss (s, H)" and j: "j < w" and last: "walk (qnodes s) j (Suc (gets_queue s j)) = None"
    and step: "i < length opss" "prefix (map fst (proj i H) @ [Dequeue]) (opss ! i)"
  shows "inv_queue w d opss (s, H @ [(i, Dequeue, 0, j)])"
proof -
  obtain q where q: "replay (spec_queue d) (replicate w ([], 0)) H = Some q" "rep_queue s q" "length q = w"
    by (rule inv_queue_rep [OF J])
  have x: "rep_sub s j (q ! j)" using q j by (simp add: rep_queue_def)
  have "\<not> Suc (gets_queue s j) \<le> snd (q ! j)" using rep_sub_walk_iff [OF x, of "Suc (gets_queue s j)"] last by simp
  then have "fst (q ! j) = []" using x unfolding rep_sub_def by auto
  then have "spec_queue d q Dequeue (0, j) = Some q" using j q(3) by simp
  then show ?thesis using J q step by (auto simp: inv_queue_def hist_ok_entry simp del: spec_queue.simps)
qed

section \<open>The window contracts hold\<close>

definition no_wrap_queue :: "nat \<Rightarrow> queue_2dd \<Rightarrow> bool" where
  "no_wrap_queue d s \<longleftrightarrow> global_PWindow s + d < U64 \<and> global_GWindow s + d < U64"

text \<open>The node a descriptor names is one the sub-queue had at its tail, or at its head.\<close>

definition known_tail :: "nat \<Rightarrow> nat \<Rightarrow> queue_desc \<Rightarrow> queue_2dd \<Rightarrow> bool" where
  "known_tail w j e s \<longleftrightarrow> (j < w \<longrightarrow> (\<exists>k\<le>puts_queue s j. lo e = walk (qnodes s) j k \<and> lo e \<noteq> None))"

definition known_head :: "nat \<Rightarrow> nat \<Rightarrow> queue_desc \<Rightarrow> queue_2dd \<Rightarrow> bool" where
  "known_head w j e s \<longleftrightarrow> (\<exists>k\<le>hi e. lo e = walk (qnodes s) j k \<and> lo e \<noteq> None) \<and> hi e \<le> gets_queue s j"

lemma known_tail_stable: "known_tail w j e s \<Longrightarrow> ord_queue w i s t \<Longrightarrow> known_tail w j e t"
  using ord_walk [of w i s t] core_queue_simps(5) [OF ord_core, of w i s t j]
  unfolding known_tail_def by (metis (no_types, lifting) le_trans option.exhaust)

lemma known_head_stable:
  assumes "known_head w j e s" and o: "ord_queue w i s t"
  shows "known_head w j e t"
proof -
  obtain k a where k: "k \<le> hi e" "lo e = walk (qnodes s) j k" "lo e = Some a" and le: "hi e \<le> gets_queue s j"
    using assms(1) by (auto simp: known_head_def)
  have "walk (qnodes t) j k = Some a" by (rule ord_walk [OF o]) (use k in simp)
  moreover have "hi e \<le> gets_queue t j" using le core_queue_simps(6) [OF ord_core [OF o], of j] by linarith
  ultimately show ?thesis unfolding known_head_def k(3) using k(1) by (intro conjI exI [of _ k]) simp_all
qed

lemma known_head_count:
  assumes "known_head w j e s" and "chains_apart w s" and "j < w" and "lo e = Some a" and "walk (qnodes s) j k = Some a"
  shows "k \<le> hi e" and "hi e \<le> gets_queue s j"
proof -
  obtain k' where k': "k' \<le> hi e" "walk (qnodes s) j k' = Some a" using assms(1,4) unfolding known_head_def by force
  have "k' = k" using chains_apartD [OF assms(2,3,3) k'(2) assms(5)] by simp
  then show "k \<le> hi e" using k'(1) by simp
  show "hi e \<le> gets_queue s j" using assms(1) unfolding known_head_def by blast
qed

lemma window_moves_queue:
  assumes J: "inv_queue w d opss (s, H)" and "put_desc t = put_desc s" "get_desc t = get_desc s" and "qnodes t = qnodes s"
    and "global_PWindow s \<le> global_PWindow t" and "global_GWindow s \<le> global_GWindow t"
    and "counts_ok w d (puts_queue s) (gets_queue s) t"
  shows "inv_queue w d opss (t, H) \<and> grd_queue w i s t \<and> ord_queue w i s t"
proof -
  have c: "puts_queue t = puts_queue s" "gets_queue t = gets_queue s"
    using assms(2,3) by (auto simp: puts_queue_def gets_queue_def)
  have "rep_sub t j x" if "rep_sub s j x" for j x
    using that assms(2-5) c unfolding rep_sub_def by auto
  then have "rep_queue t q" if "rep_queue s q" for q using that assms(2) by (simp add: rep_queue_def)
  then have "inv_queue w d opss (t, H)"
    using assms c chains_apart_same [OF assms(4), of w] unfolding inv_queue_def queue_ok_def by auto
  then show ?thesis
    using assms c own_queue_same [OF assms(4)] by (auto simp: grd_queue_def ord_queue_def core_queue_def)
qed

interpretation window_queue: window_counts "no_wrap_queue d" no_fuel "inv_queue w d opss" "ord_queue w" "grd_queue w" opss
  "set_queue w d" puts_queue gets_queue "known_head w" "known_tail w" for w d opss
proof
  fix s t :: queue_2dd and H H' i j e
  { assume "inv_queue w d opss (s, H)"
    then show "counts_ok (width (set_queue w d)) (depth (set_queue w d)) (puts_queue s) (gets_queue s) s"
      by (simp add: inv_queue_ok) }
  { assume J: "inv_queue w d opss (s, H)" and c: "counts_ok (width (set_queue w d)) (depth (set_queue w d)) (puts_queue s) (gets_queue s)
      (s\<lparr>global_PWindow := global_PWindow s + depth (set_queue w d)\<rparr>)"
    show "inv_queue w d opss (s\<lparr>global_PWindow := global_PWindow s + depth (set_queue w d)\<rparr>, H) \<and>
      grd_queue w i s (s\<lparr>global_PWindow := global_PWindow s + depth (set_queue w d)\<rparr>) \<and>
      ord_queue w i s (s\<lparr>global_PWindow := global_PWindow s + depth (set_queue w d)\<rparr>)"
      by (rule window_moves_queue [OF J]) (use c in auto) }
  { assume J: "inv_queue w d opss (s, H)" and c: "counts_ok (width (set_queue w d)) (depth (set_queue w d)) (puts_queue s) (gets_queue s)
      (s\<lparr>global_GWindow := global_GWindow s + depth (set_queue w d)\<rparr>)"
    show "inv_queue w d opss (s\<lparr>global_GWindow := global_GWindow s + depth (set_queue w d)\<rparr>, H) \<and>
      grd_queue w i s (s\<lparr>global_GWindow := global_GWindow s + depth (set_queue w d)\<rparr>) \<and>
      ord_queue w i s (s\<lparr>global_GWindow := global_GWindow s + depth (set_queue w d)\<rparr>)"
      by (rule window_moves_queue [OF J]) (use c in auto) }
  assume o: "ord_queue w i s t"
  note core = core_queue_simps [OF ord_core [OF o]]
  show "global_PWindow s \<le> global_PWindow t" "global_GWindow s \<le> global_GWindow t" "puts_queue s j \<le> puts_queue t j"
    "gets_queue s j \<le> gets_queue t j" by (rule core)+
  show "ord_queue w i s u" if "ord_queue w i t u" for u using o that by (rule ord_queue_trans)
  show "known_head w j e t" if "known_head w j e s" using that o by (rule known_head_stable)
  show "known_tail w j e t" if "known_tail w j e s" using that o by (rule known_tail_stable)
  assume J: "inv_queue w d opss (s, H)" and J': "inv_queue w d opss (t, H')" and j: "j < width (set_queue w d)"
  have j': "j < w" using j by simp
  show "get_count (set_queue w d) (DW (lo (get_array (set_queue w d) s ! j)) (hi (get_array (set_queue w d) t ! j))) \<le> gets_queue t j"
    by (simp add: gets_queue_def)
  obtain a n where a: "lo (get_desc s ! j) = Some a" "walk (qnodes s) j (gets_queue s j) = Some a" "qnodes s a = Some n"
    by (rule inv_queue_head [OF J j'])
  show "known_head w j (DW (lo (get_array (set_queue w d) s ! j)) (hi (get_array (set_queue w d) t ! j))) t"
    using a(1) ord_walk [OF o a(2)] core(6) [of j] by (auto simp: known_head_def gets_queue_def intro!: exI [of _ "hi (get_desc s ! j)"])
  obtain b m where b: "lo (put_desc s ! j) = Some b" "walk (qnodes s) j (puts_queue s j) = Some b" "qnodes s b = Some m"
    by (rule inv_queue_tail [OF J j'])
  show "known_tail w j (DW (lo (put_array (set_queue w d) s ! j)) (hi (put_array (set_queue w d) t ! j))) t"
    using b(1) ord_walk [OF o b(2)] core(5) [of j] by (auto simp: known_tail_def puts_queue_def intro!: exI [of _ "hi (put_desc s ! j)"])
qed (auto simp: no_fuel_def ord_queue_refl grd_queue_refl puts_queue_def no_wrap_queue_def dest: inv_queue_ok)

section \<open>The operations\<close>

abbreviation safe_queue where
  "safe_queue w d opss i Q \<equiv> safe (no_wrap_queue d) no_fuel (lin_rely (inv_queue w d opss) (ord_queue w) i)
     (lin_guar (inv_queue w d opss) (grd_queue w) opss i) Q"

text \<open>What a thread knows between its operations: its index, its name and where its memory ends.\<close>

definition queue_local :: "nat \<Rightarrow> nat \<Rightarrow> 'z thread_queue_scheme \<Rightarrow> queue_2dd \<Rightarrow> bool" where
  "queue_local w i l s \<longleftrightarrow> thread_index l < w \<and> thread_id l = i \<and>
     (\<forall>k\<ge>alloc_next l. qnodes s (Node i k) = None \<and> \<not> linked_node w s (Node i k))"

lemma own_queue_keeps:
  "ord_queue w i s t \<Longrightarrow> \<not> linked_node w s (Node i k) \<Longrightarrow>
     \<not> linked_node w t (Node i k) \<and> qnodes t (Node i k) = qnodes s (Node i k)"
  by (simp add: ord_queue_def own_queue_def)

lemma queue_local_stable: "queue_local w i l s \<Longrightarrow> ord_queue w i s t \<Longrightarrow> queue_local w i l t"
  using own_queue_keeps [of w i s t] by (simp add: queue_local_def)

lemma queue_local_simps [simp]:
  "queue_local w i (count_put_fail l) s = queue_local w i l s"
  "queue_local w i (count_get_fail l) s = queue_local w i l s"
  "queue_local w i (count_null l) s = queue_local w i l s"
  by (simp_all add: queue_local_def count_put_fail_def count_get_fail_def count_null_def)

text \<open>The template keeps \<open>thread_id\<close> and \<open>alloc_next\<close>.\<close>

lemma queue_local_more:
  "queue_local w i l s \<Longrightarrow> thread_index l' < w \<Longrightarrow> thread_2d.more l' = thread_2d.more l \<Longrightarrow> queue_local w i l' s"
proof -
  assume l: "queue_local w i l s" and l': "thread_index l' < w" and m: "thread_2d.more l' = thread_2d.more l"
  have "thread_id l' = thread_id l" "alloc_next l' = alloc_next l"
    using m by (cases l; cases l'; simp)+
  then show ?thesis using l l' by (simp add: queue_local_def)
qed

definition private_queue :: "nat \<Rightarrow> nat \<Rightarrow> qaddr \<Rightarrow> int \<Rightarrow> queue_2dd \<Rightarrow> bool" where
  "private_queue w i a v s \<longleftrightarrow> (\<exists>k. a = Node i k) \<and> \<not> linked_node w s a \<and>
     (\<exists>n. qnodes s a = Some n \<and> qn_val n = v \<and> qn_next n = None)"

lemma private_queue_stable: "private_queue w i a v s \<Longrightarrow> ord_queue w i s t \<Longrightarrow> private_queue w i a v t"
  using own_queue_keeps [of w i s t] by (auto simp: private_queue_def)

lemma known_tail_valid:
  assumes "known_tail w j e s" and "inv_queue w d opss (s, H)" and "j < w"
  obtains k a n where "lo e = Some a" "walk (qnodes s) j k = Some a" "k \<le> puts_queue s j" "qnodes s a = Some n"
proof -
  obtain k where k: "k \<le> puts_queue s j" "lo e = walk (qnodes s) j k" "lo e \<noteq> None"
    using assms(1,3) unfolding known_tail_def by blast
  then obtain a where a: "lo e = Some a" by blast
  then obtain n where "qnodes s a = Some n" using inv_queue_alloc [OF assms(2,3), of k a] k by auto
  then show ?thesis using that a k by metis
qed

lemma known_head_valid:
  assumes "known_head w j e s" and "inv_queue w d opss (s, H)" and "j < w"
  obtains k a n where "lo e = Some a" "walk (qnodes s) j k = Some a" "k \<le> gets_queue s j" "qnodes s a = Some n"
proof -
  obtain k where k: "k \<le> gets_queue s j" "lo e = walk (qnodes s) j k" "lo e \<noteq> None"
    using assms(1) unfolding known_head_def by (meson le_trans)
  then obtain a where a: "lo e = Some a" by blast
  then obtain n where "qnodes s a = Some n" using inv_queue_alloc [OF assms(2,3), of k a] k by auto
  then show ?thesis using that a k by metis
qed

lemma next_stable:
  assumes "ord_queue w i s t" and "qnodes s a \<noteq> None" and "qn_next (node_at (Some a) s) = Some b"
  shows "qnodes t a \<noteq> None" and "qn_next (node_at (Some a) t) = Some b"
proof -
  obtain n where n: "qnodes s a = Some n" using assms(2) by blast
  obtain n' where "qnodes t a = Some n'" "\<And>b. qn_next n = Some b \<Longrightarrow> qn_next n' = Some b"
    using written_onceD [OF core_queue_simps(7) [OF ord_core [OF assms(1)]] n] by metis
  then show "qnodes t a \<noteq> None" "qn_next (node_at (Some a) t) = Some b"
    using n assms(3) by (simp_all add: node_at_def)
qed

text \<open>Moving the tail on, as the enqueuer itself and every helper does.\<close>

lemma put_cae_safe:
  assumes J: "inv_queue w d opss (s, H)" and j: "j < w"
    and ok: "\<And>t H'. inv_queue w d opss (t, H') \<Longrightarrow> ord_queue w i s t \<Longrightarrow> put_desc t ! j = e \<Longrightarrow> no_wrap_queue d t \<Longrightarrow>
      \<exists>b. new = DW (Some b) (hi e + 1) \<and> walk (qnodes t) j (Suc (hi e)) = Some b"
    and k: "\<And>t H' b. inv_queue w d opss (t, H') \<Longrightarrow> ord_queue w i s t \<Longrightarrow> hist_rely i H H' \<Longrightarrow>
      safe_queue w d opss i Q (k b) (t, H')"
  shows "safe_queue w d opss i Q (put_cae j e new k) (s, H)"
  unfolding put_cae_def
  apply (rule lin_checked, rule J, erule inv_queue_index(1), rule j)
  apply (rule lin_cae, rule J, rule grd_queue_refl)
  subgoal premises p for t H'
  proof -
    obtain b where b: "new = DW (Some b) (hi e + 1)" "walk (qnodes t) j (Suc (hi e)) = Some b"
      using ok [OF p(1,2,6,5)] by blast
    let ?t = "t\<lparr>put_desc := (put_desc t)[j := DW (Some b) (hi e + 1)]\<rparr>"
    have t: "inv_queue w d opss (?t, H')" "grd_queue w i t ?t" using tail_queue [OF p(1) j p(6) b(2)] by blast+
    then have "ord_queue w i t ?t" using own_queue_same [of ?t t] by (simp add: grd_queue_def ord_queue_def)
    then have "safe_queue w d opss i Q (k True) (?t, H')"
      by (intro k t(1) ord_queue_trans [OF p(2)] p(3))
    then show ?thesis using t b(1) by (intro exI [of _ "[]"]) simp
  qed
  subgoal premises p for t H' by (rule k [OF p(1-3)])
  done

text \<open>A count that names a node with a successor can be incremented: the successor's is in the window.\<close>

lemma count_succ:
  assumes "inv_queue w d opss (s, H)" and "j < w" and "no_wrap_queue d s" and "walk (qnodes s) j (Suc c) = Some b"
  shows "add64 c 1 = c + 1"
proof -
  obtain x where x: "rep_sub s j x" by (rule inv_queue_sub [OF assms(1,2)])
  have "Suc c \<le> snd x" using rep_sub_walk_iff [OF x, of "Suc c"] assms(4) by simp
  then have "Suc c \<le> global_PWindow s" using rep_subD(4) [OF x] by linarith
  then show ?thesis using assms(3) by (intro add64_eq) (simp add: no_wrap_queue_def)
qed

lemma inv_queue_lo:
  assumes "inv_queue w d opss (s, H)" and "j < w"
  shows "lo (put_desc s ! j) = walk (qnodes s) j (hi (put_desc s ! j))" "lo (get_desc s ! j) = walk (qnodes s) j (hi (get_desc s ! j))"
proof -
  obtain x where x: "rep_sub s j x" by (rule inv_queue_sub [OF assms])
  show "lo (put_desc s ! j) = walk (qnodes s) j (hi (put_desc s ! j))" "lo (get_desc s ! j) = walk (qnodes s) j (hi (get_desc s ! j))"
    using rep_subD(5,6) [OF x] by (simp_all add: puts_queue_def gets_queue_def)
qed

lemma load_field_safe:
  assumes J: "inv_queue w d opss (s, H)" and a: "qnodes s a = Some n"
    and k: "\<And>t H' n'. inv_queue w d opss (t, H') \<Longrightarrow> ord_queue w i s t \<Longrightarrow> hist_rely i H H' \<Longrightarrow> proj i H' = proj i H \<Longrightarrow>
      no_wrap_queue d t \<Longrightarrow> qnodes t a = Some n' \<Longrightarrow> safe_queue w d opss i Q (k (f n')) (t, H')"
  shows "safe_queue w d opss i Q (load_field f (Some a) k) (s, H)"
proof -
  have here: "\<exists>n'. qnodes t a = Some n'" if "ord_queue w i s t" for t
    using written_onceD [OF core_queue_simps(7) [OF ord_core [OF that]] a] by metis
  show ?thesis
    unfolding load_field_def
    apply (rule lin_checked, rule J)
    subgoal for t using here [of t] by auto
    apply (rule lin_load, rule J, rule grd_queue_refl)
    subgoal premises p for t H'
    proof -
      obtain n' where n': "qnodes t a = Some n'" using here [OF p(2)] by blast
      show ?thesis using k [OF p(1-5) n'] n' by (simp add: node_at_def)
    qed
    done
qed

text \<open>Helping a pending enqueue: the descriptor \<open>e\<close> names a node whose successor is \<open>b\<close>.\<close>

lemma help_safe:
  assumes J: "inv_queue w d opss (s, H)" and j: "j < w" and a: "lo e = Some a" "qnodes s a = Some n" "qn_next n = Some b"
    and k: "\<And>t H' ok. inv_queue w d opss (t, H') \<Longrightarrow> ord_queue w i s t \<Longrightarrow> hist_rely i H H' \<Longrightarrow>
      safe_queue w d opss i Q (k ok) (t, H')"
  shows "safe_queue w d opss i Q (put_cae j e (DW (Some b) (add64 (hi e) 1)) k) (s, H)"
proof (rule put_cae_safe [OF J j _ k])
  fix t H' assume t: "inv_queue w d opss (t, H')" "ord_queue w i s t" "put_desc t ! j = e" "no_wrap_queue d t"
  have w: "walk (qnodes t) j (hi e) = Some a" using inv_queue_lo(1) [OF t(1) j] t(3) a(1) by simp
  have "qnodes t a \<noteq> None" "qn_next (node_at (Some a) t) = Some b"
    using next_stable [OF t(2), of a b] a by (simp_all add: node_at_def)
  then have "walk (qnodes t) j (Suc (hi e)) = Some b" using walk_next [OF w] by (auto simp: node_at_def)
  then show "\<exists>b'. DW (Some b) (add64 (hi e) 1) = DW (Some b') (hi e + 1) \<and> walk (qnodes t) j (Suc (hi e)) = Some b'"
    using count_succ [OF t(1) j t(4)] by simp
qed

text \<open>What the state after a link knows: the node is the successor, and only it joined a chain.\<close>

lemma walk_link_cases:
  assumes "h t0 = Some n" and "h a = Some m" and "qn_next m = None" and "a \<noteq> t0"
  shows "walk (h(t0 \<mapsto> n\<lparr>qn_next := Some a\<rparr>)) j k = Some b \<Longrightarrow> b = a \<or> (\<exists>k'. walk h j k' = Some b)"
proof (induction k arbitrary: b)
  case 0
  then show ?case by (auto intro: exI [of _ 0])
next
  case (Suc k)
  let ?h = "h(t0 \<mapsto> n\<lparr>qn_next := Some a\<rparr>)"
  obtain c nc where c: "walk ?h j k = Some c" "?h c = Some nc" "qn_next nc = Some b"
    using Suc.prems unfolding walk.simps(2) by (auto simp del: fun_upd_apply split: option.splits)
  show ?case
  proof (cases "c = t0")
    case True
    then show ?thesis using c by auto
  next
    case False
    then have hc: "h c = Some nc" using c by simp
    then have "c \<noteq> a" using assms c(3) by auto
    then obtain k' where "walk h j k' = Some c" using Suc.IH [OF c(1)] by blast
    then have "walk h j (Suc k') = Some b" using walk_next hc c(3) by metis
    then show ?thesis by blast
  qed
qed

lemma after_link:
  assumes J: "inv_queue w d opss (s, H)" and j: "j < w" and tail: "walk (qnodes s) j k = Some tn" "qn_next (node_at (Some tn) s) = None"
    and a: "private_queue w i a v s" and l: "queue_local w i l s"
  defines "t \<equiv> put_next (Some tn) (Some a) s"
  shows "walk (qnodes t) j (Suc k) = Some a" and "queue_local w i l t"
proof -
  obtain n where n: "qnodes s tn = Some n" using inv_queue_alloc [OF J j tail(1)] by blast
  have nx: "qn_next n = None" using tail(2) n by (simp add: node_at_def)
  obtain ka m where ka: "a = Node i ka" "\<not> linked_node w s a" "qnodes s a = Some m" "qn_next m = None"
    using a unfolding private_queue_def by blast
  have ne: "a \<noteq> tn" using ka(2) tail(1) j by (auto simp: linked_node_def)
  let ?h = "(qnodes s)(tn \<mapsto> n\<lparr>qn_next := Some a\<rparr>)"
  have t: "qnodes t = ?h" using n by (simp add: t_def put_next_def node_at_def)
  have "written_once (qnodes s) ?h" using n nx by (auto simp: written_once_def)
  then have "walk ?h j k = Some tn" using walk_stable tail(1) by blast
  then show "walk (qnodes t) j (Suc k) = Some a" unfolding t by (simp add: walk.simps)
  have "qnodes t (Node i k') = None \<and> \<not> linked_node w t (Node i k')" if k': "alloc_next l \<le> k'" for k'
  proof -
    have old: "qnodes s (Node i k') = None" "\<not> linked_node w s (Node i k')" using l k' by (auto simp: queue_local_def)
    then have "Node i k' \<noteq> tn" "Node i k' \<noteq> a" using n ka by auto
    then show ?thesis
      using old walk_link_cases [OF n ka(3,4) ne, of _ _ "Node i k'"] unfolding t linked_node_def by fastforce
  qed
  then show "queue_local w i l t" using l by (simp add: queue_local_def)
qed

text \<open>The exchange that links the node, and what follows it.\<close>

lemma enq_cas_rest_safe:
  assumes J: "inv_queue w d opss (s, H)" and j: "j < w" and e: "lo e = Some tn"
    and tn: "walk (qnodes s0) j k = Some tn" "k \<le> puts_queue s0 j" and o: "ord_queue w i s0 s"
    and PW: "PW \<le> global_PWindow s0" "k < PW"
    and a: "private_queue w i a v s0" and l: "queue_local w i l s0"
    and P: "proj i H = P" and step: "prefix (map fst P @ [Enqueue key v]) (opss ! i)" "i < length opss"
    and rest: "\<And>t H'. inv_queue w d opss (t, H') \<Longrightarrow> core_queue s t \<Longrightarrow> queue_local w i l t \<Longrightarrow>
      proj i H' = P @ [(Enqueue key v, 1, j)] \<Longrightarrow> safe_queue w d opss i Q rest (t, H')"
    and again: "\<And>t H'. inv_queue w d opss (t, H') \<Longrightarrow> ord_queue w i s t \<Longrightarrow> proj i H' = P \<Longrightarrow> safe_queue w d opss i Q p (t, H')"
  shows "safe_queue w d opss i Q
    (enq_cas_2dd (Some tn) a (\<lambda>ok. if ok then put_cae j e (DW (Some a) (add64 (hi e) 1)) (\<lambda>_. rest) else p)) (s, H)"
proof -
  let ?safe = "safe_queue w d opss i Q"
  have known: "walk (qnodes t) j k = Some tn" if "ord_queue w i s t" for t
    by (rule ord_walk [OF ord_queue_trans [OF o that] tn(1)])
  show ?thesis
    unfolding enq_cas_2dd_def
    apply (rule lin_checked, rule J)
    subgoal premises p for t H' using inv_queue_alloc [OF p(1) j known [OF p(2)]] by simp
    apply (rule lin_cas, rule J, rule grd_queue_refl)
    subgoal premises p for t H'
    proof -
      have o': "ord_queue w i s0 t" by (rule ord_queue_trans [OF o p(2)])
      note core' = core_queue_simps [OF ord_core [OF o']]
      note priv = private_queue_stable [OF a o'] and loc = queue_local_stable [OF l o']
      have w: "walk (qnodes t) j k = Some tn" by (rule known [OF p(2)])
      have kPW: "k < global_PWindow t" "k \<le> puts_queue t j" using PW tn(2) core'(1) core'(5) [of j] by linarith+
      obtain ka m where ka: "a = Node i ka" "\<not> linked_node w t a" "qnodes t a = Some m" "qn_next m = None" "qn_val m = v"
        using priv unfolding private_queue_def by blast
      have step': "prefix (map fst (proj i H') @ [Enqueue key v]) (opss ! i)" using step(1) p(4) P by simp
      let ?t = "put_next (Some tn) (Some a) t" and ?X = "[(i, Enqueue key v, 1, j)]"
      note link = link_queue [OF p(1) j w p(6) ka kPW step(2) step']
      note after = after_link [OF p(1) j w p(6) priv loc]
      have J': "inv_queue w d opss (?t, H' @ ?X)" using link by blast
      have "?safe (put_cae j e (DW (Some a) (add64 (hi e) 1)) (\<lambda>_. rest)) (?t, H' @ ?X)"
      proof (rule put_cae_safe [OF J' j])
        fix u K assume u: "inv_queue w d opss (u, K)" "ord_queue w i ?t u" "put_desc u ! j = e" "no_wrap_queue d u"
        have wu: "walk (qnodes u) j (Suc k) = Some a" by (rule ord_walk [OF u(2) after(1)])
        have "walk (qnodes ?t) j k = Some tn"
          using link core_queue_simps(7) [of t ?t] walk_stable [OF _ w] unfolding grd_queue_def by blast
        then have "walk (qnodes u) j k = Some tn" by (rule ord_walk [OF u(2)])
        moreover have "walk (qnodes u) j (hi e) = Some tn" using inv_queue_lo(1) [OF u(1) j] u(3) e by simp
        ultimately have "hi e = k" using chains_apartD [OF inv_queue_ok(7) [OF u(1)] j j] by blast
        then show "\<exists>b. DW (Some a) (add64 (hi e) 1) = DW (Some b) (hi e + 1) \<and> walk (qnodes u) j (Suc (hi e)) = Some b"
          using wu count_succ [OF u(1) j u(4) wu] by simp
      next
        fix u K assume u: "inv_queue w d opss (u, K)" "ord_queue w i ?t u" "hist_rely i (H' @ ?X) K"
        note loc' = queue_local_stable [OF after(2) u(2)]
        have "proj i K = P @ [(Enqueue key v, 1, j)]" using hist_rely_proj [OF u(3)] p(4) P by simp
        moreover have "core_queue s u"
          using core_queue_trans [OF core_queue_trans [OF ord_core [OF p(2)] _] ord_core [OF u(2)]] link
          by (simp add: grd_queue_def)
        ultimately show "?safe rest (u, K)" by (intro rest u(1) loc')
      qed
      then show ?thesis using link step step' by (intro exI [of _ ?X]) auto
    qed
    subgoal premises p for t H' using again [OF p(1,2)] p(4) P by simp
    done
qed

lemma enq_cas_safe:
  assumes J: "inv_queue w d opss (s, H)" and j: "j < w" and e: "lo e = Some tn"
    and tn: "walk (qnodes s0) j k = Some tn" "k \<le> puts_queue s0 j" and o: "ord_queue w i s0 s"
    and PW: "PW \<le> global_PWindow s0" "k < PW"
    and a: "private_queue w i a v s0" and l: "queue_local w i l s0"
    and P: "proj i H = P" and step: "prefix (map fst P @ [Enqueue key v]) (opss ! i)" "i < length opss"
    and jl: "thread_index l = j"
    and again: "\<And>t H'. inv_queue w d opss (t, H') \<Longrightarrow> ord_queue w i s t \<Longrightarrow> proj i H' = P \<Longrightarrow>
      safe_queue w d opss i (\<lambda>(r, l) (s', H'). inv_queue w d opss (s', H') \<and> queue_local w i l s' \<and>
        proj i H' = P @ [(Enqueue key v, (r, thread_index l))]) p (t, H')"
  shows "safe_queue w d opss i (\<lambda>(r, l) (s', H'). inv_queue w d opss (s', H') \<and> queue_local w i l s' \<and>
      proj i H' = P @ [(Enqueue key v, (r, thread_index l))])
    (enq_cas_2dd (Some tn) a (\<lambda>ok. if ok then put_cae j e (DW (Some a) (add64 (hi e) 1)) (\<lambda>_. Ret (1, l)) else p)) (s, H)"
proof (rule enq_cas_rest_safe [OF J j e tn o PW a l P step _ again])
  fix t H' assume t: "inv_queue w d opss (t, H')" "queue_local w i l t" "proj i H' = P @ [(Enqueue key v, 1, j)]"
  show "safe_queue w d opss i (\<lambda>(r, l) (s', H'). inv_queue w d opss (s', H') \<and> queue_local w i l s' \<and>
      proj i H' = P @ [(Enqueue key v, (r, thread_index l))]) (Ret (1, l)) (t, H')"
    by (rule lin_ret, rule t(1)) (use t jl queue_local_stable [OF t(2)] in auto)
qed

lemma enqueue_2dd_loop_safe:
  assumes "inv_queue w d opss (s, H)" and "proj i H = P" and "prefix (map fst P @ [Enqueue key v]) (opss ! i)"
    and "i < length opss" and "queue_local w i l s" and "private_queue w i a v s"
  shows "safe_queue w d opss i (\<lambda>(r, l) (s', H'). inv_queue w d opss (s', H') \<and> queue_local w i l s' \<and>
      proj i H' = P @ [(Enqueue key v, (r, thread_index l))])
    (enqueue_2dd_loop (set_queue w d) N n a c l) (s, H)"
  using assms
proof (induction n arbitrary: s H l c)
  case 0
  then show ?case by (simp add: no_fuel_def)
next
  case (Suc n)
  let ?safe = "safe_queue w d opss i (\<lambda>(r, l) (s', H'). inv_queue w d opss (s', H') \<and> queue_local w i l s' \<and>
      proj i H' = P @ [(Enqueue key v, (r, thread_index l))])"
  show ?case
    unfolding enqueue_2dd_loop.simps Let_def
    apply (rule window_queue.put.put_window_safe, rule Suc.prems(1), (use Suc.prems in \<open>simp add: queue_local_def\<close>)[1], rule refl)
    subgoal premises p for t H' e l'
    proof -
      let ?j = "thread_index l'"
      have j: "?j < w" and P: "proj i H' = P" using p Suc.prems by auto
      have l': "queue_local w i l' t"
        by (rule queue_local_more [OF queue_local_stable [OF Suc.prems(5) p(2)]]) (use j p in simp_all)
      note priv = private_queue_stable [OF Suc.prems(6) p(2)]
      obtain k tl nt where tl: "lo e = Some tl" "walk (qnodes t) ?j k = Some tl" "k \<le> puts_queue t ?j" "qnodes t tl = Some nt"
        by (rule known_tail_valid [OF p(7,1) j])
      have again: "?safe (enqueue_2dd_loop (set_queue w d) N n a c' l1) (u, K)"
        if "inv_queue w d opss (u, K)" "ord_queue w i t u" "proj i K = P" "l1 = l' \<or> l1 = count_put_fail l'" for u K c' l1
        by (rule Suc.IH [OF that(1,3) Suc.prems(3,4)])
          (use that queue_local_stable [OF l'] private_queue_stable [OF priv] in auto)
      show ?thesis
        unfolding tl(1)
      proof (rule load_field_safe [OF p(1) tl(4)])
        fix t1 H1 n1 assume t1: "inv_queue w d opss (t1, H1)" "ord_queue w i t t1" "proj i H1 = proj i H'" "qnodes t1 tl = Some n1"
        have P1: "proj i H1 = P" using t1 P by simp
        show "?safe (if qn_next n1 = None then
             checked (\<lambda>s. ?j < length (put_desc s)) (load (\<lambda>s. hi (put_desc s ! ?j)) (\<lambda>put_count.
             if thread_PWindow l' \<le> put_count then enqueue_2dd_loop (set_queue w d) N n a c l'
             else enq_cas_2dd (Some tl) a (\<lambda>ok.
               if ok then put_cae ?j e (DW (Some a) (add64 (hi e) 1)) (\<lambda>_. Ret (1, l'))
               else enqueue_2dd_loop (set_queue w d) N n a True (count_put_fail l'))))
           else load_field qn_next (Some tl) (\<lambda>nx. put_cae ?j e (DW nx (add64 (hi e) 1)) (\<lambda>ok.
               enqueue_2dd_loop (set_queue w d) N n a (c \<or> \<not> ok) (count_put_fail l')))) (t1, H1)"
        proof (cases "qn_next n1")
          case (Some b)
          have "?safe (load_field qn_next (Some tl) (\<lambda>nx. put_cae ?j e (DW nx (add64 (hi e) 1)) (\<lambda>ok.
               enqueue_2dd_loop (set_queue w d) N n a (c \<or> \<not> ok) (count_put_fail l')))) (t1, H1)"
          proof (rule load_field_safe [OF t1(1,4)])
            fix t2 H2 n2 assume t2: "inv_queue w d opss (t2, H2)" "ord_queue w i t1 t2" "proj i H2 = proj i H1" "qnodes t2 tl = Some n2"
            have b: "qn_next n2 = Some b"
              using next_stable [OF t2(2), of tl b] t1(4) t2(4) Some by (simp add: node_at_def)
            show "?safe (put_cae ?j e (DW (qn_next n2) (add64 (hi e) 1)) (\<lambda>ok.
               enqueue_2dd_loop (set_queue w d) N n a (c \<or> \<not> ok) (count_put_fail l'))) (t2, H2)"
              unfolding b
            proof (rule help_safe [OF t2(1) j tl(1) t2(4) b])
              fix u K ok assume u: "inv_queue w d opss (u, K)" "ord_queue w i t2 u" "hist_rely i H2 K"
              show "?safe (enqueue_2dd_loop (set_queue w d) N n a (c \<or> \<not> ok) (count_put_fail l')) (u, K)"
                by (rule again [OF u(1) ord_queue_trans [OF ord_queue_trans [OF t1(2) t2(2)] u(2)]])
                  (use u t2 P1 in auto)
            qed
          qed
          then show ?thesis using Some by simp
        next
          case None
          have "?safe (checked (\<lambda>s. ?j < length (put_desc s)) (load (\<lambda>s. hi (put_desc s ! ?j)) (\<lambda>put_count.
             if thread_PWindow l' \<le> put_count then enqueue_2dd_loop (set_queue w d) N n a c l'
             else enq_cas_2dd (Some tl) a (\<lambda>ok.
               if ok then put_cae ?j e (DW (Some a) (add64 (hi e) 1)) (\<lambda>_. Ret (1, l'))
               else enqueue_2dd_loop (set_queue w d) N n a True (count_put_fail l'))))) (t1, H1)"
            apply (rule lin_checked, rule t1, erule inv_queue_index(1), rule j)
            apply (rule lin_load, rule t1, rule grd_queue_refl)
            subgoal premises q for t2 H2
            proof -
              have o2: "ord_queue w i t t2" by (rule ord_queue_trans [OF t1(2) q(2)])
              have P2: "proj i H2 = P" using q(4) P1 by simp
              show ?thesis
              proof (cases "thread_PWindow l' \<le> hi (put_desc t2 ! ?j)")
                case True
                then show ?thesis using again [OF q(1) o2 P2, of l' c] by simp
              next
                case False
                have lt: "k < thread_PWindow l'"
                  using False tl(3) core_queue_simps(5) [OF ord_core [OF o2], of ?j] by (simp add: puts_queue_def)
                have "?safe (enq_cas_2dd (Some tl) a (\<lambda>ok.
                  if ok then put_cae ?j e (DW (Some a) (add64 (hi e) 1)) (\<lambda>_. Ret (1, l'))
                  else enqueue_2dd_loop (set_queue w d) N n a True (count_put_fail l'))) (t2, H2)"
                proof (rule enq_cas_safe [OF q(1) j tl(1) tl(2) tl(3) o2 p(9) lt priv l' P2 Suc.prems(3,4) refl])
                  fix u K assume u: "inv_queue w d opss (u, K)" "ord_queue w i t2 u" "proj i K = P"
                  show "?safe (enqueue_2dd_loop (set_queue w d) N n a True (count_put_fail l')) (u, K)"
                    by (rule again [OF u(1) ord_queue_trans [OF o2 u(2)] u(3)]) simp
                qed
                then show ?thesis using False by simp
              qed
            qed
            done
          then show ?thesis using None by simp
        qed
      qed
    qed
    done
qed

lemma enqueue_2dd_safe:
  assumes J: "inv_queue w d opss (s, H)" and "proj i H = P" and "prefix (map fst P @ [Enqueue key v]) (opss ! i)"
    and "i < length opss" and l: "queue_local w i l s"
  shows "safe_queue w d opss i (\<lambda>(r, l) (s', H'). inv_queue w d opss (s', H') \<and> queue_local w i l s' \<and>
      proj i H' = P @ [(Enqueue key v, (r, thread_index l))])
    (enqueue_2dd (set_queue w d) N n key v l) (s, H)"
  unfolding enqueue_2dd_def create_node_queue_def Let_def
  apply (rule lin_store, rule J)
  subgoal premises q for t H'
  proof -
    let ?a = "Node (thread_id l) (alloc_next l)" and ?n = "\<lparr>qn_key = key, qn_val = v, qn_next = None\<rparr>"
    let ?t = "t\<lparr>qnodes := (qnodes t)(?a \<mapsto> ?n)\<rparr>" and ?l = "l\<lparr>alloc_next := alloc_next l + 1\<rparr>"
    have lt: "queue_local w i l t" by (rule queue_local_stable [OF l q(2)])
    have i: "thread_id l = i" using lt by (simp add: queue_local_def)
    have a: "qnodes t (Node i (alloc_next l)) = None" "\<not> linked_node w t (Node i (alloc_next l))"
      using lt by (auto simp: queue_local_def)
    note w = alloc_queue [OF q(1) a(1), of ?n, folded i]
    have "queue_local w i ?l ?t" using lt w by (auto simp: queue_local_def i)
    moreover have "private_queue w i ?a v ?t" using a w by (simp add: private_queue_def i)
    ultimately have "safe_queue w d opss i (\<lambda>(r, l) (s', H'). inv_queue w d opss (s', H') \<and> queue_local w i l s' \<and>
        proj i H' = P @ [(Enqueue key v, (r, thread_index l))])
      (enqueue_2dd_loop (set_queue w d) N n ?a False ?l) (?t, H')"
      by (intro enqueue_2dd_loop_safe conjunct1 [OF w]) (use q assms in auto)
    then show ?thesis using w i by (intro exI [of _ "[]"]) simp
  qed
  done

text \<open>A head whose node has no successor is the head of an empty sub-queue.\<close>

lemma head_last:
  assumes J: "inv_queue w d opss (s, H)" and j: "j < w"
    and hd: "walk (qnodes s) j k = Some a" "k \<le> gets_queue s j" "qnodes s a = Some n" "qn_next n = None"
  shows "walk (qnodes s) j (Suc (gets_queue s j)) = None"
proof -
  have nx: "walk (qnodes s) j (Suc k) = None" using walk_next [OF hd(1,3)] hd(4) by simp
  obtain b m where b: "walk (qnodes s) j (gets_queue s j) = Some b" by (rule inv_queue_head [OF J j])
  have "\<not> Suc k \<le> gets_queue s j" using walk_None [OF nx, of "gets_queue s j"] b by auto
  then show ?thesis using hd(2) nx by (simp add: le_antisym not_less_eq_eq)
qed

text \<open>The exchange that takes the head; \<open>rest\<close> is what the thread does when it has succeeded.\<close>

lemma deq_cae_rest_safe:
  assumes J: "inv_queue w d opss (s, H)" and j: "j < w" and e: "lo e = Some a"
    and hd: "walk (qnodes s) j k = Some a" "walk (qnodes s) j (Suc k) = Some b" "k < puts_queue s j"
    and P: "proj i H = P" and step: "prefix (map fst P @ [Dequeue]) (opss ! i)" "i < length opss"
    and rest: "\<And>t H' n m. inv_queue w d opss (t, H') \<Longrightarrow> ord_queue w i s t \<Longrightarrow> proj i H' = P @ [(Dequeue, qn_val n, j)] \<Longrightarrow>
      qnodes t b = Some n \<Longrightarrow> qnodes t a = Some m \<Longrightarrow> qn_next m = Some b \<Longrightarrow> safe_queue w d opss i Q rest (t, H')"
    and again: "\<And>t H'. inv_queue w d opss (t, H') \<Longrightarrow> ord_queue w i s t \<Longrightarrow> proj i H' = P \<Longrightarrow>
      safe_queue w d opss i Q p (t, H')"
  shows "safe_queue w d opss i Q (deq_cae_2dd j e (DW (Some b) (add64 (hi e) 1)) (\<lambda>ok. if ok then rest else p)) (s, H)"
  unfolding deq_cae_2dd_def
  apply (rule lin_checked, rule J, erule inv_queue_index(2), rule j)
  apply (rule lin_cae, rule J, rule grd_queue_refl)
  subgoal premises p for t H'
  proof -
    note core = core_queue_simps [OF ord_core [OF p(2)]]
    have w: "walk (qnodes t) j k = Some a" "walk (qnodes t) j (Suc k) = Some b"
      by (rule ord_walk [OF p(2) hd(1)], rule ord_walk [OF p(2) hd(2)])
    have "walk (qnodes t) j (hi e) = Some a" using inv_queue_lo(2) [OF p(1) j] p(6) e by simp
    then have k: "k = hi e" using chains_apartD [OF inv_queue_ok(7) [OF p(1)] j j w(1)] by blast
    obtain n where n: "qnodes t b = Some n" using inv_queue_alloc [OF p(1) j w(2)] by blast
    obtain m where m: "qnodes t a = Some m" using inv_queue_alloc [OF p(1) j w(1)] by blast
    have lt: "hi e < puts_queue t j" using hd(3) core(5) [of j] k by linarith
    have add: "add64 (hi e) 1 = hi e + 1" using count_succ [OF p(1) j p(5), of "hi e" b] w(2) k by simp
    have step': "prefix (map fst (proj i H') @ [Dequeue]) (opss ! i)" using step(1) p(4) P by simp
    let ?t = "t\<lparr>get_desc := (get_desc t)[j := DW (Some b) (hi e + 1)]\<rparr>" and ?X = "[(i, Dequeue, qn_val n, j)]"
    note head = head_queue [OF p(1) j p(6) w(2) [unfolded k] n lt step(2) step']
    have "ord_queue w i t ?t" using head own_queue_same [of ?t t] by (simp add: grd_queue_def ord_queue_def)
    moreover have "qn_next m = Some b" using walk_next [OF w(1) m] w(2) by simp
    ultimately have "safe_queue w d opss i Q rest (?t, H' @ ?X)"
      by (intro rest [of _ _ n m] conjunct1 [OF head]) (use ord_queue_trans [OF p(2)] p(4) P n m in auto)
    then show ?thesis using head step(2) step' add by (intro exI [of _ ?X]) auto
  qed
  subgoal premises p for t H' using again [OF p(1,2)] p(4) P by simp
  done

text \<open>Reading the value of a node whose value is known.\<close>

lemma return_value_safe:
  assumes "inv_queue w d opss (s, H)" and "qnodes s b = Some n"
    and Q: "\<And>t H'. inv_queue w d opss (t, H') \<Longrightarrow> ord_queue w i s t \<Longrightarrow> proj i H' = proj i H \<Longrightarrow> Q (qn_val n, l) (t, H')"
  shows "safe_queue w d opss i Q (load_field qn_val (Some b) (\<lambda>v. Ret (v, l))) (s, H)"
proof (rule load_field_safe [OF assms(1,2)])
  fix t H' n' assume t: "inv_queue w d opss (t, H')" "ord_queue w i s t" "proj i H' = proj i H" "qnodes t b = Some n'"
  have v: "qn_val n' = qn_val n"
    using written_onceD [OF core_queue_simps(7) [OF ord_core [OF t(2)]] assms(2)] t(4) by auto
  show "safe_queue w d opss i Q (Ret (qn_val n', l)) (t, H')"
    unfolding v by (rule lin_ret, rule t) (use Q t ord_queue_trans [OF t(2)] in auto)
qed

lemma deq_cae_safe:
  assumes J: "inv_queue w d opss (s, H)" and j: "j < w" and e: "lo e = Some a"
    and hd: "walk (qnodes s) j k = Some a" "walk (qnodes s) j (Suc k) = Some b" "k < puts_queue s j"
    and l: "queue_local w i l s" "thread_index l = j"
    and P: "proj i H = P" and step: "prefix (map fst P @ [Dequeue]) (opss ! i)" "i < length opss"
    and again: "\<And>t H'. inv_queue w d opss (t, H') \<Longrightarrow> ord_queue w i s t \<Longrightarrow> proj i H' = P \<Longrightarrow>
      safe_queue w d opss i (\<lambda>(r, l) (s', H'). inv_queue w d opss (s', H') \<and> queue_local w i l s' \<and>
        proj i H' = P @ [(Dequeue, (r, thread_index l))]) p (t, H')"
  shows "safe_queue w d opss i (\<lambda>(r, l) (s', H'). inv_queue w d opss (s', H') \<and> queue_local w i l s' \<and>
      proj i H' = P @ [(Dequeue, (r, thread_index l))])
    (deq_cae_2dd j e (DW (Some b) (add64 (hi e) 1)) (\<lambda>ok.
       if ok then load_field qn_next (Some a) (\<lambda>nx. load_field qn_val nx (\<lambda>v. Ret (v, l))) else p)) (s, H)"
proof (rule deq_cae_rest_safe [OF J j e hd P step])
  let ?Q = "\<lambda>(r, l) (s', H'). inv_queue w d opss (s', H') \<and> queue_local w i l s' \<and>
      proj i H' = P @ [(Dequeue, (r, thread_index l))]"
  fix t H' n m assume t: "inv_queue w d opss (t, H')" "ord_queue w i s t" "proj i H' = P @ [(Dequeue, qn_val n, j)]"
    "qnodes t b = Some n" "qnodes t a = Some m" "qn_next m = Some b"
  show "safe_queue w d opss i ?Q (load_field qn_next (Some a) (\<lambda>nx. load_field qn_val nx (\<lambda>v. Ret (v, l)))) (t, H')"
  proof (rule load_field_safe [OF t(1,5)])
    fix u K m' assume u: "inv_queue w d opss (u, K)" "ord_queue w i t u" "proj i K = proj i H'" "qnodes u a = Some m'"
    have nx': "qn_next m' = Some b" using next_stable [OF u(2), of a b] t(5,6) u(4) by (simp add: node_at_def)
    obtain n' where n': "qnodes u b = Some n'" "qn_val n' = qn_val n"
      using written_onceD [OF core_queue_simps(7) [OF ord_core [OF u(2)]] t(4)] by auto
    show "safe_queue w d opss i ?Q (load_field qn_val (qn_next m') (\<lambda>v. Ret (v, l))) (u, K)"
      unfolding nx'
      by (rule return_value_safe [OF u(1) n'(1)])
        (use u t n' l queue_local_stable [OF queue_local_stable [OF queue_local_stable [OF l(1) t(2)] u(2)]] in auto)
  qed
qed (rule again)

text \<open>Head and tail are the same node: the sub-queue is empty, or an enqueue is pending.\<close>

lemma deq_same_safe:
  assumes J: "inv_queue w d opss (s, H)" and j: "j < w"
    and hd: "walk (qnodes s0) j k = Some a" "k \<le> gets_queue s0 j" and o: "ord_queue w i s0 s"
    and na: "qnodes s a = Some na" and e: "lo e = Some a"
    and P: "proj i H = P" and step: "prefix (map fst P @ [Dequeue]) (opss ! i)" "i < length opss"
    and empty: "\<And>t H'. inv_queue w d opss (t, H') \<Longrightarrow> ord_queue w i s t \<Longrightarrow> proj i H' = P @ [(Dequeue, 0, j)] \<Longrightarrow>
      Q (0, count_null l) (t, H')"
    and again: "\<And>t H' ok. inv_queue w d opss (t, H') \<Longrightarrow> ord_queue w i s t \<Longrightarrow> proj i H' = P \<Longrightarrow>
      safe_queue w d opss i Q (p ok) (t, H')"
  shows "safe_queue w d opss i Q
    (load_field qn_next (Some a) (\<lambda>nx. if nx = None then Ret (0, count_null l)
       else load_field qn_next (Some a) (\<lambda>nx. put_cae j e (DW nx (add64 (hi e) 1)) p))) (s, H)"
proof -
  have here: "\<exists>n. qnodes t a = Some n" if "ord_queue w i s t" for t
    using written_onceD [OF core_queue_simps(7) [OF ord_core [OF that]] na] by metis
  show ?thesis
    unfolding load_field_def [where f = qn_next and p = "Some a" and k = "\<lambda>nx. if nx = None then Ret (0, count_null l) else _ nx"]
    apply (rule lin_checked, rule J)
    subgoal for t using here [of t] by auto
    apply (rule lin_load_point, rule J)
    subgoal premises q for t H'
    proof -
      obtain n where n: "qnodes t a = Some n" using here [OF q(2)] by blast
      have P': "proj i H' = P" using q(4) P by simp
      have step': "prefix (map fst (proj i H') @ [Dequeue]) (opss ! i)" using step(1) P' by simp
      have ot: "ord_queue w i s0 t" by (rule ord_queue_trans [OF o q(2)])
      show ?thesis
      proof (cases "qn_next n")
        case None
        let ?X = "[(i, Dequeue, 0, j)]"
        have le: "k \<le> gets_queue t j" using hd(2) core_queue_simps(6) [OF ord_core [OF ot], of j] by linarith
        have J': "inv_queue w d opss (t, H' @ ?X)"
          by (rule empty_queue [OF q(1) j head_last [OF q(1) j ord_walk [OF ot hd(1)] le n None] step(2) step'])
        have "safe_queue w d opss i Q (Ret (0, count_null l)) (t, H' @ ?X)"
          by (rule lin_ret, rule J') (use P' empty ord_queue_trans [OF q(2)] in auto)
        then show ?thesis
          using J' None n step(2) step' grd_queue_refl by (intro exI [of _ ?X]) (auto simp: node_at_def)
      next
        case (Some b)
        have "safe_queue w d opss i Q (load_field qn_next (Some a) (\<lambda>nx. put_cae j e (DW nx (add64 (hi e) 1)) p)) (t, H')"
        proof (rule load_field_safe [OF q(1) n])
          fix u K n' assume u: "inv_queue w d opss (u, K)" "ord_queue w i t u" "proj i K = proj i H'" "qnodes u a = Some n'"
          have nx: "qn_next n' = Some b" using next_stable [OF u(2), of a b] n Some u(4) by (simp add: node_at_def)
          show "safe_queue w d opss i Q (put_cae j e (DW (qn_next n') (add64 (hi e) 1)) p) (u, K)"
            unfolding nx
          proof (rule help_safe [OF u(1) j e u(4) nx])
            fix u' K' ok assume u': "inv_queue w d opss (u', K')" "ord_queue w i u u'" "hist_rely i K K'"
            show "safe_queue w d opss i Q (p ok) (u', K')"
              by (rule again [OF u'(1) ord_queue_trans [OF q(2) ord_queue_trans [OF u(2) u'(2)]]])
                (use u(3) P' hist_rely_proj [OF u'(3)] in simp)
          qed
        qed
        then show ?thesis
          using q(1) Some n by (intro exI [of _ "[]"]) (simp add: node_at_def grd_queue_refl)
      qed
    qed
    done
qed

lemma dequeue_2dd_safe:
  assumes "inv_queue w d opss (s, H)" and "proj i H = P" and "prefix (map fst P @ [Dequeue]) (opss ! i)"
    and "i < length opss" and "queue_local w i l s"
  shows "safe_queue w d opss i (\<lambda>(r, l) (s', H'). inv_queue w d opss (s', H') \<and> queue_local w i l s' \<and>
      proj i H' = P @ [(Dequeue, (r, thread_index l))])
    (dequeue_2dd (set_queue w d) N n c l) (s, H)"
  using assms
proof (induction n arbitrary: s H l c)
  case 0
  then show ?case by (simp add: no_fuel_def)
next
  case (Suc n)
  let ?safe = "safe_queue w d opss i (\<lambda>(r, l) (s', H'). inv_queue w d opss (s', H') \<and> queue_local w i l s' \<and>
      proj i H' = P @ [(Dequeue, (r, thread_index l))])"
  show ?case
    unfolding dequeue_2dd.simps Let_def
    apply (rule window_queue.get.get_window_safe, rule Suc.prems(1), (use Suc.prems in \<open>simp add: queue_local_def\<close>)[1], rule refl)
    subgoal premises p for t H' e l'
    proof -
      let ?j = "thread_index l'"
      have j: "?j < w" and P: "proj i H' = P" using p Suc.prems by auto
      have l': "queue_local w i l' t"
        by (rule queue_local_more [OF queue_local_stable [OF Suc.prems(5) p(2)]]) (use j p in simp_all)
      have "known_head w ?j e t" using p(7) by (simp add: window_queue.got_counts_def)
      then obtain k a n0 where hd: "lo e = Some a" "walk (qnodes t) ?j k = Some a" "k \<le> gets_queue t ?j" "qnodes t a = Some n0"
        by (rule known_head_valid [OF _ p(1) j])
      have again: "?safe (dequeue_2dd (set_queue w d) N n c' l1) (u, K)"
        if "inv_queue w d opss (u, K)" "ord_queue w i t u" "proj i K = P" "l1 = count_get_fail l'" for u K c' l1
        by (rule Suc.IH [OF that(1,3) Suc.prems(3,4)])
          (use that queue_local_stable [OF l'] in auto)
      have "?safe (checked (\<lambda>s. ?j < length (put_desc s)) (load2 (\<lambda>s. put_desc s ! ?j) (\<lambda>enq_descriptor.
         if lo e = lo enq_descriptor then
           load_field qn_next (lo e) (\<lambda>nx.
           if nx = None then Ret (0, count_null l')
           else
             load_field qn_next (lo enq_descriptor) (\<lambda>nx.
             put_cae ?j enq_descriptor (DW nx (add64 (hi enq_descriptor) 1)) (\<lambda>ok.
               dequeue_2dd (set_queue w d) N n (c \<or> \<not> ok) (count_get_fail l'))))
         else
           load_field qn_next (lo e) (\<lambda>nx.
           deq_cae_2dd ?j e (DW nx (add64 (hi e) 1)) (\<lambda>ok.
             if ok then load_field qn_next (lo e) (\<lambda>nx. load_field qn_val nx (\<lambda>v. Ret (v, l')))
             else dequeue_2dd (set_queue w d) N n True (count_get_fail l')))))) (t, H')"
        unfolding load2_def
        apply (rule lin_checked, rule p, erule inv_queue_index(1), rule j)
        apply (rule lin_load, rule p, rule grd_queue_refl)
        subgoal premises q for t1 H1
          apply (rule lin_load, rule q, rule grd_queue_refl)
          subgoal premises r for t2 H2
          proof -
            let ?e = "DW (lo (put_desc t1 ! ?j)) (hi (put_desc t2 ! ?j))"
            have o2: "ord_queue w i t t2" by (rule ord_queue_trans [OF q(2) r(2)])
            have P2: "proj i H2 = P" using r(4) q(4) P by simp
            obtain b nb where tail: "lo (put_desc t1 ! ?j) = Some b" "walk (qnodes t1) ?j (puts_queue t1 ?j) = Some b"
                "qnodes t1 b = Some nb"
              by (rule inv_queue_tail [OF q(1) j])
            obtain na where na: "qnodes t2 a = Some na"
              using written_onceD [OF core_queue_simps(7) [OF ord_core [OF o2]] hd(4)] by metis
            show ?thesis
            proof (cases "a = b")
              case True
              have "?safe (load_field qn_next (Some a) (\<lambda>nx.
                 if nx = None then Ret (0, count_null l')
                 else load_field qn_next (Some a) (\<lambda>nx. put_cae ?j ?e (DW nx (add64 (hi ?e) 1)) (\<lambda>ok.
                   dequeue_2dd (set_queue w d) N n (c \<or> \<not> ok) (count_get_fail l'))))) (t2, H2)"
              proof (rule deq_same_safe [OF r(1) j hd(2,3) o2 na _ P2 Suc.prems(3,4)])
                show "lo ?e = Some a" using tail True by simp
                show "(\<lambda>(r, l) (s', H'). inv_queue w d opss (s', H') \<and> queue_local w i l s' \<and>
                    proj i H' = P @ [(Dequeue, (r, thread_index l))]) (0, count_null l') (u, K)"
                  if "inv_queue w d opss (u, K)" "ord_queue w i t2 u" "proj i K = P @ [(Dequeue, 0, ?j)]" for u K
                  using that queue_local_stable [OF l' ord_queue_trans [OF o2]] by simp
              next
                fix u K ok assume u: "inv_queue w d opss (u, K)" "ord_queue w i t2 u" "proj i K = P"
                show "?safe (dequeue_2dd (set_queue w d) N n (c \<or> \<not> ok) (count_get_fail l')) (u, K)"
                  by (rule again [OF u(1) ord_queue_trans [OF o2 u(2)] u(3) refl])
              qed
              then show ?thesis using hd(1) tail(1) True by (simp cong: if_cong)
            next
              case False
              note core1 = core_queue_simps [OF ord_core [OF q(2)]] and core2 = core_queue_simps [OF ord_core [OF r(2)]]
              have le: "k \<le> puts_queue t1 ?j"
                using hd(3) core1(6) [of ?j] counts_ok_nth [OF inv_queue_ok(6) [OF q(1)] j] by linarith
              have "walk (qnodes t1) ?j k = Some a" by (rule ord_walk [OF q(2) hd(2)])
              then have "k \<noteq> puts_queue t1 ?j" using tail(2) False by auto
              then have lt: "k < puts_queue t1 ?j" using le by simp
              have lt2: "k < puts_queue t2 ?j" using lt core2(5) [of ?j] by linarith
              have "?safe (load_field qn_next (Some a) (\<lambda>nx.
                 deq_cae_2dd ?j e (DW nx (add64 (hi e) 1)) (\<lambda>ok.
                   if ok then load_field qn_next (Some a) (\<lambda>nx. load_field qn_val nx (\<lambda>v. Ret (v, l')))
                   else dequeue_2dd (set_queue w d) N n True (count_get_fail l')))) (t2, H2)"
              proof (rule load_field_safe [OF r(1) na])
                fix u K n1 assume u: "inv_queue w d opss (u, K)" "ord_queue w i t2 u" "proj i K = proj i H2" "qnodes u a = Some n1"
                have ou: "ord_queue w i t u" by (rule ord_queue_trans [OF o2 u(2)])
                have w: "walk (qnodes u) ?j k = Some a" by (rule ord_walk [OF ou hd(2)])
                have ltu: "k < puts_queue u ?j" using lt2 core_queue_simps(5) [OF ord_core [OF u(2)], of ?j] by linarith
                obtain x where x: "rep_sub u ?j x" by (rule inv_queue_sub [OF u(1) j])
                have "Suc k \<le> snd x" using ltu rep_subD(2) [OF x] by linarith
                then obtain b' where b': "walk (qnodes u) ?j (Suc k) = Some b'" using rep_sub_walk_iff [OF x, of "Suc k"] by auto
                have nx: "qn_next n1 = Some b'" using walk_next [OF w u(4)] b' by simp
                have Pu: "proj i K = P" using u(3) P2 by simp
                show "?safe (deq_cae_2dd ?j e (DW (qn_next n1) (add64 (hi e) 1)) (\<lambda>ok.
                    if ok then load_field qn_next (Some a) (\<lambda>nx. load_field qn_val nx (\<lambda>v. Ret (v, l')))
                    else dequeue_2dd (set_queue w d) N n True (count_get_fail l'))) (u, K)"
                  unfolding nx
                proof (rule deq_cae_safe [OF u(1) j hd(1) w b' ltu queue_local_stable [OF l' ou] refl Pu Suc.prems(3,4)])
                  fix u' K' assume u': "inv_queue w d opss (u', K')" "ord_queue w i u u'" "proj i K' = P"
                  show "?safe (dequeue_2dd (set_queue w d) N n True (count_get_fail l')) (u', K')"
                    by (rule again [OF u'(1) ord_queue_trans [OF ou u'(2)] u'(3) refl])
                qed
              qed
              then show ?thesis using hd(1) tail(1) False by (simp cong: if_cong)
            qed
          qed
          done
        done
      then show ?thesis using p(1) by (intro exI [of _ "[]"]) (simp add: grd_queue_refl)
    qed
    done
qed

section \<open>Linearizability\<close>

interpretation lin_queue: lin_object "no_wrap_queue d" no_fuel "inv_queue w d opss" "ord_queue w" "grd_queue w"
  "queue_local w" "spec_queue d" "replicate w ([], 0)" "\<lambda>s q. rep_queue s q \<and> queue_ok w d s"
  "queue_2dd_op (set_queue w d) N n" opss for w d N n opss
proof unfold_locales
  show "op_ok (no_wrap_queue d) no_fuel (inv_queue w d opss) (ord_queue w) (grd_queue w) (queue_local w) opss i op
      (queue_2dd_op (set_queue w d) N n)" if "i < length opss" for i op
  proof (rule op_okI)
    fix l :: thread_queue and s H P
    assume J: "inv_queue w d opss (s, H)" "queue_local w i l s" "proj i H = P" "prefix (map fst P @ [op]) (opss ! i)"
    show "safe_queue w d opss i
        (\<lambda>(r, l) (s', H'). inv_queue w d opss (s', H') \<and> queue_local w i l s' \<and> proj i H' = P @ [(op, r)])
        (queue_2dd_op (set_queue w d) N n op l) (s, H)"
      using J that
      by (cases op)
        (auto intro!: safe_bind [OF safe_weaken [OF enqueue_2dd_safe]] safe_bind [OF safe_weaken [OF dequeue_2dd_safe]]
          simp: lin_rely_def ord_queue_refl queue_local_stable dest!: hist_rely_proj)
  qed
  show "\<exists>q. replay (spec_queue d) (replicate w ([], 0)) H = Some q \<and> rep_queue s q \<and> queue_ok w d s"
    if "inv_queue w d opss (s, H)" for s H
    using that inv_queue_ok [OF that] unfolding inv_queue_def by auto
qed (auto simp: ord_queue_refl intro: grd_ord_queue queue_local_stable elim: ord_queue_trans)

lemma walk_init: "walk (qnodes (init_queue_2dd w d)) j k = (if k = 0 then Some (Dummy j) else None)"
  by (induction k) (auto simp: walk.simps init_queue_2dd_def initialize_global_window_def)

lemma inv_queue_init: "0 < w \<Longrightarrow> w < U32 \<Longrightarrow> inv_queue w d opss (init_queue_2dd w d, [])"
  by (auto simp: inv_queue_def queue_ok_def counts_ok_def rep_queue_def rep_sub_def chains_apart_def walk_init puts_queue_def
      gets_queue_def split: if_splits)
    (auto simp: init_queue_2dd_def initialize_global_window_def)

definition new_thread_queue :: "nat \<Rightarrow> seeds \<Rightarrow> thread_queue" where
  "new_thread_queue i sd = \<lparr>seeds = sd, thread_index = 0, my_put_cas_fail_count = 0, my_get_cas_fail_count = 0,
     my_null_count = 0, my_hop_count = 0, my_slide_count = 0, thread_PWindow = 0, thread_GWindow = 0,
     thread_id = i, alloc_next = 0\<rparr>"

definition queue_threads :: "(queue_op list \<times> seeds) list \<Rightarrow> (queue_op list \<times> thread_queue) list" where
  "queue_threads ths = map (\<lambda>i. (fst (ths ! i), new_thread_queue i (snd (ths ! i)))) [0..<length ths]"

lemma queue_local_init: "0 < w \<Longrightarrow> queue_local w i (new_thread_queue i sd) (init_queue_2dd w d)"
  by (auto simp: queue_local_def new_thread_queue_def linked_node_def walk_init)
    (simp add: init_queue_2dd_def initialize_global_window_def)

text \<open>
  C14: the 2Dd queue is linearizable to an array of sequential queues: under every interleaving an
  enqueue appends its value to a sub-queue that is less than \<open>depth\<close> ahead of all others in its
  count of enqueues, a dequeue that finds a value takes the first one of a sub-queue, and a
  dequeue reports empty only for a sub-queue that is empty at that moment. No null or dangling
  node is followed, no index is out of bounds, the assertion in \<open>put_window\<close> never fails, and
  every state reached satisfies the window invariant.
\<close>

theorem queue_2dd_linearizable:
  assumes "0 < w" and "w < U32"
  shows "linearizable (no_wrap_queue d) no_fuel (spec_queue d) (replicate w ([], 0))
     (\<lambda>s q. rep_queue s q \<and> queue_ok w d s) (map fst ths)
     (init_queue_2dd w d, threads (queue_2dd_op (set_queue w d) N n) (queue_threads ths))"
proof -
  have m: "map fst (queue_threads ths) = map fst ths"
    by (auto simp: queue_threads_def intro: nth_equalityI)
  have "linearizable (no_wrap_queue d) no_fuel (spec_queue d) (replicate w ([], 0))
     (\<lambda>s q. rep_queue s q \<and> queue_ok w d s) (map fst (queue_threads ths))
     (init_queue_2dd w d, threads (queue_2dd_op (set_queue w d) N n) (queue_threads ths))"
    by (rule lin_queue.linearizable_threads)
      (use assms inv_queue_init queue_local_init m in \<open>auto simp: queue_threads_def\<close>)
  then show ?thesis unfolding m .
qed

lemma queue_2dd_linearizable_witness:
  "linearizable (no_wrap_queue 1) no_fuel (spec_queue 1) (replicate 2 ([], 0))
     (\<lambda>s q. rep_queue s q \<and> queue_ok 2 1 s) [[Enqueue 3 7, Dequeue], [Enqueue 4 8]]
     (init_queue_2dd 2 1, threads (queue_2dd_op (set_queue 2 1) 20 5)
       (queue_threads [([Enqueue 3 7, Dequeue], (1, 2, 3)), ([Enqueue 4 8], (4, 5, 6))]))"
  using queue_2dd_linearizable [of 2 1 "[([Enqueue 3 7, Dequeue], (1, 2, 3)), ([Enqueue 4 8], (4, 5, 6))]" 20 5]
  by (simp add: U32_def)

end
