(* ===== verification/Stack_Array.thy ===== *)
theory Stack_Array
  imports Stack_2Dd
begin

text \<open>
  What the arrays of Treiber stacks of the repository share (\<open>multi-stack_random-relaxed\<close>,
  \<open>stack-dra\<close>, \<open>2Dc-stack\<close>, \<open>2Dc-stack_optimized\<close> and the single \<open>stack-treiber\<close>): a push links
  a private node in front of the top it read, a pop moves the top to the successor of the node
  it read, both by a compare-and-exchange of the top.

  The tops carry no tag that grows, so the argument against the ABA problem is that a node is
  linked once: without garbage collection no address is handed out twice, and a thread links
  the node it allocated last exactly once. The history of the linearization therefore
  determines every node that was ever linked, and its successor at that moment
  (\<open>shadow\<close>); the invariant says that memory agrees with it.
\<close>

section \<open>Specification\<close>

text \<open>
  An array of stacks. A pop that reports empty leaves the state alone; when \<open>strict\<close> holds it may
  do so only for a stack that is empty.
\<close>

fun spec_cells :: "bool \<Rightarrow> (int list list, stack_op, int \<times> nat) spec" where
  "spec_cells strict q (Push key v) (r, j) = (if r = 1 \<and> j < length q then Some (q[j := v # q ! j]) else None)"
| "spec_cells strict q Pop (r, j) =
     (if \<not> j < length q then None
      else if r = 0 then (if strict \<longrightarrow> q ! j = [] then Some q else None)
      else (case q ! j of [] \<Rightarrow> None | v # vs \<Rightarrow> if v = r then Some (q[j := vs]) else None))"

fun holds_cells :: "(addr \<Rightarrow> (int \<times> addr option) option) \<Rightarrow> addr option \<Rightarrow> int list \<Rightarrow> bool" where
  "holds_cells h p [] \<longleftrightarrow> p = None"
| "holds_cells h p (v # vs) \<longleftrightarrow> (\<exists>a p'. p = Some a \<and> h a = Some (v, p') \<and> holds_cells h p' vs)"

section \<open>The nodes a history links\<close>

record shadow =
  sh_stack :: "nat \<Rightarrow> addr list"
  sh_cell :: "addr \<Rightarrow> (int \<times> addr option) option"
  sh_pushes :: "nat \<Rightarrow> nat"
  sh_depth :: "addr \<Rightarrow> nat"

definition top_of :: "addr list \<Rightarrow> addr option" where
  "top_of xs = (case xs of [] \<Rightarrow> None | a # _ \<Rightarrow> Some a)"

lemma top_of_simps [simp]: "top_of [] = None" "top_of (a # xs) = Some a"
  by (simp_all add: top_of_def)

fun shadow_step :: "shadow \<Rightarrow> nat \<times> stack_op \<times> int \<times> nat \<Rightarrow> shadow" where
  "shadow_step S (i, Push key v, r, j) = (let a = Addr i (sh_pushes S i) in
     \<lparr>sh_stack = (sh_stack S)(j := a # sh_stack S j),
      sh_cell = (sh_cell S)(a \<mapsto> (v, top_of (sh_stack S j))),
      sh_pushes = (sh_pushes S)(i := sh_pushes S i + 1),
      sh_depth = (sh_depth S)(a := length (sh_stack S j))\<rparr>)"
| "shadow_step S (i, Pop, r, j) = (if r = 0 then S else S\<lparr>sh_stack := (sh_stack S)(j := tl (sh_stack S j))\<rparr>)"

definition shadow :: "(stack_op, int \<times> nat) history \<Rightarrow> shadow" where
  "shadow H = foldl shadow_step \<lparr>sh_stack = \<lambda>_. [], sh_cell = \<lambda>_. None, sh_pushes = \<lambda>_. 0, sh_depth = \<lambda>_. 0\<rparr> H"

lemma shadow_Nil: "shadow [] = \<lparr>sh_stack = \<lambda>_. [], sh_cell = \<lambda>_. None, sh_pushes = \<lambda>_. 0, sh_depth = \<lambda>_. 0\<rparr>"
  by (simp add: shadow_def)

lemma shadow_snoc: "shadow (H @ [e]) = shadow_step (shadow H) e"
  by (simp add: shadow_def)

definition pushes :: "(stack_op \<times> int \<times> nat) list \<Rightarrow> nat" where
  "pushes P = length (filter (\<lambda>(op, _). op \<noteq> Pop) P)"

lemma pushes_snoc [simp]:
  "pushes (P @ [(Push key v, r)]) = pushes P + 1" "pushes (P @ [(Pop, r)]) = pushes P" "pushes [] = 0"
  by (simp_all add: pushes_def)

lemma shadow_step_cases:
  obtains (push) i key v r j where "e = (i, Push key v, r, j)" | (pop) i r j where "e = (i, Pop, r, j)"
proof (cases e)
  case (fields i op r j)
  then show ?thesis using that by (cases op) auto
qed

lemma shadow_pushes: "sh_pushes (shadow H) i = pushes (proj i H)"
proof (induction H rule: rev_induct)
  case (snoc e H)
  then show ?case by (cases e rule: shadow_step_cases) (auto simp: shadow_snoc Let_def)
qed (simp add: shadow_Nil)

lemma shadow_fresh: "sh_cell (shadow H) (Addr i k) \<noteq> None \<longleftrightarrow> k < sh_pushes (shadow H) i"
proof (induction H rule: rev_induct)
  case (snoc e H)
  then show ?case by (cases e rule: shadow_step_cases) (auto simp: shadow_snoc Let_def less_Suc_eq)
qed (simp add: shadow_Nil)

lemma shadow_unpushed: "pushes (proj i H) \<le> k \<Longrightarrow> sh_cell (shadow H) (Addr i k) = None"
  using shadow_fresh [of H i k] shadow_pushes [of H i] by (metis not_less)

lemma shadow_mono: "sh_cell (shadow H) a = Some c \<Longrightarrow> sh_cell (shadow (H @ X)) a = Some c"
proof (induction X rule: rev_induct)
  case (snoc e X)
  have "shadow (H @ X @ [e]) = shadow_step (shadow (H @ X)) e" using shadow_snoc [of "H @ X" e] by simp
  then show ?case
    using snoc shadow_fresh [of "H @ X" "owner a" "offset a"]
    by (cases e rule: shadow_step_cases) (auto simp: Let_def)
qed simp

lemma shadow_depth_mono: "sh_cell (shadow H) a \<noteq> None \<Longrightarrow> sh_depth (shadow (H @ X)) a = sh_depth (shadow H) a"
proof (induction X rule: rev_induct)
  case (snoc e X)
  have "shadow (H @ X @ [e]) = shadow_step (shadow (H @ X)) e" using shadow_snoc [of "H @ X" e] by simp
  then show ?case
    using snoc shadow_fresh [of "H @ X" "owner a" "offset a"] shadow_mono [of H a _ X]
    by (cases e rule: shadow_step_cases) (auto simp: Let_def)
qed simp

text \<open>The depth of a node is the number of nodes below it, as long as it is part of a stack.\<close>

fun depths :: "shadow \<Rightarrow> addr list \<Rightarrow> bool" where
  "depths S [] \<longleftrightarrow> True"
| "depths S (a # xs) \<longleftrightarrow> sh_depth S a = length xs \<and> sh_cell S a \<noteq> None \<and> depths S xs"

lemma depths_append: "depths (shadow H) xs \<Longrightarrow> depths (shadow (H @ X)) xs"
  using shadow_mono [of H _ _ X] shadow_depth_mono [of H _ X] by (induction xs) fastforce+

lemma depths_tl: "depths S xs \<Longrightarrow> depths S (tl xs)"
  by (cases xs) auto

lemma shadow_depths: "depths (shadow H) (sh_stack (shadow H) j)"
proof (induction H arbitrary: j rule: rev_induct)
  case (snoc e H)
  have old: "depths (shadow (H @ [e])) (sh_stack (shadow H) j')" for j'
    by (rule depths_append [OF snoc.IH])
  show ?case
  proof (cases e rule: shadow_step_cases)
    case push
    then show ?thesis using old [of j] by (auto simp: shadow_snoc Let_def)
  next
    case pop
    then show ?thesis using old [of j] depths_tl [OF old [of j]] by (auto simp: shadow_snoc)
  qed
qed (simp add: shadow_Nil)

text \<open>A list of nodes is a chain when each has the next one as successor.\<close>

fun chain :: "(addr \<Rightarrow> (int \<times> addr option) option) \<Rightarrow> addr list \<Rightarrow> bool" where
  "chain h [] \<longleftrightarrow> True"
| "chain h (a # xs) \<longleftrightarrow> (\<exists>v. h a = Some (v, top_of xs)) \<and> chain h xs"

lemma chain_mono: "chain h xs \<Longrightarrow> (\<And>a c. h a = Some c \<Longrightarrow> h' a = Some c) \<Longrightarrow> chain h' xs"
  by (induction xs) auto

lemma chain_holds: "chain h xs \<Longrightarrow> (\<And>a c. h a = Some c \<Longrightarrow> h' a = Some c) \<Longrightarrow>
    holds_cells h' (top_of xs) (map (\<lambda>a. fst (the (h a))) xs)"
  by (induction xs) force+

lemma chain_vals: "chain h xs \<Longrightarrow> (\<And>a c. h a = Some c \<Longrightarrow> h' a = Some c) \<Longrightarrow>
    map (\<lambda>a. fst (the (h' a))) xs = map (\<lambda>a. fst (the (h a))) xs"
  by (induction xs) force+

section \<open>The invariant\<close>

definition cells :: "nat \<Rightarrow> bool \<Rightarrow> stack_op list list \<Rightarrow> (nat \<Rightarrow> addr option) \<Rightarrow> (addr \<Rightarrow> (int \<times> addr option) option) \<Rightarrow>
    (stack_op, int \<times> nat) history \<Rightarrow> bool" where
  "cells w strict opss tops cell H \<longleftrightarrow> hist_ok opss H \<and> nonzero_ops opss \<and>
     (\<exists>q. replay (spec_cells strict) (replicate w []) H = Some q \<and> length q = w \<and>
        (\<forall>j<w. map (\<lambda>a. fst (the (sh_cell (shadow H) a))) (sh_stack (shadow H) j) = q ! j)) \<and>
     (\<forall>j<w. tops j = top_of (sh_stack (shadow H) j) \<and> chain (sh_cell (shadow H)) (sh_stack (shadow H) j)) \<and>
     (\<forall>a c. sh_cell (shadow H) a = Some c \<longrightarrow> cell a = Some c \<and> fst c \<noteq> 0)"

lemma cellsD:
  assumes "cells w strict opss tops cell H"
  shows "hist_ok opss H" "nonzero_ops opss" "j < w \<Longrightarrow> tops j = top_of (sh_stack (shadow H) j)"
    "j < w \<Longrightarrow> chain (sh_cell (shadow H)) (sh_stack (shadow H) j)"
    "sh_cell (shadow H) a = Some c \<Longrightarrow> cell a = Some c" "sh_cell (shadow H) a = Some c \<Longrightarrow> fst c \<noteq> 0"
  using assms unfolding cells_def by blast+

lemma cells_spec:
  assumes "cells w strict opss tops cell H"
  obtains q where "replay (spec_cells strict) (replicate w []) H = Some q" "length q = w"
    "\<And>j. j < w \<Longrightarrow> map (\<lambda>a. fst (the (sh_cell (shadow H) a))) (sh_stack (shadow H) j) = q ! j"
proof -
  obtain q where "replay (spec_cells strict) (replicate w []) H = Some q" "length q = w"
    "\<forall>j<w. map (\<lambda>a. fst (the (sh_cell (shadow H) a))) (sh_stack (shadow H) j) = q ! j"
    using assms unfolding cells_def by blast
  then show ?thesis by (intro that [of q]) simp_all
qed

lemma cells_rep:
  assumes "cells w strict opss tops cell H"
  shows "\<exists>q. replay (spec_cells strict) (replicate w []) H = Some q \<and> length q = w \<and>
    (\<forall>j<w. holds_cells cell (tops j) (q ! j))"
proof -
  obtain q where q: "replay (spec_cells strict) (replicate w []) H = Some q" "length q = w"
    "\<forall>j<w. map (\<lambda>a. fst (the (sh_cell (shadow H) a))) (sh_stack (shadow H) j) = q ! j"
    using cells_spec [OF assms] by metis
  have "holds_cells cell (tops j) (q ! j)" if "j < w" for j
    using chain_holds [OF cellsD(4) [OF assms that], of cell] cellsD(3,5) [OF assms] q(3) that by simp
  then show ?thesis using q by blast
qed

lemma cells_init:
  "nonzero_ops opss \<Longrightarrow> (\<And>j. j < w \<Longrightarrow> tops j = None) \<Longrightarrow> cells w strict opss tops cell []"
  by (simp add: cells_def shadow_Nil)

lemma cells_frame:
  assumes c: "cells w strict opss tops cell H" and t: "\<And>j. j < w \<Longrightarrow> tops' j = tops j"
    and m: "\<And>a c. sh_cell (shadow H) a = Some c \<Longrightarrow> cell' a = cell a"
  shows "cells w strict opss tops' cell' H"
  using c t m unfolding cells_def by metis

lemma cells_push:
  assumes c: "cells w strict opss tops cell H" and j: "j < w" and a: "a = Addr i (pushes (proj i H))"
    and n: "cell a = Some (v, tops j)" and t: "\<And>j'. j' < w \<Longrightarrow> tops' j' = (if j' = j then Some a else tops j')"
    and step: "i < length opss" "prefix (map fst (proj i H) @ [Push key v]) (opss ! i)"
  shows "cells w strict opss tops' cell (H @ [(i, Push key v, 1, j)])"
proof -
  let ?S = "shadow H" and ?X = "[(i, Push key v, 1, j)]"
  obtain q where q: "replay (spec_cells strict) (replicate w []) H = Some q" "length q = w"
    "\<forall>j<w. map (\<lambda>a. fst (the (sh_cell ?S a))) (sh_stack ?S j) = q ! j"
    using cells_spec [OF c] by metis
  have v: "v \<noteq> 0"
  proof -
    have "Push key v \<in> set (opss ! i)" using step(2) by (auto dest: set_mono_prefix)
    then show ?thesis using cellsD(2) [OF c] step(1) unfolding nonzero_ops_def by (metis nth_mem)
  qed
  have S: "shadow (H @ ?X) = \<lparr>sh_stack = (sh_stack ?S)(j := a # sh_stack ?S j), sh_cell = (sh_cell ?S)(a \<mapsto> (v, tops j)),
      sh_pushes = (sh_pushes ?S)(i := sh_pushes ?S i + 1), sh_depth = (sh_depth ?S)(a := length (sh_stack ?S j))\<rparr>"
    using cellsD(3) [OF c j] by (simp add: shadow_snoc Let_def a shadow_pushes)
  note ch = cellsD(4) [OF c]
  have mono: "chain (sh_cell (shadow (H @ ?X))) (sh_stack ?S j')"
    "map (\<lambda>b. fst (the (sh_cell (shadow (H @ ?X)) b))) (sh_stack ?S j') = q ! j'" if "j' < w" for j'
    using chain_mono [OF ch [OF that] shadow_mono] chain_vals [OF ch [OF that] shadow_mono] q(3) that by auto
  have vals: "map (\<lambda>b. fst (the (sh_cell (shadow (H @ ?X)) b))) (sh_stack (shadow (H @ ?X)) j') = (q[j := v # q ! j]) ! j'"
    if j': "j' < w" for j'
    using mono(2) [OF j'] q(2) j' by (auto simp: S)
  have chains: "tops' j' = top_of (sh_stack (shadow (H @ ?X)) j') \<and> chain (sh_cell (shadow (H @ ?X))) (sh_stack (shadow (H @ ?X)) j')"
    if j': "j' < w" for j'
    using mono(1) [OF j'] t [OF j'] cellsD(3) [OF c j'] j' by (auto simp: S)
  show ?thesis
    unfolding cells_def
  proof (intro conjI)
    show "hist_ok opss (H @ ?X)" by (rule hist_ok_entry [OF cellsD(1) [OF c] step])
    show "nonzero_ops opss" by (rule cellsD(2) [OF c])
    show "\<exists>q. replay (spec_cells strict) (replicate w []) (H @ ?X) = Some q \<and> length q = w \<and>
        (\<forall>j<w. map (\<lambda>a. fst (the (sh_cell (shadow (H @ ?X)) a))) (sh_stack (shadow (H @ ?X)) j) = q ! j)"
      by (rule exI [of _ "q[j := v # q ! j]"]) (use q(1,2) j vals in simp)
    show "\<forall>j<w. tops' j = top_of (sh_stack (shadow (H @ ?X)) j) \<and> chain (sh_cell (shadow (H @ ?X))) (sh_stack (shadow (H @ ?X)) j)"
      using chains by blast
    show "\<forall>b d. sh_cell (shadow (H @ ?X)) b = Some d \<longrightarrow> cell b = Some d \<and> fst d \<noteq> 0"
    proof (intro allI impI)
      fix b d assume "sh_cell (shadow (H @ ?X)) b = Some d"
      then have "sh_cell ?S b = Some d \<or> b = a \<and> d = (v, tops j)" by (auto simp: S split: if_splits)
      then show "cell b = Some d \<and> fst d \<noteq> 0" using cellsD(5,6) [OF c, of b d] n v by auto
    qed
  qed
qed

lemma cells_pop:
  assumes c: "cells w strict opss tops cell H" and j: "j < w" and a: "tops j = Some a" "cell a = Some (v, p)"
    and t: "\<And>j'. j' < w \<Longrightarrow> tops' j' = (if j' = j then p else tops j')"
    and step: "i < length opss" "prefix (map fst (proj i H) @ [Pop]) (opss ! i)"
  shows "cells w strict opss tops' cell (H @ [(i, Pop, v, j)])" and "v \<noteq> 0"
proof -
  let ?S = "shadow H" and ?X = "[(i, Pop, v, j)]"
  obtain q where q: "replay (spec_cells strict) (replicate w []) H = Some q" "length q = w"
    "\<forall>j<w. map (\<lambda>a. fst (the (sh_cell ?S a))) (sh_stack ?S j) = q ! j"
    using cells_spec [OF c] by metis
  obtain xs where xs: "sh_stack ?S j = a # xs"
    using cellsD(3) [OF c j] a(1) by (cases "sh_stack ?S j") auto
  have "chain (sh_cell ?S) (a # xs)" using cellsD(4) [OF c j] xs by simp
  then obtain u where u: "sh_cell ?S a = Some (u, top_of xs)" and ch: "chain (sh_cell ?S) xs" by auto
  then have up: "u = v" "p = top_of xs" using cellsD(5) [OF c u] a(2) by simp_all
  show v: "v \<noteq> 0" using cellsD(6) [OF c u] up by simp
  have S: "shadow (H @ ?X) = ?S\<lparr>sh_stack := (sh_stack ?S)(j := xs)\<rparr>" using v xs by (simp add: shadow_snoc)
  have qj: "q ! j = v # map (\<lambda>a. fst (the (sh_cell ?S a))) xs" using q(3) [rule_format, OF j] xs u up by simp
  show "cells w strict opss tops' cell (H @ ?X)"
    unfolding cells_def
  proof (intro conjI)
    show "hist_ok opss (H @ ?X)" by (rule hist_ok_entry [OF cellsD(1) [OF c] step])
    show "nonzero_ops opss" by (rule cellsD(2) [OF c])
    show "\<exists>q. replay (spec_cells strict) (replicate w []) (H @ ?X) = Some q \<and> length q = w \<and>
        (\<forall>j<w. map (\<lambda>a. fst (the (sh_cell (shadow (H @ ?X)) a))) (sh_stack (shadow (H @ ?X)) j) = q ! j)"
      by (rule exI [of _ "q[j := map (\<lambda>a. fst (the (sh_cell ?S a))) xs]"]) (use q j v qj in \<open>simp add: S nth_list_update\<close>)
    show "\<forall>j'<w. tops' j' = top_of (sh_stack (shadow (H @ ?X)) j') \<and> chain (sh_cell (shadow (H @ ?X))) (sh_stack (shadow (H @ ?X)) j')"
      using cellsD(3,4) [OF c] t up xs j ch by (auto simp: S)
    show "\<forall>b d. sh_cell (shadow (H @ ?X)) b = Some d \<longrightarrow> cell b = Some d \<and> fst d \<noteq> 0"
      using cellsD(5,6) [OF c] by (auto simp: S)
  qed
qed

lemma cells_empty:
  assumes c: "cells w strict opss tops cell H" and j: "j < w" and e: "strict \<Longrightarrow> tops j = None"
    and step: "i < length opss" "prefix (map fst (proj i H) @ [Pop]) (opss ! i)"
  shows "cells w strict opss tops cell (H @ [(i, Pop, 0, j)])"
proof -
  let ?S = "shadow H" and ?X = "[(i, Pop, 0, j)]"
  obtain q where q: "replay (spec_cells strict) (replicate w []) H = Some q" "length q = w"
    "\<forall>j<w. map (\<lambda>a. fst (the (sh_cell ?S a))) (sh_stack ?S j) = q ! j"
    using cells_spec [OF c] by metis
  have "strict \<longrightarrow> q ! j = []" using q(3) j e cellsD(3) [OF c j] by (cases "sh_stack ?S j") auto
  then have "replay (spec_cells strict) (replicate w []) (H @ ?X) = Some q" using q(1,2) j by simp
  then show ?thesis
    using c q hist_ok_entry [OF cellsD(1) [OF c] step] unfolding cells_def by (simp add: shadow_snoc)
qed

section \<open>The contract of a client\<close>

text \<open>
  A client gives the tops and the memory of its state (\<open>nv\<close> and \<open>nn\<close> read the value and the
  successor of a node), an invariant \<open>E\<close> and an order \<open>EO\<close> of its own. In return it gets the
  invariant of the array, the order the threads rely on, and one lemma for each kind of write.
\<close>

locale stack_array =
  fixes w :: nat and strict :: bool and opss :: "stack_op list list"
    and tops :: "'s \<Rightarrow> nat \<Rightarrow> addr option" and mem :: "'s \<Rightarrow> addr \<Rightarrow> 'n option"
    and nv :: "'n \<Rightarrow> int" and nn :: "'n \<Rightarrow> addr option"
    and E :: "'s \<times> (stack_op, int \<times> nat) history \<Rightarrow> bool" and EO :: "'s \<Rightarrow> 's \<Rightarrow> bool"
  assumes EO_refl: "EO s s" and EO_trans: "EO s t \<Longrightarrow> EO t u \<Longrightarrow> EO s u"
begin

definition cell :: "'s \<Rightarrow> addr \<Rightarrow> (int \<times> addr option) option" where
  "cell s a = map_option (\<lambda>n. (nv n, nn n)) (mem s a)"

definition inv :: "'s \<times> (stack_op, int \<times> nat) history \<Rightarrow> bool" where
  "inv s \<longleftrightarrow> E s \<and> cells w strict opss (tops (fst s)) (cell (fst s)) (snd s)"

definition ord :: "nat \<Rightarrow> 's \<Rightarrow> 's \<Rightarrow> bool" where
  "ord i s t \<longleftrightarrow> EO s t \<and> (\<forall>k. mem t (Addr i k) = mem s (Addr i k)) \<and> (\<forall>a. mem s a \<noteq> None \<longrightarrow> mem t a \<noteq> None)"

definition grd :: "nat \<Rightarrow> 's \<Rightarrow> 's \<Rightarrow> bool" where
  "grd i s t \<longleftrightarrow> EO s t \<and> (\<forall>m k. m \<noteq> i \<longrightarrow> mem t (Addr m k) = mem s (Addr m k)) \<and> (\<forall>a. mem s a \<noteq> None \<longrightarrow> mem t a \<noteq> None)"

text \<open>The node of thread \<open>i\<close> that its next push links, once it is written.\<close>

definition own_node :: "nat \<Rightarrow> addr \<Rightarrow> int \<Rightarrow> (stack_op \<times> int \<times> nat) list \<Rightarrow> 's \<Rightarrow> bool" where
  "own_node i a v P s \<longleftrightarrow> a = Addr i (pushes P) \<and> (\<exists>n. mem s a = Some n \<and> nv n = v)"

lemma ord_refl: "ord i s s"
  by (simp add: ord_def EO_refl)

lemma grd_refl: "grd i s s"
  by (simp add: grd_def EO_refl)

lemma ord_trans: "ord i s t \<Longrightarrow> ord i t u \<Longrightarrow> ord i s u"
  unfolding ord_def using EO_trans by metis

lemma grd_ord: "i \<noteq> j \<Longrightarrow> grd i s t \<Longrightarrow> ord j s t"
  by (simp add: grd_def ord_def)

lemma ord_EO: "ord i s t \<Longrightarrow> EO s t"
  by (simp add: ord_def)

lemma ord_mem: "ord i s t \<Longrightarrow> mem s a \<noteq> None \<Longrightarrow> mem t a \<noteq> None"
  by (simp add: ord_def)

lemma own_node_stable: "own_node i a v P s \<Longrightarrow> ord i s t \<Longrightarrow> own_node i a v P t"
  by (auto simp: own_node_def ord_def)

lemma own_node_mem: "own_node i a v P s \<Longrightarrow> mem s a \<noteq> None"
  by (auto simp: own_node_def)

lemma inv_E: "inv s \<Longrightarrow> E s"
  by (simp add: inv_def)

lemma inv_cells: "inv (s, H) \<Longrightarrow> cells w strict opss (tops s) (cell s) H"
  by (simp add: inv_def)

text \<open>A node that was linked: it stays in memory, with its value and its successor.\<close>

definition linked_in :: "(stack_op, int \<times> nat) history \<Rightarrow> addr \<Rightarrow> bool" where
  "linked_in H a \<longleftrightarrow> sh_cell (shadow H) a \<noteq> None"

lemma top_linked:
  assumes "inv (s, H)" and "j < w" and "tops s j = Some a"
  shows "linked_in H a"
proof -
  note c = inv_cells [OF assms(1)]
  obtain xs where xs: "sh_stack (shadow H) j = a # xs"
    using cellsD(3) [OF c assms(2)] assms(3) by (cases "sh_stack (shadow H) j") auto
  show ?thesis using cellsD(4) [OF c assms(2)] unfolding xs by (auto simp: linked_in_def)
qed

lemma linked_mem:
  assumes "inv (s, H)" and "linked_in H a"
  obtains n where "mem s a = Some n" "sh_cell (shadow H) a = Some (nv n, nn n)"
proof -
  obtain c where c: "sh_cell (shadow H) a = Some c" using assms(2) by (auto simp: linked_in_def)
  then have "cell s a = Some c" using cellsD(5) [OF inv_cells [OF assms(1)]] by blast
  then show ?thesis using that c by (auto simp: cell_def)
qed

lemma arr_linked_alloc: "inv (s, H) \<Longrightarrow> linked_in H a \<Longrightarrow> mem s a \<noteq> None"
  by (rule linked_mem) auto

lemma linked_stable: "linked_in H a \<Longrightarrow> hist_rely i H H' \<Longrightarrow> linked_in H' a"
  using shadow_mono [of H a] by (auto simp: linked_in_def hist_rely_def)

lemma linked_same:
  assumes "inv (s, H)" and "inv (t, H')" and "hist_rely i H H'" and "linked_in H a" and "mem s a = Some n"
  obtains n' where "mem t a = Some n'" "nv n' = nv n" "nn n' = nn n"
proof -
  obtain m where m: "mem s a = Some m" "sh_cell (shadow H) a = Some (nv m, nn m)" by (rule linked_mem [OF assms(1,4)])
  have "sh_cell (shadow H') a = Some (nv m, nn m)" using shadow_mono [OF m(2)] assms(3) by (auto simp: hist_rely_def)
  moreover obtain n' where "mem t a = Some n'" "sh_cell (shadow H') a = Some (nv n', nn n')"
    by (rule linked_mem [OF assms(2) linked_stable [OF assms(4,3)]])
  ultimately show ?thesis using that m assms(5) by simp
qed

text \<open>
  What a thread knows of a pointer it read: it was the top at some moment since the history was
  \<open>H\<close>. When it is not the top any more, another operation has taken effect meanwhile.
\<close>

definition seen_top :: "nat \<Rightarrow> (stack_op, int \<times> nat) history \<Rightarrow> (stack_op, int \<times> nat) history \<Rightarrow> nat \<Rightarrow> addr option \<Rightarrow> bool" where
  "seen_top i H H' j p \<longleftrightarrow> (\<exists>H0. hist_rely i H H0 \<and> hist_rely i H0 H' \<and> top_of (sh_stack (shadow H0) j) = p) \<and>
     (\<forall>a. p = Some a \<longrightarrow> linked_in H' a)"

lemma seen_now: "inv (s, H') \<Longrightarrow> j < w \<Longrightarrow> hist_rely i H H' \<Longrightarrow> seen_top i H H' j (tops s j)"
  unfolding seen_top_def using cellsD(3) [OF inv_cells, of s H' j] top_linked [of s H' j] hist_rely_refl by metis

lemma seen_later: "seen_top i H H' j p \<Longrightarrow> hist_rely i H' H'' \<Longrightarrow> seen_top i H H'' j p"
  unfolding seen_top_def using hist_rely_trans linked_stable by metis

lemma seen_earlier: "seen_top i H H' j p \<Longrightarrow> hist_rely i H0 H \<Longrightarrow> seen_top i H0 H' j p"
  unfolding seen_top_def using hist_rely_trans by metis

lemma seen_linked: "seen_top i H H' j (Some a) \<Longrightarrow> linked_in H' a"
  by (simp add: seen_top_def)

lemma seen_progress:
  assumes "seen_top i H H' j p" and "inv (t, H')" and "j < w" and "tops t j \<noteq> p"
  shows "H' \<noteq> H"
proof
  assume "H' = H"
  then obtain H0 where H0: "hist_rely i H H0" "hist_rely i H0 H" "top_of (sh_stack (shadow H0) j) = p"
    using assms(1) unfolding seen_top_def by blast
  then have "length H0 = length H" using hist_rely_le [OF H0(1)] hist_rely_le [OF H0(2)] by simp
  then have "H0 = H" using hist_rely_length [OF H0(1)] by fastforce
  then show False using H0(3) cellsD(3) [OF inv_cells [OF assms(2)] assms(3)] \<open>H' = H\<close> assms(4) by simp
qed

lemma seen_enough:
  "seen_top i H H' j p \<Longrightarrow> inv (t, H') \<Longrightarrow> j < w \<Longrightarrow> tops t j \<noteq> p \<Longrightarrow> hist_rely i H H' \<Longrightarrow>
     enough T opss (Suc n) H \<Longrightarrow> enough T opss n H'"
  by (rule enough_Suc [where H' = H and i = i]) (auto dest: seen_progress)

lemma linked_append: "linked_in H a \<Longrightarrow> linked_in (H @ X) a"
  using shadow_mono [of H a] by (auto simp: linked_in_def)

lemma quiet:
  assumes "inv (s, H)" and "\<And>j. j < w \<Longrightarrow> tops t j = tops s j" and "mem t = mem s" and "E (t, H)" and "EO s t"
  shows "inv (t, H) \<and> grd i s t \<and> ord i s t"
proof -
  have "cell t = cell s" using assms(3) by (simp add: cell_def fun_eq_iff)
  then have "cells w strict opss (tops t) (cell t) H"
    by (intro cells_frame [OF inv_cells [OF assms(1)]]) (use assms(2) in auto)
  then show ?thesis using assms(3-5) by (simp add: inv_def grd_def ord_def)
qed

lemma own_write:
  assumes "inv (s, H)" and a: "a = Addr i (pushes (proj i H))"
    and "\<And>j. j < w \<Longrightarrow> tops t j = tops s j" and m: "mem t = (mem s)(a \<mapsto> n)" and "E (t, H)" and "EO s t"
  shows "inv (t, H) \<and> grd i s t"
proof -
  have "sh_cell (shadow H) a = None" using shadow_unpushed [of i H "pushes (proj i H)"] a by simp
  then have "cell t b = cell s b" if "sh_cell (shadow H) b = Some c" for b c
    using that m by (auto simp: cell_def)
  then have "cells w strict opss (tops t) (cell t) H"
    by (intro cells_frame [OF inv_cells [OF assms(1)]]) (use assms(3) in auto)
  then show ?thesis using assms(4-6) a by (simp add: inv_def grd_def)
qed

lemma arr_push_commit:
  assumes J: "inv (s, H)" and j: "j < w" and a: "own_node i a v (proj i H) s" and n: "mem s a = Some n" "nn n = tops s j"
    and t: "\<And>j'. j' < w \<Longrightarrow> tops t j' = (if j' = j then Some a else tops s j')" and m: "mem t = mem s"
    and step: "i < length opss" "prefix (map fst (proj i H) @ [Push key v]) (opss ! i)"
    and EX: "E (t, H @ [(i, Push key v, 1, j)])" "EO s t"
  shows "inv (t, H @ [(i, Push key v, 1, j)]) \<and> grd i s t"
proof -
  have c: "cell t = cell s" using m by (simp add: cell_def fun_eq_iff)
  have "cells w strict opss (tops t) (cell s) (H @ [(i, Push key v, 1, j)])"
    by (rule cells_push [OF inv_cells [OF J] j _ _ t step]) (use a n in \<open>auto simp: own_node_def cell_def\<close>)
  then show ?thesis using EX m c by (simp add: inv_def grd_def)
qed

lemma arr_pop_commit:
  assumes J: "inv (s, H)" and j: "j < w" and a: "tops s j = Some a" "mem s a = Some n"
    and t: "\<And>j'. j' < w \<Longrightarrow> tops t j' = (if j' = j then nn n else tops s j')" and m: "mem t = mem s"
    and step: "i < length opss" "prefix (map fst (proj i H) @ [Pop]) (opss ! i)"
    and EX: "E (t, H @ [(i, Pop, nv n, j)])" "EO s t"
  shows "inv (t, H @ [(i, Pop, nv n, j)]) \<and> grd i s t"
proof -
  have c: "cell t = cell s" using m by (simp add: cell_def fun_eq_iff)
  have "cells w strict opss (tops t) (cell s) (H @ [(i, Pop, nv n, j)])"
    by (rule cells_pop(1) [OF inv_cells [OF J] j a(1) _ t step]) (use a in \<open>auto simp: cell_def\<close>)
  then show ?thesis using EX m c by (simp add: inv_def grd_def)
qed

lemma empty_commit:
  assumes J: "inv (s, H)" and j: "j < w" and "strict \<Longrightarrow> tops s j = None"
    and step: "i < length opss" "prefix (map fst (proj i H) @ [Pop]) (opss ! i)" and EX: "E (s, H @ [(i, Pop, 0, j)])"
  shows "inv (s, H @ [(i, Pop, 0, j)])"
  using cells_empty [OF inv_cells [OF J] j assms(3) step] EX by (simp add: inv_def)

lemma inv_rep:
  "inv (s, H) \<Longrightarrow> \<exists>q. replay (spec_cells strict) (replicate w []) H = Some q \<and> length q = w \<and>
     (\<forall>j<w. holds_cells (cell s) (tops s j) (q ! j))"
  by (rule cells_rep, rule inv_cells)

lemma inv_init: "nonzero_ops opss \<Longrightarrow> (\<And>j. j < w \<Longrightarrow> tops s j = None) \<Longrightarrow> E (s, []) \<Longrightarrow> inv (s, [])"
  by (simp add: inv_def cells_init)

end

end
