(* ===== verification/Multi_Stack.thy ===== *)
theory Multi_Stack
  imports Stack_Array
begin

text \<open>
  The randomised stacks, \<open>src/multi-stack_random-relaxed\<close> and \<open>src/stack-dra\<close>: an array of
  Treiber stacks whose nodes carry a time stamp. An operation works on a random sub-stack or,
  when \<open>NUM_CHOICES\<close> is defined, on the best of that many random ones: the lowest stamp at the
  top for a push, the highest for a pop. The stamp of a new node is the cycle counter in
  \<open>multi-stack\<close> and one more than the stamp of the node below in \<open>stack-dra\<close>.

  Shown: both are linearizable to an array of sequential stacks, whatever the random numbers
  and the cycle counter are; a pop reports empty only for a sub-stack that is empty; and in
  \<open>stack-dra\<close> the stamp of a node is the height of the stack below it.
\<close>

section \<open>State\<close>

record mstack_node =
  mn_key :: int
  mn_val :: int
  timestamp :: nat
  mn_next :: "addr option"

record mstack =
  tops_array :: "addr option list"
  mnodes :: "addr \<Rightarrow> mstack_node option"

text \<open>
  \<open>tsc n\<close> is what the \<open>n\<close>-th read of the cycle counter (\<open>getticks\<close>) yields in this thread. It is
  hardware, so any function is possible.
\<close>

record thread_ms = thread +
  thread_id :: nat
  alloc_next :: nat
  tsc :: "nat \<Rightarrow> nat"
  tsc_reads :: nat

definition init_mstack :: "nat \<Rightarrow> mstack" where
  "init_mstack w = \<lparr>tops_array = replicate w None, mnodes = \<lambda>_. None\<rparr>"

definition create_stack_ms :: "bool \<Rightarrow> nat \<Rightarrow> failure + (nat \<times> mstack)" where
  "create_stack_ms alloc_ok w = (if \<not> alloc_ok then Inl Exit_program else Inr (w, init_mstack w))"

section \<open>Operations\<close>

definition create_node_ms :: "int \<Rightarrow> int \<Rightarrow> addr option \<Rightarrow> thread_ms \<Rightarrow>
    (addr \<Rightarrow> thread_ms \<Rightarrow> (mstack, 'a) prog) \<Rightarrow> (mstack, 'a) prog" where
  "create_node_ms key v p l k = (let a = Addr (thread_id l) (alloc_next l) in
     store (\<lambda>s. s\<lparr>mnodes := (mnodes s)(a \<mapsto> \<lparr>mn_key = key, mn_val = v, timestamp = 0, mn_next = p\<rparr>)\<rparr>)
       (k a (l\<lparr>alloc_next := alloc_next l + 1\<rparr>)))"

definition random_index_ms :: "nat \<Rightarrow> thread_ms \<Rightarrow> (nat \<Rightarrow> thread_ms \<Rightarrow> (mstack, 'a) prog) \<Rightarrow> (mstack, 'a) prog" where
  "random_index_ms w l k = draw w l k"

definition load_top :: "nat \<Rightarrow> (addr option \<Rightarrow> (mstack, 'a) prog) \<Rightarrow> (mstack, 'a) prog" where
  "load_top j k = checked (\<lambda>s. j < length (tops_array s)) (load (\<lambda>s. tops_array s ! j) k)"

definition mnode_at :: "addr option \<Rightarrow> mstack \<Rightarrow> mstack_node" where
  "mnode_at p s = the (mnodes s (the p))"

definition load_mnode :: "(mstack_node \<Rightarrow> 'x) \<Rightarrow> addr option \<Rightarrow> ('x \<Rightarrow> (mstack, 'a) prog) \<Rightarrow> (mstack, 'a) prog" where
  "load_mnode f p k = checked (\<lambda>s. p \<noteq> None \<and> mnodes s (the p) \<noteq> None) (load (\<lambda>s. f (mnode_at p s)) k)"

definition store_mnode :: "(mstack_node \<Rightarrow> mstack_node) \<Rightarrow> addr \<Rightarrow> (mstack, 'a) prog \<Rightarrow> (mstack, 'a) prog" where
  "store_mnode f a k = checked (\<lambda>s. mnodes s a \<noteq> None)
     (store (\<lambda>s. s\<lparr>mnodes := (mnodes s)(a \<mapsto> f (mnode_at (Some a) s))\<rparr>) k)"

definition stack_cae_ms :: "nat \<Rightarrow> addr option \<Rightarrow> addr option \<Rightarrow> (bool \<Rightarrow> (mstack, 'a) prog) \<Rightarrow> (mstack, 'a) prog" where
  "stack_cae_ms j read new k = checked (\<lambda>s. j < length (tops_array s))
     (cae (\<lambda>s. tops_array s ! j) (\<lambda>p s. s\<lparr>tops_array := (tops_array s)[j := p]\<rparr>) read new (\<lambda>ok _. k ok))"

text \<open>The loops over the further choices; the first argument counts those still to be drawn.\<close>

fun push_choices :: "nat \<Rightarrow> nat \<Rightarrow> nat \<Rightarrow> addr option \<Rightarrow> thread_ms \<Rightarrow>
    (nat \<Rightarrow> addr option \<Rightarrow> thread_ms \<Rightarrow> (mstack, 'a) prog) \<Rightarrow> (mstack, 'a) prog" where
  "push_choices 0 w index node l k = k index node l"
| "push_choices (Suc r) w index node l k =
     random_index_ms w l (\<lambda>index2 l. load_top index2 (\<lambda>node2.
     if node2 = None then k index2 node2 l
     else load_mnode timestamp node2 (\<lambda>t2. load_mnode timestamp node (\<lambda>t.
       if t2 < t then push_choices r w index2 node2 l k else push_choices r w index node l k))))"

definition get_push_index :: "nat \<Rightarrow> nat \<Rightarrow> thread_ms \<Rightarrow>
    (nat \<Rightarrow> addr option \<Rightarrow> thread_ms \<Rightarrow> (mstack, 'a) prog) \<Rightarrow> (mstack, 'a) prog" where
  "get_push_index num_choices w l k =
     random_index_ms w l (\<lambda>index l. load_top index (\<lambda>node.
     if node = None then k index node l else push_choices (num_choices - 1) w index node l k))"

fun pop_choices :: "nat \<Rightarrow> nat \<Rightarrow> nat \<Rightarrow> addr option \<Rightarrow> thread_ms \<Rightarrow>
    (nat \<Rightarrow> addr option \<Rightarrow> thread_ms \<Rightarrow> (mstack, 'a) prog) \<Rightarrow> (mstack, 'a) prog" where
  "pop_choices 0 w index node l k = k index node l"
| "pop_choices (Suc r) w index node l k =
     random_index_ms w l (\<lambda>index2 l. load_top index2 (\<lambda>node2.
     if node = None then pop_choices r w index2 node2 l k
     else if node2 = None then pop_choices r w index node l k
     else load_mnode timestamp node2 (\<lambda>t2. load_mnode timestamp node (\<lambda>t.
       if t2 > t then pop_choices r w index2 node2 l k else pop_choices r w index node l k))))"

definition get_pop_index :: "nat \<Rightarrow> nat \<Rightarrow> thread_ms \<Rightarrow>
    (nat \<Rightarrow> addr option \<Rightarrow> thread_ms \<Rightarrow> (mstack, 'a) prog) \<Rightarrow> (mstack, 'a) prog" where
  "get_pop_index num_choices w l k =
     random_index_ms w l (\<lambda>index l. load_top index (\<lambda>node. pop_choices (num_choices - 1) w index node l k))"

text \<open>The sub-stack an operation works on; \<open>NUM_CHOICES\<close> may be undefined (\<open>None\<close>).\<close>

definition select_push :: "nat option \<Rightarrow> nat \<Rightarrow> thread_ms \<Rightarrow>
    (nat \<Rightarrow> addr option \<Rightarrow> thread_ms \<Rightarrow> (mstack, 'a) prog) \<Rightarrow> (mstack, 'a) prog" where
  "select_push nc w l k = (case nc of Some c \<Rightarrow> get_push_index c w l k
   | None \<Rightarrow> random_index_ms w l (\<lambda>index l. load_top index (\<lambda>node. k index node l)))"

definition select_pop :: "nat option \<Rightarrow> nat \<Rightarrow> thread_ms \<Rightarrow>
    (nat \<Rightarrow> addr option \<Rightarrow> thread_ms \<Rightarrow> (mstack, 'a) prog) \<Rightarrow> (mstack, 'a) prog" where
  "select_pop nc w l k = (case nc of Some c \<Rightarrow> get_pop_index c w l k
   | None \<Rightarrow> random_index_ms w l (\<lambda>index l. load_top index (\<lambda>node. k index node l)))"

fun push_ms_loop :: "nat option \<Rightarrow> nat \<Rightarrow> nat \<Rightarrow> addr \<Rightarrow> thread_ms \<Rightarrow> (mstack, (int \<times> nat) \<times> thread_ms) prog" where
  "push_ms_loop nc w 0 new l = Stop No_fuel"
| "push_ms_loop nc w (Suc n) new l = select_push nc w l (\<lambda>index node l.
     store_mnode (mn_next_update (\<lambda>_. node)) new
     (store_mnode (timestamp_update (\<lambda>_. tsc l (tsc_reads l))) new
     (stack_cae_ms index node (Some new) (\<lambda>ok.
        if ok then Ret ((1, index), l\<lparr>tsc_reads := tsc_reads l + 1\<rparr>)
        else push_ms_loop nc w n new (count_put_fail (l\<lparr>tsc_reads := tsc_reads l + 1\<rparr>))))))"

definition push_ms :: "nat option \<Rightarrow> nat \<Rightarrow> nat \<Rightarrow> int \<Rightarrow> int \<Rightarrow> thread_ms \<Rightarrow> (mstack, (int \<times> nat) \<times> thread_ms) prog" where
  "push_ms nc w n key v l = create_node_ms key v None l (\<lambda>new l. push_ms_loop nc w n new l)"

fun pop_ms :: "nat option \<Rightarrow> nat \<Rightarrow> nat \<Rightarrow> thread_ms \<Rightarrow> (mstack, (int \<times> nat) \<times> thread_ms) prog" where
  "pop_ms nc w 0 l = Stop No_fuel"
| "pop_ms nc w (Suc n) l = select_pop nc w l (\<lambda>index node l.
     if node \<noteq> None then
       load_mnode mn_next node (\<lambda>nx. stack_cae_ms index node nx (\<lambda>ok.
         if ok then load_mnode mn_val node (\<lambda>v. Ret ((v, index), l)) else pop_ms nc w n (count_get_fail l)))
     else Ret ((0, index), count_null l))"

text \<open>
  \<open>stack-dra\<close> repeats the functions of \<open>multi-stack\<close>, which its file has copies of, but for the
  push, whose stamp comes from the node below.
\<close>

definition create_stack_dra :: "bool \<Rightarrow> nat \<Rightarrow> failure + (nat \<times> mstack)" where
  "create_stack_dra alloc_ok w = create_stack_ms alloc_ok w"

definition create_node_dra :: "int \<Rightarrow> int \<Rightarrow> addr option \<Rightarrow> thread_ms \<Rightarrow>
    (addr \<Rightarrow> thread_ms \<Rightarrow> (mstack, 'a) prog) \<Rightarrow> (mstack, 'a) prog" where
  "create_node_dra key v p l k = create_node_ms key v p l k"

definition get_push_index_dra :: "nat \<Rightarrow> nat \<Rightarrow> thread_ms \<Rightarrow>
    (nat \<Rightarrow> addr option \<Rightarrow> thread_ms \<Rightarrow> (mstack, 'a) prog) \<Rightarrow> (mstack, 'a) prog" where
  "get_push_index_dra num_choices w l k = get_push_index num_choices w l k"

definition get_pop_index_dra :: "nat \<Rightarrow> nat \<Rightarrow> thread_ms \<Rightarrow>
    (nat \<Rightarrow> addr option \<Rightarrow> thread_ms \<Rightarrow> (mstack, 'a) prog) \<Rightarrow> (mstack, 'a) prog" where
  "get_pop_index_dra num_choices w l k = get_pop_index num_choices w l k"

definition select_push_dra :: "nat option \<Rightarrow> nat \<Rightarrow> thread_ms \<Rightarrow>
    (nat \<Rightarrow> addr option \<Rightarrow> thread_ms \<Rightarrow> (mstack, 'a) prog) \<Rightarrow> (mstack, 'a) prog" where
  "select_push_dra nc w l k = (case nc of Some c \<Rightarrow> get_push_index_dra c w l k
   | None \<Rightarrow> random_index_ms w l (\<lambda>index l. load_top index (\<lambda>node. k index node l)))"

definition select_pop_dra :: "nat option \<Rightarrow> nat \<Rightarrow> thread_ms \<Rightarrow>
    (nat \<Rightarrow> addr option \<Rightarrow> thread_ms \<Rightarrow> (mstack, 'a) prog) \<Rightarrow> (mstack, 'a) prog" where
  "select_pop_dra nc w l k = (case nc of Some c \<Rightarrow> get_pop_index_dra c w l k
   | None \<Rightarrow> random_index_ms w l (\<lambda>index l. load_top index (\<lambda>node. k index node l)))"

definition stamp_dra :: "addr option \<Rightarrow> (nat \<Rightarrow> (mstack, 'a) prog) \<Rightarrow> (mstack, 'a) prog" where
  "stamp_dra node k = (if node \<noteq> None then load_mnode timestamp node (\<lambda>t. k (add64 t 1)) else k 0)"

fun push_dra_loop :: "nat option \<Rightarrow> nat \<Rightarrow> nat \<Rightarrow> addr \<Rightarrow> thread_ms \<Rightarrow> (mstack, (int \<times> nat) \<times> thread_ms) prog" where
  "push_dra_loop nc w 0 new l = Stop No_fuel"
| "push_dra_loop nc w (Suc n) new l = select_push_dra nc w l (\<lambda>index node l.
     store_mnode (mn_next_update (\<lambda>_. node)) new
     (stamp_dra node (\<lambda>t. store_mnode (timestamp_update (\<lambda>_. t)) new
     (stack_cae_ms index node (Some new) (\<lambda>ok.
        if ok then Ret ((1, index), l) else push_dra_loop nc w n new (count_put_fail l))))))"

definition push_dra :: "nat option \<Rightarrow> nat \<Rightarrow> nat \<Rightarrow> int \<Rightarrow> int \<Rightarrow> thread_ms \<Rightarrow> (mstack, (int \<times> nat) \<times> thread_ms) prog" where
  "push_dra nc w n key v l = create_node_dra key v None l (\<lambda>new l. push_dra_loop nc w n new l)"

fun pop_dra :: "nat option \<Rightarrow> nat \<Rightarrow> nat \<Rightarrow> thread_ms \<Rightarrow> (mstack, (int \<times> nat) \<times> thread_ms) prog" where
  "pop_dra nc w 0 l = Stop No_fuel"
| "pop_dra nc w (Suc n) l = select_pop_dra nc w l (\<lambda>index node l.
     if node \<noteq> None then
       load_mnode mn_next node (\<lambda>nx. stack_cae_ms index node nx (\<lambda>ok.
         if ok then load_mnode mn_val node (\<lambda>v. Ret ((v, index), l)) else pop_dra nc w n (count_get_fail l)))
     else Ret ((0, index), count_null l))"

lemma dra_copies:
  "create_node_dra key v p l k' = create_node_ms key v p l k'"
  "select_push_dra nc w l k = select_push nc w l k"
  "select_pop_dra nc w l k = select_pop nc w l k"
  by (simp_all add: create_node_dra_def select_push_dra_def select_push_def select_pop_dra_def
    select_pop_def get_push_index_dra_def get_pop_index_dra_def split: option.split)

lemma pop_dra_copy: "pop_dra nc w n l = pop_ms nc w n l"
  by (induction n arbitrary: l) (simp_all add: dra_copies cong: if_cong)

text \<open>\<open>stack_size\<close>: \<open>r\<close> sub-stacks from \<open>i\<close> on are still to be counted.\<close>

fun mstack_size_node :: "nat \<Rightarrow> addr option \<Rightarrow> nat \<Rightarrow> (nat \<Rightarrow> (mstack, 'a) prog) \<Rightarrow> (mstack, 'a) prog" where
  "mstack_size_node n None sz k = k sz"
| "mstack_size_node 0 (Some a) sz k = Stop No_fuel"
| "mstack_size_node (Suc n) (Some a) sz k =
     load_mnode mn_next (Some a) (\<lambda>p. mstack_size_node n p (add64 sz 1) k)"

fun mstack_size_loop :: "nat \<Rightarrow> nat \<Rightarrow> nat \<Rightarrow> nat \<Rightarrow> (mstack, nat) prog" where
  "mstack_size_loop N 0 i sz = Ret sz"
| "mstack_size_loop N (Suc r) i sz =
     load_top i (\<lambda>p. mstack_size_node N p sz (\<lambda>sz. mstack_size_loop N r (i + 1) sz))"

definition stack_size_ms :: "nat \<Rightarrow> nat \<Rightarrow> (mstack, nat) prog" where
  "stack_size_ms w N = mstack_size_loop N w 0 0"

definition stack_size_dra :: "nat \<Rightarrow> nat \<Rightarrow> (mstack, nat) prog" where
  "stack_size_dra w N = stack_size_ms w N"

fun mstack_op :: "bool \<Rightarrow> nat option \<Rightarrow> nat \<Rightarrow> nat \<Rightarrow> stack_op \<Rightarrow> thread_ms \<Rightarrow> (mstack, (int \<times> nat) \<times> thread_ms) prog" where
  "mstack_op dra nc w n (Push key v) l = (if dra then push_dra nc w n key v l else push_ms nc w n key v l)"
| "mstack_op dra nc w n Pop l = (if dra then pop_dra nc w n l else pop_ms nc w n l)"

section \<open>The contract of the array of stacks\<close>

text \<open>
  The part of the invariant that is not in the contract: the width, and for \<open>stack-dra\<close> that the
  stamp of a linked node is the number of nodes below it.
\<close>

definition ms_extra :: "nat \<Rightarrow> bool \<Rightarrow> mstack \<times> (stack_op, int \<times> nat) history \<Rightarrow> bool" where
  "ms_extra w dra s \<longleftrightarrow> 0 < w \<and> length (tops_array (fst s)) = w \<and>
     (dra \<longrightarrow> (\<forall>a. sh_cell (shadow (snd s)) a \<noteq> None \<longrightarrow>
        timestamp (mnode_at (Some a) (fst s)) = sh_depth (shadow (snd s)) a mod U64))"

definition same_width :: "mstack \<Rightarrow> mstack \<Rightarrow> bool" where
  "same_width s t \<longleftrightarrow> length (tops_array t) = length (tops_array s)"

interpretation ms: stack_array w True opss "\<lambda>s j. tops_array s ! j" mnodes mn_val mn_next "ms_extra w dra" same_width
  for w opss dra
  by unfold_locales (simp_all add: same_width_def)

abbreviation inv_ms :: "nat \<Rightarrow> bool \<Rightarrow> stack_op list list \<Rightarrow> mstack \<times> (stack_op, int \<times> nat) history \<Rightarrow> bool" where
  "inv_ms w dra opss \<equiv> stack_array.inv w True opss (\<lambda>s j. tops_array s ! j) mnodes mn_val mn_next (ms_extra w dra)"

abbreviation ord_ms :: "nat \<Rightarrow> mstack \<Rightarrow> mstack \<Rightarrow> bool" where
  "ord_ms \<equiv> stack_array.ord mnodes same_width"

abbreviation grd_ms :: "nat \<Rightarrow> mstack \<Rightarrow> mstack \<Rightarrow> bool" where
  "grd_ms \<equiv> stack_array.grd mnodes same_width"

abbreviation own_ms where
  "own_ms \<equiv> stack_array.own_node mnodes mn_val"

abbreviation seen_ms where
  "seen_ms \<equiv> stack_array.seen_top"

abbreviation safe_ms where
  "safe_ms T w dra opss i Q \<equiv> safe (\<lambda>_. True) T (lin_rely (inv_ms w dra opss) ord_ms i)
     (lin_guar (inv_ms w dra opss) grd_ms opss i) Q"

lemma ms_index: "inv_ms w dra opss (s, H) \<Longrightarrow> j < w \<Longrightarrow> j < length (tops_array s)"
  using ms.inv_E [of w opss dra "(s, H)"] by (simp add: ms_extra_def)

lemma ms_width: "inv_ms w dra opss (s, H) \<Longrightarrow> 0 < w"
  using ms.inv_E [of w opss dra "(s, H)"] by (simp add: ms_extra_def)

text \<open>Drawing random numbers leaves a thread's name and memory alone.\<close>

definition same_owner :: "thread_ms \<Rightarrow> thread_ms \<Rightarrow> bool" where
  "same_owner l l' \<longleftrightarrow> thread_id l' = thread_id l \<and> alloc_next l' = alloc_next l"

lemma same_owner_refl [simp]: "same_owner l l"
  by (simp add: same_owner_def)

lemma same_owner_trans: "same_owner l l' \<Longrightarrow> same_owner l' l'' \<Longrightarrow> same_owner l l''"
  by (simp add: same_owner_def)

lemma random_index_safe:
  assumes "0 < w" and "\<And>j l'. j < w \<Longrightarrow> same_owner l l' \<Longrightarrow> safe A T R G Q (k j l') s"
  shows "safe A T R G Q (random_index_ms w l k) s"
  unfolding random_index_ms_def by (rule draw_cases) (use assms in \<open>auto simp: same_owner_def\<close>)

lemma load_top_safe:
  assumes J: "inv_ms w dra opss (s, H)" and j: "j < w" and HB: "hist_rely i HB H"
    and k: "\<And>t H'. inv_ms w dra opss (t, H') \<Longrightarrow> ord_ms i s t \<Longrightarrow> hist_rely i H H' \<Longrightarrow>
      seen_ms i HB H' j (tops_array t ! j) \<Longrightarrow> safe_ms T w dra opss i Q (k (tops_array t ! j)) (t, H')"
  shows "safe_ms T w dra opss i Q (load_top j k) (s, H)"
  unfolding load_top_def
  apply (rule lin_checked, rule J, erule ms_index, rule j)
  apply (rule lin_load, rule J, rule ms.grd_refl)
  subgoal premises p for t H'
    by (rule k [OF p(1-3)]) (use ms.seen_now [OF p(1) j hist_rely_trans [OF HB p(3)]] in simp)
  done

lemma load_linked_safe:
  assumes J: "inv_ms w dra opss (s, H)" and a: "ms.linked_in H a"
    and k: "\<And>t H' n. inv_ms w dra opss (t, H') \<Longrightarrow> ord_ms i s t \<Longrightarrow> hist_rely i H H' \<Longrightarrow> mnodes t a = Some n \<Longrightarrow>
      safe_ms T w dra opss i Q (k (f n)) (t, H')"
  shows "safe_ms T w dra opss i Q (load_mnode f (Some a) k) (s, H)"
proof -
  have here: "mnodes t a \<noteq> None" if "ord_ms i s t" for t
    using ms.ord_mem [OF that ms.arr_linked_alloc [OF J a]] .
  show ?thesis
    unfolding load_mnode_def
    apply (rule lin_checked, rule J)
    subgoal for t using here [of t] by simp
    apply (rule lin_load, rule J, rule ms.grd_refl)
    subgoal premises p for t H'
      using here [OF p(2)] k [OF p(1-3)] by (auto simp: mnode_at_def)
    done
qed

section \<open>Choosing a sub-stack\<close>

lemma push_choices_safe:
  assumes "inv_ms w dra opss (s, H)" and "hist_rely i HB H" and "seen_ms i HB H index (Some a)" and "index < w"
    and "\<And>t H' j p l'. inv_ms w dra opss (t, H') \<Longrightarrow> ord_ms i s t \<Longrightarrow> hist_rely i H H' \<Longrightarrow> j < w \<Longrightarrow>
      seen_ms i HB H' j p \<Longrightarrow> same_owner l l' \<Longrightarrow> safe_ms T w dra opss i Q (k j p l') (t, H')"
  shows "safe_ms T w dra opss i Q (push_choices r w index (Some a) l k) (s, H)"
  using assms
proof (induction r arbitrary: s H index a l)
  case 0
  then show ?case by (simp add: ms.ord_refl)
next
  case (Suc r)
  let ?safe = "safe_ms T w dra opss i Q"
  note K = Suc.prems(5)
  have go: "?safe (push_choices r w j (Some b) l' k) (t, H')"
    if "inv_ms w dra opss (t, H')" "ord_ms i s t" "hist_rely i H H'" "j < w" "seen_ms i HB H' j (Some b)" "same_owner l l'"
    for t H' j b l'
    by (rule Suc.IH [OF that(1) hist_rely_trans [OF Suc.prems(2) that(3)] that(5,4)])
      (rule K, auto intro: ms.ord_trans [OF that(2)] hist_rely_trans [OF that(3)] same_owner_trans [OF that(6)])
  show ?case
    unfolding push_choices.simps
  proof (rule random_index_safe [OF ms_width [OF Suc.prems(1)]])
    fix j l' assume j: "j < w" "same_owner l l'"
    show "?safe (load_top j (\<lambda>node2. if node2 = None then k j node2 l'
        else load_mnode timestamp node2 (\<lambda>t2. load_mnode timestamp (Some a) (\<lambda>t.
          if t2 < t then push_choices r w j node2 l' k else push_choices r w index (Some a) l' k)))) (s, H)"
    proof (rule load_top_safe [OF Suc.prems(1) j(1) Suc.prems(2)])
      fix t H' assume t: "inv_ms w dra opss (t, H')" "ord_ms i s t" "hist_rely i H H'" "seen_ms i HB H' j (tops_array t ! j)"
      note old = ms.seen_later [OF Suc.prems(3) t(3)]
      show "?safe (if tops_array t ! j = None then k j (tops_array t ! j) l'
        else load_mnode timestamp (tops_array t ! j) (\<lambda>t2. load_mnode timestamp (Some a) (\<lambda>t'.
          if t2 < t' then push_choices r w j (tops_array t ! j) l' k else push_choices r w index (Some a) l' k))) (t, H')"
      proof (cases "tops_array t ! j")
        case None
        then show ?thesis using K [OF t(1-3) j(1) _ j(2)] t(4) by simp
      next
        case (Some b)
        have "?safe (load_mnode timestamp (Some b) (\<lambda>t2. load_mnode timestamp (Some a) (\<lambda>t'.
          if t2 < t' then push_choices r w j (Some b) l' k else push_choices r w index (Some a) l' k))) (t, H')"
        proof (rule load_linked_safe [OF t(1) ms.seen_linked [OF t(4) [unfolded Some]]])
          fix u K1 n assume u: "inv_ms w dra opss (u, K1)" "ord_ms i t u" "hist_rely i H' K1"
          show "?safe (load_mnode timestamp (Some a) (\<lambda>t'.
            if timestamp n < t' then push_choices r w j (Some b) l' k else push_choices r w index (Some a) l' k)) (u, K1)"
          proof (rule load_linked_safe [OF u(1) ms.seen_linked [OF ms.seen_later [OF old u(3)]]])
            fix u' K' n' assume u': "inv_ms w dra opss (u', K')" "ord_ms i u u'" "hist_rely i K1 K'"
            have o: "ord_ms i s u'" and h: "hist_rely i H K'" "hist_rely i H' K'"
              using ms.ord_trans [OF ms.ord_trans [OF t(2) u(2)] u'(2)] hist_rely_trans [OF t(3)]
                hist_rely_trans [OF u(3) u'(3)] by blast+
            show "?safe (if timestamp n < timestamp n' then push_choices r w j (Some b) l' k
              else push_choices r w index (Some a) l' k) (u', K')"
              using go [OF u'(1) o h(1) j(1) _ j(2), of b] ms.seen_later [OF t(4) [unfolded Some] h(2)]
                go [OF u'(1) o h(1) Suc.prems(4) _ j(2), of a] ms.seen_later [OF old h(2)] by simp
          qed
        qed
        then show ?thesis using Some by (simp cong: if_cong)
      qed
    qed
  qed
qed

lemma select_push_safe:
  assumes J: "inv_ms w dra opss (s, H)"
    and k: "\<And>t H' j p l'. inv_ms w dra opss (t, H') \<Longrightarrow> ord_ms i s t \<Longrightarrow> hist_rely i H H' \<Longrightarrow> j < w \<Longrightarrow>
      seen_ms i H H' j p \<Longrightarrow> same_owner l l' \<Longrightarrow> safe_ms T w dra opss i Q (k j p l') (t, H')"
  shows "safe_ms T w dra opss i Q (select_push nc w l k) (s, H)"
proof -
  have none: "safe_ms T w dra opss i Q (random_index_ms w l (\<lambda>j l. load_top j (\<lambda>p. k j p l))) (s, H)"
  proof (rule random_index_safe [OF ms_width [OF J]])
    fix j l' assume j: "j < w" "same_owner l l'"
    show "safe_ms T w dra opss i Q (load_top j (\<lambda>p. k j p l')) (s, H)"
      by (rule load_top_safe [OF J j(1) hist_rely_refl]) (rule k, use j in auto)
  qed
  have some: "safe_ms T w dra opss i Q (get_push_index c w l k) (s, H)" for c
    unfolding get_push_index_def
  proof (rule random_index_safe [OF ms_width [OF J]])
    fix j l' assume j: "j < w" "same_owner l l'"
    show "safe_ms T w dra opss i Q (load_top j (\<lambda>p. if p = None then k j p l' else push_choices (c - 1) w j p l' k)) (s, H)"
    proof (rule load_top_safe [OF J j(1) hist_rely_refl])
      fix t H' assume t: "inv_ms w dra opss (t, H')" "ord_ms i s t" "hist_rely i H H'" "seen_ms i H H' j (tops_array t ! j)"
      have k': "safe_ms T w dra opss i Q (k j' p l'') (u, K)"
        if "inv_ms w dra opss (u, K)" "ord_ms i t u" "hist_rely i H' K" "j' < w" "seen_ms i H K j' p" "same_owner l' l''" for u K j' p l''
        by (rule k [OF that(1) ms.ord_trans [OF t(2) that(2)] hist_rely_trans [OF t(3) that(3)] that(4,5)
          same_owner_trans [OF j(2) that(6)]])
      show "safe_ms T w dra opss i Q (if tops_array t ! j = None then k j (tops_array t ! j) l'
          else push_choices (c - 1) w j (tops_array t ! j) l' k) (t, H')"
      proof (cases "tops_array t ! j")
        case None
        then show ?thesis using k' [OF t(1) ms.ord_refl hist_rely_refl j(1) t(4)] by simp
      next
        case (Some a)
        show ?thesis using push_choices_safe [OF t(1,3) t(4) [unfolded Some] j(1) k'] Some by simp
      qed
    qed
  qed
  show ?thesis using none some by (simp add: select_push_def split: option.splits)
qed

text \<open>A pop that has found a node keeps one; one that has not may report empty at its last load.\<close>

lemma pop_choices_some_safe:
  assumes "inv_ms w dra opss (s, H)" and "hist_rely i HB H" and "seen_ms i HB H index (Some a)" and "index < w"
    and "\<And>t H' j b l'. inv_ms w dra opss (t, H') \<Longrightarrow> ord_ms i s t \<Longrightarrow> hist_rely i H H' \<Longrightarrow> j < w \<Longrightarrow>
      seen_ms i HB H' j (Some b) \<Longrightarrow> same_owner l l' \<Longrightarrow> safe_ms T w dra opss i Q (k j (Some b) l') (t, H')"
  shows "safe_ms T w dra opss i Q (pop_choices r w index (Some a) l k) (s, H)"
  using assms
proof (induction r arbitrary: s H index a l)
  case 0
  then show ?case by (simp add: ms.ord_refl)
next
  case (Suc r)
  let ?safe = "safe_ms T w dra opss i Q"
  note K = Suc.prems(5)
  have go: "?safe (pop_choices r w j (Some b) l' k) (t, H')"
    if "inv_ms w dra opss (t, H')" "ord_ms i s t" "hist_rely i H H'" "j < w" "seen_ms i HB H' j (Some b)" "same_owner l l'"
    for t H' j b l'
    by (rule Suc.IH [OF that(1) hist_rely_trans [OF Suc.prems(2) that(3)] that(5,4)])
      (rule K, auto intro: ms.ord_trans [OF that(2)] hist_rely_trans [OF that(3)] same_owner_trans [OF that(6)])
  have "?safe (random_index_ms w l (\<lambda>j l'. load_top j (\<lambda>node2. if node2 = None then pop_choices r w index (Some a) l' k
        else load_mnode timestamp node2 (\<lambda>t2. load_mnode timestamp (Some a) (\<lambda>t.
          if t2 > t then pop_choices r w j node2 l' k else pop_choices r w index (Some a) l' k))))) (s, H)"
  proof (rule random_index_safe [OF ms_width [OF Suc.prems(1)]])
    fix j l' assume j: "j < w" "same_owner l l'"
    show "?safe (load_top j (\<lambda>node2. if node2 = None then pop_choices r w index (Some a) l' k
        else load_mnode timestamp node2 (\<lambda>t2. load_mnode timestamp (Some a) (\<lambda>t.
          if t2 > t then pop_choices r w j node2 l' k else pop_choices r w index (Some a) l' k)))) (s, H)"
    proof (rule load_top_safe [OF Suc.prems(1) j(1) Suc.prems(2)])
      fix t H' assume t: "inv_ms w dra opss (t, H')" "ord_ms i s t" "hist_rely i H H'" "seen_ms i HB H' j (tops_array t ! j)"
      note old = ms.seen_later [OF Suc.prems(3) t(3)]
      show "?safe (if tops_array t ! j = None then pop_choices r w index (Some a) l' k
        else load_mnode timestamp (tops_array t ! j) (\<lambda>t2. load_mnode timestamp (Some a) (\<lambda>t'.
          if t2 > t' then pop_choices r w j (tops_array t ! j) l' k else pop_choices r w index (Some a) l' k))) (t, H')"
      proof (cases "tops_array t ! j")
        case None
        then show ?thesis using go [OF t(1-3) Suc.prems(4) old j(2)] by simp
      next
        case (Some b)
        have "?safe (load_mnode timestamp (Some b) (\<lambda>t2. load_mnode timestamp (Some a) (\<lambda>t'.
          if t2 > t' then pop_choices r w j (Some b) l' k else pop_choices r w index (Some a) l' k))) (t, H')"
        proof (rule load_linked_safe [OF t(1) ms.seen_linked [OF t(4) [unfolded Some]]])
          fix u K1 n assume u: "inv_ms w dra opss (u, K1)" "ord_ms i t u" "hist_rely i H' K1"
          show "?safe (load_mnode timestamp (Some a) (\<lambda>t'.
            if timestamp n > t' then pop_choices r w j (Some b) l' k else pop_choices r w index (Some a) l' k)) (u, K1)"
          proof (rule load_linked_safe [OF u(1) ms.seen_linked [OF ms.seen_later [OF old u(3)]]])
            fix u' K' n' assume u': "inv_ms w dra opss (u', K')" "ord_ms i u u'" "hist_rely i K1 K'"
            have o: "ord_ms i s u'" and h: "hist_rely i H K'" "hist_rely i H' K'"
              using ms.ord_trans [OF ms.ord_trans [OF t(2) u(2)] u'(2)] hist_rely_trans [OF t(3)]
                hist_rely_trans [OF u(3) u'(3)] by blast+
            show "?safe (if timestamp n > timestamp n' then pop_choices r w j (Some b) l' k
              else pop_choices r w index (Some a) l' k) (u', K')"
              using go [OF u'(1) o h(1) j(1) _ j(2), of b] ms.seen_later [OF t(4) [unfolded Some] h(2)]
                go [OF u'(1) o h(1) Suc.prems(4) _ j(2), of a] ms.seen_later [OF old h(2)] by simp
          qed
        qed
        then show ?thesis using Some by (simp cong: if_cong)
      qed
    qed
  qed
  then show ?case by simp
qed

lemma load_top_point_safe:
  assumes J: "inv_ms w dra opss (s, H)" and j: "j < w" and HB: "hist_rely i HB H"
    and k: "\<And>t H'. inv_ms w dra opss (t, H') \<Longrightarrow> ord_ms i s t \<Longrightarrow> hist_rely i H H' \<Longrightarrow>
      seen_ms i HB H' j (tops_array t ! j) \<Longrightarrow> \<exists>X. hist_step opss i H' (H' @ X) \<and> inv_ms w dra opss (t, H' @ X) \<and>
        safe_ms T w dra opss i Q (k (tops_array t ! j)) (t, H' @ X)"
  shows "safe_ms T w dra opss i Q (load_top j k) (s, H)"
  unfolding load_top_def
  apply (rule lin_checked, rule J, erule ms_index, rule j)
  apply (rule lin_load_point, rule J)
  subgoal premises p for t H'
    using k [OF p(1-3)] ms.seen_now [OF p(1) j hist_rely_trans [OF HB p(3)]] ms.grd_refl [of i t] by auto
  done

lemma pop_choices_safe:
  assumes "inv_ms w dra opss (s, H)" and "hist_rely i HB H" and "seen_ms i HB H index (tops_array s ! index)" and "index < w"
    and k: "\<And>t H' j b l'. inv_ms w dra opss (t, H') \<Longrightarrow> ord_ms i s t \<Longrightarrow> hist_rely i H H' \<Longrightarrow> j < w \<Longrightarrow>
      seen_ms i HB H' j (Some b) \<Longrightarrow> same_owner l l' \<Longrightarrow> safe_ms T w dra opss i Q (k j (Some b) l') (t, H')"
    and none: "\<And>t H' j l'. inv_ms w dra opss (t, H') \<Longrightarrow> ord_ms i s t \<Longrightarrow> hist_rely i H H' \<Longrightarrow> j < w \<Longrightarrow>
      tops_array t ! j = None \<Longrightarrow> same_owner l l' \<Longrightarrow> \<exists>X. hist_step opss i H' (H' @ X) \<and> inv_ms w dra opss (t, H' @ X) \<and>
        safe_ms T w dra opss i Q (k j None l') (t, H' @ X)"
  shows "\<exists>X. hist_step opss i H (H @ X) \<and> inv_ms w dra opss (s, H @ X) \<and>
    safe_ms T w dra opss i Q (pop_choices r w index (tops_array s ! index) l k) (s, H @ X)"
  using assms
proof (induction r arbitrary: s H index l)
  case 0
  show ?case
  proof (cases "tops_array s ! index")
    case None
    then show ?thesis using 0(6) [OF 0(1) ms.ord_refl hist_rely_refl 0(4)] by simp
  next
    case (Some a)
    then show ?thesis
      using 0(5) [OF 0(1) ms.ord_refl hist_rely_refl 0(4), of a l] 0(1,3) by (intro exI [of _ "[]"]) simp
  qed
next
  case (Suc r)
  let ?safe = "safe_ms T w dra opss i Q"
  show ?case
  proof (cases "tops_array s ! index")
    case (Some a)
    have "?safe (pop_choices (Suc r) w index (Some a) l k) (s, H)"
      by (rule pop_choices_some_safe [OF Suc.prems(1,2) _ Suc.prems(4)]) (use Suc.prems(3) Some in simp, rule Suc.prems(5))
    then show ?thesis using Suc.prems(1) Some by (intro exI [of _ "[]"]) simp
  next
    case None
    have "?safe (random_index_ms w l (\<lambda>j l'. load_top j (\<lambda>node2. pop_choices r w j node2 l' k))) (s, H)"
    proof (rule random_index_safe [OF ms_width [OF Suc.prems(1)]])
      fix j l' assume j: "j < w" "same_owner l l'"
      show "?safe (load_top j (\<lambda>node2. pop_choices r w j node2 l' k)) (s, H)"
      proof (rule load_top_point_safe [OF Suc.prems(1) j(1) Suc.prems(2)])
        fix t H' assume t: "inv_ms w dra opss (t, H')" "ord_ms i s t" "hist_rely i H H'" "seen_ms i HB H' j (tops_array t ! j)"
        show "\<exists>X. hist_step opss i H' (H' @ X) \<and> inv_ms w dra opss (t, H' @ X) \<and>
            ?safe (pop_choices r w j (tops_array t ! j) l' k) (t, H' @ X)"
        proof (rule Suc.IH [OF t(1) hist_rely_trans [OF Suc.prems(2) t(3)] t(4) j(1)])
          fix u K j' b l'' assume u: "inv_ms w dra opss (u, K)" "ord_ms i t u" "hist_rely i H' K" "j' < w" "same_owner l' l''"
          note m = ms.ord_trans [OF t(2) u(2)] hist_rely_trans [OF t(3) u(3)] u(4)
          show "?safe (k j' (Some b) l'') (u, K)" if "seen_ms i HB K j' (Some b)"
            by (rule Suc.prems(5) [OF u(1) m that same_owner_trans [OF j(2) u(5)]])
          show "\<exists>X. hist_step opss i K (K @ X) \<and> inv_ms w dra opss (u, K @ X) \<and> ?safe (k j' None l'') (u, K @ X)"
            if "tops_array u ! j' = None"
            by (rule Suc.prems(6) [OF u(1) m that same_owner_trans [OF j(2) u(5)]])
        qed
      qed
    qed
    then show ?thesis using Suc.prems(1) None by (intro exI [of _ "[]"]) simp
  qed
qed

lemma select_pop_safe:
  assumes J: "inv_ms w dra opss (s, H)"
    and k: "\<And>t H' j b l'. inv_ms w dra opss (t, H') \<Longrightarrow> ord_ms i s t \<Longrightarrow> hist_rely i H H' \<Longrightarrow> j < w \<Longrightarrow>
      seen_ms i H H' j (Some b) \<Longrightarrow> same_owner l l' \<Longrightarrow> safe_ms T w dra opss i Q (k j (Some b) l') (t, H')"
    and none: "\<And>t H' j l'. inv_ms w dra opss (t, H') \<Longrightarrow> ord_ms i s t \<Longrightarrow> hist_rely i H H' \<Longrightarrow> j < w \<Longrightarrow>
      tops_array t ! j = None \<Longrightarrow> same_owner l l' \<Longrightarrow> \<exists>X. hist_step opss i H' (H' @ X) \<and> inv_ms w dra opss (t, H' @ X) \<and>
        safe_ms T w dra opss i Q (k j None l') (t, H' @ X)"
  shows "safe_ms T w dra opss i Q (select_pop nc w l k) (s, H)"
proof -
  have main: "safe_ms T w dra opss i Q (random_index_ms w l (\<lambda>j l. load_top j (\<lambda>p. pop_choices c w j p l k))) (s, H)" for c
  proof (rule random_index_safe [OF ms_width [OF J]])
    fix j l' assume j: "j < w" "same_owner l l'"
    show "safe_ms T w dra opss i Q (load_top j (\<lambda>p. pop_choices c w j p l' k)) (s, H)"
    proof (rule load_top_point_safe [OF J j(1) hist_rely_refl])
      fix t H' assume t: "inv_ms w dra opss (t, H')" "ord_ms i s t" "hist_rely i H H'" "seen_ms i H H' j (tops_array t ! j)"
      show "\<exists>X. hist_step opss i H' (H' @ X) \<and> inv_ms w dra opss (t, H' @ X) \<and>
          safe_ms T w dra opss i Q (pop_choices c w j (tops_array t ! j) l' k) (t, H' @ X)"
      proof (rule pop_choices_safe [OF t(1,3,4) j(1)])
        fix u K j' b l'' assume u: "inv_ms w dra opss (u, K)" "ord_ms i t u" "hist_rely i H' K" "j' < w" "same_owner l' l''"
        note m = ms.ord_trans [OF t(2) u(2)] hist_rely_trans [OF t(3) u(3)] u(4)
        show "safe_ms T w dra opss i Q (k j' (Some b) l'') (u, K)" if "seen_ms i H K j' (Some b)"
          by (rule k [OF u(1) m that same_owner_trans [OF j(2) u(5)]])
        show "\<exists>X. hist_step opss i K (K @ X) \<and> inv_ms w dra opss (u, K @ X) \<and>
            safe_ms T w dra opss i Q (k j' None l'') (u, K @ X)" if "tops_array u ! j' = None"
          by (rule none [OF u(1) m that same_owner_trans [OF j(2) u(5)]])
      qed
    qed
  qed
  show ?thesis using main [of 0] main by (simp add: select_pop_def get_pop_index_def split: option.splits)
qed

section \<open>The operations\<close>

definition ms_local :: "nat \<Rightarrow> thread_ms \<Rightarrow> (stack_op \<times> int \<times> nat) list \<Rightarrow> mstack \<Rightarrow> bool" where
  "ms_local i l rs s \<longleftrightarrow> thread_id l = i \<and> alloc_next l = pushes rs"

abbreviation done_ms where
  "done_ms w dra opss i P op \<equiv> \<lambda>(r, l) (s, H). inv_ms w dra opss (s, H) \<and> ms_local i l (P @ [(op, r)]) s \<and>
     proj i H = P @ [(op, r)]"

text \<open>Writing a field of the node that is about to be pushed.\<close>

lemma ms_own_write:
  assumes J: "inv_ms w dra opss (s, H)" and a: "a = Addr i (pushes (proj i H))"
  shows "inv_ms w dra opss (s\<lparr>mnodes := (mnodes s)(a \<mapsto> n)\<rparr>, H) \<and> grd_ms i s (s\<lparr>mnodes := (mnodes s)(a \<mapsto> n)\<rparr>)"
proof (rule ms.own_write [OF J a])
  have "sh_cell (shadow H) a = None" using shadow_unpushed [of i H "pushes (proj i H)"] a by simp
  then have "timestamp (mnode_at (Some b) (s\<lparr>mnodes := (mnodes s)(a \<mapsto> n)\<rparr>)) = timestamp (mnode_at (Some b) s)"
    if "sh_cell (shadow H) b \<noteq> None" for b
    using that by (auto simp: mnode_at_def)
  then show "ms_extra w dra (s\<lparr>mnodes := (mnodes s)(a \<mapsto> n)\<rparr>, H)"
    using ms.inv_E [OF J] unfolding ms_extra_def by simp
qed (simp_all add: same_width_def)

lemma store_own_safe:
  assumes J: "inv_ms w dra opss (s, H)" and P: "proj i H = P" and a: "own_ms i a v P s" "mnodes s a = Some n"
    and f: "mn_val (f n) = mn_val n"
    and k: "\<And>t H'. inv_ms w dra opss (t, H') \<Longrightarrow> hist_rely i H H' \<Longrightarrow> own_ms i a v P t \<Longrightarrow> mnodes t a = Some (f n) \<Longrightarrow>
      safe_ms T w dra opss i Q k (t, H')"
  shows "safe_ms T w dra opss i Q (store_mnode f a k) (s, H)"
proof -
  have own: "a = Addr i (pushes P)" "mn_val n = v" using a by (simp_all add: ms.own_node_def)
  have here: "mnodes t a = Some n" if "ord_ms i s t" for t using that a(2) own(1) by (simp add: ms.ord_def)
  show ?thesis
    unfolding store_mnode_def
    apply (rule lin_checked, rule J)
    subgoal for t using here [of t] by simp
    apply (rule lin_store, rule J)
    subgoal premises p for t H'
    proof -
      let ?t = "t\<lparr>mnodes := (mnodes t)(a \<mapsto> f (mnode_at (Some a) t))\<rparr>"
      have at: "f (mnode_at (Some a) t) = f n" using here [OF p(2)] by (simp add: mnode_at_def)
      have "inv_ms w dra opss (?t, H') \<and> grd_ms i t ?t" by (rule ms_own_write [OF p(1)]) (use own p(4) P in simp)
      moreover have "own_ms i a v P ?t" using own f at by (simp add: ms.own_node_def)
      ultimately show ?thesis
        using k [of ?t H'] p(3) at by (intro exI [of _ "[]"]) simp
    qed
    done
qed

definition stamp_of :: "(stack_op, int \<times> nat) history \<Rightarrow> addr option \<Rightarrow> nat" where
  "stamp_of H p = (case p of None \<Rightarrow> 0 | Some b \<Rightarrow> (sh_depth (shadow H) b + 1) mod U64)"

lemma stamp_of_later: "(\<And>b. p = Some b \<Longrightarrow> ms.linked_in H b) \<Longrightarrow> hist_rely i H H' \<Longrightarrow> stamp_of H' p = stamp_of H p"
  using shadow_depth_mono [of H] by (auto simp: stamp_of_def hist_rely_def ms.linked_in_def split: option.splits)

lemma seen_stamp_later: "seen_ms i HB H j p \<Longrightarrow> hist_rely i H H' \<Longrightarrow> stamp_of H' p = stamp_of H p"
  by (rule stamp_of_later) (auto simp: ms.seen_top_def)

lemma stamp_of_top:
  assumes "inv_ms w dra opss (s, H)" and "j < w"
  shows "stamp_of H (tops_array s ! j) = length (sh_stack (shadow H) j) mod U64"
proof -
  have "depths (shadow H) (sh_stack (shadow H) j)" by (rule shadow_depths)
  moreover have "tops_array s ! j = top_of (sh_stack (shadow H) j)" using cellsD(3) [OF ms.inv_cells [OF assms(1)] assms(2)] .
  ultimately show ?thesis by (cases "sh_stack (shadow H) j") (simp_all add: stamp_of_def)
qed

lemma push_cae_safe:
  assumes J: "inv_ms w dra opss (s, H)" and j: "j < w" and P: "proj i H = P"
    and a: "own_ms i a v P s" "mnodes s a = Some n" "mn_next n = p" and st: "dra \<longrightarrow> timestamp n = stamp_of H p"
    and seen: "seen_ms i HB H j p"
    and step: "i < length opss" "prefix (map fst P @ [Push key v]) (opss ! i)"
    and l: "thread_id l = i" "alloc_next l = pushes P + 1"
    and fail: "\<And>t H'. inv_ms w dra opss (t, H') \<Longrightarrow> ord_ms i s t \<Longrightarrow> hist_rely i H H' \<Longrightarrow> tops_array t ! j \<noteq> p \<Longrightarrow>
      safe_ms T w dra opss i (done_ms w dra opss i P (Push key v)) k (t, H')"
  shows "safe_ms T w dra opss i (done_ms w dra opss i P (Push key v))
    (stack_cae_ms j p (Some a) (\<lambda>ok. if ok then Ret ((1, j), l) else k)) (s, H)"
  unfolding stack_cae_ms_def
  apply (rule lin_checked, rule J, erule ms_index, rule j)
  apply (rule lin_cae, rule J, rule ms.grd_refl)
  subgoal premises q for t H'
  proof -
    let ?t = "t\<lparr>tops_array := (tops_array t)[j := Some a]\<rparr>" and ?X = "[(i, Push key v, 1, j)]"
    have len: "j < length (tops_array t)" by (rule ms_index [OF q(1) j])
    have own: "a = Addr i (pushes P)" using a(1) by (simp add: ms.own_node_def)
    then have at: "mnodes t a = Some n" using q(2) a(2) by (simp add: ms.ord_def)
    have P': "proj i H' = P" using q(4) P by simp
    have step': "prefix (map fst (proj i H') @ [Push key v]) (opss ! i)" using step(2) P' by simp
    have ext: "ms_extra w dra (?t, H' @ ?X)"
    proof -
      have "timestamp (mnode_at (Some b) ?t) = sh_depth (shadow (H' @ ?X)) b mod U64"
        if dra and b: "sh_cell (shadow (H' @ ?X)) b \<noteq> None" for b
      proof (cases "b = a")
        case True
        have "timestamp n = length (sh_stack (shadow H') j) mod U64"
          using st that(1) seen_stamp_later [OF seen q(3)] stamp_of_top [OF q(1) j] q(6) by simp
        then show ?thesis using True at own P' by (simp add: shadow_snoc Let_def shadow_pushes mnode_at_def)
      next
        case False
        then have "sh_cell (shadow H') b \<noteq> None"
          using b own P' by (auto simp: shadow_snoc Let_def shadow_pushes split: if_splits)
        then show ?thesis
          using ms.inv_E [OF q(1)] \<open>dra\<close> shadow_depth_mono [of H' b ?X] by (simp add: ms_extra_def mnode_at_def)
      qed
      then show ?thesis using ms.inv_E [OF q(1)] by (simp add: ms_extra_def)
    qed
    have c: "inv_ms w dra opss (?t, H' @ ?X) \<and> grd_ms i t ?t"
      by (rule ms.arr_push_commit [OF q(1) j _ at _ _ _ step(1) step' ext])
        (use ms.own_node_stable [OF a(1) q(2)] P' a(3) q(6) len in \<open>auto simp: same_width_def\<close>)
    have "safe_ms T w dra opss i (done_ms w dra opss i P (Push key v)) (Ret ((1, j), l)) (?t, H' @ ?X)"
      by (rule lin_commit_ret [where H = H']) (use c l P' in \<open>auto simp: ms_local_def\<close>)
    then show ?thesis using c step step' by (intro exI [of _ ?X]) auto
  qed
  subgoal premises q for t H' using fail [OF q(1-3,6)] by simp
  done

lemma push_ms_loop_safe:
  assumes "inv_ms w dra opss (s, H)" and "\<not> dra" and "proj i H = P" and "own_ms i a v P s"
    and "i < length opss" and "prefix (map fst P @ [Push key v]) (opss ! i)"
    and "thread_id l = i" and "alloc_next l = pushes P + 1" and "enough T opss n H"
  shows "safe_ms T w dra opss i (done_ms w dra opss i P (Push key v)) (push_ms_loop nc w n a l) (s, H)"
  using assms
proof (induction n arbitrary: s H l)
  case 0
  then show ?case using enough_0 [OF _ cellsD(1) [OF ms.inv_cells [OF 0(1)]]] by simp
next
  case (Suc n)
  let ?safe = "safe_ms T w dra opss i (done_ms w dra opss i P (Push key v))"
  show ?case
    unfolding push_ms_loop.simps
  proof (rule select_push_safe [OF Suc.prems(1)])
    fix t H' j p l'
    assume t: "inv_ms w dra opss (t, H')" "ord_ms i s t" "hist_rely i H H'" "j < w" "seen_ms i H H' j p" "same_owner l l'"
    let ?l = "l'\<lparr>tsc_reads := tsc_reads l' + 1\<rparr>"
    have P: "proj i H' = P" using hist_rely_proj [OF t(3)] Suc.prems(3) by simp
    note own = ms.own_node_stable [OF Suc.prems(4) t(2)]
    obtain n0 where n0: "mnodes t a = Some n0" using ms.own_node_mem [OF own] by blast
    show "?safe (store_mnode (mn_next_update (\<lambda>_. p)) a
       (store_mnode (timestamp_update (\<lambda>_. tsc l' (tsc_reads l'))) a
       (stack_cae_ms j p (Some a) (\<lambda>ok. if ok then Ret ((1, j), ?l) else push_ms_loop nc w n a (count_put_fail ?l))))) (t, H')"
    proof (rule store_own_safe [OF t(1) P own n0])
      fix u K assume u: "inv_ms w dra opss (u, K)" "hist_rely i H' K" "own_ms i a v P u"
        "mnodes u a = Some (n0\<lparr>mn_next := p\<rparr>)"
      have Pu: "proj i K = P" using hist_rely_proj [OF u(2)] P by simp
      show "?safe (store_mnode (timestamp_update (\<lambda>_. tsc l' (tsc_reads l'))) a
       (stack_cae_ms j p (Some a) (\<lambda>ok. if ok then Ret ((1, j), ?l) else push_ms_loop nc w n a (count_put_fail ?l)))) (u, K)"
      proof (rule store_own_safe [OF u(1) Pu u(3,4)])
        fix u' K' assume u': "inv_ms w dra opss (u', K')" "hist_rely i K K'" "own_ms i a v P u'"
          "mnodes u' a = Some (n0\<lparr>mn_next := p\<rparr>\<lparr>timestamp := tsc l' (tsc_reads l')\<rparr>)"
        have Pu': "proj i K' = P" using hist_rely_proj [OF u'(2)] Pu by simp
        have h: "hist_rely i H' K'" by (rule hist_rely_trans [OF u(2) u'(2)])
        note seen = ms.seen_later [OF t(5) h]
        show "?safe (stack_cae_ms j p (Some a) (\<lambda>ok. if ok then Ret ((1, j), ?l)
            else push_ms_loop nc w n a (count_put_fail ?l))) (u', K')"
        proof (rule push_cae_safe [OF u'(1) t(4) Pu' u'(3,4) _ _ seen Suc.prems(5,6)])
          fix x K2 assume x: "inv_ms w dra opss (x, K2)" "ord_ms i u' x" "hist_rely i K' K2" "tops_array x ! j \<noteq> p"
          have h2: "hist_rely i H K2" by (rule hist_rely_trans [OF hist_rely_trans [OF t(3) h] x(3)])
          have "enough T opss n K2"
            by (rule ms.seen_enough [OF ms.seen_later [OF seen x(3)] x(1) t(4) x(4) h2 Suc.prems(9)])
          then show "?safe (push_ms_loop nc w n a (count_put_fail ?l)) (x, K2)"
            using x ms.own_node_stable [OF u'(3) x(2)] hist_rely_proj [OF x(3)] Pu' Suc.prems t(6)
            by (intro Suc.IH) (auto simp: same_owner_def count_put_fail_def)
        qed (use Suc.prems t(6) in \<open>auto simp: same_owner_def\<close>)
      qed simp
    qed simp
  qed
qed

lemma stamp_dra_safe:
  assumes J: "inv_ms w True opss (s, H)" and seen: "seen_ms i HB H j p"
    and k: "\<And>t H'. inv_ms w True opss (t, H') \<Longrightarrow> ord_ms i s t \<Longrightarrow> hist_rely i H H' \<Longrightarrow>
      safe_ms T w True opss i Q (k (stamp_of H' p)) (t, H')"
  shows "safe_ms T w True opss i Q (stamp_dra p k) (s, H)"
proof (cases p)
  case None
  then show ?thesis using k [OF J ms.ord_refl hist_rely_refl] by (simp add: stamp_dra_def stamp_of_def)
next
  case (Some b)
  have b: "ms.linked_in H b" using seen Some by (simp add: ms.seen_top_def)
  have "safe_ms T w True opss i Q (load_mnode timestamp (Some b) (\<lambda>t. k (add64 t 1))) (s, H)"
  proof (rule load_linked_safe [OF J b])
    fix t H' n assume t: "inv_ms w True opss (t, H')" "ord_ms i s t" "hist_rely i H H'" "mnodes t b = Some n"
    have "sh_cell (shadow H') b \<noteq> None" using ms.linked_stable [OF b t(3)] by (simp add: ms.linked_in_def)
    then have "timestamp (mnode_at (Some b) t) = sh_depth (shadow H') b mod U64"
      using ms.inv_E [OF t(1)] unfolding ms_extra_def by (metis fst_conv snd_conv)
    then have "timestamp n = sh_depth (shadow H') b mod U64" using t(4) by (simp add: mnode_at_def)
    then have "add64 (timestamp n) 1 = stamp_of H' p"
      by (simp add: Some stamp_of_def add64_def mod_Suc_eq)
    then show "safe_ms T w True opss i Q (k (add64 (timestamp n) 1)) (t, H')" using k [OF t(1-3)] by simp
  qed
  then show ?thesis by (simp add: stamp_dra_def Some)
qed

lemma push_dra_loop_safe:
  assumes "inv_ms w True opss (s, H)" and "proj i H = P" and "own_ms i a v P s"
    and "i < length opss" and "prefix (map fst P @ [Push key v]) (opss ! i)"
    and "thread_id l = i" and "alloc_next l = pushes P + 1" and "enough T opss n H"
  shows "safe_ms T w True opss i (done_ms w True opss i P (Push key v)) (push_dra_loop nc w n a l) (s, H)"
  using assms
proof (induction n arbitrary: s H l)
  case 0
  then show ?case using enough_0 [OF _ cellsD(1) [OF ms.inv_cells [OF 0(1)]]] by simp
next
  case (Suc n)
  let ?safe = "safe_ms T w True opss i (done_ms w True opss i P (Push key v))"
  show ?case
    unfolding push_dra_loop.simps dra_copies
  proof (rule select_push_safe [OF Suc.prems(1)])
    fix t H' j p l'
    assume t: "inv_ms w True opss (t, H')" "ord_ms i s t" "hist_rely i H H'" "j < w" "seen_ms i H H' j p" "same_owner l l'"
    let ?rest = "\<lambda>st. store_mnode (timestamp_update (\<lambda>_. st)) a
       (stack_cae_ms j p (Some a) (\<lambda>ok. if ok then Ret ((1, j), l') else push_dra_loop nc w n a (count_put_fail l')))"
    have P: "proj i H' = P" using hist_rely_proj [OF t(3)] Suc.prems(2) by simp
    note own = ms.own_node_stable [OF Suc.prems(3) t(2)]
    obtain n0 where n0: "mnodes t a = Some n0" using ms.own_node_mem [OF own] by blast
    show "?safe (store_mnode (mn_next_update (\<lambda>_. p)) a (stamp_dra p ?rest)) (t, H')"
    proof (rule store_own_safe [OF t(1) P own n0])
      fix u K assume u: "inv_ms w True opss (u, K)" "hist_rely i H' K" "own_ms i a v P u"
        "mnodes u a = Some (n0\<lparr>mn_next := p\<rparr>)"
      note seen = ms.seen_later [OF t(5) u(2)]
      show "?safe (stamp_dra p ?rest) (u, K)"
      proof (rule stamp_dra_safe [OF u(1) seen])
        fix y Ky assume y: "inv_ms w True opss (y, Ky)" "ord_ms i u y" "hist_rely i K Ky"
        note seeny = ms.seen_later [OF seen y(3)]
        have Py: "proj i Ky = P" using hist_rely_proj [OF y(3)] hist_rely_proj [OF u(2)] P by simp
        have owny: "own_ms i a v P y" "mnodes y a = Some (n0\<lparr>mn_next := p\<rparr>)"
          using ms.own_node_stable [OF u(3) y(2)] y(2) u(3,4) by (auto simp: ms.own_node_def ms.ord_def)
        show "?safe (?rest (stamp_of Ky p)) (y, Ky)"
        proof (rule store_own_safe [OF y(1) Py owny])
          fix u' K' assume u': "inv_ms w True opss (u', K')" "hist_rely i Ky K'" "own_ms i a v P u'"
            "mnodes u' a = Some (n0\<lparr>mn_next := p\<rparr>\<lparr>timestamp := stamp_of Ky p\<rparr>)"
          have Pu': "proj i K' = P" using hist_rely_proj [OF u'(2)] Py by simp
          have h: "hist_rely i H' K'" by (rule hist_rely_trans [OF hist_rely_trans [OF u(2) y(3)] u'(2)])
          note seen' = ms.seen_later [OF t(5) h]
          show "?safe (stack_cae_ms j p (Some a) (\<lambda>ok. if ok then Ret ((1, j), l')
              else push_dra_loop nc w n a (count_put_fail l'))) (u', K')"
          proof (rule push_cae_safe [OF u'(1) t(4) Pu' u'(3,4) _ _ seen' Suc.prems(4,5)])
            show "True \<longrightarrow> timestamp (n0\<lparr>mn_next := p\<rparr>\<lparr>timestamp := stamp_of Ky p\<rparr>) = stamp_of K' p"
              using seen_stamp_later [OF seeny u'(2)] by simp
            fix x K2 assume x: "inv_ms w True opss (x, K2)" "ord_ms i u' x" "hist_rely i K' K2" "tops_array x ! j \<noteq> p"
            have h2: "hist_rely i H K2" by (rule hist_rely_trans [OF hist_rely_trans [OF t(3) h] x(3)])
            have "enough T opss n K2"
              by (rule ms.seen_enough [OF ms.seen_later [OF seen' x(3)] x(1) t(4) x(4) h2 Suc.prems(8)])
            then show "?safe (push_dra_loop nc w n a (count_put_fail l')) (x, K2)"
              using x ms.own_node_stable [OF u'(3) x(2)] hist_rely_proj [OF x(3)] Pu' Suc.prems t(6)
              by (intro Suc.IH) (auto simp: same_owner_def count_put_fail_def)
          qed (use Suc.prems t(6) in \<open>auto simp: same_owner_def\<close>)
        qed simp
      qed
    qed simp
  qed
qed

lemma create_node_safe:
  assumes J: "inv_ms w dra opss (s, H)" and P: "proj i H = P" and l: "ms_local i l P s"
    and k: "\<And>t H' l'. inv_ms w dra opss (t, H') \<Longrightarrow> hist_rely i H H' \<Longrightarrow> own_ms i (Addr i (pushes P)) v P t \<Longrightarrow>
      thread_id l' = i \<Longrightarrow> alloc_next l' = pushes P + 1 \<Longrightarrow> safe_ms T w dra opss i Q (k (Addr i (pushes P)) l') (t, H')"
  shows "safe_ms T w dra opss i Q (create_node_ms key v None l k) (s, H)"
  unfolding create_node_ms_def Let_def
  apply (rule lin_store, rule J)
  subgoal premises p for t H'
  proof -
    let ?a = "Addr (thread_id l) (alloc_next l)"
    let ?t = "t\<lparr>mnodes := (mnodes t)(?a \<mapsto> \<lparr>mn_key = key, mn_val = v, timestamp = 0, mn_next = None\<rparr>)\<rparr>"
    have a: "?a = Addr i (pushes P)" using l by (simp add: ms_local_def)
    have c: "inv_ms w dra opss (?t, H') \<and> grd_ms i t ?t" by (rule ms_own_write [OF p(1)]) (use a p(4) P in simp)
    have "own_ms i (Addr i (pushes P)) v P ?t" using a by (simp add: ms.own_node_def)
    then have "safe_ms T w dra opss i Q (k ?a (l\<lparr>alloc_next := alloc_next l + 1\<rparr>)) (?t, H')"
      using c p(3) l unfolding a by (intro k) (auto simp: ms_local_def)
    then show ?thesis using c by (intro exI [of _ "[]"]) simp
  qed
  done

lemma pop_ms_safe:
  assumes "inv_ms w dra opss (s, H)" and "proj i H = P" and "i < length opss" and "prefix (map fst P @ [Pop]) (opss ! i)"
    and "ms_local i l P s" and "enough T opss n H"
  shows "safe_ms T w dra opss i (done_ms w dra opss i P Pop) (pop_ms nc w n l) (s, H)"
  using assms
proof (induction n arbitrary: s H l)
  case 0
  then show ?case using enough_0 [OF _ cellsD(1) [OF ms.inv_cells [OF 0(1)]]] by simp
next
  case (Suc n)
  let ?safe = "safe_ms T w dra opss i (done_ms w dra opss i P Pop)"
  show ?case
    unfolding pop_ms.simps
  proof (rule select_pop_safe [OF Suc.prems(1)])
    fix t H' j l' assume t: "inv_ms w dra opss (t, H')" "ord_ms i s t" "hist_rely i H H'" "j < w" "tops_array t ! j = None"
      "same_owner l l'"
    let ?X = "[(i, Pop, 0, j)]"
    have P: "proj i H' = P" using hist_rely_proj [OF t(3)] Suc.prems(2) by simp
    have step: "prefix (map fst (proj i H') @ [Pop]) (opss ! i)" using Suc.prems(4) P by simp
    have ext: "ms_extra w dra (t, H' @ ?X)" using ms.inv_E [OF t(1)] by (simp add: ms_extra_def shadow_snoc)
    have J: "inv_ms w dra opss (t, H' @ ?X)" by (rule ms.empty_commit [OF t(1,4) t(5) Suc.prems(3) step ext])
    have "?safe (Ret ((0, j), count_null l')) (t, H' @ ?X)"
      by (rule lin_commit_ret [where H = H'], rule J) (use P Suc.prems(5) t(6) in \<open>auto simp: ms_local_def same_owner_def count_null_def\<close>)
    then show "\<exists>X. hist_step opss i H' (H' @ X) \<and> inv_ms w dra opss (t, H' @ X) \<and>
        ?safe (if (None :: addr option) \<noteq> None then load_mnode mn_next None (\<lambda>nx. stack_cae_ms j None nx (\<lambda>ok.
          if ok then load_mnode mn_val None (\<lambda>v. Ret ((v, j), l')) else pop_ms nc w n (count_get_fail l')))
        else Ret ((0, j), count_null l')) (t, H' @ X)"
      using J step Suc.prems(3) by (intro exI [of _ ?X]) auto
  next
    fix t H' j a l' assume t: "inv_ms w dra opss (t, H')" "ord_ms i s t" "hist_rely i H H'" "j < w"
      "seen_ms i H H' j (Some a)" "same_owner l l'"
    have "?safe (load_mnode mn_next (Some a) (\<lambda>nx. stack_cae_ms j (Some a) nx (\<lambda>ok.
        if ok then load_mnode mn_val (Some a) (\<lambda>v. Ret ((v, j), l')) else pop_ms nc w n (count_get_fail l')))) (t, H')"
    proof (rule load_linked_safe [OF t(1) ms.seen_linked [OF t(5)]])
      fix u K m assume u: "inv_ms w dra opss (u, K)" "ord_ms i t u" "hist_rely i H' K" "mnodes u a = Some m"
      note seen = ms.seen_later [OF t(5) u(3)]
      have Pu: "proj i K = P" using hist_rely_proj [OF u(3)] hist_rely_proj [OF t(3)] Suc.prems(2) by simp
      have hu: "hist_rely i H K" by (rule hist_rely_trans [OF t(3) u(3)])
      show "?safe (stack_cae_ms j (Some a) (mn_next m) (\<lambda>ok.
          if ok then load_mnode mn_val (Some a) (\<lambda>v. Ret ((v, j), l')) else pop_ms nc w n (count_get_fail l'))) (u, K)"
        unfolding stack_cae_ms_def
        apply (rule lin_checked, rule u, erule ms_index, rule t)
        apply (rule lin_cae, rule u, rule ms.grd_refl)
        subgoal premises q for x K2
        proof -
          obtain m' where m': "mnodes x a = Some m'" "mn_val m' = mn_val m" "mn_next m' = mn_next m"
            by (rule ms.linked_same [OF u(1) q(1,3) ms.seen_linked [OF seen] u(4)])
          let ?x = "x\<lparr>tops_array := (tops_array x)[j := mn_next m]\<rparr>" and ?X = "[(i, Pop, mn_val m', j)]"
          have len: "j < length (tops_array x)" by (rule ms_index [OF q(1) t(4)])
          have P2: "proj i K2 = P" using q(4) Pu by simp
          have step: "prefix (map fst (proj i K2) @ [Pop]) (opss ! i)" using Suc.prems(4) P2 by simp
          have sh: "sh_cell (shadow (K2 @ ?X)) = sh_cell (shadow K2)" "sh_depth (shadow (K2 @ ?X)) = sh_depth (shadow K2)"
            by (simp_all add: shadow_snoc)
          have ext: "ms_extra w dra (?x, K2 @ ?X)"
            using ms.inv_E [OF q(1)] unfolding ms_extra_def by (simp add: sh mnode_at_def)
          have c: "inv_ms w dra opss (?x, K2 @ ?X) \<and> grd_ms i x ?x"
            by (rule ms.arr_pop_commit [OF q(1) t(4) q(6) m'(1) _ _ Suc.prems(3) step ext])
              (use m' len in \<open>auto simp: same_width_def\<close>)
          have lk: "ms.linked_in (K2 @ ?X) a"
            by (rule ms.linked_append [OF ms.linked_stable [OF ms.seen_linked [OF seen] q(3)]])
          have "?safe (load_mnode mn_val (Some a) (\<lambda>v. Ret ((v, j), l'))) (?x, K2 @ ?X)"
          proof (rule load_linked_safe [OF conjunct1 [OF c] lk])
            fix y Ky my assume y: "inv_ms w dra opss (y, Ky)" "ord_ms i ?x y" "hist_rely i (K2 @ ?X) Ky" "mnodes y a = Some my"
            have v: "mn_val my = mn_val m'"
              using ms.linked_same [OF conjunct1 [OF c] y(1,3) lk, of m'] m'(1) y(4) by auto
            have "proj i Ky = P @ [(Pop, mn_val m', j)]" using hist_rely_proj [OF y(3)] P2 by simp
            then show "?safe (Ret ((mn_val my, j), l')) (y, Ky)"
              unfolding v by (intro lin_ret, intro y(1)) (use Suc.prems(5) t(6) in \<open>auto simp: ms_local_def same_owner_def\<close>)
          qed
          then show ?thesis using c Suc.prems(3) step by (intro exI [of _ ?X]) auto
        qed
        subgoal premises q for x K2
        proof -
          have "enough T opss n K2"
            by (rule ms.seen_enough [OF ms.seen_later [OF seen q(3)] q(1) t(4) q(6) hist_rely_trans [OF hu q(3)] Suc.prems(6)])
          then have "?safe (pop_ms nc w n (count_get_fail l')) (x, K2)"
            using q Pu Suc.prems t(6) by (intro Suc.IH) (auto simp: ms_local_def same_owner_def count_get_fail_def)
          then show ?thesis by simp
        qed
        done
    qed
    then show "?safe (if Some a \<noteq> None then load_mnode mn_next (Some a) (\<lambda>nx. stack_cae_ms j (Some a) nx (\<lambda>ok.
        if ok then load_mnode mn_val (Some a) (\<lambda>v. Ret ((v, j), l')) else pop_ms nc w n (count_get_fail l')))
      else Ret ((0, j), count_null l')) (t, H')" by simp
  qed
qed

section \<open>Linearizability\<close>

text \<open>
  What the state holds of an array of stacks: the chain from each top carries the values of the
  stack, and in \<open>stack-dra\<close> the stamp at the top is the number of nodes below it.
\<close>

definition rep_ms :: "bool \<Rightarrow> mstack \<Rightarrow> int list list \<Rightarrow> bool" where
  "rep_ms dra s q \<longleftrightarrow> length q = length (tops_array s) \<and>
     (\<forall>j<length q. holds_cells (\<lambda>a. map_option (\<lambda>n. (mn_val n, mn_next n)) (mnodes s a)) (tops_array s ! j) (q ! j) \<and>
        (dra \<longrightarrow> tops_array s ! j \<noteq> None \<longrightarrow> timestamp (mnode_at (tops_array s ! j) s) = (length (q ! j) - 1) mod U64))"

lemma rep_ms:
  assumes J: "inv_ms w dra opss (s, H)"
  shows "\<exists>q. replay (spec_cells True) (replicate w []) H = Some q \<and> rep_ms dra s q"
proof -
  note c = ms.inv_cells [OF J]
  obtain q where q: "replay (spec_cells True) (replicate w []) H = Some q" "length q = w"
    "\<forall>j<w. map (\<lambda>a. fst (the (sh_cell (shadow H) a))) (sh_stack (shadow H) j) = q ! j"
    using cells_spec [OF c] by metis
  have "(\<lambda>a. map_option (\<lambda>n. (mn_val n, mn_next n)) (mnodes s a)) = ms.cell s" by (simp add: fun_eq_iff ms.cell_def)
  then have h: "holds_cells (\<lambda>a. map_option (\<lambda>n. (mn_val n, mn_next n)) (mnodes s a)) (tops_array s ! j) (q ! j)" if "j < w" for j
    using ms.inv_rep [OF J] q(1) that by auto
  have "timestamp (mnode_at (tops_array s ! j) s) = (length (q ! j) - 1) mod U64"
    if j: "j < w" and d: "dra" and ne: "tops_array s ! j \<noteq> None" for j
  proof -
    obtain a xs where xs: "sh_stack (shadow H) j = a # xs" "tops_array s ! j = Some a"
      using cellsD(3) [OF c j] ne by (cases "sh_stack (shadow H) j") auto
    then have "sh_depth (shadow H) a = length xs" "sh_cell (shadow H) a \<noteq> None" using shadow_depths [of H j] by simp_all
    moreover have "length (q ! j) = Suc (length xs)"
      using arg_cong [OF q(3) [rule_format, OF j], of length] xs(1) by simp
    ultimately show ?thesis
      using ms.inv_E [OF J] d xs(2) unfolding ms_extra_def by (metis diff_Suc_1 fst_conv snd_conv)
  qed
  then show ?thesis using q h ms.inv_E [OF J] by (intro exI [of _ q]) (simp add: rep_ms_def ms_extra_def)
qed

interpretation lin_ms: lin_object_hist "\<lambda>_. True" "out_of_fuel n opss" "inv_ms w dra opss" ord_ms grd_ms
  ms_local "spec_cells True" "replicate w []" "rep_ms dra" "mstack_op dra nc w n" opss for w dra nc n opss
proof unfold_locales
  show "op_ok_hist (\<lambda>_. True) (out_of_fuel n opss) (inv_ms w dra opss) ord_ms grd_ms ms_local opss i op
      (mstack_op dra nc w n)" if i: "i < length opss" for i op
    unfolding op_ok_hist_def
  proof (intro allI impI)
    fix l s H assume J: "inv_ms w dra opss (s, H)" "ms_local i l (proj i H) s" "prefix (map fst (proj i H) @ [op]) (opss ! i)"
    show "safe_ms (out_of_fuel n opss) w dra opss i (done_ms w dra opss i (proj i H) op) (mstack_op dra nc w n op l) (s, H)"
    proof (cases op)
      case (Push key v)
      have pre: "prefix (map fst (proj i H) @ [Push key v]) (opss ! i)" using J(3) Push by simp
      have "safe_ms (out_of_fuel n opss) w dra opss i (done_ms w dra opss i (proj i H) (Push key v))
          (create_node_ms key v None l (\<lambda>a l. if dra then push_dra_loop nc w n a l else push_ms_loop nc w n a l)) (s, H)"
      proof (rule create_node_safe [OF J(1) refl J(2)])
        fix t H' and l' :: thread_ms assume t: "inv_ms w dra opss (t, H')" "hist_rely i H H'" "own_ms i (Addr i (pushes (proj i H))) v (proj i H) t"
          "thread_id l' = i" "alloc_next l' = pushes (proj i H) + 1"
        show "safe_ms (out_of_fuel n opss) w dra opss i (done_ms w dra opss i (proj i H) (Push key v))
            (if dra then push_dra_loop nc w n (Addr i (pushes (proj i H))) l'
             else push_ms_loop nc w n (Addr i (pushes (proj i H))) l') (t, H')"
          using push_dra_loop_safe [OF _ hist_rely_proj [OF t(2)] t(3) i pre t(4,5)]
            push_ms_loop_safe [OF _ _ hist_rely_proj [OF t(2)] t(3) i pre t(4,5)] t(1)
          by (cases dra) simp_all
      qed
      then show ?thesis using Push by (cases dra) (simp_all add: push_ms_def push_dra_def dra_copies)
    next
      case Pop
      then show ?thesis using pop_ms_safe [OF J(1) refl i _ J(2)] J(3) by (cases dra) (simp_all add: pop_dra_copy)
    qed
  qed
  show "\<exists>q. replay (spec_cells True) (replicate w []) H = Some q \<and> rep_ms dra s q" if "inv_ms w dra opss (s, H)" for s H
    using that by (rule rep_ms)
qed (auto simp: ms.ord_refl ms_local_def intro: ms.grd_ord elim: ms.ord_trans)

definition new_thread_ms :: "nat \<Rightarrow> seeds \<times> (nat \<Rightarrow> nat) \<Rightarrow> thread_ms" where
  "new_thread_ms i x = \<lparr>seeds = fst x, thread_index = 0, my_put_cas_fail_count = 0, my_get_cas_fail_count = 0,
     my_null_count = 0, my_hop_count = 0, my_slide_count = 0, thread_id = i, alloc_next = 0, tsc = snd x, tsc_reads = 0\<rparr>"

definition ms_threads :: "(stack_op list \<times> seeds \<times> (nat \<Rightarrow> nat)) list \<Rightarrow> (stack_op list \<times> thread_ms) list" where
  "ms_threads ths = map (\<lambda>i. (fst (ths ! i), new_thread_ms i (snd (ths ! i)))) [0..<length ths]"



end
