(* ===== verification/Ms_Queue.thy ===== *)
theory Ms_Queue
  imports Chain Thread
begin

text \<open>
  The Michael-Scott queue of \<open>src/dcbo-ms/partial-ms.c\<close>, the partial queue of the
  choice-of-d load balancer, and the single queue of \<open>src/ms/ms.c\<close>, which is the same code. The
  memory is an arena of queues, a pointer to a queue its index there; head and tail are two-word
  descriptors of a node and the count of dequeues and enqueues, compared and exchanged at once
  but read in two halves. The build modelled is the plain one, without garbage collection and
  without the relaxation analysis.

  Shown: every operation takes effect at one point, \<open>ms_enqueue\<close> when it links its node,
  \<open>ms_dequeue\<close> when it moves the head or finds the last node's successor null, so that a queue
  is linearizable to a FIFO queue, and it is lock-free: each round of a loop that fails is
  paid for by a step of a tail, a head or a link of some thread.
\<close>

section \<open>State\<close>

record ms_queue =
  ms_head :: queue_desc
  ms_tail :: queue_desc

record ms_mem =
  ms_queues :: "ms_queue list"
  ms_nodes :: "unit queue_heap"

record thread_msq = thread +
  ms_thread_id :: nat
  ms_alloc_next :: nat

section \<open>Operations\<close>

definition create_ms_node :: "int \<Rightarrow> int \<Rightarrow> qaddr option \<Rightarrow> 'z thread_msq_scheme \<Rightarrow>
    (qaddr \<Rightarrow> 'z thread_msq_scheme \<Rightarrow> ('m ms_mem_scheme, 'a) prog) \<Rightarrow> ('m ms_mem_scheme, 'a) prog" where
  "create_ms_node key v p l k = (let a = Node (ms_thread_id l) (ms_alloc_next l) in
     store (\<lambda>s. s\<lparr>ms_nodes := (ms_nodes s)(a \<mapsto> \<lparr>qn_key = key, qn_val = v, qn_next = p\<rparr>)\<rparr>)
       (k a (l\<lparr>ms_alloc_next := ms_alloc_next l + 1\<rparr>)))"

text \<open>
  \<open>init_ms_queue\<close> run by the creating thread for queue \<open>j\<close> of the arena; the key and value of
  the dummy are whatever the memory holds.
\<close>

definition init_ms_queue :: "(nat \<Rightarrow> int \<times> int) \<Rightarrow> nat \<Rightarrow> 'm ms_mem_scheme \<Rightarrow> 'm ms_mem_scheme" where
  "init_ms_queue mem j s = (let node = \<lparr>qn_key = fst (mem j), qn_val = snd (mem j), qn_next = None\<rparr>;
       init_desc = DW (Some (Dummy j)) 0 in
     s\<lparr>ms_nodes := (ms_nodes s)(Dummy j \<mapsto> node),
       ms_queues := (ms_queues s)[j := \<lparr>ms_head = init_desc, ms_tail = init_desc\<rparr>]\<rparr>)"

text \<open>Reading through a pointer, which must not be null or dangling.\<close>

definition ms_node_at :: "qaddr option \<Rightarrow> 'm ms_mem_scheme \<Rightarrow> queue_node" where
  "ms_node_at p s = the (ms_nodes s (the p))"

definition ms_field :: "(queue_node \<Rightarrow> 'x) \<Rightarrow> qaddr option \<Rightarrow> ('x \<Rightarrow> ('m ms_mem_scheme, 'a) prog) \<Rightarrow> ('m ms_mem_scheme, 'a) prog" where
  "ms_field f p k = checked (\<lambda>s. p \<noteq> None \<and> ms_nodes s (the p) \<noteq> None) (load (\<lambda>s. f (ms_node_at p s)) k)"

definition read_head :: "nat \<Rightarrow> (queue_desc \<Rightarrow> ('m ms_mem_scheme, 'a) prog) \<Rightarrow> ('m ms_mem_scheme, 'a) prog" where
  "read_head j k = checked (\<lambda>s. j < length (ms_queues s)) (load2 (\<lambda>s. ms_head (ms_queues s ! j)) k)"

definition read_tail :: "nat \<Rightarrow> (queue_desc \<Rightarrow> ('m ms_mem_scheme, 'a) prog) \<Rightarrow> ('m ms_mem_scheme, 'a) prog" where
  "read_tail j k = checked (\<lambda>s. j < length (ms_queues s)) (load2 (\<lambda>s. ms_tail (ms_queues s ! j)) k)"

definition set_tail :: "nat \<Rightarrow> queue_desc \<Rightarrow> 'm ms_mem_scheme \<Rightarrow> 'm ms_mem_scheme" where
  "set_tail j d s = s\<lparr>ms_queues := (ms_queues s)[j := (ms_queues s ! j)\<lparr>ms_tail := d\<rparr>]\<rparr>"

definition set_head :: "nat \<Rightarrow> queue_desc \<Rightarrow> 'm ms_mem_scheme \<Rightarrow> 'm ms_mem_scheme" where
  "set_head j d s = s\<lparr>ms_queues := (ms_queues s)[j := (ms_queues s ! j)\<lparr>ms_head := d\<rparr>]\<rparr>"

definition ms_link :: "qaddr option \<Rightarrow> qaddr option \<Rightarrow> 'm ms_mem_scheme \<Rightarrow> 'm ms_mem_scheme" where
  "ms_link p q s = s\<lparr>ms_nodes := (ms_nodes s)(the p \<mapsto> (ms_node_at p s)\<lparr>qn_next := q\<rparr>)\<rparr>"

definition enq_cae :: "qaddr option \<Rightarrow> qaddr \<Rightarrow> (bool \<Rightarrow> ('m ms_mem_scheme, 'a) prog) \<Rightarrow> ('m ms_mem_scheme, 'a) prog" where
  "enq_cae node new k = checked (\<lambda>s. node \<noteq> None \<and> ms_nodes s (the node) \<noteq> None)
     (cas (\<lambda>s. qn_next (ms_node_at node s)) (ms_link node) None (Some new) k)"

definition deq_cae :: "nat \<Rightarrow> queue_desc \<Rightarrow> queue_desc \<Rightarrow> (bool \<Rightarrow> ('m ms_mem_scheme, 'a) prog) \<Rightarrow> ('m ms_mem_scheme, 'a) prog" where
  "deq_cae j read_des new_des k = checked (\<lambda>s. j < length (ms_queues s))
     (cas (\<lambda>s. ms_head (ms_queues s ! j)) (set_head j) read_des new_des k)"

definition tail_cae :: "nat \<Rightarrow> queue_desc \<Rightarrow> queue_desc \<Rightarrow> (bool \<Rightarrow> ('m ms_mem_scheme, 'a) prog) \<Rightarrow> ('m ms_mem_scheme, 'a) prog" where
  "tail_cae j tail new_tail k = checked (\<lambda>s. j < length (ms_queues s))
     (cas (\<lambda>s. ms_tail (ms_queues s ! j)) (set_tail j) tail new_tail k)"

fun ms_enqueue_loop :: "nat \<Rightarrow> nat \<Rightarrow> qaddr \<Rightarrow> 'z thread_msq_scheme \<Rightarrow> ('m ms_mem_scheme, int \<times> 'z thread_msq_scheme) prog" where
  "ms_enqueue_loop j 0 new l = Stop No_fuel"
| "ms_enqueue_loop j (Suc n) new l =
     read_tail j (\<lambda>tail.
     ms_field qn_next (lo tail) (\<lambda>nx.
     if nx = None then
       enq_cae (lo tail) new (\<lambda>ok.
       if ok then tail_cae j tail (DW (Some new) (add64 (hi tail) 1)) (\<lambda>_. Ret (1, l))
       else ms_enqueue_loop j n new (count_put_fail l))
     else
       ms_field qn_next (lo tail) (\<lambda>nx.
       tail_cae j tail (DW nx (add64 (hi tail) 1)) (\<lambda>_. ms_enqueue_loop j n new (count_put_fail l)))))"

definition ms_enqueue :: "nat \<Rightarrow> nat \<Rightarrow> int \<Rightarrow> int \<Rightarrow> 'z thread_msq_scheme \<Rightarrow> ('m ms_mem_scheme, int \<times> 'z thread_msq_scheme) prog" where
  "ms_enqueue n j key v l = create_ms_node key v None l (\<lambda>new l. ms_enqueue_loop j n new l)"

fun ms_dequeue :: "nat \<Rightarrow> nat \<Rightarrow> 'z thread_msq_scheme \<Rightarrow> ('m ms_mem_scheme, int \<times> 'z thread_msq_scheme) prog" where
  "ms_dequeue 0 j l = Stop No_fuel"
| "ms_dequeue (Suc n) j l =
     read_head j (\<lambda>head. read_tail j (\<lambda>tail.
     if lo head = lo tail then
       ms_field qn_next (lo head) (\<lambda>nx.
       if nx = None then Ret (0, count_null l)
       else
         ms_field qn_next (lo tail) (\<lambda>nx.
         tail_cae j tail (DW nx (add64 (hi tail) 1)) (\<lambda>_. ms_dequeue n j l)))
     else
       ms_field qn_next (lo head) (\<lambda>nx.
       deq_cae j head (DW nx (add64 (hi head) 1)) (\<lambda>ok.
       if ok then ms_field qn_next (lo head) (\<lambda>nx. ms_field qn_val nx (\<lambda>v. Ret (v, l)))
       else ms_dequeue n j l))))"

definition ms_queue_size :: "nat \<Rightarrow> (nat \<Rightarrow> ('m ms_mem_scheme, 'a) prog) \<Rightarrow> ('m ms_mem_scheme, 'a) prog" where
  "ms_queue_size j k = checked (\<lambda>s. j < length (ms_queues s)) (load (\<lambda>s. hi (ms_tail (ms_queues s ! j))) (\<lambda>t.
     checked (\<lambda>s. j < length (ms_queues s)) (load (\<lambda>s. hi (ms_head (ms_queues s ! j))) (\<lambda>h. k (sub64 t h)))))"

definition ms_enq_count :: "nat \<Rightarrow> (nat \<Rightarrow> ('m ms_mem_scheme, 'a) prog) \<Rightarrow> ('m ms_mem_scheme, 'a) prog" where
  "ms_enq_count j k = checked (\<lambda>s. j < length (ms_queues s)) (load (\<lambda>s. hi (ms_tail (ms_queues s ! j))) k)"

definition ms_deq_count :: "nat \<Rightarrow> (nat \<Rightarrow> ('m ms_mem_scheme, 'a) prog) \<Rightarrow> ('m ms_mem_scheme, 'a) prog" where
  "ms_deq_count j k = checked (\<lambda>s. j < length (ms_queues s)) (load (\<lambda>s. hi (ms_head (ms_queues s ! j))) k)"

section \<open>Specification\<close>

text \<open>
  An array of FIFO queues; the response of an operation is its result and the queue it used.
  With \<open>loose\<close> a dequeue may also give up and return \<open>0\<close>, naming no queue.
\<close>

fun spec_fifos :: "bool \<Rightarrow> (int list list, queue_op, int \<times> nat) spec" where
  "spec_fifos loose q (Enqueue key v) (r, j) = (if r = 1 \<and> j < length q then Some (q[j := q ! j @ [v]]) else None)"
| "spec_fifos loose q Dequeue (r, j) =
     (if j < length q then
        (case q ! j of [] \<Rightarrow> if r = 0 then Some q else None | v # vs \<Rightarrow> if r = v then Some (q[j := vs]) else None)
      else if loose \<and> r = 0 then Some q else None)"

section \<open>Invariant\<close>

definition gets_ms :: "'m ms_mem_scheme \<Rightarrow> nat \<Rightarrow> nat" where
  "gets_ms s j = hi (ms_head (ms_queues s ! j))"

definition puts_ms :: "'m ms_mem_scheme \<Rightarrow> nat \<Rightarrow> nat" where
  "puts_ms s j = hi (ms_tail (ms_queues s ! j))"

text \<open>The descriptors point at the nodes their counts name.\<close>

definition desc_ok :: "nat \<Rightarrow> 'm ms_mem_scheme \<Rightarrow> bool" where
  "desc_ok w s \<longleftrightarrow> length (ms_queues s) = w \<and>
     (\<forall>j<w. lo (ms_head (ms_queues s ! j)) = walk (ms_nodes s) j (gets_ms s j) \<and>
        lo (ms_tail (ms_queues s ! j)) = walk (ms_nodes s) j (puts_ms s j))"

text \<open>
  An entry in which a dequeue gives up, naming no queue: at some moment since the previous entry
  of the thread every queue held at most one value, whose enqueue was still in progress.
\<close>

definition empties_seen :: "bool \<Rightarrow> nat \<Rightarrow> (queue_op, int \<times> nat) history \<Rightarrow> bool" where
  "empties_seen loose w H \<longleftrightarrow> (\<forall>n<length H. \<forall>i r j. H ! n = (i, Dequeue, r, j) \<longrightarrow> w \<le> j \<longrightarrow>
     (\<exists>m\<le>n. (\<forall>k<n. m \<le> k \<longrightarrow> fst (H ! k) \<noteq> i) \<and>
        (\<exists>q. replay (spec_fifos loose) (replicate w []) (take m H) = Some q \<and> (\<forall>x\<in>set q. length x \<le> 1))))"

lemma empties_seen_Nil [simp]: "empties_seen loose w []"
  by (simp add: empties_seen_def)

lemma empties_seen_snoc:
  assumes "empties_seen loose w H"
    and "\<And>i r j. e = (i, Dequeue, r, j) \<Longrightarrow> w \<le> j \<Longrightarrow> \<exists>m\<le>length H. (\<forall>k<length H. m \<le> k \<longrightarrow> fst (H ! k) \<noteq> i) \<and>
        (\<exists>q. replay (spec_fifos loose) (replicate w []) (take m H) = Some q \<and> (\<forall>x\<in>set q. length x \<le> 1))"
  shows "empties_seen loose w (H @ [e])"
  unfolding empties_seen_def
proof (intro allI impI)
  fix n i r j assume n: "n < length (H @ [e])" "(H @ [e]) ! n = (i, Dequeue, r, j)" "w \<le> j"
  have "\<exists>m\<le>n. (\<forall>k<n. m \<le> k \<longrightarrow> fst (H ! k) \<noteq> i) \<and>
        (\<exists>q. replay (spec_fifos loose) (replicate w []) (take m H) = Some q \<and> (\<forall>x\<in>set q. length x \<le> 1))"
  proof (cases "n < length H")
    case True
    then show ?thesis using assms(1) n by (simp add: empties_seen_def nth_append)
  next
    case False
    then show ?thesis using assms(2) n by (simp add: less_Suc_eq)
  qed
  then obtain m where m: "m \<le> n" "\<forall>k<n. m \<le> k \<longrightarrow> fst (H ! k) \<noteq> i"
    "\<exists>q. replay (spec_fifos loose) (replicate w []) (take m H) = Some q \<and> (\<forall>x\<in>set q. length x \<le> 1)" by blast
  have le: "n \<le> length H" using n(1) by simp
  show "\<exists>m\<le>n. (\<forall>k<n. m \<le> k \<longrightarrow> fst ((H @ [e]) ! k) \<noteq> i) \<and>
        (\<exists>q. replay (spec_fifos loose) (replicate w []) (take m (H @ [e])) = Some q \<and> (\<forall>x\<in>set q. length x \<le> 1))"
    using m le by (intro exI [of _ m]) (simp add: nth_append)
qed

lemma empties_seen_entry: "empties_seen loose w H \<Longrightarrow> j < w \<Longrightarrow> empties_seen loose w (H @ [(i, op, r, j)])"
  by (erule empties_seen_snoc) simp

definition is_enq :: "nat \<times> queue_op \<times> int \<times> nat \<Rightarrow> bool" where
  "is_enq e \<longleftrightarrow> fst (snd e) \<noteq> Dequeue"

definition rep_ms :: "'m ms_mem_scheme \<Rightarrow> int list list \<Rightarrow> bool" where
  "rep_ms s q \<longleftrightarrow> (\<exists>E. chains (length (ms_queues s)) (ms_nodes s) (gets_ms s) (puts_ms s) E \<and>
     q = contents (length (ms_queues s)) (gets_ms s) E)"

definition inv_msq :: "bool \<Rightarrow> nat \<Rightarrow> queue_op list list \<Rightarrow> 'm ms_mem_scheme \<times> (queue_op, int \<times> nat) history \<Rightarrow> bool" where
  "inv_msq loose w opss x \<longleftrightarrow> (case x of (s, H) \<Rightarrow> desc_ok w s \<and> hist_ok opss H \<and>
     (\<exists>E. chains w (ms_nodes s) (gets_ms s) (puts_ms s) E \<and>
        replay (spec_fifos loose) (replicate w []) H = Some (contents w (gets_ms s) E) \<and>
        (\<Sum>j<w. length (E j)) = length (filter is_enq H) \<and> (loose \<longrightarrow> (\<forall>j<w. 0 \<notin> set (E j)))) \<and> empties_seen loose w H)"

definition core_ms :: "nat \<Rightarrow> 'm ms_mem_scheme \<Rightarrow> 'm ms_mem_scheme \<Rightarrow> bool" where
  "core_ms w s t \<longleftrightarrow> (\<forall>j. gets_ms s j \<le> gets_ms t j \<and> puts_ms s j \<le> puts_ms t j) \<and> written_once (ms_nodes s) (ms_nodes t)"

definition own_msq :: "nat \<Rightarrow> nat \<Rightarrow> 'm ms_mem_scheme \<Rightarrow> 'm ms_mem_scheme \<Rightarrow> bool" where
  "own_msq w i s t \<longleftrightarrow> (\<forall>k. \<not> linked w (ms_nodes s) (Node i k) \<longrightarrow>
     \<not> linked w (ms_nodes t) (Node i k) \<and> ms_nodes t (Node i k) = ms_nodes s (Node i k))"

definition ord_msq :: "nat \<Rightarrow> nat \<Rightarrow> 'm ms_mem_scheme \<Rightarrow> 'm ms_mem_scheme \<Rightarrow> bool" where
  "ord_msq w i s t \<longleftrightarrow> core_ms w s t \<and> own_msq w i s t"

definition grd_msq :: "nat \<Rightarrow> nat \<Rightarrow> 'm ms_mem_scheme \<Rightarrow> 'm ms_mem_scheme \<Rightarrow> bool" where
  "grd_msq w i s t \<longleftrightarrow> core_ms w s t \<and> (\<forall>j. j \<noteq> i \<longrightarrow> own_msq w j s t)"

lemma ms_refl [simp]: "core_ms w s s" "own_msq w i s s" "ord_msq w i s s" "grd_msq w i s s"
  by (simp_all add: core_ms_def own_msq_def ord_msq_def grd_msq_def)

lemma grd_ord_ms: "i \<noteq> j \<Longrightarrow> grd_msq w i s t \<Longrightarrow> ord_msq w j s t"
  by (simp add: grd_msq_def ord_msq_def)

lemma core_ms_trans: "core_ms w s t \<Longrightarrow> core_ms w t u \<Longrightarrow> core_ms w s u"
  unfolding core_ms_def using written_once_trans le_trans by blast

lemma ord_msq_trans: "ord_msq w i s t \<Longrightarrow> ord_msq w i t u \<Longrightarrow> ord_msq w i s u"
  using core_ms_trans [of w s t u] by (simp add: ord_msq_def own_msq_def)

lemma core_msD: "core_ms w s t \<Longrightarrow> gets_ms s j \<le> gets_ms t j" "core_ms w s t \<Longrightarrow> puts_ms s j \<le> puts_ms t j"
  by (simp_all add: core_ms_def)

lemma ord_msqD:
  assumes "ord_msq w i s t"
  shows "gets_ms s j \<le> gets_ms t j" "puts_ms s j \<le> puts_ms t j" "written_once (ms_nodes s) (ms_nodes t)"
    "walk (ms_nodes s) j k = Some a \<Longrightarrow> walk (ms_nodes t) j k = Some a"
    "\<not> linked w (ms_nodes s) (Node i k) \<Longrightarrow> \<not> linked w (ms_nodes t) (Node i k) \<and> ms_nodes t (Node i k) = ms_nodes s (Node i k)"
  using assms walk_stable unfolding ord_msq_def core_ms_def own_msq_def by blast+

lemma ord_msq_node:
  assumes "ord_msq w i s t" and "ms_nodes s a = Some n"
  obtains n' where "ms_nodes t a = Some n'" "qn_val n' = qn_val n" "\<And>b. qn_next n = Some b \<Longrightarrow> qn_next n' = Some b"
  using written_onceD [OF ord_msqD(3) [OF assms(1)] assms(2)] by metis

lemma inv_msqE:
  assumes "inv_msq loose w opss (s, H)"
  obtains E where "desc_ok w s" "hist_ok opss H" "chains w (ms_nodes s) (gets_ms s) (puts_ms s) E"
    "replay (spec_fifos loose) (replicate w []) H = Some (contents w (gets_ms s) E)"
    "(\<Sum>j<w. length (E j)) = length (filter is_enq H)" "loose \<longrightarrow> (\<forall>j<w. 0 \<notin> set (E j))" "empties_seen loose w H"
  using assms unfolding inv_msq_def by auto

lemma inv_msqI:
  assumes "desc_ok w s" "hist_ok opss H" "chains w (ms_nodes s) (gets_ms s) (puts_ms s) E"
    "replay (spec_fifos loose) (replicate w []) H = Some (contents w (gets_ms s) E)"
    "(\<Sum>j<w. length (E j)) = length (filter is_enq H)" "loose \<longrightarrow> (\<forall>j<w. 0 \<notin> set (E j))" "empties_seen loose w H"
  shows "inv_msq loose w opss (s, H)"
  using assms unfolding inv_msq_def by blast

lemma inv_msq_desc: "inv_msq loose w opss (s, H) \<Longrightarrow> desc_ok w s"
  by (simp add: inv_msq_def)

lemma desc_okD:
  assumes "desc_ok w s" and "j < w"
  shows "lo (ms_head (ms_queues s ! j)) = walk (ms_nodes s) j (gets_ms s j)"
    "lo (ms_tail (ms_queues s ! j)) = walk (ms_nodes s) j (puts_ms s j)" "j < length (ms_queues s)"
  using assms by (simp_all add: desc_ok_def)

lemma inv_msq_index: "inv_msq loose w opss (s, H) \<Longrightarrow> j < w \<Longrightarrow> j < length (ms_queues s)"
  by (simp add: inv_msq_def desc_ok_def)

lemma inv_msq_alloc: "inv_msq loose w opss (s, H) \<Longrightarrow> j < w \<Longrightarrow> walk (ms_nodes s) j k = Some a \<Longrightarrow> \<exists>n. ms_nodes s a = Some n"
  by (erule inv_msqE, rule chains_alloc)

lemma inv_msq_walk:
  assumes "inv_msq loose w opss (s, H)" and "j < w" and "k \<le> puts_ms s j"
  obtains a n where "walk (ms_nodes s) j k = Some a" "ms_nodes s a = Some n"
proof -
  obtain E where "chains w (ms_nodes s) (gets_ms s) (puts_ms s) E" by (rule inv_msqE [OF assms(1)])
  from chainsD(2) [OF this assms(2)] show ?thesis
    using chain_walk [of "ms_nodes s" j _ _ _ k] chain_repD(4) assms(3) that by (metis le_trans)
qed

lemma inv_msq_gets: "inv_msq loose w opss (s, H) \<Longrightarrow> j < w \<Longrightarrow> gets_ms s j \<le> puts_ms s j"
  by (erule inv_msqE) (blast intro: chain_repD(3) chainsD(2))

section \<open>The steps\<close>

lemma set_simps [simp]:
  "ms_nodes (set_tail j d s) = ms_nodes s" "ms_nodes (set_head j d s) = ms_nodes s"
  "length (ms_queues (set_tail j d s)) = length (ms_queues s)" "length (ms_queues (set_head j d s)) = length (ms_queues s)"
  by (simp_all add: set_tail_def set_head_def)

lemma counts_set:
  assumes "j < length (ms_queues s)"
  shows "puts_ms (set_tail j d s) = (puts_ms s)(j := hi d)" "gets_ms (set_tail j d s) = gets_ms s"
    "gets_ms (set_head j d s) = (gets_ms s)(j := hi d)" "puts_ms (set_head j d s) = puts_ms s"
  using assms by (auto simp: puts_ms_def gets_ms_def set_tail_def set_head_def nth_list_update)

lemma desc_set:
  assumes "j < length (ms_queues s)"
  shows "ms_head (ms_queues (set_tail j d s) ! j') = ms_head (ms_queues s ! j')"
    "ms_tail (ms_queues (set_tail j d s) ! j') = (if j' = j then d else ms_tail (ms_queues s ! j'))"
    "ms_tail (ms_queues (set_head j d s) ! j') = ms_tail (ms_queues s ! j')"
    "ms_head (ms_queues (set_head j d s) ! j') = (if j' = j then d else ms_head (ms_queues s ! j'))"
  using assms by (auto simp: set_tail_def set_head_def nth_list_update)

lemma tail_step:
  assumes J: "inv_msq loose w opss (s, H)" and j: "j < w" and e: "ms_tail (ms_queues s ! j) = e"
    and b: "walk (ms_nodes s) j (Suc (hi e)) = Some b"
  shows "inv_msq loose w opss (set_tail j (DW (Some b) (hi e + 1)) s, H) \<and> grd_msq w i s (set_tail j (DW (Some b) (hi e + 1)) s)
    \<and> ord_msq w i s (set_tail j (DW (Some b) (hi e + 1)) s)"
proof -
  let ?t = "set_tail j (DW (Some b) (hi e + 1)) s"
  obtain E where E: "desc_ok w s" "hist_ok opss H" "chains w (ms_nodes s) (gets_ms s) (puts_ms s) E"
    "replay (spec_fifos loose) (replicate w []) H = Some (contents w (gets_ms s) E)"
    "(\<Sum>j<w. length (E j)) = length (filter is_enq H)" "loose \<longrightarrow> (\<forall>j<w. 0 \<notin> set (E j))" "empties_seen loose w H"
    by (rule inv_msqE [OF J])
  have p: "puts_ms s j = hi e" using e by (simp add: puts_ms_def)
  note c = counts_set [OF desc_okD(3) [OF E(1) j], where d = "DW (Some b) (hi e + 1)", simplified]
  have "desc_ok w ?t"
    using E(1) b c desc_set [OF desc_okD(3) [OF E(1) j]] by (simp add: desc_ok_def)
  moreover have "chains w (ms_nodes ?t) (gets_ms ?t) (puts_ms ?t) E"
    using chains_tail [OF E(3), of j] b j by (simp add: c p)
  ultimately have "inv_msq loose w opss (?t, H)"
    using E c by (intro inv_msqI [where E = E]) simp_all
  then show ?thesis using c p by (auto simp: grd_msq_def ord_msq_def core_ms_def own_msq_def)
qed

lemma head_step:
  assumes J: "inv_msq loose w opss (s, H)" and j: "j < w" and e: "ms_head (ms_queues s ! j) = e"
    and b: "walk (ms_nodes s) j (Suc (hi e)) = Some b" "ms_nodes s b = Some n" and lt: "hi e < puts_ms s j"
    and step: "i < length opss" "prefix (map fst (proj i H) @ [Dequeue]) (opss ! i)"
  defines "t \<equiv> set_head j (DW (Some b) (hi e + 1)) s"
  shows "inv_msq loose w opss (t, H @ [(i, Dequeue, qn_val n, j)])" "grd_msq w i s t" "loose \<longrightarrow> qn_val n \<noteq> 0"
    "ord_msq w i s t"
proof -
  obtain E where E: "desc_ok w s" "hist_ok opss H" "chains w (ms_nodes s) (gets_ms s) (puts_ms s) E"
    "replay (spec_fifos loose) (replicate w []) H = Some (contents w (gets_ms s) E)"
    "(\<Sum>j<w. length (E j)) = length (filter is_enq H)" "loose \<longrightarrow> (\<forall>j<w. 0 \<notin> set (E j))" "empties_seen loose w H"
    by (rule inv_msqE [OF J])
  have g: "gets_ms s j = hi e" using e by (simp add: gets_ms_def)
  note c = counts_set [OF desc_okD(3) [OF E(1) j], where d = "DW (Some b) (hi e + 1)", folded t_def]
  have d: "desc_ok w t"
    using E(1) b c desc_set [OF desc_okD(3) [OF E(1) j]] by (simp add: desc_ok_def t_def)
  note head = chains_head [OF E(3) j lt [folded g] b [folded g]]
  have v: "qn_val n \<in> set (E j)"
    using head(2) by (metis in_set_dropD list.set_intros(1))
  then show "loose \<longrightarrow> qn_val n \<noteq> 0" using E(6) j by auto
  have "spec_fifos loose (contents w (gets_ms s) E) Dequeue (qn_val n, j) = Some (contents w (gets_ms t) E)"
    using j head(2) contents_get [OF j, of "gets_ms s" "Suc (hi e)" E] by (simp add: c g)
  then have "replay (spec_fifos loose) (replicate w []) (H @ [(i, Dequeue, qn_val n, j)]) = Some (contents w (gets_ms t) E)"
    using E(4) by (simp del: spec_fifos.simps)
  moreover have "chains w (ms_nodes t) (gets_ms t) (puts_ms t) E"
    using head(1) c g by (simp add: t_def)
  ultimately show "inv_msq loose w opss (t, H @ [(i, Dequeue, qn_val n, j)])"
    using E(5,6) hist_ok_entry [OF E(2) step] empties_seen_entry [OF E(7) j] d by (intro inv_msqI [where E = E]) (simp_all add: is_enq_def)
  show "grd_msq w i s t" "ord_msq w i s t" using c g by (auto simp: grd_msq_def ord_msq_def core_ms_def own_msq_def t_def)
qed

lemma empty_step:
  assumes J: "inv_msq loose w opss (s, H)" and j: "j < w" and last: "walk (ms_nodes s) j (Suc (gets_ms s j)) = None"
    and step: "i < length opss" "prefix (map fst (proj i H) @ [Dequeue]) (opss ! i)"
  shows "inv_msq loose w opss (s, H @ [(i, Dequeue, 0, j)])"
proof -
  obtain E where E: "desc_ok w s" "hist_ok opss H" "chains w (ms_nodes s) (gets_ms s) (puts_ms s) E"
    "replay (spec_fifos loose) (replicate w []) H = Some (contents w (gets_ms s) E)"
    "(\<Sum>j<w. length (E j)) = length (filter is_enq H)" "loose \<longrightarrow> (\<forall>j<w. 0 \<notin> set (E j))" "empties_seen loose w H"
    by (rule inv_msqE [OF J])
  have "spec_fifos loose (contents w (gets_ms s) E) Dequeue (0, j) = Some (contents w (gets_ms s) E)"
    using chains_empty [OF E(3) j last] j by simp
  then show ?thesis
    using E hist_ok_entry [OF E(2) step] empties_seen_entry [OF E(7) j] by (intro inv_msqI [where E = E]) (simp_all add: is_enq_def del: spec_fifos.simps)
qed

lemma link_step:
  assumes J: "inv_msq loose w opss (s, H)" and j: "j < w"
    and last: "walk (ms_nodes s) j k = Some tn" "ms_nodes s tn = Some n" "qn_next n = None" and le: "k \<le> puts_ms s j"
    and a: "a = Node i ka" "\<not> linked w (ms_nodes s) a" "ms_nodes s a = Some m" "qn_next m = None"
    and v: "loose \<longrightarrow> qn_val m \<noteq> 0"
    and step: "i < length opss" "prefix (map fst (proj i H) @ [Enqueue key (qn_val m)]) (opss ! i)"
  defines "t \<equiv> ms_link (Some tn) (Some a) s"
  shows "inv_msq loose w opss (t, H @ [(i, Enqueue key (qn_val m), 1, j)])" "grd_msq w i s t"
    "walk (ms_nodes t) j (Suc k) = Some a" "core_ms w s t" "ms_nodes s b = None \<Longrightarrow> ms_nodes t b = None \<and> \<not> linked w (ms_nodes t) b"
proof -
  obtain E where E: "desc_ok w s" "hist_ok opss H" "chains w (ms_nodes s) (gets_ms s) (puts_ms s) E"
    "replay (spec_fifos loose) (replicate w []) H = Some (contents w (gets_ms s) E)"
    "(\<Sum>j<w. length (E j)) = length (filter is_enq H)" "loose \<longrightarrow> (\<forall>j<w. 0 \<notin> set (E j))" "empties_seen loose w H"
    by (rule inv_msqE [OF J])
  let ?E = "E(j := E j @ [qn_val m])"
  have t: "t = s\<lparr>ms_nodes := (ms_nodes s)(tn \<mapsto> n\<lparr>qn_next := Some a\<rparr>)\<rparr>"
    using last(2) by (simp add: t_def ms_link_def ms_node_at_def)
  have c: "gets_ms t = gets_ms s" "puts_ms t = puts_ms s" by (auto simp: gets_ms_def puts_ms_def t)
  note L = chains_link [OF E(3) j last le a(2-4)]
  have nodes: "ms_nodes t = (ms_nodes s)(tn \<mapsto> n\<lparr>qn_next := Some a\<rparr>)" by (simp add: t)
  show "walk (ms_nodes t) j (Suc k) = Some a" unfolding nodes by (rule L(5))
  have w: "written_once (ms_nodes s) (ms_nodes t)" unfolding nodes by (rule L(3))
  then show core: "core_ms w s t" by (simp add: core_ms_def c)
  have gl: "gets_ms s j \<le> length (E j)" and pl: "puts_ms s j' \<le> length (E j')" "gets_ms s j' \<le> length (E j')" if "j' < w" for j'
    using chain_repD(3,4) [OF chainsD(2) [OF E(3) j]] chain_repD(3,4) [OF chainsD(2) [OF E(3) that]] by simp_all
  have "desc_ok w t"
    unfolding desc_ok_def
  proof (intro conjI allI impI)
    show "length (ms_queues t) = w" using E(1) by (simp add: t desc_ok_def)
    fix j' assume j': "j' < w"
    have "\<exists>b. walk (ms_nodes s) j' (gets_ms s j') = Some b" "\<exists>b. walk (ms_nodes s) j' (puts_ms s j') = Some b"
      using pl [OF j'] chain_walk_iff [OF chainsD(2) [OF E(3) j']] by blast+
    then have "walk (ms_nodes t) j' (gets_ms s j') = walk (ms_nodes s) j' (gets_ms s j')"
      "walk (ms_nodes t) j' (puts_ms s j') = walk (ms_nodes s) j' (puts_ms s j')"
      using walk_stable [OF w] by auto
    then show "lo (ms_head (ms_queues t ! j')) = walk (ms_nodes t) j' (gets_ms t j')"
      "lo (ms_tail (ms_queues t ! j')) = walk (ms_nodes t) j' (puts_ms t j')"
      using desc_okD [OF E(1) j'] c by (simp_all add: t)
  qed
  moreover have "spec_fifos loose (contents w (gets_ms s) E) (Enqueue key (qn_val m)) (1, j) = Some (contents w (gets_ms s) ?E)"
    using j contents_put [OF j, of "gets_ms s" E "qn_val m"] pl(2) [OF j] by simp
  then have "replay (spec_fifos loose) (replicate w []) (H @ [(i, Enqueue key (qn_val m), 1, j)]) = Some (contents w (gets_ms t) ?E)"
    using E(4) by (simp del: spec_fifos.simps add: c)
  moreover have "(\<Sum>j<w. length (?E j)) = length (filter is_enq (H @ [(i, Enqueue key (qn_val m), 1, j)]))"
  proof -
    have "(\<Sum>j'<w. length (?E j')) = (\<Sum>j'<w. length (E j') + (if j' = j then 1 else 0))" by (rule sum.cong) auto
    also have "\<dots> = (\<Sum>j'<w. length (E j')) + 1" using j by (simp add: sum.distrib)
    finally show ?thesis using E(5) by (simp add: is_enq_def)
  qed
  moreover have "chains w (ms_nodes t) (gets_ms t) (puts_ms t) ?E" using L(2) unfolding nodes c .
  ultimately show "inv_msq loose w opss (t, H @ [(i, Enqueue key (qn_val m), 1, j)])"
    using hist_ok_entry [OF E(2) step] empties_seen_entry [OF E(7) j] E(6) v by (intro inv_msqI [where E = ?E]) auto
  have "own_msq w i' s t" if "i' \<noteq> i" for i'
    unfolding own_msq_def nodes
  proof (intro allI impI)
    fix k' assume n: "\<not> linked w (ms_nodes s) (Node i' k')"
    have "Node i' k' \<noteq> a" using a(1) that by simp
    moreover have "Node i' k' \<noteq> tn" using n last(1) j by (auto simp: linked_def)
    ultimately show "\<not> linked w ((ms_nodes s)(tn \<mapsto> n\<lparr>qn_next := Some a\<rparr>)) (Node i' k') \<and>
        ((ms_nodes s)(tn \<mapsto> n\<lparr>qn_next := Some a\<rparr>)) (Node i' k') = ms_nodes s (Node i' k')"
      using L(4) [of "Node i' k'"] n by auto
  qed
  then show "grd_msq w i s t" using core by (simp add: grd_msq_def)
  show "ms_nodes t b = None \<and> \<not> linked w (ms_nodes t) b" if "ms_nodes s b = None"
  proof -
    have "b \<noteq> tn" "b \<noteq> a" using that last(2) a(3) by auto
    then show ?thesis using that L(4) [of b] chains_unlinked [OF E(3) that] by (auto simp: nodes)
  qed
qed

lemma alloc_step:
  fixes n :: queue_node
  assumes J: "inv_msq loose w opss (s, H)" and a: "ms_nodes s (Node i k) = None"
  defines "t \<equiv> s\<lparr>ms_nodes := (ms_nodes s)(Node i k \<mapsto> n)\<rparr>"
  shows "inv_msq loose w opss (t, H)" "grd_msq w i s t" "linked w (ms_nodes t) b = linked w (ms_nodes s) b" "core_ms w s t"
proof -
  obtain E where E: "desc_ok w s" "hist_ok opss H" "chains w (ms_nodes s) (gets_ms s) (puts_ms s) E"
    "replay (spec_fifos loose) (replicate w []) H = Some (contents w (gets_ms s) E)"
    "(\<Sum>j<w. length (E j)) = length (filter is_enq H)" "loose \<longrightarrow> (\<forall>j<w. 0 \<notin> set (E j))" "empties_seen loose w H"
    by (rule inv_msqE [OF J])
  have un: "\<not> linked w (ms_nodes s) (Node i k)" by (rule chains_unlinked [OF E(3) a])
  have c: "gets_ms t = gets_ms s" "puts_ms t = puts_ms s" by (auto simp: gets_ms_def puts_ms_def t_def)
  have link: "linked w (ms_nodes t) b = linked w (ms_nodes s) b" for b
    unfolding t_def using unlinked_linked [OF un] by simp
  then show "linked w (ms_nodes t) b = linked w (ms_nodes s) b" .
  have "walk (ms_nodes t) j m = walk (ms_nodes s) j m" if "j < w" for j m
    using unlinked_walk [OF un that] by (simp add: t_def)
  then have "desc_ok w t" using E(1) by (simp add: desc_ok_def c) (simp add: t_def)
  moreover have "chains w (ms_nodes t) (gets_ms t) (puts_ms t) E" using chains_private [OF E(3) un] unfolding c by (simp add: t_def)
  ultimately show "inv_msq loose w opss (t, H)" using E by (intro inv_msqI [where E = E]) (simp_all add: c)
  show core: "core_ms w s t"
    using written_once_unlinked [of "ms_nodes s", OF a] unfolding core_ms_def c by (simp add: t_def)
  have "own_msq w j s t" if "j \<noteq> i" for j
    using link that by (simp add: own_msq_def t_def)
  then show "grd_msq w i s t" using core by (simp add: grd_msq_def)
qed

section \<open>Progress\<close>

definition work :: "nat \<Rightarrow> 'm ms_mem_scheme \<Rightarrow> nat" where
  "work w s = lane_work w (ms_nodes s) (gets_ms s) (puts_ms s)"

lemma inv_msq_last:
  assumes "inv_msq loose w opss (s, H)" and "j < w" and "walk (ms_nodes s) j k = Some a" and "ms_nodes s a = Some n"
  shows "qn_next n = None \<longleftrightarrow> k = chain_len (ms_nodes s) j" and "k \<le> chain_len (ms_nodes s) j"
proof -
  obtain E where "chains w (ms_nodes s) (gets_ms s) (puts_ms s) E" by (rule inv_msqE [OF assms(1)])
  from chains_last [OF this assms(2-4)]
  show "qn_next n = None \<longleftrightarrow> k = chain_len (ms_nodes s) j" "k \<le> chain_len (ms_nodes s) j" .
qed

lemma work_mono_core:
  "inv_msq loose w opss (s, H) \<Longrightarrow> inv_msq loose w opss (t, H') \<Longrightarrow> core_ms w s t \<Longrightarrow> work w s \<le> work w t"
  unfolding work_def by (elim inv_msqE, rule lane_work_mono) (auto simp: core_ms_def)

lemma work_less_core:
  "inv_msq loose w opss (s, H) \<Longrightarrow> inv_msq loose w opss (t, H') \<Longrightarrow> core_ms w s t \<Longrightarrow> j < w \<Longrightarrow>
     gets_ms s j < gets_ms t j \<or> puts_ms s j < puts_ms t j \<or> chain_len (ms_nodes s) j < chain_len (ms_nodes t) j \<Longrightarrow>
     work w s < work w t"
  unfolding work_def by (elim inv_msqE, rule lane_work_less) (auto simp: core_ms_def)

lemma work_mono: "inv_msq loose w opss (s, H) \<Longrightarrow> inv_msq loose w opss (t, H') \<Longrightarrow> ord_msq w i s t \<Longrightarrow> work w s \<le> work w t"
  by (rule work_mono_core) (simp_all add: ord_msq_def)

lemma work_less:
  "inv_msq loose w opss (s, H) \<Longrightarrow> inv_msq loose w opss (t, H') \<Longrightarrow> ord_msq w i s t \<Longrightarrow> j < w \<Longrightarrow>
     gets_ms s j < gets_ms t j \<or> puts_ms s j < puts_ms t j \<or> chain_len (ms_nodes s) j < chain_len (ms_nodes t) j \<Longrightarrow>
     work w s < work w t"
  by (rule work_less_core) (simp_all add: ord_msq_def)

lemma work_bound: "inv_msq loose w opss (s, H) \<Longrightarrow> work w s \<le> 3 * total_ops opss"
proof -
  assume J: "inv_msq loose w opss (s, H)"
  obtain E where E: "chains w (ms_nodes s) (gets_ms s) (puts_ms s) E" "hist_ok opss H"
    "(\<Sum>j<w. length (E j)) = length (filter is_enq H)" by (rule inv_msqE [OF J])
  have "work w s \<le> 3 * length (filter is_enq H)" using lane_work_bound [OF E(1)] E(3) by (simp add: work_def)
  also have "\<dots> \<le> 3 * total_ops opss" using length_filter_le [of is_enq H] hist_ok_length [OF E(2)] by linarith
  finally show ?thesis .
qed

text \<open>\<open>n\<close> more rounds are enough from \<open>s\<close> on: each round that fails adds to the work.\<close>

definition enough_ms :: "(failure \<Rightarrow> bool) \<Rightarrow> queue_op list list \<Rightarrow> nat \<Rightarrow> nat \<Rightarrow> 'm ms_mem_scheme \<Rightarrow> bool" where
  "enough_ms T opss w n s \<longleftrightarrow> T No_fuel \<or> 3 * total_ops opss < n + work w s"

lemma enough_ms_0: "enough_ms T opss w 0 s \<Longrightarrow> inv_msq loose w opss (s, H) \<Longrightarrow> T No_fuel"
  using work_bound [of loose w opss s H] by (simp add: enough_ms_def)

lemma enough_ms_Suc: "enough_ms T opss w (Suc n) s \<Longrightarrow> work w s < work w t \<Longrightarrow> enough_ms T opss w n t"
  by (auto simp: enough_ms_def)

lemma enough_ms_start: "T No_fuel \<or> 3 * total_ops opss < n \<Longrightarrow> enough_ms T opss w n s"
  by (auto simp: enough_ms_def)

section \<open>Proof rules\<close>

definition no_wrap_ms :: "'m ms_mem_scheme \<Rightarrow> bool" where
  "no_wrap_ms s \<longleftrightarrow> (\<forall>q\<in>set (ms_queues s). hi (ms_tail q) + 1 < U64)"

abbreviation safe_msq where
  "safe_msq loose w opss T i Q \<equiv> safe no_wrap_ms T (lin_rely (inv_msq loose w opss) (ord_msq w) i)
     (lin_guar (inv_msq loose w opss) (grd_msq w) opss i) Q"

definition ms_local :: "nat \<Rightarrow> nat \<Rightarrow> 'z thread_msq_scheme \<Rightarrow> 'm ms_mem_scheme \<Rightarrow> bool" where
  "ms_local w i l s \<longleftrightarrow> ms_thread_id l = i \<and>
     (\<forall>k\<ge>ms_alloc_next l. ms_nodes s (Node i k) = None \<and> \<not> linked w (ms_nodes s) (Node i k))"

lemma ms_local_stable: "ms_local w i l s \<Longrightarrow> ord_msq w i s t \<Longrightarrow> ms_local w i l t"
  using ord_msqD(5) [of w i s t] by (simp add: ms_local_def)

lemma ms_local_simps [simp]:
  "ms_local w i (count_put_fail l) s = ms_local w i l s" "ms_local w i (count_null l) s = ms_local w i l s"
  "ms_local w i (l\<lparr>seeds := x\<rparr>) s = ms_local w i l s"
  by (simp_all add: ms_local_def count_put_fail_def count_null_def)

lemma ms_more_simps [simp]:
  "thread_msq.more (count_put_fail l) = thread_msq.more l" "thread_msq.more (count_null l) = thread_msq.more l"
  "thread_msq.more (l\<lparr>seeds := x\<rparr>) = thread_msq.more l" "thread_msq.more (l\<lparr>ms_alloc_next := k\<rparr>) = thread_msq.more l"
  by (cases l; simp add: count_put_fail_def count_null_def)+

lemma count_succ_ms:
  assumes "inv_msq loose w opss (s, H)" and j: "j < w" and "no_wrap_ms s" and "walk (ms_nodes s) j (Suc c) = Some b"
  shows "add64 c 1 = c + 1"
proof -
  obtain E where E: "chains w (ms_nodes s) (gets_ms s) (puts_ms s) E" by (rule inv_msqE [OF assms(1)])
  note x = chainsD(2) [OF E j]
  have "Suc c \<le> puts_ms s j + 1" using chain_walk_iff [OF x, of "Suc c"] chain_repD(5) [OF x] assms(4) by simp
  moreover have "puts_ms s j + 1 < U64"
    using assms(3) inv_msq_index [OF assms(1) j] by (simp add: no_wrap_ms_def puts_ms_def)
  ultimately show ?thesis by (intro add64_eq) simp
qed

lemma ms_field_safe:
  assumes J: "inv_msq loose w opss (s, H)" and a: "ms_nodes s a = Some n"
    and k: "\<And>t H' n'. inv_msq loose w opss (t, H') \<Longrightarrow> ord_msq w i s t \<Longrightarrow> proj i H' = proj i H \<Longrightarrow>
      no_wrap_ms t \<Longrightarrow> ms_nodes t a = Some n' \<Longrightarrow> safe_msq loose w opss T i Q (k (f n')) (t, H')"
  shows "safe_msq loose w opss T i Q (ms_field f (Some a) k) (s, H)"
proof -
  have here: "\<exists>n'. ms_nodes t a = Some n'" if "ord_msq w i s t" for t
    using ord_msq_node [OF that a] by metis
  show ?thesis
    unfolding ms_field_def
    apply (rule lin_checked, rule J)
    subgoal for t using here [of t] by auto
    apply (rule lin_load, rule J, simp)
    subgoal premises p for t H'
    proof -
      obtain n' where n': "ms_nodes t a = Some n'" using here [OF p(2)] by blast
      show ?thesis using k [OF p(1,2,4,5) n'] n' by (simp add: ms_node_at_def)
    qed
    done
qed

text \<open>
  What a read descriptor tells: its node was the tail when the read began, its count is that of
  the moment it ended.
\<close>

lemma read_tail_safe:
  assumes J: "inv_msq loose w opss (s, H)" and j: "j < w"
    and k: "\<And>t H' e m a n. inv_msq loose w opss (t, H') \<Longrightarrow> ord_msq w i s t \<Longrightarrow> proj i H' = proj i H \<Longrightarrow>
      lo e = Some a \<Longrightarrow> walk (ms_nodes t) j m = Some a \<Longrightarrow> ms_nodes t a = Some n \<Longrightarrow>
      puts_ms s j \<le> m \<Longrightarrow> m \<le> hi e \<Longrightarrow> hi e \<le> puts_ms t j \<Longrightarrow> safe_msq loose w opss T i Q (k e) (t, H')"
  shows "safe_msq loose w opss T i Q (read_tail j k) (s, H)"
  unfolding read_tail_def load2_def
  apply (rule lin_checked, rule J, erule inv_msq_index, rule j)
  apply (rule lin_load, rule J, simp)
  subgoal premises p for t1 H1
    apply (rule lin_load, rule p, simp)
    subgoal premises q for t H'
    proof -
      obtain a n where a: "walk (ms_nodes t1) j (puts_ms t1 j) = Some a" "ms_nodes t1 a = Some n"
        by (rule inv_msq_walk [OF p(1) j order_refl])
      obtain n' where n': "ms_nodes t a = Some n'" using ord_msq_node [OF q(2) a(2)] by metis
      have "lo (ms_tail (ms_queues t1 ! j)) = Some a" using desc_okD(2) [OF inv_msq_desc [OF p(1)] j] a(1) by simp
      then show ?thesis
        using k [OF q(1) ord_msq_trans [OF p(2) q(2)] _ _ ord_msqD(4) [OF q(2) a(1)] n', of "DW (Some a) (puts_ms t j)"]
          p(4) q(4) ord_msqD(2) [OF p(2)] ord_msqD(2) [OF q(2)] by (simp add: puts_ms_def)
    qed
    done
  done

lemma read_head_safe:
  assumes J: "inv_msq loose w opss (s, H)" and j: "j < w"
    and k: "\<And>t H' e m a n. inv_msq loose w opss (t, H') \<Longrightarrow> ord_msq w i s t \<Longrightarrow> proj i H' = proj i H \<Longrightarrow>
      lo e = Some a \<Longrightarrow> walk (ms_nodes t) j m = Some a \<Longrightarrow> ms_nodes t a = Some n \<Longrightarrow>
      gets_ms s j \<le> m \<Longrightarrow> m \<le> hi e \<Longrightarrow> hi e \<le> gets_ms t j \<Longrightarrow> safe_msq loose w opss T i Q (k e) (t, H')"
  shows "safe_msq loose w opss T i Q (read_head j k) (s, H)"
  unfolding read_head_def load2_def
  apply (rule lin_checked, rule J, erule inv_msq_index, rule j)
  apply (rule lin_load, rule J, simp)
  subgoal premises p for t1 H1
    apply (rule lin_load, rule p, simp)
    subgoal premises q for t H'
    proof -
      obtain a n where a: "walk (ms_nodes t1) j (gets_ms t1 j) = Some a" "ms_nodes t1 a = Some n"
        by (rule inv_msq_walk [OF p(1) j inv_msq_gets [OF p(1) j]])
      obtain n' where n': "ms_nodes t a = Some n'" using ord_msq_node [OF q(2) a(2)] by metis
      have "lo (ms_head (ms_queues t1 ! j)) = Some a" using desc_okD(1) [OF inv_msq_desc [OF p(1)] j] a(1) by simp
      then show ?thesis
        using k [OF q(1) ord_msq_trans [OF p(2) q(2)] _ _ ord_msqD(4) [OF q(2) a(1)] n', of "DW (Some a) (gets_ms t j)"]
          p(4) q(4) ord_msqD(1) [OF p(2)] ord_msqD(1) [OF q(2)] by (simp add: gets_ms_def)
    qed
    done
  done

text \<open>Moving the tail on, for the own node or a pending one: afterwards it is past \<open>m\<close>.\<close>

lemma tail_cae_safe:
  assumes J: "inv_msq loose w opss (s, H)" and j: "j < w" and e: "lo e = Some a" "m \<le> hi e" "hi e \<le> puts_ms s j"
    and w: "walk (ms_nodes s) j m = Some a" "walk (ms_nodes s) j (Suc m) = Some b"
    and k: "\<And>t H' ok. inv_msq loose w opss (t, H') \<Longrightarrow> ord_msq w i s t \<Longrightarrow> proj i H' = proj i H \<Longrightarrow> m < puts_ms t j \<Longrightarrow>
      safe_msq loose w opss T i Q (k ok) (t, H')"
  shows "safe_msq loose w opss T i Q (tail_cae j e (DW (Some b) (add64 (hi e) 1)) k) (s, H)"
  unfolding tail_cae_def
  apply (rule lin_checked, rule J, erule inv_msq_index, rule j)
  apply (rule lin_cas, rule J, simp)
  subgoal premises p for t H'
  proof -
    note wt = ord_msqD(4) [OF p(2) w(1)] ord_msqD(4) [OF p(2) w(2)]
    have "walk (ms_nodes t) j (hi e) = Some a"
      using desc_okD(2) [OF inv_msq_desc [OF p(1)] j] p(6) e(1) by (simp add: puts_ms_def)
    then have m: "hi e = m"
      using apartD [OF chainsD(1) j j _ wt(1)] by (metis inv_msqE [OF p(1)])
    have add: "add64 (hi e) 1 = hi e + 1" using count_succ_ms [OF p(1) j p(5)] wt(2) m by simp
    let ?t = "set_tail j (DW (Some b) (hi e + 1)) t"
    have t: "inv_msq loose w opss (?t, H')" "grd_msq w i t ?t" "ord_msq w i t ?t"
      using tail_step [OF p(1) j p(6), of b] wt(2) m by simp_all
    have "puts_ms ?t j = hi e + 1" using counts_set(1) [OF inv_msq_index [OF p(1) j], of "DW (Some b) (hi e + 1)"] by simp
    then have "safe_msq loose w opss T i Q (k True) (?t, H')"
      using m by (intro k t(1) ord_msq_trans [OF p(2) t(3)] p(4)) simp
    then show ?thesis using t add by (intro exI [of _ "[]"]) simp
  qed
  subgoal premises p for t H'
  proof -
    have le: "puts_ms s j \<le> puts_ms t j" by (rule ord_msqD(2) [OF p(2)])
    have "m \<noteq> puts_ms t j"
    proof
      assume m: "m = puts_ms t j"
      then have "hi e = puts_ms t j" using le e(2,3) by linarith
      moreover have "lo (ms_tail (ms_queues t ! j)) = Some a"
        using desc_okD(2) [OF inv_msq_desc [OF p(1)] j] ord_msqD(4) [OF p(2) w(1)] m by simp
      ultimately have "ms_tail (ms_queues t ! j) = e"
        using e(1) by (simp add: puts_ms_def dword.expand)
      then show False using p(6) by simp
    qed
    then show ?thesis using le e(2,3) by (intro k [OF p(1,2,4)]) linarith
  qed
  done

section \<open>Enqueue\<close>

definition private_ms :: "nat \<Rightarrow> nat \<Rightarrow> qaddr \<Rightarrow> int \<Rightarrow> 'm ms_mem_scheme \<Rightarrow> bool" where
  "private_ms w i a v s \<longleftrightarrow> (\<exists>k. a = Node i k) \<and> \<not> linked w (ms_nodes s) a \<and>
     (\<exists>n. ms_nodes s a = Some n \<and> qn_val n = v \<and> qn_next n = None)"

lemma private_ms_stable: "private_ms w i a v s \<Longrightarrow> ord_msq w i s t \<Longrightarrow> private_ms w i a v t"
  using ord_msqD(5) [of w i s t] by (auto simp: private_ms_def)

text \<open>What holds when an enqueue into queue \<open>j\<close> returns, to the thread with the locals \<open>l0\<close> before it.\<close>

definition enq_post :: "bool \<Rightarrow> nat \<Rightarrow> queue_op list list \<Rightarrow> nat \<Rightarrow> nat \<Rightarrow> int \<Rightarrow> int \<Rightarrow> 'z \<Rightarrow> (queue_op \<times> int \<times> nat) list \<Rightarrow>
    int \<times> 'z thread_msq_scheme \<Rightarrow> 'm ms_mem_scheme \<times> (queue_op, int \<times> nat) history \<Rightarrow> bool" where
  "enq_post loose w opss i j key v m P x y \<longleftrightarrow> inv_msq loose w opss y \<and> fst x = 1 \<and> ms_local w i (snd x) (fst y) \<and>
     thread_msq.more (snd x) = m \<and> proj i (snd y) = P @ [(Enqueue key v, 1, j)]"

text \<open>The exchange that links the node, and what follows it.\<close>

lemma ms_enq_cae_safe:
  assumes J: "inv_msq loose w opss (s, H)" and j: "j < w"
    and e: "lo e = Some tn" "m \<le> hi e" "hi e \<le> puts_ms s j" and tn: "walk (ms_nodes s) j m = Some tn" "ms_nodes s tn = Some n0"
    and a: "private_ms w i a v s" "loose \<longrightarrow> v \<noteq> 0" and l: "ms_local w i l s" "thread_msq.more l = mo"
    and P: "proj i H = P" and step: "i < length opss" "prefix (map fst P @ [Enqueue key v]) (opss ! i)"
    and again: "\<And>t H' n. inv_msq loose w opss (t, H') \<Longrightarrow> ord_msq w i s t \<Longrightarrow> proj i H' = P \<Longrightarrow>
      ms_nodes t tn = Some n \<Longrightarrow> qn_next n \<noteq> None \<Longrightarrow>
      safe_msq loose w opss T i (enq_post loose w opss i j key v mo P) p (t, H')"
  shows "safe_msq loose w opss T i (enq_post loose w opss i j key v mo P)
    (enq_cae (Some tn) a (\<lambda>ok. if ok then tail_cae j e (DW (Some a) (add64 (hi e) 1)) (\<lambda>_. Ret (1, l)) else p)) (s, H)"
  unfolding enq_cae_def
  apply (rule lin_checked, rule J)
  subgoal for t H' using ord_msq_node [of w i s t tn n0, OF _ tn(2)] by auto
  apply (rule lin_cas, rule J, simp)
  subgoal premises p for t H'
  proof -
    obtain n where n: "ms_nodes t tn = Some n" using ord_msq_node [OF p(2) tn(2)] by metis
    have nx: "qn_next n = None" using p(6) n by (simp add: ms_node_at_def)
    have le: "m \<le> puts_ms t j" using e(2,3) ord_msqD(2) [OF p(2), of j] by linarith
    obtain ka na where a': "a = Node i ka" "\<not> linked w (ms_nodes t) a" "ms_nodes t a = Some na" "qn_next na = None" "qn_val na = v"
      using private_ms_stable [OF a(1) p(2)] unfolding private_ms_def by blast
    have P': "proj i H' = P" using p(4) P by simp
    let ?t = "ms_link (Some tn) (Some a) t" and ?X = "[(i, Enqueue key v, 1, j)]"
    note L = link_step [OF p(1) j ord_msqD(4) [OF p(2) tn(1)] n nx le a'(1-4), unfolded a'(5), OF a(2) step(1), of key,
        unfolded P', OF step(2)]
    have loc: "ms_local w i l ?t" using ms_local_stable [OF l(1) p(2)] L(5) by (simp add: ms_local_def)
    have wt: "walk (ms_nodes ?t) j m = Some tn"
      using L(4) walk_stable [of "ms_nodes t" "ms_nodes ?t"] ord_msqD(4) [OF p(2) tn(1)] unfolding core_ms_def by blast
    have "safe_msq loose w opss T i (enq_post loose w opss i j key v mo P)
      (tail_cae j e (DW (Some a) (add64 (hi e) 1)) (\<lambda>_. Ret (1, l))) (?t, H' @ ?X)"
    proof (rule tail_cae_safe [OF L(1) j e(1,2) _ wt L(3)])
      show "hi e \<le> puts_ms ?t j"
        using e(3) ord_msqD(2) [OF p(2), of j] L(4) unfolding core_ms_def by (meson le_trans)
      fix u K assume u: "inv_msq loose w opss (u, K)" "ord_msq w i ?t u" "proj i K = proj i (H' @ ?X)"
      show "safe_msq loose w opss T i (enq_post loose w opss i j key v mo P) (Ret (1, l)) (u, K)"
      proof (rule lin_ret, rule u(1))
        fix u' K' assume u': "inv_msq loose w opss (u', K')" "ord_msq w i u u'" "proj i K' = proj i K"
        show "enq_post loose w opss i j key v mo P (1, l) (u', K')"
          using u' u(3) P' l(2) ms_local_stable [OF ms_local_stable [OF loc u(2)] u'(2)] by (simp add: enq_post_def)
      qed
    qed
    moreover have "hist_step opss i H' (H' @ ?X)" using step P' by (intro hist_step_entry) simp_all
    ultimately show ?thesis using L(1,2) by (intro exI [of _ ?X]) simp
  qed
  subgoal premises p for t H'
  proof -
    obtain n where n: "ms_nodes t tn = Some n" using ord_msq_node [OF p(2) tn(2)] by metis
    have "qn_next n \<noteq> None" using p(6) n by (simp add: ms_node_at_def)
    then show ?thesis using again [OF p(1,2) _ n] p(4) P by simp
  qed
  done

lemma ms_enqueue_loop_safe:
  assumes "inv_msq loose w opss (s, H)" and "j < w" and "private_ms w i a v s" and "loose \<longrightarrow> v \<noteq> 0"
    and "ms_local w i l s" and "thread_msq.more l = mo" and "proj i H = P"
    and "i < length opss" and "prefix (map fst P @ [Enqueue key v]) (opss ! i)" and "enough_ms T opss w n s"
  shows "safe_msq loose w opss T i (enq_post loose w opss i j key v mo P) (ms_enqueue_loop j n a l) (s, H)"
  using assms
proof (induction n arbitrary: s H l)
  case 0
  then show ?case using enough_ms_0 by simp
next
  case (Suc n)
  note j = Suc.prems(2) and step = Suc.prems(8,9)
  let ?safe = "safe_msq loose w opss T i (enq_post loose w opss i j key v mo P)"
  have again: "?safe (ms_enqueue_loop j n a (count_put_fail l)) (u, K)"
    if "inv_msq loose w opss (u, K)" "ord_msq w i s u" "proj i K = P" "work w s < work w u" for u K
    by (rule Suc.IH [OF that(1) j private_ms_stable [OF Suc.prems(3) that(2)] Suc.prems(4) _ _ that(3) step
        enough_ms_Suc [OF Suc.prems(10) that(4)]])
      (use ms_local_stable [OF Suc.prems(5) that(2)] Suc.prems(6) in simp_all)
  show ?case
    unfolding ms_enqueue_loop.simps
  proof (rule read_tail_safe [OF Suc.prems(1) j])
    fix t H1 e m tn n0
    assume t: "inv_msq loose w opss (t, H1)" "ord_msq w i s t" "proj i H1 = proj i H"
      and e: "lo e = Some tn" "walk (ms_nodes t) j m = Some tn" "ms_nodes t tn = Some n0"
      "puts_ms s j \<le> m" "m \<le> hi e" "hi e \<le> puts_ms t j"
    show "?safe (ms_field qn_next (lo e) (\<lambda>nx. if nx = None then enq_cae (lo e) a (\<lambda>ok.
        if ok then tail_cae j e (DW (Some a) (add64 (hi e) 1)) (\<lambda>_. Ret (1, l)) else ms_enqueue_loop j n a (count_put_fail l))
      else ms_field qn_next (lo e) (\<lambda>nx. tail_cae j e (DW nx (add64 (hi e) 1)) (\<lambda>_. ms_enqueue_loop j n a (count_put_fail l))))) (t, H1)"
      unfolding e(1)
    proof (rule ms_field_safe [OF t(1) e(3)])
      fix u K n1
      assume u: "inv_msq loose w opss (u, K)" "ord_msq w i t u" "proj i K = proj i H1" "ms_nodes u tn = Some n1"
      note su = ord_msq_trans [OF t(2) u(2)] and wu = ord_msqD(4) [OF u(2) e(2)]
      have pu: "hi e \<le> puts_ms u j" using e(6) ord_msqD(2) [OF u(2), of j] by linarith
      have P: "proj i K = P" using u(3) t(3) Suc.prems(7) by simp
      show "?safe (if qn_next n1 = None then enq_cae (Some tn) a (\<lambda>ok.
          if ok then tail_cae j e (DW (Some a) (add64 (hi e) 1)) (\<lambda>_. Ret (1, l)) else ms_enqueue_loop j n a (count_put_fail l))
        else ms_field qn_next (Some tn) (\<lambda>nx. tail_cae j e (DW nx (add64 (hi e) 1)) (\<lambda>_. ms_enqueue_loop j n a (count_put_fail l)))) (u, K)"
      proof (cases "qn_next n1")
        case None
        have "?safe (enq_cae (Some tn) a (\<lambda>ok.
          if ok then tail_cae j e (DW (Some a) (add64 (hi e) 1)) (\<lambda>_. Ret (1, l)) else ms_enqueue_loop j n a (count_put_fail l))) (u, K)"
        proof (rule ms_enq_cae_safe [OF u(1) j e(1,5) pu wu u(4) private_ms_stable [OF Suc.prems(3) su] Suc.prems(4)
              ms_local_stable [OF Suc.prems(5) su] Suc.prems(6) P step])
          fix x X nx assume x: "inv_msq loose w opss (x, X)" "ord_msq w i u x" "proj i X = P" "ms_nodes x tn = Some nx" "qn_next nx \<noteq> None"
          have "m = chain_len (ms_nodes u) j" "m \<noteq> chain_len (ms_nodes x) j" "m \<le> chain_len (ms_nodes x) j"
            using inv_msq_last [OF u(1) j wu u(4)] None inv_msq_last [OF x(1) j ord_msqD(4) [OF x(2) wu] x(4)] x(5) by simp_all
          then have "work w u < work w x" by (intro work_less [OF u(1) x(1,2) j]) simp
          then have "work w s < work w x" using work_mono [OF Suc.prems(1) u(1) su] by simp
          then show "?safe (ms_enqueue_loop j n a (count_put_fail l)) (x, X)"
            by (rule again [OF x(1) ord_msq_trans [OF su x(2)] x(3)])
        qed
        then show ?thesis using None by simp
      next
        case (Some b)
        have "?safe (ms_field qn_next (Some tn) (\<lambda>nx. tail_cae j e (DW nx (add64 (hi e) 1)) (\<lambda>_. ms_enqueue_loop j n a (count_put_fail l)))) (u, K)"
        proof (rule ms_field_safe [OF u(1,4)])
          fix x X n2 assume x: "inv_msq loose w opss (x, X)" "ord_msq w i u x" "proj i X = proj i K" "ms_nodes x tn = Some n2"
          have nx: "qn_next n2 = Some b" using ord_msq_node [OF x(2) u(4)] Some x(4) by (metis option.inject)
          note wx = ord_msqD(4) [OF x(2) wu] and sx = ord_msq_trans [OF su x(2)]
          show "?safe (tail_cae j e (DW (qn_next n2) (add64 (hi e) 1)) (\<lambda>_. ms_enqueue_loop j n a (count_put_fail l))) (x, X)"
            unfolding nx
          proof (rule tail_cae_safe [OF x(1) j e(1,5) _ wx])
            show "hi e \<le> puts_ms x j" using pu ord_msqD(2) [OF x(2), of j] by linarith
            show "walk (ms_nodes x) j (Suc m) = Some b" using walk_next [OF wx x(4)] nx by simp
            fix y Y assume y: "inv_msq loose w opss (y, Y)" "ord_msq w i x y" "proj i Y = proj i X" "m < puts_ms y j"
            note sy = ord_msq_trans [OF sx y(2)]
            have "work w s < work w y" by (rule work_less [OF Suc.prems(1) y(1) sy j]) (use y(4) e(4) in simp)
            then show "?safe (ms_enqueue_loop j n a (count_put_fail l)) (y, Y)"
              by (intro again [OF y(1) sy]) (use y(3) x(3) P in simp_all)
          qed
        qed
        then show ?thesis using Some by simp
      qed
    qed
  qed
qed

lemma ms_enqueue_safe:
  assumes J: "inv_msq loose w opss (s, H)" and "j < w" and v: "loose \<longrightarrow> v \<noteq> 0"
    and l: "ms_local w i l s" "thread_msq.more l = mo" and P: "proj i H = P"
    and step: "i < length opss" "prefix (map fst P @ [Enqueue key v]) (opss ! i)" and n: "enough_ms T opss w n s"
  shows "safe_msq loose w opss T i (enq_post loose w opss i j key v mo P) (ms_enqueue n j key v l) (s, H)"
  unfolding ms_enqueue_def create_ms_node_def Let_def
  apply (rule lin_store, rule J)
  subgoal premises q for t H'
  proof -
    let ?a = "Node (ms_thread_id l) (ms_alloc_next l)" and ?n = "\<lparr>qn_key = key, qn_val = v, qn_next = None\<rparr>"
    let ?t = "t\<lparr>ms_nodes := (ms_nodes t)(?a \<mapsto> ?n)\<rparr>" and ?l = "l\<lparr>ms_alloc_next := ms_alloc_next l + 1\<rparr>"
    have lt: "ms_local w i l t" by (rule ms_local_stable [OF l(1) q(2)])
    then have i: "ms_thread_id l = i" and a: "ms_nodes t (Node i (ms_alloc_next l)) = None" "\<not> linked w (ms_nodes t) (Node i (ms_alloc_next l))"
      by (auto simp: ms_local_def)
    note W = alloc_step [OF q(1) a(1), of ?n, folded i]
    have "ms_local w i ?l ?t" using lt W(3) by (auto simp: ms_local_def i)
    moreover have "private_ms w i ?a v ?t" using a W(3) by (simp add: private_ms_def i)
    moreover have "enough_ms T opss w n ?t"
    proof -
      have "ord_msq w i' t ?t" if "i' \<noteq> i" for i' using W(2) that i grd_ord_ms [of i i'] by simp
      then have "ord_msq w (Suc i) t ?t" by simp
      then have "work w t \<le> work w ?t" by (rule work_mono [OF q(1) W(1)])
      then show ?thesis
        using n work_mono [OF J q(1,2)] by (auto simp: enough_ms_def)
    qed
    moreover have "proj i H' = P" "thread_msq.more ?l = mo" using q(4) P l(2) by simp_all
    ultimately have "safe_msq loose w opss T i (enq_post loose w opss i j key v mo P) (ms_enqueue_loop j n ?a ?l) (?t, H')"
      using assms W(1) by (intro ms_enqueue_loop_safe) simp_all
    then show ?thesis using W i by (intro exI [of _ "[]"]) simp
  qed
  done

section \<open>Dequeue\<close>

text \<open>
  A dequeue takes the front value, or finds the queue empty. With \<open>loose\<close> the second is not
  recorded, for the caller tries elsewhere; it then knows that everything whose tail move was
  done before, \<open>p\<close> values, has been dequeued.
\<close>

definition deq_post :: "bool \<Rightarrow> nat \<Rightarrow> queue_op list list \<Rightarrow> nat \<Rightarrow> nat \<Rightarrow> nat \<Rightarrow> 'z \<Rightarrow> (queue_op \<times> int \<times> nat) list \<Rightarrow>
    int \<times> 'z thread_msq_scheme \<Rightarrow> 'm ms_mem_scheme \<times> (queue_op, int \<times> nat) history \<Rightarrow> bool" where
  "deq_post loose w opss i j p m P x y \<longleftrightarrow> inv_msq loose w opss y \<and> ms_local w i (snd x) (fst y) \<and>
     thread_msq.more (snd x) = m \<and>
     (loose \<and> fst x = 0 \<and> proj i (snd y) = P \<and> p \<le> gets_ms (fst y) j \<or>
      (loose \<longrightarrow> fst x \<noteq> 0) \<and> proj i (snd y) = P @ [(Dequeue, fst x, j)])"

text \<open>The head's node has no successor: the queue is empty.\<close>

lemma head_last_ms:
  assumes J: "inv_msq loose w opss (s, H)" and j: "j < w"
    and hd: "walk (ms_nodes s) j k = Some a" "k \<le> gets_ms s j" "ms_nodes s a = Some n" "qn_next n = None"
  shows "gets_ms s j = k" "puts_ms s j = k" "walk (ms_nodes s) j (Suc (gets_ms s j)) = None"
proof -
  obtain E where "chains w (ms_nodes s) (gets_ms s) (puts_ms s) E" by (rule inv_msqE [OF J])
  note x = chainsD(2) [OF this j]
  have k: "k = length (E j)" using chain_last [OF x hd(1,3)] hd(4) by simp
  then show "gets_ms s j = k" "puts_ms s j = k" using chain_repD(3,4) [OF x] hd(2) by simp_all
  then show "walk (ms_nodes s) j (Suc (gets_ms s j)) = None" using chain_repD(2) [OF x] k by simp
qed

lemma ms_empty_safe:
  assumes J: "inv_msq loose w opss (s, H)" and j: "j < w"
    and hd: "walk (ms_nodes s) j k = Some a" "k \<le> gets_ms s j" "ms_nodes s a = Some n0" and p: "p \<le> puts_ms s j"
    and l: "ms_local w i l s" "thread_msq.more l = mo"
    and P: "proj i H = P" and step: "i < length opss" "prefix (map fst P @ [Dequeue]) (opss ! i)"
    and again: "\<And>t H' n b. inv_msq loose w opss (t, H') \<Longrightarrow> ord_msq w i s t \<Longrightarrow> proj i H' = P \<Longrightarrow>
      ms_nodes t a = Some n \<Longrightarrow> qn_next n = Some b \<Longrightarrow> safe_msq loose w opss T i (deq_post loose w opss i j p mo P) (q (Some b)) (t, H')"
  shows "safe_msq loose w opss T i (deq_post loose w opss i j p mo P)
    (ms_field qn_next (Some a) (\<lambda>nx. if nx = None then Ret (0, count_null l) else q nx)) (s, H)"
  unfolding ms_field_def
  apply (rule lin_checked, rule J)
  subgoal for t H' using ord_msq_node [of w i s t a n0, OF _ hd(3)] by auto
  apply (rule lin_load_point, rule J)
  subgoal premises u for t H'
  proof -
    obtain n where n: "ms_nodes t a = Some n" using ord_msq_node [OF u(2) hd(3)] by metis
    have P': "proj i H' = P" using u(4) P by simp
    show ?thesis
    proof (cases "qn_next n")
      case (Some b)
      then show ?thesis
        using again [OF u(1,2) P' n Some] u(1) n by (intro exI [of _ "[]"]) (simp add: ms_node_at_def)
    next
      case None
      let ?X = "if loose then [] else [(i, Dequeue, 0, j)]"
      have k: "k \<le> gets_ms t j" using hd(2) ord_msqD(1) [OF u(2), of j] by linarith
      note last = head_last_ms [OF u(1) j ord_msqD(4) [OF u(2) hd(1)] k n None]
      have J': "inv_msq loose w opss (t, H' @ ?X)"
        using u(1) empty_step [OF u(1) j last(3) step(1)] step(2) P' by (cases loose) simp_all
      have "safe_msq loose w opss T i (deq_post loose w opss i j p mo P) (Ret (0, count_null l)) (t, H' @ ?X)"
      proof (rule lin_ret, rule J')
        fix t' K assume t': "inv_msq loose w opss (t', K)" "ord_msq w i t t'" "proj i K = proj i (H' @ ?X)"
        have "p \<le> gets_ms t' j"
          using p ord_msqD(2) [OF u(2), of j] last(1,2) ord_msqD(1) [OF t'(2), of j] by linarith
        then show "deq_post loose w opss i j p mo P (0, count_null l) (t', K)"
          using t' P' l(2) ms_local_stable [OF ms_local_stable [OF l(1) u(2)] t'(2)] by (simp add: deq_post_def)
      qed
      moreover have "hist_step opss i H' (H' @ ?X)" using step P' by (auto intro: hist_step_entry)
      ultimately show ?thesis using J' None n by (intro exI [of _ ?X]) (simp add: ms_node_at_def)
    qed
  qed
  done

text \<open>The exchange that takes the head, and the two loads that follow it.\<close>

lemma ms_deq_cae_safe:
  assumes J: "inv_msq loose w opss (s, H)" and j: "j < w"
    and e: "lo e = Some a" "m \<le> hi e" "hi e \<le> gets_ms s j"
    and hd: "walk (ms_nodes s) j m = Some a" "walk (ms_nodes s) j (Suc m) = Some b" "m < puts_ms s j"
    and l: "ms_local w i l s" "thread_msq.more l = mo"
    and P: "proj i H = P" and step: "i < length opss" "prefix (map fst P @ [Dequeue]) (opss ! i)"
    and again: "\<And>t H'. inv_msq loose w opss (t, H') \<Longrightarrow> ord_msq w i s t \<Longrightarrow> proj i H' = P \<Longrightarrow> m < gets_ms t j \<Longrightarrow>
      safe_msq loose w opss T i (deq_post loose w opss i j p mo P) q (t, H')"
  shows "safe_msq loose w opss T i (deq_post loose w opss i j p mo P)
    (deq_cae j e (DW (Some b) (add64 (hi e) 1)) (\<lambda>ok.
       if ok then ms_field qn_next (Some a) (\<lambda>nx. ms_field qn_val nx (\<lambda>v. Ret (v, l))) else q)) (s, H)"
  unfolding deq_cae_def
  apply (rule lin_checked, rule J, erule inv_msq_index, rule j)
  apply (rule lin_cas, rule J, simp)
  subgoal premises u for t H'
  proof -
    let ?Q = "deq_post loose w opss i j p mo P"
    note wt = ord_msqD(4) [OF u(2) hd(1)] ord_msqD(4) [OF u(2) hd(2)]
    have "walk (ms_nodes t) j (hi e) = Some a"
      using desc_okD(1) [OF inv_msq_desc [OF u(1)] j] u(6) e(1) by (simp add: gets_ms_def)
    then have m: "hi e = m" using apartD [OF chainsD(1) j j _ wt(1)] by (metis inv_msqE [OF u(1)])
    have add: "add64 (hi e) 1 = hi e + 1" using count_succ_ms [OF u(1) j u(5)] wt(2) m by simp
    obtain n where n: "ms_nodes t b = Some n" using inv_msq_alloc [OF u(1) j wt(2)] by blast
    obtain na where na: "ms_nodes t a = Some na" using inv_msq_alloc [OF u(1) j wt(1)] by blast
    have lt: "hi e < puts_ms t j" using hd(3) ord_msqD(2) [OF u(2), of j] m by linarith
    have P': "proj i H' = P" using u(4) P by simp
    let ?t = "set_head j (DW (Some b) (hi e + 1)) t" and ?X = "[(i, Dequeue, qn_val n, j)]"
    note head = head_step [OF u(1) j u(6) wt(2) [folded m] n lt step(1), unfolded P', OF step(2)]
    have loc: "ms_local w i l ?t" using ms_local_stable [OF ms_local_stable [OF l(1) u(2)] head(4)] .
    have nx: "qn_next na = Some b" using walk_next [OF wt(1) na] wt(2) by simp
    have "safe_msq loose w opss T i ?Q (ms_field qn_next (Some a) (\<lambda>nx. ms_field qn_val nx (\<lambda>v. Ret (v, l)))) (?t, H' @ ?X)"
    proof (rule ms_field_safe [OF head(1)])
      show "ms_nodes ?t a = Some na" using na by simp
      fix x K m' assume x: "inv_msq loose w opss (x, K)" "ord_msq w i ?t x" "proj i K = proj i (H' @ ?X)" "ms_nodes x a = Some m'"
      have nx': "qn_next m' = Some b"
        using ord_msq_node [OF x(2), of a na] na nx x(4) by (metis option.inject set_simps(2))
      obtain n' where n': "ms_nodes x b = Some n'" "qn_val n' = qn_val n"
        using ord_msq_node [OF x(2), of b n] n by auto
      show "safe_msq loose w opss T i ?Q (ms_field qn_val (qn_next m') (\<lambda>v. Ret (v, l))) (x, K)"
        unfolding nx'
      proof (rule ms_field_safe [OF x(1) n'(1)])
        fix y Y n2 assume y: "inv_msq loose w opss (y, Y)" "ord_msq w i x y" "proj i Y = proj i K" "ms_nodes y b = Some n2"
        have v: "qn_val n2 = qn_val n" using ord_msq_node [OF y(2) n'(1)] n'(2) y(4) by (metis option.inject)
        show "safe_msq loose w opss T i ?Q (Ret (qn_val n2, l)) (y, Y)"
          unfolding v
        proof (rule lin_ret, rule y(1))
          fix z Z assume z: "inv_msq loose w opss (z, Z)" "ord_msq w i y z" "proj i Z = proj i Y"
          have "ms_local w i l z"
            using ms_local_stable [OF ms_local_stable [OF ms_local_stable [OF loc x(2)] y(2)] z(2)] .
          then show "?Q (qn_val n, l) (z, Z)"
            using z y(3) x(3) P' l(2) head(3) by (simp add: deq_post_def)
        qed
      qed
    qed
    moreover have "hist_step opss i H' (H' @ ?X)" using step P' by (intro hist_step_entry) simp_all
    ultimately show ?thesis using head(1,2) add by (intro exI [of _ ?X]) simp
  qed
  subgoal premises u for t H'
  proof -
    have le: "gets_ms s j \<le> gets_ms t j" by (rule ord_msqD(1) [OF u(2)])
    have "m \<noteq> gets_ms t j"
    proof
      assume m: "m = gets_ms t j"
      then have "hi e = gets_ms t j" using le e(2,3) by linarith
      moreover have "lo (ms_head (ms_queues t ! j)) = Some a"
        using desc_okD(1) [OF inv_msq_desc [OF u(1)] j] ord_msqD(4) [OF u(2) hd(1)] m by simp
      ultimately have "ms_head (ms_queues t ! j) = e" using e(1) by (simp add: gets_ms_def dword.expand)
      then show False using u(6) by simp
    qed
    then have "m < gets_ms t j" using le e(2,3) by linarith
    then show ?thesis using again [OF u(1,2)] u(4) P by simp
  qed
  done

lemma ms_dequeue_safe:
  assumes "inv_msq loose w opss (s, H)" and "j < w" and "ms_local w i l s" and "thread_msq.more l = mo" and "proj i H = P"
    and "i < length opss" and "prefix (map fst P @ [Dequeue]) (opss ! i)" and "p \<le> puts_ms s j" and "enough_ms T opss w n s"
  shows "safe_msq loose w opss T i (deq_post loose w opss i j p mo P) (ms_dequeue n j l) (s, H)"
  using assms
proof (induction n arbitrary: s H)
  case 0
  then show ?case using enough_ms_0 by simp
next
  case (Suc n)
  note j = Suc.prems(2) and step = Suc.prems(6,7)
  let ?safe = "safe_msq loose w opss T i (deq_post loose w opss i j p mo P)"
  have again: "?safe (ms_dequeue n j l) (u, K)"
    if "inv_msq loose w opss (u, K)" "ord_msq w i s u" "proj i K = P" "work w s < work w u" for u K
    by (rule Suc.IH [OF that(1) j ms_local_stable [OF Suc.prems(3) that(2)] Suc.prems(4) that(3) step
        le_trans [OF Suc.prems(8) ord_msqD(2) [OF that(2)]] enough_ms_Suc [OF Suc.prems(9) that(4)]])
  show ?case
    unfolding ms_dequeue.simps
  proof (rule read_head_safe [OF Suc.prems(1) j])
    fix t H1 e m a n0
    assume t: "inv_msq loose w opss (t, H1)" "ord_msq w i s t" "proj i H1 = proj i H"
      and e: "lo e = Some a" "walk (ms_nodes t) j m = Some a" "ms_nodes t a = Some n0"
      "gets_ms s j \<le> m" "m \<le> hi e" "hi e \<le> gets_ms t j"
    show "?safe (read_tail j (\<lambda>tail. if lo e = lo tail then ms_field qn_next (lo e) (\<lambda>nx. if nx = None then Ret (0, count_null l)
        else ms_field qn_next (lo tail) (\<lambda>nx. tail_cae j tail (DW nx (add64 (hi tail) 1)) (\<lambda>_. ms_dequeue n j l)))
      else ms_field qn_next (lo e) (\<lambda>nx. deq_cae j e (DW nx (add64 (hi e) 1)) (\<lambda>ok.
        if ok then ms_field qn_next (lo e) (\<lambda>nx. ms_field qn_val nx (\<lambda>v. Ret (v, l))) else ms_dequeue n j l)))) (t, H1)"
    proof (rule read_tail_safe [OF t(1) j])
      fix u K e' m' a' n'
      assume u: "inv_msq loose w opss (u, K)" "ord_msq w i t u" "proj i K = proj i H1"
        and e': "lo e' = Some a'" "walk (ms_nodes u) j m' = Some a'" "ms_nodes u a' = Some n'"
        "puts_ms t j \<le> m'" "m' \<le> hi e'" "hi e' \<le> puts_ms u j"
      have su: "ord_msq w i s u" by (rule ord_msq_trans [OF t(2) u(2)])
      have P: "proj i K = P" using u(3) t(3) Suc.prems(5) by simp
      note wu = ord_msqD(4) [OF u(2) e(2)]
      obtain nu where nu: "ms_nodes u a = Some nu" using ord_msq_node [OF u(2) e(3)] by metis
      have gu: "hi e \<le> gets_ms u j" using e(6) ord_msqD(1) [OF u(2), of j] by linarith
      have mp: "m \<le> puts_ms t j" using e(5,6) inv_msq_gets [OF t(1) j] by linarith
      have loc: "ms_local w i l u" by (rule ms_local_stable [OF Suc.prems(3) su])
      show "?safe (if lo e = lo e' then ms_field qn_next (lo e) (\<lambda>nx. if nx = None then Ret (0, count_null l)
          else ms_field qn_next (lo e') (\<lambda>nx. tail_cae j e' (DW nx (add64 (hi e') 1)) (\<lambda>_. ms_dequeue n j l)))
        else ms_field qn_next (lo e) (\<lambda>nx. deq_cae j e (DW nx (add64 (hi e) 1)) (\<lambda>ok.
          if ok then ms_field qn_next (lo e) (\<lambda>nx. ms_field qn_val nx (\<lambda>v. Ret (v, l))) else ms_dequeue n j l))) (u, K)"
      proof (cases "a = a'")
        case True
        have mm: "m = m'" using apartD [OF chainsD(1) j j wu, where k' = m'] e'(2) True by (metis inv_msqE [OF u(1)])
        have "?safe (ms_field qn_next (Some a) (\<lambda>nx. if nx = None then Ret (0, count_null l)
          else ms_field qn_next (Some a) (\<lambda>nx. tail_cae j e' (DW nx (add64 (hi e') 1)) (\<lambda>_. ms_dequeue n j l)))) (u, K)"
        proof (rule ms_empty_safe [OF u(1) j wu _ nu _ loc Suc.prems(4) P step])
          show "m \<le> gets_ms u j" using e(5) gu by linarith
          show "p \<le> puts_ms u j" using Suc.prems(8) ord_msqD(2) [OF su, of j] by linarith
          fix x X nx b assume x: "inv_msq loose w opss (x, X)" "ord_msq w i u x" "proj i X = P" "ms_nodes x a = Some nx" "qn_next nx = Some b"
          show "?safe (ms_field qn_next (Some a) (\<lambda>nx. tail_cae j e' (DW nx (add64 (hi e') 1)) (\<lambda>_. ms_dequeue n j l))) (x, X)"
          proof (rule ms_field_safe [OF x(1,4)])
            fix y Y n2 assume y: "inv_msq loose w opss (y, Y)" "ord_msq w i x y" "proj i Y = proj i X" "ms_nodes y a = Some n2"
            have nx: "qn_next n2 = Some b" using ord_msq_node [OF y(2) x(4)] x(5) y(4) by (metis option.inject)
            note uy = ord_msq_trans [OF x(2) y(2)]
            note wy = ord_msqD(4) [OF uy wu]
            show "?safe (tail_cae j e' (DW (qn_next n2) (add64 (hi e') 1)) (\<lambda>_. ms_dequeue n j l)) (y, Y)"
              unfolding nx
            proof (rule tail_cae_safe [OF y(1) j _ _ _ wy])
              show "lo e' = Some a" "m \<le> hi e'" using e' True mm by simp_all
              show "hi e' \<le> puts_ms y j" using e'(6) ord_msqD(2) [OF uy, of j] by linarith
              show "walk (ms_nodes y) j (Suc m) = Some b" using walk_next [OF wy y(4)] nx by simp
              fix z Z assume z: "inv_msq loose w opss (z, Z)" "ord_msq w i y z" "proj i Z = proj i Y" "m < puts_ms z j"
              have sz: "ord_msq w i s z" using ord_msq_trans [OF ord_msq_trans [OF su uy] z(2)] .
              have "puts_ms s j \<le> m" using e'(4) mm ord_msqD(2) [OF t(2), of j] by linarith
              then have "work w s < work w z" using z(4) by (intro work_less [OF Suc.prems(1) z(1) sz j]) simp
              then show "?safe (ms_dequeue n j l) (z, Z)"
                by (intro again [OF z(1) sz]) (use z(3) y(3) x(3) in simp_all)
            qed
          qed
        qed
        then show ?thesis unfolding e(1) e'(1) True [symmetric] by simp
      next
        case False
        have "m \<noteq> m'" using False wu e'(2) by auto
        then have lt: "m < puts_ms u j" using mp e'(4-6) by linarith
        have "?safe (ms_field qn_next (Some a) (\<lambda>nx. deq_cae j e (DW nx (add64 (hi e) 1)) (\<lambda>ok.
          if ok then ms_field qn_next (Some a) (\<lambda>nx. ms_field qn_val nx (\<lambda>v. Ret (v, l))) else ms_dequeue n j l))) (u, K)"
        proof (rule ms_field_safe [OF u(1) nu])
          fix x X n2 assume x: "inv_msq loose w opss (x, X)" "ord_msq w i u x" "proj i X = proj i K" "ms_nodes x a = Some n2"
          note wx = ord_msqD(4) [OF x(2) wu] and sx = ord_msq_trans [OF su x(2)]
          have lx: "m < puts_ms x j" using lt ord_msqD(2) [OF x(2), of j] by linarith
          obtain b nb where b: "walk (ms_nodes x) j (Suc m) = Some b" "ms_nodes x b = Some nb"
            using inv_msq_walk [OF x(1) j, of "Suc m"] lx by auto
          have nx: "qn_next n2 = Some b" using walk_next [OF wx x(4)] b(1) by simp
          have Px: "proj i X = P" using x(3) P by simp
          show "?safe (deq_cae j e (DW (qn_next n2) (add64 (hi e) 1)) (\<lambda>ok.
            if ok then ms_field qn_next (Some a) (\<lambda>nx. ms_field qn_val nx (\<lambda>v. Ret (v, l))) else ms_dequeue n j l)) (x, X)"
            unfolding nx
          proof (rule ms_deq_cae_safe [OF x(1) j e(1,5) _ wx b(1) lx ms_local_stable [OF loc x(2)] Suc.prems(4) Px step])
            show "hi e \<le> gets_ms x j" using gu ord_msqD(1) [OF x(2), of j] by linarith
            fix y Y assume y: "inv_msq loose w opss (y, Y)" "ord_msq w i x y" "proj i Y = P" "m < gets_ms y j"
            note sy = ord_msq_trans [OF sx y(2)]
            have "work w s < work w y" using y(4) e(4) by (intro work_less [OF Suc.prems(1) y(1) sy j]) simp
            then show "?safe (ms_dequeue n j l) (y, Y)" by (rule again [OF y(1) sy y(3)])
          qed
        qed
        then show ?thesis unfolding e(1) e'(1) using False by simp
      qed
    qed
  qed
qed

section \<open>Giving up\<close>

text \<open>When every tail move was followed by a dequeue, each queue holds one pending value at most.\<close>

lemma snapshot_ms:
  assumes "inv_msq loose w opss (s, H)" and "\<And>j. j < w \<Longrightarrow> puts_ms s j \<le> gets_ms s j"
  shows "\<exists>q. replay (spec_fifos loose) (replicate w []) H = Some q \<and> (\<forall>x\<in>set q. length x \<le> 1)"
proof -
  obtain E where E: "chains w (ms_nodes s) (gets_ms s) (puts_ms s) E"
    "replay (spec_fifos loose) (replicate w []) H = Some (contents w (gets_ms s) E)" by (rule inv_msqE [OF assms(1)])
  have "length (drop (gets_ms s j) (E j)) \<le> 1" if "j < w" for j
    using chain_repD(5) [OF chainsD(2) [OF E(1) that]] assms(2) [OF that] by simp
  then show ?thesis using E(2) by (auto simp: contents_def)
qed

lemma give_up_ms:
  assumes J: "inv_msq True w opss (s, H)" and step: "i < length opss" "prefix (map fst (proj i H) @ [Dequeue]) (opss ! i)"
    and H0: "hist_rely i H0 H" "replay (spec_fifos True) (replicate w []) H0 = Some q" "\<forall>x\<in>set q. length x \<le> 1"
  shows "inv_msq True w opss (s, H @ [(i, Dequeue, 0, w)])"
proof -
  obtain E where E: "desc_ok w s" "hist_ok opss H" "chains w (ms_nodes s) (gets_ms s) (puts_ms s) E"
    "replay (spec_fifos True) (replicate w []) H = Some (contents w (gets_ms s) E)"
    "(\<Sum>j<w. length (E j)) = length (filter is_enq H)" "True \<longrightarrow> (\<forall>j<w. 0 \<notin> set (E j))" "empties_seen True w H"
    by (rule inv_msqE [OF J])
  obtain X where X: "H = H0 @ X" "proj i X = []" using H0(1) by (auto simp: hist_rely_def)
  have "fst e \<noteq> i" if "e \<in> set X" for e
    using X(2) that by (auto simp: proj_def filter_empty_conv)
  then have none: "fst (H ! k) \<noteq> i" if "length H0 \<le> k" "k < length H" for k
    using that X(1) by (simp add: nth_append)
  have "empties_seen True w (H @ [(i, Dequeue, 0, w)])"
  proof (rule empties_seen_snoc [OF E(7)])
    fix i' r j assume "(i, Dequeue, 0 :: int, w) = (i', Dequeue, r, j)"
    then show "\<exists>m\<le>length H. (\<forall>k<length H. m \<le> k \<longrightarrow> fst (H ! k) \<noteq> i') \<and>
        (\<exists>q. replay (spec_fifos True) (replicate w []) (take m H) = Some q \<and> (\<forall>x\<in>set q. length x \<le> 1))"
      using none H0(2,3) X(1) by (intro exI [of _ "length H0"]) auto
  qed
  then show ?thesis
    using E hist_ok_entry [OF E(2) step] by (intro inv_msqI [where E = E]) (simp_all add: is_enq_def)
qed

section \<open>The arena of queues at the start\<close>

lemma inv_msq_start:
  assumes "length (ms_queues s) = w"
    and "\<And>j. j < w \<Longrightarrow> \<exists>n. ms_nodes s (Dummy j) = Some n \<and> qn_next n = None"
    and "\<And>j. j < w \<Longrightarrow> ms_queues s ! j = \<lparr>ms_head = DW (Some (Dummy j)) 0, ms_tail = DW (Some (Dummy j)) 0\<rparr>"
  shows "inv_msq loose w opss (s, [])"
proof (rule inv_msqI [where E = "\<lambda>_. []"])
  have c: "gets_ms s j = 0" "puts_ms s j = 0" if "j < w" for j
    using assms(3) [OF that] by (simp_all add: gets_ms_def puts_ms_def)
  then show "desc_ok w s" using assms(1,3) by (simp add: desc_ok_def)
  show "chains w (ms_nodes s) (gets_ms s) (puts_ms s) (\<lambda>_. [])"
    using chains_init(1) [of w "ms_nodes s"] assms(2) c by (simp add: chains_def)
  have "contents w (gets_ms s) (\<lambda>_. []) = replicate w []"
    by (rule nth_equalityI) simp_all
  then show "replay (spec_fifos loose) (replicate w []) [] = Some (contents w (gets_ms s) (\<lambda>_. []))" by simp
qed simp_all

lemma ms_local_start:
  assumes "\<And>j. j < w \<Longrightarrow> \<exists>n. ms_nodes s (Dummy j) = Some n \<and> qn_next n = None"
    and "\<And>k. ms_nodes s (Node i k) = None" and "ms_thread_id l = i"
  shows "ms_local w i l s"
  using assms(2,3) chains_init(2) [of w "ms_nodes s" "Node i _"] assms(1) by (simp add: ms_local_def)

definition new_thread_msq :: "nat \<Rightarrow> seeds \<Rightarrow> thread_msq" where
  "new_thread_msq i sd = \<lparr>seeds = sd, thread_index = 0, my_put_cas_fail_count = 0, my_get_cas_fail_count = 0,
     my_null_count = 0, my_hop_count = 0, my_slide_count = 0, ms_thread_id = i, ms_alloc_next = 0\<rparr>"

definition ms_threads :: "(queue_op list \<times> seeds) list \<Rightarrow> (queue_op list \<times> thread_msq) list" where
  "ms_threads ths = map (\<lambda>i. (fst (ths ! i), new_thread_msq i (snd (ths ! i)))) [0..<length ths]"

lemma ms_threads_simps [simp]:
  "map fst (ms_threads ths) = map fst ths" "length (ms_threads ths) = length ths"
  "i < length ths \<Longrightarrow> ms_threads ths ! i = (fst (ths ! i), new_thread_msq i (snd (ths ! i)))"
  by (auto simp: ms_threads_def intro: nth_equalityI)

text \<open>
  The only tolerated failure is to run out of a loop bound of at most three times the number of
  operations all threads perform together.
\<close>

definition out_of_rounds :: "nat \<Rightarrow> queue_op list list \<Rightarrow> failure \<Rightarrow> bool" where
  "out_of_rounds n opss e \<longleftrightarrow> e = No_fuel \<and> n \<le> 3 * total_ops opss"

lemma enough_out_of_rounds: "enough_ms (out_of_rounds n opss) opss w n s"
  by (rule enough_ms_start) (auto simp: out_of_rounds_def)

end
