(* ===== verification/Ms_Single.thy ===== *)
theory Ms_Single
  imports Ms_Queue
begin

text \<open>
  The single Michael-Scott queue, \<open>src/ms/ms.c\<close>. Its file has a copy of the operations of the
  partial queue of \<open>src/dcbo-ms\<close> (the dequeue with one more parameter, which it does not use)
  and creates one queue, queue \<open>0\<close> of the arena.

  Shown: the queue is linearizable to a FIFO queue and lock-free.
\<close>

section \<open>Operations\<close>

definition create_ms_node_single :: "int \<Rightarrow> int \<Rightarrow> qaddr option \<Rightarrow> thread_msq \<Rightarrow>
    (qaddr \<Rightarrow> thread_msq \<Rightarrow> (ms_mem, 'a) prog) \<Rightarrow> (ms_mem, 'a) prog" where
  "create_ms_node_single key v p l k = (let a = Node (ms_thread_id l) (ms_alloc_next l) in
     store (\<lambda>s. s\<lparr>ms_nodes := (ms_nodes s)(a \<mapsto> \<lparr>qn_key = key, qn_val = v, qn_next = p\<rparr>)\<rparr>)
       (k a (l\<lparr>ms_alloc_next := ms_alloc_next l + 1\<rparr>)))"

definition init_ms_queue_single :: "ms_mem \<Rightarrow> ms_mem" where
  "init_ms_queue_single s = (let node = \<lparr>qn_key = 0, qn_val = 0, qn_next = None\<rparr>; init_desc = DW (Some (Dummy 0)) 0 in
     s\<lparr>ms_nodes := (ms_nodes s)(Dummy 0 \<mapsto> node), ms_queues := [\<lparr>ms_head = init_desc, ms_tail = init_desc\<rparr>]\<rparr>)"

definition create_ms_queue :: ms_mem where
  "create_ms_queue = init_ms_queue_single \<lparr>ms_queues = [], ms_nodes = \<lambda>_. None\<rparr>"

definition enq_cae_single :: "qaddr option \<Rightarrow> qaddr \<Rightarrow> (bool \<Rightarrow> (ms_mem, 'a) prog) \<Rightarrow> (ms_mem, 'a) prog" where
  "enq_cae_single node new k = checked (\<lambda>s. node \<noteq> None \<and> ms_nodes s (the node) \<noteq> None)
     (cas (\<lambda>s. qn_next (ms_node_at node s)) (ms_link node) None (Some new) k)"

definition deq_cae_single :: "nat \<Rightarrow> queue_desc \<Rightarrow> queue_desc \<Rightarrow> (bool \<Rightarrow> (ms_mem, 'a) prog) \<Rightarrow> (ms_mem, 'a) prog" where
  "deq_cae_single q read_des new_des k = checked (\<lambda>s. q < length (ms_queues s))
     (cas (\<lambda>s. ms_head (ms_queues s ! q)) (set_head q) read_des new_des k)"

fun enqueue_single_loop :: "nat \<Rightarrow> nat \<Rightarrow> qaddr \<Rightarrow> thread_msq \<Rightarrow> (ms_mem, int \<times> thread_msq) prog" where
  "enqueue_single_loop q 0 new l = Stop No_fuel"
| "enqueue_single_loop q (Suc n) new l =
     read_tail q (\<lambda>tail.
     ms_field qn_next (lo tail) (\<lambda>nx.
     if nx = None then
       enq_cae_single (lo tail) new (\<lambda>ok.
       if ok then tail_cae q tail (DW (Some new) (add64 (hi tail) 1)) (\<lambda>_. Ret (1, l))
       else enqueue_single_loop q n new (count_put_fail l))
     else
       ms_field qn_next (lo tail) (\<lambda>nx.
       tail_cae q tail (DW nx (add64 (hi tail) 1)) (\<lambda>_. enqueue_single_loop q n new (count_put_fail l)))))"

definition ms_enqueue_single :: "nat \<Rightarrow> nat \<Rightarrow> int \<Rightarrow> int \<Rightarrow> thread_msq \<Rightarrow> (ms_mem, int \<times> thread_msq) prog" where
  "ms_enqueue_single n q key v l = create_ms_node_single key v None l (\<lambda>new l. enqueue_single_loop q n new l)"

fun ms_dequeue_single :: "nat \<Rightarrow> nat \<Rightarrow> nat option \<Rightarrow> thread_msq \<Rightarrow> (ms_mem, int \<times> thread_msq) prog" where
  "ms_dequeue_single 0 q double_collect_count l = Stop No_fuel"
| "ms_dequeue_single (Suc n) q double_collect_count l =
     read_head q (\<lambda>head. read_tail q (\<lambda>tail.
     if lo head = lo tail then
       ms_field qn_next (lo head) (\<lambda>nx.
       if nx = None then Ret (0, count_null l)
       else
         ms_field qn_next (lo tail) (\<lambda>nx.
         tail_cae q tail (DW nx (add64 (hi tail) 1)) (\<lambda>_. ms_dequeue_single n q double_collect_count l)))
     else
       ms_field qn_next (lo head) (\<lambda>nx.
       deq_cae_single q head (DW nx (add64 (hi head) 1)) (\<lambda>ok.
       if ok then ms_field qn_next (lo head) (\<lambda>nx. ms_field qn_val nx (\<lambda>v. Ret (v, l)))
       else ms_dequeue_single n q double_collect_count l))))"

definition ms_queue_size_single :: "nat \<Rightarrow> (ms_mem, nat) prog" where
  "ms_queue_size_single q = checked (\<lambda>s. q < length (ms_queues s)) (load (\<lambda>s. hi (ms_tail (ms_queues s ! q))) (\<lambda>t.
     checked (\<lambda>s. q < length (ms_queues s)) (load (\<lambda>s. hi (ms_head (ms_queues s ! q))) (\<lambda>h. Ret (sub64 t h)))))"

definition ms_enq_count_single :: "nat \<Rightarrow> (ms_mem, nat) prog" where
  "ms_enq_count_single q = checked (\<lambda>s. q < length (ms_queues s)) (load (\<lambda>s. hi (ms_tail (ms_queues s ! q))) Ret)"

definition ms_deq_count_single :: "nat \<Rightarrow> (ms_mem, nat) prog" where
  "ms_deq_count_single q = checked (\<lambda>s. q < length (ms_queues s)) (load (\<lambda>s. hi (ms_head (ms_queues s ! q))) Ret)"

fun ms_op :: "nat \<Rightarrow> queue_op \<Rightarrow> thread_msq \<Rightarrow> (ms_mem, (int \<times> nat) \<times> thread_msq) prog" where
  "ms_op n (Enqueue key v) l = bind (ms_enqueue_single n 0 key v l) (\<lambda>(r, l). Ret ((r, 0), l))"
| "ms_op n Dequeue l = bind (ms_dequeue_single n 0 None l) (\<lambda>(r, l). Ret ((r, 0), l))"

section \<open>The operations are those of the partial queue\<close>

lemma enqueue_single_loop_copy: "enqueue_single_loop q n new l = ms_enqueue_loop q n new l"
  by (induction n arbitrary: l) (simp_all add: enq_cae_single_def enq_cae_def cong: if_cong)

lemma ms_enqueue_single_copy: "ms_enqueue_single n q key v l = ms_enqueue n q key v l"
  by (simp add: ms_enqueue_single_def ms_enqueue_def create_ms_node_single_def create_ms_node_def Let_def
    enqueue_single_loop_copy)

lemma ms_dequeue_single_copy: "ms_dequeue_single n q c l = ms_dequeue n q l"
  by (induction n arbitrary: l) (simp_all add: deq_cae_single_def deq_cae_def cong: if_cong)

section \<open>Linearizability\<close>

interpretation lin_ms: lin_object no_wrap_ms "out_of_rounds n opss" "inv_msq False 1 opss" "ord_msq 1" "grd_msq 1"
  "ms_local 1" "spec_fifos False" "[[]]" rep_ms "ms_op n" opss for n opss
proof unfold_locales
  show "op_ok no_wrap_ms (out_of_rounds n opss) (inv_msq False 1 opss) (ord_msq 1) (grd_msq 1) (ms_local 1) opss i op (ms_op n)"
    if i: "i < length opss" for i op
  proof (rule op_okI)
    fix l :: thread_msq and s :: ms_mem and H P
    assume J: "inv_msq False 1 opss (s, H)" "ms_local 1 i l s" "proj i H = P" "prefix (map fst P @ [op]) (opss ! i)"
    let ?safe = "safe_msq False 1 opss (out_of_rounds n opss) i
        (\<lambda>(r, l) (s', H'). inv_msq False 1 opss (s', H') \<and> ms_local 1 i l s' \<and> proj i H' = P @ [(op, r)])"
    show "?safe (ms_op n op l) (s, H)"
    proof (cases op)
      case (Enqueue key v)
      have "safe_msq False 1 opss (out_of_rounds n opss) i (enq_post False 1 opss i 0 key v () P) (ms_enqueue n 0 key v l) (s, H)"
        by (rule ms_enqueue_safe) (use J i Enqueue enough_out_of_rounds in auto)
      then show ?thesis
        unfolding Enqueue ms_op.simps ms_enqueue_single_copy
        by (rule safe_bind [OF safe_weaken])
          (auto simp: enq_post_def lin_rely_def ms_local_stable dest!: hist_rely_proj)
    next
      case Dequeue
      have "safe_msq False 1 opss (out_of_rounds n opss) i (deq_post False 1 opss i 0 0 () P) (ms_dequeue n 0 l) (s, H)"
        by (rule ms_dequeue_safe) (use J i Dequeue enough_out_of_rounds in auto)
      then show ?thesis
        unfolding Dequeue ms_op.simps ms_dequeue_single_copy
        by (rule safe_bind [OF safe_weaken])
          (auto simp: deq_post_def lin_rely_def ms_local_stable dest!: hist_rely_proj)
    qed
  qed
  show "\<exists>q. replay (spec_fifos False) [[]] H = Some q \<and> rep_ms s q" if "inv_msq False 1 opss (s, H)" for s :: ms_mem and H
  proof (rule inv_msqE [OF that])
    fix E assume "desc_ok 1 s" "chains 1 (ms_nodes s) (gets_ms s) (puts_ms s) E"
      "replay (spec_fifos False) (replicate 1 []) H = Some (contents 1 (gets_ms s) E)"
    then show ?thesis by (auto simp: rep_ms_def desc_ok_def)
  qed
qed (auto intro: grd_ord_ms ms_local_stable elim: ord_msq_trans)

lemma create_ms_queue_simps [simp]:
  "ms_queues create_ms_queue = [\<lparr>ms_head = DW (Some (Dummy 0)) 0, ms_tail = DW (Some (Dummy 0)) 0\<rparr>]"
  "ms_nodes create_ms_queue = [Dummy 0 \<mapsto> \<lparr>qn_key = 0, qn_val = 0, qn_next = None\<rparr>]"
  by (simp_all add: create_ms_queue_def init_ms_queue_single_def Let_def)

text \<open>
  C21: the Michael-Scott queue is linearizable to a FIFO queue: under every interleaving an enqueue
  appends its value, a dequeue takes the first one, and it reports empty only when the queue is
  empty at that moment. No null or dangling node is followed. With more rounds than three times
  the number of operations of all threads no loop runs out of them: some thread always makes
  progress.
\<close>

theorem ms_linearizable:
  "linearizable no_wrap_ms (out_of_rounds n (map fst ths)) (spec_fifos False) [[]] rep_ms (map fst ths)
     (create_ms_queue, threads (ms_op n) (ms_threads ths))"
proof -
  have "linearizable no_wrap_ms (out_of_rounds n (map fst (ms_threads ths))) (spec_fifos False) [[]] rep_ms (map fst (ms_threads ths))
     (create_ms_queue, threads (ms_op n) (ms_threads ths))"
  proof (rule lin_ms.linearizable_threads [OF _ refl])
    show "inv_msq False 1 (map fst (ms_threads ths)) (create_ms_queue, [])"
      by (rule inv_msq_start) simp_all
    show "ms_local 1 i (snd (ms_threads ths ! i)) create_ms_queue" if "i < length (ms_threads ths)" for i
      by (rule ms_local_start) (use that in \<open>simp_all add: new_thread_msq_def\<close>)
  qed
  then show ?thesis by simp
qed

end
