(* ===== verification/Dcbo.thy ===== *)
theory Dcbo
  imports Ms_Queue
begin

text \<open>
  The choice-of-d load balancer, \<open>d-balanced-queue.c\<close> of \<open>src/dcbo-ms\<close> and its sisters: an array
  of partial queues behind a macro interface (\<open>PARTIAL_ENQUEUE\<close>, \<open>PARTIAL_DEQUEUE\<close> and the
  counts), which is the record \<open>partial\<close> here. An operation draws \<open>d\<close> random partial queues and
  works on the one with the fewest enqueues or dequeues, or with \<open>LENGTH_HEURISTIC\<close> on the
  shortest or longest. A dequeue that finds its queue empty goes through all of them twice:
  collecting tail versions while it tries to dequeue, then comparing them.

  The locale \<open>partial_queue\<close> is the contract of a partial queue, under which the balancer is
  shown to be linearizable to an array of FIFO queues and lock-free, and to return empty only
  when at one moment during the operation no queue held a value but one whose enqueue was still
  in progress.
\<close>

section \<open>The interface of a partial queue\<close>

record ('s, 'l) partial =
  partial_enqueue :: "nat \<Rightarrow> int \<Rightarrow> int \<Rightarrow> 'l \<Rightarrow> ('s, int \<times> 'l) prog"
  partial_dequeue :: "nat \<Rightarrow> 'l \<Rightarrow> ('s, int \<times> 'l) prog"
  partial_length :: "nat \<Rightarrow> ('s, nat) prog"
  partial_tail_version :: "nat \<Rightarrow> ('s, nat) prog"
  partial_enq_count :: "nat \<Rightarrow> ('s, nat) prog"
  partial_deq_count :: "nat \<Rightarrow> ('s, nat) prog"

record mqueue =
  mq_width :: nat
  mq_d :: nat

text \<open>A conversion to \<open>int64_t\<close>.\<close>

definition to_int64 :: "nat \<Rightarrow> int" where
  "to_int64 n = (if n < U64 div 2 then int n else int n - int U64)"

section \<open>Operations\<close>

text \<open>
  The operations return, with the result of the C function, the index of the partial queue they
  used (\<open>width\<close> when none). The thread-local state is the array \<open>double_collect_counts\<close> and what
  the partial queue keeps.
\<close>

definition random_index_db :: "mqueue \<Rightarrow> 'z thread_scheme \<Rightarrow> (nat \<Rightarrow> 'z thread_scheme \<Rightarrow> ('s, 'a) prog) \<Rightarrow> ('s, 'a) prog" where
  "random_index_db mq l k = draw (mq_width mq) l k"

definition enq_heuristic :: "bool \<Rightarrow> ('s, 'l) partial \<Rightarrow> nat \<Rightarrow> ('s, nat) prog" where
  "enq_heuristic length_heuristic P q = (if length_heuristic then partial_length P q else partial_enq_count P q)"

text \<open>The loops over the further choices; the first argument counts those still to be drawn.\<close>

fun enq_choices :: "nat \<Rightarrow> bool \<Rightarrow> ('s, 'z thread_scheme) partial \<Rightarrow> mqueue \<Rightarrow> nat \<Rightarrow> nat \<Rightarrow> 'z thread_scheme \<Rightarrow>
    (nat \<Rightarrow> 'z thread_scheme \<Rightarrow> ('s, 'a) prog) \<Rightarrow> ('s, 'a) prog" where
  "enq_choices 0 lh P mq opt_index opt l k = k opt_index l"
| "enq_choices (Suc r) lh P mq opt_index opt l k =
     random_index_db mq l (\<lambda>index l. bind (enq_heuristic lh P index) (\<lambda>index_val.
     if index_val < opt then enq_choices r lh P mq index index_val l k
     else enq_choices r lh P mq opt_index opt l k))"

definition enqueue_db :: "bool \<Rightarrow> ('s, 'z thread_scheme) partial \<Rightarrow> mqueue \<Rightarrow> int \<Rightarrow> int \<Rightarrow> nat list \<times> 'z thread_scheme \<Rightarrow>
    ('s, (int \<times> nat) \<times> nat list \<times> 'z thread_scheme) prog" where
  "enqueue_db lh P mq key v dl = (case dl of (dcc, l) \<Rightarrow>
     random_index_db mq l (\<lambda>opt_index l. bind (enq_heuristic lh P opt_index) (\<lambda>opt.
     enq_choices (mq_d mq - 1) lh P mq opt_index opt l (\<lambda>opt_index l.
     bind (partial_enqueue P opt_index key v l) (\<lambda>(r, l). Ret ((r, opt_index), dcc, l))))))"

definition deq_heuristic :: "bool \<Rightarrow> ('s, 'l) partial \<Rightarrow> nat \<Rightarrow> ('s, int) prog" where
  "deq_heuristic length_heuristic P q =
     (if length_heuristic then bind (partial_length P q) (\<lambda>n. Ret (to_int64 (sub64 0 n)))
      else bind (partial_deq_count P q) (\<lambda>n. Ret (to_int64 n)))"

fun deq_choices :: "nat \<Rightarrow> bool \<Rightarrow> ('s, 'z thread_scheme) partial \<Rightarrow> mqueue \<Rightarrow> nat \<Rightarrow> int \<Rightarrow> 'z thread_scheme \<Rightarrow>
    (nat \<Rightarrow> 'z thread_scheme \<Rightarrow> ('s, 'a) prog) \<Rightarrow> ('s, 'a) prog" where
  "deq_choices 0 lh P mq opt_index opt l k = k opt_index l"
| "deq_choices (Suc r) lh P mq opt_index opt l k =
     random_index_db mq l (\<lambda>index l. bind (deq_heuristic lh P index) (\<lambda>index_val.
     if index_val < opt then deq_choices r lh P mq index index_val l k
     else deq_choices r lh P mq opt_index opt l k))"

text \<open>The two loops of \<open>double_collect\<close>, with \<open>r\<close> rounds left of the \<open>width\<close> ones.\<close>

fun collect_loop :: "nat \<Rightarrow> ('s, 'l) partial \<Rightarrow> mqueue \<Rightarrow> nat \<Rightarrow> nat list \<Rightarrow> 'l \<Rightarrow>
    (nat list \<Rightarrow> 'l \<Rightarrow> ('s, (int \<times> nat) \<times> nat list \<times> 'l) prog) \<Rightarrow> ('s, (int \<times> nat) \<times> nat list \<times> 'l) prog" where
  "collect_loop 0 P mq start dcc l k = k dcc l"
| "collect_loop (Suc r) P mq start dcc l k = (let index = add32 start (mq_width mq - Suc r) mod mq_width mq in
     bind (partial_tail_version P index) (\<lambda>version.
     if index < length dcc then
       (let dcc = dcc[index := version] in
        bind (partial_dequeue P index l) (\<lambda>(v, l).
        if v \<noteq> 0 then Ret ((v, index), dcc, l) else collect_loop r P mq start dcc l k))
     else Stop Bad_pointer))"

fun check_loop :: "nat \<Rightarrow> ('s, 'l) partial \<Rightarrow> mqueue \<Rightarrow> nat \<Rightarrow> nat list \<Rightarrow> 'l \<Rightarrow>
    (nat \<Rightarrow> ('s, (int \<times> nat) \<times> nat list \<times> 'l) prog) \<Rightarrow> ('s, (int \<times> nat) \<times> nat list \<times> 'l) prog" where
  "check_loop 0 P mq start dcc l restart = Ret ((0, mq_width mq), dcc, l)"
| "check_loop (Suc r) P mq start dcc l restart = (let index = add32 start (mq_width mq - Suc r) mod mq_width mq in
     bind (partial_tail_version P index) (\<lambda>version.
     if index < length dcc then
       (if dcc ! index \<noteq> version then restart index else check_loop r P mq start dcc l restart)
     else Stop Bad_pointer))"

fun double_collect :: "nat \<Rightarrow> ('s, 'l) partial \<Rightarrow> mqueue \<Rightarrow> nat \<Rightarrow> nat list \<Rightarrow> 'l \<Rightarrow>
    ('s, (int \<times> nat) \<times> nat list \<times> 'l) prog" where
  "double_collect 0 P mq start dcc l = Stop No_fuel"
| "double_collect (Suc n) P mq start dcc l =
     collect_loop (mq_width mq) P mq start dcc l (\<lambda>dcc l.
     check_loop (mq_width mq) P mq start dcc l (\<lambda>start. double_collect n P mq start dcc l))"

definition dequeue_db :: "nat \<Rightarrow> bool \<Rightarrow> ('s, 'z thread_scheme) partial \<Rightarrow> mqueue \<Rightarrow> nat list \<times> 'z thread_scheme \<Rightarrow>
    ('s, (int \<times> nat) \<times> nat list \<times> 'z thread_scheme) prog" where
  "dequeue_db n lh P mq dl = (case dl of (dcc, l) \<Rightarrow>
     random_index_db mq l (\<lambda>opt_index l. bind (deq_heuristic lh P opt_index) (\<lambda>opt.
     deq_choices (mq_d mq - 1) lh P mq opt_index opt l (\<lambda>opt_index l.
     bind (partial_dequeue P opt_index l) (\<lambda>(v, l).
     if v \<noteq> 0 then Ret ((v, opt_index), dcc, l) else double_collect n P mq (add32 opt_index 1) dcc l)))))"

text \<open>\<open>queue_size\<close>: \<open>r\<close> partial queues are still to be counted.\<close>

fun queue_size_db_loop :: "nat \<Rightarrow> ('s, 'l) partial \<Rightarrow> mqueue \<Rightarrow> nat \<Rightarrow> ('s, nat) prog" where
  "queue_size_db_loop 0 P mq sz = Ret sz"
| "queue_size_db_loop (Suc r) P mq sz =
     bind (partial_length P (mq_width mq - Suc r)) (\<lambda>n. queue_size_db_loop r P mq (add64 sz n))"

definition queue_size_db :: "('s, 'l) partial \<Rightarrow> mqueue \<Rightarrow> ('s, nat) prog" where
  "queue_size_db P mq = queue_size_db_loop (mq_width mq) P mq 0"

text \<open>
  \<open>create_queue\<close> allocates the partial queues and runs \<open>INIT_PARTIAL\<close> on each in turn;
  \<open>d_balanced_register\<close> allocates \<open>double_collect_counts\<close>, whose contents are arbitrary.
\<close>

definition create_queue_db :: "bool \<Rightarrow> (nat \<Rightarrow> 's \<Rightarrow> 's) \<Rightarrow> nat \<Rightarrow> nat \<Rightarrow> 's \<Rightarrow> failure + (mqueue \<times> 's)" where
  "create_queue_db alloc_ok init_partial n_partial d s =
     (if \<not> alloc_ok then Inl Exit_program
      else Inr (\<lparr>mq_width = n_partial, mq_d = d\<rparr>, fold init_partial [0..<n_partial] s))"

definition d_balanced_register :: "mqueue \<Rightarrow> (nat \<Rightarrow> nat) \<Rightarrow> 'l \<Rightarrow> nat list \<times> 'l" where
  "d_balanced_register mq mem l = (map mem [0..<mq_width mq], l)"

fun db_op :: "nat \<Rightarrow> bool \<Rightarrow> ('s, 'z thread_scheme) partial \<Rightarrow> mqueue \<Rightarrow> queue_op \<Rightarrow> nat list \<times> 'z thread_scheme \<Rightarrow>
    ('s, (int \<times> nat) \<times> nat list \<times> 'z thread_scheme) prog" where
  "db_op n lh P mq (Enqueue key v) dl = enqueue_db lh P mq key v dl"
| "db_op n lh P mq Dequeue dl = dequeue_db n lh P mq dl"

section \<open>The contract of a partial queue\<close>

text \<open>
  \<open>gets\<close> and \<open>puts\<close> count the dequeues and the tail moves of each partial queue, \<open>ver\<close> is the tail
  version, \<open>work\<close> a measure of progress bounded by \<open>B\<close>.
\<close>

locale partial_queue =
  fixes mq :: mqueue
    and A :: "'s \<Rightarrow> bool"
    and T :: "failure \<Rightarrow> bool"
    and J :: "'s \<times> (queue_op, int \<times> nat) history \<Rightarrow> bool"
    and ord grd :: "nat \<Rightarrow> 's \<Rightarrow> 's \<Rightarrow> bool"
    and le :: "'s \<Rightarrow> 's \<Rightarrow> bool"
    and L :: "nat \<Rightarrow> 'z thread_scheme \<Rightarrow> 's \<Rightarrow> bool"
    and opss :: "queue_op list list"
    and P :: "('s, 'z thread_scheme) partial"
    and gets puts ver :: "'s \<Rightarrow> nat \<Rightarrow> nat"
    and work :: "'s \<Rightarrow> nat"
    and B n :: nat
    and rep :: "'s \<Rightarrow> int list list \<Rightarrow> bool"
  assumes width: "0 < mq_width mq"
    and ord_refl: "ord i s s"
    and ord_trans: "ord i s t \<Longrightarrow> ord i t u \<Longrightarrow> ord i s u"
    and grd_refl: "grd i s s"
    and grd_ord: "i \<noteq> j \<Longrightarrow> grd i s t \<Longrightarrow> ord j s t"
    and J_rep: "J (s, H) \<Longrightarrow> \<exists>q. replay (spec_fifos True) (replicate (mq_width mq) []) H = Some q \<and> rep s q"
    and J_empties: "J (s, H) \<Longrightarrow> empties_seen True (mq_width mq) H"
    and L_stable: "L i l s \<Longrightarrow> ord i s t \<Longrightarrow> L i l t"
    and L_seeds: "L i l s \<Longrightarrow> L i (l\<lparr>seeds := x\<rparr>) s"
    and ord_le: "ord i s t \<Longrightarrow> le s t"
    and le_trans: "le s t \<Longrightarrow> le t u \<Longrightarrow> le s u"
    and mono: "le s t \<Longrightarrow> gets s j \<le> gets t j \<and> puts s j \<le> puts t j"
    and ver_puts: "le s t \<Longrightarrow> A s \<Longrightarrow> A t \<Longrightarrow> ver s j = ver t j \<Longrightarrow> j < mq_width mq \<Longrightarrow> J (s, H) \<Longrightarrow> J (t, H') \<Longrightarrow> puts s j = puts t j"
    and work_mono: "J (s, H) \<Longrightarrow> J (t, H') \<Longrightarrow> le s t \<Longrightarrow> work s \<le> work t"
    and work_ver: "J (s, H) \<Longrightarrow> J (t, H') \<Longrightarrow> le s t \<Longrightarrow> j < mq_width mq \<Longrightarrow> ver s j \<noteq> ver t j \<Longrightarrow> work s < work t"
    and work_bound: "J (s, H) \<Longrightarrow> work s \<le> B"
    and fuel: "T No_fuel \<or> B < n"
    and snapshot: "J (s, H) \<Longrightarrow> (\<And>j. j < mq_width mq \<Longrightarrow> puts s j \<le> gets s j) \<Longrightarrow>
      \<exists>q. replay (spec_fifos True) (replicate (mq_width mq) []) H = Some q \<and> (\<forall>x\<in>set q. length x \<le> 1)"
    and give_up: "J (s, H) \<Longrightarrow> i < length opss \<Longrightarrow> prefix (map fst (proj i H) @ [Dequeue]) (opss ! i) \<Longrightarrow>
      hist_rely i H0 H \<Longrightarrow> replay (spec_fifos True) (replicate (mq_width mq) []) H0 = Some q \<Longrightarrow> \<forall>x\<in>set q. length x \<le> 1 \<Longrightarrow>
      J (s, H @ [(i, Dequeue, 0, mq_width mq)])"
    and heuristics: "J (s, H) \<Longrightarrow> j < mq_width mq \<Longrightarrow> h \<in> {partial_length P, partial_enq_count P, partial_deq_count P} \<Longrightarrow>
      safe A T (lin_rely J ord i) (lin_guar J grd opss i) (\<lambda>x (t, H'). J (t, H') \<and> ord i s t \<and> hist_rely i H H') (h j) (s, H)"
    and version: "J (s, H) \<Longrightarrow> j < mq_width mq \<Longrightarrow>
      (\<And>t H'. J (t, H') \<Longrightarrow> ord i s t \<Longrightarrow> hist_rely i H H' \<Longrightarrow> A t \<Longrightarrow>
         \<exists>X. hist_step opss i H' (H' @ X) \<and> J (t, H' @ X) \<and>
           safe A T (lin_rely J ord i) (lin_guar J grd opss i) Q (k (ver t j)) (t, H' @ X)) \<Longrightarrow>
      safe A T (lin_rely J ord i) (lin_guar J grd opss i) (Q :: (int \<times> nat) \<times> nat list \<times> 'z thread_scheme \<Rightarrow> _)
        (bind (partial_tail_version P j) k) (s, H)"
    and enq: "J (s, H) \<Longrightarrow> j < mq_width mq \<Longrightarrow> v \<noteq> 0 \<Longrightarrow> L i l s \<Longrightarrow> i < length opss \<Longrightarrow>
      prefix (map fst (proj i H) @ [Enqueue key v]) (opss ! i) \<Longrightarrow>
      safe A T (lin_rely J ord i) (lin_guar J grd opss i)
        (\<lambda>(r, l) (t, H'). J (t, H') \<and> L i l t \<and> proj i H' = proj i H @ [(Enqueue key v, r, j)])
        (partial_enqueue P j key v l) (s, H)"
    and deq: "J (s, H) \<Longrightarrow> j < mq_width mq \<Longrightarrow> L i l s \<Longrightarrow> i < length opss \<Longrightarrow>
      prefix (map fst (proj i H) @ [Dequeue]) (opss ! i) \<Longrightarrow>
      safe A T (lin_rely J ord i) (lin_guar J grd opss i)
        (\<lambda>(r, l) (t, H'). J (t, H') \<and> L i l t \<and> le s t \<and>
           (r = 0 \<and> proj i H' = proj i H \<and> puts s j \<le> gets t j \<or> r \<noteq> 0 \<and> proj i H' = proj i H @ [(Dequeue, r, j)]))
        (partial_dequeue P j l) (s, H)"
begin

abbreviation safe_p where
  "safe_p i Q \<equiv> safe A T (lin_rely J ord i) (lin_guar J grd opss i) Q"

lemma rely_refl: "lin_rely J ord i x x"
  by (cases x) (simp add: lin_rely_def ord_refl)

lemma le_refl: "le s s"
  by (rule ord_le [OF ord_refl])

lemma draw_safe:
  assumes "L i l s" and "\<And>j l'. j < mq_width mq \<Longrightarrow> L i l' s \<Longrightarrow> safe_p i Q (k j l') (s, H)"
  shows "safe_p i Q (random_index_db mq l k) (s, H)"
  unfolding random_index_db_def by (rule draw_cases [OF width]) (use assms L_seeds in auto)

text \<open>What follows a read of the heuristics: its value is arbitrary.\<close>

lemma bind_any:
  assumes "safe_p i (\<lambda>x (t, H'). J (t, H') \<and> ord i s t \<and> hist_rely i H H') p (s, H)"
    and "\<And>x t H'. J (t, H') \<Longrightarrow> ord i s t \<Longrightarrow> hist_rely i H H' \<Longrightarrow> safe_p i Q (k x) (t, H')"
  shows "safe_p i Q (bind p k) (s, H)"
proof (rule safe_bind [OF _ rely_refl], rule safe_weaken [OF assms(1)])
  fix x y assume "case y of (t, H') \<Rightarrow> J (t, H') \<and> ord i s t \<and> hist_rely i H H'"
  then show "safe_p i Q (k x) y" using assms(2) by (cases y) simp
qed

lemma enq_heuristic_safe:
  assumes "J (s, H)" and "j < mq_width mq"
    and "\<And>x t H'. J (t, H') \<Longrightarrow> ord i s t \<Longrightarrow> hist_rely i H H' \<Longrightarrow> safe_p i Q (k x) (t, H')"
  shows "safe_p i Q (bind (enq_heuristic lh P j) k) (s, H)"
proof (rule bind_any [OF _ assms(3)])
  show "safe_p i (\<lambda>x (t, H'). J (t, H') \<and> ord i s t \<and> hist_rely i H H') (enq_heuristic lh P j) (s, H)"
    unfolding enq_heuristic_def using heuristics [OF assms(1,2)] by simp
qed

lemma deq_heuristic_safe:
  assumes "J (s, H)" and "j < mq_width mq"
    and "\<And>x t H'. J (t, H') \<Longrightarrow> ord i s t \<Longrightarrow> hist_rely i H H' \<Longrightarrow> safe_p i Q (k x) (t, H')"
  shows "safe_p i Q (bind (deq_heuristic lh P j) k) (s, H)"
proof -
  have read: "safe_p i (\<lambda>x (t, H'). J (t, H') \<and> ord i s t \<and> hist_rely i H H') (bind (h j) (\<lambda>n. Ret (f n))) (s, H)"
    if "h \<in> {partial_length P, partial_enq_count P, partial_deq_count P}" for h and f :: "nat \<Rightarrow> int"
  proof (rule bind_any [OF heuristics [OF assms(1,2) that]])
    fix x t K assume t: "J (t, K)" "ord i s t" "hist_rely i H K"
    show "safe_p i (\<lambda>x (t, H'). J (t, H') \<and> ord i s t \<and> hist_rely i H H') (Ret (f x)) (t, K)"
      by (rule lin_ret, rule t(1)) (use t ord_trans hist_rely_trans in blast)
  qed
  show ?thesis
    by (rule bind_any [OF _ assms(3)]) (use read [of "partial_length P" "\<lambda>n. to_int64 (sub64 0 n)"] read [of "partial_deq_count P" to_int64] in \<open>simp_all add: deq_heuristic_def\<close>)
qed

lemma enq_choices_safe:
  assumes "J (s, H)" and "j < mq_width mq" and "L i l s"
    and "\<And>j l t H'. J (t, H') \<Longrightarrow> hist_rely i H H' \<Longrightarrow> j < mq_width mq \<Longrightarrow> L i l t \<Longrightarrow> safe_p i Q (k j l) (t, H')"
  shows "safe_p i Q (enq_choices r lh P mq j x l k) (s, H)"
  using assms
proof (induction r arbitrary: s H j x l)
  case (Suc r)
  have go: "safe_p i Q (enq_choices r lh P mq j' y l' k) (t, K)"
    if "J (t, K)" "hist_rely i H K" "j' < mq_width mq" "L i l' t" for t K j' y l'
    by (rule Suc.IH [OF that(1,3,4)]) (use Suc.prems(4) hist_rely_trans [OF that(2)] in blast)
  show ?case
    unfolding enq_choices.simps
  proof (rule draw_safe [OF Suc.prems(3)])
    fix j' l' assume j': "j' < mq_width mq" "L i l' s"
    show "safe_p i Q (bind (enq_heuristic lh P j') (\<lambda>index_val.
        if index_val < x then enq_choices r lh P mq j' index_val l' k else enq_choices r lh P mq j x l' k)) (s, H)"
    proof (rule enq_heuristic_safe [OF Suc.prems(1) j'(1)])
      fix y t K assume t: "J (t, K)" "ord i s t" "hist_rely i H K"
      show "safe_p i Q (if y < x then enq_choices r lh P mq j' y l' k else enq_choices r lh P mq j x l' k) (t, K)"
        using go [OF t(1,3) _ L_stable [OF j'(2) t(2)]] j'(1) Suc.prems(2) by simp
    qed
  qed
qed simp

lemma deq_choices_safe:
  assumes "J (s, H)" and "j < mq_width mq" and "L i l s"
    and "\<And>j l t H'. J (t, H') \<Longrightarrow> hist_rely i H H' \<Longrightarrow> j < mq_width mq \<Longrightarrow> L i l t \<Longrightarrow> safe_p i Q (k j l) (t, H')"
  shows "safe_p i Q (deq_choices r lh P mq j x l k) (s, H)"
  using assms
proof (induction r arbitrary: s H j x l)
  case (Suc r)
  have go: "safe_p i Q (deq_choices r lh P mq j' y l' k) (t, K)"
    if "J (t, K)" "hist_rely i H K" "j' < mq_width mq" "L i l' t" for t K j' y l'
    by (rule Suc.IH [OF that(1,3,4)]) (use Suc.prems(4) hist_rely_trans [OF that(2)] in blast)
  show ?case
    unfolding deq_choices.simps
  proof (rule draw_safe [OF Suc.prems(3)])
    fix j' l' assume j': "j' < mq_width mq" "L i l' s"
    show "safe_p i Q (bind (deq_heuristic lh P j') (\<lambda>index_val.
        if index_val < x then deq_choices r lh P mq j' index_val l' k else deq_choices r lh P mq j x l' k)) (s, H)"
    proof (rule deq_heuristic_safe [OF Suc.prems(1) j'(1)])
      fix y t K assume t: "J (t, K)" "ord i s t" "hist_rely i H K"
      show "safe_p i Q (if y < x then deq_choices r lh P mq j' y l' k else deq_choices r lh P mq j x l' k) (t, K)"
        using go [OF t(1,3) _ L_stable [OF j'(2) t(2)]] j'(1) Suc.prems(2) by simp
    qed
  qed
qed simp

text \<open>What an operation of thread \<open>i\<close> establishes, whose part of the history was \<open>P0\<close>.\<close>

definition op_post :: "nat \<Rightarrow> queue_op \<Rightarrow> (queue_op \<times> int \<times> nat) list \<Rightarrow> (int \<times> nat) \<times> nat list \<times> 'z thread_scheme \<Rightarrow>
    's \<times> (queue_op, int \<times> nat) history \<Rightarrow> bool" where
  "op_post i op P0 x y \<longleftrightarrow> (case x of (r, dcc, l) \<Rightarrow> case y of (t, K) \<Rightarrow>
     J (t, K) \<and> length dcc = mq_width mq \<and> L i l t \<and> proj i K = P0 @ [(op, r)])"

lemma ret_safe:
  assumes "J (s, H)" and "length dcc = mq_width mq" and "L i l s" and "proj i H = P0 @ [(op, r)]"
  shows "safe_p i (op_post i op P0) (Ret (r, dcc, l)) (s, H)"
  by (rule lin_ret, rule assms(1)) (use assms L_stable in \<open>auto simp: op_post_def\<close>)

text \<open>
  \<open>collected s0 dcc j t\<close>: at some moment since \<open>s0\<close> queue \<open>j\<close> had the version in \<open>dcc\<close>, and what
  its tail had moved past then has been dequeued by now.
\<close>

definition collected :: "'s \<Rightarrow> nat list \<Rightarrow> nat \<Rightarrow> 's \<Rightarrow> bool" where
  "collected s0 dcc j t \<longleftrightarrow> (\<exists>c K. J (c, K) \<and> A c \<and> le s0 c \<and> le c t \<and> ver c j = dcc ! j \<and> puts c j \<le> gets t j)"

lemma collected_stable: "collected s0 dcc j s \<Longrightarrow> le s t \<Longrightarrow> collected s0 dcc j t"
  unfolding collected_def using le_trans mono order_trans by blast

definition index_at :: "nat \<Rightarrow> nat \<Rightarrow> nat" where
  "index_at start k = add32 start k mod mq_width mq"

lemma index_less [simp]: "index_at start k < mq_width mq"
  using width by (simp add: index_at_def)

lemma index_all:
  assumes "start \<le> mq_width mq" and "2 * mq_width mq < U32" and "j < mq_width mq"
  shows "\<exists>k<mq_width mq. index_at start k = j"
proof -
  let ?w = "mq_width mq"
  have eq: "index_at start k = (start + k) mod ?w" if "k < ?w" for k
    using that assms(1,2) by (simp add: index_at_def add32_def)
  show ?thesis
  proof (cases "start \<le> j")
    case True
    then show ?thesis using eq [of "j - start"] assms(3) by (intro exI [of _ "j - start"]) simp
  next
    case False
    then have "start + (?w - start + j) = j + ?w" using assms(1) by simp
    then have "(start + (?w - start + j)) mod ?w = j" using assms(3) by simp
    then show ?thesis using eq [of "?w - start + j"] False assms by (intro exI [of _ "?w - start + j"]) simp
  qed
qed

lemma collect_loop_safe:
  assumes "J (s, H)" and "length dcc = mq_width mq" and "L i l s" and "le s0 s" and "proj i H = P0"
    and "r \<le> mq_width mq" and "\<And>k. k < mq_width mq - r \<Longrightarrow> collected s0 dcc (index_at start k) s"
    and "i < length opss" and "prefix (map fst P0 @ [Dequeue]) (opss ! i)"
    and "\<And>dcc l t H'. J (t, H') \<Longrightarrow> length dcc = mq_width mq \<Longrightarrow> L i l t \<Longrightarrow> le s0 t \<Longrightarrow> proj i H' = P0 \<Longrightarrow>
      (\<And>k. k < mq_width mq \<Longrightarrow> collected s0 dcc (index_at start k) t) \<Longrightarrow>
      safe_p i (op_post i Dequeue P0) (k dcc l) (t, H')"
  shows "safe_p i (op_post i Dequeue P0) (collect_loop r P mq start dcc l k) (s, H)"
  using assms(1-7)
proof (induction r arbitrary: s H dcc l)
  case 0
  then show ?case using assms(10) by simp
next
  case (Suc r)
  let ?w = "mq_width mq" and ?j = "index_at start (mq_width mq - Suc r)"
  have j: "?j < length dcc" using Suc.prems(2) by simp
  show ?case
    unfolding collect_loop.simps Let_def index_at_def [symmetric]
  proof (rule version [OF Suc.prems(1) index_less])
    fix t K assume t: "J (t, K)" "ord i s t" "hist_rely i H K" "A t"
    note st = ord_le [OF t(2)]
    let ?dcc = "dcc[?j := ver t ?j]"
    have Pt: "proj i K = P0" using t(3) Suc.prems(5) by auto
    have s0t: "le s0 t" by (rule le_trans [OF Suc.prems(4) st])
    have "safe_p i (op_post i Dequeue P0) (bind (partial_dequeue P ?j l) (\<lambda>(v, l).
        if v \<noteq> 0 then Ret ((v, ?j), ?dcc, l) else collect_loop r P mq start ?dcc l k)) (t, K)"
    proof (rule safe_bind [OF _ rely_refl], rule safe_weaken [OF deq])
      show "J (t, K)" "?j < ?w" "L i l t" "i < length opss" "prefix (map fst (proj i K) @ [Dequeue]) (opss ! i)"
        using t L_stable [OF Suc.prems(3) t(2)] assms(8,9) Pt by simp_all
      fix x y
      assume post: "(case x of (r, l) \<Rightarrow> \<lambda>(u, H'). J (u, H') \<and> L i l u \<and> le t u \<and>
          (r = 0 \<and> proj i H' = proj i K \<and> puts t ?j \<le> gets u ?j \<or> r \<noteq> 0 \<and> proj i H' = proj i K @ [(Dequeue, r, ?j)])) y"
      obtain v l' u M where [simp]: "x = (v, l')" "y = (u, M)" by (cases x, cases y)
      show "safe_p i (op_post i Dequeue P0) (case x of (v, l) \<Rightarrow>
          if v \<noteq> 0 then Ret ((v, ?j), ?dcc, l) else collect_loop r P mq start ?dcc l k) y"
      proof (cases "v = 0")
        case False
        have "safe_p i (op_post i Dequeue P0) (Ret ((v, ?j), ?dcc, l')) (u, M)"
          by (rule ret_safe) (use post Pt Suc.prems(2) False in auto)
        then show ?thesis using False by simp
      next
        case True
        have u: "J (u, M)" "L i l' u" "le t u" "proj i M = P0" "puts t ?j \<le> gets u ?j" using post True Pt by auto
        have "safe_p i (op_post i Dequeue P0) (collect_loop r P mq start ?dcc l' k) (u, M)"
        proof (rule Suc.IH [OF u(1) _ u(2) le_trans [OF s0t u(3)] u(4)])
          show "length ?dcc = ?w" "r \<le> ?w" using Suc.prems(2,6) by simp_all
          fix k assume k: "k < ?w - r"
          have new: "collected s0 ?dcc ?j u"
            unfolding collected_def using t(1,4) s0t u(3,5) j by (intro exI [of _ t] exI [of _ K]) simp
          show "collected s0 ?dcc (index_at start k) u"
          proof (cases "index_at start k = ?j")
            case True
            then show ?thesis using new by simp
          next
            case False
            then have "k \<noteq> ?w - Suc r" by auto
            then have "k < ?w - Suc r" using k by simp
            then have "collected s0 dcc (index_at start k) u"
              using collected_stable [OF Suc.prems(7) le_trans [OF st u(3)]] by blast
            then show ?thesis using False by (simp add: collected_def)
          qed
        qed
        then show ?thesis using True by simp
      qed
    qed
    then show "\<exists>X. hist_step opss i K (K @ X) \<and> J (t, K @ X) \<and> safe_p i (op_post i Dequeue P0)
        (if ?j < length dcc then bind (partial_dequeue P ?j l) (\<lambda>(v, l).
           if v \<noteq> 0 then Ret ((v, ?j), ?dcc, l) else collect_loop r P mq start ?dcc l k) else Stop Bad_pointer) (t, K @ X)"
      using j t(1) by (intro exI [of _ "[]"]) simp
  qed
qed

lemma check_loop_safe:
  assumes "J (s, H)" and "L i l s" and "le sT s" and "hist_rely i HT H" and "0 < r" and "r \<le> mq_width mq"
    and "\<And>k. k < mq_width mq - r \<Longrightarrow> puts sT (index_at start k) \<le> gets sT (index_at start k)"
    and T0: "J (sT, HT)" and dcc: "length dcc = mq_width mq" and P0: "proj i HT = P0" and s0: "J (s0, H0)"
    and coll: "\<And>j. j < mq_width mq \<Longrightarrow> collected s0 dcc j sT"
    and start: "start \<le> mq_width mq" "2 * mq_width mq < U32"
    and step: "i < length opss" "prefix (map fst P0 @ [Dequeue]) (opss ! i)"
    and restart: "\<And>j t H'. J (t, H') \<Longrightarrow> L i l t \<Longrightarrow> proj i H' = P0 \<Longrightarrow> work s0 < work t \<Longrightarrow> j < mq_width mq \<Longrightarrow>
      safe_p i (op_post i Dequeue P0) (rest j) (t, H')"
  shows "safe_p i (op_post i Dequeue P0) (check_loop r P mq start dcc l rest) (s, H)"
  using assms(1-7)
proof (induction r arbitrary: s H)
  case (Suc r)
  let ?w = "mq_width mq" and ?j = "index_at start (mq_width mq - Suc r)"
  show ?case
    unfolding check_loop.simps Let_def index_at_def [symmetric]
  proof (rule version [OF Suc.prems(1) index_less])
    fix t K assume t: "J (t, K)" "ord i s t" "hist_rely i H K" "A t"
    note st = ord_le [OF t(2)]
    have oT: "le sT t" by (rule le_trans [OF Suc.prems(3) st])
    have hT: "hist_rely i HT K" by (rule hist_rely_trans [OF Suc.prems(4) t(3)])
    have lt: "L i l t" by (rule L_stable [OF Suc.prems(2) t(2)])
    have Pt: "proj i K = P0" using hT P0 by auto
    obtain c Kc where c: "J (c, Kc)" "A c" "le s0 c" "le c sT" "ver c ?j = dcc ! ?j" "puts c ?j \<le> gets sT ?j"
      using coll [OF index_less] unfolding collected_def by blast
    note ct = le_trans [OF c(4) oT]
    show "\<exists>X. hist_step opss i K (K @ X) \<and> J (t, K @ X) \<and> safe_p i (op_post i Dequeue P0)
        (if ?j < length dcc then if dcc ! ?j \<noteq> ver t ?j then rest ?j else check_loop r P mq start dcc l rest
         else Stop Bad_pointer) (t, K @ X)"
    proof (cases "dcc ! ?j = ver t ?j")
      case False
      have "work s0 \<le> work c" by (rule work_mono [OF s0 c(1,3)])
      also have "\<dots> < work t" using c(5) False work_ver [OF c(1) t(1) ct, of ?j] by simp
      finally have "safe_p i (op_post i Dequeue P0) (rest ?j) (t, K)" by (rule restart [OF t(1) lt Pt _ index_less])
      then show ?thesis using t(1) False dcc by (intro exI [of _ "[]"]) simp
    next
      case True
      have "puts c ?j = puts t ?j"
        using ver_puts [OF ct c(2) t(4) _ index_less c(1) t(1)] c(5) True by simp
      then have new: "puts sT ?j \<le> gets sT ?j" using c(6) mono [OF oT, of ?j] by linarith
      have sofar: "puts sT (index_at start k) \<le> gets sT (index_at start k)" if "k < ?w - r" for k
      proof (cases "k = ?w - Suc r")
        case False
        then show ?thesis using that by (intro Suc.prems(7)) simp
      qed (use new in simp)
      show ?thesis
      proof (cases r)
        case 0
        have "puts sT j \<le> gets sT j" if "j < ?w" for j
          using index_all [OF start that] sofar 0 by auto
        then obtain q where q: "replay (spec_fifos True) (replicate ?w []) HT = Some q" "\<forall>x\<in>set q. length x \<le> 1"
          using snapshot [OF T0] by blast
        let ?X = "[(i, Dequeue, 0, ?w)]"
        have J': "J (t, K @ ?X)" by (rule give_up [OF t(1) step(1) _ hT q]) (use Pt step(2) in simp)
        have "safe_p i (op_post i Dequeue P0) (Ret ((0, ?w), dcc, l)) (t, K @ ?X)"
          by (rule ret_safe [OF J' dcc lt]) (use Pt in simp)
        moreover have "hist_step opss i K (K @ ?X)" using step Pt by (intro hist_step_entry) simp_all
        ultimately show ?thesis using J' 0 True dcc by (intro exI [of _ ?X]) simp
      next
        case (Suc r')
        have "safe_p i (op_post i Dequeue P0) (check_loop r P mq start dcc l rest) (t, K)"
          by (rule Suc.IH [OF t(1) lt oT hT]) (use Suc.prems(6) sofar Suc in simp_all)
        then show ?thesis using t(1) True dcc by (intro exI [of _ "[]"]) simp
      qed
    qed
  qed
qed simp

lemma double_collect_safe:
  assumes "J (s, H)" and "length dcc = mq_width mq" and "L i l s" and "proj i H = P0" and "start \<le> mq_width mq"
    and "2 * mq_width mq < U32" and "i < length opss" and "prefix (map fst P0 @ [Dequeue]) (opss ! i)"
    and "T No_fuel \<or> B < m + work s"
  shows "safe_p i (op_post i Dequeue P0) (double_collect m P mq start dcc l) (s, H)"
  using assms(1-5,9)
proof (induction m arbitrary: s H dcc l start)
  case 0
  then show ?case using work_bound [OF 0(1)] by simp
next
  case (Suc m)
  show ?case
    unfolding double_collect.simps
  proof (rule collect_loop_safe [OF Suc.prems(1-3) le_refl Suc.prems(4) order_refl _ assms(7,8)])
    fix dcc l t K
    assume t: "J (t, K)" "length dcc = mq_width mq" "L i l t" "le s t" "proj i K = P0"
      and coll: "\<And>k. k < mq_width mq \<Longrightarrow> collected s dcc (index_at start k) t"
    show "safe_p i (op_post i Dequeue P0) (check_loop (mq_width mq) P mq start dcc l
        (\<lambda>start. double_collect m P mq start dcc l)) (t, K)"
    proof (rule check_loop_safe [OF t(1,3) le_refl hist_rely_refl width order_refl _ t(1,2,5) Suc.prems(1) _ Suc.prems(5) assms(6-8)])
      show "collected s dcc j t" if "j < mq_width mq" for j
        using index_all [OF Suc.prems(5) assms(6) that] coll by auto
      fix j u M assume u: "J (u, M)" "L i l u" "proj i M = P0" "work s < work u" "j < mq_width mq"
      show "safe_p i (op_post i Dequeue P0) (double_collect m P mq j dcc l) (u, M)"
        by (rule Suc.IH [OF u(1) t(2) u(2,3)]) (use u(4,5) Suc.prems(6) in auto)
    qed simp
  qed simp
qed

text \<open>The index an operation chooses is in range.\<close>

lemma choose_enq_safe:
  assumes J: "J (s, H)" and l: "L i l s"
    and k: "\<And>j l t H'. J (t, H') \<Longrightarrow> hist_rely i H H' \<Longrightarrow> j < mq_width mq \<Longrightarrow> L i l t \<Longrightarrow> safe_p i Q (k j l) (t, H')"
  shows "safe_p i Q (random_index_db mq l (\<lambda>opt_index l. bind (enq_heuristic lh P opt_index) (\<lambda>opt.
     enq_choices r lh P mq opt_index opt l k))) (s, H)"
proof (rule draw_safe [OF l])
  fix j l' assume j: "j < mq_width mq" "L i l' s"
  show "safe_p i Q (bind (enq_heuristic lh P j) (\<lambda>opt. enq_choices r lh P mq j opt l' k)) (s, H)"
  proof (rule enq_heuristic_safe [OF J j(1)])
    fix x t K assume t: "J (t, K)" "ord i s t" "hist_rely i H K"
    show "safe_p i Q (enq_choices r lh P mq j x l' k) (t, K)"
      by (rule enq_choices_safe [OF t(1) j(1) L_stable [OF j(2) t(2)]]) (use k hist_rely_trans [OF t(3)] in blast)
  qed
qed

lemma choose_deq_safe:
  assumes J: "J (s, H)" and l: "L i l s"
    and k: "\<And>j l t H'. J (t, H') \<Longrightarrow> hist_rely i H H' \<Longrightarrow> j < mq_width mq \<Longrightarrow> L i l t \<Longrightarrow> safe_p i Q (k j l) (t, H')"
  shows "safe_p i Q (random_index_db mq l (\<lambda>opt_index l. bind (deq_heuristic lh P opt_index) (\<lambda>opt.
     deq_choices r lh P mq opt_index opt l k))) (s, H)"
proof (rule draw_safe [OF l])
  fix j l' assume j: "j < mq_width mq" "L i l' s"
  show "safe_p i Q (bind (deq_heuristic lh P j) (\<lambda>opt. deq_choices r lh P mq j opt l' k)) (s, H)"
  proof (rule deq_heuristic_safe [OF J j(1)])
    fix x t K assume t: "J (t, K)" "ord i s t" "hist_rely i H K"
    show "safe_p i Q (deq_choices r lh P mq j x l' k) (t, K)"
      by (rule deq_choices_safe [OF t(1) j(1) L_stable [OF j(2) t(2)]]) (use k hist_rely_trans [OF t(3)] in blast)
  qed
qed

lemma enqueue_db_safe:
  assumes J: "J (s, H)" and l: "length dcc = mq_width mq" "L i l s" and P0: "proj i H = P0" and v: "v \<noteq> 0"
    and step: "i < length opss" "prefix (map fst P0 @ [Enqueue key v]) (opss ! i)"
  shows "safe_p i (op_post i (Enqueue key v) P0) (enqueue_db lh P mq key v (dcc, l)) (s, H)"
  unfolding enqueue_db_def prod.case
proof (rule choose_enq_safe [OF J l(2)])
  fix j l u M assume u: "J (u, M)" "hist_rely i H M" "j < mq_width mq" "L i l u"
  have P: "proj i M = P0" using u(2) P0 by auto
  show "safe_p i (op_post i (Enqueue key v) P0) (bind (partial_enqueue P j key v l) (\<lambda>(r, l). Ret ((r, j), dcc, l))) (u, M)"
  proof (rule safe_bind [OF _ rely_refl], rule safe_weaken [OF enq [OF u(1,3) v u(4) step(1)]])
    show "prefix (map fst (proj i M) @ [Enqueue key v]) (opss ! i)" using P step(2) by simp
    fix x y
    assume post: "(case x of (r, l) \<Rightarrow> \<lambda>(t, H'). J (t, H') \<and> L i l t \<and> proj i H' = proj i M @ [(Enqueue key v, r, j)]) y"
    obtain r l' z N where [simp]: "x = (r, l')" "y = (z, N)" by (cases x, cases y)
    have "safe_p i (op_post i (Enqueue key v) P0) (Ret ((r, j), dcc, l')) (z, N)"
      by (rule ret_safe) (use post P l(1) in auto)
    then show "safe_p i (op_post i (Enqueue key v) P0) (case x of (r, l) \<Rightarrow> Ret ((r, j), dcc, l)) y" by simp
  qed
qed

lemma dequeue_db_safe:
  assumes J: "J (s, H)" and l: "length dcc = mq_width mq" "L i l s" and P0: "proj i H = P0" and w: "2 * mq_width mq < U32"
    and step: "i < length opss" "prefix (map fst P0 @ [Dequeue]) (opss ! i)"
  shows "safe_p i (op_post i Dequeue P0) (dequeue_db n lh P mq (dcc, l)) (s, H)"
  unfolding dequeue_db_def prod.case
proof (rule choose_deq_safe [OF J l(2)])
  fix j l u M assume u: "J (u, M)" "hist_rely i H M" "j < mq_width mq" "L i l u"
  have P: "proj i M = P0" using u(2) P0 by auto
  show "safe_p i (op_post i Dequeue P0) (bind (partial_dequeue P j l) (\<lambda>(v, l).
      if v \<noteq> 0 then Ret ((v, j), dcc, l) else double_collect n P mq (add32 j 1) dcc l)) (u, M)"
  proof (rule safe_bind [OF _ rely_refl], rule safe_weaken [OF deq [OF u(1,3,4) step(1)]])
    show "prefix (map fst (proj i M) @ [Dequeue]) (opss ! i)" using P step(2) by simp
    fix x y
    assume post: "(case x of (r, l) \<Rightarrow> \<lambda>(t, H'). J (t, H') \<and> L i l t \<and> le u t \<and>
        (r = 0 \<and> proj i H' = proj i M \<and> puts u j \<le> gets t j \<or> r \<noteq> 0 \<and> proj i H' = proj i M @ [(Dequeue, r, j)])) y"
    obtain v l' z N where [simp]: "x = (v, l')" "y = (z, N)" by (cases x, cases y)
    show "safe_p i (op_post i Dequeue P0) (case x of (v, l) \<Rightarrow>
        if v \<noteq> 0 then Ret ((v, j), dcc, l) else double_collect n P mq (add32 j 1) dcc l) y"
    proof (cases "v = 0")
      case True
      have "add32 j 1 \<le> mq_width mq" using u(3) w by (simp add: add32_def)
      moreover have "T No_fuel \<or> B < n + work z" using fuel by auto
      ultimately have "safe_p i (op_post i Dequeue P0) (double_collect n P mq (add32 j 1) dcc l') (z, N)"
        using post P l(1) w step True by (intro double_collect_safe) auto
      then show ?thesis using True by simp
    next
      case False
      have "safe_p i (op_post i Dequeue P0) (Ret ((v, j), dcc, l')) (z, N)"
        by (rule ret_safe) (use post P l(1) False in auto)
      then show ?thesis using False by simp
    qed
  qed
qed

text \<open>The operations as those of an object.\<close>

lemma db_op_ok:
  assumes "i < length opss" and "2 * mq_width mq < U32" and "\<And>key. op \<noteq> Enqueue key 0"
  shows "op_ok A T J ord grd (\<lambda>i dl s. length (fst dl) = mq_width mq \<and> L i (snd dl) s) opss i op (db_op n lh P mq)"
proof (rule op_okI)
  fix dl :: "nat list \<times> 'z thread_scheme" and s H P0
  assume J: "J (s, H)" "length (fst dl) = mq_width mq \<and> L i (snd dl) s" "proj i H = P0" "prefix (map fst P0 @ [op]) (opss ! i)"
  obtain dcc l where dl: "dl = (dcc, l)" by (cases dl)
  have "safe_p i (op_post i op P0) (db_op n lh P mq op dl) (s, H)"
    using J assms enqueue_db_safe dequeue_db_safe unfolding dl by (cases op) auto
  then show "safe_p i (\<lambda>(r, l) (s', H'). J (s', H') \<and> (length (fst l) = mq_width mq \<and> L i (snd l) s') \<and> proj i H' = P0 @ [(op, r)])
      (db_op n lh P mq op dl) (s, H)"
    by (rule safe_weaken) (auto simp: op_post_def split: prod.splits)
qed

lemma db_object:
  assumes "2 * mq_width mq < U32" and nz: "\<And>i key v. i < length opss \<Longrightarrow> Enqueue key v \<in> set (opss ! i) \<Longrightarrow> v \<noteq> 0"
  shows "lin_object_hist A T J ord grd (\<lambda>i dl rs s. length (fst dl) = mq_width mq \<and> L i (snd dl) s) (spec_fifos True)
     (replicate (mq_width mq) []) rep (db_op n lh P mq) opss"
proof
  show "op_ok_hist A T J ord grd (\<lambda>i dl rs s. length (fst dl) = mq_width mq \<and> L i (snd dl) s) opss i op (db_op n lh P mq)"
    if "i < length opss" "op \<in> set (opss ! i)" for i op
    using db_op_ok [OF that(1) assms(1), of op lh] nz [OF that(1)] that(2) unfolding op_ok_def op_ok_hist_def by blast
qed (auto intro: ord_refl grd_ord L_stable J_rep elim: ord_trans)

lemma db_linearizable:
  assumes "2 * mq_width mq < U32" and nz: "\<And>i key v. i < length opss \<Longrightarrow> Enqueue key v \<in> set (opss ! i) \<Longrightarrow> v \<noteq> 0"
    and "J (s, [])" and "opss = map fst ths"
    and "\<And>i. i < length ths \<Longrightarrow> length (fst (snd (ths ! i))) = mq_width mq \<and> L i (snd (snd (ths ! i))) s"
  shows "linearizable_with (empties_seen True (mq_width mq)) A T (spec_fifos True) (replicate (mq_width mq) []) rep opss
     (s, threads (db_op n lh P mq) ths)"
  by (rule lin_object_hist.linearizable_with_threads [OF db_object [OF assms(1)] assms(3,4,5) J_empties]) (use nz in auto)

end

end
