(* ===== verification/Dcbo_Ms.thy ===== *)
theory Dcbo_Ms
  imports Dcbo
begin

text \<open>
  The load balancer on Michael-Scott queues: \<open>src/dcbo-ms\<close>, whose counts are those of the
  descriptors, and \<open>src/simple-dcbo-ms\<close>, which wraps the same queue with external counters
  (\<open>external-count-wrapper.c\<close>). Both provide the contract of the balancer, so both are
  linearizable to an array of FIFO queues. The wrapper returns the tail version as an \<open>int\<close>,
  so its versions repeat after \<open>2^32\<close> enqueues; the theorem for it bounds the counts.
\<close>

section \<open>The partial queue of dcbo-ms\<close>

definition ms_partial :: "nat \<Rightarrow> (ms_mem, thread_msq) partial" where
  "ms_partial n = \<lparr>partial_enqueue = ms_enqueue n, partial_dequeue = ms_dequeue n,
     partial_length = (\<lambda>q. ms_queue_size q Ret), partial_tail_version = (\<lambda>q. ms_enq_count q Ret),
     partial_enq_count = (\<lambda>q. ms_enq_count q Ret), partial_deq_count = (\<lambda>q. ms_deq_count q Ret)\<rparr>"

section \<open>The wrapped queue of simple-dcbo-ms\<close>

text \<open>The counters are fields of the same struct as the partial queue: one for each in the arena.\<close>

record wrapped_mem = ms_mem +
  wr_enq_count :: "nat \<Rightarrow> nat"
  wr_deq_count :: "nat \<Rightarrow> nat"

definition wrapped_enqueue :: "nat \<Rightarrow> nat \<Rightarrow> int \<Rightarrow> int \<Rightarrow> thread_msq \<Rightarrow> (wrapped_mem, int \<times> thread_msq) prog" where
  "wrapped_enqueue n queue key v l = bind (ms_enqueue n queue key v l) (\<lambda>(r, l).
     checked (\<lambda>s. queue < length (ms_queues s))
       (fai_u64 (\<lambda>s. wr_enq_count s queue) (\<lambda>x s. s\<lparr>wr_enq_count := (wr_enq_count s)(queue := x)\<rparr>) (\<lambda>_. Ret (1, l))))"

definition wrapped_dequeue :: "nat \<Rightarrow> nat \<Rightarrow> thread_msq \<Rightarrow> (wrapped_mem, int \<times> thread_msq) prog" where
  "wrapped_dequeue n queue l = bind (ms_dequeue n queue l) (\<lambda>(ret, l).
     if ret \<noteq> 0 then
       checked (\<lambda>s. queue < length (ms_queues s))
         (fai_u64 (\<lambda>s. wr_deq_count s queue) (\<lambda>x s. s\<lparr>wr_deq_count := (wr_deq_count s)(queue := x)\<rparr>) (\<lambda>_. Ret (ret, l)))
     else Ret (ret, l))"

definition init_wrapped_queue :: "(nat \<Rightarrow> int \<times> int) \<Rightarrow> nat \<Rightarrow> wrapped_mem \<Rightarrow> wrapped_mem" where
  "init_wrapped_queue mem queue s = (init_ms_queue mem queue s)
     \<lparr>wr_deq_count := (wr_deq_count s)(queue := 0), wr_enq_count := (wr_enq_count s)(queue := 0)\<rparr>"

definition wrapped_queue_size :: "nat \<Rightarrow> (wrapped_mem, nat) prog" where
  "wrapped_queue_size queue = checked (\<lambda>s. queue < length (ms_queues s)) (load (\<lambda>s. wr_enq_count s queue) (\<lambda>enq_count.
     checked (\<lambda>s. queue < length (ms_queues s)) (load (\<lambda>s. wr_deq_count s queue) (\<lambda>deq_count.
     if deq_count > enq_count then Ret 0 else Ret (sub64 enq_count deq_count)))))"

text \<open>A 64-bit count returned as an \<open>int\<close> and compared with a \<open>uint64_t\<close> again.\<close>

definition through_int :: "nat \<Rightarrow> nat" where
  "through_int n = (let x = n mod U32 in if x < U32 div 2 then x else x + (U64 - U32))"

definition wrapped_tail_version :: "nat \<Rightarrow> (wrapped_mem, nat) prog" where
  "wrapped_tail_version queue = ms_enq_count queue (\<lambda>n. Ret (through_int n))"

definition wrapped_enq_count :: "nat \<Rightarrow> (wrapped_mem, nat) prog" where
  "wrapped_enq_count queue = checked (\<lambda>s. queue < length (ms_queues s)) (load (\<lambda>s. wr_enq_count s queue) Ret)"

definition wrapped_deq_count :: "nat \<Rightarrow> (wrapped_mem, nat) prog" where
  "wrapped_deq_count queue = checked (\<lambda>s. queue < length (ms_queues s)) (load (\<lambda>s. wr_deq_count s queue) Ret)"

definition wrapped_partial :: "nat \<Rightarrow> (wrapped_mem, thread_msq) partial" where
  "wrapped_partial n = \<lparr>partial_enqueue = wrapped_enqueue n, partial_dequeue = wrapped_dequeue n,
     partial_length = wrapped_queue_size, partial_tail_version = wrapped_tail_version,
     partial_enq_count = wrapped_enq_count, partial_deq_count = wrapped_deq_count\<rparr>"

section \<open>The contract holds for dcbo-ms\<close>

lemma bind_checked_load: "bind (checked c (load f (\<lambda>v. Ret (g v)))) k = checked c (load f (\<lambda>v. k (g v)))"
  by (auto simp: checked_def load_def fun_eq_iff)

lemma bind_checked_load2:
  "bind (checked c (load f (\<lambda>x. checked d (load g (\<lambda>y. Ret (h x y)))))) k =
   checked c (load f (\<lambda>x. checked d (load g (\<lambda>y. k (h x y)))))"
  by (auto simp: checked_def load_def fun_eq_iff)

lemma inv_msq_rep: "inv_msq True w opss (s, H) \<Longrightarrow> \<exists>q. replay (spec_fifos True) (replicate w []) H = Some q \<and> rep_ms s q"
  by (erule inv_msqE) (auto simp: rep_ms_def desc_ok_def)

lemma inv_msq_empties: "inv_msq loose w opss (s, H) \<Longrightarrow> empties_seen loose w H"
  by (erule inv_msqE)

lemma core_ms_mono: "core_ms w s t \<Longrightarrow> gets_ms s j \<le> gets_ms t j \<and> puts_ms s j \<le> puts_ms t j"
  by (simp add: core_msD)

lemma work_less_puts:
  "inv_msq loose w opss (s, H) \<Longrightarrow> inv_msq loose w opss (t, H') \<Longrightarrow> core_ms w s t \<Longrightarrow> j < w \<Longrightarrow>
     puts_ms s j \<noteq> puts_ms t j \<Longrightarrow> work w s < work w t"
  using work_less_core [of loose w opss s H t H' j] core_msD(2) [of w s t j] by simp

abbreviation safe_at where
  "safe_at A T loose w opss i Q \<equiv> safe A T (lin_rely (inv_msq loose w opss) (ord_msq w) i)
     (lin_guar (inv_msq loose w opss) (grd_msq w) opss i) Q"

text \<open>A read of one field of a queue whose value is arbitrary.\<close>

lemma read_any:
  fixes A :: "'m ms_mem_scheme \<Rightarrow> bool"
  assumes J: "inv_msq loose w opss (s, H)" and j: "j < w"
    and k: "\<And>x t H'. inv_msq loose w opss (t, H') \<Longrightarrow> ord_msq w i s t \<Longrightarrow> hist_rely i H H' \<Longrightarrow>
      safe_at A T loose w opss i Q (k x) (t, H')"
  shows "safe_at A T loose w opss i Q
    (checked (\<lambda>s. j < length (ms_queues s)) (load f k)) (s, H)"
  apply (rule lin_checked, rule J, erule inv_msq_index, rule j)
  apply (rule lin_load, rule J, simp)
  subgoal premises p by (rule k [OF p(1-3)])
  done

lemma read_any_ret:
  fixes A :: "'m ms_mem_scheme \<Rightarrow> bool"
  assumes "inv_msq loose w opss (s, H)" and "j < w"
  shows "safe_at A T loose w opss i
    (\<lambda>x (t, H'). inv_msq loose w opss (t, H') \<and> ord_msq w i s t \<and> hist_rely i H H')
    (checked (\<lambda>s. j < length (ms_queues s)) (load f (\<lambda>v. Ret (g v)))) (s, H)"
proof (rule read_any [OF assms])
  fix x and t :: "'m ms_mem_scheme" and K assume t: "inv_msq loose w opss (t, K)" "ord_msq w i s t" "hist_rely i H K"
  show "safe_at A T loose w opss i
    (\<lambda>x (t, H'). inv_msq loose w opss (t, H') \<and> ord_msq w i s t \<and> hist_rely i H H') (Ret (g x)) (t, K)"
    by (rule lin_ret, rule t(1)) (use t ord_msq_trans [of w i s t] hist_rely_trans [of i H K] in simp)
qed

lemma read_any_ret2:
  fixes A :: "'m ms_mem_scheme \<Rightarrow> bool"
  assumes J: "inv_msq loose w opss (s, H)" and j: "j < w"
  shows "safe_at A T loose w opss i
    (\<lambda>x (t, H'). inv_msq loose w opss (t, H') \<and> ord_msq w i s t \<and> hist_rely i H H')
    (checked (\<lambda>s. j < length (ms_queues s)) (load f (\<lambda>x. checked (\<lambda>s. j < length (ms_queues s)) (load f' (\<lambda>y. Ret (g x y)))))) (s, H)"
proof (rule read_any [OF J j])
  fix x and t :: "'m ms_mem_scheme" and K assume t: "inv_msq loose w opss (t, K)" "ord_msq w i s t" "hist_rely i H K"
  show "safe_at A T loose w opss i
    (\<lambda>x (t, H'). inv_msq loose w opss (t, H') \<and> ord_msq w i s t \<and> hist_rely i H H')
    (checked (\<lambda>s. j < length (ms_queues s)) (load f' (\<lambda>y. Ret (g x y)))) (t, K)"
    by (rule safe_weaken [OF read_any_ret [OF t(1) j]])
      (use t ord_msq_trans [of w i s t] hist_rely_trans [of i H K] in auto)
qed

text \<open>The read of a tail version, at which an operation may take effect.\<close>

lemma read_version:
  fixes A :: "'m ms_mem_scheme \<Rightarrow> bool"
  assumes J: "inv_msq loose w opss (s, H)" and j: "j < w"
    and k: "\<And>t H'. inv_msq loose w opss (t, H') \<Longrightarrow> ord_msq w i s t \<Longrightarrow> hist_rely i H H' \<Longrightarrow> A t \<Longrightarrow>
      \<exists>X. hist_step opss i H' (H' @ X) \<and> inv_msq loose w opss (t, H' @ X) \<and>
        safe_at A T loose w opss i Q (k (g (puts_ms t j))) (t, H' @ X)"
  shows "safe_at A T loose w opss i Q
    (bind (ms_enq_count j (\<lambda>n. Ret (g n))) k) (s, H)"
  unfolding ms_enq_count_def bind_checked_load
  apply (rule lin_checked, rule J, erule inv_msq_index, rule j)
  apply (rule lin_load_point, rule J)
  subgoal premises p for t H' using k [OF p(1-3,5)] by (simp add: puts_ms_def)
  done

lemma ord_core_ms: "ord_msq w i s t \<Longrightarrow> core_ms w s t"
  by (simp add: ord_msq_def)

text \<open>Every step follows \<open>core_ms\<close>.\<close>

lemma safe_core:
  assumes "safe_at A T loose w opss i Q p (s, H)"
  shows "safe_at A T loose w opss i (\<lambda>x y. Q x y \<and> core_ms w s (fst y)) p (s, H)"
proof -
  have "safe_at A T loose w opss i (\<lambda>x y. Q x y \<and> core_ms w (fst (s, H)) (fst y)) p (s, H)"
    by (rule safe_along [OF assms, where le = "\<lambda>x y. core_ms w (fst x) (fst y)"])
      (auto simp: lin_rely_def lin_guar_def ord_msq_def grd_msq_def elim: core_ms_trans)
  then show ?thesis by simp
qed

lemma enq_law:
  assumes J: "inv_msq True w opss (s, H)" and j: "j < w" and v: "v \<noteq> 0" and l: "ms_local w i l s" and i: "i < length opss"
    and step: "prefix (map fst (proj i H) @ [Enqueue key v]) (opss ! i)" and A: "\<And>s. A s \<Longrightarrow> no_wrap_ms s"
  shows "safe_at A (out_of_rounds n opss) True w opss i
    (\<lambda>(r, l) (t, H'). inv_msq True w opss (t, H') \<and> ms_local w i l t \<and> r = 1 \<and> proj i H' = proj i H @ [(Enqueue key v, r, j)])
    (ms_enqueue n j key v (l :: thread_msq)) (s, H)"
proof -
  have "safe_msq True w opss (out_of_rounds n opss) i (enq_post True w opss i j key v () (proj i H)) (ms_enqueue n j key v l) (s, H)"
    by (rule ms_enqueue_safe [OF J j]) (use l v i step enough_out_of_rounds in auto)
  from safe_assume [OF this A] show ?thesis
    by (rule safe_weaken) (auto simp: enq_post_def)
qed

lemma deq_law:
  assumes J: "inv_msq True w opss (s, H)" and j: "j < w" and l: "ms_local w i l s" and i: "i < length opss"
    and step: "prefix (map fst (proj i H) @ [Dequeue]) (opss ! i)" and A: "\<And>s. A s \<Longrightarrow> no_wrap_ms s"
  shows "safe_at A (out_of_rounds n opss) True w opss i
    (\<lambda>(r, l) (t, H'). inv_msq True w opss (t, H') \<and> ms_local w i l t \<and> core_ms w s t \<and>
       (r = 0 \<and> proj i H' = proj i H \<and> puts_ms s j \<le> gets_ms t j \<or> r \<noteq> 0 \<and> proj i H' = proj i H @ [(Dequeue, r, j)]))
    (ms_dequeue n j (l :: thread_msq)) (s, H)"
proof -
  have "safe_msq True w opss (out_of_rounds n opss) i (deq_post True w opss i j (puts_ms s j) () (proj i H)) (ms_dequeue n j l) (s, H)"
    by (rule ms_dequeue_safe [OF J j]) (use l i step enough_out_of_rounds in auto)
  from safe_core [OF safe_assume [OF this A]] show ?thesis
    by (rule safe_weaken) (auto simp: deq_post_def)
qed

interpretation dcbo: partial_queue "\<lparr>mq_width = Suc w, mq_d = d\<rparr>" no_wrap_ms "out_of_rounds n opss"
  "inv_msq True (Suc w) opss" "ord_msq (Suc w)" "grd_msq (Suc w)" "core_ms (Suc w)" "ms_local (Suc w)" opss "ms_partial n"
  gets_ms puts_ms puts_ms "Ms_Queue.work (Suc w)" "3 * total_ops opss" n rep_ms for w d n opss
proof (unfold_locales, unfold mqueue.simps)
  fix s t :: ms_mem and H H' H0 :: "(queue_op, int \<times> nat) history" and i j :: nat and l :: thread_msq
  show "ms_local (Suc w) i (l\<lparr>seeds := x\<rparr>) s" if "ms_local (Suc w) i l s" for x using that by simp
  show "\<exists>q. replay (spec_fifos True) (replicate (Suc w) []) H = Some q \<and> (\<forall>x\<in>set q. length x \<le> 1)"
    if "inv_msq True (Suc w) opss (s, H)" "\<And>j. j < Suc w \<Longrightarrow> puts_ms s j \<le> gets_ms s j" using that by (rule snapshot_ms)
  show "inv_msq True (Suc w) opss (s, H @ [(i, Dequeue, 0, Suc w)])"
    if "inv_msq True (Suc w) opss (s, H)" "i < length opss" "prefix (map fst (proj i H) @ [Dequeue]) (opss ! i)"
      "hist_rely i H0 H" "replay (spec_fifos True) (replicate (Suc w) []) H0 = Some q" "\<forall>x\<in>set q. length x \<le> 1" for q
    using that by (rule give_up_ms)
  assume J: "inv_msq True (Suc w) opss (s, H)"
  assume j: "j < Suc w"
  show "safe_at no_wrap_ms (out_of_rounds n opss) True (Suc w) opss i
      (\<lambda>x (t, H'). inv_msq True (Suc w) opss (t, H') \<and> ord_msq (Suc w) i s t \<and> hist_rely i H H') (h j) (s, H)"
    if "h \<in> {partial_length (ms_partial n), partial_enq_count (ms_partial n), partial_deq_count (ms_partial n)}" for h
    using that read_any_ret [OF J j, where g = "\<lambda>x. x"] read_any_ret2 [OF J j]
    by (auto simp: ms_partial_def ms_queue_size_def ms_enq_count_def ms_deq_count_def)
  show "safe_at no_wrap_ms (out_of_rounds n opss) True (Suc w) opss i Q
      (bind (partial_tail_version (ms_partial n) j) k) (s, H)"
    if "\<And>t H'. inv_msq True (Suc w) opss (t, H') \<Longrightarrow> ord_msq (Suc w) i s t \<Longrightarrow> hist_rely i H H' \<Longrightarrow> no_wrap_ms t \<Longrightarrow>
       \<exists>X. hist_step opss i H' (H' @ X) \<and> inv_msq True (Suc w) opss (t, H' @ X) \<and>
         safe_at no_wrap_ms (out_of_rounds n opss) True (Suc w) opss i Q (k (puts_ms t j)) (t, H' @ X)"
    for Q and k :: "nat \<Rightarrow> (ms_mem, (int \<times> nat) \<times> nat list \<times> thread_msq) prog"
    unfolding ms_partial_def partial.simps by (rule read_version [OF J j, where g = "\<lambda>x. x", OF that])
  assume l: "ms_local (Suc w) i l s" "i < length opss"
  show "safe_at no_wrap_ms (out_of_rounds n opss) True (Suc w) opss i
      (\<lambda>(r, l) (t, H'). inv_msq True (Suc w) opss (t, H') \<and> ms_local (Suc w) i l t \<and> proj i H' = proj i H @ [(Enqueue key v, r, j)])
      (partial_enqueue (ms_partial n) j key v l) (s, H)"
    if "v \<noteq> 0" "prefix (map fst (proj i H) @ [Enqueue key v]) (opss ! i)" for v key
    unfolding ms_partial_def partial.simps by (rule safe_weaken [OF enq_law [OF J j that(1) l that(2)]]) auto
  show "safe_at no_wrap_ms (out_of_rounds n opss) True (Suc w) opss i
      (\<lambda>(r, l) (t, H'). inv_msq True (Suc w) opss (t, H') \<and> ms_local (Suc w) i l t \<and> core_ms (Suc w) s t \<and>
         (r = 0 \<and> proj i H' = proj i H \<and> puts_ms s j \<le> gets_ms t j \<or> r \<noteq> 0 \<and> proj i H' = proj i H @ [(Dequeue, r, j)]))
      (partial_dequeue (ms_partial n) j l) (s, H)"
    if "prefix (map fst (proj i H) @ [Dequeue]) (opss ! i)"
    unfolding ms_partial_def partial.simps by (rule deq_law [OF J j l that])
qed (auto simp: out_of_rounds_def core_ms_mono simp del: replicate_Suc intro: ord_core_ms grd_ord_ms ms_local_stable inv_msq_rep inv_msq_empties
  work_mono_core work_bound work_less_puts elim: ord_msq_trans core_ms_trans)

section \<open>The contract holds for simple-dcbo-ms\<close>

text \<open>The counters of the wrapper are outside the queue: incrementing one changes nothing else.\<close>

lemma same_queue:
  assumes "ms_queues t = ms_queues s" and "ms_nodes t = ms_nodes s"
  shows "inv_msq loose w opss (t, H) = inv_msq loose w opss (s, H)" "grd_msq w i s t" "ord_msq w i s t" "core_ms w s t"
proof -
  have "gets_ms t = gets_ms s" "puts_ms t = puts_ms s" using assms by (auto simp: gets_ms_def puts_ms_def)
  then show "inv_msq loose w opss (t, H) = inv_msq loose w opss (s, H)" "grd_msq w i s t" "ord_msq w i s t" "core_ms w s t"
    using assms by (simp_all add: inv_msq_def desc_ok_def grd_msq_def ord_msq_def core_ms_def own_msq_def)
qed

lemma fai_safe:
  fixes s :: "'m ms_mem_scheme"
  assumes J: "inv_msq loose w opss (s, H)" and j: "j < w"
    and put: "\<And>v s. ms_queues (put v s) = ms_queues s \<and> ms_nodes (put v s) = ms_nodes s"
    and Q: "\<And>t K. inv_msq loose w opss (t, K) \<Longrightarrow> ord_msq w i s t \<Longrightarrow> proj i K = proj i H \<Longrightarrow> Q x (t, K)"
  shows "safe_at A T loose w opss i Q (checked (\<lambda>s. j < length (ms_queues s)) (fai_u64 get put (\<lambda>_. Ret x))) (s, H)"
  unfolding fai_u64_def
  apply (rule lin_checked, rule J, erule inv_msq_index, rule j)
  apply (rule lin_fetch_op, rule J)
  subgoal premises p for t K
  proof -
    let ?t = "put (add64 (get t) 1) t"
    note same = same_queue [where s = t and t = ?t, OF conjunct1 [OF put] conjunct2 [OF put]]
    have J': "inv_msq loose w opss (?t, K)" using same(1) p(1) by simp
    have "safe_at A T loose w opss i Q (Ret x) (?t, K)"
      by (rule lin_ret, rule J')
        (use Q p(4) ord_msq_trans [OF p(2) ord_msq_trans [OF same(3)]] in auto)
    then show ?thesis using p(1) same by (intro exI [of _ "[]"]) simp
  qed
  done

definition no_wrap_wrapped :: "wrapped_mem \<Rightarrow> bool" where
  "no_wrap_wrapped s \<longleftrightarrow> no_wrap_ms s \<and> (\<forall>q\<in>set (ms_queues s). hi (ms_tail q) < U32 div 2)"

lemma through_int_small [simp]: "n < U32 div 2 \<Longrightarrow> through_int n = n"
  by (simp add: through_int_def U32_def)

lemma no_wrap_wrapped_puts: "no_wrap_wrapped s \<Longrightarrow> inv_msq loose w opss (s, H) \<Longrightarrow> j < w \<Longrightarrow> puts_ms s j < U32 div 2"
  by (auto simp: no_wrap_wrapped_def puts_ms_def dest: inv_msq_index)

lemma no_wrap_wrapped_ms: "no_wrap_wrapped s \<Longrightarrow> no_wrap_ms s"
  by (simp add: no_wrap_wrapped_def)

lemma wrapped_enq_law:
  assumes J: "inv_msq True w opss (s, H)" and j: "j < w" and v: "v \<noteq> 0" and l: "ms_local w i l s" and i: "i < length opss"
    and step: "prefix (map fst (proj i H) @ [Enqueue key v]) (opss ! i)"
  shows "safe_at no_wrap_wrapped (out_of_rounds n opss) True w opss i
    (\<lambda>(r, l) (t, H'). inv_msq True w opss (t, H') \<and> ms_local w i l t \<and> proj i H' = proj i H @ [(Enqueue key v, r, j)])
    (wrapped_enqueue n j key v l) (s, H)"
  unfolding wrapped_enqueue_def
proof (rule safe_bind, rule safe_weaken [OF enq_law [OF assms no_wrap_wrapped_ms]])
  show "lin_rely (inv_msq True w opss) (ord_msq w) i x x" for x by (simp add: lin_rely_def)
  fix x and y :: "wrapped_mem \<times> (queue_op, int \<times> nat) history"
  assume post: "(case x of (r, l) \<Rightarrow> \<lambda>(t, H'). inv_msq True w opss (t, H') \<and> ms_local w i l t \<and> r = 1 \<and>
      proj i H' = proj i H @ [(Enqueue key v, r, j)]) y"
  obtain r l' t K where [simp]: "x = (r, l')" "y = (t, K)" by (cases x, cases y)
  have "safe_at no_wrap_wrapped (out_of_rounds n opss) True w opss i
      (\<lambda>(r, l) (t, H'). inv_msq True w opss (t, H') \<and> ms_local w i l t \<and> proj i H' = proj i H @ [(Enqueue key v, r, j)])
      (checked (\<lambda>s. j < length (ms_queues s)) (fai_u64 (\<lambda>s. wr_enq_count s j)
        (\<lambda>x s. s\<lparr>wr_enq_count := (wr_enq_count s)(j := x)\<rparr>) (\<lambda>_. Ret (1, l')))) (t, K)"
    by (rule fai_safe [OF _ j]) (use post ms_local_stable in auto)
  then show "safe_at no_wrap_wrapped (out_of_rounds n opss) True w opss i
      (\<lambda>(r, l) (t, H'). inv_msq True w opss (t, H') \<and> ms_local w i l t \<and> proj i H' = proj i H @ [(Enqueue key v, r, j)])
      (case x of (r, l) \<Rightarrow> checked (\<lambda>s. j < length (ms_queues s)) (fai_u64 (\<lambda>s. wr_enq_count s j)
        (\<lambda>x s. s\<lparr>wr_enq_count := (wr_enq_count s)(j := x)\<rparr>) (\<lambda>_. Ret (1, l)))) y" by simp
qed

lemma wrapped_deq_law:
  assumes J: "inv_msq True w opss (s, H)" and j: "j < w" and l: "ms_local w i l s" and i: "i < length opss"
    and step: "prefix (map fst (proj i H) @ [Dequeue]) (opss ! i)"
  shows "safe_at no_wrap_wrapped (out_of_rounds n opss) True w opss i
    (\<lambda>(r, l) (t, H'). inv_msq True w opss (t, H') \<and> ms_local w i l t \<and> core_ms w s t \<and>
       (r = 0 \<and> proj i H' = proj i H \<and> puts_ms s j \<le> gets_ms t j \<or> r \<noteq> 0 \<and> proj i H' = proj i H @ [(Dequeue, r, j)]))
    (wrapped_dequeue n j l) (s, H)"
  unfolding wrapped_dequeue_def
proof (rule safe_bind, rule safe_weaken [OF deq_law [OF assms no_wrap_wrapped_ms]])
  let ?Q = "\<lambda>(r, l) (t, H'). inv_msq True w opss (t, H') \<and> ms_local w i l t \<and> core_ms w s t \<and>
       (r = 0 \<and> proj i H' = proj i H \<and> puts_ms s j \<le> gets_ms t j \<or> r \<noteq> 0 \<and> proj i H' = proj i H @ [(Dequeue, r, j)])"
  let ?safe = "safe_at no_wrap_wrapped (out_of_rounds n opss) True w opss i ?Q"
  show "lin_rely (inv_msq True w opss) (ord_msq w) i x x" for x by (simp add: lin_rely_def)
  fix x and y :: "wrapped_mem \<times> (queue_op, int \<times> nat) history" assume post: "?Q x y"
  obtain r l' t K where [simp]: "x = (r, l')" "y = (t, K)" by (cases x, cases y)
  have stable: "?Q (r, l') (u, M)" if "inv_msq True w opss (u, M)" "ord_msq w i t u" "proj i M = proj i K" for u M
    using post that core_ms_trans [of w s t u] ord_core_ms [OF that(2)] ms_local_stable [of w i l' t u] core_msD(1) [of w t u j] by auto
  show "?safe (case x of (ret, l) \<Rightarrow> if ret \<noteq> 0 then checked (\<lambda>s. j < length (ms_queues s)) (fai_u64 (\<lambda>s. wr_deq_count s j)
        (\<lambda>x s. s\<lparr>wr_deq_count := (wr_deq_count s)(j := x)\<rparr>) (\<lambda>_. Ret (ret, l))) else Ret (ret, l)) y"
  proof (cases "r = 0")
    case True
    have "?safe (Ret (r, l')) (t, K)" by (rule lin_ret) (use post stable in auto)
    then show ?thesis using True by simp
  next
    case False
    have "?safe (checked (\<lambda>s. j < length (ms_queues s)) (fai_u64 (\<lambda>s. wr_deq_count s j)
        (\<lambda>x s. s\<lparr>wr_deq_count := (wr_deq_count s)(j := x)\<rparr>) (\<lambda>_. Ret (r, l')))) (t, K)"
      by (rule fai_safe [OF _ j]) (use post stable in auto)
    then show ?thesis using False by simp
  qed
qed

interpretation sdcbo: partial_queue "\<lparr>mq_width = Suc w, mq_d = d\<rparr>" no_wrap_wrapped "out_of_rounds n opss"
  "inv_msq True (Suc w) opss" "ord_msq (Suc w)" "grd_msq (Suc w)" "core_ms (Suc w)" "ms_local (Suc w)" opss "wrapped_partial n"
  gets_ms puts_ms "\<lambda>s j. through_int (puts_ms s j)" "Ms_Queue.work (Suc w)" "3 * total_ops opss" n rep_ms for w d n opss
proof (unfold_locales, unfold mqueue.simps)
  fix s t :: wrapped_mem and H H' H0 :: "(queue_op, int \<times> nat) history" and i j :: nat and l :: thread_msq
  show "ms_local (Suc w) i (l\<lparr>seeds := x\<rparr>) s" if "ms_local (Suc w) i l s" for x using that by simp
  show "\<exists>q. replay (spec_fifos True) (replicate (Suc w) []) H = Some q \<and> (\<forall>x\<in>set q. length x \<le> 1)"
    if "inv_msq True (Suc w) opss (s, H)" "\<And>j. j < Suc w \<Longrightarrow> puts_ms s j \<le> gets_ms s j" using that by (rule snapshot_ms)
  show "inv_msq True (Suc w) opss (s, H @ [(i, Dequeue, 0, Suc w)])"
    if "inv_msq True (Suc w) opss (s, H)" "i < length opss" "prefix (map fst (proj i H) @ [Dequeue]) (opss ! i)"
      "hist_rely i H0 H" "replay (spec_fifos True) (replicate (Suc w) []) H0 = Some q" "\<forall>x\<in>set q. length x \<le> 1" for q
    using that by (rule give_up_ms)
  assume J: "inv_msq True (Suc w) opss (s, H)"
  assume j: "j < Suc w"
  show "puts_ms s j = puts_ms t j" if "no_wrap_wrapped s" "no_wrap_wrapped t" "through_int (puts_ms s j) = through_int (puts_ms t j)"
      "inv_msq True (Suc w) opss (t, H')"
    using that no_wrap_wrapped_puts [OF that(1) J j] no_wrap_wrapped_puts [OF that(2,4) j] by simp
  show "safe_at no_wrap_wrapped (out_of_rounds n opss) True (Suc w) opss i
      (\<lambda>x (t, H'). inv_msq True (Suc w) opss (t, H') \<and> ord_msq (Suc w) i s t \<and> hist_rely i H H') (h j) (s, H)"
    if "h \<in> {partial_length (wrapped_partial n), partial_enq_count (wrapped_partial n), partial_deq_count (wrapped_partial n)}" for h
    using that read_any_ret [OF J j, where g = "\<lambda>x. x"]
      read_any_ret2 [OF J j, where g = "\<lambda>x y. if y > x then 0 else sub64 x y"]
    by (auto simp: wrapped_partial_def wrapped_queue_size_def wrapped_enq_count_def wrapped_deq_count_def if_distrib)
  show "safe_at no_wrap_wrapped (out_of_rounds n opss) True (Suc w) opss i Q
      (bind (partial_tail_version (wrapped_partial n) j) k) (s, H)"
    if "\<And>t H'. inv_msq True (Suc w) opss (t, H') \<Longrightarrow> ord_msq (Suc w) i s t \<Longrightarrow> hist_rely i H H' \<Longrightarrow> no_wrap_wrapped t \<Longrightarrow>
       \<exists>X. hist_step opss i H' (H' @ X) \<and> inv_msq True (Suc w) opss (t, H' @ X) \<and>
         safe_at no_wrap_wrapped (out_of_rounds n opss) True (Suc w) opss i Q (k (through_int (puts_ms t j))) (t, H' @ X)"
    for Q and k :: "nat \<Rightarrow> (wrapped_mem, (int \<times> nat) \<times> nat list \<times> thread_msq) prog"
    unfolding wrapped_partial_def partial.simps wrapped_tail_version_def by (rule read_version [OF J j]) (rule that)
  assume l: "ms_local (Suc w) i l s" "i < length opss"
  show "safe_at no_wrap_wrapped (out_of_rounds n opss) True (Suc w) opss i
      (\<lambda>(r, l) (t, H'). inv_msq True (Suc w) opss (t, H') \<and> ms_local (Suc w) i l t \<and> proj i H' = proj i H @ [(Enqueue key v, r, j)])
      (partial_enqueue (wrapped_partial n) j key v l) (s, H)"
    if "v \<noteq> 0" "prefix (map fst (proj i H) @ [Enqueue key v]) (opss ! i)" for v key
    unfolding wrapped_partial_def partial.simps by (rule wrapped_enq_law [OF J j that(1) l that(2)])
  show "safe_at no_wrap_wrapped (out_of_rounds n opss) True (Suc w) opss i
      (\<lambda>(r, l) (t, H'). inv_msq True (Suc w) opss (t, H') \<and> ms_local (Suc w) i l t \<and> core_ms (Suc w) s t \<and>
         (r = 0 \<and> proj i H' = proj i H \<and> puts_ms s j \<le> gets_ms t j \<or> r \<noteq> 0 \<and> proj i H' = proj i H @ [(Dequeue, r, j)]))
      (partial_dequeue (wrapped_partial n) j l) (s, H)"
    if "prefix (map fst (proj i H) @ [Dequeue]) (opss ! i)"
    unfolding wrapped_partial_def partial.simps by (rule wrapped_deq_law [OF J j l that])
next
  show "Ms_Queue.work (Suc w) s < Ms_Queue.work (Suc w) t"
    if "inv_msq True (Suc w) opss (s, H)" "inv_msq True (Suc w) opss (t, H')" "core_ms (Suc w) s t" "j < Suc w"
      "through_int (puts_ms s j) \<noteq> through_int (puts_ms t j)" for s t :: wrapped_mem and H H' j
    using work_less_puts [OF that(1-4)] that(5) by metis
qed (auto simp: out_of_rounds_def core_ms_mono simp del: replicate_Suc intro: ord_core_ms grd_ord_ms ms_local_stable inv_msq_rep
  inv_msq_empties work_mono_core work_bound elim: ord_msq_trans core_ms_trans)

section \<open>Linearizability\<close>

text \<open>The memory before \<open>create_queue\<close>: an arena of \<open>w\<close> queue structs with arbitrary contents.\<close>

definition fresh_queue :: ms_queue where
  "fresh_queue = \<lparr>ms_head = DW None 0, ms_tail = DW None 0\<rparr>"

definition ms_arena :: "nat \<Rightarrow> ms_mem" where
  "ms_arena w = \<lparr>ms_queues = replicate w fresh_queue, ms_nodes = \<lambda>_. None\<rparr>"

definition wrapped_arena :: "nat \<Rightarrow> wrapped_mem" where
  "wrapped_arena w = \<lparr>ms_queues = replicate w fresh_queue, ms_nodes = \<lambda>_. None, wr_enq_count = \<lambda>_. 0, wr_deq_count = \<lambda>_. 0\<rparr>"

lemma init_queues:
  assumes "\<And>j s. ms_queues (f j s) = ms_queues (init_ms_queue mem j s) \<and> ms_nodes (f j s) = ms_nodes (init_ms_queue mem j s)"
    and "k \<le> length (ms_queues s)"
  shows "length (ms_queues (fold f [0..<k] s)) = length (ms_queues s)"
    "j < k \<Longrightarrow> ms_queues (fold f [0..<k] s) ! j = \<lparr>ms_head = DW (Some (Dummy j)) 0, ms_tail = DW (Some (Dummy j)) 0\<rparr>"
    "j < k \<Longrightarrow> \<exists>n. ms_nodes (fold f [0..<k] s) (Dummy j) = Some n \<and> qn_next n = None"
    "ms_nodes (fold f [0..<k] s) (Node i m) = ms_nodes s (Node i m)"
  using assms(2)
  by (induction k) (auto simp: assms(1) init_ms_queue_def Let_def nth_list_update less_Suc_eq)

definition dcbo_threads :: "mqueue \<Rightarrow> (nat \<Rightarrow> nat) \<Rightarrow> (queue_op list \<times> seeds) list \<Rightarrow> (queue_op list \<times> nat list \<times> thread_msq) list" where
  "dcbo_threads mq mem ths = map (\<lambda>(ops, l). (ops, d_balanced_register mq mem l)) (ms_threads ths)"

lemma dcbo_threads_simps [simp]:
  "map fst (dcbo_threads mq mem ths) = map fst ths" "length (dcbo_threads mq mem ths) = length ths"
  "i < length ths \<Longrightarrow> snd (dcbo_threads mq mem ths ! i) = (map mem [0..<mq_width mq], new_thread_msq i (snd (ths ! i)))"
  by (auto simp: dcbo_threads_def d_balanced_register_def comp_def case_prod_beta intro: nth_equalityI)

definition nonzero_values :: "queue_op list list \<Rightarrow> bool" where
  "nonzero_values opss = list_all (list_all (\<lambda>op. case op of Enqueue key v \<Rightarrow> v \<noteq> 0 | Dequeue \<Rightarrow> True)) opss"

lemma nonzero_valuesD: "nonzero_values opss \<Longrightarrow> i < length opss \<Longrightarrow> Enqueue key v \<in> set (opss ! i) \<Longrightarrow> v \<noteq> 0"
  by (fastforce simp: nonzero_values_def list_all_iff)



section \<open>The balancer of simple-dcbo-ms\<close>

text \<open>
  \<open>src/simple-dcbo-ms\<close> has the same \<open>d-balanced-queue.c\<close>, compiled against the wrapper.
\<close>

definition enqueue_simple :: "nat \<Rightarrow> bool \<Rightarrow> mqueue \<Rightarrow> int \<Rightarrow> int \<Rightarrow> nat list \<times> thread_msq \<Rightarrow>
    (wrapped_mem, (int \<times> nat) \<times> nat list \<times> thread_msq) prog" where
  "enqueue_simple n lh mq key v dl = enqueue_db lh (wrapped_partial n) mq key v dl"

definition double_collect_simple :: "nat \<Rightarrow> mqueue \<Rightarrow> nat \<Rightarrow> nat list \<Rightarrow> thread_msq \<Rightarrow>
    (wrapped_mem, (int \<times> nat) \<times> nat list \<times> thread_msq) prog" where
  "double_collect_simple n mq start dcc l = double_collect n (wrapped_partial n) mq start dcc l"

definition dequeue_simple :: "nat \<Rightarrow> bool \<Rightarrow> mqueue \<Rightarrow> nat list \<times> thread_msq \<Rightarrow>
    (wrapped_mem, (int \<times> nat) \<times> nat list \<times> thread_msq) prog" where
  "dequeue_simple n lh mq dl = (case dl of (dcc, l) \<Rightarrow>
     random_index_db mq l (\<lambda>opt_index l. bind (deq_heuristic lh (wrapped_partial n) opt_index) (\<lambda>opt.
     deq_choices (mq_d mq - 1) lh (wrapped_partial n) mq opt_index opt l (\<lambda>opt_index l.
     bind (wrapped_dequeue n opt_index l) (\<lambda>(v, l).
     if v \<noteq> 0 then Ret ((v, opt_index), dcc, l) else double_collect_simple n mq (add32 opt_index 1) dcc l)))))"

definition create_queue_simple :: "bool \<Rightarrow> (nat \<Rightarrow> int \<times> int) \<Rightarrow> nat \<Rightarrow> nat \<Rightarrow> wrapped_mem \<Rightarrow> failure + (mqueue \<times> wrapped_mem)" where
  "create_queue_simple alloc_ok mem n_partial d s = create_queue_db alloc_ok (init_wrapped_queue mem) n_partial d s"

definition queue_size_simple :: "nat \<Rightarrow> mqueue \<Rightarrow> (wrapped_mem, nat) prog" where
  "queue_size_simple n mq = queue_size_db (wrapped_partial n) mq"

fun simple_op :: "nat \<Rightarrow> bool \<Rightarrow> mqueue \<Rightarrow> queue_op \<Rightarrow> nat list \<times> thread_msq \<Rightarrow>
    (wrapped_mem, (int \<times> nat) \<times> nat list \<times> thread_msq) prog" where
  "simple_op n lh mq (Enqueue key v) dl = enqueue_simple n lh mq key v dl"
| "simple_op n lh mq Dequeue dl = dequeue_simple n lh mq dl"

lemma wrapped_partial_simp: "partial_dequeue (wrapped_partial n) = wrapped_dequeue n"
  by (simp add: wrapped_partial_def)

lemma simple_op_db: "simple_op n lh mq = db_op n lh (wrapped_partial n) mq"
proof (intro ext)
  show "simple_op n lh mq op dl = db_op n lh (wrapped_partial n) mq op dl" for op dl
    by (cases op) (simp_all add: enqueue_simple_def dequeue_simple_def dequeue_db_def double_collect_simple_def
      wrapped_partial_simp cong: if_cong)
qed

lemma init_wrapped_queues:
  "ms_queues (init_wrapped_queue mem j s) = ms_queues (init_ms_queue mem j s) \<and>
   ms_nodes (init_wrapped_queue mem j s) = ms_nodes (init_ms_queue mem j s)"
  by (simp add: init_wrapped_queue_def)



text \<open>The results of the operations one thread performs alone, \<open>None\<close> when it fails.\<close>

definition solo_results :: "('s, 'r list \<times> 'l) prog \<Rightarrow> 's \<Rightarrow> 'r list option" where
  "solo_results p s = (case run p s of Done (rs, l) t \<Rightarrow> Some rs | Failed e t \<Rightarrow> None)"

text \<open>
  C24: the value \<open>0\<close> stands for an empty queue in \<open>dequeue\<close> and \<open>double_collect\<close>, so an enqueued
  \<open>0\<close> is lost: alone, a thread that enqueues \<open>0\<close> and \<open>5\<close> and dequeues twice gets \<open>5\<close> and then empty.
\<close>

lemma draw_one: "draw 1 l k = k 0 (l\<lparr>seeds := snd (my_random (seeds l))\<rparr>)"
  by (simp add: draw_def split: prod.split)


end
