(* ===== verification/Treiber.thy ===== *)
theory Treiber
  imports Stack_Array
begin

text \<open>
  The Treiber stack, \<open>src/stack-treiber\<close>: one top pointer, exchanged with \<open>CAS_PTR\<close>. It is the
  array of stacks of width one, so the contract of \<open>Stack_Array\<close> applies. Nodes come from
  \<open>ssmem_alloc\<close>; in the plain build none is freed, so none is handed out twice.

  Shown: the stack is linearizable to a sequential stack, a delete returns 0 only for a stack
  that is empty at that moment, and both operations are lock-free.
\<close>

section \<open>State and operations\<close>

record tr_node =
  tn_key :: int
  tn_val :: int
  tn_next :: "addr option"

record treiber =
  tr_top :: "addr option"
  tr_nodes :: "addr \<Rightarrow> tr_node option"

record thread_tr =
  tr_id :: nat
  tr_alloc :: nat
  my_push_cas_fail_count :: nat
  my_pop_cas_fail_count :: nat
  tr_null_count :: nat

definition mstack_new :: "bool \<Rightarrow> failure + treiber" where
  "mstack_new alloc_ok = (if \<not> alloc_ok then Inl Exit_program else Inr \<lparr>tr_top = None, tr_nodes = \<lambda>_. None\<rparr>)"

definition mstack_new_node :: "int \<Rightarrow> int \<Rightarrow> addr option \<Rightarrow> thread_tr \<Rightarrow>
    (addr \<Rightarrow> thread_tr \<Rightarrow> (treiber, 'a) prog) \<Rightarrow> (treiber, 'a) prog" where
  "mstack_new_node key v p l k = (let a = Addr (tr_id l) (tr_alloc l) in
     store (\<lambda>s. s\<lparr>tr_nodes := (tr_nodes s)(a \<mapsto> \<lparr>tn_key = key, tn_val = v, tn_next = p\<rparr>)\<rparr>)
       (k a (l\<lparr>tr_alloc := tr_alloc l + 1\<rparr>)))"

definition load_tr :: "(tr_node \<Rightarrow> 'x) \<Rightarrow> addr \<Rightarrow> ('x \<Rightarrow> (treiber, 'a) prog) \<Rightarrow> (treiber, 'a) prog" where
  "load_tr f a k = checked (\<lambda>s. tr_nodes s a \<noteq> None) (load (\<lambda>s. f (the (tr_nodes s a))) k)"

definition store_next_tr :: "addr \<Rightarrow> addr option \<Rightarrow> (treiber, 'a) prog \<Rightarrow> (treiber, 'a) prog" where
  "store_next_tr a p k = checked (\<lambda>s. tr_nodes s a \<noteq> None)
     (store (\<lambda>s. s\<lparr>tr_nodes := (tr_nodes s)(a \<mapsto> (the (tr_nodes s a))\<lparr>tn_next := p\<rparr>)\<rparr>) k)"

definition cas_top :: "addr option \<Rightarrow> addr option \<Rightarrow> (addr option \<Rightarrow> (treiber, 'a) prog) \<Rightarrow> (treiber, 'a) prog" where
  "cas_top old new k = cas_val tr_top (\<lambda>p s. s\<lparr>tr_top := p\<rparr>) old new k"

fun treiber_insert_loop :: "nat \<Rightarrow> addr \<Rightarrow> thread_tr \<Rightarrow> (treiber, int \<times> thread_tr) prog" where
  "treiber_insert_loop 0 node l = Stop No_fuel"
| "treiber_insert_loop (Suc n) node l = load tr_top (\<lambda>tp. store_next_tr node tp (cas_top tp (Some node) (\<lambda>r.
     if r = tp then Ret (1, l)
     else treiber_insert_loop n node (l\<lparr>my_push_cas_fail_count := add64 (my_push_cas_fail_count l) 1\<rparr>))))"

definition mstack_treiber_insert :: "nat \<Rightarrow> int \<Rightarrow> int \<Rightarrow> thread_tr \<Rightarrow> (treiber, int \<times> thread_tr) prog" where
  "mstack_treiber_insert n key v l = mstack_new_node key v None l (\<lambda>node l. treiber_insert_loop n node l)"

fun mstack_treiber_delete :: "nat \<Rightarrow> thread_tr \<Rightarrow> (treiber, int \<times> thread_tr) prog" where
  "mstack_treiber_delete 0 l = Stop No_fuel"
| "mstack_treiber_delete (Suc n) l = load tr_top (\<lambda>tp. case tp of
       None \<Rightarrow> Ret (0, l\<lparr>tr_null_count := add64 (tr_null_count l) 1\<rparr>)
     | Some a \<Rightarrow> load_tr tn_next a (\<lambda>nx. cas_top tp nx (\<lambda>r.
         if r = tp then load_tr tn_val a (\<lambda>v. Ret (v, l))
         else mstack_treiber_delete n (l\<lparr>my_pop_cas_fail_count := add64 (my_pop_cas_fail_count l) 1\<rparr>))))"

text \<open>\<open>mstack_size\<close> counts with an \<open>int\<close>.\<close>

fun mstack_size_tr :: "nat \<Rightarrow> addr option \<Rightarrow> int \<Rightarrow> (treiber, int) prog" where
  "mstack_size_tr n None sz = Ret sz"
| "mstack_size_tr 0 (Some a) sz = Stop No_fuel"
| "mstack_size_tr (Suc n) (Some a) sz = load_tr tn_next a (\<lambda>p. mstack_size_tr n p (sz + 1))"

definition mstack_size :: "nat \<Rightarrow> (treiber, int) prog" where
  "mstack_size n = load tr_top (\<lambda>p. mstack_size_tr n p 0)"

fun treiber_op :: "nat \<Rightarrow> stack_op \<Rightarrow> thread_tr \<Rightarrow> (treiber, (int \<times> nat) \<times> thread_tr) prog" where
  "treiber_op n (Push key v) l = bind (mstack_treiber_insert n key v l) (\<lambda>(r, l). Ret ((r, 0), l))"
| "treiber_op n Pop l = bind (mstack_treiber_delete n l) (\<lambda>(r, l). Ret ((r, 0), l))"

section \<open>The contract of the array of stacks, at width one\<close>

definition tr_extra :: "treiber \<times> (stack_op, int \<times> nat) history \<Rightarrow> bool" where
  "tr_extra s \<longleftrightarrow> True"

definition tr_order :: "treiber \<Rightarrow> treiber \<Rightarrow> bool" where
  "tr_order s t \<longleftrightarrow> True"

lemma tr_trivial: "tr_extra s" "tr_order t u"
  by (simp_all add: tr_extra_def tr_order_def)

interpretation tr: stack_array "Suc 0" True opss "\<lambda>s j. tr_top s" tr_nodes tn_val tn_next tr_extra tr_order for opss
  by unfold_locales (simp_all add: tr_trivial)

abbreviation inv_tr :: "stack_op list list \<Rightarrow> treiber \<times> (stack_op, int \<times> nat) history \<Rightarrow> bool" where
  "inv_tr opss \<equiv> stack_array.inv (Suc 0) True opss (\<lambda>s j. tr_top s) tr_nodes tn_val tn_next tr_extra"

abbreviation ord_tr :: "nat \<Rightarrow> treiber \<Rightarrow> treiber \<Rightarrow> bool" where
  "ord_tr \<equiv> stack_array.ord tr_nodes tr_order"

abbreviation grd_tr :: "nat \<Rightarrow> treiber \<Rightarrow> treiber \<Rightarrow> bool" where
  "grd_tr \<equiv> stack_array.grd tr_nodes tr_order"

abbreviation own_tr where
  "own_tr \<equiv> stack_array.own_node tr_nodes tn_val"

abbreviation safe_tr where
  "safe_tr T opss i Q \<equiv> safe (\<lambda>_. True) T (lin_rely (inv_tr opss) ord_tr i) (lin_guar (inv_tr opss) grd_tr opss i) Q"

definition tr_local :: "nat \<Rightarrow> thread_tr \<Rightarrow> (stack_op \<times> int \<times> nat) list \<Rightarrow> treiber \<Rightarrow> bool" where
  "tr_local i l rs s \<longleftrightarrow> tr_id l = i \<and> tr_alloc l = pushes rs"

abbreviation done_tr where
  "done_tr opss i P op \<equiv> \<lambda>(r, l) (s, H). inv_tr opss (s, H) \<and> tr_local i l (P @ [(op, (r, 0))]) s \<and>
     proj i H = P @ [(op, (r, 0))]"

lemma insert_loop_safe:
  assumes "inv_tr opss (s, H)" and "proj i H = P" and "own_tr i a v P s"
    and "i < length opss" and "prefix (map fst P @ [Push key v]) (opss ! i)"
    and "tr_id l = i" and "tr_alloc l = pushes P + 1" and "enough T opss n H"
  shows "safe_tr T opss i (done_tr opss i P (Push key v)) (treiber_insert_loop n a l) (s, H)"
  using assms
proof (induction n arbitrary: s H l)
  case 0
  then show ?case using enough_0 [OF _ cellsD(1) [OF tr.inv_cells [OF 0(1)]]] by simp
next
  case (Suc n)
  let ?Q = "done_tr opss i P (Push key v)"
  have own: "a = Addr i (pushes P)" using Suc.prems(3) by (simp add: tr.own_node_def)
  show ?case
    unfolding treiber_insert_loop.simps store_next_tr_def cas_top_def
    apply (rule lin_load, rule Suc.prems(1), rule tr.grd_refl)
    subgoal premises p for t H'
    proof -
      note own_t = tr.own_node_stable [OF Suc.prems(3) p(2)]
      have seen: "tr.seen_top i H H' 0 (tr_top t)" using tr.seen_now [OF p(1) _ p(3), of 0] by simp
      show ?thesis
        apply (rule lin_checked, rule p)
        subgoal premises q for u using tr.own_node_mem [OF tr.own_node_stable [OF own_t q(2)]] .
        apply (rule lin_store, rule p)
        subgoal premises q for u K
        proof -
          obtain n0 where n0: "tr_nodes u a = Some n0" "tn_val n0 = v"
            using tr.own_node_stable [OF own_t q(2)] by (auto simp: tr.own_node_def)
          let ?n = "n0\<lparr>tn_next := tr_top t\<rparr>" and ?u = "u\<lparr>tr_nodes := (tr_nodes u)(a \<mapsto> (the (tr_nodes u a))\<lparr>tn_next := tr_top t\<rparr>)\<rparr>"
          have Pu: "proj i K = P" using q(4) p(4) Suc.prems(2) by simp
          have c: "inv_tr opss (?u, K) \<and> grd_tr i u ?u"
            by (rule tr.own_write [OF q(1)]) (use own Pu in \<open>simp_all add: tr_trivial\<close>)
          have own_u: "own_tr i a v P ?u" "tr_nodes ?u a = Some ?n" using own n0 by (simp_all add: tr.own_node_def)
          note seen' = tr.seen_later [OF seen q(3)]
          have "safe_tr T opss i ?Q (cas_val tr_top (\<lambda>p s. s\<lparr>tr_top := p\<rparr>) (tr_top t) (Some a) (\<lambda>r. if r = tr_top t
              then Ret (1, l) else treiber_insert_loop n a (l\<lparr>my_push_cas_fail_count := add64 (my_push_cas_fail_count l) 1\<rparr>))) (?u, K)"
            apply (rule lin_cas_val, rule conjunct1 [OF c], rule tr.grd_refl)
            subgoal premises r for x K2
            proof -
              let ?x = "x\<lparr>tr_top := Some a\<rparr>" and ?X = "[(i, Push key v, 1, 0)]"
              have P2: "proj i K2 = P" using r(4) Pu by simp
              have at: "tr_nodes x a = Some ?n" using r(2) own own_u(2) by (simp add: tr.ord_def)
              have step: "prefix (map fst (proj i K2) @ [Push key v]) (opss ! i)" using Suc.prems(5) P2 by simp
              have c2: "inv_tr opss (?x, K2 @ ?X) \<and> grd_tr i x ?x"
                by (rule tr.arr_push_commit [OF r(1) _ _ at _ _ _ Suc.prems(4) step])
                  (use tr.own_node_stable [OF own_u(1) r(2)] P2 r(6) in \<open>auto simp: tr_trivial\<close>)
              have "safe_tr T opss i ?Q (Ret (1, l)) (?x, K2 @ ?X)"
                by (rule lin_commit_ret [where H = K2]) (use c2 Suc.prems P2 in \<open>auto simp: tr_local_def\<close>)
              then show ?thesis using c2 Suc.prems(4) step by (intro exI [of _ ?X]) auto
            qed
            subgoal premises r for x K2
            proof -
              have h: "hist_rely i H K2" by (rule hist_rely_trans [OF hist_rely_trans [OF p(3) q(3)] r(3)])
              have "enough T opss n K2"
                by (rule tr.seen_enough [OF tr.seen_later [OF seen' r(3)] r(1) _ r(6) h Suc.prems(8)]) simp
              then have "safe_tr T opss i ?Q (treiber_insert_loop n a
                  (l\<lparr>my_push_cas_fail_count := add64 (my_push_cas_fail_count l) 1\<rparr>)) (x, K2)"
                using r Pu Suc.prems tr.own_node_stable [OF own_u(1) r(2)] by (intro Suc.IH) auto
              then show ?thesis using r(6) by simp
            qed
            done
          then show ?thesis using c by (intro exI [of _ "[]"]) simp
        qed
        done
    qed
    done
qed

lemma load_tr_safe:
  assumes J: "inv_tr opss (s, H)" and a: "tr.linked_in H a"
    and k: "\<And>t H' n. inv_tr opss (t, H') \<Longrightarrow> ord_tr i s t \<Longrightarrow> hist_rely i H H' \<Longrightarrow> tr_nodes t a = Some n \<Longrightarrow>
      safe_tr T opss i Q (k (f n)) (t, H')"
  shows "safe_tr T opss i Q (load_tr f a k) (s, H)"
proof -
  have here: "tr_nodes t a \<noteq> None" if "ord_tr i s t" for t
    using tr.ord_mem [OF that tr.arr_linked_alloc [OF J a]] .
  show ?thesis
    unfolding load_tr_def
    apply (rule lin_checked, rule J)
    subgoal for t using here [of t] by simp
    apply (rule lin_load, rule J, rule tr.grd_refl)
    subgoal premises p for t H' using here [OF p(2)] k [OF p(1-3)] by auto
    done
qed

lemma delete_safe:
  assumes "inv_tr opss (s, H)" and "proj i H = P" and "i < length opss" and "prefix (map fst P @ [Pop]) (opss ! i)"
    and "tr_local i l P s" and "enough T opss n H"
  shows "safe_tr T opss i (done_tr opss i P Pop) (mstack_treiber_delete n l) (s, H)"
  using assms
proof (induction n arbitrary: s H l)
  case 0
  then show ?case using enough_0 [OF _ cellsD(1) [OF tr.inv_cells [OF 0(1)]]] by simp
next
  case (Suc n)
  let ?Q = "done_tr opss i P Pop"
  show ?case
    unfolding mstack_treiber_delete.simps
    apply (rule lin_load_point, rule Suc.prems(1))
    subgoal premises p for t H'
    proof -
      have P: "proj i H' = P" using p(4) Suc.prems(2) by simp
      have step: "prefix (map fst (proj i H') @ [Pop]) (opss ! i)" using Suc.prems(4) P by simp
      have seen: "tr.seen_top i H H' 0 (tr_top t)" using tr.seen_now [OF p(1) _ p(3), of 0] by simp
      show ?thesis
      proof (cases "tr_top t")
        case None
        let ?X = "[(i, Pop, 0, 0)]"
        have J: "inv_tr opss (t, H' @ ?X)" by (rule tr.empty_commit [OF p(1) _ None Suc.prems(3) step]) (simp_all add: tr_trivial)
        have "safe_tr T opss i ?Q (Ret (0, l\<lparr>tr_null_count := add64 (tr_null_count l) 1\<rparr>)) (t, H' @ ?X)"
          by (rule lin_commit_ret [where H = H'], rule J) (use P Suc.prems(5) in \<open>auto simp: tr_local_def\<close>)
        then show ?thesis using J None Suc.prems(3) step tr.grd_refl by (intro exI [of _ ?X]) auto
      next
        case (Some a)
        have "safe_tr T opss i ?Q (load_tr tn_next a (\<lambda>nx. cas_top (Some a) nx (\<lambda>r.
            if r = Some a then load_tr tn_val a (\<lambda>v. Ret (v, l))
            else mstack_treiber_delete n (l\<lparr>my_pop_cas_fail_count := add64 (my_pop_cas_fail_count l) 1\<rparr>)))) (t, H')"
        proof (rule load_tr_safe [OF p(1) tr.seen_linked [OF seen [unfolded Some]]])
          fix u K m assume u: "inv_tr opss (u, K)" "ord_tr i t u" "hist_rely i H' K" "tr_nodes u a = Some m"
          note seen' = tr.seen_later [OF seen [unfolded Some] u(3)]
          have Pu: "proj i K = P" using hist_rely_proj [OF u(3)] P by simp
          have hu: "hist_rely i H K" by (rule hist_rely_trans [OF p(3) u(3)])
          show "safe_tr T opss i ?Q (cas_top (Some a) (tn_next m) (\<lambda>r. if r = Some a then load_tr tn_val a (\<lambda>v. Ret (v, l))
              else mstack_treiber_delete n (l\<lparr>my_pop_cas_fail_count := add64 (my_pop_cas_fail_count l) 1\<rparr>))) (u, K)"
            unfolding cas_top_def
            apply (rule lin_cas_val, rule u, rule tr.grd_refl)
            subgoal premises q for x K2
            proof -
              obtain m' where m': "tr_nodes x a = Some m'" "tn_val m' = tn_val m" "tn_next m' = tn_next m"
                by (rule tr.linked_same [OF u(1) q(1,3) tr.seen_linked [OF seen'] u(4)])
              let ?x = "x\<lparr>tr_top := tn_next m\<rparr>" and ?X = "[(i, Pop, tn_val m', 0)]"
              have P2: "proj i K2 = P" using q(4) Pu by simp
              have step2: "prefix (map fst (proj i K2) @ [Pop]) (opss ! i)" using Suc.prems(4) P2 by simp
              have c: "inv_tr opss (?x, K2 @ ?X) \<and> grd_tr i x ?x"
                by (rule tr.arr_pop_commit [OF q(1) _ q(6) m'(1) _ _ Suc.prems(3) step2]) (use m' in \<open>auto simp: tr_trivial\<close>)
              have lk: "tr.linked_in (K2 @ ?X) a"
                by (rule tr.linked_append [OF tr.linked_stable [OF tr.seen_linked [OF seen'] q(3)]])
              have "safe_tr T opss i ?Q (load_tr tn_val a (\<lambda>v. Ret (v, l))) (?x, K2 @ ?X)"
              proof (rule load_tr_safe [OF conjunct1 [OF c] lk])
                fix y Ky my assume y: "inv_tr opss (y, Ky)" "ord_tr i ?x y" "hist_rely i (K2 @ ?X) Ky" "tr_nodes y a = Some my"
                have v: "tn_val my = tn_val m'"
                  using tr.linked_same [OF conjunct1 [OF c] y(1,3) lk, of m'] m'(1) y(4) by auto
                have "proj i Ky = P @ [(Pop, tn_val m', 0)]" using hist_rely_proj [OF y(3)] P2 by simp
                then show "safe_tr T opss i ?Q (Ret (tn_val my, l)) (y, Ky)"
                  unfolding v by (intro lin_ret, intro y(1)) (use Suc.prems(5) in \<open>auto simp: tr_local_def\<close>)
              qed
              then show ?thesis using c Suc.prems(3) step2 by (intro exI [of _ ?X]) auto
            qed
            subgoal premises q for x K2
            proof -
              have "enough T opss n K2"
                by (rule tr.seen_enough [OF tr.seen_later [OF seen' q(3)] q(1) _ q(6) hist_rely_trans [OF hu q(3)] Suc.prems(6)]) simp
              then have "safe_tr T opss i ?Q (mstack_treiber_delete n
                  (l\<lparr>my_pop_cas_fail_count := add64 (my_pop_cas_fail_count l) 1\<rparr>)) (x, K2)"
                using q Pu Suc.prems by (intro Suc.IH) (auto simp: tr_local_def)
              then show ?thesis using q(6) by simp
            qed
            done
        qed
        then show ?thesis using p(1) Some tr.grd_refl by (intro exI [of _ "[]"]) simp
      qed
    qed
    done
qed

section \<open>Linearizability\<close>

definition rep_tr :: "treiber \<Rightarrow> int list list \<Rightarrow> bool" where
  "rep_tr s q \<longleftrightarrow> length q = 1 \<and>
     holds_cells (\<lambda>a. map_option (\<lambda>n. (tn_val n, tn_next n)) (tr_nodes s a)) (tr_top s) (q ! 0)"

interpretation lin_tr: lin_object_hist "\<lambda>_. True" "out_of_fuel n opss" "inv_tr opss" ord_tr grd_tr
  tr_local "spec_cells True" "[[]]" rep_tr "treiber_op n" opss for n opss
proof unfold_locales
  show "op_ok_hist (\<lambda>_. True) (out_of_fuel n opss) (inv_tr opss) ord_tr grd_tr tr_local opss i op (treiber_op n)"
    if i: "i < length opss" for i op
    unfolding op_ok_hist_def
  proof (intro allI impI)
    fix l s H assume J: "inv_tr opss (s, H)" "tr_local i l (proj i H) s" "prefix (map fst (proj i H) @ [op]) (opss ! i)"
    let ?P = "proj i H"
    have push: "safe_tr (out_of_fuel n opss) opss i (done_tr opss i ?P (Push key v)) (mstack_treiber_insert n key v l) (s, H)"
      if op: "op = Push key v" for key v
      unfolding mstack_treiber_insert_def mstack_new_node_def Let_def
      apply (rule lin_store, rule J)
      subgoal premises p for t H'
      proof -
        let ?a = "Addr (tr_id l) (tr_alloc l)"
        let ?t = "t\<lparr>tr_nodes := (tr_nodes t)(?a \<mapsto> \<lparr>tn_key = key, tn_val = v, tn_next = None\<rparr>)\<rparr>"
        have a: "?a = Addr i (pushes ?P)" using J(2) by (simp add: tr_local_def)
        have c: "inv_tr opss (?t, H') \<and> grd_tr i t ?t" by (rule tr.own_write [OF p(1)]) (use a p(4) in \<open>simp_all add: tr_trivial\<close>)
        have "own_tr i ?a v ?P ?t" using a by (simp add: tr.own_node_def)
        then have "safe_tr (out_of_fuel n opss) opss i (done_tr opss i ?P (Push key v))
            (treiber_insert_loop n ?a (l\<lparr>tr_alloc := tr_alloc l + 1\<rparr>)) (?t, H')"
          using c p(4) J(2,3) i op by (intro insert_loop_safe) (auto simp: tr_local_def)
        then show ?thesis using c by (intro exI [of _ "[]"]) simp
      qed
      done
    have ret: "safe_tr (out_of_fuel n opss) opss i (\<lambda>(r, l') (s', H'). inv_tr opss (s', H') \<and> tr_local i l' (?P @ [(op, r)]) s' \<and>
        proj i H' = ?P @ [(op, r)]) (bind p (\<lambda>(r, l). Ret ((r, 0), l))) (s, H)"
      if "safe_tr (out_of_fuel n opss) opss i (done_tr opss i ?P op) p (s, H)" for p
      by (rule safe_bind [OF safe_weaken [OF that]])
        (auto simp: lin_rely_def tr.ord_refl tr_local_def dest!: hist_rely_proj)
    show "safe_tr (out_of_fuel n opss) opss i (\<lambda>(r, l') (s', H'). inv_tr opss (s', H') \<and> tr_local i l' (?P @ [(op, r)]) s' \<and>
        proj i H' = ?P @ [(op, r)]) (treiber_op n op l) (s, H)"
      using ret push delete_safe [OF J(1) refl i _ J(2), of "out_of_fuel n opss" n] J(3) by (cases op) auto
  qed
  show "\<exists>q. replay (spec_cells True) [[]] H = Some q \<and> rep_tr s q" if "inv_tr opss (s, H)" for s H
  proof -
    have "(\<lambda>a. map_option (\<lambda>n. (tn_val n, tn_next n)) (tr_nodes s a)) = tr.cell s" by (simp add: fun_eq_iff tr.cell_def)
    then show ?thesis using tr.inv_rep [OF that] by (auto simp: rep_tr_def)
  qed
qed (auto simp: tr.ord_refl tr_local_def intro: tr.grd_ord elim: tr.ord_trans)

definition tr_threads :: "stack_op list list \<Rightarrow> (stack_op list \<times> thread_tr) list" where
  "tr_threads opss = map (\<lambda>i. (opss ! i, \<lparr>tr_id = i, tr_alloc = 0, my_push_cas_fail_count = 0, my_pop_cas_fail_count = 0,
     tr_null_count = 0\<rparr>)) [0..<length opss]"



end
