(* ===== verification/Window_2Dc.thy ===== *)
theory Window_2Dc
  imports Linear Thread Window_2Dd
begin

text \<open>
  The counting window of \<open>include/2Dc-window.c\<close>, which the 2Dc counter and the 2Dc stack include
  as a template. Each sub-structure has one count, its size. One shared double word holds the
  upper edge of the window, \<open>max\<close>, and a version: a put works on a sub-structure below \<open>max\<close>, a
  get on one above \<open>max - depth\<close>, and when none is found the window is shifted up or down by
  \<open>shift\<close>. A thread works with its own copy, which it reads again when the version has changed;
  the two words of the copy are read one after the other, so the copy may be torn.

  The locale \<open>window_2dc_client\<close> is the contract between the template and a structure. Its
  parameter \<open>solo\<close> tells apart the two ways the contract is used: under any interleaving it
  speaks of the window alone; when a single thread runs, the counts a thread has read are still
  those of the state, and the shifts are known to happen only when all sub-structures have
  reached the edge.
\<close>

section \<open>State\<close>

record window_2dc =
  global_Window :: "(nat, nat) dword"

record thread_2dc = thread +
  thread_Window :: "(nat, nat) dword"
  my_slide_fail_count :: nat

text \<open>
  What the template takes from \<open>set\<close>. The descriptor is a double word whose second half is the
  count; that of the counter has one word only and is read at once (\<open>two_words\<close>).
\<close>

record ('s, 'x) dset_c =
  cwidth :: nat
  cdepth :: nat
  cshift :: nat
  crandom_hops :: nat
  two_words :: bool
  set_array :: "'s \<Rightarrow> ('x, nat) dword list"

definition initialize_global_window_c :: "nat \<Rightarrow> 'z window_2dc_scheme \<Rightarrow> 'z window_2dc_scheme" where
  "initialize_global_window_c d s = s\<lparr>global_Window := DW (d mod U16) 1\<rparr>"

definition read_window :: "'l thread_2dc_scheme \<Rightarrow> ('l thread_2dc_scheme \<Rightarrow> ('z window_2dc_scheme, 'a) prog) \<Rightarrow>
    ('z window_2dc_scheme, 'a) prog" where
  "read_window l k = load (\<lambda>s. lo (global_Window s)) (\<lambda>m. load (\<lambda>s. hi (global_Window s)) (\<lambda>v.
     k (l\<lparr>thread_Window := DW m v\<rparr>)))"

text \<open>\<open>random_index\<close> takes the width as a \<open>uint16_t\<close>; \<open>hops\<close> and \<open>random\<close> are \<open>uint16_t\<close> too.\<close>

definition random_index_c :: "nat \<Rightarrow> 'l thread_scheme \<Rightarrow> (nat \<Rightarrow> 'l thread_scheme \<Rightarrow> ('s, 'a) prog) \<Rightarrow> ('s, 'a) prog" where
  "random_index_c w l k = draw (w mod U16) l k"

definition hop_c :: "('s, 'x) dset_c \<Rightarrow> 'l thread_2dc_scheme \<Rightarrow> nat \<Rightarrow> nat \<Rightarrow>
    ('l thread_2dc_scheme \<Rightarrow> nat \<Rightarrow> nat \<Rightarrow> ('s, 'a) prog) \<Rightarrow> ('s, 'a) prog" where
  "hop_c D l random hops k = (let l = count_hop l in
     if random < crandom_hops D then
       random_index_c (cwidth D) l (\<lambda>j l. k (l\<lparr>thread_index := j\<rparr>) ((random + 1) mod U16) hops)
     else
       let index = add64 (thread_index l) 1;
           index = (if cwidth D \<le> index then 0 else index)
       in k (l\<lparr>thread_index := index\<rparr>) random ((hops + 1) mod U16))"

definition count_slide_fail :: "'l thread_2dc_scheme \<Rightarrow> 'l thread_2dc_scheme" where
  "count_slide_fail l = l\<lparr>my_slide_fail_count := add64 (my_slide_fail_count l) 1\<rparr>"

text \<open>\<open>descriptor = set->set_array[thread_index].descriptor\<close>\<close>

definition read_descriptor :: "('s, 'x) dset_c \<Rightarrow> nat \<Rightarrow> (('x, nat) dword \<Rightarrow> ('s, 'a) prog) \<Rightarrow> ('s, 'a) prog" where
  "read_descriptor D j k = checked (\<lambda>s. j < length (set_array D s))
     (if two_words D then load2 (\<lambda>s. set_array D s ! j) k else load (\<lambda>s. set_array D s ! j) k)"

section \<open>put\_window\<close>

text \<open>The shift both functions end in: \<open>new\<close> is the window proposed.\<close>

definition slide_c :: "(nat, nat) dword \<Rightarrow> 'l thread_2dc_scheme \<Rightarrow> ('l thread_2dc_scheme \<Rightarrow> ('z window_2dc_scheme, 'a) prog) \<Rightarrow>
    ('z window_2dc_scheme, 'a) prog" where
  "slide_c new l k = cae global_Window (\<lambda>v s. s\<lparr>global_Window := v\<rparr>) (thread_Window l) new (\<lambda>ok v.
     if ok then k (count_slide (l\<lparr>thread_Window := new\<rparr>))
     else read_window (l\<lparr>thread_Window := v\<rparr>) (\<lambda>l. k (count_slide_fail l)))"

fun put_window_c_loop :: "('z window_2dc_scheme, 'x) dset_c \<Rightarrow> nat \<Rightarrow> nat \<Rightarrow> nat \<Rightarrow> 'l thread_2dc_scheme \<Rightarrow>
    (('x, nat) dword \<Rightarrow> 'l thread_2dc_scheme \<Rightarrow> ('z window_2dc_scheme, 'a) prog) \<Rightarrow> ('z window_2dc_scheme, 'a) prog" where
  "put_window_c_loop D 0 hops random l k = Stop No_fuel"
| "put_window_c_loop D (Suc n) hops random l k =
     read_descriptor D (thread_index l) (\<lambda>descriptor.
     load (\<lambda>s. hi (global_Window s)) (\<lambda>version.
     if version \<noteq> hi (thread_Window l) then read_window l (\<lambda>l. put_window_c_loop D n 0 random l k)
     else if hi descriptor < lo (thread_Window l) then k descriptor l
     else if hops \<noteq> cwidth D then hop_c D l random hops (\<lambda>l random hops. put_window_c_loop D n hops random l k)
     else
       let new = DW (add64 (lo (thread_Window l)) (cshift D)) (add64 (hi (thread_Window l)) 1) in
       load (\<lambda>s. hi (global_Window s)) (\<lambda>version.
       if hi (thread_Window l) = version then slide_c new l (\<lambda>l. put_window_c_loop D n 0 random l k)
       else put_window_c_loop D n 0 random l k)))"

definition sync_c :: "'l thread_2dc_scheme \<Rightarrow> ('l thread_2dc_scheme \<Rightarrow> ('z window_2dc_scheme, 'a) prog) \<Rightarrow>
    ('z window_2dc_scheme, 'a) prog" where
  "sync_c l k = load (\<lambda>s. hi (global_Window s)) (\<lambda>version. if hi (thread_Window l) \<noteq> version then read_window l k else k l)"

definition put_window_c :: "('z window_2dc_scheme, 'x) dset_c \<Rightarrow> nat \<Rightarrow> bool \<Rightarrow> 'l thread_2dc_scheme \<Rightarrow>
    (('x, nat) dword \<Rightarrow> 'l thread_2dc_scheme \<Rightarrow> ('z window_2dc_scheme, 'a) prog) \<Rightarrow> ('z window_2dc_scheme, 'a) prog" where
  "put_window_c D n contention l k = sync_c l (\<lambda>l.
     if contention then random_index_c (cwidth D) l (\<lambda>j l. put_window_c_loop D n 0 0 (l\<lparr>thread_index := j\<rparr>) k)
     else put_window_c_loop D n 0 0 l k)"

section \<open>get\_window\<close>

fun get_window_c_loop :: "('z window_2dc_scheme, 'x) dset_c \<Rightarrow> nat \<Rightarrow> nat \<Rightarrow> nat \<Rightarrow> bool \<Rightarrow> 'l thread_2dc_scheme \<Rightarrow>
    (('x, nat) dword \<Rightarrow> 'l thread_2dc_scheme \<Rightarrow> ('z window_2dc_scheme, 'a) prog) \<Rightarrow> ('z window_2dc_scheme, 'a) prog" where
  "get_window_c_loop D 0 hops random emp l k = Stop No_fuel"
| "get_window_c_loop D (Suc n) hops random emp l k =
     read_descriptor D (thread_index l) (\<lambda>descriptor.
     load (\<lambda>s. hi (global_Window s)) (\<lambda>version.
     if version \<noteq> hi (thread_Window l) then read_window l (\<lambda>l. get_window_c_loop D n 0 random True l k)
     else if add64 (hi descriptor) (cdepth D) > lo (thread_Window l) then k descriptor l
     else if hops \<noteq> cwidth D then
       let emp = (emp \<and> \<not> hi descriptor > 0) in
       hop_c D l random hops (\<lambda>l random hops. get_window_c_loop D n hops random emp l k)
     else if emp then k descriptor l
     else
       let new = DW (sub64 (lo (thread_Window l)) (cshift D)) (add64 (hi (thread_Window l)) 1) in
       load (\<lambda>s. hi (global_Window s)) (\<lambda>version.
       if hi (thread_Window l) = version \<and> lo new \<ge> cdepth D
       then slide_c new l (\<lambda>l. get_window_c_loop D n 0 random True l k)
       else get_window_c_loop D n 0 random True l k)))"

definition get_window_c :: "('z window_2dc_scheme, 'x) dset_c \<Rightarrow> nat \<Rightarrow> bool \<Rightarrow> 'l thread_2dc_scheme \<Rightarrow>
    (('x, nat) dword \<Rightarrow> 'l thread_2dc_scheme \<Rightarrow> ('z window_2dc_scheme, 'a) prog) \<Rightarrow> ('z window_2dc_scheme, 'a) prog" where
  "get_window_c D n contention l k = sync_c l (\<lambda>l.
     if contention then random_index_c (cwidth D) l (\<lambda>j l. get_window_c_loop D n 0 0 True (l\<lparr>thread_index := j\<rparr>) k)
     else get_window_c_loop D n 0 0 True l k)"

section \<open>The optimised template\<close>

text \<open>
  \<open>2Dc-window_optimized.c\<close>: the maximum is a \<open>row_t\<close> of 32 bits, the version, the width and the
  number of hops have 16 bits, \<open>random\<close> has 8; the window is read with one atomic load; a get
  subtracts the depth from the maximum, and asserts that the window does not fall below \<open>depth\<close>.
\<close>

definition initialize_global_window_o :: "nat \<Rightarrow> 'z window_2dc_scheme \<Rightarrow> 'z window_2dc_scheme" where
  "initialize_global_window_o d s = s\<lparr>global_Window := DW d 1\<rparr>"

definition read_window_o :: "'l thread_2dc_scheme \<Rightarrow> ('l thread_2dc_scheme \<Rightarrow> ('z window_2dc_scheme, 'a) prog) \<Rightarrow>
    ('z window_2dc_scheme, 'a) prog" where
  "read_window_o l k = load global_Window (\<lambda>W. k (l\<lparr>thread_Window := W\<rparr>))"

definition random_index_o :: "nat \<Rightarrow> 'l thread_scheme \<Rightarrow> (nat \<Rightarrow> 'l thread_scheme \<Rightarrow> ('s, 'a) prog) \<Rightarrow> ('s, 'a) prog" where
  "random_index_o w l k = draw (w mod U16) l k"

definition hop_o :: "('s, 'x) dset_c \<Rightarrow> 'l thread_2dc_scheme \<Rightarrow> nat \<Rightarrow> nat \<Rightarrow>
    ('l thread_2dc_scheme \<Rightarrow> nat \<Rightarrow> nat \<Rightarrow> ('s, 'a) prog) \<Rightarrow> ('s, 'a) prog" where
  "hop_o D l random hops k = (let l = count_hop l in
     if random < crandom_hops D then
       random_index_o (cwidth D) l (\<lambda>j l. k (l\<lparr>thread_index := j\<rparr>) ((random + 1) mod 256) hops)
     else
       let index = add64 (thread_index l) 1;
           index = (if cwidth D \<le> index then 0 else index)
       in k (l\<lparr>thread_index := index\<rparr>) random ((hops + 1) mod U16))"

definition slide_o :: "(nat, nat) dword \<Rightarrow> 'l thread_2dc_scheme \<Rightarrow> ('l thread_2dc_scheme \<Rightarrow> ('z window_2dc_scheme, 'a) prog) \<Rightarrow>
    ('z window_2dc_scheme, 'a) prog" where
  "slide_o new l k = cae global_Window (\<lambda>v s. s\<lparr>global_Window := v\<rparr>) (thread_Window l) new (\<lambda>ok v.
     if ok then k (count_slide (l\<lparr>thread_Window := new\<rparr>))
     else read_window_o (l\<lparr>thread_Window := v\<rparr>) (\<lambda>l. k (count_slide_fail l)))"

fun put_window_o_loop :: "('z window_2dc_scheme, 'x) dset_c \<Rightarrow> nat \<Rightarrow> nat \<Rightarrow> nat \<Rightarrow> 'l thread_2dc_scheme \<Rightarrow>
    (('x, nat) dword \<Rightarrow> 'l thread_2dc_scheme \<Rightarrow> ('z window_2dc_scheme, 'a) prog) \<Rightarrow> ('z window_2dc_scheme, 'a) prog" where
  "put_window_o_loop D 0 hops random l k = Stop No_fuel"
| "put_window_o_loop D (Suc n) hops random l k =
     read_descriptor D (thread_index l) (\<lambda>descriptor.
     load (\<lambda>s. hi (global_Window s)) (\<lambda>version.
     if version \<noteq> hi (thread_Window l) then read_window_o l (\<lambda>l. put_window_o_loop D n 0 random l k)
     else if hi descriptor < lo (thread_Window l) then k descriptor l
     else if hops \<noteq> cwidth D then hop_o D l random hops (\<lambda>l random hops. put_window_o_loop D n hops random l k)
     else
       let new = DW (addm U32 (lo (thread_Window l)) (cshift D)) (addm U16 (hi (thread_Window l)) 1) in
       load (\<lambda>s. hi (global_Window s)) (\<lambda>version.
       if hi (thread_Window l) = version then slide_o new l (\<lambda>l. put_window_o_loop D n 0 random l k)
       else put_window_o_loop D n 0 random l k)))"

definition sync_o :: "'l thread_2dc_scheme \<Rightarrow> ('l thread_2dc_scheme \<Rightarrow> ('z window_2dc_scheme, 'a) prog) \<Rightarrow>
    ('z window_2dc_scheme, 'a) prog" where
  "sync_o l k = load (\<lambda>s. hi (global_Window s)) (\<lambda>version. if hi (thread_Window l) \<noteq> version then read_window_o l k else k l)"

definition put_window_o :: "('z window_2dc_scheme, 'x) dset_c \<Rightarrow> nat \<Rightarrow> bool \<Rightarrow> 'l thread_2dc_scheme \<Rightarrow>
    (('x, nat) dword \<Rightarrow> 'l thread_2dc_scheme \<Rightarrow> ('z window_2dc_scheme, 'a) prog) \<Rightarrow> ('z window_2dc_scheme, 'a) prog" where
  "put_window_o D n contention l k = sync_o l (\<lambda>l.
     if contention then random_index_o (cwidth D) l (\<lambda>j l. put_window_o_loop D n 0 0 (l\<lparr>thread_index := j\<rparr>) k)
     else put_window_o_loop D n 0 0 l k)"

fun get_window_o_loop :: "('z window_2dc_scheme, 'x) dset_c \<Rightarrow> nat \<Rightarrow> nat \<Rightarrow> nat \<Rightarrow> bool \<Rightarrow> 'l thread_2dc_scheme \<Rightarrow>
    (('x, nat) dword \<Rightarrow> 'l thread_2dc_scheme \<Rightarrow> ('z window_2dc_scheme, 'a) prog) \<Rightarrow> ('z window_2dc_scheme, 'a) prog" where
  "get_window_o_loop D 0 hops random emp l k = Stop No_fuel"
| "get_window_o_loop D (Suc n) hops random emp l k =
     read_descriptor D (thread_index l) (\<lambda>descriptor.
     load (\<lambda>s. hi (global_Window s)) (\<lambda>version.
     if version \<noteq> hi (thread_Window l) then read_window_o l (\<lambda>l. get_window_o_loop D n 0 random True l k)
     else if hi descriptor > subm U32 (lo (thread_Window l)) (cdepth D) then k descriptor l
     else if hops \<noteq> cwidth D then
       let emp = (emp \<and> \<not> hi descriptor > 0) in
       hop_o D l random hops (\<lambda>l random hops. get_window_o_loop D n hops random emp l k)
     else if emp then k descriptor l
     else
       let new = DW (subm U32 (lo (thread_Window l)) (cshift D)) (addm U16 (hi (thread_Window l)) 1) in
       if \<not> lo new \<ge> cdepth D then Stop Assert_failed
       else load (\<lambda>s. hi (global_Window s)) (\<lambda>version.
       if hi (thread_Window l) = version then slide_o new l (\<lambda>l. get_window_o_loop D n 0 random True l k)
       else get_window_o_loop D n 0 random True l k)))"

definition get_window_o :: "('z window_2dc_scheme, 'x) dset_c \<Rightarrow> nat \<Rightarrow> bool \<Rightarrow> 'l thread_2dc_scheme \<Rightarrow>
    (('x, nat) dword \<Rightarrow> 'l thread_2dc_scheme \<Rightarrow> ('z window_2dc_scheme, 'a) prog) \<Rightarrow> ('z window_2dc_scheme, 'a) prog" where
  "get_window_o D n contention l k = sync_o l (\<lambda>l.
     if contention then random_index_o (cwidth D) l (\<lambda>j l. get_window_o_loop D n 0 0 True (l\<lparr>thread_index := j\<rparr>) k)
     else get_window_o_loop D n 0 0 True l k)"

section \<open>What the two templates share\<close>

text \<open>
  A template with the differences as a parameter, of which both are instances: the sizes of the
  types, and whether the window is read in one piece and its lower bound is asserted (\<open>strong\<close>).
\<close>

record variant_c =
  rows :: nat
  versions :: nat
  randoms :: nat
  strong :: bool

definition plain_c :: variant_c where
  "plain_c = \<lparr>rows = U64, versions = U64, randoms = U16, strong = False\<rparr>"

definition optimized_c :: variant_c where
  "optimized_c = \<lparr>rows = U32, versions = U16, randoms = 256, strong = True\<rparr>"

definition read_window_g :: "variant_c \<Rightarrow> 'l thread_2dc_scheme \<Rightarrow> ('l thread_2dc_scheme \<Rightarrow> ('z window_2dc_scheme, 'a) prog) \<Rightarrow>
    ('z window_2dc_scheme, 'a) prog" where
  "read_window_g V l k = (if strong V then read_window_o l k else read_window l k)"

definition hop_g :: "variant_c \<Rightarrow> ('s, 'x) dset_c \<Rightarrow> 'l thread_2dc_scheme \<Rightarrow> nat \<Rightarrow> nat \<Rightarrow>
    ('l thread_2dc_scheme \<Rightarrow> nat \<Rightarrow> nat \<Rightarrow> ('s, 'a) prog) \<Rightarrow> ('s, 'a) prog" where
  "hop_g V D l random hops k = (let l = count_hop l in
     if random < crandom_hops D then
       random_index_c (cwidth D) l (\<lambda>j l. k (l\<lparr>thread_index := j\<rparr>) ((random + 1) mod randoms V) hops)
     else
       let index = add64 (thread_index l) 1;
           index = (if cwidth D \<le> index then 0 else index)
       in k (l\<lparr>thread_index := index\<rparr>) random ((hops + 1) mod U16))"

definition slide_g :: "variant_c \<Rightarrow> (nat, nat) dword \<Rightarrow> 'l thread_2dc_scheme \<Rightarrow> ('l thread_2dc_scheme \<Rightarrow> ('z window_2dc_scheme, 'a) prog) \<Rightarrow>
    ('z window_2dc_scheme, 'a) prog" where
  "slide_g V new l k = cae global_Window (\<lambda>v s. s\<lparr>global_Window := v\<rparr>) (thread_Window l) new (\<lambda>ok v.
     if ok then k (count_slide (l\<lparr>thread_Window := new\<rparr>))
     else read_window_g V (l\<lparr>thread_Window := v\<rparr>) (\<lambda>l. k (count_slide_fail l)))"

definition above :: "variant_c \<Rightarrow> ('s, 'x) dset_c \<Rightarrow> nat \<Rightarrow> nat \<Rightarrow> bool" where
  "above V D c m \<longleftrightarrow> (if strong V then c > subm (rows V) m (cdepth D) else add64 c (cdepth D) > m)"

fun put_window_g_loop :: "variant_c \<Rightarrow> ('z window_2dc_scheme, 'x) dset_c \<Rightarrow> nat \<Rightarrow> nat \<Rightarrow> nat \<Rightarrow> 'l thread_2dc_scheme \<Rightarrow>
    (('x, nat) dword \<Rightarrow> 'l thread_2dc_scheme \<Rightarrow> ('z window_2dc_scheme, 'a) prog) \<Rightarrow> ('z window_2dc_scheme, 'a) prog" where
  "put_window_g_loop V D 0 hops random l k = Stop No_fuel"
| "put_window_g_loop V D (Suc n) hops random l k =
     read_descriptor D (thread_index l) (\<lambda>descriptor.
     load (\<lambda>s. hi (global_Window s)) (\<lambda>version.
     if version \<noteq> hi (thread_Window l) then read_window_g V l (\<lambda>l. put_window_g_loop V D n 0 random l k)
     else if hi descriptor < lo (thread_Window l) then k descriptor l
     else if hops \<noteq> cwidth D then hop_g V D l random hops (\<lambda>l random hops. put_window_g_loop V D n hops random l k)
     else
       let new = DW (addm (rows V) (lo (thread_Window l)) (cshift D)) (addm (versions V) (hi (thread_Window l)) 1) in
       load (\<lambda>s. hi (global_Window s)) (\<lambda>version.
       if hi (thread_Window l) = version then slide_g V new l (\<lambda>l. put_window_g_loop V D n 0 random l k)
       else put_window_g_loop V D n 0 random l k)))"

definition sync_g :: "variant_c \<Rightarrow> 'l thread_2dc_scheme \<Rightarrow> ('l thread_2dc_scheme \<Rightarrow> ('z window_2dc_scheme, 'a) prog) \<Rightarrow>
    ('z window_2dc_scheme, 'a) prog" where
  "sync_g V l k = load (\<lambda>s. hi (global_Window s)) (\<lambda>version. if hi (thread_Window l) \<noteq> version then read_window_g V l k else k l)"

definition put_window_g :: "variant_c \<Rightarrow> ('z window_2dc_scheme, 'x) dset_c \<Rightarrow> nat \<Rightarrow> bool \<Rightarrow> 'l thread_2dc_scheme \<Rightarrow>
    (('x, nat) dword \<Rightarrow> 'l thread_2dc_scheme \<Rightarrow> ('z window_2dc_scheme, 'a) prog) \<Rightarrow> ('z window_2dc_scheme, 'a) prog" where
  "put_window_g V D n contention l k = sync_g V l (\<lambda>l.
     if contention then random_index_c (cwidth D) l (\<lambda>j l. put_window_g_loop V D n 0 0 (l\<lparr>thread_index := j\<rparr>) k)
     else put_window_g_loop V D n 0 0 l k)"

fun get_window_g_loop :: "variant_c \<Rightarrow> ('z window_2dc_scheme, 'x) dset_c \<Rightarrow> nat \<Rightarrow> nat \<Rightarrow> nat \<Rightarrow> bool \<Rightarrow> 'l thread_2dc_scheme \<Rightarrow>
    (('x, nat) dword \<Rightarrow> 'l thread_2dc_scheme \<Rightarrow> ('z window_2dc_scheme, 'a) prog) \<Rightarrow> ('z window_2dc_scheme, 'a) prog" where
  "get_window_g_loop V D 0 hops random emp l k = Stop No_fuel"
| "get_window_g_loop V D (Suc n) hops random emp l k =
     read_descriptor D (thread_index l) (\<lambda>descriptor.
     load (\<lambda>s. hi (global_Window s)) (\<lambda>version.
     if version \<noteq> hi (thread_Window l) then read_window_g V l (\<lambda>l. get_window_g_loop V D n 0 random True l k)
     else if above V D (hi descriptor) (lo (thread_Window l)) then k descriptor l
     else if hops \<noteq> cwidth D then
       let emp = (emp \<and> \<not> hi descriptor > 0) in
       hop_g V D l random hops (\<lambda>l random hops. get_window_g_loop V D n hops random emp l k)
     else if emp then k descriptor l
     else
       let new = DW (subm (rows V) (lo (thread_Window l)) (cshift D)) (addm (versions V) (hi (thread_Window l)) 1) in
       if strong V \<and> \<not> lo new \<ge> cdepth D then Stop Assert_failed
       else load (\<lambda>s. hi (global_Window s)) (\<lambda>version.
       if hi (thread_Window l) = version \<and> lo new \<ge> cdepth D
       then slide_g V new l (\<lambda>l. get_window_g_loop V D n 0 random True l k)
       else get_window_g_loop V D n 0 random True l k)))"

definition get_window_g :: "variant_c \<Rightarrow> ('z window_2dc_scheme, 'x) dset_c \<Rightarrow> nat \<Rightarrow> bool \<Rightarrow> 'l thread_2dc_scheme \<Rightarrow>
    (('x, nat) dword \<Rightarrow> 'l thread_2dc_scheme \<Rightarrow> ('z window_2dc_scheme, 'a) prog) \<Rightarrow> ('z window_2dc_scheme, 'a) prog" where
  "get_window_g V D n contention l k = sync_g V l (\<lambda>l.
     if contention then random_index_c (cwidth D) l (\<lambda>j l. get_window_g_loop V D n 0 0 True (l\<lparr>thread_index := j\<rparr>) k)
     else get_window_g_loop V D n 0 0 True l k)"

lemma plain_c_simps [simp]:
  "rows plain_c = U64" "versions plain_c = U64" "randoms plain_c = U16" "\<not> strong plain_c"
  by (simp_all add: plain_c_def)

lemma optimized_c_simps [simp]:
  "rows optimized_c = U32" "versions optimized_c = U16" "randoms optimized_c = 256" "strong optimized_c"
  by (simp_all add: optimized_c_def)

lemma plain_steps:
  "read_window l k = read_window_g plain_c l k" "hop_c D l r h k' = hop_g plain_c D l r h k'"
  "slide_c new l k = slide_g plain_c new l k" "sync_c l k = sync_g plain_c l k"
  by (simp_all add: read_window_g_def hop_c_def hop_g_def slide_c_def slide_g_def sync_c_def sync_g_def Let_def cong: if_cong)

lemma optimized_steps:
  "read_window_o l k = read_window_g optimized_c l k" "hop_o D l r h k' = hop_g optimized_c D l r h k'"
  "slide_o new l k = slide_g optimized_c new l k" "sync_o l k = sync_g optimized_c l k"
  "random_index_o w l k'' = random_index_c w l k''"
  by (simp_all add: read_window_g_def hop_o_def hop_g_def slide_o_def slide_g_def sync_o_def sync_g_def
    random_index_o_def random_index_c_def Let_def cong: if_cong)

lemma put_window_c_loop_eq: "put_window_c_loop D n hops random l k = put_window_g_loop plain_c D n hops random l k"
  by (induction n arbitrary: hops random l) (simp_all add: plain_steps addm_U64 cong: if_cong)

lemma put_window_o_loop_eq: "put_window_o_loop D n hops random l k = put_window_g_loop optimized_c D n hops random l k"
  by (induction n arbitrary: hops random l) (simp_all add: optimized_steps cong: if_cong)

lemma get_window_c_loop_eq: "get_window_c_loop D n hops random emp l k = get_window_g_loop plain_c D n hops random emp l k"
  by (induction n arbitrary: hops random emp l) (simp_all add: plain_steps above_def addm_U64 subm_U64 cong: if_cong)

lemma get_window_o_loop_eq: "get_window_o_loop D n hops random emp l k = get_window_g_loop optimized_c D n hops random emp l k"
  by (induction n arbitrary: hops random emp l) (simp_all add: optimized_steps above_def Let_def cong: if_cong)

text \<open>Both templates are instances.\<close>

lemma window_c_eq:
  "put_window_c D n contention l k = put_window_g plain_c D n contention l k"
  "get_window_c D n contention l k = get_window_g plain_c D n contention l k"
  by (simp_all add: put_window_c_def put_window_g_def get_window_c_def get_window_g_def plain_steps
    put_window_c_loop_eq get_window_c_loop_eq cong: if_cong)

lemma window_o_eq:
  "put_window_o D n contention l k = put_window_g optimized_c D n contention l k"
  "get_window_o D n contention l k = get_window_g optimized_c D n contention l k"
  by (simp_all add: put_window_o_def put_window_g_def get_window_o_def get_window_g_def optimized_steps
    put_window_o_loop_eq get_window_o_loop_eq cong: if_cong)

lemma count_slide_fail_simps [simp]:
  "seeds (count_slide_fail l) = seeds l" "thread_index (count_slide_fail l) = thread_index l"
  "thread_Window (count_slide_fail l) = thread_Window l" "thread_2dc.more (count_slide_fail l) = thread_2dc.more l"
  by (simp_all add: count_slide_fail_def)

lemma count_more_2dc_simps [simp]:
  "thread_2dc.more (count_hop l) = thread_2dc.more l" "thread_2dc.more (count_slide l) = thread_2dc.more l"
  "thread_2dc.more (count_put_fail l) = thread_2dc.more l" "thread_2dc.more (count_get_fail l) = thread_2dc.more l"
  "thread_2dc.more (count_null l) = thread_2dc.more l"
  "thread_Window (count_hop l) = thread_Window l" "thread_Window (count_slide l) = thread_Window l"
  "thread_Window (count_put_fail l) = thread_Window l" "thread_Window (count_get_fail l) = thread_Window l"
  "thread_Window (count_null l) = thread_Window l"
  by (simp_all add: count_hop_def count_slide_def count_put_fail_def count_get_fail_def count_null_def)

section \<open>The contract\<close>

locale window_2dc_client =
  fixes A :: "'z window_2dc_scheme \<Rightarrow> bool"
    and T :: "failure \<Rightarrow> bool"
    and J :: "'z window_2dc_scheme \<times> ('o, 'r) history \<Rightarrow> bool"
    and ord own grd :: "nat \<Rightarrow> 'z window_2dc_scheme \<Rightarrow> 'z window_2dc_scheme \<Rightarrow> bool"
    and opss :: "'o list list"
    and D :: "('z window_2dc_scheme, 'x) dset_c"
    and V :: variant_c
    and solo :: bool
    and seen :: "nat \<Rightarrow> ('o, 'r) history \<Rightarrow> ('o, 'r) history \<Rightarrow> nat \<Rightarrow> ('x, nat) dword \<Rightarrow> bool"
  assumes fuel: "T No_fuel"
    and width_ok: "J (s, H) \<Longrightarrow> 0 < cwidth D \<and> cwidth D < U16"
    and hops_ok: "crandom_hops D < randoms V"
    and grid_ok: "J (s, H) \<Longrightarrow> strong V \<Longrightarrow> 0 < cshift D \<and> cdepth D + cshift D < rows V \<and>
      lo (global_Window s) < rows V \<and> cshift D dvd lo (global_Window s) - cdepth D"
    and shift_ok: "J (s, H) \<Longrightarrow> cshift D \<le> cdepth D"
    and arr_length: "J (s, H) \<Longrightarrow> length (set_array D s) = cwidth D"
    and ord_refl: "ord i s s"
    and ord_trans: "ord i s t \<Longrightarrow> ord i t u \<Longrightarrow> ord i s u"
    and grd_refl: "grd i s s"
    and own_ord: "ord i s t \<Longrightarrow> own i s t"
    and own_trans: "own i s t \<Longrightarrow> own i t u \<Longrightarrow> own i s u"
    and seen_load: "J (s, H) \<Longrightarrow> J (t, H') \<Longrightarrow> ord i s t \<Longrightarrow> hist_rely i H H' \<Longrightarrow> j < cwidth D \<Longrightarrow>
      seen i H H' j (DW (lo (set_array D s ! j)) (hi (set_array D t ! j)))"
    and seen_later: "seen i H0 H j d \<Longrightarrow> hist_rely i H H' \<Longrightarrow> seen i H0 H' j d"
    and seen_earlier: "seen i H0 H j d \<Longrightarrow> hist_rely i H00 H0 \<Longrightarrow> seen i H00 H j d"
    and solo_ord: "solo \<Longrightarrow> ord 0 s t \<Longrightarrow> t = s"
    and max_ok: "J (s, H) \<Longrightarrow> cdepth D \<le> lo (global_Window s)"
    and no_wrap: "J (s, H) \<Longrightarrow> A s \<Longrightarrow> lo (global_Window s) + cshift D < rows V \<and>
      (solo \<longrightarrow> (\<forall>j<cwidth D. hi (set_array D s ! j) + cdepth D < U64))"
    and up: "J (s, H) \<Longrightarrow> A s \<Longrightarrow> (solo \<Longrightarrow> i = 0) \<Longrightarrow> (\<And>j. solo \<Longrightarrow> j < cwidth D \<Longrightarrow> lo (global_Window s) \<le> hi (set_array D s ! j)) \<Longrightarrow>
      J (s\<lparr>global_Window := DW (lo (global_Window s) + cshift D) v\<rparr>, H) \<and>
      grd i s (s\<lparr>global_Window := DW (lo (global_Window s) + cshift D) v\<rparr>) \<and>
      own i s (s\<lparr>global_Window := DW (lo (global_Window s) + cshift D) v\<rparr>)"
    and down: "J (s, H) \<Longrightarrow> A s \<Longrightarrow> cdepth D + cshift D \<le> lo (global_Window s) \<Longrightarrow> (solo \<Longrightarrow> i = 0) \<Longrightarrow>
      (\<And>j. solo \<Longrightarrow> j < cwidth D \<Longrightarrow> hi (set_array D s ! j) + cdepth D \<le> lo (global_Window s)) \<Longrightarrow>
      J (s\<lparr>global_Window := DW (lo (global_Window s) - cshift D) v\<rparr>, H) \<and>
      grd i s (s\<lparr>global_Window := DW (lo (global_Window s) - cshift D) v\<rparr>) \<and>
      own i s (s\<lparr>global_Window := DW (lo (global_Window s) - cshift D) v\<rparr>)"
begin

text \<open>
  What a thread alone knows of its copy of the window: unless the version tells otherwise it is
  the window. The exception is a copy that was never read, of maximum 0, as long as every
  count is 0.
\<close>

definition knows_window :: "(nat, nat) dword \<Rightarrow> 'z window_2dc_scheme \<Rightarrow> bool" where
  "knows_window W s \<longleftrightarrow> (solo \<longrightarrow> hi W = hi (global_Window s) \<longrightarrow>
     W = global_Window s \<or> \<not> strong V \<and> lo W = 0 \<and> (\<forall>j<cwidth D. hi (set_array D s ! j) = 0)) \<and>
     (strong V \<longrightarrow> lo W = 0 \<or> lo W < rows V \<and> cdepth D \<le> lo W \<and> cshift D dvd lo W - cdepth D)"

definition at_edge :: "(nat, nat) dword \<Rightarrow> 'z window_2dc_scheme \<Rightarrow> nat \<Rightarrow> bool" where
  "at_edge W s j \<longleftrightarrow> (solo \<longrightarrow> lo W \<le> hi (set_array D s ! j))"

definition below :: "bool \<Rightarrow> (nat, nat) dword \<Rightarrow> 'z window_2dc_scheme \<Rightarrow> nat \<Rightarrow> bool" where
  "below emp W s j \<longleftrightarrow> (solo \<longrightarrow> hi (set_array D s ! j) + cdepth D \<le> lo W \<and> (emp \<longrightarrow> hi (set_array D s ! j) = 0))"

definition win_local :: "'l \<Rightarrow> nat \<Rightarrow> nat \<Rightarrow> ((nat, nat) dword \<Rightarrow> 'z window_2dc_scheme \<Rightarrow> nat \<Rightarrow> bool) \<Rightarrow>
    'l thread_2dc_scheme \<Rightarrow> 'z window_2dc_scheme \<Rightarrow> bool" where
  "win_local M hops random P l s \<longleftrightarrow> thread_2dc.more l = M \<and> thread_index l < cwidth D \<and> hops \<le> cwidth D \<and>
     (0 < hops \<longrightarrow> crandom_hops D \<le> random) \<and> knows_window (thread_Window l) s \<and>
     cleared (cwidth D) (thread_index l) hops (P (thread_Window l) s)"

lemma stable_facts:
  assumes "solo \<Longrightarrow> i = 0" and "ord i s t"
  shows "knows_window W s \<Longrightarrow> knows_window W t" and "at_edge W s j \<Longrightarrow> at_edge W t j" and "below emp W s j \<Longrightarrow> below emp W t j"
    and "cleared w ti hops (at_edge W s) \<Longrightarrow> cleared w ti hops (at_edge W t)"
    and "cleared w ti hops (below emp W s) \<Longrightarrow> cleared w ti hops (below emp W t)"
    and "win_local M hops random at_edge l s \<Longrightarrow> win_local M hops random at_edge l t"
    and "win_local M hops random (below emp) l s \<Longrightarrow> win_local M hops random (below emp) l t"
proof -
  have "solo \<Longrightarrow> t = s" using assms solo_ord by auto
  then have "at_edge W t = at_edge W s" "below emp W t = below emp W s" "knows_window W t = knows_window W s" for W emp
    by (auto simp: at_edge_def below_def knows_window_def fun_eq_iff)
  then show "knows_window W s \<Longrightarrow> knows_window W t" "at_edge W s j \<Longrightarrow> at_edge W t j" "below emp W s j \<Longrightarrow> below emp W t j"
    "cleared w ti hops (at_edge W s) \<Longrightarrow> cleared w ti hops (at_edge W t)"
    "cleared w ti hops (below emp W s) \<Longrightarrow> cleared w ti hops (below emp W t)"
    "win_local M hops random at_edge l s \<Longrightarrow> win_local M hops random at_edge l t"
    "win_local M hops random (below emp) l s \<Longrightarrow> win_local M hops random (below emp) l t"
    by (simp_all add: win_local_def)
qed

lemma hop_g_safe:
  assumes J: "J (s, H)" and l: "win_local M hops random P l s" and here: "P' (thread_Window l) s (thread_index l)"
    and weaken: "\<And>W j. P W s j \<Longrightarrow> P' W s j" and hops: "hops \<noteq> cwidth D"
    and k: "\<And>l' random' hops'. win_local M hops' random' P' l' s \<Longrightarrow> thread_Window l' = thread_Window l \<Longrightarrow>
      safe A T R G Q (k l' random' hops') (s, H)"
  shows "safe A T R G Q (hop_g V D l random hops k) (s, H)"
proof -
  have width: "0 < cwidth D" "cwidth D < U16" using width_ok [OF J] by simp_all
  show ?thesis
  proof (cases "random < crandom_hops D")
    case True
    then have h: "hops = 0" using l by (auto simp: win_local_def)
    have w: "cwidth D mod U16 = cwidth D" using width by simp
    show ?thesis
      unfolding hop_g_def Let_def if_P [OF True] random_index_c_def w
      by (rule draw_cases [OF width(1)], rule k)
        (use l h in \<open>auto simp: win_local_def count_hop_def\<close>)
  next
    case False
    have lt: "hops < cwidth D" "thread_index l < cwidth D" using l hops by (auto simp: win_local_def)
    then have idx: "add64 (thread_index l) 1 = thread_index l + 1" "(hops + 1) mod U16 = Suc hops"
      using width by (auto simp: add64_def U16_def U64_def)
    have "cleared (cwidth D) (thread_index l) hops (P' (thread_Window l) s)"
      using l weaken unfolding win_local_def cleared_def by blast
    then have "cleared (cwidth D) (if cwidth D \<le> thread_index l + 1 then 0 else thread_index l + 1) (Suc hops) (P' (thread_Window l) s)"
      by (rule cleared_Suc) (use lt here in auto)
    then show ?thesis
      unfolding hop_g_def Let_def if_not_P [OF False] count_simps idx
      by (intro k) (use l lt False in \<open>auto simp: win_local_def count_hop_def\<close>)
  qed
qed

lemma knows_now: "J (t, H) \<Longrightarrow> knows_window (global_Window t) t"
  using grid_ok max_ok unfolding knows_window_def by blast

lemma read_window_g_safe:
  assumes J: "J (s, H)" and i: "solo \<Longrightarrow> i = 0"
    and k: "\<And>t H' l'. J (t, H') \<Longrightarrow> ord i s t \<Longrightarrow> hist_rely i H H' \<Longrightarrow> thread_index l' = thread_index l \<Longrightarrow>
      thread_2dc.more l' = thread_2dc.more l \<Longrightarrow> knows_window (thread_Window l') t \<Longrightarrow>
      safe A T (lin_rely J ord i) (lin_guar J grd opss i) Q (k l') (t, H')"
  shows "safe A T (lin_rely J ord i) (lin_guar J grd opss i) Q (read_window_g V l k) (s, H)"
proof -
  have two: "safe A T (lin_rely J ord i) (lin_guar J grd opss i) Q (read_window l k) (s, H)" if "\<not> strong V"
    unfolding read_window_def
    apply (rule lin_load, rule J, rule grd_refl)
    subgoal premises p for t H'
      apply (rule lin_load, rule p, rule grd_refl)
      subgoal premises q for u K
        by (rule k [OF q(1) ord_trans [OF p(2) q(2)] hist_rely_trans [OF p(3) q(3)]])
          (use i solo_ord [of t u] q(2) that in \<open>auto simp: knows_window_def\<close>)
      done
    done
  have one: "safe A T (lin_rely J ord i) (lin_guar J grd opss i) Q (read_window_o l k) (s, H)"
    unfolding read_window_o_def
    apply (rule lin_load, rule J, rule grd_refl)
    subgoal premises p for t H'
      by (rule k [OF p(1-3)]) (use knows_now [OF p(1)] in auto)
    done
  show ?thesis using one two by (simp add: read_window_g_def)
qed

lemma above_solo:
  assumes J: "J (t, H)" and A: "A t" and solo: solo and j: "j < cwidth D" and W: "knows_window W t" and v: "hi W = hi (global_Window t)"
  shows "above V D (hi (set_array D t ! j)) (lo W) \<longleftrightarrow> lo W < hi (set_array D t ! j) + cdepth D"
proof -
  have add: "add64 (hi (set_array D t ! j)) (cdepth D) = hi (set_array D t ! j) + cdepth D"
    using no_wrap [OF J A] solo j by (simp add: add64_eq)
  have "subm (rows V) (lo W) (cdepth D) = lo W - cdepth D \<and> cdepth D \<le> lo W" if "strong V"
  proof -
    have "W = global_Window t" using W that solo v unfolding knows_window_def by blast
    then show ?thesis using max_ok [OF J] no_wrap [OF J A] by (auto intro!: subm_eq)
  qed
  then show ?thesis using add unfolding above_def by auto
qed

text \<open>The assertion holds: a maximum above \<open>depth\<close> is at least one shift above it.\<close>

lemma lower_bound:
  assumes J: "J (t, H)" and V: "strong V" and W: "knows_window W s" and pos: "0 < subm (rows V) (lo W) (cdepth D)"
  shows "cdepth D \<le> subm (rows V) (lo W) (cshift D)"
proof -
  note g = grid_ok [OF J V]
  consider "lo W = 0" | "lo W < rows V" "cdepth D \<le> lo W" "cshift D dvd lo W - cdepth D"
    using W V by (auto simp: knows_window_def)
  then show ?thesis
  proof cases
    case 1
    then show ?thesis using g by (auto simp: subm_def)
  next
    case 2
    then have "0 < lo W - cdepth D" using pos by (simp add: subm_eq)
    then have "cshift D \<le> lo W - cdepth D" using 2 by (simp add: dvd_imp_le)
    then show ?thesis using 2 by (simp add: subm_eq)
  qed
qed

lemma slide_g_safe:
  assumes J: "J (s, H)" and i: "solo \<Longrightarrow> i = 0"
    and step: "\<And>t H'. J (t, H') \<Longrightarrow> ord i s t \<Longrightarrow> A t \<Longrightarrow> global_Window t = thread_Window l \<Longrightarrow>
      J (t\<lparr>global_Window := new\<rparr>, H') \<and> grd i t (t\<lparr>global_Window := new\<rparr>) \<and> own i t (t\<lparr>global_Window := new\<rparr>)"
    and F: "\<And>t H' l'. J (t, H') \<Longrightarrow> own i s t \<Longrightarrow> hist_rely i H H' \<Longrightarrow> thread_index l' = thread_index l \<Longrightarrow>
      thread_2dc.more l' = thread_2dc.more l \<Longrightarrow> knows_window (thread_Window l') t \<Longrightarrow>
      safe A T (lin_rely J ord i) (lin_guar J grd opss i) Q (F l') (t, H')"
  shows "safe A T (lin_rely J ord i) (lin_guar J grd opss i) Q (slide_g V new l F) (s, H)"
  unfolding slide_g_def
  apply (rule lin_cae, rule J, rule grd_refl)
  subgoal premises p for t H'
  proof -
    let ?t = "t\<lparr>global_Window := new\<rparr>"
    note st = step [OF p(1,2,5,6)]
    have "safe A T (lin_rely J ord i) (lin_guar J grd opss i) Q (F (count_slide (l\<lparr>thread_Window := new\<rparr>))) (?t, H')"
      by (rule F [OF _ own_trans [OF own_ord [OF p(2)]] p(3)]) (use st knows_now [of ?t H'] in simp_all)
    then show ?thesis using st by (intro exI [of _ "[]"]) simp
  qed
  subgoal premises p for t H'
  proof -
    have "safe A T (lin_rely J ord i) (lin_guar J grd opss i) Q
        (read_window_g V (l\<lparr>thread_Window := global_Window t\<rparr>) (\<lambda>l. F (count_slide_fail l))) (t, H')"
    proof (rule read_window_g_safe [OF p(1) i])
      fix u K l' assume u: "J (u, K)" "ord i t u" "hist_rely i H' K"
        "thread_index l' = thread_index (l\<lparr>thread_Window := global_Window t\<rparr>)"
        "thread_2dc.more l' = thread_2dc.more (l\<lparr>thread_Window := global_Window t\<rparr>)" "knows_window (thread_Window l') u"
      show "safe A T (lin_rely J ord i) (lin_guar J grd opss i) Q (F (count_slide_fail l')) (u, K)"
        by (rule F [OF u(1) own_ord [OF ord_trans [OF p(2) u(2)]] hist_rely_trans [OF p(3) u(3)]]) (use u in simp_all)
    qed simp
    then show ?thesis by simp
  qed
  done

lemma read_descriptor_safe:
  assumes J: "J (s, H)" and j: "j < cwidth D" and i: "solo \<Longrightarrow> i = 0"
    and k: "\<And>t H' d. J (t, H') \<Longrightarrow> ord i s t \<Longrightarrow> hist_rely i H H' \<Longrightarrow> seen i H H' j d \<Longrightarrow> (solo \<Longrightarrow> d = set_array D t ! j) \<Longrightarrow>
      safe A T (lin_rely J ord i) (lin_guar J grd opss i) Q (k d) (t, H')"
  shows "safe A T (lin_rely J ord i) (lin_guar J grd opss i) Q (read_descriptor D j k) (s, H)"
proof -
  have two: "safe A T (lin_rely J ord i) (lin_guar J grd opss i) Q (load2 (\<lambda>s. set_array D s ! j) k) (s, H)"
    unfolding load2_def
    apply (rule lin_load, rule J, rule grd_refl)
    subgoal premises p for t H'
      apply (rule lin_load, rule p, rule grd_refl)
      subgoal premises q for u K
      proof (rule k [OF q(1) ord_trans [OF p(2) q(2)] hist_rely_trans [OF p(3) q(3)]])
        show "seen i H K j (DW (lo (set_array D t ! j)) (hi (set_array D u ! j)))"
          by (rule seen_earlier [OF seen_load [OF p(1) q(1,2,3) j] p(3)])
        show "DW (lo (set_array D t ! j)) (hi (set_array D u ! j)) = set_array D u ! j" if solo
          using solo_ord [OF that, of t u] q(2) i [OF that] by simp
      qed
      done
    done
  have one: "safe A T (lin_rely J ord i) (lin_guar J grd opss i) Q (load (\<lambda>s. set_array D s ! j) k) (s, H)"
    apply (rule lin_load, rule J, rule grd_refl)
    subgoal premises p for t H'
      by (rule k [OF p(1-3)])
        (use seen_earlier [OF seen_load [OF p(1) p(1) ord_refl hist_rely_refl j] p(3)] in simp_all)
    done
  show ?thesis
    unfolding read_descriptor_def
    by (rule lin_checked, rule J) (use one two j arr_length in auto)
qed

lemma put_window_g_loop_safe:
  assumes i: "solo \<Longrightarrow> i = 0"
    and k: "\<And>t H' d l'. J (t, H') \<Longrightarrow> own i s0 t \<Longrightarrow> hist_rely i H0 H' \<Longrightarrow> thread_index l' < cwidth D \<Longrightarrow>
      thread_2dc.more l' = M \<Longrightarrow> seen i H0 H' (thread_index l') d \<Longrightarrow> knows_window (thread_Window l') t \<Longrightarrow>
      (solo \<Longrightarrow> d = set_array D t ! thread_index l' \<and> thread_Window l' = global_Window t \<and> hi d < lo (global_Window t)) \<Longrightarrow>
      safe A T (lin_rely J ord i) (lin_guar J grd opss i) Q (k d l') (t, H')"
    and "J (s, H)" and "win_local M hops random at_edge l s" and "own i s0 s" and "hist_rely i H0 H"
  shows "safe A T (lin_rely J ord i) (lin_guar J grd opss i) Q (put_window_g_loop V D n hops random l k) (s, H)"
  using assms(3-)
proof (induction n arbitrary: s H hops random l)
  case 0
  then show ?case using fuel by simp
next
  case (Suc n)
  let ?safe = "safe A T (lin_rely J ord i) (lin_guar J grd opss i) Q"
  have idx: "thread_index l < cwidth D" and M: "thread_2dc.more l = M" using Suc.prems by (simp_all add: win_local_def)
  have restart: "?safe (put_window_g_loop V D n 0 random l' k) (t, H')"
    if "J (t, H')" "own i s t" "hist_rely i H H'" "thread_index l' = thread_index l"
      "thread_2dc.more l' = thread_2dc.more l" "knows_window (thread_Window l') t" for t H' l'
    by (rule Suc.IH [OF that(1) _ own_trans [OF Suc.prems(3) that(2)] hist_rely_trans [OF Suc.prems(4) that(3)]])
      (use that idx M in \<open>simp add: win_local_def\<close>)
  show ?case
    unfolding put_window_g_loop.simps Let_def
  proof (rule read_descriptor_safe [OF Suc.prems(1) idx i])
    fix t1 H1 d assume t1: "J (t1, H1)" "ord i s t1" "hist_rely i H H1" "seen i H H1 (thread_index l) d"
      "solo \<Longrightarrow> d = set_array D t1 ! thread_index l"
    show "?safe (load (\<lambda>s. hi (global_Window s)) (\<lambda>version.
       if version \<noteq> hi (thread_Window l) then read_window_g V l (\<lambda>l. put_window_g_loop V D n 0 random l k)
       else if hi d < lo (thread_Window l) then k d l
       else if hops \<noteq> cwidth D then hop_g V D l random hops (\<lambda>l random hops. put_window_g_loop V D n hops random l k)
       else load (\<lambda>s. hi (global_Window s)) (\<lambda>version.
         if hi (thread_Window l) = version
         then slide_g V (DW (addm (rows V) (lo (thread_Window l)) (cshift D)) (addm (versions V) (hi (thread_Window l)) 1)) l
           (\<lambda>l. put_window_g_loop V D n 0 random l k)
         else put_window_g_loop V D n 0 random l k))) (t1, H1)"
      apply (rule lin_load, rule t1, rule grd_refl)
      subgoal premises p for t H'
      proof -
        have o: "ord i s t" "hist_rely i H H'" using ord_trans [OF t1(2) p(2)] hist_rely_trans [OF t1(3) p(3)] by auto
        have here: "win_local M hops random at_edge l t" using stable_facts(6) [OF i o(1) Suc.prems(2)] .
        then have kn: "knows_window (thread_Window l) t" by (simp add: win_local_def)
        have d: "d = set_array D t ! thread_index l" if solo using t1(5) [OF that] solo_ord [OF that, of t1 t] p(2) i [OF that] by simp
        have later: "own i s u" "hist_rely i H K" if "own i t u" "hist_rely i H' K" for u K
          using own_trans [OF own_ord [OF o(1)] that(1)] hist_rely_trans [OF o(2) that(2)] by auto
        consider (sync) "hi (global_Window t) \<noteq> hi (thread_Window l)"
          | (valid) "hi (global_Window t) = hi (thread_Window l)" "hi d < lo (thread_Window l)"
          | (hop) "hi (global_Window t) = hi (thread_Window l)" "\<not> hi d < lo (thread_Window l)" "hops \<noteq> cwidth D"
          | (slide) "hi (global_Window t) = hi (thread_Window l)" "\<not> hi d < lo (thread_Window l)" "hops = cwidth D"
          by blast
        then show ?thesis
        proof cases
          case sync
          have "?safe (read_window_g V l (\<lambda>l. put_window_g_loop V D n 0 random l k)) (t, H')"
          proof (rule read_window_g_safe [OF p(1) i])
            fix u K l' assume u: "J (u, K)" "ord i t u" "hist_rely i H' K" "thread_index l' = thread_index l"
              "thread_2dc.more l' = thread_2dc.more l" "knows_window (thread_Window l') u"
            show "?safe (put_window_g_loop V D n 0 random l' k) (u, K)" by (rule restart [OF u(1) later [OF own_ord [OF u(2)] u(3)] u(4-6)])
          qed
          then show ?thesis using sync by simp
        next
          case valid
          have "?safe (k d l) (t, H')"
          proof (rule k [OF p(1) own_trans [OF Suc.prems(3) own_ord [OF o(1)]] hist_rely_trans [OF Suc.prems(4) o(2)] idx M _ kn])
            show "seen i H0 H' (thread_index l) d" by (rule seen_earlier [OF seen_later [OF t1(4) p(3)] Suc.prems(4)])
            show "d = set_array D t ! thread_index l \<and> thread_Window l = global_Window t \<and> hi d < lo (global_Window t)" if solo
              using d [OF that] kn valid that unfolding knows_window_def by auto
          qed
          then show ?thesis using valid by simp
        next
          case hop
          have "at_edge (thread_Window l) t (thread_index l)" using hop d by (auto simp: at_edge_def)
          then have "?safe (hop_g V D l random hops (\<lambda>l random hops. put_window_g_loop V D n hops random l k)) (t, H')"
            by (rule hop_g_safe [OF p(1) here _ _ hop(3)])
              (auto intro!: Suc.IH p(1) own_trans [OF Suc.prems(3) own_ord [OF o(1)]] hist_rely_trans [OF Suc.prems(4) o(2)])
          then show ?thesis using hop by simp
        next
          case slide
          let ?new = "DW (addm (rows V) (lo (thread_Window l)) (cshift D)) (addm (versions V) (hi (thread_Window l)) 1)"
          have "?safe (load (\<lambda>s. hi (global_Window s)) (\<lambda>version. if hi (thread_Window l) = version
              then slide_g V ?new l (\<lambda>l. put_window_g_loop V D n 0 random l k) else put_window_g_loop V D n 0 random l k)) (t, H')"
            apply (rule lin_load, rule p, rule grd_refl)
            subgoal premises q for u K
            proof -
              have kn': "knows_window (thread_Window l) u" by (rule stable_facts(1) [OF _ q(2) kn]) (rule i)
              have "?safe (slide_g V ?new l (\<lambda>l. put_window_g_loop V D n 0 random l k)) (u, K)"
              proof (rule slide_g_safe [OF q(1) i])
                fix x Kx assume x: "J (x, Kx)" "ord i u x" "A x" "global_Window x = thread_Window l"
                have "win_local M hops random at_edge l x" by (rule stable_facts(6) [OF i ord_trans [OF q(2) x(2)] here])
                then have c: "cleared (cwidth D) (thread_index l) (cwidth D) (at_edge (thread_Window l) x)"
                  using slide(3) by (simp add: win_local_def)
                have all: "lo (global_Window x) \<le> hi (set_array D x ! j)" if "solo" "j < cwidth D" for j
                  using cleared_all [OF c idx that(2)] that(1) x(4) unfolding at_edge_def by simp
                have new: "addm (rows V) (lo (thread_Window l)) (cshift D) = lo (global_Window x) + cshift D"
                  using no_wrap [OF x(1,3)] x(4) by (simp add: addm_eq)
                show "J (x\<lparr>global_Window := ?new\<rparr>, Kx) \<and> grd i x (x\<lparr>global_Window := ?new\<rparr>) \<and> own i x (x\<lparr>global_Window := ?new\<rparr>)"
                  unfolding new by (rule up [OF x(1,3) _ all], erule i)
              next
                fix x Kx l' assume x: "J (x, Kx)" "own i u x" "hist_rely i K Kx" "thread_index l' = thread_index l"
                  "thread_2dc.more l' = thread_2dc.more l" "knows_window (thread_Window l') x"
                show "?safe (put_window_g_loop V D n 0 random l' k) (x, Kx)"
                  by (rule restart [OF x(1) later [OF own_trans [OF own_ord [OF q(2)] x(2)] hist_rely_trans [OF q(3) x(3)]] x(4-6)])
              qed
              moreover have "?safe (put_window_g_loop V D n 0 random l k) (u, K)"
                by (rule restart [OF q(1) later [OF own_ord [OF q(2)] q(3)] refl refl kn'])
              ultimately show ?thesis by (simp only: split: if_split) blast
            qed
            done
          then show ?thesis using slide by simp
        qed
      qed
      done
  qed
qed

lemma sync_g_safe:
  assumes J: "J (s, H)" and i: "solo \<Longrightarrow> i = 0" and l: "knows_window (thread_Window l) s"
    and k: "\<And>t H' l'. J (t, H') \<Longrightarrow> ord i s t \<Longrightarrow> hist_rely i H H' \<Longrightarrow> thread_index l' = thread_index l \<Longrightarrow>
      thread_2dc.more l' = thread_2dc.more l \<Longrightarrow> knows_window (thread_Window l') t \<Longrightarrow>
      safe A T (lin_rely J ord i) (lin_guar J grd opss i) Q (k l') (t, H')"
  shows "safe A T (lin_rely J ord i) (lin_guar J grd opss i) Q (sync_g V l k) (s, H)"
  unfolding sync_g_def
  apply (rule lin_load, rule J, rule grd_refl)
  subgoal premises p for t H'
  proof -
    have "safe A T (lin_rely J ord i) (lin_guar J grd opss i) Q (read_window_g V l k) (t, H')"
      by (rule read_window_g_safe, rule p(1), erule i, rule k)
        (auto intro: ord_trans [OF p(2)] hist_rely_trans [OF p(3)])
    moreover have "safe A T (lin_rely J ord i) (lin_guar J grd opss i) Q (k l) (t, H')"
      by (rule k [OF p(1-3) refl refl stable_facts(1) [OF i p(2) l]])
    ultimately show ?thesis by simp
  qed
  done

lemma put_window_g_safe:
  assumes i: "solo \<Longrightarrow> i = 0"
    and k: "\<And>t H' d l'. J (t, H') \<Longrightarrow> own i s t \<Longrightarrow> hist_rely i H H' \<Longrightarrow> thread_index l' < cwidth D \<Longrightarrow>
      thread_2dc.more l' = M \<Longrightarrow> seen i H H' (thread_index l') d \<Longrightarrow> knows_window (thread_Window l') t \<Longrightarrow>
      (solo \<Longrightarrow> d = set_array D t ! thread_index l' \<and> thread_Window l' = global_Window t \<and> hi d < lo (global_Window t)) \<Longrightarrow>
      safe A T (lin_rely J ord i) (lin_guar J grd opss i) Q (k d l') (t, H')"
    and J: "J (s, H)" and l: "thread_index l < cwidth D" "thread_2dc.more l = M" "knows_window (thread_Window l) s"
  shows "safe A T (lin_rely J ord i) (lin_guar J grd opss i) Q (put_window_g V D n contention l k) (s, H)"
  unfolding put_window_g_def
proof (rule sync_g_safe [OF J i l(3)])
  fix t H' l' assume t: "J (t, H')" "ord i s t" "hist_rely i H H'" "thread_index l' = thread_index l"
    "thread_2dc.more l' = thread_2dc.more l" "knows_window (thread_Window l') t"
  have loop: "safe A T (lin_rely J ord i) (lin_guar J grd opss i) Q (put_window_g_loop V D n 0 0 l1 k) (t, H')"
    if "thread_index l1 < cwidth D" "thread_2dc.more l1 = M" "thread_Window l1 = thread_Window l'" for l1
    by (rule put_window_g_loop_safe [OF i k]) (use t that own_ord in \<open>auto simp: win_local_def\<close>)
  have width: "0 < cwidth D" "cwidth D < U16" using width_ok [OF J] by simp_all
  have w: "cwidth D mod U16 = cwidth D" using width by simp
  show "safe A T (lin_rely J ord i) (lin_guar J grd opss i) Q
      (if contention then random_index_c (cwidth D) l' (\<lambda>j l. put_window_g_loop V D n 0 0 (l\<lparr>thread_index := j\<rparr>) k)
       else put_window_g_loop V D n 0 0 l' k) (t, H')"
  proof (cases contention)
    case True
    show ?thesis
      unfolding random_index_c_def w if_P [OF True]
      by (rule draw_cases [OF width(1)], rule loop) (use t l in simp_all)
  next
    case False
    then show ?thesis using loop [of l'] t l by simp
  qed
qed

text \<open>
  The result of \<open>get_window\<close> for a thread alone: a sub-structure above the lower edge, unless
  all of them are empty.
\<close>

lemma get_window_g_loop_safe:
  assumes i: "solo \<Longrightarrow> i = 0"
    and k: "\<And>t H' d l'. J (t, H') \<Longrightarrow> own i s0 t \<Longrightarrow> hist_rely i H0 H' \<Longrightarrow> thread_index l' < cwidth D \<Longrightarrow>
      thread_2dc.more l' = M \<Longrightarrow> seen i H0 H' (thread_index l') d \<Longrightarrow> knows_window (thread_Window l') t \<Longrightarrow>
      (solo \<Longrightarrow> d = set_array D t ! thread_index l' \<and> ((\<forall>j<cwidth D. hi (set_array D t ! j) = 0) \<or> lo (global_Window t) < hi d + cdepth D)) \<Longrightarrow>
      \<exists>X. hist_step opss i H' (H' @ X) \<and> J (t, H' @ X) \<and> grd i t t \<and>
        safe A T (lin_rely J ord i) (lin_guar J grd opss i) Q (k d l') (t, H' @ X)"
    and "J (s, H)" and "win_local M hops random (below emp) l s" and "own i s0 s" and "hist_rely i H0 H"
    and "\<not> emp \<Longrightarrow> strong V \<Longrightarrow> 0 < subm (rows V) (lo (thread_Window l)) (cdepth D)"
  shows "safe A T (lin_rely J ord i) (lin_guar J grd opss i) Q (get_window_g_loop V D n hops random emp l k) (s, H)"
  using assms(3-)
proof (induction n arbitrary: s H hops random emp l)
  case 0
  then show ?case using fuel by simp
next
  case (Suc n)
  let ?safe = "safe A T (lin_rely J ord i) (lin_guar J grd opss i) Q"
  have idx: "thread_index l < cwidth D" and M: "thread_2dc.more l = M" using Suc.prems by (simp_all add: win_local_def)
  have restart: "?safe (get_window_g_loop V D n 0 random True l' k) (t, H')"
    if "J (t, H')" "own i s t" "hist_rely i H H'" "thread_index l' = thread_index l"
      "thread_2dc.more l' = thread_2dc.more l" "knows_window (thread_Window l') t" for t H' l'
    by (rule Suc.IH [OF that(1) _ own_trans [OF Suc.prems(3) that(2)] hist_rely_trans [OF Suc.prems(4) that(3)]])
      (use that idx M in \<open>simp_all add: win_local_def\<close>)
  show ?case
    unfolding get_window_g_loop.simps Let_def dword.sel
  proof (rule read_descriptor_safe [OF Suc.prems(1) idx i])
    fix t1 H1 d assume t1: "J (t1, H1)" "ord i s t1" "hist_rely i H H1" "seen i H H1 (thread_index l) d"
      "solo \<Longrightarrow> d = set_array D t1 ! thread_index l"
    let ?new = "DW (subm (rows V) (lo (thread_Window l)) (cshift D)) (addm (versions V) (hi (thread_Window l)) 1)"
    show "?safe (load (\<lambda>s. hi (global_Window s)) (\<lambda>version.
       if version \<noteq> hi (thread_Window l) then read_window_g V l (\<lambda>l. get_window_g_loop V D n 0 random True l k)
       else if above V D (hi d) (lo (thread_Window l)) then k d l
       else if hops \<noteq> cwidth D then hop_g V D l random hops (\<lambda>l random hops. get_window_g_loop V D n hops random (emp \<and> \<not> hi d > 0) l k)
       else if emp then k d l
       else if strong V \<and> \<not> cdepth D \<le> subm (rows V) (lo (thread_Window l)) (cshift D) then Stop Assert_failed
       else load (\<lambda>s. hi (global_Window s)) (\<lambda>version.
         if hi (thread_Window l) = version \<and> cdepth D \<le> subm (rows V) (lo (thread_Window l)) (cshift D)
         then slide_g V ?new l (\<lambda>l. get_window_g_loop V D n 0 random True l k)
         else get_window_g_loop V D n 0 random True l k))) (t1, H1)"
      apply (rule lin_load_point, rule t1)
      subgoal premises p for t H'
      proof -
        have o: "ord i s t" "hist_rely i H H'" using ord_trans [OF t1(2) p(2)] hist_rely_trans [OF t1(3) p(3)] by auto
        have here: "win_local M hops random (below emp) l t" using stable_facts(7) [OF i o(1) Suc.prems(2)] .
        then have kn: "knows_window (thread_Window l) t" by (simp add: win_local_def)
        have d: "d = set_array D t ! thread_index l" if solo using t1(5) [OF that] solo_ord [OF that, of t1 t] p(2) i [OF that] by simp
        have later: "own i s u" "hist_rely i H K" if "own i t u" "hist_rely i H' K" for u K
          using own_trans [OF own_ord [OF o(1)] that(1)] hist_rely_trans [OF o(2) that(2)] by auto
        have now: "?safe q (t, H') \<Longrightarrow> \<exists>X. hist_step opss i H' (H' @ X) \<and> J (t, H' @ X) \<and> grd i t t \<and> ?safe q (t, H' @ X)" for q
          using p(1) grd_refl by (intro exI [of _ "[]"]) simp
        have found: "\<exists>X. hist_step opss i H' (H' @ X) \<and> J (t, H' @ X) \<and> grd i t t \<and> ?safe (k d l) (t, H' @ X)"
          if "hi (global_Window t) = hi (thread_Window l)" "solo \<Longrightarrow> (\<forall>j<cwidth D. hi (set_array D t ! j) = 0) \<or> lo (thread_Window l) < hi d + cdepth D"
        proof (rule k [OF p(1) own_trans [OF Suc.prems(3) own_ord [OF o(1)]] hist_rely_trans [OF Suc.prems(4) o(2)] idx M _ kn])
          show "seen i H0 H' (thread_index l) d" by (rule seen_earlier [OF seen_later [OF t1(4) p(3)] Suc.prems(4)])
          show "d = set_array D t ! thread_index l \<and> ((\<forall>j<cwidth D. hi (set_array D t ! j) = 0) \<or> lo (global_Window t) < hi d + cdepth D)" if solo
            using d [OF that] kn \<open>hi (global_Window t) = hi (thread_Window l)\<close> \<open>solo \<Longrightarrow> (\<forall>j<cwidth D. hi (set_array D t ! j) = 0) \<or> lo (thread_Window l) < hi d + cdepth D\<close> [OF that] that idx
            unfolding knows_window_def by auto
        qed
        consider (sync) "hi (global_Window t) \<noteq> hi (thread_Window l)"
          | (valid) "hi (global_Window t) = hi (thread_Window l)" "above V D (hi d) (lo (thread_Window l))"
          | (hop) "hi (global_Window t) = hi (thread_Window l)" "\<not> above V D (hi d) (lo (thread_Window l))" "hops \<noteq> cwidth D"
          | (none) "hi (global_Window t) = hi (thread_Window l)" "\<not> above V D (hi d) (lo (thread_Window l))" "hops = cwidth D" "emp"
          | (slide) "hi (global_Window t) = hi (thread_Window l)" "\<not> above V D (hi d) (lo (thread_Window l))" "hops = cwidth D" "\<not> emp"
          by blast
        then show ?thesis
        proof cases
          case sync
          have "?safe (read_window_g V l (\<lambda>l. get_window_g_loop V D n 0 random True l k)) (t, H')"
          proof (rule read_window_g_safe [OF p(1) i])
            fix u K l' assume u: "J (u, K)" "ord i t u" "hist_rely i H' K" "thread_index l' = thread_index l"
              "thread_2dc.more l' = thread_2dc.more l" "knows_window (thread_Window l') u"
            show "?safe (get_window_g_loop V D n 0 random True l' k) (u, K)" by (rule restart [OF u(1) later [OF own_ord [OF u(2)] u(3)] u(4-6)])
          qed
          then show ?thesis using now sync by simp
        next
          case valid
          have "\<exists>X. hist_step opss i H' (H' @ X) \<and> J (t, H' @ X) \<and> grd i t t \<and> ?safe (k d l) (t, H' @ X)"
            by (rule found [OF valid(1)]) (use above_solo [OF p(1,5) _ idx kn] d valid in simp)
          then show ?thesis using valid by simp
        next
          case hop
          have "below (emp \<and> \<not> hi d > 0) (thread_Window l) t (thread_index l)" using hop d above_solo [OF p(1,5) _ idx kn] by (auto simp: below_def)
          then have "?safe (hop_g V D l random hops (\<lambda>l random hops. get_window_g_loop V D n hops random (emp \<and> \<not> hi d > 0) l k)) (t, H')"
          proof (rule hop_g_safe [OF p(1) here _ _ hop(3)])
            show "below (emp \<and> \<not> 0 < hi d) W t j" if "below emp W t j" for W j using that by (auto simp: below_def)
            fix l' random' hops'
            assume h: "win_local M hops' random' (below (emp \<and> \<not> 0 < hi d)) l' t" "thread_Window l' = thread_Window l"
            show "?safe (get_window_g_loop V D n hops' random' (emp \<and> \<not> 0 < hi d) l' k) (t, H')"
            proof (rule Suc.IH [OF p(1) h(1) own_trans [OF Suc.prems(3) own_ord [OF o(1)]] hist_rely_trans [OF Suc.prems(4) o(2)]])
              show "0 < subm (rows V) (lo (thread_Window l')) (cdepth D)" if "\<not> (emp \<and> \<not> 0 < hi d)" "strong V"
                using that Suc.prems(5) hop(2) h(2) by (auto simp: above_def)
            qed
          qed
          then show ?thesis using now hop by simp
        next
          case none
          have c: "cleared (cwidth D) (thread_index l) (cwidth D) (below emp (thread_Window l) t)"
            using here none(3) by (simp add: win_local_def)
          have "hi (set_array D t ! j) = 0" if solo "j < cwidth D" for j
            using cleared_all [OF c idx that(2)] that(1) none(4) unfolding below_def by simp
          then show ?thesis using found [OF none(1)] none by simp
        next
          case slide
          have "?safe (load (\<lambda>s. hi (global_Window s)) (\<lambda>version.
              if hi (thread_Window l) = version \<and> cdepth D \<le> subm (rows V) (lo (thread_Window l)) (cshift D)
              then slide_g V ?new l (\<lambda>l. get_window_g_loop V D n 0 random True l k) else get_window_g_loop V D n 0 random True l k)) (t, H')"
            apply (rule lin_load, rule p, rule grd_refl)
            subgoal premises q for u K
            proof -
              have kn': "knows_window (thread_Window l) u" by (rule stable_facts(1) [OF _ q(2) kn]) (rule i)
              have "?safe (slide_g V ?new l (\<lambda>l. get_window_g_loop V D n 0 random True l k)) (u, K)"
                if guard: "cdepth D \<le> subm (rows V) (lo (thread_Window l)) (cshift D)"
              proof (rule slide_g_safe [OF q(1) i])
                fix x Kx assume x: "J (x, Kx)" "ord i u x" "A x" "global_Window x = thread_Window l"
                have "win_local M hops random (below emp) l x" by (rule stable_facts(7) [OF i ord_trans [OF q(2) x(2)] here])
                then have c: "cleared (cwidth D) (thread_index l) (cwidth D) (below emp (thread_Window l) x)"
                  using slide(3) by (simp add: win_local_def)
                have all: "hi (set_array D x ! j) + cdepth D \<le> lo (global_Window x)" if "solo" "j < cwidth D" for j
                  using cleared_all [OF c idx that(2)] that(1) x(4) unfolding below_def by simp
                have new: "subm (rows V) (lo (thread_Window l)) (cshift D) = lo (global_Window x) - cshift D"
                  using max_ok [OF x(1)] shift_ok [OF x(1)] no_wrap [OF x(1,3)] x(4) by (intro trans [OF subm_eq]) auto
                have low: "cdepth D + cshift D \<le> lo (global_Window x)"
                  using guard max_ok [OF x(1)] shift_ok [OF x(1)] unfolding new by linarith
                show "J (x\<lparr>global_Window := ?new\<rparr>, Kx) \<and> grd i x (x\<lparr>global_Window := ?new\<rparr>) \<and> own i x (x\<lparr>global_Window := ?new\<rparr>)"
                  unfolding new by (rule down [OF x(1,3) low _ all], erule i)
              next
                fix x Kx l' assume x: "J (x, Kx)" "own i u x" "hist_rely i K Kx" "thread_index l' = thread_index l"
                  "thread_2dc.more l' = thread_2dc.more l" "knows_window (thread_Window l') x"
                show "?safe (get_window_g_loop V D n 0 random True l' k) (x, Kx)"
                  by (rule restart [OF x(1) later [OF own_trans [OF own_ord [OF q(2)] x(2)] hist_rely_trans [OF q(3) x(3)]] x(4-6)])
              qed
              moreover have "?safe (get_window_g_loop V D n 0 random True l k) (u, K)"
                by (rule restart [OF q(1) later [OF own_ord [OF q(2)] q(3)] refl refl kn'])
              ultimately show ?thesis by (simp only: split: if_split) blast
            qed
            done
          moreover have "cdepth D \<le> subm (rows V) (lo (thread_Window l)) (cshift D)" if "strong V"
            using lower_bound [OF p(1) that kn Suc.prems(5) [OF slide(4) that]] .
          ultimately show ?thesis using now slide by auto
        qed
      qed
      done
  qed
qed

lemma get_window_g_safe:
  assumes i: "solo \<Longrightarrow> i = 0"
    and k: "\<And>t H' d l'. J (t, H') \<Longrightarrow> own i s t \<Longrightarrow> hist_rely i H H' \<Longrightarrow> thread_index l' < cwidth D \<Longrightarrow>
      thread_2dc.more l' = M \<Longrightarrow> seen i H H' (thread_index l') d \<Longrightarrow> knows_window (thread_Window l') t \<Longrightarrow>
      (solo \<Longrightarrow> d = set_array D t ! thread_index l' \<and> ((\<forall>j<cwidth D. hi (set_array D t ! j) = 0) \<or> lo (global_Window t) < hi d + cdepth D)) \<Longrightarrow>
      \<exists>X. hist_step opss i H' (H' @ X) \<and> J (t, H' @ X) \<and> grd i t t \<and>
        safe A T (lin_rely J ord i) (lin_guar J grd opss i) Q (k d l') (t, H' @ X)"
    and J: "J (s, H)" and l: "thread_index l < cwidth D" "thread_2dc.more l = M" "knows_window (thread_Window l) s"
  shows "safe A T (lin_rely J ord i) (lin_guar J grd opss i) Q (get_window_g V D n contention l k) (s, H)"
  unfolding get_window_g_def
proof (rule sync_g_safe [OF J i l(3)])
  fix t H' l' assume t: "J (t, H')" "ord i s t" "hist_rely i H H'" "thread_index l' = thread_index l"
    "thread_2dc.more l' = thread_2dc.more l" "knows_window (thread_Window l') t"
  have loop: "safe A T (lin_rely J ord i) (lin_guar J grd opss i) Q (get_window_g_loop V D n 0 0 True l1 k) (t, H')"
    if "thread_index l1 < cwidth D" "thread_2dc.more l1 = M" "thread_Window l1 = thread_Window l'" for l1
    by (rule get_window_g_loop_safe [OF i k]) (use t that own_ord in \<open>auto simp: win_local_def\<close>)
  have width: "0 < cwidth D" "cwidth D < U16" using width_ok [OF J] by simp_all
  have w: "cwidth D mod U16 = cwidth D" using width by simp
  show "safe A T (lin_rely J ord i) (lin_guar J grd opss i) Q
      (if contention then random_index_c (cwidth D) l' (\<lambda>j l. get_window_g_loop V D n 0 0 True (l\<lparr>thread_index := j\<rparr>) k)
       else get_window_g_loop V D n 0 0 True l' k) (t, H')"
  proof (cases contention)
    case True
    show ?thesis
      unfolding random_index_c_def w if_P [OF True]
      by (rule draw_cases [OF width(1)], rule loop) (use t l in simp_all)
  next
    case False
    then show ?thesis using loop [of l'] t l by simp
  qed
qed

end

end
