(* ===== verification/Counter_2Dc.thy ===== *)
theory Counter_2Dc
  imports Window_2Dc Counter_2Dd
begin

text \<open>
  The 2Dc counter, \<open>src/2Dc-counter/2Dc-counter.c\<close>: an array of counts that go up and down inside
  the window of \<open>2Dc-window.c\<close>. \<open>create_counter\<close> sets the window itself, with version 0, which is
  also the version of the window copy of a thread that has not read it yet: the first operation
  of a thread runs with a maximum of 0 until it has visited all sub-counters.

  Shown: under any interleaving the counter is linearizable to an array of sub-counters in which
  no count goes below zero, and the window never goes below \<open>depth\<close>. When one thread runs, it
  moreover never lets two counts differ by more than \<open>depth\<close> and reports empty only if all
  counts are zero. The second part cannot be had in general: between the test of a count and
  the exchange another thread may shift the window.
\<close>

section \<open>State and operations\<close>

record counter_2dc = window_2dc +
  ccounts :: "(unit, nat) dword list"

definition shift_2dc :: "nat \<Rightarrow> nat" where
  "shift_2dc d = (if d div 2 > 1 then d div 2 else 1)"

definition set_2dc :: "nat \<Rightarrow> nat \<Rightarrow> (counter_2dc, unit) dset_c" where
  "set_2dc w d = \<lparr>cwidth = w, cdepth = d, cshift = shift_2dc d, crandom_hops = 2, two_words = False, set_array = ccounts\<rparr>"

lemma set_2dc_simps [simp]:
  "cwidth (set_2dc w d) = w" "cdepth (set_2dc w d) = d" "cshift (set_2dc w d) = shift_2dc d"
  "crandom_hops (set_2dc w d) = 2" "two_words (set_2dc w d) = False" "set_array (set_2dc w d) = ccounts"
  by (simp_all add: set_2dc_def)

definition init_counter_2dc :: "nat \<Rightarrow> nat \<Rightarrow> counter_2dc" where
  "init_counter_2dc w d = \<lparr>global_Window = DW d 0, ccounts = replicate w (DW () 0)\<rparr>"

definition create_counter_2dc :: "bool \<Rightarrow> nat \<Rightarrow> nat \<Rightarrow> nat \<Rightarrow> nat \<Rightarrow> nat \<Rightarrow>
    failure + ((counter_2dc, unit) dset_c \<times> nat \<times> counter_2dc)" where
  "create_counter_2dc alloc_ok num_threads w d k_mode k = (case dimensions U64 2 num_threads w d k_mode k of
     Inl e \<Rightarrow> Inl e
   | Inr (w, d, k) \<Rightarrow> if \<not> alloc_ok then Inl Exit_program else Inr (set_2dc w d, k, init_counter_2dc w d))"

definition counter_cae_c :: "nat \<Rightarrow> (unit, nat) dword \<Rightarrow> (unit, nat) dword \<Rightarrow> (bool \<Rightarrow> (counter_2dc, 'a) prog) \<Rightarrow>
    (counter_2dc, 'a) prog" where
  "counter_cae_c j desc_read desc_new k = checked (\<lambda>s. j < length (ccounts s))
     (cae (\<lambda>s. ccounts s ! j) (\<lambda>v s. s\<lparr>ccounts := (ccounts s)[j := v]\<rparr>) desc_read desc_new (\<lambda>ok _. k ok))"

definition counter_value_c :: "bool \<Rightarrow> nat \<Rightarrow> (unit, nat) dword \<Rightarrow> nat" where
  "counter_value_c validatesize w new = (if validatesize then 1 else mul64 (hi new) w)"

fun increment_2dc :: "bool \<Rightarrow> (counter_2dc, unit) dset_c \<Rightarrow> nat \<Rightarrow> nat \<Rightarrow> bool \<Rightarrow> thread_2dc \<Rightarrow>
    (counter_2dc, nat \<times> thread_2dc) prog" where
  "increment_2dc validatesize D N 0 contention l = Stop No_fuel"
| "increment_2dc validatesize D N (Suc n) contention l =
     put_window_c D N contention l (\<lambda>descriptor l.
       let new = DW () (add64 (hi descriptor) 1) in
       counter_cae_c (thread_index l) descriptor new (\<lambda>ok.
         if ok then Ret (counter_value_c validatesize (cwidth D) new, l)
         else increment_2dc validatesize D N n True (count_put_fail l)))"

fun decrement_2dc :: "bool \<Rightarrow> (counter_2dc, unit) dset_c \<Rightarrow> nat \<Rightarrow> nat \<Rightarrow> bool \<Rightarrow> thread_2dc \<Rightarrow>
    (counter_2dc, nat \<times> thread_2dc) prog" where
  "decrement_2dc validatesize D N 0 contention l = Stop No_fuel"
| "decrement_2dc validatesize D N (Suc n) contention l =
     get_window_c D N contention l (\<lambda>descriptor l.
       if hi descriptor > 0 then
         let new = DW () (sub64 (hi descriptor) 1) in
         counter_cae_c (thread_index l) descriptor new (\<lambda>ok.
           if ok then Ret (counter_value_c validatesize (cwidth D) new, l)
           else decrement_2dc validatesize D N n True (count_get_fail l))
       else Ret (0, count_null l))"

fun counter_size_2dc_loop :: "nat \<Rightarrow> nat \<Rightarrow> nat \<Rightarrow> (counter_2dc, nat) prog" where
  "counter_size_2dc_loop 0 i sz = Ret sz"
| "counter_size_2dc_loop (Suc r) i sz = checked (\<lambda>s. i < length (ccounts s))
     (load (\<lambda>s. ccounts s ! i) (\<lambda>d. counter_size_2dc_loop r (i + 1) (add64 sz (hi d))))"

definition counter_size_2dc :: "(counter_2dc, unit) dset_c \<Rightarrow> (counter_2dc, nat) prog" where
  "counter_size_2dc D = counter_size_2dc_loop (cwidth D) 0 0"

section \<open>Specification\<close>

datatype op_2dc = Inc_c | Dec_c

fun counter_2dc_op :: "bool \<Rightarrow> (counter_2dc, unit) dset_c \<Rightarrow> nat \<Rightarrow> nat \<Rightarrow> op_2dc \<Rightarrow> thread_2dc \<Rightarrow>
    (counter_2dc, (nat \<times> nat) \<times> thread_2dc) prog" where
  "counter_2dc_op v D N n Inc_c l = bind (increment_2dc v D N n False l) (\<lambda>(r, l). Ret ((r, thread_index l), l))"
| "counter_2dc_op v D N n Dec_c l = bind (decrement_2dc v D N n False l) (\<lambda>(r, l). Ret ((r, thread_index l), l))"

definition within :: "nat \<Rightarrow> nat list \<Rightarrow> bool" where
  "within d q \<longleftrightarrow> (\<forall>x \<in> set q. \<forall>y \<in> set q. x \<le> y + d)"

text \<open>\<open>solo\<close> adds what one thread running alone keeps up.\<close>

fun spec_2dc :: "bool \<Rightarrow> nat \<Rightarrow> (nat list, op_2dc, nat \<times> nat) spec" where
  "spec_2dc solo d q Inc_c (r, j) =
     (if r = 1 \<and> j < length q \<and> (solo \<longrightarrow> within d (q[j := add64 (q ! j) 1]))
      then Some (q[j := add64 (q ! j) 1]) else None)"
| "spec_2dc solo d q Dec_c (r, j) =
     (if r = 0 then if solo \<longrightarrow> sum_list q = 0 then Some q else None
      else if r = 1 \<and> j < length q \<and> 0 < q ! j \<and> (solo \<longrightarrow> within d (q[j := q ! j - 1]))
      then Some (q[j := q ! j - 1]) else None)"

section \<open>Invariant\<close>

definition window_2dc_ok :: "bool \<Rightarrow> nat \<Rightarrow> nat \<Rightarrow> counter_2dc \<Rightarrow> bool" where
  "window_2dc_ok solo w d s \<longleftrightarrow> 0 < w \<and> w < U16 \<and> 0 < d \<and> length (ccounts s) = w \<and> d \<le> lo (global_Window s) \<and>
     (\<forall>x \<in> set (ccounts s). hi x < U64 \<and> (solo \<longrightarrow> hi x \<le> lo (global_Window s) \<and> lo (global_Window s) \<le> hi x + d))"

definition inv_2dc :: "bool \<Rightarrow> nat \<Rightarrow> nat \<Rightarrow> op_2dc list list \<Rightarrow> counter_2dc \<times> (op_2dc, nat \<times> nat) history \<Rightarrow> bool" where
  "inv_2dc solo w d opss s \<longleftrightarrow> window_2dc_ok solo w d (fst s) \<and>
     replay (spec_2dc solo d) (replicate w 0) (snd s) = Some (map hi (ccounts (fst s))) \<and> hist_ok opss (snd s)"

definition ord_2dc :: "bool \<Rightarrow> nat \<Rightarrow> counter_2dc \<Rightarrow> counter_2dc \<Rightarrow> bool" where
  "ord_2dc solo i s t \<longleftrightarrow> (solo \<longrightarrow> i = 0 \<longrightarrow> t = s)"

definition grd_2dc :: "bool \<Rightarrow> nat \<Rightarrow> counter_2dc \<Rightarrow> counter_2dc \<Rightarrow> bool" where
  "grd_2dc solo i s t \<longleftrightarrow> (solo \<longrightarrow> i = 0 \<or> t = s)"

definition no_wrap_2dc :: "nat \<Rightarrow> counter_2dc \<Rightarrow> bool" where
  "no_wrap_2dc d s \<longleftrightarrow> lo (global_Window s) + 2 * d < U64"

lemma ord_2dc_refl: "ord_2dc solo i s s" "grd_2dc solo i s s"
  by (simp_all add: ord_2dc_def grd_2dc_def)

lemma ord_2dc_trans: "ord_2dc solo i s t \<Longrightarrow> ord_2dc solo i t u \<Longrightarrow> ord_2dc solo i s u"
  by (simp add: ord_2dc_def)

lemma shift_2dc_le: "0 < d \<Longrightarrow> shift_2dc d \<le> d"
  by (auto simp: shift_2dc_def)

lemma window_2dc_nth:
  "window_2dc_ok solo w d s \<Longrightarrow> j < w \<Longrightarrow> hi (ccounts s ! j) < U64 \<and>
     (solo \<longrightarrow> hi (ccounts s ! j) \<le> lo (global_Window s) \<and> lo (global_Window s) \<le> hi (ccounts s ! j) + d)"
  by (auto simp: window_2dc_ok_def)

lemma inv_2dc_dims: "inv_2dc solo w d opss (s, H) \<Longrightarrow>
    length (ccounts s) = w \<and> 0 < w \<and> w < U16 \<and> 0 < d \<and> d \<le> lo (global_Window s)"
  by (simp add: inv_2dc_def window_2dc_ok_def)

lemma inv_2dc_window: "inv_2dc solo w d opss (s, H) \<Longrightarrow> window_2dc_ok solo w d s"
  by (simp add: inv_2dc_def)

lemma inv_2dc_move:
  assumes "inv_2dc solo w d opss (s, H)" and "d \<le> lo W"
    and "\<And>j. solo \<Longrightarrow> j < w \<Longrightarrow> hi (ccounts s ! j) \<le> lo W \<and> lo W \<le> hi (ccounts s ! j) + d"
  shows "inv_2dc solo w d opss (s\<lparr>global_Window := W\<rparr>, H)"
  using assms by (auto simp: inv_2dc_def window_2dc_ok_def in_set_conv_nth)

section \<open>The window contract holds\<close>

interpretation c2dc: window_2dc_client "no_wrap_2dc d" no_fuel "inv_2dc solo w d opss" "ord_2dc solo" "\<lambda>_ _ _. True" "grd_2dc solo"
  opss "set_2dc w d" plain_c solo "\<lambda>_ _ _ _ _. True" for w d opss solo
proof
  fix s H i v
  assume J: "inv_2dc solo w d opss (s, H)" and A: "no_wrap_2dc d s" and i: "solo \<Longrightarrow> i = (0::nat)"
  note dims = inv_2dc_dims [OF J]
  note nth = window_2dc_nth [OF inv_2dc_window [OF J]]
  have sh: "shift_2dc d \<le> d" using shift_2dc_le dims by blast
  { assume top: "\<And>j. solo \<Longrightarrow> j < cwidth (set_2dc w d) \<Longrightarrow> lo (global_Window s) \<le> hi (set_array (set_2dc w d) s ! j)"
    have "inv_2dc solo w d opss (s\<lparr>global_Window := DW (lo (global_Window s) + shift_2dc d) v\<rparr>, H)"
      using dims sh nth top by (intro inv_2dc_move J) fastforce+
    then show "inv_2dc solo w d opss (s\<lparr>global_Window := DW (lo (global_Window s) + cshift (set_2dc w d)) v\<rparr>, H) \<and>
        grd_2dc solo i s (s\<lparr>global_Window := DW (lo (global_Window s) + cshift (set_2dc w d)) v\<rparr>) \<and> True"
      using i by (auto simp: grd_2dc_def) }
  { assume low: "cdepth (set_2dc w d) + cshift (set_2dc w d) \<le> lo (global_Window s)"
      and bot: "\<And>j. solo \<Longrightarrow> j < cwidth (set_2dc w d) \<Longrightarrow> hi (set_array (set_2dc w d) s ! j) + cdepth (set_2dc w d) \<le> lo (global_Window s)"
    have "inv_2dc solo w d opss (s\<lparr>global_Window := DW (lo (global_Window s) - shift_2dc d) v\<rparr>, H)"
    proof (rule inv_2dc_move [OF J])
      show "d \<le> lo (DW (lo (global_Window s) - shift_2dc d) v)" using low by simp
      show "hi (ccounts s ! j) \<le> lo (DW (lo (global_Window s) - shift_2dc d) v) \<and>
          lo (DW (lo (global_Window s) - shift_2dc d) v) \<le> hi (ccounts s ! j) + d" if solo "j < w" for j
        using nth [OF that(2)] bot [OF that(1), of j] that low sh by simp
    qed
    then show "inv_2dc solo w d opss (s\<lparr>global_Window := DW (lo (global_Window s) - cshift (set_2dc w d)) v\<rparr>, H) \<and>
        grd_2dc solo i s (s\<lparr>global_Window := DW (lo (global_Window s) - cshift (set_2dc w d)) v\<rparr>) \<and> True"
      using i by (auto simp: grd_2dc_def) }
next
  fix s H assume J: "inv_2dc solo w d opss (s, H)" and A: "no_wrap_2dc d s"
  show "lo (global_Window s) + cshift (set_2dc w d) < rows plain_c \<and>
      (solo \<longrightarrow> (\<forall>j<cwidth (set_2dc w d). hi (set_array (set_2dc w d) s ! j) + cdepth (set_2dc w d) < U64))"
    using window_2dc_nth [OF inv_2dc_window [OF J]] A shift_2dc_le [of d] inv_2dc_dims [OF J]
    by (fastforce simp: no_wrap_2dc_def)
qed (auto simp: ord_2dc_refl no_fuel_def U16_def ord_2dc_def shift_2dc_le dest: inv_2dc_dims)

section \<open>The operations keep the invariant\<close>

lemma within_map_update:
  assumes "\<And>x. x \<in> set q \<Longrightarrow> x \<le> m \<and> m \<le> x + d" and "y \<le> m" and "m \<le> y + d"
  shows "within d (q[j := y])"
  using assms set_update_subset_insert [of q j y] unfolding within_def
  by (metis (no_types, lifting) insertE order_trans subsetD)

lemma inv_2dc_count:
  assumes J: "inv_2dc solo w d opss (s, H)" and j: "j < w" and x: "x < U64"
    and step: "spec_2dc solo d (map hi (ccounts s)) op (r, j) = Some ((map hi (ccounts s))[j := x])"
    and near: "solo \<Longrightarrow> x \<le> lo (global_Window s) \<and> lo (global_Window s) \<le> x + d"
    and i: "i < length opss" "prefix (map fst (proj i H) @ [op]) (opss ! i)"
  shows "inv_2dc solo w d opss (s\<lparr>ccounts := (ccounts s)[j := DW () x]\<rparr>, H @ [(i, op, (r, j))])"
proof -
  have ok: "window_2dc_ok solo w d (s\<lparr>ccounts := (ccounts s)[j := DW () x]\<rparr>)"
    using J x near by (auto simp: inv_2dc_def window_2dc_ok_def dest!: set_update_subset_insert [THEN subsetD])
  moreover have "hist_ok opss (H @ [(i, op, (r, j))])"
    using J i by (intro hist_ok_entry) (auto simp: inv_2dc_def)
  ultimately show ?thesis using J step by (simp add: inv_2dc_def replay_append map_update)
qed

lemma inv_2dc_Inc:
  assumes J: "inv_2dc solo w d opss (s, H)" and j: "j < w" and i: "i < length opss" "prefix (map fst (proj i H) @ [Inc_c]) (opss ! i)"
    and A: "no_wrap_2dc d s" and near: "solo \<Longrightarrow> hi (ccounts s ! j) < lo (global_Window s)"
  shows "inv_2dc solo w d opss (s\<lparr>ccounts := (ccounts s)[j := DW () (add64 (hi (ccounts s ! j)) 1)]\<rparr>, H @ [(i, Inc_c, (1, j))])"
proof (rule inv_2dc_count [OF J j add64_less _ _ i])
  note nth = window_2dc_nth [OF inv_2dc_window [OF J]]
  have new: "add64 (hi (ccounts s ! j)) 1 = hi (ccounts s ! j) + 1" if solo
    using near [OF that] A by (intro add64_eq) (simp add: no_wrap_2dc_def)
  show n: "add64 (hi (ccounts s ! j)) 1 \<le> lo (global_Window s) \<and> lo (global_Window s) \<le> add64 (hi (ccounts s ! j)) 1 + d" if solo
    using nth [OF j] near [OF that] that unfolding new [OF that] by simp
  have "within d ((map hi (ccounts s))[j := add64 (hi (ccounts s ! j)) 1])" if solo
    by (rule within_map_update [where m = "lo (global_Window s)"])
      (use inv_2dc_window [OF J] n that in \<open>auto simp: window_2dc_ok_def\<close>)
  then show "spec_2dc solo d (map hi (ccounts s)) Inc_c (1, j) = Some ((map hi (ccounts s))[j := add64 (hi (ccounts s ! j)) 1])"
    using inv_2dc_dims [OF J] j by simp
qed

lemma inv_2dc_Dec:
  assumes J: "inv_2dc solo w d opss (s, H)" and j: "j < w" and i: "i < length opss" "prefix (map fst (proj i H) @ [Dec_c]) (opss ! i)"
    and pos: "0 < hi (ccounts s ! j)" and near: "solo \<Longrightarrow> lo (global_Window s) < hi (ccounts s ! j) + d"
  shows "inv_2dc solo w d opss (s\<lparr>ccounts := (ccounts s)[j := DW () (hi (ccounts s ! j) - 1)]\<rparr>, H @ [(i, Dec_c, (1, j))])"
proof (rule inv_2dc_count [OF J j _ _ _ i])
  note nth = window_2dc_nth [OF inv_2dc_window [OF J]]
  show "hi (ccounts s ! j) - 1 < U64" using nth [OF j] by linarith
  show n: "hi (ccounts s ! j) - 1 \<le> lo (global_Window s) \<and> lo (global_Window s) \<le> hi (ccounts s ! j) - 1 + d" if solo
    using nth [OF j] near [OF that] that pos by linarith
  have "within d ((map hi (ccounts s))[j := hi (ccounts s ! j) - 1])" if solo
    by (rule within_map_update [where m = "lo (global_Window s)"])
      (use inv_2dc_window [OF J] n that in \<open>auto simp: window_2dc_ok_def\<close>)
  then show "spec_2dc solo d (map hi (ccounts s)) Dec_c (1, j) = Some ((map hi (ccounts s))[j := hi (ccounts s ! j) - 1])"
    using inv_2dc_dims [OF J] j pos by simp
qed

lemma inv_2dc_Dec_zero:
  assumes J: "inv_2dc solo w d opss (s, H)" and i: "i < length opss" "prefix (map fst (proj i H) @ [Dec_c]) (opss ! i)"
    and zero: "solo \<Longrightarrow> \<forall>j<w. hi (ccounts s ! j) = 0"
  shows "inv_2dc solo w d opss (s, H @ [(i, Dec_c, (0, j))])"
proof -
  have "sum_list (map hi (ccounts s)) = 0" if solo
    using zero [OF that] inv_2dc_dims [OF J] by (auto simp: in_set_conv_nth)
  moreover have "hist_ok opss (H @ [(i, Dec_c, (0, j))])"
    using J i by (intro hist_ok_entry) (auto simp: inv_2dc_def)
  ultimately show ?thesis using J by (auto simp: inv_2dc_def replay_append)
qed


abbreviation safe_2dc where
  "safe_2dc solo w d opss i \<equiv> safe (no_wrap_2dc d) no_fuel (lin_rely (inv_2dc solo w d opss) (ord_2dc solo) i)
     (lin_guar (inv_2dc solo w d opss) (grd_2dc solo) opss i)"

text \<open>What a thread knows between two operations.\<close>

definition local_2dc :: "bool \<Rightarrow> nat \<Rightarrow> nat \<Rightarrow> nat \<Rightarrow> thread_2dc \<Rightarrow> counter_2dc \<Rightarrow> bool" where
  "local_2dc solo w d i l s \<longleftrightarrow> thread_index l < w \<and> (solo \<longrightarrow> i = 0 \<longrightarrow> c2dc.knows_window w d solo (thread_Window l) s)"

abbreviation done_2dc where
  "done_2dc solo w d opss i P op \<equiv> \<lambda>(r, l) (s', H'). inv_2dc solo w d opss (s', H') \<and> local_2dc solo w d i l s' \<and>
     proj i H' = P @ [(op, (r, thread_index l))]"

lemma local_2dc_simps [simp]:
  "local_2dc solo w d i (count_put_fail l) s = local_2dc solo w d i l s"
  "local_2dc solo w d i (count_get_fail l) s = local_2dc solo w d i l s"
  "local_2dc solo w d i (count_null l) s = local_2dc solo w d i l s"
  by (simp_all add: local_2dc_def)

lemma local_2dc_stable: "local_2dc solo w d i l s \<Longrightarrow> ord_2dc solo i s t \<Longrightarrow> local_2dc solo w d i l t"
  by (auto simp: local_2dc_def ord_2dc_def)

lemma knows_2dc_counts:
  "W = global_Window s \<Longrightarrow> c2dc.knows_window w d solo W (s\<lparr>ccounts := xs\<rparr>)"
  by (simp add: c2dc.knows_window_def)

lemma increment_2dc_safe:
  assumes "inv_2dc solo w d opss (s, H)" and "proj i H = P" and "prefix (map fst P @ [Inc_c]) (opss ! i)"
    and "i < length opss" and "local_2dc solo w d i l s" and "solo \<Longrightarrow> i = 0"
  shows "safe_2dc solo w d opss i (done_2dc solo w d opss i P Inc_c) (increment_2dc True (set_2dc w d) N n c l) (s, H)"
  using assms
proof (induction n arbitrary: s H l c)
  case 0
  then show ?case by (simp add: no_fuel_def)
next
  case (Suc n)
  show ?case
    unfolding increment_2dc.simps window_c_eq Let_def counter_cae_c_def
  proof (rule c2dc.put_window_g_safe [OF Suc.prems(6) _ Suc.prems(1) _ refl])
    fix t H' and e :: "(unit, nat) dword" and l' :: thread_2dc
    assume p: "inv_2dc solo w d opss (t, H')" "hist_rely i H H'" "thread_index l' < cwidth (set_2dc w d)"
      "solo \<Longrightarrow> e = set_array (set_2dc w d) t ! thread_index l' \<and> thread_Window l' = global_Window t \<and> hi e < lo (global_Window t)"
    have j: "thread_index l' < w" and P: "proj i H' = P" using p(3) hist_rely_proj [OF p(2)] Suc.prems(2) by auto
    show "safe_2dc solo w d opss i (done_2dc solo w d opss i P Inc_c)
      (checked (\<lambda>s. thread_index l' < length (ccounts s))
        (cae (\<lambda>s. ccounts s ! thread_index l') (\<lambda>v s. s\<lparr>ccounts := (ccounts s)[thread_index l' := v]\<rparr>) e (DW () (add64 (hi e) 1))
          (\<lambda>ok _. if ok then Ret (counter_value_c True (cwidth (set_2dc w d)) (DW () (add64 (hi e) 1)), l')
            else increment_2dc True (set_2dc w d) N n True (count_put_fail l')))) (t, H')"
      apply (rule lin_checked, rule p, (use j in \<open>auto dest: inv_2dc_dims\<close>)[1])
      apply (rule lin_cae_commit [where op = Inc_c and r = "(1, thread_index l')"
            and a = "(counter_value_c True w (DW () (add64 (hi e) 1)), l')"])
      subgoal by (rule p)
      subgoal by (rule ord_2dc_refl)
      subgoal by simp
      subgoal by (rule Suc.prems)
      subgoal using Suc.prems P by simp
      subgoal premises q for u K
      proof -
        have "inv_2dc solo w d opss (u\<lparr>ccounts := (ccounts u)[thread_index l' := DW () (add64 (hi (ccounts u ! thread_index l')) 1)]\<rparr>,
            K @ [(i, Inc_c, (1, thread_index l'))])"
          by (rule inv_2dc_Inc [OF q(1) j Suc.prems(4) _ q(5)])
            (use q p(4) P Suc.prems(3,6) in \<open>auto simp: ord_2dc_def\<close>)
        then show ?thesis using q(6) Suc.prems(6) by (auto simp: grd_2dc_def)
      qed
      subgoal premises q for u v K
        using q j P p(4) Suc.prems(6) by (auto simp: counter_value_c_def local_2dc_def ord_2dc_def intro: knows_2dc_counts)
      subgoal premises q for u K
        unfolding if_False
      proof (rule Suc.IH [OF q(1)])
        show "local_2dc solo w d i (count_put_fail l') u"
          using q(2) p(4) j Suc.prems(6) by (auto simp: local_2dc_def ord_2dc_def c2dc.knows_window_def)
      qed (use q P Suc.prems in auto)
      done
  qed (use Suc.prems(5,6) in \<open>auto simp: local_2dc_def c2dc.knows_window_def\<close>)
qed

lemma decrement_2dc_safe:
  assumes "inv_2dc solo w d opss (s, H)" and "proj i H = P" and "prefix (map fst P @ [Dec_c]) (opss ! i)"
    and "i < length opss" and "local_2dc solo w d i l s" and "solo \<Longrightarrow> i = 0"
  shows "safe_2dc solo w d opss i (done_2dc solo w d opss i P Dec_c) (decrement_2dc True (set_2dc w d) N n c l) (s, H)"
  using assms
proof (induction n arbitrary: s H l c)
  case 0
  then show ?case by (simp add: no_fuel_def)
next
  case (Suc n)
  show ?case
    unfolding decrement_2dc.simps window_c_eq Let_def counter_cae_c_def
  proof (rule c2dc.get_window_g_safe [OF Suc.prems(6) _ Suc.prems(1) _ refl])
    fix t H' and e :: "(unit, nat) dword" and l' :: thread_2dc
    assume p: "inv_2dc solo w d opss (t, H')" "hist_rely i H H'" "thread_index l' < cwidth (set_2dc w d)"
      "c2dc.knows_window w d solo (thread_Window l') t"
      "solo \<Longrightarrow> e = set_array (set_2dc w d) t ! thread_index l' \<and>
        ((\<forall>j<cwidth (set_2dc w d). hi (set_array (set_2dc w d) t ! j) = 0) \<or> lo (global_Window t) < hi e + cdepth (set_2dc w d))"
    have j: "thread_index l' < w" and P: "proj i H' = P" using p(3) hist_rely_proj [OF p(2)] Suc.prems(2) by auto
    have some: "safe_2dc solo w d opss i (done_2dc solo w d opss i P Dec_c)
      (checked (\<lambda>s. thread_index l' < length (ccounts s))
        (cae (\<lambda>s. ccounts s ! thread_index l') (\<lambda>v s. s\<lparr>ccounts := (ccounts s)[thread_index l' := v]\<rparr>) e (DW () (sub64 (hi e) 1))
          (\<lambda>ok _. if ok then Ret (counter_value_c True (cwidth (set_2dc w d)) (DW () (sub64 (hi e) 1)), l')
            else decrement_2dc True (set_2dc w d) N n True (count_get_fail l')))) (t, H')" if pos: "0 < hi e"
      apply (rule lin_checked, rule p, (use j in \<open>auto dest: inv_2dc_dims\<close>)[1])
      apply (rule lin_cae_commit [where op = Dec_c and r = "(1, thread_index l')"
            and a = "(counter_value_c True w (DW () (sub64 (hi e) 1)), l')"])
      subgoal by (rule p)
      subgoal by (rule ord_2dc_refl)
      subgoal by simp
      subgoal by (rule Suc.prems)
      subgoal using Suc.prems P by simp
      subgoal premises q for u K
      proof -
        have e: "sub64 (hi e) 1 = hi (ccounts u ! thread_index l') - 1"
          using q(6) pos window_2dc_nth [OF inv_2dc_window [OF q(1)] j] by (simp add: sub64_eq)
        have "inv_2dc solo w d opss (u\<lparr>ccounts := (ccounts u)[thread_index l' := DW () (hi (ccounts u ! thread_index l') - 1)]\<rparr>,
            K @ [(i, Dec_c, (1, thread_index l'))])"
        proof (rule inv_2dc_Dec [OF q(1) j Suc.prems(4)])
          show "lo (global_Window u) < hi (ccounts u ! thread_index l') + d" if solo
            using p(5) [OF that] q(2,6) Suc.prems(6) that pos j by (auto simp: ord_2dc_def)
        qed (use q P Suc.prems(3) pos in auto)
        then show ?thesis using q(6) Suc.prems(6) unfolding e by (auto simp: grd_2dc_def)
      qed
      subgoal premises q for u v K
      proof -
        have "c2dc.knows_window w d solo (thread_Window l') v" if "solo" "i = 0"
        proof -
          have "u = t" "v = u\<lparr>ccounts := (ccounts u)[thread_index l' := DW () (sub64 (hi e) 1)]\<rparr>"
            using q(2,3) that by (simp_all add: ord_2dc_def)
          moreover have "\<not> (\<forall>j<w. hi (ccounts t ! j) = 0)" using p(5) [OF that(1)] j pos by auto
          ultimately show ?thesis using p(4) by (auto simp: c2dc.knows_window_def)
        qed
        then show ?thesis using q j P by (auto simp: counter_value_c_def local_2dc_def)
      qed
      subgoal premises q for u K
        unfolding if_False
      proof (rule Suc.IH [OF q(1)])
        show "local_2dc solo w d i (count_get_fail l') u"
          using q(2) p(4) j Suc.prems(6) by (auto simp: local_2dc_def ord_2dc_def)
      qed (use q P Suc.prems in auto)
      done
    have none: "\<exists>X. hist_step opss i H' (H' @ X) \<and> inv_2dc solo w d opss (t, H' @ X) \<and> grd_2dc solo i t t \<and>
        safe_2dc solo w d opss i (done_2dc solo w d opss i P Dec_c) (Ret (0, count_null l')) (t, H' @ X)" if zero: "hi e = 0"
    proof (intro exI conjI)
      let ?X = "[(i, Dec_c, (0, thread_index l'))]"
      have all: "\<forall>j<w. hi (ccounts t ! j) = 0" if solo
        using p(5) [OF that] zero inv_2dc_dims [OF p(1)] by simp
      show J: "inv_2dc solo w d opss (t, H' @ ?X)"
        by (rule inv_2dc_Dec_zero [OF p(1) Suc.prems(4) _ all]) (use P Suc.prems(3) in simp)
      show "hist_step opss i H' (H' @ ?X)" using Suc.prems(3,4) P by blast
      show "grd_2dc solo i t t" by (rule ord_2dc_refl)
      show "safe_2dc solo w d opss i (done_2dc solo w d opss i P Dec_c) (Ret (0, count_null l')) (t, H' @ ?X)"
        by (rule lin_commit_ret [where H = H'], rule J)
          (use j P p(4) in \<open>auto simp: local_2dc_def ord_2dc_def\<close>)
    qed
    have now: "safe_2dc solo w d opss i Q q (t, H') \<Longrightarrow> \<exists>X. hist_step opss i H' (H' @ X) \<and> inv_2dc solo w d opss (t, H' @ X) \<and>
        grd_2dc solo i t t \<and> safe_2dc solo w d opss i Q q (t, H' @ X)" for Q q
      using p(1) ord_2dc_refl by (intro exI [of _ "[]"]) simp
    show "\<exists>X. hist_step opss i H' (H' @ X) \<and> inv_2dc solo w d opss (t, H' @ X) \<and> grd_2dc solo i t t \<and>
        safe_2dc solo w d opss i (done_2dc solo w d opss i P Dec_c)
      (if 0 < hi e then checked (\<lambda>s. thread_index l' < length (ccounts s))
        (cae (\<lambda>s. ccounts s ! thread_index l') (\<lambda>v s. s\<lparr>ccounts := (ccounts s)[thread_index l' := v]\<rparr>) e (DW () (sub64 (hi e) 1))
          (\<lambda>ok _. if ok then Ret (counter_value_c True (cwidth (set_2dc w d)) (DW () (sub64 (hi e) 1)), l')
            else decrement_2dc True (set_2dc w d) N n True (count_get_fail l')))
       else Ret (0, count_null l')) (t, H' @ X)"
      using now [OF some] none by (cases "0 < hi e") simp_all
  qed (use Suc.prems(5,6) in \<open>auto simp: local_2dc_def c2dc.knows_window_def\<close>)
qed

interpretation lin_2dc: lin_object_hist "no_wrap_2dc d" no_fuel "inv_2dc solo w d opss" "ord_2dc solo" "grd_2dc solo"
  "\<lambda>i l rs s. local_2dc solo w d i l s \<and> (solo \<longrightarrow> i = 0)" "spec_2dc solo d" "replicate w 0"
  "\<lambda>s q. q = map hi (ccounts s) \<and> window_2dc_ok solo w d s"
  "counter_2dc_op True (set_2dc w d) N n" opss for solo w d N n opss
proof unfold_locales
  show "op_ok_hist (no_wrap_2dc d) no_fuel (inv_2dc solo w d opss) (ord_2dc solo) (grd_2dc solo)
      (\<lambda>i l rs s. local_2dc solo w d i l s \<and> (solo \<longrightarrow> i = 0)) opss i op (counter_2dc_op True (set_2dc w d) N n)"
    if i: "i < length opss" for i op
    unfolding op_ok_hist_def
  proof (intro allI impI)
    fix l s H assume J: "inv_2dc solo w d opss (s, H)" "local_2dc solo w d i l s \<and> (solo \<longrightarrow> i = 0)"
      "prefix (map fst (proj i H) @ [op]) (opss ! i)"
    show "safe_2dc solo w d opss i (\<lambda>(r, l) (s', H'). inv_2dc solo w d opss (s', H') \<and>
        (local_2dc solo w d i l s' \<and> (solo \<longrightarrow> i = 0)) \<and> proj i H' = proj i H @ [(op, r)])
        (counter_2dc_op True (set_2dc w d) N n op l) (s, H)"
      using J i
      by (cases op)
        (auto intro!: safe_bind [OF safe_weaken [OF increment_2dc_safe]] safe_bind [OF safe_weaken [OF decrement_2dc_safe]]
          simp: lin_rely_def ord_2dc_refl dest!: hist_rely_proj intro: local_2dc_stable)
  qed
qed (auto simp: inv_2dc_def ord_2dc_refl ord_2dc_def grd_2dc_def local_2dc_def)

section \<open>The results\<close>

definition new_thread_2dc :: "seeds \<Rightarrow> thread_2dc" where
  "new_thread_2dc sd = \<lparr>seeds = sd, thread_index = 0, my_put_cas_fail_count = 0, my_get_cas_fail_count = 0,
     my_null_count = 0, my_hop_count = 0, my_slide_count = 0, thread_Window = DW 0 0, my_slide_fail_count = 0\<rparr>"

lemma inv_2dc_init:
  assumes "0 < w" and "w < U16" and "0 < d"
  shows "inv_2dc solo w d opss (init_counter_2dc w d, [])"
  using assms by (auto simp: inv_2dc_def window_2dc_ok_def init_counter_2dc_def U64_def)

lemma local_2dc_init: "0 < w \<Longrightarrow> local_2dc solo w d i (new_thread_2dc sd) (init_counter_2dc w d)"
  by (auto simp: local_2dc_def new_thread_2dc_def c2dc.knows_window_def init_counter_2dc_def)

definition threads_2dc :: "(op_2dc list \<times> seeds) list \<Rightarrow> (op_2dc list \<times> thread_2dc) list" where
  "threads_2dc ths = map (\<lambda>(ops, sd). (ops, new_thread_2dc sd)) ths"

lemma counter_2dc_threads:
  assumes "0 < w" and "w < U16" and "0 < d" and "solo \<Longrightarrow> length ths \<le> 1"
  shows "linearizable (no_wrap_2dc d) no_fuel (spec_2dc solo d) (replicate w 0)
     (\<lambda>s q. q = map hi (ccounts s) \<and> window_2dc_ok solo w d s) (map fst ths)
     (init_counter_2dc w d, threads (counter_2dc_op True (set_2dc w d) N n) (threads_2dc ths))"
proof -
  have m: "map fst ths = map fst (threads_2dc ths)" by (simp add: threads_2dc_def case_prod_unfold)
  show ?thesis
    by (rule lin_2dc.linearizable_threads [OF inv_2dc_init m])
      (use assms local_2dc_init in \<open>auto simp: threads_2dc_def case_prod_unfold\<close>)
qed

text \<open>
  C18: under any interleaving of any number of threads the 2Dc counter is linearizable to an array
  of counts: an increment adds one to a count, a decrement that reports success takes one from a
  count that is not zero. The upper edge of the window never falls below \<open>depth\<close>, no index is
  out of bounds. It is assumed that the upper edge stays below \<open>2 ^ 64 - 2 depth\<close>.
\<close>

theorem counter_2dc_linearizable:
  assumes "0 < w" and "w < U16" and "0 < d"
  shows "linearizable (no_wrap_2dc d) no_fuel (spec_2dc False d) (replicate w 0)
     (\<lambda>s q. q = map hi (ccounts s) \<and> window_2dc_ok False w d s) (map fst ths)
     (init_counter_2dc w d, threads (counter_2dc_op True (set_2dc w d) N n) (threads_2dc ths))"
  by (rule counter_2dc_threads) (use assms in simp_all)

lemma counter_2dc_linearizable_witness:
  "linearizable (no_wrap_2dc 4) no_fuel (spec_2dc False 4) (replicate 2 0)
     (\<lambda>s q. q = map hi (ccounts s) \<and> window_2dc_ok False 2 4 s) [[Inc_c], [Dec_c, Inc_c]]
     (init_counter_2dc 2 4, threads (counter_2dc_op True (set_2dc 2 4) 20 3)
       (threads_2dc [([Inc_c], (1, 2, 3)), ([Dec_c, Inc_c], (4, 5, 6))]))"
  using counter_2dc_linearizable [of 2 4 "[([Inc_c], (1, 2, 3)), ([Dec_c, Inc_c], (4, 5, 6))]" 20 3]
  by (simp add: U16_def)

text \<open>
  C19: a single thread keeps the 2Dc counter inside its window: after every operation any two
  counts differ by at most \<open>depth\<close>, all counts lie between \<open>max - depth\<close> and \<open>max\<close>, and a
  decrement reports empty only if every count is zero. So a counter created from a relaxation
  bound, in modes 1 to 3, estimates the true count (a count times the width) to within half the
  bound, in every state the run reaches.
\<close>

theorem counter_2dc_solo:
  assumes "create_counter_2dc alloc_ok num_threads w0 d0 m k = Inr (D, k', s0)" and "m = 1 \<or> m = 2 \<or> m = 3"
    and "2 * (num_threads * w0) < U64" and "2 * w0 < U64" and "2 * d0 < U64" and "k + 1 < U64"
    and "cwidth D < U16" and "0 < cdepth D"
    and "reach (no_wrap_2dc (cdepth D)) (s0, threads (counter_2dc_op True D N n) (threads_2dc [(ops, sd)])) (t, qs)"
    and "j < cwidth D"
  shows "2 * (cwidth D * hi (ccounts t ! j)) \<le> 2 * sum_list (map hi (ccounts t)) + k \<and>
    2 * sum_list (map hi (ccounts t)) \<le> 2 * (cwidth D * hi (ccounts t ! j)) + k \<and>
    linearizable (no_wrap_2dc (cdepth D)) no_fuel (spec_2dc True (cdepth D)) (replicate (cwidth D) 0)
      (\<lambda>s q. q = map hi (ccounts s) \<and> window_2dc_ok True (cwidth D) (cdepth D) s) [ops]
      (s0, threads (counter_2dc_op True D N n) (threads_2dc [(ops, sd)]))"
proof -
  obtain w d where D: "dimensions U64 2 num_threads w0 d0 m k = Inr (w, d, k')" "D = set_2dc w d" "s0 = init_counter_2dc w d"
    using assms(1) by (auto simp: create_counter_2dc_def split: sum.splits if_splits)
  have dims: "2 * d * (w - 1) \<le> k" "1 \<le> w"
    using dimensions_bound_cases [OF D(1) assms(2)] assms(3-6) by (auto simp: U64_def)
  have j: "j < w" using assms(10) D(2) by simp
  have lin: "linearizable (no_wrap_2dc d) no_fuel (spec_2dc True d) (replicate w 0)
      (\<lambda>s q. q = map hi (ccounts s) \<and> window_2dc_ok True w d s) [ops]
      (s0, threads (counter_2dc_op True D N n) (threads_2dc [(ops, sd)]))"
    using counter_2dc_threads [of w d True "[(ops, sd)]" N n] dims(2) assms(7,8) D(2,3) by simp
  then obtain H where "linearized no_fuel (spec_2dc True d) (replicate w 0)
      (\<lambda>s q. q = map hi (ccounts s) \<and> window_2dc_ok True w d s) [ops] H (t, qs)"
    using linearizable_reach assms(9) D(2) by fastforce
  then have ok: "window_2dc_ok True w d t" unfolding linearized_def fst_conv by blast
  have len: "length (ccounts t) = w" using ok by (simp add: window_2dc_ok_def)
  have "hi (ccounts t ! j) \<le> y + d \<and> y \<le> hi (ccounts t ! j) + d" if y: "y \<in> hi ` set (ccounts t)" for y
    using ok y window_2dc_nth [OF ok j] by (auto simp: window_2dc_ok_def)
  then have "w * hi (ccounts t ! j) \<le> sum_list (map hi (ccounts t)) + (w - 1) * d"
    "sum_list (map hi (ccounts t)) \<le> w * hi (ccounts t ! j) + (w - 1) * d"
    using sum_list_deviation_nth [of j "map hi (ccounts t)" d] j len by simp_all
  moreover have "2 * ((w - 1) * d) \<le> k" using dims(1) by (simp add: mult_ac)
  ultimately show ?thesis using D(2) lin by simp
qed

lemma counter_2dc_solo_witness:
  "\<exists>D k' s0. create_counter_2dc True 2 3 0 1 10 = Inr (D, k', s0) \<and> cdepth D = 2 \<and>
     2 * (cwidth D * hi (ccounts s0 ! 1)) \<le> 2 * sum_list (map hi (ccounts s0)) + 10"
proof -
  have c: "create_counter_2dc True 2 3 0 1 10 = Inr (set_2dc 3 2, 10, init_counter_2dc 3 2)"
    by (simp add: create_counter_2dc_def dimensions_def fixed_width_def mul64_def U64_def)
  have "2 * (cwidth (set_2dc 3 2) * hi (ccounts (init_counter_2dc 3 2) ! 1))
      \<le> 2 * sum_list (map hi (ccounts (init_counter_2dc 3 2))) + 10"
    using counter_2dc_solo [OF c, of 5 5 "[Inc_c]" "(1, 2, 3)" "init_counter_2dc 3 2"
        "threads (counter_2dc_op True (set_2dc 3 2) 5 5) (threads_2dc [([Inc_c], (1, 2, 3))])" 1]
    by (simp add: U64_def U16_def reach.start)
  then show ?thesis using c by (simp add: exI [of _ "set_2dc 3 2"])
qed

end
