(* ===== verification/Stack_2Dc.thy ===== *)
theory Stack_2Dc
  imports Counter_2Dc Stack_Array
begin

text \<open>
  The 2Dc stacks, \<open>src/2Dc-stack/2Dc-stack.c\<close> and \<open>src/2Dc-stack_optimized/2Dc-stack_optimized.c\<close>: an
  array of stacks, each with a descriptor of its top node and its size, inside the window of
  \<open>2Dc-window.c\<close> or \<open>2Dc-window_optimized.c\<close>. A push or pop exchanges the whole descriptor of the
  sub-stack the window gave it. The size goes up and down, so it does not exclude the ABA problem
  by itself; that no address is handed out twice does (see the theory of arrays of stacks).

  Shown, for both builds: under any interleaving the structure is linearizable to an array of
  stacks, follows no null or dangling node, and the optimised build never fails its assertion;
  when one thread runs, the sizes stay inside the window and a pop reports empty only for an
  empty sub-stack.
\<close>

section \<open>State\<close>

record stack2c_node =
  cn_key :: int
  cn_val :: int
  cn_next :: "addr option"

record stack_2dc = window_2dc +
  cdescs :: "(addr option, nat) dword list"
  cnodes :: "addr \<Rightarrow> stack2c_node option"

record thread_2ds = thread_2dc +
  cthread_id :: nat
  calloc_next :: nat

definition set_2ds :: "nat \<Rightarrow> nat \<Rightarrow> (stack_2dc, addr option) dset_c" where
  "set_2ds w d = \<lparr>cwidth = w, cdepth = d, cshift = shift_2dc d, crandom_hops = 2, two_words = True, set_array = cdescs\<rparr>"

definition set_opt :: "nat \<Rightarrow> nat \<Rightarrow> (stack_2dc, addr option) dset_c" where
  "set_opt w d = \<lparr>cwidth = w, cdepth = d, cshift = (d + 1) div 2, crandom_hops = 2, two_words = True, set_array = cdescs\<rparr>"

definition init_stack_2dc :: "nat \<Rightarrow> nat \<Rightarrow> stack_2dc" where
  "init_stack_2dc w d = initialize_global_window_c d
     \<lparr>global_Window = DW 0 0, cdescs = replicate w (DW None 0), cnodes = \<lambda>_. None\<rparr>"

definition create_stack_2dc :: "bool \<Rightarrow> nat \<Rightarrow> nat \<Rightarrow> nat \<Rightarrow> nat \<Rightarrow> nat \<Rightarrow>
    failure + ((stack_2dc, addr option) dset_c \<times> nat \<times> stack_2dc)" where
  "create_stack_2dc alloc_ok num_threads w d k_mode k = (case dimensions U64 2 num_threads w d k_mode k of
     Inl e \<Rightarrow> Inl e
   | Inr (w, d, k) \<Rightarrow> if \<not> alloc_ok then Inl Exit_program else Inr (set_2ds w d, k, init_stack_2dc w d))"

text \<open>
  The optimised build computes with 16-bit widths and depths. The array has \<open>max_width\<close> entries, of
  which the first \<open>width\<close> are set and used.
\<close>

definition fixed_width_opt :: "nat \<Rightarrow> nat \<Rightarrow> dims" where
  "fixed_width_opt w k =
     (if w < 2 then (1, k mod U16, 0)
      else let d = (k div (2 * (w - 1))) mod U16 in
        if d < 1 then ((k div 2 + 1) mod U16, 1, k) else (w, d, k))"

definition dimensions_opt :: "nat \<Rightarrow> nat \<Rightarrow> nat \<Rightarrow> nat \<Rightarrow> nat \<Rightarrow> failure + dims" where
  "dimensions_opt n w d k_mode k =
     (if k_mode = 3 then Inr (fixed_width_opt (mul64 n w mod U16) k)
      else if k_mode = 2 then
        (if d = 0 then Inl Div_by_zero
         else let w = add64 (k div (2 * d)) 1 mod U16 in
           Inr (if w < 1 then (1, k mod U16, 0) else (w, d, k)))
      else if k_mode = 1 then Inr (fixed_width_opt w k)
      else if k_mode = 0 then Inr (w, d, sub64 (2 * d * w) (2 * d))
      else Inr (w, d, k))"

definition init_stack_opt :: "nat \<Rightarrow> nat \<Rightarrow> stack_2dc" where
  "init_stack_opt w d = initialize_global_window_o d
     \<lparr>global_Window = DW 0 0, cdescs = replicate w (DW None 0), cnodes = \<lambda>_. None\<rparr>"

definition create_stack_opt :: "bool \<Rightarrow> nat \<Rightarrow> nat \<Rightarrow> nat \<Rightarrow> nat \<Rightarrow> nat \<Rightarrow> nat \<Rightarrow>
    failure + ((stack_2dc, addr option) dset_c \<times> nat \<times> nat \<times> stack_2dc)" where
  "create_stack_opt alloc_ok num_threads w d max_width k_mode k = (case dimensions_opt num_threads w d k_mode k of
     Inl e \<Rightarrow> Inl e
   | Inr (w, d, k) \<Rightarrow> if \<not> alloc_ok then Inl Exit_program
       else Inr (set_opt w d, if max_width < w then w else max_width, k, init_stack_opt w d))"

section \<open>Operations\<close>

definition create_node_2dc :: "int \<Rightarrow> int \<Rightarrow> addr option \<Rightarrow> thread_2ds \<Rightarrow>
    (addr \<Rightarrow> thread_2ds \<Rightarrow> (stack_2dc, 'a) prog) \<Rightarrow> (stack_2dc, 'a) prog" where
  "create_node_2dc key v p l k = (let a = Addr (cthread_id l) (calloc_next l) in
     store (\<lambda>s. s\<lparr>cnodes := (cnodes s)(a \<mapsto> \<lparr>cn_key = key, cn_val = v, cn_next = p\<rparr>)\<rparr>)
       (k a (l\<lparr>calloc_next := calloc_next l + 1\<rparr>)))"

definition load_cnode :: "(stack2c_node \<Rightarrow> 'x) \<Rightarrow> addr \<Rightarrow> ('x \<Rightarrow> (stack_2dc, 'a) prog) \<Rightarrow> (stack_2dc, 'a) prog" where
  "load_cnode f a k = checked (\<lambda>s. cnodes s a \<noteq> None) (load (\<lambda>s. f (the (cnodes s a))) k)"

definition store_cnode_next :: "addr \<Rightarrow> addr option \<Rightarrow> (stack_2dc, 'a) prog \<Rightarrow> (stack_2dc, 'a) prog" where
  "store_cnode_next a p k = checked (\<lambda>s. cnodes s a \<noteq> None)
     (store (\<lambda>s. s\<lparr>cnodes := (cnodes s)(a \<mapsto> (the (cnodes s a))\<lparr>cn_next := p\<rparr>)\<rparr>) k)"

definition stack_cae_2dc :: "nat \<Rightarrow> (addr option, nat) dword \<Rightarrow> (addr option, nat) dword \<Rightarrow>
    (bool \<Rightarrow> (stack_2dc, 'a) prog) \<Rightarrow> (stack_2dc, 'a) prog" where
  "stack_cae_2dc j read new k = checked (\<lambda>s. j < length (cdescs s))
     (cae (\<lambda>s. cdescs s ! j) (\<lambda>v s. s\<lparr>cdescs := (cdescs s)[j := v]\<rparr>) read new (\<lambda>ok _. k ok))"

fun push_2dc_loop :: "(stack_2dc, addr option) dset_c \<Rightarrow> nat \<Rightarrow> nat \<Rightarrow> addr \<Rightarrow> bool \<Rightarrow> thread_2ds \<Rightarrow>
    (stack_2dc, int \<times> thread_2ds) prog" where
  "push_2dc_loop D N 0 new contention l = Stop No_fuel"
| "push_2dc_loop D N (Suc n) new contention l = put_window_c D N contention l (\<lambda>descriptor l.
     store_cnode_next new (lo descriptor)
     (stack_cae_2dc (thread_index l) descriptor (DW (Some new) (add64 (hi descriptor) 1)) (\<lambda>ok.
       if ok then Ret (1, l) else push_2dc_loop D N n new True (count_put_fail l))))"

definition push_2dc :: "(stack_2dc, addr option) dset_c \<Rightarrow> nat \<Rightarrow> nat \<Rightarrow> int \<Rightarrow> int \<Rightarrow> thread_2ds \<Rightarrow>
    (stack_2dc, int \<times> thread_2ds) prog" where
  "push_2dc D N n key v l = create_node_2dc key v None l (\<lambda>new l. push_2dc_loop D N n new False l)"

fun pop_2dc :: "(stack_2dc, addr option) dset_c \<Rightarrow> nat \<Rightarrow> nat \<Rightarrow> bool \<Rightarrow> thread_2ds \<Rightarrow>
    (stack_2dc, int \<times> thread_2ds) prog" where
  "pop_2dc D N 0 contention l = Stop No_fuel"
| "pop_2dc D N (Suc n) contention l = get_window_c D N contention l (\<lambda>descriptor l. case lo descriptor of
     Some a \<Rightarrow> load_cnode cn_next a (\<lambda>nx.
       stack_cae_2dc (thread_index l) descriptor (DW nx (sub64 (hi descriptor) 1)) (\<lambda>ok.
         if ok then load_cnode cn_val a (\<lambda>v. Ret (v, l)) else pop_2dc D N n True (count_get_fail l)))
   | None \<Rightarrow> Ret (0, count_null l))"

text \<open>The optimised build.\<close>

definition create_node_opt :: "int \<Rightarrow> int \<Rightarrow> addr option \<Rightarrow> thread_2ds \<Rightarrow>
    (addr \<Rightarrow> thread_2ds \<Rightarrow> (stack_2dc, 'a) prog) \<Rightarrow> (stack_2dc, 'a) prog" where
  "create_node_opt key v p l k = create_node_2dc key v p l k"

fun push_opt_loop :: "(stack_2dc, addr option) dset_c \<Rightarrow> nat \<Rightarrow> nat \<Rightarrow> addr \<Rightarrow> bool \<Rightarrow> thread_2ds \<Rightarrow>
    (stack_2dc, int \<times> thread_2ds) prog" where
  "push_opt_loop D N 0 new contention l = Stop No_fuel"
| "push_opt_loop D N (Suc n) new contention l = put_window_o D N contention l (\<lambda>descriptor l.
     store_cnode_next new (lo descriptor)
     (stack_cae_2dc (thread_index l) descriptor (DW (Some new) (add64 (hi descriptor) 1)) (\<lambda>ok.
       if ok then Ret (1, l) else push_opt_loop D N n new True (count_put_fail l))))"

definition push_opt :: "(stack_2dc, addr option) dset_c \<Rightarrow> nat \<Rightarrow> nat \<Rightarrow> int \<Rightarrow> int \<Rightarrow> thread_2ds \<Rightarrow>
    (stack_2dc, int \<times> thread_2ds) prog" where
  "push_opt D N n key v l = create_node_opt key v None l (\<lambda>new l. push_opt_loop D N n new False l)"

fun pop_opt :: "(stack_2dc, addr option) dset_c \<Rightarrow> nat \<Rightarrow> nat \<Rightarrow> bool \<Rightarrow> thread_2ds \<Rightarrow>
    (stack_2dc, int \<times> thread_2ds) prog" where
  "pop_opt D N 0 contention l = Stop No_fuel"
| "pop_opt D N (Suc n) contention l = get_window_o D N contention l (\<lambda>descriptor l. case lo descriptor of
     Some a \<Rightarrow> load_cnode cn_next a (\<lambda>nx.
       stack_cae_2dc (thread_index l) descriptor (DW nx (sub64 (hi descriptor) 1)) (\<lambda>ok.
         if ok then load_cnode cn_val a (\<lambda>v. Ret (v, l)) else pop_opt D N n True (count_get_fail l)))
   | None \<Rightarrow> Ret (0, count_null l))"

text \<open>\<open>stack_size\<close>, the same in both files: \<open>r\<close> sub-stacks from \<open>i\<close> on are still to be counted.\<close>

fun stack_size_2dc_node :: "nat \<Rightarrow> addr option \<Rightarrow> nat \<Rightarrow> (nat \<Rightarrow> (stack_2dc, 'a) prog) \<Rightarrow> (stack_2dc, 'a) prog" where
  "stack_size_2dc_node n None sz k = k sz"
| "stack_size_2dc_node 0 (Some a) sz k = Stop No_fuel"
| "stack_size_2dc_node (Suc n) (Some a) sz k = load_cnode cn_next a (\<lambda>p. stack_size_2dc_node n p (add64 sz 1) k)"

fun stack_size_2dc_loop :: "nat \<Rightarrow> nat \<Rightarrow> nat \<Rightarrow> nat \<Rightarrow> (stack_2dc, nat) prog" where
  "stack_size_2dc_loop N 0 i sz = Ret sz"
| "stack_size_2dc_loop N (Suc r) i sz = checked (\<lambda>s. i < length (cdescs s)) (load (\<lambda>s. lo (cdescs s ! i)) (\<lambda>p.
     stack_size_2dc_node N p sz (\<lambda>sz. stack_size_2dc_loop N r (i + 1) sz)))"

definition stack_size_2dc :: "(stack_2dc, addr option) dset_c \<Rightarrow> nat \<Rightarrow> (stack_2dc, nat) prog" where
  "stack_size_2dc D N = stack_size_2dc_loop N (cwidth D) 0 0"

definition stack_size_opt :: "(stack_2dc, addr option) dset_c \<Rightarrow> nat \<Rightarrow> (stack_2dc, nat) prog" where
  "stack_size_opt D N = stack_size_2dc D N"

fun stack_2dc_op :: "bool \<Rightarrow> (stack_2dc, addr option) dset_c \<Rightarrow> nat \<Rightarrow> nat \<Rightarrow> stack_op \<Rightarrow> thread_2ds \<Rightarrow>
    (stack_2dc, (int \<times> nat) \<times> thread_2ds) prog" where
  "stack_2dc_op opt D N n (Push key v) l =
     bind (if opt then push_opt D N n key v l else push_2dc D N n key v l) (\<lambda>(r, l). Ret ((r, thread_index l), l))"
| "stack_2dc_op opt D N n Pop l =
     bind (if opt then pop_opt D N n False l else pop_2dc D N n False l) (\<lambda>(r, l). Ret ((r, thread_index l), l))"

section \<open>Both builds at once\<close>

definition variant_of :: "bool \<Rightarrow> variant_c" where
  "variant_of opt = (if opt then optimized_c else plain_c)"

definition shift_of :: "bool \<Rightarrow> nat \<Rightarrow> nat" where
  "shift_of opt d = (if opt then (d + 1) div 2 else shift_2dc d)"

definition set_of :: "bool \<Rightarrow> nat \<Rightarrow> nat \<Rightarrow> (stack_2dc, addr option) dset_c" where
  "set_of opt w d = (if opt then set_opt w d else set_2ds w d)"

lemma set_of_simps [simp]:
  "cwidth (set_of opt w d) = w" "cdepth (set_of opt w d) = d" "cshift (set_of opt w d) = shift_of opt d"
  "crandom_hops (set_of opt w d) = 2" "two_words (set_of opt w d) = True" "set_array (set_of opt w d) = cdescs"
  by (simp_all add: set_of_def set_opt_def set_2ds_def shift_of_def)

fun push_loop_g :: "variant_c \<Rightarrow> (stack_2dc, addr option) dset_c \<Rightarrow> nat \<Rightarrow> nat \<Rightarrow> addr \<Rightarrow> bool \<Rightarrow> thread_2ds \<Rightarrow>
    (stack_2dc, int \<times> thread_2ds) prog" where
  "push_loop_g V D N 0 new contention l = Stop No_fuel"
| "push_loop_g V D N (Suc n) new contention l = put_window_g V D N contention l (\<lambda>descriptor l.
     store_cnode_next new (lo descriptor)
     (stack_cae_2dc (thread_index l) descriptor (DW (Some new) (add64 (hi descriptor) 1)) (\<lambda>ok.
       if ok then Ret (1, l) else push_loop_g V D N n new True (count_put_fail l))))"

fun pop_g :: "variant_c \<Rightarrow> (stack_2dc, addr option) dset_c \<Rightarrow> nat \<Rightarrow> nat \<Rightarrow> bool \<Rightarrow> thread_2ds \<Rightarrow>
    (stack_2dc, int \<times> thread_2ds) prog" where
  "pop_g V D N 0 contention l = Stop No_fuel"
| "pop_g V D N (Suc n) contention l = get_window_g V D N contention l (\<lambda>descriptor l. case lo descriptor of
     Some a \<Rightarrow> load_cnode cn_next a (\<lambda>nx.
       stack_cae_2dc (thread_index l) descriptor (DW nx (sub64 (hi descriptor) 1)) (\<lambda>ok.
         if ok then load_cnode cn_val a (\<lambda>v. Ret (v, l)) else pop_g V D N n True (count_get_fail l)))
   | None \<Rightarrow> Ret (0, count_null l))"

lemma push_loops: "push_2dc_loop D N n new c l = push_loop_g plain_c D N n new c l"
  "push_opt_loop D N n new c l = push_loop_g optimized_c D N n new c l"
  by (induction n arbitrary: c l) (simp_all add: window_c_eq window_o_eq cong: if_cong)

lemma pops: "pop_2dc D N n c l = pop_g plain_c D N n c l" "pop_opt D N n c l = pop_g optimized_c D N n c l"
  by (induction n arbitrary: c l) (simp_all add: window_c_eq window_o_eq cong: if_cong option.case_cong)

lemma stack_2dc_op_eq:
  "stack_2dc_op opt D N n (Push key v) l = bind (create_node_2dc key v None l (\<lambda>new l.
     push_loop_g (variant_of opt) D N n new False l)) (\<lambda>(r, l). Ret ((r, thread_index l), l))"
  "stack_2dc_op opt D N n Pop l = bind (pop_g (variant_of opt) D N n False l) (\<lambda>(r, l). Ret ((r, thread_index l), l))"
  by (simp_all add: push_2dc_def push_opt_def create_node_opt_def push_loops pops variant_of_def)

section \<open>The invariant\<close>

text \<open>
  What is not in the contract of the array of stacks: the size in a descriptor is the length of
  its stack, the window, and, when one thread runs, that every size is inside the window.
\<close>

definition ext_2ds :: "bool \<Rightarrow> bool \<Rightarrow> nat \<Rightarrow> nat \<Rightarrow> stack_2dc \<times> (stack_op, int \<times> nat) history \<Rightarrow> bool" where
  "ext_2ds opt solo w d s \<longleftrightarrow> 0 < w \<and> w < U16 \<and> 0 < d \<and> d < U16 \<and> length (cdescs (fst s)) = w \<and>
     d \<le> lo (global_Window (fst s)) \<and>
     (opt \<longrightarrow> lo (global_Window (fst s)) < U32 \<and> shift_of opt d dvd lo (global_Window (fst s)) - d) \<and>
     (\<forall>j<w. hi (cdescs (fst s) ! j) = length (sh_stack (shadow (snd s)) j) mod U64) \<and>
     (solo \<longrightarrow> lo (global_Window (fst s)) < U64 \<and> (\<forall>j<w. length (sh_stack (shadow (snd s)) j) \<le> lo (global_Window (fst s)) \<and>
        lo (global_Window (fst s)) \<le> length (sh_stack (shadow (snd s)) j) + d))"

definition eo_2ds :: "stack_2dc \<Rightarrow> stack_2dc \<Rightarrow> bool" where
  "eo_2ds s t \<longleftrightarrow> True"

lemma eo_2ds: "eo_2ds s t"
  by (simp add: eo_2ds_def)

interpretation cs: stack_array w solo opss "\<lambda>s j. lo (cdescs s ! j)" cnodes cn_val cn_next "ext_2ds opt solo w d" eo_2ds
  for w opss opt solo d
  by unfold_locales (simp_all add: eo_2ds)

abbreviation inv_2ds :: "bool \<Rightarrow> bool \<Rightarrow> nat \<Rightarrow> nat \<Rightarrow> stack_op list list \<Rightarrow> stack_2dc \<times> (stack_op, int \<times> nat) history \<Rightarrow> bool" where
  "inv_2ds opt solo w d opss \<equiv> stack_array.inv w solo opss (\<lambda>s j. lo (cdescs s ! j)) cnodes cn_val cn_next (ext_2ds opt solo w d)"

abbreviation own_2ds where
  "own_2ds \<equiv> stack_array.own_node cnodes cn_val"

abbreviation keep_2ds :: "nat \<Rightarrow> stack_2dc \<Rightarrow> stack_2dc \<Rightarrow> bool" where
  "keep_2ds \<equiv> stack_array.ord cnodes eo_2ds"

definition ord_2ds :: "bool \<Rightarrow> nat \<Rightarrow> stack_2dc \<Rightarrow> stack_2dc \<Rightarrow> bool" where
  "ord_2ds solo i s t \<longleftrightarrow> keep_2ds i s t \<and> (solo \<longrightarrow> i = 0 \<longrightarrow> t = s)"

definition grd_2ds :: "bool \<Rightarrow> nat \<Rightarrow> stack_2dc \<Rightarrow> stack_2dc \<Rightarrow> bool" where
  "grd_2ds solo i s t \<longleftrightarrow> stack_array.grd cnodes eo_2ds i s t \<and> (solo \<longrightarrow> i = 0 \<or> t = s)"

definition no_wrap_2ds :: "bool \<Rightarrow> nat \<Rightarrow> stack_2dc \<Rightarrow> bool" where
  "no_wrap_2ds opt d s \<longleftrightarrow> lo (global_Window s) + 2 * d < rows (variant_of opt)"

lemma rows_of: "rows (variant_of opt) = (if opt then U32 else U64)" "strong (variant_of opt) = opt"
  "randoms (variant_of opt) = (if opt then 256 else U16)"
  by (simp_all add: variant_of_def)

lemma shift_of: "0 < d \<Longrightarrow> 0 < shift_of opt d \<and> shift_of opt d \<le> d"
  using shift_2dc_le [of d] by (auto simp: shift_of_def) (auto simp: shift_2dc_def)

lemma ord_2ds_refl: "ord_2ds solo i s s" "grd_2ds solo i s s"
  by (simp_all add: ord_2ds_def grd_2ds_def cs.ord_refl cs.grd_refl)

lemma ord_2ds_trans: "ord_2ds solo i s t \<Longrightarrow> ord_2ds solo i t u \<Longrightarrow> ord_2ds solo i s u"
  by (auto simp: ord_2ds_def intro: cs.ord_trans)

lemma ord_2ds_keep: "ord_2ds solo i s t \<Longrightarrow> keep_2ds i s t"
  by (simp add: ord_2ds_def)

lemma grd_2dsI: "stack_array.grd cnodes eo_2ds i s t \<Longrightarrow> (solo \<Longrightarrow> i = 0) \<Longrightarrow> grd_2ds solo i s t"
  by (simp add: grd_2ds_def)

lemma inv_2ds_ext: "inv_2ds opt solo w d opss (s, H) \<Longrightarrow> ext_2ds opt solo w d (s, H)"
  by (rule cs.inv_E)

lemma inv_2ds_dims: "inv_2ds opt solo w d opss (s, H) \<Longrightarrow>
    length (cdescs s) = w \<and> 0 < w \<and> w < U16 \<and> 0 < d \<and> d < U16 \<and> d \<le> lo (global_Window s)"
  by (drule inv_2ds_ext) (simp add: ext_2ds_def)

text \<open>When one thread runs, the size is exact.\<close>

lemma inv_2ds_solo:
  assumes "inv_2ds opt solo w d opss (s, H)" and solo and "j < w"
  shows "hi (cdescs s ! j) = length (sh_stack (shadow H) j) \<and> hi (cdescs s ! j) \<le> lo (global_Window s) \<and>
    lo (global_Window s) \<le> hi (cdescs s ! j) + d \<and> lo (global_Window s) < U64"
proof -
  have e: "hi (cdescs s ! j) = length (sh_stack (shadow H) j) mod U64" "length (sh_stack (shadow H) j) \<le> lo (global_Window s)"
    "lo (global_Window s) \<le> length (sh_stack (shadow H) j) + d" "lo (global_Window s) < U64"
    using inv_2ds_ext [OF assms(1)] assms(2,3) by (auto simp: ext_2ds_def)
  then have "length (sh_stack (shadow H) j) < U64" by linarith
  then show ?thesis using e by simp
qed

lemma window_moves_2ds:
  assumes J: "inv_2ds opt solo w d opss (s, H)" and i: "solo \<Longrightarrow> i = 0" and m: "d \<le> lo W"
    and o: "opt \<Longrightarrow> lo W < U32 \<and> shift_of opt d dvd lo W - d"
    and s: "\<And>j. solo \<Longrightarrow> j < w \<Longrightarrow> hi (cdescs s ! j) \<le> lo W \<and> lo W \<le> hi (cdescs s ! j) + d \<and> lo W < U64"
  shows "inv_2ds opt solo w d opss (s\<lparr>global_Window := W\<rparr>, H) \<and> grd_2ds solo i s (s\<lparr>global_Window := W\<rparr>) \<and>
    keep_2ds i s (s\<lparr>global_Window := W\<rparr>)"
proof -
  let ?s = "s\<lparr>global_Window := W\<rparr>"
  have "lo W < U64 \<and> length (sh_stack (shadow H) j) \<le> lo W \<and> lo W \<le> length (sh_stack (shadow H) j) + d" if solo "j < w" for j
    using s [OF that] inv_2ds_solo [OF J that] by simp
  then have "ext_2ds opt solo w d (?s, H)"
    using inv_2ds_ext [OF J] m o by (auto simp: ext_2ds_def)
  then have "inv_2ds opt solo w d opss (?s, H) \<and> stack_array.grd cnodes eo_2ds i s ?s \<and> keep_2ds i s ?s"
    by (intro cs.quiet [OF J]) (simp_all add: eo_2ds)
  then show ?thesis using i grd_2dsI by blast
qed

interpretation w2ds: window_2dc_client "no_wrap_2ds opt d" no_fuel "inv_2ds opt solo w d opss" "ord_2ds solo" keep_2ds "grd_2ds solo"
  opss "set_of opt w d" "variant_of opt" solo "\<lambda>i H H' j e. cs.seen_top i H H' j (lo e)" for opt w d opss solo
proof
  fix s H i v
  assume J: "inv_2ds opt solo w d opss (s, H)" and A: "no_wrap_2ds opt d s"
  note dims = inv_2ds_dims [OF J]
  note sh = shift_of [of d opt]
  have dv: "lo (global_Window s) < U32 \<and> shift_of opt d dvd lo (global_Window s) - d" if opt
    using inv_2ds_ext [OF J] that by (simp add: ext_2ds_def)
  { assume i: "solo \<Longrightarrow> i = (0::nat)"
      and top: "\<And>j. solo \<Longrightarrow> j < cwidth (set_of opt w d) \<Longrightarrow> lo (global_Window s) \<le> hi (set_array (set_of opt w d) s ! j)"
    have "shift_of opt d dvd lo (global_Window s) + shift_of opt d - d" if opt
      using dv [OF that] dims by (metis Nat.add_diff_assoc2 dvd_add_right_iff dvd_refl add.commute)
    then show "inv_2ds opt solo w d opss (s\<lparr>global_Window := DW (lo (global_Window s) + cshift (set_of opt w d)) v\<rparr>, H) \<and>
        grd_2ds solo i s (s\<lparr>global_Window := DW (lo (global_Window s) + cshift (set_of opt w d)) v\<rparr>) \<and>
        keep_2ds i s (s\<lparr>global_Window := DW (lo (global_Window s) + cshift (set_of opt w d)) v\<rparr>)"
      using dims sh A inv_2ds_solo [OF J] top
      by (intro window_moves_2ds [OF J i]) (fastforce simp: no_wrap_2ds_def rows_of U32_def U64_def split: if_splits)+ }
  { assume i: "solo \<Longrightarrow> i = (0::nat)" and low: "cdepth (set_of opt w d) + cshift (set_of opt w d) \<le> lo (global_Window s)"
      and bot: "\<And>j. solo \<Longrightarrow> j < cwidth (set_of opt w d) \<Longrightarrow>
        hi (set_array (set_of opt w d) s ! j) + cdepth (set_of opt w d) \<le> lo (global_Window s)"
    have dvd: "shift_of opt d dvd lo (global_Window s) - shift_of opt d - d" if opt
    proof -
      have eq: "lo (global_Window s) - shift_of opt d - d = (lo (global_Window s) - d) - shift_of opt d" by simp
      show ?thesis unfolding eq by (rule dvd_diff_nat) (use dv [OF that] in simp_all)
    qed
    have "hi (cdescs s ! j) \<le> lo (global_Window s) - shift_of opt d \<and> lo (global_Window s) - shift_of opt d \<le> hi (cdescs s ! j) + d \<and>
        lo (global_Window s) - shift_of opt d < U64" if solo "j < w" for j
      using inv_2ds_solo [OF J that] bot [OF that(1), of j] that low sh dims by auto
    then show "inv_2ds opt solo w d opss (s\<lparr>global_Window := DW (lo (global_Window s) - cshift (set_of opt w d)) v\<rparr>, H) \<and>
        grd_2ds solo i s (s\<lparr>global_Window := DW (lo (global_Window s) - cshift (set_of opt w d)) v\<rparr>) \<and>
        keep_2ds i s (s\<lparr>global_Window := DW (lo (global_Window s) - cshift (set_of opt w d)) v\<rparr>)"
      using low dvd dv by (intro window_moves_2ds [OF J i]) auto }
  { show "lo (global_Window s) + cshift (set_of opt w d) < rows (variant_of opt) \<and>
        (solo \<longrightarrow> (\<forall>j<cwidth (set_of opt w d). hi (set_array (set_of opt w d) s ! j) + cdepth (set_of opt w d) < U64))"
      using inv_2ds_solo [OF J] A sh dims by (fastforce simp: no_wrap_2ds_def rows_of U32_def U64_def split: if_splits) }
next
  fix s H t H' i j
  assume J: "inv_2ds opt solo w d opss (s, H)" and h: "hist_rely i H H'" and j: "j < cwidth (set_of opt w d)"
  show "cs.seen_top i H H' j (lo (DW (lo (set_array (set_of opt w d) s ! j)) (hi (set_array (set_of opt w d) t ! j))))"
    using cs.seen_later [OF cs.seen_now [OF J _ hist_rely_refl] h, of j] j by simp
next
  fix s H assume J: "inv_2ds opt solo w d opss (s, H)" and st: "strong (variant_of opt)"
  then show "0 < cshift (set_of opt w d) \<and> cdepth (set_of opt w d) + cshift (set_of opt w d) < rows (variant_of opt) \<and>
      lo (global_Window s) < rows (variant_of opt) \<and> cshift (set_of opt w d) dvd lo (global_Window s) - cdepth (set_of opt w d)"
    using inv_2ds_ext [OF J] shift_of [of d opt] by (auto simp: ext_2ds_def rows_of U16_def U32_def)
next
  fix i s t assume "ord_2ds solo i s t"
  then show "keep_2ds i s t" by (rule ord_2ds_keep)
qed (auto simp: ord_2ds_refl no_fuel_def U16_def ord_2ds_def shift_of rows_of
    intro: cs.ord_trans cs.seen_later cs.seen_earlier dest: inv_2ds_dims)


section \<open>The operations keep the invariant\<close>

abbreviation safe_2ds where
  "safe_2ds opt solo w d opss i \<equiv> safe (no_wrap_2ds opt d) no_fuel (lin_rely (inv_2ds opt solo w d opss) (ord_2ds solo) i)
     (lin_guar (inv_2ds opt solo w d opss) (grd_2ds solo) opss i)"

abbreviation knows_2ds where
  "knows_2ds opt w d solo \<equiv> window_2dc_client.knows_window (set_of opt w d) (variant_of opt) solo"

definition local_2ds :: "bool \<Rightarrow> bool \<Rightarrow> nat \<Rightarrow> nat \<Rightarrow> nat \<Rightarrow> thread_2ds \<Rightarrow> (stack_op \<times> int \<times> nat) list \<Rightarrow> stack_2dc \<Rightarrow> bool" where
  "local_2ds opt solo w d i l rs s \<longleftrightarrow> (solo \<longrightarrow> i = 0) \<and> thread_index l < w \<and> knows_2ds opt w d solo (thread_Window l) s \<and>
     cthread_id l = i \<and> calloc_next l = pushes rs"

abbreviation done_2ds where
  "done_2ds opt solo w d opss i P op \<equiv> \<lambda>(r, l) (s, H). inv_2ds opt solo w d opss (s, H) \<and>
     local_2ds opt solo w d i l (P @ [(op, (r, thread_index l))]) s \<and> proj i H = P @ [(op, (r, thread_index l))]"

lemma knows_2ds_stable:
  "knows_2ds opt w d solo W s \<Longrightarrow> ord_2ds solo i s t \<Longrightarrow> (solo \<Longrightarrow> i = 0) \<Longrightarrow> knows_2ds opt w d solo W t"
  by (auto simp: w2ds.knows_window_def ord_2ds_def)

lemma local_2ds_stable: "local_2ds opt solo w d i l rs s \<Longrightarrow> ord_2ds solo i s t \<Longrightarrow> local_2ds opt solo w d i l rs t"
  unfolding local_2ds_def using knows_2ds_stable by blast

lemma more_2ds:
  assumes "thread_2dc.more l' = thread_2dc.more (l :: thread_2ds)"
  shows "cthread_id l' = cthread_id l" and "calloc_next l' = calloc_next l"
  using assms by (cases l; cases l'; simp)+

lemma store_cnode_next_safe:
  assumes J: "inv_2ds opt solo w d opss (s, H)" and P: "proj i H = P" and a: "own_2ds i a v P s" and i: "solo \<Longrightarrow> i = 0"
    and k: "\<And>t H' n. inv_2ds opt solo w d opss (t, H') \<Longrightarrow> hist_rely i H H' \<Longrightarrow> own_2ds i a v P t \<Longrightarrow> cnodes t a = Some n \<Longrightarrow>
      cn_next n = p \<Longrightarrow> (solo \<Longrightarrow> global_Window t = global_Window s \<and> cdescs t = cdescs s) \<Longrightarrow>
      safe_2ds opt solo w d opss i Q k (t, H')"
  shows "safe_2ds opt solo w d opss i Q (store_cnode_next a p k) (s, H)"
  unfolding store_cnode_next_def
  apply (rule lin_checked, rule J)
  subgoal for t using cs.own_node_mem [OF cs.own_node_stable [OF a]] by (auto dest: ord_2ds_keep)
  apply (rule lin_store, rule J)
  subgoal premises q for t H'
  proof -
    obtain n0 where n0: "cnodes t a = Some n0" "cn_val n0 = v" and own: "a = Addr i (pushes P)"
      using cs.own_node_stable [OF a ord_2ds_keep [OF q(2)]] by (auto simp: cs.own_node_def)
    let ?t = "t\<lparr>cnodes := (cnodes t)(a \<mapsto> (the (cnodes t a))\<lparr>cn_next := p\<rparr>)\<rparr>"
    have c: "inv_2ds opt solo w d opss (?t, H') \<and> stack_array.grd cnodes eo_2ds i t ?t"
      by (rule cs.own_write [OF q(1)]) (use own q(4) P inv_2ds_ext [OF q(1)] in \<open>simp_all add: eo_2ds ext_2ds_def\<close>)
    have "safe_2ds opt solo w d opss i Q k (?t, H')"
      by (rule k [OF _ q(3)]) (use c own n0 q(2) i in \<open>auto simp: cs.own_node_def ord_2ds_def\<close>)
    moreover have "grd_2ds solo i t ?t" using c i by (auto simp: grd_2ds_def)
    ultimately show ?thesis using c by (intro exI [of _ "[]"]) simp
  qed
  done

lemma load_cnode_safe:
  assumes J: "inv_2ds opt solo w d opss (s, H)" and a: "cs.linked_in H a"
    and k: "\<And>t H' n. inv_2ds opt solo w d opss (t, H') \<Longrightarrow> ord_2ds solo i s t \<Longrightarrow> hist_rely i H H' \<Longrightarrow> cnodes t a = Some n \<Longrightarrow>
      safe_2ds opt solo w d opss i Q (k (f n)) (t, H')"
  shows "safe_2ds opt solo w d opss i Q (load_cnode f a k) (s, H)"
proof -
  have here: "cnodes t a \<noteq> None" if "ord_2ds solo i s t" for t
    using cs.ord_mem [OF ord_2ds_keep [OF that] cs.arr_linked_alloc [OF J a]] .
  show ?thesis
    unfolding load_cnode_def
    apply (rule lin_checked, rule J)
    subgoal for t using here [of t] by simp
    apply (rule lin_load, rule J, rule ord_2ds_refl)
    subgoal premises p for t H' using here [OF p(2)] k [OF p(1-3)] by auto
    done
qed

lemma ext_2ds_push:
  assumes E: "ext_2ds opt solo w d (s, H)" and j: "j < w" and A: "no_wrap_2ds opt d s"
    and near: "solo \<Longrightarrow> length (sh_stack (shadow H) j) < lo (global_Window s)"
    and t: "t = s\<lparr>cdescs := (cdescs s)[j := DW q (add64 (hi (cdescs s ! j)) 1)]\<rparr>"
  shows "ext_2ds opt solo w d (t, H @ [(i, Push key v, 1, j)])"
proof -
  have "hi (cdescs t ! j') = length (sh_stack (shadow (H @ [(i, Push key v, 1, j)])) j') mod U64" if "j' < w" for j'
    using E j that by (cases "j' = j") (simp_all add: ext_2ds_def t shadow_snoc Let_def add64_def mod_Suc_eq)
  moreover have "length (sh_stack (shadow (H @ [(i, Push key v, 1, j)])) j') \<le> lo (global_Window t) \<and>
      lo (global_Window t) \<le> length (sh_stack (shadow (H @ [(i, Push key v, 1, j)])) j') + d" if solo "j' < w" for j'
    using E near that by (cases "j' = j") (fastforce simp: ext_2ds_def t shadow_snoc Let_def)+
  ultimately show ?thesis using E by (simp add: ext_2ds_def t)
qed

lemma ext_2ds_pop:
  assumes E: "ext_2ds opt solo w d (s, H)" and j: "j < w" and ne: "sh_stack (shadow H) j = a # xs" and r: "r \<noteq> 0"
    and near: "solo \<Longrightarrow> lo (global_Window s) < length (sh_stack (shadow H) j) + d"
    and t: "t = s\<lparr>cdescs := (cdescs s)[j := DW q (sub64 (hi (cdescs s ! j)) 1)]\<rparr>"
  shows "ext_2ds opt solo w d (t, H @ [(i, Pop, r, j)])"
proof -
  have m: "sub64 (Suc n mod U64) 1 = n mod U64" for n
  proof -
    have "sub64 (Suc n mod U64) 1 = (Suc n + (U64 - 1)) mod U64"
      by (simp add: sub64_def U64_def mod_simps)
    also have "Suc n + (U64 - 1) = n + U64" by (simp add: U64_def)
    finally show ?thesis by simp
  qed
  have "hi (cdescs t ! j') = length (sh_stack (shadow (H @ [(i, Pop, r, j)])) j') mod U64" if "j' < w" for j'
    using E j that ne r m [of "length xs"] by (cases "j' = j") (simp_all add: ext_2ds_def t shadow_snoc)
  moreover have "length (sh_stack (shadow (H @ [(i, Pop, r, j)])) j') \<le> lo (global_Window t) \<and>
      lo (global_Window t) \<le> length (sh_stack (shadow (H @ [(i, Pop, r, j)])) j') + d" if solo "j' < w" for j'
    using E near that ne r by (cases "j' = j") (fastforce simp: ext_2ds_def t shadow_snoc)+
  ultimately show ?thesis using E by (simp add: ext_2ds_def t)
qed

lemma push_cae_2ds_safe:
  assumes J: "inv_2ds opt solo w d opss (s, H)" and j: "thread_index l < w" and P: "proj i H = P"
    and a: "own_2ds i a v P s" "cnodes s a = Some n" "cn_next n = lo e"
    and step: "i < length opss" "prefix (map fst P @ [Push key v]) (opss ! i)"
    and i: "solo \<Longrightarrow> i = 0" and l: "cthread_id l = i" "calloc_next l = pushes P + 1"
    and W: "knows_2ds opt w d solo (thread_Window l) s"
    and e: "solo \<Longrightarrow> thread_Window l = global_Window s \<and> hi e < lo (global_Window s)"
    and fail: "\<And>t H'. inv_2ds opt solo w d opss (t, H') \<Longrightarrow> ord_2ds solo i s t \<Longrightarrow> hist_rely i H H' \<Longrightarrow>
      safe_2ds opt solo w d opss i (done_2ds opt solo w d opss i P (Push key v)) k (t, H')"
  shows "safe_2ds opt solo w d opss i (done_2ds opt solo w d opss i P (Push key v))
    (stack_cae_2dc (thread_index l) e (DW (Some a) (add64 (hi e) 1)) (\<lambda>ok. if ok then Ret (1, l) else k)) (s, H)"
  unfolding stack_cae_2dc_def
  apply (rule lin_checked, rule J, (use j in \<open>auto dest: inv_2ds_dims\<close>)[1])
  apply (rule lin_cae, rule J, rule ord_2ds_refl)
  subgoal premises q for t H'
  proof -
    let ?j = "thread_index l"
    let ?t = "t\<lparr>cdescs := (cdescs t)[?j := DW (Some a) (add64 (hi e) 1)]\<rparr>" and ?X = "[(i, Push key v, 1, ?j)]"
    note keep = ord_2ds_keep [OF q(2)]
    have len: "?j < length (cdescs t)" using j inv_2ds_dims [OF q(1)] by simp
    have own: "a = Addr i (pushes P)" using a(1) by (simp add: cs.own_node_def)
    then have at: "cnodes t a = Some n" using keep a(2) by (simp add: cs.ord_def)
    have P': "proj i H' = P" using q(4) P by simp
    have step': "prefix (map fst (proj i H') @ [Push key v]) (opss ! i)" using step(2) P' by simp
    have ext: "ext_2ds opt solo w d (?t, H' @ ?X)"
    proof (rule ext_2ds_push [OF inv_2ds_ext [OF q(1)] j q(5)])
      show "length (sh_stack (shadow H') ?j) < lo (global_Window t)" if solo
        using inv_2ds_solo [OF q(1) that j] e [OF that] q(2,6) i [OF that] that by (auto simp: ord_2ds_def)
    qed (use q(6) in simp)
    have c: "inv_2ds opt solo w d opss (?t, H' @ ?X) \<and> stack_array.grd cnodes eo_2ds i t ?t"
      by (rule cs.arr_push_commit [OF q(1) j _ at _ _ _ step(1) step' ext])
        (use cs.own_node_stable [OF a(1) keep] P' a(3) q(6) len in \<open>auto simp: eo_2ds\<close>)
    have g: "grd_2ds solo i t ?t" using c i by (auto simp: grd_2ds_def)
    have W': "knows_2ds opt w d solo (thread_Window l) ?t"
      using W e q(2) i by (auto simp: w2ds.knows_window_def ord_2ds_def)
    have "safe_2ds opt solo w d opss i (done_2ds opt solo w d opss i P (Push key v)) (Ret (1, l)) (?t, H' @ ?X)"
      by (rule lin_commit_ret [where H = H'])
        (use c l P' i j knows_2ds_stable [OF W'] in \<open>auto simp: local_2ds_def\<close>)
    then show ?thesis using c g step step' by (intro exI [of _ ?X]) auto
  qed
  subgoal premises q for t H' using fail [OF q(1-3)] by simp
  done

lemma push_loop_g_safe:
  assumes "inv_2ds opt solo w d opss (s, H)" and "proj i H = P" and "own_2ds i a v P s"
    and "i < length opss" and "prefix (map fst P @ [Push key v]) (opss ! i)" and "solo \<Longrightarrow> i = 0"
    and "cthread_id l = i" and "calloc_next l = pushes P + 1" and "thread_index l < w"
    and "knows_2ds opt w d solo (thread_Window l) s"
  shows "safe_2ds opt solo w d opss i (done_2ds opt solo w d opss i P (Push key v))
    (push_loop_g (variant_of opt) (set_of opt w d) N n a c l) (s, H)"
  using assms
proof (induction n arbitrary: s H l c)
  case 0
  then show ?case by (simp add: no_fuel_def)
next
  case (Suc n)
  let ?safe = "safe_2ds opt solo w d opss i (done_2ds opt solo w d opss i P (Push key v))"
  show ?case
    unfolding push_loop_g.simps
  proof (rule w2ds.put_window_g_safe [OF Suc.prems(6) _ Suc.prems(1) _ refl])
    fix t H' e and l' :: thread_2ds
    assume t: "inv_2ds opt solo w d opss (t, H')" "keep_2ds i s t" "hist_rely i H H'" "thread_index l' < cwidth (set_of opt w d)"
      "thread_2dc.more l' = thread_2dc.more l" "knows_2ds opt w d solo (thread_Window l') t"
      "solo \<Longrightarrow> e = set_array (set_of opt w d) t ! thread_index l' \<and> thread_Window l' = global_Window t \<and> hi e < lo (global_Window t)"
    have P: "proj i H' = P" using hist_rely_proj [OF t(3)] Suc.prems(2) by simp
    note own = cs.own_node_stable [OF Suc.prems(3) t(2)]
    have l': "cthread_id l' = i" "calloc_next l' = pushes P + 1" using more_2ds [OF t(5)] Suc.prems(7,8) by simp_all
    show "?safe (store_cnode_next a (lo e) (stack_cae_2dc (thread_index l') e (DW (Some a) (add64 (hi e) 1)) (\<lambda>ok.
        if ok then Ret (1, l') else push_loop_g (variant_of opt) (set_of opt w d) N n a True (count_put_fail l')))) (t, H')"
    proof (rule store_cnode_next_safe [OF t(1) P own Suc.prems(6)])
      fix u K m assume u: "inv_2ds opt solo w d opss (u, K)" "hist_rely i H' K" "own_2ds i a v P u" "cnodes u a = Some m"
        "cn_next m = lo e" "solo \<Longrightarrow> global_Window u = global_Window t \<and> cdescs u = cdescs t"
      have Pu: "proj i K = P" using hist_rely_proj [OF u(2)] P by simp
      have W: "knows_2ds opt w d solo (thread_Window l') u"
        using t(6) u(6) by (auto simp: w2ds.knows_window_def)
      show "?safe (stack_cae_2dc (thread_index l') e (DW (Some a) (add64 (hi e) 1)) (\<lambda>ok.
        if ok then Ret (1, l') else push_loop_g (variant_of opt) (set_of opt w d) N n a True (count_put_fail l'))) (u, K)"
      proof (rule push_cae_2ds_safe [OF u(1) _ Pu u(3-5) Suc.prems(4,5) _ l' W])
        fix x K2 assume x: "inv_2ds opt solo w d opss (x, K2)" "ord_2ds solo i u x" "hist_rely i K K2"
        have "knows_2ds opt w d solo (thread_Window l') x" by (rule knows_2ds_stable [OF W x(2) Suc.prems(6)])
        then show "?safe (push_loop_g (variant_of opt) (set_of opt w d) N n a True (count_put_fail l')) (x, K2)"
          using x cs.own_node_stable [OF u(3) ord_2ds_keep [OF x(2)]] hist_rely_proj [OF x(3)] Pu Suc.prems(4-6) l' t(4)
          by (intro Suc.IH) (auto simp: count_put_fail_def)
      qed (use t u Suc.prems(6) in auto)
    qed
  qed (use Suc.prems in auto)
qed

lemma pop_cae_2ds_safe:
  assumes J: "inv_2ds opt solo w d opss (s, H)" and j: "thread_index l < w" and P: "proj i H = P"
    and a: "cs.linked_in H a" "cnodes s a = Some m" "lo e = Some a"
    and step: "i < length opss" "prefix (map fst P @ [Pop]) (opss ! i)"
    and l: "local_2ds opt solo w d i l P s"
    and e: "solo \<Longrightarrow> (\<forall>j<w. hi (cdescs s ! j) = 0) \<or> lo (global_Window s) < hi e + d"
    and fail: "\<And>t H'. inv_2ds opt solo w d opss (t, H') \<Longrightarrow> ord_2ds solo i s t \<Longrightarrow> hist_rely i H H' \<Longrightarrow>
      safe_2ds opt solo w d opss i (done_2ds opt solo w d opss i P Pop) k (t, H')"
  shows "safe_2ds opt solo w d opss i (done_2ds opt solo w d opss i P Pop)
    (stack_cae_2dc (thread_index l) e (DW (cn_next m) (sub64 (hi e) 1)) (\<lambda>ok.
      if ok then load_cnode cn_val a (\<lambda>v. Ret (v, l)) else k)) (s, H)"
  unfolding stack_cae_2dc_def
  apply (rule lin_checked, rule J, (use j in \<open>auto dest: inv_2ds_dims\<close>)[1])
  apply (rule lin_cae, rule J, rule ord_2ds_refl)
  subgoal premises q for t H'
  proof -
    let ?j = "thread_index l"
    note keep = ord_2ds_keep [OF q(2)]
    have i: "solo \<Longrightarrow> i = 0" using l by (simp add: local_2ds_def)
    obtain m' where m': "cnodes t a = Some m'" "cn_val m' = cn_val m" "cn_next m' = cn_next m"
      by (rule cs.linked_same [OF J q(1,3) a(1,2)])
    let ?t = "t\<lparr>cdescs := (cdescs t)[?j := DW (cn_next m) (sub64 (hi e) 1)]\<rparr>" and ?X = "[(i, Pop, cn_val m', ?j)]"
    have len: "?j < length (cdescs t)" using j inv_2ds_dims [OF q(1)] by simp
    have top: "lo (cdescs t ! ?j) = Some a" using q(6) a(3) by simp
    have P': "proj i H' = P" using q(4) P by simp
    have step': "prefix (map fst (proj i H') @ [Pop]) (opss ! i)" using step(2) P' by simp
    obtain xs where xs: "sh_stack (shadow H') ?j = a # xs"
      using cellsD(3) [OF cs.inv_cells [OF q(1)] j] top by (cases "sh_stack (shadow H') ?j") auto
    have "cn_val m' \<noteq> 0"
    proof -
      have lk: "cs.linked_in H' a" by (rule cs.linked_stable [OF a(1) q(3)])
      obtain n' where n': "cnodes t a = Some n'" "sh_cell (shadow H') a = Some (cn_val n', cn_next n')"
        by (rule cs.linked_mem [OF q(1) lk])
      then show ?thesis using cellsD(6) [OF cs.inv_cells [OF q(1)] n'(2)] m'(1) by simp
    qed
    then have ext: "ext_2ds opt solo w d (?t, H' @ ?X)"
    proof (rule ext_2ds_pop [OF inv_2ds_ext [OF q(1)] j xs])
      show "lo (global_Window t) < length (sh_stack (shadow H') ?j) + d" if solo
      proof -
        have "t = s" using q(2) i [OF that] that by (simp add: ord_2ds_def)
        moreover have "hi (cdescs t ! ?j) = length (sh_stack (shadow H') ?j)" using inv_2ds_solo [OF q(1) that j] by simp
        ultimately show ?thesis using e [OF that] j xs q(6) by auto
      qed
    qed (use q(6) in simp)
    have c: "inv_2ds opt solo w d opss (?t, H' @ ?X) \<and> stack_array.grd cnodes eo_2ds i t ?t"
      by (rule cs.arr_pop_commit [OF q(1) j top m'(1) _ _ step(1) step' ext]) (use m' len in \<open>auto simp: eo_2ds\<close>)
    have g: "grd_2ds solo i t ?t" using c i by (auto simp: grd_2ds_def)
    have lk: "cs.linked_in (H' @ ?X) a" by (rule cs.linked_append [OF cs.linked_stable [OF a(1) q(3)]])
    have W: "knows_2ds opt w d solo (thread_Window l) ?t"
    proof -
      have "knows_2ds opt w d solo (thread_Window l) t"
        using l by (intro knows_2ds_stable [OF _ q(2) i]) (simp_all add: local_2ds_def)
      moreover have "\<not> (\<forall>j<w. hi (cdescs t ! j) = 0)" if solo
        using inv_2ds_solo [OF q(1) that j] xs j by auto
      ultimately show ?thesis by (auto simp: w2ds.knows_window_def)
    qed
    have "safe_2ds opt solo w d opss i (done_2ds opt solo w d opss i P Pop) (load_cnode cn_val a (\<lambda>v. Ret (v, l))) (?t, H' @ ?X)"
    proof (rule load_cnode_safe [OF conjunct1 [OF c] lk])
      fix y Ky my assume y: "inv_2ds opt solo w d opss (y, Ky)" "ord_2ds solo i ?t y" "hist_rely i (H' @ ?X) Ky" "cnodes y a = Some my"
      have v: "cn_val my = cn_val m'"
        using cs.linked_same [OF conjunct1 [OF c] y(1,3) lk, of m'] m'(1) y(4) by auto
      have Py: "proj i Ky = P @ [(Pop, cn_val m', ?j)]" using hist_rely_proj [OF y(3)] P' by simp
      have W': "knows_2ds opt w d solo (thread_Window l) z" if "ord_2ds solo i y z" for z
        by (rule knows_2ds_stable [OF knows_2ds_stable [OF W y(2)] that]) (use i in auto)
      show "safe_2ds opt solo w d opss i (done_2ds opt solo w d opss i P Pop) (Ret (cn_val my, l)) (y, Ky)"
        unfolding v by (intro lin_ret, intro y(1)) (use l Py W' in \<open>auto simp: local_2ds_def\<close>)
    qed
    then show ?thesis using c g step(1) step' by (intro exI [of _ ?X]) auto
  qed
  subgoal premises q for t H' using fail [OF q(1-3)] by simp
  done

lemma pop_g_safe:
  assumes "inv_2ds opt solo w d opss (s, H)" and "proj i H = P" and "i < length opss" and "prefix (map fst P @ [Pop]) (opss ! i)"
    and "local_2ds opt solo w d i l P s"
  shows "safe_2ds opt solo w d opss i (done_2ds opt solo w d opss i P Pop)
    (pop_g (variant_of opt) (set_of opt w d) N n c l) (s, H)"
  using assms
proof (induction n arbitrary: s H l c)
  case 0
  then show ?case by (simp add: no_fuel_def)
next
  case (Suc n)
  let ?safe = "safe_2ds opt solo w d opss i (done_2ds opt solo w d opss i P Pop)"
  have i: "solo \<Longrightarrow> i = 0" using Suc.prems(5) by (simp add: local_2ds_def)
  show ?case
    unfolding pop_g.simps
  proof (rule w2ds.get_window_g_safe [OF i _ Suc.prems(1) _ refl])
    fix t H' e and l' :: thread_2ds
    assume t: "inv_2ds opt solo w d opss (t, H')" "keep_2ds i s t" "hist_rely i H H'" "thread_index l' < cwidth (set_of opt w d)"
      "thread_2dc.more l' = thread_2dc.more l" "cs.seen_top i H H' (thread_index l') (lo e)"
      "knows_2ds opt w d solo (thread_Window l') t"
      "solo \<Longrightarrow> e = set_array (set_of opt w d) t ! thread_index l' \<and>
        ((\<forall>j<cwidth (set_of opt w d). hi (set_array (set_of opt w d) t ! j) = 0) \<or>
          lo (global_Window t) < hi e + cdepth (set_of opt w d))"
    have P: "proj i H' = P" using hist_rely_proj [OF t(3)] Suc.prems(2) by simp
    have j: "thread_index l' < w" using t(4) by simp
    have l': "local_2ds opt solo w d i l' P t"
      using Suc.prems(5) more_2ds [OF t(5)] t(7) j by (simp add: local_2ds_def)
    let ?rest = "\<lambda>p. case p of
      Some a \<Rightarrow> load_cnode cn_next a (\<lambda>nx. stack_cae_2dc (thread_index l') e (DW nx (sub64 (hi e) 1)) (\<lambda>ok.
          if ok then load_cnode cn_val a (\<lambda>v. Ret (v, l')) else pop_g (variant_of opt) (set_of opt w d) N n True (count_get_fail l')))
      | None \<Rightarrow> Ret (0, count_null l')"
    show "\<exists>X. hist_step opss i H' (H' @ X) \<and> inv_2ds opt solo w d opss (t, H' @ X) \<and> grd_2ds solo i t t \<and>
        ?safe (?rest (lo e)) (t, H' @ X)"
    proof (cases "lo e")
      case None
      let ?X = "[(i, Pop, 0, thread_index l')]"
      have step: "prefix (map fst (proj i H') @ [Pop]) (opss ! i)" using Suc.prems(4) P by simp
      have ext: "ext_2ds opt solo w d (t, H' @ ?X)" using inv_2ds_ext [OF t(1)] by (simp add: ext_2ds_def shadow_snoc)
      have J: "inv_2ds opt solo w d opss (t, H' @ ?X)"
        by (rule cs.empty_commit [OF t(1) j _ Suc.prems(3) step ext]) (use t(8) None in auto)
      have "?safe (Ret (0, count_null l')) (t, H' @ ?X)"
        by (rule lin_commit_ret [where H = H'], rule J)
          (use P l' i knows_2ds_stable [OF t(7)] in \<open>auto simp: local_2ds_def count_null_def\<close>)
      then show ?thesis using J None step Suc.prems(3) ord_2ds_refl by (intro exI [of _ ?X]) auto
    next
      case (Some a)
      note seen = t(6) [unfolded Some]
      have "?safe (?rest (Some a)) (t, H')"
        unfolding option.case
      proof (rule load_cnode_safe [OF t(1) cs.seen_linked [OF seen]])
        fix u K m assume u: "inv_2ds opt solo w d opss (u, K)" "ord_2ds solo i t u" "hist_rely i H' K" "cnodes u a = Some m"
        have Pu: "proj i K = P" using hist_rely_proj [OF u(3)] P by simp
        have lu: "local_2ds opt solo w d i l' P x" if "ord_2ds solo i t x" for x
          using l' knows_2ds_stable [OF t(7) that i] by (simp add: local_2ds_def)
        show "?safe (stack_cae_2dc (thread_index l') e (DW (cn_next m) (sub64 (hi e) 1)) (\<lambda>ok.
            if ok then load_cnode cn_val a (\<lambda>v. Ret (v, l'))
            else pop_g (variant_of opt) (set_of opt w d) N n True (count_get_fail l'))) (u, K)"
        proof (rule pop_cae_2ds_safe [OF u(1) j Pu cs.linked_stable [OF cs.seen_linked [OF seen] u(3)] u(4) Some Suc.prems(3,4) lu [OF u(2)]])
          show "(\<forall>j<w. hi (cdescs u ! j) = 0) \<or> lo (global_Window u) < hi e + d" if solo
            using t(8) [OF that] u(2) i [OF that] that by (auto simp: ord_2ds_def)
          fix x K2 assume x: "inv_2ds opt solo w d opss (x, K2)" "ord_2ds solo i u x" "hist_rely i K K2"
          have "local_2ds opt solo w d i (count_get_fail l') P x"
            using lu [OF ord_2ds_trans [OF u(2) x(2)]] by (simp add: local_2ds_def count_get_fail_def)
          then show "?safe (pop_g (variant_of opt) (set_of opt w d) N n True (count_get_fail l')) (x, K2)"
            using x hist_rely_proj [OF x(3)] Pu Suc.prems(3,4) by (intro Suc.IH) auto
        qed
      qed
      then show ?thesis using t(1) Some ord_2ds_refl by (intro exI [of _ "[]"]) simp
    qed
  qed (use Suc.prems(5) in \<open>auto simp: local_2ds_def\<close>)
qed

section \<open>Linearizability\<close>

text \<open>
  What the state holds of an array of stacks: the chain from each descriptor carries the values of
  the stack, the count is its size, the window is not below \<open>depth\<close>, and, when one thread runs, each
  size is inside the window.
\<close>

definition rep_2ds :: "bool \<Rightarrow> nat \<Rightarrow> stack_2dc \<Rightarrow> int list list \<Rightarrow> bool" where
  "rep_2ds solo d s q \<longleftrightarrow> length q = length (cdescs s) \<and> d \<le> lo (global_Window s) \<and>
     (\<forall>j<length q. holds_cells (\<lambda>a. map_option (\<lambda>n. (cn_val n, cn_next n)) (cnodes s a)) (lo (cdescs s ! j)) (q ! j) \<and>
        hi (cdescs s ! j) = length (q ! j) mod U64 \<and>
        (solo \<longrightarrow> length (q ! j) \<le> lo (global_Window s) \<and> lo (global_Window s) \<le> length (q ! j) + d))"

lemma rep_2ds:
  assumes J: "inv_2ds opt solo w d opss (s, H)"
  shows "\<exists>q. replay (spec_cells solo) (replicate w []) H = Some q \<and> rep_2ds solo d s q"
proof -
  note c = cs.inv_cells [OF J]
  obtain q where q: "replay (spec_cells solo) (replicate w []) H = Some q" "length q = w"
    "\<forall>j<w. map (\<lambda>a. fst (the (sh_cell (shadow H) a))) (sh_stack (shadow H) j) = q ! j"
    using cells_spec [OF c] by metis
  have "(\<lambda>a. map_option (\<lambda>n. (cn_val n, cn_next n)) (cnodes s a)) = cs.cell s" by (simp add: fun_eq_iff cs.cell_def)
  then have h: "holds_cells (\<lambda>a. map_option (\<lambda>n. (cn_val n, cn_next n)) (cnodes s a)) (lo (cdescs s ! j)) (q ! j)" if "j < w" for j
    using cs.inv_rep [OF J] q(1) that by auto
  have len: "length (q ! j) = length (sh_stack (shadow H) j)" if "j < w" for j
    using arg_cong [OF q(3) [rule_format, OF that], of length] by simp
  show ?thesis
    using q(1,2) h len inv_2ds_ext [OF J] by (intro exI [of _ q]) (auto simp: rep_2ds_def ext_2ds_def)
qed

lemma create_node_2dc_safe:
  assumes J: "inv_2ds opt solo w d opss (s, H)" and P: "proj i H = P" and l: "local_2ds opt solo w d i l P s"
    and k: "\<And>t H' l'. inv_2ds opt solo w d opss (t, H') \<Longrightarrow> hist_rely i H H' \<Longrightarrow> own_2ds i (Addr i (pushes P)) v P t \<Longrightarrow>
      cthread_id l' = i \<Longrightarrow> calloc_next l' = pushes P + 1 \<Longrightarrow> thread_index l' < w \<Longrightarrow> knows_2ds opt w d solo (thread_Window l') t \<Longrightarrow>
      safe_2ds opt solo w d opss i Q (k (Addr i (pushes P)) l') (t, H')"
  shows "safe_2ds opt solo w d opss i Q (create_node_2dc key v None l k) (s, H)"
  unfolding create_node_2dc_def Let_def
  apply (rule lin_store, rule J)
  subgoal premises p for t H'
  proof -
    let ?a = "Addr (cthread_id l) (calloc_next l)"
    let ?t = "t\<lparr>cnodes := (cnodes t)(?a \<mapsto> \<lparr>cn_key = key, cn_val = v, cn_next = None\<rparr>)\<rparr>"
    have a: "?a = Addr i (pushes P)" and i: "solo \<Longrightarrow> i = 0" using l by (simp_all add: local_2ds_def)
    have c: "inv_2ds opt solo w d opss (?t, H') \<and> stack_array.grd cnodes eo_2ds i t ?t"
      by (rule cs.own_write [OF p(1)]) (use a p(4) P inv_2ds_ext [OF p(1)] in \<open>simp_all add: eo_2ds ext_2ds_def\<close>)
    have W: "knows_2ds opt w d solo (thread_Window l) t"
      using l by (intro knows_2ds_stable [OF _ p(2) i]) (simp_all add: local_2ds_def)
    have "own_2ds i (Addr i (pushes P)) v P ?t" using a by (simp add: cs.own_node_def)
    then have "safe_2ds opt solo w d opss i Q (k ?a (l\<lparr>calloc_next := calloc_next l + 1\<rparr>)) (?t, H')"
      using c p(3) l W unfolding a by (intro k) (auto simp: local_2ds_def w2ds.knows_window_def)
    moreover have "grd_2ds solo i t ?t" using c i by (auto simp: grd_2ds_def)
    ultimately show ?thesis using c by (intro exI [of _ "[]"]) simp
  qed
  done

interpretation lin_2ds: lin_object_hist "no_wrap_2ds opt d" no_fuel "inv_2ds opt solo w d opss" "ord_2ds solo" "grd_2ds solo"
  "local_2ds opt solo w d" "spec_cells solo" "replicate w []" "rep_2ds solo d" "stack_2dc_op opt (set_of opt w d) N n" opss
  for opt solo w d N n opss
proof unfold_locales
  show "op_ok_hist (no_wrap_2ds opt d) no_fuel (inv_2ds opt solo w d opss) (ord_2ds solo) (grd_2ds solo)
      (local_2ds opt solo w d) opss i op (stack_2dc_op opt (set_of opt w d) N n)" if i: "i < length opss" for i op
    unfolding op_ok_hist_def
  proof (intro allI impI)
    fix l s H assume J: "inv_2ds opt solo w d opss (s, H)" "local_2ds opt solo w d i l (proj i H) s"
      "prefix (map fst (proj i H) @ [op]) (opss ! i)"
    let ?P = "proj i H"
    have i0: "solo \<Longrightarrow> i = 0" using J(2) by (simp add: local_2ds_def)
    have push: "safe_2ds opt solo w d opss i (done_2ds opt solo w d opss i ?P (Push key v))
        (create_node_2dc key v None l (\<lambda>new l. push_loop_g (variant_of opt) (set_of opt w d) N n new False l)) (s, H)"
      if "op = Push key v" for key v
      by (rule create_node_2dc_safe [OF J(1) refl J(2)], rule push_loop_g_safe)
        (use J(3) i that i0 in \<open>auto dest: hist_rely_proj\<close>)
    have ret: "safe_2ds opt solo w d opss i (\<lambda>(r, l') (s', H'). inv_2ds opt solo w d opss (s', H') \<and>
          local_2ds opt solo w d i l' (?P @ [(op, r)]) s' \<and> proj i H' = ?P @ [(op, r)])
        (bind p (\<lambda>(r, l). Ret ((r, thread_index l), l))) (s, H)"
      if "safe_2ds opt solo w d opss i (done_2ds opt solo w d opss i ?P op) p (s, H)" for p
      by (rule safe_bind [OF safe_weaken [OF that]])
        (auto simp: lin_rely_def ord_2ds_refl dest!: hist_rely_proj intro: local_2ds_stable)
    show "safe_2ds opt solo w d opss i (\<lambda>(r, l') (s', H'). inv_2ds opt solo w d opss (s', H') \<and>
        local_2ds opt solo w d i l' (?P @ [(op, r)]) s' \<and> proj i H' = ?P @ [(op, r)])
        (stack_2dc_op opt (set_of opt w d) N n op l) (s, H)"
    proof (cases op)
      case (Push key v)
      then show ?thesis using ret [unfolded Push, OF push [OF Push]] unfolding Push stack_2dc_op_eq by simp
    next
      case Pop
      then show ?thesis using ret [unfolded Pop, OF pop_g_safe [OF J(1) refl i _ J(2)]] J(3) unfolding Pop stack_2dc_op_eq by simp
    qed
  qed
  show "\<exists>q. replay (spec_cells solo) (replicate w []) H = Some q \<and> rep_2ds solo d s q" if "inv_2ds opt solo w d opss (s, H)" for s H
    using that by (rule rep_2ds)
  show "local_2ds opt solo w d i l rs t" if "local_2ds opt solo w d i l rs s" "ord_2ds solo i s t" for i l rs s t
    using that by (rule local_2ds_stable)
qed (auto simp: ord_2ds_refl ord_2ds_def grd_2ds_def intro: cs.grd_ord elim: cs.ord_trans)

definition new_thread_2ds :: "nat \<Rightarrow> seeds \<Rightarrow> thread_2ds" where
  "new_thread_2ds i sd = \<lparr>seeds = sd, thread_index = 0, my_put_cas_fail_count = 0, my_get_cas_fail_count = 0,
     my_null_count = 0, my_hop_count = 0, my_slide_count = 0, thread_Window = DW 0 0, my_slide_fail_count = 0,
     cthread_id = i, calloc_next = 0\<rparr>"

definition threads_2ds :: "(stack_op list \<times> seeds) list \<Rightarrow> (stack_op list \<times> thread_2ds) list" where
  "threads_2ds ths = map (\<lambda>i. (fst (ths ! i), new_thread_2ds i (snd (ths ! i)))) [0..<length ths]"

definition init_of :: "bool \<Rightarrow> nat \<Rightarrow> nat \<Rightarrow> stack_2dc" where
  "init_of opt w d = (if opt then init_stack_opt w d else init_stack_2dc w d)"

lemma stack_2dc_threads:
  assumes "0 < w" and "w < U16" and "0 < d" and "d < U16" and "nonzero_ops (map fst ths)" and "solo \<Longrightarrow> length ths \<le> 1"
  shows "linearizable (no_wrap_2ds opt d) no_fuel (spec_cells solo) (replicate w []) (rep_2ds solo d) (map fst ths)
     (init_of opt w d, threads (stack_2dc_op opt (set_of opt w d) N n) (threads_2ds ths))"
proof -
  have m: "map fst ths = map fst (threads_2ds ths)"
    by (auto simp: threads_2ds_def intro: nth_equalityI)
  have "inv_2ds opt solo w d (map fst ths) (init_of opt w d, [])"
    by (rule cs.inv_init) (use assms in \<open>auto simp: init_of_def init_stack_2dc_def init_stack_opt_def
      initialize_global_window_c_def initialize_global_window_o_def ext_2ds_def shadow_Nil U16_def U32_def U64_def\<close>)
  then show ?thesis
    by (rule lin_2ds.linearizable_threads [OF _ m])
      (use assms in \<open>auto simp: threads_2ds_def local_2ds_def new_thread_2ds_def w2ds.knows_window_def init_of_def
        init_stack_2dc_def init_stack_opt_def initialize_global_window_c_def initialize_global_window_o_def rows_of\<close>)
qed





end
