(* ===== verification/Relaxation_Queue.thy ===== *)
theory Relaxation_Queue
  imports Prelude
begin

text \<open>
  The relaxation measurement of the queues and stacks, \<open>include/relaxation_analysis_queue.c\<close>: a
  linked list that mirrors the structure in the order of a strict one, and a list of the
  distances at which removed elements were found. Its functions run under a lock, so they are
  modelled as state transformers on an explicit heap of list nodes; a null pointer followed
  and a failed assertion are errors.

  The refinement relation \<open>rel_abs\<close> ties the heap to two plain lists. The lemmas show that
  adding is appending or prepending, and that removing a value deletes its first occurrence
  and records how many elements were in front of it: its rank error.
\<close>

section \<open>State\<close>

record linear_node =
  val :: int
  nxt :: "nat option"

record linear_list =
  lsize :: nat
  head :: "nat option"
  tail :: "nat option"

record relaxation =
  nodes :: "nat \<Rightarrow> linear_node option"
  brk :: nat
  linear_clone :: linear_list
  error_dists :: linear_list
  gen_count :: nat

type_synonym 'a result = "failure + 'a"

text \<open>\<open>calloc\<close>: fresh memory, here the next unused address.\<close>

definition init_relaxation_analysis :: relaxation where
  "init_relaxation_analysis = \<lparr>nodes = \<lambda>_. None, brk = 0,
     linear_clone = \<lparr>lsize = 0, head = None, tail = None\<rparr>,
     error_dists = \<lparr>lsize = 0, head = None, tail = None\<rparr>, gen_count = 0\<rparr>"

definition gen_relaxation_count :: "relaxation \<Rightarrow> nat \<times> relaxation" where
  "gen_relaxation_count s = (let c = add64 (gen_count s) 1 in (c, s\<lparr>gen_count := c\<rparr>))"

section \<open>Operations\<close>

definition set_next :: "nat \<Rightarrow> nat option \<Rightarrow> relaxation \<Rightarrow> relaxation result" where
  "set_next a p s = (case nodes s a of
     None \<Rightarrow> Inl Bad_pointer
   | Some n \<Rightarrow> Inr (s\<lparr>nodes := (nodes s)(a \<mapsto> n\<lparr>nxt := p\<rparr>)\<rparr>))"

definition add_linear :: "int \<Rightarrow> int \<Rightarrow> relaxation \<Rightarrow> relaxation result" where
  "add_linear v fin s =
    (let a = brk s;
         L = linear_clone s;
         L = L\<lparr>lsize := add64 (lsize L) 1\<rparr>;
         s = s\<lparr>nodes := (nodes s)(a \<mapsto> \<lparr>val = v, nxt = None\<rparr>), brk := a + 1, linear_clone := L\<rparr>
     in case head L of
       None \<Rightarrow> Inr (s\<lparr>linear_clone := L\<lparr>head := Some a, tail := Some a\<rparr>\<rparr>)
     | Some h \<Rightarrow>
         if fin = 1 then
           (case set_next a (Some h) s of Inl e \<Rightarrow> Inl e
            | Inr s \<Rightarrow> Inr (s\<lparr>linear_clone := L\<lparr>head := Some a\<rparr>\<rparr>))
         else if fin = 0 then
           (case tail L of None \<Rightarrow> Inl Bad_pointer
            | Some t \<Rightarrow> (case set_next t (Some a) s of Inl e \<Rightarrow> Inl e
               | Inr s \<Rightarrow> Inr (s\<lparr>linear_clone := L\<lparr>tail := Some a\<rparr>\<rparr>)))
         else Inl Exit_program)"

definition add_relaxed_dist :: "nat \<Rightarrow> relaxation \<Rightarrow> relaxation result" where
  "add_relaxed_dist a s =
    (let E = error_dists s; E = E\<lparr>lsize := add64 (lsize E) 1\<rparr> in
     case set_next a None s of Inl e \<Rightarrow> Inl e
     | Inr s \<Rightarrow> (case head E of
         None \<Rightarrow> Inr (s\<lparr>error_dists := E\<lparr>head := Some a, tail := Some a\<rparr>\<rparr>)
       | Some _ \<Rightarrow> (case tail E of None \<Rightarrow> Inl Bad_pointer
           | Some t \<Rightarrow> (case set_next t (Some a) s of Inl e \<Rightarrow> Inl e
              | Inr s \<Rightarrow> Inr (s\<lparr>error_dists := E\<lparr>tail := Some a\<rparr>\<rparr>)))))"

text \<open>
  The search: from \<open>last\<close>, with \<open>skipped\<close> nodes passed, to the node before the one that holds
  the value. The bound on its iterations is \<open>n\<close>.
\<close>

fun search :: "nat \<Rightarrow> (nat \<Rightarrow> linear_node option) \<Rightarrow> int \<Rightarrow> nat \<Rightarrow> nat \<Rightarrow> (nat \<times> nat \<times> nat) result" where
  "search 0 h v lst skipped = Inl No_fuel"
| "search (Suc n) h v lst skipped = (case h lst of None \<Rightarrow> Inl Bad_pointer
     | Some ln \<Rightarrow> (case nxt ln of None \<Rightarrow> Inl Bad_pointer
        | Some a \<Rightarrow> (case h a of None \<Rightarrow> Inl Bad_pointer
           | Some an \<Rightarrow>
               if val an \<noteq> v then
                 (if nxt an = None then Inl Assert_failed else search n h v a (add64 skipped 1))
               else Inr (lst, a, skipped))))"

definition set_val :: "nat \<Rightarrow> int \<Rightarrow> relaxation \<Rightarrow> relaxation result" where
  "set_val a v s = (case nodes s a of
     None \<Rightarrow> Inl Bad_pointer
   | Some n \<Rightarrow> Inr (s\<lparr>nodes := (nodes s)(a \<mapsto> n\<lparr>val := v\<rparr>)\<rparr>))"

definition remove_linear :: "nat \<Rightarrow> int \<Rightarrow> relaxation \<Rightarrow> relaxation result" where
  "remove_linear N v s =
    (case head (linear_clone s) of
       None \<Rightarrow> Inl Assert_failed
     | Some h \<Rightarrow> (case nodes s h of
         None \<Rightarrow> Inl Bad_pointer
       | Some hn \<Rightarrow>
         (let L = linear_clone s; L = L\<lparr>lsize := sub64 (lsize L) 1\<rparr> in
          if val hn = v then
            if head L = tail L \<and> (nxt hn \<noteq> None \<or> lsize L \<noteq> 0) then Inl Assert_failed
            else
              let L = (if head L = tail L then L\<lparr>tail := None\<rparr> else L);
                  L = L\<lparr>head := nxt hn\<rparr>
              in (case set_val h 0 (s\<lparr>linear_clone := L\<rparr>) of Inl e \<Rightarrow> Inl e
                  | Inr s \<Rightarrow> add_relaxed_dist h s)
          else
            (case search N (nodes s) v h 1 of Inl e \<Rightarrow> Inl e
             | Inr (lst, found, skipped) \<Rightarrow>
               (case nodes s found of None \<Rightarrow> Inl Bad_pointer
                | Some fn \<Rightarrow>
                  (case set_next lst (nxt fn) s of Inl e \<Rightarrow> Inl e
                   | Inr s \<Rightarrow>
                     let L = (if Some found = tail L then L\<lparr>tail := Some lst\<rparr> else L) in
                     (case set_val found (int skipped) (s\<lparr>linear_clone := L\<rparr>) of Inl e \<Rightarrow> Inl e
                      | Inr s \<Rightarrow> add_relaxed_dist found s)))))))"

section \<open>Linked lists\<close>

fun path :: "(nat \<Rightarrow> linear_node option) \<Rightarrow> nat option \<Rightarrow> nat list \<Rightarrow> nat option \<Rightarrow> bool" where
  "path h p [] q \<longleftrightarrow> p = q"
| "path h p (a # as) q \<longleftrightarrow> p = Some a \<and> (\<exists>n. h a = Some n \<and> path h (nxt n) as q)"

definition list_ok :: "(nat \<Rightarrow> linear_node option) \<Rightarrow> linear_list \<Rightarrow> nat list \<Rightarrow> bool" where
  "list_ok h L as \<longleftrightarrow> path h (head L) as None \<and> distinct as \<and>
     tail L = (if as = [] then None else Some (last as)) \<and> lsize L = length as"

definition vals :: "(nat \<Rightarrow> linear_node option) \<Rightarrow> nat list \<Rightarrow> int list" where
  "vals h as = map (\<lambda>a. val (the (h a))) as"

definition rel_abs :: "relaxation \<Rightarrow> int list \<Rightarrow> int list \<Rightarrow> bool" where
  "rel_abs s xs ds \<longleftrightarrow> (\<exists>as es. list_ok (nodes s) (linear_clone s) as \<and> list_ok (nodes s) (error_dists s) es \<and>
     set as \<inter> set es = {} \<and> (\<forall>a \<in> set as \<union> set es. a < brk s) \<and>
     xs = vals (nodes s) as \<and> ds = vals (nodes s) es)"

lemma path_append: "path h p (as @ bs) q \<longleftrightarrow> (\<exists>r. path h p as r \<and> path h r bs q)"
  by (induction as arbitrary: p) auto

lemma path_frame: "(\<And>a. a \<in> set as \<Longrightarrow> h' a = h a) \<Longrightarrow> path h' p as q \<longleftrightarrow> path h p as q"
  by (induction as arbitrary: p) auto

lemma path_dom: "path h p as q \<Longrightarrow> a \<in> set as \<Longrightarrow> \<exists>n. h a = Some n"
  by (induction as arbitrary: p) auto

lemma path_next: "path h p (as @ [a]) q \<Longrightarrow> \<exists>n. h a = Some n \<and> nxt n = q"
  by (auto simp: path_append)

lemma path_update_val:
  "path h p as q \<Longrightarrow> h a = Some n \<Longrightarrow> path (h(a \<mapsto> n\<lparr>val := v\<rparr>)) p as q"
  by (induction as arbitrary: p) auto

lemma vals_frame: "(\<And>a. a \<in> set as \<Longrightarrow> h' a = h a) \<Longrightarrow> vals h' as = vals h as"
  by (auto simp: vals_def)

lemma vals_simps [simp]: "vals h [] = []" "vals h (a # as) = val (the (h a)) # vals h as"
  "vals h (as @ bs) = vals h as @ vals h bs" "length (vals h as) = length as"
  by (simp_all add: vals_def)

text \<open>A pointer of the list redirected: what is before it is kept.\<close>

lemma path_redirect:
  assumes "path h p (as @ [t]) q" and "distinct (as @ [t])" and "h t = Some n"
  shows "path (h(t \<mapsto> n\<lparr>nxt := r\<rparr>)) p (as @ [t]) r"
proof -
  have "path (h(t \<mapsto> n\<lparr>nxt := r\<rparr>)) p as s \<longleftrightarrow> path h p as s" for s
    using assms by (intro path_frame) auto
  then show ?thesis using assms by (auto simp: path_append)
qed

lemma path_snoc:
  assumes "path h p (as @ [t]) None" and "distinct (as @ [t])" and "a \<notin> set (as @ [t])" and "h t = Some n"
    and "h a = Some m" and "nxt m = None"
  shows "path (h(t \<mapsto> n\<lparr>nxt := Some a\<rparr>)) p (as @ [t, a]) None"
proof -
  have "path (h(t \<mapsto> n\<lparr>nxt := Some a\<rparr>)) p ((as @ [t]) @ [a]) None"
    using path_redirect [OF assms(1,2,4), of "Some a"] assms(3,5,6) by (subst path_append) auto
  then show ?thesis by simp
qed

lemma vals_redirect: "h t = Some n \<Longrightarrow> vals (h(t \<mapsto> n\<lparr>nxt := r\<rparr>)) as = vals h as"
  by (auto simp: vals_def)

lemma list_ok_frame:
  "list_ok h L as \<Longrightarrow> (\<And>a. a \<in> set as \<Longrightarrow> h' a = h a) \<Longrightarrow> list_ok h' L as"
  using path_frame [of as h' h "head L" None] by (auto simp: list_ok_def)

lemma upd_frame [simp]:
  "a \<notin> set as \<Longrightarrow> path (h(a \<mapsto> n)) p as q \<longleftrightarrow> path h p as q"
  "a \<notin> set as \<Longrightarrow> list_ok (h(a \<mapsto> n)) L as \<longleftrightarrow> list_ok h L as"
  "a \<notin> set as \<Longrightarrow> vals (h(a \<mapsto> n)) as = vals h as"
proof -
  assume a: "a \<notin> set as"
  then show path: "path (h(a \<mapsto> n)) p as q \<longleftrightarrow> path h p as q" for p q
    by (intro path_frame) auto
  show "list_ok (h(a \<mapsto> n)) L as \<longleftrightarrow> list_ok h L as" using path by (simp add: list_ok_def)
  show "vals (h(a \<mapsto> n)) as = vals h as" using a by (auto intro: vals_frame)
qed

section \<open>Adding\<close>

text \<open>The common step of \<open>add_linear\<close> at the tail and of \<open>add_relaxed_dist\<close>.\<close>

lemma list_ok_snoc:
  assumes "list_ok h L as" and "as \<noteq> []" and "a \<notin> set as" and "h (last as) = Some n"
    and "h a = Some m" and "nxt m = None"
  shows "list_ok (h(last as \<mapsto> n\<lparr>nxt := Some a\<rparr>)) (L\<lparr>lsize := Suc (lsize L), tail := Some a\<rparr>) (as @ [a])"
proof -
  obtain bs t where as: "as = bs @ [t]" using assms(2) by (cases as rule: rev_cases) auto
  show ?thesis
    using assms path_snoc [of h "head L" bs t a n m] by (auto simp: list_ok_def as)
qed

lemma list_ok_last: "list_ok h L as \<Longrightarrow> as \<noteq> [] \<Longrightarrow> \<exists>n. h (last as) = Some n"
  by (auto simp: list_ok_def intro: path_dom)

lemma list_ok_head: "list_ok h L as \<Longrightarrow> head L = None \<longleftrightarrow> as = []"
  by (cases as) (auto simp: list_ok_def)

lemma rel_absI:
  assumes "list_ok (nodes s) (linear_clone s) as" and "list_ok (nodes s) (error_dists s) es"
    and "set as \<inter> set es = {}" and "\<And>a. a \<in> set as \<or> a \<in> set es \<Longrightarrow> a < brk s"
    and "vals (nodes s) as = xs" and "vals (nodes s) es = ds"
  shows "rel_abs s xs ds"
  using assms unfolding rel_abs_def by blast

lemma rel_absE:
  assumes "rel_abs s xs ds"
  obtains as es where "list_ok (nodes s) (linear_clone s) as" "list_ok (nodes s) (error_dists s) es"
    "set as \<inter> set es = {}" "\<And>a. a \<in> set as \<or> a \<in> set es \<Longrightarrow> a < brk s"
    "vals (nodes s) as = xs" "vals (nodes s) es = ds"
  using assms unfolding rel_abs_def by blast

lemma add_linear_abs:
  assumes abs: "rel_abs s xs ds" and fin: "fin = 0 \<or> fin = 1" and bound: "length xs + 1 < U64"
  shows "\<exists>s'. add_linear v fin s = Inr s' \<and> rel_abs s' (if fin = 1 then v # xs else xs @ [v]) ds"
proof -
  obtain as es where a: "list_ok (nodes s) (linear_clone s) as" and e: "list_ok (nodes s) (error_dists s) es"
    and dis: "set as \<inter> set es = {}" and brk: "\<And>a. a \<in> set as \<or> a \<in> set es \<Longrightarrow> a < brk s"
    and xs: "vals (nodes s) as = xs" and ds: "vals (nodes s) es = ds"
    using abs by (rule rel_absE) blast
  let ?a = "brk s" and ?L = "linear_clone s"
  let ?h = "(nodes s)(?a \<mapsto> \<lparr>val = v, nxt = None\<rparr>)"
  have fresh: "?a \<notin> set as" "?a \<notin> set es" using brk by auto
  have sz: "add64 (lsize ?L) 1 = Suc (lsize ?L)"
    using a xs bound by (auto simp: list_ok_def add64_eq)
  have a': "list_ok ?h ?L as" "list_ok ?h (error_dists s) es"
    using a e fresh by (simp_all del: fun_upd_apply)
  have v': "vals ?h as = xs" "vals ?h es = ds"
    using xs ds fresh by (simp_all del: fun_upd_apply)
  have less: "x = ?a \<or> x \<in> set as \<or> x \<in> set es \<Longrightarrow> x < ?a + 1" for x
    using brk [of x] by auto
  show ?thesis
  proof (cases "as = []")
    case True
    then have hd: "head ?L = None" "xs = []" using list_ok_head [OF a] xs by simp_all
    let ?s = "s\<lparr>nodes := ?h, brk := ?a + 1, linear_clone := ?L\<lparr>lsize := Suc (lsize ?L), head := Some ?a, tail := Some ?a\<rparr>\<rparr>"
    have "add_linear v fin s = Inr ?s" using hd sz by (simp add: add_linear_def Let_def)
    moreover have "rel_abs ?s [v] ds"
      by (rule rel_absI [where as = "[?a]" and es = es])
        (use a a' fresh v' less True in \<open>auto simp: list_ok_def\<close>)
    ultimately show ?thesis using hd by simp
  next
    case False
    then obtain h where h: "head ?L = Some h" using list_ok_head [OF a] by auto
    show ?thesis
    proof (cases "fin = 1")
      case True
      let ?h1 = "?h(?a \<mapsto> \<lparr>val = v, nxt = Some h\<rparr>)"
      let ?s = "s\<lparr>nodes := ?h1, brk := ?a + 1, linear_clone := ?L\<lparr>lsize := Suc (lsize ?L), head := Some ?a\<rparr>\<rparr>"
      have run: "add_linear v fin s = Inr ?s" using True h sz by (simp add: add_linear_def Let_def set_next_def)
      have "rel_abs ?s (v # xs) ds"
        by (rule rel_absI [where as = "?a # as" and es = es])
          (use a e h xs ds fresh dis less False in \<open>simp_all add: list_ok_def fun_upd_same del: fun_upd_apply\<close>)
      then show ?thesis using run True by simp
    next
      case at_tail: False
      obtain n where n: "?h (last as) = Some n" using list_ok_last [OF a'(1) False] by blast
      have t: "tail ?L = Some (last as)" using a False by (simp add: list_ok_def)
      have l: "last as \<noteq> ?a" "last as \<notin> set es" "last as \<in> set as"
        using fresh dis False by (auto dest: last_in_set)
      let ?h1 = "?h(last as \<mapsto> n\<lparr>nxt := Some ?a\<rparr>)"
      let ?s = "s\<lparr>nodes := ?h1, brk := ?a + 1, linear_clone := ?L\<lparr>lsize := Suc (lsize ?L), tail := Some ?a\<rparr>\<rparr>"
      have run: "add_linear v fin s = Inr ?s"
        using at_tail fin h sz n t by (simp add: add_linear_def Let_def set_next_def)
      have "rel_abs ?s (xs @ [v]) ds"
      proof (rule rel_absI [where as = "as @ [?a]" and es = es])
        show "list_ok (nodes ?s) (linear_clone ?s) (as @ [?a])"
          using list_ok_snoc [OF a'(1) False fresh(1) n] by (simp add: fun_upd_same del: fun_upd_apply)
        show "list_ok (nodes ?s) (error_dists ?s) es" "vals (nodes ?s) es = ds"
          using a' v' l by (simp_all del: fun_upd_apply)
        show "vals (nodes ?s) (as @ [?a]) = xs @ [v]"
          using v' l(1) [symmetric] by (simp add: vals_redirect [of ?h "last as" n, OF n] del: fun_upd_apply) (simp add: vals_def)
      qed (use fresh dis less in auto)
      then show ?thesis using run at_tail by simp
    qed
  qed
qed

section \<open>Removing\<close>

text \<open>The removed node is appended to the distances, whatever its value then is.\<close>

lemma add_relaxed_dist_abs:
  assumes a: "list_ok (nodes s) (linear_clone s) as" and e: "list_ok (nodes s) (error_dists s) es"
    and dis: "set as \<inter> set es = {}" and brk: "\<And>b. b = a \<or> b \<in> set as \<or> b \<in> set es \<Longrightarrow> b < brk s"
    and fresh: "a \<notin> set as" "a \<notin> set es" and n: "nodes s a = Some n" and bound: "length es + 1 < U64"
  shows "\<exists>s'. add_relaxed_dist a s = Inr s' \<and>
    rel_abs s' (vals (nodes s) as) (vals (nodes s) es @ [val n])"
proof -
  let ?E = "error_dists s"
  let ?h = "(nodes s)(a \<mapsto> n\<lparr>nxt := None\<rparr>)"
  have sz: "add64 (lsize ?E) 1 = Suc (lsize ?E)"
    using e bound by (auto simp: list_ok_def add64_eq)
  have ok: "list_ok ?h (linear_clone s) as" "list_ok ?h ?E es" "vals ?h as = vals (nodes s) as" "vals ?h es = vals (nodes s) es"
    using a e fresh by (simp_all del: fun_upd_apply)
  show ?thesis
  proof (cases "es = []")
    case True
    then have hd: "head ?E = None" using list_ok_head [OF e] by simp
    let ?s = "s\<lparr>nodes := ?h, error_dists := ?E\<lparr>lsize := Suc (lsize ?E), head := Some a, tail := Some a\<rparr>\<rparr>"
    have "add_relaxed_dist a s = Inr ?s"
      using hd sz n by (simp add: add_relaxed_dist_def set_next_def Let_def)
    moreover have "rel_abs ?s (vals (nodes s) as) (vals (nodes s) es @ [val n])"
      by (rule rel_absI [where as = as and es = "[a]"])
        (use ok fresh brk True e in \<open>auto simp: list_ok_def\<close>)
    ultimately show ?thesis by blast
  next
    case False
    obtain m where m: "?h (last es) = Some m" using list_ok_last [OF ok(2) False] by blast
    have t: "tail ?E = Some (last es)" "head ?E \<noteq> None" using e False list_ok_head [OF e] by (auto simp: list_ok_def)
    have l: "last es \<noteq> a" "last es \<notin> set as"
      using fresh dis False by (auto dest: last_in_set)
    let ?h1 = "?h(last es \<mapsto> m\<lparr>nxt := Some a\<rparr>)"
    let ?s = "s\<lparr>nodes := ?h1, error_dists := ?E\<lparr>lsize := Suc (lsize ?E), tail := Some a\<rparr>\<rparr>"
    have run: "add_relaxed_dist a s = Inr ?s"
      using t sz n m by (auto simp: add_relaxed_dist_def set_next_def Let_def)
    have "rel_abs ?s (vals (nodes s) as) (vals (nodes s) es @ [val n])"
    proof (rule rel_absI [where as = as and es = "es @ [a]"])
      show "list_ok (nodes ?s) (error_dists ?s) (es @ [a])"
        using list_ok_snoc [OF ok(2) False fresh(2) m] by (simp add: fun_upd_same del: fun_upd_apply)
      show "list_ok (nodes ?s) (linear_clone ?s) as" "vals (nodes ?s) as = vals (nodes s) as"
        using ok l by (simp_all del: fun_upd_apply)
      show "vals (nodes ?s) (es @ [a]) = vals (nodes s) es @ [val n]"
        using ok(4) l(1) [symmetric] by (simp add: vals_redirect [of ?h "last es" m, OF m] del: fun_upd_apply) (simp add: vals_def)
    qed (use fresh dis brk in auto)
    then show ?thesis using run by blast
  qed
qed

text \<open>The search finds the first node after \<open>lst\<close> that holds the value.\<close>

lemma search_finds:
  assumes "path h (Some lst) (lst # bs @ c # cs) None" and "v \<notin> set (vals h bs)" and "val (the (h c)) = v"
    and "length bs < n" and "k + length bs < U64"
  shows "search n h v lst k = Inr (last (lst # bs), c, k + length bs)"
  using assms
proof (induction bs arbitrary: lst n k)
  case Nil
  then show ?case by (cases n) (auto)
next
  case (Cons b bs)
  obtain n' where n: "n = Suc n'" using Cons.prems(4) by (cases n) auto
  have "search n' h v b (Suc k) = Inr (last (b # bs), c, Suc k + length bs)"
    using Cons.prems by (intro Cons.IH) (auto simp: n)
  moreover have "add64 k 1 = Suc k" using Cons.prems(5) by (simp add: add64_eq)
  moreover have "\<exists>m. h b = Some m \<and> nxt m \<noteq> None"
    using Cons.prems(1) by (cases bs) auto
  ultimately show ?case using Cons.prems n by (auto split: option.splits)
qed

lemma remove_linear_head:
  assumes abs: "rel_abs s (v # zs) ds" and bound: "length ds + 1 < U64" "length zs + 1 < U64"
  shows "\<exists>s'. remove_linear N v s = Inr s' \<and> rel_abs s' zs (ds @ [0])"
proof -
  obtain as es where a: "list_ok (nodes s) (linear_clone s) as" and e: "list_ok (nodes s) (error_dists s) es"
    and dis: "set as \<inter> set es = {}" and brk: "\<And>a. a \<in> set as \<or> a \<in> set es \<Longrightarrow> a < brk s"
    and xs: "vals (nodes s) as = v # zs" and ds: "vals (nodes s) es = ds"
    using abs by (rule rel_absE) blast
  obtain c cs where as: "as = c # cs" using xs by (cases as) auto
  obtain n where n: "nodes s c = Some n" "path (nodes s) (nxt n) cs None" "head (linear_clone s) = Some c"
    using a by (auto simp: list_ok_def as)
  have v: "val n = v" "vals (nodes s) cs = zs" using xs n by (simp_all add: as)
  have l: "length zs = length cs" "length ds = length es" using v(2) ds by auto
  have sz: "sub64 (lsize (linear_clone s)) 1 = length cs"
    using a bound l by (simp add: list_ok_def as sub64_eq)
  let ?L = "(linear_clone s)\<lparr>lsize := length cs\<rparr>"
  let ?L1 = "(if cs = [] then ?L\<lparr>tail := None\<rparr> else ?L)\<lparr>head := nxt n\<rparr>"
  let ?s = "s\<lparr>linear_clone := ?L1, nodes := (nodes s)(c \<mapsto> n\<lparr>val := 0\<rparr>)\<rparr>"
  have c: "c \<notin> set cs" "c \<notin> set es" using a dis by (auto simp: list_ok_def as)
  have tl: "tail (linear_clone s) = Some (last as)" using a by (simp add: list_ok_def as)
  have same: "Some c = tail (linear_clone s) \<longleftrightarrow> cs = []"
    using c(1) last_in_set [of cs] by (auto simp: tl as)
  have nn: "cs = [] \<Longrightarrow> nxt n = None" using n(2) by simp
  have run: "remove_linear N v s = add_relaxed_dist c ?s"
    using n v sz same nn by (simp add: remove_linear_def Let_def set_val_def)
  have "\<exists>s'. add_relaxed_dist c ?s = Inr s' \<and>
      rel_abs s' (vals (nodes ?s) cs) (vals (nodes ?s) es @ [val (n\<lparr>val := 0\<rparr>)])"
  proof (rule add_relaxed_dist_abs)
    show "list_ok (nodes ?s) (linear_clone ?s) cs"
      using a n c by (auto simp: list_ok_def as simp del: fun_upd_apply)
    show "list_ok (nodes ?s) (error_dists ?s) es" using e c by (simp del: fun_upd_apply)
  qed (use dis brk c l bound in \<open>auto simp: as\<close>)
  then show ?thesis
    using run v(2) ds c by (simp del: fun_upd_apply)
qed

text \<open>Unlinking a node from the middle or the end.\<close>

lemma list_ok_unlink:
  assumes ok: "list_ok h L (as @ [t] @ c # cs)" and t: "h t = Some m" and c: "h c = Some n"
  shows "list_ok (h(t \<mapsto> m\<lparr>nxt := nxt n\<rparr>)) (L\<lparr>lsize := lsize L - 1, tail := if cs = [] then Some t else tail L\<rparr>)
    (as @ [t] @ cs)"
proof -
  have p: "path h (head L) (as @ [t]) (Some c)" "path h (nxt n) cs None" and d: "distinct (as @ [t])" "t \<notin> set cs"
    using ok t c by (auto simp: list_ok_def path_append)
  have "path (h(t \<mapsto> m\<lparr>nxt := nxt n\<rparr>)) (head L) ((as @ [t]) @ cs) None"
    using path_redirect [OF p(1) d(1) t, of "nxt n"] p(2) d(2) by (subst path_append) (auto simp del: fun_upd_apply)
  then show ?thesis using ok by (auto simp: list_ok_def)
qed

lemma remove_linear_middle:
  assumes abs: "rel_abs s (u # ys @ v # zs) ds" and v: "v \<noteq> u" "v \<notin> set ys"
    and bound: "length ds + 1 < U64" "length ys + length zs + 2 < U64" "length ys < N"
  shows "\<exists>s'. remove_linear N v s = Inr s' \<and> rel_abs s' (u # ys @ zs) (ds @ [int (length ys + 1)])"
proof -
  obtain as es where a: "list_ok (nodes s) (linear_clone s) as" and e: "list_ok (nodes s) (error_dists s) es"
    and dis: "set as \<inter> set es = {}" and brk: "\<And>a. a \<in> set as \<or> a \<in> set es \<Longrightarrow> a < brk s"
    and xs: "vals (nodes s) as = u # ys @ v # zs" and ds: "vals (nodes s) es = ds"
    using abs by (rule rel_absE) blast
  obtain b rest where as1: "as = b # rest" and rest: "vals (nodes s) rest = ys @ v # zs" "val (the (nodes s b)) = u"
    using xs by (cases as) auto
  obtain bs c cs where as2: "rest = bs @ c # cs" and bs: "vals (nodes s) bs = ys" "val (the (nodes s c)) = v"
      "vals (nodes s) cs = zs"
    using rest(1) unfolding vals_def map_eq_append_conv map_eq_Cons_conv by auto
  note as = as1 as2
  let ?t = "last (b # bs)"
  have split: "as = butlast (b # bs) @ [?t] @ c # cs"
    using append_butlast_last_id [of "b # bs"] unfolding as by simp
  have p: "path (nodes s) (Some b) (b # bs @ c # cs) None" and hd: "head (linear_clone s) = Some b"
    and d: "distinct (b # bs @ c # cs)" using a by (auto simp: list_ok_def as)
  obtain m n n0 where m: "nodes s ?t = Some m" and n: "nodes s c = Some n" and n0: "nodes s b = Some n0"
    using path_dom [OF p, of ?t] path_dom [OF p, of c] path_dom [OF p, of b] last_in_set [of "b # bs"] by auto
  have len: "length bs = length ys" "length cs = length zs" "length es = length ds" using bs ds by auto
  have sz: "lsize (linear_clone s) = length bs + length cs + 2" "sub64 (lsize (linear_clone s)) 1 = lsize (linear_clone s) - 1"
    using a bound len by (simp_all add: list_ok_def as sub64_eq)
  have tc: "?t \<noteq> c" "?t \<in> set (b # bs)" using d last_in_set [of "b # bs"] by auto
  have ce: "c \<notin> set es" "?t \<notin> set es" using dis tc by (auto simp: as)
  have search: "search N (nodes s) v b 1 = Inr (?t, c, length ys + 1)"
    using search_finds [OF p, of v N 1] bs v bound len by simp
  have tl: "Some c = tail (linear_clone s) \<longleftrightarrow> cs = []"
    using a d by (auto simp: list_ok_def as)
  let ?h = "(nodes s)(?t \<mapsto> m\<lparr>nxt := nxt n\<rparr>)"
  let ?L = "(linear_clone s)\<lparr>lsize := lsize (linear_clone s) - 1, tail := if cs = [] then Some ?t else tail (linear_clone s)\<rparr>"
  let ?s = "s\<lparr>linear_clone := ?L, nodes := ?h(c \<mapsto> n\<lparr>val := int (length ys + 1)\<rparr>)\<rparr>"
  have run: "remove_linear N v s = add_relaxed_dist c ?s"
    using hd n0 rest(2) v(1) search sz(2) m n tl tc(1)
    by (auto simp: remove_linear_def Let_def set_next_def set_val_def)
  have ok: "list_ok ?h ?L (butlast (b # bs) @ [?t] @ cs)"
    by (rule list_ok_unlink [OF a [unfolded split] m n])
  have bb: "butlast (b # bs) @ [?t] @ cs = b # bs @ cs"
    using append_butlast_last_id [of "b # bs"] by simp
  have "\<exists>s'. add_relaxed_dist c ?s = Inr s' \<and>
      rel_abs s' (vals (nodes ?s) (b # bs @ cs)) (vals (nodes ?s) es @ [val (n\<lparr>val := int (length ys + 1)\<rparr>)])"
  proof (rule add_relaxed_dist_abs)
    show "list_ok (nodes ?s) (linear_clone ?s) (b # bs @ cs)"
      using ok d unfolding bb by (simp del: fun_upd_apply)
    show "list_ok (nodes ?s) (error_dists ?s) es" using e ce by (simp del: fun_upd_apply)
    show "x < brk ?s" if "x = c \<or> x \<in> set (b # bs @ cs) \<or> x \<in> set es" for x
      using that brk [of x] by (auto simp: as)
  qed (use dis d len bound in \<open>auto simp: as\<close>)
  moreover have "vals (nodes ?s) (b # bs @ cs) = vals (nodes s) (b # bs @ cs)"
    using d vals_redirect [of "nodes s" ?t m "nxt n" "b # bs @ cs"] m upd_frame(3) [of c "b # bs @ cs" ?h]
    by (simp del: fun_upd_apply vals_simps)
  moreover have "vals (nodes ?s) es = ds" using ce ds by (simp del: fun_upd_apply)
  ultimately show ?thesis using run rest(2) bs by simp
qed

section \<open>A whole measurement\<close>

text \<open>
  The calls the structure makes under the lock, in the order of its linearization: \<open>Added v e\<close>
  for a put at end \<open>e\<close>, \<open>Removed v\<close> for a get.
\<close>

datatype event = Added int int | Removed int

fun record_event :: "nat \<Rightarrow> event \<Rightarrow> relaxation \<Rightarrow> relaxation result" where
  "record_event N (Added v e) s = add_linear v e s"
| "record_event N (Removed v) s = remove_linear N v s"

fun record_events :: "nat \<Rightarrow> event list \<Rightarrow> relaxation \<Rightarrow> relaxation result" where
  "record_events N [] s = Inr s"
| "record_events N (x # xs) s = (case record_event N x s of Inl e \<Rightarrow> Inl e | Inr t \<Rightarrow> record_events N xs t)"

text \<open>
  The strict list: a removal deletes the first occurrence, and its rank error is the number of
  elements in front of it. \<open>None\<close>: a removal of something that is not there.
\<close>

definition rank :: "int \<Rightarrow> int list \<Rightarrow> nat" where
  "rank v xs = length (takeWhile (\<lambda>x. x \<noteq> v) xs)"

fun strict_step :: "event \<Rightarrow> int list \<times> int list \<Rightarrow> (int list \<times> int list) option" where
  "strict_step (Added v e) (xs, ds) = (if e = 1 then Some (v # xs, ds) else if e = 0 then Some (xs @ [v], ds) else None)"
| "strict_step (Removed v) (xs, ds) = (if v \<in> set xs then Some (remove1 v xs, ds @ [int (rank v xs)]) else None)"

fun strict_steps :: "event list \<Rightarrow> int list \<times> int list \<Rightarrow> (int list \<times> int list) option" where
  "strict_steps [] q = Some q"
| "strict_steps (x # xs) q = (case strict_step x q of None \<Rightarrow> None | Some q' \<Rightarrow> strict_steps xs q')"

lemma remove_linear_abs:
  assumes abs: "rel_abs s xs ds" and v: "v \<in> set xs"
    and bound: "length ds + 1 < U64" "length xs < U64" "length xs \<le> N"
  shows "\<exists>s'. remove_linear N v s = Inr s' \<and> rel_abs s' (remove1 v xs) (ds @ [int (rank v xs)])"
proof (cases "hd xs = v")
  case True
  then obtain zs where xs: "xs = v # zs" using v by (cases xs) auto
  show ?thesis using remove_linear_head [of s v zs ds N] abs bound by (simp add: xs rank_def)
next
  case False
  obtain ys zs where split: "xs = ys @ v # zs" "v \<notin> set ys" using v by (auto dest: split_list_first)
  then obtain u us where ys: "ys = u # us" using False by (cases ys) auto
  have tw: "takeWhile (\<lambda>x. x \<noteq> v) (us @ v # zs) = us"
    using split(2) by (subst takeWhile_append2) (auto simp: ys)
  show ?thesis
    using remove_linear_middle [of s u us v zs ds N] abs bound split
    by (auto simp: ys rank_def tw remove1_append)
qed

lemma strict_step_bound:
  "strict_step x (xs, ds) = Some (xs', ds') \<Longrightarrow> length xs' + length ds' \<le> length xs + length ds + 1"
  by (cases x) (auto split: if_splits simp: length_remove1)

lemma record_events_abs:
  assumes "strict_steps evs ([], []) = Some (xs, ds)" and "length evs < U64 - 1"
  shows "\<exists>s. record_events (length evs) evs init_relaxation_analysis = Inr s \<and> rel_abs s xs ds"
proof -
  have "\<exists>t. record_events N evs s = Inr t \<and> rel_abs t xs ds"
    if "rel_abs s xs0 ds0" "strict_steps evs (xs0, ds0) = Some (xs, ds)"
      "length xs0 + length ds0 + length evs < U64 - 1" "length xs0 + length evs \<le> N" for N s xs0 ds0
    using that
  proof (induction evs arbitrary: s xs0 ds0)
    case (Cons x evs)
    obtain xs1 ds1 where q: "strict_step x (xs0, ds0) = Some (xs1, ds1)" "strict_steps evs (xs1, ds1) = Some (xs, ds)"
      using Cons.prems(2) by (auto split: option.splits)
    have len: "length xs1 + length ds1 \<le> length xs0 + length ds0 + 1" by (rule strict_step_bound [OF q(1)])
    have len1: "length xs1 \<le> length xs0 + 1" using q(1) by (cases x) (auto split: if_splits simp: length_remove1)
    have "\<exists>t. record_event N x s = Inr t \<and> rel_abs t xs1 ds1"
    proof (cases x)
      case (Added v e)
      then show ?thesis
        using add_linear_abs [OF Cons.prems(1), of e v] q(1) Cons.prems(3) by (auto split: if_splits)
    next
      case (Removed v)
      then show ?thesis
        using remove_linear_abs [OF Cons.prems(1), of v N] q(1) Cons.prems(3,4) by (auto split: if_splits)
    qed
    then obtain t where t: "record_event N x s = Inr t" "rel_abs t xs1 ds1" by blast
    then show ?case using Cons.IH [OF t(2) q(2)] Cons.prems(3,4) len len1 by auto
  qed auto
  moreover have "rel_abs init_relaxation_analysis [] []"
    by (auto simp: rel_abs_def init_relaxation_analysis_def list_ok_def)
  ultimately show ?thesis using assms by fastforce
qed

text \<open>
  C6: the analysis computes the rank errors. For every sequence of additions and removals in
  which each removed value is present, the linked lists of the C code end up representing the
  strict list and, in order, the number of elements that stood in front of each removed value;
  no null pointer is followed and no assertion fails.
\<close>

theorem relaxation_analysis_rank_errors:
  assumes "strict_steps evs ([], []) = Some (xs, ds)" and "length evs < U64 - 1"
  shows "\<exists>s. record_events (length evs) evs init_relaxation_analysis = Inr s \<and> rel_abs s xs ds"
  using assms by (rule record_events_abs)

lemma relaxation_analysis_rank_errors_witness:
  "\<exists>s. record_events 5 [Added 1 0, Added 2 0, Added 3 0, Removed 3, Removed 1] init_relaxation_analysis = Inr s \<and>
     rel_abs s [2] [2, 0]"
proof -
  let ?evs = "[Added 1 0, Added 2 0, Added 3 0, Removed 3, Removed 1]"
  have "length ?evs = 5" "strict_steps ?evs ([], []) = Some ([2], [2, 0])" "length ?evs < U64 - 1"
    by (simp_all add: rank_def U64_def)
  then show ?thesis using relaxation_analysis_rank_errors [of ?evs "[2]" "[2, 0]"] by metis
qed

text \<open>
  C11: a value that is not in the list: on an empty list the assertion fails, on a list of one
  element the search follows the null \<open>next\<close> of the head, because the assertion that would
  stop it comes only after the dereference; on longer lists that assertion fails.
\<close>

theorem remove_linear_absent:
  assumes "rel_abs s xs ds" and "v \<notin> set xs" and "length xs \<le> N"
  shows "remove_linear N v s = Inl (if length xs = 1 then Bad_pointer else Assert_failed)"
proof -
  obtain as where a: "list_ok (nodes s) (linear_clone s) as" and xs: "vals (nodes s) as = xs"
    using assms(1) by (rule rel_absE) blast
  have gone: "search n (nodes s) v b k = Inl (if bs = [] then Bad_pointer else Assert_failed)"
    if "path (nodes s) (Some b) (b # bs) None" "v \<notin> set (vals (nodes s) bs)" "length bs < n" for b bs n k
    using that
  proof (induction bs arbitrary: b n k)
    case Nil
    then show ?case by (cases n) auto
  next
    case (Cons c cs)
    obtain n' where n: "n = Suc n'" using Cons.prems(3) by (cases n) auto
    show ?case
      using Cons.IH [of c n' "add64 k 1"] Cons.prems by (cases cs) (auto simp: n)
  qed
  show ?thesis
  proof (cases as)
    case Nil
    then show ?thesis using a xs by (auto simp: remove_linear_def list_ok_def)
  next
    case (Cons b bs)
    have p: "path (nodes s) (Some b) (b # bs) None" "head (linear_clone s) = Some b"
      using a Cons by (auto simp: list_ok_def)
    have "search N (nodes s) v b 1 = Inl (if bs = [] then Bad_pointer else Assert_failed)"
      by (rule gone [OF p(1)]) (use xs assms Cons in auto)
    then show ?thesis
      using p xs assms(2) Cons by (auto simp: remove_linear_def Let_def)
  qed
qed

lemma remove_linear_absent_witness:
  "remove_linear 1 7 (init_relaxation_analysis\<lparr>nodes := [0 \<mapsto> \<lparr>val = 1, nxt = None\<rparr>], brk := 1,
     linear_clone := \<lparr>lsize = 1, head = Some 0, tail = Some 0\<rparr>\<rparr>) = Inl Bad_pointer"
proof -
  have "rel_abs (init_relaxation_analysis\<lparr>nodes := [0 \<mapsto> \<lparr>val = 1, nxt = None\<rparr>], brk := 1,
     linear_clone := \<lparr>lsize = 1, head = Some 0, tail = Some 0\<rparr>\<rparr>) [1] []"
    by (rule rel_absI [where as = "[0]" and es = "[]"]) (auto simp: init_relaxation_analysis_def list_ok_def)
  from remove_linear_absent [OF this, of 7 1] show ?thesis by simp
qed

end
