(* ===== verification/Relaxation_Stamps.thy ===== *)
theory Relaxation_Stamps
  imports Relaxation_Queue "HOL-Library.Multiset" "HOL-Library.Word"
begin

unbundle bit_operations_syntax

text \<open>
  The other measurement of relaxation, \<open>include/relaxation_analysis_timestamps.c\<close>: each thread
  records its operations with a timestamp in arrays of its own, and afterwards the arrays of
  all threads are combined, sorted, and the rank error of each get is found in a linked list of
  all puts. The theory shows that the result is what the analysis under a lock finds, and what
  the functions that prepare the stamps for output do.

  \<open>qsort\<close> of the C library is a parameter \<open>qs\<close> that sorts by the comparator of the source.
\<close>

section \<open>Recording\<close>

record 'v relax_stamp =
  timestamp :: nat
  stamp_value :: 'v

text \<open>An array of \<open>MAX_RELAX_COUNTS\<close> stamps and the number of those in use.\<close>

record 'v stamp_array =
  slots :: "'v relax_stamp list"
  used :: nat

record 'v thread_stamps =
  put_stamps :: "'v stamp_array"
  get_stamps :: "'v stamp_array"

definition add_stamp :: "nat \<Rightarrow> 'v relax_stamp \<Rightarrow> 'v stamp_array \<Rightarrow> 'v stamp_array result" where
  "add_stamp cap st a =
    (if \<not> used a < length (slots a) then Inl Bad_pointer
     else let a' = a\<lparr>slots := (slots a)[used a := st], used := used a + 1\<rparr> in
       if used a' > cap then Inl Exit_program else Inr a')"

definition add_relaxed_put :: "nat \<Rightarrow> 'v \<Rightarrow> nat \<Rightarrow> 'v thread_stamps \<Rightarrow> 'v thread_stamps result" where
  "add_relaxed_put cap v t l = (case add_stamp cap \<lparr>timestamp = t, stamp_value = v\<rparr> (put_stamps l) of
     Inl e \<Rightarrow> Inl e | Inr a \<Rightarrow> Inr (l\<lparr>put_stamps := a\<rparr>))"

definition add_relaxed_get :: "nat \<Rightarrow> 'v \<Rightarrow> nat \<Rightarrow> 'v thread_stamps \<Rightarrow> 'v thread_stamps result" where
  "add_relaxed_get cap v t l = (case add_stamp cap \<lparr>timestamp = t, stamp_value = v\<rparr> (get_stamps l) of
     Inl e \<Rightarrow> Inl e | Inr a \<Rightarrow> Inr (l\<lparr>get_stamps := a\<rparr>))"

definition zero_stamp :: "'v::zero relax_stamp" where
  "zero_stamp = \<lparr>timestamp = 0, stamp_value = 0\<rparr>"

definition init_relaxation_analysis_local :: "nat \<Rightarrow> 'v::zero thread_stamps" where
  "init_relaxation_analysis_local cap =
    \<lparr>put_stamps = \<lparr>slots = replicate cap zero_stamp, used = 0\<rparr>,
     get_stamps = \<lparr>slots = replicate cap zero_stamp, used = 0\<rparr>\<rparr>"

section \<open>Combining and sorting\<close>

definition compare_timestamps :: "'v relax_stamp \<Rightarrow> 'v relax_stamp \<Rightarrow> int" where
  "compare_timestamps a b = (if timestamp a < timestamp b then - 1 else if timestamp a > timestamp b then 1 else 0)"

definition memcpy :: "nat \<Rightarrow> 'a list \<Rightarrow> nat \<Rightarrow> 'a list \<Rightarrow> 'a list" where
  "memcpy off src n buf = take off buf @ take n src @ drop (off + n) buf"

fun sum_counts :: "'v stamp_array list \<Rightarrow> nat \<Rightarrow> nat" where
  "sum_counts [] tot = tot"
| "sum_counts (a # as) tot = sum_counts as (tot + used a)"

fun copy_stamps :: "'v stamp_array list \<Rightarrow> nat \<Rightarrow> 'v relax_stamp list \<Rightarrow> 'v relax_stamp list" where
  "copy_stamps [] off buf = buf"
| "copy_stamps (a # as) off buf = copy_stamps as (off + used a) (memcpy off (slots a) (used a) buf)"

definition combine_sort_relaxed_stamps :: "('v::zero relax_stamp list \<Rightarrow> 'v relax_stamp list) \<Rightarrow>
    'v stamp_array list \<Rightarrow> 'v relax_stamp list \<times> nat" where
  "combine_sort_relaxed_stamps qs as = (let tot = sum_counts as 0 in
     (qs (copy_stamps as 0 (replicate tot zero_stamp)), tot))"

text \<open>What the C library promises of \<open>qsort\<close>: the same elements, no element greater than a later one.\<close>

definition is_qsort :: "('v relax_stamp list \<Rightarrow> 'v relax_stamp list) \<Rightarrow> bool" where
  "is_qsort qs \<longleftrightarrow> (\<forall>xs. mset (qs xs) = mset xs \<and> sorted_wrt (\<lambda>a b. compare_timestamps a b \<le> 0) (qs xs))"

section \<open>Rank errors\<close>

text \<open>
  The list of items: node \<open>i\<close> is \<open>item_list[i]\<close>. Without any put its last node would be the
  one before the array.
\<close>

definition item_list :: "int list \<Rightarrow> (nat \<Rightarrow> linear_node option) result" where
  "item_list vs = (if vs = [] then Inl Bad_pointer
     else Inr (\<lambda>i. if i < length vs then Some \<lparr>val = vs ! i, nxt = (if i = length vs - 1 then None else Some (i + 1))\<rparr> else None))"

fun scan :: "nat \<Rightarrow> (nat \<Rightarrow> linear_node option) \<Rightarrow> int \<Rightarrow> nat \<Rightarrow> nat \<Rightarrow> (nat \<times> nat \<times> nat) result" where
  "scan 0 h key current rank_error = Inl No_fuel"
| "scan (Suc n) h key current rank_error = (case h current of None \<Rightarrow> Inl Bad_pointer
     | Some cn \<Rightarrow> (case nxt cn of None \<Rightarrow> Inl Bad_pointer
        | Some a \<Rightarrow> (case h a of None \<Rightarrow> Inl Bad_pointer
           | Some an \<Rightarrow>
               if val an \<noteq> key then
                 (if nxt an = None then Inl Exit_program else scan n h key a (add64 rank_error 1))
               else Inr (current, a, rank_error))))"

definition find_rank :: "nat \<Rightarrow> int \<Rightarrow> (nat \<Rightarrow> linear_node option) \<times> nat option \<Rightarrow>
    (nat \<times> (nat \<Rightarrow> linear_node option) \<times> nat option) result" where
  "find_rank N key s = (case s of (h, hp) \<Rightarrow> (case hp of None \<Rightarrow> Inl Bad_pointer
     | Some a \<Rightarrow> (case h a of None \<Rightarrow> Inl Bad_pointer
        | Some an \<Rightarrow>
            if val an = key then Inr (0, h, nxt an)
            else (case scan N h key a 1 of Inl e \<Rightarrow> Inl e
              | Inr (current, found, rank_error) \<Rightarrow>
                 (case (h current, h found) of
                    (Some cn, Some fn) \<Rightarrow> Inr (rank_error, h(current \<mapsto> cn\<lparr>nxt := nxt fn\<rparr>), hp)
                  | _ \<Rightarrow> Inl Bad_pointer)))))"

text \<open>The loop over the gets: the rank errors, their sum and their maximum.\<close>

fun rank_loop :: "nat \<Rightarrow> int list \<Rightarrow> (nat \<Rightarrow> linear_node option) \<times> nat option \<Rightarrow> nat list \<Rightarrow> nat \<Rightarrow> nat \<Rightarrow>
    (nat list \<times> nat \<times> nat) result" where
  "rank_loop N [] s errs sm mx = Inr (errs, sm, mx)"
| "rank_loop N (key # keys) s errs sm mx = (case find_rank N key s of Inl e \<Rightarrow> Inl e
     | Inr (r, s') \<Rightarrow> rank_loop N keys s' (errs @ [r]) (add64 sm r) (if r > mx then r else mx))"

definition relaxation_measurements :: "(int relax_stamp list \<Rightarrow> int relax_stamp list) \<Rightarrow> int thread_stamps list \<Rightarrow>
    (nat list \<times> nat \<times> nat) result" where
  "relaxation_measurements qs ts =
    (case combine_sort_relaxed_stamps qs (map put_stamps ts) of (puts, tot_put) \<Rightarrow>
     case combine_sort_relaxed_stamps qs (map get_stamps ts) of (gets, tot_get) \<Rightarrow>
     case item_list (map stamp_value puts) of Inl e \<Rightarrow> Inl e
     | Inr h \<Rightarrow> rank_loop tot_put (map stamp_value gets) (h, Some 0) [] 0 0)"

text \<open>A whole run: the operations with the thread and time of each.\<close>

fun record_stamp :: "nat \<Rightarrow> nat \<times> nat \<times> event \<Rightarrow> int thread_stamps list \<Rightarrow> int thread_stamps list result" where
  "record_stamp cap (th, t, Added v e) ts = (if \<not> th < length ts then Inl Bad_pointer
     else case add_relaxed_put cap v t (ts ! th) of Inl e \<Rightarrow> Inl e | Inr l \<Rightarrow> Inr (ts[th := l]))"
| "record_stamp cap (th, t, Removed v) ts = (if \<not> th < length ts then Inl Bad_pointer
     else case add_relaxed_get cap v t (ts ! th) of Inl e \<Rightarrow> Inl e | Inr l \<Rightarrow> Inr (ts[th := l]))"

fun record_stamps :: "nat \<Rightarrow> (nat \<times> nat \<times> event) list \<Rightarrow> int thread_stamps list \<Rightarrow> int thread_stamps list result" where
  "record_stamps cap [] ts = Inr ts"
| "record_stamps cap (x # xs) ts = (case record_stamp cap x ts of Inl e \<Rightarrow> Inl e | Inr ts' \<Rightarrow> record_stamps cap xs ts')"

section \<open>The arrays\<close>

definition array_ok :: "nat \<Rightarrow> 'v stamp_array \<Rightarrow> bool" where
  "array_ok cap a \<longleftrightarrow> length (slots a) = cap \<and> used a \<le> cap"

definition recorded :: "'v stamp_array \<Rightarrow> 'v relax_stamp list" where
  "recorded a = take (used a) (slots a)"

lemma add_stamp_ok:
  assumes "array_ok cap a" and "used a < cap"
  shows "\<exists>a'. add_stamp cap st a = Inr a' \<and> array_ok cap a' \<and> recorded a' = recorded a @ [st] \<and> used a' = Suc (used a)"
  using assms by (auto simp: add_stamp_def array_ok_def recorded_def take_Suc_conv_app_nth)

lemma recorded_length: "array_ok cap a \<Longrightarrow> length (recorded a) = used a"
  by (simp add: array_ok_def recorded_def)

lemma sum_counts: "sum_counts as tot = tot + sum_list (map used as)"
  by (induction as arbitrary: tot) simp_all

lemma copy_stamps:
  assumes "\<And>a. a \<in> set as \<Longrightarrow> array_ok cap a" and "length buf = off + sum_list (map used as)"
  shows "copy_stamps as off buf = take off buf @ concat (map recorded as)"
  using assms
proof (induction as arbitrary: off buf)
  case (Cons a as)
  have "array_ok cap a" using Cons.prems(1) by simp
  then have a: "length (recorded a) = used a" by (rule recorded_length)
  have buf: "memcpy off (slots a) (used a) buf = (take off buf @ recorded a) @ drop (off + used a) buf"
    by (simp add: memcpy_def recorded_def)
  have off: "length (take off buf @ recorded a) = off + used a" using a Cons.prems(2) by simp
  have "copy_stamps as (off + used a) (memcpy off (slots a) (used a) buf) =
      take (off + used a) (memcpy off (slots a) (used a) buf) @ concat (map recorded as)"
  proof (rule Cons.IH)
    show "length (memcpy off (slots a) (used a) buf) = off + used a + sum_list (map used as)"
      unfolding buf using a Cons.prems(2) by simp
  qed (use Cons.prems(1) in auto)
  also have "take (off + used a) (memcpy off (slots a) (used a) buf) = take off buf @ recorded a"
    unfolding buf using off by (simp add: take_append)
  finally show ?case by simp
qed simp

lemma combine_sort:
  assumes "is_qsort qs" and "\<And>a. a \<in> set as \<Longrightarrow> array_ok cap a"
  shows "mset (fst (combine_sort_relaxed_stamps qs as)) = mset (concat (map recorded as))"
    "sorted (map timestamp (fst (combine_sort_relaxed_stamps qs as)))"
    "snd (combine_sort_relaxed_stamps qs as) = length (concat (map recorded as))"
proof -
  have copy: "copy_stamps as 0 (replicate (sum_counts as 0) zero_stamp) = concat (map recorded as)"
    using copy_stamps [of as cap "replicate (sum_counts as 0) zero_stamp" 0] assms(2) by (simp add: sum_counts)
  then show "mset (fst (combine_sort_relaxed_stamps qs as)) = mset (concat (map recorded as))"
    using assms(1) by (simp add: combine_sort_relaxed_stamps_def is_qsort_def)
  have "sorted_wrt (\<lambda>a b. compare_timestamps a b \<le> 0) (fst (combine_sort_relaxed_stamps qs as))"
    using assms(1) by (simp add: combine_sort_relaxed_stamps_def is_qsort_def Let_def)
  then show "sorted (map timestamp (fst (combine_sort_relaxed_stamps qs as)))"
    unfolding sorted_map by (rule sorted_wrt_mono_rel [rotated]) (auto simp: compare_timestamps_def split: if_splits)
  have "used a = length (recorded a)" if "a \<in> set as" for a using recorded_length [OF assms(2) [OF that]] by simp
  then have "sum_list (map used as) = sum_list (map (length \<circ> recorded) as)"
    by (intro arg_cong [where f = sum_list] map_cong) simp_all
  then show "snd (combine_sort_relaxed_stamps qs as) = length (concat (map recorded as))"
    by (simp add: combine_sort_relaxed_stamps_def sum_counts length_concat Let_def)
qed

section \<open>The list of items\<close>

definition items_abs :: "(nat \<Rightarrow> linear_node option) \<Rightarrow> nat option \<Rightarrow> int list \<Rightarrow> bool" where
  "items_abs h hp xs \<longleftrightarrow> (\<exists>as. path h hp as None \<and> distinct as \<and> vals h as = xs)"

lemma item_list_abs:
  assumes "vs \<noteq> []"
  shows "\<exists>h. item_list vs = Inr h \<and> items_abs h (Some 0) vs"
proof -
  let ?n = "length vs"
  let ?h = "\<lambda>i. if i < ?n then Some \<lparr>val = vs ! i, nxt = (if i = ?n - 1 then None else Some (i + 1))\<rparr> else None"
  have "path ?h (if k < ?n then Some k else None) [k..<?n] None" if "k \<le> ?n" for k
    using that
  proof (induction "?n - k" arbitrary: k)
    case (Suc m)
    then have k: "k < ?n" by simp
    have eq: "nxt (the (?h k)) = (if Suc k < ?n then Some (Suc k) else None)" using k by auto
    have "path ?h (if Suc k < ?n then Some (Suc k) else None) [Suc k..<?n] None"
      using Suc by (intro Suc.hyps(1)) auto
    then show ?case using k eq by (simp add: upt_conv_Cons)
  qed simp
  from this [of 0] have "path ?h (Some 0) [0..<?n] None" using assms by simp
  moreover have "vals ?h [0..<?n] = vs" unfolding vals_def by (rule nth_equalityI) auto
  ultimately have "items_abs ?h (Some 0) vs" unfolding items_abs_def by (intro exI [of _ "[0..<?n]"]) simp
  then show ?thesis using assms by (simp add: item_list_def)
qed

text \<open>The search is the one of the analysis under a lock, but for what an absent value does.\<close>

lemma scan_search:
  "scan n h v c k = (case search n h v c k of
     Inl e \<Rightarrow> Inl (if e = Assert_failed then Exit_program else e) | Inr r \<Rightarrow> Inr r)"
  by (induction n h v c k rule: search.induct) (auto split: option.splits)

lemma path_unlink:
  assumes "path h p (as @ [t] @ c # cs) None" and "distinct (as @ [t] @ c # cs)" and "h t = Some m" and "h c = Some n"
  shows "path (h(t \<mapsto> m\<lparr>nxt := nxt n\<rparr>)) p (as @ [t] @ cs) None"
  using list_ok_unlink [of h "\<lparr>lsize = length (as @ [t] @ c # cs), head = p, tail = Some (last (as @ [t] @ c # cs))\<rparr>" as t c cs m n]
    assms by (simp add: list_ok_def)

lemma find_rank_abs:
  assumes abs: "items_abs h hp xs" and v: "v \<in> set xs" and N: "length xs \<le> N" "length xs < U64"
  shows "\<exists>h' hp'. find_rank N v (h, hp) = Inr (rank v xs, h', hp') \<and> items_abs h' hp' (remove1 v xs)"
proof -
  obtain as where p: "path h hp as None" and d: "distinct as" and xs: "vals h as = xs"
    using abs by (auto simp: items_abs_def)
  obtain b rest where as: "as = b # rest" using v xs by (cases as) auto
  obtain bn where bn: "h b = Some bn" "hp = Some b" "path h (nxt bn) rest None" using p as by auto
  show ?thesis
  proof (cases "val bn = v")
    case True
    then have "xs = v # vals h rest" using xs as bn by simp
    then show ?thesis
      using True bn d as by (auto simp: find_rank_def rank_def items_abs_def)
  next
    case False
    have "v \<in> set (vals h rest)" using v xs as bn False by auto
    then obtain ys zs where yz: "vals h rest = ys @ v # zs" "v \<notin> set ys" by (auto dest: split_list_first)
    obtain bs c cs where rest: "rest = bs @ c # cs" and bs: "vals h bs = ys" "val (the (h c)) = v" "vals h cs = zs"
      using yz(1) unfolding vals_def map_eq_append_conv map_eq_Cons_conv by auto
    let ?t = "last (b # bs)"
    have p1: "path h (Some b) (b # bs @ c # cs) None" using p as rest bn by simp
    have len: "length bs + 2 \<le> length xs" using xs as rest by auto
    have search: "search N h v b 1 = Inr (?t, c, 1 + length bs)"
      by (rule search_finds [OF p1]) (use bs yz(2) len N in auto)
    obtain m n where m: "h ?t = Some m" and n: "h c = Some n"
      using path_dom [OF p1, of ?t] path_dom [OF p1, of c] by fastforce
    have split: "b # bs @ c # cs = butlast (b # bs) @ [?t] @ c # cs"
      using append_butlast_last_id [of "b # bs"] by simp
    let ?h = "h(?t \<mapsto> m\<lparr>nxt := nxt n\<rparr>)"
    have "path ?h (Some b) (butlast (b # bs) @ [?t] @ cs) None"
    proof (rule path_unlink [OF _ _ m n])
      show "path h (Some b) (butlast (b # bs) @ [?t] @ c # cs) None" using p1 unfolding split .
      show "distinct (butlast (b # bs) @ [?t] @ c # cs)" using d unfolding as rest split .
    qed
    moreover have eq: "butlast (b # bs) @ [?t] @ cs = b # bs @ cs"
      using append_butlast_last_id [of "b # bs"] by simp
    ultimately have "path ?h (Some b) (b # bs @ cs) None" by (simp only: eq)
    moreover have "vals ?h (b # bs @ cs) = val bn # ys @ zs"
      using vals_redirect [of h ?t m "nxt n" "b # bs @ cs"] m bn bs by simp
    ultimately have "items_abs ?h (Some b) (val bn # ys @ zs)"
      unfolding items_abs_def using d as rest by (intro exI [of _ "b # bs @ cs"]) auto
    moreover have "xs = val bn # ys @ v # zs" using xs as rest bn bs by simp
    moreover have "takeWhile (\<lambda>x. x \<noteq> v) (ys @ v # zs) = ys" using yz(2) by (subst takeWhile_append2) auto
    then have "rank v (val bn # ys @ v # zs) = 1 + length bs"
      using False bs(1) [symmetric] unfolding rank_def by simp
    moreover have "rank v xs = 1 + length bs" "remove1 v xs = val bn # ys @ zs"
      using calculation False yz(2) by (auto simp: remove1_append)
    ultimately show ?thesis
      using False bn search m n yz(2) by (auto simp: find_rank_def scan_search remove1_append)
  qed
qed

lemma rank_loop_abs:
  assumes "items_abs h hp xs" and "strict_steps (map Removed keys) (xs, ds) = Some (xs', ds')"
    and "length xs \<le> N" "length xs < U64" and "ds = map int errs"
  shows "\<exists>errs'. rank_loop N keys (h, hp) errs (sum_list errs mod U64) mx =
      Inr (errs @ errs', sum_list (errs @ errs') mod U64, fold max errs' mx) \<and> ds' = map int (errs @ errs')"
  using assms
proof (induction keys arbitrary: h hp xs ds errs mx)
  case (Cons k keys)
  have k: "k \<in> set xs" "strict_steps (map Removed keys) (remove1 k xs, ds @ [int (rank k xs)]) = Some (xs', ds')"
    using Cons.prems(2) by (auto split: if_splits)
  obtain h' hp' where f: "find_rank N k (h, hp) = Inr (rank k xs, h', hp')" "items_abs h' hp' (remove1 k xs)"
    using find_rank_abs [OF Cons.prems(1) k(1) Cons.prems(3,4)] by blast
  have len: "length (remove1 k xs) \<le> N" "length (remove1 k xs) < U64"
    using Cons.prems(3,4) by (auto simp: length_remove1)
  let ?r = "rank k xs"
  have sum: "add64 (sum_list errs mod U64) ?r = sum_list (errs @ [?r]) mod U64" by (simp add: add64_def mod_simps)
  obtain errs' where e: "rank_loop N keys (h', hp') (errs @ [?r]) (sum_list (errs @ [?r]) mod U64) (max mx ?r) =
      Inr ((errs @ [?r]) @ errs', sum_list ((errs @ [?r]) @ errs') mod U64, fold max errs' (max mx ?r))"
      "ds' = map int ((errs @ [?r]) @ errs')"
    using Cons.IH [OF f(2) k(2) len, of "errs @ [?r]" "max mx ?r"] Cons.prems(5) by auto
  have mx: "(if ?r > mx then ?r else mx) = max mx ?r" by (simp add: max_def)
  show ?case
    by (rule exI [of _ "?r # errs'"]) (use f(1) sum e mx in \<open>simp add: max.commute\<close>)
qed simp

section \<open>The two analyses agree\<close>

fun put_of :: "nat \<times> nat \<times> event \<Rightarrow> int relax_stamp list" where
  "put_of (th, t, Added v e) = [\<lparr>timestamp = t, stamp_value = v\<rparr>]"
| "put_of (th, t, Removed v) = []"

fun get_of :: "nat \<times> nat \<times> event \<Rightarrow> int relax_stamp list" where
  "get_of (th, t, Added v e) = []"
| "get_of (th, t, Removed v) = [\<lparr>timestamp = t, stamp_value = v\<rparr>]"

definition stamps_abs :: "nat \<Rightarrow> nat \<Rightarrow> int thread_stamps list \<Rightarrow> int relax_stamp list \<Rightarrow> int relax_stamp list \<Rightarrow> bool" where
  "stamps_abs cap k ts P G \<longleftrightarrow> (\<forall>l\<in>set ts. array_ok cap (put_stamps l) \<and> used (put_stamps l) \<le> k \<and>
       array_ok cap (get_stamps l) \<and> used (get_stamps l) \<le> k) \<and>
     mset (concat (map (recorded \<circ> put_stamps) ts)) = mset P \<and>
     mset (concat (map (recorded \<circ> get_stamps) ts)) = mset G"

lemma mset_concat_update:
  "i < length xs \<Longrightarrow> f y = f (xs ! i) @ zs \<Longrightarrow> mset (concat (map f (xs[i := y]))) = mset (concat (map f xs)) + mset zs"
proof -
  assume i: "i < length xs" and f: "f y = f (xs ! i) @ zs"
  have "mset (concat (map f xs)) = mset (concat (map f (take i xs @ xs ! i # drop (Suc i) xs)))"
    using i by (simp only: id_take_nth_drop [symmetric])
  then show ?thesis using i f by (simp add: upd_conv_take_nth_drop)
qed

lemma record_stamp_abs:
  assumes abs: "stamps_abs cap k ts P G" and th: "fst x < length ts" and k: "k < cap"
  shows "\<exists>ts'. record_stamp cap x ts = Inr ts' \<and> stamps_abs cap (Suc k) ts' (P @ put_of x) (G @ get_of x) \<and> length ts' = length ts"
proof -
  obtain i t e where x: "x = (i, t, e)" by (cases x)
  let ?l = "ts ! i"
  have i: "i < length ts" using th x by simp
  have l: "array_ok cap (put_stamps ?l)" "used (put_stamps ?l) \<le> k" "array_ok cap (get_stamps ?l)" "used (get_stamps ?l) \<le> k"
    using abs i by (auto simp: stamps_abs_def)
  have others: "\<forall>l\<in>set (ts[i := l']). array_ok cap (put_stamps l) \<and> used (put_stamps l) \<le> Suc k \<and>
      array_ok cap (get_stamps l) \<and> used (get_stamps l) \<le> Suc k"
    if "array_ok cap (put_stamps l') \<and> used (put_stamps l') \<le> Suc k \<and> array_ok cap (get_stamps l') \<and> used (get_stamps l') \<le> Suc k" for l'
    using abs that set_update_subset_insert [of ts i l'] by (fastforce simp: stamps_abs_def)
  show ?thesis
  proof (cases e)
    case (Added v z)
    obtain a where a: "add_stamp cap \<lparr>timestamp = t, stamp_value = v\<rparr> (put_stamps ?l) = Inr a" "array_ok cap a"
      "recorded a = recorded (put_stamps ?l) @ [\<lparr>timestamp = t, stamp_value = v\<rparr>]" "used a = Suc (used (put_stamps ?l))"
      using add_stamp_ok [OF l(1), of "\<lparr>timestamp = t, stamp_value = v\<rparr>"] l(2) k by auto
    let ?ts = "ts[i := ?l\<lparr>put_stamps := a\<rparr>]"
    have "stamps_abs cap (Suc k) ?ts (P @ put_of x) (G @ get_of x)"
      using others [of "?l\<lparr>put_stamps := a\<rparr>"] abs a l mset_concat_update [OF i, of "recorded \<circ> put_stamps" "?l\<lparr>put_stamps := a\<rparr>"]
        mset_concat_update [OF i, of "recorded \<circ> get_stamps" "?l\<lparr>put_stamps := a\<rparr>" "[]"]
      by (simp add: stamps_abs_def x Added)
    then show ?thesis using i a by (simp add: x Added add_relaxed_put_def)
  next
    case (Removed v)
    obtain a where a: "add_stamp cap \<lparr>timestamp = t, stamp_value = v\<rparr> (get_stamps ?l) = Inr a" "array_ok cap a"
      "recorded a = recorded (get_stamps ?l) @ [\<lparr>timestamp = t, stamp_value = v\<rparr>]" "used a = Suc (used (get_stamps ?l))"
      using add_stamp_ok [OF l(3), of "\<lparr>timestamp = t, stamp_value = v\<rparr>"] l(4) k by auto
    let ?ts = "ts[i := ?l\<lparr>get_stamps := a\<rparr>]"
    have "stamps_abs cap (Suc k) ?ts (P @ put_of x) (G @ get_of x)"
      using others [of "?l\<lparr>get_stamps := a\<rparr>"] abs a l mset_concat_update [OF i, of "recorded \<circ> get_stamps" "?l\<lparr>get_stamps := a\<rparr>"]
        mset_concat_update [OF i, of "recorded \<circ> put_stamps" "?l\<lparr>get_stamps := a\<rparr>" "[]"]
      by (simp add: stamps_abs_def x Removed)
    then show ?thesis using i a by (simp add: x Removed add_relaxed_get_def)
  qed
qed

lemma record_stamps_abs:
  assumes "stamps_abs cap k ts P G" and "\<And>x. x \<in> set evs \<Longrightarrow> fst x < length ts" and "k + length evs \<le> cap"
  shows "\<exists>ts'. record_stamps cap evs ts = Inr ts' \<and>
    stamps_abs cap (k + length evs) ts' (P @ concat (map put_of evs)) (G @ concat (map get_of evs))"
  using assms
proof (induction evs arbitrary: k ts P G)
  case (Cons x evs)
  obtain ts1 where 1: "record_stamp cap x ts = Inr ts1" "stamps_abs cap (Suc k) ts1 (P @ put_of x) (G @ get_of x)" "length ts1 = length ts"
    using record_stamp_abs [OF Cons.prems(1), of x] Cons.prems(2,3) by auto
  have "\<exists>ts'. record_stamps cap evs ts1 = Inr ts' \<and> stamps_abs cap (Suc k + length evs) ts'
      ((P @ put_of x) @ concat (map put_of evs)) ((G @ get_of x) @ concat (map get_of evs))"
    by (rule Cons.IH [OF 1(2)]) (use Cons.prems(2,3) 1(3) in auto)
  then show ?case using 1(1) by simp
qed simp

text \<open>Sorting by distinct timestamps puts the operations back into their order.\<close>

lemma put_of_time: "st \<in> set (put_of x) \<Longrightarrow> timestamp st = fst (snd x)" "st \<in> set (get_of x) \<Longrightarrow> timestamp st = fst (snd x)"
  by (cases x; cases "snd (snd x)"; auto)+

lemma strictly_sorted_stamps:
  assumes "sorted_wrt (<) (map (fst \<circ> snd) evs)"
  shows "sorted_wrt (<) (map timestamp (concat (map put_of evs)))" "sorted_wrt (<) (map timestamp (concat (map get_of evs)))"
proof -
  have one: "length (put_of x) \<le> 1" "length (get_of x) \<le> 1" for x by (cases x; cases "snd (snd x)"; auto)+
  have gen: "sorted_wrt (<) (map timestamp (concat (map g evs)))"
    if "\<And>x. length (g x) \<le> 1" "\<And>x st. st \<in> set (g x) \<Longrightarrow> timestamp st = fst (snd x)" for g :: "nat \<times> nat \<times> event \<Rightarrow> int relax_stamp list"
    using assms
  proof (induction evs)
    case (Cons x evs)
    have "g x = [] \<or> (\<exists>st. g x = [st])" using that(1) [of x] by (cases "g x") auto
    then show ?case
      using Cons that(2) by (auto simp: sorted_wrt_append)
  qed simp
  show "sorted_wrt (<) (map timestamp (concat (map put_of evs)))" by (rule gen) (use one put_of_time in auto)
  show "sorted_wrt (<) (map timestamp (concat (map get_of evs)))" by (rule gen) (use one put_of_time in auto)
qed

lemma sort_unique:
  assumes "sorted_wrt (<) (map timestamp P)" and "sorted (map timestamp Q)" and "mset Q = mset P"
  shows "Q = (P :: 'v relax_stamp list)"
proof (rule map_sorted_distinct_set_unique)
  have d: "distinct (map timestamp P)" using assms(1) by (simp add: strict_sorted_iff)
  have s: "set Q = set P" using assms(3) by (metis set_mset_mset)
  show "set Q = set P" by (rule s)
  show "inj_on timestamp (set Q \<union> set P)" using d s by (simp add: distinct_map)
  show "sorted (map timestamp P)" using assms(1) by (simp add: strict_sorted_iff)
  show "distinct (map timestamp P)" by (rule d)
  have "mset (map timestamp Q) = mset (map timestamp P)" using assms(3) by simp
  then show "distinct (map timestamp Q)" using d mset_eq_imp_distinct_iff by blast
qed (rule assms(2))

text \<open>
  The rank of a removed element does not depend on what is added at the tail later, so the
  removals may be replayed on the list of all elements.
\<close>

lemma strict_steps_offline:
  assumes "strict_steps (map (\<lambda>x. snd (snd x)) evs) (xs0, ds0) = Some (xs, ds)"
    and "\<And>v e. Added v e \<in> snd ` snd ` set evs \<Longrightarrow> e = 0"
  shows "strict_steps (map Removed (map stamp_value (concat (map get_of evs))))
    (xs0 @ map stamp_value (concat (map put_of evs)), ds0) = Some (xs, ds)"
  using assms
proof (induction evs arbitrary: xs0 ds0)
  case (Cons x evs)
  obtain th t e where x: "x = (th, t, e)" by (cases x)
  have e0: "e' = 0" if "Added v e' \<in> snd ` snd ` set evs" for v e' using Cons.prems(2) that by auto
  show ?case
  proof (cases e)
    case (Added v z)
    then have "z = 0" using Cons.prems(2) [of v z] x by force
    then show ?thesis using Cons.IH [of "xs0 @ [v]" ds0] Cons.prems(1) e0 x Added by simp
  next
    case (Removed v)
    then have v: "v \<in> set xs0" and st: "strict_steps (map (\<lambda>x. snd (snd x)) evs) (remove1 v xs0, ds0 @ [int (rank v xs0)]) = Some (xs, ds)"
      using Cons.prems(1) x by (auto split: if_splits)
    have "rank v (xs0 @ ys) = rank v xs0" for ys
      using v by (simp add: rank_def takeWhile_append1)
    then show ?thesis using Cons.IH [OF st e0] v x Removed by (simp add: remove1_append)
  qed
qed simp


lemma sort_key_qsort: "is_qsort (sort_key timestamp :: 'v relax_stamp list \<Rightarrow> _)"
proof -
  have "sorted_wrt (\<lambda>a b. compare_timestamps a b \<le> 0) (sort_key timestamp xs)" for xs :: "'v relax_stamp list"
  proof -
    have "sorted_wrt (\<lambda>a b. timestamp a \<le> timestamp b) (sort_key timestamp xs)"
      using sorted_sort_key [of timestamp xs] by (simp add: sorted_map)
    then show ?thesis by (rule sorted_wrt_mono_rel [rotated]) (simp add: compare_timestamps_def)
  qed
  then show ?thesis by (simp add: is_qsort_def)
qed


section \<open>Stamps that overrun, and stamps prepared for output\<close>

text \<open>
  The bound on the number of stamps is tested after the stamp is stored: in a full array the
  store is out of bounds, so the error the code wants to report is never reached.
\<close>

lemma full_array_overrun:
  assumes "array_ok cap a"
  shows "add_stamp cap st a \<noteq> Inl Exit_program" and "used a = cap \<Longrightarrow> add_stamp cap st a = Inl Bad_pointer"
  using assms by (simp_all add: add_stamp_def array_ok_def Let_def)

text \<open>
  \<open>remove_duplicate_timestamps\<close> replaces the times of both arrays by consecutive numbers in the
  order of a merge. An array, with the index that moves through it, is the list of the stamps
  renumbered so far and the list of those left; a loop over one array ends at a stamp whose turn
  has not come, or at the end of the array. The first stamp of each array is read before any
  test of its length.
\<close>

fun renumber_puts :: "nat \<Rightarrow> 'v relax_stamp list \<Rightarrow> nat \<Rightarrow> 'v relax_stamp list \<times> 'v relax_stamp list \<times> nat" where
  "renumber_puts time [] next_get = ([], [], time)"
| "renumber_puts time (p # ps) next_get =
    (if timestamp p \<le> next_get
     then (case renumber_puts (time + 1) ps next_get of (d, r, t) \<Rightarrow> (p\<lparr>timestamp := time\<rparr> # d, r, t))
     else ([], p # ps, time))"

fun renumber_gets :: "nat \<Rightarrow> 'v relax_stamp list \<Rightarrow> nat option \<Rightarrow> 'v relax_stamp list \<times> 'v relax_stamp list \<times> nat" where
  "renumber_gets time [] next_put = ([], [], time)"
| "renumber_gets time (g # gs) next_put =
    (if (case next_put of None \<Rightarrow> True | Some t \<Rightarrow> timestamp g < t)
     then (case renumber_gets (time + 1) gs next_put of (d, r, t) \<Rightarrow> (g\<lparr>timestamp := time\<rparr> # d, r, t))
     else ([], g # gs, time))"

definition next_time :: "'v relax_stamp list \<Rightarrow> nat option" where
  "next_time ps = (case ps of [] \<Rightarrow> None | p # _ \<Rightarrow> Some (timestamp p))"

lemma renumber_puts_left: "fst (snd (renumber_puts t ps x)) = dropWhile (\<lambda>p. timestamp p \<le> x) ps"
  by (induction t ps x rule: renumber_puts.induct) (auto split: prod.splits)

lemma renumber_gets_left:
  "fst (snd (renumber_gets t gs (Some x))) = dropWhile (\<lambda>g. timestamp g < x) gs" "fst (snd (renumber_gets t gs None)) = []"
  by (induction gs arbitrary: t) (simp_all add: split_beta)

text \<open>The outer loop: it ends when one array is used up, the rest of the other is left as it is.\<close>

function renumber :: "nat \<Rightarrow> 'v relax_stamp list \<Rightarrow> 'v relax_stamp list \<Rightarrow> 'v relax_stamp list \<times> 'v relax_stamp list" where
  "renumber time ps gs = (if gs = [] then (ps, []) else
     let P = renumber_puts time ps (timestamp (hd gs)); ps' = fst (snd P);
         G = renumber_gets (snd (snd P)) gs (next_time ps'); gs' = fst (snd G)
     in if ps' = [] \<or> gs' = [] then (fst P @ ps', fst G @ gs')
        else let Z = renumber (snd (snd G)) ps' gs' in (fst P @ fst Z, fst G @ snd Z))"
  by pat_completeness auto

lemma renumber_progress:
  assumes "gs \<noteq> []" and "fst (snd (renumber_puts t ps (timestamp (hd gs)))) = p # qs"
  shows "length (fst (snd (renumber_gets t' gs (next_time (p # qs))))) < length gs"
proof -
  have "p # qs = dropWhile (\<lambda>p. timestamp p \<le> timestamp (hd gs)) ps" using assms(2) renumber_puts_left by metis
  then have "\<not> timestamp p \<le> timestamp (hd gs)" by (metis dropWhile_eq_Cons_conv)
  then show ?thesis
    unfolding next_time_def list.case renumber_gets_left
    using assms(1) by (cases gs) (auto simp: less_Suc_eq_le length_dropWhile_le)
qed

termination renumber
proof (relation "measure (\<lambda>(t, ps, gs). length ps + length gs)")
  fix time :: nat and ps gs ps' gs' :: "'v relax_stamp list" and P G
  assume gs: "gs \<noteq> []" and P: "P = renumber_puts time ps (timestamp (hd gs))" "ps' = fst (snd P)"
    and G: "G = renumber_gets (snd (snd P)) gs (next_time ps')" "gs' = fst (snd G)" and go: "\<not> (ps' = [] \<or> gs' = [])"
  obtain p qs where p: "ps' = p # qs" using go by (cases ps') auto
  have "length gs' < length gs" using renumber_progress [OF gs, of time ps p qs] P G p by simp
  moreover have "length ps' \<le> length ps" using P by (simp add: renumber_puts_left length_dropWhile_le)
  ultimately show "((snd (snd G), ps', gs'), time, ps, gs) \<in> measure (\<lambda>(t, ps, gs). length ps + length gs)" by simp
qed simp

declare renumber.simps [simp del]

definition remove_duplicate_timestamps :: "'v relax_stamp list \<Rightarrow> 'v relax_stamp list \<Rightarrow>
    ('v relax_stamp list \<times> 'v relax_stamp list) result" where
  "remove_duplicate_timestamps ps gs = (if ps = [] \<or> gs = [] then Inl Bad_pointer else Inr (renumber 0 ps gs))"

text \<open>
  The reference: the merge of the two arrays, numbered as it goes along, up to the point where
  there is no get left.
\<close>

fun merge_number :: "nat \<Rightarrow> 'v relax_stamp list \<Rightarrow> 'v relax_stamp list \<Rightarrow> 'v relax_stamp list \<times> 'v relax_stamp list" where
  "merge_number t ps [] = (ps, [])"
| "merge_number t [] (g # gs) = apsnd ((#) (g\<lparr>timestamp := t\<rparr>)) (merge_number (t + 1) [] gs)"
| "merge_number t (p # ps) (g # gs) =
    (if timestamp p \<le> timestamp g then apfst ((#) (p\<lparr>timestamp := t\<rparr>)) (merge_number (t + 1) ps (g # gs))
     else apsnd ((#) (g\<lparr>timestamp := t\<rparr>)) (merge_number (t + 1) (p # ps) gs))"

lemma merge_number_puts:
  "merge_number t ps (g # gs) = apfst ((@) (fst (renumber_puts t ps (timestamp g))))
     (merge_number (snd (snd (renumber_puts t ps (timestamp g)))) (fst (snd (renumber_puts t ps (timestamp g)))) (g # gs))"
  by (induction ps arbitrary: t) (auto simp: apfst_def apsnd_def map_prod_def split_beta)

lemma merge_number_gets:
  "merge_number t (p # ps) gs = apsnd ((@) (fst (renumber_gets t gs (Some (timestamp p)))))
     (merge_number (snd (snd (renumber_gets t gs (Some (timestamp p))))) (p # ps) (fst (snd (renumber_gets t gs (Some (timestamp p))))))"
  by (induction gs arbitrary: t) (auto simp: apfst_def apsnd_def map_prod_def split_beta)

lemma merge_number_rest: "merge_number t [] gs = ([], fst (renumber_gets t gs None))"
  by (induction gs arbitrary: t) (auto simp: split_beta)

lemma renumber_merge: "renumber t ps gs = merge_number t ps gs"
proof (induction t ps gs rule: renumber.induct)
  case (1 t ps gs)
  show ?case
  proof (cases gs)
    case Nil
    then show ?thesis by (simp add: renumber.simps)
  next
    case (Cons g gs0)
    then have ne: "gs \<noteq> []" by simp
    let ?P = "renumber_puts t ps (timestamp (hd gs))" let ?ps = "fst (snd ?P)"
    let ?G = "renumber_gets (snd (snd ?P)) gs (next_time ?ps)" let ?gs = "fst (snd ?G)"
    have m: "merge_number t ps gs = apfst ((@) (fst ?P)) (merge_number (snd (snd ?P)) ?ps gs)"
      using merge_number_puts [of t ps g gs0] Cons by simp
    show ?thesis
    proof (cases ?ps)
      case Nil
      have "?G = renumber_gets (snd (snd ?P)) gs None" using Nil by (simp add: next_time_def)
      then show ?thesis
        using m Nil ne renumber_gets_left(2) [of "snd (snd ?P)" gs]
        by (simp add: renumber.simps [of t ps gs] Let_def merge_number_rest next_time_def)
    next
      case (Cons q qs)
      have G: "?G = renumber_gets (snd (snd ?P)) gs (Some (timestamp q))" using Cons by (simp add: next_time_def)
      have m2: "merge_number t ps gs = apfst ((@) (fst ?P)) (apsnd ((@) (fst ?G)) (merge_number (snd (snd ?G)) ?ps ?gs))"
        unfolding m using merge_number_gets [of "snd (snd ?P)" q qs gs] Cons G by simp
      show ?thesis
      proof (cases "?gs = []")
        case True
        then show ?thesis using m2 Cons ne by (simp add: renumber.simps [of t ps gs] Let_def)
      next
        case False
        have "renumber (snd (snd ?G)) ?ps ?gs = merge_number (snd (snd ?G)) ?ps ?gs"
          by (rule "1.IH") (use False Cons ne in simp_all)
        then show ?thesis
          using m2 Cons False ne
          by (simp add: renumber.simps [of t ps gs] Let_def apfst_def apsnd_def map_prod_def split_beta)
      qed
    qed
  qed
qed

lemma merge_number_values:
  "map stamp_value (fst (merge_number t ps gs)) = map stamp_value ps"
  "map stamp_value (snd (merge_number t ps gs)) = map stamp_value gs"
  by (induction t ps gs rule: merge_number.induct) simp_all

lemma merge_number_length:
  "length (fst (merge_number t ps gs)) = length ps" "length (snd (merge_number t ps gs)) = length gs"
  by (induction t ps gs rule: merge_number.induct) simp_all

lemma upt_front: "[t..<t + Suc n] = t # [Suc t..<Suc t + n]"
  by (simp add: upt_conv_Cons)

lemma merge_number_times:
  "gs = [] \<longrightarrow> ps = [] \<Longrightarrow> \<forall>p\<in>set ps. timestamp p \<le> timestamp (last gs) \<Longrightarrow>
    mset (map timestamp (fst (merge_number t ps gs) @ snd (merge_number t ps gs))) = mset [t..<t + (length ps + length gs)]"
proof (induction t ps gs rule: merge_number.induct)
  case (2 t g gs)
  then show ?case using upt_front [of t "length gs"] by simp
next
  case (3 t p ps g gs)
  show ?case
  proof (cases "timestamp p \<le> timestamp g")
    case True
    then show ?thesis using 3 upt_front [of t "length ps + length (g # gs)"] by simp
  next
    case False
    then have "gs \<noteq> []" using 3 by auto
    then show ?thesis using False 3 upt_front [of t "length (p # ps) + length gs"] by simp
  qed
qed simp

lemma merge_number_bound:
  "gs = [] \<longrightarrow> ps = [] \<Longrightarrow> \<forall>p\<in>set ps. timestamp p \<le> timestamp (last gs) \<Longrightarrow>
    st \<in> set (fst (merge_number t ps gs)) \<or> st \<in> set (snd (merge_number t ps gs)) \<Longrightarrow> t \<le> timestamp st"
proof -
  assume a: "gs = [] \<longrightarrow> ps = []" "\<forall>p\<in>set ps. timestamp p \<le> timestamp (last gs)"
    and st: "st \<in> set (fst (merge_number t ps gs)) \<or> st \<in> set (snd (merge_number t ps gs))"
  have "set (map timestamp (fst (merge_number t ps gs) @ snd (merge_number t ps gs))) = set [t..<t + (length ps + length gs)]"
    using merge_number_times [OF a, of t] by (metis set_mset_mset)
  then show ?thesis using st by fastforce
qed

lemma merge_number_order:
  assumes "gs = [] \<longrightarrow> ps = []" and "\<forall>p\<in>set ps. timestamp p \<le> timestamp (last gs)"
    and "sorted (map timestamp ps)" and "sorted (map timestamp gs)" and "i < length ps" and "j < length gs"
  shows "timestamp (fst (merge_number t ps gs) ! i) < timestamp (snd (merge_number t ps gs) ! j) \<longleftrightarrow>
    timestamp (ps ! i) \<le> timestamp (gs ! j)"
  using assms
proof (induction t ps gs arbitrary: i j rule: merge_number.induct)
  case (3 t p ps g gs)
  show ?case
  proof (cases "timestamp p \<le> timestamp g")
    case True
    let ?M = "merge_number (t + 1) ps (g # gs)"
    have pre: "\<forall>p\<in>set ps. timestamp p \<le> timestamp (last (g # gs))" using "3.prems"(2) by simp
    show ?thesis
    proof (cases i)
      case 0
      have "snd ?M ! j \<in> set (snd ?M)" using "3.prems"(6) by (simp add: merge_number_length)
      then have "t + 1 \<le> timestamp (snd ?M ! j)" using merge_number_bound [of "g # gs" ps _ "t + 1"] pre by simp
      moreover have "timestamp g \<le> timestamp ((g # gs) ! j)" using "3.prems"(4,6) by (cases j) auto
      ultimately show ?thesis using True 0 by simp
    next
      case (Suc i')
      have "timestamp (fst ?M ! i') < timestamp (snd ?M ! j) \<longleftrightarrow> timestamp (ps ! i') \<le> timestamp ((g # gs) ! j)"
        by (rule "3.IH"(1) [OF True]) (use "3.prems" Suc pre in auto)
      then show ?thesis using True Suc by simp
    qed
  next
    case False
    let ?M = "merge_number (t + 1) (p # ps) gs"
    have ne: "gs \<noteq> []" using False "3.prems"(2) by auto
    then have pre: "\<forall>q\<in>set (p # ps). timestamp q \<le> timestamp (last gs)" using "3.prems"(2) by simp
    show ?thesis
    proof (cases j)
      case 0
      have "fst ?M ! i \<in> set (fst ?M)" using "3.prems"(5) by (simp add: merge_number_length)
      then have "t + 1 \<le> timestamp (fst ?M ! i)" using merge_number_bound [of gs "p # ps" _ "t + 1"] pre ne by blast
      moreover have "timestamp p \<le> timestamp ((p # ps) ! i)" using "3.prems"(3,5) by (cases i) auto
      ultimately show ?thesis using False 0 by simp
    next
      case (Suc j')
      have "timestamp (fst ?M ! i) < timestamp (snd ?M ! j') \<longleftrightarrow> timestamp ((p # ps) ! i) \<le> timestamp (gs ! j')"
        by (rule "3.IH"(2) [OF False]) (use "3.prems" Suc pre ne in auto)
      then show ?thesis using False Suc by simp
    qed
  qed
qed simp_all

text \<open>
  C30: \<open>remove_duplicate_timestamps\<close>, two nested loops over two arrays, is the numbering of a
  merge, and it terminates on every input. When the last operation is a get, the new times are
  exactly the numbers from 0, each used once; no value is changed; and a put has a smaller new
  time than a get precisely if its old time was not greater.
\<close>

theorem remove_duplicates_numbers:
  assumes "ps \<noteq> []" and "gs \<noteq> []" and "sorted (map timestamp ps)" and "sorted (map timestamp gs)"
  shows "remove_duplicate_timestamps ps gs = Inr (merge_number 0 ps gs) \<and>
    (timestamp (last ps) \<le> timestamp (last gs) \<longrightarrow> (\<exists>ps' gs'. remove_duplicate_timestamps ps gs = Inr (ps', gs') \<and>
       mset (map timestamp (ps' @ gs')) = mset [0..<length ps + length gs] \<and>
       map stamp_value ps' = map stamp_value ps \<and> map stamp_value gs' = map stamp_value gs \<and>
       (\<forall>i<length ps. \<forall>j<length gs. timestamp (ps' ! i) < timestamp (gs' ! j) \<longleftrightarrow> timestamp (ps ! i) \<le> timestamp (gs ! j))))"
proof (intro conjI impI)
  show eq: "remove_duplicate_timestamps ps gs = Inr (merge_number 0 ps gs)"
    using assms by (simp add: remove_duplicate_timestamps_def renumber_merge)
  assume last: "timestamp (last ps) \<le> timestamp (last gs)"
  have "timestamp p \<le> timestamp (last ps)" if "p \<in> set ps" for p
    using that assms(3) by (induction ps) (auto simp: last_in_set)
  then have pre: "\<forall>p\<in>set ps. timestamp p \<le> timestamp (last gs)" using last by (meson le_trans)
  show "\<exists>ps' gs'. remove_duplicate_timestamps ps gs = Inr (ps', gs') \<and>
       mset (map timestamp (ps' @ gs')) = mset [0..<length ps + length gs] \<and>
       map stamp_value ps' = map stamp_value ps \<and> map stamp_value gs' = map stamp_value gs \<and>
       (\<forall>i<length ps. \<forall>j<length gs. timestamp (ps' ! i) < timestamp (gs' ! j) \<longleftrightarrow> timestamp (ps ! i) \<le> timestamp (gs ! j))"
    using eq merge_number_times [OF _ pre, of 0] merge_number_values [of 0 ps gs] merge_number_order [OF _ pre assms(3,4)] assms(2)
    by (intro exI [of _ "fst (merge_number 0 ps gs)"] exI [of _ "snd (merge_number 0 ps gs)"]) simp
qed

lemma remove_duplicates_numbers_witness:
  "remove_duplicate_timestamps [\<lparr>timestamp = 5, stamp_value = 7\<rparr>, \<lparr>timestamp = 9, stamp_value = 8\<rparr>] [\<lparr>timestamp = 9, stamp_value = 7 :: int\<rparr>] =
    Inr (merge_number 0 [\<lparr>timestamp = 5, stamp_value = 7\<rparr>, \<lparr>timestamp = 9, stamp_value = 8\<rparr>] [\<lparr>timestamp = 9, stamp_value = 7\<rparr>])"
  using remove_duplicates_numbers [of "[\<lparr>timestamp = 5, stamp_value = 7\<rparr>, \<lparr>timestamp = 9, stamp_value = 8\<rparr>]"
    "[\<lparr>timestamp = 9, stamp_value = 7 :: int\<rparr>]"] by simp

text \<open>When the puts go on after the last get, their times stay as they are, duplicates included.\<close>

lemma duplicates_stay:
  "remove_duplicate_timestamps [\<lparr>timestamp = 1, stamp_value = 7\<rparr>, \<lparr>timestamp = 5, stamp_value = 8\<rparr>, \<lparr>timestamp = 5, stamp_value = 9\<rparr>]
     [\<lparr>timestamp = 2, stamp_value = 7 :: int\<rparr>] =
   Inr ([\<lparr>timestamp = 0, stamp_value = 7\<rparr>, \<lparr>timestamp = 5, stamp_value = 8\<rparr>, \<lparr>timestamp = 5, stamp_value = 9\<rparr>],
     [\<lparr>timestamp = 1, stamp_value = 7\<rparr>])"
  by (simp add: remove_duplicate_timestamps_def renumber_merge)

section \<open>Stamps with their thread\<close>

text \<open>
  With \<open>SAVE_THREAD_STAMPS\<close> a get is recorded with its thread in the low byte of the value, and
  the stamps are written to one file per thread. A file is the list of its lines.
\<close>

definition tag_get :: "64 word \<Rightarrow> nat \<Rightarrow> 64 word" where
  "tag_get v this_thread = push_bit 8 v OR of_nat this_thread"

definition thread_of :: "64 word \<Rightarrow> nat" where
  "thread_of v = unat (v AND 0xFF)"

definition untag_get :: "64 word \<Rightarrow> 64 word" where
  "untag_get v = signed_drop_bit 8 v"

fun write_lines :: "(64 word \<Rightarrow> 64 word) \<Rightarrow> 64 word relax_stamp list \<Rightarrow> (nat \<times> 64 word) list list \<Rightarrow>
    (nat \<times> 64 word) list list result" where
  "write_lines f [] files = Inr files"
| "write_lines f (st # sts) files = (let t = thread_of (stamp_value st) in
     if \<not> t < length files then Inl Bad_pointer
     else write_lines f sts (files[t := files ! t @ [(timestamp st, f (stamp_value st))]]))"

definition save_thread_stamps :: "nat \<Rightarrow> 64 word relax_stamp list \<Rightarrow> 64 word relax_stamp list \<Rightarrow>
    ((nat \<times> 64 word) list list \<times> (nat \<times> 64 word) list list) result" where
  "save_thread_stamps n puts gets =
    (case write_lines (\<lambda>v. v) puts (replicate n []) of Inl e \<Rightarrow> Inl e
     | Inr P \<Rightarrow> (case write_lines untag_get gets (replicate n []) of Inl e \<Rightarrow> Inl e | Inr G \<Rightarrow> Inr (P, G)))"

text \<open>The low byte is the thread, and the value comes back when it has 56 bits.\<close>

lemma small_bits: "th < 256 \<Longrightarrow> bit (of_nat th :: 64 word) i \<Longrightarrow> i < 8"
proof -
  assume th: "th < 256" and b: "bit (of_nat th :: 64 word) i"
  have "th = take_bit 8 th" using th by (simp add: take_bit_nat_eq_self)
  then have "bit (take_bit 8 th) i" using b by (metis bit_of_nat_iff)
  then show "i < 8" by (simp add: bit_take_bit_iff)
qed

lemma thread_of_tag: "th < 256 \<Longrightarrow> thread_of (tag_get v th) = th"
proof -
  assume th: "th < 256"
  have m: "(0xFF :: 64 word) = mask 8" by (simp add: mask_eq_exp_minus_1)
  have "tag_get v th AND 0xFF = (of_nat th :: 64 word)"
    unfolding m tag_get_def using small_bits [OF th]
    by (intro bit_word_eqI) (auto simp: bit_and_iff bit_or_iff bit_mask_iff bit_push_bit_iff)
  then have "thread_of (tag_get v th) = unat (of_nat th :: 64 word)" by (simp only: thread_of_def)
  also have "\<dots> = th" using th take_bit_nat_eq_self [of th 64] by (simp add: unat_of_nat)
  finally show ?thesis .
qed

lemma sign_bits:
  fixes v :: "64 word"
  assumes "- (2 ^ 55) \<le> sint v" and "sint v < 2 ^ 55" and "55 \<le> i" and "i < 64"
  shows "bit v i \<longleftrightarrow> bit v 55"
proof -
  have s: "signed_take_bit 55 (sint v) = sint v" using assms(1,2) by (intro signed_take_bit_int_eq_self) simp_all
  have "bit v j \<longleftrightarrow> bit (sint v) j" if "j < 64" for j using that by (simp add: bit_sint_iff)
  moreover have "bit (sint v) i \<longleftrightarrow> bit (sint v) 55" using assms(3) by (subst s [symmetric]) (simp add: bit_signed_take_bit_iff)
  ultimately show ?thesis using assms(4) by simp
qed

lemma untag_tag:
  fixes v :: "64 word"
  assumes "- (2 ^ 55) \<le> sint v" and "sint v < 2 ^ 55" and th: "th < 256"
  shows "untag_get (tag_get v th) = v"
proof (rule bit_word_eqI)
  fix i assume "i < LENGTH(64)"
  then have i: "i < 64" by simp
  have len64: "LENGTH(64) = 64" by simp
  have hi: "bit (tag_get v th) j \<longleftrightarrow> bit v (j - 8)" if "8 \<le> j" "j < 64" for j
    using that small_bits [OF th, of j] by (auto simp: tag_get_def bit_or_iff bit_push_bit_iff)
  show "bit (untag_get (tag_get v th)) i \<longleftrightarrow> bit v i"
  proof (cases "56 \<le> i")
    case True
    have "bit (untag_get (tag_get v th)) i \<longleftrightarrow> bit (tag_get v th) 63"
      unfolding untag_get_def bit_signed_drop_bit_iff len64 using i True by simp
    also have "\<dots> \<longleftrightarrow> bit v 55" by (subst hi) simp_all
    also have "\<dots> \<longleftrightarrow> bit v i" by (rule sign_bits [OF assms(1,2) _ i, symmetric]) (use True in linarith)
    finally show ?thesis .
  next
    case False
    have "bit (untag_get (tag_get v th)) i \<longleftrightarrow> bit (tag_get v th) (8 + i)"
      unfolding untag_get_def bit_signed_drop_bit_iff len64 using i False by simp
    also have "\<dots> \<longleftrightarrow> bit v i" by (subst hi) (use False in simp_all)
    finally show ?thesis .
  qed
qed

lemma write_lines_split:
  assumes "\<And>st. st \<in> set sts \<Longrightarrow> thread_of (stamp_value st) < length files"
  shows "\<exists>files'. write_lines f sts files = Inr files' \<and> length files' = length files \<and>
    (\<forall>k<length files. files' ! k = files ! k @
       map (\<lambda>st. (timestamp st, f (stamp_value st))) (filter (\<lambda>st. thread_of (stamp_value st) = k) sts))"
  using assms
proof (induction sts arbitrary: files)
  case (Cons st sts)
  let ?t = "thread_of (stamp_value st)"
  let ?f = "files[?t := files ! ?t @ [(timestamp st, f (stamp_value st))]]"
  have t: "?t < length files" using Cons.prems by simp
  obtain files' where f: "write_lines f sts ?f = Inr files'" "length files' = length ?f"
    "\<forall>k<length ?f. files' ! k = ?f ! k @ map (\<lambda>st. (timestamp st, f (stamp_value st))) (filter (\<lambda>st. thread_of (stamp_value st) = k) sts)"
    using Cons.IH [of ?f] Cons.prems by auto
  then show ?case using t by (auto simp: Let_def nth_list_update)
qed simp

lemma write_lines_fresh:
  assumes "\<forall>st\<in>set sts. thread_of (stamp_value st) < n"
  obtains files where "write_lines f sts (replicate n []) = Inr files" and "length files = n"
    and "\<forall>k<n. files ! k =
       map (\<lambda>st. (timestamp st, f (stamp_value st))) (filter (\<lambda>st. thread_of (stamp_value st) = k) sts)"
  using write_lines_split [of sts "replicate n []" f] assms by auto



end
