(* ===== verification/Relaxation_Counter.thy ===== *)
theory Relaxation_Counter
  imports Locks
begin

text \<open>
  The relaxation measurement of the counters, \<open>include/relaxation_analysis_counter.h\<close>: a strict
  counter that is moved together with the relaxed one, and the distances between the two, kept in
  a linked list of blocks of \<open>REL_NSIZE\<close> entries. The operations run under the lock
  \<open>relaxation_analysis_lock\<close>, so they are state transformers on an explicit heap of blocks, and
  the threads that record are users of the lock contract of \<open>Mutex\<close>.

  The refinement relation \<open>errors_abs\<close> ties the blocks to the list of the recorded errors. The loops
  of \<open>print_relaxation_measurements\<close>, which run until they meet the end of the blocks, are shown
  to end there, and to have seen this list.
\<close>

section \<open>State\<close>

definition REL_NSIZE :: nat where
  "REL_NSIZE = 1024"

lemma REL_NSIZE_pos [simp]: "0 < REL_NSIZE"
  by (simp add: REL_NSIZE_def)

record relaxation_list =
  block_next :: "nat option"
  counts :: nat
  error :: "nat list"

record counter_analysis =
  blocks :: "nat \<Rightarrow> relaxation_list option"
  next_block :: nat
  strict_counter :: nat
  rel_start :: nat
  rel_tail :: nat

type_synonym 'a result = "failure + 'a"

text \<open>\<open>calloc\<close>: a block of zeros at the next unused address.\<close>

definition calloc_block :: "counter_analysis \<Rightarrow> nat \<times> counter_analysis" where
  "calloc_block s = (next_block s,
     s\<lparr>blocks := (blocks s)(next_block s \<mapsto> \<lparr>block_next = None, counts = 0, error = replicate REL_NSIZE 0\<rparr>),
       next_block := next_block s + 1\<rparr>)"

definition init_counter_analysis :: counter_analysis where
  "init_counter_analysis = (let (a, s) = calloc_block
       \<lparr>blocks = \<lambda>_. None, next_block = 0, strict_counter = 0, rel_start = 0, rel_tail = 0\<rparr>
     in s\<lparr>rel_start := a, rel_tail := a\<rparr>)"

section \<open>Recording\<close>

definition inc_relaxed_count :: "counter_analysis \<Rightarrow> counter_analysis result" where
  "inc_relaxed_count s = Inr (s\<lparr>strict_counter := add64 (strict_counter s) 1\<rparr>)"

definition dec_relaxed_count :: "counter_analysis \<Rightarrow> counter_analysis result" where
  "dec_relaxed_count s = (if \<not> strict_counter s > 0 then Inl Assert_failed
     else Inr (s\<lparr>strict_counter := sub64 (strict_counter s) 1\<rparr>))"

text \<open>The difference of a 64-bit and a 32-bit count, in 64 bits, stored in 32.\<close>

definition relaxed_error :: "nat \<Rightarrow> nat \<Rightarrow> nat" where
  "relaxed_error strict count = (if strict > count then sub64 strict count else sub64 count strict) mod U32"

definition add_relaxed_count :: "nat \<Rightarrow> counter_analysis \<Rightarrow> counter_analysis result" where
  "add_relaxed_count count s = (case blocks s (rel_tail s) of None \<Rightarrow> Inl Bad_pointer
   | Some t \<Rightarrow>
     (let s = (if counts t = REL_NSIZE then
                 let (a, s) = calloc_block s
                 in s\<lparr>blocks := (blocks s)(rel_tail s \<mapsto> t\<lparr>block_next := Some a\<rparr>), rel_tail := a\<rparr>
               else s)
      in case blocks s (rel_tail s) of None \<Rightarrow> Inl Bad_pointer
         | Some t \<Rightarrow>
           if \<not> counts t < length (error t) then Inl Bad_pointer
           else Inr (s\<lparr>blocks := (blocks s)(rel_tail s \<mapsto>
                  t\<lparr>error := (error t)[counts t := relaxed_error (strict_counter s) count], counts := counts t + 1\<rparr>)\<rparr>)))"

text \<open>
  What a successful step of a counter does under the lock: it moves the strict counter in the
  direction of the step and records the relaxed count.
\<close>

datatype count_event = Counted bool nat

definition exec :: "('d \<Rightarrow> 'd result) \<Rightarrow> ('d, 'a) prog \<Rightarrow> ('d, 'a) prog" where
  "exec f k = Act (\<lambda>d. case f d of Inl e \<Rightarrow> (d, Stop e) | Inr d' \<Rightarrow> (d', k))"

lemma run_exec [simp]: "run (exec f k) d = (case f d of Inl e \<Rightarrow> Failed e d | Inr d' \<Rightarrow> run k d')"
  by (simp add: exec_def split: sum.splits)

definition record_count :: "count_event \<Rightarrow> (counter_analysis, unit) prog" where
  "record_count ev = (case ev of Counted up count \<Rightarrow>
     exec (if up then inc_relaxed_count else dec_relaxed_count) (exec (add_relaxed_count count) (Ret ())))"

section \<open>Printing\<close>

text \<open>
  Where the loops read next: at the end of a block they go to the next one. A loop ends at a
  null pointer or at the count of a block.
\<close>

definition next_place :: "(nat \<Rightarrow> relaxation_list option) \<Rightarrow> nat option \<Rightarrow> nat \<Rightarrow> (nat option \<times> nat) result" where
  "next_place h node cnt = (if cnt = REL_NSIZE then
       (case node of None \<Rightarrow> Inl Bad_pointer
        | Some a \<Rightarrow> (case h a of None \<Rightarrow> Inl Bad_pointer | Some b \<Rightarrow> Inr (block_next b, 0)))
     else Inr (node, cnt))"

definition read_error :: "(nat \<Rightarrow> relaxation_list option) \<Rightarrow> nat option \<Rightarrow> nat \<Rightarrow> nat option result" where
  "read_error h node cnt = (case node of None \<Rightarrow> Inr None
     | Some a \<Rightarrow> (case h a of None \<Rightarrow> Inl Bad_pointer
        | Some b \<Rightarrow> if cnt = counts b then Inr None
                     else if \<not> cnt < length (error b) then Inl Bad_pointer
                     else Inr (Some (error b ! cnt))))"

text \<open>The first loop: samples, sum and maximum. The sum, a \<open>long double\<close>, is exact below \<open>2^64\<close>.\<close>

partial_function (option) mean_max_loop :: "(nat \<Rightarrow> relaxation_list option) \<Rightarrow> nat option \<Rightarrow> nat \<Rightarrow>
    nat \<Rightarrow> nat \<Rightarrow> nat \<Rightarrow> (nat \<times> nat \<times> nat) result option" where
  "mean_max_loop h node cnt samples sm max_err =
    (case next_place h node cnt of Inl e \<Rightarrow> Some (Inl e)
     | Inr p \<Rightarrow> (case read_error h (fst p) (snd p) of Inl e \<Rightarrow> Some (Inl e)
        | Inr None \<Rightarrow> Some (Inr (samples, sm, max_err))
        | Inr (Some e) \<Rightarrow>
            mean_max_loop h (fst p) (snd p + 1) (samples + 1) (sm + e) (if e > max_err then e else max_err)))"

text \<open>The loop of \<open>SAVE_FULL\<close>, which prints the errors: it looks ahead for the comma.\<close>

datatype printed = Number nat | Comma | Newline

partial_function (option) print_loop :: "(nat \<Rightarrow> relaxation_list option) \<Rightarrow> nat option \<Rightarrow> nat \<Rightarrow>
    printed list \<Rightarrow> printed list result option" where
  "print_loop h node cnt out =
    (case next_place h node cnt of Inl e \<Rightarrow> Some (Inl e)
     | Inr p \<Rightarrow> (case read_error h (fst p) (snd p) of Inl e \<Rightarrow> Some (Inl e)
        | Inr None \<Rightarrow> Some (Inr out)
        | Inr (Some e) \<Rightarrow>
           (case next_place h (fst p) (snd p + 1) of Inl e \<Rightarrow> Some (Inl e)
            | Inr q \<Rightarrow> (case read_error h (fst q) (snd q) of Inl e \<Rightarrow> Some (Inl e)
               | Inr None \<Rightarrow> Some (Inr (out @ [Number e, Newline]))
               | Inr (Some _) \<Rightarrow> print_loop h (fst q) (snd q) (out @ [Number e, Comma])))))"

definition mean_max :: "counter_analysis \<Rightarrow> (nat \<times> nat \<times> nat) result option" where
  "mean_max s = mean_max_loop (blocks s) (Some (rel_start s)) 0 0 0 0"

definition print_errors :: "counter_analysis \<Rightarrow> printed list result option" where
  "print_errors s = print_loop (blocks s) (Some (rel_start s)) 0 []"

section \<open>Blocks as a list of errors\<close>

definition block_holds :: "nat list \<Rightarrow> nat \<Rightarrow> nat \<Rightarrow> relaxation_list \<Rightarrow> bool" where
  "block_holds errs m i b \<longleftrightarrow> block_next b = (if Suc i < m then Some (Suc i) else None) \<and>
     length (error b) = REL_NSIZE \<and> counts b = min REL_NSIZE (length errs - REL_NSIZE * i) \<and>
     (\<forall>k<counts b. error b ! k = errs ! (REL_NSIZE * i + k))"

definition errors_abs :: "counter_analysis \<Rightarrow> nat list \<Rightarrow> bool" where
  "errors_abs s errs \<longleftrightarrow> (let m = next_block s in
     0 < m \<and> rel_start s = 0 \<and> rel_tail s = m - 1 \<and>
     REL_NSIZE * (m - 1) \<le> length errs \<and> length errs \<le> REL_NSIZE * m \<and>
     (\<forall>i<m. \<exists>b. blocks s i = Some b \<and> block_holds errs m i b))"

lemma errors_abs_init: "errors_abs init_counter_analysis []"
  by (simp add: errors_abs_def init_counter_analysis_def calloc_block_def block_holds_def)

lemma strict_counter_init: "strict_counter init_counter_analysis = 0"
  by (simp add: init_counter_analysis_def calloc_block_def)

lemma errors_abs_strict [simp]: "errors_abs (s\<lparr>strict_counter := c\<rparr>) errs \<longleftrightarrow> errors_abs s errs"
  by (simp add: errors_abs_def)

text \<open>A block that is full, or not the last, does not see a further error.\<close>

lemma block_holds_append:
  assumes "block_holds errs m i b" and "REL_NSIZE * Suc i \<le> length errs"
  shows "block_holds (errs @ [e]) m i b"
  using assms by (auto simp: block_holds_def nth_append)

text \<open>Linking a new block behind a full one leaves the list of errors as it is.\<close>

lemma errors_abs_grow:
  assumes "errors_abs s errs" and "blocks s (rel_tail s) = Some t" and "counts t = REL_NSIZE"
  defines "s' \<equiv> (snd (calloc_block s))\<lparr>blocks := (blocks (snd (calloc_block s)))(rel_tail s \<mapsto> t\<lparr>block_next := Some (next_block s)\<rparr>),
      rel_tail := next_block s\<rparr>"
  shows "errors_abs s' errs"
proof -
  let ?m = "next_block s"
  have m: "0 < ?m" "rel_start s = 0" "rel_tail s = ?m - 1" "length errs \<le> REL_NSIZE * ?m"
    and b: "\<And>i. i < ?m \<Longrightarrow> \<exists>b. blocks s i = Some b \<and> block_holds errs ?m i b"
    using assms(1) by (simp_all add: errors_abs_def Let_def)
  have t: "block_holds errs ?m (?m - 1) t" using b [of "?m - 1"] m assms(2) by auto
  then have len: "length errs = REL_NSIZE * ?m"
  proof -
    have "REL_NSIZE \<le> length errs - REL_NSIZE * (?m - 1)" using t assms(3) by (auto simp: block_holds_def)
    moreover have "REL_NSIZE * ?m = REL_NSIZE * (?m - 1) + REL_NSIZE" using m(1) by (cases ?m) simp_all
    ultimately show ?thesis using m(4) REL_NSIZE_pos by linarith
  qed
  have "\<exists>b. blocks s' i = Some b \<and> block_holds errs (Suc ?m) i b" if "i < Suc ?m" for i
  proof (cases "i = ?m \<or> i = ?m - 1")
    case True
    then show ?thesis using t m(1,3) len by (auto simp: s'_def calloc_block_def block_holds_def)
  next
    case False
    then show ?thesis using b [of i] that m(3) by (auto simp: s'_def calloc_block_def block_holds_def)
  qed
  then show ?thesis using m len by (simp add: errors_abs_def Let_def s'_def calloc_block_def)
qed

text \<open>Storing an error in a block with room appends it.\<close>

lemma errors_abs_store:
  assumes "errors_abs s errs" and "blocks s (rel_tail s) = Some t" and "counts t \<noteq> REL_NSIZE"
  shows "counts t < length (error t)"
    and "errors_abs (s\<lparr>blocks := (blocks s)(rel_tail s \<mapsto> t\<lparr>error := (error t)[counts t := e], counts := counts t + 1\<rparr>)\<rparr>) (errs @ [e])"
proof -
  let ?m = "next_block s"
  have m: "0 < ?m" "rel_start s = 0" "rel_tail s = ?m - 1" "REL_NSIZE * (?m - 1) \<le> length errs" "length errs \<le> REL_NSIZE * ?m"
    and b: "\<And>i. i < ?m \<Longrightarrow> \<exists>b. blocks s i = Some b \<and> block_holds errs ?m i b"
    using assms(1) by (simp_all add: errors_abs_def Let_def)
  have t: "block_holds errs ?m (?m - 1) t" using b [of "?m - 1"] m assms(2) by auto
  have split: "REL_NSIZE * ?m = REL_NSIZE * (?m - 1) + REL_NSIZE" using m(1) by (cases ?m) simp_all
  have c: "counts t = length errs - REL_NSIZE * (?m - 1)" "counts t < REL_NSIZE"
    using t assms(3) by (auto simp: block_holds_def min_def split: if_splits)
  then show "counts t < length (error t)" using t by (simp add: block_holds_def)
  have tail: "block_holds (errs @ [e]) ?m (?m - 1) (t\<lparr>error := (error t)[counts t := e], counts := counts t + 1\<rparr>)"
    using t c m(4) by (auto simp: block_holds_def nth_append nth_list_update less_Suc_eq)
  have other: "block_holds (errs @ [e]) ?m i b" if "block_holds errs ?m i b" "i < ?m - 1" for i b
  proof (rule block_holds_append [OF that(1)])
    have "REL_NSIZE * Suc i \<le> REL_NSIZE * (?m - 1)" using that(2) by (intro mult_le_mono) simp_all
    then show "REL_NSIZE * Suc i \<le> length errs" using m(4) by linarith
  qed
  have "\<exists>b. ((blocks s)(rel_tail s \<mapsto> t\<lparr>error := (error t)[counts t := e], counts := counts t + 1\<rparr>)) i = Some b \<and>
      block_holds (errs @ [e]) ?m i b" if "i < ?m" for i
  proof (cases "i = ?m - 1")
    case True
    then show ?thesis using tail m(3) by simp
  next
    case False
    then show ?thesis using b [OF that] other that m(3) by fastforce
  qed
  then show "errors_abs (s\<lparr>blocks := (blocks s)(rel_tail s \<mapsto> t\<lparr>error := (error t)[counts t := e], counts := counts t + 1\<rparr>)\<rparr>) (errs @ [e])"
    using m c split by (simp add: errors_abs_def Let_def)
qed

lemma add_relaxed_count_abs:
  assumes "errors_abs s errs"
  obtains s' where "add_relaxed_count count s = Inr s'" and "errors_abs s' (errs @ [relaxed_error (strict_counter s) count])"
    and "strict_counter s' = strict_counter s"
proof -
  let ?m = "next_block s" let ?e = "relaxed_error (strict_counter s) count"
  obtain t where t: "blocks s (rel_tail s) = Some t"
    using assms unfolding errors_abs_def Let_def by (metis diff_less zero_less_one)
  show ?thesis
  proof (cases "counts t = REL_NSIZE")
    case False
    then show ?thesis using that errors_abs_store(1) [OF assms t False] errors_abs_store(2) [OF assms t False, of ?e] t by (simp add: add_relaxed_count_def)
  next
    case True
    let ?s = "(snd (calloc_block s))\<lparr>blocks := (blocks (snd (calloc_block s)))(rel_tail s \<mapsto> t\<lparr>block_next := Some ?m\<rparr>),
      rel_tail := ?m\<rparr>"
    let ?t = "\<lparr>block_next = None, counts = 0, error = replicate REL_NSIZE 0\<rparr>"
    have ne: "rel_tail s \<noteq> ?m" using assms by (auto simp: errors_abs_def Let_def)
    have t': "blocks ?s (rel_tail ?s) = Some ?t" using ne by (simp add: calloc_block_def)
    have "add_relaxed_count count s =
        Inr (?s\<lparr>blocks := (blocks ?s)(rel_tail ?s \<mapsto> ?t\<lparr>error := (error ?t)[counts ?t := ?e], counts := counts ?t + 1\<rparr>)\<rparr>)"
      using t True ne by (simp add: add_relaxed_count_def Let_def case_prod_beta calloc_block_def)
    then show ?thesis
      using that errors_abs_store(2) [OF errors_abs_grow [OF assms t True] t', of ?e] by (simp add: calloc_block_def)
  qed
qed

text \<open>
  The place a loop has reached, as a position in the list of errors; it tells what the loop
  reads next.
\<close>

lemma read_place:
  assumes s: "errors_abs s errs" and i: "i < next_block s" and cnt: "cnt \<le> REL_NSIZE" and p: "p = REL_NSIZE * i + cnt" "p \<le> length errs"
  obtains q where "next_place (blocks s) (Some i) cnt = Inr q"
    and "p = length errs \<Longrightarrow> read_error (blocks s) (fst q) (snd q) = Inr None"
    and "p < length errs \<Longrightarrow> \<exists>i'. q = (Some i', p - REL_NSIZE * i') \<and> i' < next_block s \<and> snd q < REL_NSIZE \<and>
      p = REL_NSIZE * i' + snd q \<and> read_error (blocks s) (fst q) (snd q) = Inr (Some (errs ! p))"
proof -
  let ?m = "next_block s"
  have len: "length errs \<le> REL_NSIZE * ?m" and b: "\<And>i. i < ?m \<Longrightarrow> \<exists>b. blocks s i = Some b \<and> block_holds errs ?m i b"
    using s by (simp_all add: errors_abs_def Let_def)
  have read: "read_error (blocks s) (Some j) k = (if REL_NSIZE * j + k = length errs then Inr None else Inr (Some (errs ! (REL_NSIZE * j + k))))"
    if j: "j < ?m" and "k < REL_NSIZE" "REL_NSIZE * j + k \<le> length errs" for j k
  proof -
    obtain blk where "blocks s j = Some blk" "block_holds errs ?m j blk" using b [OF j] by auto
    then show ?thesis using that j by (auto simp: read_error_def block_holds_def min_def split: if_splits)
  qed
  show thesis
  proof (cases "cnt = REL_NSIZE")
    case False
    then show thesis using cnt p i read [OF i, of cnt] by (intro that [of "(Some i, cnt)"]) (auto simp: next_place_def)
  next
    case True
    obtain b where b: "blocks s i = Some b" "block_holds errs ?m i b" using b [OF i] by auto
    show thesis
    proof (cases "Suc i < ?m")
      case more: True
      then have "next_place (blocks s) (Some i) cnt = Inr (Some (Suc i), 0)"
        using True b by (simp add: next_place_def block_holds_def)
      then show thesis using p True more read [OF more, of 0] by (intro that [of "(Some (Suc i), 0)"]) (auto simp: add.commute)
    next
      case last: False
      then have "next_place (blocks s) (Some i) cnt = Inr (None, 0)"
        using True b by (simp add: next_place_def block_holds_def)
      moreover have "p = length errs"
        using last i p True len by (simp add: not_less less_Suc_eq_le le_antisym Suc_leI) (metis Suc_leI le_antisym mult_Suc_right add.commute)
      ultimately show thesis by (intro that [of "(None, 0)"]) (simp_all add: read_error_def)
    qed
  qed
qed

lemma mean_max_loop_abs:
  assumes "errors_abs s errs" and "i < next_block s" and "cnt \<le> REL_NSIZE" and "REL_NSIZE * i + cnt = p" and "p \<le> length errs"
  shows "mean_max_loop (blocks s) (Some i) cnt samples sm max_err =
    Some (Inr (samples + (length errs - p), sm + sum_list (drop p errs), foldl max max_err (drop p errs)))"
  using assms(2-)
proof (induction "length errs - p" arbitrary: i cnt p samples sm max_err)
  case 0
  obtain q where "next_place (blocks s) (Some i) cnt = Inr q" "read_error (blocks s) (fst q) (snd q) = Inr None"
    using read_place [OF assms(1) "0.prems"(1,2), of p] 0 by auto
  then show ?case using 0 by (subst mean_max_loop.simps) simp
next
  case (Suc d)
  have p: "p < length errs" using Suc.hyps(2) by simp
  then obtain i' c where q: "next_place (blocks s) (Some i) cnt = Inr (Some i', c)" "i' < next_block s" "c < REL_NSIZE"
    "p = REL_NSIZE * i' + c" "read_error (blocks s) (Some i') c = Inr (Some (errs ! p))"
    using read_place [OF assms(1) Suc.prems(1,2), of p] Suc.prems by (metis fst_conv snd_conv less_imp_le)
  have IH: "mean_max_loop (blocks s) (Some i') (Suc c) samples' sm' me =
    Some (Inr (samples' + (length errs - Suc p), sm' + sum_list (drop (Suc p) errs), foldl max me (drop (Suc p) errs)))" for samples' sm' me
    by (rule Suc.hyps(1)) (use Suc.hyps(2) q p in auto)
  have "drop p errs = errs ! p # drop (Suc p) errs" using p by (rule Cons_nth_drop_Suc [symmetric])
  moreover have "max max_err (errs ! p) = (if errs ! p > max_err then errs ! p else max_err)" by simp
  ultimately show ?case using p by (subst mean_max_loop.simps) (simp add: q IH)
qed

lemma mean_max_abs:
  assumes "errors_abs s errs"
  shows "mean_max s = Some (Inr (length errs, sum_list errs, foldl max 0 errs))"
  using mean_max_loop_abs [OF assms, of 0 0 0 0 0 0] assms by (simp add: mean_max_def errors_abs_def Let_def)

text \<open>What \<open>SAVE_FULL\<close> prints: the errors with commas between them, then a new line.\<close>

fun separated :: "nat list \<Rightarrow> printed list" where
  "separated [] = []"
| "separated [e] = [Number e, Newline]"
| "separated (e # es) = Number e # Comma # separated es"

lemma separated_Cons: "separated (e # es) = Number e # (if es = [] then [Newline] else Comma # separated es)"
  by (cases es) simp_all

lemma print_loop_abs:
  assumes "errors_abs s errs" and "i < next_block s" and "cnt \<le> REL_NSIZE" and "REL_NSIZE * i + cnt = p" and "p \<le> length errs"
  shows "print_loop (blocks s) (Some i) cnt out = Some (Inr (out @ separated (drop p errs)))"
  using assms(2-)
proof (induction "length errs - p" arbitrary: i cnt p out)
  case 0
  obtain q where "next_place (blocks s) (Some i) cnt = Inr q" "read_error (blocks s) (fst q) (snd q) = Inr None"
    using read_place [OF assms(1) "0.prems"(1,2), of p] 0 by auto
  then show ?case using 0 by (subst print_loop.simps) simp
next
  case (Suc d)
  have p: "p < length errs" using Suc.hyps(2) by simp
  then obtain i' c where q: "next_place (blocks s) (Some i) cnt = Inr (Some i', c)" "i' < next_block s" "c < REL_NSIZE"
    "p = REL_NSIZE * i' + c" "read_error (blocks s) (Some i') c = Inr (Some (errs ! p))"
    using read_place [OF assms(1) Suc.prems(1,2), of p] Suc.prems by (metis fst_conv snd_conv less_imp_le)
  have e: "drop p errs = errs ! p # drop (Suc p) errs" using p by (rule Cons_nth_drop_Suc [symmetric])
  show ?case
  proof (cases "Suc p = length errs")
    case True
    obtain r where "next_place (blocks s) (Some i') (Suc c) = Inr r" "read_error (blocks s) (fst r) (snd r) = Inr None"
      using read_place [OF assms(1) q(2), of "Suc c" "Suc p"] q(3,4) True by auto
    then show ?thesis using True by (subst print_loop.simps) (simp add: q(1,5) e)
  next
    case False
    then obtain i2 c2 where r: "next_place (blocks s) (Some i') (Suc c) = Inr (Some i2, c2)" "i2 < next_block s" "c2 < REL_NSIZE"
      "Suc p = REL_NSIZE * i2 + c2" "read_error (blocks s) (Some i2) c2 = Inr (Some (errs ! Suc p))"
      using read_place [OF assms(1) q(2), of "Suc c" "Suc p"] q(3,4) p
      by (metis Suc_leI Suc_lessI add_Suc_right fst_conv snd_conv)
    have "print_loop (blocks s) (Some i2) c2 out' = Some (Inr (out' @ separated (drop (Suc p) errs)))" for out'
      by (rule Suc.hyps(1)) (use Suc.hyps(2) r p in auto)
    moreover have "drop (Suc p) errs \<noteq> []" using p False by simp
    ultimately show ?thesis by (subst print_loop.simps) (simp add: q(1,5) r(1,5) e separated_Cons)
  qed
qed

lemma print_errors_abs: "errors_abs s errs \<Longrightarrow> print_errors s = Some (Inr (separated errs))"
  using print_loop_abs [of s errs 0 0 0 "[]"] by (simp add: print_errors_def errors_abs_def Let_def)

section \<open>Recording under the lock\<close>

text \<open>The errors a sequence of events leaves, when the strict counter starts at \<open>n\<close>, and where it ends.\<close>

fun moved :: "nat \<Rightarrow> count_event \<Rightarrow> nat" where
  "moved n (Counted up count) = (if up then add64 n 1 else sub64 n 1)"

fun errors_of :: "nat \<Rightarrow> count_event list \<Rightarrow> nat list" where
  "errors_of n [] = []"
| "errors_of n (Counted up count # evs) =
     (let n' = moved n (Counted up count) in relaxed_error n' count # errors_of n' evs)"

lemma errors_of_append: "errors_of n (evs @ [Counted up count]) =
    errors_of n evs @ [relaxed_error (moved (foldl moved n evs) (Counted up count)) count]"
proof (induction evs arbitrary: n)
  case (Cons ev evs)
  then show ?case by (cases ev) (simp add: Let_def)
qed (simp add: Let_def)

text \<open>The only way a recording fails is the assertion that the strict counter is positive.\<close>

lemma record_count_abs:
  assumes "errors_abs s errs"
  shows "case run (record_count (Counted up count)) s of
      Done r s' \<Rightarrow> errors_abs s' (errs @ [relaxed_error (strict_counter s') count]) \<and>
        strict_counter s' = moved (strict_counter s) (Counted up count) \<and> (up \<or> strict_counter s > 0)
    | Failed e s' \<Rightarrow> e = Assert_failed"
proof -
  let ?s = "s\<lparr>strict_counter := moved (strict_counter s) (Counted up count)\<rparr>"
  obtain s' where "add_relaxed_count count ?s = Inr s'"
    "errors_abs s' (errs @ [relaxed_error (strict_counter ?s) count])" "strict_counter s' = strict_counter ?s"
    using add_relaxed_count_abs [of ?s errs count] assms by auto
  then show ?thesis
    by (cases up) (auto simp: record_count_def inc_relaxed_count_def dec_relaxed_count_def)
qed

lemma record_replay:
  "replay (body_spec record_count) init_counter_analysis H = Some s \<Longrightarrow>
    errors_abs s (errors_of 0 (map (fst \<circ> snd) H)) \<and> strict_counter s = foldl moved 0 (map (fst \<circ> snd) H)"
proof (induction H arbitrary: s rule: rev_induct)
  case Nil
  then show ?case using errors_abs_init strict_counter_init by simp
next
  case (snoc e H)
  obtain i up count r where e: "e = (i, Counted up count, r)" by (metis count_event.exhaust prod.exhaust)
  obtain s0 where s0: "replay (body_spec record_count) init_counter_analysis H = Some s0"
    "body_spec record_count s0 (Counted up count) r = Some s"
    using snoc.prems by (auto simp: e split: option.splits)
  show ?case
    using snoc.IH [OF s0(1)] record_count_abs [where s = s0 and up = up and count = count] s0(2)
    by (fastforce simp: e body_spec_def errors_of_append split: outcome.splits if_splits)
qed

lemma record_safe: "body_safe (\<lambda>e. no_fuel e \<or> e = Assert_failed) init_counter_analysis record_count"
  unfolding body_safe_def
proof (intro allI impI)
  fix H :: "(nat \<times> count_event \<times> unit) list" and d op e d'
  assume H: "replay (body_spec record_count) init_counter_analysis H = Some d" and f: "run (record_count op) d = Failed e d'"
  obtain up count where "op = Counted up count" by (cases op)
  then show "no_fuel e \<or> e = Assert_failed"
    using record_count_abs [where s = d and up = up and count = count] record_replay [OF H] f by fastforce
qed

interpretation recorders: mutex "\<lambda>e. no_fuel e \<or> e = Assert_failed" "min n U32" "lock_op (ticket_lock k)" "lock_op ticket_unlock"
    "ticket_inv U32 (min n U32)" tg_own ticket_ord ticket_grd ticket_ready ticket_held for n k
  by (rule ticket.weaken) simp

text \<open>Threads that record their steps, \<open>opss ! i\<close> those of thread \<open>i\<close>, each spinning at most \<open>k\<close> times for the lock.\<close>

definition recording :: "nat \<Rightarrow> count_event list list \<Rightarrow>
    (ticket_st, counter_analysis) guarded \<times> ((ticket_st, counter_analysis) guarded, unit list \<times> nat \<times> unit) prog list" where
  "recording k opss = (\<lparr>the_lock = ticket_init, inside = [], data = init_counter_analysis\<rparr>,
     threads (critical (lock_op (ticket_lock k)) (lock_op ticket_unlock) record_count) (users opss (\<lambda>_. ())))"



section \<open>Every field keeps its type\<close>

text \<open>
  The values of the C types: 64 bits for the strict counter, 32 bits for the errors; the pointers
  of the list lead to allocated blocks, and the count of a block is a position of its array.
\<close>

definition block_typed :: "nat \<Rightarrow> relaxation_list \<Rightarrow> bool" where
  "block_typed m b \<longleftrightarrow> length (error b) = REL_NSIZE \<and> counts b \<le> REL_NSIZE \<and> (\<forall>e\<in>set (error b). e < U32) \<and>
     (case block_next b of None \<Rightarrow> True | Some a \<Rightarrow> a < m)"

definition analysis_typed :: "counter_analysis \<Rightarrow> bool" where
  "analysis_typed s \<longleftrightarrow> strict_counter s < U64 \<and> rel_start s < next_block s \<and> rel_tail s < next_block s \<and>
     (\<forall>a. blocks s a = None \<longleftrightarrow> next_block s \<le> a) \<and> (\<forall>a b. blocks s a = Some b \<longrightarrow> block_typed (next_block s) b)"

lemma analysis_typed_init: "analysis_typed init_counter_analysis"
  by (simp add: analysis_typed_def init_counter_analysis_def calloc_block_def block_typed_def)

lemma block_typed_mono: "block_typed m b \<Longrightarrow> m \<le> m' \<Longrightarrow> block_typed m' b"
  by (auto simp: block_typed_def split: option.splits)

lemma analysis_typed_block: "analysis_typed s \<Longrightarrow> blocks s a = Some b \<Longrightarrow> block_typed (next_block s) b"
  unfolding analysis_typed_def by blast

lemma analysis_typed_alloc: "analysis_typed s \<Longrightarrow> a < next_block s \<Longrightarrow> \<exists>b. blocks s a = Some b"
  unfolding analysis_typed_def by (meson not_None_eq not_le)

lemma analysis_typed_store:
  assumes "analysis_typed s" and "a < next_block s" and "block_typed (next_block s) b"
  shows "analysis_typed (s\<lparr>blocks := (blocks s)(a \<mapsto> b)\<rparr>)"
  using assms by (auto simp: analysis_typed_def)

lemma analysis_typed_calloc:
  assumes "analysis_typed s"
  shows "analysis_typed (snd (calloc_block s))"
proof -
  have "block_typed (Suc (next_block s)) b" if "blocks s a = Some b" for a b
    by (rule block_typed_mono [OF analysis_typed_block [OF assms that]]) simp
  then show ?thesis using assms by (auto simp: analysis_typed_def calloc_block_def block_typed_def)
qed

lemma relaxed_error_typed: "relaxed_error m count < U32"
  by (simp add: relaxed_error_def)

lemma add_relaxed_count_typed:
  assumes s: "analysis_typed s"
  obtains s' where "add_relaxed_count count s = Inr s'" and "analysis_typed s'"
proof -
  have store: "add_relaxed_count count s = Inr s1 \<Longrightarrow> analysis_typed s1 \<Longrightarrow> thesis" for s1 by (rule that)
  obtain t where t: "blocks s (rel_tail s) = Some t" "block_typed (next_block s) t"
    using analysis_typed_alloc [OF s, of "rel_tail s"] analysis_typed_block [OF s] s by (auto simp: analysis_typed_def)
  have room: "counts t' < length (error t') \<and> analysis_typed (u\<lparr>blocks := (blocks u)(rel_tail u \<mapsto>
      t'\<lparr>error := (error t')[counts t' := relaxed_error (strict_counter u) count], counts := counts t' + 1\<rparr>)\<rparr>)"
    if u: "analysis_typed u" "blocks u (rel_tail u) = Some t'" "counts t' \<noteq> REL_NSIZE" for u t'
  proof
    note b = analysis_typed_block [OF u(1,2)]
    then show lt: "counts t' < length (error t')" using u(3) by (simp add: block_typed_def)
    have "block_typed (next_block u) (t'\<lparr>error := (error t')[counts t' := relaxed_error (strict_counter u) count], counts := counts t' + 1\<rparr>)"
      using b lt set_update_subset_insert [of "error t'" "counts t'" "relaxed_error (strict_counter u) count"]
      by (auto simp: block_typed_def relaxed_error_typed dest!: subsetD)
    then show "analysis_typed (u\<lparr>blocks := (blocks u)(rel_tail u \<mapsto>
        t'\<lparr>error := (error t')[counts t' := relaxed_error (strict_counter u) count], counts := counts t' + 1\<rparr>)\<rparr>)"
      by (intro analysis_typed_store) (use u(1) in \<open>simp_all add: analysis_typed_def\<close>)
  qed
  show ?thesis
  proof (cases "counts t = REL_NSIZE")
    case False
    then show ?thesis using store room [OF s t(1)] t(1) by (simp add: add_relaxed_count_def)
  next
    case True
    let ?c = "snd (calloc_block s)"
    let ?u = "?c\<lparr>blocks := (blocks ?c)(rel_tail s \<mapsto> t\<lparr>block_next := Some (next_block s)\<rparr>), rel_tail := next_block s\<rparr>"
    let ?b = "\<lparr>block_next = None, counts = 0, error = replicate REL_NSIZE 0\<rparr>"
    have ne: "rel_tail s < next_block s" using s by (simp add: analysis_typed_def)
    have c: "analysis_typed ?c" "next_block ?c = Suc (next_block s)" "strict_counter ?c = strict_counter s"
      using analysis_typed_calloc [OF s] by (simp_all add: calloc_block_def)
    have "block_typed (next_block ?c) (t\<lparr>block_next := Some (next_block s)\<rparr>)"
      using t(2) c(2) by (simp add: block_typed_def)
    then have "analysis_typed (?c\<lparr>blocks := (blocks ?c)(rel_tail s \<mapsto> t\<lparr>block_next := Some (next_block s)\<rparr>)\<rparr>)"
      by (intro analysis_typed_store) (use c ne in simp_all)
    then have u: "analysis_typed ?u" using c(2) by (simp add: analysis_typed_def)
    have b: "blocks ?u (rel_tail ?u) = Some ?b" using ne by (simp add: calloc_block_def)
    have "add_relaxed_count count s = Inr (?u\<lparr>blocks := (blocks ?u)(rel_tail ?u \<mapsto>
        ?b\<lparr>error := (error ?b)[counts ?b := relaxed_error (strict_counter ?u) count], counts := counts ?b + 1\<rparr>)\<rparr>)"
      using t(1) True ne by (simp add: add_relaxed_count_def Let_def case_prod_beta calloc_block_def)
    then show ?thesis using store room [OF u b] by simp
  qed
qed

text \<open>
  C1: type soundness of the recording: the initial state is well-typed, a recording of any step
  with any relaxed count takes a well-typed state to a well-typed one, and it gets stuck only on
  the assertion in \<open>dec_relaxed_count\<close>, for a decrement when the strict counter is zero. So no
  counter leaves its C type, no array is written outside its bounds and no pointer of the list
  dangles, however many blocks have been linked.
\<close>

theorem recording_typed:
  assumes "analysis_typed s"
  shows "analysis_typed init_counter_analysis \<and>
    (case run (record_count ev) s of
       Done r s' \<Rightarrow> analysis_typed s'
     | Failed e s' \<Rightarrow> e = Assert_failed \<and> s' = s \<and> strict_counter s = 0 \<and> (\<exists>count. ev = Counted False count))"
proof -
  obtain up count where ev: "ev = Counted up count" by (cases ev)
  let ?s = "s\<lparr>strict_counter := moved (strict_counter s) (Counted up count)\<rparr>"
  have "analysis_typed ?s" using assms by (simp add: analysis_typed_def sub64_def add64_def)
  then obtain s' where "add_relaxed_count count ?s = Inr s'" "analysis_typed s'" by (rule add_relaxed_count_typed)
  then show ?thesis
    using analysis_typed_init by (cases up) (auto simp: ev record_count_def inc_relaxed_count_def dec_relaxed_count_def)
qed

lemma recording_typed_witness:
  "run (record_count (Counted False 5)) init_counter_analysis = Failed Assert_failed init_counter_analysis \<and>
   (case run (record_count (Counted True 5)) init_counter_analysis of Done r s' \<Rightarrow> analysis_typed s' | Failed e s' \<Rightarrow> False)"
proof -
  have "run (record_count (Counted False 5)) init_counter_analysis = Failed Assert_failed init_counter_analysis"
    by (simp add: record_count_def dec_relaxed_count_def strict_counter_init)
  moreover have "case run (record_count (Counted True 5)) init_counter_analysis of Done r s' \<Rightarrow> analysis_typed s' | Failed e s' \<Rightarrow> False"
    using recording_typed [OF analysis_typed_init, of "Counted True 5"] by (auto split: outcome.splits)
  ultimately show ?thesis by blast
qed


end
