(* ===== verification/Queue_Dra.thy ===== *)
theory Queue_Dra
  imports Ms_Queue
begin

text \<open>
  The distributed queue with randomised access, \<open>src/queue-dra/queue-dra.c\<close>: an array of
  Michael-Scott queues whose heads and tails are plain pointers (\<open>get_array\<close>, \<open>put_array\<close>). An
  operation works on a random queue or, with \<open>NUM_CHOICES\<close>, on the best of that many random
  queues, judged by the \<open>count\<close> that each enqueue stamps its node with. A dequeue that finds its
  queue empty returns \<open>0\<close>, whatever the others hold.

  The lists are those of \<open>Chain\<close>, the specification \<open>spec_fifos\<close> and the thread with its allocator
  those of \<open>Ms_Queue\<close>. Shown: every operation is linearizable to one of the FIFO queue it chose,
  no null or dangling pointer is followed, the stamps of a queue count its enqueues, and no loop
  runs out of its bound when this is more than three times the number of operations.

  Nodes are not reused (\<open>GC\<close> off, or a collector that frees a node when nobody holds it). Fresh
  memory holds an arbitrary \<open>count\<close>: \<open>mem a\<close> is that of the node at \<open>a\<close>.
\<close>

section \<open>State\<close>

record dra_node = queue_node +
  dn_count :: nat

record dra_mem =
  dra_get :: "qaddr option list"
  dra_put :: "qaddr option list"
  dra_nodes :: "unit dra_node_ext queue_heap"

section \<open>Operations\<close>

definition create_node_dra :: "(qaddr \<Rightarrow> nat) \<Rightarrow> int \<Rightarrow> int \<Rightarrow> qaddr option \<Rightarrow> thread_msq \<Rightarrow>
    (qaddr \<Rightarrow> thread_msq \<Rightarrow> (dra_mem, 'a) prog) \<Rightarrow> (dra_mem, 'a) prog" where
  "create_node_dra mem key v p l k = (let a = Node (ms_thread_id l) (ms_alloc_next l) in
     store (\<lambda>s. s\<lparr>dra_nodes := (dra_nodes s)(a \<mapsto> \<lparr>qn_key = key, qn_val = v, qn_next = p, dn_count = mem a\<rparr>)\<rparr>)
       (k a (l\<lparr>ms_alloc_next := ms_alloc_next l + 1\<rparr>)))"

definition create_queue_dra :: "(qaddr \<Rightarrow> nat) \<Rightarrow> nat \<Rightarrow> dra_mem" where
  "create_queue_dra mem width = \<lparr>dra_get = map (\<lambda>i. Some (Dummy i)) [0..<width],
     dra_put = map (\<lambda>i. Some (Dummy i)) [0..<width],
     dra_nodes = (\<lambda>a. case a of
       Dummy i \<Rightarrow> if i < width then Some \<lparr>qn_key = 0, qn_val = 0, qn_next = None, dn_count = mem a\<rparr> else None
     | Node i k \<Rightarrow> None)\<rparr>"

definition read_get :: "nat \<Rightarrow> (qaddr option \<Rightarrow> (dra_mem, 'a) prog) \<Rightarrow> (dra_mem, 'a) prog" where
  "read_get j k = checked (\<lambda>s. j < length (dra_get s)) (load (\<lambda>s. dra_get s ! j) k)"

definition read_put :: "nat \<Rightarrow> (qaddr option \<Rightarrow> (dra_mem, 'a) prog) \<Rightarrow> (dra_mem, 'a) prog" where
  "read_put j k = checked (\<lambda>s. j < length (dra_put s)) (load (\<lambda>s. dra_put s ! j) k)"

definition dra_field :: "(dra_node \<Rightarrow> 'x) \<Rightarrow> qaddr option \<Rightarrow> ('x \<Rightarrow> (dra_mem, 'a) prog) \<Rightarrow> (dra_mem, 'a) prog" where
  "dra_field f p k = checked (\<lambda>s. p \<noteq> None \<and> dra_nodes s (the p) \<noteq> None) (load (\<lambda>s. f (the (dra_nodes s (the p)))) k)"

definition set_node :: "(dra_node \<Rightarrow> dra_node) \<Rightarrow> qaddr \<Rightarrow> dra_mem \<Rightarrow> dra_mem" where
  "set_node f a s = s\<lparr>dra_nodes := (dra_nodes s)(a \<mapsto> f (the (dra_nodes s a)))\<rparr>"

definition set_count :: "qaddr \<Rightarrow> nat \<Rightarrow> (dra_mem, 'a) prog \<Rightarrow> (dra_mem, 'a) prog" where
  "set_count a c k = checked (\<lambda>s. dra_nodes s a \<noteq> None) (store (set_node (\<lambda>n. n\<lparr>dn_count := c\<rparr>) a) k)"

definition enq_cae_dra :: "qaddr option \<Rightarrow> qaddr \<Rightarrow> (bool \<Rightarrow> (dra_mem, 'a) prog) \<Rightarrow> (dra_mem, 'a) prog" where
  "enq_cae_dra node new k = checked (\<lambda>s. node \<noteq> None \<and> dra_nodes s (the node) \<noteq> None)
     (cas (\<lambda>s. qn_next (the (dra_nodes s (the node)))) (\<lambda>q. set_node (\<lambda>n. n\<lparr>qn_next := q\<rparr>) (the node)) None (Some new) k)"

definition deq_cae_dra :: "nat \<Rightarrow> qaddr option \<Rightarrow> qaddr option \<Rightarrow> (bool \<Rightarrow> (dra_mem, 'a) prog) \<Rightarrow> (dra_mem, 'a) prog" where
  "deq_cae_dra j read_node new_node k = checked (\<lambda>s. j < length (dra_get s))
     (cas (\<lambda>s. dra_get s ! j) (\<lambda>q s. s\<lparr>dra_get := (dra_get s)[j := q]\<rparr>) read_node new_node k)"

definition cas_put :: "nat \<Rightarrow> qaddr option \<Rightarrow> qaddr option \<Rightarrow> (bool \<Rightarrow> (dra_mem, 'a) prog) \<Rightarrow> (dra_mem, 'a) prog" where
  "cas_put j old new k = checked (\<lambda>s. j < length (dra_put s))
     (cas (\<lambda>s. dra_put s ! j) (\<lambda>q s. s\<lparr>dra_put := (dra_put s)[j := q]\<rparr>) old new k)"

text \<open>The choice of a queue: a descriptor of its index and of the node read there.\<close>

fun enq_choices_dra :: "nat \<Rightarrow> nat \<Rightarrow> nat \<Rightarrow> qaddr option \<Rightarrow> thread_msq \<Rightarrow>
    (nat \<Rightarrow> qaddr option \<Rightarrow> thread_msq \<Rightarrow> (dra_mem, 'a) prog) \<Rightarrow> (dra_mem, 'a) prog" where
  "enq_choices_dra 0 width index node l k = k index node l"
| "enq_choices_dra (Suc r) width index node l k =
     draw width l (\<lambda>index2 l.
     read_put index2 (\<lambda>node2.
     if node2 = None then k index2 node2 l
     else dra_field dn_count node2 (\<lambda>c2. dra_field dn_count node (\<lambda>c.
       if c2 < c then enq_choices_dra r width index2 node2 l k
       else enq_choices_dra r width index node l k))))"

fun get_enqueue_index :: "nat option \<Rightarrow> nat \<Rightarrow> thread_msq \<Rightarrow>
    (nat \<Rightarrow> qaddr option \<Rightarrow> thread_msq \<Rightarrow> (dra_mem, 'a) prog) \<Rightarrow> (dra_mem, 'a) prog" where
  "get_enqueue_index None width l k = draw width l (\<lambda>index l. read_put index (\<lambda>tail. k index tail l))"
| "get_enqueue_index (Some d) width l k = draw width l (\<lambda>index l. read_put index (\<lambda>node.
     if node = None then k index node l else enq_choices_dra (d - 1) width index node l k))"

fun deq_choices_dra :: "nat \<Rightarrow> nat \<Rightarrow> nat \<Rightarrow> qaddr option \<Rightarrow> thread_msq \<Rightarrow>
    (nat \<Rightarrow> qaddr option \<Rightarrow> thread_msq \<Rightarrow> (dra_mem, 'a) prog) \<Rightarrow> (dra_mem, 'a) prog" where
  "deq_choices_dra 0 width index node l k = k index node l"
| "deq_choices_dra (Suc r) width index node l k =
     draw width l (\<lambda>index2 l.
     read_get index2 (\<lambda>node2.
     dra_field qn_next node (\<lambda>nx.
     if nx = None then deq_choices_dra r width index2 node2 l k
     else dra_field qn_next node2 (\<lambda>nx2.
       if nx2 = None then deq_choices_dra r width index node l k
       else dra_field dn_count node2 (\<lambda>c2. dra_field dn_count node (\<lambda>c.
         if c2 < c then deq_choices_dra r width index2 node2 l k
         else deq_choices_dra r width index node l k))))))"

fun get_dequeue_index :: "nat option \<Rightarrow> nat \<Rightarrow> thread_msq \<Rightarrow>
    (nat \<Rightarrow> qaddr option \<Rightarrow> thread_msq \<Rightarrow> (dra_mem, 'a) prog) \<Rightarrow> (dra_mem, 'a) prog" where
  "get_dequeue_index None width l k = draw width l (\<lambda>index l. read_get index (\<lambda>head. k index head l))"
| "get_dequeue_index (Some d) width l k = draw width l (\<lambda>index l. read_get index (\<lambda>node.
     deq_choices_dra (d - 1) width index node l k))"

text \<open>The operations; with their result they give the index of the queue they used.\<close>

fun enqueue_dra_loop :: "nat option \<Rightarrow> nat \<Rightarrow> nat \<Rightarrow> qaddr \<Rightarrow> thread_msq \<Rightarrow> (dra_mem, (int \<times> nat) \<times> thread_msq) prog" where
  "enqueue_dra_loop nc width 0 new l = Stop No_fuel"
| "enqueue_dra_loop nc width (Suc n) new l =
     get_enqueue_index nc width l (\<lambda>index tail l.
     dra_field dn_count tail (\<lambda>c.
     set_count new (add64 c 1) (
     dra_field qn_next tail (\<lambda>nx.
     if nx = None then
       enq_cae_dra tail new (\<lambda>ok.
       if ok then cas_put index tail (Some new) (\<lambda>_. Ret ((1, index), l))
       else enqueue_dra_loop nc width n new (count_put_fail l))
     else
       dra_field qn_next tail (\<lambda>nx.
       cas_put index tail nx (\<lambda>_. enqueue_dra_loop nc width n new (count_put_fail l)))))))"

definition enqueue_dra :: "(qaddr \<Rightarrow> nat) \<Rightarrow> nat option \<Rightarrow> nat \<Rightarrow> nat \<Rightarrow> int \<Rightarrow> int \<Rightarrow> thread_msq \<Rightarrow>
    (dra_mem, (int \<times> nat) \<times> thread_msq) prog" where
  "enqueue_dra mem nc width n key v l = create_node_dra mem key v None l (\<lambda>new l. enqueue_dra_loop nc width n new l)"

fun dequeue_dra :: "nat option \<Rightarrow> nat \<Rightarrow> nat \<Rightarrow> thread_msq \<Rightarrow> (dra_mem, (int \<times> nat) \<times> thread_msq) prog" where
  "dequeue_dra nc width 0 l = Stop No_fuel"
| "dequeue_dra nc width (Suc n) l =
     get_dequeue_index nc width l (\<lambda>index head l.
     read_put index (\<lambda>tail.
     if head = tail then
       dra_field qn_next head (\<lambda>nx.
       if nx = None then Ret ((0, index), count_null l)
       else
         dra_field qn_next tail (\<lambda>nx.
         cas_put index tail nx (\<lambda>_. dequeue_dra nc width n l)))
     else
       dra_field qn_next head (\<lambda>nx.
       deq_cae_dra index head nx (\<lambda>ok.
       if ok then dra_field qn_next head (\<lambda>nx. dra_field qn_val nx (\<lambda>v. Ret ((v, index), l)))
       else dequeue_dra nc width n l))))"

fun queue_size_dra_lane :: "nat \<Rightarrow> qaddr option \<Rightarrow> nat \<Rightarrow> (nat \<Rightarrow> (dra_mem, nat) prog) \<Rightarrow> (dra_mem, nat) prog" where
  "queue_size_dra_lane 0 node sz k = Stop No_fuel"
| "queue_size_dra_lane (Suc n) node sz k = dra_field qn_next node (\<lambda>nx.
     if nx \<noteq> None then dra_field qn_next node (\<lambda>nx. queue_size_dra_lane n nx (add64 sz 1) k) else k sz)"

fun queue_size_dra_loop :: "nat \<Rightarrow> nat \<Rightarrow> nat \<Rightarrow> nat \<Rightarrow> (dra_mem, nat) prog" where
  "queue_size_dra_loop n i 0 sz = Ret sz"
| "queue_size_dra_loop n i (Suc m) sz =
     read_get i (\<lambda>node. queue_size_dra_lane n node sz (\<lambda>sz. queue_size_dra_loop n (i + 1) m sz))"

definition queue_size_dra :: "nat \<Rightarrow> nat \<Rightarrow> (dra_mem, nat) prog" where
  "queue_size_dra width n = queue_size_dra_loop n 0 width 0"

fun dra_op :: "(qaddr \<Rightarrow> nat) \<Rightarrow> nat option \<Rightarrow> nat \<Rightarrow> nat \<Rightarrow> queue_op \<Rightarrow> thread_msq \<Rightarrow> (dra_mem, (int \<times> nat) \<times> thread_msq) prog" where
  "dra_op mem nc width n (Enqueue key v) l = enqueue_dra mem nc width n key v l"
| "dra_op mem nc width n Dequeue l = dequeue_dra nc width n l"

section \<open>Invariant\<close>

text \<open>The position in its list of the node an array entry points at.\<close>

definition gets_dra :: "dra_mem \<Rightarrow> nat \<Rightarrow> nat" where
  "gets_dra s j = (LEAST k. walk (dra_nodes s) j k = dra_get s ! j)"

definition puts_dra :: "dra_mem \<Rightarrow> nat \<Rightarrow> nat" where
  "puts_dra s j = (LEAST k. walk (dra_nodes s) j k = dra_put s ! j)"

text \<open>Along a list the stamps go up by one, in 64 bits.\<close>

definition stamps_ok :: "nat \<Rightarrow> unit dra_node_ext queue_heap \<Rightarrow> bool" where
  "stamps_ok w h \<longleftrightarrow> (\<forall>j<w. \<forall>k a b na nb. walk h j k = Some a \<longrightarrow> h a = Some na \<longrightarrow>
     walk h j (Suc k) = Some b \<longrightarrow> h b = Some nb \<longrightarrow> dn_count nb = add64 (dn_count na) 1)"

lemma stamps_okD:
  "stamps_ok w h \<Longrightarrow> j < w \<Longrightarrow> walk h j k = Some a \<Longrightarrow> h a = Some na \<Longrightarrow> walk h j (Suc k) = Some b \<Longrightarrow> h b = Some nb \<Longrightarrow>
    dn_count nb = add64 (dn_count na) 1"
  unfolding stamps_ok_def by blast

definition pointers_ok :: "nat \<Rightarrow> dra_mem \<Rightarrow> (nat \<Rightarrow> nat) \<Rightarrow> (nat \<Rightarrow> nat) \<Rightarrow> bool" where
  "pointers_ok w s G P \<longleftrightarrow> length (dra_get s) = w \<and> length (dra_put s) = w \<and>
     (\<forall>j<w. dra_get s ! j = walk (dra_nodes s) j (G j) \<and> dra_put s ! j = walk (dra_nodes s) j (P j))"

definition rep_dra :: "dra_mem \<Rightarrow> int list list \<Rightarrow> bool" where
  "rep_dra s q \<longleftrightarrow> pointers_ok (length (dra_get s)) s (gets_dra s) (puts_dra s) \<and> stamps_ok (length (dra_get s)) (dra_nodes s) \<and>
     (\<exists>E. chains (length (dra_get s)) (dra_nodes s) (gets_dra s) (puts_dra s) E \<and>
       q = contents (length (dra_get s)) (gets_dra s) E)"

definition inv_dra :: "nat \<Rightarrow> queue_op list list \<Rightarrow> dra_mem \<times> (queue_op, int \<times> nat) history \<Rightarrow> bool" where
  "inv_dra w opss x \<longleftrightarrow> (case x of (s, H) \<Rightarrow> pointers_ok w s (gets_dra s) (puts_dra s) \<and> hist_ok opss H \<and>
     (\<exists>E. chains w (dra_nodes s) (gets_dra s) (puts_dra s) E \<and>
        replay (spec_fifos False) (replicate w []) H = Some (contents w (gets_dra s) E) \<and>
        (\<Sum>j<w. length (E j)) = length (filter is_enq H)) \<and> stamps_ok w (dra_nodes s))"

definition core_dra :: "nat \<Rightarrow> dra_mem \<Rightarrow> dra_mem \<Rightarrow> bool" where
  "core_dra w s t \<longleftrightarrow> (\<forall>j<w. gets_dra s j \<le> gets_dra t j \<and> puts_dra s j \<le> puts_dra t j) \<and>
     written_once (dra_nodes s) (dra_nodes t) \<and>
     (\<forall>a n. linked w (dra_nodes s) a \<longrightarrow> dra_nodes s a = Some n \<longrightarrow>
        (\<exists>n'. dra_nodes t a = Some n' \<and> dn_count n' = dn_count n))"

definition own_dra :: "nat \<Rightarrow> nat \<Rightarrow> dra_mem \<Rightarrow> dra_mem \<Rightarrow> bool" where
  "own_dra w i s t \<longleftrightarrow> (\<forall>k. \<not> linked w (dra_nodes s) (Node i k) \<longrightarrow>
     \<not> linked w (dra_nodes t) (Node i k) \<and> dra_nodes t (Node i k) = dra_nodes s (Node i k))"

definition ord_dra :: "nat \<Rightarrow> nat \<Rightarrow> dra_mem \<Rightarrow> dra_mem \<Rightarrow> bool" where
  "ord_dra w i s t \<longleftrightarrow> core_dra w s t \<and> own_dra w i s t"

definition grd_dra :: "nat \<Rightarrow> nat \<Rightarrow> dra_mem \<Rightarrow> dra_mem \<Rightarrow> bool" where
  "grd_dra w i s t \<longleftrightarrow> core_dra w s t \<and> (\<forall>j. j \<noteq> i \<longrightarrow> own_dra w j s t)"

lemma dra_refl [simp]: "core_dra w s s" "own_dra w i s s" "ord_dra w i s s" "grd_dra w i s s"
  by (simp_all add: core_dra_def own_dra_def ord_dra_def grd_dra_def)

lemma grd_ord_dra: "i \<noteq> j \<Longrightarrow> grd_dra w i s t \<Longrightarrow> ord_dra w j s t"
  by (simp add: grd_dra_def ord_dra_def)

lemma linked_later: "written_once h h' \<Longrightarrow> linked w h a \<Longrightarrow> linked w h' a"
  unfolding linked_def using walk_stable by blast

lemma core_dra_trans:
  assumes "core_dra w s t" and "core_dra w t u"
  shows "core_dra w s u"
proof -
  have "\<exists>n'. dra_nodes u a = Some n' \<and> dn_count n' = dn_count n"
    if a: "linked w (dra_nodes s) a" "dra_nodes s a = Some n" for a n
  proof -
    obtain n1 where "dra_nodes t a = Some n1" "dn_count n1 = dn_count n" using assms(1) a unfolding core_dra_def by blast
    moreover have "linked w (dra_nodes t) a" using linked_later assms(1) a(1) unfolding core_dra_def by blast
    ultimately show ?thesis using assms(2) unfolding core_dra_def by metis
  qed
  moreover have "written_once (dra_nodes s) (dra_nodes u)"
    by (rule written_once_trans) (use assms in \<open>auto simp: core_dra_def\<close>)
  moreover have "gets_dra s j \<le> gets_dra u j \<and> puts_dra s j \<le> puts_dra u j" if "j < w" for j
    using assms that le_trans unfolding core_dra_def by blast
  ultimately show ?thesis by (simp add: core_dra_def)
qed

lemma ord_dra_trans: "ord_dra w i s t \<Longrightarrow> ord_dra w i t u \<Longrightarrow> ord_dra w i s u"
  using core_dra_trans [of w s t u] by (simp add: ord_dra_def own_dra_def)

lemma ord_draD:
  assumes "ord_dra w i s t"
  shows "j < w \<Longrightarrow> gets_dra s j \<le> gets_dra t j" "j < w \<Longrightarrow> puts_dra s j \<le> puts_dra t j"
    "written_once (dra_nodes s) (dra_nodes t)"
    "walk (dra_nodes s) j k = Some a \<Longrightarrow> walk (dra_nodes t) j k = Some a"
    "\<not> linked w (dra_nodes s) (Node i k) \<Longrightarrow> \<not> linked w (dra_nodes t) (Node i k) \<and> dra_nodes t (Node i k) = dra_nodes s (Node i k)"
  using assms walk_stable unfolding ord_dra_def core_dra_def own_dra_def by blast+

lemma ord_dra_node:
  assumes "ord_dra w i s t" and "dra_nodes s a = Some n"
  obtains n' where "dra_nodes t a = Some n'" "qn_val n' = qn_val n" "\<And>b. qn_next n = Some b \<Longrightarrow> qn_next n' = Some b"
    "linked w (dra_nodes s) a \<Longrightarrow> dn_count n' = dn_count n"
proof -
  obtain n' where n': "dra_nodes t a = Some n'" "qn_val n' = qn_val n" "\<And>b. qn_next n = Some b \<Longrightarrow> qn_next n' = Some b"
    using written_onceD [OF ord_draD(3) [OF assms(1)] assms(2)] by metis
  have "\<exists>n2. dra_nodes t a = Some n2 \<and> dn_count n2 = dn_count n" if "linked w (dra_nodes s) a"
    using assms that unfolding ord_dra_def core_dra_def by blast
  then have "dn_count n' = dn_count n" if "linked w (dra_nodes s) a" using that n'(1) by auto
  with n' show thesis by (rule that) 
qed

lemma position:
  assumes "apart w h" and "j < w" and "walk h j k = Some a"
  shows "(LEAST m. walk h j m = Some a) = k"
proof (rule Least_equality)
  show "k \<le> m" if "walk h j m = Some a" for m
    using apartD [OF assms(1,2,2,3) that] by simp
qed (rule assms(3))

lemma pointers_position:
  assumes "pointers_ok w s G P" and c: "chains w (dra_nodes s) G P E" and j: "j < w"
  shows "gets_dra s j = G j" "puts_dra s j = P j"
proof -
  note x = chainsD(2) [OF c j]
  obtain a b where "walk (dra_nodes s) j (G j) = Some a" "walk (dra_nodes s) j (P j) = Some b"
    using chain_walk [OF x, of "G j"] chain_walk [OF x, of "P j"] chain_repD(3,4) [OF x] by (metis le_trans)
  then show "gets_dra s j = G j" "puts_dra s j = P j"
    using assms(1) j position [OF chainsD(1) [OF c] j] by (simp_all add: pointers_ok_def gets_dra_def puts_dra_def)
qed

lemma chains_cong:
  "(\<And>j. j < w \<Longrightarrow> G j = G' j) \<Longrightarrow> (\<And>j. j < w \<Longrightarrow> P j = P' j) \<Longrightarrow> chains w h G P E = chains w h G' P' E"
  by (auto simp: chains_def)

lemma contents_cong: "(\<And>j. j < w \<Longrightarrow> G j = G' j) \<Longrightarrow> contents w G E = contents w G' E"
  by (auto simp: contents_def)

lemma inv_draI:
  assumes "pointers_ok w s G P" "hist_ok opss H" "chains w (dra_nodes s) G P E"
    "replay (spec_fifos False) (replicate w []) H = Some (contents w G E)"
    "(\<Sum>j<w. length (E j)) = length (filter is_enq H)" "stamps_ok w (dra_nodes s)"
  shows "inv_dra w opss (s, H)"
proof -
  note p = pointers_position [OF assms(1,3)]
  have "chains w (dra_nodes s) (gets_dra s) (puts_dra s) E" "contents w (gets_dra s) E = contents w G E"
    using assms(3) p by (simp_all cong: chains_cong contents_cong)
  moreover have "pointers_ok w s (gets_dra s) (puts_dra s)" using assms(1) p by (simp add: pointers_ok_def)
  ultimately show ?thesis using assms unfolding inv_dra_def by auto
qed

lemma inv_draE:
  assumes "inv_dra w opss (s, H)"
  obtains E where "pointers_ok w s (gets_dra s) (puts_dra s)" "hist_ok opss H"
    "chains w (dra_nodes s) (gets_dra s) (puts_dra s) E"
    "replay (spec_fifos False) (replicate w []) H = Some (contents w (gets_dra s) E)"
    "(\<Sum>j<w. length (E j)) = length (filter is_enq H)" "stamps_ok w (dra_nodes s)"
  using assms unfolding inv_dra_def by auto

lemma inv_dra_index: "inv_dra w opss (s, H) \<Longrightarrow> j < w \<Longrightarrow> j < length (dra_get s) \<and> j < length (dra_put s)"
  by (simp add: inv_dra_def pointers_ok_def)

lemma inv_dra_pointer:
  assumes "inv_dra w opss (s, H)" and "j < w"
  shows "dra_get s ! j = walk (dra_nodes s) j (gets_dra s j)" "dra_put s ! j = walk (dra_nodes s) j (puts_dra s j)"
  using assms by (simp_all add: inv_dra_def pointers_ok_def)

lemma inv_dra_walk:
  assumes "inv_dra w opss (s, H)" and "j < w" and "k \<le> puts_dra s j"
  obtains a n where "walk (dra_nodes s) j k = Some a" "dra_nodes s a = Some n"
proof -
  obtain E where "chains w (dra_nodes s) (gets_dra s) (puts_dra s) E" by (rule inv_draE [OF assms(1)])
  from chainsD(2) [OF this assms(2)] show ?thesis
    using chain_walk [of "dra_nodes s" j _ _ _ k] chain_repD(4) assms(3) that by (metis le_trans)
qed

lemma inv_dra_gets: "inv_dra w opss (s, H) \<Longrightarrow> j < w \<Longrightarrow> gets_dra s j \<le> puts_dra s j"
  by (erule inv_draE) (blast intro: chain_repD(3) chainsD(2))

lemma inv_dra_unique:
  "inv_dra w opss (s, H) \<Longrightarrow> j < w \<Longrightarrow> walk (dra_nodes s) j k = Some a \<Longrightarrow> walk (dra_nodes s) j k' = Some a \<Longrightarrow> k = k'"
  by (erule inv_draE) (metis apartD chainsD(1))

section \<open>The steps\<close>

lemma tail_step_dra:
  assumes J: "inv_dra w opss (s, H)" and j: "j < w" and b: "walk (dra_nodes s) j (Suc (puts_dra s j)) = Some b"
  defines "t \<equiv> s\<lparr>dra_put := (dra_put s)[j := Some b]\<rparr>"
  shows "inv_dra w opss (t, H)" "core_dra w s t" "grd_dra w i s t" "ord_dra w i s t" "puts_dra t j = Suc (puts_dra s j)"
proof -
  obtain E where E: "pointers_ok w s (gets_dra s) (puts_dra s)" "hist_ok opss H"
    "chains w (dra_nodes s) (gets_dra s) (puts_dra s) E"
    "replay (spec_fifos False) (replicate w []) H = Some (contents w (gets_dra s) E)"
    "(\<Sum>j<w. length (E j)) = length (filter is_enq H)" "stamps_ok w (dra_nodes s)"
    by (rule inv_draE [OF J])
  let ?P = "(puts_dra s)(j := Suc (puts_dra s j))"
  have p: "pointers_ok w t (gets_dra s) ?P"
    using E(1) b j by (auto simp: pointers_ok_def t_def nth_list_update)
  have c: "chains w (dra_nodes t) (gets_dra s) ?P E"
    using chains_tail [OF E(3), of j] b j by (simp add: t_def)
  show "inv_dra w opss (t, H)" by (rule inv_draI [OF p E(2) c E(4,5)]) (use E(6) in \<open>simp add: t_def\<close>)
  note pos = pointers_position [OF p c]
  show "puts_dra t j = Suc (puts_dra s j)" using pos(2) [OF j] by simp
  have "gets_dra s k \<le> gets_dra t k \<and> puts_dra s k \<le> puts_dra t k" if "k < w" for k using pos that by simp
  then show "core_dra w s t" by (simp add: core_dra_def) (simp add: t_def)
  then show "grd_dra w i s t" "ord_dra w i s t" by (simp_all add: grd_dra_def ord_dra_def own_dra_def t_def)
qed

lemma head_step_dra:
  assumes J: "inv_dra w opss (s, H)" and j: "j < w" and lt: "gets_dra s j < puts_dra s j"
    and b: "walk (dra_nodes s) j (Suc (gets_dra s j)) = Some b" "dra_nodes s b = Some n"
    and step: "i < length opss" "prefix (map fst (proj i H) @ [Dequeue]) (opss ! i)"
  defines "t \<equiv> s\<lparr>dra_get := (dra_get s)[j := Some b]\<rparr>"
  shows "inv_dra w opss (t, H @ [(i, Dequeue, qn_val n, j)])" "core_dra w s t" "grd_dra w i s t" "ord_dra w i s t"
proof -
  obtain E where E: "pointers_ok w s (gets_dra s) (puts_dra s)" "hist_ok opss H"
    "chains w (dra_nodes s) (gets_dra s) (puts_dra s) E"
    "replay (spec_fifos False) (replicate w []) H = Some (contents w (gets_dra s) E)"
    "(\<Sum>j<w. length (E j)) = length (filter is_enq H)" "stamps_ok w (dra_nodes s)"
    by (rule inv_draE [OF J])
  let ?G = "(gets_dra s)(j := Suc (gets_dra s j))"
  have p: "pointers_ok w t ?G (puts_dra s)"
    using E(1) b j by (auto simp: pointers_ok_def t_def nth_list_update)
  note head = chains_head [OF E(3) j lt b]
  have c: "chains w (dra_nodes t) ?G (puts_dra s) E" using head(1) by (simp add: t_def)
  have "spec_fifos False (contents w (gets_dra s) E) Dequeue (qn_val n, j) = Some (contents w ?G E)"
    using j head(2) contents_get [OF j, of "gets_dra s" "Suc (gets_dra s j)" E] by simp
  then have r: "replay (spec_fifos False) (replicate w []) (H @ [(i, Dequeue, qn_val n, j)]) = Some (contents w ?G E)"
    using E(4) by (simp del: spec_fifos.simps)
  show "inv_dra w opss (t, H @ [(i, Dequeue, qn_val n, j)])"
    by (rule inv_draI [OF p hist_ok_entry [OF E(2) step] c r]) (use E(5,6) in \<open>simp_all add: is_enq_def t_def\<close>)
  note pos = pointers_position [OF p c]
  have "gets_dra s k \<le> gets_dra t k \<and> puts_dra s k \<le> puts_dra t k" if "k < w" for k using pos that by simp
  then show "core_dra w s t" by (simp add: core_dra_def) (simp add: t_def)
  then show "grd_dra w i s t" "ord_dra w i s t" by (simp_all add: grd_dra_def ord_dra_def own_dra_def t_def)
qed

lemma empty_step_dra:
  assumes J: "inv_dra w opss (s, H)" and j: "j < w" and last: "walk (dra_nodes s) j (Suc (gets_dra s j)) = None"
    and step: "i < length opss" "prefix (map fst (proj i H) @ [Dequeue]) (opss ! i)"
  shows "inv_dra w opss (s, H @ [(i, Dequeue, 0, j)])"
proof -
  obtain E where E: "pointers_ok w s (gets_dra s) (puts_dra s)" "hist_ok opss H"
    "chains w (dra_nodes s) (gets_dra s) (puts_dra s) E"
    "replay (spec_fifos False) (replicate w []) H = Some (contents w (gets_dra s) E)"
    "(\<Sum>j<w. length (E j)) = length (filter is_enq H)" "stamps_ok w (dra_nodes s)"
    by (rule inv_draE [OF J])
  have "spec_fifos False (contents w (gets_dra s) E) Dequeue (0, j) = Some (contents w (gets_dra s) E)"
    using chains_empty [OF E(3) j last] j by simp
  then show ?thesis
    using E hist_ok_entry [OF E(2) step] by (intro inv_draI [OF E(1) _ E(3)]) (simp_all add: is_enq_def del: spec_fifos.simps)
qed

text \<open>A node that is in no list yet: allocating it, and stamping it.\<close>

lemma private_step_dra:
  assumes J: "inv_dra w opss (s, H)" and un: "\<not> linked w (dra_nodes s) (Node i k)"
    and old: "\<And>m. dra_nodes s (Node i k) = Some m \<Longrightarrow> qn_val n = qn_val m \<and> qn_next n = qn_next m"
  defines "t \<equiv> s\<lparr>dra_nodes := (dra_nodes s)(Node i k \<mapsto> n)\<rparr>"
  shows "inv_dra w opss (t, H)" "core_dra w s t" "grd_dra w i s t" "linked w (dra_nodes t) b = linked w (dra_nodes s) b"
proof -
  obtain E where E: "pointers_ok w s (gets_dra s) (puts_dra s)" "hist_ok opss H"
    "chains w (dra_nodes s) (gets_dra s) (puts_dra s) E"
    "replay (spec_fifos False) (replicate w []) H = Some (contents w (gets_dra s) E)"
    "(\<Sum>j<w. length (E j)) = length (filter is_enq H)" "stamps_ok w (dra_nodes s)"
    by (rule inv_draE [OF J])
  have link: "linked w (dra_nodes t) b = linked w (dra_nodes s) b" for b
    unfolding t_def using unlinked_linked [OF un] by simp
  then show "linked w (dra_nodes t) b = linked w (dra_nodes s) b" .
  have walk: "walk (dra_nodes t) j m = walk (dra_nodes s) j m" if "j < w" for j m
    using unlinked_walk [OF un that] by (simp add: t_def)
  have p: "pointers_ok w t (gets_dra s) (puts_dra s)" using E(1) walk by (simp add: pointers_ok_def) (simp add: t_def)
  have c: "chains w (dra_nodes t) (gets_dra s) (puts_dra s) E" using chains_private [OF E(3) un] by (simp add: t_def)
  have same: "a \<noteq> Node i k" if "j < w" "walk (dra_nodes s) j m = Some a" for j m a
    using un that by (auto simp: linked_def)
  have "stamps_ok w (dra_nodes t)"
    unfolding stamps_ok_def
  proof (intro allI impI)
    fix j m a b na nb
    assume x: "j < w" "walk (dra_nodes t) j m = Some a" "dra_nodes t a = Some na" "walk (dra_nodes t) j (Suc m) = Some b" "dra_nodes t b = Some nb"
    have w: "walk (dra_nodes s) j m = Some a" "walk (dra_nodes s) j (Suc m) = Some b"
      using x(2,4) unfolding walk [OF x(1)] .
    show "dn_count nb = add64 (dn_count na) 1"
      by (rule stamps_okD [OF E(6) x(1) w(1) _ w(2)])
        (use x(3,5) same [OF x(1) w(1)] same [OF x(1) w(2)] in \<open>simp_all add: t_def\<close>)
  qed
  then show "inv_dra w opss (t, H)" by (intro inv_draI [OF p E(2) c E(4,5)])
  note pos = pointers_position [OF p c]
  have "written_once (dra_nodes s) (dra_nodes t)"
    using old by (auto simp: written_once_def t_def)
  moreover have "gets_dra s k \<le> gets_dra t k \<and> puts_dra s k \<le> puts_dra t k" if "k < w" for k using pos that by simp
  moreover have "\<exists>n'. dra_nodes t a = Some n' \<and> dn_count n' = dn_count m" if "linked w (dra_nodes s) a" "dra_nodes s a = Some m" for a m
    using un that by (auto simp: t_def)
  ultimately show core: "core_dra w s t" by (simp add: core_dra_def)
  show "grd_dra w i s t" using core link by (auto simp: grd_dra_def own_dra_def t_def)
qed

lemma link_step_dra:
  assumes J: "inv_dra w opss (s, H)" and j: "j < w"
    and last: "walk (dra_nodes s) j k = Some tn" "dra_nodes s tn = Some n" "qn_next n = None" and le: "k \<le> puts_dra s j"
    and a: "a = Node i ka" "\<not> linked w (dra_nodes s) a" "dra_nodes s a = Some m" "qn_next m = None" "dn_count m = add64 (dn_count n) 1"
    and step: "i < length opss" "prefix (map fst (proj i H) @ [Enqueue key (qn_val m)]) (opss ! i)"
  defines "t \<equiv> set_node (\<lambda>n. n\<lparr>qn_next := Some a\<rparr>) tn s"
  shows "inv_dra w opss (t, H @ [(i, Enqueue key (qn_val m), 1, j)])" "grd_dra w i s t" "core_dra w s t"
    "walk (dra_nodes t) j (Suc k) = Some a" "dra_nodes s b = None \<Longrightarrow> dra_nodes t b = None \<and> \<not> linked w (dra_nodes t) b"
proof -
  obtain E where E: "pointers_ok w s (gets_dra s) (puts_dra s)" "hist_ok opss H"
    "chains w (dra_nodes s) (gets_dra s) (puts_dra s) E"
    "replay (spec_fifos False) (replicate w []) H = Some (contents w (gets_dra s) E)"
    "(\<Sum>j<w. length (E j)) = length (filter is_enq H)" "stamps_ok w (dra_nodes s)"
    by (rule inv_draE [OF J])
  let ?E = "E(j := E j @ [qn_val m])" and ?H = "H @ [(i, Enqueue key (qn_val m), 1, j)]"
  have t: "t = s\<lparr>dra_nodes := (dra_nodes s)(tn \<mapsto> n\<lparr>qn_next := Some a\<rparr>)\<rparr>" using last(2) by (simp add: t_def set_node_def)
  then have nodes: "dra_nodes t = (dra_nodes s)(tn \<mapsto> n\<lparr>qn_next := Some a\<rparr>)" by simp
  note L = chains_link [OF E(3) j last le a(2-4), folded nodes]
  show "walk (dra_nodes t) j (Suc k) = Some a" by (rule L(5))
  have stable: "walk (dra_nodes s) j' k' = Some x \<Longrightarrow> walk (dra_nodes t) j' k' = Some x" for j' k' x
    by (rule walk_stable [OF L(3)])
  have p: "pointers_ok w t (gets_dra s) (puts_dra s)"
    unfolding pointers_ok_def
  proof (intro conjI allI impI)
    fix j' assume j': "j' < w"
    obtain x y where "walk (dra_nodes s) j' (gets_dra s j') = Some x" "walk (dra_nodes s) j' (puts_dra s j') = Some y"
      using inv_dra_walk [OF J j' order_refl] inv_dra_walk [OF J j' inv_dra_gets [OF J j']] by metis
    then show "dra_get t ! j' = walk (dra_nodes t) j' (gets_dra s j')" "dra_put t ! j' = walk (dra_nodes t) j' (puts_dra s j')"
      using stable inv_dra_pointer [OF J j'] by (simp_all add: t)
  qed (use E(1) in \<open>simp_all add: t pointers_ok_def\<close>)
  have "gets_dra s j \<le> length (E j)" using chain_repD(3,4) [OF chainsD(2) [OF E(3) j]] by simp
  then have "spec_fifos False (contents w (gets_dra s) E) (Enqueue key (qn_val m)) (1, j) = Some (contents w (gets_dra s) ?E)"
    using j contents_put [OF j, of "gets_dra s" E "qn_val m"] by simp
  then have r: "replay (spec_fifos False) (replicate w []) ?H = Some (contents w (gets_dra s) ?E)"
    using E(4) by (simp del: spec_fifos.simps)
  have l: "(\<Sum>j<w. length (?E j)) = length (filter is_enq ?H)"
  proof -
    have "(\<Sum>j'<w. length (?E j')) = (\<Sum>j'<w. length (E j') + (if j' = j then 1 else 0))" by (rule sum.cong) auto
    also have "\<dots> = (\<Sum>j'<w. length (E j')) + 1" using j by (simp add: sum.distrib)
    finally show ?thesis using E(5) by (simp add: is_enq_def)
  qed
  have count: "\<exists>n'. dra_nodes t x = Some n' \<and> dn_count n' = dn_count n0" if "dra_nodes s x = Some n0" for x n0
    using that last(2) by (cases "x = tn") (auto simp: nodes)
  have "stamps_ok w (dra_nodes t)"
    unfolding stamps_ok_def
  proof (intro allI impI)
    fix j' k' x y nx ny
    assume x: "j' < w" "walk (dra_nodes t) j' k' = Some x" "dra_nodes t x = Some nx"
      "walk (dra_nodes t) j' (Suc k') = Some y" "dra_nodes t y = Some ny"
    show "dn_count ny = add64 (dn_count nx) 1"
    proof (cases "walk (dra_nodes s) j' (Suc k')")
      case (Some y')
      have y: "y' = y" using stable [OF Some] x(4) by simp
      obtain x' where x': "walk (dra_nodes s) j' k' = Some x'" using walk_None [of "dra_nodes s" j' k' "Suc k'"] Some by (cases "walk (dra_nodes s) j' k'") auto
      have "x' = x" using stable [OF x'] x(2) by simp
      moreover obtain n0 n1 where "dra_nodes s x' = Some n0" "dra_nodes s y' = Some n1"
        using chains_alloc [OF E(3) x(1)] x' Some by blast
      ultimately show ?thesis
        using stamps_okD [OF E(6) x(1) x' _ Some, of n0 n1] x(3,5) y count [of x' n0] count [of y' n1] by auto
    next
      case None
      have "length (E j') < Suc k'" using chain_walk_iff [OF chainsD(2) [OF E(3) x(1)], of "Suc k'"] None by simp
      moreover have "Suc k' \<le> length (?E j')" using chain_walk_iff [OF chainsD(2) [OF L(2) x(1)], of "Suc k'"] x(4) by simp
      ultimately have jk: "j' = j" "k' = k" using L(1) by (auto split: if_splits)
      then have "x = tn" "y = a" using stable [OF last(1)] L(5) x(2,4) by auto
      then show ?thesis using count [OF last(2)] count [OF a(3)] x(3,5) a(5) by auto
    qed
  qed
  then show "inv_dra w opss (t, ?H)" by (intro inv_draI [OF p hist_ok_entry [OF E(2) step] L(2) r l])
  note pos = pointers_position [OF p L(2)]
  show core: "core_dra w s t" using L(3) pos count by (simp add: core_dra_def)
  have "own_dra w i' s t" if "i' \<noteq> i" for i'
    unfolding own_dra_def
  proof (intro allI impI)
    fix k' assume n: "\<not> linked w (dra_nodes s) (Node i' k')"
    have "Node i' k' \<noteq> a" using a(1) that by simp
    moreover have "Node i' k' \<noteq> tn" using n last(1) j by (auto simp: linked_def)
    ultimately show "\<not> linked w (dra_nodes t) (Node i' k') \<and> dra_nodes t (Node i' k') = dra_nodes s (Node i' k')"
      using L(4) [of "Node i' k'"] n by (auto simp: nodes)
  qed
  then show "grd_dra w i s t" using core by (simp add: grd_dra_def)
  show "dra_nodes t b = None \<and> \<not> linked w (dra_nodes t) b" if "dra_nodes s b = None"
  proof -
    have "b \<noteq> tn" "b \<noteq> a" using that last(2) a(3) by auto
    then show ?thesis using that L(4) [of b] chains_unlinked [OF E(3) that] by (auto simp: nodes)
  qed
qed

section \<open>Progress\<close>

definition work_dra :: "nat \<Rightarrow> dra_mem \<Rightarrow> nat" where
  "work_dra w s = lane_work w (dra_nodes s) (gets_dra s) (puts_dra s)"

lemma inv_dra_last:
  assumes "inv_dra w opss (s, H)" and "j < w" and "walk (dra_nodes s) j k = Some a" and "dra_nodes s a = Some n"
  shows "qn_next n = None \<longleftrightarrow> k = chain_len (dra_nodes s) j" and "k \<le> chain_len (dra_nodes s) j"
proof -
  obtain E where "chains w (dra_nodes s) (gets_dra s) (puts_dra s) E" by (rule inv_draE [OF assms(1)])
  from chains_last [OF this assms(2-4)]
  show "qn_next n = None \<longleftrightarrow> k = chain_len (dra_nodes s) j" "k \<le> chain_len (dra_nodes s) j" .
qed

lemma work_dra_mono: "inv_dra w opss (s, H) \<Longrightarrow> inv_dra w opss (t, H') \<Longrightarrow> core_dra w s t \<Longrightarrow> work_dra w s \<le> work_dra w t"
  unfolding work_dra_def by (elim inv_draE, rule lane_work_mono) (auto simp: core_dra_def)

lemma work_dra_less:
  "inv_dra w opss (s, H) \<Longrightarrow> inv_dra w opss (t, H') \<Longrightarrow> ord_dra w i s t \<Longrightarrow> j < w \<Longrightarrow>
     gets_dra s j < gets_dra t j \<or> puts_dra s j < puts_dra t j \<or> chain_len (dra_nodes s) j < chain_len (dra_nodes t) j \<Longrightarrow>
     work_dra w s < work_dra w t"
  unfolding work_dra_def ord_dra_def by (elim inv_draE conjE, rule lane_work_less) (auto simp: core_dra_def)

lemma work_dra_bound: "inv_dra w opss (s, H) \<Longrightarrow> work_dra w s \<le> 3 * total_ops opss"
proof -
  assume J: "inv_dra w opss (s, H)"
  obtain E where E: "chains w (dra_nodes s) (gets_dra s) (puts_dra s) E" "hist_ok opss H"
    "(\<Sum>j<w. length (E j)) = length (filter is_enq H)" by (rule inv_draE [OF J])
  have "work_dra w s \<le> 3 * length (filter is_enq H)" using lane_work_bound [OF E(1)] E(3) by (simp add: work_dra_def)
  also have "\<dots> \<le> 3 * total_ops opss" using length_filter_le [of is_enq H] hist_ok_length [OF E(2)] by linarith
  finally show ?thesis .
qed

definition enough_dra :: "(failure \<Rightarrow> bool) \<Rightarrow> queue_op list list \<Rightarrow> nat \<Rightarrow> nat \<Rightarrow> dra_mem \<Rightarrow> bool" where
  "enough_dra T opss w n s \<longleftrightarrow> T No_fuel \<or> 3 * total_ops opss < n + work_dra w s"

lemma enough_dra_0: "enough_dra T opss w 0 s \<Longrightarrow> inv_dra w opss (s, H) \<Longrightarrow> T No_fuel"
  using work_dra_bound [of w opss s H] by (simp add: enough_dra_def)

lemma enough_dra_Suc: "enough_dra T opss w (Suc n) s \<Longrightarrow> work_dra w s < work_dra w t \<Longrightarrow> enough_dra T opss w n t"
  by (auto simp: enough_dra_def)

section \<open>Proof rules\<close>

abbreviation safe_dra where
  "safe_dra w opss T i Q \<equiv> safe (\<lambda>_. True) T (lin_rely (inv_dra w opss) (ord_dra w) i)
     (lin_guar (inv_dra w opss) (grd_dra w) opss i) Q"

definition dra_local :: "nat \<Rightarrow> nat \<Rightarrow> thread_msq \<Rightarrow> dra_mem \<Rightarrow> bool" where
  "dra_local w i l s \<longleftrightarrow> ms_thread_id l = i \<and>
     (\<forall>k\<ge>ms_alloc_next l. dra_nodes s (Node i k) = None \<and> \<not> linked w (dra_nodes s) (Node i k))"

lemma dra_local_stable: "dra_local w i l s \<Longrightarrow> ord_dra w i s t \<Longrightarrow> dra_local w i l t"
  using ord_draD(5) [of w i s t] by (simp add: dra_local_def)

lemma dra_local_simps [simp]:
  "dra_local w i (count_put_fail l) s = dra_local w i l s" "dra_local w i (count_null l) s = dra_local w i l s"
  "dra_local w i (l\<lparr>seeds := x\<rparr>) s = dra_local w i l s"
  by (simp_all add: dra_local_def count_put_fail_def count_null_def)

lemma dra_field_safe:
  assumes J: "inv_dra w opss (s, H)" and a: "dra_nodes s a = Some n"
    and k: "\<And>t H' n'. inv_dra w opss (t, H') \<Longrightarrow> ord_dra w i s t \<Longrightarrow> proj i H' = proj i H \<Longrightarrow>
      dra_nodes t a = Some n' \<Longrightarrow> safe_dra w opss T i Q (k (f n')) (t, H')"
  shows "safe_dra w opss T i Q (dra_field f (Some a) k) (s, H)"
proof -
  have here: "\<exists>n'. dra_nodes t a = Some n'" if "ord_dra w i s t" for t
    using ord_dra_node [OF that a] by metis
  show ?thesis
    unfolding dra_field_def
    apply (rule lin_checked, rule J)
    subgoal for t using here [of t] by auto
    apply (rule lin_load, rule J, simp)
    subgoal premises p for t H'
    proof -
      obtain n' where n': "dra_nodes t a = Some n'" using here [OF p(2)] by blast
      show ?thesis using k [OF p(1,2,4) n'] n' by simp
    qed
    done
qed

lemma read_put_safe:
  assumes J: "inv_dra w opss (s, H)" and j: "j < w"
    and k: "\<And>t H' a n. inv_dra w opss (t, H') \<Longrightarrow> ord_dra w i s t \<Longrightarrow> proj i H' = proj i H \<Longrightarrow>
      walk (dra_nodes t) j (puts_dra t j) = Some a \<Longrightarrow> dra_nodes t a = Some n \<Longrightarrow> safe_dra w opss T i Q (k (Some a)) (t, H')"
  shows "safe_dra w opss T i Q (read_put j k) (s, H)"
  unfolding read_put_def
  apply (rule lin_checked, rule J)
  subgoal for t H' using inv_dra_index [of w opss t H' j] j by simp
  apply (rule lin_load, rule J, simp)
  subgoal premises p for t H'
  proof -
    obtain a n where "walk (dra_nodes t) j (puts_dra t j) = Some a" "dra_nodes t a = Some n"
      by (rule inv_dra_walk [OF p(1) j order_refl])
    then show ?thesis using k [OF p(1,2,4)] inv_dra_pointer(2) [OF p(1) j] by simp
  qed
  done

lemma read_get_safe:
  assumes J: "inv_dra w opss (s, H)" and j: "j < w"
    and k: "\<And>t H' a n. inv_dra w opss (t, H') \<Longrightarrow> ord_dra w i s t \<Longrightarrow> proj i H' = proj i H \<Longrightarrow>
      walk (dra_nodes t) j (gets_dra t j) = Some a \<Longrightarrow> dra_nodes t a = Some n \<Longrightarrow> safe_dra w opss T i Q (k (Some a)) (t, H')"
  shows "safe_dra w opss T i Q (read_get j k) (s, H)"
  unfolding read_get_def
  apply (rule lin_checked, rule J)
  subgoal for t H' using inv_dra_index [of w opss t H' j] j by simp
  apply (rule lin_load, rule J, simp)
  subgoal premises p for t H'
  proof -
    obtain a n where "walk (dra_nodes t) j (gets_dra t j) = Some a" "dra_nodes t a = Some n"
      by (rule inv_dra_walk [OF p(1) j inv_dra_gets [OF p(1) j]])
    then show ?thesis using k [OF p(1,2,4)] inv_dra_pointer(1) [OF p(1) j] by simp
  qed
  done

text \<open>Moving the tail on from the node at position \<open>m\<close>: afterwards it is past it.\<close>

lemma cas_put_safe:
  assumes J: "inv_dra w opss (s, H)" and j: "j < w" and m: "m \<le> puts_dra s j"
    and w: "walk (dra_nodes s) j m = Some a" "walk (dra_nodes s) j (Suc m) = Some b"
    and k: "\<And>t H' ok. inv_dra w opss (t, H') \<Longrightarrow> ord_dra w i s t \<Longrightarrow> proj i H' = proj i H \<Longrightarrow> m < puts_dra t j \<Longrightarrow>
      safe_dra w opss T i Q (k ok) (t, H')"
  shows "safe_dra w opss T i Q (cas_put j (Some a) (Some b) k) (s, H)"
  unfolding cas_put_def
  apply (rule lin_checked, rule J)
  subgoal for t H' using inv_dra_index [of w opss t H' j] j by simp
  apply (rule lin_cas, rule J, simp)
  subgoal premises p for t H'
  proof -
    note wt = ord_draD(4) [OF p(2) w(1)] ord_draD(4) [OF p(2) w(2)]
    have "walk (dra_nodes t) j (puts_dra t j) = Some a" using inv_dra_pointer(2) [OF p(1) j] p(6) by simp
    then have eq: "puts_dra t j = m" using inv_dra_unique [OF p(1) j _ wt(1)] by simp
    note T = tail_step_dra [OF p(1) j, unfolded eq, OF wt(2)]
    have "safe_dra w opss T i Q (k True) (t\<lparr>dra_put := (dra_put t)[j := Some b]\<rparr>, H')"
      by (rule k [OF T(1) ord_dra_trans [OF p(2) T(4)] p(4)]) (use T(5) in simp)
    then show ?thesis using T(1,3) by (intro exI [of _ "[]"]) simp
  qed
  subgoal premises p for t H'
  proof -
    have le: "m \<le> puts_dra t j" using m ord_draD(2) [OF p(2) j] by linarith
    have "m \<noteq> puts_dra t j" using inv_dra_pointer(2) [OF p(1) j] ord_draD(4) [OF p(2) w(1)] p(6) by auto
    then show ?thesis using le by (intro k [OF p(1,2,4)]) linarith
  qed
  done

section \<open>The choice of a queue\<close>

text \<open>
  What an operation that started to choose in \<open>s0\<close> knows of its choice: queue \<open>j\<close>, in which the
  node \<open>a\<close> it read has position \<open>m\<close>, that of the array entry (\<open>pos\<close>) at some moment in between.
\<close>

definition choice_dra :: "(dra_mem \<Rightarrow> nat \<Rightarrow> nat) \<Rightarrow> nat \<Rightarrow> nat \<Rightarrow> dra_mem \<Rightarrow> nat \<Rightarrow> nat \<Rightarrow> qaddr \<Rightarrow> thread_msq \<Rightarrow> dra_mem \<Rightarrow> bool" where
  "choice_dra pos w i s0 j m a l s \<longleftrightarrow> ord_dra w i s0 s \<and> j < w \<and> walk (dra_nodes s) j m = Some a \<and>
     dra_nodes s a \<noteq> None \<and> pos s0 j \<le> m \<and> m \<le> pos s j \<and> dra_local w i l s"

lemma choice_stable:
  assumes c: "choice_dra pos w i s0 j m a l s" and o: "ord_dra w i s t" and pos: "pos s j \<le> pos t j"
  shows "choice_dra pos w i s0 j m a l t"
proof -
  obtain n where n: "dra_nodes s a = Some n" using c by (auto simp: choice_dra_def)
  have "dra_nodes t a \<noteq> None" using ord_dra_node [OF o n] by (metis option.distinct(1))
  moreover have "ord_dra w i s0 t" using c o ord_dra_trans unfolding choice_dra_def by blast
  moreover have "dra_local w i l t" using c dra_local_stable [OF _ o] by (simp add: choice_dra_def)
  moreover have "walk (dra_nodes t) j m = Some a" using c ord_draD(4) [OF o] by (simp add: choice_dra_def)
  ultimately show ?thesis using c pos by (simp add: choice_dra_def)
qed

lemma choice_seeds [simp]: "choice_dra pos w i s0 j m a (l\<lparr>seeds := x\<rparr>) s = choice_dra pos w i s0 j m a l s"
  by (simp add: choice_dra_def)

lemma choice_start:
  assumes "ord_dra w i s0 s" and "j < w" and "pos s0 j \<le> pos s j"
    and "walk (dra_nodes s) j (pos s j) = Some a" and "dra_nodes s a = Some n" and "dra_local w i l s"
  shows "choice_dra pos w i s0 j (pos s j) a l s"
  using assms by (simp add: choice_dra_def)

lemma enq_choices_dra_safe:
  assumes "inv_dra w opss (s, H)" and "choice_dra puts_dra w i s0 j m a l s" and "proj i H = P"
    and k: "\<And>t H' j m a l. inv_dra w opss (t, H') \<Longrightarrow> choice_dra puts_dra w i s0 j m a l t \<Longrightarrow> proj i H' = P \<Longrightarrow>
      safe_dra w opss T i Q (k j (Some a) l) (t, H')"
  shows "safe_dra w opss T i Q (enq_choices_dra r w j (Some a) l k) (s, H)"
  using assms(1-3)
proof (induction r arbitrary: s H j m a l)
  case 0
  then show ?case using k by simp
next
  case (Suc r)
  have "0 < w" using Suc.prems(2) by (simp add: choice_dra_def)
  then show ?case
    unfolding enq_choices_dra.simps
  proof (rule draw_cases)
    fix j2 sd assume j2: "j2 < w"
    let ?l = "l\<lparr>seeds := sd\<rparr>"
    show "safe_dra w opss T i Q (read_put j2 (\<lambda>node2. if node2 = None then k j2 node2 ?l
       else dra_field dn_count node2 (\<lambda>c2. dra_field dn_count (Some a) (\<lambda>c.
         if c2 < c then enq_choices_dra r w j2 node2 ?l k else enq_choices_dra r w j (Some a) ?l k)))) (s, H)"
    proof (rule read_put_safe [OF Suc.prems(1) j2])
      fix t H1 b n assume t: "inv_dra w opss (t, H1)" "ord_dra w i s t" "proj i H1 = proj i H"
        "walk (dra_nodes t) j2 (puts_dra t j2) = Some b" "dra_nodes t b = Some n"
      have old: "choice_dra puts_dra w i s0 j m a ?l t"
        using choice_stable [OF Suc.prems(2) t(2)] ord_draD(2) [OF t(2)] Suc.prems(2) by (simp add: choice_dra_def)
      have o: "ord_dra w i s0 t" using old by (simp add: choice_dra_def)
      have new: "choice_dra puts_dra w i s0 j2 (puts_dra t j2) b ?l t"
        by (rule choice_start [where pos = puts_dra, OF o j2 ord_draD(2) [OF o j2] t(4,5)]) (use old in \<open>simp add: choice_dra_def\<close>)
      have "safe_dra w opss T i Q (dra_field dn_count (Some b) (\<lambda>c2. dra_field dn_count (Some a) (\<lambda>c.
         if c2 < c then enq_choices_dra r w j2 (Some b) ?l k else enq_choices_dra r w j (Some a) ?l k))) (t, H1)"
      proof (rule dra_field_safe [OF t(1,5)])
        fix u H2 n2 assume u: "inv_dra w opss (u, H2)" "ord_dra w i t u" "proj i H2 = proj i H1"
        have old': "choice_dra puts_dra w i s0 j m a ?l u" "choice_dra puts_dra w i s0 j2 (puts_dra t j2) b ?l u"
          using choice_stable [OF old u(2)] choice_stable [OF new u(2)] ord_draD(2) [OF u(2)] old j2 by (auto simp: choice_dra_def)
        obtain na where na: "dra_nodes u a = Some na" using old'(1) by (auto simp: choice_dra_def)
        show "safe_dra w opss T i Q (dra_field dn_count (Some a) (\<lambda>c.
           if dn_count n2 < c then enq_choices_dra r w j2 (Some b) ?l k else enq_choices_dra r w j (Some a) ?l k)) (u, H2)"
        proof (rule dra_field_safe [OF u(1) na])
          fix v H3 n3 assume v: "inv_dra w opss (v, H3)" "ord_dra w i u v" "proj i H3 = proj i H2"
          have both: "choice_dra puts_dra w i s0 j m a ?l v" "choice_dra puts_dra w i s0 j2 (puts_dra t j2) b ?l v"
            using choice_stable [OF old'(1) v(2)] choice_stable [OF old'(2) v(2)] ord_draD(2) [OF v(2)] old j2 by (auto simp: choice_dra_def)
          have P: "proj i H3 = P" using v(3) u(3) t(3) Suc.prems(3) by simp
          show "safe_dra w opss T i Q (if dn_count n2 < dn_count n3 then enq_choices_dra r w j2 (Some b) ?l k
             else enq_choices_dra r w j (Some a) ?l k) (v, H3)"
            using Suc.IH [OF v(1) both(1) P] Suc.IH [OF v(1) both(2) P] by simp
        qed
      qed
      then show "safe_dra w opss T i Q (if Some b = None then k j2 (Some b) ?l
       else dra_field dn_count (Some b) (\<lambda>c2. dra_field dn_count (Some a) (\<lambda>c.
         if c2 < c then enq_choices_dra r w j2 (Some b) ?l k else enq_choices_dra r w j (Some a) ?l k))) (t, H1)" by simp
    qed
  qed
qed

lemma get_enqueue_index_safe:
  assumes J: "inv_dra w opss (s, H)" and w: "0 < w" and l: "dra_local w i l s" and P: "proj i H = P"
    and k: "\<And>t H' j m a l. inv_dra w opss (t, H') \<Longrightarrow> choice_dra puts_dra w i s j m a l t \<Longrightarrow> proj i H' = P \<Longrightarrow>
      safe_dra w opss T i Q (k j (Some a) l) (t, H')"
  shows "safe_dra w opss T i Q (get_enqueue_index nc w l k) (s, H)"
proof -
  have start: "choice_dra puts_dra w i s j (puts_dra t j) a (l\<lparr>seeds := sd\<rparr>) t"
    if "j < w" "ord_dra w i s t" "walk (dra_nodes t) j (puts_dra t j) = Some a" "dra_nodes t a = Some n" for j t a n sd
    using choice_start [where pos = puts_dra, OF that(2,1) ord_draD(2) [OF that(2,1)] that(3,4)] dra_local_stable [OF l that(2)] by simp
  show ?thesis
  proof (cases nc)
    case None
    show ?thesis
      unfolding None get_enqueue_index.simps
      by (rule draw_cases [OF w], rule read_put_safe [OF J], assumption, rule k) (use start P in auto)
  next
    case (Some d)
    show ?thesis
      unfolding Some get_enqueue_index.simps
    proof (rule draw_cases [OF w], rule read_put_safe [OF J], assumption)
      fix j sd t H' a n assume t: "j < w" "inv_dra w opss (t, H')" "ord_dra w i s t" "proj i H' = proj i H"
        "walk (dra_nodes t) j (puts_dra t j) = Some a" "dra_nodes t a = Some n"
      have "safe_dra w opss T i Q (enq_choices_dra (d - 1) w j (Some a) (l\<lparr>seeds := sd\<rparr>) k) (t, H')"
        by (rule enq_choices_dra_safe [OF t(2) start [OF t(1,3,5,6)]]) (use t(4) P k in simp_all)
      then show "safe_dra w opss T i Q (if Some a = None then k j (Some a) (l\<lparr>seeds := sd\<rparr>)
          else enq_choices_dra (d - 1) w j (Some a) (l\<lparr>seeds := sd\<rparr>) k) (t, H')" by simp
    qed
  qed
qed

lemma choice_gets_stable: "choice_dra gets_dra w i s0 j m a l s \<Longrightarrow> ord_dra w i s t \<Longrightarrow> choice_dra gets_dra w i s0 j m a l t"
  by (rule choice_stable) (auto simp: choice_dra_def intro: ord_draD(1))

lemma choice_node: "choice_dra pos w i s0 j m a l s \<Longrightarrow> \<exists>n. dra_nodes s a = Some n"
  by (auto simp: choice_dra_def)

lemma deq_choices_dra_safe:
  assumes "inv_dra w opss (s, H)" and "choice_dra gets_dra w i s0 j m a l s" and "proj i H = P"
    and k: "\<And>t H' j m a l. inv_dra w opss (t, H') \<Longrightarrow> choice_dra gets_dra w i s0 j m a l t \<Longrightarrow> proj i H' = P \<Longrightarrow>
      safe_dra w opss T i Q (k j (Some a) l) (t, H')"
  shows "safe_dra w opss T i Q (deq_choices_dra r w j (Some a) l k) (s, H)"
  using assms(1-3)
proof (induction r arbitrary: s H j m a l)
  case 0
  then show ?case using k by simp
next
  case (Suc r)
  have "0 < w" using Suc.prems(2) by (simp add: choice_dra_def)
  then show ?case
    unfolding deq_choices_dra.simps
  proof (rule draw_cases)
    fix j2 sd assume j2: "j2 < w"
    let ?l = "l\<lparr>seeds := sd\<rparr>" and ?safe = "safe_dra w opss T i Q"
    let ?deq = "\<lambda>b (better :: bool). if better then deq_choices_dra r w j2 (Some b) ?l k else deq_choices_dra r w j (Some a) ?l k"
    show "?safe (read_get j2 (\<lambda>node2. dra_field qn_next (Some a) (\<lambda>nx. if nx = None then deq_choices_dra r w j2 node2 ?l k
       else dra_field qn_next node2 (\<lambda>nx2. if nx2 = None then deq_choices_dra r w j (Some a) ?l k
         else dra_field dn_count node2 (\<lambda>c2. dra_field dn_count (Some a) (\<lambda>c.
           if c2 < c then deq_choices_dra r w j2 node2 ?l k else deq_choices_dra r w j (Some a) ?l k)))))) (s, H)"
    proof (rule read_get_safe [OF Suc.prems(1) j2])
      fix t H1 b n assume t: "inv_dra w opss (t, H1)" "ord_dra w i s t" "proj i H1 = proj i H"
        "walk (dra_nodes t) j2 (gets_dra t j2) = Some b" "dra_nodes t b = Some n"
      have ot: "choice_dra gets_dra w i s0 j m a ?l t" using choice_gets_stable [OF Suc.prems(2) t(2)] by simp
      then have o: "ord_dra w i s0 t" "dra_local w i ?l t" by (simp_all add: choice_dra_def)
      have nt: "choice_dra gets_dra w i s0 j2 (gets_dra t j2) b ?l t"
        by (rule choice_start [where pos = gets_dra, OF o(1) j2 ord_draD(1) [OF o(1) j2] t(4,5) o(2)])
      have P: "proj i H1 = P" using t(3) Suc.prems(3) by simp
      have both: "?safe (?deq b better) (u, H2)"
        if "inv_dra w opss (u, H2)" "ord_dra w i t u" "proj i H2 = P" for better u H2
        using Suc.IH [OF that(1) choice_gets_stable [OF ot that(2)] that(3)]
          Suc.IH [OF that(1) choice_gets_stable [OF nt that(2)] that(3)] by simp
      obtain na where na: "dra_nodes t a = Some na" using choice_node [OF ot] by blast
      show "?safe (dra_field qn_next (Some a) (\<lambda>nx. if nx = None then deq_choices_dra r w j2 (Some b) ?l k
       else dra_field qn_next (Some b) (\<lambda>nx2. if nx2 = None then deq_choices_dra r w j (Some a) ?l k
         else dra_field dn_count (Some b) (\<lambda>c2. dra_field dn_count (Some a) (\<lambda>c.
           if c2 < c then deq_choices_dra r w j2 (Some b) ?l k else deq_choices_dra r w j (Some a) ?l k))))) (t, H1)"
      proof (rule dra_field_safe [OF t(1) na])
        fix u H2 n1 assume u: "inv_dra w opss (u, H2)" "ord_dra w i t u" "proj i H2 = proj i H1"
        obtain nb where nb: "dra_nodes u b = Some nb" using choice_node [OF choice_gets_stable [OF nt u(2)]] by blast
        have "?safe (dra_field qn_next (Some b) (\<lambda>nx2. if nx2 = None then deq_choices_dra r w j (Some a) ?l k
         else dra_field dn_count (Some b) (\<lambda>c2. dra_field dn_count (Some a) (\<lambda>c.
           if c2 < c then deq_choices_dra r w j2 (Some b) ?l k else deq_choices_dra r w j (Some a) ?l k)))) (u, H2)"
        proof (rule dra_field_safe [OF u(1) nb])
          fix v H3 n2 assume v: "inv_dra w opss (v, H3)" "ord_dra w i u v" "proj i H3 = proj i H2"
          note tv = ord_dra_trans [OF u(2) v(2)]
          obtain nv where nv: "dra_nodes v b = Some nv" using choice_node [OF choice_gets_stable [OF nt tv]] by blast
          have "?safe (dra_field dn_count (Some b) (\<lambda>c2. dra_field dn_count (Some a) (\<lambda>c.
             if c2 < c then deq_choices_dra r w j2 (Some b) ?l k else deq_choices_dra r w j (Some a) ?l k))) (v, H3)"
          proof (rule dra_field_safe [OF v(1) nv])
            fix x H4 n3 assume x: "inv_dra w opss (x, H4)" "ord_dra w i v x" "proj i H4 = proj i H3"
            note tx = ord_dra_trans [OF tv x(2)]
            obtain nx where nx: "dra_nodes x a = Some nx" using choice_node [OF choice_gets_stable [OF ot tx]] by blast
            show "?safe (dra_field dn_count (Some a) (\<lambda>c. ?deq b (dn_count n3 < c))) (x, H4)"
            proof (rule dra_field_safe [OF x(1) nx])
              fix y H5 n4 assume y: "inv_dra w opss (y, H5)" "ord_dra w i x y" "proj i H5 = proj i H4"
              show "?safe (?deq b (dn_count n3 < dn_count n4)) (y, H5)"
                by (rule both [OF y(1) ord_dra_trans [OF tx y(2)]]) (use y(3) x(3) v(3) u(3) P in simp)
            qed
          qed
          then show "?safe (if qn_next n2 = None then deq_choices_dra r w j (Some a) ?l k
             else dra_field dn_count (Some b) (\<lambda>c2. dra_field dn_count (Some a) (\<lambda>c.
               if c2 < c then deq_choices_dra r w j2 (Some b) ?l k else deq_choices_dra r w j (Some a) ?l k))) (v, H3)"
            using both [OF v(1) tv, of False] v(3) u(3) P by simp
        qed
        then show "?safe (if qn_next n1 = None then deq_choices_dra r w j2 (Some b) ?l k
          else dra_field qn_next (Some b) (\<lambda>nx2. if nx2 = None then deq_choices_dra r w j (Some a) ?l k
            else dra_field dn_count (Some b) (\<lambda>c2. dra_field dn_count (Some a) (\<lambda>c.
              if c2 < c then deq_choices_dra r w j2 (Some b) ?l k else deq_choices_dra r w j (Some a) ?l k)))) (u, H2)"
          using both [OF u(1,2), of True] u(3) P by simp
      qed
    qed
  qed
qed

lemma get_dequeue_index_safe:
  assumes J: "inv_dra w opss (s, H)" and w: "0 < w" and l: "dra_local w i l s" and P: "proj i H = P"
    and k: "\<And>t H' j m a l. inv_dra w opss (t, H') \<Longrightarrow> choice_dra gets_dra w i s j m a l t \<Longrightarrow> proj i H' = P \<Longrightarrow>
      safe_dra w opss T i Q (k j (Some a) l) (t, H')"
  shows "safe_dra w opss T i Q (get_dequeue_index nc w l k) (s, H)"
proof -
  have start: "choice_dra gets_dra w i s j (gets_dra t j) a (l\<lparr>seeds := sd\<rparr>) t"
    if "j < w" "ord_dra w i s t" "walk (dra_nodes t) j (gets_dra t j) = Some a" "dra_nodes t a = Some n" for j t a n sd
    using choice_start [where pos = gets_dra, OF that(2,1) ord_draD(1) [OF that(2,1)] that(3,4)] dra_local_stable [OF l that(2)] by simp
  show ?thesis
  proof (cases nc)
    case None
    show ?thesis
      unfolding None get_dequeue_index.simps
      by (rule draw_cases [OF w], rule read_get_safe [OF J], assumption, rule k) (use start P in auto)
  next
    case (Some d)
    show ?thesis
      unfolding Some get_dequeue_index.simps
    proof (rule draw_cases [OF w], rule read_get_safe [OF J], assumption)
      fix j sd t H' a n assume t: "j < w" "inv_dra w opss (t, H')" "ord_dra w i s t" "proj i H' = proj i H"
        "walk (dra_nodes t) j (gets_dra t j) = Some a" "dra_nodes t a = Some n"
      show "safe_dra w opss T i Q (deq_choices_dra (d - 1) w j (Some a) (l\<lparr>seeds := sd\<rparr>) k) (t, H')"
        by (rule deq_choices_dra_safe [OF t(2) start [OF t(1,3,5,6)]]) (use t(4) P k in simp_all)
    qed
  qed
qed

section \<open>Enqueue\<close>

definition private_dra :: "nat \<Rightarrow> nat \<Rightarrow> qaddr \<Rightarrow> int \<Rightarrow> dra_mem \<Rightarrow> bool" where
  "private_dra w i a v s \<longleftrightarrow> (\<exists>k. a = Node i k) \<and> \<not> linked w (dra_nodes s) a \<and>
     (\<exists>n. dra_nodes s a = Some n \<and> qn_val n = v \<and> qn_next n = None)"

definition stamped_dra :: "nat \<Rightarrow> nat \<Rightarrow> qaddr \<Rightarrow> int \<Rightarrow> qaddr \<Rightarrow> dra_mem \<Rightarrow> bool" where
  "stamped_dra w i a v tn s \<longleftrightarrow> private_dra w i a v s \<and> linked w (dra_nodes s) tn \<and>
     (\<exists>n m. dra_nodes s a = Some n \<and> dra_nodes s tn = Some m \<and> dn_count n = add64 (dn_count m) 1)"

lemma private_dra_stable: "private_dra w i a v s \<Longrightarrow> ord_dra w i s t \<Longrightarrow> private_dra w i a v t"
  using ord_draD(5) [of w i s t] by (auto simp: private_dra_def)

lemma stamped_dra_stable:
  assumes "stamped_dra w i a v tn s" and o: "ord_dra w i s t"
  shows "stamped_dra w i a v tn t"
proof -
  obtain n m where n: "dra_nodes s a = Some n" "dra_nodes s tn = Some m" "dn_count n = add64 (dn_count m) 1"
    "linked w (dra_nodes s) tn" "private_dra w i a v s" using assms(1) by (auto simp: stamped_dra_def)
  obtain m' where "dra_nodes t tn = Some m'" "dn_count m' = dn_count m"
    using ord_dra_node [OF o n(2)] n(4) by metis
  moreover have "dra_nodes t a = Some n" using n(1,5) ord_draD(5) [OF o] by (auto simp: private_dra_def)
  moreover have "linked w (dra_nodes t) tn" using linked_later [OF ord_draD(3) [OF o] n(4)] .
  ultimately show ?thesis using n(3) private_dra_stable [OF n(5) o] by (simp add: stamped_dra_def)
qed

definition dra_post :: "nat \<Rightarrow> queue_op list list \<Rightarrow> nat \<Rightarrow> queue_op \<Rightarrow> (queue_op \<times> int \<times> nat) list \<Rightarrow>
    (int \<times> nat) \<times> thread_msq \<Rightarrow> dra_mem \<times> (queue_op, int \<times> nat) history \<Rightarrow> bool" where
  "dra_post w opss i op P x y \<longleftrightarrow> inv_dra w opss y \<and> dra_local w i (snd x) (fst y) \<and> proj i (snd y) = P @ [(op, fst x)]"

text \<open>Stamping the own node with the count of the tail, one more.\<close>

lemma set_count_safe:
  assumes J: "inv_dra w opss (s, H)" and a: "private_dra w i a v s"
    and tn: "linked w (dra_nodes s) tn" "\<exists>n. dra_nodes s tn = Some n \<and> dn_count n = c"
    and step: "\<And>t t' H'. inv_dra w opss (t', H') \<Longrightarrow> ord_dra w i s t \<Longrightarrow> core_dra w t t' \<Longrightarrow> proj i H' = proj i H \<Longrightarrow>
      stamped_dra w i a v tn t' \<Longrightarrow> (\<And>l. dra_local w i l s \<Longrightarrow> dra_local w i l t') \<Longrightarrow> safe_dra w opss T i Q p (t', H')"
  shows "safe_dra w opss T i Q (set_count a (add64 c 1) p) (s, H)"
proof -
  have here: "\<exists>ka na. a = Node i ka \<and> \<not> linked w (dra_nodes t) a \<and> dra_nodes t a = Some na \<and> qn_val na = v \<and> qn_next na = None"
    if "ord_dra w i s t" for t
    using private_dra_stable [OF a that] by (auto simp: private_dra_def)
  show ?thesis
    unfolding set_count_def
    apply (rule lin_checked, rule J)
    subgoal for t H' using here [of t] by auto
    apply (rule lin_store, rule J)
    subgoal premises q for t H'
    proof -
      obtain ka na where n: "a = Node i ka" "\<not> linked w (dra_nodes t) (Node i ka)" "dra_nodes t (Node i ka) = Some na" "qn_val na = v" "qn_next na = None"
        using here [OF q(2)] by blast
      let ?n = "na\<lparr>dn_count := add64 c 1\<rparr>" and ?t = "set_node (\<lambda>n. n\<lparr>dn_count := add64 c 1\<rparr>) a t"
      have t: "?t = t\<lparr>dra_nodes := (dra_nodes t)(Node i ka \<mapsto> ?n)\<rparr>" using n by (simp add: set_node_def)
      have old: "qn_val ?n = qn_val m \<and> qn_next ?n = qn_next m" if "dra_nodes t (Node i ka) = Some m" for m
        using that n(3) by simp
      note W = private_step_dra [OF q(1) n(2) old, folded t]
      have tn': "linked w (dra_nodes t) tn" by (rule linked_later [OF ord_draD(3) [OF q(2)] tn(1)])
      obtain m where m: "dra_nodes t tn = Some m" "dn_count m = c" using tn ord_dra_node [OF q(2)] by metis
      have ne: "tn \<noteq> Node i ka" using tn' n(2) by auto
      have nodes: "dra_nodes ?t a = Some ?n" "dra_nodes ?t tn = Some m" using m(1) ne n(1,3) by (simp_all add: set_node_def)
      have link: "\<not> linked w (dra_nodes ?t) a" "linked w (dra_nodes ?t) tn" using W(4) n(1,2) tn' by simp_all
      have "private_dra w i a v ?t" unfolding private_dra_def using link(1) nodes(1) n(1,4,5) by simp
      then have "stamped_dra w i a v tn ?t"
        unfolding stamped_dra_def using link(2) nodes m(2) by simp
      moreover have "dra_local w i l ?t" if "dra_local w i l s" for l
      proof -
        have l: "dra_local w i l t" by (rule dra_local_stable [OF that q(2)])
        have "dra_nodes ?t (Node i k) = None" if "ms_alloc_next l \<le> k" for k
          using l that n(1,3) by (auto simp: dra_local_def set_node_def)
        then show ?thesis using l W(4) by (simp add: dra_local_def)
      qed
      ultimately have "safe_dra w opss T i Q p (?t, H')" using step [OF W(1) q(2) W(2) q(4)] by blast
      then show ?thesis using W(1,3) by (intro exI [of _ "[]"]) simp
    qed
    done
qed

lemma choice_linked: "choice_dra pos w i s0 j m a l s \<Longrightarrow> linked w (dra_nodes s) a"
  unfolding choice_dra_def linked_def by blast

text \<open>The exchange that links the node, and the move of the tail that follows it.\<close>

lemma enq_cae_dra_safe:
  assumes J: "inv_dra w opss (s, H)" and j: "j < w" and m: "m \<le> puts_dra s j" and tn: "walk (dra_nodes s) j m = Some tn"
    and a: "stamped_dra w i a v tn s" and l: "dra_local w i l s"
    and P: "proj i H = P" and step: "i < length opss" "prefix (map fst P @ [Enqueue key v]) (opss ! i)"
    and again: "\<And>t H' n. inv_dra w opss (t, H') \<Longrightarrow> ord_dra w i s t \<Longrightarrow> proj i H' = P \<Longrightarrow>
      dra_nodes t tn = Some n \<Longrightarrow> qn_next n \<noteq> None \<Longrightarrow> safe_dra w opss T i (dra_post w opss i (Enqueue key v) P) p (t, H')"
  shows "safe_dra w opss T i (dra_post w opss i (Enqueue key v) P)
    (enq_cae_dra (Some tn) a (\<lambda>ok. if ok then cas_put j (Some tn) (Some a) (\<lambda>_. Ret ((1, j), l)) else p)) (s, H)"
proof -
  have here: "\<exists>n. dra_nodes t tn = Some n" if "ord_dra w i s t" for t
    using stamped_dra_stable [OF a that] by (auto simp: stamped_dra_def)
  show ?thesis
    unfolding enq_cae_dra_def
    apply (rule lin_checked, rule J)
    subgoal for t H' using here [of t] by auto
    apply (rule lin_cas, rule J, simp)
    subgoal premises p for t H'
    proof -
      obtain n ka na where n: "dra_nodes t tn = Some n" and a': "a = Node i ka" "\<not> linked w (dra_nodes t) a" "dra_nodes t a = Some na"
        "qn_next na = None" "dn_count na = add64 (dn_count n) 1" "qn_val na = v"
        using stamped_dra_stable [OF a p(2)] unfolding stamped_dra_def private_dra_def by force
      have nx: "qn_next n = None" using p(6) n by simp
      have le: "m \<le> puts_dra t j" using m ord_draD(2) [OF p(2) j] by linarith
      have P': "proj i H' = P" using p(4) P by simp
      let ?t = "set_node (\<lambda>n. n\<lparr>qn_next := Some a\<rparr>) tn t" and ?X = "[(i, Enqueue key v, 1, j)]"
      note L = link_step_dra [OF p(1) j ord_draD(4) [OF p(2) tn] n nx le a'(1-5) step(1), unfolded a'(6) P', OF step(2)]
      have loc: "dra_local w i l ?t" using dra_local_stable [OF l p(2)] L(5) by (simp add: dra_local_def)
      have wt: "walk (dra_nodes ?t) j m = Some tn"
        using L(3) walk_stable [of "dra_nodes t" "dra_nodes ?t"] ord_draD(4) [OF p(2) tn] unfolding core_dra_def by blast
      have "safe_dra w opss T i (dra_post w opss i (Enqueue key v) P)
        (cas_put j (Some tn) (Some a) (\<lambda>_. Ret ((1, j), l))) (?t, H' @ ?X)"
      proof (rule cas_put_safe [OF L(1) j _ wt L(4)])
        show "m \<le> puts_dra ?t j" using le L(3) j unfolding core_dra_def by (meson le_trans)
        fix u K assume u: "inv_dra w opss (u, K)" "ord_dra w i ?t u" "proj i K = proj i (H' @ ?X)"
        show "safe_dra w opss T i (dra_post w opss i (Enqueue key v) P) (Ret ((1, j), l)) (u, K)"
        proof (rule lin_ret, rule u(1))
          fix u' K' assume u': "inv_dra w opss (u', K')" "ord_dra w i u u'" "proj i K' = proj i K"
          show "dra_post w opss i (Enqueue key v) P ((1, j), l) (u', K')"
            using u' u(3) P' dra_local_stable [OF dra_local_stable [OF loc u(2)] u'(2)] by (simp add: dra_post_def)
        qed
      qed
      moreover have "hist_step opss i H' (H' @ ?X)" using step P' by (intro hist_step_entry) simp_all
      ultimately show ?thesis using L(1,2) by (intro exI [of _ ?X]) simp
    qed
    subgoal premises p for t H'
    proof -
      obtain n where n: "dra_nodes t tn = Some n" using here [OF p(2)] by blast
      have "qn_next n \<noteq> None" using p(6) n by simp
      then show ?thesis using again [OF p(1,2) _ n] p(4) P by simp
    qed
    done
qed

lemma enqueue_dra_loop_safe:
  assumes "inv_dra w opss (s, H)" and "0 < w" and "private_dra w i a v s" and "dra_local w i l s" and "proj i H = P"
    and "i < length opss" and "prefix (map fst P @ [Enqueue key v]) (opss ! i)" and "enough_dra T opss w n s"
  shows "safe_dra w opss T i (dra_post w opss i (Enqueue key v) P) (enqueue_dra_loop nc w n a l) (s, H)"
  using assms
proof (induction n arbitrary: s H l)
  case 0
  then show ?case using enough_dra_0 by simp
next
  case (Suc n)
  note step = Suc.prems(6,7)
  let ?safe = "safe_dra w opss T i (dra_post w opss i (Enqueue key v) P)"
  have again: "?safe (enqueue_dra_loop nc w n a (count_put_fail l')) (u, K)"
    if "inv_dra w opss (u, K)" "dra_local w i l' u" "private_dra w i a v u" "proj i K = P" "work_dra w s < work_dra w u" for u K l'
    by (rule Suc.IH [OF that(1) Suc.prems(2) that(3) _ that(4) step enough_dra_Suc [OF Suc.prems(8) that(5)]])
      (use that(2) in simp)
  show ?case
    unfolding enqueue_dra_loop.simps
  proof (rule get_enqueue_index_safe [OF Suc.prems(1,2,4,5)])
    fix t H1 j m tn l1
    assume t: "inv_dra w opss (t, H1)" "choice_dra puts_dra w i s j m tn l1 t" "proj i H1 = P"
    then have c: "ord_dra w i s t" "j < w" "walk (dra_nodes t) j m = Some tn" "puts_dra s j \<le> m" "m \<le> puts_dra t j" "dra_local w i l1 t"
      by (simp_all add: choice_dra_def)
    note j = c(2)
    obtain nt where nt: "dra_nodes t tn = Some nt" using choice_node [OF t(2)] by blast
    let ?cas = "dra_field qn_next (Some tn) (\<lambda>nx. cas_put j (Some tn) nx (\<lambda>_. enqueue_dra_loop nc w n a (count_put_fail l1)))"
    let ?link = "enq_cae_dra (Some tn) a (\<lambda>ok. if ok then cas_put j (Some tn) (Some a) (\<lambda>_. Ret ((1, j), l1))
        else enqueue_dra_loop nc w n a (count_put_fail l1))"
    show "?safe (dra_field dn_count (Some tn) (\<lambda>c. set_count a (add64 c 1)
        (dra_field qn_next (Some tn) (\<lambda>nx. if nx = None then ?link else ?cas)))) (t, H1)"
    proof (rule dra_field_safe [OF t(1) nt])
      fix u K n1 assume u: "inv_dra w opss (u, K)" "ord_dra w i t u" "proj i K = proj i H1" "dra_nodes u tn = Some n1"
      note su = ord_dra_trans [OF c(1) u(2)]
      show "?safe (set_count a (add64 (dn_count n1) 1) (dra_field qn_next (Some tn) (\<lambda>nx. if nx = None then ?link else ?cas))) (u, K)"
      proof (rule set_count_safe [OF u(1) private_dra_stable [OF Suc.prems(3) su]])
        show "linked w (dra_nodes u) tn" using choice_linked [OF choice_stable [OF t(2) u(2) ord_draD(2) [OF u(2) j]]] .
        show "\<exists>n. dra_nodes u tn = Some n \<and> dn_count n = dn_count n1" using u(4) by simp
        fix x0 x X assume x: "inv_dra w opss (x, X)" "ord_dra w i u x0" "core_dra w x0 x" "proj i X = proj i K"
          "stamped_dra w i a v tn x" "\<And>l. dra_local w i l u \<Longrightarrow> dra_local w i l x"
        have cx: "core_dra w s x" "core_dra w t x"
          using ord_dra_trans [OF su x(2)] ord_dra_trans [OF u(2) x(2)] x(3) core_dra_trans unfolding ord_dra_def by blast+
        have wx: "walk (dra_nodes x) j m = Some tn" using walk_stable [OF _ c(3)] cx(2) unfolding core_dra_def by blast
        have px: "m \<le> puts_dra x j" using c(5) cx(2) j unfolding core_dra_def by (meson le_trans)
        have lx: "dra_local w i l1 x" by (rule x(6) [OF dra_local_stable [OF c(6) u(2)]])
        have Px: "proj i X = P" using x(4) u(3) t(3) by simp
        have sx: "work_dra w s \<le> work_dra w x" by (rule work_dra_mono [OF Suc.prems(1) x(1) cx(1)])
        obtain nx where nx: "dra_nodes x tn = Some nx" using x(5) by (auto simp: stamped_dra_def)
        show "?safe (dra_field qn_next (Some tn) (\<lambda>nx. if nx = None then ?link else ?cas)) (x, X)"
        proof (rule dra_field_safe [OF x(1) nx])
          fix y Y n2 assume y: "inv_dra w opss (y, Y)" "ord_dra w i x y" "proj i Y = proj i X" "dra_nodes y tn = Some n2"
          note wy = ord_draD(4) [OF y(2) wx] and ly = dra_local_stable [OF lx y(2)] and ay = stamped_dra_stable [OF x(5) y(2)]
          have py: "m \<le> puts_dra y j" using px ord_draD(2) [OF y(2) j] by linarith
          have Py: "proj i Y = P" using y(3) Px by simp
          have xy: "work_dra w s \<le> work_dra w y"
            using sx work_dra_mono [OF x(1) y(1)] y(2) by (simp add: ord_dra_def)
          show "?safe (if qn_next n2 = None then ?link else ?cas) (y, Y)"
          proof (cases "qn_next n2")
            case None
            have "?safe ?link (y, Y)"
            proof (rule enq_cae_dra_safe [OF y(1) j py wy ay ly Py step])
              fix z Z nz assume z: "inv_dra w opss (z, Z)" "ord_dra w i y z" "proj i Z = P" "dra_nodes z tn = Some nz" "qn_next nz \<noteq> None"
              have "m = chain_len (dra_nodes y) j" "m \<noteq> chain_len (dra_nodes z) j" "m \<le> chain_len (dra_nodes z) j"
                using inv_dra_last [OF y(1) j wy y(4)] None inv_dra_last [OF z(1) j ord_draD(4) [OF z(2) wy] z(4)] z(5) by simp_all
              then have "work_dra w y < work_dra w z" by (intro work_dra_less [OF y(1) z(1,2) j]) simp
              then have "work_dra w s < work_dra w z" using xy by simp
              moreover have "private_dra w i a v z" using stamped_dra_stable [OF ay z(2)] by (simp add: stamped_dra_def)
              ultimately show "?safe (enqueue_dra_loop nc w n a (count_put_fail l1)) (z, Z)"
                by (intro again [OF z(1) dra_local_stable [OF ly z(2)] _ z(3)])
            qed
            then show ?thesis using None by simp
          next
            case (Some b)
            have "?safe ?cas (y, Y)"
            proof (rule dra_field_safe [OF y(1,4)])
              fix z Z n3 assume z: "inv_dra w opss (z, Z)" "ord_dra w i y z" "proj i Z = proj i Y" "dra_nodes z tn = Some n3"
              have nx: "qn_next n3 = Some b" using ord_dra_node [OF z(2) y(4)] Some z(4) by (metis option.inject)
              note wz = ord_draD(4) [OF z(2) wy]
              show "?safe (cas_put j (Some tn) (qn_next n3) (\<lambda>_. enqueue_dra_loop nc w n a (count_put_fail l1))) (z, Z)"
                unfolding nx
              proof (rule cas_put_safe [OF z(1) j _ wz])
                show "m \<le> puts_dra z j" using py ord_draD(2) [OF z(2) j] by linarith
                show "walk (dra_nodes z) j (Suc m) = Some b" using walk_next [OF wz z(4)] nx by simp
                fix x' X' assume x': "inv_dra w opss (x', X')" "ord_dra w i z x'" "proj i X' = proj i Z" "m < puts_dra x' j"
                have o: "ord_dra w i y x'" by (rule ord_dra_trans [OF z(2) x'(2)])
                have "core_dra w s x'" using core_dra_trans [OF cx(1)] core_dra_trans y(2) o unfolding ord_dra_def by blast
                moreover have "puts_dra s j < puts_dra x' j" using c(4) x'(4) by simp
                ultimately have "work_dra w s < work_dra w x'"
                  using Suc.prems(1) x'(1) j unfolding work_dra_def
                  by (elim inv_draE, intro lane_work_less [where j = j]) (auto simp: core_dra_def)
                moreover have "private_dra w i a v x'" using stamped_dra_stable [OF ay o] by (simp add: stamped_dra_def)
                ultimately show "?safe (enqueue_dra_loop nc w n a (count_put_fail l1)) (x', X')"
                  by (intro again [OF x'(1) dra_local_stable [OF ly o]]) (use x'(3) z(3) Py in simp_all)
              qed
            qed
            then show ?thesis using Some by simp
          qed
        qed
      qed
    qed
  qed
qed

lemma enqueue_dra_safe:
  assumes J: "inv_dra w opss (s, H)" and w: "0 < w" and l: "dra_local w i l s" and P: "proj i H = P"
    and step: "i < length opss" "prefix (map fst P @ [Enqueue key v]) (opss ! i)" and n: "enough_dra T opss w n s"
  shows "safe_dra w opss T i (dra_post w opss i (Enqueue key v) P) (enqueue_dra mem nc w n key v l) (s, H)"
  unfolding enqueue_dra_def create_node_dra_def Let_def
  apply (rule lin_store, rule J)
  subgoal premises q for t H'
  proof -
    let ?a = "Node (ms_thread_id l) (ms_alloc_next l)"
    let ?n = "\<lparr>qn_key = key, qn_val = v, qn_next = None, dn_count = mem ?a\<rparr>"
    let ?t = "t\<lparr>dra_nodes := (dra_nodes t)(?a \<mapsto> ?n)\<rparr>" and ?l = "l\<lparr>ms_alloc_next := ms_alloc_next l + 1\<rparr>"
    have lt: "dra_local w i l t" by (rule dra_local_stable [OF l q(2)])
    then have i: "ms_thread_id l = i" and a: "dra_nodes t (Node i (ms_alloc_next l)) = None" "\<not> linked w (dra_nodes t) (Node i (ms_alloc_next l))"
      by (auto simp: dra_local_def)
    note W = private_step_dra [OF q(1) a(2), of ?n, folded i]
    have W': "inv_dra w opss (?t, H')" "core_dra w t ?t" "grd_dra w i t ?t" "linked w (dra_nodes ?t) b = linked w (dra_nodes t) b" for b
      using W a(1) i by simp_all
    have "dra_local w i ?l ?t" using lt W'(4) by (auto simp: dra_local_def i)
    moreover have "private_dra w i ?a v ?t" using a W'(4) by (simp add: private_dra_def i)
    moreover have "enough_dra T opss w n ?t"
      using n work_dra_mono [OF J W'(1)] core_dra_trans [OF _ W'(2)] q(2) by (auto simp: enough_dra_def ord_dra_def)
    moreover have "proj i H' = P" using q(4) P by simp
    ultimately have "safe_dra w opss T i (dra_post w opss i (Enqueue key v) P) (enqueue_dra_loop nc w n ?a ?l) (?t, H')"
      using w step W'(1) by (intro enqueue_dra_loop_safe) simp_all
    then show ?thesis using W'(1,3) by (intro exI [of _ "[]"]) simp
  qed
  done

section \<open>Dequeue\<close>

text \<open>The head's node has no successor: the queue is empty at this moment.\<close>

lemma empty_dra_safe:
  assumes J: "inv_dra w opss (s, H)" and j: "j < w"
    and hd: "walk (dra_nodes s) j m = Some a" "m \<le> gets_dra s j" "dra_nodes s a = Some n0"
    and l: "dra_local w i l s" and P: "proj i H = P" and step: "i < length opss" "prefix (map fst P @ [Dequeue]) (opss ! i)"
    and again: "\<And>t H' n b. inv_dra w opss (t, H') \<Longrightarrow> ord_dra w i s t \<Longrightarrow> proj i H' = P \<Longrightarrow>
      dra_nodes t a = Some n \<Longrightarrow> qn_next n = Some b \<Longrightarrow> safe_dra w opss T i (dra_post w opss i Dequeue P) (q (Some b)) (t, H')"
  shows "safe_dra w opss T i (dra_post w opss i Dequeue P)
    (dra_field qn_next (Some a) (\<lambda>nx. if nx = None then Ret ((0, j), count_null l) else q nx)) (s, H)"
  unfolding dra_field_def
  apply (rule lin_checked, rule J)
  subgoal for t H' using ord_dra_node [of w i s t a n0, OF _ hd(3)] by auto
  apply (rule lin_load_point, rule J)
  subgoal premises u for t H'
  proof -
    obtain n where n: "dra_nodes t a = Some n" using ord_dra_node [OF u(2) hd(3)] by metis
    have P': "proj i H' = P" using u(4) P by simp
    show ?thesis
    proof (cases "qn_next n")
      case (Some b)
      then show ?thesis
        using again [OF u(1,2) P' n Some] u(1) n by (intro exI [of _ "[]"]) simp
    next
      case None
      let ?X = "[(i, Dequeue, 0, j)]"
      have wt: "walk (dra_nodes t) j m = Some a" by (rule ord_draD(4) [OF u(2) hd(1)])
      have "gets_dra t j \<le> chain_len (dra_nodes t) j" "m = chain_len (dra_nodes t) j"
      proof -
        show "m = chain_len (dra_nodes t) j" using inv_dra_last [OF u(1) j wt n] None by simp
        obtain b nb where "walk (dra_nodes t) j (gets_dra t j) = Some b" "dra_nodes t b = Some nb"
          by (rule inv_dra_walk [OF u(1) j inv_dra_gets [OF u(1) j]])
        then show "gets_dra t j \<le> chain_len (dra_nodes t) j" using inv_dra_last(2) [OF u(1) j] by simp
      qed
      then have g: "gets_dra t j = m" using hd(2) ord_draD(1) [OF u(2) j] by linarith
      have last: "walk (dra_nodes t) j (Suc (gets_dra t j)) = None" using walk_next [OF wt n] None g by simp
      have J': "inv_dra w opss (t, H' @ ?X)"
        using empty_step_dra [OF u(1) j last step(1)] step(2) P' by simp
      have "safe_dra w opss T i (dra_post w opss i Dequeue P) (Ret ((0, j), count_null l)) (t, H' @ ?X)"
      proof (rule lin_ret, rule J')
        fix t' K assume t': "inv_dra w opss (t', K)" "ord_dra w i t t'" "proj i K = proj i (H' @ ?X)"
        then show "dra_post w opss i Dequeue P ((0, j), count_null l) (t', K)"
          using P' dra_local_stable [OF dra_local_stable [OF l u(2)] t'(2)] by (simp add: dra_post_def)
      qed
      moreover have "hist_step opss i H' (H' @ ?X)" using step P' by (intro hist_step_entry) simp_all
      ultimately show ?thesis using J' None n by (intro exI [of _ ?X]) simp
    qed
  qed
  done

text \<open>The exchange that takes the head, and the two loads that follow it.\<close>

lemma deq_cae_dra_safe:
  assumes J: "inv_dra w opss (s, H)" and j: "j < w" and m: "m \<le> gets_dra s j"
    and hd: "walk (dra_nodes s) j m = Some a" "walk (dra_nodes s) j (Suc m) = Some b" "m < puts_dra s j"
    and l: "dra_local w i l s" and P: "proj i H = P" and step: "i < length opss" "prefix (map fst P @ [Dequeue]) (opss ! i)"
    and again: "\<And>t H'. inv_dra w opss (t, H') \<Longrightarrow> ord_dra w i s t \<Longrightarrow> proj i H' = P \<Longrightarrow> m < gets_dra t j \<Longrightarrow>
      safe_dra w opss T i (dra_post w opss i Dequeue P) q (t, H')"
  shows "safe_dra w opss T i (dra_post w opss i Dequeue P)
    (deq_cae_dra j (Some a) (Some b) (\<lambda>ok.
       if ok then dra_field qn_next (Some a) (\<lambda>nx. dra_field qn_val nx (\<lambda>v. Ret ((v, j), l))) else q)) (s, H)"
  unfolding deq_cae_dra_def
  apply (rule lin_checked, rule J)
  subgoal for t H' using inv_dra_index [of w opss t H' j] j by simp
  apply (rule lin_cas, rule J, simp)
  subgoal premises u for t H'
  proof -
    let ?Q = "dra_post w opss i Dequeue P"
    note wt = ord_draD(4) [OF u(2) hd(1)] ord_draD(4) [OF u(2) hd(2)]
    have "walk (dra_nodes t) j (gets_dra t j) = Some a" using inv_dra_pointer(1) [OF u(1) j] u(6) by simp
    then have g: "gets_dra t j = m" using inv_dra_unique [OF u(1) j _ wt(1)] by simp
    have lt: "m < puts_dra t j" using hd(3) ord_draD(2) [OF u(2) j] by linarith
    obtain n where n: "dra_nodes t b = Some n" using inv_dra_walk [OF u(1) j, of "Suc m"] lt wt(2) by auto
    obtain na where na: "dra_nodes t a = Some na" using inv_dra_walk [OF u(1) j, of m] lt wt(1) by auto
    have P': "proj i H' = P" using u(4) P by simp
    let ?t = "t\<lparr>dra_get := (dra_get t)[j := Some b]\<rparr>" and ?X = "[(i, Dequeue, qn_val n, j)]"
    note head = head_step_dra [OF u(1) j, unfolded g, OF lt wt(2) n step(1), unfolded P', OF step(2)]
    have loc: "dra_local w i l ?t" using dra_local_stable [OF dra_local_stable [OF l u(2)] head(4)] .
    have nx: "qn_next na = Some b" using walk_next [OF wt(1) na] wt(2) by simp
    have "safe_dra w opss T i ?Q (dra_field qn_next (Some a) (\<lambda>nx. dra_field qn_val nx (\<lambda>v. Ret ((v, j), l)))) (?t, H' @ ?X)"
    proof (rule dra_field_safe [OF head(1)])
      show "dra_nodes ?t a = Some na" using na by simp
      fix x K m' assume x: "inv_dra w opss (x, K)" "ord_dra w i ?t x" "proj i K = proj i (H' @ ?X)" "dra_nodes x a = Some m'"
      have "dra_nodes ?t a = Some na" "dra_nodes ?t b = Some n" using na n by simp_all
      then have nx': "qn_next m' = Some b" and "\<exists>n'. dra_nodes x b = Some n' \<and> qn_val n' = qn_val n"
        using ord_dra_node [OF x(2)] nx x(4) by (metis option.inject)+
      then obtain n' where n': "dra_nodes x b = Some n'" "qn_val n' = qn_val n" by blast
      show "safe_dra w opss T i ?Q (dra_field qn_val (qn_next m') (\<lambda>v. Ret ((v, j), l))) (x, K)"
        unfolding nx'
      proof (rule dra_field_safe [OF x(1) n'(1)])
        fix y Y n2 assume y: "inv_dra w opss (y, Y)" "ord_dra w i x y" "proj i Y = proj i K" "dra_nodes y b = Some n2"
        have v: "qn_val n2 = qn_val n" using ord_dra_node [OF y(2) n'(1)] n'(2) y(4) by (metis option.inject)
        show "safe_dra w opss T i ?Q (Ret ((qn_val n2, j), l)) (y, Y)"
          unfolding v
        proof (rule lin_ret, rule y(1))
          fix z Z assume z: "inv_dra w opss (z, Z)" "ord_dra w i y z" "proj i Z = proj i Y"
          have "dra_local w i l z"
            using dra_local_stable [OF dra_local_stable [OF dra_local_stable [OF loc x(2)] y(2)] z(2)] .
          then show "?Q ((qn_val n, j), l) (z, Z)" using z y(3) x(3) P' by (simp add: dra_post_def)
        qed
      qed
    qed
    moreover have "hist_step opss i H' (H' @ ?X)" using step P' by (intro hist_step_entry) simp_all
    ultimately show ?thesis using head(1,3) by (intro exI [of _ ?X]) simp
  qed
  subgoal premises u for t H'
  proof -
    have le: "m \<le> gets_dra t j" using m ord_draD(1) [OF u(2) j] by linarith
    have "m \<noteq> gets_dra t j" using inv_dra_pointer(1) [OF u(1) j] ord_draD(4) [OF u(2) hd(1)] u(6) by auto
    then have "m < gets_dra t j" using le by linarith
    then show ?thesis using again [OF u(1,2)] u(4) P by simp
  qed
  done

lemma dequeue_dra_safe:
  assumes "inv_dra w opss (s, H)" and "0 < w" and "dra_local w i l s" and "proj i H = P"
    and "i < length opss" and "prefix (map fst P @ [Dequeue]) (opss ! i)" and "enough_dra T opss w n s"
  shows "safe_dra w opss T i (dra_post w opss i Dequeue P) (dequeue_dra nc w n l) (s, H)"
  using assms
proof (induction n arbitrary: s H l)
  case 0
  then show ?case using enough_dra_0 by simp
next
  case (Suc n)
  note step = Suc.prems(5,6)
  let ?safe = "safe_dra w opss T i (dra_post w opss i Dequeue P)"
  have again: "?safe (dequeue_dra nc w n l') (u, K)"
    if "inv_dra w opss (u, K)" "dra_local w i l' u" "proj i K = P" "work_dra w s < work_dra w u" for u K l'
    by (rule Suc.IH [OF that(1) Suc.prems(2) that(2,3) step enough_dra_Suc [OF Suc.prems(7) that(4)]])
  show ?case
    unfolding dequeue_dra.simps
  proof (rule get_dequeue_index_safe [OF Suc.prems(1-4)])
    fix t H1 j m a l1
    assume t: "inv_dra w opss (t, H1)" "choice_dra gets_dra w i s j m a l1 t" "proj i H1 = P"
    then have c: "ord_dra w i s t" "j < w" "walk (dra_nodes t) j m = Some a" "gets_dra s j \<le> m" "m \<le> gets_dra t j" "dra_local w i l1 t"
      by (simp_all add: choice_dra_def)
    note j = c(2)
    obtain na where na: "dra_nodes t a = Some na" using choice_node [OF t(2)] by blast
    show "?safe (read_put j (\<lambda>tail. if Some a = tail then dra_field qn_next (Some a) (\<lambda>nx. if nx = None then Ret ((0, j), count_null l1)
          else dra_field qn_next tail (\<lambda>nx. cas_put j tail nx (\<lambda>_. dequeue_dra nc w n l1)))
        else dra_field qn_next (Some a) (\<lambda>nx. deq_cae_dra j (Some a) nx (\<lambda>ok.
          if ok then dra_field qn_next (Some a) (\<lambda>nx. dra_field qn_val nx (\<lambda>v. Ret ((v, j), l1)))
          else dequeue_dra nc w n l1)))) (t, H1)"
    proof (rule read_put_safe [OF t(1) j])
      fix u K a' n' assume u: "inv_dra w opss (u, K)" "ord_dra w i t u" "proj i K = proj i H1"
        "walk (dra_nodes u) j (puts_dra u j) = Some a'" "dra_nodes u a' = Some n'"
      note su = ord_dra_trans [OF c(1) u(2)] and wu = ord_draD(4) [OF u(2) c(3)] and loc = dra_local_stable [OF c(6) u(2)]
      have gu: "m \<le> gets_dra u j" using c(5) ord_draD(1) [OF u(2) j] by linarith
      have P: "proj i K = P" using u(3) t(3) by simp
      obtain nu where nu: "dra_nodes u a = Some nu" using ord_dra_node [OF u(2) na] by metis
      let ?move = "\<lambda>tail. dra_field qn_next tail (\<lambda>nx. cas_put j tail nx (\<lambda>_. dequeue_dra nc w n l1))"
      let ?take = "dra_field qn_next (Some a) (\<lambda>nx. deq_cae_dra j (Some a) nx (\<lambda>ok.
          if ok then dra_field qn_next (Some a) (\<lambda>nx. dra_field qn_val nx (\<lambda>v. Ret ((v, j), l1))) else dequeue_dra nc w n l1))"
      show "?safe (if Some a = Some a' then dra_field qn_next (Some a) (\<lambda>nx. if nx = None then Ret ((0, j), count_null l1)
          else ?move (Some a')) else ?take) (u, K)"
      proof (cases "a = a'")
        case True
        have mm: "m = puts_dra u j" using inv_dra_unique [OF u(1) j wu] u(4) True by simp
        have "?safe (dra_field qn_next (Some a) (\<lambda>nx. if nx = None then Ret ((0, j), count_null l1) else ?move (Some a))) (u, K)"
        proof (rule empty_dra_safe [OF u(1) j wu gu nu loc P step])
          fix x X nx b assume x: "inv_dra w opss (x, X)" "ord_dra w i u x" "proj i X = P" "dra_nodes x a = Some nx" "qn_next nx = Some b"
          show "?safe (?move (Some a)) (x, X)"
          proof (rule dra_field_safe [OF x(1,4)])
            fix y Y n2 assume y: "inv_dra w opss (y, Y)" "ord_dra w i x y" "proj i Y = proj i X" "dra_nodes y a = Some n2"
            have nx: "qn_next n2 = Some b" using ord_dra_node [OF y(2) x(4)] x(5) y(4) by (metis option.inject)
            note uy = ord_dra_trans [OF x(2) y(2)]
            note wy = ord_draD(4) [OF uy wu]
            show "?safe (cas_put j (Some a) (qn_next n2) (\<lambda>_. dequeue_dra nc w n l1)) (y, Y)"
              unfolding nx
            proof (rule cas_put_safe [OF y(1) j _ wy])
              show "m \<le> puts_dra y j" using mm ord_draD(2) [OF uy j] by simp
              show "walk (dra_nodes y) j (Suc m) = Some b" using walk_next [OF wy y(4)] nx by simp
              fix z Z assume z: "inv_dra w opss (z, Z)" "ord_dra w i y z" "proj i Z = proj i Y" "m < puts_dra z j"
              note sz = ord_dra_trans [OF ord_dra_trans [OF su uy] z(2)]
              have "puts_dra s j \<le> m" using mm ord_draD(2) [OF su j] by simp
              then have "work_dra w s < work_dra w z" using z(4) by (intro work_dra_less [OF Suc.prems(1) z(1) sz j]) simp
              then show "?safe (dequeue_dra nc w n l1) (z, Z)"
                by (intro again [OF z(1) dra_local_stable [OF dra_local_stable [OF loc uy] z(2)]]) (use z(3) y(3) x(3) in simp_all)
            qed
          qed
        qed
        then show ?thesis unfolding True [symmetric] by simp
      next
        case False
        have "m \<noteq> puts_dra u j" using False wu u(4) by auto
        then have lt: "m < puts_dra u j" using gu inv_dra_gets [OF u(1) j] by linarith
        have "?safe ?take (u, K)"
        proof (rule dra_field_safe [OF u(1) nu])
          fix x X n2 assume x: "inv_dra w opss (x, X)" "ord_dra w i u x" "proj i X = proj i K" "dra_nodes x a = Some n2"
          note wx = ord_draD(4) [OF x(2) wu] and sx = ord_dra_trans [OF su x(2)] and lx = dra_local_stable [OF loc x(2)]
          have px: "m < puts_dra x j" using lt ord_draD(2) [OF x(2) j] by linarith
          obtain b nb where b: "walk (dra_nodes x) j (Suc m) = Some b" "dra_nodes x b = Some nb"
            using inv_dra_walk [OF x(1) j, of "Suc m"] px by auto
          have nx: "qn_next n2 = Some b" using walk_next [OF wx x(4)] b(1) by simp
          have gx: "m \<le> gets_dra x j" using gu ord_draD(1) [OF x(2) j] by linarith
          show "?safe (deq_cae_dra j (Some a) (qn_next n2) (\<lambda>ok.
            if ok then dra_field qn_next (Some a) (\<lambda>nx. dra_field qn_val nx (\<lambda>v. Ret ((v, j), l1))) else dequeue_dra nc w n l1)) (x, X)"
            unfolding nx
          proof (rule deq_cae_dra_safe [OF x(1) j gx wx b(1) px lx _ step])
            show "proj i X = P" using x(3) P by simp
            fix y Y assume y: "inv_dra w opss (y, Y)" "ord_dra w i x y" "proj i Y = P" "m < gets_dra y j"
            have "work_dra w s < work_dra w y"
              using y(4) c(4) by (intro work_dra_less [OF Suc.prems(1) y(1) ord_dra_trans [OF sx y(2)] j]) simp
            then show "?safe (dequeue_dra nc w n l1) (y, Y)" by (rule again [OF y(1) dra_local_stable [OF lx y(2)] y(3)])
          qed
        qed
        then show ?thesis using False by simp
      qed
    qed
  qed
qed

section \<open>Linearizability\<close>

interpretation lin_dra: lin_object "\<lambda>_. True" "out_of_rounds n opss" "inv_dra (Suc w) opss" "ord_dra (Suc w)" "grd_dra (Suc w)"
  "dra_local (Suc w)" "spec_fifos False" "replicate (Suc w) []" rep_dra "dra_op mem nc (Suc w) n" opss for mem nc w n opss
proof unfold_locales
  show "op_ok (\<lambda>_. True) (out_of_rounds n opss) (inv_dra (Suc w) opss) (ord_dra (Suc w)) (grd_dra (Suc w)) (dra_local (Suc w)) opss i op
      (dra_op mem nc (Suc w) n)"
    if i: "i < length opss" for i op
  proof (rule op_okI)
    fix l :: thread_msq and s :: dra_mem and H P
    assume J: "inv_dra (Suc w) opss (s, H)" "dra_local (Suc w) i l s" "proj i H = P" "prefix (map fst P @ [op]) (opss ! i)"
    have n: "enough_dra (out_of_rounds n opss) opss (Suc w) n s" by (auto simp: enough_dra_def out_of_rounds_def)
    have "safe_dra (Suc w) opss (out_of_rounds n opss) i (dra_post (Suc w) opss i op P) (dra_op mem nc (Suc w) n op l) (s, H)"
      using enqueue_dra_safe [OF J(1) _ J(2,3) i _ n] dequeue_dra_safe [OF J(1) _ J(2,3) i _ n] J(4) by (cases op) simp_all
    then show "safe_dra (Suc w) opss (out_of_rounds n opss) i
        (\<lambda>(r, l) (s', H'). inv_dra (Suc w) opss (s', H') \<and> dra_local (Suc w) i l s' \<and> proj i H' = P @ [(op, r)])
        (dra_op mem nc (Suc w) n op l) (s, H)"
      by (rule safe_weaken) (auto simp: dra_post_def)
  qed
  show "\<exists>q. replay (spec_fifos False) (replicate (Suc w) []) H = Some q \<and> rep_dra s q" if "inv_dra (Suc w) opss (s, H)" for s H
  proof (rule inv_draE [OF that])
    fix E assume "pointers_ok (Suc w) s (gets_dra s) (puts_dra s)" "chains (Suc w) (dra_nodes s) (gets_dra s) (puts_dra s) E"
      "replay (spec_fifos False) (replicate (Suc w) []) H = Some (contents (Suc w) (gets_dra s) E)" "stamps_ok (Suc w) (dra_nodes s)"
    then show ?thesis by (auto simp: rep_dra_def pointers_ok_def)
  qed
qed (auto intro: grd_ord_dra dra_local_stable elim: ord_dra_trans)

lemma create_queue_dra_simps [simp]:
  "length (dra_get (create_queue_dra mem w)) = w" "length (dra_put (create_queue_dra mem w)) = w"
  "j < w \<Longrightarrow> dra_get (create_queue_dra mem w) ! j = Some (Dummy j)"
  "j < w \<Longrightarrow> dra_put (create_queue_dra mem w) ! j = Some (Dummy j)"
  "j < w \<Longrightarrow> dra_nodes (create_queue_dra mem w) (Dummy j) = Some \<lparr>qn_key = 0, qn_val = 0, qn_next = None, dn_count = mem (Dummy j)\<rparr>"
  "dra_nodes (create_queue_dra mem w) (Node i k) = None"
  by (simp_all add: create_queue_dra_def)

lemma inv_dra_start: "inv_dra w opss (create_queue_dra mem w, [])"
proof (rule inv_draI [where G = "\<lambda>_. 0" and P = "\<lambda>_. 0" and E = "\<lambda>_. []"])
  let ?s = "create_queue_dra mem w"
  have d: "\<exists>n. dra_nodes ?s (Dummy j) = Some n \<and> qn_next n = None" if "j < w" for j using that by simp
  show "pointers_ok w ?s (\<lambda>_. 0) (\<lambda>_. 0)" by (simp add: pointers_ok_def)
  show "chains w (dra_nodes ?s) (\<lambda>_. 0) (\<lambda>_. 0) (\<lambda>_. [])" by (rule chains_init(1)) (rule d)
  have "contents w (\<lambda>_. 0) (\<lambda>_. []) = replicate w []" by (rule nth_equalityI) simp_all
  then show "replay (spec_fifos False) (replicate w []) [] = Some (contents w (\<lambda>_. 0) (\<lambda>_. []))" by simp
  have "walk (dra_nodes ?s) j (Suc k) = None" if jw: "j < w" for j k
  proof -
    obtain n where "dra_nodes ?s (Dummy j) = Some n" "qn_next n = None" using d [OF jw] by blast
    then show ?thesis using walk_dummy [of "dra_nodes ?s" j n "Suc k"] by simp
  qed
  then show "stamps_ok w (dra_nodes ?s)" by (simp add: stamps_ok_def)
qed simp_all

lemma dra_local_start:
  assumes "ms_thread_id l = i" shows "dra_local w i l (create_queue_dra mem w)"
proof -
  have d: "\<exists>n. dra_nodes (create_queue_dra mem w) (Dummy j) = Some n \<and> qn_next n = None" if "j < w" for j using that by simp
  show ?thesis
    using assms chains_init(2) [of w "dra_nodes (create_queue_dra mem w)"] d by (simp add: dra_local_def)
qed

text \<open>
  C33: the queue with randomised access, with any number of choices and whatever the stamps of
  fresh memory are, is linearizable to an array of FIFO queues: under every interleaving an
  enqueue appends to the queue it chose, a dequeue takes the first value of the queue it chose,
  and it reports empty only if that queue is empty at that moment. In every state the stamps
  along a queue count its enqueues. No null or dangling pointer is followed, and with more
  rounds than three times the number of operations of all threads no loop runs out of them.
\<close>

theorem queue_dra_linearizable:
  assumes "0 < w"
  shows "linearizable (\<lambda>_. True) (out_of_rounds n (map fst ths)) (spec_fifos False) (replicate w []) rep_dra (map fst ths)
     (create_queue_dra mem w, threads (dra_op mem nc w n) (ms_threads ths))"
proof -
  obtain w' where w: "w = Suc w'" using assms by (cases w) auto
  have "linearizable (\<lambda>_. True) (out_of_rounds n (map fst (ms_threads ths))) (spec_fifos False) (replicate w []) rep_dra (map fst (ms_threads ths))
     (create_queue_dra mem w, threads (dra_op mem nc w n) (ms_threads ths))"
    unfolding w
  proof (rule lin_dra.linearizable_threads [OF _ refl])
    show "inv_dra (Suc w') (map fst (ms_threads ths)) (create_queue_dra mem (Suc w'), [])" by (rule inv_dra_start)
    show "dra_local (Suc w') i (snd (ms_threads ths ! i)) (create_queue_dra mem (Suc w'))" if "i < length (ms_threads ths)" for i
      by (rule dra_local_start) (use that in \<open>simp add: new_thread_msq_def\<close>)
  qed
  then show ?thesis by simp
qed

lemma queue_dra_linearizable_witness:
  "linearizable (\<lambda>_. True) (out_of_rounds 10 [[Enqueue 1 5, Dequeue], [Dequeue]]) (spec_fifos False) [[], []] rep_dra
     [[Enqueue 1 5, Dequeue], [Dequeue]]
     (create_queue_dra (\<lambda>_. 7) 2, threads (dra_op (\<lambda>_. 7) (Some 2) 2 10) (ms_threads [([Enqueue 1 5, Dequeue], (1, 2, 3)), ([Dequeue], (4, 5, 6))]))"
  using queue_dra_linearizable [of 2 10 "[([Enqueue 1 5, Dequeue], (1, 2, 3)), ([Dequeue], (4, 5, 6))]" "\<lambda>_. 7" "Some 2"]
  by (simp add: numeral_2_eq_2)

section \<open>The size, read alone\<close>

lemma run_dra_field [simp]: "dra_nodes s a = Some n \<Longrightarrow> run (dra_field f (Some a) k) s = run (k (f n)) s"
  by (simp add: dra_field_def)

lemma run_read_get [simp]: "j < length (dra_get s) \<Longrightarrow> run (read_get j k) s = run (k (dra_get s ! j)) s"
  by (simp add: read_get_def)

lemma queue_size_lane:
  assumes c: "chains w (dra_nodes s) G P E" and j: "j < w"
  shows "m \<le> length (E j) \<Longrightarrow> length (E j) - m < n \<Longrightarrow> sz + (length (E j) - m) < U64 \<Longrightarrow>
    run (queue_size_dra_lane n (walk (dra_nodes s) j m) sz k) s = run (k (sz + (length (E j) - m))) s"
proof (induction n arbitrary: m sz)
  case (Suc n)
  note x = chainsD(2) [OF c j]
  obtain a nd where a: "walk (dra_nodes s) j m = Some a" "dra_nodes s a = Some nd"
    using chain_walk [OF x Suc.prems(1)] by blast
  show ?case
  proof (cases "m = length (E j)")
    case True
    then have "qn_next nd = None" using chain_last [OF x a] by simp
    then show ?thesis using True a by simp
  next
    case False
    then obtain b where b: "qn_next nd = Some b" using chain_last [OF x a] by auto
    have w: "walk (dra_nodes s) j (Suc m) = qn_next nd" by (rule walk_next [OF a])
    have eq: "add64 sz 1 = sz + 1" using Suc.prems False by (intro add64_eq) simp
    have A: "sz + (length (E j) - m) = Suc sz + (length (E j) - Suc m)" using False Suc.prems(1) by simp
    have "run (queue_size_dra_lane n (walk (dra_nodes s) j (Suc m)) (Suc sz) k) s = run (k (sz + (length (E j) - m))) s"
      unfolding A by (rule Suc.IH) (use Suc.prems False in auto)
    then show ?thesis using a b eq unfolding w by simp
  qed
qed simp

lemma queue_size_lanes:
  assumes "rep_dra s q" and "\<And>x. x \<in> set q \<Longrightarrow> length x < n"
  shows "i + m = length q \<Longrightarrow> sz + sum_list (map length (drop i q)) < U64 \<Longrightarrow>
    run (queue_size_dra_loop n i m sz) s = Done (sz + sum_list (map length (drop i q))) s"
proof (induction m arbitrary: i sz)
  case (Suc m)
  obtain E where E: "chains (length (dra_get s)) (dra_nodes s) (gets_dra s) (puts_dra s) E"
    "q = contents (length (dra_get s)) (gets_dra s) E" using assms(1) by (auto simp: rep_dra_def)
  have i: "i < length (dra_get s)" "i < length q" using Suc.prems(1) E(2) by simp_all
  have q: "q ! i = drop (gets_dra s i) (E i)" using E(2) i(1) by simp
  note x = chainsD(2) [OF E(1) i(1)]
  have g: "gets_dra s i \<le> length (E i)" using chain_repD(3,4) [OF x] by simp
  obtain a where a: "walk (dra_nodes s) i (gets_dra s i) = Some a" using chain_walk [OF x g] by blast
  have n: "length (q ! i) < n" using assms(2) i(2) by simp
  have d: "drop i q = q ! i # drop (Suc i) q" using i(2) by (rule Cons_nth_drop_Suc [symmetric])
  have head: "dra_get s ! i = walk (dra_nodes s) i (gets_dra s i)"
    using assms(1) i(1) by (simp add: rep_dra_def pointers_ok_def)
  have "run (queue_size_dra_lane n (dra_get s ! i) sz (\<lambda>sz. queue_size_dra_loop n (i + 1) m sz)) s =
      run (queue_size_dra_loop n (i + 1) m (sz + length (q ! i))) s"
    unfolding head q using queue_size_lane [OF E(1) i(1) g, of n sz "\<lambda>sz. queue_size_dra_loop n (i + 1) m sz"] n Suc.prems(2)
    by (simp add: d q)
  also have "\<dots> = Done (sz + length (q ! i) + sum_list (map length (drop (Suc i) q))) s"
    using Suc.IH [of "i + 1" "sz + length (q ! i)"] Suc.prems by (simp add: d)
  finally show ?case using i(1) by (simp add: d)
qed simp

text \<open>
  C34: the size computed while no operation is in progress is the number of values in all queues:
  the traversal of every list ends at its last node, one hop for each value.
\<close>

theorem queue_dra_size:
  assumes "rep_dra s q" and "length q = w" and "\<forall>x\<in>set q. length x < n" and "sum_list (map length q) < U64"
  shows "run (queue_size_dra w n) s = Done (sum_list (map length q)) s"
  using queue_size_lanes [OF assms(1), of n 0 w 0] assms(2-4) by (simp add: queue_size_dra_def)

lemma queue_dra_size_witness:
  "run (queue_size_dra 2 3) (create_queue_dra (\<lambda>_. 7) 2) = Done 0 (create_queue_dra (\<lambda>_. 7) 2)"
proof -
  have I: "inv_dra 2 [] (create_queue_dra (\<lambda>_. 7) 2, [])" by (rule inv_dra_start)
  obtain E where "pointers_ok 2 (create_queue_dra (\<lambda>_. 7) 2) (gets_dra (create_queue_dra (\<lambda>_. 7) 2)) (puts_dra (create_queue_dra (\<lambda>_. 7) 2))"
    "chains 2 (dra_nodes (create_queue_dra (\<lambda>_. 7) 2)) (gets_dra (create_queue_dra (\<lambda>_. 7) 2)) (puts_dra (create_queue_dra (\<lambda>_. 7) 2)) E"
    "stamps_ok 2 (dra_nodes (create_queue_dra (\<lambda>_. 7) 2))"
    "replay (spec_fifos False) (replicate 2 []) [] = Some (contents 2 (gets_dra (create_queue_dra (\<lambda>_. 7) 2)) E)"
    by (rule inv_draE [OF I])
  then have "rep_dra (create_queue_dra (\<lambda>_. 7) 2) [[], []]" by (auto simp: rep_dra_def numeral_2_eq_2)
  from queue_dra_size [OF this, of 2 3] show ?thesis by (simp add: U64_def)
qed

end
