(* ===== verification/Ssalloc.thy ===== *)
theory Ssalloc
  imports Prelude
begin

text \<open>
  The allocator of the nodes, \<open>src/ssalloc.c\<close>: each thread has \<open>SSALLOC_NUM_ALLOCATORS\<close> regions of
  \<open>SSALLOC_SIZE\<close> bytes, from which it hands out memory in order, and for each a ring of 256 freed
  pointers, which it hands out again once more than two are waiting. The structures rest on it:
  their models take every node from fresh memory of its thread.

  \<open>memalign\<close> is a parameter: the addresses of the regions. Shown: the ring is a FIFO queue of
  freed pointers that forgets everything when the 256th is freed; and clients that only free
  blocks that are at least as large as those they ask for never get memory that overlaps
  another block in use, as long as the allocator does not warn.
\<close>

unbundle bit_operations_syntax

section \<open>State\<close>

definition SSALLOC_NUM_ALLOCATORS :: nat where
  "SSALLOC_NUM_ALLOCATORS = 2"

definition SSALLOC_SIZE :: nat where
  "SSALLOC_SIZE = 4294967296"

record ssalloc_state =
  app_mem :: "nat list"
  alloc_next :: "nat list"
  free_list :: "nat list list"
  free_cur :: "nat list"
  free_num :: "nat list"

text \<open>The thread-local variables of a new thread.\<close>

definition ssalloc_zero :: ssalloc_state where
  "ssalloc_zero = \<lparr>app_mem = replicate SSALLOC_NUM_ALLOCATORS 0, alloc_next = replicate SSALLOC_NUM_ALLOCATORS 0,
     free_list = replicate SSALLOC_NUM_ALLOCATORS (replicate 256 0),
     free_cur = replicate SSALLOC_NUM_ALLOCATORS 0, free_num = replicate SSALLOC_NUM_ALLOCATORS 0\<rparr>"

section \<open>Operations\<close>

definition ssalloc_set :: "nat \<Rightarrow> ssalloc_state \<Rightarrow> ssalloc_state" where
  "ssalloc_set mem s = s\<lparr>app_mem := (app_mem s)[0 := mem]\<rparr>"

fun ssalloc_init_loop :: "(nat \<Rightarrow> nat) \<Rightarrow> nat \<Rightarrow> nat \<Rightarrow> ssalloc_state \<Rightarrow> failure + ssalloc_state" where
  "ssalloc_init_loop mem i 0 s = Inr s"
| "ssalloc_init_loop mem i (Suc r) s =
    (if app_mem s ! i = 0
     then let s = s\<lparr>app_mem := (app_mem s)[i := mem i]\<rparr> in
       if app_mem s ! i \<noteq> 0 then ssalloc_init_loop mem (i + 1) r s else Inl Assert_failed
     else ssalloc_init_loop mem (i + 1) r s)"

definition ssalloc_init :: "(nat \<Rightarrow> nat) \<Rightarrow> ssalloc_state \<Rightarrow> failure + ssalloc_state" where
  "ssalloc_init mem s = ssalloc_init_loop mem 0 SSALLOC_NUM_ALLOCATORS s"

definition ssalloc_offset :: "nat \<Rightarrow> ssalloc_state \<Rightarrow> ssalloc_state" where
  "ssalloc_offset sz s = s\<lparr>app_mem := (app_mem s)[0 := add64 (app_mem s ! 0) sz]\<rparr>"

text \<open>The result of an allocation: the pointer, whether the allocator warned, and its state.\<close>

definition ssalloc_alloc :: "nat \<Rightarrow> nat \<Rightarrow> ssalloc_state \<Rightarrow> failure + (nat \<times> bool \<times> ssalloc_state)" where
  "ssalloc_alloc a sz s =
    (if \<not> a < SSALLOC_NUM_ALLOCATORS then Inl Bad_pointer
     else if free_num s ! a > 2 then
       let spot = subm 256 (free_cur s ! a) (free_num s ! a)
       in Inr (free_list s ! a ! spot, False, s\<lparr>free_num := (free_num s)[a := subm 256 (free_num s ! a) 1]\<rparr>)
     else
       let ret = add64 (app_mem s ! a) (alloc_next s ! a); nx = add64 (alloc_next s ! a) sz
       in Inr (ret, nx > SSALLOC_SIZE, s\<lparr>alloc_next := (alloc_next s)[a := nx]\<rparr>))"

definition ssalloc :: "nat \<Rightarrow> ssalloc_state \<Rightarrow> failure + (nat \<times> bool \<times> ssalloc_state)" where
  "ssalloc sz s = ssalloc_alloc 0 sz s"

definition ssalloc_aligned_alloc :: "nat \<Rightarrow> nat \<Rightarrow> nat \<Rightarrow> ssalloc_state \<Rightarrow> failure + (nat \<times> bool \<times> ssalloc_state)" where
  "ssalloc_aligned_alloc a alignement sz s =
    (if \<not> a < SSALLOC_NUM_ALLOCATORS then Inl Bad_pointer
     else
       let ret = add64 (app_mem s ! a) (alloc_next s ! a);
           low = ret AND sub64 alignement 1;
           offset = (if low \<noteq> 0 then sub64 alignement low else 0);
           ret = add64 ret offset;
           nx = add64 (add64 (alloc_next s ! a) offset) sz
       in if (ret AND sub64 alignement 1) \<noteq> 0 then Inl Assert_failed
          else Inr (ret, nx > SSALLOC_SIZE, s\<lparr>alloc_next := (alloc_next s)[a := nx]\<rparr>))"

definition ssalloc_aligned :: "nat \<Rightarrow> nat \<Rightarrow> ssalloc_state \<Rightarrow> failure + (nat \<times> bool \<times> ssalloc_state)" where
  "ssalloc_aligned alignement sz s = ssalloc_aligned_alloc 0 alignement sz s"

definition ssfree_alloc :: "nat \<Rightarrow> nat \<Rightarrow> ssalloc_state \<Rightarrow> failure + ssalloc_state" where
  "ssfree_alloc a ptr s =
    (if \<not> a < SSALLOC_NUM_ALLOCATORS then Inl Bad_pointer
     else Inr (s\<lparr>free_num := (free_num s)[a := addm 256 (free_num s ! a) 1],
            free_list := (free_list s)[a := (free_list s ! a)[free_cur s ! a := ptr]],
            free_cur := (free_cur s)[a := addm 256 (free_cur s ! a) 1]\<rparr>))"

definition ssfree :: "nat \<Rightarrow> ssalloc_state \<Rightarrow> failure + ssalloc_state" where
  "ssfree ptr s = ssfree_alloc 0 ptr s"

section \<open>The ring of freed pointers\<close>

definition shape_ok :: "ssalloc_state \<Rightarrow> bool" where
  "shape_ok s \<longleftrightarrow> length (app_mem s) = SSALLOC_NUM_ALLOCATORS \<and> length (alloc_next s) = SSALLOC_NUM_ALLOCATORS \<and>
     length (free_list s) = SSALLOC_NUM_ALLOCATORS \<and> length (free_cur s) = SSALLOC_NUM_ALLOCATORS \<and>
     length (free_num s) = SSALLOC_NUM_ALLOCATORS \<and>
     (\<forall>a<SSALLOC_NUM_ALLOCATORS. length (free_list s ! a) = 256 \<and> free_cur s ! a < 256 \<and> free_num s ! a < 256)"

text \<open>The pointers waiting, the oldest first.\<close>

definition waiting :: "ssalloc_state \<Rightarrow> nat \<Rightarrow> nat list" where
  "waiting s a = map (\<lambda>k. free_list s ! a ! ((free_cur s ! a + (256 - free_num s ! a) + k) mod 256)) [0..<free_num s ! a]"

lemma waiting_length [simp]: "length (waiting s a) = free_num s ! a"
  by (simp add: waiting_def)

lemma spot_oldest: "n < 256 \<Longrightarrow> subm 256 c n = (c + (256 - n)) mod 256"
  by (simp add: subm_def)

lemma ring_put:
  assumes "length xs = 256" and "c < 256" and "n < 255"
  shows "map (\<lambda>k. xs[c := p] ! (((c + 1) mod 256 + (256 - Suc n) + k) mod 256)) [0..<Suc n] =
    map (\<lambda>k. xs ! ((c + (256 - n) + k) mod 256)) [0..<n] @ [p]"
proof -
  have eq: "((c + 1) mod 256 + (256 - Suc n) + k) mod 256 = (c + (256 - n) + k) mod 256" for k
  proof -
    have "((c + 1) mod 256 + (256 - Suc n) + k) mod 256 = (c + 1 + (256 - Suc n) + k) mod 256"
      by (metis (no_types, lifting) add.assoc mod_add_left_eq)
    moreover have "c + 1 + (256 - Suc n) + k = c + (256 - n) + k" using assms(3) by linarith
    ultimately show ?thesis by (rule trans [OF _ arg_cong [of _ _ "\<lambda>x. x mod 256"]])
  qed
  have old: "xs[c := p] ! ((c + (256 - n) + k) mod 256) = xs ! ((c + (256 - n) + k) mod 256)" if "k < n" for k
  proof -
    have "(c + (256 - n) + k) mod 256 \<noteq> c"
    proof (cases "c + (256 - n) + k < 256")
      case True
      then show ?thesis using that assms by simp
    next
      case False
      then have "(c + (256 - n) + k) mod 256 = c + (256 - n) + k - 256" using that assms by (simp add: le_mod_geq)
      then show ?thesis using False that assms by linarith
    qed
    then show ?thesis by simp
  qed
  have new: "xs[c := p] ! ((c + (256 - n) + n) mod 256) = p" using assms by simp
  show ?thesis unfolding eq using old new by simp
qed

lemma ring_get:
  assumes "0 < n" and "n < 256"
  shows "map (\<lambda>k. xs ! ((c + (256 - (n - 1)) + k) mod 256)) [0..<n - 1] =
    tl (map (\<lambda>k. xs ! ((c + (256 - n) + k) mod 256)) [0..<n])"
  by (rule nth_equalityI) (use assms in \<open>auto simp: nth_tl Suc_diff_Suc algebra_simps\<close>)

lemma shape_ok_at:
  assumes "shape_ok s" and "a < SSALLOC_NUM_ALLOCATORS"
  shows "a < length (app_mem s)" "a < length (alloc_next s)" "a < length (free_list s)" "a < length (free_cur s)"
    "a < length (free_num s)" "length (free_list s ! a) = 256" "free_cur s ! a < 256" "free_num s ! a < 256"
  using assms by (auto simp: shape_ok_def)

lemma alloc_ring:
  assumes ok: "shape_ok s" and a: "a < SSALLOC_NUM_ALLOCATORS"
  shows "\<exists>p w s'. ssalloc_alloc a sz s = Inr (p, w, s') \<and> shape_ok s' \<and>
      (if length (waiting s a) > 2 then waiting s a = p # waiting s' a \<and> alloc_next s' = alloc_next s
       else waiting s' a = waiting s a \<and> p = add64 (app_mem s ! a) (alloc_next s ! a))"
proof (cases "free_num s ! a > 2")
  case True
  let ?n = "free_num s ! a"
  define s' where "s' = s\<lparr>free_num := (free_num s)[a := subm 256 ?n 1]\<rparr>"
  note at = shape_ok_at [OF ok a]
  have n: "subm 256 ?n 1 = ?n - 1" using True at(8) by (simp add: subm_def mod_if)
  have run: "ssalloc_alloc a sz s = Inr (free_list s ! a ! ((free_cur s ! a + (256 - ?n)) mod 256), False, s')"
    using True a at(8) by (simp add: ssalloc_alloc_def s'_def spot_oldest)
  have ok': "shape_ok s'" using ok a at(8) n by (auto simp: shape_ok_def s'_def n nth_list_update)
  have w: "waiting s' a = tl (waiting s a)"
    using ring_get [of ?n "free_list s ! a" "free_cur s ! a"] True at(5,8) n by (simp add: waiting_def s'_def)
  have "hd (waiting s a) = free_list s ! a ! ((free_cur s ! a + (256 - ?n)) mod 256)"
    using True by (simp add: waiting_def hd_map)
  moreover have "waiting s a \<noteq> []" using True by (simp flip: length_greater_0_conv)
  ultimately show ?thesis using run ok' w True by (auto simp: s'_def) (metis hd_Cons_tl)
next
  case False
  then show ?thesis using ok a
    by (auto simp: ssalloc_alloc_def shape_ok_def waiting_def Let_def)
qed

lemma free_ring:
  assumes ok: "shape_ok s" and a: "a < SSALLOC_NUM_ALLOCATORS"
  shows "\<exists>s'. ssfree_alloc a ptr s = Inr s' \<and> shape_ok s' \<and>
      waiting s' a = (if length (waiting s a) < 255 then waiting s a @ [ptr] else [])"
proof -
  let ?n = "free_num s ! a" and ?c = "free_cur s ! a"
  note at = shape_ok_at [OF ok a]
  define s' where "s' = s\<lparr>free_num := (free_num s)[a := addm 256 ?n 1],
    free_list := (free_list s)[a := (free_list s ! a)[?c := ptr]], free_cur := (free_cur s)[a := addm 256 ?c 1]\<rparr>"
  have run: "ssfree_alloc a ptr s = Inr s'" using a by (simp add: ssfree_alloc_def s'_def)
  have ok': "shape_ok s'" using ok a by (auto simp: shape_ok_def s'_def addm_def nth_list_update)
  have "waiting s' a = (if ?n < 255 then waiting s a @ [ptr] else [])"
  proof (cases "?n < 255")
    case True
    then have n: "addm 256 ?n 1 = Suc ?n" by (simp add: addm_def)
    show ?thesis using ring_put [OF at(6,7) True, of ptr] True at(3-5)
      by (simp add: waiting_def s'_def n addm_def del: upt_Suc)
  next
    case False
    then have "?n = 255" using at(8) by simp
    then show ?thesis using at(5) by (simp add: waiting_def s'_def addm_def)
  qed
  then show ?thesis using run ok' by simp
qed

text \<open>
  C36: the ring is a FIFO queue: an allocation takes the pointer freed longest ago if more than two
  are waiting, and otherwise leaves the queue alone; a free appends its pointer as long as less
  than 255 are waiting, and the 256th pointer empties the queue, for the 8-bit count of waiting
  pointers wraps to zero.
\<close>

theorem free_ring_fifo:
  assumes "shape_ok s" and "a < SSALLOC_NUM_ALLOCATORS"
  shows "(\<exists>p w s'. ssalloc_alloc a sz s = Inr (p, w, s') \<and> shape_ok s' \<and>
      (if length (waiting s a) > 2 then waiting s a = p # waiting s' a \<and> alloc_next s' = alloc_next s
       else waiting s' a = waiting s a \<and> p = add64 (app_mem s ! a) (alloc_next s ! a))) \<and>
    (\<exists>s'. ssfree_alloc a ptr s = Inr s' \<and> shape_ok s' \<and>
      waiting s' a = (if length (waiting s a) < 255 then waiting s a @ [ptr] else []))"
  using alloc_ring [OF assms] free_ring [OF assms] by blast

lemma free_ring_fifo_witness:
  "\<exists>p w s'. ssalloc_alloc 0 8 (ssalloc_zero\<lparr>app_mem := [4096, 8192]\<rparr>) = Inr (p, w, s') \<and> p = 4096"
proof -
  have "shape_ok (ssalloc_zero\<lparr>app_mem := [4096, 8192]\<rparr>)"
    by (simp add: shape_ok_def ssalloc_zero_def SSALLOC_NUM_ALLOCATORS_def)
  from free_ring_fifo [OF this, of 0 8 0] show ?thesis
    by (auto simp: SSALLOC_NUM_ALLOCATORS_def ssalloc_zero_def add64_def U64_def)
qed

section \<open>A client\<close>

text \<open>
  A client of allocator \<open>a\<close> asks for blocks of \<open>sz\<close> bytes and frees them again; \<open>live\<close> are the
  blocks it holds. The result tells whether the allocator has warned.
\<close>

datatype request = Request | Request_aligned nat | Release nat

fun client :: "nat \<Rightarrow> nat \<Rightarrow> request list \<Rightarrow> ssalloc_state \<Rightarrow> nat list \<Rightarrow> failure + (bool \<times> ssalloc_state \<times> nat list)" where
  "client a sz [] s live = Inr (False, s, live)"
| "client a sz (Request # rs) s live =
    (case ssalloc_alloc a sz s of Inl e \<Rightarrow> Inl e | Inr (p, w, s') \<Rightarrow>
       (case client a sz rs s' (p # live) of Inl e \<Rightarrow> Inl e | Inr (w', r) \<Rightarrow> Inr (w \<or> w', r)))"
| "client a sz (Request_aligned al # rs) s live =
    (case ssalloc_aligned_alloc a al sz s of Inl e \<Rightarrow> Inl e | Inr (p, w, s') \<Rightarrow>
       (case client a sz rs s' (p # live) of Inl e \<Rightarrow> Inl e | Inr (w', r) \<Rightarrow> Inr (w \<or> w', r)))"
| "client a sz (Release k # rs) s live =
    (if k < length live then
       (case ssfree_alloc a (live ! k) s of Inl e \<Rightarrow> Inl e | Inr s' \<Rightarrow>
         client a sz rs s' (take k live @ drop (Suc k) live))
     else client a sz rs s live)"

definition apart :: "nat \<Rightarrow> nat \<Rightarrow> nat \<Rightarrow> bool" where
  "apart sz p q \<longleftrightarrow> p + sz \<le> q \<or> q + sz \<le> p"

definition blocks_ok :: "nat \<Rightarrow> nat \<Rightarrow> nat list \<Rightarrow> bool" where
  "blocks_ok sz lim xs \<longleftrightarrow> distinct xs \<and> (\<forall>p\<in>set xs. p + sz \<le> lim) \<and> (\<forall>p\<in>set xs. \<forall>q\<in>set xs. p \<noteq> q \<longrightarrow> apart sz p q)"

definition client_ok :: "nat \<Rightarrow> nat \<Rightarrow> ssalloc_state \<Rightarrow> nat list \<Rightarrow> bool" where
  "client_ok a sz s live \<longleftrightarrow> shape_ok s \<and> alloc_next s ! a \<le> SSALLOC_SIZE \<and>
     app_mem s ! a + SSALLOC_SIZE < U64 \<and> (\<forall>p\<in>set (live @ waiting s a). app_mem s ! a \<le> p) \<and>
     blocks_ok sz (app_mem s ! a + alloc_next s ! a) (live @ waiting s a)"

lemma blocks_ok_fresh:
  assumes "blocks_ok sz lim xs" and "lim \<le> p" and "p + sz \<le> lim'" and "0 < sz"
  shows "blocks_ok sz lim' (p # xs)"
proof -
  have below: "q + sz \<le> p" if "q \<in> set xs" for q using assms that by (fastforce simp: blocks_ok_def)
  then have "p \<notin> set xs" using assms(4) by fastforce
  then show ?thesis using assms below by (fastforce simp: blocks_ok_def apart_def)
qed

lemma blocks_ok_subset:
  assumes "blocks_ok sz lim xs" and "set ys \<subseteq> set xs" and "distinct ys"
  shows "blocks_ok sz lim ys"
  using assms unfolding blocks_ok_def by (meson subsetD)

lemma client_ok_request:
  assumes ok: "client_ok a sz s live" and a: "a < SSALLOC_NUM_ALLOCATORS" and sz: "0 < sz" "sz \<le> SSALLOC_SIZE"
    and run: "ssalloc_alloc a sz s = Inr (p, False, s')"
  shows "client_ok a sz s' (p # live) \<and> app_mem s' = app_mem s"
proof (cases "length (waiting s a) > 2")
  case True
  have shape: "shape_ok s" using ok by (simp add: client_ok_def)
  have w: "waiting s a = p # waiting s' a" "alloc_next s' = alloc_next s" and shape': "shape_ok s'"
    using alloc_ring [OF shape a, of sz] run True by auto
  have mem: "app_mem s' = app_mem s" using run True a by (auto simp: ssalloc_alloc_def Let_def)
  have "blocks_ok sz (app_mem s ! a + alloc_next s ! a) ((p # live) @ waiting s' a)"
    by (rule blocks_ok_subset [of _ _ "live @ waiting s a"]) (use ok w in \<open>auto simp: client_ok_def blocks_ok_def\<close>)
  then show ?thesis using ok w shape' mem by (auto simp: client_ok_def)
next
  case False
  have shape: "shape_ok s" using ok by (simp add: client_ok_def)
  have n: "alloc_next s ! a + sz < U64" "app_mem s ! a + alloc_next s ! a < U64"
    using ok sz(2) by (auto simp: client_ok_def SSALLOC_SIZE_def U64_def)
  have s': "s' = s\<lparr>alloc_next := (alloc_next s)[a := alloc_next s ! a + sz]\<rparr>" and p: "p = app_mem s ! a + alloc_next s ! a"
    and le: "alloc_next s ! a + sz \<le> SSALLOC_SIZE"
    using run False a n by (auto simp: ssalloc_alloc_def Let_def add64_eq)
  have w: "waiting s' a = waiting s a" by (simp add: s' waiting_def)
  have "blocks_ok sz (app_mem s ! a + (alloc_next s ! a + sz)) (p # live @ waiting s a)"
    by (rule blocks_ok_fresh [of _ "app_mem s ! a + alloc_next s ! a"]) (use ok p sz in \<open>auto simp: client_ok_def\<close>)
  then show ?thesis using ok w le p shape_ok_at [OF shape a] by (auto simp: client_ok_def s' shape_ok_def)
qed

lemma client_ok_aligned:
  assumes ok: "client_ok a sz s live" and a: "a < SSALLOC_NUM_ALLOCATORS" and sz: "0 < sz" "sz \<le> SSALLOC_SIZE"
    and al: "0 < al" "al \<le> SSALLOC_SIZE"
    and run: "ssalloc_aligned_alloc a al sz s = Inr (p, False, s')"
  shows "client_ok a sz s' (p # live) \<and> app_mem s' = app_mem s"
proof -
  have shape: "shape_ok s" using ok by (simp add: client_ok_def)
  let ?r = "app_mem s ! a + alloc_next s ! a" and ?nx = "alloc_next s ! a"
  have lt: "?r < U64" using ok by (auto simp: client_ok_def)
  define low where "low = ?r AND (al - 1)"
  define off where "off = (if low \<noteq> 0 then al - low else 0)"
  have one: "sub64 al 1 = al - 1" using al by (simp add: sub64_eq SSALLOC_SIZE_def U64_def)
  have "low \<le> al - 1" by (simp add: low_def and_nat_def nat_le_iff)
  then have off: "sub64 al low = al - low" "off \<le> al" using al by (auto simp: off_def sub64_eq SSALLOC_SIZE_def U64_def)
  have sums: "add64 ?nx off = ?nx + off" "add64 (?nx + off) sz = ?nx + off + sz"
    using ok off(2) al sz by (auto simp: client_ok_def SSALLOC_SIZE_def U64_def add64_eq)
  have s': "s' = s\<lparr>alloc_next := (alloc_next s)[a := ?nx + off + sz]\<rparr>" and le: "?nx + off + sz \<le> SSALLOC_SIZE"
    and p: "p = add64 ?r off"
  proof -
    have "ssalloc_aligned_alloc a al sz s = (if (add64 ?r off AND (al - 1)) \<noteq> 0 then Inl Assert_failed
        else Inr (add64 ?r off, ?nx + off + sz > SSALLOC_SIZE, s\<lparr>alloc_next := (alloc_next s)[a := ?nx + off + sz]\<rparr>))"
      unfolding ssalloc_aligned_alloc_def Let_def one add64_eq [OF lt] low_def [symmetric] off(1) off_def [symmetric] sums
      using a by simp
    then show "s' = s\<lparr>alloc_next := (alloc_next s)[a := ?nx + off + sz]\<rparr>" "?nx + off + sz \<le> SSALLOC_SIZE" "p = add64 ?r off"
      using run by (simp_all split: if_splits)
  qed
  have p: "p = ?r + off" using p le ok by (simp add: client_ok_def add64_eq)
  have w: "waiting s' a = waiting s a" by (simp add: s' waiting_def)
  have "blocks_ok sz (app_mem s ! a + (?nx + off + sz)) (p # live @ waiting s a)"
    by (rule blocks_ok_fresh [of _ ?r]) (use ok p sz in \<open>auto simp: client_ok_def\<close>)
  then show ?thesis using ok w le p shape_ok_at [OF shape a] by (auto simp: client_ok_def s' shape_ok_def)
qed

lemma client_ok_release:
  assumes ok: "client_ok a sz s live" and a: "a < SSALLOC_NUM_ALLOCATORS" and k: "k < length live"
    and run: "ssfree_alloc a (live ! k) s = Inr s'"
  shows "client_ok a sz s' (take k live @ drop (Suc k) live) \<and> app_mem s' = app_mem s"
proof -
  have shape: "shape_ok s" using ok by (simp add: client_ok_def)
  have same: "app_mem s' = app_mem s" "alloc_next s' = alloc_next s" using run a by (auto simp: ssfree_alloc_def)
  have w: "waiting s' a = (if length (waiting s a) < 255 then waiting s a @ [live ! k] else [])" and shape': "shape_ok s'"
    using free_ring [OF shape a, of "live ! k"] run by auto
  let ?ys = "(take k live @ drop (Suc k) live) @ waiting s' a"
  have split: "live = take k live @ live ! k # drop (Suc k) live" using k by (simp add: id_take_nth_drop [symmetric])
  have d: "distinct ((take k live @ live ! k # drop (Suc k) live) @ waiting s a)"
    using ok by (simp add: client_ok_def blocks_ok_def flip: split)
  have sub: "set ?ys \<subseteq> set ((take k live @ live ! k # drop (Suc k) live) @ waiting s a)" using w by (auto split: if_splits)
  have sub': "set ?ys \<subseteq> set (live @ waiting s a)" using sub by (simp flip: split)
  have "distinct ?ys" using d w by (auto split: if_splits)
  then have "blocks_ok sz (app_mem s ! a + alloc_next s ! a) ?ys"
    using blocks_ok_subset [OF _ sub'] ok by (simp add: client_ok_def)
  then show ?thesis using ok same shape' sub' unfolding client_ok_def by (metis (no_types, lifting) subsetD)
qed

lemma client_ok_run:
  assumes "client_ok a sz s live" and "a < SSALLOC_NUM_ALLOCATORS" and "0 < sz" and "sz \<le> SSALLOC_SIZE"
    and "\<forall>al. Request_aligned al \<in> set rs \<longrightarrow> 0 < al \<and> al \<le> SSALLOC_SIZE"
    and "client a sz rs s live = Inr (False, s', live')"
  shows "client_ok a sz s' live' \<and> app_mem s' = app_mem s"
  using assms
proof (induction a sz rs s live rule: client.induct)
  case (2 a sz rs s live)
  obtain p warn s1 where A: "ssalloc_alloc a sz s = Inr (p, warn, s1)"
    using 2(7) by (cases "ssalloc_alloc a sz s") auto
  have run: "\<not> warn" "client a sz rs s1 (p # live) = Inr (False, s', live')"
    using 2(7) unfolding client.simps A by (auto split: sum.splits)
  have ok: "client_ok a sz s1 (p # live)" "app_mem s1 = app_mem s"
    using client_ok_request [OF 2(2-5), of p s1] A run(1) by simp_all
  have "client_ok a sz s' live' \<and> app_mem s' = app_mem s1"
    by (rule 2(1) [OF A refl refl ok(1) 2(3-5) _ run(2)]) (use 2(6) in simp)
  then show ?case using ok(2) by simp
next
  case (3 a sz al rs s live)
  obtain p warn s1 where A: "ssalloc_aligned_alloc a al sz s = Inr (p, warn, s1)"
    using 3(7) by (cases "ssalloc_aligned_alloc a al sz s") auto
  have run: "\<not> warn" "client a sz rs s1 (p # live) = Inr (False, s', live')"
    using 3(7) unfolding client.simps A by (auto split: sum.splits)
  have al: "0 < al" "al \<le> SSALLOC_SIZE" using 3(6) by simp_all
  have ok: "client_ok a sz s1 (p # live)" "app_mem s1 = app_mem s"
    using client_ok_aligned [OF 3(2-5) al, of p s1] A run(1) by simp_all
  have "client_ok a sz s' live' \<and> app_mem s' = app_mem s1"
    by (rule 3(1) [OF A refl refl ok(1) 3(3-5) _ run(2)]) (use 3(6) in simp)
  then show ?case using ok(2) by simp
next
  case (4 a sz k rs s live)
  show ?case
  proof (cases "k < length live")
    case True
    then obtain s1 where run: "ssfree_alloc a (live ! k) s = Inr s1"
      "client a sz rs s1 (take k live @ drop (Suc k) live) = Inr (False, s', live')"
      using 4(8) True by (auto split: sum.splits)
    have ok: "client_ok a sz s1 (take k live @ drop (Suc k) live)" "app_mem s1 = app_mem s"
      using client_ok_release [OF 4(3,4) True run(1)] by simp_all
    have "client_ok a sz s' live' \<and> app_mem s' = app_mem s1"
      by (rule 4(1) [OF True run(1) ok(1) 4(4-6) _ run(2)]) (use 4(7) in simp)
    then show ?thesis using ok(2) by simp
  next
    case False
    show ?thesis by (rule 4(2) [OF False 4(3-6)]) (use 4(7,8) False in simp_all)
  qed
qed simp

text \<open>
  C35: a thread that uses an allocator for blocks of one size, aligned or not, never holds two
  blocks that overlap, and all its blocks lie in the region \<open>memalign\<close> returned, as long as the
  allocator has not warned, in whatever order it asks for blocks and frees them, and also when
  the ring of freed pointers overflows.
\<close>

theorem ssalloc_blocks_apart:
  assumes "ssalloc_init mem ssalloc_zero = Inr s" and "a < SSALLOC_NUM_ALLOCATORS"
    and "mem a + SSALLOC_SIZE < U64" and "0 < sz" and "sz \<le> SSALLOC_SIZE"
    and "\<forall>al. Request_aligned al \<in> set rs \<longrightarrow> 0 < al \<and> al \<le> SSALLOC_SIZE"
    and "client a sz rs s [] = Inr (False, s', live)"
  shows "distinct live \<and> (\<forall>p\<in>set live. mem a \<le> p \<and> p + sz \<le> mem a + SSALLOC_SIZE) \<and>
    (\<forall>p\<in>set live. \<forall>q\<in>set live. p \<noteq> q \<longrightarrow> {p..<p + sz} \<inter> {q..<q + sz} = {})"
proof -
  have s: "s = ssalloc_zero\<lparr>app_mem := [mem 0, mem 1]\<rparr>" using assms(1)
    by (auto simp: ssalloc_init_def ssalloc_zero_def SSALLOC_NUM_ALLOCATORS_def numeral_2_eq_2 Let_def split: if_splits)
  have mem: "app_mem s ! a = mem a" using assms(2) by (auto simp: s SSALLOC_NUM_ALLOCATORS_def less_2_cases_iff)
  have shape: "shape_ok s"
    unfolding s shape_ok_def ssalloc_zero_def SSALLOC_NUM_ALLOCATORS_def by (simp del: replicate.simps)
  have zero: "free_num s ! a = 0" "alloc_next s ! a = 0"
    using assms(2) by (simp_all add: s ssalloc_zero_def del: replicate.simps)
  have "client_ok a sz s []" using shape zero assms(3) mem by (simp add: client_ok_def waiting_def blocks_ok_def)
  then have ok: "client_ok a sz s' live" "app_mem s' ! a = mem a" using client_ok_run [OF _ assms(2,4-7)] mem by auto
  have "alloc_next s' ! a \<le> SSALLOC_SIZE" "distinct live" "\<forall>p\<in>set live. mem a \<le> p"
    "\<forall>p\<in>set live. p + sz \<le> mem a + alloc_next s' ! a"
    "\<forall>p\<in>set live. \<forall>q\<in>set live. p \<noteq> q \<longrightarrow> apart sz p q"
    using ok by (simp_all add: client_ok_def blocks_ok_def)
  moreover have "{p..<p + sz} \<inter> {q..<q + sz} = {}" if "apart sz p q" for p q
    using that by (auto simp: apart_def)
  ultimately show ?thesis by fastforce
qed

lemma ssalloc_blocks_apart_witness:
  "\<exists>s live. client 0 24 [Request, Request, Release 0, Request_aligned 64, Request]
      (ssalloc_zero\<lparr>app_mem := [4096, 8192]\<rparr>) [] = Inr (False, s, live) \<and> live = [4184, 4160, 4096] \<and>
      (\<forall>p\<in>set live. 4096 \<le> p \<and> p + 24 \<le> 4096 + SSALLOC_SIZE)"
proof -
  let ?s = "ssalloc_zero\<lparr>app_mem := [4096, 8192]\<rparr>"
  have i: "ssalloc_init (\<lambda>i. 4096 * (i + 1)) ssalloc_zero = Inr ?s"
    by (simp add: ssalloc_init_def ssalloc_zero_def SSALLOC_NUM_ALLOCATORS_def numeral_2_eq_2 Let_def)
  have and64: "(4144::nat) AND 63 = 48" "(4160::nat) AND 63 = 0" by simp_all
  have step: "ssalloc_alloc 0 24 \<lparr>app_mem = [4096, m], alloc_next = [x, y], free_list = f, free_cur = g, free_num = [c, e]\<rparr> =
      Inr (4096 + x, False, \<lparr>app_mem = [4096, m], alloc_next = [x + 24, y], free_list = f, free_cur = g, free_num = [c, e]\<rparr>)"
    if "c \<le> 2" "x < 1000" for x y m f g c e
    using that by (simp add: ssalloc_alloc_def SSALLOC_NUM_ALLOCATORS_def SSALLOC_SIZE_def add64_def U64_def)
  have aligned: "ssalloc_aligned_alloc 0 64 24 \<lparr>app_mem = [4096, m], alloc_next = [48, y], free_list = f, free_cur = g, free_num = n\<rparr> =
      Inr (4160, False, \<lparr>app_mem = [4096, m], alloc_next = [88, y], free_list = f, free_cur = g, free_num = n\<rparr>)"
    for y m f g n
    by (simp add: ssalloc_aligned_alloc_def SSALLOC_NUM_ALLOCATORS_def SSALLOC_SIZE_def add64_def sub64_def U64_def and64)
  have free: "\<exists>f' g'. ssfree_alloc 0 p \<lparr>app_mem = b, alloc_next = x, free_list = f, free_cur = g, free_num = [0, e]\<rparr> =
      Inr \<lparr>app_mem = b, alloc_next = x, free_list = f', free_cur = g', free_num = [1, e]\<rparr>" for p b x f g e
    by (simp add: ssfree_alloc_def SSALLOC_NUM_ALLOCATORS_def addm_def)
  have start: "?s = \<lparr>app_mem = [4096, 8192], alloc_next = [0, 0], free_list = free_list ssalloc_zero,
      free_cur = free_cur ssalloc_zero, free_num = [0, 0]\<rparr>"
    by (simp add: ssalloc_zero_def SSALLOC_NUM_ALLOCATORS_def numeral_2_eq_2)
  obtain f g where fg: "ssfree_alloc 0 4120 \<lparr>app_mem = [4096, 8192], alloc_next = [48, 0], free_list = free_list ssalloc_zero,
      free_cur = free_cur ssalloc_zero, free_num = [0, 0]\<rparr> =
    Inr \<lparr>app_mem = [4096, 8192], alloc_next = [48, 0], free_list = f, free_cur = g, free_num = [1, 0]\<rparr>"
    using free by blast
  have run: "\<exists>s. client 0 24 [Request, Request, Release 0, Request_aligned 64, Request] ?s [] = Inr (False, s, [4184, 4160, 4096])"
    unfolding start by (simp add: step aligned fg)
  then obtain s where s: "client 0 24 [Request, Request, Release 0, Request_aligned 64, Request] ?s [] = Inr (False, s, [4184, 4160, 4096])"
    by blast
  from ssalloc_blocks_apart [OF i _ _ _ _ _ s] have "\<forall>p\<in>set [4184, 4160, 4096]. 4096 \<le> p \<and> p + 24 \<le> 4096 + SSALLOC_SIZE"
    by (simp add: SSALLOC_NUM_ALLOCATORS_def SSALLOC_SIZE_def U64_def)
  with s show ?thesis by blast
qed

end
