(* ===== verification/Window_2Dd_Opt.thy ===== *)
theory Window_2Dd_Opt
  imports Queue_2Dd
begin

text \<open>
  The window of the optimised 2Dd queue, \<open>src/2Dd-queue_optimized/2Dd-window_optimized.c\<close>. It
  differs from the shared template in what a search reads: a thread keeps its own copies of the
  width and the depth, there is one loop with a single place where the window is read, after a
  shift the new window is known without another read, and \<open>get_window\<close> does not look at the
  put count of a sub-queue as long as the put window is known to be ahead of the get window.
  There are separate indices for puts and gets, which agree between searches: \<open>thread_index\<close> of
  the record is \<open>thread_put_index\<close>. The widths, indices and hop counts are 16 bits wide.

  The facts are stated once for every structure that satisfies the contract \<open>window_counts\<close>.
\<close>

section \<open>State and operations\<close>

record thread_opt = thread_queue +
  thread_get_index :: nat
  thread_depth :: nat
  thread_width :: nat

abbreviation thread_put_index :: "thread_opt \<Rightarrow> nat" where
  "thread_put_index \<equiv> thread_index"

definition random_index_opt :: "nat \<Rightarrow> thread_opt \<Rightarrow> (nat \<Rightarrow> thread_opt \<Rightarrow> ('s, 'a) prog) \<Rightarrow> ('s, 'a) prog" where
  "random_index_opt w l k = draw w l k"

definition hop_opt :: "('s, 'x, 'y) dset \<Rightarrow> nat \<Rightarrow> nat \<Rightarrow> nat \<Rightarrow> nat \<Rightarrow> thread_opt \<Rightarrow>
    (nat \<Rightarrow> nat \<Rightarrow> nat \<Rightarrow> thread_opt \<Rightarrow> ('s, 'a) prog) \<Rightarrow> ('s, 'a) prog" where
  "hop_opt D index random hops w l k = (let l = count_hop l in
     if random < random_hops D then random_index_opt w l (\<lambda>index l. k index (addm U16 random 1) hops l)
     else
       let hops = addm U16 hops 1; index = addm U16 index 1
       in k (if w \<le> index then 0 else index) random hops l)"

fun put_window_opt_loop :: "('z window_scheme, 'x, 'y) dset \<Rightarrow> nat \<Rightarrow> nat \<Rightarrow> nat \<Rightarrow> thread_opt \<Rightarrow>
    (('x, 'y) dword \<Rightarrow> thread_opt \<Rightarrow> ('z window_scheme, 'a) prog) \<Rightarrow> ('z window_scheme, 'a) prog" where
  "put_window_opt_loop D 0 hops random l k = Stop No_fuel"
| "put_window_opt_loop D (Suc n) hops random l k =
     checked (\<lambda>s. thread_put_index l < length (put_array D s))
     (load2 (\<lambda>s. put_array D s ! thread_put_index l) (\<lambda>descriptor.
      load global_PWindow (\<lambda>gmax.
      if thread_PWindow l \<noteq> gmax then put_window_opt_loop D n 0 random (l\<lparr>thread_PWindow := gmax\<rparr>) k
      else if put_count D descriptor < thread_PWindow l then
        k descriptor (l\<lparr>thread_get_index := thread_put_index l\<rparr>)
      else if hops < thread_width l then
        hop_opt D (thread_put_index l) random hops (thread_width l) l (\<lambda>index random hops l.
        put_window_opt_loop D n hops random (l\<lparr>thread_index := index\<rparr>) k)
      else
        load global_PWindow (\<lambda>g.
        if thread_PWindow l = g then
          (let new = add64 (thread_PWindow l) (thread_depth l) in
           cae global_PWindow (\<lambda>v s. s\<lparr>global_PWindow := v\<rparr>) (thread_PWindow l) new (\<lambda>ok v.
           if ok then put_window_opt_loop D n 0 random ((count_slide l)\<lparr>thread_PWindow := new\<rparr>) k
           else put_window_opt_loop D n 0 random (l\<lparr>thread_PWindow := v\<rparr>) k))
        else put_window_opt_loop D n 0 random l k))))"

definition put_window_opt :: "('z window_scheme, 'x, 'y) dset \<Rightarrow> nat \<Rightarrow> bool \<Rightarrow> thread_opt \<Rightarrow>
    (('x, 'y) dword \<Rightarrow> thread_opt \<Rightarrow> ('z window_scheme, 'a) prog) \<Rightarrow> ('z window_scheme, 'a) prog" where
  "put_window_opt D n contention l k =
    (let search = (\<lambda>l. load global_PWindow (\<lambda>g. put_window_opt_loop D n 0 0 (l\<lparr>thread_PWindow := g\<rparr>) k))
     in if contention then random_index_opt (thread_width l) l (\<lambda>index l. search (l\<lparr>thread_index := index\<rparr>))
        else search l)"

text \<open>The put count of the sub-queue at the get index, or a lower bound of it from the windows.\<close>

definition put_count_opt :: "('z window_scheme, 'x, 'y) dset \<Rightarrow> thread_opt \<Rightarrow> (nat \<Rightarrow> ('z window_scheme, 'a) prog) \<Rightarrow>
    ('z window_scheme, 'a) prog" where
  "put_count_opt D l k =
     (if thread_GWindow l < thread_PWindow l then k (sub64 (thread_PWindow l) (thread_depth l))
      else checked (\<lambda>s. thread_get_index l < length (put_array D s))
        (load (\<lambda>s. put_count D (put_array D s ! thread_get_index l)) k))"

text \<open>Shifting the get window, after which the search starts again.\<close>

definition shift_get_opt :: "('z window_scheme, 'x, 'y) dset \<Rightarrow> thread_opt \<Rightarrow> (thread_opt \<Rightarrow> ('z window_scheme, 'a) prog) \<Rightarrow>
    ('z window_scheme, 'a) prog" where
  "shift_get_opt D l k = (let new = add64 (thread_GWindow l) (thread_depth l) in
     load global_GWindow (\<lambda>g.
     if thread_GWindow l = g then
       cae global_GWindow (\<lambda>v s. s\<lparr>global_GWindow := v\<rparr>) (thread_GWindow l) new (\<lambda>ok v.
       if ok then k ((count_slide l)\<lparr>thread_GWindow := new\<rparr>) else k (l\<lparr>thread_GWindow := v\<rparr>))
     else k l))"

fun get_window_opt_loop :: "('z window_scheme, 'x, 'y) dset \<Rightarrow> nat \<Rightarrow> nat \<Rightarrow> nat \<Rightarrow> bool \<Rightarrow> thread_opt \<Rightarrow>
    (('x, 'y) dword \<Rightarrow> thread_opt \<Rightarrow> ('z window_scheme, 'a) prog) \<Rightarrow> ('z window_scheme, 'a) prog" where
  "get_window_opt_loop D 0 hops random notempty l k = Stop No_fuel"
| "get_window_opt_loop D (Suc n) hops random notempty l k =
     checked (\<lambda>s. thread_get_index l < length (get_array D s))
     (load2 (\<lambda>s. get_array D s ! thread_get_index l) (\<lambda>descriptor.
      put_count_opt D l (\<lambda>pcount.
      load global_GWindow (\<lambda>gmax.
      let finish = k descriptor (l\<lparr>thread_index := thread_get_index l\<rparr>) in
      if thread_GWindow l \<noteq> gmax then get_window_opt_loop D n 0 random False (l\<lparr>thread_GWindow := gmax\<rparr>) k
      else if get_count D descriptor < thread_GWindow l \<and> get_count D descriptor < pcount then finish
      else if hops \<noteq> thread_width l then
        let notempty = (notempty \<or> get_count D descriptor < pcount) in
        hop_opt D (thread_get_index l) random hops (thread_width l) l (\<lambda>index random hops l.
        get_window_opt_loop D n hops random notempty (l\<lparr>thread_get_index := index\<rparr>) k)
      else if notempty then shift_get_opt D l (\<lambda>l. get_window_opt_loop D n 0 random False l k)
      else load global_PWindow (\<lambda>g.
        if thread_GWindow l \<noteq> g then shift_get_opt D l (\<lambda>l. get_window_opt_loop D n 0 random False l k)
        else finish)))))"

definition get_window_opt :: "('z window_scheme, 'x, 'y) dset \<Rightarrow> nat \<Rightarrow> bool \<Rightarrow> thread_opt \<Rightarrow>
    (('x, 'y) dword \<Rightarrow> thread_opt \<Rightarrow> ('z window_scheme, 'a) prog) \<Rightarrow> ('z window_scheme, 'a) prog" where
  "get_window_opt D n contention l k =
    (let search = (\<lambda>l. load global_GWindow (\<lambda>g. get_window_opt_loop D n 0 0 False (l\<lparr>thread_GWindow := g\<rparr>) k))
     in if contention then random_index_opt (thread_width l) l (\<lambda>index l. search (l\<lparr>thread_get_index := index\<rparr>))
        else search l)"

text \<open>\<open>initialize_global_window\<close> asserts that the depth is not zero.\<close>

definition initialize_global_window_opt :: "nat \<Rightarrow> nat \<Rightarrow> 'z window_scheme \<Rightarrow> failure + 'z window_scheme" where
  "initialize_global_window_opt d w s =
     (if d = 0 then Inl Assert_failed else Inr (s\<lparr>global_PWindow := d, global_GWindow := d\<rparr>))"

section \<open>Hops\<close>

definition kept_opt :: "nat \<Rightarrow> nat \<Rightarrow> thread_opt \<Rightarrow> thread_opt \<Rightarrow> bool" where
  "kept_opt w d l l' \<longleftrightarrow> thread_id l' = thread_id l \<and> alloc_next l' = alloc_next l \<and> thread_width l' = w \<and> thread_depth l' = d"

lemma count_opt_simps [simp]:
  "thread_PWindow (count_hop l) = thread_PWindow l" "thread_GWindow (count_hop l) = thread_GWindow l"
  "thread_PWindow (count_slide l) = thread_PWindow l" "thread_GWindow (count_slide l) = thread_GWindow l"
  for l :: thread_opt
  by (simp_all add: count_hop_def count_slide_def)

lemma count_opt_ext [simp]:
  "thread_get_index (count_hop l) = thread_get_index l" "thread_get_index (count_slide l) = thread_get_index l"
  "kept_opt w d l0 (count_hop l) = kept_opt w d l0 l" "kept_opt w d l0 (count_slide l) = kept_opt w d l0 l"
  by (simp_all add: count_hop_def count_slide_def kept_opt_def)

lemma kept_opt_updates [simp]:
  "kept_opt w d l0 (l\<lparr>thread_index := a\<rparr>) = kept_opt w d l0 l" "kept_opt w d l0 (l\<lparr>thread_get_index := a\<rparr>) = kept_opt w d l0 l"
  "kept_opt w d l0 (l\<lparr>thread_PWindow := a\<rparr>) = kept_opt w d l0 l" "kept_opt w d l0 (l\<lparr>thread_GWindow := a\<rparr>) = kept_opt w d l0 l"
  "kept_opt w d l0 (l\<lparr>seeds := sd\<rparr>) = kept_opt w d l0 l"
  by (simp_all add: kept_opt_def)

lemma hop_opt_cases:
  assumes w: "0 < w" "w < U16" and i: "index < w" and hops: "hops < w" and r: "0 < hops \<longrightarrow> random_hops D \<le> random"
    and c: "cleared w index hops P" and p: "P index"
    and k: "\<And>index' random' hops' sd. index' < w \<Longrightarrow> hops' \<le> w \<Longrightarrow> (0 < hops' \<longrightarrow> random_hops D \<le> random') \<Longrightarrow>
      cleared w index' hops' P \<Longrightarrow> R (k index' random' hops' ((count_hop l)\<lparr>seeds := sd\<rparr>))"
  shows "R (hop_opt D index random hops w l k)"
proof (cases "random < random_hops D")
  case True
  then have h: "hops = 0" using r by auto
  show ?thesis
    unfolding hop_opt_def Let_def if_P [OF True] random_index_opt_def
    by (rule draw_cases [OF w(1)], rule k) (use h in simp_all)
next
  case False
  have eq: "addm U16 hops 1 = Suc hops" "addm U16 index 1 = index + 1"
    using hops i w by (simp_all add: addm_def)
  have same: "(count_hop l)\<lparr>seeds := seeds (count_hop l)\<rparr> = count_hop l" by (simp del: count_simps)
  have "R (k (if w \<le> index + 1 then 0 else index + 1) random (Suc hops) (count_hop l))"
    by (subst same [symmetric], rule k) (use i hops False cleared_Suc [OF c p i hops] in auto)
  then show ?thesis unfolding hop_opt_def Let_def if_not_P [OF False] eq .
qed

section \<open>put\_window\<close>

context window_counts begin

abbreviation safe_counts where
  "safe_counts i Q \<equiv> safe A T (lin_rely J ord i) (lin_guar J grd opss i) Q"

definition put_opt :: "thread_opt \<Rightarrow> nat \<Rightarrow> nat \<Rightarrow> thread_opt \<Rightarrow> 'z window_scheme \<Rightarrow> bool" where
  "put_opt l0 hops random l s \<longleftrightarrow> thread_put_index l < width D \<and> hops \<le> width D \<and>
     (0 < hops \<longrightarrow> random_hops D \<le> random) \<and> thread_PWindow l \<le> global_PWindow s \<and>
     thread_GWindow l = thread_GWindow l0 \<and> kept_opt (width D) (depth D) l0 l \<and>
     cleared (width D) (thread_put_index l) hops (\<lambda>j. thread_PWindow l \<le> puts s j)"

lemma put_opt_stable:
  assumes l: "put_opt l0 hops random l s" and J: "J (s, H)" "J (t, H')" and o: "ord i s t"
  shows "put_opt l0 hops random l t"
proof -
  have "cleared (width D) (thread_put_index l) hops (\<lambda>j. thread_PWindow l \<le> puts t j)"
    by (rule cleared_mono [where P = "\<lambda>j. thread_PWindow l \<le> puts s j"])
      (use l width_ok [OF J(1)] ord_puts [OF o J] in \<open>auto simp: put_opt_def intro: le_trans\<close>)
  then show ?thesis using l ord_PWindow [OF o] by (auto simp: put_opt_def)
qed

text \<open>Synchronising with the window, which forgets what the search has cleared.\<close>

lemma put_opt_sync:
  "put_opt l0 hops random l s \<Longrightarrow> g \<le> global_PWindow t \<Longrightarrow> put_opt l0 0 random (l\<lparr>thread_PWindow := g\<rparr>) t"
  by (simp add: put_opt_def)

lemma put_opt_shift_safe:
  assumes J: "J (t, H)" and l: "put_opt l0 (width D) random l t"
    and F: "\<And>u H' l1. J (u, H') \<Longrightarrow> ord i t u \<Longrightarrow> hist_rely i H H' \<Longrightarrow> put_opt l0 0 random l1 u \<Longrightarrow> safe_counts i Q (F l1) (u, H')"
  shows "safe_counts i Q
    (load global_PWindow (\<lambda>g. if thread_PWindow l = g then
       (let new = add64 (thread_PWindow l) (thread_depth l) in
        cae global_PWindow (\<lambda>v s. s\<lparr>global_PWindow := v\<rparr>) (thread_PWindow l) new (\<lambda>ok v.
        if ok then F ((count_slide l)\<lparr>thread_PWindow := new\<rparr>) else F (l\<lparr>thread_PWindow := v\<rparr>)))
      else F l)) (t, H)"
proof (rule lin_load, rule J, rule grd_refl)
  fix u H' assume u: "J (u, H')" "ord i t u" "hist_rely i H H'"
  have lu: "put_opt l0 0 random l u" using put_opt_stable [OF l J u(1,2)] by (simp add: put_opt_def)
  have dep: "thread_depth l = depth D" using l by (simp add: put_opt_def kept_opt_def)
  let ?new = "add64 (thread_PWindow l) (thread_depth l)"
  let ?cae = "cae global_PWindow (\<lambda>v s. s\<lparr>global_PWindow := v\<rparr>) (thread_PWindow l) ?new (\<lambda>ok v.
        if ok then F ((count_slide l)\<lparr>thread_PWindow := ?new\<rparr>) else F (l\<lparr>thread_PWindow := v\<rparr>))"
  have "safe_counts i Q ?cae (u, H')"
  proof (rule lin_cae, rule u, rule grd_refl)
    fix v K assume v: "J (v, K)" "ord i u v" "hist_rely i H' K" and A: "A v"
    have o: "ord i t v" "hist_rely i H K"
      using ord_trans [OF u(2) v(2)] hist_rely_trans [OF u(3) v(3)] by auto
    { assume eq: "global_PWindow v = thread_PWindow l"
      have "put_opt l0 (width D) random l v" by (rule put_opt_stable [OF l J v(1) o(1)])
      then have all: "global_PWindow v \<le> puts v j" if "j < width D" for j
        using cleared_all [OF _ _ that] unfolding put_opt_def eq by blast
      have new: "?new = global_PWindow v + depth D" using no_wrap [OF A] eq dep by (simp add: add64_eq)
      let ?v = "v\<lparr>global_PWindow := global_PWindow v + depth D\<rparr>"
      have s: "J (?v, K)" "grd i v ?v" "ord i v ?v"
        using put_shift [OF v(1) A counts_ok_Put_shift [OF counts [OF v(1)] all]] by auto
      have "safe_counts i Q (F ((count_slide l)\<lparr>thread_PWindow := global_PWindow v + depth D\<rparr>)) (?v, K)"
        by (rule F [OF s(1) ord_trans [OF o(1) s(3)] o(2)]) (use lu in \<open>simp add: put_opt_def\<close>)
      then show "\<exists>X. hist_step opss i K (K @ X) \<and> J (v\<lparr>global_PWindow := ?new\<rparr>, K @ X) \<and> grd i v (v\<lparr>global_PWindow := ?new\<rparr>) \<and>
          safe_counts i Q (if True then F ((count_slide l)\<lparr>thread_PWindow := ?new\<rparr>) else F (l\<lparr>thread_PWindow := thread_PWindow l\<rparr>))
            (v\<lparr>global_PWindow := ?new\<rparr>, K @ X)"
        using s unfolding new by (intro exI [of _ "[]"]) simp }
    show "safe_counts i Q (if False then F ((count_slide l)\<lparr>thread_PWindow := ?new\<rparr>) else F (l\<lparr>thread_PWindow := global_PWindow v\<rparr>)) (v, K)"
      using F [OF v(1) o put_opt_sync [OF lu]] by simp
  qed
  then show "safe_counts i Q (if thread_PWindow l = global_PWindow u then
        (let new = add64 (thread_PWindow l) (thread_depth l) in
          cae global_PWindow (\<lambda>v s. s\<lparr>global_PWindow := v\<rparr>) (thread_PWindow l) new (\<lambda>ok v.
          if ok then F ((count_slide l)\<lparr>thread_PWindow := new\<rparr>) else F (l\<lparr>thread_PWindow := v\<rparr>)))
       else F l) (u, H')"
    using F [OF u lu] unfolding Let_def by (simp only: split: if_split) blast
qed

lemma put_window_opt_loop_safe:
  assumes "J (s, H)" and "put_opt l0 hops random l s" and w16: "width D < U16"
    and k: "\<And>t H' d l'. J (t, H') \<Longrightarrow> ord i s0 t \<Longrightarrow> hist_rely i H0 H' \<Longrightarrow> thread_put_index l' < width D \<Longrightarrow>
      thread_get_index l' = thread_put_index l' \<Longrightarrow> kept_opt (width D) (depth D) l0 l' \<Longrightarrow>
      thread_GWindow l' = thread_GWindow l0 \<Longrightarrow> kept (thread_put_index l') d t \<Longrightarrow> put_count D d < thread_PWindow l' \<Longrightarrow>
      thread_PWindow l' = global_PWindow t \<Longrightarrow> safe_counts i Q (k d l') (t, H')"
    and "ord i s0 s" and "hist_rely i H0 H"
  shows "safe_counts i Q (put_window_opt_loop D n hops random l k) (s, H)"
  using assms(1,2,5,6)
proof (induction n arbitrary: s H hops random l)
  case 0
  then show ?case using fuel by simp
next
  case (Suc n)
  note J = Suc.prems(1) and local = Suc.prems(2)
  have idx: "thread_put_index l < width D" and keep: "kept_opt (width D) (depth D) l0 l"
    using local by (simp_all add: put_opt_def)
  have w: "thread_width l = width D" using keep by (simp add: kept_opt_def)
  have later: "ord i s0 t" "hist_rely i H0 H'" if "ord i s t" "hist_rely i H H'" for t H'
    using ord_trans [OF Suc.prems(3) that(1)] hist_rely_trans [OF Suc.prems(4) that(2)] by auto
  have arr: "thread_put_index l < length (put_array D t)" if "J (t, H')" for t H'
    using put_length [OF that] idx by simp
  show ?case
    unfolding put_window_opt_loop.simps load2_def
    apply (rule lin_checked, rule J, rule arr, assumption)
    apply (rule lin_load, rule J, rule grd_refl)
    subgoal premises p1 for t1 H1
      apply (rule lin_load, rule p1, rule grd_refl)
      subgoal premises p2 for t2 H2
        apply (rule lin_load, rule p2, rule grd_refl)
        subgoal premises p3 for t3 H3
        proof -
          let ?d = "DW (lo (put_array D t1 ! thread_put_index l)) (hi (put_array D t2 ! thread_put_index l))"
          have o2: "ord i s t2" "hist_rely i H H2"
            using ord_trans [OF p1(2) p2(2)] hist_rely_trans [OF p1(3) p2(3)] by auto
          have o: "ord i s t3" "hist_rely i H H3"
            using ord_trans [OF o2(1) p3(2)] hist_rely_trans [OF o2(2) p3(3)] by auto
          have here: "put_opt l0 hops random l t3" using put_opt_stable [OF local J p3(1) o(1)] .
          have seen: "kept (thread_put_index l) ?d t3"
            using kept_stable [OF kept_load [OF p1(1) p2(1,2) idx] p2(1) p3(1,2)] .
          have "put_count D ?d = puts t2 (thread_put_index l)"
            using put_count_puts [OF p2(1) idx] put.put_count_read [of ?d t2 "thread_put_index l"] by simp
          then have cnt: "put_count D ?d \<le> puts t3 (thread_put_index l)" using ord_puts [OF p3(2) p2(1) p3(1) idx] by simp
          consider (sync) "thread_PWindow l \<noteq> global_PWindow t3"
            | (valid) "thread_PWindow l = global_PWindow t3" "put_count D ?d < thread_PWindow l"
            | (hop) "thread_PWindow l = global_PWindow t3" "\<not> put_count D ?d < thread_PWindow l" "hops < thread_width l"
            | (shift) "thread_PWindow l = global_PWindow t3" "\<not> put_count D ?d < thread_PWindow l" "\<not> hops < thread_width l"
            by blast
          then show ?thesis
          proof cases
            case sync
            then show ?thesis using Suc.IH [OF p3(1) put_opt_sync [OF here order_refl] later [OF o]] by simp
          next
            case valid
            have "safe_counts i Q (k ?d (l\<lparr>thread_get_index := thread_put_index l\<rparr>)) (t3, H3)"
              by (rule k) (use p3 later [OF o] idx keep local seen valid in \<open>simp_all add: put_opt_def\<close>)
            then show ?thesis using valid by simp
          next
            case hop
            have "safe_counts i Q (hop_opt D (thread_put_index l) random hops (width D) l (\<lambda>index random hops l.
                put_window_opt_loop D n hops random (l\<lparr>thread_index := index\<rparr>) k)) (t3, H3)"
            proof (rule hop_opt_cases [where P = "\<lambda>j. thread_PWindow l \<le> puts t3 j"])
              fix index' random' hops' sd
              assume "index' < width D" "hops' \<le> width D" "0 < hops' \<longrightarrow> random_hops D \<le> random'"
                "cleared (width D) index' hops' (\<lambda>j. thread_PWindow l \<le> puts t3 j)"
              then have "put_opt l0 hops' random' ((count_hop l)\<lparr>seeds := sd, thread_index := index'\<rparr>) t3"
                using here by (simp add: put_opt_def)
              then show "safe_counts i Q (put_window_opt_loop D n hops' random' ((count_hop l)\<lparr>seeds := sd, thread_index := index'\<rparr>) k) (t3, H3)"
                by (rule Suc.IH [OF p3(1) _ later [OF o]])
            qed (use here hop cnt w w16 in \<open>auto simp: put_opt_def\<close>)
            then show ?thesis using hop w by simp
          next
            case shift
            then have "hops = width D" using here w by (simp add: put_opt_def)
            then have l: "put_opt l0 (width D) random l t3" using here by simp
            have fin: "safe_counts i Q (put_window_opt_loop D n 0 random l1 k) (u, H')"
              if "J (u, H')" "ord i t3 u" "hist_rely i H3 H'" "put_opt l0 0 random l1 u" for u H' l1
              by (rule Suc.IH [OF that(1,4) later [OF ord_trans [OF o(1) that(2)] hist_rely_trans [OF o(2) that(3)]]])
            show ?thesis using put_opt_shift_safe [OF p3(1) l fin] shift by simp
          qed
        qed
        done
      done
    done
qed

lemma put_window_opt_safe:
  assumes J: "J (s, H)" and l: "thread_put_index l < width D" "kept_opt (width D) (depth D) l l" and w16: "width D < U16"
    and k: "\<And>t H' d l'. J (t, H') \<Longrightarrow> ord i s t \<Longrightarrow> hist_rely i H H' \<Longrightarrow> thread_put_index l' < width D \<Longrightarrow>
      thread_get_index l' = thread_put_index l' \<Longrightarrow> kept_opt (width D) (depth D) l l' \<Longrightarrow>
      thread_GWindow l' = thread_GWindow l \<Longrightarrow> kept (thread_put_index l') d t \<Longrightarrow> put_count D d < thread_PWindow l' \<Longrightarrow>
      thread_PWindow l' = global_PWindow t \<Longrightarrow> safe_counts i Q (k d l') (t, H')"
  shows "safe_counts i Q (put_window_opt D n contention l k) (s, H)"
proof -
  have search: "safe_counts i Q (load global_PWindow (\<lambda>g. put_window_opt_loop D n 0 0 (l1\<lparr>thread_PWindow := g\<rparr>) k)) (s, H)"
    if l1: "thread_put_index l1 < width D" "kept_opt (width D) (depth D) l l1" "thread_GWindow l1 = thread_GWindow l" for l1
  proof (rule lin_load, rule J, rule grd_refl)
    fix t H' assume t: "J (t, H')" "ord i s t" "hist_rely i H H'"
    show "safe_counts i Q (put_window_opt_loop D n 0 0 (l1\<lparr>thread_PWindow := global_PWindow t\<rparr>) k) (t, H')"
      by (rule put_window_opt_loop_safe [where ?l0.0 = l and ?s0.0 = s and ?H0.0 = H])
        (use t l1 w16 in \<open>auto simp: put_opt_def intro: k\<close>)
  qed
  have width: "0 < width D" "thread_width l = width D" using width_ok [OF J] l by (simp_all add: kept_opt_def)
  show ?thesis
  proof (cases contention)
    case True
    show ?thesis
      unfolding put_window_opt_def Let_def random_index_opt_def width(2) if_P [OF True]
      by (rule draw_cases [OF width(1)], rule search) (use l in simp_all)
  next
    case False
    show ?thesis
      unfolding put_window_opt_def Let_def if_not_P [OF False] by (rule search) (use l in simp_all)
  qed
qed

end

section \<open>get\_window\<close>

context window_counts begin

definition get_opt :: "thread_opt \<Rightarrow> nat \<Rightarrow> nat \<Rightarrow> bool \<Rightarrow> thread_opt \<Rightarrow> 'z window_scheme \<Rightarrow> bool" where
  "get_opt l0 hops random notempty l s \<longleftrightarrow> thread_get_index l < width D \<and> hops \<le> width D \<and>
     (0 < hops \<longrightarrow> random_hops D \<le> random) \<and> (notempty \<longrightarrow> more_counts (thread_GWindow l) s) \<and>
     thread_GWindow l \<le> global_GWindow s \<and> thread_PWindow l = thread_PWindow l0 \<and>
     thread_PWindow l0 \<le> global_PWindow s \<and> depth D dvd thread_PWindow l0 \<and> kept_opt (width D) (depth D) l0 l \<and>
     cleared (width D) (thread_get_index l) hops (\<lambda>j. low_counts j (thread_GWindow l) s)"

lemma get_opt_stable:
  assumes l: "get_opt l0 hops random ne l s" and J: "J (s, H)" "J (t, H')" and o: "ord i s t"
  shows "get_opt l0 hops random ne l t"
proof -
  have "cleared (width D) (thread_get_index l) hops (\<lambda>j. low_counts j (thread_GWindow l) t)"
    by (rule cleared_mono [where P = "\<lambda>j. low_counts j (thread_GWindow l) s"])
      (use l width_ok [OF J(1)] get.low_stable [OF _ J o] in \<open>auto simp: get_opt_def\<close>)
  then show ?thesis
    using l ord_PWindow [OF o] ord_GWindow [OF o] get.more_stable [OF _ J o] by (auto simp: get_opt_def)
qed

lemma get_opt_sync:
  "get_opt l0 hops random ne l s \<Longrightarrow> g \<le> global_GWindow s \<Longrightarrow> get_opt l0 0 random False (l\<lparr>thread_GWindow := g\<rparr>) s"
  by (simp add: get_opt_def)

text \<open>The put count the search works with is one the sub-queue has reached.\<close>

lemma put_count_opt_safe:
  assumes J: "J (s, H)" and A: "A s" and l: "get_opt l0 hops random ne l s"
    and k: "\<And>t H' c. J (t, H') \<Longrightarrow> ord i s t \<Longrightarrow> hist_rely i H H' \<Longrightarrow> c \<le> puts t (thread_get_index l) \<Longrightarrow>
      (if thread_GWindow l < thread_PWindow l then thread_PWindow l = c + depth D
       else c = puts t (thread_get_index l)) \<Longrightarrow> safe_counts i Q (k c) (t, H')"
  shows "safe_counts i Q (put_count_opt D l k) (s, H)"
proof -
  have idx: "thread_get_index l < width D" and dep: "thread_depth l = depth D" and PW: "thread_PWindow l \<le> global_PWindow s"
    "depth D dvd thread_PWindow l"
    using l by (simp_all add: get_opt_def kept_opt_def)
  show ?thesis
  proof (cases "thread_GWindow l < thread_PWindow l")
    case True
    then have le: "depth D \<le> thread_PWindow l" using PW(2) by (auto dest: dvd_imp_le)
    have "thread_PWindow l < U64" using no_wrap [OF A] PW(1) by linarith
    then have eq: "sub64 (thread_PWindow l) (depth D) = thread_PWindow l - depth D" using le by (simp add: sub64_eq)
    have "thread_PWindow l - depth D \<le> puts s (thread_get_index l)"
      using counts_ok_nth [OF counts [OF J] idx] PW(1) by linarith
    then show ?thesis
      unfolding put_count_opt_def if_P [OF True] dep eq
      by (intro k [OF J ord_refl hist_rely_refl]) (use True le in simp_all)
  next
    case False
    show ?thesis
      unfolding put_count_opt_def if_not_P [OF False]
      apply (rule lin_checked, rule J)
      subgoal for t H' using put_length [of t H'] idx by simp
      apply (rule lin_load, rule J, rule grd_refl)
      subgoal premises p for t H' by (rule k [OF p(1-3)]) (use put_count_puts [OF p(1) idx] False in simp_all)
      done
  qed
qed

lemma shift_get_opt_safe:
  assumes J: "J (t, H)" and l: "get_opt l0 (width D) random ne l t" and more: "more_counts (thread_GWindow l) t"
    and F: "\<And>u H' l1. J (u, H') \<Longrightarrow> ord i t u \<Longrightarrow> hist_rely i H H' \<Longrightarrow> get_opt l0 0 random False l1 u \<Longrightarrow> safe_counts i Q (F l1) (u, H')"
  shows "safe_counts i Q (shift_get_opt D l F) (t, H)"
  unfolding shift_get_opt_def Let_def
proof (rule lin_load, rule J, rule grd_refl)
  fix u H' assume u: "J (u, H')" "ord i t u" "hist_rely i H H'"
  have lu: "get_opt l0 0 random False l u" using get_opt_stable [OF l J u(1,2)] by (simp add: get_opt_def)
  have dep: "thread_depth l = depth D" using l by (simp add: get_opt_def kept_opt_def)
  let ?new = "add64 (thread_GWindow l) (thread_depth l)"
  let ?cae = "cae global_GWindow (\<lambda>v s. s\<lparr>global_GWindow := v\<rparr>) (thread_GWindow l) ?new (\<lambda>ok v.
        if ok then F ((count_slide l)\<lparr>thread_GWindow := ?new\<rparr>) else F (l\<lparr>thread_GWindow := v\<rparr>))"
  have "safe_counts i Q ?cae (u, H')"
  proof (rule lin_cae, rule u, rule grd_refl)
    fix v K assume v: "J (v, K)" "ord i u v" "hist_rely i H' K" and A: "A v"
    have o: "ord i t v" "hist_rely i H K"
      using ord_trans [OF u(2) v(2)] hist_rely_trans [OF u(3) v(3)] by auto
    { assume eq: "global_GWindow v = thread_GWindow l"
      have lv: "get_opt l0 (width D) random ne l v" by (rule get_opt_stable [OF l J v(1) o(1)])
      then have all: "global_GWindow v \<le> gets v j + depth D" if "j < width D" for j
        using cleared_all [OF _ _ that, of "thread_get_index l" "\<lambda>j. low_counts j (thread_GWindow l) v"]
        unfolding get_opt_def eq low_counts_def by blast
      have more': "global_GWindow v < global_PWindow v"
        using get.more_stable [OF more J v(1) o(1)] by (simp add: more_counts_def eq)
      have new: "?new = global_GWindow v + depth D" using no_wrap [OF A] eq dep by (simp add: add64_eq)
      let ?v = "v\<lparr>global_GWindow := global_GWindow v + depth D\<rparr>"
      have s: "J (?v, K)" "grd i v ?v" "ord i v ?v"
        using get_shift [OF v(1) A counts_ok_Get_shift [OF counts [OF v(1)] all more']] by auto
      have "safe_counts i Q (F ((count_slide l)\<lparr>thread_GWindow := global_GWindow v + depth D\<rparr>)) (?v, K)"
        by (rule F [OF s(1) ord_trans [OF o(1) s(3)] o(2)])
          (use get_opt_stable [OF lu u(1) v(1,2)] in \<open>simp add: get_opt_def\<close>)
      then show "\<exists>X. hist_step opss i K (K @ X) \<and> J (v\<lparr>global_GWindow := ?new\<rparr>, K @ X) \<and> grd i v (v\<lparr>global_GWindow := ?new\<rparr>) \<and>
          safe_counts i Q (if True then F ((count_slide l)\<lparr>thread_GWindow := ?new\<rparr>) else F (l\<lparr>thread_GWindow := thread_GWindow l\<rparr>))
            (v\<lparr>global_GWindow := ?new\<rparr>, K @ X)"
        using s unfolding new by (intro exI [of _ "[]"]) simp }
    show "safe_counts i Q (if False then F ((count_slide l)\<lparr>thread_GWindow := ?new\<rparr>) else F (l\<lparr>thread_GWindow := global_GWindow v\<rparr>)) (v, K)"
      using F [OF v(1) o get_opt_sync [OF get_opt_stable [OF lu u(1) v(1,2)] order_refl]] by simp
  qed
  then show "safe_counts i Q (if thread_GWindow l = global_GWindow u then ?cae else F l) (u, H')"
    using F [OF u lu] by (simp only: split: if_split) blast
qed

end

context window_counts begin

text \<open>What a visit to a sub-queue establishes that has nothing valid to offer.\<close>

lemma visit_opt:
  assumes J: "J (s, H)" "J (t, K)" "ord i s t" and idx: "j < width D" and e: "got_counts j e t"
    and gw: "gw \<le> global_GWindow s" "gw = global_GWindow t" and c: "c \<le> puts s j"
    and cases: "if gw < pw then pw = c + depth D else c = puts s j"
    and invalid: "\<not> (get_count D e < gw \<and> get_count D e < c)"
  shows "low_counts j gw t" and "get_count D e < c \<Longrightarrow> more_counts gw t"
proof -
  have le: "get_count D e \<le> gets t j" using e by (simp add: got_counts_def)
  have "gw \<le> c + depth D"
    using counts_ok_nth [OF counts [OF J(1)] idx] counts_ok_le [OF counts [OF J(1)]] cases gw(1)
    by (cases "gw < pw") auto
  then show "low_counts j gw t" using le invalid by (auto simp: low_counts_def)
  show "more_counts gw t" if "get_count D e < c"
    using that invalid c counts_ok_nth [OF counts [OF J(1)] idx] ord_PWindow [OF J(3)] by (simp add: more_counts_def)
qed

lemma get_window_opt_loop_safe:
  assumes "J (s, H)" and "get_opt l0 hops random ne l s" and w16: "width D < U16"
    and k: "\<And>t H' d l'. J (t, H') \<Longrightarrow> ord i s0 t \<Longrightarrow> hist_rely i H0 H' \<Longrightarrow> thread_put_index l' < width D \<Longrightarrow>
      thread_get_index l' = thread_put_index l' \<Longrightarrow> kept_opt (width D) (depth D) l0 l' \<Longrightarrow>
      thread_PWindow l' = thread_PWindow l0 \<Longrightarrow> thread_GWindow l' \<le> global_GWindow t \<Longrightarrow> got_counts (thread_put_index l') d t \<Longrightarrow>
      (thread_GWindow l' < thread_PWindow l' \<Longrightarrow> get_count D d < puts t (thread_put_index l')) \<Longrightarrow> safe_counts i Q (k d l') (t, H')"
    and "ord i s0 s" and "hist_rely i H0 H"
  shows "safe_counts i Q (get_window_opt_loop D n hops random ne l k) (s, H)"
  using assms(1,2,5,6)
proof (induction n arbitrary: s H hops random ne l)
  case 0
  then show ?case using fuel by simp
next
  case (Suc n)
  note J = Suc.prems(1) and local = Suc.prems(2)
  let ?j = "thread_get_index l"
  have idx: "?j < width D" and keep: "kept_opt (width D) (depth D) l0 l" and PW: "thread_PWindow l = thread_PWindow l0"
    using local by (simp_all add: get_opt_def)
  have w: "thread_width l = width D" using keep by (simp add: kept_opt_def)
  have later: "ord i s0 t" "hist_rely i H0 H'" if "ord i s t" "hist_rely i H H'" for t H'
    using ord_trans [OF Suc.prems(3) that(1)] hist_rely_trans [OF Suc.prems(4) that(2)] by auto
  have arr: "?j < length (get_array D t)" if "J (t, H')" for t H'
    using get_length [OF that] idx by simp
  show ?case
    unfolding get_window_opt_loop.simps load2_def Let_def
    apply (rule lin_checked, rule J, rule arr, assumption)
    apply (rule lin_load, rule J, rule grd_refl)
    subgoal premises p1 for t1 H1
      apply (rule lin_load, rule p1, rule grd_refl)
      subgoal premises p2 for t2 H2
      proof -
        have o2: "ord i s t2" "hist_rely i H H2"
          using ord_trans [OF p1(2) p2(2)] hist_rely_trans [OF p1(3) p2(3)] by auto
        let ?d = "DW (lo (get_array D t1 ! ?j)) (hi (get_array D t2 ! ?j))"
        have local2: "get_opt l0 hops random ne l t2" by (rule get_opt_stable [OF local J p2(1) o2(1)])
        have got2: "got_counts ?j ?d t2" by (rule get.got_load [OF p1(1) p2(1,2) idx])
        show ?thesis
        proof (rule put_count_opt_safe [OF p2(1,5) local2])
          fix t3 H3 c assume p3: "J (t3, H3)" "ord i t2 t3" "hist_rely i H2 H3" "c \<le> puts t3 ?j"
            "if thread_GWindow l < thread_PWindow l then thread_PWindow l = c + depth D else c = puts t3 ?j"
          have local3: "get_opt l0 hops random ne l t3" by (rule get_opt_stable [OF local2 p2(1) p3(1,2)])
          show "safe_counts i Q (load global_GWindow (\<lambda>gmax.
              if thread_GWindow l \<noteq> gmax then get_window_opt_loop D n 0 random False (l\<lparr>thread_GWindow := gmax\<rparr>) k
              else if get_count D ?d < thread_GWindow l \<and> get_count D ?d < c then k ?d (l\<lparr>thread_index := ?j\<rparr>)
              else if hops \<noteq> thread_width l then
                hop_opt D ?j random hops (thread_width l) l (\<lambda>index random hops l.
                get_window_opt_loop D n hops random (ne \<or> get_count D ?d < c) (l\<lparr>thread_get_index := index\<rparr>) k)
              else if ne then shift_get_opt D l (\<lambda>l. get_window_opt_loop D n 0 random False l k)
              else load global_PWindow (\<lambda>g.
                if thread_GWindow l \<noteq> g then shift_get_opt D l (\<lambda>l. get_window_opt_loop D n 0 random False l k)
                else k ?d (l\<lparr>thread_index := ?j\<rparr>)))) (t3, H3)"
          proof (rule lin_load, rule p3, rule grd_refl)
            fix t4 H4 assume p4: "J (t4, H4)" "ord i t3 t4" "hist_rely i H3 H4" "proj i H4 = proj i H3" "A t4"
            have o24: "ord i t2 t4" by (rule ord_trans [OF p3(2) p4(2)])
            have o: "ord i s t4" "hist_rely i H H4"
              using ord_trans [OF o2(1) o24] hist_rely_trans [OF o2(2) hist_rely_trans [OF p3(3) p4(3)]] by auto
            have here: "get_opt l0 hops random ne l t4" by (rule get_opt_stable [OF local3 p3(1) p4(1,2)])
            have got: "got_counts ?j ?d t4" by (rule get.got_stable [OF got2 p2(1) p4(1) o24 idx])
            have GW: "thread_GWindow l \<le> global_GWindow t3" using local3 by (simp add: get_opt_def)
            have fin: "safe_counts i Q (get_window_opt_loop D n 0 random False l1 k) (u, H')"
              if "J (u, H')" "ord i t4 u" "hist_rely i H4 H'" "get_opt l0 0 random False l1 u" for u H' l1
              by (rule Suc.IH [OF that(1,4) later [OF ord_trans [OF o(1) that(2)] hist_rely_trans [OF o(2) that(3)]]])
            note visit = visit_opt [OF p3(1) p4(1,2) idx got GW _ p3(4,5)]
            consider (sync) "thread_GWindow l \<noteq> global_GWindow t4"
              | (valid) "thread_GWindow l = global_GWindow t4" "get_count D ?d < thread_GWindow l \<and> get_count D ?d < c"
              | (hop) "thread_GWindow l = global_GWindow t4" "\<not> (get_count D ?d < thread_GWindow l \<and> get_count D ?d < c)" "hops \<noteq> width D"
              | (shift) "thread_GWindow l = global_GWindow t4" "\<not> (get_count D ?d < thread_GWindow l \<and> get_count D ?d < c)" "hops = width D"
              by blast
            then show "safe_counts i Q (if thread_GWindow l \<noteq> global_GWindow t4 then
                get_window_opt_loop D n 0 random False (l\<lparr>thread_GWindow := global_GWindow t4\<rparr>) k
              else if get_count D ?d < thread_GWindow l \<and> get_count D ?d < c then k ?d (l\<lparr>thread_index := ?j\<rparr>)
              else if hops \<noteq> thread_width l then
                hop_opt D ?j random hops (thread_width l) l (\<lambda>index random hops l.
                get_window_opt_loop D n hops random (ne \<or> get_count D ?d < c) (l\<lparr>thread_get_index := index\<rparr>) k)
              else if ne then shift_get_opt D l (\<lambda>l. get_window_opt_loop D n 0 random False l k)
              else load global_PWindow (\<lambda>g.
                if thread_GWindow l \<noteq> g then shift_get_opt D l (\<lambda>l. get_window_opt_loop D n 0 random False l k)
                else k ?d (l\<lparr>thread_index := ?j\<rparr>))) (t4, H4)"
            proof cases
              case sync
              then show ?thesis using fin [OF p4(1) ord_refl hist_rely_refl get_opt_sync [OF here order_refl]] by simp
            next
              case valid
              have "get_count D ?d < puts t4 ?j" using valid p3(4) ord_puts [OF p4(2) p3(1) p4(1) idx] by linarith
              then have "safe_counts i Q (k ?d (l\<lparr>thread_index := ?j\<rparr>)) (t4, H4)"
                by (intro k) (use p4 later [OF o] idx keep got PW valid in simp_all)
              then show ?thesis using valid by simp
            next
              case hop
              have "safe_counts i Q (hop_opt D ?j random hops (width D) l (\<lambda>index random hops l.
                get_window_opt_loop D n hops random (ne \<or> get_count D ?d < c) (l\<lparr>thread_get_index := index\<rparr>) k)) (t4, H4)"
              proof (rule hop_opt_cases [where P = "\<lambda>j. low_counts j (thread_GWindow l) t4"])
                fix index' random' hops' sd
                assume "index' < width D" "hops' \<le> width D" "0 < hops' \<longrightarrow> random_hops D \<le> random'"
                  "cleared (width D) index' hops' (\<lambda>j. low_counts j (thread_GWindow l) t4)"
                then have "get_opt l0 hops' random' (ne \<or> get_count D ?d < c) ((count_hop l)\<lparr>seeds := sd, thread_get_index := index'\<rparr>) t4"
                  using here visit(2) [OF hop(1,2)] by (auto simp: get_opt_def)
                then show "safe_counts i Q (get_window_opt_loop D n hops' random' (ne \<or> get_count D ?d < c)
                    ((count_hop l)\<lparr>seeds := sd, thread_get_index := index'\<rparr>) k) (t4, H4)"
                  by (rule Suc.IH [OF p4(1) _ later [OF o]])
              qed (use here hop visit(1) [OF hop(1,2)] width_ok [OF p4(1)] w16 in \<open>auto simp: get_opt_def\<close>)
              then show ?thesis using hop w by auto
            next
              case shift
              then have full: "get_opt l0 (width D) random ne l t4" using here by simp
              show ?thesis
              proof (cases ne)
                case True
                have "more_counts (thread_GWindow l) t4" using here True by (simp add: get_opt_def)
                then have "safe_counts i Q (shift_get_opt D l (\<lambda>l. get_window_opt_loop D n 0 random False l k)) (t4, H4)"
                  by (rule shift_get_opt_safe [OF p4(1) full _ fin])
                then show ?thesis using shift w True by auto
              next
                case False
                have "safe_counts i Q (load global_PWindow (\<lambda>g.
                  if thread_GWindow l \<noteq> g then shift_get_opt D l (\<lambda>l. get_window_opt_loop D n 0 random False l k)
                  else k ?d (l\<lparr>thread_index := ?j\<rparr>))) (t4, H4)"
                proof (rule lin_load, rule p4, rule grd_refl)
                  fix t5 H5 assume p5: "J (t5, H5)" "ord i t4 t5" "hist_rely i H4 H5"
                  have full5: "get_opt l0 (width D) random ne l t5" by (rule get_opt_stable [OF full p4(1) p5(1,2)])
                  have o5: "ord i s t5" "hist_rely i H H5"
                    using ord_trans [OF o(1) p5(2)] hist_rely_trans [OF o(2) p5(3)] by auto
                  have le: "thread_GWindow l \<le> global_GWindow t5" "global_GWindow t5 \<le> global_PWindow t5"
                      "thread_PWindow l \<le> global_PWindow t5"
                    using full5 counts_ok_le [OF counts [OF p5(1)]] by (simp_all add: get_opt_def)
                  have fin5: "safe_counts i Q (get_window_opt_loop D n 0 random False l1 k) (u, H')"
                    if "J (u, H')" "ord i t5 u" "hist_rely i H5 H'" "get_opt l0 0 random False l1 u" for u H' l1
                    by (rule fin [OF that(1) ord_trans [OF p5(2) that(2)] hist_rely_trans [OF p5(3) that(3)] that(4)])
                  have shift5: "safe_counts i Q (shift_get_opt D l (\<lambda>l. get_window_opt_loop D n 0 random False l k)) (t5, H5)"
                    if "thread_GWindow l \<noteq> global_PWindow t5"
                    by (rule shift_get_opt_safe [OF p5(1) full5 _ fin5]) (use that le in \<open>simp_all add: more_counts_def\<close>)
                  have "safe_counts i Q (k ?d (l\<lparr>thread_index := ?j\<rparr>)) (t5, H5)" if "thread_GWindow l = global_PWindow t5"
                    by (rule k) (use p5 later [OF o5] idx keep get.got_stable [OF got p4(1) p5(1,2) idx] PW le that in simp_all)
                  then show "safe_counts i Q (if thread_GWindow l \<noteq> global_PWindow t5
                      then shift_get_opt D l (\<lambda>l. get_window_opt_loop D n 0 random False l k)
                      else k ?d (l\<lparr>thread_index := ?j\<rparr>)) (t5, H5)"
                    using shift5 by simp
                qed
                then show ?thesis using shift w False by auto
              qed
            qed
          qed
        qed
      qed
      done
    done
qed

lemma get_window_opt_safe:
  assumes J: "J (s, H)" and l: "thread_get_index l < width D" "kept_opt (width D) (depth D) l l" and w16: "width D < U16"
    and PW: "thread_PWindow l \<le> global_PWindow s" "depth D dvd thread_PWindow l"
    and k: "\<And>t H' d l'. J (t, H') \<Longrightarrow> ord i s t \<Longrightarrow> hist_rely i H H' \<Longrightarrow> thread_put_index l' < width D \<Longrightarrow>
      thread_get_index l' = thread_put_index l' \<Longrightarrow> kept_opt (width D) (depth D) l l' \<Longrightarrow>
      thread_PWindow l' = thread_PWindow l \<Longrightarrow> thread_GWindow l' \<le> global_GWindow t \<Longrightarrow> got_counts (thread_put_index l') d t \<Longrightarrow>
      (thread_GWindow l' < thread_PWindow l' \<Longrightarrow> get_count D d < puts t (thread_put_index l')) \<Longrightarrow> safe_counts i Q (k d l') (t, H')"
  shows "safe_counts i Q (get_window_opt D n contention l k) (s, H)"
proof -
  have search: "safe_counts i Q (load global_GWindow (\<lambda>g. get_window_opt_loop D n 0 0 False (l1\<lparr>thread_GWindow := g\<rparr>) k)) (s, H)"
    if l1: "thread_get_index l1 < width D" "kept_opt (width D) (depth D) l l1" "thread_PWindow l1 = thread_PWindow l" for l1
  proof (rule lin_load, rule J, rule grd_refl)
    fix t H' assume t: "J (t, H')" "ord i s t" "hist_rely i H H'"
    have "get_opt l 0 0 False (l1\<lparr>thread_GWindow := global_GWindow t\<rparr>) t"
      using l1 PW ord_PWindow [OF t(2)] by (simp add: get_opt_def)
    from get_window_opt_loop_safe [OF t(1) this w16 k t(2,3)]
    show "safe_counts i Q (get_window_opt_loop D n 0 0 False (l1\<lparr>thread_GWindow := global_GWindow t\<rparr>) k) (t, H')" by simp
  qed
  have width: "0 < width D" "thread_width l = width D" using width_ok [OF J] l by (simp_all add: kept_opt_def)
  show ?thesis
  proof (cases contention)
    case True
    show ?thesis
      unfolding get_window_opt_def Let_def random_index_opt_def width(2) if_P [OF True]
      by (rule draw_cases [OF width(1)], rule search) (use l in simp_all)
  next
    case False
    show ?thesis
      unfolding get_window_opt_def Let_def if_not_P [OF False] by (rule search) (use l in simp_all)
  qed
qed

end

end
