(* ===== verification/Queue_2Dd_Opt.thy ===== *)
theory Queue_2Dd_Opt
  imports Window_2Dd_Opt
begin

text \<open>
  The optimised 2Dd queue, \<open>src/2Dd-queue_optimized/2Dd-queue_optimized.c\<close>: the 2Dd queue over the
  window of \<open>Window_2Dd_Opt\<close>. An enqueue reads the put count again before it reads the successor
  of the tail; a dequeue reads the tail only when the put window is not known to be ahead of the
  get window. Nodes, descriptors and windows are those of the 2Dd queue, and so is the state.
  The width and the depth are 16 bits wide, and the arithmetic of \<open>create_queue\<close> truncates them.

  Shown: the queue implements the same specification as the plain 2Dd queue, for all dimensions
  \<open>create_queue\<close> can give it, and neither the assertions in \<open>enqueue\<close> nor the unchecked
  successor of the head can fail.
\<close>

section \<open>Creation\<close>

text \<open>
  The dimensions, with the truncations to 16 bits. In mode 0 the product is of type \<open>int\<close>, with
  wrap-around, and converted to 64 bits.
\<close>

definition int_product :: "nat \<Rightarrow> nat \<Rightarrow> nat" where
  "int_product d w = (let p = d * (w + U32 - 1) mod U32 in if p < U32 div 2 then p else p + (U64 - U32))"

definition fixed_width_opt :: "nat \<Rightarrow> nat \<Rightarrow> dims" where
  "fixed_width_opt w k =
     (if w < 2 then (1, k mod U16, 0)
      else let d = (k div (w - 1)) mod U16 in if d < 1 then (add64 (k div 1) 1 mod U16, 1, k) else (w, d, k))"

definition dimensions_opt :: "nat \<Rightarrow> nat \<Rightarrow> nat \<Rightarrow> nat \<Rightarrow> nat \<Rightarrow> failure + dims" where
  "dimensions_opt n w d k_mode k =
     (if k_mode = 3 then Inr (fixed_width_opt (mul64 n w mod U16) k)
      else if k_mode = 2 then
        (if d = 0 then Inl Div_by_zero
         else let w = add64 (k div d) 1 mod U16 in Inr (if w < 1 then (1, k mod U16, 0) else (w, d, k)))
      else if k_mode = 1 then Inr (fixed_width_opt w k)
      else if k_mode = 0 then Inr (w, d, int_product d w)
      else Inr (w, d, k))"

definition create_queue_opt :: "bool \<Rightarrow> nat \<Rightarrow> nat \<Rightarrow> nat \<Rightarrow> nat \<Rightarrow> nat \<Rightarrow>
    failure + ((queue_2dd, qaddr option, nat) dset \<times> nat \<times> queue_2dd)" where
  "create_queue_opt alloc_ok n w d k_mode k = (case dimensions_opt n w d k_mode k of
     Inl e \<Rightarrow> Inl e
   | Inr (w, d, k) \<Rightarrow>
     if \<not> alloc_ok then Inl Exit_program
     else (case initialize_global_window_opt d w
        \<lparr>global_PWindow = 0, global_GWindow = 0,
         get_desc = map (\<lambda>j. DW (Some (Dummy j)) 0) [0..<w], put_desc = map (\<lambda>j. DW (Some (Dummy j)) 0) [0..<w],
         qnodes = (\<lambda>a. case a of Dummy j \<Rightarrow> if j < w then Some \<lparr>qn_key = 0, qn_val = 0, qn_next = None\<rparr> else None
           | Node _ _ \<Rightarrow> None)\<rparr> of
         Inl e \<Rightarrow> Inl e
       | Inr s \<Rightarrow> Inr (set_queue w d, k, s)))"

definition queue_register_opt :: "(queue_2dd, qaddr option, nat) dset \<Rightarrow> thread_opt \<Rightarrow> thread_opt" where
  "queue_register_opt D l = l\<lparr>thread_depth := depth D, thread_width := width D\<rparr>"

section \<open>Operations\<close>

definition create_node_opt :: "int \<Rightarrow> int \<Rightarrow> qaddr option \<Rightarrow> thread_opt \<Rightarrow>
    (qaddr \<Rightarrow> thread_opt \<Rightarrow> (queue_2dd, 'a) prog) \<Rightarrow> (queue_2dd, 'a) prog" where
  "create_node_opt key v p l k = create_node_queue key v p l k"

definition enq_cae_opt :: "qaddr option \<Rightarrow> qaddr \<Rightarrow> (bool \<Rightarrow> (queue_2dd, 'a) prog) \<Rightarrow> (queue_2dd, 'a) prog" where
  "enq_cae_opt tail new k = checked (\<lambda>s. tail \<noteq> None \<and> qnodes s (the tail) \<noteq> None)
     (cas (\<lambda>s. qn_next (node_at tail s)) (put_next tail) None (Some new) k)"

definition deq_cae_opt :: "nat \<Rightarrow> queue_desc \<Rightarrow> queue_desc \<Rightarrow> (bool \<Rightarrow> (queue_2dd, 'a) prog) \<Rightarrow> (queue_2dd, 'a) prog" where
  "deq_cae_opt j read_des new_des k = checked (\<lambda>s. j < length (get_desc s))
     (cae (\<lambda>s. get_desc s ! j) (\<lambda>v s. s\<lparr>get_desc := (get_desc s)[j := v]\<rparr>) read_des new_des (\<lambda>ok _. k ok))"

fun enqueue_opt_loop :: "(queue_2dd, qaddr option, nat) dset \<Rightarrow> nat \<Rightarrow> nat \<Rightarrow> qaddr \<Rightarrow> bool \<Rightarrow> thread_opt \<Rightarrow>
    (queue_2dd, int \<times> thread_opt) prog" where
  "enqueue_opt_loop D N 0 new contention l = Stop No_fuel"
| "enqueue_opt_loop D N (Suc n) new contention l =
     put_window_opt D N contention l (\<lambda>descriptor l.
     if \<not> thread_GWindow l \<le> thread_PWindow l then Stop Assert_failed
     else if \<not> hi descriptor < thread_PWindow l then Stop Assert_failed
     else let tail = lo descriptor; count = add64 (hi descriptor) 1 in
     checked (\<lambda>s. thread_put_index l < length (put_desc s)) (load (\<lambda>s. hi (put_desc s ! thread_put_index l)) (\<lambda>get_count.
     if thread_PWindow l \<le> get_count then enqueue_opt_loop D N n new contention l
     else
       load_field qn_next tail (\<lambda>nx.
       if nx = None then
         enq_cae_opt tail new (\<lambda>ok.
         if ok then put_cae (thread_put_index l) descriptor (DW (Some new) count) (\<lambda>_. Ret (1, l))
         else enqueue_opt_loop D N n new True (count_put_fail l))
       else
         load_field qn_next tail (\<lambda>nx.
         put_cae (thread_put_index l) descriptor (DW nx count) (\<lambda>ok.
           enqueue_opt_loop D N n new (contention \<or> \<not> ok) (count_put_fail l)))))))"

definition enqueue_opt :: "(queue_2dd, qaddr option, nat) dset \<Rightarrow> nat \<Rightarrow> nat \<Rightarrow> int \<Rightarrow> int \<Rightarrow> thread_opt \<Rightarrow>
    (queue_2dd, int \<times> thread_opt) prog" where
  "enqueue_opt D N n key v l = create_node_opt key v None l (\<lambda>new l. enqueue_opt_loop D N n new False l)"

fun dequeue_opt_loop :: "(queue_2dd, qaddr option, nat) dset \<Rightarrow> nat \<Rightarrow> nat \<Rightarrow> bool \<Rightarrow> thread_opt \<Rightarrow>
    (queue_2dd, int \<times> thread_opt) prog" where
  "dequeue_opt_loop D N 0 contention l = Stop No_fuel"
| "dequeue_opt_loop D N (Suc n) contention l =
     get_window_opt D N contention l (\<lambda>deq_descriptor l.
     let head = lo deq_descriptor;
         safe_deq =
           load_field qn_next head (\<lambda>nx.
           deq_cae_opt (thread_get_index l) deq_descriptor (DW nx (add64 (hi deq_descriptor) 1)) (\<lambda>ok.
           if ok then load_field qn_val nx (\<lambda>v. Ret (v, l))
           else dequeue_opt_loop D N n True (count_get_fail l)))
     in
     checked (\<lambda>s. thread_get_index l < length (put_desc s)) (load2 (\<lambda>s. put_desc s ! thread_get_index l) (\<lambda>enq_descriptor.
     if thread_GWindow l < thread_PWindow l then safe_deq
     else let tail = lo enq_descriptor in
       if head = tail then
         load_field qn_next head (\<lambda>nx.
         if nx = None then Ret (0, count_null l)
         else
           load_field qn_next tail (\<lambda>nx.
           put_cae (thread_get_index l) enq_descriptor (DW nx (add64 (hi enq_descriptor) 1)) (\<lambda>ok.
             dequeue_opt_loop D N n (contention \<or> \<not> ok) l)))
       else safe_deq)))"

definition dequeue_opt :: "(queue_2dd, qaddr option, nat) dset \<Rightarrow> nat \<Rightarrow> nat \<Rightarrow> thread_opt \<Rightarrow>
    (queue_2dd, int \<times> thread_opt) prog" where
  "dequeue_opt D N n l = load global_PWindow (\<lambda>g. dequeue_opt_loop D N n False (l\<lparr>thread_PWindow := g\<rparr>))"

text \<open>\<open>queue_size\<close>: \<open>r\<close> sub-queues from \<open>q\<close> on are still to be counted.\<close>

fun queue_size_opt_loop :: "nat \<Rightarrow> nat \<Rightarrow> nat \<Rightarrow> nat \<Rightarrow> (queue_2dd, nat) prog" where
  "queue_size_opt_loop N 0 q sz = Ret sz"
| "queue_size_opt_loop N (Suc r) q sz =
     checked (\<lambda>s. q < length (get_desc s)) (load (\<lambda>s. lo (get_desc s ! q)) (\<lambda>head.
     checked (\<lambda>s. q < length (put_desc s)) (load (\<lambda>s. lo (put_desc s ! q)) (\<lambda>tail.
     queue_size_nodes N head tail sz (\<lambda>sz. queue_size_opt_loop N r (q + 1) sz)))))"

definition queue_size_opt :: "(queue_2dd, qaddr option, nat) dset \<Rightarrow> nat \<Rightarrow> (queue_2dd, nat) prog" where
  "queue_size_opt D N = queue_size_opt_loop N (width D) 0 0"

fun queue_opt_op :: "(queue_2dd, qaddr option, nat) dset \<Rightarrow> nat \<Rightarrow> nat \<Rightarrow> queue_op \<Rightarrow> thread_opt \<Rightarrow>
    (queue_2dd, (int \<times> nat) \<times> thread_opt) prog" where
  "queue_opt_op D N n (Enqueue key v) l = bind (enqueue_opt D N n key v l) (\<lambda>(r, l). Ret ((r, thread_put_index l), l))"
| "queue_opt_op D N n Dequeue l = bind (dequeue_opt D N n l) (\<lambda>(r, l). Ret ((r, thread_get_index l), l))"

lemma opt_cae_eq: "enq_cae_opt = enq_cas_2dd" "deq_cae_opt = deq_cae_2dd"
  by (auto simp: enq_cae_opt_def enq_cas_2dd_def deq_cae_opt_def deq_cae_2dd_def fun_eq_iff)

section \<open>What a thread knows\<close>

definition opt_local :: "nat \<Rightarrow> nat \<Rightarrow> nat \<Rightarrow> thread_opt \<Rightarrow> queue_2dd \<Rightarrow> bool" where
  "opt_local w d i l s \<longleftrightarrow> queue_local w i l s \<and> thread_get_index l = thread_put_index l \<and> thread_width l = w \<and>
     thread_depth l = d \<and> thread_GWindow l \<le> global_GWindow s \<and> w < U16"

lemma opt_local_stable: "opt_local w d i l s \<Longrightarrow> ord_queue w i s t \<Longrightarrow> opt_local w d i l t"
  using queue_local_stable [of w i l s t] core_queue_simps(2) [OF ord_core, of w i s t] by (simp add: opt_local_def)

lemma opt_local_more:
  "queue_local w i l s \<Longrightarrow> thread_put_index l' < w \<Longrightarrow> thread_get_index l' = thread_put_index l' \<Longrightarrow>
    kept_opt w d l l' \<Longrightarrow> thread_GWindow l' \<le> global_GWindow s \<Longrightarrow> w < U16 \<Longrightarrow> opt_local w d i l' s"
  by (simp add: opt_local_def queue_local_def kept_opt_def)

lemma opt_local_kept: "opt_local w d i l s \<Longrightarrow> kept_opt w d l l"
  by (simp add: opt_local_def kept_opt_def)

lemma opt_local_indices: "opt_local w d i l s \<Longrightarrow> thread_get_index l = thread_put_index l"
  by (simp add: opt_local_def)

lemma opt_local_counts [simp]:
  "opt_local w d i (count_put_fail l) s = opt_local w d i l s"
  "opt_local w d i (count_get_fail l) s = opt_local w d i l s"
  "opt_local w d i (count_null l) s = opt_local w d i l s"
  by (simp_all add: opt_local_def) (simp_all add: count_put_fail_def count_get_fail_def count_null_def)

text \<open>The goal of an operation with result \<open>(r, thread_index l)\<close>.\<close>

definition opt_post :: "nat \<Rightarrow> nat \<Rightarrow> queue_op list list \<Rightarrow> nat \<Rightarrow> (queue_op \<times> (int \<times> nat)) list \<Rightarrow> queue_op \<Rightarrow>
    int \<times> thread_opt \<Rightarrow> queue_2dd \<times> (queue_op, int \<times> nat) history \<Rightarrow> bool" where
  "opt_post w d opss i P op = (\<lambda>(r, l) (s, H). inv_queue w d opss (s, H) \<and> opt_local w d i l s \<and>
     proj i H = P @ [(op, (r, thread_put_index l))])"

lemma opt_ret:
  assumes "inv_queue w d opss (s, H)" and "opt_local w d i l s" and "proj i H = P @ [(op, (r, thread_put_index l))]"
  shows "safe_queue w d opss i (opt_post w d opss i P op) (Ret (r, l)) (s, H)"
  by (rule lin_ret, rule assms(1)) (use assms opt_local_stable [OF assms(2)] in \<open>auto simp: opt_post_def\<close>)

section \<open>The operations are safe\<close>

lemma enqueue_opt_loop_safe:
  assumes "inv_queue w d opss (s, H)" and "proj i H = P" and "prefix (map fst P @ [Enqueue key v]) (opss ! i)"
    and "i < length opss" and "opt_local w d i l s" and "private_queue w i a v s" and w16: "w < U16"
  shows "safe_queue w d opss i (opt_post w d opss i P (Enqueue key v)) (enqueue_opt_loop (set_queue w d) N n a c l) (s, H)"
  using assms(1-6)
proof (induction n arbitrary: s H l c)
  case 0
  then show ?case by (simp add: no_fuel_def)
next
  case (Suc n)
  let ?safe = "safe_queue w d opss i (opt_post w d opss i P (Enqueue key v))"
  have ql: "queue_local w i l s" and idx: "thread_put_index l < w" and GW0: "thread_GWindow l \<le> global_GWindow s"
    using Suc.prems(5) by (simp_all add: opt_local_def queue_local_def)
  show ?case
    unfolding enqueue_opt_loop.simps Let_def opt_cae_eq
  proof (rule window_queue.put_window_opt_safe [OF Suc.prems(1)])
    show "thread_put_index l < width (set_queue w d)" "kept_opt (width (set_queue w d)) (depth (set_queue w d)) l l"
      "width (set_queue w d) < U16"
      using idx opt_local_kept [OF Suc.prems(5)] w16 by simp_all
    fix t H' e l' assume t: "inv_queue w d opss (t, H')" "ord_queue w i s t" "hist_rely i H H'"
      and l': "thread_put_index l' < width (set_queue w d)" "thread_get_index l' = thread_put_index l'"
        "kept_opt (width (set_queue w d)) (depth (set_queue w d)) l l'" "thread_GWindow l' = thread_GWindow l"
      and tail: "known_tail w (thread_put_index l') e t" and cnt: "put_count (set_queue w d) e < thread_PWindow l'"
      and PW: "thread_PWindow l' = global_PWindow t"
    let ?j = "thread_put_index l'"
    have j: "?j < w" and P: "proj i H' = P" using l'(1) t(3) Suc.prems(2) hist_rely_proj [OF t(3)] by auto
    have GW: "thread_GWindow l' \<le> global_GWindow t"
      using GW0 l'(4) core_queue_simps(2) [OF ord_core [OF t(2)]] by simp
    have loc: "opt_local w d i l' t"
      by (rule opt_local_more [OF queue_local_stable [OF ql t(2)] j l'(2) _ GW w16]) (use l'(3) in simp)
    have asserts: "thread_GWindow l' \<le> thread_PWindow l'" "hi e < thread_PWindow l'"
      using GW counts_ok_le [OF inv_queue_ok(6) [OF t(1)]] PW cnt by simp_all
    note priv = private_queue_stable [OF Suc.prems(6) t(2)]
    obtain k tl nt where tl: "lo e = Some tl" "walk (qnodes t) ?j k = Some tl" "k \<le> puts_queue t ?j" "qnodes t tl = Some nt"
      by (rule known_tail_valid [OF tail t(1) j])
    have again: "?safe (enqueue_opt_loop (set_queue w d) N n a c' l1) (u, K)"
      if "inv_queue w d opss (u, K)" "ord_queue w i t u" "proj i K = P" "l1 = l' \<or> l1 = count_put_fail l'" for u K c' l1
      by (rule Suc.IH [OF that(1,3) Suc.prems(3,4)])
        (use that opt_local_stable [OF loc] private_queue_stable [OF priv] in auto)
    let ?link = "enq_cas_2dd (Some tl) a (\<lambda>ok. if ok then put_cae ?j e (DW (Some a) (add64 (hi e) 1)) (\<lambda>_. Ret (1, l'))
        else enqueue_opt_loop (set_queue w d) N n a True (count_put_fail l'))"
    let ?move = "load_field qn_next (Some tl) (\<lambda>nx. put_cae ?j e (DW nx (add64 (hi e) 1)) (\<lambda>ok.
        enqueue_opt_loop (set_queue w d) N n a (c \<or> \<not> ok) (count_put_fail l')))"
    have link: "?safe ?link (u, K)" if u: "inv_queue w d opss (u, K)" "ord_queue w i t u" "proj i K = P" and k: "k < thread_PWindow l'" for u K
    proof (rule enq_cas_rest_safe [OF u(1) j tl(1-3) u(2) _ k priv _ u(3) Suc.prems(3,4)])
      show "thread_PWindow l' \<le> global_PWindow t" using PW by simp
      show "queue_local w i l' t" using loc by (simp add: opt_local_def)
      show "?safe (enqueue_opt_loop (set_queue w d) N n a True (count_put_fail l')) (u', K')"
        if "inv_queue w d opss (u', K')" "ord_queue w i u u'" "proj i K' = P" for u' K'
        by (rule again [OF that(1) ord_queue_trans [OF u(2) that(2)] that(3)]) simp
      fix u' K' assume u': "inv_queue w d opss (u', K')" "core_queue u u'" "queue_local w i l' u'"
        "proj i K' = P @ [(Enqueue key v, 1, ?j)]"
      have "thread_GWindow l' \<le> global_GWindow u'"
        using GW core_queue_simps(2) [OF ord_core [OF u(2)]] core_queue_simps(2) [OF u'(2)] by linarith
      then have "opt_local w d i l' u'" using u'(3) loc by (simp add: opt_local_def)
      then show "?safe (Ret (1, l')) (u', K')" by (rule opt_ret [OF u'(1)]) (use u'(4) in simp)
    qed
    have assist: "?safe ?move (u, K)" if u: "inv_queue w d opss (u, K)" "ord_queue w i t u" "proj i K = P" "qnodes u tl = Some n1"
      "qn_next n1 = Some b" for u K n1 b
    proof (rule load_field_safe [OF u(1,4)])
      fix u' K' n2 assume u': "inv_queue w d opss (u', K')" "ord_queue w i u u'" "proj i K' = proj i K" "qnodes u' tl = Some n2"
      have b: "qn_next n2 = Some b" using next_stable [OF u'(2), of tl b] u(4,5) u'(4) by (simp add: node_at_def)
      show "?safe (put_cae ?j e (DW (qn_next n2) (add64 (hi e) 1)) (\<lambda>ok.
          enqueue_opt_loop (set_queue w d) N n a (c \<or> \<not> ok) (count_put_fail l'))) (u', K')"
        unfolding b
        by (rule help_safe [OF u'(1) j tl(1) u'(4) b], rule again [OF _ ord_queue_trans [OF ord_queue_trans [OF u(2) u'(2)]]])
          (use u u' hist_rely_proj in auto)
    qed
    have "?safe (checked (\<lambda>s. ?j < length (put_desc s)) (load (\<lambda>s. hi (put_desc s ! ?j)) (\<lambda>get_count.
        if thread_PWindow l' \<le> get_count then enqueue_opt_loop (set_queue w d) N n a c l'
        else load_field qn_next (Some tl) (\<lambda>nx. if nx = None then ?link else ?move)))) (t, H')"
      apply (rule lin_checked, rule t, erule inv_queue_index(1), rule j)
      apply (rule lin_load, rule t, rule grd_queue_refl)
      subgoal premises q for t1 H1
      proof (cases "thread_PWindow l' \<le> hi (put_desc t1 ! ?j)")
        case True
        then show ?thesis using again [OF q(1,2), of l' c] q(4) P by simp
      next
        case False
        have kPW: "k < thread_PWindow l'"
          using False tl(3) core_queue_simps(5) [OF ord_core [OF q(2)], of ?j] by (simp add: puts_queue_def)
        obtain n1 where n1: "qnodes t1 tl = Some n1"
          using written_onceD [OF core_queue_simps(7) [OF ord_core [OF q(2)]] tl(4)] by metis
        have "?safe (load_field qn_next (Some tl) (\<lambda>nx. if nx = None then ?link else ?move)) (t1, H1)"
        proof (rule load_field_safe [OF q(1) n1])
          fix t2 H2 n2 assume t2: "inv_queue w d opss (t2, H2)" "ord_queue w i t1 t2" "proj i H2 = proj i H1" "qnodes t2 tl = Some n2"
          have o: "ord_queue w i t t2" and P2: "proj i H2 = P" using ord_queue_trans [OF q(2) t2(2)] t2(3) q(4) P by simp_all
          show "?safe (if qn_next n2 = None then ?link else ?move) (t2, H2)"
            using link [OF t2(1) o P2 kPW] assist [OF t2(1) o P2 t2(4)] by (cases "qn_next n2") auto
        qed
        then show ?thesis using False by simp
      qed
      done
    then show "?safe (if \<not> thread_GWindow l' \<le> thread_PWindow l' then Stop Assert_failed
        else if \<not> hi e < thread_PWindow l' then Stop Assert_failed
        else checked (\<lambda>s. ?j < length (put_desc s)) (load (\<lambda>s. hi (put_desc s ! ?j)) (\<lambda>get_count.
        if thread_PWindow l' \<le> get_count then enqueue_opt_loop (set_queue w d) N n a c l'
        else load_field qn_next (lo e) (\<lambda>nx. if nx = None
          then enq_cas_2dd (lo e) a (\<lambda>ok. if ok then put_cae ?j e (DW (Some a) (add64 (hi e) 1)) (\<lambda>_. Ret (1, l'))
            else enqueue_opt_loop (set_queue w d) N n a True (count_put_fail l'))
          else load_field qn_next (lo e) (\<lambda>nx. put_cae ?j e (DW nx (add64 (hi e) 1)) (\<lambda>ok.
            enqueue_opt_loop (set_queue w d) N n a (c \<or> \<not> ok) (count_put_fail l'))))))) (t, H')"
      unfolding tl(1) using asserts by simp
  qed
qed


lemma enqueue_opt_safe:
  assumes J: "inv_queue w d opss (s, H)" and "proj i H = P" and "prefix (map fst P @ [Enqueue key v]) (opss ! i)"
    and "i < length opss" and l: "opt_local w d i l s" and "w < U16"
  shows "safe_queue w d opss i (opt_post w d opss i P (Enqueue key v)) (enqueue_opt (set_queue w d) N n key v l) (s, H)"
  unfolding enqueue_opt_def create_node_opt_def create_node_queue_def Let_def
  apply (rule lin_store, rule J)
  subgoal premises q for t H'
  proof -
    let ?a = "Node (thread_id l) (alloc_next l)" and ?n = "\<lparr>qn_key = key, qn_val = v, qn_next = None\<rparr>"
    let ?t = "t\<lparr>qnodes := (qnodes t)(?a \<mapsto> ?n)\<rparr>" and ?l = "l\<lparr>alloc_next := alloc_next l + 1\<rparr>"
    have lt: "opt_local w d i l t" by (rule opt_local_stable [OF l q(2)])
    have i: "thread_id l = i" using lt by (simp add: opt_local_def queue_local_def)
    have a: "qnodes t (Node i (alloc_next l)) = None" "\<not> linked_node w t (Node i (alloc_next l))"
      using lt by (auto simp: opt_local_def queue_local_def)
    note w = alloc_queue [OF q(1) a(1), of ?n, folded i]
    have "opt_local w d i ?l ?t" using lt w by (auto simp: opt_local_def queue_local_def i)
    moreover have "private_queue w i ?a v ?t" using a w by (simp add: private_queue_def i)
    ultimately have "safe_queue w d opss i (opt_post w d opss i P (Enqueue key v)) (enqueue_opt_loop (set_queue w d) N n ?a False ?l) (?t, H')"
      by (intro enqueue_opt_loop_safe conjunct1 [OF w]) (use q assms in auto)
    then show ?thesis using w i by (intro exI [of _ "[]"]) simp
  qed
  done

text \<open>Taking the head, when a value is known to be behind it.\<close>

lemma take_head_opt_safe:
  assumes J: "inv_queue w d opss (s, H)" and j: "j < w" and hd: "lo e = Some a" "walk (qnodes s) j k = Some a" "k < puts_queue s j"
    and l: "opt_local w d i l s" "thread_put_index l = j" and P: "proj i H = P"
    and step: "prefix (map fst P @ [Dequeue]) (opss ! i)" "i < length opss"
    and again: "\<And>t H'. inv_queue w d opss (t, H') \<Longrightarrow> ord_queue w i s t \<Longrightarrow> proj i H' = P \<Longrightarrow>
      safe_queue w d opss i (opt_post w d opss i P Dequeue) p (t, H')"
  shows "safe_queue w d opss i (opt_post w d opss i P Dequeue)
    (load_field qn_next (Some a) (\<lambda>nx. deq_cae_2dd j e (DW nx (add64 (hi e) 1)) (\<lambda>ok.
       if ok then load_field qn_val nx (\<lambda>v. Ret (v, l)) else p))) (s, H)"
proof -
  obtain na where na: "qnodes s a = Some na" using inv_queue_alloc [OF J j hd(2)] by blast
  show ?thesis
  proof (rule load_field_safe [OF J na])
    fix u K n1 assume u: "inv_queue w d opss (u, K)" "ord_queue w i s u" "proj i K = proj i H" "qnodes u a = Some n1"
    have w: "walk (qnodes u) j k = Some a" by (rule ord_walk [OF u(2) hd(2)])
    have lt: "k < puts_queue u j" using hd(3) core_queue_simps(5) [OF ord_core [OF u(2)], of j] by linarith
    obtain x where x: "rep_sub u j x" by (rule inv_queue_sub [OF u(1) j])
    have "Suc k \<le> snd x" using lt rep_subD(2) [OF x] by linarith
    then obtain b where b: "walk (qnodes u) j (Suc k) = Some b" using rep_sub_walk_iff [OF x, of "Suc k"] by auto
    have nx: "qn_next n1 = Some b" using walk_next [OF w u(4)] b by simp
    have Pu: "proj i K = P" using u(3) P by simp
    show "safe_queue w d opss i (opt_post w d opss i P Dequeue) (deq_cae_2dd j e (DW (qn_next n1) (add64 (hi e) 1)) (\<lambda>ok.
       if ok then load_field qn_val (qn_next n1) (\<lambda>v. Ret (v, l)) else p)) (u, K)"
      unfolding nx
    proof (rule deq_cae_rest_safe [OF u(1) j hd(1) w b lt Pu step])
      show "safe_queue w d opss i (opt_post w d opss i P Dequeue) p (t, H')"
        if "inv_queue w d opss (t, H')" "ord_queue w i u t" "proj i H' = P" for t H'
        by (rule again [OF that(1) ord_queue_trans [OF u(2) that(2)] that(3)])
      fix t H' n m assume t: "inv_queue w d opss (t, H')" "ord_queue w i u t" "proj i H' = P @ [(Dequeue, qn_val n, j)]"
        "qnodes t b = Some n"
      show "safe_queue w d opss i (opt_post w d opss i P Dequeue) (load_field qn_val (Some b) (\<lambda>v. Ret (v, l))) (t, H')"
        by (rule return_value_safe [OF t(1,4)])
          (use t l opt_local_stable [OF opt_local_stable [OF opt_local_stable [OF l(1) u(2)] t(2)]] in \<open>auto simp: opt_post_def\<close>)
    qed
  qed
qed

lemma dequeue_opt_loop_safe:
  assumes "inv_queue w d opss (s, H)" and "proj i H = P" and "prefix (map fst P @ [Dequeue]) (opss ! i)"
    and "i < length opss" and "opt_local w d i l s" and "thread_PWindow l \<le> global_PWindow s" and "d dvd thread_PWindow l"
    and w16: "w < U16"
  shows "safe_queue w d opss i (opt_post w d opss i P Dequeue) (dequeue_opt_loop (set_queue w d) N n c l) (s, H)"
  using assms(1-7)
proof (induction n arbitrary: s H l c)
  case 0
  then show ?case by (simp add: no_fuel_def)
next
  case (Suc n)
  let ?safe = "safe_queue w d opss i (opt_post w d opss i P Dequeue)"
  have ql: "queue_local w i l s" and idx: "thread_get_index l < w"
    using Suc.prems(5) by (simp_all add: opt_local_def queue_local_def)
  show ?case
    unfolding dequeue_opt_loop.simps Let_def opt_cae_eq
  proof (rule window_queue.get_window_opt_safe [OF Suc.prems(1)])
    show "thread_get_index l < width (set_queue w d)" "kept_opt (width (set_queue w d)) (depth (set_queue w d)) l l"
      "width (set_queue w d) < U16" "thread_PWindow l \<le> global_PWindow s" "depth (set_queue w d) dvd thread_PWindow l"
      using idx opt_local_kept [OF Suc.prems(5)] w16 Suc.prems by simp_all
    fix t H' e l' assume t: "inv_queue w d opss (t, H')" "ord_queue w i s t" "hist_rely i H H'"
      and l': "thread_put_index l' < width (set_queue w d)" "thread_get_index l' = thread_put_index l'"
        "kept_opt (width (set_queue w d)) (depth (set_queue w d)) l l'"
        "thread_PWindow l' = thread_PWindow l" "thread_GWindow l' \<le> global_GWindow t"
      and got: "window_queue.got_counts w d (thread_put_index l') e t"
      and sure: "thread_GWindow l' < thread_PWindow l' \<Longrightarrow> get_count (set_queue w d) e < puts_queue t (thread_put_index l')"
    let ?j = "thread_put_index l'"
    have j: "?j < w" and P: "proj i H' = P" using l'(1) t(3) Suc.prems(2) hist_rely_proj [OF t(3)] by auto
    have loc: "opt_local w d i l' t"
      by (rule opt_local_more [OF queue_local_stable [OF ql t(2)] j l'(2) _ l'(5) w16]) (use l'(3) in simp)
    have PW: "thread_PWindow l' \<le> global_PWindow t" "d dvd thread_PWindow l'"
      using Suc.prems(6,7) l'(4) core_queue_simps(1) [OF ord_core [OF t(2)]] by simp_all
    have "known_head w ?j e t" using got by (simp add: window_queue.got_counts_def)
    then obtain k a na where hd: "lo e = Some a" "walk (qnodes t) ?j k = Some a" "k \<le> gets_queue t ?j" "qnodes t a = Some na"
      by (rule known_head_valid [OF _ t(1) j])
    have le: "k \<le> hi e" using known_head_count [OF \<open>known_head w ?j e t\<close> inv_queue_ok(7) [OF t(1)] j hd(1,2)] by simp
    have again: "?safe (dequeue_opt_loop (set_queue w d) N n c' l1) (u, K)"
      if "inv_queue w d opss (u, K)" "ord_queue w i t u" "proj i K = P" "l1 = l' \<or> l1 = count_get_fail l'" for u K c' l1
    proof (rule Suc.IH [OF that(1,3) Suc.prems(3,4)])
      have same: "thread_PWindow l1 = thread_PWindow l'" using that(4) by (auto simp: count_get_fail_def)
      show "opt_local w d i l1 u" using that(4) opt_local_stable [OF loc that(2)] by auto
      show "thread_PWindow l1 \<le> global_PWindow u" "d dvd thread_PWindow l1"
        using PW core_queue_simps(1) [OF ord_core [OF that(2)]] same by simp_all
    qed
    let ?take = "load_field qn_next (Some a) (\<lambda>nx. deq_cae_2dd ?j e (DW nx (add64 (hi e) 1)) (\<lambda>ok.
       if ok then load_field qn_val nx (\<lambda>v. Ret (v, l')) else dequeue_opt_loop (set_queue w d) N n True (count_get_fail l')))"
    have take: "?safe ?take (u, K)" if u: "inv_queue w d opss (u, K)" "ord_queue w i t u" "proj i K = P" and k: "k < puts_queue u ?j" for u K
      by (rule take_head_opt_safe [OF u(1) j hd(1) ord_walk [OF u(2) hd(2)] k opt_local_stable [OF loc u(2)] refl u(3) Suc.prems(3,4)])
        (rule again [OF _ ord_queue_trans [OF u(2)]], auto)
    have "?safe (checked (\<lambda>s. ?j < length (put_desc s)) (load2 (\<lambda>s. put_desc s ! ?j) (\<lambda>enq_descriptor.
        if thread_GWindow l' < thread_PWindow l' then ?take
        else if Some a = lo enq_descriptor then
          load_field qn_next (Some a) (\<lambda>nx. if nx = None then Ret (0, count_null l')
          else load_field qn_next (lo enq_descriptor) (\<lambda>nx.
            put_cae ?j enq_descriptor (DW nx (add64 (hi enq_descriptor) 1)) (\<lambda>ok.
            dequeue_opt_loop (set_queue w d) N n (c \<or> \<not> ok) l')))
        else ?take))) (t, H')"
      unfolding load2_def
      apply (rule lin_checked, rule t, erule inv_queue_index(1), rule j)
      apply (rule lin_load, rule t, rule grd_queue_refl)
      subgoal premises q for t1 H1
        apply (rule lin_load, rule q, rule grd_queue_refl)
        subgoal premises r for t2 H2
        proof -
          let ?e = "DW (lo (put_desc t1 ! ?j)) (hi (put_desc t2 ! ?j))"
          have o2: "ord_queue w i t t2" by (rule ord_queue_trans [OF q(2) r(2)])
          have P2: "proj i H2 = P" using r(4) q(4) P by simp
          obtain b nb where tail: "lo (put_desc t1 ! ?j) = Some b" "walk (qnodes t1) ?j (puts_queue t1 ?j) = Some b"
            by (rule inv_queue_tail [OF q(1) j])
          obtain na2 where na2: "qnodes t2 a = Some na2"
            using written_onceD [OF core_queue_simps(7) [OF ord_core [OF o2]] hd(4)] by metis
          note core1 = core_queue_simps [OF ord_core [OF q(2)]] and core2 = core_queue_simps [OF ord_core [OF r(2)]]
          consider (ahead) "thread_GWindow l' < thread_PWindow l'" | (same) "\<not> thread_GWindow l' < thread_PWindow l'" "a = b"
            | (apart) "\<not> thread_GWindow l' < thread_PWindow l'" "a \<noteq> b" by blast
          then show ?thesis
          proof cases
            case ahead
            have "k < puts_queue t ?j" using sure [OF ahead] le by simp
            then have "k < puts_queue t2 ?j" using core1(5) [of ?j] core2(5) [of ?j] by linarith
            then show ?thesis using take [OF r(1) o2 P2] ahead by simp
          next
            case same
            have "?safe (load_field qn_next (Some a) (\<lambda>nx. if nx = None then Ret (0, count_null l')
                else load_field qn_next (Some a) (\<lambda>nx. put_cae ?j ?e (DW nx (add64 (hi ?e) 1)) (\<lambda>ok.
                  dequeue_opt_loop (set_queue w d) N n (c \<or> \<not> ok) l')))) (t2, H2)"
            proof (rule deq_same_safe [OF r(1) j hd(2,3) o2 na2 _ P2 Suc.prems(3,4)])
              show "lo ?e = Some a" using tail same by simp
              show "opt_post w d opss i P Dequeue (0, count_null l') (u, K)"
                if "inv_queue w d opss (u, K)" "ord_queue w i t2 u" "proj i K = P @ [(Dequeue, 0, ?j)]" for u K
                using that opt_local_stable [OF loc ord_queue_trans [OF o2]] by (simp add: opt_post_def)
              show "?safe (dequeue_opt_loop (set_queue w d) N n (c \<or> \<not> ok) l') (u, K)"
                if "inv_queue w d opss (u, K)" "ord_queue w i t2 u" "proj i K = P" for u K ok
                by (rule again [OF that(1) ord_queue_trans [OF o2 that(2)] that(3)]) simp
            qed
            then show ?thesis using tail(1) same by (simp cong: if_cong)
          next
            case apart
            have le1: "k \<le> puts_queue t1 ?j"
              using hd(3) core1(6) [of ?j] counts_ok_nth [OF inv_queue_ok(6) [OF q(1)] j] by linarith
            have "walk (qnodes t1) ?j k = Some a" by (rule ord_walk [OF q(2) hd(2)])
            then have "k \<noteq> puts_queue t1 ?j" using tail(2) apart by auto
            then have "k < puts_queue t2 ?j" using le1 core2(5) [of ?j] by linarith
            then show ?thesis using take [OF r(1) o2 P2] apart tail(1) by simp
          qed
        qed
        done
      done
    then show "?safe (checked (\<lambda>s. thread_get_index l' < length (put_desc s)) (load2 (\<lambda>s. put_desc s ! thread_get_index l') (\<lambda>enq_descriptor.
        if thread_GWindow l' < thread_PWindow l'
        then load_field qn_next (lo e) (\<lambda>nx. deq_cae_2dd (thread_get_index l') e (DW nx (add64 (hi e) 1)) (\<lambda>ok.
          if ok then load_field qn_val nx (\<lambda>v. Ret (v, l')) else dequeue_opt_loop (set_queue w d) N n True (count_get_fail l')))
        else if lo e = lo enq_descriptor then
          load_field qn_next (lo e) (\<lambda>nx. if nx = None then Ret (0, count_null l')
          else load_field qn_next (lo enq_descriptor) (\<lambda>nx.
            put_cae (thread_get_index l') enq_descriptor (DW nx (add64 (hi enq_descriptor) 1)) (\<lambda>ok.
            dequeue_opt_loop (set_queue w d) N n (c \<or> \<not> ok) l')))
        else load_field qn_next (lo e) (\<lambda>nx. deq_cae_2dd (thread_get_index l') e (DW nx (add64 (hi e) 1)) (\<lambda>ok.
          if ok then load_field qn_val nx (\<lambda>v. Ret (v, l')) else dequeue_opt_loop (set_queue w d) N n True (count_get_fail l')))))) (t, H')"
      unfolding hd(1) l'(2) .
  qed
qed

lemma dequeue_opt_safe:
  assumes J: "inv_queue w d opss (s, H)" and P: "proj i H = P" and step: "prefix (map fst P @ [Dequeue]) (opss ! i)" "i < length opss"
    and l: "opt_local w d i l s" and w16: "w < U16"
  shows "safe_queue w d opss i (opt_post w d opss i P Dequeue) (dequeue_opt (set_queue w d) N n l) (s, H)"
  unfolding dequeue_opt_def
  apply (rule lin_load, rule J, rule grd_queue_refl)
  subgoal premises q for t H'
  proof (rule dequeue_opt_loop_safe [OF q(1) _ step _ _ _ w16])
    have "opt_local w d i l t" by (rule opt_local_stable [OF l q(2)])
    then show "opt_local w d i (l\<lparr>thread_PWindow := global_PWindow t\<rparr>) t" by (simp add: opt_local_def queue_local_def)
    show "d dvd thread_PWindow (l\<lparr>thread_PWindow := global_PWindow t\<rparr>)"
      using inv_queue_ok(6) [OF q(1)] by (simp add: counts_ok_def)
  qed (use q P in simp_all)
  done


section \<open>Linearizability\<close>

interpretation lin_opt: lin_object "no_wrap_queue d" no_fuel "inv_queue w d opss" "ord_queue w" "grd_queue w"
  "opt_local w d" "spec_queue d" "replicate w ([], 0)" "\<lambda>s q. rep_queue s q \<and> queue_ok w d s"
  "queue_opt_op (set_queue w d) N n" opss for w d N n opss
proof unfold_locales
  show "op_ok (no_wrap_queue d) no_fuel (inv_queue w d opss) (ord_queue w) (grd_queue w) (opt_local w d) opss i op
      (queue_opt_op (set_queue w d) N n)" if "i < length opss" for i op
  proof (rule op_okI)
    fix l :: thread_opt and s H P
    assume J: "inv_queue w d opss (s, H)" "opt_local w d i l s" "proj i H = P" "prefix (map fst P @ [op]) (opss ! i)"
    have w16: "w < U16" using J(2) by (simp add: opt_local_def)
    let ?Q = "\<lambda>(r, l) (s', H'). inv_queue w d opss (s', H') \<and> opt_local w d i l s' \<and> proj i H' = P @ [(op, r)]"
    have fin: "safe_queue w d opss i ?Q (bind p (\<lambda>(r, l). Ret ((r, thread_put_index l), l))) (s, H)"
      "safe_queue w d opss i ?Q (bind p (\<lambda>(r, l). Ret ((r, thread_get_index l), l))) (s, H)"
      if "safe_queue w d opss i (opt_post w d opss i P op) p (s, H)" for p
      by (rule safe_bind [OF safe_weaken [OF that]], auto simp: opt_post_def lin_rely_def ord_queue_refl opt_local_stable
          opt_local_indices dest!: hist_rely_proj)+
    show "safe_queue w d opss i ?Q (queue_opt_op (set_queue w d) N n op l) (s, H)"
      using fin enqueue_opt_safe [OF J(1,3) _ that J(2) w16] dequeue_opt_safe [OF J(1,3) _ that J(2) w16] J(4)
      by (cases op) simp_all
  qed
  show "\<exists>q. replay (spec_queue d) (replicate w ([], 0)) H = Some q \<and> rep_queue s q \<and> queue_ok w d s"
    if "inv_queue w d opss (s, H)" for s H
    using that inv_queue_ok [OF that] unfolding inv_queue_def by auto
qed (auto simp: ord_queue_refl intro: grd_ord_queue opt_local_stable elim: ord_queue_trans)

text \<open>What \<open>create_queue\<close> returns: dimensions of 16 bits, a positive depth, and an empty queue.\<close>

lemma dimensions_opt_16: "dimensions_opt n w d k_mode k = Inr (w', d', k') \<Longrightarrow> w < U16 \<Longrightarrow> w' < U16"
  by (auto simp: dimensions_opt_def fixed_width_opt_def U16_def Let_def split: if_splits)

lemma create_queue_opt_state:
  assumes "create_queue_opt alloc_ok n w d k_mode k = Inr (D, k', s)" and "w < U16"
  obtains w' d' where "D = set_queue w' d'" "s = init_queue_2dd w' d'" "w' < U16" "0 < d'"
proof -
  obtain w' d' k2 where dim: "dimensions_opt n w d k_mode k = Inr (w', d', k2)"
    using assms(1) by (auto simp: create_queue_opt_def split: sum.splits)
  then have "D = set_queue w' d'" "s = init_queue_2dd w' d'" "0 < d'"
    using assms(1) by (auto simp: create_queue_opt_def initialize_global_window_opt_def init_queue_2dd_def
        initialize_global_window_def split: if_splits)
  then show ?thesis using that dimensions_opt_16 [OF dim assms(2)] by blast
qed

definition new_thread_opt :: "(queue_2dd, qaddr option, nat) dset \<Rightarrow> nat \<Rightarrow> seeds \<Rightarrow> thread_opt" where
  "new_thread_opt D i sd = queue_register_opt D
     \<lparr>seeds = sd, thread_index = 0, my_put_cas_fail_count = 0, my_get_cas_fail_count = 0,
      my_null_count = 0, my_hop_count = 0, my_slide_count = 0, thread_PWindow = 0, thread_GWindow = 0,
      thread_id = i, alloc_next = 0, thread_get_index = 0, thread_depth = 0, thread_width = 0\<rparr>"

definition opt_threads :: "(queue_2dd, qaddr option, nat) dset \<Rightarrow> (queue_op list \<times> seeds) list \<Rightarrow>
    (queue_op list \<times> thread_opt) list" where
  "opt_threads D ths = map (\<lambda>i. (fst (ths ! i), new_thread_opt D i (snd (ths ! i)))) [0..<length ths]"

lemma opt_local_init: "0 < w \<Longrightarrow> w < U16 \<Longrightarrow> opt_local w d i (new_thread_opt (set_queue w d) i sd) (init_queue_2dd w d)"
  by (auto simp: opt_local_def queue_local_def new_thread_opt_def queue_register_opt_def linked_node_def walk_init)
    (simp add: init_queue_2dd_def initialize_global_window_def)

text \<open>
  C37: the optimised 2Dd queue, in every state \<open>create_queue\<close> can return for it, is linearizable to
  the specification of the 2Dd queue: an array of sequential queues, an enqueue only on one that
  is less than \<open>depth\<close> ahead, a dequeue empty only on an empty one. The assertions of \<open>enqueue\<close>
  that the put window is not behind the get window never fail, the node that a dequeue takes
  without a look at the tail always exists, and no index is out of bounds.
\<close>

theorem queue_opt_linearizable:
  assumes "create_queue_opt alloc_ok num_threads w d k_mode k = Inr (D, k', s)" and "w < U16" and "0 < width D"
  shows "linearizable (no_wrap_queue (depth D)) no_fuel (spec_queue (depth D)) (replicate (width D) ([], 0))
     (\<lambda>s q. rep_queue s q \<and> queue_ok (width D) (depth D) s) (map fst ths)
     (s, threads (queue_opt_op D N n) (opt_threads D ths))"
proof -
  obtain w' d' where c: "D = set_queue w' d'" "s = init_queue_2dd w' d'" "w' < U16" "0 < d'"
    by (rule create_queue_opt_state [OF assms(1,2)])
  have w': "0 < w'" "w' < U32" using assms(3) c by (simp_all add: U16_def U32_def)
  have m: "map fst (opt_threads D ths) = map fst ths"
    by (auto simp: opt_threads_def intro: nth_equalityI)
  have "linearizable (no_wrap_queue d') no_fuel (spec_queue d') (replicate w' ([], 0))
     (\<lambda>s q. rep_queue s q \<and> queue_ok w' d' s) (map fst (opt_threads D ths))
     (init_queue_2dd w' d', threads (queue_opt_op (set_queue w' d') N n) (opt_threads D ths))"
    by (rule lin_opt.linearizable_threads)
      (use w' c inv_queue_init opt_local_init m in \<open>auto simp: opt_threads_def\<close>)
  then show ?thesis using c m by simp
qed

lemma queue_opt_linearizable_witness:
  "\<exists>D k' s. create_queue_opt True 2 3 0 1 8 = Inr (D, k', s) \<and> width D = 3 \<and> depth D = 4 \<and>
     linearizable (no_wrap_queue 4) no_fuel (spec_queue 4) (replicate 3 ([], 0))
     (\<lambda>s q. rep_queue s q \<and> queue_ok 3 4 s) [[Enqueue 3 7, Dequeue], [Enqueue 4 8]]
     (s, threads (queue_opt_op D 20 5) (opt_threads D [([Enqueue 3 7, Dequeue], (1, 2, 3)), ([Enqueue 4 8], (4, 5, 6))]))"
proof -
  obtain k' s where c: "create_queue_opt True 2 3 0 1 8 = Inr (set_queue 3 4, k', s)"
    by (simp add: create_queue_opt_def dimensions_opt_def fixed_width_opt_def initialize_global_window_opt_def U16_def)
  show ?thesis
    using c queue_opt_linearizable [OF c, of "[([Enqueue 3 7, Dequeue], (1, 2, 3)), ([Enqueue 4 8], (4, 5, 6))]" 20 5]
    by (intro exI [of _ "set_queue 3 4"] exI [of _ k'] exI [of _ s]) (simp add: U16_def)
qed


end
