(* ===== verification/Spec2Isabelle.thy ===== *)
theory Spec2Isabelle
  imports Locks Lock_Clh Lock_Mcs Counter_Cas Counter_Single Counter_Multi Counter_2Dd Stack_2Dd Queue_2Dd Multi_Stack Ms_Single Dcbo_Ms Treiber Counter_2Dc Stack_2Dc Relaxation_Queue Relaxation_Stamps Relaxation_Counter Queue_Dra Ssalloc Queue_2Dd_Opt
begin

text \<open>
  A verification development for the relaxed concurrent data structures of this repository.
\<close>

end
